(* ===== verification/Prelude.thy ===== *)
theory Prelude
  imports Main "HOL-Library.Word" "HOL-Library.Char_ord" "HOL-Library.List_Lexorder"
    "HOL-Library.Multiset"
begin

text \<open>
  Shared vocabulary of the development: the C library functions the sources call on strings and
  characters, the collections of simplification rules the component theories fill, and the list
  lemmas several components need.

  A C string is modelled as the list of its characters up to, and without, the terminating NUL; a
  \<open>const char *\<close> that walks over a string is the suffix it still has to read, so \<open>*p == 0\<close> is
  the empty suffix. The C standard fixes only the sign of \<open>strcmp\<close>; the model returns -1, 0, 1.
\<close>

named_theorems consumes \<open>parsers return a shorter suffix\<close>
named_theorems inv_pres \<open>operations keep the invariant of their component\<close>
named_theorems lens \<open>operations keep the length of their tables\<close>

section \<open>Characters\<close>

definition isspace :: "char \<Rightarrow> bool" where
  "isspace c \<longleftrightarrow> c = CHR 0x20 \<or> c = CHR 0x09 \<or> c = CHR 0x0A \<or> c = CHR 0x0B \<or> c = CHR 0x0C
     \<or> c = CHR 0x0D"

definition isdigit :: "char \<Rightarrow> bool" where
  "isdigit c \<longleftrightarrow> CHR ''0'' \<le> c \<and> c \<le> CHR ''9''"

definition digit_val :: "char \<Rightarrow> int" where
  "digit_val c = of_char c - 48"

text \<open>\<open>rtrim\<close>: what is left of a buffer after NULs were written over its trailing white space.\<close>

definition rtrim :: "string \<Rightarrow> string" where
  "rtrim s = rev (dropWhile isspace (rev s))"

section \<open>Comparison\<close>

fun strcmp :: "string \<Rightarrow> string \<Rightarrow> int" where
  "strcmp [] [] = 0"
| "strcmp [] (_ # _) = -1"
| "strcmp (_ # _) [] = 1"
| "strcmp (c # cs) (d # ds) = (if c = d then strcmp cs ds else if c < d then -1 else 1)"

lemma strcmp_eq_0 [simp]: "strcmp s t = 0 \<longleftrightarrow> s = t"
  by (induction s t rule: strcmp.induct) auto

lemma strcmp_le_iff: "strcmp s t \<le> 0 \<longleftrightarrow> s \<le> t"
  by (induction s t rule: strcmp.induct) auto

lemma strcmp_gt_iff: "0 < strcmp s t \<longleftrightarrow> t < s"
  using strcmp_le_iff [of s t] by auto

text \<open>\<open>strncmp (p, q, n)\<close> with \<open>n = strlen q\<close> compares equal exactly when \<open>q\<close> is a prefix.\<close>

definition strncmp_eq :: "string \<Rightarrow> string \<Rightarrow> nat \<Rightarrow> bool" where
  "strncmp_eq p q n \<longleftrightarrow> take n p = take n q"

section \<open>Conversion\<close>

text \<open>
  \<open>to_int32\<close> is the conversion of a wider integer to a 32-bit \<open>int\<close> (gcc reduces modulo 2^32).
  \<open>strtol\<close> in base 10 skips white space, takes an optional sign and the digits that follow,
  clamps to the range of a 64-bit \<open>long\<close>, and returns the value with the suffix \<open>endptr\<close> points
  at; without a digit it converts nothing and \<open>endptr\<close> is the whole string.
\<close>

definition to_int32 :: "int \<Rightarrow> int" where
  "to_int32 i = signed_take_bit 31 i"

definition digits_value :: "string \<Rightarrow> int" where
  "digits_value ds = foldl (\<lambda>acc c. acc * 10 + digit_val c) 0 ds"

definition clamp_long :: "int \<Rightarrow> int" where
  "clamp_long i = max (- (2 ^ 63)) (min (2 ^ 63 - 1) i)"

definition strtol :: "string \<Rightarrow> int \<times> string" where
  "strtol s =
     (let t = dropWhile isspace s;
          neg = (case t of c # _ \<Rightarrow> c = CHR ''-'' | [] \<Rightarrow> False);
          u = (case t of c # cs \<Rightarrow> if c = CHR ''-'' \<or> c = CHR ''+'' then cs else t | [] \<Rightarrow> t);
          ds = takeWhile isdigit u
      in if ds = [] then (0, s)
         else (clamp_long (if neg then - digits_value ds else digits_value ds),
               dropWhile isdigit u))"

definition atoi :: "string \<Rightarrow> int" where
  "atoi s = to_int32 (fst (strtol s))"

text \<open>C's \<open>%\<close> truncates towards zero: the remainder has the sign of the dividend.\<close>

definition c_rem :: "int \<Rightarrow> int \<Rightarrow> int" where
  "c_rem a b = sgn a * (\<bar>a\<bar> mod \<bar>b\<bar>)"

lemma c_rem_bounds:
  assumes "0 < b" shows "- b < c_rem a b" "c_rem a b < b"
proof -
  have "- b < x mod b" "x mod b < b" "- b < - (x mod b)" "- (x mod b) < b" for x :: int
    using assms pos_mod_bound [OF assms, of x] pos_mod_sign [OF assms, of x] by linarith+
  then show "- b < c_rem a b" "c_rem a b < b"
    using assms by (auto simp: c_rem_def sgn_if abs_if)
qed

lemma to_int32_bounds: "- (2 ^ 31) \<le> to_int32 i" "to_int32 i < 2 ^ 31"
  using signed_take_bit_int_greater_eq_minus_exp [of 31 i]
    signed_take_bit_int_less_exp [of 31 i] by (simp_all add: to_int32_def)

section \<open>Output\<close>

text \<open>
  A call of \<open>printf\<close> is recorded as its format string with its arguments, a call of \<open>perror\<close> as
  its message; the output of a run is the list of the calls, oldest first.
\<close>

datatype parg = D int | S string

datatype printed = Printf string "parg list" | Perror string

section \<open>Lists\<close>

lemma length_dropWhile_lt [consumes]:
  "xs \<noteq> [] \<Longrightarrow> P (hd xs) \<Longrightarrow> length (dropWhile P xs) < length xs"
  by (cases xs) (auto simp: le_imp_less_Suc length_dropWhile_le)

lemma takeWhile_Nil_iff: "takeWhile P xs = [] \<longleftrightarrow> xs = [] \<or> \<not> P (hd xs)"
  by (cases xs) auto

lemma rtrim_Nil_iff: "rtrim s = [] \<longleftrightarrow> (\<forall>c \<in> set s. isspace c)"
  by (simp add: rtrim_def)

lemma hd_rtrim: "rtrim s \<noteq> [] \<Longrightarrow> hd (rtrim s) = hd s"
proof (induction s)
  case Nil
  then show ?case by (simp add: rtrim_def)
next
  case (Cons a s)
  then show ?case
    by (cases "rtrim s = []") (auto simp: rtrim_def dropWhile_append hd_append split: if_splits)
qed

text \<open>
  The scan \<open>for (i = 0; i < N; i++) if (P (t[i])) return i;\<close> that every table of the sources is
  searched with: the first index that satisfies the test.
\<close>

fun first_index :: "('a \<Rightarrow> bool) \<Rightarrow> 'a list \<Rightarrow> nat option" where
  "first_index P [] = None"
| "first_index P (x # xs) = (if P x then Some 0 else map_option Suc (first_index P xs))"

lemma first_index_None: "first_index P xs = None \<longleftrightarrow> (\<forall>x \<in> set xs. \<not> P x)"
  by (induction xs) auto

lemma first_index_Some:
  "first_index P xs = Some i \<longleftrightarrow> i < length xs \<and> P (xs ! i) \<and> (\<forall>j < i. \<not> P (xs ! j))"
proof (induction xs arbitrary: i)
  case (Cons x xs)
  show ?case
  proof (cases i)
    case 0
    then show ?thesis by simp
  next
    case (Suc k)
    then have "first_index P (x # xs) = Some i \<longleftrightarrow> \<not> P x \<and> first_index P xs = Some k" by simp
    also have "\<dots> \<longleftrightarrow> \<not> P x \<and> k < length xs \<and> P (xs ! k) \<and> (\<forall>j < k. \<not> P (xs ! j))"
      unfolding Cons.IH ..
    also have "\<dots> \<longleftrightarrow> i < length (x # xs) \<and> P ((x # xs) ! i) \<and> (\<forall>j < i. \<not> P ((x # xs) ! j))"
      unfolding Suc All_less_Suc2 by auto
    finally show ?thesis .
  qed
qed simp

lemma first_index_SomeD:
  assumes "first_index P xs = Some i"
  shows "i < length xs" "P (xs ! i)" "\<And>j. j < i \<Longrightarrow> \<not> P (xs ! j)"
  using assms unfolding first_index_Some by blast+

lemma first_index_unique:
  assumes "i < length xs" "P (xs ! i)" "\<And>j. j < length xs \<Longrightarrow> P (xs ! j) \<Longrightarrow> j = i"
  shows "first_index P xs = Some i"
  unfolding first_index_Some using assms less_trans by blast

section \<open>Sorting by a comparison function\<close>

text \<open>
  Two loops of the shell sort with a comparison function: the exchange sort of \<open>list_jobs\<close> and
  the library's \<open>qsort\<close>. \<open>exchange_pass\<close> is the inner loop of the former for one \<open>i\<close>: its first
  argument is \<open>a[i]\<close>, the list is \<open>a[i + 1 ..]\<close>, and a swap leaves the old \<open>a[i]\<close> at position
  \<open>j\<close>. \<open>qsort\<close> is any sort by the comparison; the model inserts.
\<close>

fun exchange_pass :: "('a \<Rightarrow> 'a \<Rightarrow> int) \<Rightarrow> 'a \<Rightarrow> 'a list \<Rightarrow> 'a \<times> 'a list" where
  "exchange_pass cmp x [] = (x, [])"
| "exchange_pass cmp x (y # ys) =
     (if cmp x y > 0
      then (let (m, r) = exchange_pass cmp y ys in (m, x # r))
      else (let (m, r) = exchange_pass cmp x ys in (m, y # r)))"

lemma length_exchange_pass [lens]: "exchange_pass cmp x ys = (m, r) \<Longrightarrow> length r = length ys"
  by (induction ys arbitrary: x m r) (auto split: if_splits prod.splits)

function exchange_sort :: "('a \<Rightarrow> 'a \<Rightarrow> int) \<Rightarrow> 'a list \<Rightarrow> 'a list" where
  "exchange_sort cmp [] = []"
| "exchange_sort cmp (x # xs) = (let (m, r) = exchange_pass cmp x xs in m # exchange_sort cmp r)"
  by pat_completeness auto
termination
  by (relation "measure (length \<circ> snd)") (auto dest: length_exchange_pass [OF sym])

fun qinsert :: "('a \<Rightarrow> 'a \<Rightarrow> int) \<Rightarrow> 'a \<Rightarrow> 'a list \<Rightarrow> 'a list" where
  "qinsert cmp x [] = [x]"
| "qinsert cmp x (y # ys) = (if cmp x y \<le> 0 then x # y # ys else y # qinsert cmp x ys)"

definition qsort :: "('a \<Rightarrow> 'a \<Rightarrow> int) \<Rightarrow> 'a list \<Rightarrow> 'a list" where
  "qsort cmp xs = foldr (qinsert cmp) xs []"

text \<open>What a comparison function promises: a total preorder.\<close>

locale comparator =
  fixes cmp :: "'a \<Rightarrow> 'a \<Rightarrow> int"
  assumes cmp_asym: "cmp x y > 0 \<Longrightarrow> cmp y x \<le> 0"
    and cmp_trans: "cmp x y \<le> 0 \<Longrightarrow> cmp y z \<le> 0 \<Longrightarrow> cmp x z \<le> 0"
begin

lemma cmp_refl: "cmp x x \<le> 0"
  using cmp_asym [of x x] by linarith

lemma exchange_pass_mset:
  "exchange_pass cmp x ys = (m, r) \<Longrightarrow> add_mset m (mset r) = add_mset x (mset ys)"
proof (induction ys arbitrary: x m r)
  case (Cons y ys)
  show ?case
  proof (cases "cmp x y > 0")
    case True
    with Cons.prems obtain r' where r: "exchange_pass cmp y ys = (m, r')" "r = x # r'"
      by (auto split: prod.splits)
    then show ?thesis using Cons.IH [OF r(1)] by (simp add: add_mset_commute [of m])
  next
    case False
    with Cons.prems obtain r' where r: "exchange_pass cmp x ys = (m, r')" "r = y # r'"
      by (auto split: prod.splits)
    then show ?thesis using Cons.IH [OF r(1)] by (simp add: add_mset_commute)
  qed
qed simp

lemma exchange_pass_min:
  "exchange_pass cmp x ys = (m, r) \<Longrightarrow> cmp m x \<le> 0 \<and> (\<forall>y \<in> set r. cmp m y \<le> 0)"
proof (induction ys arbitrary: x m r)
  case Nil
  then show ?case by (simp add: cmp_refl)
next
  case (Cons y ys)
  show ?case
  proof (cases "cmp x y > 0")
    case True
    with Cons.prems obtain r' where "exchange_pass cmp y ys = (m, r')" "r = x # r'"
      by (auto split: prod.splits)
    with Cons.IH cmp_asym [OF True] show ?thesis by (fastforce intro: cmp_trans)
  next
    case False
    with Cons.prems obtain r' where "exchange_pass cmp x ys = (m, r')" "r = y # r'"
      by (auto split: prod.splits)
    with Cons.IH False show ?thesis by (fastforce intro: cmp_trans)
  qed
qed

lemma exchange_sort_mset: "mset (exchange_sort cmp xs) = mset xs"
proof (induction "length xs" arbitrary: xs)
  case (Suc n)
  then obtain x ys where xs: "xs = x # ys" by (cases xs) auto
  obtain m r where mr: "exchange_pass cmp x ys = (m, r)" by fastforce
  have "length r = n" using Suc.hyps(2) xs length_exchange_pass [OF mr] by simp
  then show ?case using Suc.hyps(1) [of r] exchange_pass_mset [OF mr] by (simp add: xs mr)
qed simp

lemma exchange_sort_sorted: "sorted_wrt (\<lambda>x y. cmp x y \<le> 0) (exchange_sort cmp xs)"
proof (induction "length xs" arbitrary: xs)
  case (Suc n)
  then obtain x ys where xs: "xs = x # ys" by (cases xs) auto
  obtain m r where mr: "exchange_pass cmp x ys = (m, r)" by fastforce
  have "length r = n" using Suc.hyps(2) xs length_exchange_pass [OF mr] by simp
  then have "sorted_wrt (\<lambda>x y. cmp x y \<le> 0) (exchange_sort cmp r)" using Suc.hyps(1) by simp
  moreover have "set (exchange_sort cmp r) = set r"
    using exchange_sort_mset [of r] by (rule mset_eq_setD)
  ultimately show ?case using exchange_pass_min [OF mr] by (simp add: xs mr)
qed simp

lemma qinsert_set: "set (qinsert cmp x xs) = insert x (set xs)"
  by (induction xs) auto

lemma qinsert_sorted:
  "sorted_wrt (\<lambda>x y. cmp x y \<le> 0) xs \<Longrightarrow> sorted_wrt (\<lambda>x y. cmp x y \<le> 0) (qinsert cmp x xs)"
proof (induction xs)
  case (Cons y ys)
  then show ?case
    using cmp_asym [of x y] by (auto simp: qinsert_set intro: cmp_trans)
qed simp

lemma qsort_mset: "mset (qsort cmp xs) = mset xs"
proof -
  have "mset (qinsert cmp x ys) = add_mset x (mset ys)" for x ys by (induction ys) auto
  then show ?thesis by (induction xs) (simp_all add: qsort_def)
qed

lemma qsort_sorted: "sorted_wrt (\<lambda>x y. cmp x y \<le> 0) (qsort cmp xs)"
  by (induction xs) (simp_all add: qsort_def qinsert_sorted)

end

interpretation by_strcmp: comparator strcmp
  by unfold_locales (auto simp: strcmp_le_iff strcmp_gt_iff)

end
