(* ===== verification/ShellSyntax.thy ===== *)
theory ShellSyntax
  imports Prelude
begin

text \<open>
  \<open>shell/src/parser.c\<close>: the syntax check every input line passes before it runs. The recursive
  descent functions keep their names; each takes the suffix \<open>input\<close> points at and returns
  \<open>None\<close> for the code's NULL. \<open>parse_input\<close> builds no syntax tree: it sets \<open>*cmd\<close> to NULL in
  every case, so the model returns its boolean alone. Memory for a name is assumed to be there
  (\<open>malloc\<close> succeeds).
\<close>

section \<open>The parser\<close>

definition is_special_char :: "char \<Rightarrow> bool" where
  "is_special_char c \<longleftrightarrow> c = CHR ''|'' \<or> c = CHR ''&'' \<or> c = CHR ''>'' \<or> c = CHR ''<'' \<or> c = CHR '';''"

definition skip_whitespace :: "string \<Rightarrow> string" where
  "skip_whitespace str = dropWhile isspace str"

definition is_name_char :: "char \<Rightarrow> bool" where
  "is_name_char c \<longleftrightarrow> c \<noteq> CHR 0x00 \<and> \<not> isspace c \<and> \<not> is_special_char c"

definition parse_name :: "string \<Rightarrow> (string \<times> string) option" where
  "parse_name input =
     (let name = takeWhile is_name_char input; end = dropWhile is_name_char input
      in if name = [] then None else Some (name, end))"

definition parse_input_redir :: "string \<Rightarrow> (string \<times> string) option" where
  "parse_input_redir input =
     (case input of
        [] \<Rightarrow> None
      | c # rest \<Rightarrow> if c \<noteq> CHR ''<'' then None else parse_name (skip_whitespace rest))"

definition parse_output_redir :: "string \<Rightarrow> (string \<times> bool \<times> string) option" where
  "parse_output_redir input =
     (case input of
        [] \<Rightarrow> None
      | c # rest \<Rightarrow>
          if c \<noteq> CHR ''>'' then None
          else
            let append = (case rest of d # _ \<Rightarrow> d = CHR ''>'' | [] \<Rightarrow> False);
                input' = (if append then tl rest else rest)
            in case parse_name (skip_whitespace input') of
                 None \<Rightarrow> None
               | Some (filename, end) \<Rightarrow> Some (filename, append, end))"

lemma length_skip_whitespace [consumes]: "length (skip_whitespace s) \<le> length s"
  by (simp add: skip_whitespace_def length_dropWhile_le)

lemma parse_name_consumes [consumes]:
  "parse_name s = Some (n, r) \<Longrightarrow> length r < length s"
  by (auto simp: parse_name_def Let_def takeWhile_Nil_iff intro: length_dropWhile_lt
      split: if_splits)

lemma parse_name_skip_consumes [consumes]:
  "parse_name (skip_whitespace s) = Some (n, r) \<Longrightarrow> length r < length s"
  by (rule less_le_trans [OF parse_name_consumes length_skip_whitespace])

lemma parse_input_redir_consumes [consumes]:
  "parse_input_redir s = Some (n, r) \<Longrightarrow> length r < length s"
  by (auto simp: parse_input_redir_def less_Suc_eq split: list.splits if_splits
      dest!: parse_name_skip_consumes)

lemma parse_output_redir_consumes [consumes]:
  "parse_output_redir s = Some (n, a, r) \<Longrightarrow> length r < length s"
  by (auto simp: parse_output_redir_def Let_def less_Suc_eq
      split: list.splits if_splits option.splits dest!: parse_name_skip_consumes)

text \<open>
  The body of the \<open>while (1)\<close> in \<open>parse_atomic\<close>, past the test for the end of the command: try an
  input redirection, an output redirection and an argument, in this order.
\<close>

definition parse_atomic_part :: "string \<Rightarrow> string option" where
  "parse_atomic_part input =
     (case parse_input_redir input of
        Some (_, next) \<Rightarrow> Some next
      | None \<Rightarrow>
          (case parse_output_redir input of
             Some (_, _, next) \<Rightarrow> Some next
           | None \<Rightarrow>
               (case parse_name input of
                  Some (_, next) \<Rightarrow> Some next
                | None \<Rightarrow> None)))"

lemma parse_atomic_part_consumes [consumes]:
  "parse_atomic_part s = Some r \<Longrightarrow> length r < length s"
  by (auto simp: parse_atomic_part_def split: option.splits
      dest: parse_input_redir_consumes parse_output_redir_consumes parse_name_consumes)

function parse_atomic_loop :: "string \<Rightarrow> string option" where
  "parse_atomic_loop input =
     (let input = skip_whitespace input in
      if input = [] \<or> hd input = CHR ''|'' \<or> hd input = CHR ''&'' \<or> hd input = CHR '';''
      then Some input
      else case parse_atomic_part input of
             None \<Rightarrow> None
           | Some next \<Rightarrow> parse_atomic_loop next)"
  by pat_completeness auto
termination
  by (relation "measure length")
    (auto dest!: parse_atomic_part_consumes intro: less_le_trans [OF _ length_skip_whitespace])

declare parse_atomic_loop.simps [simp del]

definition parse_atomic :: "string \<Rightarrow> string option" where
  "parse_atomic input =
     (case parse_name (skip_whitespace input) of
        None \<Rightarrow> None
      | Some (_, next) \<Rightarrow> parse_atomic_loop next)"

lemma parse_atomic_loop_le [consumes]:
  "parse_atomic_loop s = Some r \<Longrightarrow> length r \<le> length s"
proof (induction s rule: parse_atomic_loop.induct)
  case (1 s)
  have "length (skip_whitespace s) \<le> length s" by (rule length_skip_whitespace)
  with "1.prems" "1.IH" [OF refl] show ?case
    by (fastforce simp: parse_atomic_loop.simps [of s] Let_def split: if_splits option.splits
        dest: parse_atomic_part_consumes)
qed

lemma parse_atomic_consumes [consumes]:
  "parse_atomic s = Some r \<Longrightarrow> length r < length s"
  using length_skip_whitespace [of s]
  by (fastforce simp: parse_atomic_def split: option.splits prod.splits
      dest: parse_name_consumes parse_atomic_loop_le)

text \<open>The loop of \<open>parse_cmd_group\<close> over the commands after a \<open>|\<close>.\<close>

function parse_cmd_group_loop :: "string \<Rightarrow> string option" where
  "parse_cmd_group_loop input =
     (let input = skip_whitespace input in
      if input = [] \<or> hd input \<noteq> CHR ''|'' then Some input
      else case parse_atomic (skip_whitespace (tl input)) of
             None \<Rightarrow> None
           | Some next \<Rightarrow> parse_cmd_group_loop next)"
  by pat_completeness auto
termination
proof (relation "measure length", simp)
  fix input x "next"
  assume *: "x = skip_whitespace input" "\<not> (x = [] \<or> hd x \<noteq> CHR ''|'')"
    "parse_atomic (skip_whitespace (tl x)) = Some next"
  have "length next < length (skip_whitespace (tl x))" using *(3) by (rule parse_atomic_consumes)
  also have "\<dots> \<le> length x" using length_skip_whitespace [of "tl x"] by simp
  also have "\<dots> \<le> length input" using length_skip_whitespace [of input] *(1) by simp
  finally show "(next, input) \<in> measure length" by simp
qed

declare parse_cmd_group_loop.simps [simp del]

definition parse_cmd_group :: "string \<Rightarrow> string option" where
  "parse_cmd_group input =
     (case parse_atomic (skip_whitespace input) of
        None \<Rightarrow> None
      | Some next \<Rightarrow> parse_cmd_group_loop next)"

lemma parse_cmd_group_loop_le [consumes]:
  "parse_cmd_group_loop s = Some r \<Longrightarrow> length r \<le> length s"
proof (induction s rule: parse_cmd_group_loop.induct)
  case (1 s)
  have "length (skip_whitespace s) \<le> length s" by (rule length_skip_whitespace)
  moreover have "length (skip_whitespace (tl (skip_whitespace s))) \<le> length s"
    using length_skip_whitespace [of s] length_skip_whitespace [of "tl (skip_whitespace s)"] by simp
  ultimately show ?case
    using "1.prems" "1.IH" [OF refl]
    by (fastforce simp: parse_cmd_group_loop.simps [of s] Let_def split: if_splits option.splits
        dest: parse_atomic_consumes)
qed

lemma parse_cmd_group_consumes [consumes]:
  "parse_cmd_group s = Some r \<Longrightarrow> length r < length s"
  using length_skip_whitespace [of s]
  by (fastforce simp: parse_cmd_group_def split: option.splits
      dest: parse_atomic_consumes parse_cmd_group_loop_le)

text \<open>
  The loop of \<open>parse_input\<close> over the groups after a \<open>;\<close> or \<open>&\<close>. It ends at the end of the input
  only, so the test after the loop for a left-over character never fires.
\<close>

function parse_input_loop :: "string \<Rightarrow> bool" where
  "parse_input_loop input =
     (let input = skip_whitespace input in
      if input = [] then True
      else if hd input = CHR ''&'' then
        let input = skip_whitespace (tl input) in
        if input = [] then True
        else (case parse_cmd_group input of None \<Rightarrow> False | Some next \<Rightarrow> parse_input_loop next)
      else if hd input = CHR '';'' then
        let input = skip_whitespace (tl input) in
        (case parse_cmd_group input of None \<Rightarrow> False | Some next \<Rightarrow> parse_input_loop next)
      else False)"
  by pat_completeness auto
termination
proof (relation "measure length")
  have *: "length r < length s"
    if "parse_cmd_group (skip_whitespace (tl (skip_whitespace s))) = Some r" for r s
    using parse_cmd_group_consumes [OF that] length_skip_whitespace [of s]
      length_skip_whitespace [of "tl (skip_whitespace s)"] by simp
  show "\<And>input x xa x2. x = skip_whitespace input \<Longrightarrow> x \<noteq> [] \<Longrightarrow> hd x = CHR ''&'' \<Longrightarrow>
      xa = skip_whitespace (tl x) \<Longrightarrow> xa \<noteq> [] \<Longrightarrow> parse_cmd_group xa = Some x2 \<Longrightarrow>
      (x2, input) \<in> measure length"
    and "\<And>input x xa x2. x = skip_whitespace input \<Longrightarrow> x \<noteq> [] \<Longrightarrow> hd x \<noteq> CHR ''&'' \<Longrightarrow>
      hd x = CHR '';'' \<Longrightarrow> xa = skip_whitespace (tl x) \<Longrightarrow> parse_cmd_group xa = Some x2 \<Longrightarrow>
      (x2, input) \<in> measure length"
    by (simp_all add: *)
qed simp

declare parse_input_loop.simps [simp del]

definition parse_input :: "string \<Rightarrow> bool" where
  "parse_input input =
     (let input = skip_whitespace input in
      if input = [] then True
      else case parse_cmd_group input of
             None \<Rightarrow> False
           | Some next \<Rightarrow> parse_input_loop next)"

section \<open>Tokens and grammar\<close>

text \<open>
  The token types of \<open>parser.h\<close> (the parser itself works on characters and never builds one).
  \<open>lex\<close> is the reference tokenizer: the longest name, \<open>>>\<close> before \<open>>\<close>. A NUL inside the list,
  which no C string has, becomes \<open>TOKEN_END\<close>, a token no sentence of the grammar contains.
\<close>

datatype token =
    TOKEN_NAME string
  | TOKEN_PIPE
  | TOKEN_SEMICOLON
  | TOKEN_AMPERSAND
  | TOKEN_INPUT
  | TOKEN_OUTPUT
  | TOKEN_APPEND
  | TOKEN_END

function lex :: "string \<Rightarrow> token list" where
  "lex [] = []"
| "lex (c # cs) =
     (if isspace c then lex cs
      else if c = CHR ''|'' then TOKEN_PIPE # lex cs
      else if c = CHR '';'' then TOKEN_SEMICOLON # lex cs
      else if c = CHR ''&'' then TOKEN_AMPERSAND # lex cs
      else if c = CHR ''<'' then TOKEN_INPUT # lex cs
      else if c = CHR ''>'' then
        (case cs of
           d # ds \<Rightarrow> if d = CHR ''>'' then TOKEN_APPEND # lex ds else TOKEN_OUTPUT # lex cs
         | [] \<Rightarrow> TOKEN_OUTPUT # lex cs)
      else if c = CHR 0x00 then TOKEN_END # lex cs
      else TOKEN_NAME (takeWhile is_name_char (c # cs)) # lex (dropWhile is_name_char cs))"
  by pat_completeness auto
termination
  by (relation "measure length") (auto simp: less_Suc_eq_le length_dropWhile_le)

text \<open>
  The grammar in the comments of \<open>parser.c\<close>:
  \<open>shell_cmd = cmd_group ((& | ;) cmd_group)* &?\<close>, \<open>cmd_group = atomic (| atomic)*\<close>,
  \<open>atomic = name (name | input | output)*\<close>.
\<close>

inductive args :: "token list \<Rightarrow> bool" where
  args_Nil: "args []"
| args_name: "args ts \<Longrightarrow> args (TOKEN_NAME n # ts)"
| args_input: "args ts \<Longrightarrow> args (TOKEN_INPUT # TOKEN_NAME n # ts)"
| args_output: "args ts \<Longrightarrow> args (TOKEN_OUTPUT # TOKEN_NAME n # ts)"
| args_append: "args ts \<Longrightarrow> args (TOKEN_APPEND # TOKEN_NAME n # ts)"

inductive atomic :: "token list \<Rightarrow> bool" where
  atomicI: "args ts \<Longrightarrow> atomic (TOKEN_NAME n # ts)"

inductive cmd_group :: "token list \<Rightarrow> bool" where
  group_one: "atomic a \<Longrightarrow> cmd_group a"
| group_pipe: "atomic a \<Longrightarrow> cmd_group g \<Longrightarrow> cmd_group (a @ TOKEN_PIPE # g)"

inductive shell_cmd :: "token list \<Rightarrow> bool" where
  cmd_one: "cmd_group g \<Longrightarrow> shell_cmd g"
| cmd_amp: "cmd_group g \<Longrightarrow> shell_cmd (g @ [TOKEN_AMPERSAND])"
| cmd_seq: "cmd_group g \<Longrightarrow> sep = TOKEN_SEMICOLON \<or> sep = TOKEN_AMPERSAND \<Longrightarrow> shell_cmd s \<Longrightarrow>
     shell_cmd (g @ sep # s)"

inductive_simps args_simps [simp]:
  "args []"
  "args (TOKEN_NAME n # ts)"
  "args (TOKEN_INPUT # ts)"
  "args (TOKEN_OUTPUT # ts)"
  "args (TOKEN_APPEND # ts)"
  "args (TOKEN_PIPE # ts)"
  "args (TOKEN_SEMICOLON # ts)"
  "args (TOKEN_AMPERSAND # ts)"
  "args (TOKEN_END # ts)"

section \<open>The parser on tokens\<close>

text \<open>
  The same descent over tokens links the two: it commutes with \<open>lex\<close>, and it accepts exactly
  the sentences of the grammar.
\<close>

fun is_stop :: "token list \<Rightarrow> bool" where
  "is_stop [] = True"
| "is_stop (t # _) = (t = TOKEN_PIPE \<or> t = TOKEN_SEMICOLON \<or> t = TOKEN_AMPERSAND)"

fun tok_part :: "token list \<Rightarrow> token list option" where
  "tok_part (TOKEN_NAME n # ts) = Some ts"
| "tok_part (TOKEN_INPUT # TOKEN_NAME n # ts) = Some ts"
| "tok_part (TOKEN_OUTPUT # TOKEN_NAME n # ts) = Some ts"
| "tok_part (TOKEN_APPEND # TOKEN_NAME n # ts) = Some ts"
| "tok_part _ = None"

lemma tok_part_consumes [consumes]: "tok_part ts = Some us \<Longrightarrow> length us < length ts"
  by (induction ts rule: tok_part.induct) auto

function tok_args :: "token list \<Rightarrow> token list option" where
  "tok_args ts =
     (if is_stop ts then Some ts
      else case tok_part ts of None \<Rightarrow> None | Some us \<Rightarrow> tok_args us)"
  by pat_completeness auto
termination by (relation "measure length") (auto dest: tok_part_consumes)

declare tok_args.simps [simp del]

fun tok_atomic :: "token list \<Rightarrow> token list option" where
  "tok_atomic (TOKEN_NAME n # ts) = tok_args ts"
| "tok_atomic _ = None"

lemma tok_args_le [consumes]: "tok_args ts = Some us \<Longrightarrow> length us \<le> length ts"
proof (induction ts rule: tok_args.induct)
  case (1 ts)
  then show ?case
    by (fastforce simp: tok_args.simps [of ts] split: if_splits option.splits
        dest: tok_part_consumes)
qed

lemma tok_atomic_consumes [consumes]: "tok_atomic ts = Some us \<Longrightarrow> length us < length ts"
  by (induction ts rule: tok_atomic.induct) (auto simp: less_Suc_eq_le dest: tok_args_le)

function tok_group_loop :: "token list \<Rightarrow> token list option" where
  "tok_group_loop ts =
     (case ts of
        TOKEN_PIPE # us \<Rightarrow>
          (case tok_atomic us of None \<Rightarrow> None | Some vs \<Rightarrow> tok_group_loop vs)
      | _ \<Rightarrow> Some ts)"
  by pat_completeness auto
termination
  by (relation "measure length") (auto simp: less_Suc_eq dest: tok_atomic_consumes)

declare tok_group_loop.simps [simp del]

definition tok_group :: "token list \<Rightarrow> token list option" where
  "tok_group ts = (case tok_atomic ts of None \<Rightarrow> None | Some us \<Rightarrow> tok_group_loop us)"

lemma tok_group_loop_le [consumes]: "tok_group_loop ts = Some us \<Longrightarrow> length us \<le> length ts"
proof (induction ts rule: tok_group_loop.induct)
  case (1 ts)
  then show ?case
    by (fastforce simp: tok_group_loop.simps [of ts] split: list.splits token.splits option.splits
        dest: tok_atomic_consumes)
qed

lemma tok_group_consumes [consumes]: "tok_group ts = Some us \<Longrightarrow> length us < length ts"
  by (fastforce simp: tok_group_def split: option.splits
      dest: tok_atomic_consumes tok_group_loop_le)

function tok_input_loop :: "token list \<Rightarrow> bool" where
  "tok_input_loop ts =
     (case ts of
        [] \<Rightarrow> True
      | TOKEN_AMPERSAND # us \<Rightarrow>
          us = [] \<or> (case tok_group us of None \<Rightarrow> False | Some vs \<Rightarrow> tok_input_loop vs)
      | TOKEN_SEMICOLON # us \<Rightarrow>
          (case tok_group us of None \<Rightarrow> False | Some vs \<Rightarrow> tok_input_loop vs)
      | _ \<Rightarrow> False)"
  by pat_completeness auto
termination
  by (relation "measure length") (auto simp: less_Suc_eq dest: tok_group_consumes)

declare tok_input_loop.simps [simp del]

section \<open>The character parser commutes with the tokenizer\<close>

lemma lex_skip [simp]: "lex (skip_whitespace s) = lex s"
  by (induction s) (auto simp: skip_whitespace_def)

lemma skip_whitespace_idem [simp]: "skip_whitespace (skip_whitespace s) = skip_whitespace s"
  by (induction s) (auto simp: skip_whitespace_def)

lemma skip_whitespace_id: "s = [] \<or> \<not> isspace (hd s) \<Longrightarrow> skip_whitespace s = s"
  by (cases s) (auto simp: skip_whitespace_def)

lemma skip_whitespace_hd: "skip_whitespace s = [] \<or> \<not> isspace (hd (skip_whitespace s))"
  using hd_dropWhile [of isspace s] by (auto simp: skip_whitespace_def)

lemma parse_name_lex:
  "map_option (apsnd lex) (parse_name (skip_whitespace s)) =
     (case lex s of TOKEN_NAME n # ts \<Rightarrow> Some (n, ts) | _ \<Rightarrow> None)"
proof (induction s)
  case Nil
  then show ?case by (simp add: parse_name_def skip_whitespace_def)
next
  case (Cons c cs)
  show ?case
  proof (cases "isspace c")
    case True
    with Cons show ?thesis by (simp add: skip_whitespace_def)
  next
    case False
    then show ?thesis
      by (auto simp: parse_name_def skip_whitespace_def is_name_char_def is_special_char_def
          split: list.split)
  qed
qed

lemma parse_name_lex':
  assumes "s = [] \<or> \<not> isspace (hd s)"
  shows "map_option (apsnd lex) (parse_name s) =
     (case lex s of TOKEN_NAME n # ts \<Rightarrow> Some (n, ts) | _ \<Rightarrow> None)"
  using parse_name_lex [of s] skip_whitespace_id [OF assms] by simp

lemma lex_chars [simp]:
  "lex (CHR ''|'' # cs) = TOKEN_PIPE # lex cs"
  "lex (CHR '';'' # cs) = TOKEN_SEMICOLON # lex cs"
  "lex (CHR ''&'' # cs) = TOKEN_AMPERSAND # lex cs"
  "lex (CHR ''<'' # cs) = TOKEN_INPUT # lex cs"
  by (simp_all add: isspace_def)

text \<open>The first token of a string that does not start with white space.\<close>

lemma lex_Cons:
  assumes "\<not> isspace c"
  obtains "c = CHR ''|''" "lex (c # cs) = TOKEN_PIPE # lex cs"
  | "c = CHR '';''" "lex (c # cs) = TOKEN_SEMICOLON # lex cs"
  | "c = CHR ''&''" "lex (c # cs) = TOKEN_AMPERSAND # lex cs"
  | "c = CHR ''<''" "lex (c # cs) = TOKEN_INPUT # lex cs"
  | ds where "c = CHR ''>''" "cs = CHR ''>'' # ds" "lex (c # cs) = TOKEN_APPEND # lex ds"
  | "c = CHR ''>''" "cs = [] \<or> hd cs \<noteq> CHR ''>''" "lex (c # cs) = TOKEN_OUTPUT # lex cs"
  | "c = CHR 0x00" "lex (c # cs) = TOKEN_END # lex cs"
  | "is_name_char c"
    "lex (c # cs) = TOKEN_NAME (takeWhile is_name_char (c # cs)) # lex (dropWhile is_name_char cs)"
proof -
  consider "c = CHR ''|''" | "c = CHR '';''" | "c = CHR ''&''" | "c = CHR ''<''"
    | "c = CHR ''>''" "cs \<noteq> []" "hd cs = CHR ''>''"
    | "c = CHR ''>''" "cs = [] \<or> hd cs \<noteq> CHR ''>''"
    | "c = CHR 0x00" | "is_name_char c"
    using assms by (auto simp: is_name_char_def is_special_char_def)
  then show ?thesis
  proof cases
    case 5
    then show ?thesis using that(5) [of "tl cs"] by (cases cs) (auto simp: isspace_def)
  next
    case 6
    then show ?thesis using that(6) by (cases cs) (auto simp: isspace_def)
  next
    case 8
    then show ?thesis using that(8) assms by (auto simp: is_name_char_def is_special_char_def)
  qed (use that assms in simp_all)
qed

declare lex.simps(2) [simp del]

lemma is_stop_lex:
  assumes "s = [] \<or> \<not> isspace (hd s)"
  shows "is_stop (lex s) \<longleftrightarrow>
       s = [] \<or> hd s = CHR ''|'' \<or> hd s = CHR ''&'' \<or> hd s = CHR '';''"
proof (cases s)
  case (Cons c cs)
  with assms have "\<not> isspace c" by simp
  then show ?thesis unfolding Cons
    by (cases rule: lex_Cons [of c cs]) (auto simp: is_name_char_def is_special_char_def)
qed simp

text \<open>One round of \<open>parse_atomic\<close>'s loop reads one argument or redirection.\<close>

lemma parse_name_None: "\<not> is_name_char c \<Longrightarrow> parse_name (c # cs) = None"
  by (simp add: parse_name_def)

lemma special_not_name [simp]:
  "\<not> is_name_char (CHR ''|'')" "\<not> is_name_char (CHR ''&'')" "\<not> is_name_char (CHR ''<'')"
  "\<not> is_name_char (CHR ''>'')" "\<not> is_name_char (CHR '';'')" "\<not> is_name_char (CHR 0x00)"
  by (simp_all add: is_name_char_def is_special_char_def)

lemma parse_atomic_part_eqs:
  "parse_atomic_part (CHR ''<'' # cs) = map_option snd (parse_name (skip_whitespace cs))"
  "parse_atomic_part (CHR ''>'' # CHR ''>'' # cs) = map_option snd (parse_name (skip_whitespace cs))"
  "cs = [] \<or> hd cs \<noteq> CHR ''>'' \<Longrightarrow>
     parse_atomic_part (CHR ''>'' # cs) = map_option snd (parse_name (skip_whitespace cs))"
  "is_name_char c \<Longrightarrow> parse_atomic_part (c # cs) = Some (dropWhile is_name_char cs)"
  "\<not> is_name_char c \<Longrightarrow> c \<noteq> CHR ''<'' \<Longrightarrow> c \<noteq> CHR ''>'' \<Longrightarrow> parse_atomic_part (c # cs) = None"
proof -
  show "is_name_char c \<Longrightarrow> parse_atomic_part (c # cs) = Some (dropWhile is_name_char cs)"
    using special_not_name by (auto simp: parse_atomic_part_def parse_input_redir_def
        parse_output_redir_def parse_name_def)
qed (cases cs; auto simp: parse_atomic_part_def parse_input_redir_def parse_output_redir_def
    parse_name_None split: option.splits)+

lemma parse_name_suffix_lex:
  "map_option lex (map_option snd (parse_name (skip_whitespace s))) =
     (case lex s of TOKEN_NAME n # ts \<Rightarrow> Some ts | _ \<Rightarrow> None)"
  using arg_cong [OF parse_name_lex [of s], of "map_option snd"]
  by (simp add: option.map_comp comp_def split: list.split token.split)

lemma tok_part_redir:
  "t = TOKEN_INPUT \<or> t = TOKEN_OUTPUT \<or> t = TOKEN_APPEND \<Longrightarrow>
     tok_part (t # ts) = (case ts of TOKEN_NAME n # us \<Rightarrow> Some us | _ \<Rightarrow> None)"
  by (auto split: list.split token.split)

lemma parse_atomic_part_lex:
  assumes "s = [] \<or> \<not> isspace (hd s)"
  shows "map_option lex (parse_atomic_part s) = tok_part (lex s)"
proof (cases s)
  case Nil
  then show ?thesis
    by (simp add: parse_atomic_part_def parse_input_redir_def parse_output_redir_def parse_name_def)
next
  case (Cons c cs)
  with assms have "\<not> isspace c" by simp
  then have "map_option lex (parse_atomic_part (c # cs)) = tok_part (lex (c # cs))"
    by (cases rule: lex_Cons [of c cs])
      (simp_all add: parse_atomic_part_eqs parse_name_suffix_lex tok_part_redir)
  then show ?thesis by (simp add: Cons)
qed

lemma parse_atomic_loop_lex: "map_option lex (parse_atomic_loop s) = tok_args (lex s)"
proof (induction s rule: parse_atomic_loop.induct)
  case (1 s)
  let ?t = "skip_whitespace s"
  have t: "?t = [] \<or> \<not> isspace (hd ?t)" by (rule skip_whitespace_hd)
  have lex_t: "lex s = lex ?t" by simp
  show ?case
  proof (cases "is_stop (lex ?t)")
    case True
    then show ?thesis
      using is_stop_lex [OF t]
      by (auto simp: parse_atomic_loop.simps [of s] tok_args.simps [of "lex s"] Let_def)
  next
    case False
    then show ?thesis
      using is_stop_lex [OF t] parse_atomic_part_lex [OF t] "1.IH" [OF refl]
      by (cases "parse_atomic_part ?t")
        (auto simp: parse_atomic_loop.simps [of s] tok_args.simps [of "lex s"] Let_def
          dest: sym)
  qed
qed

lemma parse_atomic_lex: "map_option lex (parse_atomic s) = tok_atomic (lex s)"
proof (cases "parse_name (skip_whitespace s)")
  case None
  then show ?thesis
    using parse_name_lex [of s] by (auto simp: parse_atomic_def split: list.splits token.splits)
next
  case (Some p)
  then show ?thesis
    using parse_name_lex [of s]
    by (cases p) (auto simp: parse_atomic_def parse_atomic_loop_lex split: list.splits token.splits)
qed

lemma lex_first:
  assumes "s = [] \<or> \<not> isspace (hd s)"
  shows "lex s = [] \<longleftrightarrow> s = []"
    and "lex s = TOKEN_PIPE # ts \<longleftrightarrow> (\<exists>cs. s = CHR ''|'' # cs \<and> ts = lex cs)"
    and "lex s = TOKEN_SEMICOLON # ts \<longleftrightarrow> (\<exists>cs. s = CHR '';'' # cs \<and> ts = lex cs)"
    and "lex s = TOKEN_AMPERSAND # ts \<longleftrightarrow> (\<exists>cs. s = CHR ''&'' # cs \<and> ts = lex cs)"
proof -
  have *: "(lex s = [] \<longleftrightarrow> s = []) \<and>
      (lex s = TOKEN_PIPE # ts \<longleftrightarrow> (\<exists>cs. s = CHR ''|'' # cs \<and> ts = lex cs)) \<and>
      (lex s = TOKEN_SEMICOLON # ts \<longleftrightarrow> (\<exists>cs. s = CHR '';'' # cs \<and> ts = lex cs)) \<and>
      (lex s = TOKEN_AMPERSAND # ts \<longleftrightarrow> (\<exists>cs. s = CHR ''&'' # cs \<and> ts = lex cs))"
  proof (cases s)
    case (Cons c cs)
    with assms have "\<not> isspace c" by simp
    then show ?thesis
      by (cases rule: lex_Cons [of c cs]) (auto simp: Cons)
  qed simp
  then show "lex s = [] \<longleftrightarrow> s = []"
    and "lex s = TOKEN_PIPE # ts \<longleftrightarrow> (\<exists>cs. s = CHR ''|'' # cs \<and> ts = lex cs)"
    and "lex s = TOKEN_SEMICOLON # ts \<longleftrightarrow> (\<exists>cs. s = CHR '';'' # cs \<and> ts = lex cs)"
    and "lex s = TOKEN_AMPERSAND # ts \<longleftrightarrow> (\<exists>cs. s = CHR ''&'' # cs \<and> ts = lex cs)"
    by simp_all
qed

lemma tok_group_loop_pipe:
  "tok_group_loop (TOKEN_PIPE # us) =
     (case tok_atomic us of None \<Rightarrow> None | Some vs \<Rightarrow> tok_group_loop vs)"
  by (subst tok_group_loop.simps) simp

lemma tok_group_loop_other:
  "(\<And>us. ts \<noteq> TOKEN_PIPE # us) \<Longrightarrow> tok_group_loop ts = Some ts"
  by (subst tok_group_loop.simps) (auto split: list.split token.split)

lemma parse_cmd_group_loop_lex: "map_option lex (parse_cmd_group_loop s) = tok_group_loop (lex s)"
proof (induction s rule: parse_cmd_group_loop.induct)
  case (1 s)
  let ?t = "skip_whitespace s"
  have t: "?t = [] \<or> \<not> isspace (hd ?t)" by (rule skip_whitespace_hd)
  show ?case
  proof (cases "\<exists>cs. ?t = CHR ''|'' # cs")
    case True
    then obtain cs where cs: "?t = CHR ''|'' # cs" by blast
    then have l: "lex s = TOKEN_PIPE # lex cs" using lex_skip [of s] by simp
    show ?thesis
      using "1.IH" [OF refl] cs parse_atomic_lex [of "skip_whitespace cs"]
      by (cases "parse_atomic (skip_whitespace cs)")
        (auto simp: parse_cmd_group_loop.simps [of s] l tok_group_loop_pipe dest: sym)
  next
    case False
    then have "?t = [] \<or> hd ?t \<noteq> CHR ''|''" by (cases ?t) auto
    moreover have "tok_group_loop (lex s) = Some (lex s)"
      using False lex_first(2) [OF t] by (intro tok_group_loop_other) simp
    ultimately show ?thesis by (simp add: parse_cmd_group_loop.simps [of s] Let_def)
  qed
qed

lemma parse_cmd_group_lex: "map_option lex (parse_cmd_group s) = tok_group (lex s)"
  using parse_atomic_lex [of "skip_whitespace s"] parse_cmd_group_loop_lex
  by (cases "parse_atomic (skip_whitespace s)")
    (auto simp: parse_cmd_group_def tok_group_def dest: sym)

lemma tok_input_loop_eqs:
  "tok_input_loop []"
  "tok_input_loop (TOKEN_AMPERSAND # us) \<longleftrightarrow>
     us = [] \<or> (case tok_group us of None \<Rightarrow> False | Some vs \<Rightarrow> tok_input_loop vs)"
  "tok_input_loop (TOKEN_SEMICOLON # us) \<longleftrightarrow>
     (case tok_group us of None \<Rightarrow> False | Some vs \<Rightarrow> tok_input_loop vs)"
  "t \<noteq> TOKEN_AMPERSAND \<Longrightarrow> t \<noteq> TOKEN_SEMICOLON \<Longrightarrow> \<not> tok_input_loop (t # us)"
  by (subst tok_input_loop.simps, simp split: token.split)+

lemma parse_input_loop_lex: "parse_input_loop s = tok_input_loop (lex s)"
proof (induction s rule: parse_input_loop.induct)
  case (1 s)
  let ?t = "skip_whitespace s"
  have t: "?t = [] \<or> \<not> isspace (hd ?t)" by (rule skip_whitespace_hd)
  have ls: "lex s = lex ?t" by simp
  consider "?t = []" | cs where "?t = CHR ''&'' # cs" | cs where "?t = CHR '';'' # cs"
    | c cs where "?t = c # cs" "c \<noteq> CHR ''&''" "c \<noteq> CHR '';''"
    by (cases ?t) auto
  then show ?case
  proof cases
    case 1
    then show ?thesis by (simp add: parse_input_loop.simps [of s] ls tok_input_loop_eqs)
  next
    case (2 cs)
    have e: "lex cs = [] \<longleftrightarrow> skip_whitespace cs = []"
      using lex_first(1) [OF skip_whitespace_hd, of cs] by simp
    show ?thesis
      using "1.IH" (1) [OF refl] 2 parse_cmd_group_lex [of "skip_whitespace cs"]
      by (cases "parse_cmd_group (skip_whitespace cs)")
        (auto simp: parse_input_loop.simps [of s] ls tok_input_loop_eqs e dest: sym)
  next
    case (3 cs)
    show ?thesis
      using "1.IH" (2) [OF refl] 3 parse_cmd_group_lex [of "skip_whitespace cs"]
      by (cases "parse_cmd_group (skip_whitespace cs)")
        (auto simp: parse_input_loop.simps [of s] ls tok_input_loop_eqs dest: sym)
  next
    case (4 c cs)
    then obtain x xs where x: "lex ?t = x # xs" using lex_first(1) [OF t] by (cases "lex ?t") auto
    then have "x \<noteq> TOKEN_AMPERSAND" "x \<noteq> TOKEN_SEMICOLON"
      using 4 lex_first(3,4) [OF t, of xs] by auto
    with 4 x show ?thesis by (simp add: parse_input_loop.simps [of s] ls tok_input_loop_eqs)
  qed
qed

section \<open>The token parser accepts the grammar\<close>

lemma args_append: "args as \<Longrightarrow> is_stop us \<Longrightarrow> tok_args (as @ us) = Some us"
  by (induction rule: args.induct) (simp_all add: tok_args.simps)

lemma tok_part_args:
  "tok_part ts = Some us \<Longrightarrow> args as \<Longrightarrow> us = as @ vs \<Longrightarrow> \<exists>bs. args bs \<and> ts = bs @ vs"
  by (induction ts rule: tok_part.induct)
    (auto intro: exI [of _ "_ # _ # as"] exI [of _ "_ # as"])

lemma tok_args_iff:
  "tok_args ts = Some us \<longleftrightarrow> (\<exists>as. args as \<and> ts = as @ us \<and> is_stop us)"
proof
  show "tok_args ts = Some us \<Longrightarrow> \<exists>as. args as \<and> ts = as @ us \<and> is_stop us"
  proof (induction ts rule: tok_args.induct)
    case (1 ts)
    show ?case
    proof (cases "is_stop ts")
      case True
      with "1.prems" show ?thesis by (auto simp: tok_args.simps [of ts] intro: exI [of _ "[]"])
    next
      case False
      with "1.prems" obtain vs where vs: "tok_part ts = Some vs" "tok_args vs = Some us"
        by (auto simp: tok_args.simps [of ts] split: option.splits)
      with "1.IH" [OF False] obtain as where "args as" "vs = as @ us" "is_stop us" by blast
      with tok_part_args [OF vs(1)] show ?thesis by blast
    qed
  qed
qed (auto simp: args_append)

lemma tok_atomic_iff:
  "tok_atomic ts = Some us \<longleftrightarrow> (\<exists>a. atomic a \<and> ts = a @ us \<and> is_stop us)"
proof -
  have "tok_atomic ts = Some us \<longleftrightarrow> (\<exists>n as. args as \<and> ts = TOKEN_NAME n # as @ us \<and> is_stop us)"
    by (cases ts rule: tok_atomic.cases) (auto simp: tok_args_iff)
  also have "\<dots> \<longleftrightarrow> (\<exists>a. atomic a \<and> ts = a @ us \<and> is_stop us)"
    by (fastforce simp: atomic.simps)
  finally show ?thesis .
qed

text \<open>Where a group may end: before a separator or at the end, never before a \<open>|\<close>.\<close>

definition is_group_end :: "token list \<Rightarrow> bool" where
  "is_group_end ts \<longleftrightarrow> is_stop ts \<and> (\<forall>us. ts \<noteq> TOKEN_PIPE # us)"

lemma is_group_end_simps [simp]:
  "is_group_end []"
  "is_group_end (TOKEN_AMPERSAND # ts)" "is_group_end (TOKEN_SEMICOLON # ts)"
  "\<not> is_group_end (TOKEN_PIPE # ts)"
  by (auto simp: is_group_end_def)

lemma tok_group_sound:
  "tok_atomic ts = Some vs \<Longrightarrow> tok_group_loop vs = Some us \<Longrightarrow>
     \<exists>g. cmd_group g \<and> ts = g @ us \<and> is_group_end us"
proof (induction vs arbitrary: ts rule: tok_group_loop.induct)
  case (1 vs)
  then obtain a where a: "atomic a" "ts = a @ vs" "is_stop vs" by (auto simp: tok_atomic_iff)
  show ?case
  proof (cases "\<exists>ws. vs = TOKEN_PIPE # ws")
    case True
    then obtain ws xs where ws: "vs = TOKEN_PIPE # ws" "tok_atomic ws = Some xs"
        "tok_group_loop xs = Some us"
      using "1.prems"(2) by (auto simp: tok_group_loop_pipe split: option.splits)
    with "1.IH" [of _ ws xs ws] obtain g where "cmd_group g" "ws = g @ us" "is_group_end us" by auto
    with a ws show ?thesis
      by (auto intro: exI [of _ "a @ TOKEN_PIPE # g"] group_pipe)
  next
    case False
    with "1.prems"(2) have "us = vs" by (simp add: tok_group_loop_other)
    with a False show ?thesis by (auto simp: is_group_end_def intro: group_one)
  qed
qed

lemma tok_group_complete: "cmd_group g \<Longrightarrow> is_group_end us \<Longrightarrow> tok_group (g @ us) = Some us"
proof (induction rule: cmd_group.induct)
  case (group_one a)
  then have "tok_atomic (a @ us) = Some us" by (auto simp: tok_atomic_iff is_group_end_def)
  with group_one show ?case by (simp add: tok_group_def is_group_end_def tok_group_loop_other)
next
  case (group_pipe a g)
  then have "tok_atomic (a @ TOKEN_PIPE # g @ us) = Some (TOKEN_PIPE # g @ us)"
    by (auto simp: tok_atomic_iff)
  with group_pipe show ?case by (simp add: tok_group_def tok_group_loop_pipe)
qed

lemma tok_group_iff:
  "tok_group ts = Some us \<longleftrightarrow> (\<exists>g. cmd_group g \<and> ts = g @ us \<and> is_group_end us)"
  by (auto simp: tok_group_complete) (auto simp: tok_group_def split: option.splits
      intro: tok_group_sound)

text \<open>What may follow a group in a sentence: nothing, a trailing \<open>&\<close>, or a separator and more.\<close>

lemma tok_input_loop_sound:
  "cmd_group g \<Longrightarrow> is_group_end ts \<Longrightarrow> tok_input_loop ts \<Longrightarrow> shell_cmd (g @ ts)"
proof (induction ts arbitrary: g rule: tok_input_loop.induct)
  case (1 ts)
  consider "ts = []" | us where "ts = TOKEN_AMPERSAND # us" | us where "ts = TOKEN_SEMICOLON # us"
    using "1.prems"(2) by (cases ts) (auto simp: is_group_end_def)
  then show ?case
  proof cases
    case 1
    with "1.prems" show ?thesis by (simp add: cmd_one)
  next
    case (2 us)
    show ?thesis
    proof (cases "us = []")
      case True
      with 2 "1.prems" show ?thesis by (simp add: cmd_amp)
    next
      case False
      with 2 "1.prems" obtain vs where vs: "tok_group us = Some vs" "tok_input_loop vs"
        by (auto simp: tok_input_loop_eqs split: option.splits)
      then obtain h where h: "cmd_group h" "us = h @ vs" "is_group_end vs"
        by (auto simp: tok_group_iff)
      then have "shell_cmd us"
        using "1.IH"(2) [OF 2 refl vs(1) h(1) h(3) vs(2)] by simp
      with 2 "1.prems" show ?thesis by (simp add: cmd_seq)
    qed
  next
    case (3 us)
    with "1.prems" obtain vs where vs: "tok_group us = Some vs" "tok_input_loop vs"
      by (auto simp: tok_input_loop_eqs split: option.splits)
    then obtain h where h: "cmd_group h" "us = h @ vs" "is_group_end vs"
      by (auto simp: tok_group_iff)
    then have "shell_cmd us"
      using "1.IH"(1) [OF 3 refl vs(1) h(1) h(3) vs(2)] by simp
    with 3 "1.prems" show ?thesis by (simp add: cmd_seq)
  qed
qed

lemma cmd_group_head: "cmd_group g \<Longrightarrow> \<exists>n ts. g = TOKEN_NAME n # ts"
  by (induction rule: cmd_group.induct) (auto elim: atomic.cases)

lemma shell_cmd_head: "shell_cmd s \<Longrightarrow> \<exists>n ts. s = TOKEN_NAME n # ts"
  by (induction rule: shell_cmd.induct) (fastforce dest: cmd_group_head)+

lemma tok_input_complete:
  "shell_cmd s \<Longrightarrow> \<exists>us. tok_group s = Some us \<and> tok_input_loop us"
proof (induction rule: shell_cmd.induct)
  case (cmd_one g)
  then show ?case using tok_group_complete [of g "[]"] by (simp add: tok_input_loop_eqs)
next
  case (cmd_amp g)
  then show ?case
    using tok_group_complete [of g "[TOKEN_AMPERSAND]"] by (simp add: tok_input_loop_eqs)
next
  case (cmd_seq g sep s)
  moreover have "tok_group (g @ sep # s) = Some (sep # s)"
    using cmd_seq by (intro tok_group_complete) auto
  ultimately show ?case by (auto simp: tok_input_loop_eqs)
qed

lemma parse_input_iff:
  "parse_input input \<longleftrightarrow> lex input = [] \<or> shell_cmd (lex input)"
proof -
  let ?t = "skip_whitespace input"
  have e: "lex input = [] \<longleftrightarrow> ?t = []" using lex_first(1) [OF skip_whitespace_hd, of input] by simp
  have l: "tok_group (lex input) = map_option lex (parse_cmd_group ?t)"
    by (simp add: parse_cmd_group_lex)
  have "shell_cmd (lex input) \<longleftrightarrow>
      (\<exists>us. tok_group (lex input) = Some us \<and> tok_input_loop us)"
    using tok_input_complete tok_input_loop_sound by (auto simp: tok_group_iff)
  then show ?thesis
    by (auto simp: parse_input_def Let_def e l parse_input_loop_lex split: option.splits)
qed

text \<open>
  C23. The syntax check accepts a line exactly when it is blank or its tokens are a sentence of the
  grammar documented in \<open>parser.c\<close>: the scannerless recursive descent, with its order of attempts
  and its white space handling, recognises \<open>cmd_group ((& | ;) cmd_group)* &?\<close>, no more and no
  less.
\<close>

theorem parse_input_grammar:
  "parse_input input \<longleftrightarrow> lex input = [] \<or> shell_cmd (lex input)"
  by (rule parse_input_iff)

end
