(* ===== verification/ShellState.thy ===== *)
theory ShellState
  imports Prelude
begin

text \<open>
  The shell's global state and its operating system. The globals of \<open>main.c\<close>, \<open>jobs.c\<close> and
  \<open>log.c\<close> form one record, with the output printed so far and the state \<open>'w\<close> of the world. The
  system calls are not code of the repository: they are the record \<open>os\<close> of functions on the world,
  an argument of every operation that makes one.
\<close>

section \<open>Jobs and processes\<close>

datatype job_status = JOB_RUNNING | JOB_STOPPED | JOB_DONE

record job =
  job_id :: int
  pid :: int
  command :: string
  status :: job_status
  in_use :: bool

text \<open>A wait status, as the macros \<open>WIFEXITED\<close>, \<open>WIFSIGNALED\<close>, \<open>WIFSTOPPED\<close>, \<open>WIFCONTINUED\<close> read it.\<close>

datatype wstatus = Exited int | Signaled int | Stopped int | Continued

datatype ossignal = SIGINT | SIGTSTP

definition SIGINT_NR :: int where "SIGINT_NR = 2"
definition SIGTSTP_NR :: int where "SIGTSTP_NR = 20"
definition SIGCONT_NR :: int where "SIGCONT_NR = 18"

text \<open>
  What a forked child does: with its standard input and output connected it either runs
  \<open>execvp (args[0], args)\<close>, and should that return, prints \<open>Command not found!\<close> and exits with 1,
  or it fails to open a file and exits with 1.
\<close>

datatype endpoint =
    Inherited
  | FileIn string
  | FileOut string bool
  | PipeRead nat
  | PipeWrite nat
  | DevNull

datatype child =
    Exec (c_in: endpoint) (c_out: endpoint) (c_args: "string list")
  | ExitOne string

section \<open>The operating system\<close>

text \<open>
  \<open>os_fork c w\<close> starts a process that runs \<open>c\<close> and returns its pid, or a negative number.
  \<open>os_waitpid p u w\<close> blocks in \<open>waitpid (p, &status, u ? WUNTRACED : 0)\<close>: it gives the signals
  the shell catches meanwhile and what \<open>status\<close> holds afterwards. \<open>os_poll\<close> gives the results of
  the successive \<open>waitpid (-1, &status, WNOHANG | WUNTRACED | WCONTINUED)\<close> calls up to the first
  that is not positive.
\<close>

record 'w os =
  os_fork :: "('w \<Rightarrow> child \<times> 'w) \<Rightarrow> 'w \<Rightarrow> int \<times> 'w"
  os_waitpid :: "int \<Rightarrow> bool \<Rightarrow> 'w \<Rightarrow> (ossignal list \<times> wstatus) \<times> 'w"
  os_poll :: "'w \<Rightarrow> (int \<times> wstatus) list \<times> 'w"
  os_kill :: "int \<Rightarrow> int \<Rightarrow> 'w \<Rightarrow> int \<times> 'w"
  os_pipe :: "'w \<Rightarrow> bool \<times> 'w"
  os_open_read :: "string \<Rightarrow> 'w \<Rightarrow> bool"
  os_open_write :: "string \<Rightarrow> bool \<Rightarrow> 'w \<Rightarrow> bool \<times> 'w"
  os_getcwd :: "'w \<Rightarrow> string option"
  os_chdir :: "string \<Rightarrow> 'w \<Rightarrow> bool \<times> 'w"
  os_readdir :: "string \<Rightarrow> 'w \<Rightarrow> string list option"
  os_read_file :: "string \<Rightarrow> 'w \<Rightarrow> string option"
  os_write_file :: "string \<Rightarrow> string \<Rightarrow> 'w \<Rightarrow> bool \<times> 'w"
  os_user :: "'w \<Rightarrow> string option"
  os_hostname :: "'w \<Rightarrow> string option"

section \<open>The shell\<close>

record 'w shell =
  jobs :: "job list"
  next_job_id :: int
  foreground_pid :: int
  home_dir :: string
  prev_dir :: string
  log_entries :: "string list"
  log_count :: nat
  log_start :: nat
  log_loaded :: bool
  out :: "printed list"
  world :: 'w

definition emit :: "printed \<Rightarrow> 'w shell \<Rightarrow> 'w shell" where
  "emit p st = st\<lparr>out := out st @ [p]\<rparr>"

abbreviation puts :: "string \<Rightarrow> 'w shell \<Rightarrow> 'w shell" where
  "puts s st \<equiv> emit (Printf s []) st"

text \<open>A system call: run it on the world and keep the world it leaves.\<close>

definition syscall :: "('w \<Rightarrow> 'a \<times> 'w) \<Rightarrow> 'w shell \<Rightarrow> 'a \<times> 'w shell" where
  "syscall f st = (let (r, w) = f (world st) in (r, st\<lparr>world := w\<rparr>))"

text \<open>
  What can go wrong beyond an error return: a fixed-size array of the executor is written past its
  end, or a process id that was never assigned is used. Both are undefined in C.
\<close>

datatype fault = Overflow string | Uninitialised string

text \<open>System calls that succeed and change nothing: the instance the examples run with.\<close>

definition idle_os :: "'w os" where
  "idle_os = \<lparr>os_fork = \<lambda>c w. (1, w), os_waitpid = \<lambda>p u w. (([], Exited 0), w),
     os_poll = \<lambda>w. ([], w), os_kill = \<lambda>p s w. (0, w), os_pipe = \<lambda>w. (True, w),
     os_open_read = \<lambda>f w. True, os_open_write = \<lambda>f a w. (True, w), os_getcwd = \<lambda>w. Some ''/'',
     os_chdir = \<lambda>d w. (True, w), os_readdir = \<lambda>d w. Some [], os_read_file = \<lambda>f w. None,
     os_write_file = \<lambda>f t w. (True, w), os_user = \<lambda>w. None, os_hostname = \<lambda>w. None\<rparr>"

end
