(* ===== verification/ShellJobs.thy ===== *)
theory ShellJobs
  imports ShellState
begin

text \<open>
  \<open>shell/src/jobs.c\<close>, \<open>shell/src/job_control.c\<close> and \<open>shell/src/signals.c\<close>: the job table, the
  commands that control jobs and the signal handlers that share it. The table is the list \<open>jobs\<close> of
  \<open>MAX_JOBS\<close> slots; a \<open>Job *\<close> is the index of its slot.
\<close>

section \<open>The table\<close>

definition MAX_JOBS :: nat where "MAX_JOBS = 100"

definition MAX_CMD_LEN :: nat where "MAX_CMD_LEN = 1024"

definition init_jobs :: "'w shell \<Rightarrow> 'w shell" where
  "init_jobs st = st\<lparr>jobs := map (\<lambda>j. j\<lparr>in_use := False\<rparr>) (jobs st)\<rparr>"

text \<open>\<open>strncpy\<close> into the \<open>MAX_CMD_LEN\<close> bytes of \<open>command\<close>, with the NUL at the end.\<close>

definition stored_command :: "string \<Rightarrow> string" where
  "stored_command cmd = take (MAX_CMD_LEN - 1) cmd"

definition add_job :: "int \<Rightarrow> string \<Rightarrow> job_status \<Rightarrow> 'w shell \<Rightarrow> int \<times> 'w shell" where
  "add_job p cmd s st =
     (case first_index (\<lambda>j. \<not> in_use j) (jobs st) of
        None \<Rightarrow> (-1, st)
      | Some i \<Rightarrow>
          (next_job_id st,
           st\<lparr>jobs := (jobs st)[i := \<lparr>job_id = next_job_id st, pid = p,
                command = stored_command cmd, status = s, in_use = True\<rparr>],
              next_job_id := next_job_id st + 1\<rparr>))"

definition get_job :: "int \<Rightarrow> 'w shell \<Rightarrow> nat option" where
  "get_job i st = first_index (\<lambda>j. in_use j \<and> job_id j = i) (jobs st)"

definition get_job_by_pid :: "int \<Rightarrow> 'w shell \<Rightarrow> nat option" where
  "get_job_by_pid p st = first_index (\<lambda>j. in_use j \<and> pid j = p) (jobs st)"

definition remove_job :: "int \<Rightarrow> 'w shell \<Rightarrow> 'w shell" where
  "remove_job i st =
     (case first_index (\<lambda>j. in_use j \<and> job_id j = i) (jobs st) of
        None \<Rightarrow> st
      | Some k \<Rightarrow> st\<lparr>jobs := (jobs st)[k := (jobs st ! k)\<lparr>in_use := False\<rparr>]\<rparr>)"

text \<open>The assignment \<open>job->status = s\<close>.\<close>

definition set_status :: "nat \<Rightarrow> job_status \<Rightarrow> 'w shell \<Rightarrow> 'w shell" where
  "set_status k s st = st\<lparr>jobs := (jobs st)[k := (jobs st ! k)\<lparr>status := s\<rparr>]\<rparr>"

definition set_foreground_pid :: "int \<Rightarrow> 'w shell \<Rightarrow> 'w shell" where
  "set_foreground_pid p st = st\<lparr>foreground_pid := p\<rparr>"

definition get_foreground_pid :: "'w shell \<Rightarrow> int" where
  "get_foreground_pid st = foreground_pid st"

section \<open>Reaping children\<close>

definition reap_one :: "int \<times> wstatus \<Rightarrow> 'w shell \<Rightarrow> 'w shell" where
  "reap_one ps st =
     (case ps of (p, s) \<Rightarrow>
      (case get_job_by_pid p st of
         None \<Rightarrow> st
       | Some k \<Rightarrow>
           (let j = jobs st ! k in
            case s of
              Exited code \<Rightarrow>
                remove_job (job_id j)
                  (emit (Printf (if code = 0 then ''%s with pid %d exited normally\<newline>''
                                 else ''%s with pid %d exited abnormally\<newline>'')
                           [S (command j), D p]) st)
            | Signaled _ \<Rightarrow>
                remove_job (job_id j)
                  (emit (Printf ''%s with pid %d exited abnormally\<newline>'' [S (command j), D p]) st)
            | Stopped _ \<Rightarrow> set_status k JOB_STOPPED st
            | Continued \<Rightarrow> set_status k JOB_RUNNING st)))"

definition check_background_jobs :: "'w os \<Rightarrow> 'w shell \<Rightarrow> 'w shell" where
  "check_background_jobs sys st =
     (let (events, st) = syscall (os_poll sys) st in fold reap_one events st)"

section \<open>Listing\<close>

definition job_cmp :: "job \<Rightarrow> job \<Rightarrow> int" where
  "job_cmp a b = strcmp (command a) (command b)"

definition sorted_jobs :: "'w shell \<Rightarrow> job list" where
  "sorted_jobs st = exchange_sort job_cmp (filter in_use (jobs st))"

definition job_line :: "job \<Rightarrow> printed" where
  "job_line j = Printf ''[%d] : %s - %s\<newline>''
     [D (pid j), S (command j), S (if status j = JOB_RUNNING then ''Running'' else ''Stopped'')]"

definition list_jobs :: "'w shell \<Rightarrow> 'w shell" where
  "list_jobs st = fold (\<lambda>j. emit (job_line j)) (sorted_jobs st) st"

fun most_recent :: "job list \<Rightarrow> int \<Rightarrow> int" where
  "most_recent [] max_id = max_id"
| "most_recent (j # js) max_id =
     most_recent js (if in_use j \<and> job_id j > max_id then job_id j else max_id)"

definition get_most_recent_job_id :: "'w shell \<Rightarrow> int" where
  "get_most_recent_job_id st = most_recent (jobs st) (-1)"

section \<open>Signal handlers\<close>

definition sigint_handler :: "'w os \<Rightarrow> 'w shell \<Rightarrow> 'w shell" where
  "sigint_handler sys st =
     (let fg_pid = get_foreground_pid st;
          st = (if fg_pid > 0 then snd (syscall (os_kill sys fg_pid SIGINT_NR) st) else st)
      in puts ''\<newline>'' st)"

definition sigtstp_handler :: "'w os \<Rightarrow> 'w shell \<Rightarrow> 'w shell" where
  "sigtstp_handler sys st =
     (let fg_pid = get_foreground_pid st in
      if fg_pid > 0 then
        let st = snd (syscall (os_kill sys fg_pid SIGTSTP_NR) st);
            st = (case get_job_by_pid fg_pid st of
                    None \<Rightarrow> st
                  | Some k \<Rightarrow>
                      let st = set_status k JOB_STOPPED st in
                      emit (Printf ''\<newline>[%d] Stopped %s\<newline>''
                        [D (job_id (jobs st ! k)), S (command (jobs st ! k))]) st)
        in set_foreground_pid (-1) st
      else st)"

definition handle_signal :: "'w os \<Rightarrow> ossignal \<Rightarrow> 'w shell \<Rightarrow> 'w shell" where
  "handle_signal sys s st = (case s of SIGINT \<Rightarrow> sigint_handler sys st | SIGTSTP \<Rightarrow> sigtstp_handler sys st)"

text \<open>
  A blocking \<open>waitpid\<close>: the handlers run for the signals caught meanwhile (the handlers are
  installed with \<open>SA_RESTART\<close>, so the call goes on afterwards).
\<close>

definition wait_child :: "'w os \<Rightarrow> int \<Rightarrow> bool \<Rightarrow> 'w shell \<Rightarrow> wstatus \<times> 'w shell" where
  "wait_child sys p untraced st =
     (let ((signals, s), st) = syscall (os_waitpid sys p untraced) st
      in (s, fold (handle_signal sys) signals st))"

section \<open>Job control commands\<close>

definition cmd_activities :: "string list \<Rightarrow> 'w shell \<Rightarrow> int \<times> 'w shell" where
  "cmd_activities argv st = (0, list_jobs st)"

definition cmd_ping :: "'w os \<Rightarrow> string list \<Rightarrow> 'w shell \<Rightarrow> int \<times> 'w shell" where
  "cmd_ping sys argv st =
     (if length argv \<noteq> 3 then (-1, puts ''Invalid syntax!\<newline>'' st)
      else
        let (pid_long, end1) = strtol (argv ! 1) in
        if end1 \<noteq> [] \<or> pid_long \<le> 0 then (-1, puts ''Invalid syntax!\<newline>'' st)
        else
          let p = to_int32 pid_long; (signal_long, end2) = strtol (argv ! 2) in
          if end2 \<noteq> [] then (-1, puts ''Invalid syntax!\<newline>'' st)
          else
            let (r, st) = syscall (os_kill sys p (c_rem signal_long 32)) st in
            if r = -1 then (-1, puts ''No such process found\<newline>'' st)
            else (0, emit (Printf ''Sent signal %ld to process with pid %d\<newline>'' [D signal_long, D p]) st))"

text \<open>The argument of \<open>fg\<close> and \<open>bg\<close>: the most recent job without one, a positive number with one.\<close>

definition job_argument :: "string \<Rightarrow> string list \<Rightarrow> 'w shell \<Rightarrow> printed + int" where
  "job_argument name argv st =
     (if length argv = 1 then
        (let i = get_most_recent_job_id st
         in if i = -1 then Inl (Printf ''No such job\<newline>'' []) else Inr i)
      else if length argv = 2 then
        (let (job_long, end) = strtol (argv ! 1)
         in if end \<noteq> [] \<or> job_long \<le> 0 then Inl (Printf ''No such job\<newline>'' [])
            else Inr (to_int32 job_long))
      else Inl (Printf (name @ '': Invalid Syntax!\<newline>'') []))"

definition cmd_fg :: "'w os \<Rightarrow> string list \<Rightarrow> 'w shell \<Rightarrow> int \<times> 'w shell" where
  "cmd_fg sys argv st =
     (case job_argument ''fg'' argv st of
        Inl message \<Rightarrow> (-1, emit message st)
      | Inr i \<Rightarrow>
          (case get_job i st of
             None \<Rightarrow> (-1, puts ''No such job\<newline>'' st)
           | Some k \<Rightarrow>
               let j = jobs st ! k;
                   st = emit (Printf ''%s\<newline>'' [S (command j)]) st;
                   st = (if status j = JOB_STOPPED
                         then snd (syscall (os_kill sys (pid j) SIGCONT_NR) st) else st);
                   st = set_status k JOB_RUNNING st;
                   st = set_foreground_pid (pid j) st;
                   (s, st) = wait_child sys (pid j) True st;
                   st = set_foreground_pid (-1) st
               in (0, case s of
                        Exited _ \<Rightarrow> remove_job i st
                      | Signaled _ \<Rightarrow> remove_job i st
                      | Stopped _ \<Rightarrow> set_status k JOB_STOPPED st
                      | Continued \<Rightarrow> st)))"

definition cmd_bg :: "'w os \<Rightarrow> string list \<Rightarrow> 'w shell \<Rightarrow> int \<times> 'w shell" where
  "cmd_bg sys argv st =
     (case job_argument ''bg'' argv st of
        Inl message \<Rightarrow> (-1, emit message st)
      | Inr i \<Rightarrow>
          (case get_job i st of
             None \<Rightarrow> (-1, puts ''No such job\<newline>'' st)
           | Some k \<Rightarrow>
               let j = jobs st ! k in
               if status j = JOB_RUNNING then (-1, puts ''Job already running\<newline>'' st)
               else
                 let st = snd (syscall (os_kill sys (pid j) SIGCONT_NR) st);
                     st = set_status k JOB_RUNNING st
                 in (0, emit (Printf ''[%d] %s &\<newline>'' [D i, S (command j)]) st)))"

section \<open>The invariant of the table\<close>

text \<open>
  The table has its \<open>MAX_JOBS\<close> slots, the ids of the jobs in use are positive, below the next id to
  give out, and pairwise different.
\<close>

definition jobs_ok :: "'w shell \<Rightarrow> bool" where
  "jobs_ok st \<longleftrightarrow> length (jobs st) = MAX_JOBS \<and> 1 \<le> next_job_id st \<and>
     (\<forall>k < MAX_JOBS. in_use (jobs st ! k) \<longrightarrow>
        1 \<le> job_id (jobs st ! k) \<and> job_id (jobs st ! k) < next_job_id st) \<and>
     (\<forall>k < MAX_JOBS. \<forall>l < MAX_JOBS. in_use (jobs st ! k) \<and> in_use (jobs st ! l) \<and>
        job_id (jobs st ! k) = job_id (jobs st ! l) \<longrightarrow> k = l)"

lemma jobs_okI:
  assumes "length (jobs st) = MAX_JOBS" "1 \<le> next_job_id st"
    and "\<And>k. k < MAX_JOBS \<Longrightarrow> in_use (jobs st ! k) \<Longrightarrow>
          1 \<le> job_id (jobs st ! k) \<and> job_id (jobs st ! k) < next_job_id st"
    and "\<And>k l. k < MAX_JOBS \<Longrightarrow> l < MAX_JOBS \<Longrightarrow> in_use (jobs st ! k) \<Longrightarrow> in_use (jobs st ! l) \<Longrightarrow>
          job_id (jobs st ! k) = job_id (jobs st ! l) \<Longrightarrow> k = l"
  shows "jobs_ok st"
  using assms unfolding jobs_ok_def by blast

lemma jobs_okD:
  assumes "jobs_ok st"
  shows "length (jobs st) = MAX_JOBS" "1 \<le> next_job_id st"
    and "k < MAX_JOBS \<Longrightarrow> in_use (jobs st ! k) \<Longrightarrow>
          1 \<le> job_id (jobs st ! k) \<and> job_id (jobs st ! k) < next_job_id st"
    and "k < MAX_JOBS \<Longrightarrow> l < MAX_JOBS \<Longrightarrow> in_use (jobs st ! k) \<Longrightarrow> in_use (jobs st ! l) \<Longrightarrow>
          job_id (jobs st ! k) = job_id (jobs st ! l) \<Longrightarrow> k = l"
  using assms unfolding jobs_ok_def by blast+

text \<open>An update of one slot that keeps its id and does not bring it to life keeps the invariant.\<close>

lemma jobs_ok_update:
  assumes "jobs_ok st" "job_id j = job_id (jobs st ! k)" "in_use j \<longrightarrow> in_use (jobs st ! k)"
  shows "jobs_ok (st\<lparr>jobs := (jobs st)[k := j]\<rparr>)"
proof (cases "k < MAX_JOBS")
  case True
  note ok = jobs_okD [OF assms(1)]
  have nth: "(jobs st)[k := j] ! l = (if l = k then j else jobs st ! l)" if "l < MAX_JOBS" for l
    using that ok(1) by (simp add: nth_list_update)
  show ?thesis
  proof (rule jobs_okI)
    fix l m
    assume "l < MAX_JOBS" "m < MAX_JOBS"
      "in_use (jobs (st\<lparr>jobs := (jobs st)[k := j]\<rparr>) ! l)"
      "in_use (jobs (st\<lparr>jobs := (jobs st)[k := j]\<rparr>) ! m)"
      "job_id (jobs (st\<lparr>jobs := (jobs st)[k := j]\<rparr>) ! l) =
       job_id (jobs (st\<lparr>jobs := (jobs st)[k := j]\<rparr>) ! m)"
    then show "l = m"
      using ok(4) [of l m] assms(2,3) True
      by (cases "l = k"; cases "m = k") (simp_all add: nth)
  next
    fix l
    assume "l < MAX_JOBS" "in_use (jobs (st\<lparr>jobs := (jobs st)[k := j]\<rparr>) ! l)"
    then show "1 \<le> job_id (jobs (st\<lparr>jobs := (jobs st)[k := j]\<rparr>) ! l) \<and>
        job_id (jobs (st\<lparr>jobs := (jobs st)[k := j]\<rparr>) ! l) <
        next_job_id (st\<lparr>jobs := (jobs st)[k := j]\<rparr>)"
      using ok(3) [of l] assms(2,3) by (cases "l = k") (simp_all add: nth)
  qed (use ok in simp_all)
next
  case False
  then show ?thesis using assms(1) jobs_okD(1) [OF assms(1)] by (simp add: list_update_beyond)
qed

lemma jobs_ok_cong:
  "jobs st' = jobs st \<Longrightarrow> next_job_id st' = next_job_id st \<Longrightarrow> jobs_ok st' = jobs_ok st"
  by (simp add: jobs_ok_def)

lemma remove_job_ok [inv_pres]: "jobs_ok st \<Longrightarrow> jobs_ok (remove_job i st)"
  by (auto simp: remove_job_def intro: jobs_ok_update split: option.split)

lemma set_status_ok [inv_pres]: "jobs_ok st \<Longrightarrow> jobs_ok (set_status k s st)"
  by (auto simp: set_status_def intro: jobs_ok_update)

lemma add_job_ok [inv_pres]:
  assumes "jobs_ok st" shows "jobs_ok (snd (add_job p cmd s st))"
proof (cases "first_index (\<lambda>j. \<not> in_use j) (jobs st)")
  case None
  then show ?thesis using assms by (simp add: add_job_def)
next
  case (Some i)
  note ok = jobs_okD [OF assms]
  let ?j = "\<lparr>job_id = next_job_id st, pid = p, command = stored_command cmd, status = s,
      in_use = True\<rparr>"
  have i: "i < MAX_JOBS" using first_index_SomeD(1) [OF Some] ok(1) by simp
  have nth: "(jobs st)[i := ?j] ! l = (if l = i then ?j else jobs st ! l)" if "l < MAX_JOBS" for l
    using that ok(1) by (simp add: nth_list_update)
  show ?thesis
  proof (rule jobs_okI)
    fix k l assume *: "k < MAX_JOBS" "l < MAX_JOBS"
      "in_use (jobs (snd (add_job p cmd s st)) ! k)" "in_use (jobs (snd (add_job p cmd s st)) ! l)"
      "job_id (jobs (snd (add_job p cmd s st)) ! k) = job_id (jobs (snd (add_job p cmd s st)) ! l)"
    then show "k = l"
      using ok(3) [of k] ok(3) [of l] ok(4) [of k l]
      by (auto simp: add_job_def Some nth split: if_splits)
  next
    fix k assume "k < MAX_JOBS" "in_use (jobs (snd (add_job p cmd s st)) ! k)"
    then show "1 \<le> job_id (jobs (snd (add_job p cmd s st)) ! k) \<and>
        job_id (jobs (snd (add_job p cmd s st)) ! k) < next_job_id (snd (add_job p cmd s st))"
      using ok(2) ok(3) [of k] by (auto simp: add_job_def Some nth split: if_splits)
  qed (use ok in \<open>simp_all add: add_job_def Some\<close>)
qed

section \<open>The table as a map from ids to jobs\<close>

definition find_job :: "int \<Rightarrow> 'w shell \<Rightarrow> job option" where
  "find_job i st = map_option (\<lambda>k. jobs st ! k) (get_job i st)"

lemma get_job_iff:
  assumes "jobs_ok st"
  shows "get_job i st = Some k \<longleftrightarrow>
     k < MAX_JOBS \<and> in_use (jobs st ! k) \<and> job_id (jobs st ! k) = i"
proof
  show "get_job i st = Some k \<Longrightarrow> k < MAX_JOBS \<and> in_use (jobs st ! k) \<and> job_id (jobs st ! k) = i"
    using jobs_okD(1) [OF assms] by (auto simp: get_job_def dest: first_index_SomeD)
  show "k < MAX_JOBS \<and> in_use (jobs st ! k) \<and> job_id (jobs st ! k) = i \<Longrightarrow> get_job i st = Some k"
    unfolding get_job_def
    using jobs_okD(1,4) [OF assms] by (intro first_index_unique) auto
qed

lemma get_job_None_iff:
  assumes "jobs_ok st"
  shows "get_job i st = None \<longleftrightarrow>
     (\<forall>k < MAX_JOBS. in_use (jobs st ! k) \<longrightarrow> job_id (jobs st ! k) \<noteq> i)"
  using jobs_okD(1) [OF assms] by (auto simp: get_job_def first_index_None all_set_conv_all_nth)

lemma find_job_iff:
  "jobs_ok st \<Longrightarrow> find_job i st = Some j \<longleftrightarrow>
     (\<exists>k < MAX_JOBS. jobs st ! k = j \<and> in_use j \<and> job_id j = i)"
  unfolding find_job_def map_option_eq_Some by (auto simp: get_job_iff)

text \<open>Changing a slot that does not hold id \<open>i\<close>, before or after, does not change what \<open>i\<close> finds.\<close>

lemma find_job_other:
  assumes "jobs_ok st" "jobs_ok st'"
    and same: "\<And>l. l < MAX_JOBS \<Longrightarrow> l \<noteq> k \<Longrightarrow> jobs st' ! l = jobs st ! l"
    and "in_use (jobs st ! k) \<Longrightarrow> job_id (jobs st ! k) \<noteq> i"
    and "in_use (jobs st' ! k) \<Longrightarrow> job_id (jobs st' ! k) \<noteq> i"
  shows "find_job i st' = find_job i st"
proof -
  have "find_job i st' = Some j \<longleftrightarrow> find_job i st = Some j" for j
    unfolding find_job_iff [OF assms(1)] find_job_iff [OF assms(2)]
    using same assms(4,5) by metis
  then show ?thesis by (cases "find_job i st") (metis option.exhaust)+
qed

lemma find_job_fresh: "jobs_ok st \<Longrightarrow> next_job_id st \<le> i \<Longrightarrow> find_job i st = None"
  using jobs_okD(3) [of st] by (fastforce simp: find_job_def get_job_None_iff)

text \<open>
  What a job store promises its clients (the executor and the job control commands): a new job gets
  a fresh id under which it is found, removal forgets one id, and neither touches another job.
\<close>

locale job_store =
  fixes ok :: "'s \<Rightarrow> bool"
    and find :: "int \<Rightarrow> 's \<Rightarrow> job option"
    and add :: "int \<Rightarrow> string \<Rightarrow> job_status \<Rightarrow> 's \<Rightarrow> int \<times> 's"
    and remove :: "int \<Rightarrow> 's \<Rightarrow> 's"
  assumes ok_add: "ok s \<Longrightarrow> ok (snd (add p c t s))"
    and ok_remove: "ok s \<Longrightarrow> ok (remove i s)"
    and add_fails: "ok s \<Longrightarrow> fst (add p c t s) = -1 \<Longrightarrow> snd (add p c t s) = s"
    and add_fresh: "ok s \<Longrightarrow> fst (add p c t s) \<noteq> -1 \<Longrightarrow> find (fst (add p c t s)) s = None"
    and find_add: "ok s \<Longrightarrow> fst (add p c t s) \<noteq> -1 \<Longrightarrow>
      find i (snd (add p c t s)) =
        (if i = fst (add p c t s)
         then Some \<lparr>job_id = i, pid = p, command = stored_command c, status = t, in_use = True\<rparr>
         else find i s)"
    and find_remove: "ok s \<Longrightarrow> find i (remove k s) = (if i = k then None else find i s)"
begin

lemma add_remove:
  "ok s \<Longrightarrow> fst (add p c t s) \<noteq> -1 \<Longrightarrow> find i (remove (fst (add p c t s)) (snd (add p c t s))) = find i s"
  by (simp add: find_remove ok_add find_add add_fresh)

lemma add_twice_distinct:
  assumes "ok s" "fst (add p c t s) \<noteq> -1" "fst (add p' c' t' (snd (add p c t s))) \<noteq> -1"
  shows "fst (add p' c' t' (snd (add p c t s))) \<noteq> fst (add p c t s)"
proof
  assume "fst (add p' c' t' (snd (add p c t s))) = fst (add p c t s)"
  then have "find (fst (add p c t s)) (snd (add p c t s)) = None"
    using add_fresh [OF ok_add [OF assms(1)] assms(3)] by simp
  then show False by (simp add: find_add assms(1,2))
qed

end

lemma add_job_cases:
  assumes "jobs_ok st"
  obtains "fst (add_job p c t st) = -1" "snd (add_job p c t st) = st"
      "\<forall>k < MAX_JOBS. in_use (jobs st ! k)"
  | i where "i < MAX_JOBS" "\<not> in_use (jobs st ! i)" "fst (add_job p c t st) = next_job_id st"
      "snd (add_job p c t st) = st\<lparr>jobs := (jobs st)[i := \<lparr>job_id = next_job_id st, pid = p,
         command = stored_command c, status = t, in_use = True\<rparr>],
         next_job_id := next_job_id st + 1\<rparr>"
proof (cases "first_index (\<lambda>j. \<not> in_use j) (jobs st)")
  case None
  then have "\<forall>k < MAX_JOBS. in_use (jobs st ! k)"
    using jobs_okD(1) [OF assms] by (simp add: first_index_None all_set_conv_all_nth)
  with None show ?thesis using that(1) by (simp add: add_job_def)
next
  case (Some i)
  then show ?thesis
    using that(2) [of i] first_index_SomeD [OF Some] jobs_okD(1) [OF assms]
    by (auto simp: add_job_def)
qed

lemma find_job_add:
  assumes "jobs_ok st" "fst (add_job p c t st) \<noteq> -1"
  shows "find_job i (snd (add_job p c t st)) =
     (if i = fst (add_job p c t st)
      then Some \<lparr>job_id = i, pid = p, command = stored_command c, status = t, in_use = True\<rparr>
      else find_job i st)"
  using assms(1)
proof (cases rule: add_job_cases [of st p c t])
  case (2 k)
  note ok' = add_job_ok [OF assms(1), of p c t]
  let ?j = "\<lparr>job_id = next_job_id st, pid = p, command = stored_command c, status = t,
      in_use = True\<rparr>"
  have jobs': "jobs (snd (add_job p c t st)) = (jobs st)[k := ?j]" using 2(4) by simp
  have nth: "jobs (snd (add_job p c t st)) ! l = (if l = k then ?j else jobs st ! l)"
    if "l < MAX_JOBS" for l
    using that jobs_okD(1) [OF assms(1)] by (simp add: jobs' nth_list_update)
  show ?thesis
  proof (cases "i = next_job_id st")
    case True
    have "find_job i (snd (add_job p c t st)) = Some ?j"
      unfolding find_job_iff [OF ok'] using 2(1) True nth [OF 2(1)] by (intro exI [of _ k]) simp
    then show ?thesis using 2 True by simp
  next
    case False
    have "find_job i (snd (add_job p c t st)) = find_job i st"
      using assms(1) ok' by (rule find_job_other [of _ _ k]) (use 2 nth False in auto)
    then show ?thesis using 2(3) False by simp
  qed
qed (use assms in simp)

lemma find_job_remove:
  assumes "jobs_ok st"
  shows "find_job i (remove_job k st) = (if i = k then None else find_job i st)"
proof (cases "get_job k st")
  case None
  then show ?thesis by (auto simp: remove_job_def get_job_def [symmetric] find_job_def)
next
  case (Some l)
  then have l: "l < MAX_JOBS" "in_use (jobs st ! l)" "job_id (jobs st ! l) = k"
    using get_job_iff [OF assms] by auto
  note ok' = remove_job_ok [OF assms, of k]
  have jobs': "jobs (remove_job k st) = (jobs st)[l := (jobs st ! l)\<lparr>in_use := False\<rparr>]"
    using Some by (simp add: remove_job_def get_job_def)
  have nth: "jobs (remove_job k st) ! m =
      (if m = l then (jobs st ! l)\<lparr>in_use := False\<rparr> else jobs st ! m)" if "m < MAX_JOBS" for m
    using that jobs_okD(1) [OF assms] by (simp add: jobs' nth_list_update)
  show ?thesis
  proof (cases "i = k")
    case True
    have "\<not> (in_use (jobs (remove_job k st) ! m) \<and> job_id (jobs (remove_job k st) ! m) = k)"
      if "m < MAX_JOBS" for m
      using jobs_okD(4) [OF assms that l(1)] l nth [OF that] by (cases "m = l") auto
    then have "get_job k (remove_job k st) = None" unfolding get_job_None_iff [OF ok'] by blast
    then show ?thesis using True by (simp add: find_job_def)
  next
    case False
    have "find_job i (remove_job k st) = find_job i st"
      using assms ok' by (rule find_job_other [of _ _ l]) (use l nth [OF l(1)] nth False in auto)
    then show ?thesis using False by simp
  qed
qed

lemma add_job_fails:
  assumes "jobs_ok st" "fst (add_job p c t st) = -1" shows "snd (add_job p c t st) = st"
  using assms(1) by (cases rule: add_job_cases [of st p c t])
    (use assms jobs_okD(2) [of st] in auto)

lemma add_job_fresh:
  assumes "jobs_ok st" "fst (add_job p c t st) \<noteq> -1"
  shows "find_job (fst (add_job p c t st)) st = None"
  using assms(1) by (cases rule: add_job_cases [of st p c t])
    (use assms in \<open>simp_all add: find_job_fresh\<close>)

interpretation job_table: job_store jobs_ok find_job add_job remove_job
  by unfold_locales (simp_all add: add_job_ok remove_job_ok find_job_add find_job_remove
      add_job_fails add_job_fresh)

text \<open>
  A job that \<open>add_job\<close> takes is found under the returned id with its pid, its command (cut to
  the field's size) and its status, every other id finds what it found before, and removing the id
  again restores every lookup; a full table refuses and changes nothing.
\<close>

theorem add_job_roundtrip:
  assumes "jobs_ok st" and "add_job p c t st = (i, st')"
  shows "(if i = -1 then st' = st
          else find_job i st = None \<and>
            find_job i st' = Some \<lparr>job_id = i, pid = p, command = stored_command c, status = t,
              in_use = True\<rparr> \<and>
            (\<forall>k. find_job k (remove_job i st') = find_job k st))"
  using assms job_table.add_fails [of st p c t] job_table.add_fresh [of st p c t]
    job_table.find_add [of st p c t] job_table.add_remove [of st p c t] by auto

definition empty_shell :: "'w \<Rightarrow> 'w shell" where
  "empty_shell w = \<lparr>jobs = replicate MAX_JOBS \<lparr>job_id = 0, pid = 0, command = [], status = JOB_RUNNING,
     in_use = False\<rparr>, next_job_id = 1, foreground_pid = -1, home_dir = ''/home'', prev_dir = [],
     log_entries = replicate 15 [], log_count = 0, log_start = 0, log_loaded = False, out = [],
     world = w\<rparr>"

lemma empty_shell_ok [inv_pres]: "jobs_ok (empty_shell w)"
  by (simp add: jobs_ok_def empty_shell_def)

theorem add_job_roundtrip_witness:
  "\<exists>i st'. add_job 42 ''sleep'' JOB_RUNNING (empty_shell ()) = (i, st') \<and> i = 1 \<and>
     find_job 1 st' \<noteq> None"
proof -
  obtain i st' where e: "add_job 42 ''sleep'' JOB_RUNNING (empty_shell ()) = (i, st')" by fastforce
  have "i = 1"
    using e by (simp add: add_job_def empty_shell_def MAX_JOBS_def numeral_eq_Suc)
  with add_job_roundtrip [OF empty_shell_ok e] show ?thesis using e by auto
qed

section \<open>Listing, reaping, signalling\<close>

interpretation by_command: comparator job_cmp
  by unfold_locales (auto simp: job_cmp_def strcmp_le_iff strcmp_gt_iff)

lemma fold_emit: "fold (\<lambda>j. emit (f j)) js st = st\<lparr>out := out st @ map f js\<rparr>"
  by (induction js arbitrary: st) (simp_all add: emit_def)

lemma sorted_wrt_cmp_sorted:
  "sorted_wrt (\<lambda>x y. strcmp (f x) (f y) \<le> 0) xs \<longleftrightarrow> sorted (map f xs)"
  by (simp add: strcmp_le_iff sorted_wrt_map)

text \<open>
  \<open>activities\<close> prints one line for every job in use, none twice and none left out, in the
  byte order of the commands, and changes nothing but the output.
\<close>

theorem list_jobs_sorted:
  "\<exists>js. list_jobs st = st\<lparr>out := out st @ map job_line js\<rparr> \<and>
     mset js = mset (filter in_use (jobs st)) \<and> sorted (map command js)"
proof (intro exI conjI)
  show "list_jobs st = st\<lparr>out := out st @ map job_line (sorted_jobs st)\<rparr>"
    by (simp add: list_jobs_def fold_emit)
  show "mset (sorted_jobs st) = mset (filter in_use (jobs st))"
    unfolding sorted_jobs_def by (rule by_command.exchange_sort_mset)
  have "sorted_wrt (\<lambda>x y. job_cmp x y \<le> 0) (sorted_jobs st)"
    unfolding sorted_jobs_def by (rule by_command.exchange_sort_sorted)
  then show "sorted (map command (sorted_jobs st))"
    unfolding job_cmp_def sorted_wrt_cmp_sorted .
qed

lemma emit_simps [simp]:
  "jobs (emit p st) = jobs st" "next_job_id (emit p st) = next_job_id st"
  "foreground_pid (emit p st) = foreground_pid st" "home_dir (emit p st) = home_dir st"
  "prev_dir (emit p st) = prev_dir st" "log_entries (emit p st) = log_entries st"
  "log_count (emit p st) = log_count st" "log_start (emit p st) = log_start st"
  "log_loaded (emit p st) = log_loaded st" "out (emit p st) = out st @ [p]"
  "world (emit p st) = world st"
  by (simp_all add: emit_def)

lemma syscall_simps [simp]:
  "fst (syscall f st) = fst (f (world st))"
  "snd (syscall f st) = st\<lparr>world := snd (f (world st))\<rparr>"
  by (simp_all add: syscall_def split: prod.split)

lemma syscall_eq: "syscall f st = (fst (f (world st)), st\<lparr>world := snd (f (world st))\<rparr>)"
  by (simp add: prod_eq_iff)

lemma emit_ok [inv_pres]: "jobs_ok st \<Longrightarrow> jobs_ok (emit p st)"
  by (simp add: jobs_ok_cong [of "emit p st" st])

lemma find_job_emit [simp]: "find_job i (emit p st) = find_job i st"
  by (simp add: find_job_def get_job_def)

text \<open>
  When \<open>check_background_jobs\<close> learns that the process of a job has exited or was killed by a
  signal, it reports it with the words the exit code calls for and forgets exactly that job; a
  stopped or continued process only changes the status of its job, and the children that are no
  jobs are ignored.
\<close>

theorem reap_one_effect:
  assumes "jobs_ok st"
  shows "(case get_job_by_pid p st of
      None \<Rightarrow> reap_one (p, s) st = st
    | Some k \<Rightarrow>
        if \<exists>c. s = Exited c \<or> s = Signaled c then
          out (reap_one (p, s) st) = out st @
            [Printf (if s = Exited 0 then ''%s with pid %d exited normally\<newline>''
                     else ''%s with pid %d exited abnormally\<newline>'') [S (command (jobs st ! k)), D p]] \<and>
          (\<forall>i. find_job i (reap_one (p, s) st) =
             (if i = job_id (jobs st ! k) then None else find_job i st))
        else reap_one (p, s) st =
          set_status k (if s = Continued then JOB_RUNNING else JOB_STOPPED) st)"
proof -
  have out_remove: "out (remove_job i st') = out st'" for i and st' :: "'a shell"
    by (simp add: remove_job_def split: option.split)
  have find: "find_job i (remove_job j (emit q st)) = (if i = j then None else find_job i st)"
    for i j q using job_table.find_remove [OF emit_ok [OF assms]] by simp
  show ?thesis
    by (cases s) (auto simp: reap_one_def Let_def out_remove find split: option.split)
qed

theorem reap_one_effect_witness:
  "\<exists>st :: unit shell. find_job 1 st \<noteq> None \<and>
     out (reap_one (42, Exited 0) st) =
       [Printf ''%s with pid %d exited normally\<newline>'' [S ''sleep'', D 42]] \<and>
     find_job 1 (reap_one (42, Exited 0) st) = None"
proof -
  let ?st = "snd (add_job 42 ''sleep'' JOB_RUNNING (empty_shell ()))"
  have jobs: "jobs ?st ! 0 = \<lparr>job_id = 1, pid = 42, command = ''sleep'', status = JOB_RUNNING,
      in_use = True\<rparr>" "length (jobs ?st) = MAX_JOBS" "out ?st = []"
    by (simp_all add: add_job_def empty_shell_def MAX_JOBS_def MAX_CMD_LEN_def stored_command_def
        numeral_eq_Suc)
  have pid: "get_job_by_pid 42 ?st = Some 0"
    using jobs by (simp add: get_job_by_pid_def first_index_Some MAX_JOBS_def)
  have "get_job 1 ?st = Some 0"
    using jobs by (simp add: get_job_def first_index_Some MAX_JOBS_def)
  then show ?thesis
    using reap_one_effect [OF add_job_ok [OF empty_shell_ok], where p = 42 and s = "Exited 0",
        of 42 "''sleep''" JOB_RUNNING "()"] jobs
    by (intro exI [of _ ?st]) (simp add: find_job_def pid)
qed

text \<open>
  \<open>ping\<close> sends a signal only when both arguments are numbers and the first is positive; the
  signal number it passes on is the remainder modulo 32, strictly between -32 and 32 and with the
  sign of the argument; in every other case only an error line is printed.
\<close>

theorem cmd_ping_effect:
  "let p = strtol (argv ! 1); n = strtol (argv ! 2); (r, st') = cmd_ping sys argv st in
     if length argv = 3 \<and> snd p = [] \<and> 0 < fst p \<and> snd n = [] then
       \<exists>k. - 32 < k \<and> k < 32 \<and> 32 dvd (fst n - k) \<and>
         world st' = snd (os_kill sys (to_int32 (fst p)) k (world st)) \<and>
         (r = 0 \<longleftrightarrow> fst (os_kill sys (to_int32 (fst p)) k (world st)) \<noteq> -1) \<and> jobs st' = jobs st
     else r = -1 \<and> st' = puts ''Invalid syntax!\<newline>'' st"
proof -
  have "32 dvd (n - c_rem n 32)" for n :: int
  proof -
    have "n = sgn n * \<bar>n\<bar>" by (simp add: sgn_mult_abs)
    then have "n - c_rem n 32 = sgn n * (\<bar>n\<bar> - \<bar>n\<bar> mod 32)"
      by (metis abs_numeral c_rem_def right_diff_distrib)
    then show ?thesis by (simp add: minus_mod_eq_mult_div)
  qed
  then show ?thesis
    using c_rem_bounds [of 32]
    by (auto simp: cmd_ping_def Let_def syscall_eq case_prod_unfold
        intro!: exI [of _ "c_rem (fst (strtol (argv ! 2))) 32"])
qed

text \<open>
  The positivity test of \<open>ping\<close> is made on the 64-bit number, before the conversion to
  \<open>pid_t\<close>: \<open>ping 4294967295 9\<close> passes it and kills process -1, every process the user may signal.
\<close>

theorem ping_reaches_broadcast:
  "world (snd (cmd_ping sys [''ping'', ''4294967295'', ''9''] st)) = snd (os_kill sys (-1) 9 (world st))"
proof -
  have "strtol ''4294967295'' = (4294967295, [])" "strtol ''9'' = (9, [])"
    by code_simp+
  moreover have "to_int32 4294967295 = -1" "c_rem 9 32 = 9" by code_simp+
  ultimately show ?thesis by (simp add: cmd_ping_def syscall_eq Let_def)
qed

end
