(* ===== verification/ShellHistory.thy ===== *)
theory ShellHistory
  imports ShellSyntax ShellJobs
begin

text \<open>
  \<open>shell/src/log.c\<close>: the command history, a ring buffer of \<open>MAX_LOG_ENTRIES\<close> lines that is saved
  to a file after every change and loaded on first use. \<open>cmd_log\<close> takes the executor it calls for
  \<open>log execute\<close> as an argument; the theory of the executor ties the knot.
\<close>

section \<open>The ring buffer and its file\<close>

definition MAX_LOG_ENTRIES :: nat where "MAX_LOG_ENTRIES = 15"

definition MAX_INPUT_LEN :: nat where "MAX_INPUT_LEN = 4096"

definition PATH_MAX :: nat where "PATH_MAX = 4096"

text \<open>The library's \<open>fgets\<close>: at most \<open>n - 1\<close> characters, up to and with the first newline.\<close>

definition fgets :: "nat \<Rightarrow> string \<Rightarrow> (string \<times> string) option" where
  "fgets n s =
     (if s = [] then None
      else let line = take (n - 1) (takeWhile (\<lambda>c. c \<noteq> CHR ''\<newline>'') s @
                        take 1 (dropWhile (\<lambda>c. c \<noteq> CHR ''\<newline>'') s))
           in Some (line, drop (length line) s))"

definition strip_newline :: "string \<Rightarrow> string" where
  "strip_newline line = (if line \<noteq> [] \<and> last line = CHR ''\<newline>'' then butlast line else line)"

lemma fgets_consumes [consumes]:
  assumes "fgets n s = Some (line, rest)" "2 \<le> n" shows "length rest < length s"
proof -
  have "takeWhile (\<lambda>c. c \<noteq> CHR ''\<newline>'') s @ take 1 (dropWhile (\<lambda>c. c \<noteq> CHR ''\<newline>'') s) \<noteq> []"
    if "s \<noteq> []" using that by (cases s) auto
  with assms show ?thesis
    by (auto simp: fgets_def Let_def split: if_splits)
qed

function load_lines :: "string \<Rightarrow> string list \<times> nat \<Rightarrow> string list \<times> nat" where
  "load_lines f (entries, n) =
     (case fgets MAX_INPUT_LEN f of
        None \<Rightarrow> (entries, n)
      | Some (line, f) \<Rightarrow>
          if n < MAX_LOG_ENTRIES
          then load_lines f (entries[n := strip_newline line], n + 1)
          else (entries, n))"
  by pat_completeness auto
termination
  by (relation "measure (length \<circ> fst)") (auto simp: MAX_INPUT_LEN_def dest: fgets_consumes)

declare load_lines.simps [simp del]

definition log_path :: "'w shell \<Rightarrow> string" where
  "log_path st = home_dir st @ ''/'' @ ''.shell_log''"

definition load_log :: "'w os \<Rightarrow> 'w shell \<Rightarrow> 'w shell" where
  "load_log sys st =
     (if length (log_path st) \<ge> PATH_MAX + 20 then st
      else case os_read_file sys (log_path st) (world st) of
             None \<Rightarrow> st
           | Some f \<Rightarrow>
               let (entries, n) = load_lines f (log_entries st, 0)
               in st\<lparr>log_entries := entries, log_count := n, log_start := 0\<rparr>)"

text \<open>The \<open>i\<close>th entry, oldest first, and the text \<open>save_log\<close> writes.\<close>

definition log_entry :: "'w shell \<Rightarrow> nat \<Rightarrow> string" where
  "log_entry st i = log_entries st ! ((log_start st + i) mod MAX_LOG_ENTRIES)"

definition log_text :: "string list \<Rightarrow> string" where
  "log_text es = concat (map (\<lambda>e. e @ ''\<newline>'') es)"

definition save_log :: "'w os \<Rightarrow> 'w shell \<Rightarrow> 'w shell" where
  "save_log sys st =
     (if length (log_path st) \<ge> PATH_MAX + 20 then st
      else
        let text = log_text (map (log_entry st) [0..<log_count st]);
            (opened, st) = syscall (os_write_file sys (log_path st) text) st
        in if opened then st else emit (Perror ''log: failed to save'') st)"

definition ensure_loaded :: "'w os \<Rightarrow> 'w shell \<Rightarrow> 'w shell" where
  "ensure_loaded sys st =
     (if log_loaded st then st else (load_log sys st)\<lparr>log_loaded := True\<rparr>)"

definition is_blank :: "char \<Rightarrow> bool" where
  "is_blank c \<longleftrightarrow> c = CHR '' '' \<or> c = CHR 0x09"

definition is_log_command :: "string \<Rightarrow> bool" where
  "is_log_command cmd =
     (let trimmed = dropWhile is_blank cmd
      in strncmp_eq trimmed ''log'' 3 \<and> (length trimmed = 3 \<or> is_blank (trimmed ! 3)))"

definition log_add_command :: "'w os \<Rightarrow> string \<Rightarrow> 'w shell \<Rightarrow> 'w shell" where
  "log_add_command sys cmd st =
     (let st = ensure_loaded sys st in
      if is_log_command cmd then st
      else if log_count st > 0 \<and>
        strcmp (log_entries st ! ((log_start st + log_count st - 1) mod MAX_LOG_ENTRIES)) cmd = 0
      then st
      else
        let st = (if log_count st < MAX_LOG_ENTRIES
                  then st\<lparr>log_entries := (log_entries st)[log_count st := cmd],
                          log_count := log_count st + 1\<rparr>
                  else st\<lparr>log_entries := (log_entries st)[log_start st := cmd],
                          log_start := (log_start st + 1) mod MAX_LOG_ENTRIES\<rparr>)
        in save_log sys st)"

text \<open>
  \<open>cmd_log\<close> returns what it prints and changes, or, for \<open>log execute\<close>, what executing the entry
  gives: \<open>None\<close> when that does not return, a fault, or a state; the code then returns 0.
\<close>

type_synonym 'w outcome = "(fault + int \<times> 'w shell) option"

definition cmd_log ::
  "(string \<Rightarrow> 'w shell \<Rightarrow> 'w outcome) \<Rightarrow> 'w os \<Rightarrow> string list \<Rightarrow> 'w shell \<Rightarrow> 'w outcome" where
  "cmd_log execute_full_command sys argv st =
     (let st = ensure_loaded sys st; argc = length argv in
      if argc = 1 then
        Some (Inr (0, fold (\<lambda>i. emit (Printf ''%s\<newline>'' [S (log_entry st i)])) [0..<log_count st] st))
      else if argc = 2 \<and> strcmp (argv ! 1) ''purge'' = 0 then
        Some (Inr (0, save_log sys (st\<lparr>log_count := 0, log_start := 0\<rparr>)))
      else if argc = 3 \<and> strcmp (argv ! 1) ''execute'' = 0 then
        let index = atoi (argv ! 2) in
        if index < 1 \<or> index > int (log_count st)
        then Some (Inr (-1, puts ''log: Invalid index\<newline>'' st))
        else
          let idx = (log_start st + log_count st - nat index) mod MAX_LOG_ENTRIES in
          if \<not> parse_input (log_entries st ! idx)
          then Some (Inr (-1, puts ''Invalid Syntax!\<newline>'' st))
          else (case execute_full_command (log_entries st ! idx) st of
                  None \<Rightarrow> None
                | Some (Inl f) \<Rightarrow> Some (Inl f)
                | Some (Inr (_, st)) \<Rightarrow> Some (Inr (0, st)))
      else Some (Inr (-1, puts ''log: Invalid Syntax!\<newline>'' st)))"

section \<open>The history it represents\<close>

definition history :: "'w shell \<Rightarrow> string list" where
  "history st = map (log_entry st) [0..<log_count st]"

text \<open>The buffer fills from index 0; only when it is full does the start move.\<close>

definition log_ok :: "'w shell \<Rightarrow> bool" where
  "log_ok st \<longleftrightarrow> length (log_entries st) = MAX_LOG_ENTRIES \<and> log_count st \<le> MAX_LOG_ENTRIES \<and>
     log_start st < MAX_LOG_ENTRIES \<and> (log_count st < MAX_LOG_ENTRIES \<longrightarrow> log_start st = 0)"

text \<open>The reference: a list of at most \<open>n\<close> lines, the oldest dropped, a repetition not recorded.\<close>

definition remember :: "nat \<Rightarrow> string \<Rightarrow> string list \<Rightarrow> string list" where
  "remember n cmd h =
     (if is_log_command cmd \<or> h \<noteq> [] \<and> last h = cmd then h
      else drop (length h + 1 - n) (h @ [cmd]))"

text \<open>What the main loop relies on: adding refines \<open>remember\<close>.\<close>

locale history_store =
  fixes ok :: "'s \<Rightarrow> bool" and hist :: "'s \<Rightarrow> string list" and add :: "string \<Rightarrow> 's \<Rightarrow> 's"
    and capacity :: nat
  assumes add_ok: "ok s \<Longrightarrow> ok (add c s)"
    and hist_add: "ok s \<Longrightarrow> hist (add c s) = remember capacity c (hist s)"
    and hist_bound: "ok s \<Longrightarrow> length (hist s) \<le> capacity"
    and capacity_pos: "0 < capacity"
begin

lemma fold_ok: "ok s \<Longrightarrow> ok (fold add cs s)"
  by (induction cs arbitrary: s) (simp_all add: add_ok)

lemma hist_fold: "ok s \<Longrightarrow> hist (fold add cs s) = fold (remember capacity) cs (hist s)"
  by (induction cs arbitrary: s) (simp_all add: add_ok hist_add)

lemma distinct_adj_drop: "distinct_adj xs \<Longrightarrow> distinct_adj (drop n xs)"
  by (induction xs arbitrary: n) (auto simp: drop_Cons' dest: distinct_adj_ConsD)

lemma remember_distinct_adj: "distinct_adj h \<Longrightarrow> distinct_adj (remember capacity c h)"
  unfolding remember_def
  by (auto intro!: distinct_adj_drop simp: distinct_adj_append_iff)

lemma hist_distinct_adj: "ok s \<Longrightarrow> distinct_adj (hist s) \<Longrightarrow> distinct_adj (hist (fold add cs s))"
  by (induction cs arbitrary: s) (simp_all add: add_ok hist_add remember_distinct_adj)

lemma last_hist_add:
  "ok s \<Longrightarrow> \<not> is_log_command c \<Longrightarrow> hist (add c s) \<noteq> [] \<and> last (hist (add c s)) = c"
  using hist_bound [of s] capacity_pos by (auto simp: hist_add remember_def)

end

lemma save_log_simps [simp]:
  "log_entries (save_log sys st) = log_entries st" "log_count (save_log sys st) = log_count st"
  "log_start (save_log sys st) = log_start st" "log_loaded (save_log sys st) = log_loaded st"
  "jobs (save_log sys st) = jobs st" "next_job_id (save_log sys st) = next_job_id st"
  "home_dir (save_log sys st) = home_dir st" "prev_dir (save_log sys st) = prev_dir st"
  by (simp_all add: save_log_def syscall_eq Let_def)

lemma history_save [simp]: "history (save_log sys st) = history st"
  by (simp add: history_def log_entry_def)

lemma length_history [simp]: "length (history st) = log_count st"
  by (simp add: history_def)

lemma history_nth: "i < log_count st \<Longrightarrow> history st ! i = log_entry st i"
  by (simp add: history_def)

lemma log_ok_cong:
  "log_entries st' = log_entries st \<Longrightarrow> log_count st' = log_count st \<Longrightarrow>
     log_start st' = log_start st \<Longrightarrow> log_ok st' = log_ok st"
  by (simp add: log_ok_def)

lemma load_lines_bounds:
  "load_lines f (es, n) = (es', n') \<Longrightarrow> n \<le> MAX_LOG_ENTRIES \<Longrightarrow>
     length es' = length es \<and> n' \<le> MAX_LOG_ENTRIES"
proof (induction f "(es, n)" arbitrary: es n rule: load_lines.induct)
  case (1 f es n)
  show ?case
  proof (cases "fgets MAX_INPUT_LEN f")
    case None
    with "1.prems" show ?thesis by (simp add: load_lines.simps [of f])
  next
    case (Some p)
    then show ?thesis
      using "1.prems" "1.hyps" [OF Some, of "fst p" "snd p"]
      by (cases p) (auto simp: load_lines.simps [of f] split: if_splits)
  qed
qed

lemma load_log_ok [inv_pres]: "log_ok st \<Longrightarrow> log_ok (load_log sys st)"
  by (auto simp: load_log_def log_ok_def MAX_LOG_ENTRIES_def split: option.split prod.split
      dest: load_lines_bounds)

lemma ensure_loaded_ok [inv_pres]: "log_ok st \<Longrightarrow> log_ok (ensure_loaded sys st)"
  using load_log_ok [of st sys]
  by (simp add: ensure_loaded_def log_ok_cong [of "load_log sys st\<lparr>log_loaded := True\<rparr>"])

lemma ensure_loaded_id [simp]: "log_loaded st \<Longrightarrow> ensure_loaded sys st = st"
  by (simp add: ensure_loaded_def)

lemma last_history:
  "log_count st > 0 \<Longrightarrow> last (history st) =
     log_entries st ! ((log_start st + log_count st - 1) mod MAX_LOG_ENTRIES)"
  by (simp add: history_def last_map log_entry_def)

lemma history_add_room:
  assumes "log_ok st" "log_count st < MAX_LOG_ENTRIES"
  shows "history (st\<lparr>log_entries := (log_entries st)[log_count st := cmd],
           log_count := log_count st + 1\<rparr>) = history st @ [cmd]"
proof (rule nth_equalityI)
  fix i assume "i < length (history (st\<lparr>log_entries := (log_entries st)[log_count st := cmd],
           log_count := log_count st + 1\<rparr>))"
  then have "i \<le> log_count st" "i < MAX_LOG_ENTRIES" using assms(2) by simp_all
  then show "history (st\<lparr>log_entries := (log_entries st)[log_count st := cmd],
           log_count := log_count st + 1\<rparr>) ! i = (history st @ [cmd]) ! i"
    using assms
    by (cases "i = log_count st")
      (simp_all add: history_nth log_entry_def log_ok_def nth_append nth_list_update)
qed simp

lemma history_add_full:
  assumes "log_ok st" "\<not> log_count st < MAX_LOG_ENTRIES"
  shows "history (st\<lparr>log_entries := (log_entries st)[log_start st := cmd],
           log_start := (log_start st + 1) mod MAX_LOG_ENTRIES\<rparr>) = drop 1 (history st @ [cmd])"
proof (rule nth_equalityI)
  have count: "log_count st = MAX_LOG_ENTRIES" "length (log_entries st) = MAX_LOG_ENTRIES"
    "log_start st < MAX_LOG_ENTRIES" using assms by (simp_all add: log_ok_def)
  fix i assume "i < length (history (st\<lparr>log_entries := (log_entries st)[log_start st := cmd],
           log_start := (log_start st + 1) mod MAX_LOG_ENTRIES\<rparr>))"
  then have i: "i < MAX_LOG_ENTRIES" using count by simp
  have idx: "(Suc (log_start st) mod MAX_LOG_ENTRIES + i) mod MAX_LOG_ENTRIES =
      (log_start st + Suc i) mod MAX_LOG_ENTRIES" by (simp add: mod_add_left_eq)
  have lhs: "history (st\<lparr>log_entries := (log_entries st)[log_start st := cmd],
           log_start := (log_start st + 1) mod MAX_LOG_ENTRIES\<rparr>) ! i =
      (log_entries st)[log_start st := cmd] ! ((log_start st + Suc i) mod MAX_LOG_ENTRIES)"
    using i count by (simp add: history_nth log_entry_def idx)
  have rhs: "drop 1 (history st @ [cmd]) ! i = (history st @ [cmd]) ! Suc i"
    by (simp del: drop_append)
  show "history (st\<lparr>log_entries := (log_entries st)[log_start st := cmd],
           log_start := (log_start st + 1) mod MAX_LOG_ENTRIES\<rparr>) ! i =
      drop 1 (history st @ [cmd]) ! i"
  proof (cases "Suc i = MAX_LOG_ENTRIES")
    case True
    then have "(log_start st + Suc i) mod MAX_LOG_ENTRIES = log_start st" using count by simp
    moreover have "(history st @ [cmd]) ! Suc i = cmd"
      using True count by (metis length_history nth_append_length)
    ultimately show ?thesis unfolding lhs rhs using count by simp
  next
    case False
    then have "(log_start st + Suc i) mod MAX_LOG_ENTRIES \<noteq> log_start st"
      using i count(3) by (auto simp: MAX_LOG_ENTRIES_def mod_if split: if_splits)
    then show ?thesis unfolding lhs rhs using False i count
      by (simp add: history_nth log_entry_def nth_append)
  qed
qed (use assms in \<open>simp add: log_ok_def\<close>)

text \<open>The ring buffer in use: loaded, and in shape.\<close>

definition log_ready :: "'w shell \<Rightarrow> bool" where
  "log_ready st \<longleftrightarrow> log_ok st \<and> log_loaded st"

lemma log_add_ready [inv_pres]: "log_ready st \<Longrightarrow> log_ready (log_add_command sys cmd st)"
  by (auto simp: log_ready_def log_add_command_def Let_def log_ok_def MAX_LOG_ENTRIES_def)

lemma history_log_add:
  assumes "log_ready st"
  shows "history (log_add_command sys cmd st) = remember MAX_LOG_ENTRIES cmd (history st)"
proof -
  have ok: "log_ok st" "log_loaded st" using assms by (simp_all add: log_ready_def)
  have repeated: "log_count st > 0 \<and>
      strcmp (log_entries st ! ((log_start st + log_count st - 1) mod MAX_LOG_ENTRIES)) cmd = 0
      \<longleftrightarrow> history st \<noteq> [] \<and> last (history st) = cmd"
    using last_history [of st] by (auto simp: history_def)
  show ?thesis
  proof (cases "is_log_command cmd \<or> history st \<noteq> [] \<and> last (history st) = cmd")
    case True
    then show ?thesis using repeated by (auto simp: log_add_command_def ok remember_def)
  next
    case False
    then have n: "\<not> is_log_command cmd" "\<not> (log_count st > 0 \<and>
      strcmp (log_entries st ! ((log_start st + log_count st - 1) mod MAX_LOG_ENTRIES)) cmd = 0)"
      using repeated by blast+
    show ?thesis
      using history_add_room [OF ok(1), of cmd] history_add_full [OF ok(1), of cmd] ok False
      unfolding log_add_command_def Let_def ensure_loaded_id [OF ok(2)] if_not_P [OF n(1)]
        if_not_P [OF n(2)]
      by (cases "log_count st < MAX_LOG_ENTRIES") (auto simp: remember_def log_ok_def)
  qed
qed

interpretation history_log: history_store log_ready history "log_add_command sys" MAX_LOG_ENTRIES
  for sys :: "'w os"
  by unfold_locales
    (simp_all add: log_add_ready history_log_add, simp_all add: log_ready_def log_ok_def
      MAX_LOG_ENTRIES_def)

text \<open>
  C27. The ring buffer implements a bounded list: whatever lines are entered, in whatever order, the
  history is what adding them one by one to a list of at most fifteen lines gives, skipping the log
  commands and immediate repetitions and dropping the oldest; a line that is no log command is
  the newest entry after it was entered.
\<close>

theorem log_refines_bounded_list:
  assumes "log_ready st"
  shows "history (fold (log_add_command sys) cs st) = fold (remember 15) cs (history st) \<and>
    length (history (fold (log_add_command sys) cs st)) \<le> 15 \<and>
    (distinct_adj (history st) \<longrightarrow> distinct_adj (history (fold (log_add_command sys) cs st))) \<and>
    (cs \<noteq> [] \<and> \<not> is_log_command (last cs) \<longrightarrow>
       last (history (fold (log_add_command sys) cs st)) = last cs)"
proof -
  note ready = history_log.fold_ok [OF assms, of sys]
  have "last (history (fold (log_add_command sys) cs st)) = last cs"
    if "cs \<noteq> []" "\<not> is_log_command (last cs)"
  proof -
    have "fold (log_add_command sys) cs st =
        log_add_command sys (last cs) (fold (log_add_command sys) (butlast cs) st)"
      using append_butlast_last_id [OF that(1)] by (metis fold_Cons fold_Nil fold_append comp_apply id_apply)
    then show ?thesis using history_log.last_hist_add [OF ready that(2)] by simp
  qed
  then show ?thesis
    using history_log.hist_fold [OF assms, of sys cs] history_log.hist_bound [OF ready, of cs]
      history_log.hist_distinct_adj [OF assms, of sys cs]
    by (simp add: MAX_LOG_ENTRIES_def)
qed

lemma log_ready_empty: "log_ready (empty_shell w\<lparr>log_loaded := True\<rparr>)"
  by (simp add: log_ready_def log_ok_def empty_shell_def MAX_LOG_ENTRIES_def)

theorem log_refines_bounded_list_witness:
  "log_ready (empty_shell ()\<lparr>log_loaded := True\<rparr>) \<and>
   history (fold (log_add_command idle_os) [''ls'', ''ls'', ''log'', ''cat a''] (empty_shell ()\<lparr>log_loaded := True\<rparr>))
     = [''ls'', ''cat a'']"
proof -
  have "history (empty_shell ()\<lparr>log_loaded := True\<rparr>) = []"
    by (simp add: history_def empty_shell_def)
  then show ?thesis
    using log_refines_bounded_list [OF log_ready_empty, of "idle_os :: unit os" "[''ls'', ''ls'', ''log'', ''cat a'']"]
    by (simp add: log_ready_empty remember_def is_log_command_def is_blank_def strncmp_eq_def)
qed

section \<open>What is saved is what is loaded\<close>

lemma fgets_line:
  assumes "CHR ''\<newline>'' \<notin> set l" "length l < 4095"
  shows "fgets 4096 (l @ CHR ''\<newline>'' # rest) = Some (l @ ''\<newline>'', rest)"
proof -
  have "takeWhile (\<lambda>c. c \<noteq> CHR ''\<newline>'') (l @ CHR ''\<newline>'' # rest) = l"
    "dropWhile (\<lambda>c. c \<noteq> CHR ''\<newline>'') (l @ CHR ''\<newline>'' # rest) = CHR ''\<newline>'' # rest"
    using assms(1) by (induction l) auto
  then show ?thesis using assms(2) by (simp add: fgets_def)
qed

lemma load_lines_text:
  assumes "\<forall>l \<in> set h. CHR ''\<newline>'' \<notin> set l \<and> length l < 4095"
    and "n + length h \<le> MAX_LOG_ENTRIES" "length es = MAX_LOG_ENTRIES"
  shows "load_lines (log_text h) (es, n) = (take n es @ h @ drop (n + length h) es, n + length h)"
  using assms
proof (induction h arbitrary: es n)
  case Nil
  then show ?case by (simp add: log_text_def load_lines.simps [of "[]"] fgets_def)
next
  case (Cons l h)
  have "fgets MAX_INPUT_LEN (log_text (l # h)) = Some (l @ ''\<newline>'', log_text h)"
    using Cons.prems(1) fgets_line [of l "log_text h"] by (simp add: log_text_def MAX_INPUT_LEN_def)
  moreover have "take n es @ l # drop (Suc n) es = es[n := l]"
    using Cons.prems by (simp add: upd_conv_take_nth_drop)
  ultimately show ?case
    using Cons.prems Cons.IH [of "Suc n" "es[n := l]"]
    by (simp add: load_lines.simps [of "log_text (l # h)"] strip_newline_def
        take_Suc_conv_app_nth)
qed

text \<open>
  A shell that finds in its log file the text \<open>save_log\<close> writes for a history starts with that
  history, whatever the buffer of the first shell looked like, as long as no line holds a newline or
  has 4095 characters or more.
\<close>

theorem history_survives_restart:
  assumes "log_ok st" and "\<not> log_loaded st'" and "log_ok st'"
    and "\<forall>l \<in> set (history st). CHR ''\<newline>'' \<notin> set l \<and> length l < 4095"
    and "length (log_path st') < PATH_MAX"
    and "os_read_file sys (log_path st') (world st') = Some (log_text (history st))"
  shows "history (ensure_loaded sys st') = history st \<and> log_ready (ensure_loaded sys st')"
proof -
  have n: "length (history st) \<le> MAX_LOG_ENTRIES" "length (log_entries st') = MAX_LOG_ENTRIES"
    using assms by (simp_all add: log_ok_def)
  define st2 where "st2 = ensure_loaded sys st'"
  have st2: "st2 = st'\<lparr>log_entries := history st @ drop (log_count st) (log_entries st'),
      log_count := log_count st, log_start := 0, log_loaded := True\<rparr>"
    using load_lines_text [OF assms(4), of 0 "log_entries st'"] n assms(2,5,6)
    by (simp add: st2_def ensure_loaded_def load_log_def)
  have "history st2 = history st"
  proof (rule nth_equalityI)
    fix i assume "i < length (history st2)"
    then have "i < log_count st" "i < MAX_LOG_ENTRIES" using n by (simp_all add: st2)
    then show "history st2 ! i = history st ! i"
      by (simp add: st2 history_nth log_entry_def nth_append)
  qed (simp add: st2)
  moreover have "log_ready st2"
    using ensure_loaded_ok [OF assms(3), of sys] by (simp add: log_ready_def st2_def [symmetric], simp add: st2)
  ultimately show ?thesis by (simp add: st2_def)
qed

theorem history_survives_restart_witness:
  "history (ensure_loaded (idle_os\<lparr>os_read_file := \<lambda>f w. Some ''ls\<newline>cat a\<newline>''\<rparr>)
     (empty_shell ())) = [''ls'', ''cat a'']"
proof -
  let ?sys = "idle_os\<lparr>os_read_file := \<lambda>f w. Some ''ls\<newline>cat a\<newline>''\<rparr>"
  let ?st = "empty_shell ()\<lparr>log_entries := [''ls'', ''cat a''] @ replicate 13 [], log_count := 2\<rparr>"
  have h: "history ?st = [''ls'', ''cat a'']"
    by (simp add: history_def log_entry_def empty_shell_def MAX_LOG_ENTRIES_def upt_rec)
  have ok: "log_ok ?st" "log_ok (empty_shell ())" "\<not> log_loaded (empty_shell ())"
    by (simp_all add: log_ok_def empty_shell_def MAX_LOG_ENTRIES_def)
  have "length (log_path (empty_shell ())) < PATH_MAX"
    by (simp add: log_path_def empty_shell_def PATH_MAX_def)
  then show ?thesis
    using history_survives_restart [OF ok(1) ok(3) ok(2), of ?sys] h
    by (simp add: log_text_def)
qed

end
