(* ===== verification/ShellNav.thy ===== *)
theory ShellNav
  imports ShellJobs
begin

text \<open>
  \<open>shell/src/hop.c\<close> and \<open>shell/src/reveal.c\<close>: changing the directory and listing one. The copies
  with \<open>strcpy\<close> into buffers of \<open>PATH_MAX\<close> bytes cannot overflow: the strings are directories
  \<open>getcwd\<close> returned or arguments cut from a line of less than 4096 characters. \<open>malloc\<close>, \<open>realloc\<close>
  and \<open>strdup\<close> are taken not to fail.
\<close>

section \<open>hop\<close>

definition chdir_to :: "'w os \<Rightarrow> string \<Rightarrow> 'w shell \<Rightarrow> bool \<times> 'w shell" where
  "chdir_to sys d st = syscall (os_chdir sys d) st"

fun hop_args :: "'w os \<Rightarrow> string list \<Rightarrow> 'w shell \<Rightarrow> int \<times> 'w shell" where
  "hop_args sys [] st = (0, st)"
| "hop_args sys (arg # args) st =
     (let target = (if strcmp arg ''~'' = 0 then Some (home_dir st)
                    else if strcmp arg ''.'' = 0 then None
                    else if strcmp arg ''..'' = 0 then Some ''..''
                    else if strcmp arg ''-'' = 0
                         then (if prev_dir st = [] then None else Some (prev_dir st))
                    else Some arg)
      in case target of
           None \<Rightarrow> hop_args sys args st
         | Some t \<Rightarrow>
             (case os_getcwd sys (world st) of
                None \<Rightarrow> (-1, emit (Perror ''getcwd'') st)
              | Some old_dir \<Rightarrow>
                  let (ok, st) = chdir_to sys t st in
                  if \<not> ok then (-1, puts ''No such directory!\<newline>'' st)
                  else hop_args sys args (st\<lparr>prev_dir := old_dir\<rparr>)))"

definition cmd_hop :: "'w os \<Rightarrow> string list \<Rightarrow> 'w shell \<Rightarrow> int \<times> 'w shell" where
  "cmd_hop sys argv st =
     (if length argv = 1 then
        let (ok, st) = chdir_to sys (home_dir st) st in
        if \<not> ok then (-1, emit (Perror ''hop'') st)
        else (0, case os_getcwd sys (world st) of
                   None \<Rightarrow> st
                 | Some new_dir \<Rightarrow> st\<lparr>prev_dir := new_dir\<rparr>)
      else hop_args sys (tl argv) st)"

section \<open>reveal\<close>

text \<open>The inner loop over the letters of a flag argument; \<open>Inl c\<close> is an invalid flag.\<close>

fun reveal_flags :: "string \<Rightarrow> bool \<times> bool \<Rightarrow> char + bool \<times> bool" where
  "reveal_flags [] flags = Inr flags"
| "reveal_flags (c # cs) (show_hidden, long_format) =
     (if c = CHR ''a'' then reveal_flags cs (True, long_format)
      else if c = CHR ''l'' then reveal_flags cs (show_hidden, True)
      else Inl c)"

definition is_flag_arg :: "string \<Rightarrow> bool" where
  "is_flag_arg arg \<longleftrightarrow> length arg > 1 \<and> hd arg = CHR ''-''"

definition reveal_dir :: "'w os \<Rightarrow> string \<Rightarrow> 'w shell \<Rightarrow> printed + string" where
  "reveal_dir sys arg st =
     (if strcmp arg ''~'' = 0 then Inr (home_dir st)
      else if strcmp arg ''.'' = 0 then
        (case os_getcwd sys (world st) of None \<Rightarrow> Inl (Perror ''getcwd'') | Some d \<Rightarrow> Inr d)
      else if strcmp arg ''..'' = 0 then Inr ''..''
      else if strcmp arg ''-'' = 0 then
        (if prev_dir st = [] then Inl (Printf ''No such directory!\<newline>'' []) else Inr (prev_dir st))
      else Inr arg)"

text \<open>The loop over the arguments: the flags so far and the directory, when one was given.\<close>

fun reveal_args :: "'w os \<Rightarrow> 'w shell \<Rightarrow> string list \<Rightarrow> bool \<times> bool \<Rightarrow> string option \<Rightarrow>
    printed + (bool \<times> bool) \<times> string option" where
  "reveal_args sys st [] flags dir = Inr (flags, dir)"
| "reveal_args sys st (arg # args) flags dir =
     (if is_flag_arg arg then
        (case reveal_flags (tl arg) flags of
           Inl c \<Rightarrow> Inl (Printf ''reveal: Invalid flag -%c\<newline>'' [S [c]])
         | Inr flags \<Rightarrow> reveal_args sys st args flags dir)
      else if dir \<noteq> None then Inl (Printf ''reveal: Invalid Syntax!\<newline>'' [])
      else (case reveal_dir sys arg st of
              Inl message \<Rightarrow> Inl message
            | Inr d \<Rightarrow> reveal_args sys st args flags (Some d)))"

definition reveal_entries :: "bool \<Rightarrow> string list \<Rightarrow> string list" where
  "reveal_entries show_hidden es =
     qsort strcmp (filter (\<lambda>e. show_hidden \<or> \<not> (e \<noteq> [] \<and> hd e = CHR ''.'')) es)"

definition reveal_output :: "bool \<Rightarrow> string list \<Rightarrow> printed list" where
  "reveal_output long_format es =
     (if long_format then map (\<lambda>e. Printf ''%s\<newline>'' [S e]) es
      else (case es of
              [] \<Rightarrow> []
            | e # es' \<Rightarrow> Printf ''%s'' [S e] #
                concat (map (\<lambda>e. [Printf '' '' [], Printf ''%s'' [S e]]) es') @ [Printf ''\<newline>'' []]))"

definition cmd_reveal :: "'w os \<Rightarrow> string list \<Rightarrow> 'w shell \<Rightarrow> int \<times> 'w shell" where
  "cmd_reveal sys argv st =
     (case reveal_args sys st (tl argv) (False, False) None of
        Inl message \<Rightarrow> (-1, emit message st)
      | Inr ((show_hidden, long_format), dir) \<Rightarrow>
          (case (case dir of Some d \<Rightarrow> Some d | None \<Rightarrow> os_getcwd sys (world st)) of
             None \<Rightarrow> (-1, emit (Perror ''getcwd'') st)
           | Some d \<Rightarrow>
               (case os_readdir sys d (world st) of
                  None \<Rightarrow> (-1, puts ''No such directory!\<newline>'' st)
                | Some es \<Rightarrow>
                    (0, fold emit (reveal_output long_format (reveal_entries show_hidden es)) st))))"

section \<open>Properties\<close>

lemma hop_args_append:
  "hop_args sys (as @ bs) st =
     (case hop_args sys as st of (r, st') \<Rightarrow> if r = 0 then hop_args sys bs st' else (r, st'))"
  by (induction as arbitrary: st)
    (simp_all add: Let_def split: option.split prod.split del: strcmp.simps)

text \<open>The one step \<open>hop t\<close> takes for an argument that is a path.\<close>

definition is_path_arg :: "string \<Rightarrow> bool" where
  "is_path_arg t \<longleftrightarrow> t \<notin> {''~'', ''.'', ''..'', ''-''}"

lemma hop_path:
  assumes "is_path_arg t" "os_getcwd sys (world st) = Some old" "fst (os_chdir sys t (world st))"
  shows "hop_args sys [t] st =
    (0, st\<lparr>world := snd (os_chdir sys t (world st)), prev_dir := old\<rparr>)"
  using assms by (simp add: is_path_arg_def chdir_to_def syscall_eq)

lemma hop_back:
  assumes "prev_dir st \<noteq> []" "os_getcwd sys (world st) = Some old"
    "fst (os_chdir sys (prev_dir st) (world st))"
  shows "hop_args sys [''-''] st =
    (0, st\<lparr>world := snd (os_chdir sys (prev_dir st) (world st)), prev_dir := old\<rparr>)"
  using assms by (simp add: chdir_to_def syscall_eq)

text \<open>
  \<open>hop d -\<close> comes back: when \<open>d\<close> is a path that can be entered, the shell ends in the directory
  it started from, has the directory of \<open>d\<close> as the previous one, and every further \<open>hop -\<close> swaps
  the two. The hypotheses are what POSIX says of \<open>getcwd\<close>: the path it gives is not empty, can be
  entered, and is the working directory afterwards.
\<close>

theorem hop_there_and_back:
  assumes getcwd: "\<And>w p. os_getcwd sys w = Some p \<Longrightarrow> p \<noteq> []"
    and enter: "\<And>w w' p. os_getcwd sys w = Some p \<Longrightarrow> fst (os_chdir sys p w') \<and>
      os_getcwd sys (snd (os_chdir sys p w')) = Some p"
    and t: "is_path_arg t" "fst (os_chdir sys t (world st))"
    and cwd: "os_getcwd sys (world st) = Some here"
      "os_getcwd sys (snd (os_chdir sys t (world st))) = Some there"
  shows "\<exists>st'. cmd_hop sys [''hop'', t, ''-''] st = (0, st') \<and>
      os_getcwd sys (world st') = Some here \<and> prev_dir st' = there \<and>
      (\<exists>st''. cmd_hop sys [''hop'', ''-''] st' = (0, st'') \<and>
        os_getcwd sys (world st'') = Some there \<and> prev_dir st'' = here)"
proof -
  let ?st1 = "st\<lparr>world := snd (os_chdir sys t (world st)), prev_dir := here\<rparr>"
  let ?st2 = "?st1\<lparr>world := snd (os_chdir sys here (world ?st1)), prev_dir := there\<rparr>"
  let ?st3 = "?st2\<lparr>world := snd (os_chdir sys there (world ?st2)), prev_dir := here\<rparr>"
  have one: "hop_args sys [t] st = (0, ?st1)"
    by (rule hop_path) (use t cwd in simp_all)
  have two: "hop_args sys [''-''] ?st1 = (0, ?st2)"
    by (subst hop_back [where old = there])
      (use cwd getcwd enter in \<open>simp_all del: hop_args.simps\<close>)
  have three: "hop_args sys [''-''] ?st2 = (0, ?st3)"
    by (subst hop_back [where old = here])
      (use cwd getcwd enter in \<open>simp_all del: hop_args.simps\<close>)
  have all: "cmd_hop sys [''hop'', t, ''-''] st = (0, ?st2)"
    "cmd_hop sys [''hop'', ''-''] ?st2 = (0, ?st3)"
    using hop_args_append [of sys "[t]" "[''-'']" st] one two three
    by (simp_all add: cmd_hop_def del: hop_args.simps)
  show ?thesis
    by (rule exI [of _ ?st2], intro conjI exI [of _ ?st3])
      (use all cwd enter in \<open>simp_all del: hop_args.simps\<close>)
qed

text \<open>A file system of absolute paths, all of which exist: the world is the working directory.\<close>

definition path_os :: "string os \<Rightarrow> string os" where
  "path_os sys = sys\<lparr>os_getcwd := \<lambda>w. if w = [] then None else Some w,
     os_chdir := \<lambda>p w. if p = [] then (False, w) else (True, p)\<rparr>"

lemma path_os_simps:
  "os_getcwd (path_os sys) w = (if w = [] then None else Some w)"
  "os_chdir (path_os sys) p w = (if p = [] then (False, w) else (True, p))"
  by (simp_all add: path_os_def)

theorem hop_there_and_back_witness:
  "\<exists>st'. cmd_hop (path_os idle_os) [''hop'', ''/tmp'', ''-''] (empty_shell ''/home'') = (0, st') \<and>
     os_getcwd (path_os idle_os) (world st') = Some ''/home'' \<and> prev_dir st' = ''/tmp''"
proof -
  have st: "world (empty_shell ''/home'') = ''/home''" by (simp add: empty_shell_def)
  have "\<exists>st'. cmd_hop (path_os idle_os) [''hop'', ''/tmp'', ''-''] (empty_shell ''/home'') = (0, st') \<and>
      os_getcwd (path_os idle_os) (world st') = Some ''/home'' \<and> prev_dir st' = ''/tmp'' \<and>
      (\<exists>st''. cmd_hop (path_os idle_os) [''hop'', ''-''] st' = (0, st'') \<and>
        os_getcwd (path_os idle_os) (world st'') = Some ''/tmp'' \<and> prev_dir st'' = ''/home'')"
    by (rule hop_there_and_back) (simp_all add: path_os_simps is_path_arg_def st split: if_splits)
  then show ?thesis by blast
qed

text \<open>
  \<open>hop\<close> without an argument does not remember where it came from: it records the directory it
  has just entered, so a \<open>hop -\<close> that follows stays at home.
\<close>

theorem hop_home_forgets:
  assumes enter: "\<And>w w' p. os_getcwd sys w = Some p \<Longrightarrow> fst (os_chdir sys p w') \<and>
      os_getcwd sys (snd (os_chdir sys p w')) = Some p"
    and home: "fst (os_chdir sys (home_dir st) (world st))" "home_dir st \<noteq> []"
      "os_getcwd sys (snd (os_chdir sys (home_dir st) (world st))) = Some (home_dir st)"
  shows "\<exists>st' st''. cmd_hop sys [''hop''] st = (0, st') \<and> prev_dir st' = home_dir st \<and>
     cmd_hop sys [''hop'', ''-''] st' = (0, st'') \<and> os_getcwd sys (world st'') = Some (home_dir st)"
proof -
  let ?st1 = "st\<lparr>world := snd (os_chdir sys (home_dir st) (world st)), prev_dir := home_dir st\<rparr>"
  let ?st2 = "?st1\<lparr>world := snd (os_chdir sys (home_dir st) (world ?st1)), prev_dir := home_dir st\<rparr>"
  have "cmd_hop sys [''hop''] st = (0, ?st1)"
    using home by (simp add: cmd_hop_def chdir_to_def syscall_eq)
  moreover have "hop_args sys [''-''] ?st1 = (0, ?st2)"
    by (subst hop_back [where old = "home_dir st"])
      (use home enter in \<open>simp_all del: hop_args.simps\<close>)
  then have "cmd_hop sys [''hop'', ''-''] ?st1 = (0, ?st2)"
    by (simp add: cmd_hop_def del: hop_args.simps)
  ultimately show ?thesis using enter [OF home(3)] by (intro exI [of _ ?st1] exI [of _ ?st2]) simp
qed

theorem hop_home_forgets_witness:
  "\<exists>st' st''. cmd_hop (path_os idle_os) [''hop''] (empty_shell ''/tmp'') = (0, st') \<and>
     cmd_hop (path_os idle_os) [''hop'', ''-''] st' = (0, st'') \<and> world st'' = ''/home''"
proof -
  have st: "world (empty_shell ''/tmp'') = ''/tmp''" "home_dir (empty_shell ''/tmp'') = ''/home''"
    by (simp_all add: empty_shell_def)
  have "\<exists>st' st''. cmd_hop (path_os idle_os) [''hop''] (empty_shell ''/tmp'') = (0, st') \<and>
      prev_dir st' = home_dir (empty_shell ''/tmp'') \<and>
      cmd_hop (path_os idle_os) [''hop'', ''-''] st' = (0, st'') \<and>
      os_getcwd (path_os idle_os) (world st'') = Some (home_dir (empty_shell ''/tmp''))"
    by (rule hop_home_forgets) (simp_all add: path_os_simps st split: if_splits)
  then show ?thesis by (auto simp: path_os_simps st split: if_splits)
qed

lemma reveal_flags_Inr:
  "set cs \<subseteq> {CHR ''a'', CHR ''l''} \<Longrightarrow>
     reveal_flags cs (h, l) = Inr (h \<or> CHR ''a'' \<in> set cs, l \<or> CHR ''l'' \<in> set cs)"
  by (induction cs arbitrary: h l) auto

lemma reveal_flags_Inl:
  "\<not> set cs \<subseteq> {CHR ''a'', CHR ''l''} \<Longrightarrow> \<exists>c. reveal_flags cs flags = Inl c"
  by (induction cs flags rule: reveal_flags.induct) auto

text \<open>What the arguments of \<open>reveal\<close> mean: the directories among them and the flags they set.\<close>

definition dir_args :: "string list \<Rightarrow> string list" where
  "dir_args args = filter (\<lambda>a. \<not> is_flag_arg a) args"

definition flag_letters :: "string list \<Rightarrow> char set" where
  "flag_letters args = \<Union> (set ` tl ` set (filter is_flag_arg args))"

lemma flag_letters_Cons:
  "flag_letters (a # args) = (if is_flag_arg a then set (tl a) else {}) \<union> flag_letters args"
  by (simp add: flag_letters_def)

lemma dir_args_Cons: "dir_args (a # args) = (if is_flag_arg a then [] else [a]) @ dir_args args"
  by (simp add: dir_args_def)

lemma reveal_args_ok:
  "flag_letters args \<subseteq> {CHR ''a'', CHR ''l''} \<Longrightarrow>
   (dir_args args = [] \<longrightarrow> d' = d) \<Longrightarrow>
   (\<forall>a as. dir_args args = a # as \<longrightarrow>
      as = [] \<and> d = None \<and> (\<exists>p. reveal_dir sys a st = Inr p \<and> d' = Some p)) \<Longrightarrow>
   reveal_args sys st args (h, l) d =
     Inr ((h \<or> CHR ''a'' \<in> flag_letters args, l \<or> CHR ''l'' \<in> flag_letters args), d')"
proof (induction args arbitrary: h l d)
  case Nil
  then show ?case by (simp add: flag_letters_def dir_args_def)
next
  case (Cons a args)
  show ?case
  proof (cases "is_flag_arg a")
    case True
    with Cons.prems Cons.IH [of d] show ?thesis
      by (auto simp: flag_letters_Cons dir_args_Cons reveal_flags_Inr)
  next
    case False
    then obtain p where "dir_args args = []" "d = None" "reveal_dir sys a st = Inr p" "d' = Some p"
      using Cons.prems(3) by (auto simp: dir_args_Cons)
    with False Cons.prems Cons.IH [of d'] show ?thesis
      by (simp add: flag_letters_Cons dir_args_Cons)
  qed
qed

lemma fold_emit_list: "fold emit ps st = st\<lparr>out := out st @ ps\<rparr>"
  by (induction ps arbitrary: st) (simp_all add: emit_def)

text \<open>
  \<open>reveal\<close> with flags made of \<open>a\<close> and \<open>l\<close> in any grouping and at most one directory that
  resolves and opens prints every entry of that directory once, without \<open>a\<close> only those whose name
  does not begin with a dot, in ascending byte order, one per line exactly when \<open>l\<close> is among the
  flags, and changes nothing else.
\<close>

theorem reveal_lists_directory:
  assumes flags: "flag_letters args \<subseteq> {CHR ''a'', CHR ''l''}"
    and dir: "dir_args args = [] \<and> os_getcwd sys (world st) = Some p \<or>
      (\<exists>d. dir_args args = [d] \<and> reveal_dir sys d st = Inr p)"
    and opened: "os_readdir sys p (world st) = Some es"
  shows "\<exists>xs. cmd_reveal sys (''reveal'' # args) st =
        (0, st\<lparr>out := out st @ reveal_output (CHR ''l'' \<in> flag_letters args) xs\<rparr>) \<and>
      sorted xs \<and>
      mset xs = mset (filter (\<lambda>e. CHR ''a'' \<in> flag_letters args \<or> take 1 e \<noteq> ''.'') es)"
proof (intro exI conjI)
  let ?xs = "reveal_entries (CHR ''a'' \<in> flag_letters args) es"
  have visible: "(\<lambda>e. b \<or> \<not> (e \<noteq> [] \<and> hd e = CHR ''.'')) = (\<lambda>e. b \<or> take 1 e \<noteq> ''.'')" for b
  proof -
    have "e \<noteq> [] \<and> hd e = c \<longleftrightarrow> take 1 e = [c]" for e and c :: char by (cases e) simp_all
    then show ?thesis by simp
  qed
  have "\<exists>d'. reveal_args sys st args (False, False) None =
      Inr ((CHR ''a'' \<in> flag_letters args, CHR ''l'' \<in> flag_letters args), d') \<and>
      (case d' of Some d \<Rightarrow> Some d | None \<Rightarrow> os_getcwd sys (world st)) = Some p"
    using dir reveal_args_ok [OF flags, where h = False and l = False and d = None and sys = sys
        and st = st and d' = "if dir_args args = [] then None else Some p"]
    by auto
  then show "cmd_reveal sys (''reveal'' # args) st =
      (0, st\<lparr>out := out st @ reveal_output (CHR ''l'' \<in> flag_letters args) ?xs\<rparr>)"
    using opened by (auto simp: cmd_reveal_def fold_emit_list)
  show "sorted ?xs"
    using by_strcmp.qsort_sorted [of "filter (\<lambda>e. CHR ''a'' \<in> flag_letters args \<or>
      \<not> (e \<noteq> [] \<and> hd e = CHR ''.'')) es"] by (simp add: reveal_entries_def strcmp_le_iff)
  show "mset ?xs = mset (filter (\<lambda>e. CHR ''a'' \<in> flag_letters args \<or> take 1 e \<noteq> ''.'') es)"
    unfolding reveal_entries_def by_strcmp.qsort_mset visible ..
qed

theorem reveal_lists_directory_witness:
  "\<exists>xs. cmd_reveal (idle_os\<lparr>os_readdir := \<lambda>d w. Some [''b'', ''.'', ''a'']\<rparr>) [''reveal'', ''-l'', ''/x''] (empty_shell ()) =
       (0, empty_shell ()\<lparr>out := out (empty_shell ()) @ reveal_output True xs\<rparr>) \<and> mset xs = {#''b'', ''a''#}"
proof -
  have flag: "is_flag_arg ''-l''" "\<not> is_flag_arg ''/x''" by (simp_all add: is_flag_arg_def)
  then have "flag_letters [''-l'', ''/x''] = {CHR ''l''}" "dir_args [''-l'', ''/x''] = [''/x'']"
    by (simp_all add: flag_letters_def dir_args_def)
  moreover have "reveal_dir (idle_os\<lparr>os_readdir := \<lambda>d w. Some [''b'', ''.'', ''a'']\<rparr>) ''/x'' (empty_shell ()) = Inr ''/x''"
    by (simp add: reveal_dir_def)
  ultimately show ?thesis
    using reveal_lists_directory [of "[''-l'', ''/x'']"
        "idle_os\<lparr>os_readdir := \<lambda>d w. Some [''b'', ''.'', ''a'']\<rparr>" "empty_shell ()" "''/x''" "[''b'', ''.'', ''a'']"]
    by (auto simp: add_mset_commute)
qed

end
