(* ===== verification/ShellExec.thy ===== *)
theory ShellExec
  imports ShellHistory ShellNav
begin

text \<open>
  \<open>shell/src/executor.c\<close> and \<open>tokenize_and_execute\<close> of \<open>parser.c\<close>: a line is cut into groups at
  \<open>;\<close> and \<open>&\<close>, a group into the commands of a pipeline at \<open>|\<close>, a command into arguments and
  redirections; intrinsics run in the shell, everything else in a forked child. The line buffers
  have \<open>BUFFER_LEN\<close> bytes. A write past the end of one of the arrays of fixed size, or the use of a
  pid that was never assigned, is the value \<open>Inl\<close> of a fault. \<open>log execute\<close> calls the executor
  again, without bound: \<open>execute_full_command\<close> recurses on fuel, and its value \<open>None\<close> says that the
  fuel ran out before the call returned.
\<close>

section \<open>Parsing a command\<close>

definition MAX_ARGS :: nat where "MAX_ARGS = 256"

definition MAX_PIPES :: nat where "MAX_PIPES = 100"

definition MAX_GROUPS :: nat where "MAX_GROUPS = 100"

text \<open>\<open>strncpy (buffer, input, sizeof (buffer) - 1)\<close> into the 4096 bytes of a local buffer.\<close>

definition copy_line :: "string \<Rightarrow> string" where
  "copy_line s = take 4095 s"

record parsed_command =
  cmd_args :: "string list"
  input_file :: "string option"
  output_file :: "string option"
  append_output :: bool

definition in_word :: "char \<Rightarrow> bool" where
  "in_word c \<longleftrightarrow> \<not> isspace c \<and> c \<noteq> CHR ''>'' \<and> c \<noteq> CHR ''<''"

lemma length_after_word [consumes]:
  "length (dropWhile in_word (dropWhile isspace cs)) \<le> length cs"
  using length_dropWhile_le [of in_word "dropWhile isspace cs"] length_dropWhile_le [of isspace cs]
  by linarith

lemma dropWhile_ConsD [consumes]: "dropWhile P s = c # cs \<Longrightarrow> length cs < length s"
  using length_dropWhile_le [of P s] by simp

lemma dropWhile_Cons_not: "dropWhile P s = c # cs \<Longrightarrow> \<not> P c"
  by (metis hd_dropWhile list.distinct(1) list.sel(1))

function parse_words :: "string \<Rightarrow> parsed_command \<Rightarrow> fault + parsed_command" where
  "parse_words s cmd =
     (case dropWhile isspace s of
        [] \<Rightarrow> if length (cmd_args cmd) < MAX_ARGS then Inr cmd else Inl (Overflow ''args'')
      | c # cs \<Rightarrow>
          if c = CHR ''<'' then
            let t = dropWhile isspace cs; w = takeWhile in_word t in
            parse_words (dropWhile in_word t)
              (if w = [] then cmd else cmd\<lparr>input_file := Some w\<rparr>)
          else if c = CHR ''>'' then
            let app = (cs \<noteq> [] \<and> hd cs = CHR ''>'');
                t = dropWhile isspace (if app then tl cs else cs);
                w = takeWhile in_word t;
                cmd = (if app then cmd\<lparr>append_output := True\<rparr> else cmd)
            in parse_words (dropWhile in_word t)
                 (if w = [] then cmd else cmd\<lparr>output_file := Some w\<rparr>)
          else if length (cmd_args cmd) < MAX_ARGS then
            parse_words (dropWhile in_word cs) (cmd\<lparr>cmd_args := cmd_args cmd @ [takeWhile in_word (c # cs)]\<rparr>)
          else Inl (Overflow ''args''))"
  by pat_completeness auto
termination
proof (relation "measure (length \<circ> fst)")
  fix s c cs x xa xb and cmd :: parsed_command
  assume s: "dropWhile isspace s = c # cs"
  note lt = dropWhile_ConsD [OF s]
  show "x = dropWhile isspace cs \<Longrightarrow>
      ((dropWhile in_word x, if xa = [] then cmd else cmd\<lparr>input_file := Some xa\<rparr>), s, cmd)
        \<in> measure (length \<circ> fst)"
    using length_after_word [of cs] lt by simp
next
  fix s c cs x xa xb xc and cmd :: parsed_command
  assume s: "dropWhile isspace s = c # cs"
  note lt = dropWhile_ConsD [OF s]
  have "length (tl cs) \<le> length cs" by simp
  then show "xa = dropWhile isspace (if x then tl cs else cs) \<Longrightarrow>
      ((dropWhile in_word xa, if xb = [] then xc else xc\<lparr>output_file := Some xb\<rparr>), s, cmd)
        \<in> measure (length \<circ> fst)"
    using length_after_word [of cs] length_after_word [of "tl cs"] lt by auto
next
  fix s c cs and cmd :: parsed_command
  assume s: "dropWhile isspace s = c # cs"
  note lt = dropWhile_ConsD [OF s]
  show "((dropWhile in_word cs, cmd\<lparr>cmd_args := cmd_args cmd @ [takeWhile in_word (c # cs)]\<rparr>), s, cmd)
      \<in> measure (length \<circ> fst)"
    using length_dropWhile_le [of in_word cs] lt by simp
qed simp

declare parse_words.simps [simp del]

text \<open>The boolean is the result 0: at least one argument was found.\<close>

definition parse_command :: "string \<Rightarrow> fault + bool \<times> parsed_command" where
  "parse_command input =
     map_sum id (\<lambda>cmd. (cmd_args cmd \<noteq> [], cmd))
       (parse_words (copy_line input)
          \<lparr>cmd_args = [], input_file = None, output_file = None, append_output = False\<rparr>)"

section \<open>A single command\<close>

definition is_intrinsic :: "string \<Rightarrow> bool" where
  "is_intrinsic cmd \<longleftrightarrow>
     strcmp cmd ''hop'' = 0 \<or> strcmp cmd ''reveal'' = 0 \<or> strcmp cmd ''log'' = 0 \<or>
     strcmp cmd ''activities'' = 0 \<or> strcmp cmd ''ping'' = 0 \<or> strcmp cmd ''fg'' = 0 \<or>
     strcmp cmd ''bg'' = 0"

definition execute_intrinsic ::
  "(string \<Rightarrow> 'w shell \<Rightarrow> 'w outcome) \<Rightarrow> 'w os \<Rightarrow> string list \<Rightarrow> 'w shell \<Rightarrow> 'w outcome" where
  "execute_intrinsic exec sys argv st =
     (if strcmp (hd argv) ''hop'' = 0 then Some (Inr (cmd_hop sys argv st))
      else if strcmp (hd argv) ''reveal'' = 0 then Some (Inr (cmd_reveal sys argv st))
      else if strcmp (hd argv) ''log'' = 0 then cmd_log exec sys argv st
      else if strcmp (hd argv) ''activities'' = 0 then Some (Inr (cmd_activities argv st))
      else if strcmp (hd argv) ''ping'' = 0 then Some (Inr (cmd_ping sys argv st))
      else if strcmp (hd argv) ''fg'' = 0 then Some (Inr (cmd_fg sys argv st))
      else if strcmp (hd argv) ''bg'' = 0 then Some (Inr (cmd_bg sys argv st))
      else Some (Inr (-1, st)))"

text \<open>
  What the child does between \<open>fork\<close> and \<open>execvp\<close>, given the endpoints it starts with. The input
  file is opened before the output file, which is created or truncated by the child.
\<close>

definition open_files ::
  "'w os \<Rightarrow> string option \<Rightarrow> string option \<Rightarrow> bool \<Rightarrow> endpoint \<times> endpoint \<Rightarrow> 'w \<Rightarrow>
     (string + endpoint \<times> endpoint) \<times> 'w" where
  "open_files sys input output app ends w =
     (case (case input of
              None \<Rightarrow> Some (fst ends)
            | Some f \<Rightarrow> if os_open_read sys f w then Some (FileIn f) else None) of
        None \<Rightarrow> (Inl ''No such file or directory'', w)
      | Some inp \<Rightarrow>
          (case output of
             None \<Rightarrow> (Inr (inp, snd ends), w)
           | Some f \<Rightarrow>
               let (ok, w) = os_open_write sys f app w in
               if ok then (Inr (inp, FileOut f app), w)
               else (Inl ''Unable to create file for writing'', w)))"

definition child_single :: "'w os \<Rightarrow> parsed_command \<Rightarrow> bool \<Rightarrow> 'w \<Rightarrow> child \<times> 'w" where
  "child_single sys cmd background w =
     (case open_files sys (input_file cmd) (output_file cmd) (append_output cmd)
             (Inherited, Inherited) w of
        (Inl message, w) \<Rightarrow> (ExitOne message, w)
      | (Inr (inp, outp), w) \<Rightarrow>
          (Exec (if background \<and> os_open_read sys ''/dev/null'' w then DevNull else inp) outp
             (cmd_args cmd), w))"

definition execute_single_command ::
  "(string \<Rightarrow> 'w shell \<Rightarrow> 'w outcome) \<Rightarrow> 'w os \<Rightarrow> parsed_command \<Rightarrow> bool \<Rightarrow> 'w shell \<Rightarrow>
     'w outcome" where
  "execute_single_command exec sys cmd background st =
     (if cmd_args cmd = [] then Some (Inr (0, st))
      else
        let name = hd (cmd_args cmd) in
        if is_intrinsic name \<and> input_file cmd = None \<and> output_file cmd = None
        then execute_intrinsic exec sys (cmd_args cmd) st
        else
          let (p, st) = syscall (os_fork sys (child_single sys cmd background)) st in
          if p > 0 then
            (if background then
               let (i, st) = add_job p name JOB_RUNNING st
               in Some (Inr (0, emit (Printf ''[%d] %d\<newline>'' [D i, D p]) st))
             else
               let st = set_foreground_pid p st;
                   (s, st) = wait_child sys p True st;
                   st = set_foreground_pid (-1) st
               in (case s of
                     Stopped _ \<Rightarrow>
                       let (i, st) = add_job p name JOB_STOPPED st
                       in Some (Inr (0, emit (Printf ''[%d] Stopped %s\<newline>'' [D i, S name]) st))
                   | _ \<Rightarrow> Some (Inr (0, st))))
          else Some (Inr (-1, emit (Perror ''fork'') st)))"

section \<open>Pipelines\<close>

fun split_pipes :: "string \<Rightarrow> string \<Rightarrow> string list" where
  "split_pipes cur [] = [cur]"
| "split_pipes cur (c # cs) =
     (if c = CHR ''|'' then cur # split_pipes [] cs else split_pipes (cur @ [c]) cs)"

fun make_pipes :: "'w os \<Rightarrow> nat \<Rightarrow> 'w shell \<Rightarrow> bool \<times> 'w shell" where
  "make_pipes sys 0 st = (True, st)"
| "make_pipes sys (Suc n) st =
     (let (ok, st) = syscall (os_pipe sys) st
      in if ok then make_pipes sys n st else (False, emit (Perror ''pipe'') st))"

text \<open>Stage \<open>i\<close> of \<open>n\<close>: input redirection counts in the first only, output redirection in the last.\<close>

definition child_stage :: "'w os \<Rightarrow> nat \<Rightarrow> nat \<Rightarrow> parsed_command \<Rightarrow> 'w \<Rightarrow> child \<times> 'w" where
  "child_stage sys n i cmd w =
     (case open_files sys (if i = 0 then input_file cmd else None)
             (if i = n - 1 then output_file cmd else None) (append_output cmd)
             (if i > 0 then PipeRead (i - 1) else Inherited,
              if i < n - 1 then PipeWrite i else Inherited) w of
        (Inl message, w) \<Rightarrow> (ExitOne message, w)
      | (Inr (inp, outp), w) \<Rightarrow> (Exec inp outp (cmd_args cmd), w))"

text \<open>
  The fork loop fills \<open>pids\<close>; \<open>None\<close> is an entry that was skipped and stays unassigned.
\<close>

fun fork_stages :: "'w os \<Rightarrow> nat \<Rightarrow> nat \<Rightarrow> string list \<Rightarrow> 'w shell \<Rightarrow>
    fault + int option list \<times> 'w shell" where
  "fork_stages sys n i [] st = Inr ([], st)"
| "fork_stages sys n i (piece # pieces) st =
     (case parse_command piece of
        Inl f \<Rightarrow> Inl f
      | Inr (ok, cmd) \<Rightarrow>
          let (p, st) = (if ok
                         then (let (p, st) = syscall (os_fork sys (child_stage sys n i cmd)) st
                               in (Some p, st))
                         else (None, st))
          in (case fork_stages sys n (i + 1) pieces st of
                Inl f \<Rightarrow> Inl f
              | Inr (pids, st) \<Rightarrow> Inr (p # pids, st)))"

fun wait_all :: "'w os \<Rightarrow> int option list \<Rightarrow> 'w shell \<Rightarrow> fault + 'w shell" where
  "wait_all sys [] st = Inr st"
| "wait_all sys (None # pids) st = Inl (Uninitialised ''pids'')"
| "wait_all sys (Some p # pids) st = wait_all sys pids (snd (wait_child sys p False st))"

definition execute_pipeline ::
  "(string \<Rightarrow> 'w shell \<Rightarrow> 'w outcome) \<Rightarrow> 'w os \<Rightarrow> string \<Rightarrow> bool \<Rightarrow> 'w shell \<Rightarrow> 'w outcome" where
  "execute_pipeline exec sys input background st =
     (let commands = split_pipes [] (copy_line input); cmd_count = length commands in
      if cmd_count > MAX_PIPES then Some (Inl (Overflow ''commands''))
      else if cmd_count = 1 then
        (case parse_command (commands ! 0) of
           Inl f \<Rightarrow> Some (Inl f)
         | Inr (True, cmd) \<Rightarrow> execute_single_command exec sys cmd background st
         | Inr (False, cmd) \<Rightarrow> Some (Inr (-1, st)))
      else
        let (ok, st) = make_pipes sys (cmd_count - 1) st in
        if \<not> ok then Some (Inr (-1, st))
        else
          (case fork_stages sys cmd_count 0 commands st of
             Inl f \<Rightarrow> Some (Inl f)
           | Inr (pids, st) \<Rightarrow>
               if background then
                 (case (parse_command (last commands), last pids) of
                    (Inr (True, last_cmd), Some p) \<Rightarrow>
                      let (i, st) = add_job p (hd (cmd_args last_cmd)) JOB_RUNNING st
                      in Some (Inr (0, emit (Printf ''[%d] %d\<newline>'' [D i, D p]) st))
                  | _ \<Rightarrow> Some (Inl (Uninitialised ''pids'')))
               else
                 (case wait_all sys pids st of
                    Inl f \<Rightarrow> Some (Inl f)
                  | Inr st \<Rightarrow> Some (Inr (0, st)))))"

section \<open>Lines\<close>

text \<open>
  The scan for \<open>;\<close> and \<open>&\<close>: \<open>cur\<close> is the text from \<open>start\<close> to \<open>ptr\<close>. A group is kept without its
  trailing white space, an empty one is dropped, and \<open>start\<close> skips the white space after a separator.
\<close>

definition add_group :: "string \<Rightarrow> bool \<Rightarrow> (string \<times> bool) list" where
  "add_group cur background =
     (let g = rtrim cur in if g = [] then [] else [(g, background)])"

function split_groups :: "string \<Rightarrow> string \<Rightarrow> (string \<times> bool) list" where
  "split_groups cur [] = add_group cur False"
| "split_groups cur (c # cs) =
     (if c = CHR '';'' \<or> c = CHR ''&''
      then add_group cur (c = CHR ''&'') @ split_groups [] (dropWhile isspace cs)
      else split_groups (cur @ [c]) cs)"
  by pat_completeness auto
termination
  by (relation "measure (length \<circ> snd)") (auto simp: le_imp_less_Suc length_dropWhile_le)

fun run_groups :: "(string \<Rightarrow> bool \<Rightarrow> 'w shell \<Rightarrow> 'w outcome) \<Rightarrow> (string \<times> bool) list \<Rightarrow> 'w shell \<Rightarrow>
    'w outcome" where
  "run_groups run [] st = Some (Inr (0, st))"
| "run_groups run ((g, background) # groups) st =
     (case run g background st of
        None \<Rightarrow> None
      | Some (Inl f) \<Rightarrow> Some (Inl f)
      | Some (Inr (_, st)) \<Rightarrow> run_groups run groups st)"

definition execute_line ::
  "(string \<Rightarrow> 'w shell \<Rightarrow> 'w outcome) \<Rightarrow> 'w os \<Rightarrow> string \<Rightarrow> 'w shell \<Rightarrow> 'w outcome" where
  "execute_line exec sys input st =
     (let groups = split_groups [] (copy_line input) in
      if length groups > MAX_GROUPS then Some (Inl (Overflow ''cmd_groups''))
      else run_groups (execute_pipeline exec sys) groups st)"

primrec execute_full_command :: "nat \<Rightarrow> 'w os \<Rightarrow> string \<Rightarrow> 'w shell \<Rightarrow> 'w outcome" where
  "execute_full_command 0 sys input st = None"
| "execute_full_command (Suc n) sys input st = execute_line (execute_full_command n sys) sys input st"

section \<open>The basic executor\<close>

definition execute_simple_command ::
  "nat \<Rightarrow> 'w os \<Rightarrow> string list \<Rightarrow> 'w shell \<Rightarrow> 'w outcome" where
  "execute_simple_command n sys argv st =
     (if argv = [] then Some (Inr (0, st))
      else if is_intrinsic (hd argv) then execute_intrinsic (execute_full_command n sys) sys argv st
      else
        let (p, st) = syscall (os_fork sys (\<lambda>w. (Exec Inherited Inherited argv, w))) st in
        if p > 0 then
          let st = set_foreground_pid p st;
              (s, st) = wait_child sys p True st;
              st = set_foreground_pid (-1) st
          in Some (Inr (case s of Exited code \<Rightarrow> code | _ \<Rightarrow> -1, st))
        else Some (Inr (-1, emit (Perror ''fork'') st)))"

definition strtok_delim :: "char \<Rightarrow> bool" where
  "strtok_delim c \<longleftrightarrow> c \<in> set '' '' \<or> c = CHR 0x09 \<or> c = CHR 0x0A \<or> c = CHR 0x0D"

function strtok_all :: "string \<Rightarrow> string list" where
  "strtok_all s =
     (case dropWhile strtok_delim s of
        [] \<Rightarrow> []
      | c # cs \<Rightarrow> takeWhile (\<lambda>c. \<not> strtok_delim c) (c # cs) #
          strtok_all (dropWhile (\<lambda>c. \<not> strtok_delim c) cs))"
  by pat_completeness auto
termination
proof (relation "measure length")
  fix s c cs assume "dropWhile strtok_delim s = c # cs"
  then show "(dropWhile (\<lambda>c. \<not> strtok_delim c) cs, s) \<in> measure length"
    using dropWhile_ConsD [of strtok_delim s c cs]
      length_dropWhile_le [of "\<lambda>c. \<not> strtok_delim c" cs] by simp
qed simp

declare strtok_all.simps [simp del]

definition tokenize_and_execute :: "nat \<Rightarrow> 'w os \<Rightarrow> string \<Rightarrow> 'w shell \<Rightarrow> 'w outcome" where
  "tokenize_and_execute n sys input st =
     (let args = take (MAX_ARGS - 1) (strtok_all input) in
      if args = [] then Some (Inr (0, st)) else execute_simple_command n sys args st)"

section \<open>Invariants of the shell\<close>

text \<open>
  The executor and the commands it calls change the shell only through the operations below: a
  predicate that each of them keeps is kept by every command line.
\<close>

locale shell_invariant =
  fixes P :: "'w shell \<Rightarrow> bool" and sys :: "'w os"
  assumes P_emit: "P st \<Longrightarrow> P (emit msg st)"
    and P_world: "P st \<Longrightarrow> P (st\<lparr>world := w\<rparr>)"
    and P_prev: "P st \<Longrightarrow> P (st\<lparr>prev_dir := d\<rparr>)"
    and P_fg: "P st \<Longrightarrow> P (set_foreground_pid p st)"
    and P_status: "P st \<Longrightarrow> P (set_status k t st)"
    and P_add: "P st \<Longrightarrow> P (snd (add_job p c t st))"
    and P_remove: "P st \<Longrightarrow> P (remove_job i st)"
    and P_load: "P st \<Longrightarrow> P (ensure_loaded sys st)"
    and P_purge: "P st \<Longrightarrow> P (st\<lparr>log_count := 0, log_start := 0\<rparr>)"
begin

definition keeps :: "'w outcome \<Rightarrow> bool" where
  "keeps r \<longleftrightarrow> (\<forall>x st. r = Some (Inr (x, st)) \<longrightarrow> P st)"

lemma keeps_simps [simp]:
  "keeps None" "keeps (Some (Inl f))" "keeps (Some (Inr (x, st))) = P st"
  by (simp_all add: keeps_def)

lemma keeps_pair: "keeps (Some (Inr q)) = P (snd q)"
  by (cases q) simp

lemmas P_basic = P_emit P_world P_prev P_fg P_status P_add P_remove P_load P_purge

lemma P_syscall: "P st \<Longrightarrow> P (snd (syscall f st))"
  by (simp add: P_world)

lemma P_fold: "(\<And>x st. P st \<Longrightarrow> P (f x st)) \<Longrightarrow> P st \<Longrightarrow> P (fold f xs st)"
  by (induction xs arbitrary: st) simp_all

lemma P_handle_signal: "P st \<Longrightarrow> P (handle_signal sys s st)"
  by (cases s) (auto simp: handle_signal_def sigint_handler_def sigtstp_handler_def Let_def
      syscall_eq split: option.split intro!: P_basic)

lemma P_wait_child: "P st \<Longrightarrow> P (snd (wait_child sys p u st))"
  by (auto simp: wait_child_def syscall_eq case_prod_unfold intro!: P_fold P_handle_signal P_world)

lemma P_reap_one: "P st \<Longrightarrow> P (reap_one e st)"
  by (cases e; cases "snd e")
    (auto simp: reap_one_def Let_def split: option.split intro!: P_basic)

lemma P_check_background: "P st \<Longrightarrow> P (check_background_jobs sys st)"
  by (auto simp: check_background_jobs_def syscall_eq intro!: P_fold P_reap_one P_world)

lemma P_ping: "P st \<Longrightarrow> P (snd (cmd_ping sys argv st))"
  by (auto simp: cmd_ping_def Let_def syscall_eq case_prod_unfold intro!: P_basic)

lemma P_activities: "P st \<Longrightarrow> P (snd (cmd_activities argv st))"
  by (auto simp: cmd_activities_def list_jobs_def intro!: P_fold P_emit)

lemma P_bg: "P st \<Longrightarrow> P (snd (cmd_bg sys argv st))"
  by (auto simp: cmd_bg_def Let_def syscall_eq split: sum.split option.split intro!: P_basic)

lemma P_fg_cmd:
  assumes "P st" shows "P (snd (cmd_fg sys argv st))"
proof (cases "job_argument ''fg'' argv st")
  case (Inr i)
  show ?thesis
  proof (cases "get_job i st")
    case (Some k)
    have *: "P (snd (case q of (s, st) \<Rightarrow> (0, case s of
        Exited _ \<Rightarrow> remove_job i (set_foreground_pid (-1) st)
      | Signaled _ \<Rightarrow> remove_job i (set_foreground_pid (-1) st)
      | Stopped _ \<Rightarrow> set_status k JOB_STOPPED (set_foreground_pid (-1) st)
      | Continued \<Rightarrow> set_foreground_pid (-1) st)))" if "P (snd q)" for q :: "wstatus \<times> 'w shell"
      using that by (cases q; cases "fst q") (auto intro!: P_basic)
    show ?thesis
      unfolding cmd_fg_def Inr Some Let_def sum.case option.case
      by (rule *) (auto simp: syscall_eq intro!: P_wait_child P_basic assms)
  qed (simp add: cmd_fg_def Inr P_emit assms)
qed (simp add: cmd_fg_def P_emit assms)

lemma P_hop_args: "P st \<Longrightarrow> P (snd (hop_args sys as st))"
proof (induction as arbitrary: st)
  case (Cons a as)
  then show ?case
    by (auto simp: Let_def chdir_to_def syscall_eq split: option.split simp del: strcmp.simps
        intro!: P_emit P_world P_prev)
qed simp

lemma P_hop: "P st \<Longrightarrow> P (snd (cmd_hop sys argv st))"
  by (auto simp: cmd_hop_def chdir_to_def syscall_eq Let_def split: option.split
      intro!: P_hop_args P_basic)

lemma P_reveal: "P st \<Longrightarrow> P (snd (cmd_reveal sys argv st))"
  by (auto simp: cmd_reveal_def split: sum.split option.split intro!: P_fold P_emit)

lemma P_save: "P st \<Longrightarrow> P (save_log sys st)"
  by (auto simp: save_log_def syscall_eq Let_def intro!: P_basic)

lemma keeps_log:
  assumes "\<And>s st. P st \<Longrightarrow> keeps (exec s st)" "P st"
  shows "keeps (cmd_log exec sys argv st)"
proof -
  let ?st = "ensure_loaded sys st"
  have P: "P ?st" using P_load [OF assms(2)] .
  have "keeps (exec s ?st)" for s using assms(1) [OF P] .
  then have "keeps (case exec s ?st of None \<Rightarrow> None | Some (Inl f) \<Rightarrow> Some (Inl f)
      | Some (Inr (_, st)) \<Rightarrow> Some (Inr (0, st)))" for s
    by (auto simp: keeps_def split: option.split sum.split prod.split)
  then show ?thesis
    unfolding cmd_log_def Let_def by (auto intro!: P_fold P_save P_basic P)
qed

lemma keeps_intrinsic:
  assumes "\<And>s st. P st \<Longrightarrow> keeps (exec s st)" "P st"
  shows "keeps (execute_intrinsic exec sys argv st)"
  using assms
  by (simp add: execute_intrinsic_def keeps_pair keeps_log P_hop P_reveal P_ping P_activities P_bg
      P_fg_cmd)

lemma keeps_single:
  assumes "\<And>s st. P st \<Longrightarrow> keeps (exec s st)" "P st"
  shows "keeps (execute_single_command exec sys cmd background st)"
proof -
  have add: "keeps (case add_job p c t st of (i, st) \<Rightarrow> Some (Inr (0, emit (f i) st)))"
    if "P st" for p c t st f
    using P_emit [OF P_add [OF that]] by (simp add: case_prod_unfold keeps_pair)
  have "keeps (case wait_child sys p True st of (s, st) \<Rightarrow>
      let st = set_foreground_pid (-1) st in
      (case s of Stopped _ \<Rightarrow>
             let (i, st) = add_job q c JOB_STOPPED st in Some (Inr (0, emit (f i) st))
         | _ \<Rightarrow> Some (Inr (0, st))))" if "P st" for p q c st f
    using P_fg [OF P_wait_child [OF that, of p True], of "- 1"]
    by (simp add: Let_def case_prod_unfold P_emit P_add split: wstatus.split)
  with add keeps_intrinsic [OF assms] show ?thesis
    using assms(2)
    by (auto simp: execute_single_command_def Let_def syscall_eq P_basic)
qed

lemma P_make_pipes: "P st \<Longrightarrow> P (snd (make_pipes sys n st))"
  by (induction n arbitrary: st) (auto simp: syscall_eq intro!: P_basic)

lemma P_fork_stages: "fork_stages sys n i ps st = Inr (pids, st') \<Longrightarrow> P st \<Longrightarrow> P st'"
proof (induction ps arbitrary: i pids st)
  case (Cons p ps)
  from Cons.prems obtain ok cmd where cmd: "parse_command p = Inr (ok, cmd)"
    by (auto split: sum.splits)
  define st1 where "st1 = (if ok then snd (syscall (os_fork sys (child_stage sys n i cmd)) st) else st)"
  have "P st1" using Cons.prems(2) by (simp add: st1_def P_world)
  moreover have "\<exists>qs. fork_stages sys n (i + 1) ps st1 = Inr (qs, st')"
    using Cons.prems(1) unfolding st1_def
    by (cases ok) (auto simp: cmd Let_def syscall_eq split: sum.splits)
  ultimately show ?case using Cons.IH by blast
qed simp

lemma P_wait_all: "wait_all sys ps st = Inr st' \<Longrightarrow> P st \<Longrightarrow> P st'"
  by (induction ps arbitrary: st) (auto simp: P_wait_child split: option.splits elim!: wait_all.elims)

lemma keeps_pipeline:
  assumes exec: "\<And>s st. P st \<Longrightarrow> keeps (exec s st)" and st: "P st"
  shows "keeps (execute_pipeline exec sys input background st)"
proof -
  define commands where "commands = split_pipes [] (copy_line input)"
  define st1 where "st1 = snd (make_pipes sys (length commands - 1) st)"
  have P1: "P st1" using P_make_pipes [OF st] by (simp add: st1_def)
  have P2: "P st'" if "fork_stages sys (length commands) 0 commands st1 = Inr (pids, st')" for pids st'
    using P_fork_stages [OF that P1] .
  have bg: "keeps (case (parse_command (last commands), last pids) of
      (Inr (True, last_cmd), Some p) \<Rightarrow>
        let (i, st) = add_job p (hd (cmd_args last_cmd)) JOB_RUNNING st
        in Some (Inr (0, emit (f i p) st))
    | _ \<Rightarrow> Some (Inl fault))" if "P st" for st pids f fault
    using that by (auto simp: Let_def case_prod_unfold P_emit P_add split: sum.split option.split bool.split)
  have fg: "keeps (case wait_all sys pids st of Inl f \<Rightarrow> Some (Inl f) | Inr st \<Rightarrow> Some (Inr (0, st)))"
    if "P st" for st pids
    using P_wait_all [OF _ that] by (auto split: sum.split)
  have "keeps (case fork_stages sys (length commands) 0 commands st1 of
      Inl f \<Rightarrow> Some (Inl f)
    | Inr (pids, st) \<Rightarrow>
        if background then
          (case (parse_command (last commands), last pids) of
             (Inr (True, last_cmd), Some p) \<Rightarrow>
               let (i, st) = add_job p (hd (cmd_args last_cmd)) JOB_RUNNING st
               in Some (Inr (0, emit (Printf ''[%d] %d\<newline>'' [D i, D p]) st))
           | _ \<Rightarrow> Some (Inl (Uninitialised ''pids'')))
        else (case wait_all sys pids st of
                Inl f \<Rightarrow> Some (Inl f) | Inr st \<Rightarrow> Some (Inr (0, st))))"
    using P2 bg fg by (cases background) (simp_all split: sum.split)
  moreover have "keeps (case parse_command s of
      Inl f \<Rightarrow> Some (Inl f)
    | Inr (True, cmd) \<Rightarrow> execute_single_command exec sys cmd background st
    | Inr (False, cmd) \<Rightarrow> Some (Inr (-1, st)))" for s
    using keeps_single [OF assms] st by (auto split: sum.split bool.split)
  ultimately show ?thesis
    using P1 unfolding execute_pipeline_def Let_def commands_def [symmetric]
    by (simp add: case_prod_unfold st1_def [symmetric, unfolded One_nat_def])
qed

lemma keeps_run_groups:
  "(\<And>g b st. P st \<Longrightarrow> keeps (run g b st)) \<Longrightarrow> P st \<Longrightarrow> keeps (run_groups run gs st)"
proof (induction run gs st rule: run_groups.induct)
  case (2 run g b gs st)
  show ?case
  proof (cases "run g b st")
    case (Some r)
    with 2 show ?thesis by (cases r) (auto simp: keeps_def)
  qed simp
qed simp

lemma keeps_line:
  assumes "\<And>s st. P st \<Longrightarrow> keeps (exec s st)" "P st"
  shows "keeps (execute_line exec sys input st)"
  unfolding execute_line_def Let_def
  using keeps_run_groups [of "execute_pipeline exec sys", OF keeps_pipeline] assms by simp

lemma keeps_full: "P st \<Longrightarrow> keeps (execute_full_command n sys input st)"
  by (induction n arbitrary: input st) (simp_all add: keeps_line)

end

end
