(* ===== verification/ShellSafety.thy ===== *)
theory ShellSafety
  imports ShellExec
begin

text \<open>
  What the syntax check of \<open>parser.c\<close> guarantees to the executor. The executor splits the line
  anew, by character; the first sections relate its pieces to the tokens of the grammar, the others
  show what holds for every accepted line: the invariants of the tables, the absence of faults, and
  when execution returns.
\<close>

section \<open>Tokens of concatenated text\<close>

lemma while_append:
  "b = [] \<or> \<not> P (hd b) \<Longrightarrow>
     takeWhile P (a @ b) = takeWhile P a \<and> dropWhile P (a @ b) = dropWhile P a @ b"
  by (induction a) (cases b; auto)+

lemma lex_append:
  assumes "b = [] \<or> \<not> is_name_char (hd b) \<and> hd b \<noteq> CHR ''>''"
  shows "lex (a @ b) = lex a @ lex b"
proof (induction "length a" arbitrary: a rule: less_induct)
  case less
  show ?case
  proof (cases a)
    case (Cons c cs)
    show ?thesis
    proof (cases "isspace c")
      case True
      then show ?thesis using less.hyps [of cs] by (simp add: Cons lex.simps(2))
    next
      case False
      note IH = less.hyps [of cs, unfolded Cons]
      show ?thesis
        using False
      proof (cases rule: lex_Cons [of c cs])
        case (5 ds)
        then show ?thesis using less.hyps [of ds] by (simp add: Cons lex.simps(2) isspace_def)
      next
        case 6
        then have "cs @ b = [] \<or> hd (cs @ b) \<noteq> CHR ''>''" using assms by (cases cs) auto
        then have "lex (c # cs @ b) = TOKEN_OUTPUT # lex (cs @ b)"
          using 6 by (cases "cs @ b") (auto simp: lex.simps(2) isspace_def)
        then show ?thesis using 6 IH by (simp add: Cons)
      next
        case 7
        then show ?thesis using IH by (simp add: Cons lex.simps(2) isspace_def)
      next
        case 8
        have "lex (dropWhile is_name_char cs @ b) = lex (dropWhile is_name_char cs) @ lex b"
          using less.hyps [of "dropWhile is_name_char cs"] length_dropWhile_le [of is_name_char cs]
          by (simp add: Cons)
        moreover have "takeWhile is_name_char (cs @ b) = takeWhile is_name_char cs"
          "dropWhile is_name_char (cs @ b) = dropWhile is_name_char cs @ b"
          using while_append [of b is_name_char cs] assms by auto
        moreover have "lex (c # xs) =
            TOKEN_NAME (takeWhile is_name_char (c # xs)) # lex (dropWhile is_name_char xs)" for xs
          using False 8 by (cases rule: lex_Cons [of c xs])
            (auto simp: is_name_char_def is_special_char_def)
        ultimately show ?thesis by (simp add: Cons)
      qed (use IH in \<open>simp_all add: Cons\<close>)
    qed
  qed simp
qed

lemma lex_space: "\<forall>c \<in> set s. isspace c \<Longrightarrow> lex s = []"
  by (induction s) (simp_all add: lex.simps(2))

lemma isspace_not_name: "isspace c \<Longrightarrow> \<not> is_name_char c \<and> c \<noteq> CHR ''>''"
  by (auto simp: is_name_char_def isspace_def)

lemma lex_Nil_iff: "lex s = [] \<longleftrightarrow> (\<forall>c \<in> set s. isspace c)"
proof (induction s)
  case (Cons c cs)
  show ?case
  proof (cases "isspace c")
    case False
    have "lex (c # cs) \<noteq> []" by (cases rule: lex_Cons [OF False, of cs]) auto
    then show ?thesis using False by auto
  qed (use Cons in \<open>simp add: lex.simps(2)\<close>)
qed simp

lemma rtrim_split: "\<exists>w. s = rtrim s @ w \<and> (\<forall>c \<in> set w. isspace c)"
proof (intro exI conjI)
  show "s = rtrim s @ rev (takeWhile isspace (rev s))"
    unfolding rtrim_def by (metis rev_append rev_rev_ident takeWhile_dropWhile_id)
qed (use set_takeWhileD in fastforce)

lemma lex_rtrim: "lex (rtrim s) = lex s"
proof -
  obtain w where w: "s = rtrim s @ w" "\<forall>c \<in> set w. isspace c" using rtrim_split by blast
  then have "w = [] \<or> \<not> is_name_char (hd w) \<and> hd w \<noteq> CHR ''>''"
    using isspace_not_name by (cases w) auto
  then have "lex s = lex (rtrim s) @ lex w" using lex_append w(1) by metis
  then show ?thesis using lex_space [OF w(2)] by simp
qed

lemma length_rtrim: "length (rtrim s) \<le> length s"
  using length_dropWhile_le [of isspace "rev s"] by (simp add: rtrim_def)

lemma lex_dropWhile [simp]: "lex (dropWhile isspace s) = lex s"
  using lex_skip [of s] by (simp add: skip_whitespace_def)

lemma lex_tokens:
  "t \<in> set (lex s) \<Longrightarrow>
     (t = TOKEN_PIPE \<longrightarrow> CHR ''|'' \<in> set s) \<and> (t = TOKEN_SEMICOLON \<longrightarrow> CHR '';'' \<in> set s) \<and>
     (t = TOKEN_AMPERSAND \<longrightarrow> CHR ''&'' \<in> set s)"
proof (induction "length s" arbitrary: s rule: less_induct)
  case less
  show ?case
  proof (cases s)
    case Nil
    then show ?thesis using less.prems by simp
  next
    case (Cons c cs)
    note IH = less.hyps [of cs, unfolded Cons]
    show ?thesis
    proof (cases "isspace c")
      case True
      then show ?thesis using IH less.prems by (auto simp: Cons lex.simps(2))
    next
      case False
      then show ?thesis
      proof (cases rule: lex_Cons [of c cs])
        case (5 ds)
        then show ?thesis using less.hyps [of ds] less.prems by (auto simp: Cons)
      next
        case 8
        then show ?thesis
          using less.hyps [of "dropWhile is_name_char cs"] less.prems
            length_dropWhile_le [of is_name_char cs] set_dropWhileD [of _ is_name_char cs]
          by (auto simp: Cons)
      qed (use IH less.prems in \<open>auto simp: Cons\<close>)
    qed
  qed
qed

section \<open>Sentences cut at their separators\<close>

lemma append_sep_eq:
  assumes "a @ x # b = a' @ y # b'" "P x" "P y" "\<forall>t \<in> set a. \<not> P t" "\<forall>t \<in> set a'. \<not> P t"
  shows "a = a' \<and> x = y \<and> b = b'"
proof -
  have "takeWhile (\<lambda>t. \<not> P t) (a @ x # b) = a" "takeWhile (\<lambda>t. \<not> P t) (a' @ y # b') = a'"
    using assms(2-5) by (simp_all add: takeWhile_append)
  then have "a = a'" using assms(1) by metis
  then show ?thesis using assms(1) by simp
qed

abbreviation is_list_sep :: "token \<Rightarrow> bool" where
  "is_list_sep t \<equiv> t = TOKEN_SEMICOLON \<or> t = TOKEN_AMPERSAND"

lemma args_no_sep: "args ts \<Longrightarrow> \<forall>t \<in> set ts. \<not> is_list_sep t \<and> t \<noteq> TOKEN_PIPE"
  by (induction rule: args.induct) auto

lemma atomic_no_sep: "atomic ts \<Longrightarrow> \<forall>t \<in> set ts. \<not> is_list_sep t \<and> t \<noteq> TOKEN_PIPE"
proof (induction rule: atomic.induct)
  case (atomicI ts n)
  then show ?case using args_no_sep [of ts] by auto
qed

lemma group_no_sep: "cmd_group g \<Longrightarrow> \<forall>t \<in> set g. \<not> is_list_sep t"
  by (induction rule: cmd_group.induct) (auto dest: atomic_no_sep)

lemma cmd_group_cut:
  assumes "cmd_group (a @ TOKEN_PIPE # b)" "TOKEN_PIPE \<notin> set a"
  shows "atomic a \<and> cmd_group b"
  using assms(1)
proof (cases rule: cmd_group.cases)
  case group_one
  then show ?thesis using atomic_no_sep by fastforce
next
  case (group_pipe a' g)
  then have "TOKEN_PIPE \<notin> set a'" using atomic_no_sep by blast
  then show ?thesis
    using append_sep_eq [of a TOKEN_PIPE b a' TOKEN_PIPE g "\<lambda>t. t = TOKEN_PIPE"] group_pipe assms(2)
    by auto
qed

lemma cmd_group_single: "cmd_group a \<Longrightarrow> TOKEN_PIPE \<notin> set a \<Longrightarrow> atomic a"
  by (erule cmd_group.cases) auto

lemma shell_cmd_cut:
  assumes "shell_cmd (a @ sep # b)" "is_list_sep sep" "\<forall>t \<in> set a. \<not> is_list_sep t"
  shows "cmd_group a \<and> (b = [] \<or> shell_cmd b)"
  using assms(1)
proof (cases rule: shell_cmd.cases)
  case cmd_one
  then show ?thesis using group_no_sep assms(2) by fastforce
next
  case (cmd_amp g)
  then show ?thesis
    using append_sep_eq [of a sep b g TOKEN_AMPERSAND "[]" is_list_sep] group_no_sep assms by auto
next
  case (cmd_seq g sep' s)
  then show ?thesis
    using append_sep_eq [of a sep b g sep' s is_list_sep] group_no_sep assms by auto
qed

lemma shell_cmd_single: "shell_cmd a \<Longrightarrow> \<forall>t \<in> set a. \<not> is_list_sep t \<Longrightarrow> cmd_group a"
  by (erule shell_cmd.cases) auto

section \<open>The pieces the executor cuts\<close>

lemma add_group_in: "(g, b) \<in> set (add_group cur bg) \<Longrightarrow> g = rtrim cur \<and> rtrim cur \<noteq> []"
  by (auto simp: add_group_def Let_def split: if_splits)

lemma no_list_sep: "CHR '';'' \<notin> set s \<Longrightarrow> CHR ''&'' \<notin> set s \<Longrightarrow> \<forall>t \<in> set (lex s). \<not> is_list_sep t"
  using lex_tokens by blast

lemma split_groups_grammar:
  "CHR '';'' \<notin> set cur \<Longrightarrow> CHR ''&'' \<notin> set cur \<Longrightarrow>
     lex (cur @ cs) = [] \<or> shell_cmd (lex (cur @ cs)) \<Longrightarrow> (g, b) \<in> set (split_groups cur cs) \<Longrightarrow>
     cmd_group (lex g)"
proof (induction cur cs rule: split_groups.induct)
  case (1 cur)
  then have "g = rtrim cur" "rtrim cur \<noteq> []" by (auto dest: add_group_in)
  then have "lex g = lex cur" "lex cur \<noteq> []" by (simp_all add: lex_rtrim lex_Nil_iff rtrim_Nil_iff)
  then show ?case using 1 no_list_sep [of cur] shell_cmd_single by simp
next
  case (2 cur c cs)
  show ?case
  proof (cases "c = CHR '';'' \<or> c = CHR ''&''")
    case True
    then obtain sep where sep: "is_list_sep sep" "lex (c # cs) = sep # lex cs" by auto
    have "lex (cur @ c # cs) = lex cur @ sep # lex cs"
      using True sep(2) by (subst lex_append) (auto simp: is_name_char_def is_special_char_def)
    then have "cmd_group (lex cur) \<and> (lex cs = [] \<or> shell_cmd (lex cs))"
      using 2(5) shell_cmd_cut [OF _ sep(1) no_list_sep [OF 2(3,4)]] by auto
    moreover have "(g, b) \<in> set (add_group cur (c = CHR ''&'')) \<or>
        (g, b) \<in> set (split_groups [] (dropWhile isspace cs))" using 2(6) True by auto
    ultimately show ?thesis
      using "2.IH"(1) [OF True] by (auto dest!: add_group_in simp: lex_rtrim)
  next
    case False
    then show ?thesis using "2.IH"(2) [OF False] "2.prems" by auto
  qed
qed

lemma split_pipes_grammar:
  "CHR ''|'' \<notin> set cur \<Longrightarrow> cmd_group (lex (cur @ cs)) \<Longrightarrow> p \<in> set (split_pipes cur cs) \<Longrightarrow>
     atomic (lex p)"
proof (induction cur cs rule: split_pipes.induct)
  case (1 cur)
  then show ?case using lex_tokens by (auto intro!: cmd_group_single)
next
  case (2 cur c cs)
  show ?case
  proof (cases "c = CHR ''|''")
    case True
    have "lex (cur @ c # cs) = lex cur @ TOKEN_PIPE # lex cs"
      using True by (subst lex_append) (auto simp: is_name_char_def is_special_char_def)
    moreover have "TOKEN_PIPE \<notin> set (lex cur)" using 2(3) lex_tokens by blast
    ultimately have "atomic (lex cur) \<and> cmd_group (lex cs)" using 2(4) cmd_group_cut by metis
    then show ?thesis using "2.IH"(1) [OF True] 2(5) True by auto
  qed (use 2 in auto)
qed

lemma split_groups_length: "length (split_groups cur cs) * 2 \<le> length cur + length cs + 1"
proof (induction cur cs rule: split_groups.induct)
  case (1 cur)
  then show ?case using length_rtrim [of cur] by (cases cur) (auto simp: add_group_def rtrim_def)
next
  case (2 cur c cs)
  have "length (add_group cur b) * 2 \<le> length cur + 1" for b
    by (cases cur) (auto simp: add_group_def rtrim_def Let_def)
  note add = this [of "c = CHR ''&''"]
  show ?case
  proof (cases "c = CHR '';'' \<or> c = CHR ''&''")
    case True
    then show ?thesis
      using "2.IH"(1) [OF True] add length_dropWhile_le [of isspace cs] by (simp add: algebra_simps)
  next
    case False
    then show ?thesis using "2.IH"(2) [OF False] by simp
  qed
qed

lemma split_groups_le: "(g, b) \<in> set (split_groups cur cs) \<Longrightarrow> length g \<le> length cur + length cs"
proof (induction cur cs rule: split_groups.induct)
  case (1 cur)
  then show ?case using length_rtrim [of cur] by (auto dest!: add_group_in)
next
  case (2 cur c cs)
  then show ?case
    using length_rtrim [of cur] length_dropWhile_le [of isspace cs]
    by (fastforce dest!: add_group_in split: if_splits)
qed

lemma split_pipes_length:
  "length (split_pipes cur cs) + sum_list (map length (split_pipes cur cs)) =
     length cur + length cs + 1"
  by (induction cur cs rule: split_pipes.induct) auto

lemma split_pipes_le: "p \<in> set (split_pipes cur cs) \<Longrightarrow> length p \<le> length cur + length cs"
  by (induction cur cs rule: split_pipes.induct) (fastforce split: if_splits)+

lemma split_pipes_ne: "split_pipes cur cs \<noteq> []"
  by (induction cur cs rule: split_pipes.induct) auto

section \<open>Accepted lines do not fault\<close>

lemma in_word_not_isspace: "isspace c \<Longrightarrow> \<not> in_word c"
  by (simp add: in_word_def)

lemma parse_words_total:
  "length (cmd_args cmd) + length s < MAX_ARGS \<Longrightarrow>
     \<exists>cmd' xs. parse_words s cmd = Inr cmd' \<and> cmd_args cmd' = cmd_args cmd @ xs"
proof (induction s cmd rule: parse_words.induct)
  case (1 s cmd)
  show ?case
  proof (cases "dropWhile isspace s")
    case Nil
    have "parse_words s cmd = Inr cmd" unfolding parse_words.simps [of s] Nil using "1.prems" by simp
    then show ?thesis by simp
  next
    case (Cons c cs)
    note lt = dropWhile_ConsD [OF Cons]
    consider "c = CHR ''<''" | "c = CHR ''>''" | "c \<noteq> CHR ''<''" "c \<noteq> CHR ''>''" by blast
    then show ?thesis
    proof cases
      case 1
      let ?t = "dropWhile isspace cs"
      let ?w = "takeWhile in_word ?t"
      let ?cmd = "if ?w = [] then cmd else cmd\<lparr>input_file := Some ?w\<rparr>"
      have a: "cmd_args ?cmd = cmd_args cmd" by simp
      have "\<exists>cmd' xs. parse_words (dropWhile in_word ?t) ?cmd = Inr cmd' \<and>
          cmd_args cmd' = cmd_args ?cmd @ xs"
        using "1.IH"(1) [OF Cons 1 refl refl] "1.prems" lt length_after_word [of cs] a by auto
      moreover have "parse_words s cmd = parse_words (dropWhile in_word ?t) ?cmd"
        unfolding parse_words.simps [of s] Cons using 1 by (simp add: Let_def)
      ultimately show ?thesis unfolding a by simp
    next
      case 2
      define app where "app = (cs \<noteq> [] \<and> hd cs = CHR ''>'')"
      let ?t = "dropWhile isspace (if app then tl cs else cs)"
      let ?w = "takeWhile in_word ?t"
      let ?cmd1 = "if app then cmd\<lparr>append_output := True\<rparr> else cmd"
      let ?cmd = "if ?w = [] then ?cmd1 else ?cmd1\<lparr>output_file := Some ?w\<rparr>"
      have a: "cmd_args ?cmd = cmd_args cmd" by simp
      have "c \<noteq> CHR ''<''" using 2 by simp
      moreover have "length (dropWhile in_word ?t) < length s"
        using lt length_after_word [of cs] length_after_word [of "tl cs"] by auto
      ultimately have "\<exists>cmd' xs. parse_words (dropWhile in_word ?t) ?cmd = Inr cmd' \<and>
          cmd_args cmd' = cmd_args ?cmd @ xs"
        using "1.IH"(2) [OF Cons _ 2 app_def refl refl refl] "1.prems" a by auto
      moreover have "parse_words s cmd = parse_words (dropWhile in_word ?t) ?cmd"
        unfolding parse_words.simps [of s] Cons app_def using 2 by (simp add: Let_def)
      ultimately show ?thesis unfolding a by simp
    next
      case 3
      have "length (cmd_args cmd) < MAX_ARGS" using "1.prems" by simp
      moreover have "length (dropWhile in_word cs) \<le> length cs" by (rule length_dropWhile_le)
      ultimately show ?thesis
        using "1.IH"(3) [OF Cons 3] "1.prems" lt
        by (auto simp: parse_words.simps [of s] Cons 3)
    qed
  qed
qed

lemma atomic_first_char:
  assumes "atomic (lex p)"
  obtains c cs where "dropWhile isspace p = c # cs" "in_word c"
proof (cases "dropWhile isspace p")
  case Nil
  have "lex (dropWhile isspace p) = []" unfolding Nil by simp
  then have "lex p = []" using lex_dropWhile [of p] by simp
  with assms show ?thesis by (auto elim: atomic.cases)
next
  case (Cons c cs)
  note space = dropWhile_Cons_not [OF Cons]
  have "lex (c # cs) = lex p" using lex_dropWhile [of p] by (simp add: Cons)
  then obtain n ts where "lex (c # cs) = TOKEN_NAME n # ts" using assms by (auto elim: atomic.cases)
  then have "is_name_char c" by (cases rule: lex_Cons [OF space, of cs]) auto
  then show ?thesis using that [OF Cons] space
    by (auto simp: in_word_def is_name_char_def is_special_char_def)
qed

lemma parse_command_atomic:
  assumes "atomic (lex p)" "length p < MAX_ARGS"
  obtains cmd where "parse_command p = Inr (True, cmd)" "cmd_args cmd \<noteq> []"
proof -
  obtain c cs where c: "dropWhile isspace p = c # cs" "in_word c"
    using atomic_first_char [OF assms(1)] .
  have copy: "copy_line p = p" using assms(2) by (simp add: copy_line_def MAX_ARGS_def)
  let ?cmd = "\<lparr>cmd_args = [], input_file = None, output_file = None, append_output = False\<rparr>"
  let ?cmd1 = "?cmd\<lparr>cmd_args := [takeWhile in_word (c # cs)]\<rparr>"
  have "length (dropWhile in_word cs) < length p"
    using dropWhile_ConsD [OF c(1)] length_dropWhile_le [of in_word cs] by simp
  then obtain cmd' xs where cmd': "parse_words (dropWhile in_word cs) ?cmd1 = Inr cmd'"
      "cmd_args cmd' = cmd_args ?cmd1 @ xs"
    using parse_words_total [of ?cmd1 "dropWhile in_word cs"] assms(2) by auto
  have "parse_words p ?cmd = parse_words (dropWhile in_word cs) ?cmd1"
    using c(2) by (simp add: parse_words.simps [of p] c(1) MAX_ARGS_def in_word_def)
  then show ?thesis using that [of cmd'] cmd' by (simp add: parse_command_def copy)
qed

definition faultless :: "'w outcome \<Rightarrow> bool" where
  "faultless r \<longleftrightarrow> (\<forall>f. r \<noteq> Some (Inl f))"

lemma faultless_simps [simp]:
  "faultless None" "faultless (Some (Inr q))" "\<not> faultless (Some (Inl f))"
  by (simp_all add: faultless_def)

text \<open>The lines \<open>log execute\<close> may run again are short ones.\<close>

definition SHORT :: nat where "SHORT = 200"

definition short_log :: "'w shell \<Rightarrow> bool" where
  "short_log st \<longleftrightarrow> log_loaded st \<and> length (log_entries st) = MAX_LOG_ENTRIES \<and>
     (\<forall>e \<in> set (log_entries st). length e \<le> SHORT)"

lemma job_ops_log [simp]:
  "log_entries (set_status k t st) = log_entries st" "log_loaded (set_status k t st) = log_loaded st"
  "log_entries (remove_job i st) = log_entries st" "log_loaded (remove_job i st) = log_loaded st"
  "log_entries (snd (add_job p c t st)) = log_entries st"
  "log_loaded (snd (add_job p c t st)) = log_loaded st"
  "log_entries (set_foreground_pid p st) = log_entries st"
  "log_loaded (set_foreground_pid p st) = log_loaded st"
  "log_count (set_status k t st) = log_count st" "log_start (set_status k t st) = log_start st"
  "log_count (remove_job i st) = log_count st" "log_start (remove_job i st) = log_start st"
  "log_count (snd (add_job p c t st)) = log_count st"
  "log_start (snd (add_job p c t st)) = log_start st"
  "log_count (set_foreground_pid p st) = log_count st"
  "log_start (set_foreground_pid p st) = log_start st"
  "home_dir (set_status k t st) = home_dir st" "home_dir (remove_job i st) = home_dir st"
  "home_dir (snd (add_job p c t st)) = home_dir st"
  "home_dir (set_foreground_pid p st) = home_dir st"
  by (simp_all add: set_status_def remove_job_def add_job_def set_foreground_pid_def
      split: option.split)

interpretation short_log_inv: shell_invariant short_log sys for sys :: "'w os"
  by unfold_locales (simp_all add: short_log_def)

lemma fork_stages_faultless:
  "\<forall>p \<in> set ps. atomic (lex p) \<and> length p < MAX_ARGS \<Longrightarrow>
     \<exists>pids st'. fork_stages sys n i ps st = Inr (map Some pids, st') \<and> length pids = length ps"
proof (induction ps arbitrary: i st)
  case (Cons p ps)
  then have "atomic (lex p)" "length p < MAX_ARGS" by simp_all
  then obtain cmd where cmd: "parse_command p = Inr (True, cmd)" by (rule parse_command_atomic)
  define q where "q = syscall (os_fork sys (child_stage sys n i cmd)) st"
  obtain pids st' where rest: "fork_stages sys n (i + 1) ps (snd q) = Inr (map Some pids, st')"
      "length pids = length ps" using Cons by fastforce
  then have "fork_stages sys n i (p # ps) st = Inr (map Some (fst q # pids), st')"
    using cmd by (simp add: q_def case_prod_unfold)
  then show ?case using rest(2) by (metis length_Cons)
qed simp

lemma wait_all_faultless: "\<exists>st'. wait_all sys (map Some pids) st = Inr st'"
  by (induction pids arbitrary: st) simp_all

lemma log_faultless:
  assumes "short_log st"
    and "\<And>s st. short_log st \<Longrightarrow> parse_input s \<Longrightarrow> length s \<le> SHORT \<Longrightarrow> faultless (exec s st)"
  shows "faultless (cmd_log exec sys argv st)"
proof -
  have "faultless (case exec s st of None \<Rightarrow> None | Some (Inl f) \<Rightarrow> Some (Inl f)
      | Some (Inr (_, st)) \<Rightarrow> Some (Inr (0, st)))" if "faultless (exec s st)" for s
    using that by (auto split: option.split sum.split)
  moreover have "length (log_entries st ! (i mod MAX_LOG_ENTRIES)) \<le> SHORT" for i
    using assms(1) by (simp add: short_log_def MAX_LOG_ENTRIES_def)
  moreover have "ensure_loaded sys st = st" using assms(1) by (simp add: short_log_def)
  ultimately show ?thesis using assms by (simp add: cmd_log_def Let_def)
qed

lemma single_faultless:
  assumes "short_log st"
    and "\<And>s st. short_log st \<Longrightarrow> parse_input s \<Longrightarrow> length s \<le> SHORT \<Longrightarrow> faultless (exec s st)"
  shows "faultless (execute_single_command exec sys cmd background st)"
proof -
  have "faultless (execute_intrinsic exec sys argv st)" for argv
    using log_faultless [OF assms] by (simp add: execute_intrinsic_def)
  then show ?thesis
    by (simp add: execute_single_command_def Let_def case_prod_unfold split: wstatus.split)
qed

lemma pipeline_faultless:
  assumes "cmd_group (lex g)" "length g \<le> SHORT" "short_log st"
    and exec: "\<And>s st. short_log st \<Longrightarrow> parse_input s \<Longrightarrow> length s \<le> SHORT \<Longrightarrow> faultless (exec s st)"
  shows "faultless (execute_pipeline exec sys g background st)"
proof -
  have copy: "copy_line g = g" using assms(2) by (simp add: copy_line_def SHORT_def)
  define ps where "ps = split_pipes [] g"
  have ps: "atomic (lex p) \<and> length p < MAX_ARGS" if "p \<in> set ps" for p
    using split_pipes_grammar [of "[]" g p] split_pipes_le [of p "[]" g] assms(1,2) that
    by (simp add: ps_def SHORT_def MAX_ARGS_def)
  have "1 \<le> length p" if "p \<in> set ps" for p
    using ps [OF that] by (cases p) (auto elim: atomic.cases)
  then have "sum_list (map (\<lambda>_. 1) ps) \<le> sum_list (map length ps)" by (intro sum_list_mono) auto
  then have few: "length ps \<le> MAX_PIPES"
    using split_pipes_length [of "[]" g] assms(2)
    by (simp add: ps_def SHORT_def MAX_PIPES_def sum_list_triv)
  obtain pids st' where fork: "fork_stages sys (length ps) 0 ps (snd (make_pipes sys (length ps - 1) st))
      = Inr (map Some pids, st')" "length pids = length ps"
    using fork_stages_faultless ps by blast
  have "ps \<noteq> []" by (simp add: ps_def split_pipes_ne)
  then obtain p where last: "last (map Some pids) = Some p"
    using fork(2) by (cases pids rule: rev_cases) auto
  obtain cmd where cmd: "parse_command (last ps) = Inr (True, cmd)"
    using ps [of "last ps"] \<open>ps \<noteq> []\<close> parse_command_atomic [of "last ps" thesis] by simp
  have one: "faultless (execute_single_command exec sys cmd background st)" for cmd
    using single_faultless [OF assms(3) exec] .
  have "length ps = 1 \<Longrightarrow> ps ! 0 = last ps" using \<open>ps \<noteq> []\<close> by (cases ps) auto
  then show ?thesis
    using few one cmd fork(1) last wait_all_faultless [of sys pids st']
    unfolding execute_pipeline_def Let_def copy ps_def [symmetric]
    by (auto simp: case_prod_unfold)
qed

lemma run_groups_faultless:
  assumes "\<And>g b st. (g, b) \<in> set gs \<Longrightarrow> short_log st \<Longrightarrow> faultless (run g b st)"
    and "\<And>g b st. short_log st \<Longrightarrow> short_log_inv.keeps (run g b st)" "short_log st"
  shows "faultless (run_groups run gs st)"
  using assms
proof (induction run gs st rule: run_groups.induct)
  case (2 run g b gs st)
  show ?case
  proof (cases "run g b st")
    case (Some r)
    then show ?thesis
      using 2(2) [of g b st] 2(3) [of st g b] 2(4) "2.IH" 2(2,3)
      by (cases r) (auto simp: short_log_inv.keeps_def)
  qed simp
qed simp

lemma line_faultless:
  assumes "short_log st" "parse_input s" "length s \<le> SHORT"
    and exec: "\<And>s st. short_log st \<Longrightarrow> parse_input s \<Longrightarrow> length s \<le> SHORT \<Longrightarrow> faultless (exec s st)"
    and keeps: "\<And>s st. short_log st \<Longrightarrow> short_log_inv.keeps (exec s st)"
  shows "faultless (execute_line exec sys s st)"
proof -
  have copy: "copy_line s = s" using assms(3) by (simp add: copy_line_def SHORT_def)
  have "length (split_groups [] s) \<le> MAX_GROUPS"
    using split_groups_length [of "[]" s] assms(3) by (simp add: SHORT_def MAX_GROUPS_def)
  moreover have "faultless (run_groups (execute_pipeline exec sys) (split_groups [] s) st)"
  proof (rule run_groups_faultless)
    fix g b and st :: "'a shell"
    assume g: "(g, b) \<in> set (split_groups [] s)" and st: "short_log st"
    have "cmd_group (lex g)"
      using split_groups_grammar [OF _ _ _ g] assms(2) by (simp add: parse_input_iff)
    then show "faultless (execute_pipeline exec sys g b st)"
      using split_groups_le [OF g] assms(3) st exec by (intro pipeline_faultless) auto
  next
    show "short_log_inv.keeps (execute_pipeline exec sys g b st)" if "short_log st"
      for g b and st :: "'a shell"
      using keeps that by (rule short_log_inv.keeps_pipeline)
  qed (rule assms(1))
  ultimately show ?thesis by (simp add: execute_line_def copy)
qed

lemma full_faultless:
  "short_log st \<Longrightarrow> parse_input s \<Longrightarrow> length s \<le> SHORT \<Longrightarrow>
     faultless (execute_full_command n sys s st)"
proof (induction n arbitrary: s st)
  case (Suc n)
  have "faultless (execute_line (execute_full_command n sys) sys s st)"
    by (rule line_faultless [OF Suc.prems Suc.IH short_log_inv.keeps_full])
  then show ?case by simp
qed simp

text \<open>
  C24. A line of at most 200 characters that passed the syntax check never writes past one of the
  executor's arrays and never uses an unassigned pid, whatever commands it holds and whatever the
  system calls return, provided the lines \<open>log execute\<close> could run again are that short too.
\<close>

theorem accepted_lines_do_not_fault:
  assumes "parse_input s" "length s \<le> 200" "short_log st"
  shows "execute_full_command n sys s st \<noteq> Some (Inl f)"
  using full_faultless [of st s n sys] assms by (auto simp: faultless_def SHORT_def)

lemma short_log_empty: "short_log (empty_shell w\<lparr>log_loaded := True\<rparr>)"
  by (simp add: short_log_def empty_shell_def MAX_LOG_ENTRIES_def)

theorem accepted_lines_do_not_fault_witness:
  "\<forall>f. execute_full_command 3 idle_os ''ls | wc > f; sleep 5 &'' (empty_shell ()\<lparr>log_loaded := True\<rparr>)
     \<noteq> Some (Inl f)"
proof (rule allI, rule accepted_lines_do_not_fault [OF _ _ short_log_empty])
  show "parse_input ''ls | wc > f; sleep 5 &''" by code_simp
qed simp

text \<open>
  The bound of 200 is sharp: one character more allows 101 groups, which the syntax check
  accepts and which overflow the arrays of 100 groups before anything runs.
\<close>

theorem long_lines_overflow:
  "\<exists>s. length s = 201 \<and> parse_input s \<and>
     execute_full_command (Suc n) sys s st = Some (Inl (Overflow ''cmd_groups''))"
proof (intro exI conjI)
  let ?s = "concat (replicate 100 ''a;'') @ ''a''"
  show "length ?s = 201" by code_simp
  show "parse_input ?s" by code_simp
  have "length (split_groups [] (copy_line ?s)) > MAX_GROUPS" by code_simp
  then show "execute_full_command (Suc n) sys ?s st = Some (Inl (Overflow ''cmd_groups''))"
    by (simp add: execute_line_def)
qed

section \<open>Lines that return\<close>

text \<open>A line in which no command, taken alone, is a \<open>log execute\<close> with an index.\<close>

definition runs_log_execute :: "string \<Rightarrow> bool" where
  "runs_log_execute g =
     (case split_pipes [] (copy_line g) of
        [p] \<Rightarrow> (case parse_command p of
                 Inr (True, cmd) \<Rightarrow> length (cmd_args cmd) = 3 \<and> hd (cmd_args cmd) = ''log'' \<and>
                   cmd_args cmd ! 1 = ''execute''
               | _ \<Rightarrow> False)
      | _ \<Rightarrow> False)"

definition plain_line :: "string \<Rightarrow> bool" where
  "plain_line s \<longleftrightarrow> (\<forall>(g, b) \<in> set (split_groups [] (copy_line s)). \<not> runs_log_execute g)"

definition plain_log :: "'w shell \<Rightarrow> bool" where
  "plain_log st \<longleftrightarrow> log_loaded st \<and> length (log_entries st) = MAX_LOG_ENTRIES \<and>
     (\<forall>e \<in> set (log_entries st). plain_line e)"

interpretation plain_log_inv: shell_invariant plain_log sys for sys :: "'w os"
  by unfold_locales (simp_all add: plain_log_def)

lemma log_returns:
  assumes "(length argv = 3 \<and> argv ! 1 = ''execute'') \<longrightarrow>
      (plain_log st \<and> (\<forall>e \<in> set (log_entries st). exec e st \<noteq> None))"
  shows "cmd_log exec sys argv st \<noteq> None"
proof (cases "length argv = 3 \<and> argv ! 1 = ''execute''")
  case True
  then have "ensure_loaded sys st = st" using assms by (simp add: plain_log_def)
  moreover
  let ?i = "(log_start st + log_count st - nat (atoi (argv ! 2))) mod MAX_LOG_ENTRIES"
  have "exec (log_entries st ! ?i) st \<noteq> None"
    using assms True by (simp add: plain_log_def MAX_LOG_ENTRIES_def)
  then obtain r where "exec (log_entries st ! ?i) st = Some r" by blast
  ultimately show ?thesis
    by (cases r) (auto simp: cmd_log_def Let_def)
qed (auto simp: cmd_log_def Let_def)

lemma single_returns:
  assumes "length (cmd_args cmd) = 3 \<and> hd (cmd_args cmd) = ''log'' \<and> cmd_args cmd ! 1 = ''execute'' \<longrightarrow>
      (plain_log st \<and> (\<forall>e \<in> set (log_entries st). exec e st \<noteq> None))"
  shows "execute_single_command exec sys cmd background st \<noteq> None"
proof -
  have "execute_intrinsic exec sys (cmd_args cmd) st \<noteq> None"
    using log_returns [of "cmd_args cmd" st exec sys] assms
    by (auto simp: execute_intrinsic_def)
  then show ?thesis
    by (auto simp: execute_single_command_def Let_def case_prod_unfold split: wstatus.split)
qed

lemma pipeline_returns:
  assumes "runs_log_execute g \<longrightarrow> plain_log st \<and> (\<forall>e \<in> set (log_entries st). exec e st \<noteq> None)"
  shows "execute_pipeline exec sys g background st \<noteq> None"
proof (cases "\<exists>p. split_pipes [] (copy_line g) = [p]")
  case True
  then obtain p where p: "split_pipes [] (copy_line g) = [p]" by blast
  show ?thesis
  proof (cases "parse_command p")
    case (Inr q)
    obtain ok cmd where q: "q = (ok, cmd)" by fastforce
    have "execute_single_command exec sys cmd background st \<noteq> None" if ok
      using assms that p Inr q by (intro single_returns) (auto simp: runs_log_execute_def)
    then show ?thesis using p Inr q by (cases ok) (simp_all add: execute_pipeline_def MAX_PIPES_def)
  qed (use p in \<open>simp add: execute_pipeline_def MAX_PIPES_def\<close>)
next
  case False
  then have "length (split_pipes [] (copy_line g)) \<noteq> 1" by (simp add: length_Suc_conv)
  then show ?thesis
    by (auto simp: execute_pipeline_def Let_def case_prod_unfold split: sum.split option.split bool.split)
qed

lemma run_groups_returns:
  assumes "\<And>g b st. (g, b) \<in> set gs \<Longrightarrow> P st \<Longrightarrow> run g b st \<noteq> None"
    and "\<And>g b st r st'. P st \<Longrightarrow> run g b st = Some (Inr (r, st')) \<Longrightarrow> P st'" "P st"
  shows "run_groups run gs st \<noteq> None"
  using assms
proof (induction run gs st rule: run_groups.induct)
  case (2 run g b gs st)
  then obtain r where r: "run g b st = Some r" by fastforce
  show ?case
  proof (cases r)
    case (Inr q)
    then have P: "P (snd q)" using 2(3) [of st g b "fst q" "snd q"] 2(4) r by simp
    have "run_groups run gs (snd q) \<noteq> None"
      by (rule "2.IH" [OF r Inr prod.collapse _ _ P]) (use 2(2,3) in auto)
    then show ?thesis using r Inr by (cases q) simp
  qed (simp add: r)
qed simp

lemma plain_line_returns:
  assumes "plain_line s" shows "execute_line exec sys s st \<noteq> None"
  using run_groups_returns [of "split_groups [] (copy_line s)" "\<lambda>_. True" "execute_pipeline exec sys" st]
    pipeline_returns assms by (fastforce simp: execute_line_def Let_def plain_line_def)

text \<open>
  C35. Execution returns: a line without \<open>log execute\<close> needs one level of the executor, and when no
  stored line holds a \<open>log execute\<close>, two levels are enough for every line.
\<close>

theorem execution_returns:
  assumes "plain_line s \<and> n = 1 \<or> plain_log st \<and> n = 2"
  shows "\<exists>r. execute_full_command n sys s st = Some r"
proof (cases "plain_line s \<and> n = 1")
  case True
  then show ?thesis using plain_line_returns [of s "execute_full_command 0 sys" sys st] by auto
next
  case False
  let ?exec = "execute_full_command 1 sys"
  have st: "plain_log st" "n = Suc (Suc 0)" using False assms by auto
  have "?exec e st \<noteq> None" if "plain_log st" "e \<in> set (log_entries st)" for e and st :: "'a shell"
    using that plain_line_returns [of e "execute_full_command 0 sys" sys st] by (simp add: plain_log_def)
  then have one: "execute_pipeline ?exec sys g b st \<noteq> None" if "plain_log st" for g b st
    using that by (intro pipeline_returns) blast
  have "run_groups (execute_pipeline ?exec sys) (split_groups [] (copy_line s)) st \<noteq> None"
  proof (rule run_groups_returns [of _ plain_log])
    show "plain_log st'" if "plain_log st" "execute_pipeline ?exec sys g b st = Some (Inr (r, st'))"
      for g b r and st st' :: "'a shell"
      using plain_log_inv.keeps_pipeline [of ?exec st sys g b, OF plain_log_inv.keeps_full that(1)] that
      by (simp add: plain_log_inv.keeps_def)
  qed (use one st in auto)
  then show ?thesis using st(2) by (auto simp: execute_line_def Let_def)
qed

theorem execution_returns_witness:
  "\<exists>r. execute_full_command 1 idle_os ''ls | wc; log'' (empty_shell ()) = Some r"
  by (rule execution_returns) (rule disjI1, code_simp)

text \<open>
  \<open>log execute\<close> can call itself: a line that begins with another command is recorded, and when
  it then executes its own entry the shell recurses for ever.
\<close>

theorem log_execute_recurses:
  "let s = ''hop .;log execute 1'';
       st = log_add_command sys s (empty_shell w\<lparr>log_loaded := True\<rparr>)
   in parse_input s \<and> history st = [s] \<and> execute_full_command n sys s st = None"
proof -
  define s where "s = ''hop .;log execute 1''"
  define st where "st = log_add_command sys s (empty_shell w\<lparr>log_loaded := True\<rparr>)"
  have parse: "parse_input s" unfolding s_def by code_simp
  have "\<not> is_log_command s" unfolding s_def by code_simp
  then have log: "log_loaded st" "log_count st = 1" "log_start st = 0" "log_entries st ! 0 = s"
    unfolding st_def
    by (simp_all add: log_add_command_def Let_def empty_shell_def MAX_LOG_ENTRIES_def)
  then have hist: "history st = [s]" by (simp add: history_def log_entry_def)
  have groups: "split_groups [] (copy_line s) = [(''hop .'', False), (''log execute 1'', False)]"
    unfolding s_def by code_simp
  have hop: "execute_pipeline exec sys ''hop .'' False st = Some (Inr (0, st))" for exec
  proof -
    have "split_pipes [] (copy_line ''hop .'') = [''hop .'']" by code_simp
    moreover have "parse_command ''hop .'' =
        Inr (True, \<lparr>cmd_args = [''hop'', ''.''], input_file = None, output_file = None,
          append_output = False\<rparr>)" by code_simp
    ultimately show ?thesis
      by (simp add: execute_pipeline_def execute_single_command_def is_intrinsic_def
          execute_intrinsic_def cmd_hop_def MAX_PIPES_def)
  qed
  have again: "execute_pipeline exec sys ''log execute 1'' False st = None" if "exec s st = None" for exec
  proof -
    have "split_pipes [] (copy_line ''log execute 1'') = [''log execute 1'']" by code_simp
    moreover have "parse_command ''log execute 1'' =
        Inr (True, \<lparr>cmd_args = [''log'', ''execute'', ''1''], input_file = None, output_file = None,
          append_output = False\<rparr>)" by code_simp
    moreover have "atoi ''1'' = 1" by code_simp
    ultimately show ?thesis
      using that log parse
      by (simp add: execute_pipeline_def execute_single_command_def is_intrinsic_def
          execute_intrinsic_def cmd_log_def MAX_PIPES_def MAX_LOG_ENTRIES_def)
  qed
  have "execute_full_command n sys s st = None"
    by (induction n) (simp_all add: execute_line_def groups MAX_GROUPS_def hop again)
  then show ?thesis using parse hist
    unfolding Let_def s_def [symmetric] st_def [symmetric] by simp
qed

end
