(* ===== verification/ShellMain.thy ===== *)
theory ShellMain
  imports ShellSafety
begin

text \<open>
  \<open>shell/src/main.c\<close>: starting, prompting, and the loop that reads a line, records it and runs it.
  Standard input is the text still to be read; at its end the shell kills its process group.
\<close>

section \<open>The loop\<close>

definition SIGKILL_NR :: int where "SIGKILL_NR = 9"

text \<open>\<open>init_shell\<close>; \<open>None\<close> is the exit when the working directory cannot be read.\<close>

definition init_shell :: "'w os \<Rightarrow> 'w shell \<Rightarrow> 'w shell option" where
  "init_shell sys st =
     (case os_getcwd sys (world st) of
        None \<Rightarrow> None
      | Some d \<Rightarrow> Some (init_jobs (st\<lparr>home_dir := d, prev_dir := []\<rparr>)))"

definition display_path :: "string \<Rightarrow> string \<Rightarrow> string" where
  "display_path home cwd =
     (let home_len = length home in
      if strncmp_eq cwd home home_len then
        if length cwd = home_len then ''~''
        else if cwd ! home_len = CHR ''/'' then CHR ''~'' # drop home_len cwd
        else cwd
      else cwd)"

definition display_prompt :: "'w os \<Rightarrow> 'w shell \<Rightarrow> 'w shell" where
  "display_prompt sys st =
     (case os_user sys (world st) of
        None \<Rightarrow> emit (Perror ''getpwuid'') st
      | Some user \<Rightarrow>
          (case os_hostname sys (world st) of
             None \<Rightarrow> emit (Perror ''gethostname'') st
           | Some host \<Rightarrow>
               (case os_getcwd sys (world st) of
                  None \<Rightarrow> emit (Perror ''getcwd'') st
                | Some cwd \<Rightarrow>
                    emit (Printf ''<%s@%s:%s> '' [S user, S host, S (display_path (home_dir st) cwd)])
                      st)))"

definition process_input :: "nat \<Rightarrow> 'w os \<Rightarrow> string \<Rightarrow> 'w shell \<Rightarrow> 'w outcome" where
  "process_input n sys input st =
     (if \<not> parse_input input then Some (Inr (-1, puts ''Invalid Syntax!\<newline>'' st))
      else (case execute_full_command n sys input st of
              None \<Rightarrow> None
            | Some (Inl f) \<Rightarrow> Some (Inl f)
            | Some (Inr (_, st)) \<Rightarrow> Some (Inr (0, st))))"

text \<open>One line, as \<open>fgets\<close> returned it.\<close>

definition run_line :: "nat \<Rightarrow> 'w os \<Rightarrow> string \<Rightarrow> 'w shell \<Rightarrow> 'w outcome" where
  "run_line n sys line st =
     (let trimmed = dropWhile is_blank (strip_newline line) in
      if trimmed = [] \<or> hd trimmed = CHR ''#'' then Some (Inr (0, st))
      else process_input n sys trimmed (log_add_command sys trimmed st))"

function main_loop :: "nat \<Rightarrow> 'w os \<Rightarrow> string \<Rightarrow> 'w shell \<Rightarrow> 'w outcome" where
  "main_loop n sys stdin st =
     (let st = display_prompt sys (check_background_jobs sys st) in
      case fgets MAX_INPUT_LEN stdin of
        None \<Rightarrow> Some (Inr (0, snd (syscall (os_kill sys 0 SIGKILL_NR) (puts ''logout\<newline>'' st))))
      | Some (line, stdin) \<Rightarrow>
          (case run_line n sys line st of
             None \<Rightarrow> None
           | Some (Inl f) \<Rightarrow> Some (Inl f)
           | Some (Inr (_, st)) \<Rightarrow> main_loop n sys stdin st))"
  by pat_completeness auto
termination
  by (relation "measure (\<lambda>(n, sys, stdin, st). length stdin)")
    (auto simp: MAX_INPUT_LEN_def dest: fgets_consumes)

declare main_loop.simps [simp del]

section \<open>Invariants of a session\<close>

context shell_invariant
begin

lemma P_prompt: "P st \<Longrightarrow> P (display_prompt sys st)"
  by (simp add: display_prompt_def P_emit split: option.split)

lemma keeps_process_input: "P st \<Longrightarrow> keeps (process_input n sys input st)"
  using keeps_full [of st n input]
  by (auto simp: process_input_def keeps_def P_emit split: option.splits sum.splits)

lemma keeps_run_line:
  assumes "P st" "\<And>c st. P st \<Longrightarrow> P (log_add_command sys c st)"
  shows "keeps (run_line n sys line st)"
  using assms by (simp add: run_line_def Let_def keeps_process_input)

lemma keeps_main_loop:
  assumes add: "\<And>c st. P st \<Longrightarrow> P (log_add_command sys c st)"
  shows "P st \<Longrightarrow> keeps (main_loop n sys stdin st)"
proof (induction "length stdin" arbitrary: stdin st rule: less_induct)
  case less
  define st1 where "st1 = display_prompt sys (check_background_jobs sys st)"
  have st1: "P st1" using less.prems by (simp add: st1_def P_prompt P_check_background)
  show ?case
  proof (cases "fgets MAX_INPUT_LEN stdin")
    case None
    then show ?thesis using st1
      by (simp add: main_loop.simps [of n sys stdin] Let_def st1_def [symmetric] P_world P_emit)
  next
    case (Some q)
    obtain line rest where q: "q = (line, rest)" by fastforce
    have "length rest < length stdin"
      using fgets_consumes [of MAX_INPUT_LEN stdin line rest] Some q by (simp add: MAX_INPUT_LEN_def)
    moreover have "keeps (run_line n sys line st1)" using st1 add by (rule keeps_run_line)
    ultimately show ?thesis using Some q less.hyps
      by (auto simp: main_loop.simps [of n sys stdin] Let_def st1_def [symmetric] keeps_def
          split: option.splits sum.splits)
  qed
qed

end

lemma ensure_loaded_simps [simp]:
  "jobs (ensure_loaded sys st) = jobs st" "next_job_id (ensure_loaded sys st) = next_job_id st"
  "home_dir (ensure_loaded sys st) = home_dir st"
  by (auto simp: ensure_loaded_def load_log_def Let_def split: option.split prod.split)

lemma log_add_simps [simp]:
  "jobs (log_add_command sys c st) = jobs st" "next_job_id (log_add_command sys c st) = next_job_id st"
  "home_dir (log_add_command sys c st) = home_dir st"
  by (simp_all add: log_add_command_def Let_def)

text \<open>What every command keeps: both tables in shape, and the home directory of the start.\<close>

definition shell_ok :: "string \<Rightarrow> 'w shell \<Rightarrow> bool" where
  "shell_ok home st \<longleftrightarrow> jobs_ok st \<and> log_ok st \<and> home_dir st = home"

lemma log_ok_ops [simp]:
  "log_ok (st\<lparr>world := w\<rparr>) = log_ok st" "log_ok (emit msg st) = log_ok st"
  "log_ok (st\<lparr>prev_dir := d\<rparr>) = log_ok st" "log_ok (set_foreground_pid p st) = log_ok st"
  "log_ok (set_status k t st) = log_ok st" "log_ok (snd (add_job p c t st)) = log_ok st"
  "log_ok (remove_job i st) = log_ok st"
  by (simp_all add: log_ok_def)

lemma jobs_ok_ops [simp]:
  "jobs_ok (st\<lparr>world := w\<rparr>) = jobs_ok st" "jobs_ok (st\<lparr>prev_dir := d\<rparr>) = jobs_ok st"
  "jobs_ok (set_foreground_pid p st) = jobs_ok st" "jobs_ok (ensure_loaded sys st) = jobs_ok st"
  "jobs_ok (st\<lparr>log_count := n, log_start := m\<rparr>) = jobs_ok st"
  "jobs_ok (log_add_command sys c st) = jobs_ok st"
  by (simp_all add: jobs_ok_def set_foreground_pid_def)

lemma log_add_ok [inv_pres]: "log_ok st \<Longrightarrow> log_ok (log_add_command sys c st)"
  using log_add_ready [of "ensure_loaded sys st" sys c] ensure_loaded_ok [of st sys]
  by (simp add: log_ready_def log_add_command_def ensure_loaded_def)

interpretation shell_ok_inv: shell_invariant "shell_ok home" sys for home and sys :: "'w os"
  by unfold_locales
    (simp_all add: shell_ok_def emit_ok set_status_ok add_job_ok remove_job_ok ensure_loaded_ok,
     simp add: log_ok_def)


lemma shell_ok_empty: "shell_ok ''/home'' (empty_shell w)"
  by (simp add: shell_ok_def empty_shell_ok, simp add: log_ok_def empty_shell_def MAX_LOG_ENTRIES_def)


section \<open>The prompt\<close>

definition expand_home :: "string \<Rightarrow> string \<Rightarrow> string" where
  "expand_home home d = (if d \<noteq> [] \<and> hd d = CHR ''~'' then home @ tl d else d)"

text \<open>
  The path in the prompt names the working directory: putting the home directory for a leading
  tilde gives it back, and the tilde is used exactly for the home directory and what lies below it,
  not for a directory whose name only starts like it.
\<close>

theorem display_path_faithful:
  assumes "hd cwd = CHR ''/''" "cwd \<noteq> []"
  shows "expand_home home (display_path home cwd) = cwd \<and>
    (hd (display_path home cwd) = CHR ''~'' \<longleftrightarrow>
       cwd = home \<or> (\<exists>rest. cwd = home @ CHR ''/'' # rest))"
proof (cases "take (length home) cwd = home")
  case True
  then obtain r where "cwd = home @ r" by (metis append_take_drop_id)
  then show ?thesis using assms
    by (cases r) (auto simp: display_path_def expand_home_def strncmp_eq_def Let_def nth_append)
next
  case False
  then have "\<not> (cwd = home \<or> (\<exists>rest. cwd = home @ CHR ''/'' # rest))" by auto
  then show ?thesis using False assms
    by (auto simp: display_path_def expand_home_def strncmp_eq_def)
qed

theorem display_path_faithful_witness:
  "display_path ''/home/u'' ''/home/u/src'' = ''~/src'' \<and> display_path ''/home/u'' ''/home/user'' = ''/home/user''
   \<and> expand_home ''/home/u'' (display_path ''/home/u'' ''/home/u/src'') = ''/home/u/src''"
proof -
  have "expand_home ''/home/u'' (display_path ''/home/u'' ''/home/u/src'') = ''/home/u/src''"
    using display_path_faithful [of "''/home/u/src''" "''/home/u''"] by simp
  then show ?thesis by (simp add: display_path_def strncmp_eq_def)
qed

section \<open>Arguments\<close>

fun join_words :: "string list \<Rightarrow> string" where
  "join_words [] = []"
| "join_words [w] = w"
| "join_words (w # ws) = w @ CHR '' '' # join_words ws"

lemma isspace_space [simp]: "isspace CHR '' ''" by (simp add: isspace_def)

lemma in_word_space [simp]: "\<not> in_word CHR '' ''" by (simp add: in_word_def)

lemma parse_words_word:
  assumes "\<forall>c \<in> set w. in_word c" "w \<noteq> []" "length (cmd_args cmd) < MAX_ARGS"
    and "rest = [] \<or> \<not> in_word (hd rest)"
  shows "parse_words (w @ rest) cmd = parse_words rest (cmd\<lparr>cmd_args := cmd_args cmd @ [w]\<rparr>)"
proof -
  obtain c cs where w: "w = c # cs" using assms(2) by (cases w) auto
  have "dropWhile isspace (w @ rest) = c # cs @ rest" using assms(1) by (simp add: w in_word_def)
  moreover have "c \<noteq> CHR ''<''" "c \<noteq> CHR ''>''" using assms(1) by (auto simp: w in_word_def)
  moreover have "takeWhile in_word (w @ rest) = w" "dropWhile in_word (w @ rest) = rest"
    using assms(1,4) while_append [of rest in_word w] by simp_all
  then have "takeWhile in_word (c # cs @ rest) = w" "dropWhile in_word (cs @ rest) = rest"
    using assms(1) by (auto simp: w)
  ultimately show ?thesis using assms(3) by (simp add: parse_words.simps [of "w @ rest"])
qed

lemma parse_words_space: "parse_words (CHR '' '' # s) cmd = parse_words s cmd"
  by (simp add: parse_words.simps [of "CHR '' '' # s"] parse_words.simps [of s])

lemma parse_words_join:
  "\<forall>w \<in> set ws. w \<noteq> [] \<and> (\<forall>c \<in> set w. in_word c) \<Longrightarrow> length (cmd_args cmd) + length ws < MAX_ARGS \<Longrightarrow>
     parse_words (join_words ws) cmd = Inr (cmd\<lparr>cmd_args := cmd_args cmd @ ws\<rparr>)"
proof (induction ws arbitrary: cmd rule: join_words.induct)
  case 1
  then show ?case by (simp add: parse_words.simps [of "[]"])
next
  case (2 w)
  then show ?case using parse_words_word [of w cmd "[]"] by (simp add: parse_words.simps [of "[]"])
next
  case (3 w v ws)
  then show ?case
    using parse_words_word [of w cmd "CHR '' '' # join_words (v # ws)"] by (simp add: parse_words_space)
qed

text \<open>
  The program sees the arguments that were typed: up to 255 words without white space and
  redirection characters, joined by blanks into a line that fits the buffer, are parsed back into
  exactly those arguments, with no redirection.
\<close>

theorem arguments_roundtrip:
  assumes "ws \<noteq> []" "length ws \<le> 255" "\<forall>w \<in> set ws. w \<noteq> [] \<and> (\<forall>c \<in> set w. in_word c)"
    and "length (join_words ws) \<le> 4095"
  shows "parse_command (join_words ws) = Inr (True, \<lparr>cmd_args = ws, input_file = None,
    output_file = None, append_output = False\<rparr>)"
  using assms parse_words_join [of ws "\<lparr>cmd_args = [], input_file = None, output_file = None,
      append_output = False\<rparr>"]
  by (simp add: parse_command_def copy_line_def MAX_ARGS_def)

theorem arguments_roundtrip_witness:
  "parse_command ''cp a.c b.c'' = Inr (True, \<lparr>cmd_args = [''cp'', ''a.c'', ''b.c''],
     input_file = None, output_file = None, append_output = False\<rparr>)"
  using arguments_roundtrip [of "[''cp'', ''a.c'', ''b.c'']"] by (simp add: in_word_def isspace_def)

section \<open>Redirections that do not do what was asked\<close>

text \<open>
  The append flag is set for the whole command by any \<open>>>\<close>: the last output file is opened with the
  mode of an earlier one.
\<close>

lemma append_flag_sticks:
  "parse_command ''echo x >> a > b'' = Inr (True, \<lparr>cmd_args = [''echo'', ''x''], input_file = None,
     output_file = Some ''b'', append_output = True\<rparr>)"
  by code_simp

text \<open>
  A background command never reads the file its input was redirected from: the child opens it,
  fails if it cannot, and then reads \<open>/dev/null\<close>.
\<close>

theorem background_ignores_input_file:
  assumes "os_open_read sys ''/dev/null'' (snd (child_single sys cmd True w))"
    and "fst (child_single sys cmd True w) = Exec inp outp argv"
  shows "inp = DevNull \<and> argv = cmd_args cmd \<and>
    (\<forall>f. input_file cmd = Some f \<longrightarrow> os_open_read sys f w)"
  using assms
  by (auto simp: child_single_def open_files_def Let_def split: option.splits sum.splits prod.splits
      if_splits)

theorem background_ignores_input_file_witness:
  "fst (child_single idle_os \<lparr>cmd_args = [''cat''], input_file = Some ''f'', output_file = None,
     append_output = False\<rparr> True ()) = Exec DevNull Inherited [''cat'']"
proof -
  let ?cmd = "\<lparr>cmd_args = [''cat''], input_file = Some ''f'', output_file = None, append_output = False\<rparr>"
  obtain inp where e: "fst (child_single idle_os ?cmd True ()) = Exec inp Inherited [''cat'']"
    by (simp add: child_single_def open_files_def idle_os_def)
  have "inp = DevNull"
    using background_ignores_input_file [of idle_os ?cmd "()" inp Inherited "[''cat'']"] e
    by (simp add: idle_os_def)
  then show ?thesis using e by simp
qed

end
