(* ===== verification/Bytes.thy ===== *)
theory Bytes
  imports Prelude
begin

unbundle bit_operations_syntax

text \<open>
  Integers as bytes in memory and on the wire, lowest byte first, as the packets of the transfer and
  the blocks of the file system hold them.
\<close>

type_synonym byte = "8 word"

definition bytes16 :: "16 word \<Rightarrow> byte list" where
  "bytes16 w = [ucast w, ucast (drop_bit 8 w)]"

definition bytes32 :: "32 word \<Rightarrow> byte list" where
  "bytes32 w = [ucast w, ucast (drop_bit 8 w), ucast (drop_bit 16 w), ucast (drop_bit 24 w)]"

definition word16 :: "byte \<Rightarrow> byte \<Rightarrow> 16 word" where
  "word16 a b = ucast a OR push_bit 8 (ucast b)"

definition word32 :: "byte \<Rightarrow> byte \<Rightarrow> byte \<Rightarrow> byte \<Rightarrow> 32 word" where
  "word32 a b c d = ucast a OR push_bit 8 (ucast b) OR push_bit 16 (ucast c) OR push_bit 24 (ucast d)"

lemma word16_bytes: "word16 (ucast w) (ucast (drop_bit 8 w)) = w"
  unfolding word16_def by (rule bit_word_eqI) (auto simp: bit_simps)

lemma word32_bytes:
  "word32 (ucast w) (ucast (drop_bit 8 w)) (ucast (drop_bit 16 w)) (ucast (drop_bit 24 w)) = w"
  unfolding word32_def
proof (rule bit_word_eqI)
  fix n assume "n < LENGTH(32)"
  then show "bit (ucast (ucast w :: byte) OR push_bit 8 (ucast (ucast (drop_bit 8 w) :: byte)) OR
      push_bit 16 (ucast (ucast (drop_bit 16 w) :: byte)) OR
      push_bit 24 (ucast (ucast (drop_bit 24 w) :: byte)) :: 32 word) n = bit w n"
    by (cases "n < 24"; cases "n < 16"; cases "n < 8") (auto simp: bit_simps)
qed

lemma length_header_bytes [lens]:
  "length (bytes32 w) = 4" "length (bytes16 v) = 2"
  by (simp_all add: bytes32_def bytes16_def)

section \<open>Words inside a buffer\<close>

text \<open>\<open>splice d i xs\<close>: the bytes \<open>xs\<close> are stored at \<open>i\<close> in the buffer \<open>d\<close>.\<close>

definition splice :: "'a list \<Rightarrow> nat \<Rightarrow> 'a list \<Rightarrow> 'a list" where
  "splice d i xs = take i d @ xs @ drop (i + length xs) d"

lemma length_splice [simp]: "i + length xs \<le> length d \<Longrightarrow> length (splice d i xs) = length d"
  by (simp add: splice_def)

lemma nth_splice:
  "i + length xs \<le> length d \<Longrightarrow> j < length d \<Longrightarrow>
    splice d i xs ! j = (if i \<le> j \<and> j < i + length xs then xs ! (j - i) else d ! j)"
  by (auto simp: splice_def nth_append min_def)

text \<open>The array of 32-bit words that a buffer holds.\<close>

definition word_at :: "byte list \<Rightarrow> nat \<Rightarrow> 32 word" where
  "word_at d i = word32 (d ! (4 * i)) (d ! (4 * i + 1)) (d ! (4 * i + 2)) (d ! (4 * i + 3))"

definition set_word :: "byte list \<Rightarrow> nat \<Rightarrow> 32 word \<Rightarrow> byte list" where
  "set_word d i w = splice d (4 * i) (bytes32 w)"

lemma length_set_word [simp]: "4 * i + 4 \<le> length d \<Longrightarrow> length (set_word d i w) = length d"
  by (simp add: set_word_def lens)

lemma word_at_set:
  assumes "4 * i + 4 \<le> length d" "4 * j + 4 \<le> length d"
  shows "word_at (set_word d i w) j = (if i = j then w else word_at d j)"
proof (cases "i = j")
  case True
  have "set_word d i w ! (4 * i + k) = bytes32 w ! k" if "k < 4" for k
    using assms(1) that by (simp add: set_word_def nth_splice lens)
  from this [of 0] this [of 1] this [of 2] this [of 3] show ?thesis using True
    by (simp add: word_at_def bytes32_def word32_bytes numeral_2_eq_2 numeral_3_eq_3)
next
  case False
  have "set_word d i w ! (4 * j + k) = d ! (4 * j + k)" if "k < 4" for k
  proof -
    have "\<not> (4 * i \<le> 4 * j + k \<and> 4 * j + k < 4 * i + 4)" using False that by presburger
    then show ?thesis using assms that by (auto simp: set_word_def nth_splice lens)
  qed
  from this [of 0] this [of 1] this [of 2] this [of 3] show ?thesis using False by (simp add: word_at_def)
qed

lemma word_at_zeros: "4 * i + 4 \<le> n \<Longrightarrow> word_at (replicate n 0) i = 0"
  by (simp add: word_at_def word32_def)

end
