(* ===== verification/ShamPacket.thy ===== *)
theory ShamPacket
  imports Bytes
begin

unbundle bit_operations_syntax

text \<open>
  \<open>networking/sham.h\<close> and the packet functions of \<open>client.c\<close> and \<open>server.c\<close>: the packed header, the
  bytes a packet travels as, and what a receive leaves in the packet buffer. The integers go over the
  wire in the byte order of the host; the model is a little-endian one.
\<close>

section \<open>Packets\<close>

definition SHAM_SYN :: "16 word" where "SHAM_SYN = 1"
definition SHAM_ACK :: "16 word" where "SHAM_ACK = 2"
definition SHAM_FIN :: "16 word" where "SHAM_FIN = 4"

definition SHAM_DATA_SIZE :: nat where "SHAM_DATA_SIZE = 1024"
definition SHAM_WINDOW_SIZE :: nat where "SHAM_WINDOW_SIZE = 10"
definition SHAM_TIMEOUT_MS :: int where "SHAM_TIMEOUT_MS = 500"
definition SHAM_MAX_RETRIES :: nat where "SHAM_MAX_RETRIES = 10"
definition SHAM_HEADER_SIZE :: nat where "SHAM_HEADER_SIZE = 12"
definition SHAM_PACKET_SIZE :: nat where "SHAM_PACKET_SIZE = SHAM_HEADER_SIZE + SHAM_DATA_SIZE"

record sham_header =
  seq_num :: "32 word"
  ack_num :: "32 word"
  flags :: "16 word"
  window_size :: "16 word"

record sham_packet =
  header :: sham_header
  data :: "byte list"

definition has_flag :: "sham_packet \<Rightarrow> 16 word \<Rightarrow> bool" where
  "has_flag p f \<longleftrightarrow> flags (header p) AND f \<noteq> 0"

text \<open>\<open>memset (&pkt, 0, sizeof (pkt))\<close>.\<close>

definition zero_packet :: sham_packet where
  "zero_packet = \<lparr>header = \<lparr>seq_num = 0, ack_num = 0, flags = 0, window_size = 0\<rparr>,
     data = replicate SHAM_DATA_SIZE 0\<rparr>"

text \<open>A packet filled in after the \<open>memset\<close>, its payload copied by \<open>memcpy\<close>.\<close>

definition make_packet :: "32 word \<Rightarrow> 32 word \<Rightarrow> 16 word \<Rightarrow> 16 word \<Rightarrow> byte list \<Rightarrow> sham_packet" where
  "make_packet s a f w payload =
     \<lparr>header = \<lparr>seq_num = s, ack_num = a, flags = f, window_size = w\<rparr>,
      data = payload @ replicate (SHAM_DATA_SIZE - length payload) 0\<rparr>"

section \<open>The bytes of a packet\<close>

definition packet_bytes :: "sham_packet \<Rightarrow> byte list" where
  "packet_bytes p = bytes32 (seq_num (header p)) @ bytes32 (ack_num (header p)) @
     bytes16 (flags (header p)) @ bytes16 (window_size (header p)) @ data p"

definition bytes_packet :: "byte list \<Rightarrow> sham_packet" where
  "bytes_packet b =
     \<lparr>header = \<lparr>seq_num = word32 (b ! 0) (b ! 1) (b ! 2) (b ! 3),
        ack_num = word32 (b ! 4) (b ! 5) (b ! 6) (b ! 7),
        flags = word16 (b ! 8) (b ! 9), window_size = word16 (b ! 10) (b ! 11)\<rparr>,
      data = drop SHAM_HEADER_SIZE b\<rparr>"

text \<open>Sequence numbers count bytes; positions below 4 GB are told apart.\<close>

lemma seq_inj:
  assumes "a < 2 ^ 32" "b < 2 ^ 32" "(of_nat a :: 32 word) = of_nat b" shows "a = b"
proof -
  have "unat (of_nat n :: 32 word) = n" if "n < 2 ^ 32" for n
    using that by (simp add: unat_of_nat take_bit_nat_eq_self)
  with assms show ?thesis by metis
qed

section \<open>Sending and receiving\<close>

text \<open>\<open>send_packet\<close> hands the header and \<open>data_len\<close> bytes of the payload to \<open>sendto\<close>.\<close>

definition send_packet :: "sham_packet \<Rightarrow> nat \<Rightarrow> byte list" where
  "send_packet p data_len = take (SHAM_HEADER_SIZE + data_len) (packet_bytes p)"

text \<open>What \<open>select\<close> and \<open>recvfrom\<close> give: nothing in time, an error, or a datagram.\<close>

datatype received = Timeout | Failed | Datagram "byte list"

datatype recv_result = Nothing | Invalid | Received nat

text \<open>
  Both receive functions write the first \<open>SHAM_PACKET_SIZE\<close> bytes of a datagram over the packet
  buffer; what lies beyond the datagram keeps its old contents.
\<close>

definition recv_packet :: "sham_packet \<Rightarrow> received \<Rightarrow> recv_result \<times> sham_packet" where
  "recv_packet pkt r =
     (case r of
        Timeout \<Rightarrow> (Nothing, pkt)
      | Failed \<Rightarrow> (Invalid, pkt)
      | Datagram d \<Rightarrow>
          let d = take SHAM_PACKET_SIZE d;
              pkt = bytes_packet (d @ drop (length d) (packet_bytes pkt))
          in (if length d < SHAM_HEADER_SIZE then Invalid
              else Received (length d - SHAM_HEADER_SIZE), pkt))"

section \<open>Round trips\<close>

lemma length_packet_bytes [lens]: "length (packet_bytes p) = SHAM_HEADER_SIZE + length (data p)"
  by (simp add: packet_bytes_def lens SHAM_HEADER_SIZE_def)

definition header_bytes :: "sham_header \<Rightarrow> byte list" where
  "header_bytes h = bytes32 (seq_num h) @ bytes32 (ack_num h) @ bytes16 (flags h) @
     bytes16 (window_size h)"

lemma length_header [simp]: "length (header_bytes h) = SHAM_HEADER_SIZE"
  by (simp add: header_bytes_def lens SHAM_HEADER_SIZE_def)

lemma packet_bytes_split: "packet_bytes p = header_bytes (header p) @ data p"
  by (simp add: packet_bytes_def header_bytes_def)

lemma bytes_packet_header: "bytes_packet (header_bytes h @ d) = \<lparr>header = h, data = d\<rparr>"
  by (simp add: bytes_packet_def header_bytes_def bytes32_def bytes16_def word32_bytes word16_bytes
      SHAM_HEADER_SIZE_def)

lemma send_packet_split: "send_packet p n = header_bytes (header p) @ take n (data p)"
  by (simp add: send_packet_def packet_bytes_split)

text \<open>
  A packet that is sent is received with its header and payload; the rest of the buffer keeps what
  it held.
\<close>

lemma recv_send:
  assumes "length (data p) = SHAM_DATA_SIZE" "length (data old) = SHAM_DATA_SIZE" "n \<le> SHAM_DATA_SIZE"
  shows "recv_packet old (Datagram (send_packet p n)) =
    (Received n, \<lparr>header = header p, data = take n (data p) @ drop n (data old)\<rparr>)"
proof -
  have len: "length (send_packet p n) = SHAM_HEADER_SIZE + n"
    using assms by (simp add: send_packet_split)
  then have "take SHAM_PACKET_SIZE (send_packet p n) = send_packet p n"
    using assms(3) by (simp add: SHAM_PACKET_SIZE_def)
  moreover have "drop (SHAM_HEADER_SIZE + n) (packet_bytes old) = drop n (data old)"
    by (simp add: packet_bytes_split)
  ultimately show ?thesis
    using len by (simp add: recv_packet_def Let_def send_packet_split bytes_packet_header)
qed

lemma length_make_packet [simp]:
  "length d \<le> SHAM_DATA_SIZE \<Longrightarrow> length (data (make_packet s a f w d)) = SHAM_DATA_SIZE"
  by (simp add: make_packet_def)

lemma length_zero_packet [simp]: "length (data zero_packet) = SHAM_DATA_SIZE"
  by (simp add: zero_packet_def)

lemma recv_packet_length [lens]:
  "length (data pkt) = SHAM_DATA_SIZE \<Longrightarrow> length (data (snd (recv_packet pkt r))) = SHAM_DATA_SIZE"
  by (cases r) (auto simp: recv_packet_def Let_def bytes_packet_def lens SHAM_PACKET_SIZE_def
      SHAM_HEADER_SIZE_def min_def)

text \<open>
  C37. What one side sends is what the other receives: the four header fields and the payload of a
  packet survive the conversion to bytes and back for every value of the fields, and the receiver
  learns the length of the payload.
\<close>

theorem packet_roundtrip:
  assumes "length payload \<le> SHAM_DATA_SIZE" "length (data old) = SHAM_DATA_SIZE"
  shows "\<exists>pkt. recv_packet old (Datagram (send_packet (make_packet s a f w payload) (length payload))) =
      (Received (length payload), pkt) \<and>
    header pkt = \<lparr>seq_num = s, ack_num = a, flags = f, window_size = w\<rparr> \<and>
    take (length payload) (data pkt) = payload"
  using assms by (subst recv_send) (simp_all add: make_packet_def)

theorem packet_roundtrip_witness:
  "\<exists>pkt. recv_packet zero_packet (Datagram (send_packet (make_packet 101 0 SHAM_ACK 65535 [7, 8]) 2)) =
     (Received 2, pkt) \<and> seq_num (header pkt) = 101 \<and> take 2 (data pkt) = [7, 8]"
  using packet_roundtrip [of "[7, 8]" zero_packet 101 0 SHAM_ACK 65535]
  by (force simp: SHAM_DATA_SIZE_def numeral_2_eq_2)

end
