(* ===== verification/ShamServer.thy ===== *)
theory ShamServer
  imports Complex_Main ShamPacket "HOL-Library.Sublist"
begin

text \<open>
  \<open>networking/server.c\<close>: the receiver of the S.H.A.M. protocol. Its input is the list of results of
  its successive \<open>recvfrom\<close> calls, each with the number \<open>rand () / RAND_MAX\<close> the simulated loss draws;
  its output is the list of datagrams it sends. A packet buffer on the stack starts with arbitrary
  contents in C; every field is read only after a receive has set it, and the model starts it with
  zeros. A datagram that \<open>sendto\<close> fails to send is one the network loses. \<open>log_event\<close> and the file
  it writes are not modelled.
\<close>

section \<open>State\<close>

definition RECV_BUFFER :: nat where "RECV_BUFFER = 10 * 1024 * 1024"

record server =
  recv_buffer :: "byte list"
  next_expected_seq :: "32 word"
  receiver_window :: "16 word"
  s_sent :: "byte list list"

definition server_start :: server where
  "server_start = \<lparr>recv_buffer = [], next_expected_seq = 0, receiver_window = 65535, s_sent = []\<rparr>"

definition s_send :: "sham_packet \<Rightarrow> nat \<Rightarrow> server \<Rightarrow> server" where
  "s_send p n sv = sv\<lparr>s_sent := s_sent sv @ [send_packet p n]\<rparr>"

definition should_drop_packet :: "real \<Rightarrow> real \<Rightarrow> bool" where
  "should_drop_packet loss_rate rand_val = (if loss_rate \<le> 0 then False else rand_val < loss_rate)"

section \<open>Handshake\<close>

text \<open>Receive until something other than a timeout comes; \<open>None\<close> while it still waits.\<close>

fun recv_wait :: "sham_packet \<Rightarrow> received list \<Rightarrow> (recv_result \<times> sham_packet \<times> received list) option" where
  "recv_wait pkt [] = None"
| "recv_wait pkt (r # rs) =
     (case recv_packet pkt r of
        (Nothing, pkt) \<Rightarrow> recv_wait pkt rs
      | (res, pkt) \<Rightarrow> Some (res, pkt, rs))"

text \<open>\<open>Some (0, _)\<close> is success, \<open>Some (-1, _)\<close> failure, \<open>None\<close> still waiting.\<close>

definition handle_handshake :: "received list \<Rightarrow> server \<Rightarrow> (int \<times> server) option" where
  "handle_handshake rs sv =
     (case recv_wait zero_packet rs of
        None \<Rightarrow> None
      | Some (Received n, pkt, rs) \<Rightarrow>
          if \<not> has_flag pkt SHAM_SYN then Some (-1, sv)
          else
            let client_seq = seq_num (header pkt);
                pkt = make_packet 5000 (client_seq + 1) (SHAM_SYN OR SHAM_ACK) (receiver_window sv) [];
                sv = s_send pkt 0 sv
            in (case recv_wait pkt rs of
                  None \<Rightarrow> None
                | Some (Received n, pkt, rs) \<Rightarrow>
                    if \<not> has_flag pkt SHAM_ACK then Some (-1, sv)
                    else Some (0, sv\<lparr>next_expected_seq := seq_num (header pkt)\<rparr>)
                | Some (_, pkt, rs) \<Rightarrow> Some (-1, sv))
      | Some (_, pkt, rs) \<Rightarrow> Some (-1, sv))"

section \<open>Data transfer\<close>

definition ack_packet :: "32 word \<Rightarrow> server \<Rightarrow> sham_packet" where
  "ack_packet a sv = make_packet 0 a SHAM_ACK (receiver_window sv) []"

text \<open>
  One iteration of the receive loop. \<open>Overrun\<close> is a \<open>memcpy\<close> past the end of \<open>recv_buffer\<close>, which
  nothing in the code prevents. After a FIN the loop receives once more and ignores the result.
\<close>

datatype transfer = Running sham_packet server | Finished server | Overrun

definition handle_fin :: "sham_packet \<Rightarrow> server \<Rightarrow> server" where
  "handle_fin pkt sv =
     (let sv = s_send (ack_packet (seq_num (header pkt) + 1) sv) 0 sv
      in s_send (make_packet (next_expected_seq sv) 0 SHAM_FIN (receiver_window sv) []) 0 sv)"

definition server_step :: "real \<Rightarrow> received \<times> real \<Rightarrow> sham_packet \<Rightarrow> server \<Rightarrow> transfer" where
  "server_step loss_rate ev pkt sv =
     (case recv_packet pkt (fst ev) of
        (Nothing, pkt) \<Rightarrow> Running pkt sv
      | (Invalid, pkt) \<Rightarrow> Finished sv
      | (Received data_len, pkt) \<Rightarrow>
          if has_flag pkt SHAM_FIN then Finished (handle_fin pkt sv)
          else if should_drop_packet loss_rate (snd ev) \<and> data_len > 0 then Running pkt sv
          else if data_len > 0 \<and> seq_num (header pkt) = next_expected_seq sv then
            if length (recv_buffer sv) + data_len > RECV_BUFFER then Overrun
            else
              let sv = sv\<lparr>recv_buffer := recv_buffer sv @ take data_len (data pkt),
                    next_expected_seq := next_expected_seq sv + of_nat data_len\<rparr>
              in Running pkt (s_send (ack_packet (next_expected_seq sv) sv) 0 sv)
          else Running pkt sv)"

fun handle_data_transfer :: "real \<Rightarrow> (received \<times> real) list \<Rightarrow> sham_packet \<Rightarrow> server \<Rightarrow> transfer" where
  "handle_data_transfer loss_rate [] pkt sv = Running pkt sv"
| "handle_data_transfer loss_rate (ev # evs) pkt sv =
     (case server_step loss_rate ev pkt sv of
        Running pkt sv \<Rightarrow> handle_data_transfer loss_rate evs pkt sv
      | r \<Rightarrow> r)"

text \<open>
  After the loop: the file that is written and the digest that is printed; \<open>md5\<close> is the function
  of the OpenSSL library.
\<close>

definition write_file :: "(byte list \<Rightarrow> byte list) \<Rightarrow> server \<Rightarrow> (string \<times> byte list \<times> byte list) option" where
  "write_file md5 sv =
     (if recv_buffer sv \<noteq> [] then Some (''received_file'', recv_buffer sv, md5 (recv_buffer sv))
      else None)"

section \<open>Chat mode\<close>

text \<open>
  One round of \<open>handle_chat_mode\<close>: \<open>select\<close> failed (\<open>None\<close>), or says which of the two inputs are
  ready, with the line or the end of file read from the one and the result of receiving from the
  other. The text the peer sent is printed. The boolean says that the loop goes on.
\<close>

record chat_input =
  typed :: "byte list option option"
  arrived :: "received option"

definition is_quit :: "byte list \<Rightarrow> bool" where
  "is_quit line \<longleftrightarrow> take 5 line = [47, 113, 117, 105, 116]"

definition chat_receive :: "sham_packet \<Rightarrow> received \<Rightarrow> bool \<times> byte list list \<times> sham_packet" where
  "chat_receive pkt r =
     (case recv_packet pkt r of
        (Received n, pkt) \<Rightarrow>
          if has_flag pkt SHAM_FIN then (False, [], pkt)
          else (True, if n > 0 then [take n (data pkt)] else [], pkt)
      | (_, pkt) \<Rightarrow> (True, [], pkt))"

definition chat_round :: "chat_input option \<Rightarrow> sham_packet \<times> server \<Rightarrow>
    bool \<times> byte list list \<times> sham_packet \<times> server" where
  "chat_round inp ps =
     (let (pkt, sv) = ps in
      case inp of
        None \<Rightarrow> (False, [], pkt, sv)
      | Some i \<Rightarrow>
          let (go_on, pkt, sv) =
            (case typed i of
               Some (Some line) \<Rightarrow>
                 if is_quit line then
                   let pkt = make_packet (next_expected_seq sv) 0 SHAM_FIN 0 []
                   in (False, pkt, s_send pkt 0 sv)
                 else
                   let pkt = make_packet (next_expected_seq sv) 0 0 0 line;
                       sv = s_send pkt (length line) sv
                   in (True, pkt, sv\<lparr>next_expected_seq := next_expected_seq sv + of_nat (length line)\<rparr>)
             | _ \<Rightarrow> (True, pkt, sv))
          in if \<not> go_on then (False, [], pkt, sv)
             else (case arrived i of
                     None \<Rightarrow> (True, [], pkt, sv)
                   | Some r \<Rightarrow> (case chat_receive pkt r of (go_on, printed, pkt) \<Rightarrow>
                       (go_on, printed, pkt, sv))))"

section \<open>Segments of a file\<close>

text \<open>
  Segment \<open>i\<close> of a file \<open>F\<close>: its payload is the \<open>i\<close>th block of \<open>SHAM_DATA_SIZE\<close> bytes, its
  sequence number the position of the block, counted from \<open>isn\<close>.
\<close>

definition payload :: "byte list \<Rightarrow> nat \<Rightarrow> byte list" where
  "payload F i = take SHAM_DATA_SIZE (drop (SHAM_DATA_SIZE * i) F)"

definition segment_packet :: "byte list \<Rightarrow> 32 word \<Rightarrow> nat \<Rightarrow> sham_packet" where
  "segment_packet F isn i = make_packet (isn + of_nat (SHAM_DATA_SIZE * i)) 0 0 65535 (payload F i)"

definition segment :: "byte list \<Rightarrow> 32 word \<Rightarrow> nat \<Rightarrow> byte list" where
  "segment F isn i = send_packet (segment_packet F isn i) (length (payload F i))"

definition segments :: "byte list \<Rightarrow> nat" where
  "segments F = (length F + SHAM_DATA_SIZE - 1) div SHAM_DATA_SIZE"

lemma segments_iff: "i < segments F \<longleftrightarrow> SHAM_DATA_SIZE * i < length F"
  by (simp add: segments_def SHAM_DATA_SIZE_def less_eq_div_iff_mult_less_eq Suc_le_eq [symmetric]
      mult.commute)

text \<open>What the first \<open>k\<close> segments hold.\<close>

definition received_upto :: "byte list \<Rightarrow> nat \<Rightarrow> byte list" where
  "received_upto F k = take (SHAM_DATA_SIZE * k) F"

lemma received_upto_Suc: "received_upto F k @ payload F k = received_upto F (Suc k)"
  by (simp add: received_upto_def payload_def take_add [symmetric] add.commute)

lemma received_upto_all: "segments F \<le> k \<Longrightarrow> received_upto F k = F"
  using segments_iff [of k F] by (simp add: received_upto_def)

lemma length_payload_le: "length (payload F i) \<le> SHAM_DATA_SIZE"
  by (simp add: payload_def)

lemma payload_pos: "i < segments F \<Longrightarrow> 0 < length (payload F i)"
  by (simp add: segments_iff payload_def SHAM_DATA_SIZE_def)

lemma length_received_upto_Suc:
  "length (received_upto F (Suc k)) = length (received_upto F k) + length (payload F k)"
  by (simp add: received_upto_Suc [symmetric])

lemma length_received_upto:
  "k \<le> segments F \<Longrightarrow> i < segments F \<Longrightarrow>
     of_nat (length (received_upto F k)) = (of_nat (SHAM_DATA_SIZE * i) :: 32 word) \<Longrightarrow>
     length F < 2 ^ 32 \<Longrightarrow> i = k"
proof -
  assume k: "k \<le> segments F" and i: "i < segments F" and F: "length F < 2 ^ 32"
    and eq: "of_nat (length (received_upto F k)) = (of_nat (SHAM_DATA_SIZE * i) :: 32 word)"
  have len: "length (received_upto F k) = min (SHAM_DATA_SIZE * k) (length F)"
    by (simp add: received_upto_def min.commute)
  have i': "SHAM_DATA_SIZE * i < length F" using i segments_iff by simp
  have "length (received_upto F k) = SHAM_DATA_SIZE * i"
    by (rule seq_inj) (use eq F len i' in \<open>simp_all add: min_less_iff_disj del: of_nat_mult\<close>)
  then show "i = k" using len i' by (simp add: SHAM_DATA_SIZE_def min_def split: if_splits)
qed

text \<open>The acknowledgement for the first \<open>k\<close> segments.\<close>

definition ack_datagram :: "byte list \<Rightarrow> 32 word \<Rightarrow> nat \<Rightarrow> byte list" where
  "ack_datagram F isn k =
     send_packet (make_packet 0 (isn + of_nat (length (received_upto F k))) SHAM_ACK 65535 []) 0"

section \<open>The receiver's invariant\<close>

text \<open>After accepting \<open>k\<close> segments the server holds exactly those and has sent one ACK for each.\<close>

definition holds_segments :: "byte list \<Rightarrow> 32 word \<Rightarrow> byte list list \<Rightarrow> nat \<Rightarrow> server \<Rightarrow> bool" where
  "holds_segments F isn before k sv \<longleftrightarrow>
     k \<le> segments F \<and> recv_buffer sv = received_upto F k \<and>
     next_expected_seq sv = isn + of_nat (length (received_upto F k)) \<and>
     receiver_window sv = 65535 \<and>
     s_sent sv = before @ map (\<lambda>j. ack_datagram F isn (Suc j)) [0..<k]"

definition genuine :: "byte list \<Rightarrow> 32 word \<Rightarrow> received \<Rightarrow> bool" where
  "genuine F isn r \<longleftrightarrow> r = Timeout \<or> (\<exists>i < segments F. r = Datagram (segment F isn i))"

lemma recv_segment:
  assumes "length (data pkt) = SHAM_DATA_SIZE"
  shows "\<exists>pkt'. recv_packet pkt (Datagram (segment F isn i)) = (Received (length (payload F i)), pkt') \<and>
    header pkt' = header (segment_packet F isn i) \<and> take (length (payload F i)) (data pkt') = payload F i \<and>
    length (data pkt') = SHAM_DATA_SIZE"
  using length_payload_le [of F i] assms unfolding segment_def
  by (subst recv_send) (simp_all add: segment_packet_def make_packet_def)

lemma server_step_segment:
  assumes "holds_segments F isn before k sv" "length F \<le> RECV_BUFFER" "i < segments F"
    and "length (data pkt) = SHAM_DATA_SIZE"
  shows "\<exists>pkt' sv'. server_step loss (Datagram (segment F isn i), rnd) pkt sv = Running pkt' sv' \<and>
    length (data pkt') = SHAM_DATA_SIZE \<and>
    holds_segments F isn before (if i = k \<and> \<not> should_drop_packet loss rnd then Suc k else k) sv'"
proof -
  obtain pkt' where pkt': "recv_packet pkt (Datagram (segment F isn i)) = (Received (length (payload F i)), pkt')"
    "header pkt' = header (segment_packet F isn i)"
    "take (length (payload F i)) (data pkt') = payload F i" "length (data pkt') = SHAM_DATA_SIZE"
    using recv_segment [OF assms(4)] by blast
  have hdr: "\<not> has_flag pkt' SHAM_FIN" "seq_num (header pkt') = isn + of_nat (SHAM_DATA_SIZE * i)"
    by (simp_all add: pkt'(2) has_flag_def segment_packet_def make_packet_def SHAM_FIN_def)
  note inv = assms(1) [unfolded holds_segments_def]
  have small: "length F < 2 ^ 32" using assms(2) by (simp add: RECV_BUFFER_def)
  have expected: "seq_num (header pkt') = next_expected_seq sv \<longleftrightarrow> i = k"
  proof
    assume "seq_num (header pkt') = next_expected_seq sv"
    then show "i = k"
      using length_received_upto [of k F i] inv assms(3) small by (simp add: hdr(2))
  next
    assume "i = k"
    then show "seq_num (header pkt') = next_expected_seq sv"
      using inv assms(3) by (simp add: hdr(2) received_upto_def segments_iff min_def)
  qed
  have room: "length (received_upto F k) + length (payload F k) \<le> RECV_BUFFER"
  proof -
    have "length (received_upto F (Suc k)) \<le> length F" by (simp add: received_upto_def)
    then show ?thesis using assms(2) by (simp add: length_received_upto_Suc)
  qed
  have pos: "0 < length (payload F i)" using payload_pos [OF assms(3)] .
  show ?thesis
  proof (cases "i = k \<and> \<not> should_drop_packet loss rnd")
    case True
    then have "i = k" by simp
    then show ?thesis
      using True pkt' hdr(1) inv room pos assms(3) expected
      by (simp add: server_step_def Let_def s_send_def ack_packet_def holds_segments_def
          received_upto_Suc length_received_upto_Suc ack_datagram_def Suc_le_eq add.assoc)
  next
    case False
    then show ?thesis
      using pkt' hdr(1) expected assms(1) pos by (auto simp: server_step_def)
  qed
qed

lemma segment_inj:
  assumes "i < segments F" "k < segments F" "length F \<le> RECV_BUFFER"
  shows "segment F isn i = segment F isn k \<longleftrightarrow> i = k"
proof
  assume eq: "segment F isn i = segment F isn k"
  obtain p q where "recv_packet zero_packet (Datagram (segment F isn i)) = (Received (length (payload F i)), p)"
    "header p = header (segment_packet F isn i)"
    "recv_packet zero_packet (Datagram (segment F isn k)) = (Received (length (payload F k)), q)"
    "header q = header (segment_packet F isn k)"
    using recv_segment [of zero_packet F isn i] recv_segment [of zero_packet F isn k] by auto
  with eq have eq: "of_nat (SHAM_DATA_SIZE * i) = (of_nat (SHAM_DATA_SIZE * k) :: 32 word)"
    by (simp add: segment_packet_def make_packet_def)
  have "SHAM_DATA_SIZE * i = SHAM_DATA_SIZE * k"
    by (rule seq_inj [OF _ _ eq]) (use assms in \<open>simp_all add: segments_iff RECV_BUFFER_def\<close>)
  then show "i = k" by (simp add: SHAM_DATA_SIZE_def)
qed simp

lemma server_step_genuine:
  assumes "holds_segments F isn before k sv" "length F \<le> RECV_BUFFER" "genuine F isn (fst ev)"
    and "length (data pkt) = SHAM_DATA_SIZE"
  shows "\<exists>pkt' sv'. server_step loss ev pkt sv = Running pkt' sv' \<and>
    length (data pkt') = SHAM_DATA_SIZE \<and>
    holds_segments F isn before
      (if fst ev = Datagram (segment F isn k) \<and> k < segments F \<and> \<not> should_drop_packet loss (snd ev)
       then Suc k else k) sv'"
proof (cases "fst ev = Timeout")
  case True
  then show ?thesis using assms by (simp add: server_step_def recv_packet_def)
next
  case False
  then obtain i where i: "i < segments F" "fst ev = Datagram (segment F isn i)"
    using assms(3) by (auto simp: genuine_def)
  have inj: "segment F isn i = segment F isn k \<longleftrightarrow> i = k" if "k < segments F"
    using segment_inj [OF i(1) that assms(2)] .
  have "ev = (Datagram (segment F isn i), snd ev)" using i(2) by (simp add: prod_eq_iff)
  then show ?thesis
    using server_step_segment [OF assms(1,2) i(1) assms(4), of loss "snd ev"] inj i
    by (cases "k < segments F") (auto split: if_splits)
qed

lemma transfer_holds:
  assumes "length F \<le> RECV_BUFFER"
  shows "holds_segments F isn before k sv \<Longrightarrow> length (data pkt) = SHAM_DATA_SIZE \<Longrightarrow>
     \<forall>ev \<in> set evs. genuine F isn (fst ev) \<Longrightarrow>
     \<exists>pkt' sv' k'. handle_data_transfer loss evs pkt sv = Running pkt' sv' \<and>
       holds_segments F isn before k' sv' \<and>
       (subseq (map (segment F isn) [k..<segments F])
          (map (\<lambda>ev. case fst ev of Datagram d \<Rightarrow> d | _ \<Rightarrow> [])
             (filter (\<lambda>ev. \<not> should_drop_packet loss (snd ev) \<and> fst ev \<noteq> Timeout) evs)) \<longrightarrow>
        k' = segments F)"
proof (induction evs arbitrary: k sv pkt)
  case Nil
  then show ?case
    by (intro exI [of _ pkt] exI [of _ sv] exI [of _ k])
      (auto simp: holds_segments_def dest!: list_emb_length)
next
  case (Cons ev evs)
  let ?ok = "\<lambda>ev. \<not> should_drop_packet loss (snd ev) \<and> fst ev \<noteq> Timeout"
  let ?d = "\<lambda>ev. case fst ev of Datagram d \<Rightarrow> d | _ \<Rightarrow> []"
  let ?k = "if fst ev = Datagram (segment F isn k) \<and> k < segments F \<and> \<not> should_drop_packet loss (snd ev)
       then Suc k else k"
  obtain pkt' sv' where step: "server_step loss ev pkt sv = Running pkt' sv'"
    "length (data pkt') = SHAM_DATA_SIZE" "holds_segments F isn before ?k sv'"
    using server_step_genuine [OF Cons.prems(1) assms _ Cons.prems(2), of ev loss] Cons.prems(3) by auto
  have "subseq (map (segment F isn) [?k..<segments F]) (map ?d (filter ?ok evs))"
    if sub: "subseq (map (segment F isn) [k..<segments F]) (map ?d (filter ?ok (ev # evs)))"
  proof (cases "k < segments F")
    case True
    then have upt: "[k..<segments F] = k # [Suc k..<segments F]" by (rule upt_conv_Cons)
    show ?thesis
    proof (cases "?ok ev \<and> ?d ev = segment F isn k")
      case hit: True
      have "genuine F isn (fst ev)" using Cons.prems(3) by simp
      with hit have "fst ev = Datagram (segment F isn k)" by (auto simp: genuine_def)
      then show ?thesis using sub hit True by (auto simp: upt)
    next
      case False
      then have "\<not> (fst ev = Datagram (segment F isn k) \<and> \<not> should_drop_packet loss (snd ev))" by auto
      then show ?thesis using sub False by (cases "?ok ev") (auto simp: upt)
    qed
  next
    case False
    then show ?thesis by simp
  qed
  moreover obtain p s k' where "handle_data_transfer loss evs pkt' sv' = Running p s"
    "holds_segments F isn before k' s"
    "subseq (map (segment F isn) [?k..<segments F]) (map ?d (filter ?ok evs)) \<longrightarrow> k' = segments F"
    using Cons.IH [OF step(3,2)] Cons.prems(3) by auto
  ultimately show ?case
    using step(1) by (intro exI [of _ p] exI [of _ s] exI [of _ k']) simp
qed

text \<open>
  C29. The receiver assembles the file: from the segments of one file, in whatever order, with
  repetitions, losses, timeouts and simulated drops, it always holds exactly the file's first
  segments and has acknowledged each of them once, in order; and when the segments arrive at least
  once in order (other segments in between do not matter) it holds the whole file.
\<close>

theorem receiver_assembles_file:
  assumes "length F \<le> 10485760" and "\<forall>ev \<in> set evs. genuine F isn (fst ev)"
  shows "\<exists>pkt sv k. handle_data_transfer loss evs zero_packet
        (server_start\<lparr>next_expected_seq := isn\<rparr>) = Running pkt sv \<and>
      recv_buffer sv = take (1024 * k) F \<and>
      next_expected_seq sv = isn + of_nat (length (recv_buffer sv)) \<and>
      s_sent sv = map (\<lambda>j. ack_datagram F isn (Suc j)) [0..<k] \<and>
      (subseq (map (segment F isn) [0..<segments F])
         (map (\<lambda>ev. case fst ev of Datagram d \<Rightarrow> d | _ \<Rightarrow> [])
            (filter (\<lambda>ev. \<not> should_drop_packet loss (snd ev) \<and> fst ev \<noteq> Timeout) evs)) \<longrightarrow>
       recv_buffer sv = F)"
proof -
  have "length F \<le> RECV_BUFFER" using assms(1) by (simp add: RECV_BUFFER_def)
  moreover have "holds_segments F isn [] 0 (server_start\<lparr>next_expected_seq := isn\<rparr>)"
    by (simp add: holds_segments_def server_start_def received_upto_def)
  ultimately obtain pkt sv k where run: "handle_data_transfer loss evs zero_packet
        (server_start\<lparr>next_expected_seq := isn\<rparr>) = Running pkt sv" "holds_segments F isn [] k sv"
      "subseq (map (segment F isn) [0..<segments F])
         (map (\<lambda>ev. case fst ev of Datagram d \<Rightarrow> d | _ \<Rightarrow> [])
            (filter (\<lambda>ev. \<not> should_drop_packet loss (snd ev) \<and> fst ev \<noteq> Timeout) evs)) \<longrightarrow>
       k = segments F"
    using transfer_holds [OF _ _ length_zero_packet assms(2)] by blast
  then show ?thesis
    using received_upto_all [of F k]
    by (intro exI [of _ pkt] exI [of _ sv] exI [of _ k])
      (auto simp: holds_segments_def received_upto_def SHAM_DATA_SIZE_def)
qed

theorem receiver_assembles_file_witness:
  "\<exists>pkt sv. handle_data_transfer 0 [(Timeout, 0), (Datagram (segment [1, 2, 3] 101 0), 0)] zero_packet
      (server_start\<lparr>next_expected_seq := 101\<rparr>) = Running pkt sv \<and> recv_buffer sv = [1, 2, 3]"
proof -
  have "segments [1, 2, 3 :: byte] = 1" by (simp add: segments_def SHAM_DATA_SIZE_def)
  then show ?thesis
    using receiver_assembles_file [of "[1, 2, 3]"
        "[(Timeout, 0), (Datagram (segment [1, 2, 3] 101 0), 0)]" 101 0]
    by (auto simp: genuine_def should_drop_packet_def)
qed

text \<open>
  A segment that arrives again is not acknowledged again: nothing is sent and nothing changes.
  When the acknowledgement of a segment is lost the sender can only learn of its arrival from the
  acknowledgement of a later one.
\<close>

theorem duplicate_not_acknowledged:
  assumes "holds_segments F isn before k sv" "length F \<le> RECV_BUFFER" "i < k"
    and "length (data pkt) = SHAM_DATA_SIZE"
  shows "\<exists>pkt'. server_step loss (Datagram (segment F isn i), rnd) pkt sv = Running pkt' sv"
proof -
  have "i < segments F" using assms(1,3) by (simp add: holds_segments_def)
  then obtain pkt' where pkt': "recv_packet pkt (Datagram (segment F isn i)) = (Received (length (payload F i)), pkt')"
    "header pkt' = header (segment_packet F isn i)" using recv_segment [OF assms(4)] by blast
  have "seq_num (header pkt') \<noteq> next_expected_seq sv"
    using length_received_upto [of k F i] assms(1,2,3) \<open>i < segments F\<close>
    by (auto simp: pkt'(2) holds_segments_def segment_packet_def make_packet_def RECV_BUFFER_def)
  moreover have "\<not> has_flag pkt' SHAM_FIN"
    by (simp add: pkt'(2) has_flag_def segment_packet_def make_packet_def)
  ultimately show ?thesis using pkt'(1) by (simp add: server_step_def)
qed

theorem duplicate_not_acknowledged_witness:
  "\<exists>sv pkt'. holds_segments [7] 101 [] 1 sv \<and>
     server_step 0 (Datagram (segment [7] 101 0), 0) zero_packet sv = Running pkt' sv"
proof -
  let ?sv = "\<lparr>recv_buffer = [7], next_expected_seq = 102, receiver_window = 65535,
      s_sent = [ack_datagram [7] 101 1]\<rparr>"
  have h: "holds_segments [7] 101 [] 1 ?sv"
    by (simp add: holds_segments_def segments_def received_upto_def SHAM_DATA_SIZE_def)
  show ?thesis
    using duplicate_not_acknowledged [OF h, of 0 zero_packet 0 0] h
    by (auto simp: RECV_BUFFER_def)
qed

end
