(* ===== verification/ShamClient.thy ===== *)
theory ShamClient
  imports ShamServer
begin

text \<open>
  \<open>networking/client.c\<close>: the sender of the S.H.A.M. protocol. One round of \<open>send_file\<close> is given the
  clock when the window is filled, the result of the receive, and the clock when timeouts are
  checked; the clock is read once for each of the two phases. The rounds are a list: after the last
  one the sender is still at work. \<open>loss_rate\<close> is set from the command line and never used.
\<close>

section \<open>State\<close>

type_synonym timeval = "int \<times> int"

record slot =
  slot_packet :: sham_packet
  data_len :: nat
  send_time :: timeval
  retries :: nat
  acked :: bool

record client =
  window :: "slot list"
  window_base :: "32 word"
  next_seq_num :: "32 word"
  peer_window :: "16 word"
  file_rest :: "byte list"
  done_sending :: bool
  c_sent :: "byte list list"

definition zero_slot :: slot where
  "zero_slot = \<lparr>slot_packet = zero_packet, data_len = 0, send_time = (0, 0), retries = 0,
     acked = False\<rparr>"

definition client_start :: client where
  "client_start = \<lparr>window = replicate SHAM_WINDOW_SIZE zero_slot, window_base = 0, next_seq_num = 0,
     peer_window = 65535, file_rest = [], done_sending = False, c_sent = []\<rparr>"

definition c_send :: "sham_packet \<Rightarrow> nat \<Rightarrow> client \<Rightarrow> client" where
  "c_send p n cl = cl\<lparr>c_sent := c_sent cl @ [send_packet p n]\<rparr>"

text \<open>C's division truncates towards zero.\<close>

definition c_div :: "int \<Rightarrow> int \<Rightarrow> int" where
  "c_div a b = sgn a * (\<bar>a\<bar> div b)"

definition is_timeout :: "timeval \<Rightarrow> timeval \<Rightarrow> int \<Rightarrow> bool" where
  "is_timeout now sent_time timeout_ms \<longleftrightarrow>
     (fst now - fst sent_time) * 1000 + c_div (snd now - snd sent_time) 1000 \<ge> timeout_ms"

section \<open>Handshake\<close>

definition perform_handshake :: "received \<Rightarrow> client \<Rightarrow> int \<times> client" where
  "perform_handshake reply cl =
     (let initial_seq = 100;
          pkt = make_packet initial_seq 0 SHAM_SYN 65535 [];
          cl = c_send pkt 0 cl
      in case recv_packet pkt reply of
           (Received n, pkt) \<Rightarrow>
             if \<not> has_flag pkt SHAM_SYN \<or> \<not> has_flag pkt SHAM_ACK then (-1, cl)
             else
               let server_seq = seq_num (header pkt);
                   cl = cl\<lparr>peer_window := window_size (header pkt)\<rparr>;
                   cl = c_send (make_packet (initial_seq + 1) (server_seq + 1) SHAM_ACK 65535 []) 0 cl
               in (0, cl\<lparr>next_seq_num := initial_seq + 1, window_base := initial_seq + 1\<rparr>)
         | _ \<Rightarrow> (-1, cl))"

section \<open>Sending a file\<close>

definition slot_index :: "32 word \<Rightarrow> client \<Rightarrow> nat" where
  "slot_index s cl = (unat (s - window_base cl) div SHAM_DATA_SIZE) mod SHAM_WINDOW_SIZE"

definition send_chunk :: "timeval \<Rightarrow> byte list \<Rightarrow> client \<Rightarrow> client" where
  "send_chunk now buffer cl =
     (let win_idx = slot_index (next_seq_num cl) cl;
          pkt = make_packet (next_seq_num cl) 0 0 65535 buffer;
          cl = cl\<lparr>window := (window cl)[win_idx := \<lparr>slot_packet = pkt, data_len = length buffer,
                 send_time = now, retries = 0, acked = False\<rparr>]\<rparr>;
          cl = c_send pkt (length buffer) cl
      in cl\<lparr>next_seq_num := next_seq_num cl + of_nat (length buffer)\<rparr>)"

function fill_window :: "timeval \<Rightarrow> client \<Rightarrow> client" where
  "fill_window now cl =
     (if \<not> done_sending cl \<and>
         next_seq_num cl - window_base cl < of_nat (SHAM_WINDOW_SIZE * SHAM_DATA_SIZE) then
        let buffer = take SHAM_DATA_SIZE (file_rest cl) in
        if buffer = [] then cl\<lparr>done_sending := True\<rparr>
        else fill_window now
          (send_chunk now buffer (cl\<lparr>file_rest := drop SHAM_DATA_SIZE (file_rest cl)\<rparr>))
      else cl)"
  by pat_completeness auto
termination
  by (relation "measure (\<lambda>(now, cl). length (file_rest cl))")
    (auto simp: send_chunk_def c_send_def Let_def SHAM_DATA_SIZE_def)

declare fill_window.simps [simp del]

definition handle_ack :: "received \<Rightarrow> client \<Rightarrow> client" where
  "handle_ack reply cl =
     (case recv_packet zero_packet reply of
        (Received n, ack_pkt) \<Rightarrow>
          if has_flag ack_pkt SHAM_ACK then
            let cl = (if ack_num (header ack_pkt) > window_base cl
                      then cl\<lparr>window_base := ack_num (header ack_pkt)\<rparr> else cl)
            in cl\<lparr>peer_window := window_size (header ack_pkt)\<rparr>
          else cl
      | _ \<Rightarrow> cl)"

text \<open>The loop that retransmits; \<open>None\<close> when a packet has been sent too often.\<close>

fun retransmit :: "timeval \<Rightarrow> nat list \<Rightarrow> client \<Rightarrow> client option" where
  "retransmit now [] cl = Some cl"
| "retransmit now (i # is) cl =
     (let pkt_seq = window_base cl + of_nat (i * SHAM_DATA_SIZE) in
      if pkt_seq \<ge> next_seq_num cl then Some cl
      else if pkt_seq < window_base cl then retransmit now is cl
      else
        let win_idx = slot_index pkt_seq cl; w = window cl ! win_idx in
        if \<not> acked w \<and> is_timeout now (send_time w) SHAM_TIMEOUT_MS then
          if retries w \<ge> SHAM_MAX_RETRIES then None
          else
            let cl = c_send (slot_packet w) (data_len w) cl in
            retransmit now is
              (cl\<lparr>window := (window cl)[win_idx := w\<lparr>send_time := now, retries := retries w + 1\<rparr>]\<rparr>)
        else retransmit now is cl)"

record round =
  fill_at :: timeval
  reply :: received
  check_at :: timeval

definition send_round :: "round \<Rightarrow> client \<Rightarrow> client option" where
  "send_round r cl = retransmit (check_at r) [0..<SHAM_WINDOW_SIZE]
     (handle_ack (reply r) (fill_window (fill_at r) cl))"

datatype sending = Sending client | Sent client | GaveUp

definition all_acked :: "client \<Rightarrow> bool" where
  "all_acked cl \<longleftrightarrow> done_sending cl \<and> window_base cl \<ge> next_seq_num cl"

definition loop_again :: "nat \<Rightarrow> client \<Rightarrow> bool" where
  "loop_again file_size cl \<longleftrightarrow>
     window_base cl < next_seq_num cl + of_nat file_size \<or> \<not> done_sending cl"

fun send_rounds :: "nat \<Rightarrow> round list \<Rightarrow> client \<Rightarrow> sending" where
  "send_rounds file_size [] cl = (if loop_again file_size cl then Sending cl else Sent cl)"
| "send_rounds file_size (r # rs) cl =
     (if \<not> loop_again file_size cl then Sent cl
      else (case send_round r cl of
              None \<Rightarrow> GaveUp
            | Some cl \<Rightarrow> if all_acked cl then Sent cl else send_rounds file_size rs cl))"

definition begin_file :: "byte list \<Rightarrow> client \<Rightarrow> client" where
  "begin_file F cl =
     cl\<lparr>window := replicate SHAM_WINDOW_SIZE zero_slot, file_rest := F, done_sending := False\<rparr>"

definition send_file :: "byte list \<Rightarrow> round list \<Rightarrow> client \<Rightarrow> sending" where
  "send_file F rs cl = send_rounds (length F) rs (begin_file F cl)"

section \<open>Termination and chat\<close>

definition perform_termination :: "received \<Rightarrow> received \<Rightarrow> client \<Rightarrow> client" where
  "perform_termination r1 r2 cl =
     (let pkt = make_packet (next_seq_num cl) 0 SHAM_FIN 65535 [];
          cl = c_send pkt 0 cl;
          pkt = snd (recv_packet pkt r1);
          pkt = snd (recv_packet pkt r2);
          pkt = zero_packet;
          pkt = make_packet (seq_num (header pkt)) (seq_num (header pkt) + 1) SHAM_ACK 65535 []
      in c_send pkt 0 cl)"

text \<open>A round of the chat: as the server's, but leaving performs the termination.\<close>

definition client_chat_round :: "chat_input option \<Rightarrow> received \<times> received \<Rightarrow> sham_packet \<times> client \<Rightarrow>
    bool \<times> byte list list \<times> sham_packet \<times> client" where
  "client_chat_round inp replies ps =
     (let (pkt, cl) = ps in
      case inp of
        None \<Rightarrow> (False, [], pkt, cl)
      | Some i \<Rightarrow>
          let (go_on, pkt, cl) =
            (case typed i of
               Some (Some line) \<Rightarrow>
                 if is_quit line
                 then (False, pkt, perform_termination (fst replies) (snd replies) cl)
                 else
                   let pkt = make_packet (next_seq_num cl) 0 0 0 line;
                       cl = c_send pkt (length line) cl
                   in (True, pkt, cl\<lparr>next_seq_num := next_seq_num cl + of_nat (length line)\<rparr>)
             | _ \<Rightarrow> (True, pkt, cl))
          in if \<not> go_on then (False, [], pkt, cl)
             else (case arrived i of
                     None \<Rightarrow> (True, [], pkt, cl)
                   | Some r \<Rightarrow> (case chat_receive pkt r of (go_on, printed, pkt) \<Rightarrow>
                       (go_on, printed, pkt, cl))))"

section \<open>Everything sent is a segment of the file\<close>

definition ISN :: "32 word" where "ISN = 101"

text \<open>A slot is empty or holds one of the first \<open>n\<close> segments with its length.\<close>

definition slot_ok :: "byte list \<Rightarrow> nat \<Rightarrow> slot \<Rightarrow> bool" where
  "slot_ok F n s \<longleftrightarrow> (slot_packet s = zero_packet \<and> data_len s = 0) \<or>
     (\<exists>i < n. slot_packet s = segment_packet F ISN i \<and> data_len s = length (payload F i))"

definition sent_ok :: "byte list \<Rightarrow> byte list \<Rightarrow> bool" where
  "sent_ok F d \<longleftrightarrow> d = send_packet zero_packet 0 \<or> (\<exists>i < segments F. d = segment F ISN i)"

text \<open>The sender's invariant: \<open>n\<close> segments have been read from the file.\<close>

definition client_ok :: "byte list \<Rightarrow> byte list set \<Rightarrow> nat \<Rightarrow> client \<Rightarrow> bool" where
  "client_ok F before n cl \<longleftrightarrow>
     n \<le> segments F \<and> next_seq_num cl = ISN + of_nat (length (received_upto F n)) \<and>
     file_rest cl = drop (SHAM_DATA_SIZE * n) F \<and> (done_sending cl \<longrightarrow> file_rest cl = []) \<and>
     length (window cl) = SHAM_WINDOW_SIZE \<and> (\<forall>s \<in> set (window cl). slot_ok F n s) \<and>
     (\<forall>d \<in> set (c_sent cl). d \<in> before \<or> sent_ok F d)"

lemma slot_ok_mono: "slot_ok F n s \<Longrightarrow> n \<le> m \<Longrightarrow> slot_ok F m s"
  by (auto simp: slot_ok_def dest: less_le_trans)

lemma slot_index_less: "slot_index s cl < SHAM_WINDOW_SIZE"
  by (simp add: slot_index_def SHAM_WINDOW_SIZE_def)

lemma set_update_ball: "\<forall>x \<in> set xs. P x \<Longrightarrow> P y \<Longrightarrow> \<forall>x \<in> set (xs[i := y]). P x"
  using set_update_subset_insert [of xs i y] by auto

lemma send_chunk_ok:
  assumes "client_ok F before n cl" "take SHAM_DATA_SIZE (file_rest cl) \<noteq> []"
  shows "client_ok F before (Suc n) (send_chunk now (take SHAM_DATA_SIZE (file_rest cl))
    (cl\<lparr>file_rest := drop SHAM_DATA_SIZE (file_rest cl)\<rparr>))"
proof -
  note inv = assms(1) [unfolded client_ok_def]
  have p: "take SHAM_DATA_SIZE (file_rest cl) = payload F n"
    using inv by (simp add: payload_def)
  have n: "n < segments F" using assms(2) inv by (simp add: segments_iff)
  have notdone: "\<not> done_sending cl" using assms(2) inv by auto
  have seq: "next_seq_num cl = ISN + of_nat (SHAM_DATA_SIZE * n)"
  proof -
    have "length (received_upto F n) = SHAM_DATA_SIZE * n"
      using n by (simp add: received_upto_def segments_iff)
    then show ?thesis using inv by metis
  qed
  have pkt: "make_packet (next_seq_num cl) 0 0 65535 (payload F n) = segment_packet F ISN n"
    by (simp add: segment_packet_def seq)
  have "\<forall>s \<in> set (window cl). slot_ok F n s" using inv by simp
  then have old: "\<forall>s \<in> set (window cl). slot_ok F (Suc n) s"
    using slot_ok_mono [of F n _ "Suc n"] by simp
  have "slot_ok F (Suc n) \<lparr>slot_packet = segment_packet F ISN n, data_len = length (payload F n),
      send_time = now, retries = 0, acked = False\<rparr>" by (auto simp: slot_ok_def)
  with old have win: "\<forall>s \<in> set ((window cl)[i := \<lparr>slot_packet = segment_packet F ISN n,
      data_len = length (payload F n), send_time = now, retries = 0, acked = False\<rparr>]). slot_ok F (Suc n) s"
    for i by (rule set_update_ball)
  have sent: "sent_ok F (send_packet (segment_packet F ISN n) (length (payload F n)))"
    using n by (auto simp: sent_ok_def segment_def)
  let ?rest = "drop SHAM_DATA_SIZE (file_rest cl)"
  let ?p = "segment_packet F ISN n"
  have eq: "send_chunk now (payload F n) (cl\<lparr>file_rest := ?rest\<rparr>) =
      cl\<lparr>window := (window cl)[slot_index (next_seq_num cl) (cl\<lparr>file_rest := ?rest\<rparr>) := \<lparr>slot_packet = ?p,
          data_len = length (payload F n), send_time = now, retries = 0, acked = False\<rparr>],
        c_sent := c_sent cl @ [send_packet ?p (length (payload F n))], file_rest := ?rest,
        next_seq_num := next_seq_num cl + of_nat (length (payload F n))\<rparr>"
    by (simp add: send_chunk_def Let_def c_send_def pkt)
  have "next_seq_num cl + of_nat (length (payload F n)) =
      ISN + of_nat (length (received_upto F (Suc n)))"
    using inv by (simp add: length_received_upto_Suc)
  moreover have "?rest = drop (SHAM_DATA_SIZE * Suc n) F" using inv by (simp add: add.commute)
  ultimately show ?thesis
    using inv n win sent notdone unfolding p eq client_ok_def by (simp add: Suc_le_eq)
qed

lemma fill_window_ok:
  "client_ok F before n cl \<Longrightarrow> \<exists>m \<ge> n. client_ok F before m (fill_window now cl)"
proof (induction now cl arbitrary: n rule: fill_window.induct)
  case (1 now cl)
  let ?buffer = "take SHAM_DATA_SIZE (file_rest cl)"
  show ?case
  proof (cases "\<not> done_sending cl \<and>
      next_seq_num cl - window_base cl < of_nat (SHAM_WINDOW_SIZE * SHAM_DATA_SIZE)")
    case go: True
    show ?thesis
    proof (cases "?buffer = []")
      case True
      then have "fill_window now cl = cl\<lparr>done_sending := True\<rparr>"
        unfolding fill_window.simps [of now cl] using go by simp
      moreover have "file_rest cl = []" using True by (simp add: SHAM_DATA_SIZE_def)
      ultimately show ?thesis using "1.prems" by (auto simp: client_ok_def)
    next
      case False
      then have "fill_window now cl = fill_window now
          (send_chunk now ?buffer (cl\<lparr>file_rest := drop SHAM_DATA_SIZE (file_rest cl)\<rparr>))"
        unfolding fill_window.simps [of now cl] using go by simp
      then show ?thesis
        using "1.IH" [OF go refl False send_chunk_ok [OF "1.prems" False]] by (auto intro: Suc_leD)
    qed
  next
    case False
    then have "fill_window now cl = cl" unfolding fill_window.simps [of now cl] by (simp only: if_False)
    then show ?thesis using "1.prems" by auto
  qed
qed

lemma handle_ack_fields [simp]:
  "next_seq_num (handle_ack r cl) = next_seq_num cl" "file_rest (handle_ack r cl) = file_rest cl"
  "done_sending (handle_ack r cl) = done_sending cl" "window (handle_ack r cl) = window cl"
  "c_sent (handle_ack r cl) = c_sent cl"
  by (auto simp: handle_ack_def Let_def split: prod.split recv_result.split)

lemma handle_ack_ok: "client_ok F before n cl \<Longrightarrow> client_ok F before n (handle_ack r cl)"
  unfolding client_ok_def handle_ack_fields .

lemma retransmit_ok:
  "client_ok F before n cl \<Longrightarrow> retransmit now is cl = Some cl' \<Longrightarrow>
     client_ok F before n cl' \<and> window_base cl' = window_base cl"
proof (induction now "is" cl rule: retransmit.induct)
  case (2 now i "is" cl)
  define pkt_seq where "pkt_seq = window_base cl + of_nat (i * SHAM_DATA_SIZE)"
  define win_idx where "win_idx = slot_index pkt_seq cl"
  define w where "w = window cl ! win_idx"
  define cl1 where "cl1 = c_send (slot_packet w) (data_len w) cl"
  define cl2 where "cl2 = cl1\<lparr>window := (window cl1)[win_idx := w\<lparr>send_time := now, retries := retries w + 1\<rparr>]\<rparr>"
  note inv = "2.prems"(1) [unfolded client_ok_def]
  have w: "slot_ok F n w"
    using inv slot_index_less [of pkt_seq cl] by (simp add: w_def win_idx_def)
  have "sent_ok F (send_packet (slot_packet w) (data_len w))"
    using w inv by (auto simp: slot_ok_def sent_ok_def segment_def dest: less_le_trans)
  moreover have "slot_ok F n (w\<lparr>send_time := now, retries := retries w + 1\<rparr>)"
    using w by (simp add: slot_ok_def)
  then have "\<forall>s \<in> set ((window cl)[win_idx := w\<lparr>send_time := now, retries := retries w + 1\<rparr>]). slot_ok F n s"
    using inv by (intro set_update_ball) auto
  ultimately have cl2: "client_ok F before n cl2" "window_base cl2 = window_base cl"
    using inv by (auto simp: client_ok_def cl2_def cl1_def c_send_def)
  note IH = "2.IH" [OF pkt_seq_def]
  have eq: "retransmit now (i # is) cl =
      (if pkt_seq \<ge> next_seq_num cl then Some cl
       else if pkt_seq < window_base cl then retransmit now is cl
       else if \<not> acked w \<and> is_timeout now (send_time w) SHAM_TIMEOUT_MS then
         if retries w \<ge> SHAM_MAX_RETRIES then None else retransmit now is cl2
       else retransmit now is cl)"
    by (simp only: retransmit.simps Let_def pkt_seq_def win_idx_def w_def cl1_def cl2_def)
  consider "pkt_seq \<ge> next_seq_num cl" | "\<not> pkt_seq \<ge> next_seq_num cl" "pkt_seq < window_base cl"
    | "\<not> pkt_seq \<ge> next_seq_num cl" "\<not> pkt_seq < window_base cl"
      "\<not> acked w \<and> is_timeout now (send_time w) SHAM_TIMEOUT_MS"
    | "\<not> pkt_seq \<ge> next_seq_num cl" "\<not> pkt_seq < window_base cl"
      "\<not> (\<not> acked w \<and> is_timeout now (send_time w) SHAM_TIMEOUT_MS)" by blast
  then show ?case
  proof cases
    case 1
    then show ?thesis using "2.prems" eq by simp
  next
    case 2
    then have "retransmit now (i # is) cl = retransmit now is cl" using eq by simp
    then show ?thesis using IH(1) [OF 2 \<open>client_ok F before n cl\<close>] "2.prems" by simp
  next
    case 3
    then have eq: "retransmit now (i # is) cl =
        (if retries w \<ge> SHAM_MAX_RETRIES then None else retransmit now is cl2)"
      using eq by simp
    then have "\<not> retries w \<ge> SHAM_MAX_RETRIES" using "2.prems"(2) by (auto split: if_splits)
    moreover from this eq have "retransmit now is cl2 = Some cl'" using "2.prems"(2) by simp
    ultimately show ?thesis
      using IH(2) [OF 3(1,2) win_idx_def w_def 3(3) _ cl1_def] cl2 unfolding cl2_def by simp
  next
    case 4
    then have "retransmit now (i # is) cl = retransmit now is cl" using eq by auto
    then show ?thesis using IH(3) [OF 4(1,2) win_idx_def w_def 4(3) \<open>client_ok F before n cl\<close>] "2.prems" by simp
  qed
qed simp

lemma send_round_ok:
  assumes "client_ok F before n cl" "send_round r cl = Some cl'"
  shows "\<exists>m \<ge> n. client_ok F before m cl'"
proof -
  obtain m where "m \<ge> n" "client_ok F before m (fill_window (fill_at r) cl)"
    using fill_window_ok [OF assms(1)] by blast
  then show ?thesis
    using retransmit_ok [OF handle_ack_ok] assms(2) unfolding send_round_def by blast
qed

end
