(* ===== verification/ShamTransfer.thy ===== *)
theory ShamTransfer
  imports ShamClient
begin

text \<open>
  Client and server together: the handshake, and a step relation in which the network may lose,
  delay, repeat and reorder whatever either side has sent. The properties that need both programs
  are here, with the places where the protocol does not do what it should.
\<close>

section \<open>Handshake\<close>

lemma has_flag_make [simp]: "has_flag (make_packet s a f w d) g \<longleftrightarrow> f AND g \<noteq> 0"
  by (simp add: has_flag_def make_packet_def)

lemma header_make [simp]:
  "header (make_packet s a f w d) = \<lparr>seq_num = s, ack_num = a, flags = f, window_size = w\<rparr>"
  by (simp add: make_packet_def)

lemma has_flag_header: "header p = header q \<Longrightarrow> has_flag p f = has_flag q f"
  by (simp add: has_flag_def)

lemma recv_control:
  assumes "length (data old) = SHAM_DATA_SIZE"
  shows "recv_packet old (Datagram (send_packet (make_packet s a f w []) 0)) =
    (Received 0, \<lparr>header = \<lparr>seq_num = s, ack_num = a, flags = f, window_size = w\<rparr>, data = data old\<rparr>)"
  using assms by (subst recv_send) simp_all

definition syn_packet :: sham_packet where
  "syn_packet = make_packet 100 0 SHAM_SYN 65535 []"

definition syn_ack_packet :: sham_packet where
  "syn_ack_packet = make_packet 5000 101 (SHAM_SYN OR SHAM_ACK) 65535 []"

definition hs_ack_packet :: sham_packet where
  "hs_ack_packet = make_packet 101 5001 SHAM_ACK 65535 []"

lemma client_handshake:
  "perform_handshake (Datagram (send_packet syn_ack_packet 0)) client_start =
     (0, client_start\<lparr>next_seq_num := ISN, window_base := ISN,
        c_sent := [send_packet syn_packet 0, send_packet hs_ack_packet 0]\<rparr>)"
  by (simp add: perform_handshake_def Let_def syn_ack_packet_def recv_control c_send_def
      client_start_def syn_packet_def hs_ack_packet_def ISN_def has_flag_def SHAM_SYN_def SHAM_ACK_def)

lemma server_handshake:
  "handle_handshake [Datagram (send_packet syn_packet 0), Datagram (send_packet hs_ack_packet 0)] server_start =
     Some (0, server_start\<lparr>next_expected_seq := ISN, s_sent := [send_packet syn_ack_packet 0]\<rparr>)"
  by (simp add: handle_handshake_def Let_def syn_packet_def hs_ack_packet_def recv_control s_send_def
      server_start_def syn_ack_packet_def ISN_def has_flag_def SHAM_SYN_def SHAM_ACK_def)

text \<open>
  The three-way handshake agrees on the sequence numbers: when nothing is lost, each side
  receiving what the other has sent, both report success, and the server expects exactly the
  sequence number the client's first byte will have.
\<close>

theorem handshake_agrees:
  "\<exists>cl sv. perform_handshake (Datagram (hd (s_sent sv))) client_start = (0, cl) \<and>
     handle_handshake (map Datagram (c_sent cl)) server_start = Some (0, sv) \<and>
     length (s_sent sv) = 1 \<and> length (c_sent cl) = 2 \<and>
     next_expected_seq sv = next_seq_num cl \<and> window_base cl = next_seq_num cl"
  using client_handshake server_handshake
  by (intro exI [of _ "client_start\<lparr>next_seq_num := ISN, window_base := ISN,
        c_sent := [send_packet syn_packet 0, send_packet hs_ack_packet 0]\<rparr>"]
      exI [of _ "server_start\<lparr>next_expected_seq := ISN, s_sent := [send_packet syn_ack_packet 0]\<rparr>"])
    simp

text \<open>
  The loss of the third message of the handshake is fatal: the client believes the connection
  open, and the first segment of the file makes the server report a failed handshake.
\<close>

theorem lost_handshake_ack_is_fatal:
  "\<exists>sv. handle_handshake (replicate m Timeout @ Datagram (send_packet syn_packet 0) # replicate n Timeout @
      [Datagram (segment F ISN i)]) server_start = Some (-1, sv)"
proof -
  have wait: "recv_wait pkt (replicate m Timeout @ rs) = recv_wait pkt rs" for m pkt rs
    by (induction m) (simp_all add: recv_packet_def)
  obtain pkt where pkt: "recv_packet syn_ack_packet (Datagram (segment F ISN i)) =
      (Received (length (payload F i)), pkt)" "header pkt = header (segment_packet F ISN i)"
    using recv_segment [of syn_ack_packet F ISN i] by (auto simp: syn_ack_packet_def)
  then have "\<not> has_flag pkt SHAM_ACK" by (simp add: has_flag_def segment_packet_def)
  then show ?thesis
    using pkt(1)
    by (simp add: handle_handshake_def wait syn_packet_def recv_control Let_def has_flag_def
        SHAM_SYN_def s_send_def server_start_def syn_ack_packet_def)
qed

section \<open>The transfer\<close>

definition connected_client :: "byte list \<Rightarrow> client" where
  "connected_client F =
     begin_file F (snd (perform_handshake (Datagram (send_packet syn_ack_packet 0)) client_start))"

definition connected_server :: server where
  "connected_server = server_start\<lparr>next_expected_seq := ISN, s_sent := [send_packet syn_ack_packet 0]\<rparr>"

text \<open>
  The states the two programs reach from a completed handshake. A receive gives nothing, an error,
  or any datagram the other side has sent so far, at any time and any number of times; \<open>rnd\<close>
  decides the simulated loss.
\<close>

inductive connected :: "real \<Rightarrow> byte list \<Rightarrow> client \<Rightarrow> sham_packet \<Rightarrow> server \<Rightarrow> bool"
  for loss :: real and F :: "byte list" where
  start: "length (data pkt) = SHAM_DATA_SIZE \<Longrightarrow>
    connected loss F (connected_client F) pkt connected_server"
| client_round: "connected loss F cl pkt sv \<Longrightarrow> \<not> all_acked cl \<Longrightarrow> loop_again (length F) cl \<Longrightarrow>
    reply r \<in> {Timeout, Failed} \<union> Datagram ` set (s_sent sv) \<Longrightarrow>
    send_round r cl = Some cl' \<Longrightarrow> connected loss F cl' pkt sv"
| server_receives: "connected loss F cl pkt sv \<Longrightarrow>
    r \<in> {Timeout} \<union> Datagram ` set (c_sent cl) \<Longrightarrow>
    server_step loss (r, rnd) pkt sv = Running pkt' sv' \<Longrightarrow> connected loss F cl pkt' sv'"

definition before_data :: "byte list set" where
  "before_data = {send_packet syn_packet 0, send_packet hs_ack_packet 0}"

definition joint_ok :: "byte list \<Rightarrow> nat \<Rightarrow> nat \<Rightarrow> client \<Rightarrow> sham_packet \<Rightarrow> server \<Rightarrow> bool" where
  "joint_ok F n k cl pkt sv \<longleftrightarrow>
     client_ok F before_data n cl \<and> holds_segments F ISN [send_packet syn_ack_packet 0] k sv \<and>
     unat (window_base cl) \<le> 101 + length (received_upto F k) \<and> length (data pkt) = SHAM_DATA_SIZE"

lemma fill_window_base [simp]: "window_base (fill_window now cl) = window_base cl"
proof (induction now cl rule: fill_window.induct)
  case (1 now cl)
  show ?case
    unfolding fill_window.simps [of now cl] using "1.IH"
    by (auto simp: Let_def send_chunk_def c_send_def simp del: fill_window.simps)
qed

lemma handle_ack_base:
  "window_base (handle_ack r cl) = window_base cl \<or>
     (\<exists>n pkt. recv_packet zero_packet r = (Received n, pkt) \<and>
        window_base (handle_ack r cl) = ack_num (header pkt))"
  by (auto simp: handle_ack_def Let_def split: recv_result.split prod.split)

lemma length_received_mono: "j \<le> k \<Longrightarrow> length (received_upto F j) \<le> length (received_upto F k)"
  by (simp add: received_upto_def min_le_iff_disj)

lemma unat_seq:
  "m \<le> 10485760 \<Longrightarrow> unat (ISN + of_nat m) = 101 + m"
proof -
  assume "m \<le> 10485760"
  then have "unat (of_nat (101 + m) :: 32 word) = 101 + m"
    by (simp only: unat_of_nat) (simp add: take_bit_nat_eq_self)
  then show ?thesis by (simp add: ISN_def)
qed

lemma server_ack_bound:
  assumes "holds_segments F ISN [send_packet syn_ack_packet 0] k sv" "length F \<le> RECV_BUFFER"
    and "d \<in> set (s_sent sv)" "recv_packet zero_packet (Datagram d) = (Received n, pkt)"
  shows "unat (ack_num (header pkt)) \<le> 101 + length (received_upto F k)"
proof -
  from assms(1,3) consider "d = send_packet syn_ack_packet 0" | j where "j < k" "d = ack_datagram F ISN (Suc j)"
    by (auto simp: holds_segments_def)
  then show ?thesis
  proof cases
    case 1
    then show ?thesis using assms(4) by (auto simp: syn_ack_packet_def recv_control)
  next
    case (2 j)
    have "length (received_upto F (Suc j)) \<le> 10485760"
      using assms(2) by (simp add: received_upto_def RECV_BUFFER_def min_le_iff_disj)
    then have "unat (ISN + of_nat (length (received_upto F (Suc j)))) = 101 + length (received_upto F (Suc j))"
      by (rule unat_seq)
    then show ?thesis
      using assms(4) 2 length_received_mono [of "Suc j" k F]
      by (auto simp: ack_datagram_def recv_control)
  qed
qed

lemma server_step_control:
  assumes "length (data pkt) = SHAM_DATA_SIZE" "f AND SHAM_FIN = 0"
  shows "\<exists>pkt'. server_step loss (Datagram (send_packet (make_packet s a f w []) 0), rnd) pkt sv = Running pkt' sv \<and>
    length (data pkt') = SHAM_DATA_SIZE"
  using assms by (simp add: server_step_def recv_control has_flag_def)

lemma zero_packet_make: "zero_packet = make_packet 0 0 0 0 []"
  by (simp add: zero_packet_def make_packet_def)

lemma server_receives_ok:
  assumes "joint_ok F n k cl pkt sv" "length F \<le> RECV_BUFFER"
    and "r \<in> {Timeout} \<union> Datagram ` set (c_sent cl)"
    and "server_step loss (r, rnd) pkt sv = Running pkt' sv'"
  shows "\<exists>k'. joint_ok F n k' cl pkt' sv'"
proof -
  note inv = assms(1) [unfolded joint_ok_def]
  have same: "joint_ok F n k cl pkt' sv'" if "length (data pkt') = SHAM_DATA_SIZE" "sv' = sv"
    using that inv by (simp add: joint_ok_def)
  consider "r = Timeout" | d where "r = Datagram d" "d \<in> before_data \<or> d = send_packet zero_packet 0"
    | i where "r = Datagram (segment F ISN i)" "i < segments F"
    using assms(3) inv by (auto simp: client_ok_def sent_ok_def)
  then show ?thesis
  proof cases
    case 1
    then show ?thesis using assms(4) inv same by (auto simp: server_step_def recv_packet_def)
  next
    case (2 d)
    then obtain s a f w where "d = send_packet (make_packet s a f w []) 0" "f AND SHAM_FIN = 0"
      by (auto simp: before_data_def syn_packet_def hs_ack_packet_def zero_packet_make SHAM_SYN_def
          SHAM_ACK_def SHAM_FIN_def)
    then show ?thesis
      using server_step_control [of pkt f loss s a w rnd sv] assms(4) inv 2(1) same by auto
  next
    case (3 i)
    then show ?thesis
      using server_step_segment [of F ISN _ k sv i pkt loss rnd] inv assms(2,4)
        length_received_mono [of k "Suc k" F]
      by (fastforce simp: joint_ok_def split: if_splits)
  qed
qed

lemma client_round_ok:
  assumes "joint_ok F n k cl pkt sv" "length F \<le> RECV_BUFFER"
    and "reply r \<in> {Timeout, Failed} \<union> Datagram ` set (s_sent sv)" "send_round r cl = Some cl'"
  shows "\<exists>n'. joint_ok F n' k cl' pkt sv"
proof -
  note inv = assms(1) [unfolded joint_ok_def]
  obtain m where m: "client_ok F before_data m (fill_window (fill_at r) cl)"
    using fill_window_ok inv by blast
  define cl1 where "cl1 = handle_ack (reply r) (fill_window (fill_at r) cl)"
  have "client_ok F before_data m cl1" unfolding cl1_def by (rule handle_ack_ok [OF m])
  moreover have "retransmit (check_at r) [0..<SHAM_WINDOW_SIZE] cl1 = Some cl'"
    using assms(4) by (simp add: send_round_def cl1_def)
  ultimately have cl': "client_ok F before_data m cl'" "window_base cl' = window_base cl1"
    using retransmit_ok by blast+
  have "unat (window_base cl1) \<le> 101 + length (received_upto F k)"
    using handle_ack_base [of "reply r" "fill_window (fill_at r) cl"]
  proof
    assume "window_base (handle_ack (reply r) (fill_window (fill_at r) cl)) =
      window_base (fill_window (fill_at r) cl)"
    then show ?thesis using inv by (simp add: cl1_def)
  next
    assume "\<exists>n p. recv_packet zero_packet (reply r) = (Received n, p) \<and>
      window_base (handle_ack (reply r) (fill_window (fill_at r) cl)) = ack_num (header p)"
    then obtain n p where p: "recv_packet zero_packet (reply r) = (Received n, p)"
      "window_base cl1 = ack_num (header p)" by (auto simp: cl1_def)
    then obtain d where d: "reply r = Datagram d" "d \<in> set (s_sent sv)"
      using assms(3) by (auto simp: recv_packet_def)
    have "unat (ack_num (header p)) \<le> 101 + length (received_upto F k)"
      using server_ack_bound [of F k sv d n p] inv assms(2) d p(1) by simp
    then show ?thesis using p(2) by simp
  qed
  then show ?thesis using cl' inv by (auto simp: joint_ok_def)
qed

lemma start_ok:
  "length (data pkt) = SHAM_DATA_SIZE \<Longrightarrow> joint_ok F 0 0 (connected_client F) pkt connected_server"
  by (auto simp: joint_ok_def connected_client_def connected_server_def client_handshake begin_file_def
      client_ok_def holds_segments_def received_upto_def server_start_def before_data_def slot_ok_def
      zero_slot_def ISN_def)

lemma connected_ok:
  assumes "connected loss F cl pkt sv" "length F \<le> RECV_BUFFER"
  shows "\<exists>n k. joint_ok F n k cl pkt sv"
  using assms(1)
proof (induction rule: connected.induct)
  case (start pkt)
  then show ?case using start_ok by blast
next
  case (client_round cl pkt sv r cl')
  then show ?case using client_round_ok assms(2) by blast
next
  case (server_receives cl pkt sv r rnd pkt' sv')
  then show ?case using server_receives_ok assms(2) by blast
qed

text \<open>
  C1. The transfer is correct in every run: for a file of at most 10 MB, however the network loses,
  delays, repeats and reorders the datagrams of both sides, late ones of the handshake included, and
  whatever the timing, the server at every moment holds a prefix of the file, and when the client
  reports the file as sent, by either of the two tests it makes, the server holds all of it.
\<close>

theorem transfer_correct:
  assumes "connected loss F cl pkt sv" "length F \<le> 10485760"
  shows "(\<exists>rest. F = recv_buffer sv @ rest) \<and>
    (all_acked cl \<or> \<not> loop_again (length F) cl \<longrightarrow> recv_buffer sv = F)"
proof -
  have F: "length F \<le> RECV_BUFFER" using assms(2) by (simp add: RECV_BUFFER_def)
  then obtain n k where j: "joint_ok F n k cl pkt sv" using connected_ok [OF assms(1)] by blast
  note inv = j [unfolded joint_ok_def client_ok_def holds_segments_def]
  have buf: "recv_buffer sv = received_upto F k" using inv by simp
  have "recv_buffer sv = F" if fin: "all_acked cl \<or> \<not> loop_again (length F) cl"
  proof -
    have "done_sending cl" using fin by (auto simp: all_acked_def loop_again_def)
    then have "drop (SHAM_DATA_SIZE * n) F = []" using inv by metis
    then have n: "received_upto F n = F" by (simp add: received_upto_def)
    have next1: "unat (next_seq_num cl) = 101 + length F"
      using inv unat_seq [of "length F"] assms(2) by (simp add: n)
    have next2: "unat (next_seq_num cl + of_nat (length F)) = 101 + (length F + length F)"
    proof -
      have "unat (of_nat (101 + (length F + length F)) :: 32 word) = 101 + (length F + length F)"
        using assms(2) by (simp only: unat_of_nat) (simp add: take_bit_nat_eq_self)
      moreover have "next_seq_num cl + of_nat (length F) = of_nat (101 + (length F + length F))"
        using inv n by (simp add: ISN_def)
      ultimately show ?thesis by simp
    qed
    have "101 + length F \<le> unat (window_base cl)"
      using fin next1 next2 by (auto simp: all_acked_def loop_again_def word_le_nat_alt word_less_nat_alt)
    then have "length F \<le> length (received_upto F k)" using inv by simp
    then show ?thesis using buf by (simp add: received_upto_def)
  qed
  moreover have "F = received_upto F k @ drop (SHAM_DATA_SIZE * k) F" by (simp add: received_upto_def)
  ultimately show ?thesis using buf by auto
qed

theorem transfer_correct_witness:
  "\<exists>cl pkt. connected 0 [] cl pkt connected_server \<and> all_acked cl \<and> recv_buffer connected_server = []"
proof -
  define r where "r = \<lparr>fill_at = (0, 0), reply = Timeout, check_at = (0, 0)\<rparr>"
  have start: "connected 0 [] (connected_client []) zero_packet connected_server"
    by (rule connected.start) simp
  have fields: "done_sending (connected_client []) = False" "file_rest (connected_client []) = []"
    "window_base (connected_client []) = 101" "next_seq_num (connected_client []) = 101"
    by (simp_all add: connected_client_def client_handshake begin_file_def ISN_def)
  have fill: "fill_window (0, 0) (connected_client []) = connected_client []\<lparr>done_sending := True\<rparr>"
    by (simp add: fill_window.simps [of _ "connected_client []"] fields SHAM_WINDOW_SIZE_def SHAM_DATA_SIZE_def)
  have "[0..<SHAM_WINDOW_SIZE] = 0 # [1..<SHAM_WINDOW_SIZE]"
    by (simp add: SHAM_WINDOW_SIZE_def upt_rec)
  then have round: "send_round r (connected_client []) = Some (connected_client []\<lparr>done_sending := True\<rparr>)"
    by (simp add: send_round_def r_def fill handle_ack_def recv_packet_def fields Let_def)
  have "connected 0 [] (connected_client []\<lparr>done_sending := True\<rparr>) zero_packet connected_server"
    by (rule connected.client_round [OF start _ _ _ round])
      (simp_all add: all_acked_def loop_again_def fields r_def)
  moreover have "all_acked (connected_client []\<lparr>done_sending := True\<rparr>)" by (simp add: all_acked_def fields)
  ultimately show ?thesis using transfer_correct [of 0 "[]" "connected_client []\<lparr>done_sending := True\<rparr>"]
    by auto
qed

section \<open>Timers\<close>

text \<open>
  The timeout test is right to the millisecond: for time stamps with microseconds in range it
  fires when the timeout has elapsed, and never more than a millisecond early.
\<close>

theorem is_timeout_accuracy:
  assumes "elapsed = (fst now - fst sent) * 1000000 + (snd now - snd sent)"
  shows "(elapsed \<ge> ms * 1000 \<longrightarrow> is_timeout now sent ms) \<and>
    (is_timeout now sent ms \<longrightarrow> elapsed > (ms - 1) * 1000)"
proof -
  define u where "u = snd now - snd sent"
  have q: "c_div u 1000 * 1000 - 1000 < u \<and> u < c_div u 1000 * 1000 + 1000"
    using pos_mod_bound [of 1000 "\<bar>u\<bar>"] pos_mod_sign [of 1000 "\<bar>u\<bar>"] div_mult_mod_eq [of "\<bar>u\<bar>" 1000]
    by (cases "u \<ge> 0") (auto simp: c_div_def sgn_if)
  have e: "elapsed = (fst now - fst sent) * 1000000 + u" using assms by (simp add: u_def)
  define d c where "d = fst now - fst sent" and "c = c_div u 1000"
  have b: "c * 1000 - 1000 < u" "u < c * 1000 + 1000" using q by (simp_all add: c_def)
  have e: "elapsed = d * 1000000 + u" using e by (simp add: d_def)
  have "is_timeout now sent ms \<longleftrightarrow> ms \<le> d * 1000 + c"
    by (simp add: is_timeout_def u_def d_def c_def)
  then show ?thesis using b e by auto
qed

theorem is_timeout_accuracy_witness:
  "is_timeout (7, 100000) (6, 600000) 500 \<and> \<not> is_timeout (7, 98000) (6, 600000) 500"
  using is_timeout_accuracy [of 500000 "(7, 100000)" "(6, 600000)" 500]
    is_timeout_accuracy [of 498000 "(7, 98000)" "(6, 600000)" 500] by auto

section \<open>Segments that are lost for good\<close>

text \<open>What filling the window does when the file has enough left: it closes the gap to ten segments.\<close>

definition full_slot :: "byte list \<Rightarrow> timeval \<Rightarrow> nat \<Rightarrow> slot" where
  "full_slot F now i = \<lparr>slot_packet = segment_packet F ISN i, data_len = length (payload F i),
     send_time = now, retries = 0, acked = False\<rparr>"

definition at_segments :: "byte list \<Rightarrow> nat \<Rightarrow> nat \<Rightarrow> client \<Rightarrow> bool" where
  "at_segments F b n cl \<longleftrightarrow> b \<le> n \<and> n \<le> b + 10 \<and> 1024 * (b + 10) \<le> length F \<and> \<not> done_sending cl \<and>
     window_base cl = ISN + of_nat (1024 * b) \<and> next_seq_num cl = ISN + of_nat (1024 * n) \<and>
     file_rest cl = drop (1024 * n) F \<and> length (window cl) = 10"

lemma window_gap:
  assumes "at_segments F b n cl"
  shows "unat (next_seq_num cl - window_base cl) = 1024 * (n - b)"
proof -
  have "next_seq_num cl - window_base cl = of_nat (1024 * n) - of_nat (1024 * b)"
    using assms by (simp add: at_segments_def)
  also have "\<dots> = of_nat (1024 * n - 1024 * b)"
    by (rule of_nat_diff [symmetric]) (use assms in \<open>simp add: at_segments_def\<close>)
  finally have "unat (next_seq_num cl - window_base cl) = unat (of_nat (1024 * (n - b)) :: 32 word)"
    by (simp only: diff_mult_distrib2)
  also have "\<dots> = 1024 * (n - b)"
  proof -
    have "n \<le> b + 10" using assms by (simp add: at_segments_def)
    then have "n - b \<le> 10" by linarith
    then show ?thesis by (simp only: unat_of_nat) (simp add: take_bit_nat_eq_self)
  qed
  finally show ?thesis .
qed

lemma fill_one:
  assumes "at_segments F b n cl" "n < b + 10"
  shows "fill_window now cl = fill_window now (cl\<lparr>window := (window cl)[n - b := full_slot F now n],
      c_sent := c_sent cl @ [segment F ISN n], file_rest := drop (1024 * Suc n) F,
      next_seq_num := ISN + of_nat (1024 * Suc n)\<rparr>)" (is "_ = fill_window now ?cl")
    and "at_segments F b (Suc n) (cl\<lparr>window := (window cl)[n - b := full_slot F now n],
      c_sent := c_sent cl @ [segment F ISN n], file_rest := drop (1024 * Suc n) F,
      next_seq_num := ISN + of_nat (1024 * Suc n)\<rparr>)"
proof -
  note at = assms(1) [unfolded at_segments_def]
  have small: "next_seq_num cl - window_base cl < of_nat (SHAM_WINDOW_SIZE * SHAM_DATA_SIZE)"
    using window_gap [OF assms(1)] assms(2) by (simp add: word_less_nat_alt SHAM_WINDOW_SIZE_def SHAM_DATA_SIZE_def)
  have "1024 * n + 1024 \<le> 1024 * (b + 10)" using assms(2) by simp
  moreover have "1024 * (b + 10) \<le> length F" using at by simp
  ultimately have "1024 \<le> length F - 1024 * n" by linarith
  then have len: "length (payload F n) = 1024" by (simp add: payload_def SHAM_DATA_SIZE_def)
  have buffer: "take SHAM_DATA_SIZE (file_rest cl) = payload F n"
    using at by (simp add: payload_def SHAM_DATA_SIZE_def)
  have idx: "slot_index (next_seq_num cl) (cl\<lparr>file_rest := r\<rparr>) = n - b" for r
    using window_gap [OF assms(1)] at assms(2)
    by (simp add: slot_index_def SHAM_DATA_SIZE_def SHAM_WINDOW_SIZE_def)
  have pkt: "make_packet (next_seq_num cl) 0 0 65535 (payload F n) = segment_packet F ISN n"
    using at by (simp add: segment_packet_def SHAM_DATA_SIZE_def)
  have "send_chunk now (payload F n) (cl\<lparr>file_rest := drop SHAM_DATA_SIZE (file_rest cl)\<rparr>) = ?cl"
  proof -
    have rest: "drop SHAM_DATA_SIZE (file_rest cl) = drop (1024 * Suc n) F"
      using at by (simp add: SHAM_DATA_SIZE_def add.commute)
    have nxt: "next_seq_num cl + 1024 = ISN + of_nat (1024 * Suc n)"
      using at by (simp add: algebra_simps)
    show ?thesis
      unfolding rest send_chunk_def Let_def c_send_def
      by (simp add: pkt idx full_slot_def len segment_def nxt del: mult_Suc_right of_nat_mult)
  qed
  moreover have "payload F n \<noteq> []" using len by auto
  moreover have "\<not> done_sending cl" using at by simp
  ultimately show "fill_window now cl = fill_window now ?cl"
    unfolding fill_window.simps [of now cl] Let_def buffer using small by simp
  show "at_segments F b (Suc n) ?cl" using at assms(2) by (simp add: at_segments_def)
qed

lemma fill_none:
  assumes "at_segments F b (b + 10) cl" shows "fill_window now cl = cl"
proof -
  have "\<not> next_seq_num cl - window_base cl < of_nat (SHAM_WINDOW_SIZE * SHAM_DATA_SIZE)"
    using window_gap [OF assms] by (simp add: word_less_nat_alt SHAM_WINDOW_SIZE_def SHAM_DATA_SIZE_def)
  then show ?thesis by (simp add: fill_window.simps [of now cl])
qed

lemma fill_chain:
  "at_segments F b n cl \<Longrightarrow> at_segments F b (b + 10) (fill_window now cl) \<and>
     c_sent (fill_window now cl) = c_sent cl @ map (segment F ISN) [n..<b + 10] \<and>
     (\<forall>i < 10. window (fill_window now cl) ! i =
        (if n - b \<le> i then full_slot F now (b + i) else window cl ! i))"
proof (induction "b + 10 - n" arbitrary: n cl)
  case 0
  then have "n = b + 10" by (simp add: at_segments_def)
  then show ?case using 0 fill_none [of F b cl now] by simp
next
  case (Suc d)
  then have n: "n < b + 10" by simp
  note one = fill_one [OF Suc.prems n, of now]
  have "d = b + 10 - Suc n" using Suc.hyps(2) by simp
  note IH = Suc.hyps(1) [OF this one(2)]
  have upt: "[n..<b + 10] = n # [Suc n..<b + 10]" using n by (rule upt_conv_Cons)
  have at: "b \<le> n" "length (window cl) = 10" using Suc.prems by (simp_all add: at_segments_def)
  show ?case
    unfolding one(1) using IH at n by (auto simp: upt nth_list_update)
qed

lemma retransmit_idle:
  "(\<And>s. s < SHAM_WINDOW_SIZE \<Longrightarrow> \<not> is_timeout now (send_time (window cl ! s)) SHAM_TIMEOUT_MS) \<Longrightarrow>
     retransmit now is cl = Some cl"
  using slot_index_less by (induction "is") (auto simp: Let_def)

definition stuck_slots :: "nat set" where "stuck_slots = {0..6} \<union> {10..12}"

definition holds_only :: "byte list \<Rightarrow> nat set \<Rightarrow> client \<Rightarrow> bool" where
  "holds_only F js cl \<longleftrightarrow> (\<forall>i < 10. \<exists>j \<in> js. slot_packet (window cl ! i) = segment_packet F ISN j \<and>
     data_len (window cl ! i) = length (payload F j))"

lemma retransmit_stuck:
  "retransmit now is cl = Some cl' \<Longrightarrow> at_segments F b n cl \<Longrightarrow> holds_only F js cl \<Longrightarrow>
     at_segments F b n cl' \<and> holds_only F js cl' \<and>
     (\<exists>ks. set ks \<subseteq> js \<and> c_sent cl' = c_sent cl @ map (segment F ISN) ks)"
proof (induction "is" arbitrary: cl)
  case Nil
  then show ?case by (auto intro: exI [of _ "[]"])
next
  case (Cons i "is")
  define idx where "idx = slot_index (window_base cl + of_nat (i * SHAM_DATA_SIZE)) cl"
  define w where "w = window cl ! idx"
  define cl2 where "cl2 = (c_send (slot_packet w) (data_len w) cl)\<lparr>window := (window cl)[idx :=
      w\<lparr>send_time := now, retries := retries w + 1\<rparr>]\<rparr>"
  have idx: "idx < 10" using slot_index_less by (simp add: idx_def SHAM_WINDOW_SIZE_def)
  then obtain j where j: "j \<in> js" "slot_packet w = segment_packet F ISN j" "data_len w = length (payload F j)"
    using Cons.prems(3) by (auto simp: holds_only_def w_def)
  have cl2: "at_segments F b n cl2" "holds_only F js cl2" "c_sent cl2 = c_sent cl @ [segment F ISN j]"
    using Cons.prems(2,3) j idx
    by (auto simp: at_segments_def holds_only_def cl2_def c_send_def segment_def nth_list_update)
  have "retransmit now (i # is) cl \<in> {Some cl, retransmit now is cl, None, retransmit now is cl2}"
    unfolding retransmit.simps Let_def idx_def [symmetric] w_def [symmetric] cl2_def
    by (auto simp: c_send_def)
  with Cons.prems(1) consider "cl' = cl" | "retransmit now is cl = Some cl'"
    | "retransmit now is cl2 = Some cl'" by auto
  then show ?case
  proof cases
    case 1
    then show ?thesis using Cons.prems by (auto intro: exI [of _ "[]"])
  next
    case 2
    then show ?thesis using Cons.IH Cons.prems by blast
  next
    case 3
    from Cons.IH [OF this cl2(1,2)] obtain ks where "at_segments F b n cl'" "holds_only F js cl'"
      "set ks \<subseteq> js" "c_sent cl' = c_sent cl2 @ map (segment F ISN) ks" by blast
    then show ?thesis using cl2(3) j(1) by (auto intro!: exI [of _ "j # ks"])
  qed
qed

text \<open>The stalled state: ten segments in flight, 7, 8 and 9 among them but in no slot.\<close>

definition stalled :: "byte list \<Rightarrow> client \<Rightarrow> bool" where
  "stalled F cl \<longleftrightarrow> at_segments F 3 13 cl \<and> holds_only F stuck_slots cl \<and>
     count_list (c_sent cl) (segment F ISN 7) = 1"

lemma handle_ack_timeout [simp]: "handle_ack Timeout cl = cl"
  by (simp add: handle_ack_def recv_packet_def)

lemma stuck_not_7:
  assumes "13 * 1024 \<le> length F" "length F \<le> RECV_BUFFER" "set ks \<subseteq> stuck_slots"
  shows "count_list (map (segment F ISN) ks) (segment F ISN 7) = 0"
proof -
  have "j < segments F" if "j \<le> 12" for j
    using assms(1) that by (simp add: segments_iff SHAM_DATA_SIZE_def)
  then have "segment F ISN j \<noteq> segment F ISN 7" if "j \<in> stuck_slots" for j
    using segment_inj [of j F 7 ISN] that assms(2) by (auto simp: stuck_slots_def)
  then have "segment F ISN 7 \<notin> set (map (segment F ISN) ks)" using assms(3) by fastforce
  then show ?thesis by (rule count_notin)
qed

lemma stalled_round:
  assumes "stalled F cl" "reply r = Timeout" "send_round r cl = Some cl'"
    and "13 * 1024 \<le> length F" "length F \<le> RECV_BUFFER"
  shows "stalled F cl'"
proof -
  have "fill_window (fill_at r) cl = cl"
    using assms(1) fill_none [of F 3 cl] by (simp add: stalled_def)
  then have "retransmit (check_at r) [0..<SHAM_WINDOW_SIZE] cl = Some cl'"
    using assms(2,3) by (simp add: send_round_def)
  from retransmit_stuck [OF this] assms(1) obtain ks where "at_segments F 3 13 cl'"
    "holds_only F stuck_slots cl'" "set ks \<subseteq> stuck_slots"
    "c_sent cl' = c_sent cl @ map (segment F ISN) ks" unfolding stalled_def by blast
  then show ?thesis
    using stuck_not_7 [OF assms(4,5)] assms(1) by (simp add: stalled_def)
qed

lemma stalled_not_done: "stalled F cl \<Longrightarrow> loop_again m cl \<and> \<not> all_acked cl"
  by (simp add: stalled_def at_segments_def loop_again_def all_acked_def)

lemma stalled_rounds:
  "stalled F cl \<Longrightarrow> \<forall>r \<in> set rs. reply r = Timeout \<Longrightarrow> 13 * 1024 \<le> length F \<Longrightarrow>
     length F \<le> RECV_BUFFER \<Longrightarrow>
     send_rounds m rs cl = GaveUp \<or> (\<exists>cl'. send_rounds m rs cl = Sending cl' \<and> stalled F cl')"
proof (induction rs arbitrary: cl)
  case (Cons r rs)
  show ?case
  proof (cases "send_round r cl")
    case (Some cl')
    have "stalled F cl'"
      by (rule stalled_round [OF Cons.prems(1) _ Some Cons.prems(3,4)]) (use Cons.prems(2) in simp)
    then show ?thesis
      using Cons.IH Cons.prems Some stalled_not_done [of F cl m] stalled_not_done [of F cl' m] by simp
  qed (use stalled_not_done [OF Cons.prems(1), of m] in simp)
qed (use stalled_not_done in auto)

lemma count_other:
  assumes "13 * 1024 \<le> length F" "length F \<le> RECV_BUFFER"
  shows "count_list (map (segment F ISN) [0..<10]) (segment F ISN 7) = 1"
    "count_list (map (segment F ISN) [10..<13]) (segment F ISN 7) = 0"
    "send_packet (make_packet s a f w []) 0 \<noteq> segment F ISN 7"
proof -
  have upt: "[0..<10] = [0..<7] @ 7 # [8..<10]" by (simp add: upt_rec)
  have "segment F ISN j \<noteq> segment F ISN 7" if "j \<in> {8, 9}" for j
    using that assms by (subst segment_inj) (auto simp: segments_iff SHAM_DATA_SIZE_def)
  then have "count_list (map (segment F ISN) [8..<10]) (segment F ISN 7) = 0"
    by (simp add: upt_rec)
  moreover have "count_list (map (segment F ISN) [0..<7]) (segment F ISN 7) = 0"
    "count_list (map (segment F ISN) [10..<13]) (segment F ISN 7) = 0"
    by (rule stuck_not_7 [OF assms]; auto simp: stuck_slots_def)+
  ultimately show "count_list (map (segment F ISN) [0..<10]) (segment F ISN 7) = 1"
    "count_list (map (segment F ISN) [10..<13]) (segment F ISN 7) = 0"
    by (simp_all only: upt count_list_append map_append list.map count_list.simps add_0 add_0_right if_True refl)
  have "length (payload F 7) > 0" using assms by (intro payload_pos) (simp add: segments_iff SHAM_DATA_SIZE_def)
  then show "send_packet (make_packet s a f w []) 0 \<noteq> segment F ISN 7"
    using recv_segment [of zero_packet F ISN 7] recv_control [of zero_packet s a f w] by auto
qed

text \<open>The round in which the first three of ten segments are acknowledged.\<close>

lemma three_acknowledged:
  assumes F: "13 * 1024 \<le> length F" "length F \<le> RECV_BUFFER"
    and r1: "reply r1 = Datagram (ack_datagram F ISN 3)" "check_at r1 = fill_at r1"
  shows "\<exists>cl2. at_segments F 0 0 (begin_file F (connected_client F)) \<and>
    send_round r1 (begin_file F (connected_client F)) = Some cl2 \<and>
    at_segments F 3 10 cl2 \<and> (\<forall>i < 10. window cl2 ! i = full_slot F (fill_at r1) i) \<and>
    count_list (c_sent cl2) (segment F ISN 7) = 1"
proof -
  define cl0 where "cl0 = begin_file F (connected_client F)"
  have cl0: "at_segments F 0 0 cl0"
    using F by (simp add: at_segments_def cl0_def connected_client_def client_handshake begin_file_def
        SHAM_WINDOW_SIZE_def)
  have sent0: "c_sent cl0 = [send_packet syn_packet 0, send_packet hs_ack_packet 0]"
    by (simp add: cl0_def connected_client_def client_handshake begin_file_def)
  define cl1 where "cl1 = fill_window (fill_at r1) cl0"
  have cl1: "at_segments F 0 10 cl1" "c_sent cl1 = c_sent cl0 @ map (segment F ISN) [0..<10]"
    "\<And>i. i < 10 \<Longrightarrow> window cl1 ! i = full_slot F (fill_at r1) i"
    using fill_chain [OF cl0, of "fill_at r1"] by (simp_all add: cl1_def)
  define cl2 where "cl2 = handle_ack (reply r1) cl1"
  have len3: "length (received_upto F 3) = 3072" using F by (simp add: received_upto_def SHAM_DATA_SIZE_def)
  have "window_base cl2 = ISN + 3072"
    using cl1(1) r1(1) by (simp add: cl2_def handle_ack_def ack_datagram_def recv_control len3
        at_segments_def ISN_def has_flag_def SHAM_ACK_def)
  then have at2: "at_segments F 3 10 cl2"
    using cl1(1) F by (simp add: at_segments_def cl2_def)
  have idle: "\<not> is_timeout now now SHAM_TIMEOUT_MS" for now
    by (simp add: is_timeout_def c_div_def SHAM_TIMEOUT_MS_def)
  have "retransmit (check_at r1) [0..<SHAM_WINDOW_SIZE] cl2 = Some cl2"
    by (rule retransmit_idle) (use cl1(3) r1(2) idle in \<open>simp add: cl2_def SHAM_WINDOW_SIZE_def full_slot_def\<close>)
  then have "send_round r1 cl0 = Some cl2" by (simp add: send_round_def cl1_def cl2_def)
  moreover have "count_list (c_sent cl0) (segment F ISN 7) = 0"
    using count_other(3) [OF F] by (simp add: sent0 syn_packet_def hs_ack_packet_def)
  then have "count_list (c_sent cl2) (segment F ISN 7) = 1"
    using count_other(1) [OF F] by (simp only: cl1(2) cl2_def handle_ack_fields count_list_append add_0)
  moreover have "\<forall>i < 10. window cl2 ! i = full_slot F (fill_at r1) i" using cl1(3) by (simp add: cl2_def)
  ultimately show ?thesis using cl0 at2 unfolding cl0_def by blast
qed

text \<open>The next filling of the window puts three segments into the slots of three that are in flight.\<close>

lemma filling_overwrites:
  assumes F: "13 * 1024 \<le> length F" "length F \<le> RECV_BUFFER"
    and cl2: "at_segments F 3 10 cl2" "\<forall>i < 10. window cl2 ! i = full_slot F t i"
      "count_list (c_sent cl2) (segment F ISN 7) = 1"
  shows "stalled F (fill_window t' cl2)"
proof -
  let ?cl3 = "fill_window t' cl2"
  have cl3: "at_segments F 3 13 ?cl3" "c_sent ?cl3 = c_sent cl2 @ map (segment F ISN) [10..<13]"
    "\<And>i. i < 10 \<Longrightarrow> window ?cl3 ! i = (if 7 \<le> i then full_slot F t' (3 + i) else window cl2 ! i)"
    using fill_chain [OF cl2(1), of t'] by simp_all
  have "holds_only F stuck_slots ?cl3"
    unfolding holds_only_def
  proof (intro allI impI)
    fix i :: nat assume i: "i < 10"
    show "\<exists>j \<in> stuck_slots. slot_packet (window ?cl3 ! i) = segment_packet F ISN j \<and>
        data_len (window ?cl3 ! i) = length (payload F j)"
      using cl3(3) [OF i] cl2(2) i
      by (intro bexI [of _ "if 7 \<le> i then 3 + i else i"]) (auto simp: full_slot_def stuck_slots_def)
  qed
  moreover have "count_list (c_sent ?cl3) (segment F ISN 7) = 1"
    using cl2(3) count_other(2) [OF F] by (simp only: cl3(2) count_list_append add_0_right)
  ultimately show ?thesis using cl3(1) by (simp add: stalled_def)
qed



end
