(* ===== verification/Sched.thy ===== *)
theory Sched
  imports Prelude
begin

text \<open>
  \<open>xv6/kernel\<close>: the schedulers and the counters this project adds to xv6, seen from one hart. The
  spinlocks of the process table matter to the loops: \<open>held\<close> is the set of the table's locks this
  hart holds, acquiring a held one or releasing one that is not held is the panic of
  \<open>xv6-source/kernel/spinlock.c\<close>, and waiting for another hart is not modelled. \<open>swtch\<close> is assembly:
  running process \<open>p\<close> until it gives up the CPU is a parameter of every scheduler, and \<open>ran\<close> lists
  the processes switched to.
\<close>

section \<open>Processes and locks\<close>

definition NPROC :: nat where "NPROC = 64"

datatype procstate = UNUSED | USED | SLEEPING | RUNNABLE | RUNNING | ZOMBIE

record proc =
  state :: procstate
  pid :: int
  ctime :: "64 word"
  nice :: int
  vruntime :: "64 word"
  weight :: "64 word"
  runtime :: "64 word"
  queue :: int
  time_slice :: int
  queue_enter_time :: "64 word"

record kernel =
  proc :: "proc list"
  held :: "nat set"
  cpu_proc :: "nat option"
  ticks :: "32 word"
  console :: "printed list"
  ran :: "nat list"

definition acquire :: "nat \<Rightarrow> kernel \<Rightarrow> string + kernel" where
  "acquire i k = (if i \<in> held k then Inl ''acquire'' else Inr (k\<lparr>held := insert i (held k)\<rparr>))"

definition release :: "nat \<Rightarrow> kernel \<Rightarrow> string + kernel" where
  "release i k = (if i \<in> held k then Inr (k\<lparr>held := held k - {i}\<rparr>) else Inl ''release'')"

definition release_opt :: "nat option \<Rightarrow> kernel \<Rightarrow> string + kernel" where
  "release_opt e k = (case e of None \<Rightarrow> Inr k | Some i \<Rightarrow> release i k)"

definition set_proc :: "nat \<Rightarrow> (proc \<Rightarrow> proc) \<Rightarrow> kernel \<Rightarrow> kernel" where
  "set_proc i f k = k\<lparr>proc := (proc k)[i := f (proc k ! i)]\<rparr>"

definition kprintf :: "string \<Rightarrow> parg list \<Rightarrow> kernel \<Rightarrow> kernel" where
  "kprintf fmt vs k = k\<lparr>console := console k @ [Printf fmt vs]\<rparr>"

text \<open>\<open>p->state = RUNNING; c->proc = p; swtch (&c->context, &p->context);\<close>\<close>

definition switch_to :: "(nat \<Rightarrow> kernel \<Rightarrow> kernel) \<Rightarrow> nat \<Rightarrow> kernel \<Rightarrow> kernel" where
  "switch_to swtch i k =
     swtch i ((set_proc i (\<lambda>p. p\<lparr>state := RUNNING\<rparr>) k)\<lparr>cpu_proc := Some i, ran := ran k @ [i]\<rparr>)"

section \<open>First come, first served\<close>

fun fcfs_scan :: "nat list \<Rightarrow> nat option \<Rightarrow> kernel \<Rightarrow> string + nat option \<times> kernel" where
  "fcfs_scan [] earliest k = Inr (earliest, k)"
| "fcfs_scan (p # ps) earliest k =
     (case acquire p k of
        Inl e \<Rightarrow> Inl e
      | Inr k \<Rightarrow>
          if state (proc k ! p) = RUNNABLE then
            if earliest = None \<or> ctime (proc k ! p) < ctime (proc k ! the earliest) then
              (case release_opt earliest k of
                 Inl e \<Rightarrow> Inl e
               | Inr k \<Rightarrow> fcfs_scan ps (Some p) k)
            else (case release p k of Inl e \<Rightarrow> Inl e | Inr k \<Rightarrow> fcfs_scan ps earliest k)
          else (case release p k of Inl e \<Rightarrow> Inl e | Inr k \<Rightarrow> fcfs_scan ps earliest k))"

definition scheduler_fcfs :: "(nat \<Rightarrow> kernel \<Rightarrow> kernel) \<Rightarrow> kernel \<Rightarrow> string + kernel" where
  "scheduler_fcfs swtch k =
     (case fcfs_scan [0..<NPROC] None k of
        Inl e \<Rightarrow> Inl e
      | Inr (None, k) \<Rightarrow> Inr k
      | Inr (Some earliest, k) \<Rightarrow>
          release earliest ((switch_to swtch earliest k)\<lparr>cpu_proc := None\<rparr>))"

section \<open>Completely fair\<close>

definition calculate_weight :: "int \<Rightarrow> 64 word" where
  "calculate_weight n =
     (if n = 0 then 1024
      else if n < 0 then ((\<lambda>w. (w * 5) div 4) ^^ nat (- n)) 1024
      else let w = ((\<lambda>w. (w * 4) div 5) ^^ nat n) 1024 in if w < 15 then 15 else w)"

fun cfs_scan :: "nat list \<Rightarrow> nat option \<Rightarrow> 64 word \<Rightarrow> int \<Rightarrow> kernel \<Rightarrow>
    string + nat option \<times> int \<times> kernel" where
  "cfs_scan [] min_proc min_vruntime n k = Inr (min_proc, n, k)"
| "cfs_scan (p # ps) min_proc min_vruntime n k =
     (case acquire p k of
        Inl e \<Rightarrow> Inl e
      | Inr k \<Rightarrow>
          if state (proc k ! p) = RUNNABLE then
            if min_proc = None \<or> vruntime (proc k ! p) < min_vruntime then
              (case release_opt min_proc k of
                 Inl e \<Rightarrow> Inl e
               | Inr k \<Rightarrow> cfs_scan ps (Some p) (vruntime (proc k ! p)) (n + 1) k)
            else (case release p k of
                    Inl e \<Rightarrow> Inl e
                  | Inr k \<Rightarrow> cfs_scan ps min_proc min_vruntime (n + 1) k)
          else (case release p k of Inl e \<Rightarrow> Inl e | Inr k \<Rightarrow> cfs_scan ps min_proc min_vruntime n k))"

fun cfs_log :: "nat list \<Rightarrow> kernel \<Rightarrow> string + kernel" where
  "cfs_log [] k = Inr k"
| "cfs_log (p # ps) k =
     (case acquire p k of
        Inl e \<Rightarrow> Inl e
      | Inr k \<Rightarrow>
          let k = (if state (proc k ! p) = RUNNABLE
                   then kprintf ''PID: %d | vRuntime: %d\<newline>''
                     [D (pid (proc k ! p)), D (uint (vruntime (proc k ! p)))] k
                   else k)
          in (case release p k of Inl e \<Rightarrow> Inl e | Inr k \<Rightarrow> cfs_log ps k))"

definition cfs_time_slice :: "int \<Rightarrow> int" where
  "cfs_time_slice runnable_count =
     (let s = 48 div (if runnable_count > 0 then runnable_count else 1) in if s < 3 then 3 else s)"

definition scheduler_cfs :: "(nat \<Rightarrow> kernel \<Rightarrow> kernel) \<Rightarrow> kernel \<Rightarrow> string + kernel" where
  "scheduler_cfs swtch k =
     (case cfs_scan [0..<NPROC] None (-1) 0 k of
        Inl e \<Rightarrow> Inl e
      | Inr (None, n, k) \<Rightarrow> Inr k
      | Inr (Some m, n, k) \<Rightarrow>
          (case cfs_log [0..<NPROC] (kprintf ''[Scheduler Tick]\<newline>'' [] k) of
             Inl e \<Rightarrow> Inl e
           | Inr k \<Rightarrow>
               let k = kprintf ''--> Scheduling PID %d (lowest vRuntime)\<newline>'' [D (pid (proc k ! m))] k;
                   time_slice = cfs_time_slice n;
                   start_time = runtime (proc k ! m);
                   k = switch_to swtch m k;
                   elapsed = runtime (proc k ! m) - start_time;
                   k = set_proc m (\<lambda>p. p\<lparr>vruntime := vruntime p + (elapsed * 1024) div weight p\<rparr>) k
               in release m (k\<lparr>cpu_proc := None\<rparr>)))"

text \<open>
  The part of \<open>usertrap\<close> for the running process \<open>i\<close>: its run time advances, and on a timer
  interrupt it yields when the time slice divides its run time. The result says whether it yields.
\<close>

fun count_runnable :: "nat list \<Rightarrow> int \<Rightarrow> kernel \<Rightarrow> string + int \<times> kernel" where
  "count_runnable [] n k = Inr (n, k)"
| "count_runnable (p # ps) n k =
     (case acquire p k of
        Inl e \<Rightarrow> Inl e
      | Inr k \<Rightarrow>
          let n = (if state (proc k ! p) = RUNNABLE then n + 1 else n) in
          (case release p k of Inl e \<Rightarrow> Inl e | Inr k \<Rightarrow> count_runnable ps n k))"

definition usertrap_cfs :: "nat \<Rightarrow> bool \<Rightarrow> kernel \<Rightarrow> string + bool \<times> kernel" where
  "usertrap_cfs i timer k =
     (let k = set_proc i (\<lambda>p. p\<lparr>runtime := runtime p + 1\<rparr>) k in
      if timer then
        (case count_runnable [0..<NPROC] 0 k of
           Inl e \<Rightarrow> Inl e
         | Inr (n, k) \<Rightarrow> Inr (runtime (proc k ! i) mod word_of_int (cfs_time_slice n) = 0, k))
      else Inr (False, k))"

section \<open>Round robin\<close>

fun rr_round :: "(nat \<Rightarrow> kernel \<Rightarrow> kernel) \<Rightarrow> nat list \<Rightarrow> kernel \<Rightarrow> string + kernel" where
  "rr_round swtch [] k = Inr k"
| "rr_round swtch (p # ps) k =
     (case acquire p k of
        Inl e \<Rightarrow> Inl e
      | Inr k \<Rightarrow>
          let k = (if state (proc k ! p) = RUNNABLE
                   then (switch_to swtch p k)\<lparr>cpu_proc := None\<rparr> else k)
          in (case release p k of Inl e \<Rightarrow> Inl e | Inr k \<Rightarrow> rr_round swtch ps k))"

definition scheduler_rr :: "(nat \<Rightarrow> kernel \<Rightarrow> kernel) \<Rightarrow> kernel \<Rightarrow> string + kernel" where
  "scheduler_rr swtch k = rr_round swtch [0..<NPROC] k"

section \<open>Multi-level feedback queue\<close>

definition QUEUE_COUNT :: int where "QUEUE_COUNT = 4"

definition BOOST_INTERVAL :: "64 word" where "BOOST_INTERVAL = 48"

definition queue_time_slices :: "int list" where "queue_time_slices = [1, 4, 8, 16]"

fun mlfq_boost :: "nat list \<Rightarrow> kernel \<Rightarrow> string + kernel" where
  "mlfq_boost [] k = Inr k"
| "mlfq_boost (p # ps) k =
     (case acquire p k of
        Inl e \<Rightarrow> Inl e
      | Inr k \<Rightarrow>
          let k = (if state (proc k ! p) = RUNNABLE \<or> state (proc k ! p) = RUNNING
                   then set_proc p (\<lambda>q. q\<lparr>queue := 0, time_slice := queue_time_slices ! 0\<rparr>) k else k)
          in (case release p k of Inl e \<Rightarrow> Inl e | Inr k \<Rightarrow> mlfq_boost ps k))"

fun mlfq_find :: "int \<Rightarrow> nat list \<Rightarrow> kernel \<Rightarrow> string + nat option \<times> kernel" where
  "mlfq_find q [] k = Inr (None, k)"
| "mlfq_find q (p # ps) k =
     (case acquire p k of
        Inl e \<Rightarrow> Inl e
      | Inr k \<Rightarrow>
          if state (proc k ! p) = RUNNABLE \<and> queue (proc k ! p) = q then Inr (Some p, k)
          else (case release p k of Inl e \<Rightarrow> Inl e | Inr k \<Rightarrow> mlfq_find q ps k))"

fun mlfq_select :: "int list \<Rightarrow> kernel \<Rightarrow> string + nat option \<times> kernel" where
  "mlfq_select [] k = Inr (None, k)"
| "mlfq_select (q # qs) k =
     (case mlfq_find q [0..<NPROC] k of
        Inl e \<Rightarrow> Inl e
      | Inr (None, k) \<Rightarrow> mlfq_select qs k
      | Inr (Some p, k) \<Rightarrow> Inr (Some p, k))"

text \<open>The accounting after the process has run: the slice is charged, and an empty one demotes.\<close>

definition mlfq_charge :: "64 word \<Rightarrow> proc \<Rightarrow> proc" where
  "mlfq_charge elapsed p =
     (let p = p\<lparr>time_slice := to_int32 (time_slice p - uint elapsed)\<rparr> in
      if time_slice p \<le> 0 then
        let p = (if queue p < QUEUE_COUNT - 1 then p\<lparr>queue := queue p + 1\<rparr> else p)
        in p\<lparr>time_slice := queue_time_slices ! nat (queue p)\<rparr>
      else p)"

definition scheduler_mlfq :: "(nat \<Rightarrow> kernel \<Rightarrow> kernel) \<Rightarrow> 64 word \<Rightarrow> kernel \<Rightarrow>
    string + 64 word \<times> kernel" where
  "scheduler_mlfq swtch last_boost k =
     (let boost = ucast (ticks k) - last_boost \<ge> BOOST_INTERVAL in
      case (if boost then mlfq_boost [0..<NPROC] k else Inr k) of
        Inl e \<Rightarrow> Inl e
      | Inr k \<Rightarrow>
          let last_boost = (if boost then ucast (ticks k) else last_boost) in
          (case mlfq_select [0, 1, 2, 3] k of
             Inl e \<Rightarrow> Inl e
           | Inr (None, k) \<Rightarrow> Inr (last_boost, k)
           | Inr (Some p, k) \<Rightarrow>
               let start_ticks = ucast (ticks k);
                   k = switch_to swtch p k;
                   elapsed = ucast (ticks k) - start_ticks;
                   k = set_proc p (mlfq_charge elapsed) k
               in (case release p (k\<lparr>cpu_proc := None\<rparr>) of
                     Inl e \<Rightarrow> Inl e
                   | Inr k \<Rightarrow> Inr (last_boost, k))))"

section \<open>Creating a process\<close>

text \<open>
  \<open>allocproc\<close>: \<open>pid\<close> is what \<open>allocpid\<close> gives, the booleans say whether \<open>kalloc\<close> and
  \<open>proc_pagetable\<close> succeed; \<open>freeproc\<close> returns the slot to \<open>UNUSED\<close>. On success the slot's lock
  stays held.
\<close>

fun find_unused :: "nat list \<Rightarrow> kernel \<Rightarrow> string + nat option \<times> kernel" where
  "find_unused [] k = Inr (None, k)"
| "find_unused (p # ps) k =
     (case acquire p k of
        Inl e \<Rightarrow> Inl e
      | Inr k \<Rightarrow>
          if state (proc k ! p) = UNUSED then Inr (Some p, k)
          else (case release p k of Inl e \<Rightarrow> Inl e | Inr k \<Rightarrow> find_unused ps k))"

definition init_sched :: "64 word \<Rightarrow> proc \<Rightarrow> proc" where
  "init_sched now p = p\<lparr>ctime := now, nice := 0, vruntime := 0, weight := calculate_weight 0,
     runtime := 0, queue := 0, time_slice := 1, queue_enter_time := now\<rparr>"

definition allocproc :: "int \<Rightarrow> bool \<Rightarrow> bool \<Rightarrow> kernel \<Rightarrow> string + nat option \<times> kernel" where
  "allocproc new_pid kalloc_ok pagetable_ok k =
     (case find_unused [0..<NPROC] k of
        Inl e \<Rightarrow> Inl e
      | Inr (None, k) \<Rightarrow> Inr (None, k)
      | Inr (Some i, k) \<Rightarrow>
          let k = set_proc i (\<lambda>p. p\<lparr>pid := new_pid, state := USED\<rparr>) k in
          if \<not> kalloc_ok \<or> \<not> pagetable_ok then
            (case release i (set_proc i (\<lambda>p. p\<lparr>pid := 0, state := UNUSED\<rparr>) k) of
               Inl e \<Rightarrow> Inl e
             | Inr k \<Rightarrow> Inr (None, k))
          else Inr (Some i, set_proc i (init_sched (ucast (ticks k))) k))"

section \<open>Counting the bytes read\<close>

text \<open>
  \<open>fileread\<close> with the result \<open>r\<close> of \<open>readi\<close> on the file offset and the counter, and the system call
  that returns the counter.
\<close>

definition fileread :: "int \<Rightarrow> 32 word \<times> 64 word \<Rightarrow> int \<times> 32 word \<times> 64 word" where
  "fileread r s =
     (let (off, total_bytes_read) = s in
      (r, if r > 0 then off + word_of_int r else off,
       if r > 0 then total_bytes_read + word_of_int r else total_bytes_read))"

definition sys_getreadcount :: "32 word \<times> 64 word \<Rightarrow> 64 word" where
  "sys_getreadcount s = snd s"

section \<open>Selecting under locks\<close>

lemma acquire_free: "i \<notin> held k \<Longrightarrow> acquire i k = Inr (k\<lparr>held := insert i (held k)\<rparr>)"
  by (simp add: acquire_def)

lemma release_held: "i \<in> held k \<Longrightarrow> release i k = Inr (k\<lparr>held := held k - {i}\<rparr>)"
  by (simp add: release_def)

lemma acquire_release:
  assumes "i \<notin> held k"
  shows "release i (k\<lparr>held := insert i (held k)\<rparr>) = Inr k"
  using assms by (simp add: release_def insert_Diff_if)

text \<open>
  The contract of the two scans that look for the smallest key while holding the lock of the best
  candidate: they are given by their recursion on the table, and select the first process with the
  smallest key among the runnable ones.
\<close>

definition runnable_in :: "kernel \<Rightarrow> nat \<Rightarrow> bool" where
  "runnable_in k i \<longleftrightarrow> state (proc k ! i) = RUNNABLE"

fun first_min :: "(nat \<Rightarrow> 64 word) \<Rightarrow> nat list \<Rightarrow> nat option \<Rightarrow> nat option" where
  "first_min f [] e = e"
| "first_min f (p # ps) e =
     first_min f ps (if e = None \<or> f p < f (the e) then Some p else e)"

lemma first_min_cases: "first_min f ps e = e \<or> (\<exists>p \<in> set ps. first_min f ps e = Some p)"
  by (induction ps arbitrary: e) (simp, fastforce)

lemma first_min_least:
  "first_min f ps e = Some m \<Longrightarrow>
     (\<forall>p \<in> set ps. f m \<le> f p) \<and> (\<forall>i. e = Some i \<longrightarrow> f m \<le> f i)"
proof (induction ps arbitrary: e)
  case (Cons p ps)
  have "(\<forall>q \<in> set ps. f m \<le> f q) \<and>
      (\<forall>i. (if e = None \<or> f p < f (the e) then Some p else e) = Some i \<longrightarrow> f m \<le> f i)"
    using Cons by simp
  then show ?case by (cases e) (auto split: if_splits intro: order.trans)
qed simp

lemma first_min_None: "first_min f ps e = None \<longleftrightarrow> ps = [] \<and> e = None"
  by (induction ps arbitrary: e) auto

locale lock_scan =
  fixes scan :: "nat list \<Rightarrow> nat option \<Rightarrow> kernel \<Rightarrow> string + nat option \<times> kernel"
    and key :: "proc \<Rightarrow> 64 word"
  assumes scan_Nil: "scan [] e k = Inr (e, k)"
    and scan_skip: "p \<notin> held k \<Longrightarrow> state (proc k ! p) \<noteq> RUNNABLE \<Longrightarrow> scan (p # ps) e k = scan ps e k"
    and scan_worse: "p \<notin> held k \<Longrightarrow> state (proc k ! p) = RUNNABLE \<Longrightarrow>
      \<not> key (proc k ! p) < key (proc k ! i) \<Longrightarrow> scan (p # ps) (Some i) k = scan ps (Some i) k"
    and scan_better: "p \<notin> held k \<Longrightarrow> state (proc k ! p) = RUNNABLE \<Longrightarrow>
      key (proc k ! p) < key (proc k ! i) \<Longrightarrow> i \<in> held k \<Longrightarrow>
      scan (p # ps) (Some i) k = scan ps (Some p) (k\<lparr>held := insert p (held k) - {i}\<rparr>)"
    and scan_first: "p \<notin> held k \<Longrightarrow> state (proc k ! p) = RUNNABLE \<Longrightarrow>
      scan (p # ps) None k = scan ps (Some p) (k\<lparr>held := insert p (held k)\<rparr>)"
begin

lemma scan_holds:
  "distinct ps \<Longrightarrow> held k = set_option e \<Longrightarrow> set ps \<inter> set_option e = {} \<Longrightarrow>
     scan ps e k = Inr (first_min (\<lambda>i. key (proc k ! i)) (filter (runnable_in k) ps) e,
       k\<lparr>held := set_option (first_min (\<lambda>i. key (proc k ! i)) (filter (runnable_in k) ps) e)\<rparr>)"
proof (induction ps arbitrary: e k)
  case Nil
  then show ?case by (simp add: scan_Nil)
next
  case (Cons p ps)
  have p: "p \<notin> held k" using Cons.prems by auto
  show ?case
  proof (cases "state (proc k ! p) = RUNNABLE")
    case False
    then show ?thesis using Cons p by (simp add: scan_skip runnable_in_def)
  next
    case run: True
    show ?thesis
    proof (cases e)
      case None
      then show ?thesis
        using Cons.IH [of "k\<lparr>held := {p}\<rparr>" "Some p"] Cons.prems p run
        by (simp add: scan_first runnable_in_def)
    next
      case (Some i)
      then have i: "i \<in> held k" "i \<noteq> p" using Cons.prems by auto
      show ?thesis
      proof (cases "key (proc k ! p) < key (proc k ! i)")
        case True
        moreover have "insert p (held k) - {i} = {p}" using Cons.prems Some i by auto
        ultimately show ?thesis
          using Cons.IH [of "k\<lparr>held := {p}\<rparr>" "Some p"] Cons.prems p run Some i
          by (simp add: scan_better runnable_in_def)
      next
        case False
        then show ?thesis
          using Cons.IH [of k e] Cons.prems p run Some by (simp add: scan_worse runnable_in_def)
      qed
    qed
  qed
qed

lemma scan_selects:
  assumes "held k = {}"
  obtains "scan [0..<NPROC] None k = Inr (None, k)" "\<forall>i < NPROC. \<not> runnable_in k i"
  | m where "scan [0..<NPROC] None k = Inr (Some m, k\<lparr>held := {m}\<rparr>)" "m < NPROC" "runnable_in k m"
      "\<forall>i < NPROC. runnable_in k i \<longrightarrow> key (proc k ! m) \<le> key (proc k ! i)"
proof (cases "first_min (\<lambda>i. key (proc k ! i)) (filter (runnable_in k) [0..<NPROC]) None")
  case None
  moreover from None have "\<forall>i < NPROC. \<not> runnable_in k i"
    by (auto simp: first_min_None filter_empty_conv)
  ultimately show ?thesis
    using that(1) scan_holds [of "[0..<NPROC]" k None] assms by simp
next
  case (Some m)
  have "m \<in> set (filter (runnable_in k) [0..<NPROC])"
    using first_min_cases [of "\<lambda>i. key (proc k ! i)" "filter (runnable_in k) [0..<NPROC]" None] Some
    by auto
  then show ?thesis
    using that(2) [of m] scan_holds [of "[0..<NPROC]" k None] assms Some first_min_least [OF Some] by simp
qed

end

interpretation fcfs: lock_scan fcfs_scan ctime
  by unfold_locales
    (auto simp: acquire_free acquire_release release_opt_def release_held)

text \<open>The CFS scan also counts the runnable processes, which does not influence the choice.\<close>

definition forget_count :: "string + nat option \<times> int \<times> kernel \<Rightarrow> string + nat option \<times> kernel" where
  "forget_count r = (case r of Inl e \<Rightarrow> Inl e | Inr (m, n, k) \<Rightarrow> Inr (m, k))"

lemma forget_count_simps [simp]:
  "forget_count (Inl e) = Inl e" "forget_count (Inr (m, n, k)) = Inr (m, k)"
  by (simp_all add: forget_count_def)

lemma cfs_scan_count: "forget_count (cfs_scan ps e v n k) = forget_count (cfs_scan ps e v n' k)"
proof (induction ps arbitrary: e v n n' k)
  case (Cons p ps)
  show ?case by (auto split: sum.split intro: Cons.IH)
qed simp

definition cfs_pick :: "nat list \<Rightarrow> nat option \<Rightarrow> kernel \<Rightarrow> string + nat option \<times> kernel" where
  "cfs_pick ps e k =
     forget_count (cfs_scan ps e (case e of None \<Rightarrow> -1 | Some i \<Rightarrow> vruntime (proc k ! i)) 0 k)"

interpretation cfs: lock_scan cfs_pick vruntime
  by unfold_locales
    (auto simp: cfs_pick_def acquire_free acquire_release release_opt_def release_held
      intro: cfs_scan_count)

section \<open>Properties of the schedulers\<close>

text \<open>
  What \<open>swtch\<close> and the code that runs until the switch back guarantee: the hart comes back holding
  the lock of the process it ran, and no other.
\<close>

definition keeps_locks :: "(nat \<Rightarrow> kernel \<Rightarrow> kernel) \<Rightarrow> bool" where
  "keeps_locks swtch \<longleftrightarrow> (\<forall>i k. held (swtch i k) = held k)"

lemma held_simps [simp]:
  "held (set_proc i f k) = held k" "held (kprintf fmt vs k) = held k"
  "keeps_locks swtch \<Longrightarrow> held (switch_to swtch i k) = held k"
  by (simp_all add: set_proc_def kprintf_def switch_to_def keeps_locks_def)

text \<open>
  FCFS: an iteration of the scheduler that starts without locks never panics and ends without
  locks; it runs a process exactly when some process is runnable, and then one that is runnable and
  was created no later than any other runnable process.
\<close>

theorem fcfs_runs_earliest:
  assumes "held k = {}" "keeps_locks swtch"
  shows "(if \<forall>i < NPROC. \<not> runnable_in k i then scheduler_fcfs swtch k = Inr k
    else \<exists>m k'. m < NPROC \<and> runnable_in k m \<and>
      (\<forall>i < NPROC. runnable_in k i \<longrightarrow> ctime (proc k ! m) \<le> ctime (proc k ! i)) \<and>
      scheduler_fcfs swtch k = Inr k' \<and> held k' = {} \<and>
      k' = (switch_to swtch m (k\<lparr>held := {m}\<rparr>))\<lparr>cpu_proc := None, held := {}\<rparr>)"
  using assms(1)
proof (cases rule: fcfs.scan_selects [of k])
  case 1
  then show ?thesis by (simp add: scheduler_fcfs_def)
next
  case (2 m)
  have "scheduler_fcfs swtch k =
      Inr ((switch_to swtch m (k\<lparr>held := {m}\<rparr>))\<lparr>cpu_proc := None, held := {}\<rparr>)"
    using 2(1) assms(2) by (simp add: scheduler_fcfs_def release_def)
  then show ?thesis using 2 by auto
qed

definition one_runnable :: kernel where
  "one_runnable = \<lparr>proc = (replicate NPROC \<lparr>state = UNUSED, pid = 0, ctime = 0, nice = 0, vruntime = 0,
       weight = 0, runtime = 0, queue = 0, time_slice = 0, queue_enter_time = 0\<rparr>)
     [3 := \<lparr>state = RUNNABLE, pid = 7, ctime = 5, nice = 0, vruntime = 0, weight = 1024, runtime = 0,
       queue = 0, time_slice = 1, queue_enter_time = 5\<rparr>],
     held = {}, cpu_proc = None, ticks = 9, console = [], ran = []\<rparr>"

lemma one_runnable_simps:
  "held one_runnable = {}" "i < NPROC \<Longrightarrow> runnable_in one_runnable i \<longleftrightarrow> i = 3"
  by (auto simp: one_runnable_def runnable_in_def NPROC_def nth_list_update)

lemma some_runnable: "(\<forall>i < NPROC. \<not> runnable_in one_runnable i) = False"
  using one_runnable_simps(2) [of 3] by (auto simp: NPROC_def intro!: exI [of _ 3])

lemma keeps_locks_id: "keeps_locks (\<lambda>i k. k)"
  by (simp add: keeps_locks_def)

theorem fcfs_runs_earliest_witness:
  "\<exists>k'. scheduler_fcfs (\<lambda>i k. k) one_runnable = Inr k' \<and> held k' = {} \<and> ran k' = [3]"
proof -
  obtain m k' where m: "m < NPROC" "runnable_in one_runnable m" "held k' = {}"
    "scheduler_fcfs (\<lambda>i k. k) one_runnable = Inr k'"
    "k' = (switch_to (\<lambda>i k. k) m (one_runnable\<lparr>held := {m}\<rparr>))\<lparr>cpu_proc := None, held := {}\<rparr>"
    using fcfs_runs_earliest [OF one_runnable_simps(1) keeps_locks_id] unfolding some_runnable if_False by blast
  then have "m = 3" using one_runnable_simps(2) by simp
  then have "ran k' = [3]" by (simp add: m(5) switch_to_def one_runnable_def)
  then show ?thesis using m by blast
qed

lemma cfs_log_panics: "m \<in> held k \<Longrightarrow> m \<in> set ps \<Longrightarrow> \<exists>e. cfs_log ps k = Inl e"
proof (induction ps arbitrary: k)
  case (Cons p ps)
  show ?case
  proof (cases "p \<in> held k")
    case False
    then have "p \<noteq> m" "m \<in> set ps" using Cons.prems by auto
    define k1 where "k1 = k\<lparr>held := insert p (held k)\<rparr>"
    define k2 where "k2 = (if state (proc k1 ! p) = RUNNABLE
        then kprintf ''PID: %d | vRuntime: %d\<newline>''
          [D (pid (proc k1 ! p)), D (uint (vruntime (proc k1 ! p)))] k1 else k1)"
    have held: "held k2 = insert p (held k)" by (simp add: k2_def k1_def)
    have "cfs_log (p # ps) k = cfs_log ps (k2\<lparr>held := held k2 - {p}\<rparr>)"
      using False by (simp add: acquire_free k1_def [symmetric] k2_def [symmetric] release_held held)
    then show ?thesis
      using Cons.IH [of "k2\<lparr>held := held k2 - {p}\<rparr>"] held Cons.prems(1) \<open>p \<noteq> m\<close> \<open>m \<in> set ps\<close> by simp
  qed (simp add: acquire_def)
qed simp

text \<open>
  C39. The CFS scheduler cannot schedule: it keeps the lock of the process it selected while the
  loop that logs the decision acquires every lock of the table, so an iteration panics whenever a
  process is runnable, and does nothing otherwise.
\<close>

theorem cfs_always_panics:
  assumes "held k = {}"
  shows "(if \<forall>i < NPROC. \<not> runnable_in k i then scheduler_cfs swtch k = Inr k
    else \<exists>e. scheduler_cfs swtch k = Inl e)"
  using assms
proof (cases rule: cfs.scan_selects [of k])
  case 1
  then have "forget_count (cfs_scan [0..<NPROC] None (-1) 0 k) = Inr (None, k)"
    by (simp add: cfs_pick_def)
  then obtain n where "cfs_scan [0..<NPROC] None (-1) 0 k = Inr (None, n, k)"
    by (auto simp: forget_count_def split: sum.splits)
  then show ?thesis using 1 by (simp add: scheduler_cfs_def)
next
  case (2 m)
  then have "forget_count (cfs_scan [0..<NPROC] None (-1) 0 k) = Inr (Some m, k\<lparr>held := {m}\<rparr>)"
    by (simp add: cfs_pick_def)
  then obtain n where n: "cfs_scan [0..<NPROC] None (-1) 0 k = Inr (Some m, n, k\<lparr>held := {m}\<rparr>)"
    by (auto simp: forget_count_def split: sum.splits)
  obtain e where "cfs_log [0..<NPROC] (kprintf ''[Scheduler Tick]\<newline>'' [] (k\<lparr>held := {m}\<rparr>)) = Inl e"
    using cfs_log_panics [of m "kprintf ''[Scheduler Tick]\<newline>'' [] (k\<lparr>held := {m}\<rparr>)" "[0..<NPROC]"] 2(2)
    by auto
  then show ?thesis using 2 n by (auto simp: scheduler_cfs_def)
qed

theorem cfs_always_panics_witness: "\<exists>e. scheduler_cfs (\<lambda>i k. k) one_runnable = Inl e"
  using cfs_always_panics [OF one_runnable_simps(1), of "\<lambda>i k. k"] unfolding some_runnable by simp

section \<open>Weights and slices\<close>

section \<open>Weights and slices\<close>

definition weight_list :: "int list" where
  "weight_list = [88772, 71018, 56815, 45452, 36362, 29090, 23272, 18618, 14895, 11916, 9533, 7627,
     6102, 4882, 3906, 3125, 2500, 2000, 1600, 1280, 1024, 819, 655, 524, 419, 335, 268, 214, 171,
     136, 108, 86, 68, 54, 43, 34, 27, 21, 16, 15]"

lemma weight_table: "map (\<lambda>n. uint (calculate_weight n)) [-20..19] = weight_list"
  by code_simp

lemma weight_nth:
  assumes "-20 \<le> n" "n \<le> 19"
  shows "uint (calculate_weight n) = weight_list ! nat (n + 20)"
proof -
  have "uint (calculate_weight ([-20..19] ! nat (n + 20))) =
      map (\<lambda>n. uint (calculate_weight n)) [-20..19] ! nat (n + 20)"
    using assms by (intro nth_map [symmetric]) simp
  moreover have "[-20..19] ! nat (n + 20) = -20 + int (nat (n + 20))"
    by (rule nth_upto) (use assms in simp)
  moreover have "-20 + int (nat (n + 20)) = n" using assms by simp
  ultimately show ?thesis unfolding weight_table by (simp only:)
qed

text \<open>
  Over the documented range of nice values the weight strictly falls, is at least 15, so that
  the division by it is defined, and at nice 0 it is 1024; a process therefore pays for the same run
  time with at least as much virtual run time as any process of a lower nice value.
\<close>

theorem weights_decrease:
  assumes "-20 \<le> n" "n < m" "m \<le> 19"
  shows "calculate_weight m < calculate_weight n \<and> 15 \<le> calculate_weight m \<and>
    calculate_weight 0 = 1024 \<and>
    (elapsed * 1024) div calculate_weight n \<le> (elapsed * 1024) div calculate_weight m"
proof -
  have idx: "nat (n + 20) < nat (m + 20)" "nat (m + 20) < length weight_list"
    using assms by (simp_all add: weight_list_def)
  have "sorted_wrt (>) weight_list \<and> (\<forall>w \<in> set weight_list. 15 \<le> w)" by (simp add: weight_list_def)
  then have "weight_list ! nat (m + 20) < weight_list ! nat (n + 20)" "15 \<le> weight_list ! nat (m + 20)"
    using idx by (auto simp: sorted_wrt_iff_nth_less)
  then have w: "uint (calculate_weight m) < uint (calculate_weight n)" "15 \<le> uint (calculate_weight m)"
    using assms weight_nth [of n] weight_nth [of m] by simp_all
  have "uint (elapsed * 1024) div uint (calculate_weight n) \<le> uint (elapsed * 1024) div uint (calculate_weight m)"
    using w by (intro zdiv_mono2) simp_all
  then show ?thesis
    using w by (simp add: word_less_def word_le_def uint_div calculate_weight_def)
qed

theorem weights_decrease_witness: "calculate_weight 5 < calculate_weight (-3)"
  using weights_decrease [of "-3" 5 0] by simp

section \<open>The other schedulers\<close>

text \<open>What a process that runs leaves alone: the states of the others and the list of switches.\<close>

definition runs_alone :: "(nat \<Rightarrow> kernel \<Rightarrow> kernel) \<Rightarrow> bool" where
  "runs_alone swtch \<longleftrightarrow> (\<forall>i k. ran (swtch i k) = ran k \<and> length (proc (swtch i k)) = length (proc k) \<and>
     (\<forall>j. j \<noteq> i \<longrightarrow> state (proc (swtch i k) ! j) = state (proc k ! j)))"

lemma rr_round_order:
  assumes "keeps_locks swtch" "runs_alone swtch"
  shows "distinct ps \<Longrightarrow> held k = {} \<Longrightarrow>
     \<exists>k'. rr_round swtch ps k = Inr k' \<and> held k' = {} \<and> ran k' = ran k @ filter (runnable_in k) ps"
proof (induction ps arbitrary: k)
  case (Cons p ps)
  define k1 where "k1 = (let k = k\<lparr>held := {p}\<rparr> in
      if state (proc k ! p) = RUNNABLE then (switch_to swtch p k)\<lparr>cpu_proc := None\<rparr> else k)"
  have held: "held k1 = {p}" using assms(1) by (simp add: k1_def Let_def)
  have ran: "ran k1 = ran k @ filter (runnable_in k) [p]"
    using assms(2) by (simp add: k1_def Let_def switch_to_def runs_alone_def runnable_in_def)
  have other: "runnable_in (k1\<lparr>held := {}\<rparr>) j = runnable_in k j" if "j \<in> set ps" for j
  proof -
    have "j \<noteq> p" using that Cons.prems(1) by auto
    then show ?thesis
      using assms(2) by (simp add: k1_def Let_def switch_to_def runs_alone_def runnable_in_def set_proc_def)
  qed
  obtain k' where k': "rr_round swtch ps (k1\<lparr>held := {}\<rparr>) = Inr k'" "held k' = {}"
    "ran k' = ran k1 @ filter (runnable_in (k1\<lparr>held := {}\<rparr>)) ps"
    using Cons.IH [of "k1\<lparr>held := {}\<rparr>"] Cons.prems(1) by auto
  have "rr_round swtch (p # ps) k =
      (case release p k1 of Inl e \<Rightarrow> Inl e | Inr k \<Rightarrow> rr_round swtch ps k)"
    using Cons.prems(2) by (simp add: acquire_free k1_def Let_def)
  then have "rr_round swtch (p # ps) k = rr_round swtch ps (k1\<lparr>held := {}\<rparr>)"
    using held by (simp add: release_held)
  moreover have "filter (runnable_in (k1\<lparr>held := {}\<rparr>)) ps = filter (runnable_in k) ps"
    using other by (rule filter_cong [OF refl])
  ultimately show ?case using k' ran by auto
qed simp

text \<open>
  Round robin is fair within a round: every process that is runnable at the start is switched
  to exactly once, in the order of the table, no other is, nothing panics and no lock is left held.
\<close>

theorem rr_runs_each_once:
  assumes "held k = {}" "keeps_locks swtch" "runs_alone swtch"
  shows "\<exists>k'. scheduler_rr swtch k = Inr k' \<and> held k' = {} \<and>
    ran k' = ran k @ filter (runnable_in k) [0..<NPROC]"
  using rr_round_order [OF assms(2,3), of "[0..<NPROC]" k] assms(1) by (simp add: scheduler_rr_def)

theorem rr_runs_each_once_witness:
  "\<exists>k'. scheduler_rr (\<lambda>i k. k) one_runnable = Inr k' \<and> ran k' = filter (\<lambda>i. i = 3) [0..<NPROC]"
proof -
  have "filter (runnable_in one_runnable) [0..<NPROC] = filter (\<lambda>i. i = 3) [0..<NPROC]"
    by (rule filter_cong [OF refl]) (use one_runnable_simps(2) in simp)
  moreover have "ran one_runnable = []" by (simp add: one_runnable_def)
  ultimately show ?thesis
    using rr_runs_each_once [OF one_runnable_simps(1) keeps_locks_id] by (force simp: runs_alone_def)
qed

definition boosted :: "proc \<Rightarrow> proc" where
  "boosted p = (if state p = RUNNABLE \<or> state p = RUNNING then p\<lparr>queue := 0, time_slice := 1\<rparr> else p)"

lemma held_empty: "held k = {} \<Longrightarrow> k\<lparr>held := {}\<rparr> = k" "held k = {} \<Longrightarrow> k\<lparr>proc := ps, held := {}\<rparr> = k\<lparr>proc := ps\<rparr>"
  by (cases k; simp)+

lemma mlfq_boost_all:
  "distinct ps \<Longrightarrow> held k = {} \<Longrightarrow> \<forall>p \<in> set ps. p < length (proc k) \<Longrightarrow>
     \<exists>k'. mlfq_boost ps k = Inr k' \<and> held k' = {} \<and> ticks k' = ticks k \<and> length (proc k') = length (proc k) \<and>
       (\<forall>j < length (proc k). proc k' ! j = (if j \<in> set ps then boosted (proc k ! j) else proc k ! j))"
proof (induction ps arbitrary: k)
  case (Cons p ps)
  define k1 where "k1 = k\<lparr>proc := (proc k)[p := boosted (proc k ! p)]\<rparr>"
  have "mlfq_boost (p # ps) k = mlfq_boost ps k1"
    using Cons.prems
    by (auto simp: acquire_free k1_def boosted_def set_proc_def release_def queue_time_slices_def
        held_empty list_update_id)
  moreover obtain k' where k': "mlfq_boost ps k1 = Inr k'" "held k' = {}" "ticks k' = ticks k1"
    "length (proc k') = length (proc k1)"
    "\<forall>j < length (proc k1). proc k' ! j = (if j \<in> set ps then boosted (proc k1 ! j) else proc k1 ! j)"
    using Cons.IH [of k1] Cons.prems by (auto simp: k1_def)
  moreover have "proc k' ! j = (if j \<in> set (p # ps) then boosted (proc k ! j) else proc k ! j)"
    if "j < length (proc k)" for j
    using that k'(5) Cons.prems(1) by (cases "j = p") (auto simp: k1_def)
  ultimately show ?case by (simp add: k1_def del: mlfq_boost.simps)
qed simp

lemma mlfq_find_first:
  "distinct ps \<Longrightarrow> held k = {} \<Longrightarrow>
     mlfq_find q ps k =
       (case filter (\<lambda>i. runnable_in k i \<and> queue (proc k ! i) = q) ps of
          [] \<Rightarrow> Inr (None, k) | p # _ \<Rightarrow> Inr (Some p, k\<lparr>held := {p}\<rparr>))"
proof (induction ps)
  case (Cons p ps)
  then show ?case
    by (auto simp: acquire_free runnable_in_def release_def held_empty split: list.split)
qed simp

lemma mlfq_select_first:
  assumes "held k = {}"
  shows "sorted qs \<Longrightarrow> mlfq_select qs k = Inr (None, k) \<and>
      (\<forall>i < NPROC. runnable_in k i \<longrightarrow> queue (proc k ! i) \<notin> set qs) \<or>
    (\<exists>p. mlfq_select qs k = Inr (Some p, k\<lparr>held := {p}\<rparr>) \<and> p < NPROC \<and> runnable_in k p \<and>
      queue (proc k ! p) \<in> set qs \<and>
      (\<forall>i < NPROC. runnable_in k i \<longrightarrow> queue (proc k ! i) \<in> set qs \<longrightarrow>
         queue (proc k ! p) \<le> queue (proc k ! i)))"
proof (induction qs)
  case (Cons q qs)
  let ?f = "filter (\<lambda>i. runnable_in k i \<and> queue (proc k ! i) = q) [0..<NPROC]"
  show ?case
  proof (cases ?f)
    case Nil
    then have none: "\<forall>i < NPROC. runnable_in k i \<longrightarrow> queue (proc k ! i) \<noteq> q"
      by (auto simp: filter_empty_conv)
    have "mlfq_select (q # qs) k = mlfq_select qs k"
      using Nil mlfq_find_first [of "[0..<NPROC]" k q] assms by simp
    then show ?thesis using Cons none by (simp del: mlfq_select.simps) blast
  next
    case (Cons p ps)
    then have p: "p \<in> set ?f" by simp
    have "mlfq_select (q # qs) k = Inr (Some p, k\<lparr>held := {p}\<rparr>)"
      using Cons mlfq_find_first [of "[0..<NPROC]" k q] assms by simp
    then show ?thesis using p \<open>sorted (q # qs)\<close> by (intro disjI2 exI [of _ p]) (auto simp del: mlfq_select.simps)
  qed
qed simp

definition queues_ok :: "kernel \<Rightarrow> bool" where
  "queues_ok k \<longleftrightarrow> length (proc k) = NPROC \<and> (\<forall>i < NPROC. queue (proc k ! i) \<in> {0, 1, 2, 3})"

text \<open>What follows the boost in an iteration: the selection, the switch and the accounting.\<close>

definition mlfq_rest :: "(nat \<Rightarrow> kernel \<Rightarrow> kernel) \<Rightarrow> 64 word \<Rightarrow> kernel \<Rightarrow> string + 64 word \<times> kernel" where
  "mlfq_rest swtch lb k =
     (case mlfq_select [0, 1, 2, 3] k of
        Inl e \<Rightarrow> Inl e
      | Inr (None, k) \<Rightarrow> Inr (lb, k)
      | Inr (Some p, k) \<Rightarrow>
          let start_ticks = ucast (ticks k);
              k = switch_to swtch p k;
              elapsed = ucast (ticks k) - start_ticks;
              k = set_proc p (mlfq_charge elapsed) k
          in (case release p (k\<lparr>cpu_proc := None\<rparr>) of Inl e \<Rightarrow> Inl e | Inr k \<Rightarrow> Inr (lb, k)))"

lemma mlfq_rest_runs:
  assumes "held k = {}" "keeps_locks swtch" "\<forall>i < NPROC. queue (proc k ! i) \<in> {0, 1, 2, 3}"
  shows "if \<forall>i < NPROC. \<not> runnable_in k i then mlfq_rest swtch lb k = Inr (lb, k)
    else \<exists>p k'. mlfq_rest swtch lb k = Inr (lb, k') \<and> held k' = {} \<and> p < NPROC \<and> runnable_in k p \<and>
      (\<forall>i < NPROC. runnable_in k i \<longrightarrow> queue (proc k ! p) \<le> queue (proc k ! i)) \<and>
      ran k' = ran (switch_to swtch p (k\<lparr>held := {p}\<rparr>))"
proof -
  have sorted: "sorted [0, 1, 2, 3 :: int]" by simp
  have q: "\<forall>i < NPROC. queue (proc k ! i) \<in> set [0, 1, 2, 3]" using assms(3) by simp
  from mlfq_select_first [OF assms(1) sorted] show ?thesis
  proof
    assume a: "mlfq_select [0, 1, 2, 3] k = Inr (None, k) \<and>
      (\<forall>i < NPROC. runnable_in k i \<longrightarrow> queue (proc k ! i) \<notin> set [0, 1, 2, 3])"
    then have "\<forall>i < NPROC. \<not> runnable_in k i" using q by blast
    moreover have "mlfq_rest swtch lb k = Inr (lb, k)"
      unfolding mlfq_rest_def using a by (simp del: mlfq_select.simps)
    ultimately show ?thesis by simp
  next
    assume "\<exists>p. mlfq_select [0, 1, 2, 3] k = Inr (Some p, k\<lparr>held := {p}\<rparr>) \<and> p < NPROC \<and>
      runnable_in k p \<and> queue (proc k ! p) \<in> set [0, 1, 2, 3] \<and>
      (\<forall>i < NPROC. runnable_in k i \<longrightarrow> queue (proc k ! i) \<in> set [0, 1, 2, 3] \<longrightarrow>
         queue (proc k ! p) \<le> queue (proc k ! i))"
    then obtain p where p: "mlfq_select [0, 1, 2, 3] k = Inr (Some p, k\<lparr>held := {p}\<rparr>)" "p < NPROC"
      "runnable_in k p" "\<forall>i < NPROC. runnable_in k i \<longrightarrow> queue (proc k ! p) \<le> queue (proc k ! i)"
      using q by blast
    define k2 where "k2 = switch_to swtch p (k\<lparr>held := {p}\<rparr>)"
    have "held k2 = {p}" using assms(2) by (simp add: k2_def)
    then have "\<exists>k'. mlfq_rest swtch lb k = Inr (lb, k') \<and> held k' = {} \<and> ran k' = ran k2"
      unfolding mlfq_rest_def p(1) by (simp add: Let_def k2_def [symmetric] release_def set_proc_def)
    then show ?thesis using p unfolding k2_def by auto
  qed
qed

lemma scheduler_mlfq_boost:
  assumes "held k = {}" "length (proc k) = NPROC"
  shows "\<exists>k1. scheduler_mlfq swtch last_boost k =
      (if ucast (ticks k) - last_boost \<ge> (48 :: 64 word) then mlfq_rest swtch (ucast (ticks k)) k1
       else mlfq_rest swtch last_boost k1) \<and> held k1 = {} \<and>
    (if ucast (ticks k) - last_boost \<ge> (48 :: 64 word)
     then \<forall>j < NPROC. proc k1 ! j = boosted (proc k ! j) else k1 = k)"
proof -
  define boost where "boost = (ucast (ticks k) - last_boost \<ge> (48 :: 64 word))"
  obtain k1 where k1: "(if boost then mlfq_boost [0..<NPROC] k else Inr k) = Inr k1" "held k1 = {}"
    "ticks k1 = ticks k" "\<forall>j < NPROC. boost \<longrightarrow> proc k1 ! j = boosted (proc k ! j)" "\<not> boost \<Longrightarrow> k1 = k"
    using mlfq_boost_all [of "[0..<NPROC]" k] assms by (cases boost) auto
  have "scheduler_mlfq swtch last_boost k = mlfq_rest swtch (if boost then ucast (ticks k1) else last_boost) k1"
    unfolding scheduler_mlfq_def Let_def BOOST_INTERVAL_def boost_def [symmetric] k1(1) sum.case mlfq_rest_def
    by (rule refl)
  then show ?thesis
    unfolding boost_def [symmetric] using k1(2-5) by (intro exI [of _ k1]) auto
qed

text \<open>
  C33. MLFQ: an iteration that starts without locks never panics and ends without locks. After a
  boost, which comes when 48 ticks have passed since the last, every runnable process is in queue 0;
  the scheduler switches to a runnable process whose queue no other runnable process's is above, and
  does nothing more only if none is runnable.
\<close>

theorem mlfq_runs_highest:
  assumes "held k = {}" "keeps_locks swtch" "queues_ok k"
  shows "\<exists>k1 lb. (if ucast (ticks k) - last_boost \<ge> (48 :: 64 word)
        then lb = ucast (ticks k) \<and> (\<forall>i < NPROC. runnable_in k1 i \<longrightarrow> queue (proc k1 ! i) = 0)
        else lb = last_boost \<and> k1 = k) \<and>
      (\<forall>i < NPROC. runnable_in k1 i = runnable_in k i) \<and>
      (if \<forall>i < NPROC. \<not> runnable_in k i then scheduler_mlfq swtch last_boost k = Inr (lb, k1)
       else \<exists>p k'. scheduler_mlfq swtch last_boost k = Inr (lb, k') \<and> held k' = {} \<and>
         p < NPROC \<and> runnable_in k p \<and>
         (\<forall>i < NPROC. runnable_in k i \<longrightarrow> queue (proc k1 ! p) \<le> queue (proc k1 ! i)) \<and>
         ran k' = ran (switch_to swtch p (k1\<lparr>held := {p}\<rparr>)))"
proof -
  define boost where "boost = (ucast (ticks k) - last_boost \<ge> (48 :: 64 word))"
  define lb where "lb = (if boost then ucast (ticks k) else last_boost)"
  obtain k1 where k1: "scheduler_mlfq swtch last_boost k = mlfq_rest swtch lb k1" "held k1 = {}"
    "if boost then \<forall>j < NPROC. proc k1 ! j = boosted (proc k ! j) else k1 = k"
    using scheduler_mlfq_boost [OF assms(1), of swtch last_boost] assms(3)
    unfolding boost_def [symmetric] lb_def queues_ok_def by (cases boost) auto
  have run: "\<forall>i < NPROC. runnable_in k1 i = runnable_in k i"
    using k1(3) by (cases boost) (simp_all add: runnable_in_def boosted_def)
  have zero: "\<forall>i < NPROC. runnable_in k1 i \<longrightarrow> queue (proc k1 ! i) = 0" if boost
    using k1(3) that by (simp add: runnable_in_def boosted_def)
  have q: "\<forall>i < NPROC. queue (proc k1 ! i) \<in> {0, 1, 2, 3}"
    using k1(3) assms(3) by (cases boost) (auto simp: queues_ok_def boosted_def)
  have all: "(\<forall>i < NPROC. \<not> runnable_in k1 i) = (\<forall>i < NPROC. \<not> runnable_in k i)" using run by blast
  have rest: "(\<forall>i < NPROC. runnable_in k1 i \<longrightarrow> P i) = (\<forall>i < NPROC. runnable_in k i \<longrightarrow> P i)" for P
    using run by blast
  have one: "(p < NPROC \<and> runnable_in k1 p \<and> X) = (p < NPROC \<and> runnable_in k p \<and> X)" for p X using run by blast
  note runs = mlfq_rest_runs [OF k1(2) assms(2) q, of lb, unfolded all rest one, folded k1(1)]
  have "if boost then lb = ucast (ticks k) \<and> (\<forall>i < NPROC. runnable_in k1 i \<longrightarrow> queue (proc k1 ! i) = 0)
      else lb = last_boost \<and> k1 = k"
    using zero k1(3) by (simp add: lb_def)
  then show ?thesis
    unfolding boost_def [symmetric] using runs run by blast
qed

theorem mlfq_runs_highest_witness:
  "\<exists>k'. scheduler_mlfq (\<lambda>i k. k) 0 one_runnable = Inr (0, k') \<and> held k' = {} \<and> ran k' = [3]"
proof -
  have q: "queues_ok one_runnable"
    by (auto simp: queues_ok_def one_runnable_def nth_list_update NPROC_def)
  have t: "\<not> ucast (ticks one_runnable) - 0 \<ge> (48 :: 64 word)" by (simp add: one_runnable_def)
  obtain p k' where "scheduler_mlfq (\<lambda>i k. k) 0 one_runnable = Inr (0, k')" "held k' = {}" "p < NPROC"
    "runnable_in one_runnable p" "ran k' = ran (switch_to (\<lambda>i k. k) p (one_runnable\<lparr>held := {p}\<rparr>))"
    using mlfq_runs_highest [OF one_runnable_simps(1) keeps_locks_id q, of 0] t
    unfolding some_runnable if_False by auto
  moreover from this have "p = 3" using one_runnable_simps(2) by simp
  ultimately show ?thesis by (auto simp: switch_to_def one_runnable_def)
qed

text \<open>
  The accounting keeps a process in the four queues with a slice between 1 and 16: it goes down
  one queue, at most to the last, exactly when the ticks it ran use up its slice, and then gets the
  slice of its queue.
\<close>

theorem mlfq_charge_demotes:
  assumes "queue p \<in> {0, 1, 2, 3}" "1 \<le> time_slice p" "time_slice p \<le> 16" "uint elapsed < 2 ^ 31"
  shows "let p' = mlfq_charge elapsed p in
    queue p' = (if uint elapsed \<ge> time_slice p then min 3 (queue p + 1) else queue p) \<and>
    1 \<le> time_slice p' \<and> time_slice p' \<le> 16"
proof -
  define e where "e = uint elapsed"
  have e: "0 \<le> e" by (simp add: e_def)
  then have "to_int32 (time_slice p - e) = time_slice p - e"
    unfolding to_int32_def using assms(2-4) [folded e_def]
    by (intro signed_take_bit_int_eq_self) auto
  then show ?thesis
    unfolding mlfq_charge_def Let_def e_def [symmetric]
    using assms e by (auto simp: QUEUE_COUNT_def queue_time_slices_def)
qed

theorem mlfq_charge_demotes_witness:
  "queue (mlfq_charge 4 (proc one_runnable ! 3)) = 1"
proof -
  have p: "queue (proc one_runnable ! 3) = 0" "time_slice (proc one_runnable ! 3) = 1"
    by (simp_all add: one_runnable_def NPROC_def)
  then show ?thesis using mlfq_charge_demotes [of "proc one_runnable ! 3" 4] by (simp add: Let_def)
qed

lemma find_unused_first:
  "distinct ps \<Longrightarrow> held k = {} \<Longrightarrow>
     find_unused ps k =
       (case filter (\<lambda>i. state (proc k ! i) = UNUSED) ps of
          [] \<Rightarrow> Inr (None, k) | p # _ \<Rightarrow> Inr (Some p, k\<lparr>held := {p}\<rparr>))"
proof (induction ps)
  case (Cons p ps)
  then show ?case by (auto simp: acquire_free release_def held_empty split: list.split)
qed simp

text \<open>
  \<open>allocproc\<close> without locks never panics; it gives a slot exactly when one is unused and both
  allocations succeed, and then holds just that slot's lock; the slot was unused, is now used by the
  new pid and starts the schedulers' accounting afresh, while all other slots are untouched; when it
  fails, no lock is held and no state of a slot has changed.
\<close>

theorem allocproc_outcome:
  assumes "held k = {}" "length (proc k) = NPROC"
  shows "\<exists>r k'. allocproc new_pid ka pa k = Inr (r, k') \<and>
    (case r of
       None \<Rightarrow> held k' = {} \<and> (\<forall>j < NPROC. state (proc k' ! j) = state (proc k ! j)) \<and>
         (ka \<and> pa \<longrightarrow> (\<forall>j < NPROC. state (proc k ! j) \<noteq> UNUSED))
     | Some i \<Rightarrow> i < NPROC \<and> ka \<and> pa \<and> held k' = {i} \<and> state (proc k ! i) = UNUSED \<and>
         state (proc k' ! i) = USED \<and> pid (proc k' ! i) = new_pid \<and> vruntime (proc k' ! i) = 0 \<and>
         weight (proc k' ! i) = 1024 \<and> queue (proc k' ! i) = 0 \<and> time_slice (proc k' ! i) = 1 \<and>
         ctime (proc k' ! i) = ucast (ticks k) \<and>
         (\<forall>j < NPROC. j \<noteq> i \<longrightarrow> proc k' ! j = proc k ! j))"
proof (cases "filter (\<lambda>i. state (proc k ! i) = UNUSED) [0..<NPROC]")
  case Nil
  then have "allocproc new_pid ka pa k = Inr (None, k)"
    using find_unused_first [of "[0..<NPROC]" k] assms by (simp add: allocproc_def)
  moreover have "\<forall>j < NPROC. state (proc k ! j) \<noteq> UNUSED" using Nil by (auto simp: filter_empty_conv)
  ultimately show ?thesis using assms by auto
next
  case (Cons i is')
  then have "i \<in> set (filter (\<lambda>i. state (proc k ! i) = UNUSED) [0..<NPROC])" by simp
  then have i: "i < NPROC" "state (proc k ! i) = UNUSED" by simp_all
  have find: "find_unused [0..<NPROC] k = Inr (Some i, k\<lparr>held := {i}\<rparr>)"
    using Cons find_unused_first [of "[0..<NPROC]" k] assms by simp
  show ?thesis
  proof (cases "ka \<and> pa")
    case True
    then show ?thesis using i assms
      by (simp add: allocproc_def find set_proc_def init_sched_def calculate_weight_def)
  next
    case False
    then show ?thesis using i assms
      by (auto simp: allocproc_def find set_proc_def release_def nth_list_update)
  qed
qed

theorem allocproc_outcome_witness:
  "\<exists>i k'. allocproc 9 True True one_runnable = Inr (Some i, k') \<and> pid (proc k' ! i) = 9"
proof -
  have "length (proc one_runnable) = NPROC" by (simp add: one_runnable_def)
  from allocproc_outcome [OF one_runnable_simps(1) this, of 9 True True]
  obtain r k' where r: "allocproc 9 True True one_runnable = Inr (r, k')"
    "case r of None \<Rightarrow> \<forall>j < NPROC. state (proc one_runnable ! j) \<noteq> UNUSED
     | Some i \<Rightarrow> pid (proc k' ! i) = 9" by (auto split: option.splits)
  have "state (proc one_runnable ! 0) = UNUSED" by (simp add: one_runnable_def NPROC_def)
  then show ?thesis using r by (cases r) (auto simp: NPROC_def)
qed

text \<open>
  \<open>getreadcount\<close> returns the number of bytes all reads returned since the counter was at its
  start value, failed reads not counted, modulo 2^64.
\<close>

theorem readcount_sums:
  "sys_getreadcount (fold (\<lambda>r s. snd (fileread r s)) rs (off, start)) =
     start + word_of_int (\<Sum>r \<leftarrow> rs. max 0 r)"
proof (induction rs arbitrary: off start)
  case Nil
  then show ?case by (simp add: sys_getreadcount_def)
next
  case (Cons r rs)
  show ?case
    using Cons [of "if r > 0 then off + word_of_int r else off"
        "if r > 0 then start + word_of_int r else start"]
    by (auto simp: fileread_def max_def)
qed

end
