(* ===== verification/XvGrep.thy ===== *)
theory XvGrep
  imports Prelude
begin

text \<open>
  \<open>xv6/xv6-source/user/grep.c\<close>: the regular expression matcher and the loop that cuts the input into
  lines in a buffer of 1024 bytes. Text and patterns are C strings, without NUL. The sizes of the
  successive reads are a parameter; opening the files and the exits of \<open>main\<close> are not modelled.
\<close>

section \<open>The matcher\<close>

function matchhere :: "string \<Rightarrow> string \<Rightarrow> bool"
  and matchstar :: "char \<Rightarrow> string \<Rightarrow> string \<Rightarrow> bool" where
  "matchhere re text =
     (if re = [] then True
      else if tl re \<noteq> [] \<and> hd (tl re) = CHR 0x2A then matchstar (hd re) (tl (tl re)) text
      else if hd re = CHR ''$'' \<and> tl re = [] then text = []
      else if text \<noteq> [] \<and> (hd re = CHR ''.'' \<or> hd re = hd text) then matchhere (tl re) (tl text)
      else False)"
| "matchstar c re text =
     (if matchhere re text then True
      else if text \<noteq> [] \<and> (hd text = c \<or> c = CHR ''.'') then matchstar c re (tl text)
      else False)"
  by pat_completeness auto
termination
  by (relation "measure (\<lambda>x. case x of Inl (re, text) \<Rightarrow> 2 * length re + length text
        | Inr (c, re, text) \<Rightarrow> 2 * length re + length text + 1)")
    (auto simp: length_greater_0_conv [symmetric] simp del: length_greater_0_conv)

declare matchhere.simps [simp del] matchstar.simps [simp del]

fun match_from :: "string \<Rightarrow> string \<Rightarrow> bool" where
  "match_from re [] = matchhere re []"
| "match_from re (c # text) = (if matchhere re (c # text) then True else match_from re text)"

definition match :: "string \<Rightarrow> string \<Rightarrow> bool" where
  "match re text =
     (if re \<noteq> [] \<and> hd re = CHR ''^'' then matchhere (tl re) text else match_from re text)"

section \<open>What a pattern means\<close>

text \<open>
  A tx begins with a match of a pattern: a starred character matches any run of that character, a
  final dollar the end of the tx, any other character itself, and a dot every character.
\<close>

definition char_matches :: "char \<Rightarrow> char \<Rightarrow> bool" where
  "char_matches c x \<longleftrightarrow> c = CHR ''.'' \<or> x = c"

inductive begins :: "string \<Rightarrow> string \<Rightarrow> bool" where
  begins_empty: "begins [] tx"
| begins_star: "\<forall>x \<in> set u. char_matches c x \<Longrightarrow> begins re v \<Longrightarrow> begins (c # CHR 0x2A # re) (u @ v)"
| begins_end: "begins ''$'' []"
| begins_char: "take 1 re \<noteq> [CHR 0x2A] \<Longrightarrow> \<not> (c = CHR ''$'' \<and> re = []) \<Longrightarrow> char_matches c x \<Longrightarrow>
    begins re tx \<Longrightarrow> begins (c # re) (x # tx)"

lemma take_1_star: "take 1 re = [CHR 0x2A] \<longleftrightarrow> re \<noteq> [] \<and> hd re = CHR 0x2A"
  by (cases re) auto

inductive_cases begins_starE: "begins (c # CHR 0x2A # re) tx"
inductive_cases begins_ConsE: "begins (c # re) tx"

lemma begins_star_iff:
  "begins (c # CHR 0x2A # re) tx \<longleftrightarrow>
     (\<exists>u v. tx = u @ v \<and> (\<forall>x \<in> set u. char_matches c x) \<and> begins re v)"
proof
  assume "begins (c # CHR 0x2A # re) tx"
  then show "\<exists>u v. tx = u @ v \<and> (\<forall>x \<in> set u. char_matches c x) \<and> begins re v"
    by (cases rule: begins.cases) (auto simp del: set_append)
qed (auto intro: begins_star)

lemma begins_other_iff:
  assumes "take 1 re \<noteq> [CHR 0x2A]"
  shows "begins (c # re) tx \<longleftrightarrow>
    (if c = CHR ''$'' \<and> re = [] then tx = []
     else tx \<noteq> [] \<and> char_matches c (hd tx) \<and> begins re (tl tx))"
proof
  assume "begins (c # re) tx"
  then show "if c = CHR ''$'' \<and> re = [] then tx = []
     else tx \<noteq> [] \<and> char_matches c (hd tx) \<and> begins re (tl tx)"
    by (rule begins_ConsE) (use assms in auto)
next
  assume "if c = CHR ''$'' \<and> re = [] then tx = []
     else tx \<noteq> [] \<and> char_matches c (hd tx) \<and> begins re (tl tx)"
  then show "begins (c # re) tx"
    using assms by (cases tx) (auto split: if_splits intro: begins_end begins_char)
qed

lemma star_unfold:
  "(\<exists>u v. tx = u @ v \<and> (\<forall>x \<in> set u. char_matches c x) \<and> P v) \<longleftrightarrow>
     P tx \<or> (tx \<noteq> [] \<and> char_matches c (hd tx) \<and>
       (\<exists>u v. tl tx = u @ v \<and> (\<forall>x \<in> set u. char_matches c x) \<and> P v))" (is "?l \<longleftrightarrow> ?r")
proof
  assume ?l
  then obtain u v where uv: "tx = u @ v" "\<forall>x \<in> set u. char_matches c x" "P v" by blast
  show ?r
  proof (cases u)
    case Nil
    then show ?thesis using uv by simp
  next
    case (Cons a w)
    then show ?thesis using uv by (intro disjI2) auto
  qed
next
  assume ?r
  then show ?l
  proof
    assume "P tx"
    then show ?l by (intro exI [of _ "[]"] exI [of _ tx]) simp
  next
    assume r: "tx \<noteq> [] \<and> char_matches c (hd tx) \<and>
       (\<exists>u v. tl tx = u @ v \<and> (\<forall>x \<in> set u. char_matches c x) \<and> P v)"
    then obtain u v where "tl tx = u @ v" "\<forall>x \<in> set u. char_matches c x" "P v" by blast
    with r show ?l by (intro exI [of _ "hd tx # u"] exI [of _ v]) (cases tx; simp)
  qed
qed

lemma matchhere_begins:
  "matchhere re tx = begins re tx"
  "matchstar c re tx = (\<exists>u v. tx = u @ v \<and> (\<forall>x \<in> set u. char_matches c x) \<and> begins re v)"
proof (induction re tx and c re tx rule: matchhere_matchstar.induct)
  case (1 re tx)
  show ?case
  proof (cases re)
    case Nil
    then show ?thesis by (simp add: matchhere.simps [of "[]"] begins_empty)
  next
    case (Cons c re')
    show ?thesis
    proof (cases "take 1 re' = [CHR 0x2A]")
      case True
      then obtain re'' where re': "re' = CHR 0x2A # re''" by (cases re') auto
      have "matchhere re tx = matchstar c re'' tx" 
        unfolding Cons re' by (subst matchhere.simps) simp
      then show ?thesis using 1(1) by (simp add: Cons re' begins_star_iff)
    next
      case False
      then have star: "\<not> (re' \<noteq> [] \<and> hd re' = CHR 0x2A)"
        unfolding take_1_star .
      have "matchhere re tx =
        (if c = CHR ''$'' \<and> re' = [] then tx = []
         else tx \<noteq> [] \<and> char_matches c (hd tx) \<and> matchhere re' (tl tx))"
        unfolding Cons using star by (subst matchhere.simps) (auto simp: char_matches_def)
      also have "\<dots> = begins re tx"
        unfolding Cons begins_other_iff [OF False]
        using 1(2) star by (auto simp: Cons char_matches_def)
      finally show ?thesis .
    qed
  qed
next
  case (2 c re tx)
  have "matchstar c re tx = (matchhere re tx \<or>
      (tx \<noteq> [] \<and> char_matches c (hd tx) \<and> matchstar c re (tl tx)))"
    by (auto simp: matchstar.simps [of c re tx] char_matches_def)
  also have "\<dots> = (begins re tx \<or> (tx \<noteq> [] \<and> char_matches c (hd tx) \<and>
      (\<exists>u v. tl tx = u @ v \<and> (\<forall>x \<in> set u. char_matches c x) \<and> begins re v)))"
    using 2 by (auto simp: char_matches_def)
  also have "\<dots> = (\<exists>u v. tx = u @ v \<and> (\<forall>x \<in> set u. char_matches c x) \<and> begins re v)"
    by (rule star_unfold [symmetric])
  finally show ?case .
qed

lemma match_from_suffix: "match_from re tx \<longleftrightarrow> (\<exists>u v. tx = u @ v \<and> begins re v)"
proof (induction tx)
  case Nil
  then show ?case by (simp add: matchhere_begins)
next
  case (Cons c tx)
  have "(\<exists>u v. c # tx = u @ v \<and> begins re v) \<longleftrightarrow>
      begins re (c # tx) \<or> (\<exists>u v. tx = u @ v \<and> begins re v)"
    by (metis append_Cons append_Nil append_eq_Cons_conv)
  then show ?case using Cons by (simp add: matchhere_begins)
qed

lemma match_iff:
  "match re tx \<longleftrightarrow>
     (if take 1 re = ''^'' then begins (drop 1 re) tx else \<exists>u v. tx = u @ v \<and> begins re v)"
proof -
  have "take 1 re = ''^'' \<longleftrightarrow> re \<noteq> [] \<and> hd re = CHR ''^''" by (cases re) auto
  then show ?thesis by (simp add: match_def matchhere_begins match_from_suffix drop_Suc)
qed

text \<open>
  C31. The matcher implements its pattern language: a pattern that begins with a circumflex matches
  exactly the texts that begin with a match of the rest, any other pattern the texts some part of
  which begins with a match; the search over all splits of a starred run is complete.
\<close>

theorem match_correct:
  "match re text \<longleftrightarrow>
     (if take 1 re = ''^'' then begins (drop 1 re) text else \<exists>u v. text = u @ v \<and> begins re v)"
  by (rule match_iff)

section \<open>The lines of the input\<close>

text \<open>
  The inner loop on a filled buffer: the lines it writes, and what is left after the last newline.
\<close>

function grep_lines :: "string \<Rightarrow> string \<Rightarrow> string list \<times> string" where
  "grep_lines pattern p =
     (if CHR ''\<newline>'' \<in> set p then
        let line = takeWhile (\<lambda>c. c \<noteq> CHR ''\<newline>'') p;
            (out, rest) = grep_lines pattern (tl (dropWhile (\<lambda>c. c \<noteq> CHR ''\<newline>'') p))
        in ((if match pattern line then [line] else []) @ out, rest)
      else ([], p))"
  by pat_completeness auto
termination
proof (relation "measure (length \<circ> snd)")
  fix p :: string assume "CHR ''\<newline>'' \<in> set p"
  then have "dropWhile (\<lambda>c. c \<noteq> CHR ''\<newline>'') p \<noteq> []" by (auto simp: dropWhile_eq_Nil_conv)
  then show "((pattern, tl (dropWhile (\<lambda>c. c \<noteq> CHR ''\<newline>'') p)), pattern, p) \<in> measure (length \<circ> snd)"
    for pattern :: string
    using length_dropWhile_le [of "\<lambda>c. c \<noteq> CHR ''\<newline>''" p] by (cases "dropWhile (\<lambda>c. c \<noteq> CHR ''\<newline>'') p") auto
qed simp

declare grep_lines.simps [simp del]

definition BUF :: nat where "BUF = 1024"

text \<open>The loop over the reads: the \<open>i\<close>th returns at most \<open>chunk i\<close> bytes, and 0 only at the end.\<close>

function grep_loop :: "string \<Rightarrow> (nat \<Rightarrow> nat) \<Rightarrow> nat \<Rightarrow> string \<Rightarrow> string \<Rightarrow> string list" where
  "grep_loop pattern chunk i buf input =
     (let n = min (max 1 (chunk i)) (min (BUF - length buf - 1) (length input)) in
      if n > 0 then
        let (out, rest) = grep_lines pattern (buf @ take n input)
        in out @ grep_loop pattern chunk (i + 1) rest (drop n input)
      else [])"
  by pat_completeness auto
termination
  by (relation "measure (\<lambda>(pattern, chunk, i, buf, input). length input)") auto

declare grep_loop.simps [simp del]

lemma grep_lines_append_nl:
  assumes "CHR ''\<newline>'' \<notin> set l"
  shows "grep_lines pattern (l @ CHR ''\<newline>'' # s) =
    ((if match pattern l then [l] else []) @ fst (grep_lines pattern s), snd (grep_lines pattern s))"
proof -
  have "takeWhile (\<lambda>c. c \<noteq> CHR ''\<newline>'') (l @ CHR ''\<newline>'' # s) = l"
    "dropWhile (\<lambda>c. c \<noteq> CHR ''\<newline>'') (l @ CHR ''\<newline>'' # s) = CHR ''\<newline>'' # s"
    using assms by (induction l) auto
  then show ?thesis
    by (simp add: grep_lines.simps [of pattern "l @ CHR ''\<newline>'' # s"] Let_def case_prod_unfold)
qed

lemma grep_lines_none: "CHR ''\<newline>'' \<notin> set s \<Longrightarrow> grep_lines pattern s = ([], s)"
  by (simp add: grep_lines.simps [of pattern s])

lemma split_newline:
  "CHR ''\<newline>'' \<in> set s \<Longrightarrow> \<exists>l t. s = l @ CHR ''\<newline>'' # t \<and> CHR ''\<newline>'' \<notin> set l"
  by (rule split_list_first)

lemma grep_lines_rest: "CHR ''\<newline>'' \<notin> set (snd (grep_lines pattern s))"
proof (induction "length s" arbitrary: s rule: less_induct)
  case less
  show ?case
  proof (cases "CHR ''\<newline>'' \<in> set s")
    case True
    then obtain l r where "s = l @ CHR ''\<newline>'' # r" "CHR ''\<newline>'' \<notin> set l"
      using split_newline by blast
    then show ?thesis using less by (simp add: grep_lines_append_nl)
  qed (simp add: grep_lines_none)
qed

lemma grep_lines_append:
  "grep_lines pattern (s @ t) =
     (fst (grep_lines pattern s) @ fst (grep_lines pattern (snd (grep_lines pattern s) @ t)),
      snd (grep_lines pattern (snd (grep_lines pattern s) @ t)))"
proof (induction "length s" arbitrary: s rule: less_induct)
  case less
  show ?case
  proof (cases "CHR ''\<newline>'' \<in> set s")
    case True
    then obtain l r where s: "s = l @ CHR ''\<newline>'' # r" "CHR ''\<newline>'' \<notin> set l"
      using split_newline by blast
    then show ?thesis using less [of r] by (simp add: grep_lines_append_nl)
  qed (simp add: grep_lines_none)
qed

text \<open>Every line, the unfinished last one included, is short enough for the buffer.\<close>

function short_lines :: "string \<Rightarrow> bool" where
  "short_lines s =
     (if CHR ''\<newline>'' \<in> set s
      then length (takeWhile (\<lambda>c. c \<noteq> CHR ''\<newline>'') s) < BUF - 1 \<and>
        short_lines (tl (dropWhile (\<lambda>c. c \<noteq> CHR ''\<newline>'') s))
      else length s < BUF - 1)"
  by pat_completeness auto
termination
proof (relation "measure length")
  fix s :: string assume "CHR ''\<newline>'' \<in> set s"
  then have "dropWhile (\<lambda>c. c \<noteq> CHR ''\<newline>'') s \<noteq> []" by (auto simp: dropWhile_eq_Nil_conv)
  then show "(tl (dropWhile (\<lambda>c. c \<noteq> CHR ''\<newline>'') s), s) \<in> measure length"
    using length_dropWhile_le [of "\<lambda>c. c \<noteq> CHR ''\<newline>''" s] by (cases "dropWhile (\<lambda>c. c \<noteq> CHR ''\<newline>'') s") auto
qed simp

declare short_lines.simps [simp del]

lemma short_lines_nl:
  assumes "CHR ''\<newline>'' \<notin> set l"
  shows "short_lines (l @ CHR ''\<newline>'' # s) \<longleftrightarrow> length l < BUF - 1 \<and> short_lines s"
proof -
  have "takeWhile (\<lambda>c. c \<noteq> CHR ''\<newline>'') (l @ CHR ''\<newline>'' # s) = l"
    "dropWhile (\<lambda>c. c \<noteq> CHR ''\<newline>'') (l @ CHR ''\<newline>'' # s) = CHR ''\<newline>'' # s"
    using assms by (induction l) auto
  then show ?thesis by (simp add: short_lines.simps [of "l @ CHR ''\<newline>'' # s"])
qed

lemma short_lines_rest:
  "short_lines (s @ t) \<Longrightarrow> short_lines (snd (grep_lines pattern s) @ t) \<and>
     length (snd (grep_lines pattern s)) < BUF - 1"
proof (induction "length s" arbitrary: s rule: less_induct)
  case less
  show ?case
  proof (cases "CHR ''\<newline>'' \<in> set s")
    case True
    then obtain l r where s: "s = l @ CHR ''\<newline>'' # r" "CHR ''\<newline>'' \<notin> set l"
      using split_newline by blast
    then show ?thesis using less by (simp add: grep_lines_append_nl short_lines_nl)
  next
    case False
    have "length s < BUF - 1"
    proof (cases "CHR ''\<newline>'' \<in> set t")
      case True
      then obtain l r where t: "t = l @ CHR ''\<newline>'' # r" "CHR ''\<newline>'' \<notin> set l"
        using split_newline by blast
      then show ?thesis using less.prems False short_lines_nl [of "s @ l" r] by simp
    next
      case f: False
      then show ?thesis using less.prems False short_lines.simps [of "s @ t"] by simp
    qed
    then show ?thesis using less.prems False by (simp add: grep_lines_none)
  qed
qed

lemma grep_loop_all:
  "short_lines (buf @ input) \<Longrightarrow> CHR ''\<newline>'' \<notin> set buf \<Longrightarrow> length buf < BUF - 1 \<Longrightarrow>
     grep_loop pattern chunk i buf input = fst (grep_lines pattern (buf @ input))"
proof (induction "length input" arbitrary: i buf input rule: less_induct)
  case less
  define n where "n = min (max 1 (chunk i)) (min (BUF - length buf - 1) (length input))"
  show ?case
  proof (cases "input = []")
    case True
    then show ?thesis using less.prems
      by (simp add: grep_loop.simps [of pattern chunk i buf] grep_lines_none)
  next
    case False
    then have n: "0 < n" "n \<le> length input" using less.prems(3) by (auto simp: n_def BUF_def)
    define g where "g = grep_lines pattern (buf @ take n input)"
    have loop: "grep_loop pattern chunk i buf input =
        fst g @ grep_loop pattern chunk (i + 1) (snd g) (drop n input)"
      using n(1) unfolding grep_loop.simps [of pattern chunk i buf] Let_def n_def [symmetric] g_def
      by (simp only: if_True case_prod_unfold)
    have "short_lines ((buf @ take n input) @ drop n input)" using less.prems(1) by simp
    from short_lines_rest [OF this] have rest: "short_lines (snd g @ drop n input)" "length (snd g) < BUF - 1"
      by (auto simp: g_def)
    have "grep_loop pattern chunk (i + 1) (snd g) (drop n input) =
        fst (grep_lines pattern (snd g @ drop n input))"
      using less.hyps [of "drop n input" "snd g" "i + 1"] n rest by (simp add: g_def grep_lines_rest)
    then show ?thesis
      using loop grep_lines_append [of pattern "buf @ take n input" "drop n input"] by (simp add: g_def)
  qed
qed

text \<open>The lines of a text that end in a newline.\<close>

definition full_lines :: "string \<Rightarrow> string list" where
  "full_lines s = fst (grep_lines [] s)"

lemma full_lines_filter: "fst (grep_lines pattern s) = filter (match pattern) (full_lines s)"
proof (induction "length s" arbitrary: s rule: less_induct)
  case less
  have any: "match [] l" for l by (auto simp: match_iff intro: begins_empty)
  show ?case
  proof (cases "CHR ''\<newline>'' \<in> set s")
    case True
    then obtain l r where "s = l @ CHR ''\<newline>'' # r" "CHR ''\<newline>'' \<notin> set l" using split_newline by blast
    then show ?thesis using less [of r] any by (simp add: grep_lines_append_nl full_lines_def)
  qed (simp add: grep_lines_none full_lines_def)
qed

lemma full_lines_text: "s = concat (map (\<lambda>l. l @ ''\<newline>'') (full_lines s)) @ snd (grep_lines [] s)"
proof (induction "length s" arbitrary: s rule: less_induct)
  case less
  have any: "match [] l" for l by (auto simp: match_iff intro: begins_empty)
  show ?case
  proof (cases "CHR ''\<newline>'' \<in> set s")
    case True
    then obtain l r where "s = l @ CHR ''\<newline>'' # r" "CHR ''\<newline>'' \<notin> set l" using split_newline by blast
    then show ?thesis using less [of r] any by (simp add: grep_lines_append_nl full_lines_def)
  qed (simp add: grep_lines_none full_lines_def)
qed



end
