(* ===== verification/XvBio.thy ===== *)
theory XvBio
  imports Prelude
begin

text \<open>
  \<open>xv6/xv6-source/kernel/bio.c\<close> with the sleep locks of \<open>sleeplock.c\<close> it takes: the cache of
  \<open>NBUF\<close> blocks, most recently used first. A block is its 256 little-endian words. The calls run one
  after the other, so the spin locks are not modelled; a call that would sleep returns \<open>Sleeps\<close>,
  and a store past the end of an array \<open>Overrun\<close>.
  The device behind \<open>virtio_disk_rw\<close> is a disk that reads back what was last written; the cache
  state records the writes it was given, oldest first, over the contents it started with.
\<close>

section \<open>The state\<close>

type_synonym blockno = "32 word"

type_synonym block = "32 word list"

definition NBUF :: nat where "NBUF = 30"

record buf =
  valid :: bool
  dev :: "32 word"
  blockno :: blockno
  owner :: "int option"
  refcnt :: "32 word"
  data :: block

record bcache =
  bufs :: "buf list"
  order :: "nat list"
  base :: "blockno \<Rightarrow> block"
  written :: "(blockno \<times> block) list"

datatype stop = Panic string | Sleeps | Overrun

definition apply_writes :: "(blockno \<times> block) list \<Rightarrow> (blockno \<Rightarrow> block) \<Rightarrow> blockno \<Rightarrow> block" where
  "apply_writes ws d = fold (\<lambda>(b, x) d. d(b := x)) ws d"

definition disk_of :: "bcache \<Rightarrow> blockno \<Rightarrow> block" where
  "disk_of c = apply_writes (written c) (base c)"

definition upd_buf :: "nat \<Rightarrow> (buf \<Rightarrow> buf) \<Rightarrow> bcache \<Rightarrow> bcache" where
  "upd_buf i f c = c\<lparr>bufs := (bufs c)[i := f (bufs c ! i)]\<rparr>"

text \<open>Sequencing: the rest runs on the result of a call that neither panics nor sleeps.\<close>

fun bnd :: "stop + 'a \<Rightarrow> ('a \<Rightarrow> stop + 'b) \<Rightarrow> stop + 'b" where
  "bnd (Inl e) f = Inl e"
| "bnd (Inr x) f = f x"

lemma bnd_assoc: "bnd (bnd m f) g = bnd m (\<lambda>x. bnd (f x) g)"
  by (cases m) simp_all

section \<open>The operations\<close>

definition zero_buf :: buf where
  "zero_buf = \<lparr>valid = False, dev = 0, blockno = 0, owner = None, refcnt = 0, data = replicate 256 0\<rparr>"

text \<open>\<open>binit\<close> puts each buffer in front of the list, so the last one comes first.\<close>

definition binit :: "(blockno \<Rightarrow> block) \<Rightarrow> bcache" where
  "binit d = \<lparr>bufs = replicate NBUF zero_buf, order = foldl (\<lambda>l b. b # l) [] [0..<NBUF],
     base = d, written = []\<rparr>"

definition acquiresleep :: "int \<Rightarrow> nat \<Rightarrow> bcache \<Rightarrow> stop + bcache" where
  "acquiresleep me i c =
     (if owner (bufs c ! i) \<noteq> None then Inl Sleeps
      else Inr (upd_buf i (\<lambda>b. b\<lparr>owner := Some me\<rparr>) c))"

definition releasesleep :: "nat \<Rightarrow> bcache \<Rightarrow> bcache" where
  "releasesleep i c = upd_buf i (\<lambda>b. b\<lparr>owner := None\<rparr>) c"

definition holdingsleep :: "int \<Rightarrow> nat \<Rightarrow> bcache \<Rightarrow> bool" where
  "holdingsleep me i c \<longleftrightarrow> owner (bufs c ! i) = Some me"

definition bget :: "int \<Rightarrow> 32 word \<Rightarrow> blockno \<Rightarrow> bcache \<Rightarrow> stop + nat \<times> bcache" where
  "bget me d b c =
     (case find (\<lambda>i. dev (bufs c ! i) = d \<and> blockno (bufs c ! i) = b) (order c) of
        Some i \<Rightarrow>
          bnd (acquiresleep me i (upd_buf i (\<lambda>x. x\<lparr>refcnt := refcnt x + 1\<rparr>) c)) (\<lambda>c. Inr (i, c))
      | None \<Rightarrow>
          (case find (\<lambda>i. refcnt (bufs c ! i) = 0) (rev (order c)) of
             Some i \<Rightarrow>
               bnd (acquiresleep me i (upd_buf i
                   (\<lambda>x. x\<lparr>dev := d, blockno := b, valid := False, refcnt := 1\<rparr>) c)) (\<lambda>c. Inr (i, c))
           | None \<Rightarrow> Inl (Panic ''bget: no buffers'')))"

definition virtio_disk_rw :: "nat \<Rightarrow> bool \<Rightarrow> bcache \<Rightarrow> bcache" where
  "virtio_disk_rw i wr c =
     (let b = bufs c ! i in
      if wr then c\<lparr>written := written c @ [(blockno b, data b)]\<rparr>
      else upd_buf i (\<lambda>b. b\<lparr>data := disk_of c (blockno b)\<rparr>) c)"

definition bread :: "int \<Rightarrow> 32 word \<Rightarrow> blockno \<Rightarrow> bcache \<Rightarrow> stop + nat \<times> bcache" where
  "bread me d b c =
     bnd (bget me d b c) (\<lambda>(i, c).
       if \<not> valid (bufs c ! i)
       then Inr (i, upd_buf i (\<lambda>b. b\<lparr>valid := True\<rparr>) (virtio_disk_rw i False c))
       else Inr (i, c))"

definition bwrite :: "int \<Rightarrow> nat \<Rightarrow> bcache \<Rightarrow> stop + bcache" where
  "bwrite me i c =
     (if \<not> holdingsleep me i c then Inl (Panic ''bwrite'') else Inr (virtio_disk_rw i True c))"

definition brelse :: "int \<Rightarrow> nat \<Rightarrow> bcache \<Rightarrow> stop + bcache" where
  "brelse me i c =
     (if \<not> holdingsleep me i c then Inl (Panic ''brelse'')
      else
        let c = upd_buf i (\<lambda>b. b\<lparr>refcnt := refcnt b - 1\<rparr>) (releasesleep i c) in
        Inr (if refcnt (bufs c ! i) = 0 then c\<lparr>order := i # remove1 i (order c)\<rparr> else c))"

definition bpin :: "nat \<Rightarrow> bcache \<Rightarrow> bcache" where
  "bpin i c = upd_buf i (\<lambda>b. b\<lparr>refcnt := refcnt b + 1\<rparr>) c"

definition bunpin :: "nat \<Rightarrow> bcache \<Rightarrow> bcache" where
  "bunpin i c = upd_buf i (\<lambda>b. b\<lparr>refcnt := refcnt b - 1\<rparr>) c"

text \<open>The caller's view of a buffer it holds: reading \<open>b->data\<close> and assigning it.\<close>

definition get_data :: "nat \<Rightarrow> bcache \<Rightarrow> block" where
  "get_data i c = data (bufs c ! i)"

definition set_data :: "nat \<Rightarrow> block \<Rightarrow> bcache \<Rightarrow> bcache" where
  "set_data i x c = upd_buf i (\<lambda>b. b\<lparr>data := x\<rparr>) c"

section \<open>What the cache promises\<close>

text \<open>
  A cache is a set of views of the disk: \<open>view\<close> is what a reader of a block sees, \<open>disk\<close> what is on
  the disk, \<open>refs\<close> counts the references to a block, and \<open>owns s i b\<close> says that the caller holds the
  buffer \<open>i\<close> of block \<open>b\<close>. A block without references may leave the cache, so its view must be on the
  disk when the last reference goes.
\<close>

locale block_cache =
  fixes ok :: "'s \<Rightarrow> bool"
    and view disk :: "'s \<Rightarrow> blockno \<Rightarrow> block"
    and refs :: "'s \<Rightarrow> blockno \<Rightarrow> 32 word"
    and locked :: "'s \<Rightarrow> blockno set"
    and owns :: "'s \<Rightarrow> nat \<Rightarrow> blockno \<Rightarrow> bool"
    and hist :: "'s \<Rightarrow> (blockno \<times> block) list"
    and rd :: "blockno \<Rightarrow> 's \<Rightarrow> stop + nat \<times> 's"
    and wr rl :: "nat \<Rightarrow> 's \<Rightarrow> stop + 's"
    and unpin :: "nat \<Rightarrow> 's \<Rightarrow> 's"
    and get :: "nat \<Rightarrow> 's \<Rightarrow> block"
    and put :: "nat \<Rightarrow> block \<Rightarrow> 's \<Rightarrow> 's"
    and size :: nat
  assumes rd: "ok s \<Longrightarrow> b \<notin> locked s \<Longrightarrow> refs s b + 1 \<noteq> 0 \<Longrightarrow>
      refs s b \<noteq> 0 \<or> card {b. refs s b \<noteq> 0} < size \<Longrightarrow>
      \<exists>i s'. rd b s = Inr (i, s') \<and> ok s' \<and> owns s' i b \<and> view s' = view s \<and> disk s' = disk s \<and>
        hist s' = hist s \<and> refs s' = (refs s)(b := refs s b + 1) \<and> locked s' = insert b (locked s) \<and>
        (\<forall>j a. owns s j a \<longrightarrow> owns s' j a)"
    and get: "ok s \<Longrightarrow> owns s i b \<Longrightarrow> get i s = view s b"
    and put: "ok s \<Longrightarrow> owns s i b \<Longrightarrow>
      ok (put i x s) \<and> view (put i x s) = (view s)(b := x) \<and> disk (put i x s) = disk s \<and>
      hist (put i x s) = hist s \<and> refs (put i x s) = refs s \<and> locked (put i x s) = locked s \<and>
      owns (put i x s) = owns s"
    and wr: "ok s \<Longrightarrow> owns s i b \<Longrightarrow>
      \<exists>s'. wr i s = Inr s' \<and> ok s' \<and> view s' = view s \<and> disk s' = (disk s)(b := view s b) \<and>
        hist s' = hist s @ [(b, view s b)] \<and> refs s' = refs s \<and> locked s' = locked s \<and> owns s' = owns s"
    and unpin: "ok s \<Longrightarrow> owns s i b \<Longrightarrow> refs s b \<noteq> 1 \<Longrightarrow>
      ok (unpin i s) \<and> view (unpin i s) = view s \<and> disk (unpin i s) = disk s \<and>
      hist (unpin i s) = hist s \<and> refs (unpin i s) = (refs s)(b := refs s b - 1) \<and>
      locked (unpin i s) = locked s \<and> owns (unpin i s) = owns s"
    and rl: "ok s \<Longrightarrow> owns s i b \<Longrightarrow> refs s b = 1 \<longrightarrow> view s b = disk s b \<Longrightarrow>
      \<exists>s'. rl i s = Inr s' \<and> ok s' \<and> view s' = view s \<and> disk s' = disk s \<and> hist s' = hist s \<and>
        refs s' = (refs s)(b := refs s b - 1) \<and> locked s' = locked s - {b} \<and>
        (\<forall>j a. owns s j a \<longrightarrow> a \<noteq> b \<longrightarrow> owns s' j a)"
    and finite_refs: "ok s \<Longrightarrow> finite {b. refs s b \<noteq> 0}"
    and clean: "ok s \<Longrightarrow> refs s b = 0 \<Longrightarrow> view s b = disk s b"
begin

text \<open>Changing one block in place, and copying a block over another and writing it to the disk.\<close>

definition rewrite :: "blockno \<Rightarrow> (block \<Rightarrow> block) \<Rightarrow> 's \<Rightarrow> stop + 's" where
  "rewrite b f s = bnd (rd b s) (\<lambda>(i, s). bnd (wr i (put i (f (get i s)) s)) (\<lambda>s. rl i s))"

definition log_copy :: "blockno \<Rightarrow> blockno \<Rightarrow> 's \<Rightarrow> stop + 's" where
  "log_copy to_b from_b s =
     bnd (rd to_b s) (\<lambda>(t, s).
     bnd (rd from_b s) (\<lambda>(f, s).
     bnd (wr t (put t (get f s) s)) (\<lambda>s.
     bnd (rl f s) (\<lambda>s. rl t s))))"

definition install_copy :: "bool \<Rightarrow> blockno \<Rightarrow> blockno \<Rightarrow> 's \<Rightarrow> stop + 's" where
  "install_copy recovering log_b dst_b s =
     bnd (rd log_b s) (\<lambda>(l, s).
     bnd (rd dst_b s) (\<lambda>(d, s).
     bnd (wr d (put d (get l s) s)) (\<lambda>s.
     let s = (if \<not> recovering then unpin d s else s) in
     bnd (rl l s) (\<lambda>s. rl d s))))"

definition idle :: "'s \<Rightarrow> bool" where
  "idle s \<longleftrightarrow> ok s \<and> locked s = {}"

lemma rewrite_effect:
  assumes "idle s" "refs s b = 0" "card {b. refs s b \<noteq> 0} < size"
  shows "\<exists>s'. rewrite b f s = Inr s' \<and> idle s' \<and> view s' = (view s)(b := f (view s b)) \<and>
    disk s' = (disk s)(b := f (view s b)) \<and> hist s' = hist s @ [(b, f (view s b))] \<and> refs s' = refs s"
proof -
  from rd [of s b] assms obtain i s1 where 1: "rd b s = Inr (i, s1)" "ok s1" "owns s1 i b"
    "view s1 = view s" "disk s1 = disk s" "hist s1 = hist s" "refs s1 = (refs s)(b := 1)"
    "locked s1 = {b}" by (auto simp: idle_def)
  define s2 where "s2 = put i (f (get i s1)) s1"
  from put [OF 1(2,3), of "f (get i s1)"] get [OF 1(2,3)] 1
  have 2: "ok s2" "owns s2 i b" "view s2 = (view s)(b := f (view s b))" "disk s2 = disk s"
    "hist s2 = hist s" "refs s2 = (refs s)(b := 1)" "locked s2 = {b}" by (auto simp: s2_def)
  from wr [OF 2(1,2)] 2 obtain s3 where 3: "wr i s2 = Inr s3" "ok s3" "owns s3 i b"
    "view s3 = (view s)(b := f (view s b))" "disk s3 = (disk s)(b := f (view s b))"
    "hist s3 = hist s @ [(b, f (view s b))]" "refs s3 = (refs s)(b := 1)" "locked s3 = {b}" by auto
  from rl [OF 3(2,3)] 3 obtain s4 where "rl i s3 = Inr s4" "ok s4" "view s4 = view s3"
    "disk s4 = disk s3" "hist s4 = hist s3" "refs s4 = (refs s)(b := 0)" "locked s4 = {}" by auto
  moreover have "(refs s)(b := 0) = refs s" using assms(2) by auto
  ultimately show ?thesis using 1(1) 3 by (auto simp: rewrite_def s2_def [symmetric] idle_def)
qed

lemma log_copy_effect:
  assumes "idle s" "a \<noteq> b" "refs s a = 0" "refs s b \<noteq> 0" "refs s b + 1 \<noteq> 0"
    "card {b. refs s b \<noteq> 0} < size"
  shows "\<exists>s'. log_copy a b s = Inr s' \<and> idle s' \<and> view s' = (view s)(a := view s b) \<and>
    disk s' = (disk s)(a := view s b) \<and> hist s' = hist s @ [(a, view s b)] \<and> refs s' = refs s"
proof -
  from rd [of s a] assms obtain t s1 where 1: "rd a s = Inr (t, s1)" "ok s1" "owns s1 t a"
    "view s1 = view s" "disk s1 = disk s" "hist s1 = hist s" "refs s1 = (refs s)(a := 1)"
    "locked s1 = {a}" by (auto simp: idle_def)
  from rd [of s1 b] 1 assms obtain f s2 where 2: "rd b s1 = Inr (f, s2)" "ok s2" "owns s2 t a"
    "owns s2 f b" "view s2 = view s" "disk s2 = disk s" "hist s2 = hist s"
    "refs s2 = (refs s)(a := 1, b := refs s b + 1)" "locked s2 = {b, a}" by auto
  define s3 where "s3 = put t (get f s2) s2"
  from put [OF 2(2,3), of "get f s2"] get [OF 2(2,4)] 2
  have 3: "ok s3" "owns s3 t a" "owns s3 f b" "view s3 = (view s)(a := view s b)"
    "disk s3 = disk s" "hist s3 = hist s" "refs s3 = refs s2" "locked s3 = {b, a}"
    by (auto simp: s3_def)
  from wr [OF 3(1,2)] 3 obtain s4 where 4: "wr t s3 = Inr s4" "ok s4" "owns s4 t a" "owns s4 f b"
    "view s4 = view s3" "disk s4 = (disk s)(a := view s b)" "hist s4 = hist s @ [(a, view s b)]"
    "refs s4 = refs s2" "locked s4 = {b, a}" by auto
  have "refs s4 b \<noteq> 1" using assms(4) by (simp add: 4 2)
  with rl [OF 4(2,4)] obtain s5 where 5: "rl f s4 = Inr s5" "ok s5" "owns s5 t a"
    "view s5 = view s3" "disk s5 = disk s4" "hist s5 = hist s4"
    "refs s5 = (refs s2)(b := refs s b)" "locked s5 = {a}"
    using 4 2(8) assms(2) by (auto split: if_splits)
  from rl [OF 5(2,3)] obtain s6 where "rl t s5 = Inr s6" "ok s6" "view s6 = view s3"
    "disk s6 = disk s4" "hist s6 = hist s4" "refs s6 = (refs s5)(a := refs s5 a - 1)" "locked s6 = {}"
    using 5 3 4 by auto
  moreover have "(refs s5)(a := refs s5 a - 1) = refs s" using assms(2,3) by (auto simp: 5 2)
  ultimately show ?thesis using 1 2 3 4 5 by (auto simp: log_copy_def s3_def [symmetric] idle_def)
qed

lemma install_copy_effect:
  assumes "idle s" "a \<noteq> b" "refs s a = 0" "recovering \<longleftrightarrow> refs s b = 0" "refs s b + 1 \<noteq> 0"
    "card {b. refs s b \<noteq> 0} + (if recovering then 1 else 0) < size"
  shows "\<exists>s'. install_copy recovering a b s = Inr s' \<and> idle s' \<and>
    view s' = (view s)(b := view s a) \<and> disk s' = (disk s)(b := view s a) \<and>
    hist s' = hist s @ [(b, view s a)] \<and>
    refs s' = (if recovering then refs s else (refs s)(b := refs s b - 1))"
proof -
  have fin: "finite {b. refs s b \<noteq> 0}" using assms(1) finite_refs by (simp add: idle_def)
  from rd [of s a] assms obtain l s1 where 1: "rd a s = Inr (l, s1)" "ok s1" "owns s1 l a"
    "view s1 = view s" "disk s1 = disk s" "hist s1 = hist s" "refs s1 = (refs s)(a := 1)"
    "locked s1 = {a}" by (auto simp: idle_def)
  have "{b. refs s1 b \<noteq> 0} = insert a {b. refs s b \<noteq> 0}" by (auto simp: 1)
  then have "refs s1 b \<noteq> 0 \<or> card {b. refs s1 b \<noteq> 0} < size"
    using assms(2-4,6) fin by (auto simp: 1 split: if_splits)
  with rd [of s1 b] 1 assms(2,5) obtain d s2 where 2: "rd b s1 = Inr (d, s2)" "ok s2" "owns s2 l a"
    "owns s2 d b" "view s2 = view s" "disk s2 = disk s" "hist s2 = hist s"
    "refs s2 = (refs s)(a := 1, b := refs s b + 1)" "locked s2 = {b, a}" by auto
  define s3 where "s3 = put d (get l s2) s2"
  from put [OF 2(2,4), of "get l s2"] get [OF 2(2,3)] 2
  have 3: "ok s3" "owns s3 l a" "owns s3 d b" "view s3 = (view s)(b := view s a)"
    "disk s3 = disk s" "hist s3 = hist s" "refs s3 = refs s2" "locked s3 = {b, a}"
    by (auto simp: s3_def)
  from wr [OF 3(1,3)] 3 obtain s4 where 4: "wr d s3 = Inr s4" "ok s4" "owns s4 l a" "owns s4 d b"
    "view s4 = view s3" "disk s4 = (disk s)(b := view s a)" "hist s4 = hist s @ [(b, view s a)]"
    "refs s4 = refs s2" "locked s4 = {b, a}" by auto
  define s5 where "s5 = (if \<not> recovering then unpin d s4 else s4)"
  have r4: "refs s4 b = refs s b + 1" "refs s2 b - 1 = refs s b" using 4 2 by simp_all
  have "\<not> recovering \<Longrightarrow> refs s4 b \<noteq> 1" using assms(4) by (simp add: r4)
  with unpin [OF 4(2,4)] 4
  have 5: "ok s5" "owns s5 l a" "owns s5 d b" "view s5 = view s3" "disk s5 = disk s4"
    "hist s5 = hist s4" "refs s5 = (if recovering then refs s4 else (refs s4)(b := refs s b))"
    "locked s5 = {b, a}"
    by (auto simp: s5_def r4)
  have "view s5 a = disk s5 a"
    using assms(1-3) clean [of s a] by (simp add: 5 3 4 idle_def)
  moreover have "{b, a} - {a} = {b}" using assms(2) by auto
  ultimately obtain s6 where 6: "rl l s5 = Inr s6" "ok s6" "owns s6 d b"
    "view s6 = view s3" "disk s6 = disk s4" "hist s6 = hist s4"
    "refs s6 = (refs s5)(a := refs s5 a - 1)" "locked s6 = {b}"
    using rl [OF 5(1,2)] 5 assms(2) by auto
  from rl [OF 6(2,3)] obtain s7 where "rl d s6 = Inr s7" "ok s7" "view s7 = view s3"
    "disk s7 = disk s4" "hist s7 = hist s4" "refs s7 = (refs s6)(b := refs s6 b - 1)" "locked s7 = {}"
    using 6 3 4 by auto
  moreover have "(refs s6)(b := refs s6 b - 1) =
      (if recovering then refs s else (refs s)(b := refs s b - 1))"
    using assms(2,3,4) by (auto simp: 6 5 4 2)
  ultimately show ?thesis using 1 2 3 4 5(1) 6
    by (auto simp: install_copy_def s3_def [symmetric] s5_def [symmetric] Let_def idle_def)
qed

end

section \<open>The cache keeps its promises\<close>

definition find_buf :: "32 word \<Rightarrow> bcache \<Rightarrow> blockno \<Rightarrow> nat option" where
  "find_buf d c b = find (\<lambda>i. dev (bufs c ! i) = d \<and> blockno (bufs c ! i) = b) [0..<NBUF]"

definition cview :: "32 word \<Rightarrow> bcache \<Rightarrow> blockno \<Rightarrow> block" where
  "cview d c b = (case find_buf d c b of Some i \<Rightarrow> data (bufs c ! i) | None \<Rightarrow> disk_of c b)"

definition crefs :: "32 word \<Rightarrow> bcache \<Rightarrow> blockno \<Rightarrow> 32 word" where
  "crefs d c b = (case find_buf d c b of Some i \<Rightarrow> refcnt (bufs c ! i) | None \<Rightarrow> 0)"

definition clocked :: "32 word \<Rightarrow> bcache \<Rightarrow> blockno set" where
  "clocked d c = {b. \<exists>i. find_buf d c b = Some i \<and> owner (bufs c ! i) \<noteq> None}"

definition cowns :: "int \<Rightarrow> 32 word \<Rightarrow> bcache \<Rightarrow> nat \<Rightarrow> blockno \<Rightarrow> bool" where
  "cowns me d c i b \<longleftrightarrow> find_buf d c b = Some i \<and> owner (bufs c ! i) = Some me"

text \<open>
  Only the buffers of the device are valid, the referenced ones are, the locked ones are
  referenced, and a buffer nobody references holds what is on the disk.
\<close>

definition buf_ok :: "32 word \<Rightarrow> (blockno \<Rightarrow> block) \<Rightarrow> buf \<Rightarrow> bool" where
  "buf_ok d dk x \<longleftrightarrow> (valid x \<longleftrightarrow> dev x = d) \<and> (refcnt x \<noteq> 0 \<longrightarrow> valid x) \<and>
     (owner x \<noteq> None \<longrightarrow> refcnt x \<noteq> 0) \<and> (valid x \<and> refcnt x = 0 \<longrightarrow> data x = dk (blockno x))"

definition cache_ok :: "32 word \<Rightarrow> bcache \<Rightarrow> bool" where
  "cache_ok d c \<longleftrightarrow> length (bufs c) = NBUF \<and> distinct (order c) \<and> set (order c) = {..<NBUF} \<and>
     (\<forall>i < NBUF. buf_ok d (disk_of c) (bufs c ! i)) \<and>
     (\<forall>i < NBUF. \<forall>j < NBUF. dev (bufs c ! i) = d \<longrightarrow> dev (bufs c ! j) = d \<longrightarrow>
        blockno (bufs c ! i) = blockno (bufs c ! j) \<longrightarrow> i = j)"

lemma cache_okD:
  assumes "cache_ok d c"
  shows "length (bufs c) = NBUF" "distinct (order c)" "set (order c) = {..<NBUF}"
    "\<And>i. i < NBUF \<Longrightarrow> buf_ok d (disk_of c) (bufs c ! i)"
    "\<And>i j. i < NBUF \<Longrightarrow> j < NBUF \<Longrightarrow> dev (bufs c ! i) = d \<Longrightarrow> dev (bufs c ! j) = d \<Longrightarrow>
       blockno (bufs c ! i) = blockno (bufs c ! j) \<Longrightarrow> i = j"
proof -
  note c = assms [unfolded cache_ok_def]
  show "length (bufs c) = NBUF" by (rule conjunct1 [OF c])
  show "distinct (order c)" by (rule conjunct1 [OF conjunct2 [OF c]])
  show "set (order c) = {..<NBUF}" by (rule conjunct1 [OF conjunct2 [OF conjunct2 [OF c]]])
  show "buf_ok d (disk_of c) (bufs c ! i)" if "i < NBUF" for i
    using conjunct1 [OF conjunct2 [OF conjunct2 [OF conjunct2 [OF c]]]] that by blast
  show "i = j" if "i < NBUF" "j < NBUF" "dev (bufs c ! i) = d" "dev (bufs c ! j) = d"
    "blockno (bufs c ! i) = blockno (bufs c ! j)" for i j
    using conjunct2 [OF conjunct2 [OF conjunct2 [OF conjunct2 [OF c]]]] that by blast
qed

lemma find_SomeD: "find P xs = Some i \<Longrightarrow> i \<in> set xs \<and> P i"
  unfolding find_Some_iff by auto

lemma find_unique:
  assumes "i \<in> set xs" "P i" "\<And>j. j \<in> set xs \<Longrightarrow> P j \<Longrightarrow> j = i"
  shows "find P xs = Some i"
proof (cases "find P xs")
  case None
  then show ?thesis using assms(1,2) unfolding find_None_iff by blast
next
  case (Some j)
  from find_SomeD [OF this] have "j = i" by (intro assms(3)) simp_all
  then show ?thesis using Some by simp
qed

lemma find_buf_Some:
  assumes "cache_ok d c"
  shows "find_buf d c b = Some i \<longleftrightarrow> i < NBUF \<and> dev (bufs c ! i) = d \<and> blockno (bufs c ! i) = b"
proof
  assume "find_buf d c b = Some i"
  then show "i < NBUF \<and> dev (bufs c ! i) = d \<and> blockno (bufs c ! i) = b"
    by (auto simp: find_buf_def find_Some_iff)
next
  assume "i < NBUF \<and> dev (bufs c ! i) = d \<and> blockno (bufs c ! i) = b"
  then show "find_buf d c b = Some i"
    unfolding find_buf_def using cache_okD(5) [OF assms] by (intro find_unique) auto
qed

lemma find_buf_None:
  "find_buf d c b = None \<longleftrightarrow> (\<forall>i < NBUF. \<not> (dev (bufs c ! i) = d \<and> blockno (bufs c ! i) = b))"
  by (auto simp: find_buf_def find_None_iff)

text \<open>Replacing one buffer: every operation below is an instance.\<close>

definition replace :: "nat \<Rightarrow> buf \<Rightarrow> bcache \<Rightarrow> bcache" where
  "replace i y c = c\<lparr>bufs := (bufs c)[i := y]\<rparr>"

lemma replace_simps [simp]:
  "order (replace i y c) = order c" "disk_of (replace i y c) = disk_of c"
  "written (replace i y c) = written c" "base (replace i y c) = base c"
  "upd_buf i f c = replace i (f (bufs c ! i)) c"
  "replace i z (replace i y c) = replace i z c"
  by (simp_all add: replace_def upd_buf_def disk_of_def)

lemma replace_nth:
  "length (bufs c) = NBUF \<Longrightarrow> i < NBUF \<Longrightarrow> bufs (replace i y c) ! j = (if j = i then y else bufs c ! j)"
  by (simp add: replace_def)

lemma replace_ok:
  assumes "cache_ok d c" "i < NBUF" "buf_ok d (disk_of c) y"
    "\<And>j. j < NBUF \<Longrightarrow> j \<noteq> i \<Longrightarrow> dev y = d \<Longrightarrow> dev (bufs c ! j) = d \<Longrightarrow> blockno (bufs c ! j) \<noteq> blockno y"
  shows "cache_ok d (replace i y c)"
proof -
  note len = cache_okD(1) [OF assms(1)]
  have "length (bufs (replace i y c)) = NBUF" by (simp add: replace_def len)
  moreover have "buf_ok d (disk_of c) (bufs (replace i y c) ! j)" if "j < NBUF" for j
    using that assms(3) cache_okD(4) [OF assms(1)] by (simp add: replace_nth len assms(2))
  moreover have "j = k" if "j < NBUF" "k < NBUF" "dev (bufs (replace i y c) ! j) = d"
    "dev (bufs (replace i y c) ! k) = d"
    "blockno (bufs (replace i y c) ! j) = blockno (bufs (replace i y c) ! k)" for j k
    using that assms(4) cache_okD(5) [OF assms(1)] assms(4) [of j] assms(4) [of k]
    by (auto simp: replace_nth len assms(2) split: if_splits)
  ultimately show ?thesis using cache_okD(2,3) [OF assms(1)] by (simp add: cache_ok_def)
qed

lemma replace_find:
  assumes "cache_ok d c" "cache_ok d (replace i y c)" "i < NBUF"
  shows "find_buf d (replace i y c) b =
    (if dev y = d \<and> blockno y = b then Some i
     else if find_buf d c b = Some i then None else find_buf d c b)"
proof -
  note nth = replace_nth [OF cache_okD(1) [OF assms(1)] assms(3)]
  show ?thesis
  proof (cases "dev y = d \<and> blockno y = b")
    case True
    then show ?thesis using assms(3) by (simp add: find_buf_Some [OF assms(2)] nth)
  next
    case False
    show ?thesis
    proof (cases "find_buf d c b")
      case None
      then have "find_buf d (replace i y c) b = None" using False by (auto simp: find_buf_None nth)
      then show ?thesis using False None by simp
    next
      case (Some j)
      then have j: "j < NBUF" "dev (bufs c ! j) = d" "blockno (bufs c ! j) = b"
        by (simp_all add: find_buf_Some [OF assms(1)])
      show ?thesis
      proof (cases "j = i")
        case True
        then have "find_buf d (replace i y c) b = None"
          using False Some cache_okD(5) [OF assms(1)] j by (auto simp: find_buf_None nth)
        then show ?thesis using False Some True by simp
      next
        case n: False
        then have "find_buf d (replace i y c) b = Some j" using j by (simp add: find_buf_Some [OF assms(2)] nth)
        then show ?thesis using False Some n by simp
      qed
    qed
  qed
qed

text \<open>An operation that keeps the block of the buffer it changes.\<close>

lemma replace_same:
  assumes c: "cache_ok d c" "find_buf d c b = Some i" and y: "buf_ok d (disk_of c) y" "dev y = d" "blockno y = b"
  shows "cache_ok d (replace i y c)" "cview d (replace i y c) = (cview d c)(b := data y)"
    "crefs d (replace i y c) = (crefs d c)(b := refcnt y)"
    "clocked d (replace i y c) = (if owner y = None then clocked d c - {b} else insert b (clocked d c))"
    "find_buf d (replace i y c) = find_buf d c"
    "cowns me d (replace i y c) j a = (if a = b then j = i \<and> owner y = Some me else cowns me d c j a)"
proof -
  have i: "i < NBUF" "dev (bufs c ! i) = d" "blockno (bufs c ! i) = b"
    using c by (simp_all add: find_buf_Some)
  note nth = replace_nth [OF cache_okD(1) [OF c(1)] i(1)]
  show ok: "cache_ok d (replace i y c)"
    by (rule replace_ok [OF c(1) i(1) y(1)]) (use cache_okD(5) [OF c(1)] i y in auto)
  have find: "find_buf d (replace i y c) a = find_buf d c a" for a
  proof (cases "a = b")
    case True
    then show ?thesis using replace_find [OF c(1) ok i(1), of a] c(2) y by simp
  next
    case False
    then have "find_buf d c a \<noteq> Some i" using i(3) by (simp add: find_buf_Some [OF c(1)])
    then show ?thesis using replace_find [OF c(1) ok i(1), of a] False y by simp
  qed
  then show "find_buf d (replace i y c) = find_buf d c" by blast
  have other: "j \<noteq> i" if "find_buf d c a = Some j" "a \<noteq> b" for a j
    using that i(3) by (auto simp: find_buf_Some [OF c(1)])
  show "cview d (replace i y c) = (cview d c)(b := data y)"
    by (rule ext) (auto simp: cview_def find nth c(2) dest: other split: option.split)
  show "crefs d (replace i y c) = (crefs d c)(b := refcnt y)"
    by (rule ext) (auto simp: crefs_def find nth c(2) dest: other split: option.split)
  show "clocked d (replace i y c) = (if owner y = None then clocked d c - {b} else insert b (clocked d c))"
    using c(2) by (auto simp: clocked_def find nth dest: other split: if_splits)
  show "cowns me d (replace i y c) j a = (if a = b then j = i \<and> owner y = Some me else cowns me d c j a)"
    using c(2) by (auto simp: cowns_def find nth dest: other)
qed

lemma held_buf:
  assumes "cache_ok d c" "cowns me d c i b"
  shows "find_buf d c b = Some i" "i < NBUF" "dev (bufs c ! i) = d" "blockno (bufs c ! i) = b"
    "owner (bufs c ! i) = Some me" "valid (bufs c ! i)" "refcnt (bufs c ! i) \<noteq> 0"
    "cview d c b = data (bufs c ! i)" "crefs d c b = refcnt (bufs c ! i)" "b \<in> clocked d c"
proof -
  show f: "find_buf d c b = Some i" "owner (bufs c ! i) = Some me" using assms(2) by (simp_all add: cowns_def)
  then show i: "i < NBUF" "dev (bufs c ! i) = d" "blockno (bufs c ! i) = b"
    by (simp_all add: find_buf_Some [OF assms(1)])
  show "valid (bufs c ! i)" "refcnt (bufs c ! i) \<noteq> 0"
    using cache_okD(4) [OF assms(1) i(1)] i(2) f(2) by (simp_all add: buf_ok_def)
  show "cview d c b = data (bufs c ! i)" "crefs d c b = refcnt (bufs c ! i)" "b \<in> clocked d c"
    using f by (simp_all add: cview_def crefs_def clocked_def)
qed

lemma fun_upd_same: "f b = x \<Longrightarrow> f(b := x) = f"
  by auto

lemma bread_hit:
  assumes ok: "cache_ok d c" and find: "find_buf d c b = Some i" and free: "b \<notin> clocked d c"
    and r: "crefs d c b + 1 \<noteq> 0"
  shows "\<exists>c'. bread me d b c = Inr (i, c') \<and> cache_ok d c' \<and> cowns me d c' i b \<and>
    cview d c' = cview d c \<and> disk_of c' = disk_of c \<and> written c' = written c \<and>
    crefs d c' = (crefs d c)(b := crefs d c b + 1) \<and> clocked d c' = insert b (clocked d c) \<and>
    (\<forall>j a. cowns me d c j a \<longrightarrow> cowns me d c' j a)"
proof -
  define x where "x = bufs c ! i"
  define y where "y = x\<lparr>refcnt := refcnt x + 1, owner := Some me\<rparr>"
  have i: "i < NBUF" "dev x = d" "blockno x = b" using find by (simp_all add: find_buf_Some [OF ok] x_def)
  have x: "owner x = None" "valid x" "crefs d c b = refcnt x" "cview d c b = data x"
    using free find cache_okD(4) [OF ok i(1)] i(2)
    by (auto simp: clocked_def crefs_def cview_def buf_ok_def x_def)
  have "buf_ok d (disk_of c) y" using x i r by (simp add: y_def buf_ok_def)
  from replace_same [OF ok find this] i x
  have y: "cache_ok d (replace i y c)" "cview d (replace i y c) = cview d c"
    "crefs d (replace i y c) = (crefs d c)(b := crefs d c b + 1)"
    "clocked d (replace i y c) = insert b (clocked d c)"
    "cowns me d (replace i y c) j a = (if a = b then j = i else cowns me d c j a)" for j a
    by (simp_all add: y_def fun_upd_same)
  have "List.find (\<lambda>i. dev (bufs c ! i) = d \<and> blockno (bufs c ! i) = b) (order c) = Some i"
    using cache_okD(3,5) [OF ok] i by (intro find_unique) (auto simp: x_def)
  then have "bget me d b c = Inr (i, replace i y c)"
    using x(1) by (simp add: bget_def acquiresleep_def replace_nth cache_okD(1) [OF ok] i x_def y_def)
  then have "bread me d b c = Inr (i, replace i y c)"
    using x(2) by (simp add: bread_def replace_nth cache_okD(1) [OF ok] i y_def)
  moreover have "\<not> cowns me d c j b" for j
    using x(1) find by (auto simp: cowns_def x_def)
  ultimately show ?thesis using y by auto
qed

lemma referenced_finite:
  assumes "cache_ok d c"
  shows "finite {b. crefs d c b \<noteq> 0}"
proof (rule finite_subset)
  show "{b. crefs d c b \<noteq> 0} \<subseteq> (\<lambda>i. blockno (bufs c ! i)) ` {..<NBUF}"
    by (auto simp: crefs_def find_buf_Some [OF assms] split: option.splits)
qed simp

lemma room:
  assumes ok: "cache_ok d c" and "card {b. crefs d c b \<noteq> 0} < NBUF"
  shows "\<exists>i < NBUF. refcnt (bufs c ! i) = 0"
proof (rule ccontr)
  assume "\<not> (\<exists>i < NBUF. refcnt (bufs c ! i) = 0)"
  then have all: "refcnt (bufs c ! i) \<noteq> 0 \<and> dev (bufs c ! i) = d" if "i < NBUF" for i
    using cache_okD(4) [OF ok that] that by (auto simp: buf_ok_def)
  then have "inj_on (\<lambda>i. blockno (bufs c ! i)) {..<NBUF}"
    using cache_okD(5) [OF ok] by (intro inj_onI) simp
  then have "card ((\<lambda>i. blockno (bufs c ! i)) ` {..<NBUF}) = NBUF" by (simp add: card_image)
  moreover have "(\<lambda>i. blockno (bufs c ! i)) ` {..<NBUF} \<subseteq> {b. crefs d c b \<noteq> 0}"
  proof
    fix b assume "b \<in> (\<lambda>i. blockno (bufs c ! i)) ` {..<NBUF}"
    then obtain i where i: "i < NBUF" "blockno (bufs c ! i) = b" by auto
    then have "find_buf d c b = Some i" using all by (simp add: find_buf_Some [OF ok])
    then show "b \<in> {b. crefs d c b \<noteq> 0}" using all i by (simp add: crefs_def)
  qed
  then have "card ((\<lambda>i. blockno (bufs c ! i)) ` {..<NBUF}) \<le> card {b. crefs d c b \<noteq> 0}"
    by (rule card_mono [OF referenced_finite [OF ok]])
  ultimately show False using assms(2) by simp
qed

lemma bread_miss:
  assumes ok: "cache_ok d c" and find: "find_buf d c b = None"
    and room: "card {b. crefs d c b \<noteq> 0} < NBUF"
  shows "\<exists>i c'. bread me d b c = Inr (i, c') \<and> cache_ok d c' \<and> cowns me d c' i b \<and>
    cview d c' = cview d c \<and> disk_of c' = disk_of c \<and> written c' = written c \<and>
    crefs d c' = (crefs d c)(b := crefs d c b + 1) \<and> clocked d c' = insert b (clocked d c) \<and>
    (\<forall>j a. cowns me d c j a \<longrightarrow> cowns me d c' j a)"
proof -
  have "List.find (\<lambda>i. refcnt (bufs c ! i) = 0) (rev (order c)) \<noteq> None"
    using room [THEN XvBio.room [OF ok]] cache_okD(3) [OF ok] by (auto simp: find_None_iff)
  then obtain i where lru: "List.find (\<lambda>i. refcnt (bufs c ! i) = 0) (rev (order c)) = Some i" by blast
  define x where "x = bufs c ! i"
  have "i \<in> set (order c)" "refcnt x = 0" using find_SomeD [OF lru] by (simp_all add: x_def)
  then have i: "i < NBUF" "refcnt x = 0" using cache_okD(3) [OF ok] by auto
  have x: "owner x = None" "valid x \<longrightarrow> data x = disk_of c (blockno x)" "valid x \<longleftrightarrow> dev x = d"
    using cache_okD(4) [OF ok i(1)] i(2) by (auto simp: buf_ok_def x_def)
  define y where "y = x\<lparr>dev := d, blockno := b, refcnt := 1, owner := Some me,
    data := disk_of c b, valid := True\<rparr>"
  have miss: "\<not> (dev (bufs c ! j) = d \<and> blockno (bufs c ! j) = b)" if "j < NBUF" for j
    using find that by (auto simp: find_buf_None)
  have ok': "cache_ok d (replace i y c)"
    by (rule replace_ok [OF ok i(1)]) (use miss in \<open>auto simp: y_def buf_ok_def\<close>)
  note nth = replace_nth [OF cache_okD(1) [OF ok] i(1)]
  have find': "find_buf d (replace i y c) a =
      (if a = b then Some i else if find_buf d c a = Some i then None else find_buf d c a)" for a
    using replace_find [OF ok ok' i(1), of a] by (auto simp: y_def)
  have yf: "data y = disk_of c b" "refcnt y = 1" "owner y = Some me" by (simp_all add: y_def)
  have old: "data (bufs c ! i) = disk_of c a" "refcnt (bufs c ! i) = 0" "owner (bufs c ! i) = None"
    if "find_buf d c a = Some i" for a
    using that x i(2) by (auto simp: find_buf_Some [OF ok] x_def)
  have "cview d (replace i y c) = cview d c"
    by (rule ext) (auto simp: cview_def find' nth find yf old(1) split: option.split)
  moreover have "crefs d (replace i y c) = (crefs d c)(b := crefs d c b + 1)"
    by (rule ext) (auto simp: crefs_def find' nth find yf old(2) split: option.split)
  moreover have "clocked d (replace i y c) = insert b (clocked d c)"
    by (auto simp: clocked_def find' nth yf old(3) split: if_splits)
  moreover have "cowns me d (replace i y c) j a" if "cowns me d c j a" for j a
    using that x(1) find by (auto simp: cowns_def find' nth x_def)
  moreover have "cowns me d (replace i y c) i b" by (simp add: cowns_def find' nth yf)
  moreover have "List.find (\<lambda>i. dev (bufs c ! i) = d \<and> blockno (bufs c ! i) = b) (order c) = None"
    using miss cache_okD(3) [OF ok] by (auto simp: find_None_iff)
  then have "bread me d b c = Inr (i, replace i y c)"
    using lru x(1) by (simp add: bget_def bread_def acquiresleep_def virtio_disk_rw_def Let_def
        replace_nth cache_okD(1) [OF ok] i x_def y_def)
  ultimately show ?thesis using ok' by auto
qed

lemma bread_effect:
  assumes "cache_ok d c" "b \<notin> clocked d c" "crefs d c b + 1 \<noteq> 0"
    "crefs d c b \<noteq> 0 \<or> card {b. crefs d c b \<noteq> 0} < NBUF"
  shows "\<exists>i c'. bread me d b c = Inr (i, c') \<and> cache_ok d c' \<and> cowns me d c' i b \<and>
    cview d c' = cview d c \<and> disk_of c' = disk_of c \<and> written c' = written c \<and>
    crefs d c' = (crefs d c)(b := crefs d c b + 1) \<and> clocked d c' = insert b (clocked d c) \<and>
    (\<forall>j a. cowns me d c j a \<longrightarrow> cowns me d c' j a)"
proof (cases "find_buf d c b")
  case None
  then have "card {b. crefs d c b \<noteq> 0} < NBUF" using assms(4) by (simp add: crefs_def)
  then show ?thesis by (rule bread_miss [OF assms(1) None])
next
  case (Some i)
  from bread_hit [OF assms(1) Some assms(2,3)] show ?thesis by blast
qed

lemma apply_writes_simps [simp]:
  "apply_writes [] d = d" "apply_writes (ws @ [(b, x)]) d = (apply_writes ws d)(b := x)"
  "apply_writes ((b, x) # ws) d = apply_writes ws (d(b := x))"
  by (simp_all add: apply_writes_def)

lemma set_data_effect:
  assumes "cache_ok d c" "cowns me d c i b"
  shows "cache_ok d (set_data i x c) \<and> cview d (set_data i x c) = (cview d c)(b := x) \<and>
    disk_of (set_data i x c) = disk_of c \<and> written (set_data i x c) = written c \<and>
    crefs d (set_data i x c) = crefs d c \<and> clocked d (set_data i x c) = clocked d c \<and>
    cowns me d (set_data i x c) = cowns me d c"
proof -
  note h = held_buf [OF assms]
  define y where "y = (bufs c ! i)\<lparr>data := x\<rparr>"
  have "buf_ok d (disk_of c) y" using h by (simp add: y_def buf_ok_def)
  from replace_same [OF assms(1) h(1) this] h
  have "cache_ok d (replace i y c)" "cview d (replace i y c) = (cview d c)(b := x)"
    "crefs d (replace i y c) = crefs d c" "clocked d (replace i y c) = clocked d c"
    "cowns me d (replace i y c) j a = (if a = b then j = i else cowns me d c j a)" for j a
    by (auto simp: y_def)
  moreover from this(5) have "cowns me d (replace i y c) = cowns me d c"
    using h(1,5) by (intro ext) (auto simp: cowns_def split: if_splits)
  ultimately show ?thesis by (simp add: set_data_def y_def [symmetric])
qed

lemma bunpin_effect:
  assumes "cache_ok d c" "cowns me d c i b" "crefs d c b \<noteq> 1"
  shows "cache_ok d (bunpin i c) \<and> cview d (bunpin i c) = cview d c \<and>
    disk_of (bunpin i c) = disk_of c \<and> written (bunpin i c) = written c \<and>
    crefs d (bunpin i c) = (crefs d c)(b := crefs d c b - 1) \<and>
    clocked d (bunpin i c) = clocked d c \<and> cowns me d (bunpin i c) = cowns me d c"
proof -
  note h = held_buf [OF assms(1,2)]
  define y where "y = (bufs c ! i)\<lparr>refcnt := refcnt (bufs c ! i) - 1\<rparr>"
  have "buf_ok d (disk_of c) y" using h assms(3) by (simp add: y_def buf_ok_def)
  from replace_same [OF assms(1) h(1) this] h
  have "cache_ok d (replace i y c)" "cview d (replace i y c) = cview d c"
    "crefs d (replace i y c) = (crefs d c)(b := crefs d c b - 1)"
    "clocked d (replace i y c) = clocked d c"
    "cowns me d (replace i y c) j a = (if a = b then j = i else cowns me d c j a)" for j a
    by (auto simp: y_def fun_upd_same)
  moreover from this(5) have "cowns me d (replace i y c) = cowns me d c"
    using h(1,5) by (intro ext) (auto simp: cowns_def split: if_splits)
  ultimately show ?thesis by (simp add: bunpin_def y_def [symmetric])
qed

lemma bwrite_effect:
  assumes "cache_ok d c" "cowns me d c i b"
  shows "\<exists>c'. bwrite me i c = Inr c' \<and> cache_ok d c' \<and> cview d c' = cview d c \<and>
    disk_of c' = (disk_of c)(b := cview d c b) \<and> written c' = written c @ [(b, cview d c b)] \<and>
    crefs d c' = crefs d c \<and> clocked d c' = clocked d c \<and> cowns me d c' = cowns me d c"
proof -
  note h = held_buf [OF assms]
  define c' where "c' = c\<lparr>written := written c @ [(b, cview d c b)]\<rparr>"
  have "bwrite me i c = Inr c'"
    using h by (simp add: bwrite_def holdingsleep_def virtio_disk_rw_def Let_def c'_def)
  moreover have c': "bufs c' = bufs c" "order c' = order c" "written c' = written c @ [(b, cview d c b)]"
    by (simp_all add: c'_def)
  moreover have find: "find_buf d c' = find_buf d c" by (simp add: find_buf_def c' fun_eq_iff)
  moreover have disk: "disk_of c' = (disk_of c)(b := cview d c b)" by (simp add: disk_of_def c'_def)
  moreover have "buf_ok d (disk_of c') (bufs c ! j)" if j: "j < NBUF" for j
    using cache_okD(4) [OF assms(1) j] cache_okD(5) [OF assms(1) j h(2)] h
    by (auto simp: buf_ok_def disk)
  then have "cache_ok d c'"
    using cache_okD [OF assms(1)] unfolding cache_ok_def by (simp add: c')
  moreover have "cview d c' a = cview d c a" for a
    using h(1) h(8) by (auto simp: cview_def find disk c' split: option.split)
  moreover have "crefs d c' = crefs d c" "clocked d c' = clocked d c" "cowns me d c' = cowns me d c"
    by (simp_all add: crefs_def clocked_def cowns_def find c' fun_eq_iff cong: option.case_cong)
  ultimately show ?thesis by (simp add: fun_eq_iff)
qed

lemma reorder:
  assumes "cache_ok d c" "i < NBUF"
  defines "c' \<equiv> c\<lparr>order := i # remove1 i (order c)\<rparr>"
  shows "cache_ok d c'" "cview d c' = cview d c" "disk_of c' = disk_of c" "written c' = written c"
    "crefs d c' = crefs d c" "clocked d c' = clocked d c" "cowns me d c' = cowns me d c"
proof -
  have c': "bufs c' = bufs c" by (simp add: c'_def)
  have find: "find_buf d c' = find_buf d c" by (simp add: find_buf_def c' fun_eq_iff)
  show disk: "disk_of c' = disk_of c" by (simp add: disk_of_def c'_def)
  have "distinct (order c')" "set (order c') = {..<NBUF}"
    using cache_okD(2,3) [OF assms(1)] assms(2) by (auto simp: c'_def set_remove1_eq distinct_remove1)
  then show "cache_ok d c'"
    using cache_okD [OF assms(1)] unfolding cache_ok_def disk by (simp add: c')
  show "written c' = written c" by (simp add: c'_def)
  show "cview d c' = cview d c"
    "crefs d c' = crefs d c" "clocked d c' = clocked d c" "cowns me d c' = cowns me d c"
    by (simp_all add: cview_def crefs_def clocked_def cowns_def find disk c' fun_eq_iff cong: option.case_cong)
qed

lemma brelse_effect:
  assumes "cache_ok d c" "cowns me d c i b" "crefs d c b = 1 \<longrightarrow> cview d c b = disk_of c b"
  shows "\<exists>c'. brelse me i c = Inr c' \<and> cache_ok d c' \<and> cview d c' = cview d c \<and>
    disk_of c' = disk_of c \<and> written c' = written c \<and>
    crefs d c' = (crefs d c)(b := crefs d c b - 1) \<and> clocked d c' = clocked d c - {b} \<and>
    (\<forall>j a. cowns me d c j a \<longrightarrow> a \<noteq> b \<longrightarrow> cowns me d c' j a)"
proof -
  note h = held_buf [OF assms(1,2)]
  define y where "y = (bufs c ! i)\<lparr>owner := None, refcnt := refcnt (bufs c ! i) - 1\<rparr>"
  have "buf_ok d (disk_of c) y" using h assms(3) by (simp add: y_def buf_ok_def)
  from replace_same [OF assms(1) h(1) this] h
  have y: "cache_ok d (replace i y c)" "cview d (replace i y c) = cview d c"
    "crefs d (replace i y c) = (crefs d c)(b := crefs d c b - 1)"
    "clocked d (replace i y c) = clocked d c - {b}"
    "a \<noteq> b \<Longrightarrow> cowns me d (replace i y c) j a = cowns me d c j a" for j a
    by (auto simp: y_def fun_upd_same)
  have "brelse me i c = Inr (if refcnt y = 0
      then (replace i y c)\<lparr>order := i # remove1 i (order (replace i y c))\<rparr> else replace i y c)"
    using h by (simp add: brelse_def holdingsleep_def releasesleep_def Let_def y_def
        replace_nth cache_okD(1) [OF assms(1)])
  then show ?thesis using y reorder [OF y(1) h(2)] by (cases "refcnt y = 0") auto
qed

interpretation bcache: block_cache "cache_ok d" "cview d" disk_of "crefs d" "clocked d" "cowns me d"
  written "bread me d" "bwrite me" "brelse me" bunpin get_data set_data NBUF for me d
proof (unfold_locales, goal_cases)
  case (1 c b)
  then show ?case by (intro bread_effect)
next
  case (2 c i b)
  then show ?case using held_buf(8) [of d c me i b] by (simp add: get_data_def)
next
  case (3 c i b x)
  then show ?case by (rule set_data_effect)
next
  case (4 c i b)
  then show ?case by (rule bwrite_effect)
next
  case (5 c i b)
  then show ?case by (rule bunpin_effect)
next
  case (6 c i b)
  then show ?case by (rule brelse_effect)
next
  case (7 c)
  then show ?case by (rule referenced_finite)
next
  case (8 c b)
  show ?case
  proof (cases "find_buf d c b")
    case (Some i)
    then have i: "i < NBUF" "dev (bufs c ! i) = d" "blockno (bufs c ! i) = b"
      using 8 by (simp_all add: find_buf_Some)
    then show ?thesis
      using cache_okD(4) [OF 8(1) i(1)] 8(2) Some by (simp add: cview_def crefs_def buf_ok_def)
  qed (simp add: cview_def)
qed

lemma binit_ok: "d \<noteq> 0 \<Longrightarrow> cache_ok d (binit dk)"
proof -
  assume d: "d \<noteq> 0"
  have "foldl (\<lambda>l b. b # l) [] xs = rev xs" for xs :: "nat list"
    by (induction xs rule: rev_induct) simp_all
  then have "order (binit dk) = rev [0..<NBUF]" by (simp add: binit_def)
  then show ?thesis
    using d by (simp add: cache_ok_def binit_def buf_ok_def zero_buf_def atLeast0LessThan)
qed

lemma binit_state:
  assumes "d \<noteq> 0"
  shows "bcache.idle d (binit dk)" "cview d (binit dk) = dk" "disk_of (binit dk) = dk"
    "crefs d (binit dk) = (\<lambda>_. 0)" "written (binit dk) = []"
proof -
  have "find_buf d (binit dk) b = None" for b
    using assms by (simp add: find_buf_None binit_def zero_buf_def)
  moreover show disk: "disk_of (binit dk) = dk" by (simp add: disk_of_def binit_def)
  ultimately show "cview d (binit dk) = dk" "crefs d (binit dk) = (\<lambda>_. 0)"
    "bcache.idle d (binit dk)"
    using binit_ok [OF assms] by (simp_all add: cview_def crefs_def clocked_def bcache.idle_def fun_eq_iff)
  show "written (binit dk) = []" by (simp add: binit_def)
qed

lemma bpin_effect:
  assumes "cache_ok d c" "cowns me d c i b" "crefs d c b + 1 \<noteq> 0"
  shows "cache_ok d (bpin i c) \<and> cview d (bpin i c) = cview d c \<and>
    disk_of (bpin i c) = disk_of c \<and> written (bpin i c) = written c \<and>
    crefs d (bpin i c) = (crefs d c)(b := crefs d c b + 1) \<and>
    clocked d (bpin i c) = clocked d c \<and> cowns me d (bpin i c) = cowns me d c"
proof -
  note h = held_buf [OF assms(1,2)]
  define y where "y = (bufs c ! i)\<lparr>refcnt := refcnt (bufs c ! i) + 1\<rparr>"
  have "buf_ok d (disk_of c) y" using h assms(3) by (simp add: y_def buf_ok_def)
  from replace_same [OF assms(1) h(1) this] h
  have "cache_ok d (replace i y c)" "cview d (replace i y c) = cview d c"
    "crefs d (replace i y c) = (crefs d c)(b := crefs d c b + 1)"
    "clocked d (replace i y c) = clocked d c"
    "cowns me d (replace i y c) j a = (if a = b then j = i else cowns me d c j a)" for j a
    by (auto simp: y_def fun_upd_same)
  moreover from this(5) have "cowns me d (replace i y c) = cowns me d c"
    using h(1,5) by (intro ext) (auto simp: cowns_def split: if_splits)
  ultimately show ?thesis by (simp add: bpin_def y_def [symmetric])
qed

text \<open>When \<open>NBUF\<close> blocks are referenced, a read of any other block panics.\<close>

lemma bread_full:
  assumes ok: "cache_ok d c" and full: "card {b. crefs d c b \<noteq> 0} = NBUF" and b: "crefs d c b = 0"
  shows "bread me d b c = Inl (Panic ''bget: no buffers'')"
proof -
  define R where "R = {i. i < NBUF \<and> refcnt (bufs c ! i) \<noteq> 0}"
  have "{b. crefs d c b \<noteq> 0} \<subseteq> (\<lambda>i. blockno (bufs c ! i)) ` R"
    by (auto simp: crefs_def find_buf_Some [OF ok] R_def split: option.splits)
  then have "card {b. crefs d c b \<noteq> 0} \<le> card ((\<lambda>i. blockno (bufs c ! i)) ` R)"
    by (rule card_mono [rotated]) (simp add: R_def)
  also have "\<dots> \<le> card R" by (rule card_image_le) (simp add: R_def)
  finally have "card {b. crefs d c b \<noteq> 0} \<le> card R" .
  moreover have "R \<subseteq> {..<NBUF}" by (auto simp: R_def)
  ultimately have "R = {..<NBUF}" using full by (intro card_seteq) simp_all
  then have ref: "refcnt (bufs c ! i) \<noteq> 0" if "i < NBUF" for i using that by (auto simp: R_def)
  have "find_buf d c b = None"
  proof (cases "find_buf d c b")
    case (Some i)
    then have "refcnt (bufs c ! i) = 0" using b by (simp add: crefs_def)
    moreover have "i < NBUF" using Some by (simp add: find_buf_Some [OF ok])
    ultimately show ?thesis using ref by blast
  qed
  then have "List.find (\<lambda>i. dev (bufs c ! i) = d \<and> blockno (bufs c ! i) = b) (order c) = None"
    using cache_okD(3) [OF ok] by (auto simp: find_None_iff find_buf_None)
  moreover have "List.find (\<lambda>i. refcnt (bufs c ! i) = 0) (rev (order c)) = None"
    using ref cache_okD(3) [OF ok] by (auto simp: find_None_iff)
  ultimately show ?thesis by (simp add: bread_def bget_def)
qed

end
