(* ===== verification/XvLog.thy ===== *)
theory XvLog
  imports XvBio
begin

text \<open>
  \<open>xv6/xv6-source/kernel/log.c\<close>, the redo log under the file system, on the buffer cache of XvBio. The
  system calls run one after the other; a call that would sleep returns \<open>Sleeps\<close>. The messages
  printed while recovering are not modelled. \<open>commit_is_atomic\<close> is crash safety: wherever the
  machine stops during a commit, recovery finds the disk from before or the disk from after it.
\<close>

section \<open>The log\<close>

definition MAXOPBLOCKS :: int where "MAXOPBLOCKS = 10"

definition LOGBLOCKS :: nat where "LOGBLOCKS = 30"

definition BSIZE :: nat where "BSIZE = 1024"

record log =
  start :: blockno
  outstanding :: int
  committing :: bool
  log_dev :: "32 word"
  lh_n :: int
  lh_block :: "blockno list"

definition log_block :: "log \<Rightarrow> nat \<Rightarrow> blockno" where
  "log_block l tail = start l + of_nat tail + 1"

fun install_from :: "int \<Rightarrow> bool \<Rightarrow> log \<Rightarrow> nat list \<Rightarrow> bcache \<Rightarrow> stop + bcache" where
  "install_from me recovering l [] c = Inr c"
| "install_from me recovering l (tail # ts) c =
     bnd (bread me (log_dev l) (log_block l tail) c) (\<lambda>(lbuf, c).
     bnd (bread me (log_dev l) (lh_block l ! tail) c) (\<lambda>(dbuf, c).
     bnd (bwrite me dbuf (set_data dbuf (get_data lbuf c) c)) (\<lambda>c.
     let c = (if \<not> recovering then bunpin dbuf c else c) in
     bnd (brelse me lbuf c) (\<lambda>c.
     bnd (brelse me dbuf c) (\<lambda>c.
     install_from me recovering l ts c)))))"

definition install_trans :: "int \<Rightarrow> bool \<Rightarrow> log \<Rightarrow> bcache \<Rightarrow> stop + bcache" where
  "install_trans me recovering l c = install_from me recovering l [0..<nat (lh_n l)] c"

definition read_head :: "int \<Rightarrow> log \<Rightarrow> bcache \<Rightarrow> stop + log \<times> bcache" where
  "read_head me l c =
     bnd (bread me (log_dev l) (start l) c) (\<lambda>(b, c).
     let h = get_data b c; n = sint (h ! 0) in
     if n > int LOGBLOCKS then Inl Overrun
     else
       let l = l\<lparr>lh_n := n,
         lh_block := foldl (\<lambda>bs i. bs[i := h ! (i + 1)]) (lh_block l) [0..<nat n]\<rparr> in
       bnd (brelse me b c) (\<lambda>c. Inr (l, c)))"

definition head_data :: "log \<Rightarrow> block \<Rightarrow> block" where
  "head_data l h = foldl (\<lambda>h i. h[i + 1 := lh_block l ! i]) (h[0 := word_of_int (lh_n l)]) [0..<nat (lh_n l)]"

definition write_head :: "int \<Rightarrow> log \<Rightarrow> bcache \<Rightarrow> stop + bcache" where
  "write_head me l c =
     bnd (bread me (log_dev l) (start l) c) (\<lambda>(b, c).
     bnd (bwrite me b (set_data b (head_data l (get_data b c)) c)) (\<lambda>c.
     brelse me b c))"

definition recover_from_log :: "int \<Rightarrow> log \<Rightarrow> bcache \<Rightarrow> stop + log \<times> bcache" where
  "recover_from_log me l c =
     bnd (read_head me l c) (\<lambda>(l, c).
     bnd (install_trans me True l c) (\<lambda>c.
     let l = l\<lparr>lh_n := 0\<rparr> in
     bnd (write_head me l c) (\<lambda>c. Inr (l, c))))"

definition initlog :: "int \<Rightarrow> 32 word \<Rightarrow> blockno \<Rightarrow> log \<Rightarrow> bcache \<Rightarrow> stop + log \<times> bcache" where
  "initlog me d logstart l c =
     (if 4 + 4 * LOGBLOCKS \<ge> BSIZE then Inl (Panic ''initlog: too big logheader'')
      else recover_from_log me (l\<lparr>start := logstart, log_dev := d\<rparr>) c)"

definition begin_op :: "log \<Rightarrow> stop + log" where
  "begin_op l =
     (if committing l then Inl Sleeps
      else if lh_n l + (outstanding l + 1) * MAXOPBLOCKS > int LOGBLOCKS then Inl Sleeps
      else Inr (l\<lparr>outstanding := outstanding l + 1\<rparr>))"

fun write_from :: "int \<Rightarrow> log \<Rightarrow> nat list \<Rightarrow> bcache \<Rightarrow> stop + bcache" where
  "write_from me l [] c = Inr c"
| "write_from me l (tail # ts) c =
     bnd (bread me (log_dev l) (log_block l tail) c) (\<lambda>(to_buf, c).
     bnd (bread me (log_dev l) (lh_block l ! tail) c) (\<lambda>(from_buf, c).
     bnd (bwrite me to_buf (set_data to_buf (get_data from_buf c) c)) (\<lambda>c.
     bnd (brelse me from_buf c) (\<lambda>c.
     bnd (brelse me to_buf c) (\<lambda>c.
     write_from me l ts c)))))"

definition write_log :: "int \<Rightarrow> log \<Rightarrow> bcache \<Rightarrow> stop + bcache" where
  "write_log me l c = write_from me l [0..<nat (lh_n l)] c"

definition commit :: "int \<Rightarrow> log \<Rightarrow> bcache \<Rightarrow> stop + log \<times> bcache" where
  "commit me l c =
     (if lh_n l > 0 then
        bnd (write_log me l c) (\<lambda>c.
        bnd (write_head me l c) (\<lambda>c.
        bnd (install_trans me False l c) (\<lambda>c.
        let l = l\<lparr>lh_n := 0\<rparr> in
        bnd (write_head me l c) (\<lambda>c. Inr (l, c)))))
      else Inr (l, c))"

definition end_op :: "int \<Rightarrow> log \<Rightarrow> bcache \<Rightarrow> stop + log \<times> bcache" where
  "end_op me l c =
     (let l = l\<lparr>outstanding := outstanding l - 1\<rparr> in
      if committing l then Inl (Panic ''log.committing'')
      else if outstanding l = 0 then
        bnd (commit me (l\<lparr>committing := True\<rparr>) c) (\<lambda>(l, c). Inr (l\<lparr>committing := False\<rparr>, c))
      else Inr (l, c))"

definition log_write :: "nat \<Rightarrow> log \<Rightarrow> bcache \<Rightarrow> stop + log \<times> bcache" where
  "log_write i l c =
     (if lh_n l \<ge> int LOGBLOCKS then Inl (Panic ''too big a transaction'')
      else if outstanding l < 1 then Inl (Panic ''log_write outside of trans'')
      else
        let b = blockno (bufs c ! i); n = nat (lh_n l);
            k = (case first_index (\<lambda>x. x = b) (take n (lh_block l)) of Some k \<Rightarrow> k | None \<Rightarrow> n);
            l = l\<lparr>lh_block := (lh_block l)[k := b]\<rparr>
        in if k = n then Inr (l\<lparr>lh_n := lh_n l + 1\<rparr>, bpin i c) else Inr (l, c))"

section \<open>What recovery makes of a disk\<close>

definition log_region :: "blockno \<Rightarrow> blockno set" where
  "log_region s = insert s ((\<lambda>t. s + of_nat t + 1) ` {..<LOGBLOCKS})"

definition head_n :: "blockno \<Rightarrow> (blockno \<Rightarrow> block) \<Rightarrow> nat" where
  "head_n s dk = nat (sint (dk s ! 0))"

definition redo :: "blockno \<Rightarrow> (blockno \<Rightarrow> block) \<Rightarrow> (blockno \<times> block) list" where
  "redo s dk = map (\<lambda>t. (dk s ! (t + 1), dk (s + of_nat t + 1))) [0..<head_n s dk]"

definition recovered :: "blockno \<Rightarrow> (blockno \<Rightarrow> block) \<Rightarrow> blockno \<Rightarrow> block" where
  "recovered s dk = apply_writes (redo s dk) dk"

definition good_head :: "blockno \<Rightarrow> (blockno \<Rightarrow> block) \<Rightarrow> bool" where
  "good_head s dk \<longleftrightarrow> head_n s dk \<le> LOGBLOCKS \<and> dk s \<noteq> [] \<and>
     (\<forall>t < head_n s dk. dk s ! (t + 1) \<notin> log_region s)"

definition same_files :: "blockno \<Rightarrow> (blockno \<Rightarrow> block) \<Rightarrow> (blockno \<Rightarrow> block) \<Rightarrow> bool" where
  "same_files s f g \<longleftrightarrow> (\<forall>b. b \<notin> log_region s \<longrightarrow> f b = g b)"

lemma apply_writes_val:
  "apply_writes ws d b = (case map_of (rev ws) b of Some x \<Rightarrow> x | None \<Rightarrow> d b)"
  by (induction ws rule: rev_induct) (auto split: option.split)

lemma apply_writes_append: "apply_writes (ws @ vs) d = apply_writes vs (apply_writes ws d)"
  by (simp add: apply_writes_def)

lemma apply_writes_other: "b \<notin> fst ` set ws \<Longrightarrow> apply_writes ws d b = d b"
  by (induction ws arbitrary: d) auto

text \<open>Writing a part of a list of blocks first does not change what writing all of them gives.\<close>

lemma apply_writes_again:
  "apply_writes ws (apply_writes (take j ws) d) = apply_writes ws d"
proof
  fix b
  show "apply_writes ws (apply_writes (take j ws) d) b = apply_writes ws d b"
  proof (cases "map_of (rev ws) b")
    case None
    then have "b \<notin> fst ` set ws" by (simp add: map_of_eq_None_iff)
    then have "b \<notin> fst ` set (take j ws)" using set_take_subset [of j ws] by auto
    then show ?thesis by (simp add: apply_writes_val [of ws] None apply_writes_other)
  qed (simp add: apply_writes_val [of ws])
qed

lemma redo_outside:
  assumes "good_head s dk" shows "fst ` set (redo s dk) \<inter> log_region s = {}"
  using assms by (auto simp: redo_def good_head_def)

text \<open>A disk on which a part of the redo list is already installed recovers to the same files.\<close>

lemma redo_same:
  assumes "good_head s dk" and dk': "\<And>b. b \<in> log_region s \<Longrightarrow> dk' b = dk b"
  shows "redo s dk' = redo s dk" "good_head s dk'"
proof -
  have h: "dk' s = dk s" using dk' by (simp add: log_region_def)
  then show "good_head s dk'" using assms(1) by (simp add: good_head_def head_n_def)
  have "dk' (s + of_nat t + 1) = dk (s + of_nat t + 1)" if "t < head_n s dk" for t
    using that assms(1) by (intro dk') (auto simp: log_region_def good_head_def)
  then show "redo s dk' = redo s dk" by (simp add: redo_def h head_n_def)
qed

lemma recovered_again:
  assumes g: "good_head s dk" and k: "dk' = apply_writes (take k (redo s dk @ [(s, (dk s)[0 := 0])])) dk"
  shows "good_head s dk' \<and> same_files s (recovered s dk') (recovered s dk)"
proof (cases "k \<le> length (redo s dk)")
  case True
  then have d: "dk' = apply_writes (take k (redo s dk)) dk" using k by simp
  have "dk' b = dk b" if b: "b \<in> log_region s" for b
  proof -
    have "fst ` set (take k (redo s dk)) \<subseteq> fst ` set (redo s dk)" by (intro image_mono set_take_subset)
    then have "b \<notin> fst ` set (take k (redo s dk))" using redo_outside [OF g] b by blast
    then show ?thesis unfolding d by (rule apply_writes_other)
  qed
  from redo_same [OF g this] show ?thesis by (simp add: recovered_def same_files_def d apply_writes_again)
next
  case False
  then have d: "dk' = (recovered s dk)(s := (dk s)[0 := 0])" using k by (simp add: recovered_def)
  then have h: "dk' s = (dk s)[0 := 0]" by simp
  moreover have ne: "dk s \<noteq> []" using g by (simp add: good_head_def)
  ultimately have n: "head_n s dk' = 0" by (simp add: head_n_def)
  then have "good_head s dk'" using ne h by (simp add: good_head_def)
  moreover have "recovered s dk' = dk'" using n by (simp add: recovered_def redo_def)
  then have "same_files s (recovered s dk') (recovered s dk)"
    by (simp add: same_files_def log_region_def) (simp add: d)
  ultimately show ?thesis ..
qed

section \<open>The loops over the log\<close>

lemma log_block_neq_start:
  assumes "t < LOGBLOCKS" shows "log_block l t \<noteq> start l"
proof
  assume "log_block l t = start l"
  then have "(of_nat (t + 1) :: 32 word) = 0" by (simp add: log_block_def add.assoc add.commute)
  then show False using assms unfolding word_of_nat_eq_0_iff LOGBLOCKS_def by (auto dest!: dvd_imp_le)
qed

lemma log_block_region: "t < LOGBLOCKS \<Longrightarrow> log_block l t \<in> log_region (start l)"
  by (simp add: log_block_def log_region_def)

lemma log_block_inj:
  assumes "t < LOGBLOCKS" "u < LOGBLOCKS" "log_block l t = log_block l u" shows "t = u"
proof -
  have "(of_nat t :: 32 word) = of_nat u" using assms(3) by (simp add: log_block_def)
  then show ?thesis
    using assms(1,2) unfolding word_of_nat_eq_iff by (simp add: LOGBLOCKS_def take_bit_eq_mod)
qed

lemma write_from_Cons:
  "write_from me l (t # ts) c =
     bnd (bcache.log_copy me (log_dev l) (log_block l t) (lh_block l ! t) c) (write_from me l ts)"
  by (simp add: bcache.log_copy_def bnd_assoc case_prod_unfold)

lemma install_from_Cons:
  "install_from me r l (t # ts) c =
     bnd (bcache.install_copy me (log_dev l) r (log_block l t) (lh_block l ! t) c)
       (install_from me r l ts)"
  by (simp add: bcache.install_copy_def bnd_assoc case_prod_unfold Let_def)

lemma write_head_rewrite:
  "write_head me l c = bcache.rewrite me (log_dev l) (start l) (head_data l) c"
  by (simp add: write_head_def bcache.rewrite_def)

lemma write_from_effect:
  assumes "bcache.idle d c" "log_dev l = d" "card {b. crefs d c b \<noteq> 0} < NBUF"
    "\<And>t. t \<in> set ts \<Longrightarrow> crefs d c (log_block l t) = 0 \<and> crefs d c (lh_block l ! t) = 1"
    "\<And>t u. t \<in> set ts \<Longrightarrow> u \<in> set ts \<Longrightarrow> log_block l t \<noteq> lh_block l ! u"
  defines "W \<equiv> map (\<lambda>t. (log_block l t, cview d c (lh_block l ! t))) ts"
  shows "\<exists>c'. write_from me l ts c = Inr c' \<and> bcache.idle d c' \<and>
    cview d c' = apply_writes W (cview d c) \<and> disk_of c' = apply_writes W (disk_of c) \<and>
    written c' = written c @ W \<and> crefs d c' = crefs d c"
  using assms(1,3-5) unfolding W_def
proof (induction ts arbitrary: c)
  case (Cons t ts)
  let ?a = "log_block l t" and ?v = "cview d c (lh_block l ! t)"
  have "?a \<noteq> lh_block l ! t" "crefs d c ?a = 0" "crefs d c (lh_block l ! t) = 1"
    using Cons.prems(3,4) by auto
  with bcache.log_copy_effect [OF Cons.prems(1), of ?a "lh_block l ! t" me] Cons.prems(2)
  obtain c1 where c1: "bcache.log_copy me d ?a (lh_block l ! t) c = Inr c1" "bcache.idle d c1"
    "cview d c1 = (cview d c)(?a := ?v)" "disk_of c1 = (disk_of c)(?a := ?v)"
    "written c1 = written c @ [(?a, ?v)]" "crefs d c1 = crefs d c" by auto
  have ne: "lh_block l ! u \<noteq> ?a" if "u \<in> set ts" for u
    using Cons.prems(4) [of t u] that by (metis list.set_intros)
  have rest: "map (\<lambda>u. (log_block l u, cview d c1 (lh_block l ! u))) ts =
      map (\<lambda>u. (log_block l u, cview d c (lh_block l ! u))) ts"
    using ne by (simp add: c1(3))
  have "write_from me l (t # ts) c = write_from me l ts c1"
    unfolding write_from_Cons assms(2) c1(1) by simp
  moreover have "\<exists>c'. write_from me l ts c1 = Inr c' \<and> bcache.idle d c' \<and>
      cview d c' = apply_writes (map (\<lambda>u. (log_block l u, cview d c1 (lh_block l ! u))) ts) (cview d c1) \<and>
      disk_of c' = apply_writes (map (\<lambda>u. (log_block l u, cview d c1 (lh_block l ! u))) ts) (disk_of c1) \<and>
      written c' = written c1 @ map (\<lambda>u. (log_block l u, cview d c1 (lh_block l ! u))) ts \<and>
      crefs d c' = crefs d c1"
    by (rule Cons.IH [OF c1(2)]) (use Cons.prems in \<open>auto simp: c1(6)\<close>)
  ultimately show ?case unfolding rest by (simp add: c1)
qed simp

lemma install_from_effect:
  assumes "bcache.idle d c" "log_dev l = d"
    "card {b. crefs d c b \<noteq> 0} + (if r then 1 else 0) < NBUF"
    "\<And>t. t \<in> set ts \<Longrightarrow> crefs d c (log_block l t) = 0"
    "\<And>t. t \<in> set ts \<Longrightarrow> crefs d c (lh_block l ! t) = (if r then 0 else 1)"
    "\<And>t u. t \<in> set ts \<Longrightarrow> u \<in> set ts \<Longrightarrow> log_block l t \<noteq> lh_block l ! u"
    "\<not> r \<Longrightarrow> distinct (map (\<lambda>t. lh_block l ! t) ts)"
  defines "W \<equiv> map (\<lambda>t. (lh_block l ! t, cview d c (log_block l t))) ts"
  shows "\<exists>c'. install_from me r l ts c = Inr c' \<and> bcache.idle d c' \<and>
    cview d c' = apply_writes W (cview d c) \<and> disk_of c' = apply_writes W (disk_of c) \<and>
    written c' = written c @ W \<and>
    crefs d c' = (\<lambda>b. if b \<in> (\<lambda>t. lh_block l ! t) ` set ts then 0 else crefs d c b)"
  using assms(1,3-7) unfolding W_def
proof (induction ts arbitrary: c)
  case (Cons t ts)
  let ?a = "log_block l t" and ?b = "lh_block l ! t" and ?v = "cview d c (log_block l t)"
  have ab: "?a \<noteq> ?b" "crefs d c ?a = 0" "crefs d c ?b = (if r then 0 else 1)"
    using Cons.prems(3-5) by auto
  with bcache.install_copy_effect [OF Cons.prems(1), of ?a ?b r me] Cons.prems(2)
  obtain c1 where c1: "bcache.install_copy me d r ?a ?b c = Inr c1" "bcache.idle d c1"
    "cview d c1 = (cview d c)(?b := ?v)" "disk_of c1 = (disk_of c)(?b := ?v)"
    "written c1 = written c @ [(?b, ?v)]"
    "crefs d c1 = (if r then crefs d c else (crefs d c)(?b := crefs d c ?b - 1))"
    by (auto split: if_splits)
  have refs: "crefs d c1 b = (if b = ?b then 0 else crefs d c b)" for b using ab(3) by (simp add: c1(6))
  have rest: "map (\<lambda>u. (lh_block l ! u, cview d c1 (log_block l u))) ts =
      map (\<lambda>u. (lh_block l ! u, cview d c (log_block l u))) ts"
    using Cons.prems(5) by (fastforce simp: c1(3))
  have "finite {b. crefs d c b \<noteq> 0}"
    using Cons.prems(1) referenced_finite by (simp add: bcache.idle_def)
  then have "card {b. crefs d c1 b \<noteq> 0} \<le> card {b. crefs d c b \<noteq> 0}"
    by (rule card_mono) (auto simp: refs)
  then have card: "card {b. crefs d c1 b \<noteq> 0} + (if r then 1 else 0) < NBUF"
    using Cons.prems(2) by simp
  have distinct: "r" if "u \<in> set ts" "lh_block l ! u = ?b" for u
  proof (rule ccontr)
    assume "\<not> r"
    then have "?b \<notin> (\<lambda>t. lh_block l ! t) ` set ts" using Cons.prems(6) by simp
    then show False using that by (metis imageI)
  qed
  have "install_from me r l (t # ts) c = install_from me r l ts c1"
    unfolding install_from_Cons assms(2) c1(1) by simp
  moreover have "\<exists>c'. install_from me r l ts c1 = Inr c' \<and> bcache.idle d c' \<and>
      cview d c' = apply_writes (map (\<lambda>u. (lh_block l ! u, cview d c1 (log_block l u))) ts) (cview d c1) \<and>
      disk_of c' = apply_writes (map (\<lambda>u. (lh_block l ! u, cview d c1 (log_block l u))) ts) (disk_of c1) \<and>
      written c' = written c1 @ map (\<lambda>u. (lh_block l ! u, cview d c1 (log_block l u))) ts \<and>
      crefs d c' = (\<lambda>b. if b \<in> (\<lambda>t. lh_block l ! t) ` set ts then 0 else crefs d c1 b)"
    by (rule Cons.IH [OF c1(2) card]) (use Cons.prems(3-6) distinct in \<open>auto simp: refs\<close>)
  ultimately show ?case
    unfolding rest by (auto simp: c1(1-5) refs fun_eq_iff simp del: install_from.simps)
qed auto

section \<open>Recovery\<close>

lemma copied_blocks:
  assumes "length bs = LOGBLOCKS" "n \<le> LOGBLOCKS"
  shows "length (foldl (\<lambda>bs i. bs[i := h ! (i + 1)]) bs [0..<n]) = LOGBLOCKS"
    "\<And>i. i < n \<Longrightarrow> foldl (\<lambda>bs i. bs[i := h ! (i + 1)]) bs [0..<n] ! i = h ! (i + 1)"
proof -
  have "length (foldl (\<lambda>bs i. bs[i := h ! (i + 1)]) bs [0..<m]) = LOGBLOCKS \<and>
      (\<forall>i < m. foldl (\<lambda>bs i. bs[i := h ! (i + 1)]) bs [0..<m] ! i = h ! (i + 1))"
    if "m \<le> LOGBLOCKS" for m
    using that assms(1) by (induction m) (auto simp: nth_list_update less_Suc_eq)
  from this [OF assms(2)] show
    "length (foldl (\<lambda>bs i. bs[i := h ! (i + 1)]) bs [0..<n]) = LOGBLOCKS"
    "\<And>i. i < n \<Longrightarrow> foldl (\<lambda>bs i. bs[i := h ! (i + 1)]) bs [0..<n] ! i = h ! (i + 1)"
    by blast+
qed

lemma read_head_effect:
  assumes "bcache.idle d c" "log_dev l = d" "crefs d c = (\<lambda>_. 0)" "length (lh_block l) = LOGBLOCKS"
    "head_n (start l) (cview d c) \<le> LOGBLOCKS"
  shows "\<exists>l' c'. read_head me l c = Inr (l', c') \<and> bcache.idle d c' \<and> cview d c' = cview d c \<and>
    disk_of c' = disk_of c \<and> written c' = written c \<and> crefs d c' = (\<lambda>_. 0) \<and>
    start l' = start l \<and> log_dev l' = d \<and> length (lh_block l') = LOGBLOCKS \<and>
    nat (lh_n l') = head_n (start l) (cview d c) \<and>
    (\<forall>i < head_n (start l) (cview d c). lh_block l' ! i = cview d c (start l) ! (i + 1))"
proof -
  from bread_effect [of d c "start l" me] assms(1,3) obtain b c1 where
    1: "bread me d (start l) c = Inr (b, c1)" "cache_ok d c1" "cowns me d c1 b (start l)"
      "cview d c1 = cview d c" "disk_of c1 = disk_of c" "written c1 = written c"
      "crefs d c1 = (\<lambda>_. 0)(start l := 1)" "clocked d c1 = {start l}"
    by (auto simp: bcache.idle_def NBUF_def)
  define h where "h = cview d c (start l)"
  define n where "n = nat (sint (h ! 0))"
  have n: "head_n (start l) (cview d c) = n" by (simp add: head_n_def h_def n_def)
  define cs where "cs = foldl (\<lambda>bs i. bs[i := h ! (i + 1)]) (lh_block l) [0..<n]"
  note cs = copied_blocks [OF assms(4), where n = n and h = h, folded cs_def]
  have get: "get_data b c1 = h" using bcache.get [OF 1(2,3)] 1(4) by (simp add: h_def)
  have "cview d c1 (start l) = disk_of c1 (start l)"
    using bcache.clean [of d c "start l"] assms(1,3) 1(4,5) by (simp add: bcache.idle_def)
  with brelse_effect [OF 1(2,3)] obtain c2 where 2: "brelse me b c1 = Inr c2" "cache_ok d c2"
    "cview d c2 = cview d c" "disk_of c2 = disk_of c" "written c2 = written c"
    "crefs d c2 = (\<lambda>_. 0)(start l := 1, start l := 0)" "clocked d c2 = {}"
    by (auto simp: 1)
  have "read_head me l c = Inr (l\<lparr>lh_n := sint (h ! 0), lh_block := cs\<rparr>, c2)"
  proof -
    have "\<not> sint (h ! 0) > int LOGBLOCKS" using assms(5) n n_def by linarith
    then show ?thesis
      unfolding read_head_def assms(2) 1(1)
      by (simp only: bnd.simps prod.case get Let_def if_False n_def [symmetric] cs_def [symmetric] 2(1))
  qed
  then show ?thesis
    using 2 cs assms(2,5) n by (auto simp: bcache.idle_def h_def [symmetric] n_def [symmetric])
qed

lemma head_data_0: "lh_n l = 0 \<Longrightarrow> head_data l h = h[0 := 0]"
  by (simp add: head_data_def)

lemma recovery:
  assumes "good_head s dk" "d \<noteq> 0" "length (lh_block l) = LOGBLOCKS"
  shows "\<exists>l' c'. initlog me d s l (binit dk) = Inr (l', c') \<and> bcache.idle d c' \<and>
    start l' = s \<and> lh_n l' = 0 \<and>
    written c' = redo s dk @ [(s, (dk s)[0 := 0])] \<and> same_files s (disk_of c') (recovered s dk)"
proof -
  define l0 where "l0 = l\<lparr>start := s, log_dev := d\<rparr>"
  have l0: "start l0 = s" "log_dev l0 = d" "length (lh_block l0) = LOGBLOCKS"
    using assms(3) by (simp_all add: l0_def)
  note b = binit_state [OF assms(2), of dk]
  define n where "n = head_n s dk"
  have n: "n \<le> LOGBLOCKS" using assms(1) by (simp add: good_head_def n_def)
  from read_head_effect [OF b(1) l0(2) b(4) l0(3), of me] obtain l1 c1 where
    1: "read_head me l0 (binit dk) = Inr (l1, c1)" "bcache.idle d c1" "cview d c1 = dk" "disk_of c1 = dk"
      "written c1 = []" "crefs d c1 = (\<lambda>_. 0)" "start l1 = s" "log_dev l1 = d" "nat (lh_n l1) = n"
      "\<forall>i < n. lh_block l1 ! i = dk s ! (i + 1)"
    using n l0 b by (auto simp: n_def)
  define W where "W = map (\<lambda>t. (lh_block l1 ! t, cview d c1 (log_block l1 t))) [0..<n]"
  have W: "W = redo s dk"
    using 1 by (simp add: W_def redo_def log_block_def n_def)
  have "log_block l1 t \<noteq> lh_block l1 ! u" if "t < n" "u < n" for t u
    using that n 1 assms(1) log_block_region [of t l1] by (auto simp: good_head_def n_def)
  then obtain c2 where
    2: "install_from me True l1 [0..<n] c1 = Inr c2" "bcache.idle d c2" "cview d c2 = apply_writes W dk"
      "disk_of c2 = apply_writes W dk" "written c2 = W"
      "crefs d c2 = (\<lambda>b. if b \<in> (\<lambda>t. lh_block l1 ! t) ` set [0..<n] then 0 else crefs d c1 b)"
    using install_from_effect [OF 1(2,8), of True "[0..<n]" me]
    by (auto simp: W_def NBUF_def 1(3-6))
  have refs: "crefs d c2 = (\<lambda>_. 0)" by (auto simp: 2(6) 1(6) fun_eq_iff)
  define l2 where "l2 = l1\<lparr>lh_n := 0\<rparr>"
  have l2: "start l2 = s" "log_dev l2 = d" "lh_n l2 = 0" using 1 by (simp_all add: l2_def)
  have s: "apply_writes W dk s = dk s"
    using redo_outside [OF assms(1)] by (intro apply_writes_other) (auto simp: W log_region_def)
  from bcache.rewrite_effect [OF 2(2), of s me "head_data l2"] refs obtain c3 where
    3: "write_head me l2 c2 = Inr c3" "bcache.idle d c3"
      "disk_of c3 = (apply_writes W dk)(s := (dk s)[0 := 0])" "written c3 = W @ [(s, (dk s)[0 := 0])]"
    by (auto simp: write_head_rewrite l2 NBUF_def 2(3-5) head_data_0 s)
  have "initlog me d s l (binit dk) = Inr (l2, c3)"
    by (simp add: initlog_def LOGBLOCKS_def BSIZE_def recover_from_log_def l0_def [symmetric] 1
        install_trans_def 2 Let_def l2_def [symmetric] 3)
  then show ?thesis
    using 3 l2 by (auto simp: same_files_def recovered_def W log_region_def)
qed

section \<open>Commit\<close>

definition logged :: "log \<Rightarrow> blockno list" where
  "logged l = take (nat (lh_n l)) (lh_block l)"

text \<open>
  Between the calls of a transaction: no buffer is locked, exactly the logged blocks are pinned, once
  each, none of them is part of the log, and the header on the disk is empty.
\<close>

definition log_ok :: "log \<Rightarrow> bcache \<Rightarrow> bool" where
  "log_ok l c \<longleftrightarrow> bcache.idle (log_dev l) c \<and> log_dev l \<noteq> 0 \<and> length (lh_block l) = LOGBLOCKS \<and>
     0 \<le> lh_n l \<and> lh_n l \<le> int LOGBLOCKS \<and> distinct (logged l) \<and>
     set (logged l) \<inter> log_region (start l) = {} \<and>
     crefs (log_dev l) c = (\<lambda>b. if b \<in> set (logged l) then 1 else 0) \<and>
     LOGBLOCKS < length (disk_of c (start l)) \<and> head_n (start l) (disk_of c) = 0"

lemma log_okD:
  assumes "log_ok l c"
  shows "bcache.idle (log_dev l) c" "log_dev l \<noteq> 0" "length (lh_block l) = LOGBLOCKS"
    "0 \<le> lh_n l" "lh_n l \<le> int LOGBLOCKS" "distinct (logged l)"
    "set (logged l) \<inter> log_region (start l) = {}"
    "crefs (log_dev l) c = (\<lambda>b. if b \<in> set (logged l) then 1 else 0)"
    "LOGBLOCKS < length (disk_of c (start l))" "head_n (start l) (disk_of c) = 0"
    "length (logged l) = nat (lh_n l)" "card {b. crefs (log_dev l) c b \<noteq> 0} = nat (lh_n l)"
    "\<And>t. t < nat (lh_n l) \<Longrightarrow> lh_block l ! t = logged l ! t"
    "\<And>b. b \<notin> set (logged l) \<Longrightarrow> cview (log_dev l) c b = disk_of c b"
proof -
  show a: "bcache.idle (log_dev l) c" "log_dev l \<noteq> 0" "length (lh_block l) = LOGBLOCKS"
    "0 \<le> lh_n l" "lh_n l \<le> int LOGBLOCKS" "distinct (logged l)"
    "set (logged l) \<inter> log_region (start l) = {}"
    "crefs (log_dev l) c = (\<lambda>b. if b \<in> set (logged l) then 1 else 0)"
    "LOGBLOCKS < length (disk_of c (start l))" "head_n (start l) (disk_of c) = 0"
    using assms unfolding log_ok_def by blast+
  show len: "length (logged l) = nat (lh_n l)" using a(3,5) by (simp add: logged_def)
  have "{b. crefs (log_dev l) c b \<noteq> 0} = set (logged l)" by (auto simp: a(8))
  then show "card {b. crefs (log_dev l) c b \<noteq> 0} = nat (lh_n l)"
    using a(6) len by (simp add: distinct_card)
  show "lh_block l ! t = logged l ! t" if "t < nat (lh_n l)" for t using that by (simp add: logged_def)
  show "cview (log_dev l) c b = disk_of c b" if "b \<notin> set (logged l)" for b
    using bcache.clean [of "log_dev l" c b] a(1,8) that by (simp add: bcache.idle_def)
qed

lemma head_data_nth:
  assumes "0 \<le> lh_n l" "nat (lh_n l) < length h"
  shows "head_data l h ! 0 = word_of_int (lh_n l)" "i < nat (lh_n l) \<Longrightarrow> head_data l h ! (i + 1) = lh_block l ! i"
    "length (head_data l h) = length h"
proof -
  define g where "g m = foldl (\<lambda>h i. h[i + 1 := lh_block l ! i]) (h[0 := word_of_int (lh_n l)]) [0..<m]" for m
  have "g m ! 0 = word_of_int (lh_n l) \<and> length (g m) = length h \<and> (\<forall>i < m. g m ! (i + 1) = lh_block l ! i)"
    if "m < length h" for m
    using that
  proof (induction m)
    case (Suc m)
    moreover have "g (Suc m) = (g m)[m + 1 := lh_block l ! m]" by (simp add: g_def)
    ultimately show ?case by (auto simp: nth_list_update less_Suc_eq)
  qed (auto simp: g_def)
  from this [OF assms(2)]
  show "head_data l h ! 0 = word_of_int (lh_n l)" "i < nat (lh_n l) \<Longrightarrow> head_data l h ! (i + 1) = lh_block l ! i"
    "length (head_data l h) = length h"
    by (auto simp: head_data_def g_def)
qed

lemma map_of_rev_map:
  assumes "inj_on f (set ts)" "t \<in> set ts"
  shows "apply_writes (map (\<lambda>t. (f t, v t)) ts) d (f t) = v t"
  using assms
proof (induction ts rule: rev_induct)
  case (snoc u ts)
  show ?case
  proof (cases "f t = f u")
    case True
    then have "t = u" using snoc.prems inj_onD [of f "set (ts @ [u])" t u] by simp
    then show ?thesis by simp
  next
    case False
    then have "t \<in> set ts" "inj_on f (set ts)"
      using snoc.prems by (auto intro: inj_on_subset)
    then show ?thesis using snoc.IH False by simp
  qed
qed simp

definition log_writes :: "log \<Rightarrow> bcache \<Rightarrow> (blockno \<times> block) list" where
  "log_writes l c = map (\<lambda>t. (log_block l t, cview (log_dev l) c (lh_block l ! t))) [0..<nat (lh_n l)]"

text \<open>The disk once the header is written: the commit point.\<close>

definition committed :: "log \<Rightarrow> bcache \<Rightarrow> blockno \<Rightarrow> block" where
  "committed l c = (apply_writes (log_writes l c) (disk_of c))
     (start l := head_data l (disk_of c (start l)))"

lemma committed_disk:
  assumes "log_ok l c"
  shows "good_head (start l) (committed l c)"
    "redo (start l) (committed l c) =
       map (\<lambda>t. (lh_block l ! t, cview (log_dev l) c (lh_block l ! t))) [0..<nat (lh_n l)]"
    "same_files (start l) (recovered (start l) (committed l c)) (cview (log_dev l) c)"
proof -
  note ok = log_okD [OF assms]
  define n where "n = nat (lh_n l)"
  have n: "n \<le> LOGBLOCKS" using ok(5) by (simp add: n_def)
  have len: "n < length (disk_of c (start l))" using n ok(9) by simp
  note hd = head_data_nth [OF ok(4) len [unfolded n_def]]
  have h: "committed l c (start l) = head_data l (disk_of c (start l))" by (simp add: committed_def)
  have "sint (word_of_int (lh_n l) :: 32 word) = lh_n l"
    using ok(4,5) by (simp add: sint_sbintrunc' signed_take_bit_int_eq_self LOGBLOCKS_def)
  then have n': "head_n (start l) (committed l c) = n"
    by (simp add: head_n_def h hd(1) n_def)
  have blk: "committed l c (start l) ! (t + 1) = lh_block l ! t" if "t < n" for t
    using that hd(2) by (simp add: h n_def)
  have mem: "lh_block l ! t \<in> set (logged l)" if "t < n" for t
    using that ok(11,13) by (simp add: n_def)
  show "good_head (start l) (committed l c)"
    using n len hd(3) mem ok(7) blk unfolding good_head_def n' by (auto simp: h)
  have dat: "committed l c (start l + of_nat t + 1) = cview (log_dev l) c (lh_block l ! t)" if "t < n" for t
  proof -
    have "inj_on (log_block l) (set [0..<n])"
      using n by (intro inj_onI) (auto intro: log_block_inj [of _ _ l])
    from map_of_rev_map [OF this, of t] that
    have "apply_writes (log_writes l c) (disk_of c) (log_block l t) = cview (log_dev l) c (lh_block l ! t)"
      by (simp add: log_writes_def n_def)
    then show ?thesis using that n log_block_neq_start [of t l]
      by (simp add: committed_def log_block_def)
  qed
  show redo: "redo (start l) (committed l c) =
      map (\<lambda>t. (lh_block l ! t, cview (log_dev l) c (lh_block l ! t))) [0..<nat (lh_n l)]"
    unfolding redo_def n' using blk dat by (auto simp: n_def)
  show "same_files (start l) (recovered (start l) (committed l c)) (cview (log_dev l) c)"
    unfolding same_files_def recovered_def redo
  proof (intro allI impI)
    fix b assume b: "b \<notin> log_region (start l)"
    let ?W = "map (\<lambda>t. (lh_block l ! t, cview (log_dev l) c (lh_block l ! t))) [0..<nat (lh_n l)]"
    show "apply_writes ?W (committed l c) b = cview (log_dev l) c b"
    proof (cases "b \<in> set (logged l)")
      case True
      then obtain t where t: "t < n" "b = lh_block l ! t"
        using ok(11,13) by (auto simp: in_set_conv_nth n_def)
      have "inj_on (\<lambda>t. lh_block l ! t) (set [0..<nat (lh_n l)])"
        using ok(6,11,13) by (intro inj_onI) (simp add: nth_eq_iff_index_eq)
      from map_of_rev_map [OF this, of t] t show ?thesis by (simp add: n_def)
    next
      case False
      have "b \<notin> fst ` set ?W" using False mem by (auto simp: n_def)
      then have "apply_writes ?W (committed l c) b = committed l c b" by (rule apply_writes_other)
      also have "\<dots> = apply_writes (log_writes l c) (disk_of c) b"
        using b by (simp add: committed_def log_region_def)
      also have "\<dots> = disk_of c b"
        using b n log_block_region [of _ l]
        by (intro apply_writes_other) (auto simp: log_writes_def n_def dest!: less_le_trans)
      finally show ?thesis using ok(14) [OF False] by simp
    qed
  qed
qed

lemma commit_effect:
  assumes "log_ok l c" "0 < lh_n l" "lh_n l < int NBUF"
  defines "dk \<equiv> committed l c"
  shows "\<exists>c'. commit me l c = Inr (l\<lparr>lh_n := 0\<rparr>, c') \<and> bcache.idle (log_dev l) c' \<and>
    crefs (log_dev l) c' = (\<lambda>_. 0) \<and>
    disk_of c' = apply_writes (redo (start l) dk @ [(start l, (dk (start l))[0 := 0])]) dk \<and>
    written c' = written c @ log_writes l c @ (start l, dk (start l)) #
      redo (start l) dk @ [(start l, (dk (start l))[0 := 0])]"
proof -
  note ok = log_okD [OF assms(1)]
  note cd = committed_disk [OF assms(1), folded dk_def]
  let ?d = "log_dev l" and ?s = "start l"
  define n where "n = nat (lh_n l)"
  have n: "n \<le> LOGBLOCKS" "n < NBUF" using ok(5) assms(2,3) by (simp_all add: n_def)
  have mem: "lh_block l ! t \<in> set (logged l)" if "t < n" for t using that ok(11,13) by (simp add: n_def)
  have neq: "log_block l t \<noteq> lh_block l ! u" "log_block l t \<notin> set (logged l)" if "t < n" "u < n" for t u
    using that n mem [of u] log_block_region [of t l] ok(7) by auto
  have s: "?s \<notin> set (logged l)" using ok(7) by (auto simp: log_region_def)
  have "bcache.idle ?d c" "?d = ?d" "card {b. crefs ?d c b \<noteq> 0} < NBUF" using ok(1,12) n by (simp_all add: n_def)
  from write_from_effect [OF this, of "[0..<n]" me] obtain c1 where
    1: "write_from me l [0..<n] c = Inr c1" "bcache.idle ?d c1"
      "cview ?d c1 = apply_writes (log_writes l c) (cview ?d c)"
      "disk_of c1 = apply_writes (log_writes l c) (disk_of c)"
      "written c1 = written c @ log_writes l c" "crefs ?d c1 = crefs ?d c"
    using neq mem ok(8) by (auto simp: log_writes_def n_def)
  have sW: "?s \<notin> fst ` set (log_writes l c)"
  proof
    assume "?s \<in> fst ` set (log_writes l c)"
    then obtain t where "t < n" "?s = log_block l t" by (auto simp: log_writes_def n_def)
    then show False using log_block_neq_start [of t l] n by simp
  qed
  have hd: "head_data l (cview ?d c1 ?s) = dk ?s"
    using ok(14) [OF s] by (simp add: 1(3) apply_writes_other [OF sW] dk_def committed_def)
  have dk_eq: "(disk_of c1)(?s := dk ?s) = dk" by (simp add: dk_def committed_def 1(4) fun_eq_iff)
  have "crefs ?d c1 ?s = 0" "card {b. crefs ?d c1 b \<noteq> 0} < NBUF"
    using s ok(8,12) n by (simp_all add: 1(6) n_def)
  from bcache.rewrite_effect [OF 1(2) this, of me "head_data l"] obtain c2 where
    r: "bcache.rewrite me ?d ?s (head_data l) c1 = Inr c2" "bcache.idle ?d c2"
      "cview ?d c2 = (cview ?d c1)(?s := dk ?s)" "disk_of c2 = (disk_of c1)(?s := dk ?s)"
      "written c2 = written c1 @ [(?s, dk ?s)]" "crefs ?d c2 = crefs ?d c1"
    unfolding hd by blast
  then have 2: "write_head me l c1 = Inr c2" "bcache.idle ?d c2" "cview ?d c2 = (cview ?d c1)(?s := dk ?s)"
      "disk_of c2 = dk" "written c2 = written c @ log_writes l c @ [(?s, dk ?s)]"
      "crefs ?d c2 = crefs ?d c"
    by (simp_all only: write_head_rewrite dk_eq 1(5,6) append_assoc)
  have v2: "cview ?d c2 (log_block l t) = cview ?d c (lh_block l ! t)" if t: "t < n" for t
  proof -
    have "inj_on (log_block l) (set [0..<n])"
      using n by (intro inj_onI) (auto intro: log_block_inj [of _ _ l])
    from map_of_rev_map [OF this, of t] t
    show ?thesis using log_block_neq_start [of t l] n by (simp add: 2(3) 1(3) log_writes_def n_def)
  qed
  have W: "map (\<lambda>t. (lh_block l ! t, cview ?d c2 (log_block l t))) [0..<n] = redo ?s dk"
    unfolding cd(2) using v2 by (simp add: n_def)
  have "card {b. crefs ?d c2 b \<noteq> 0} + (if False then 1 else 0) < NBUF"
    using ok(12) n by (simp add: 2(6) n_def)
  moreover have "distinct (map (\<lambda>t. lh_block l ! t) [0..<n])"
  proof -
    have "map (\<lambda>t. lh_block l ! t) [0..<n] = logged l"
      using ok(11,13) by (intro nth_equalityI) (simp_all add: n_def)
    then show ?thesis using ok(6) by simp
  qed
  ultimately obtain c3 where
    3: "install_from me False l [0..<n] c2 = Inr c3" "bcache.idle ?d c3"
      "cview ?d c3 = apply_writes (redo ?s dk) (cview ?d c2)" "disk_of c3 = apply_writes (redo ?s dk) dk"
      "written c3 = written c2 @ redo ?s dk"
      "crefs ?d c3 = (\<lambda>b. if b \<in> (\<lambda>t. lh_block l ! t) ` set [0..<n] then 0 else crefs ?d c2 b)"
    using install_from_effect [OF 2(2) refl, of False "[0..<n]" me] neq mem ok(8)
    by (auto simp: W 2(4,6))
  have "set (logged l) = (\<lambda>t. lh_block l ! t) ` set [0..<n]"
    using ok(11,13) by (force simp: in_set_conv_nth n_def image_iff)
  then have refs: "crefs ?d c3 = (\<lambda>_. 0)" by (auto simp: 3(6) 2(6) ok(8) fun_eq_iff)
  have "?s \<notin> fst ` set (redo ?s dk)" using redo_outside [OF cd(1)] by (auto simp: log_region_def)
  then have hd3: "cview ?d c3 ?s = dk ?s" by (simp add: 3(3) apply_writes_other 2(3))
  from bcache.rewrite_effect [OF 3(2), of ?s me "head_data (l\<lparr>lh_n := 0\<rparr>)"] refs obtain c4 where
    4: "write_head me (l\<lparr>lh_n := 0\<rparr>) c3 = Inr c4" "bcache.idle ?d c4"
      "disk_of c4 = (disk_of c3)(?s := (dk ?s)[0 := 0])"
      "written c4 = written c3 @ [(?s, (dk ?s)[0 := 0])]" "crefs ?d c4 = (\<lambda>_. 0)"
    by (auto simp: write_head_rewrite NBUF_def hd3 head_data_0)
  have "commit me l c = Inr (l\<lparr>lh_n := 0\<rparr>, c4)"
    using assms(2) 4(1)
    by (simp add: commit_def write_log_def install_trans_def n_def [symmetric] 1(1) 2(1) 3(1) Let_def)
  then show ?thesis using 4 by (simp add: 3(4,5) 2(5) apply_writes_append)
qed

definition boot_log :: log where
  "boot_log = \<lparr>start = 0, outstanding = 0, committing = False, log_dev = 0, lh_n = 0,
     lh_block = replicate LOGBLOCKS 0\<rparr>"

text \<open>Restarting on a disk: a fresh cache, and \<open>initlog\<close>.\<close>

definition reboot :: "32 word \<Rightarrow> blockno \<Rightarrow> (blockno \<Rightarrow> block) \<Rightarrow> stop + log \<times> bcache" where
  "reboot d s dk = initlog 1 d s boot_log (binit dk)"

lemma reboot_recovers:
  assumes "good_head s dk" "d \<noteq> 0"
  shows "\<exists>l c. reboot d s dk = Inr (l, c) \<and> same_files s (disk_of c) (recovered s dk) \<and>
    written c = redo s dk @ [(s, (dk s)[0 := 0])]"
  using recovery [OF assms, of boot_log 1] by (auto simp: reboot_def boot_log_def)

lemma same_files_trans: "same_files s f g \<Longrightarrow> same_files s g h \<Longrightarrow> same_files s f h"
  by (simp add: same_files_def)

lemma commit_crash:
  assumes "log_ok l c" "lh_n l < int NBUF"
  shows "\<exists>l' c' ws. commit me l c = Inr (l', c') \<and> l' = l\<lparr>lh_n := 0\<rparr> \<and> log_ok l' c' \<and>
    written c' = written c @ ws \<and>
    same_files (start l) (disk_of c') (cview (log_dev l) c) \<and>
    (\<forall>k. \<exists>l2 c2. reboot (log_dev l) (start l) (apply_writes (take k ws) (disk_of c)) = Inr (l2, c2) \<and>
       (same_files (start l) (disk_of c2) (disk_of c) \<or>
        same_files (start l) (disk_of c2) (cview (log_dev l) c)))"
proof -
  note ok = log_okD [OF assms(1)]
  let ?d = "log_dev l" and ?s = "start l"
  have rec: "recovered ?s dk = dk \<and> good_head ?s dk" if "dk ?s = disk_of c ?s" for dk
    using that ok(9,10) by (auto simp: good_head_def head_n_def recovered_def redo_def)
  show ?thesis
  proof (cases "lh_n l = 0")
    case True
    have "logged l = []" using True by (simp add: logged_def)
    then have "cview ?d c = disk_of c" using ok(14) by (intro ext) simp
    moreover have "commit me l c = Inr (l, c)" "l\<lparr>lh_n := 0\<rparr> = l" using True by (simp_all add: commit_def)
    ultimately show ?thesis
      using rec [of "disk_of c"] reboot_recovers [of ?s "disk_of c" ?d] ok(2) assms(1)
      by (auto simp: same_files_def)
  next
    case False
    define dk where "dk = committed l c"
    define W1 where "W1 = log_writes l c"
    define W2 where "W2 = redo ?s dk @ [(?s, (dk ?s)[0 := 0])]"
    have pos: "0 < lh_n l" using ok(4) False by simp
    note cd = committed_disk [OF assms(1), folded dk_def]
    from commit_effect [OF assms(1) pos assms(2), of me] obtain c' where
      c': "commit me l c = Inr (l\<lparr>lh_n := 0\<rparr>, c')" "bcache.idle ?d c'" "crefs ?d c' = (\<lambda>_. 0)"
        "disk_of c' = apply_writes W2 dk" "written c' = written c @ W1 @ (?s, dk ?s) # W2"
      by (auto simp: dk_def W1_def W2_def)
    have len: "length (dk ?s) = length (disk_of c ?s)"
      using head_data_nth(3) [of l "disk_of c ?s"] ok(4,5,9) by (simp add: dk_def committed_def)
    have dc: "disk_of c' = (recovered ?s dk)(?s := (dk ?s)[0 := 0])"
      by (simp add: c'(4) W2_def recovered_def)
    then have files: "same_files ?s (disk_of c') (cview ?d c)"
      using cd(3) by (auto simp: same_files_def log_region_def)
    have "0 < length (dk ?s)" using ok(9) len by linarith
    then have "(dk ?s)[0 := 0] ! 0 = 0" by simp
    then have "log_ok (l\<lparr>lh_n := 0\<rparr>) c'"
      using c'(2,3) ok(2,3,9) len by (simp add: log_ok_def logged_def dc head_n_def)
    moreover have "\<exists>l2 c2. reboot ?d ?s (apply_writes (take k (W1 @ (?s, dk ?s) # W2)) (disk_of c)) = Inr (l2, c2) \<and>
        (same_files ?s (disk_of c2) (disk_of c) \<or> same_files ?s (disk_of c2) (cview ?d c))" for k
    proof (cases "k \<le> length W1")
      case True
      define dk' where "dk' = apply_writes (take k W1) (disk_of c)"
      have W1: "fst ` set W1 \<subseteq> log_region ?s - {?s}"
      proof
        fix b assume "b \<in> fst ` set W1"
        then obtain t where "t < nat (lh_n l)" "b = log_block l t" by (auto simp: W1_def log_writes_def)
        then show "b \<in> log_region ?s - {?s}"
          using log_block_region [of t l] log_block_neq_start [of t l] ok(5) by auto
      qed
      have "fst ` set (take k W1) \<subseteq> fst ` set W1" by (intro image_mono set_take_subset)
      then have "dk' b = disk_of c b" if "b = ?s \<or> b \<notin> log_region ?s" for b
        unfolding dk'_def using that W1 by (intro apply_writes_other) blast
      then have "dk' ?s = disk_of c ?s" "same_files ?s dk' (disk_of c)" by (auto simp: same_files_def)
      with rec [of dk'] reboot_recovers [of ?s dk' ?d] ok(2) True show ?thesis
        by (auto simp: dk'_def intro: same_files_trans)
    next
      case False
      define j where "j = k - length W1 - 1"
      define dk' where "dk' = apply_writes (take j W2) dk"
      have "take k (W1 @ (?s, dk ?s) # W2) = W1 @ (?s, dk ?s) # take j W2"
        using False by (simp add: j_def take_Cons')
      moreover have "apply_writes (W1 @ [(?s, dk ?s)]) (disk_of c) = dk"
        by (simp add: W1_def dk_def committed_def apply_writes_append)
      ultimately have crash: "apply_writes (take k (W1 @ (?s, dk ?s) # W2)) (disk_of c) = dk'"
        using apply_writes_append [of "W1 @ [(?s, dk ?s)]" "take j W2" "disk_of c"] by (simp add: dk'_def)
      from recovered_again [OF cd(1) dk'_def [unfolded W2_def]]
      have "good_head ?s dk'" "same_files ?s (recovered ?s dk') (recovered ?s dk)" by blast+
      with reboot_recovers [of ?s dk' ?d] ok(2) cd(3) show ?thesis
        unfolding crash by (meson same_files_trans)
    qed
    ultimately show ?thesis using c'(1,5) files by blast
  qed
qed

section \<open>Transactions\<close>

text \<open>The typical use by a system call: read a block, change it, log it, release it.\<close>

definition update_block :: "int \<Rightarrow> blockno \<Rightarrow> block \<Rightarrow> log \<Rightarrow> bcache \<Rightarrow> stop + log \<times> bcache" where
  "update_block me b x l c =
     bnd (bread me (log_dev l) b c) (\<lambda>(i, c).
     bnd (log_write i l (set_data i x c)) (\<lambda>(l, c).
     bnd (brelse me i c) (\<lambda>c. Inr (l, c))))"

fun update_blocks :: "int \<Rightarrow> (blockno \<times> block) list \<Rightarrow> log \<Rightarrow> bcache \<Rightarrow> stop + log \<times> bcache" where
  "update_blocks me [] l c = Inr (l, c)"
| "update_blocks me ((b, x) # us) l c =
     bnd (update_block me b x l c) (\<lambda>(l, c). update_blocks me us l c)"

definition system_call :: "int \<Rightarrow> (blockno \<times> block) list \<Rightarrow> log \<Rightarrow> bcache \<Rightarrow> stop + log \<times> bcache" where
  "system_call me us l c =
     bnd (begin_op l) (\<lambda>l. bnd (update_blocks me us l c) (\<lambda>(l, c). end_op me l c))"

lemma log_write_effect:
  assumes "length (lh_block l) = LOGBLOCKS" "0 \<le> lh_n l" "lh_n l < int LOGBLOCKS" "1 \<le> outstanding l"
    "blockno (bufs c ! i) = b"
  shows "log_write i l c =
    (if b \<in> set (logged l) then Inr (l, c)
     else Inr (l\<lparr>lh_block := (lh_block l)[nat (lh_n l) := b], lh_n := lh_n l + 1\<rparr>, bpin i c))"
proof (cases "first_index (\<lambda>x. x = b) (logged l)")
  case None
  then have "b \<notin> set (logged l)" by (auto simp: first_index_None)
  then show ?thesis
    using assms \<open>b \<notin> set (logged l)\<close> by (simp add: log_write_def logged_def [symmetric] None Let_def)
next
  case (Some k)
  note k = first_index_SomeD [OF Some]
  then have "k < nat (lh_n l)" "lh_block l ! k = b" "k < length (lh_block l)" by (simp_all add: logged_def)
  moreover have "b \<in> set (logged l)" using k(1,2) nth_mem by blast
  ultimately show ?thesis
    using assms Some list_update_id [of "lh_block l" k]
    by (simp add: log_write_def logged_def [symmetric] Let_def)
qed

lemma logged_snoc:
  assumes "length (lh_block l) = LOGBLOCKS" "0 \<le> lh_n l" "lh_n l < int LOGBLOCKS"
  shows "logged (l\<lparr>lh_block := (lh_block l)[nat (lh_n l) := b], lh_n := lh_n l + 1\<rparr>) = logged l @ [b]"
proof -
  have "nat (lh_n l + 1) = Suc (nat (lh_n l))" using assms(2) by simp
  moreover have "nat (lh_n l) < length (lh_block l)" using assms by simp
  ultimately show ?thesis by (simp add: logged_def take_Suc_conv_app_nth)
qed

lemma update_block_effect:
  assumes "log_ok l c" "b \<notin> log_region (start l)" "lh_n l < int LOGBLOCKS" "1 \<le> outstanding l"
  shows "\<exists>l' c'. update_block me b x l c = Inr (l', c') \<and> log_ok l' c' \<and>
    cview (log_dev l) c' = (cview (log_dev l) c)(b := x) \<and> disk_of c' = disk_of c \<and>
    written c' = written c \<and> log_dev l' = log_dev l \<and> start l' = start l \<and>
    outstanding l' = outstanding l \<and> committing l' = committing l \<and>
    logged l' = (if b \<in> set (logged l) then logged l else logged l @ [b]) \<and>
    lh_n l' = (if b \<in> set (logged l) then lh_n l else lh_n l + 1)"
proof -
  note ok = log_okD [OF assms(1)]
  let ?d = "log_dev l"
  have "nat (lh_n l) < NBUF" using assms(3) ok(4) by (simp add: LOGBLOCKS_def NBUF_def)
  then have "crefs ?d c b + 1 \<noteq> 0" "crefs ?d c b \<noteq> 0 \<or> card {b. crefs ?d c b \<noteq> 0} < NBUF"
    using ok(8,12) by simp_all
  moreover have "cache_ok ?d c" "b \<notin> clocked ?d c" using ok(1) by (simp_all add: bcache.idle_def)
  ultimately obtain i c1 where 1: "bread me ?d b c = Inr (i, c1)" "cache_ok ?d c1" "cowns me ?d c1 i b"
      "cview ?d c1 = cview ?d c" "disk_of c1 = disk_of c" "written c1 = written c"
      "crefs ?d c1 = (crefs ?d c)(b := crefs ?d c b + 1)" "clocked ?d c1 = {b}"
    using bread_effect [of ?d c b me] ok(1) by (auto simp: bcache.idle_def)
  define c2 where "c2 = set_data i x c1"
  have 2: "cache_ok ?d c2" "cowns me ?d c2 i b" "cview ?d c2 = (cview ?d c)(b := x)" "disk_of c2 = disk_of c"
      "written c2 = written c" "crefs ?d c2 = (crefs ?d c)(b := crefs ?d c b + 1)" "clocked ?d c2 = {b}"
    using set_data_effect [OF 1(2,3), of x] 1 by (simp_all add: c2_def)
  define l' where "l' = (if b \<in> set (logged l) then l
      else l\<lparr>lh_block := (lh_block l)[nat (lh_n l) := b], lh_n := lh_n l + 1\<rparr>)"
  define c3 where "c3 = (if b \<in> set (logged l) then c2 else bpin i c2)"
  have lw: "log_write i l c2 = Inr (l', c3)"
    using log_write_effect [OF ok(3,4) assms(3,4) held_buf(4) [OF 2(1,2)]] by (simp add: l'_def c3_def)
  have "crefs ?d c2 b + 1 \<noteq> 0" by (simp add: 2(6) ok(8))
  note pin = bpin_effect [OF 2(1,2) this]
  define r where "r = (\<lambda>a. if a = b then 2 else crefs ?d c a)"
  have 3: "cache_ok ?d c3" "cowns me ?d c3 i b" "cview ?d c3 = (cview ?d c)(b := x)" "disk_of c3 = disk_of c"
      "written c3 = written c" "crefs ?d c3 = r" "clocked ?d c3 = {b}"
    using 2 pin by (auto simp: c3_def r_def ok(8) fun_eq_iff)
  have "crefs ?d c3 b \<noteq> 1" by (simp add: 3(6) r_def)
  with brelse_effect [OF 3(1,2)] obtain c4 where 4: "brelse me i c3 = Inr c4" "cache_ok ?d c4"
      "cview ?d c4 = (cview ?d c)(b := x)" "disk_of c4 = disk_of c" "written c4 = written c"
      "crefs ?d c4 = r(b := 1)" "clocked ?d c4 = {}"
    by (auto simp: 3 r_def)
  have l': "log_dev l' = ?d" "start l' = start l" "outstanding l' = outstanding l" "committing l' = committing l"
    "logged l' = (if b \<in> set (logged l) then logged l else logged l @ [b])"
    "lh_n l' = (if b \<in> set (logged l) then lh_n l else lh_n l + 1)" "length (lh_block l') = LOGBLOCKS"
    using logged_snoc [OF ok(3,4) assms(3), of b] ok(3) by (simp_all add: l'_def)
  have "crefs ?d c4 = (\<lambda>a. if a \<in> set (logged l') then 1 else 0)"
    by (auto simp: 4(6) r_def ok(8) l'(5) fun_eq_iff)
  moreover have "distinct (logged l')" "set (logged l') \<inter> log_region (start l) = {}"
    using ok(6,7) assms(2) by (auto simp: l'(5))
  moreover have "0 \<le> lh_n l'" "lh_n l' \<le> int LOGBLOCKS" using ok(4) assms(3) by (auto simp: l'(6))
  ultimately have "log_ok l' c4"
    using 4(2,4,7) ok(2,9,10) l'(7) unfolding log_ok_def bcache.idle_def l'(1,2) by simp
  moreover have "update_block me b x l c = Inr (l', c4)"
    by (simp add: update_block_def 1(1) c2_def [symmetric] lw 4(1))
  ultimately show ?thesis using 4 l' by auto
qed

lemma update_blocks_effect:
  assumes "log_ok l c" "fst ` set us \<inter> log_region (start l) = {}" "1 \<le> outstanding l"
    "lh_n l + int (length us) \<le> int LOGBLOCKS"
  shows "\<exists>l' c'. update_blocks me us l c = Inr (l', c') \<and> log_ok l' c' \<and>
    cview (log_dev l) c' = apply_writes us (cview (log_dev l) c) \<and> disk_of c' = disk_of c \<and>
    written c' = written c \<and> log_dev l' = log_dev l \<and> start l' = start l \<and>
    outstanding l' = outstanding l \<and> committing l' = committing l \<and>
    set (logged l') = set (logged l) \<union> fst ` set us \<and> lh_n l' \<le> lh_n l + int (length us)"
  using assms
proof (induction us arbitrary: l c)
  case (Cons u us)
  obtain b x where u: "u = (b, x)" by fastforce
  have "b \<notin> log_region (start l)" "lh_n l < int LOGBLOCKS" using Cons.prems by (auto simp: u)
  from update_block_effect [OF Cons.prems(1) this Cons.prems(3), of me x] obtain l1 c1 where
    1: "update_block me b x l c = Inr (l1, c1)" "log_ok l1 c1"
      "cview (log_dev l) c1 = (cview (log_dev l) c)(b := x)" "disk_of c1 = disk_of c"
      "written c1 = written c" "log_dev l1 = log_dev l" "start l1 = start l"
      "outstanding l1 = outstanding l" "committing l1 = committing l"
      "logged l1 = (if b \<in> set (logged l) then logged l else logged l @ [b])"
      "lh_n l1 = (if b \<in> set (logged l) then lh_n l else lh_n l + 1)" by blast
  have "set (logged l1) = set (logged l) \<union> {b}" "lh_n l1 \<le> lh_n l + 1" by (auto simp: 1(10,11))
  moreover have "\<exists>l' c'. update_blocks me us l1 c1 = Inr (l', c') \<and> log_ok l' c' \<and>
    cview (log_dev l1) c' = apply_writes us (cview (log_dev l1) c1) \<and> disk_of c' = disk_of c1 \<and>
    written c' = written c1 \<and> log_dev l' = log_dev l1 \<and> start l' = start l1 \<and>
    outstanding l' = outstanding l1 \<and> committing l' = committing l1 \<and>
    set (logged l') = set (logged l1) \<union> fst ` set us \<and> lh_n l' \<le> lh_n l1 + int (length us)"
    by (rule Cons.IH [OF 1(2)]) (use Cons.prems 1(7,8) \<open>lh_n l1 \<le> lh_n l + 1\<close> in auto)
  ultimately show ?case by (auto simp: u 1)
qed auto

text \<open>
  C2. Crash safety of a system call that changes up to \<open>MAXOPBLOCKS\<close> blocks outside the log: it
  returns with the disk changed, and wherever the machine stops between its disk writes, restarting
  finds either all of its changes or none.
\<close>

theorem system_call_is_atomic:
  assumes "log_ok l c" "lh_n l = 0" "outstanding l = 0" "\<not> committing l"
    "fst ` set us \<inter> log_region (start l) = {}" "int (length us) \<le> MAXOPBLOCKS"
  shows "\<exists>l' c' ws. system_call me us l c = Inr (l', c') \<and> log_ok l' c' \<and> lh_n l' = 0 \<and>
    outstanding l' = 0 \<and> \<not> committing l' \<and> written c' = written c @ ws \<and>
    same_files (start l) (disk_of c') (apply_writes us (disk_of c)) \<and>
    (\<forall>k. \<exists>l2 c2. reboot (log_dev l) (start l) (apply_writes (take k ws) (disk_of c)) = Inr (l2, c2) \<and>
       (same_files (start l) (disk_of c2) (disk_of c) \<or>
        same_files (start l) (disk_of c2) (apply_writes us (disk_of c))))"
proof -
  define l1 where "l1 = l\<lparr>outstanding := 1\<rparr>"
  have "logged l1 = logged l" "logged l = []" using assms(2) by (simp_all add: l1_def logged_def)
  then have ok1: "log_ok l1 c" using assms(1) by (simp add: log_ok_def l1_def)
  have view: "cview (log_dev l) c = disk_of c"
    using log_okD(14) [OF assms(1)] \<open>logged l = []\<close> by (intro ext) simp
  have started: "begin_op l = Inr l1"
    using assms(2-4) by (simp add: begin_op_def l1_def MAXOPBLOCKS_def LOGBLOCKS_def)
  from update_blocks_effect [OF ok1, of us me] assms(2,5,6) obtain l2 c2 where
    2: "update_blocks me us l1 c = Inr (l2, c2)" "log_ok l2 c2"
      "cview (log_dev l) c2 = apply_writes us (disk_of c)" "disk_of c2 = disk_of c" "written c2 = written c"
      "log_dev l2 = log_dev l" "start l2 = start l" "outstanding l2 = 1" "\<not> committing l2"
      "lh_n l2 \<le> MAXOPBLOCKS"
    using assms(4) by (auto simp: l1_def view MAXOPBLOCKS_def LOGBLOCKS_def)
  define l3 where "l3 = l2\<lparr>outstanding := 0, committing := True\<rparr>"
  have ok3: "log_ok l3 c2" using 2(2) by (simp add: log_ok_def l3_def logged_def)
  have "lh_n l3 < int NBUF" using 2(10) by (simp add: l3_def MAXOPBLOCKS_def NBUF_def)
  from commit_crash [OF ok3 this, of me] obtain c4 ws where
    4: "commit me l3 c2 = Inr (l3\<lparr>lh_n := 0\<rparr>, c4)" "log_ok (l3\<lparr>lh_n := 0\<rparr>) c4" "written c4 = written c @ ws"
      "same_files (start l) (disk_of c4) (apply_writes us (disk_of c))"
      "\<forall>k. \<exists>l5 c5. reboot (log_dev l) (start l) (apply_writes (take k ws) (disk_of c)) = Inr (l5, c5) \<and>
         (same_files (start l) (disk_of c5) (disk_of c) \<or>
          same_files (start l) (disk_of c5) (apply_writes us (disk_of c)))"
    by (auto simp: l3_def 2)
  have "end_op me l2 c2 = Inr (l3\<lparr>lh_n := 0, committing := False\<rparr>, c4)"
    using 2(8,9) 4(1) by (simp add: end_op_def Let_def l3_def)
  then have "system_call me us l c = Inr (l3\<lparr>lh_n := 0, committing := False\<rparr>, c4)"
    by (simp add: system_call_def started 2(1))
  moreover have "log_ok (l3\<lparr>lh_n := 0, committing := False\<rparr>) c4"
    using 4(2) by (simp add: log_ok_def logged_def)
  ultimately show ?thesis using 4(3-5) by (auto simp: l3_def)
qed

definition formatted :: "blockno \<Rightarrow> block" where
  "formatted = (\<lambda>_. replicate 256 0)"

lemma formatted_ok:
  assumes "l = boot_log\<lparr>start := 2, log_dev := 1\<rparr>" shows "log_ok l (binit formatted)"
  using binit_state [of 1 formatted]
  by (simp add: assms log_ok_def boot_log_def logged_def formatted_def head_n_def LOGBLOCKS_def)

theorem system_call_is_atomic_witness:
  "\<exists>l' c' ws. system_call 1 [(100, [7]), (101, [8])] (boot_log\<lparr>start := 2, log_dev := 1\<rparr>) (binit formatted) =
       Inr (l', c') \<and> log_ok l' c' \<and> lh_n l' = 0 \<and> outstanding l' = 0 \<and> \<not> committing l' \<and>
    written c' = written (binit formatted) @ ws \<and>
    same_files 2 (disk_of c') (apply_writes [(100, [7]), (101, [8])] (disk_of (binit formatted))) \<and>
    (\<forall>k. \<exists>l2 c2. reboot 1 2 (apply_writes (take k ws) (disk_of (binit formatted))) = Inr (l2, c2) \<and>
       (same_files 2 (disk_of c2) (disk_of (binit formatted)) \<or>
        same_files 2 (disk_of c2) (apply_writes [(100, [7]), (101, [8])] (disk_of (binit formatted)))))"
proof -
  let ?l = "boot_log\<lparr>start := 2, log_dev := 1\<rparr>"
  have "fst ` set [(100 :: 32 word, [7 :: 32 word]), (101, [8])] \<inter> log_region (start ?l) = {}"
  proof -
    have "x \<notin> log_region 2" if "x \<in> {100, 101 :: 32 word}" for x
      using that by (auto simp: log_region_def LOGBLOCKS_def lessThan_nat_numeral lessThan_Suc)
    then show ?thesis by auto
  qed
  then show ?thesis
    using system_call_is_atomic [OF formatted_ok [OF refl], of "[(100, [7]), (101, [8])]" 1]
    by (simp add: boot_log_def MAXOPBLOCKS_def)
qed

text \<open>
  Recovery is itself crash safe: on any disk whose log header is well formed, a crash at any of
  the disk writes of a recovery followed by another recovery leaves the same files.
\<close>

theorem recovery_is_repeatable:
  assumes "good_head s dk" "d \<noteq> 0"
  shows "\<exists>l c. reboot d s dk = Inr (l, c) \<and>
    (\<forall>k. \<exists>l2 c2. reboot d s (apply_writes (take k (written c)) dk) = Inr (l2, c2) \<and>
       same_files s (disk_of c2) (disk_of c))"
proof -
  from reboot_recovers [OF assms] obtain l c where c: "reboot d s dk = Inr (l, c)"
    "same_files s (disk_of c) (recovered s dk)" "written c = redo s dk @ [(s, (dk s)[0 := 0])]" by blast
  have "\<exists>l2 c2. reboot d s (apply_writes (take k (written c)) dk) = Inr (l2, c2) \<and>
       same_files s (disk_of c2) (disk_of c)" for k
  proof -
    define dk' where "dk' = apply_writes (take k (written c)) dk"
    from recovered_again [OF assms(1) dk'_def [unfolded c(3)]]
    have g: "good_head s dk'" "same_files s (recovered s dk') (recovered s dk)" by blast+
    from reboot_recovers [OF g(1) assms(2)] obtain l2 c2 where
      "reboot d s dk' = Inr (l2, c2)" "same_files s (disk_of c2) (recovered s dk')" by blast
    then show ?thesis using g(2) c(2) by (auto simp: same_files_def dk'_def [symmetric])
  qed
  then show ?thesis using c(1) by blast
qed

text \<open>A disk with one committed block: block 100 is in the first block of the log that starts at 2.\<close>

definition one_committed :: "blockno \<Rightarrow> block" where
  "one_committed = formatted(2 := (replicate 256 0)[0 := 1, 1 := 100], 3 := [7])"

theorem recovery_is_repeatable_witness:
  "\<exists>l c. reboot 1 2 one_committed = Inr (l, c) \<and>
    (\<forall>k. \<exists>l2 c2. reboot 1 2 (apply_writes (take k (written c)) one_committed) = Inr (l2, c2) \<and>
       same_files 2 (disk_of c2) (disk_of c))"
proof (rule recovery_is_repeatable)
  have "one_committed 2 ! 0 = 1" "one_committed 2 ! 1 = 100" "one_committed 2 \<noteq> []"
    by (simp_all add: one_committed_def)
  moreover have "100 \<notin> log_region 2"
    by (auto simp: log_region_def LOGBLOCKS_def lessThan_nat_numeral lessThan_Suc)
  ultimately show "good_head 2 one_committed" by (simp add: good_head_def head_n_def LOGBLOCKS_def)
qed simp

section \<open>A full log\<close>

text \<open>Three system calls that are active at the same time, and whose updates fill the log.\<close>

definition three_calls :: "int \<Rightarrow> (blockno \<times> block) list \<Rightarrow> log \<Rightarrow> bcache \<Rightarrow> stop + log \<times> bcache" where
  "three_calls me us l c =
     bnd (bnd (bnd (begin_op l) begin_op) begin_op) (\<lambda>l.
     bnd (update_blocks me us l c) (\<lambda>(l, c).
     bnd (end_op me l c) (\<lambda>(l, c).
     bnd (end_op me l c) (\<lambda>(l, c).
     end_op me l c))))"

text \<open>
  \<open>begin_op\<close> admits three system calls of \<open>MAXOPBLOCKS\<close> blocks each, and \<open>log_write\<close> pins the 30
  blocks they change; but the cache has only \<open>NBUF\<close> = 30 buffers, so the commit finds no buffer for
  the first block of the log and panics.
\<close>

theorem full_transaction_panics:
  assumes "log_ok l c" "lh_n l = 0" "outstanding l = 0" "\<not> committing l"
    "fst ` set us \<inter> log_region (start l) = {}" "distinct (map fst us)" "length us = 30"
  shows "three_calls me us l c = Inl (Panic ''bget: no buffers'')"
proof -
  define l1 where "l1 = l\<lparr>outstanding := 3\<rparr>"
  have "logged l1 = []" "logged l = []" using assms(2) by (simp_all add: l1_def logged_def)
  then have ok1: "log_ok l1 c" using assms(1) by (simp add: log_ok_def l1_def)
  have started: "bnd (bnd (begin_op l) begin_op) begin_op = Inr l1"
    using assms(2-4) by (simp add: begin_op_def l1_def MAXOPBLOCKS_def LOGBLOCKS_def)
  from update_blocks_effect [OF ok1, of us me] assms(2,5,7) obtain l2 c2 where
    2: "update_blocks me us l1 c = Inr (l2, c2)" "log_ok l2 c2" "log_dev l2 = log_dev l" "start l2 = start l"
      "outstanding l2 = 3" "\<not> committing l2" "set (logged l2) = fst ` set us"
    using assms(4) by (auto simp: l1_def LOGBLOCKS_def \<open>logged l1 = []\<close> [unfolded l1_def])
  note ok2 = log_okD [OF 2(2)]
  have "length (logged l2) = card (fst ` set us)" using ok2(6) by (metis 2(7) distinct_card)
  also have "\<dots> = 30" using assms(6,7) by (metis distinct_card length_map list.set_map)
  finally have n: "nat (lh_n l2) = 30" "lh_n l2 = 30" using ok2(4,11) by simp_all
  define l3 where "l3 = l2\<lparr>outstanding := 0, committing := True\<rparr>"
  have "log_block l3 0 \<notin> set (logged l2)"
    using ok2(7) log_block_region [of 0 l3] 2(4) by (auto simp: l3_def LOGBLOCKS_def)
  then have "crefs (log_dev l2) c2 (log_block l3 0) = 0" by (simp add: ok2(8))
  moreover have "cache_ok (log_dev l2) c2" using ok2(1) by (simp add: bcache.idle_def)
  moreover have "card {b. crefs (log_dev l2) c2 b \<noteq> 0} = NBUF" using ok2(12) n by (simp add: NBUF_def)
  ultimately have "bread me (log_dev l3) (log_block l3 0) c2 = Inl (Panic ''bget: no buffers'')"
    using bread_full [of "log_dev l2" c2] by (simp add: l3_def)
  then have "write_from me l3 (0 # [1..<30]) c2 = Inl (Panic ''bget: no buffers'')" by simp
  moreover have "[0..<30] = 0 # [1..<30]" by (simp add: upt_rec [of 0])
  ultimately have "write_log me l3 c2 = Inl (Panic ''bget: no buffers'')"
    using n by (simp add: write_log_def l3_def)
  then have "commit me l3 c2 = Inl (Panic ''bget: no buffers'')" using n by (simp add: commit_def l3_def)
  then show ?thesis
    using 2(5,6) by (simp add: three_calls_def started 2(1) end_op_def Let_def l3_def)
qed

theorem full_transaction_panics_witness:
  "three_calls 1 (map (\<lambda>i. (of_nat (100 + i), [])) [0..<30])
     (boot_log\<lparr>start := 2, log_dev := 1\<rparr>) (binit formatted) = Inl (Panic ''bget: no buffers'')"
proof (rule full_transaction_panics [OF formatted_ok [OF refl]])
  have "log_region 2 = set (2 # map (\<lambda>t. 2 + of_nat t + 1) [0..<30])"
    by (auto simp: log_region_def LOGBLOCKS_def)
  moreover have "fst ` set (map (\<lambda>i. (of_nat (100 + i) :: 32 word, [] :: block)) [0..<30]) =
      set (map (\<lambda>i. of_nat (100 + i)) [0..<30])" by (simp add: image_image)
  moreover have "set (map (\<lambda>i. of_nat (100 + i) :: 32 word) [0..<30]) \<inter>
      set (2 # map (\<lambda>t. 2 + of_nat t + 1) [0..<30]) = {}" by code_simp
  ultimately show "fst ` set (map (\<lambda>i. (of_nat (100 + i) :: 32 word, [] :: block)) [0..<30]) \<inter>
      log_region (start (boot_log\<lparr>start := 2, log_dev := 1\<rparr>)) = {}" by (simp add: boot_log_def)
  show "distinct (map fst (map (\<lambda>i. (of_nat (100 + i) :: 32 word, [] :: block)) [0..<30]))"
    by code_simp
qed (simp_all add: boot_log_def)

end
