(* ===== verification/XvRing.thy ===== *)
theory XvRing
  imports Prelude
begin

text \<open>
  Circular buffers indexed by free-running 32-bit counters, as \<open>pipe.c\<close> and \<open>console.c\<close> keep them:
  the bytes between the read counter \<open>r\<close> and the write counter \<open>w\<close> are at their counters modulo the
  size of the buffer. The size divides 2^32, so the counters may wrap around.
\<close>

type_synonym byte = "8 word"

definition slot :: "'a list \<Rightarrow> 32 word \<Rightarrow> nat" where
  "slot d i = unat i mod length d"

definition ring :: "'a list \<Rightarrow> 32 word \<Rightarrow> 32 word \<Rightarrow> 'a list" where
  "ring d r w = map (\<lambda>k. d ! slot d (r + of_nat k)) [0..<unat (w - r)]"

definition ring_ok :: "'a list \<Rightarrow> bool" where
  "ring_ok d \<longleftrightarrow> 0 < length d \<and> length d dvd 2 ^ 32 \<and> length d < 2 ^ 32"

lemma ring_length [simp]: "length (ring d r w) = unat (w - r)"
  by (simp add: ring_def)

lemma ring_empty [simp]: "ring d r r = []"
  by (simp add: ring_def)

lemma ring_Nil_iff: "ring d r w = [] \<longleftrightarrow> r = w"
proof -
  have "ring d r w = [] \<longleftrightarrow> unat (w - r) = 0" by (simp add: ring_def)
  also have "\<dots> \<longleftrightarrow> w - r = 0" by (simp add: unat_eq_0)
  also have "\<dots> \<longleftrightarrow> r = w" by auto
  finally show ?thesis .
qed

lemma slot_bound: "ring_ok d \<Longrightarrow> slot d i < length d"
  by (simp add: ring_ok_def slot_def)

lemma slot_add:
  assumes "ring_ok d" shows "slot d (r + of_nat k) = (unat r + k) mod length d"
proof -
  have dvd: "length d dvd 2 ^ 32" using assms by (simp add: ring_ok_def)
  have "unat (r + of_nat k) = (unat r + unat (of_nat k :: 32 word)) mod 2 ^ 32"
    by (simp add: unat_word_ariths)
  also have "unat (of_nat k :: 32 word) = k mod 2 ^ 32" by (simp add: unat_of_nat)
  finally have "unat (r + of_nat k) = (unat r + k) mod 2 ^ 32" by (simp add: mod_add_right_eq)
  then show ?thesis using mod_mod_cancel [OF dvd, of "unat r + k"] by (simp add: slot_def)
qed

lemma slot_inj:
  assumes "ring_ok d" "j < length d" "k < length d" "slot d (r + of_nat j) = slot d (r + of_nat k)"
  shows "j = k"
proof -
  have "(unat r + j) mod length d = (unat r + k) mod length d"
    using assms(4) by (simp add: slot_add [OF assms(1)])
  then have "int ((unat r + j) mod length d) = int ((unat r + k) mod length d)" by simp
  then have "(int (unat r) + int j) mod int (length d) = (int (unat r) + int k) mod int (length d)"
    by (simp only: zmod_int of_nat_add)
  then have dvd: "int (length d) dvd int j - int k" by (simp add: mod_eq_dvd_iff)
  have "\<bar>int j - int k\<bar> < int (length d)" using assms(2,3) by linarith
  with dvd have "int j - int k = 0" using dvd_imp_le_int [of "int j - int k"] by fastforce
  then show ?thesis by simp
qed

lemma ring_put:
  assumes "ring_ok d" "unat (w - r) < length d"
  shows "ring (d[slot d w := x]) r (w + 1) = ring d r w @ [x]"
proof -
  define k where "k = unat (w - r)"
  have k: "w = r + of_nat k" "k < length d" using assms(2) by (simp_all add: k_def)
  have ok: "ring_ok (d[slot d w := x])" using assms(1) by (simp add: ring_ok_def)
  have "unat (w + 1 - r) = Suc k"
  proof -
    have "w + 1 - r = of_nat (Suc k)" by (simp add: k)
    moreover have "Suc k < 2 ^ 32" using k(2) assms(1) by (simp add: ring_ok_def)
    ultimately show ?thesis by (simp only: unat_of_nat) simp
  qed
  moreover have nth: "d[slot d w := x] ! slot (d[slot d w := x]) (r + of_nat j) =
      (if j = k then x else d ! slot d (r + of_nat j))" if "j \<le> k" for j
    using slot_inj [OF assms(1), of j k r] that k slot_bound [OF assms(1)]
    by (auto simp: slot_def nth_list_update)
  moreover from nth [of k] have "d[slot d w := x] ! slot (d[slot d w := x]) w = x" by (simp add: k(1))
  ultimately show ?thesis by (simp add: ring_def k_def)
qed

lemma ring_get:
  assumes "r \<noteq> w"
  shows "ring d r w = d ! slot d r # ring d (r + 1) w"
proof -
  have n0: "unat (w - r) \<noteq> 0" using assms by (simp add: unat_eq_0)
  then have "unat (w - (r + 1)) = unat (w - r) - 1"
    using unat_minus_one [of "w - r"] by (simp add: diff_diff_eq unat_eq_0)
  then obtain m where "unat (w - r) = Suc m" "unat (w - (r + 1)) = m" using n0 by (cases "unat (w - r)") auto
  then show ?thesis by (simp add: ring_def upt_conv_Cons add.assoc flip: map_Suc_upt del: upt_Suc)
qed

lemma ring_unput:
  assumes "r \<noteq> w"
  shows "ring d r (w - 1) = butlast (ring d r w)" "last (ring d r w) = d ! slot d (w - 1)"
proof -
  have n0: "unat (w - r) \<noteq> 0" using assms by (simp add: unat_eq_0)
  have "unat (w - 1 - r) = unat (w - r) - 1"
    using unat_minus_one [of "w - r"] assms by (simp add: algebra_simps)
  then obtain m where m: "unat (w - r) = Suc m" "unat (w - 1 - r) = m" using n0 by (cases "unat (w - r)") auto
  then show "ring d r (w - 1) = butlast (ring d r w)" by (simp add: ring_def)
  have "of_nat m = w - 1 - r" unfolding m(2) [symmetric] by simp
  then have "r + of_nat m = w - 1" by simp
  then show "last (ring d r w) = d ! slot d (w - 1)" using m by (simp add: ring_def)
qed

lemma ring_split:
  assumes "unat (w - r) + unat (e - w) < 2 ^ 32"
  shows "ring d r e = ring d r w @ ring d w e" "unat (e - r) = unat (w - r) + unat (e - w)"
proof -
  have "e - r = (w - r) + (e - w)" by simp
  then have "unat (e - r) = (unat (w - r) + unat (e - w)) mod 2 ^ 32"
    by (simp only: unat_word_ariths) simp
  then show len: "unat (e - r) = unat (w - r) + unat (e - w)" using assms by simp
  define m where "m = unat (w - r)"
  define n where "n = unat (e - w)"
  have w: "r + of_nat m = w" by (simp add: m_def)
  have shift: "r + of_nat (m + i) = w + of_nat i" for i
    unfolding of_nat_add add.assoc [symmetric] w ..
  have "map (\<lambda>k. d ! slot d (r + of_nat k)) [m..<m + n] = map (\<lambda>k. d ! slot d (w + of_nat k)) [0..<n]"
    by (rule nth_equalityI) (simp_all add: shift del: of_nat_add)
  moreover have "[0..<m + n] = [0..<m] @ [m..<m + n]" by (rule upt_add_eq_append) simp
  ultimately show "ring d r e = ring d r w @ ring d w e"
    unfolding ring_def len m_def [symmetric] n_def [symmetric] by simp
qed

section \<open>Bounded queues\<close>

text \<open>What the code promises of a queue it moves bytes through one at a time.\<close>

locale bounded_queue =
  fixes ok :: "'q \<Rightarrow> bool" and items :: "'q \<Rightarrow> 'a list" and room :: "'q \<Rightarrow> bool" and any :: "'q \<Rightarrow> bool"
    and put :: "'a \<Rightarrow> 'q \<Rightarrow> 'q" and get :: "'q \<Rightarrow> 'a \<times> 'q" and cap :: nat
  assumes put: "ok q \<Longrightarrow> room q \<Longrightarrow> ok (put x q) \<and> items (put x q) = items q @ [x]"
    and get: "ok q \<Longrightarrow> any q \<Longrightarrow> ok (snd (get q)) \<and> items q = fst (get q) # items (snd (get q))"
    and room: "ok q \<Longrightarrow> room q \<longleftrightarrow> length (items q) < cap"
    and any: "ok q \<Longrightarrow> any q \<longleftrightarrow> items q \<noteq> []"
    and bound: "ok q \<Longrightarrow> length (items q) \<le> cap"
begin

fun put_all :: "'a list \<Rightarrow> 'q \<Rightarrow> nat \<times> 'q" where
  "put_all [] q = (0, q)"
| "put_all (x # xs) q =
     (if room q then let (n, q) = put_all xs (put x q) in (Suc n, q) else (0, q))"

fun get_upto :: "nat \<Rightarrow> 'q \<Rightarrow> 'a list \<times> 'q" where
  "get_upto 0 q = ([], q)"
| "get_upto (Suc n) q =
     (if any q then let (x, q) = get q; (xs, q) = get_upto n q in (x # xs, q) else ([], q))"

lemma put_all_items:
  assumes "ok q" "put_all xs q = (n, q')"
  shows "ok q'" "items q' = items q @ take n xs" "n = min (length xs) (cap - length (items q))"
proof -
  have "ok q' \<and> items q' = items q @ take n xs \<and> n = min (length xs) (cap - length (items q))"
    using assms
  proof (induction xs arbitrary: q n q')
    case (Cons x xs)
    show ?case
    proof (cases "room q")
      case True
      obtain m q2 where m: "put_all xs (put x q) = (m, q2)" by fastforce
      then have "n = Suc m" "q' = q2" using Cons.prems(2) True by auto
      then show ?thesis
        using Cons.IH [OF _ m] put [OF Cons.prems(1) True, of x] True room [OF Cons.prems(1)] by auto
    next
      case False
      then show ?thesis using Cons.prems room [OF Cons.prems(1)] by simp
    qed
  qed simp
  then show "ok q'" "items q' = items q @ take n xs" "n = min (length xs) (cap - length (items q))"
    by blast+
qed

lemma get_upto_items:
  assumes "ok q" "get_upto n q = (xs, q')"
  shows "ok q'" "xs = take n (items q)" "items q' = drop n (items q)"
proof -
  have "ok q' \<and> xs = take n (items q) \<and> items q' = drop n (items q)"
    using assms
  proof (induction n arbitrary: q xs q')
    case (Suc n)
    show ?case
    proof (cases "any q")
      case True
      obtain x q1 where 1: "get q = (x, q1)" by fastforce
      obtain ys q2 where 2: "get_upto n q1 = (ys, q2)" by fastforce
      show ?thesis
        using Suc.IH [OF _ 2] get [OF Suc.prems(1) True] Suc.prems(2) 1 2 True by auto
    next
      case False
      then show ?thesis using Suc.prems any [OF Suc.prems(1)] by simp
    qed
  qed simp
  then show "ok q'" "xs = take n (items q)" "items q' = drop n (items q)" by blast+
qed

end

end
