(* ===== verification/XvPipe.thy ===== *)
theory XvPipe
  imports XvRing
begin

text \<open>
  \<open>xv6/xv6-source/kernel/pipe.c\<close>. The lock of the pipe is held from the start of a call to its end
  or to its next sleep, so a call is a sequence of atomic segments: a segment that reaches a sleep
  returns \<open>WriteSleeps\<close> or \<open>ReadSleeps\<close>, and goes on from there when it is woken. The user memory a
  call copies from is a list of bytes, \<open>None\<close> where \<open>copyin\<close> fails; for a read, a list that says
  where \<open>copyout\<close> succeeds. \<open>killed i\<close> is what \<open>killed (pr)\<close> returns at byte \<open>i\<close>.
\<close>

section \<open>The pipe\<close>

definition PIPESIZE :: "32 word" where "PIPESIZE = 512"

record pipe =
  data :: "byte list"
  nread :: "32 word"
  nwrite :: "32 word"
  readopen :: bool
  writeopen :: bool

record pfile =
  readable :: bool
  writable :: bool

text \<open>
  \<open>pipealloc\<close>: the booleans say whether the two calls of \<open>filealloc\<close> and \<open>kalloc\<close> succeed, \<open>d\<close> is
  what the page holds.
\<close>

definition pipealloc :: "bool \<Rightarrow> bool \<Rightarrow> bool \<Rightarrow> byte list \<Rightarrow> (pipe \<times> pfile \<times> pfile) option" where
  "pipealloc f0_ok f1_ok page_ok d =
     (if \<not> f0_ok \<or> \<not> f1_ok then None
      else if \<not> page_ok then None
      else Some (\<lparr>data = d, nread = 0, nwrite = 0, readopen = True, writeopen = True\<rparr>,
             \<lparr>readable = True, writable = False\<rparr>, \<lparr>readable = False, writable = True\<rparr>))"

text \<open>\<open>pipeclose\<close> also says whether it frees the page.\<close>

definition pipeclose :: "bool \<Rightarrow> pipe \<Rightarrow> bool \<times> pipe" where
  "pipeclose wr p =
     (let p = (if wr then p\<lparr>writeopen := False\<rparr> else p\<lparr>readopen := False\<rparr>)
      in (\<not> readopen p \<and> \<not> writeopen p, p))"

definition pipe_full :: "pipe \<Rightarrow> bool" where
  "pipe_full p \<longleftrightarrow> nwrite p = nread p + PIPESIZE"

definition pipe_put :: "byte \<Rightarrow> pipe \<Rightarrow> pipe" where
  "pipe_put ch p = p\<lparr>data := (data p)[unat (nwrite p mod PIPESIZE) := ch], nwrite := nwrite p + 1\<rparr>"

definition pipe_get :: "pipe \<Rightarrow> byte \<times> pipe" where
  "pipe_get p = (data p ! unat (nread p mod PIPESIZE), p\<lparr>nread := nread p + 1\<rparr>)"

datatype write_result = Wrote nat | WriteFailed | WriteSleeps "byte option list" nat

fun pipewrite :: "(nat \<Rightarrow> bool) \<Rightarrow> byte option list \<Rightarrow> nat \<Rightarrow> pipe \<Rightarrow> write_result \<times> pipe" where
  "pipewrite killed [] i p = (Wrote i, p)"
| "pipewrite killed (b # bs) i p =
     (if \<not> readopen p \<or> killed i then (WriteFailed, p)
      else if pipe_full p then (WriteSleeps (b # bs) i, p)
      else case b of
             None \<Rightarrow> (Wrote i, p)
           | Some ch \<Rightarrow> pipewrite killed bs (i + 1) (pipe_put ch p))"

datatype read_result = Read int "byte list" | ReadFailed | ReadSleeps

fun read_loop :: "bool list \<Rightarrow> byte list \<Rightarrow> pipe \<Rightarrow> read_result \<times> pipe" where
  "read_loop [] got p = (Read (int (length got)) got, p)"
| "read_loop (copy_ok # oks) got p =
     (if nread p = nwrite p then (Read (int (length got)) got, p)
      else
        let (ch, p') = pipe_get p in
        if \<not> copy_ok then (Read (if got = [] then -1 else int (length got)) got, p)
        else read_loop oks (got @ [ch]) p')"

definition piperead :: "bool \<Rightarrow> bool list \<Rightarrow> pipe \<Rightarrow> read_result \<times> pipe" where
  "piperead killed oks p =
     (if nread p = nwrite p \<and> writeopen p
      then (if killed then (ReadFailed, p) else (ReadSleeps, p))
      else read_loop oks [] p)"

section \<open>The queue it implements\<close>

definition pipe_ok :: "pipe \<Rightarrow> bool" where
  "pipe_ok p \<longleftrightarrow> length (data p) = 512 \<and> unat (nwrite p - nread p) \<le> 512"

definition contents :: "pipe \<Rightarrow> byte list" where
  "contents p = ring (data p) (nread p) (nwrite p)"

lemma pipe_ring: "pipe_ok p \<Longrightarrow> ring_ok (data p)"
  by (simp add: pipe_ok_def ring_ok_def)

lemma pipe_slot: "pipe_ok p \<Longrightarrow> slot (data p) i = unat (i mod PIPESIZE)"
  by (simp add: slot_def pipe_ok_def PIPESIZE_def unat_mod)

lemma full_iff: "pipe_ok p \<Longrightarrow> pipe_full p \<longleftrightarrow> length (contents p) = 512"
proof -
  have "pipe_full p \<longleftrightarrow> nwrite p - nread p = 512" 
    by (auto simp: pipe_full_def PIPESIZE_def diff_eq_eq add.commute)
  also have "\<dots> \<longleftrightarrow> unat (nwrite p - nread p) = unat (512 :: 32 word)" by (simp only: word_unat_eq_iff)
  finally show ?thesis by (simp add: contents_def)
qed

interpretation pipe_queue: bounded_queue pipe_ok contents "\<lambda>p. \<not> pipe_full p" "\<lambda>p. nread p \<noteq> nwrite p"
  pipe_put pipe_get 512
proof (unfold_locales, goal_cases)
  case (1 p x)
  then have "length (contents p) < 512"
    by (auto simp: full_iff contents_def pipe_ok_def dest: le_neq_implies_less)
  then have "unat (nwrite p - nread p) < length (data p)" using 1(1) by (simp add: contents_def pipe_ok_def)
  note put = ring_put [OF pipe_ring [OF 1(1)] this, of x]
  then have items: "contents (pipe_put x p) = contents p @ [x]"
    by (simp add: contents_def pipe_put_def pipe_slot [OF 1(1), symmetric])
  then have "length (contents (pipe_put x p)) \<le> 512" using \<open>length (contents p) < 512\<close> by simp
  then show ?case using items 1(1) by (simp add: pipe_ok_def contents_def pipe_put_def)
next
  case (2 p)
  then have get: "contents p = fst (pipe_get p) # contents (snd (pipe_get p))"
    using ring_get [of "nread p" "nwrite p" "data p"]
    by (simp add: contents_def pipe_get_def pipe_slot [OF 2(1), symmetric])
  then have "length (contents (snd (pipe_get p))) \<le> length (contents p)" by simp
  then show ?case using get 2(1) by (simp add: pipe_ok_def contents_def pipe_get_def)
next
  case (3 p)
  then show ?case by (simp add: full_iff) (auto simp: contents_def pipe_ok_def)
next
  case (4 p)
  then show ?case by (simp add: contents_def ring_Nil_iff)
next
  case (5 p)
  then show ?case by (simp add: contents_def pipe_ok_def)
qed

lemma put_keeps [simp]:
  "readopen (pipe_put x p) = readopen p" "writeopen (pipe_put x p) = writeopen p"
  "nwrite (pipe_put x p) = nwrite p + 1" "nread (pipe_put x p) = nread p"
  by (simp_all add: pipe_put_def)

lemma get_keeps [simp]:
  "readopen (snd (pipe_get p)) = readopen p" "writeopen (snd (pipe_get p)) = writeopen p"
  "nwrite (snd (pipe_get p)) = nwrite p"
  by (simp_all add: pipe_get_def)

section \<open>Calls\<close>

lemma pipewrite_segment:
  assumes "pipe_ok p" "pipewrite killed bs i p = (r, p')"
  shows "\<exists>m. pipe_ok p' \<and> contents p' = contents p @ map the (take m bs) \<and> m \<le> length bs \<and>
    None \<notin> set (take m bs) \<and> nwrite p' = nwrite p + of_nat m \<and> readopen p' = readopen p \<and>
    writeopen p' = writeopen p \<and> nread p' = nread p \<and>
    (case r of
       Wrote n \<Rightarrow> n = i + m \<and> (m = length bs \<or> bs ! m = None)
     | WriteFailed \<Rightarrow> \<not> readopen p \<or> killed (i + m)
     | WriteSleeps rest n \<Rightarrow> n = i + m \<and> rest = drop m bs \<and> rest \<noteq> [] \<and> length (contents p') = 512)"
  using assms
proof (induction bs arbitrary: i p)
  case (Cons b bs)
  show ?case
  proof (cases "\<not> readopen p \<or> killed i \<or> pipe_full p \<or> b = None")
    case True
    then show ?thesis using Cons.prems full_iff [OF Cons.prems(1)]
      by (intro exI [of _ 0]) (auto split: if_splits)
  next
    case False
    then obtain ch where b: "b = Some ch" by auto
    with False Cons.prems(2) have rec: "pipewrite killed bs (i + 1) (pipe_put ch p) = (r, p')" by simp
    from pipe_queue.put [of p ch] Cons.prems(1) False
    have q: "pipe_ok (pipe_put ch p)" "contents (pipe_put ch p) = contents p @ [ch]" by blast+
    from Cons.IH [OF q(1) rec, unfolded put_keeps] obtain m where m: "pipe_ok p'"
      "contents p' = contents (pipe_put ch p) @ map the (take m bs)" "m \<le> length bs"
      "None \<notin> set (take m bs)" "nwrite p' = nwrite p + 1 + of_nat m"
      "readopen p' = readopen p" "writeopen p' = writeopen p" "nread p' = nread p"
      "case r of Wrote n \<Rightarrow> n = i + 1 + m \<and> (m = length bs \<or> bs ! m = None)
        | WriteFailed \<Rightarrow> \<not> readopen p \<or> killed (i + 1 + m)
        | WriteSleeps rest n \<Rightarrow> n = i + 1 + m \<and> rest = drop m bs \<and> rest \<noteq> [] \<and> length (contents p') = 512"
      by blast
    show ?thesis
      using m by (intro exI [of _ "Suc m"]) (auto simp: b q split: write_result.splits)
  qed
next
  case Nil
  then show ?case by (intro exI [of _ 0]) auto
qed

lemma read_loop_segment:
  assumes "pipe_ok p" "read_loop oks got p = (r, p')"
  shows "\<exists>m ret. r = Read ret (got @ take m (contents p)) \<and> pipe_ok p' \<and> contents p' = drop m (contents p) \<and>
    m \<le> length oks \<and> m \<le> length (contents p) \<and> nwrite p' = nwrite p \<and> readopen p' = readopen p \<and>
    writeopen p' = writeopen p \<and>
    (ret = int (length got + m) \<or> ret = -1 \<and> got = [] \<and> m = 0) \<and>
    (m = length oks \<or> m = length (contents p) \<or> \<not> oks ! m)"
  using assms
proof (induction oks arbitrary: got p)
  case (Cons ok oks)
  show ?case
  proof (cases "nread p = nwrite p \<or> \<not> ok")
    case True
    then show ?thesis
      using Cons.prems pipe_queue.any [OF Cons.prems(1)]
      by (intro exI [of _ 0] exI [of _ "case r of Read n _ \<Rightarrow> n | _ \<Rightarrow> 0"])
        (auto simp: case_prod_unfold Let_def split: if_splits)
  next
    case False
    then have rec: "read_loop oks (got @ [fst (pipe_get p)]) (snd (pipe_get p)) = (r, p')"
      using Cons.prems(2) by (simp add: case_prod_unfold Let_def)
    from pipe_queue.get [OF Cons.prems(1)] False
    have q: "pipe_ok (snd (pipe_get p))" "contents p = fst (pipe_get p) # contents (snd (pipe_get p))" by blast+
    from Cons.IH [OF q(1) rec] obtain m ret where
      "r = Read ret ((got @ [fst (pipe_get p)]) @ take m (contents (snd (pipe_get p))))" "pipe_ok p'"
      "contents p' = drop m (contents (snd (pipe_get p)))" "m \<le> length oks"
      "m \<le> length (contents (snd (pipe_get p)))" "nwrite p' = nwrite p" "readopen p' = readopen p"
      "writeopen p' = writeopen p"
      "ret = int (length (got @ [fst (pipe_get p)]) + m) \<or> ret = -1 \<and> got @ [fst (pipe_get p)] = [] \<and> m = 0"
      "m = length oks \<or> m = length (contents (snd (pipe_get p))) \<or> \<not> oks ! m" by auto
    then show ?thesis by (intro exI [of _ "Suc m"] exI [of _ ret]) (auto simp: q(2))
  qed
qed (auto intro: exI [of _ 0])

text \<open>
  Every interleaving of the segments of any number of readers and writers: the pipe, the bytes the
  writers have put into it, and the bytes the readers have got out of it. A writer that was woken
  goes on with the rest of its bytes, which is a segment as any other.
\<close>

definition accepted :: "pipe \<Rightarrow> pipe \<Rightarrow> byte option list \<Rightarrow> byte list" where
  "accepted p p' bs = map the (take (unat (nwrite p' - nwrite p)) bs)"

inductive pipe_run :: "pipe \<Rightarrow> byte list \<Rightarrow> byte list \<Rightarrow> bool" where
  allocated: "pipealloc True True True d = Some (p, fs) \<Longrightarrow> length d = 512 \<Longrightarrow> pipe_run p [] []"
| writes: "pipe_run p sent got \<Longrightarrow> length bs < 2 ^ 31 \<Longrightarrow> pipewrite killed bs i p = (r, p') \<Longrightarrow>
    pipe_run p' (sent @ accepted p p' bs) got"
| reads: "pipe_run p sent got \<Longrightarrow> piperead killed oks p = (Read n bs, p') \<Longrightarrow> pipe_run p' sent (got @ bs)"
| waits: "pipe_run p sent got \<Longrightarrow> piperead killed oks p = (r, p') \<Longrightarrow> r = ReadSleeps \<or> r = ReadFailed \<Longrightarrow>
    pipe_run p' sent got"
| closes: "pipe_run p sent got \<Longrightarrow> pipeclose wr p = (freed, p') \<Longrightarrow> pipe_run p' sent got"

lemma pipe_run_queue: "pipe_run p sent got \<Longrightarrow> pipe_ok p \<and> got @ contents p = sent"
proof (induction rule: pipe_run.induct)
  case (allocated d p fs)
  then show ?case by (auto simp: pipealloc_def pipe_ok_def contents_def)
next
  case (writes p sent got bs killed i r p')
  then obtain m where m: "pipe_ok p'" "contents p' = contents p @ map the (take m bs)" "m \<le> length bs"
    "nwrite p' = nwrite p + of_nat m" using pipewrite_segment [of p killed bs i r p'] by blast
  have "m mod 2 ^ 32 = m" using m(3) writes.hyps(2) by simp
  then have "unat (nwrite p' - nwrite p) = m" by (simp add: m(4) unat_of_nat)
  then show ?case using m writes.IH by (simp add: accepted_def)
next
  case (reads p sent got killed oks n bs p')
  then have "read_loop oks [] p = (Read n bs, p')" by (simp add: piperead_def split: if_splits)
  with read_loop_segment [of p oks "[]"] reads.IH obtain m where
    "bs = take m (contents p)" "pipe_ok p'" "contents p' = drop m (contents p)" by fastforce
  then show ?case using reads.IH by auto
next
  case (waits p sent got killed oks r p')
  then have "p' = p"
    using read_loop_segment [of p oks "[]" r p'] by (auto simp: piperead_def split: if_splits)
  then show ?case using waits.IH by simp
next
  case (closes p sent got wr freed p')
  then show ?case by (auto simp: pipeclose_def Let_def pipe_ok_def contents_def)
qed

text \<open>
  C26. A pipe delivers what is written to it: in every interleaving of readers and writers, with the
  counters wrapping around, what was read followed by what is in the pipe is what was written, and
  the pipe never holds more than 512 bytes.
\<close>

theorem pipe_delivers:
  assumes "pipe_run p sent got"
  shows "got @ contents p = sent \<and> length (contents p) \<le> 512"
  using pipe_run_queue [OF assms] pipe_queue.bound by blast

theorem pipe_delivers_witness:
  "let p = fst (the (pipealloc True True True (replicate 512 5)));
       p' = snd (pipewrite (\<lambda>_. False) [Some 1, Some 2] 0 p)
   in [] @ contents p' = [] @ accepted p p' [Some 1, Some 2] \<and> length (contents p') \<le> 512"
proof -
  let ?p = "fst (the (pipealloc True True True (replicate 512 5)))"
  let ?w = "pipewrite (\<lambda>_. False) [Some 1, Some 2] 0 ?p"
  have "pipe_run ?p [] []"
    by (rule allocated [of "replicate 512 5" _ "snd (the (pipealloc True True True (replicate 512 5)))"])
      (simp_all add: pipealloc_def)
  then have "pipe_run (snd ?w) ([] @ accepted ?p (snd ?w) [Some 1, Some 2]) []"
    by (rule writes [where r = "fst ?w" and killed = "\<lambda>_. False" and i = 0])
      (simp_all del: pipewrite.simps)
  from pipe_delivers [OF this] show ?thesis by (simp only: Let_def)
qed

text \<open>
  A read that need not wait takes from the front of the pipe as many bytes as it asks for and
  the pipe has, and returns their number: 0, the end of the file, when the write end is closed and
  the pipe is empty.
\<close>

theorem piperead_takes:
  assumes "pipe_ok p" "contents p \<noteq> [] \<or> \<not> writeopen p"
  shows "\<exists>p'. piperead killed (replicate n True) p =
      (Read (int (min n (length (contents p)))) (take n (contents p)), p') \<and>
    pipe_ok p' \<and> contents p' = drop n (contents p)"
proof -
  have loop: "read_loop (replicate n True) got q =
      (Read (int (length (got @ fst (pipe_queue.get_upto n q)))) (got @ fst (pipe_queue.get_upto n q)),
       snd (pipe_queue.get_upto n q))" for got q
    by (induction n arbitrary: got q) (auto simp: case_prod_unfold Let_def)
  obtain xs p' where g: "pipe_queue.get_upto n p = (xs, p')" by fastforce
  note items = pipe_queue.get_upto_items [OF assms(1) g]
  have "nread p \<noteq> nwrite p \<or> \<not> writeopen p" using assms pipe_queue.any by blast
  then have "piperead killed (replicate n True) p = (Read (int (length xs)) xs, p')"
    by (auto simp: piperead_def loop g)
  then show ?thesis using items by (auto simp: min.commute)
qed

theorem piperead_takes_witness:
  "\<exists>p'. piperead False (replicate 3 True)
       (pipe_put 9 \<lparr>data = replicate 512 0, nread = -1, nwrite = -1, readopen = True, writeopen = False\<rparr>) =
      (Read 1 [9], p') \<and> pipe_ok p' \<and> contents p' = []"
proof -
  let ?q = "\<lparr>data = replicate 512 0, nread = -1, nwrite = -1, readopen = True, writeopen = False\<rparr>"
  have q: "pipe_ok ?q" "contents ?q = []" by (simp_all add: pipe_ok_def contents_def)
  then have "pipe_ok (pipe_put 9 ?q) \<and> contents (pipe_put 9 ?q) = [9]"
    using pipe_queue.put [OF q(1), of 9] full_iff [OF q(1)] by simp
  then show ?thesis using piperead_takes [of "pipe_put 9 ?q" False 3] by simp
qed

text \<open>
  A write to an open pipe puts as many of its bytes into the pipe as there is room for, and
  then has either written all of them or sleeps with the rest.
\<close>

theorem pipewrite_fills:
  assumes "pipe_ok p" "readopen p"
  shows "\<exists>p'. pipewrite (\<lambda>_. False) (map Some xs) 0 p =
      (let m = 512 - length (contents p) in
       if length xs \<le> m then Wrote (length xs) else WriteSleeps (map Some (drop m xs)) m, p') \<and>
    pipe_ok p' \<and> contents p' = contents p @ take (512 - length (contents p)) xs"
proof -
  have loop: "pipewrite (\<lambda>_. False) (map Some xs) i q =
      (let (m, q') = pipe_queue.put_all xs q in
       (if m = length xs then Wrote (i + m) else WriteSleeps (map Some (drop m xs)) (i + m), q'))"
    if "readopen q" for i q
    using that by (induction xs arbitrary: i q) (auto simp: Let_def case_prod_unfold)
  obtain m p' where m: "pipe_queue.put_all xs p = (m, p')" by fastforce
  note items = pipe_queue.put_all_items [OF assms(1) m]
  have "length (contents p) \<le> 512" using pipe_queue.bound [OF assms(1)] .
  then show ?thesis using items loop [OF assms(2), of 0] m by (auto simp: min_def Let_def)
qed

theorem pipewrite_fills_witness:
  "\<exists>p'. pipewrite (\<lambda>_. False) (map Some (replicate 513 1)) 0
       \<lparr>data = replicate 512 0, nread = 7, nwrite = 7, readopen = True, writeopen = True\<rparr> =
      (WriteSleeps (map Some [1]) 512, p') \<and> pipe_ok p' \<and> contents p' = replicate 512 1"
proof -
  let ?q = "\<lparr>data = replicate 512 0, nread = 7, nwrite = 7, readopen = True, writeopen = True\<rparr>"
  have q: "pipe_ok ?q" "contents ?q = []" by (simp_all add: pipe_ok_def contents_def)
  from pipewrite_fills [OF q(1), of "replicate 513 1"] q(2) show ?thesis by simp
qed

end
