(* ===== verification/XvConsole.thy ===== *)
theory XvConsole
  imports XvRing
begin

text \<open>
  The line discipline of \<open>xv6/xv6-source/kernel/console.c\<close>: the interrupt handler edits the current
  line in a circular buffer, and a whole line becomes input for \<open>consoleread\<close>. A call is a
  sequence of atomic segments between its sleeps; the characters sent to the UART are recorded.
  \<open>procdump\<close>, which control-P calls, only prints and is not modelled.
\<close>

section \<open>The console\<close>

definition INPUT_BUF_SIZE :: "32 word" where "INPUT_BUF_SIZE = 128"

definition BACKSPACE :: int where "BACKSPACE = 0x100"

definition ctrl :: "char \<Rightarrow> int" where "ctrl x = of_char x - of_char (CHR ''@'')"

record cons =
  buf :: "byte list"
  r :: "32 word"
  w :: "32 word"
  e :: "32 word"
  echo :: "int list"

text \<open>\<open>consputc\<close>: what it sends to the UART, a backspace as three characters.\<close>

definition consputc :: "int \<Rightarrow> cons \<Rightarrow> cons" where
  "consputc c s = s\<lparr>echo := echo s @ (if c = BACKSPACE then [8, 32, 8] else [c])\<rparr>"

definition char_at :: "32 word \<Rightarrow> cons \<Rightarrow> byte" where
  "char_at i s = buf s ! unat (i mod INPUT_BUF_SIZE)"

definition erase :: "cons \<Rightarrow> cons" where
  "erase s = consputc BACKSPACE (s\<lparr>e := e s - 1\<rparr>)"

lemma erase_fields [simp]:
  "e (erase s) = e s - 1" "w (erase s) = w s" "r (erase s) = r s" "buf (erase s) = buf s"
  by (simp_all add: erase_def consputc_def)

function kill_line :: "cons \<Rightarrow> cons" where
  "kill_line s = (if e s \<noteq> w s \<and> char_at (e s - 1) s \<noteq> 10 then kill_line (erase s) else s)"
  by pat_completeness auto

termination
proof (relation "measure (\<lambda>s. unat (e s - w s))")
  fix s assume "e s \<noteq> w s \<and> char_at (e s - 1) s \<noteq> 10"
  then have "e s - w s \<noteq> 0" by simp
  then have "unat (e s - w s - 1) < unat (e s - w s)"
    using unat_minus_one [of "e s - w s"] by (simp add: unat_gt_0)
  then show "(erase s, s) \<in> measure (\<lambda>s. unat (e s - w s))" by (simp add: algebra_simps)
qed simp

declare kill_line.simps [simp del]

definition consoleintr :: "int \<Rightarrow> cons \<Rightarrow> cons" where
  "consoleintr c s =
     (if c = ctrl (CHR ''P'') then s
      else if c = ctrl (CHR ''U'') then kill_line s
      else if c = ctrl (CHR ''H'') \<or> c = 0x7f then (if e s \<noteq> w s then erase s else s)
      else if c \<noteq> 0 \<and> e s - r s < INPUT_BUF_SIZE then
        let c = (if c = 13 then 10 else c);
            s = consputc c s;
            s = s\<lparr>buf := (buf s)[unat (e s mod INPUT_BUF_SIZE) := word_of_int c], e := e s + 1\<rparr>
        in if c = 10 \<or> c = ctrl (CHR ''D'') \<or> e s - r s = INPUT_BUF_SIZE then s\<lparr>w := e s\<rparr> else s
      else s)"

datatype read_result = Got "byte list" | Killed | Asleep "bool list" "byte list"

text \<open>
  One segment of \<open>consoleread\<close> with \<open>target\<close> bytes asked for: the list says for each byte that is
  still wanted whether \<open>either_copyout\<close> succeeds.
\<close>

fun consoleread :: "bool \<Rightarrow> nat \<Rightarrow> bool list \<Rightarrow> byte list \<Rightarrow> cons \<Rightarrow> read_result \<times> cons" where
  "consoleread killed target [] got s = (Got got, s)"
| "consoleread killed target (copy_ok # oks) got s =
     (if r s = w s then (if killed then (Killed, s) else (Asleep (copy_ok # oks) got, s))
      else
        let c = char_at (r s) s; s = s\<lparr>r := r s + 1\<rparr> in
        if c = word_of_int (ctrl (CHR ''D''))
        then (Got got, if Suc (length oks) < target then s\<lparr>r := r s - 1\<rparr> else s)
        else if \<not> copy_ok then (Got got, s)
        else if c = 10 then (Got (got @ [c]), s)
        else consoleread killed target oks (got @ [c]) s)"

text \<open>One step of \<open>consolewrite\<close> moves at most 32 characters; it stops where \<open>either_copyin\<close> fails.\<close>

function consolewrite :: "byte list \<Rightarrow> (nat \<Rightarrow> bool) \<Rightarrow> nat \<Rightarrow> byte list \<Rightarrow> nat \<times> byte list" where
  "consolewrite src copy_ok i out =
     (if i < length src then
        let nn = min 32 (length src - i) in
        if \<not> copy_ok i then (i, out)
        else consolewrite src copy_ok (i + nn) (out @ take nn (drop i src))
      else (i, out))"
  by pat_completeness auto
termination
  by (relation "measure (\<lambda>(src, copy_ok, i, out). length src - i)") auto

declare consolewrite.simps [simp del]

section \<open>Lines\<close>

text \<open>
  The console holds two lists: the input that \<open>consoleread\<close> may take, and the line being edited. A
  newline or an end of file never stays in the line.
\<close>

definition input :: "cons \<Rightarrow> byte list" where "input s = ring (buf s) (r s) (w s)"

definition line :: "cons \<Rightarrow> byte list" where "line s = ring (buf s) (w s) (e s)"

definition cons_ok :: "cons \<Rightarrow> bool" where
  "cons_ok s \<longleftrightarrow> length (buf s) = 128 \<and> length (input s) + length (line s) \<le> 128 \<and>
     10 \<notin> set (line s) \<and> 4 \<notin> set (line s)"

lemma ctrl_values [simp]:
  "ctrl (CHR ''P'') = 16" "ctrl (CHR ''U'') = 21" "ctrl (CHR ''H'') = 8" "ctrl (CHR ''D'') = 4"
  by (simp_all add: ctrl_def)

lemma cons_ring: "length (buf s) = 128 \<Longrightarrow> ring_ok (buf s)"
  by (simp add: ring_ok_def)

lemma cons_slot: "length (buf s) = 128 \<Longrightarrow> unat (i mod INPUT_BUF_SIZE) = slot (buf s) i"
  by (simp add: slot_def INPUT_BUF_SIZE_def unat_mod)

lemma room_iff:
  assumes "cons_ok s"
  shows "unat (e s - r s) = length (input s) + length (line s)"
    "e s - r s < INPUT_BUF_SIZE \<longleftrightarrow> length (input s) + length (line s) < 128"
    "ring (buf s) (r s) (e s) = input s @ line s"
proof -
  have "unat (w s - r s) + unat (e s - w s) < 2 ^ 32"
    using assms by (simp add: cons_ok_def input_def line_def)
  note sp = ring_split [OF this]
  show len: "unat (e s - r s) = length (input s) + length (line s)" by (simp add: sp(2) input_def line_def)
  then show "e s - r s < INPUT_BUF_SIZE \<longleftrightarrow> length (input s) + length (line s) < 128"
    by (simp add: word_less_nat_alt INPUT_BUF_SIZE_def)
  show "ring (buf s) (r s) (e s) = input s @ line s" by (simp add: sp(1) input_def line_def)
qed

lemma erase_line:
  assumes "cons_ok s" "e s \<noteq> w s"
  shows "cons_ok (erase s)" "input (erase s) = input s" "line (erase s) = butlast (line s)"
    "char_at (e s - 1) s = last (line s)" "line s \<noteq> []"
proof -
  have len: "length (buf s) = 128" using assms(1) by (simp add: cons_ok_def)
  show "line s \<noteq> []" using assms(2) by (auto simp: line_def ring_Nil_iff)
  have "w s \<noteq> e s" using assms(2) by simp
  note un = ring_unput [OF this, of "buf s"]
  show i: "input (erase s) = input s" by (simp add: input_def)
  show l: "line (erase s) = butlast (line s)" using un(1) by (simp add: line_def)
  show "char_at (e s - 1) s = last (line s)"
    using un(2) by (simp add: line_def char_at_def cons_slot [OF len])
  show "cons_ok (erase s)"
    using assms(1) unfolding cons_ok_def i l by (auto dest: in_set_butlastD)
qed

lemma kill_line_line:
  "cons_ok s \<Longrightarrow> cons_ok (kill_line s) \<and> input (kill_line s) = input s \<and> line (kill_line s) = []"
proof (induction s rule: kill_line.induct)
  case (1 s)
  show ?case
  proof (cases "e s = w s")
    case True
    then have "kill_line s = s" by (simp add: kill_line.simps)
    then show ?thesis using 1(2) True by (simp add: line_def)
  next
    case False
    note er = erase_line [OF 1(2) False]
    have "last (line s) \<noteq> 10" using 1(2) last_in_set [OF er(5)] by (auto simp: cons_ok_def)
    then have c: "e s \<noteq> w s \<and> char_at (e s - 1) s \<noteq> 10" using False er(4) by simp
    then have "kill_line s = kill_line (erase s)" by (simp add: kill_line.simps [of s])
    then show ?thesis using 1(1) [OF c er(1)] er(2) by simp
  qed
qed

section \<open>Editing\<close>

text \<open>What a character means for the input and the line.\<close>

definition edit :: "int \<Rightarrow> byte list \<times> byte list \<Rightarrow> byte list \<times> byte list" where
  "edit c il =
     (let (inp, l) = il; x = (if c = 13 then 10 else word_of_int c) in
      if c = 16 then (inp, l)
      else if c = 21 then (inp, [])
      else if c = 8 \<or> c = 127 then (inp, butlast l)
      else if c = 0 \<or> length inp + length l = 128 then (inp, l)
      else if x = 10 \<or> x = 4 \<or> length inp + length l = 127 then (inp @ l @ [x], [])
      else (inp, l @ [x]))"

lemma small_byte:
  fixes b :: byte
  assumes "0 \<le> c" "c < 256" "0 \<le> k" "k < 256"
  shows "(word_of_int c :: byte) = word_of_int k \<longleftrightarrow> c = k"
  using assms by (simp add: word_of_int_eq_iff take_bit_int_eq_self)

definition store :: "byte \<Rightarrow> cons \<Rightarrow> cons" where
  "store x s = s\<lparr>buf := (buf s)[unat (e s mod INPUT_BUF_SIZE) := x], e := e s + 1\<rparr>"

lemma store_char:
  assumes "cons_ok s" "length (input s) + length (line s) < 128"
  shows "length (buf (store x s)) = 128" "input (store x s) = input s" "line (store x s) = line s @ [x]"
    "e (store x s) - r (store x s) = INPUT_BUF_SIZE \<longleftrightarrow> length (input s) + length (line s) = 127"
    "ring (buf (store x s)) (r (store x s)) (e (store x s)) = input s @ line s @ [x]"
proof -
  define s' where "s' = store x s"
  have len: "length (buf s) = 128" using assms(1) by (simp add: cons_ok_def)
  define d where "d = (buf s)[slot (buf s) (e s) := x]"
  have s': "buf s' = d" "e s' = e s + 1" "r s' = r s" "w s' = w s"
    by (simp_all add: s'_def store_def d_def cons_slot [OF len])
  note room = room_iff [OF assms(1)]
  have "unat (e s - r s) < length (buf s)" using room(1) assms(2) len by simp
  note put = ring_put [OF cons_ring [OF len] this, of x, folded d_def]
  then have all: "ring d (r s) (e s + 1) = input s @ line s @ [x]" by (simp add: room(3))
  then show "ring (buf (store x s)) (r (store x s)) (e (store x s)) = input s @ line s @ [x]"
    by (simp add: s'_def [symmetric] s')
  have el: "unat (e s + 1 - r s) = length (input s) + length (line s) + 1"
    using arg_cong [OF all, of length] by simp
  have "unat (e s + 1 - w s) = length (line s) + 1"
  proof -
    have "unat (e s + 1 - w s) = unat ((e s - w s) + 1)" by (simp add: algebra_simps)
    also have "\<dots> = (unat (e s - w s) + 1) mod 2 ^ 32" by (simp only: unat_word_ariths) simp
    also have "\<dots> = length (line s) + 1" using assms(2) by (simp add: line_def)
    finally show ?thesis .
  qed
  then have "unat (w s - r s) + unat (e s + 1 - w s) < 2 ^ 32" using assms(2) by (simp add: input_def)
  from ring_split(1) [OF this, of d] all
  have "ring d (r s) (w s) @ ring d (w s) (e s + 1) = input s @ (line s @ [x])" by simp
  moreover have "length (ring d (r s) (w s)) = length (input s)" by (simp add: input_def)
  ultimately have "ring d (r s) (w s) = input s \<and> ring d (w s) (e s + 1) = line s @ [x]"
    by (metis append_eq_append_conv)
  then show "input (store x s) = input s" "line (store x s) = line s @ [x]"
    by (simp_all add: s'_def [symmetric] input_def line_def s')
  show "length (buf (store x s)) = 128" by (simp add: s'_def [symmetric] s' d_def len)
  have "e s' - r s' = INPUT_BUF_SIZE \<longleftrightarrow> unat (e s + 1 - r s) = unat INPUT_BUF_SIZE"
    unfolding s' by (simp only: word_unat_eq_iff)
  then show "e (store x s) - r (store x s) = INPUT_BUF_SIZE \<longleftrightarrow> length (input s) + length (line s) = 127"
    by (simp add: el INPUT_BUF_SIZE_def s'_def [symmetric])
qed

lemma consputc_keeps [simp]:
  "buf (consputc c s) = buf s" "r (consputc c s) = r s" "w (consputc c s) = w s" "e (consputc c s) = e s"
  "input (consputc c s) = input s" "line (consputc c s) = line s" "cons_ok (consputc c s) = cons_ok s"
  by (simp_all add: consputc_def input_def line_def cons_ok_def)

lemma consoleintr_edit:
  assumes "cons_ok s" "0 \<le> c" "c < 256"
  shows "cons_ok (consoleintr c s) \<and>
    (input (consoleintr c s), line (consoleintr c s)) = edit c (input s, line s)"
proof -
  consider "c = 16" | "c = 21" | "c = 8 \<or> c = 127" | "c \<notin> {8, 16, 21, 127}" by auto
  then show ?thesis
  proof cases
    case 1
    then show ?thesis using assms(1) by (simp add: consoleintr_def edit_def)
  next
    case 2
    then show ?thesis using kill_line_line [OF assms(1)] by (simp add: consoleintr_def edit_def)
  next
    case 3
    then show ?thesis
      using erase_line [OF assms(1)] assms(1)
      by (cases "e s = w s") (auto simp: consoleintr_def edit_def line_def)
  next
    case 4
    define n where "n = length (input s) + length (line s)"
    have n: "n \<le> 128" using assms(1) by (simp add: cons_ok_def n_def)
    show ?thesis
    proof (cases "c = 0 \<or> n = 128")
      case True
      then show ?thesis using 4 room_iff(2) [OF assms(1)] assms(1)
        by (auto simp: consoleintr_def edit_def n_def)
    next
      case False
      then have lt: "n < 128" using n by simp
      define d where "d = (if c = 13 then 10 else c)"
      define x where "x = (word_of_int d :: byte)"
      have d: "0 \<le> d" "d < 256" using assms(2,3) by (simp_all add: d_def)
      have x: "x = (if c = 13 then 10 else word_of_int c)" by (simp add: x_def d_def)
      have xd: "x = 10 \<longleftrightarrow> d = 10" "x = 4 \<longleftrightarrow> d = 4"
        using small_byte [OF d, of 10] small_byte [OF d, of 4] by (simp_all add: x_def)
      define t where "t = consputc d s"
      define t' where "t' = store x t"
      have t: "cons_ok t" "length (input t) + length (line t) < 128" "input t = input s" "line t = line s"
        using assms(1) lt by (simp_all add: t_def n_def)
      note st = store_char [OF t(1,2), of x, folded t'_def, unfolded t(3,4)]
      have "consoleintr c s = (if d = 10 \<or> d = 4 \<or> n = 127 then t'\<lparr>w := e t'\<rparr> else t')"
        using 4 False room_iff(2) [OF assms(1)] lt st(4)
        by (simp add: consoleintr_def Let_def d_def [symmetric] t_def [symmetric] x_def [symmetric]
            store_def [symmetric] t'_def [symmetric] n_def)
      moreover have "input (t'\<lparr>w := e t'\<rparr>) = input s @ line s @ [x]" "line (t'\<lparr>w := e t'\<rparr>) = []"
        using st(5) by (simp_all add: input_def line_def)
      moreover have "cons_ok (t'\<lparr>w := e t'\<rparr>)"
        using calculation(2,3) st(1) lt by (simp add: cons_ok_def n_def)
      moreover have "cons_ok t'" if "d \<noteq> 10" "d \<noteq> 4"
        using that xd lt st assms(1) by (auto simp: cons_ok_def n_def)
      ultimately show ?thesis
        using 4 False st(2,3) xd by (auto simp: edit_def Let_def x [symmetric] n_def)
    qed
  qed
qed

text \<open>
  C30. The interrupt handler refines line editing: whatever characters arrive, an erase takes the
  last character of the unfinished line, a kill all of it, a newline, an end of file or a full buffer
  turns the line into input, and input that \<open>consoleread\<close> has not taken yet is never changed.
\<close>

theorem consoleintr_edits:
  assumes "cons_ok s" "0 \<le> c" "c < 256"
  shows "cons_ok (consoleintr c s) \<and>
    (input (consoleintr c s), line (consoleintr c s)) = edit c (input s, line s)"
  by (rule consoleintr_edit [OF assms])

definition new_cons :: cons where
  "new_cons = \<lparr>buf = replicate 128 0, r = 0, w = 0, e = 0, echo = []\<rparr>"

lemma new_cons_ok: "cons_ok new_cons" "input new_cons = []" "line new_cons = []"
  by (simp_all add: new_cons_def cons_ok_def input_def line_def)

theorem consoleintr_edits_witness:
  "cons_ok (consoleintr 65 new_cons) \<and>
    (input (consoleintr 65 new_cons), line (consoleintr 65 new_cons)) = edit 65 ([], [])"
  using consoleintr_edits [OF new_cons_ok(1), of 65] by (simp add: new_cons_ok)

section \<open>Reading\<close>

lemma take_char:
  assumes "cons_ok s" "input s = c # cs"
  shows "r s \<noteq> w s" "char_at (r s) s = c" "cons_ok (s\<lparr>r := r s + 1\<rparr>)" "input (s\<lparr>r := r s + 1\<rparr>) = cs"
    "line (s\<lparr>r := r s + 1\<rparr>) = line s"
proof -
  have len: "length (buf s) = 128" using assms(1) by (simp add: cons_ok_def)
  show rw: "r s \<noteq> w s" using assms(2) by (auto simp: input_def)
  from ring_get [OF rw, of "buf s"] assms(2)
  show "char_at (r s) s = c" and i: "input (s\<lparr>r := r s + 1\<rparr>) = cs"
    by (simp_all add: input_def char_at_def cons_slot [OF len])
  show l: "line (s\<lparr>r := r s + 1\<rparr>) = line s" by (simp add: line_def)
  show "cons_ok (s\<lparr>r := r s + 1\<rparr>)" using assms unfolding cons_ok_def i l by simp
qed

lemma read_line:
  assumes "cons_ok s" "input s = l @ c # rest" "c = 10 \<or> c = 4" "10 \<notin> set l" "4 \<notin> set l"
    "length l < m" "m \<le> target"
  shows "\<exists>s'. consoleread killed target (replicate m True) got s =
      (Got (got @ l @ (if c = 10 then [c] else [])), s') \<and> cons_ok s' \<and> line s' = line s \<and>
    input s' = (if c = 4 \<and> (m < target \<or> l \<noteq> []) then c # rest else rest)"
  using assms
proof (induction l arbitrary: m got s)
  case Nil
  then obtain k where m: "m = Suc k" by (cases m) auto
  have i: "input s = c # rest" using Nil.prems(2) by simp
  note t = take_char [OF Nil.prems(1) i]
  show ?case
    using Nil.prems(1,3) t i by (auto simp: m)
next
  case (Cons x l)
  then obtain k where m: "m = Suc k" by (cases m) auto
  have i: "input s = x # (l @ c # rest)" using Cons.prems(2) by simp
  note t = take_char [OF Cons.prems(1) i]
  have "\<exists>s'. consoleread killed target (replicate k True) (got @ [x]) (s\<lparr>r := r s + 1\<rparr>) =
      (Got ((got @ [x]) @ l @ (if c = 10 then [c] else [])), s') \<and> cons_ok s' \<and>
      line s' = line (s\<lparr>r := r s + 1\<rparr>) \<and>
      input s' = (if c = 4 \<and> (k < target \<or> l \<noteq> []) then c # rest else rest)"
    by (rule Cons.IH [OF t(3,4)]) (use Cons.prems(3-7) m in auto)
  moreover have "k < target" using Cons.prems(7) m by simp
  ultimately show ?case using t Cons.prems(4,5) by (auto simp: m)
qed

text \<open>
  Reads are a line at a time: when the input has a line that ends in a newline, a read with room
  for it returns the line with its newline and leaves the rest; an end of file ends the read without
  being returned, and stays for the next read unless it is the first character.
\<close>

theorem consoleread_returns_line:
  assumes "cons_ok s" "input s = l @ c # rest" "c = 10 \<or> c = 4" "10 \<notin> set l" "4 \<notin> set l" "length l < n"
  shows "\<exists>s'. consoleread killed n (replicate n True) [] s = (Got (l @ (if c = 10 then [c] else [])), s') \<and>
    cons_ok s' \<and> line s' = line s \<and> input s' = (if c = 4 \<and> l \<noteq> [] then c # rest else rest)"
  using read_line [OF assms, of n killed "[]"] by simp

theorem consoleread_returns_line_witness:
  "\<exists>s'. consoleread False 5 (replicate 5 True) [] (fold consoleintr [104, 105, 8, 111, 13] new_cons) =
      (Got ([104, 111] @ (if (10 :: byte) = 10 then [10] else [])), s') \<and> cons_ok s' \<and>
    line s' = line (fold consoleintr [104, 105, 8, 111, 13] new_cons) \<and>
    input s' = (if (10 :: byte) = 4 \<and> [104, 111] \<noteq> ([] :: byte list) then 10 # [] else [])"
proof (rule consoleread_returns_line)
  define s where "s = fold consoleintr [104, 105, 8, 111, 13] new_cons"
  have ed: "cons_ok s \<and> (input s, line s) = fold edit [104, 105, 8, 111, 13] ([], [])"
  proof -
    have "cons_ok (fold consoleintr cs u) \<and> (input (fold consoleintr cs u), line (fold consoleintr cs u)) =
        fold edit cs (input u, line u)" if "cons_ok u" "\<forall>c \<in> set cs. 0 \<le> c \<and> c < 256" for cs u
      using that
    proof (induction cs arbitrary: u)
      case (Cons c cs)
      have "cons_ok (consoleintr c u) \<and> (input (consoleintr c u), line (consoleintr c u)) = edit c (input u, line u)"
        using Cons.prems by (intro consoleintr_edit) auto
      then show ?case using Cons.IH [of "consoleintr c u"] Cons.prems by auto
    qed simp
    from this [OF new_cons_ok(1), of "[104, 105, 8, 111, 13]"] show ?thesis by (simp add: s_def new_cons_ok)
  qed
  then show "cons_ok (fold consoleintr [104, 105, 8, 111, 13] new_cons)" by (simp add: s_def)
  have "fold edit [104, 105, 8, 111, 13] ([], []) = ([104, 111, 10], [])" by code_simp
  then show "input (fold consoleintr [104, 105, 8, 111, 13] new_cons) = [104, 111] @ 10 # []"
    using ed by (simp add: s_def)
qed simp_all

text \<open>\<open>consolewrite\<close> sends a prefix of its bytes, in order; all of them when every copy succeeds.\<close>

lemma consolewrite_prefix:
  "i \<le> length src \<Longrightarrow> consolewrite src copy_ok i (take i src) = (n, out) \<Longrightarrow>
     n \<le> length src \<and> out = take n src \<and> ((\<forall>k. copy_ok k) \<longrightarrow> n = length src)"
proof (induction "length src - i" arbitrary: i rule: less_induct)
  case less
  show ?case
  proof (cases "i < length src \<and> copy_ok i")
    case False
    then show ?thesis using less.prems by (auto simp: consolewrite.simps [of src copy_ok i] Let_def split: if_splits)
  next
    case True
    define nn where "nn = min 32 (length src - i)"
    have nn: "0 < nn" "i + nn \<le> length src" using True by (auto simp: nn_def)
    have "take i src @ take nn (drop i src) = take (i + nn) src" by (simp add: take_add)
    then have "consolewrite src copy_ok (i + nn) (take (i + nn) src) = (n, out)"
      using less.prems(2) True by (simp add: consolewrite.simps [of src copy_ok i] Let_def nn_def [symmetric])
    then show ?thesis using less.hyps [of "i + nn"] nn True by simp
  qed
qed

end
