(* ===== verification/XvKalloc.thy ===== *)
theory XvKalloc
  imports Prelude
begin

text \<open>
  \<open>xv6/xv6-source/kernel/kalloc.c\<close>: the allocator of physical pages. Addresses are numbers (the
  code's never reach 2^64), memory is read and written in words of 8 bytes at their addresses, and
  the linker's \<open>end\<close>, the first address after the kernel, is a parameter. The calls run one after
  the other, so the lock is not modelled.
\<close>

section \<open>The allocator\<close>

definition PGSIZE :: nat where "PGSIZE = 4096"

definition KERNBASE :: nat where "KERNBASE = 0x80000000"

definition PHYSTOP :: nat where "PHYSTOP = KERNBASE + 128 * 1024 * 1024"

definition PGROUNDUP :: "nat \<Rightarrow> nat" where
  "PGROUNDUP sz = (sz + PGSIZE - 1) div PGSIZE * PGSIZE"

record kmem =
  mem :: "nat \<Rightarrow> nat"
  freelist :: nat

text \<open>\<open>memset\<close> over a page: every byte, hence every byte of every word, is \<open>b\<close>.\<close>

definition fill_page :: "nat \<Rightarrow> nat \<Rightarrow> (nat \<Rightarrow> nat) \<Rightarrow> nat \<Rightarrow> nat" where
  "fill_page b pa m = (\<lambda>a. if pa \<le> a \<and> a < pa + PGSIZE then b * 0x0101010101010101 else m a)"

definition kfree :: "nat \<Rightarrow> nat \<Rightarrow> kmem \<Rightarrow> string + kmem" where
  "kfree kend pa k =
     (if pa mod PGSIZE \<noteq> 0 \<or> pa < kend \<or> pa \<ge> PHYSTOP then Inl ''kfree''
      else Inr (k\<lparr>mem := (fill_page 1 pa (mem k))(pa := freelist k), freelist := pa\<rparr>))"

definition kalloc :: "kmem \<Rightarrow> nat \<times> kmem" where
  "kalloc k =
     (let r = freelist k;
          k = (if r \<noteq> 0 then k\<lparr>freelist := mem k r\<rparr> else k)
      in (r, if r \<noteq> 0 then k\<lparr>mem := fill_page 5 r (mem k)\<rparr> else k))"

function free_pages :: "nat \<Rightarrow> nat \<Rightarrow> nat \<Rightarrow> kmem \<Rightarrow> string + kmem" where
  "free_pages kend p pa_end k =
     (if p + PGSIZE \<le> pa_end then
        (case kfree kend p k of Inl e \<Rightarrow> Inl e | Inr k \<Rightarrow> free_pages kend (p + PGSIZE) pa_end k)
      else Inr k)"
  by pat_completeness auto
termination
  by (relation "measure (\<lambda>(kend, p, pa_end, k). pa_end - p)") (auto simp: PGSIZE_def)

declare free_pages.simps [simp del]

definition freerange :: "nat \<Rightarrow> nat \<Rightarrow> nat \<Rightarrow> kmem \<Rightarrow> string + kmem" where
  "freerange kend pa_start pa_end k = free_pages kend (PGROUNDUP pa_start) pa_end k"

definition kinit :: "nat \<Rightarrow> kmem \<Rightarrow> string + kmem" where
  "kinit kend k = freerange kend kend PHYSTOP (k\<lparr>freelist := 0\<rparr>)"

section \<open>The free list\<close>

primrec chain :: "(nat \<Rightarrow> nat) \<Rightarrow> nat \<Rightarrow> nat list \<Rightarrow> bool" where
  "chain m p [] \<longleftrightarrow> p = 0"
| "chain m p (x # xs) \<longleftrightarrow> p = x \<and> x \<noteq> 0 \<and> chain m (m x) xs"

definition pages :: "nat \<Rightarrow> nat set" where
  "pages kend = {p. p mod PGSIZE = 0 \<and> kend \<le> p \<and> p + PGSIZE \<le> PHYSTOP}"

definition in_page :: "nat \<Rightarrow> nat \<Rightarrow> bool" where
  "in_page a p \<longleftrightarrow> p \<le> a \<and> a < p + PGSIZE"

lemma chain_cong: "(\<And>x. x \<in> set xs \<Longrightarrow> m' x = m x) \<Longrightarrow> chain m' p xs = chain m p xs"
  by (induction xs arbitrary: p) auto

lemma pages_disjoint:
  assumes "p mod PGSIZE = 0" "q mod PGSIZE = 0" "in_page q p" shows "q = p"
proof -
  obtain i j where ij: "p = PGSIZE * i" "q = PGSIZE * j"
    using assms(1,2) by (auto simp: mod_eq_0_iff_dvd dvd_def)
  then have "PGSIZE * i \<le> PGSIZE * j" "PGSIZE * j < PGSIZE * (i + 1)"
    using assms(3) by (simp_all add: in_page_def algebra_simps)
  then have "i \<le> j" "j < i + 1" by (simp_all add: PGSIZE_def)
  then have "i = j" by simp
  then show ?thesis using ij by simp
qed

lemma fill_page_other: "\<not> in_page a pa \<Longrightarrow> fill_page b pa m a = m a"
  by (auto simp: fill_page_def in_page_def)

lemma next_page:
  assumes "p mod PGSIZE = 0" "q mod PGSIZE = 0" "p < q" shows "p + PGSIZE \<le> q"
  using pages_disjoint [OF assms(1,2)] assms(3) by (force simp: in_page_def)

text \<open>Free and owned pages: what every operation keeps.\<close>

definition kmem_ok :: "nat \<Rightarrow> kmem \<Rightarrow> nat set \<Rightarrow> bool" where
  "kmem_ok kend k owned \<longleftrightarrow>
     (\<exists>ps. chain (mem k) (freelist k) ps \<and> distinct ps \<and> set ps \<inter> owned = {} \<and>
       set ps \<union> owned = pages kend)"

lemma kfree_ok:
  assumes "kmem_ok kend k owned" "p \<in> owned" "0 < kend"
  shows "\<exists>k'. kfree kend p k = Inr k' \<and> kmem_ok kend k' (owned - {p})"
proof -
  from assms(1) obtain ps where ps: "chain (mem k) (freelist k) ps" "distinct ps" "set ps \<inter> owned = {}"
    "set ps \<union> owned = pages kend" unfolding kmem_ok_def by blast
  have p: "p \<in> pages kend" using ps(4) assms(2) by blast
  then have pg: "p mod PGSIZE = 0" "kend \<le> p" "p < PHYSTOP" "p \<noteq> 0"
    using assms(3) by (auto simp: pages_def PGSIZE_def)
  define k' where "k' = k\<lparr>mem := (fill_page 1 p (mem k))(p := freelist k), freelist := p\<rparr>"
  have "mem k' x = mem k x" if "x \<in> set ps" for x
  proof -
    have "x \<noteq> p" "x \<in> pages kend" using that ps(3,4) assms(2) by auto
    then have "\<not> in_page x p" using pages_disjoint [OF pg(1), of x] by (auto simp: pages_def)
    then show ?thesis using \<open>x \<noteq> p\<close> by (simp add: k'_def fill_page_other)
  qed
  then have "chain (mem k') (freelist k) ps = chain (mem k) (freelist k) ps" by (rule chain_cong)
  then have "chain (mem k') (freelist k') (p # ps)" using ps(1) pg(4) by (simp add: k'_def)
  moreover have "distinct (p # ps)" "set (p # ps) \<inter> (owned - {p}) = {}" "set (p # ps) \<union> (owned - {p}) = pages kend"
    using ps(2-4) assms(2) by auto
  ultimately have "kmem_ok kend k' (owned - {p})" unfolding kmem_ok_def by blast
  moreover have "kfree kend p k = Inr k'" using pg by (simp add: kfree_def k'_def)
  ultimately show ?thesis by blast
qed

lemma kalloc_ok:
  assumes "kmem_ok kend k owned" "kalloc k = (r, k')"
  shows "if r = 0 then k' = k \<and> owned = pages kend
    else r \<in> pages kend \<and> r \<notin> owned \<and> kmem_ok kend k' (insert r owned)"
proof -
  from assms(1) obtain ps where ps: "chain (mem k) (freelist k) ps" "distinct ps" "set ps \<inter> owned = {}"
    "set ps \<union> owned = pages kend" unfolding kmem_ok_def by blast
  show ?thesis
  proof (cases ps)
    case Nil
    then show ?thesis using ps assms(2) by (auto simp: kalloc_def Let_def)
  next
    case (Cons x xs)
    then have x: "freelist k = x" "x \<noteq> 0" "chain (mem k) (mem k x) xs" using ps(1) by auto
    have k': "r = x" "k' = k\<lparr>freelist := mem k x, mem := fill_page 5 x (mem k)\<rparr>"
      using assms(2) x by (auto simp: kalloc_def Let_def)
    have "mem k' y = mem k y" if "y \<in> set xs" for y
    proof -
      have "y \<noteq> x" "y \<in> pages kend" "x \<in> pages kend" using that ps(2,4) Cons by auto
      then have "\<not> in_page y x" using pages_disjoint [of x y] by (auto simp: pages_def)
      then show ?thesis by (simp add: k' fill_page_other)
    qed
    then have "chain (mem k') (freelist k') xs" using chain_cong [of xs "mem k'" "mem k" "mem k x"] x(3) by (simp add: k'(2))
    moreover have "distinct xs" "set xs \<inter> insert x owned = {}" "set xs \<union> insert x owned = pages kend"
      using ps(2-4) Cons by auto
    ultimately have "kmem_ok kend k' (insert x owned)" unfolding kmem_ok_def by blast
    moreover have "x \<in> pages kend" "x \<notin> owned" using ps(3,4) Cons by auto
    ultimately show ?thesis using x(2) k'(1) by simp
  qed
qed

text \<open>What the owners write, and what an operation leaves alone.\<close>

lemma kmem_ok_write:
  assumes "kmem_ok kend k owned" and w: "\<And>a. (\<And>p. p \<in> owned \<Longrightarrow> \<not> in_page a p) \<Longrightarrow> m a = mem k a"
  shows "kmem_ok kend (k\<lparr>mem := m\<rparr>) owned"
proof -
  from assms(1) obtain ps where ps: "chain (mem k) (freelist k) ps" "distinct ps" "set ps \<inter> owned = {}"
    "set ps \<union> owned = pages kend" unfolding kmem_ok_def by blast
  have "m x = mem k x" if x: "x \<in> set ps" for x
  proof (rule w)
    fix p assume p: "p \<in> owned"
    show "\<not> in_page x p"
    proof
      assume "in_page x p"
      moreover have "x \<in> pages kend" "p \<in> pages kend" using x p ps(4) by auto
      ultimately have "x = p" using pages_disjoint [of p x] by (simp add: pages_def)
      then show False using x p ps(3) by auto
    qed
  qed
  then have "chain m (freelist k) ps" using chain_cong [of ps m "mem k"] ps(1) by blast
  then show ?thesis using ps unfolding kmem_ok_def by auto
qed

lemma kalloc_mem: "kalloc k = (r, k') \<Longrightarrow> \<not> in_page a r \<Longrightarrow> mem k' a = mem k a"
  by (auto simp: kalloc_def Let_def fill_page_other split: if_splits)

lemma kfree_mem: "kfree kend p k = Inr k' \<Longrightarrow> \<not> in_page a p \<Longrightarrow> mem k' a = mem k a"
  by (auto simp: kfree_def fill_page_other in_page_def PGSIZE_def split: if_splits)

text \<open>\<open>kinit\<close> is a series of frees of pages nobody owns yet.\<close>

lemma free_pages_ok:
  assumes "kmem_ok kend k {q \<in> pages kend. p \<le> q}" "p mod PGSIZE = 0" "kend \<le> p" "0 < kend"
  shows "\<exists>k'. free_pages kend p PHYSTOP k = Inr k' \<and> kmem_ok kend k' {}"
  using assms
proof (induction "PHYSTOP - p" arbitrary: p k rule: less_induct)
  case less
  show ?case
  proof (cases "p + PGSIZE \<le> PHYSTOP")
    case True
    then have "p \<in> {q \<in> pages kend. p \<le> q}" using less.prems by (simp add: pages_def)
    from kfree_ok [OF less.prems(1) this less.prems(4)] obtain k' where
      k': "kfree kend p k = Inr k'" "kmem_ok kend k' ({q \<in> pages kend. p \<le> q} - {p})" by blast
    have "{q \<in> pages kend. p \<le> q} - {p} = {q \<in> pages kend. p + PGSIZE \<le> q}"
    proof (intro set_eqI iffI)
      fix q assume "q \<in> {q \<in> pages kend. p \<le> q} - {p}"
      then have "q \<in> pages kend" "p < q" by auto
      then show "q \<in> {q \<in> pages kend. p + PGSIZE \<le> q}"
        using next_page [OF less.prems(2), of q] by (simp add: pages_def)
    qed (auto simp: PGSIZE_def)
    then have "\<exists>k''. free_pages kend (p + PGSIZE) PHYSTOP k' = Inr k'' \<and> kmem_ok kend k'' {}"
      using k'(2) less.prems True by (intro less.hyps) (auto simp: PGSIZE_def)
    then show ?thesis using True k'(1) by (simp add: free_pages.simps [of kend p])
  next
    case False
    then have "{q \<in> pages kend. p \<le> q} = {}" by (auto simp: pages_def)
    then have "kmem_ok kend k {}" using less.prems(1) by (simp only:)
    then show ?thesis using False by (simp add: free_pages.simps [of kend p])
  qed
qed

lemma kinit_ok:
  assumes "0 < kend"
  shows "\<exists>k'. kinit kend k = Inr k' \<and> kmem_ok kend k' {}"
proof -
  define p where "p = PGROUNDUP kend"
  have p: "p mod PGSIZE = 0" "kend \<le> p" "p < kend + PGSIZE"
    by (simp_all add: p_def PGROUNDUP_def PGSIZE_def)
  have "{q \<in> pages kend. p \<le> q} = pages kend"
  proof -
    have "p \<le> q" if "q mod PGSIZE = 0" "kend \<le> q" for q
    proof (rule ccontr)
      assume "\<not> p \<le> q"
      then have "in_page p q" using that(2) p(3) by (simp add: in_page_def)
      then have "p = q" using pages_disjoint [OF that(1) p(1)] by blast
      then show False using \<open>\<not> p \<le> q\<close> by simp
    qed
    then show ?thesis by (auto simp: pages_def)
  qed
  moreover have "kmem_ok kend (k\<lparr>freelist := 0\<rparr>) (pages kend)"
    unfolding kmem_ok_def by (intro exI [of _ "[]"]) simp
  ultimately show ?thesis
    using free_pages_ok [of kend "k\<lparr>freelist := 0\<rparr>" p] p assms
    by (simp add: kinit_def freerange_def p_def [symmetric])
qed

text \<open>
  The life of the allocator: it is initialised, pages are allocated, written by their owners in any
  way, and freed by them.
\<close>

inductive kmem_run :: "nat \<Rightarrow> kmem \<Rightarrow> nat set \<Rightarrow> bool" for kend where
  boots: "kinit kend k = Inr k' \<Longrightarrow> kmem_run kend k' {}"
| allocs: "kmem_run kend k owned \<Longrightarrow> kalloc k = (p, k') \<Longrightarrow> p \<noteq> 0 \<Longrightarrow> kmem_run kend k' (insert p owned)"
| uses: "kmem_run kend k owned \<Longrightarrow> \<forall>a. (\<forall>p \<in> owned. \<not> in_page a p) \<longrightarrow> m a = mem k a \<Longrightarrow>
    kmem_run kend (k\<lparr>mem := m\<rparr>) owned"
| frees: "kmem_run kend k owned \<Longrightarrow> p \<in> owned \<Longrightarrow> kfree kend p k = Inr k' \<Longrightarrow> kmem_run kend k' (owned - {p})"

lemma kmem_run_ok: "kmem_run kend k owned \<Longrightarrow> 0 < kend \<Longrightarrow> kmem_ok kend k owned"
proof (induction rule: kmem_run.induct)
  case (boots k k')
  then show ?case using kinit_ok [of kend k] by simp
next
  case (allocs k owned p k')
  then show ?case using kalloc_ok [of kend k owned p k'] by simp
next
  case (uses k owned m)
  then show ?case by (intro kmem_ok_write) auto
next
  case (frees k owned p k')
  then show ?case using kfree_ok [of kend k owned p] by auto
qed

text \<open>
  C34. Whatever the owners of pages write into them, the allocator never hands out a page that is
  owned, it hands out only whole pages between the kernel and the end of the memory, it returns 0
  only when every such page is owned, and freeing an owned page never panics.
\<close>

theorem kalloc_gives_free_pages:
  assumes "kmem_run kend k owned" "0 < kend"
  shows "(let p = fst (kalloc k) in
      if p = 0 then owned = pages kend
      else p \<in> pages kend \<and> p \<notin> owned \<and> (\<forall>a q. q \<in> owned \<and> in_page a q \<longrightarrow> \<not> in_page a p)) \<and>
    (\<forall>p \<in> owned. \<exists>k'. kfree kend p k = Inr k')"
proof -
  note ok = kmem_run_ok [OF assms]
  obtain p k' where p: "kalloc k = (p, k')" by fastforce
  have owned: "owned \<subseteq> pages kend" using ok unfolding kmem_ok_def by blast
  have "\<not> in_page a p" if "p \<in> pages kend" "p \<notin> owned" "q \<in> owned" "in_page a q" for a q
  proof
    assume "in_page a p"
    then have "in_page p q \<or> in_page q p" using that(4) by (auto simp: in_page_def)
    then have "p = q" using that(1,3) owned pages_disjoint [of p q] pages_disjoint [of q p] by (auto simp: pages_def)
    then show False using that(2,3) by simp
  qed
  then have "let p = fst (kalloc k) in
      if p = 0 then owned = pages kend
      else p \<in> pages kend \<and> p \<notin> owned \<and> (\<forall>a q. q \<in> owned \<and> in_page a q \<longrightarrow> \<not> in_page a p)"
    using kalloc_ok [OF ok p] p by (auto simp: Let_def split: if_splits)
  moreover have "\<forall>p \<in> owned. \<exists>k'. kfree kend p k = Inr k'" using kfree_ok [OF ok _ assms(2)] by blast
  ultimately show ?thesis by blast
qed

text \<open>With 2 pages after the kernel: one of them is allocated, and the other is then given.\<close>

theorem kalloc_gives_free_pages_witness:
  "let kend = PHYSTOP - 8192; k = (case kinit kend \<lparr>mem = \<lambda>_. 0, freelist = 0\<rparr> of Inr k \<Rightarrow> k);
       (p, k1) = kalloc k
   in p = PHYSTOP - 4096 \<and> fst (kalloc k1) = PHYSTOP - 8192 \<and>
     (\<forall>p \<in> {PHYSTOP - 4096}. \<exists>k'. kfree kend p k1 = Inr k')"
proof -
  define kend where "kend = PHYSTOP - 8192"
  define k where "k = (case kinit kend \<lparr>mem = \<lambda>_. 0, freelist = 0\<rparr> of Inr k \<Rightarrow> k)"
  have kend: "0 < kend" by (simp add: kend_def PHYSTOP_def KERNBASE_def)
  obtain p k1 where p: "kalloc k = (p, k1)" by fastforce
  have "kinit kend \<lparr>mem = \<lambda>_. 0, freelist = 0\<rparr> = Inr k"
    using kinit_ok [OF kend, of "\<lparr>mem = \<lambda>_. 0, freelist = 0\<rparr>"] by (auto simp: k_def)
  moreover have "p = PHYSTOP - 4096 \<and> fst (kalloc k1) = PHYSTOP - 8192"
  proof -
    have "fst (kalloc k) = PHYSTOP - 4096 \<and> fst (kalloc (snd (kalloc k))) = PHYSTOP - 8192"
      by (simp add: k_def kend_def kinit_def freerange_def PGROUNDUP_def PGSIZE_def PHYSTOP_def
          KERNBASE_def free_pages.simps kfree_def kalloc_def fill_page_def Let_def)
    then show ?thesis by (simp add: p)
  qed
  ultimately have "kmem_run kend k1 {PHYSTOP - 4096}"
    using p by (auto intro: allocs [OF boots, of _ _ k] simp: PHYSTOP_def KERNBASE_def)
  from kalloc_gives_free_pages [OF this kend] show ?thesis
    using \<open>p = _ \<and> _\<close> p by (simp add: kend_def [symmetric] k_def [symmetric] Let_def)
qed

end
