(* ===== verification/XvVm.thy ===== *)
theory XvVm
  imports Bytes XvKalloc
begin

unbundle bit_operations_syntax

text \<open>
  Page tables (\<open>vm.c\<close>) over the page allocator of \<open>XvKalloc\<close>, in the same physical memory: an entry is a
  word of 8 bytes at its address. Virtual addresses are words of 64 bits, physical addresses numbers. What
  walks, maps, unmaps or copies returns \<open>Inl\<close> for a panic, and -1 or no address for an error.
\<close>

section \<open>Entries and addresses\<close>

definition PTE_V :: "64 word" where "PTE_V = 1"
definition PTE_R :: "64 word" where "PTE_R = 2"
definition PTE_W :: "64 word" where "PTE_W = 4"
definition PTE_X :: "64 word" where "PTE_X = 8"
definition PTE_U :: "64 word" where "PTE_U = 16"

definition MAXVA :: "64 word" where "MAXVA = push_bit (9 + 9 + 9 + 12 - 1) 1"

definition PA2PTE :: "nat \<Rightarrow> 64 word" where "PA2PTE pa = push_bit 10 (drop_bit 12 (of_nat pa))"
definition PTE2PA :: "64 word \<Rightarrow> nat" where "PTE2PA pte = unat (push_bit 12 (drop_bit 10 pte))"
definition PTE_FLAGS :: "64 word \<Rightarrow> 64 word" where "PTE_FLAGS pte = pte AND 0x3FF"

definition PX :: "nat \<Rightarrow> 64 word \<Rightarrow> nat" where
  "PX level va = unat (drop_bit (12 + 9 * level) va AND 0x1FF)"

definition PGROUNDDOWN :: "64 word \<Rightarrow> 64 word" where "PGROUNDDOWN a = a AND NOT 4095"
definition PGROUNDUP64 :: "64 word \<Rightarrow> 64 word" where "PGROUNDUP64 sz = (sz + 4095) AND NOT 4095"

definition on :: "64 word \<Rightarrow> 64 word \<Rightarrow> bool" where "on pte f \<longleftrightarrow> pte AND f \<noteq> 0"

text \<open>Memory: the word at an address, and the bytes of the words.\<close>

definition load :: "nat \<Rightarrow> kmem \<Rightarrow> 64 word" where "load a k = of_nat (mem k a)"

definition store :: "nat \<Rightarrow> 64 word \<Rightarrow> kmem \<Rightarrow> kmem" where
  "store a w k = k\<lparr>mem := (mem k)(a := unat w)\<rparr>"

definition load_byte :: "nat \<Rightarrow> kmem \<Rightarrow> byte" where
  "load_byte a k = ucast (drop_bit (8 * (a mod 8)) (load (a - a mod 8) k))"

definition store_byte :: "nat \<Rightarrow> byte \<Rightarrow> kmem \<Rightarrow> kmem" where
  "store_byte a b k =
     store (a - a mod 8) (load (a - a mod 8) k AND NOT (push_bit (8 * (a mod 8)) 0xFF) OR push_bit (8 * (a mod 8)) (ucast b)) k"

fun store_bytes :: "nat \<Rightarrow> byte list \<Rightarrow> kmem \<Rightarrow> kmem" where
  "store_bytes a [] k = k"
| "store_bytes a (b # bs) k = store_bytes (a + 1) bs (store_byte a b k)"

definition load_bytes :: "nat \<Rightarrow> nat \<Rightarrow> kmem \<Rightarrow> byte list" where
  "load_bytes a n k = map (\<lambda>i. load_byte (a + i) k) [0..<n]"

definition set_page :: "nat \<Rightarrow> nat \<Rightarrow> kmem \<Rightarrow> kmem" where
  "set_page b pa k = k\<lparr>mem := fill_page b pa (mem k)\<rparr>"

definition copy_page :: "nat \<Rightarrow> nat \<Rightarrow> kmem \<Rightarrow> kmem" where
  "copy_page dst src k = k\<lparr>mem := (\<lambda>a. if dst \<le> a \<and> a < dst + PGSIZE then mem k (a - dst + src) else mem k a)\<rparr>"

section \<open>Operations\<close>

text \<open>The loop of \<open>walk\<close>: the address of the entry of level 0, none when a table is missing.\<close>

fun walk_level :: "bool \<Rightarrow> 64 word \<Rightarrow> nat \<Rightarrow> nat \<Rightarrow> kmem \<Rightarrow> nat option \<times> kmem" where
  "walk_level alloc va 0 pt k = (Some (pt + 8 * PX 0 va), k)"
| "walk_level alloc va (Suc level) pt k =
     (let pte = pt + 8 * PX (Suc level) va in
      if on (load pte k) PTE_V then walk_level alloc va level (PTE2PA (load pte k)) k
      else if \<not> alloc then (None, k)
      else case kalloc k of (page, k) \<Rightarrow>
        if page = 0 then (None, k)
        else walk_level alloc va level page (store pte (PA2PTE page OR PTE_V) (set_page 0 page k)))"

definition walk :: "nat \<Rightarrow> 64 word \<Rightarrow> bool \<Rightarrow> kmem \<Rightarrow> string + nat option \<times> kmem" where
  "walk pt va alloc k = (if va \<ge> MAXVA then Inl ''walk'' else Inr (walk_level alloc va 2 pt k))"

definition walkaddr :: "nat \<Rightarrow> 64 word \<Rightarrow> kmem \<Rightarrow> nat" where
  "walkaddr pt va k =
     (case walk pt va False k of
        Inl e \<Rightarrow> 0
      | Inr (None, k) \<Rightarrow> 0
      | Inr (Some pte, k) \<Rightarrow>
          if \<not> on (load pte k) PTE_V then 0 else if \<not> on (load pte k) PTE_U then 0 else PTE2PA (load pte k))"

lemma page_above:
  assumes "\<not> a \<ge> MAXVA" shows "2 ^ 38 - unat (a + 4096) < 2 ^ 38 - unat a" "unat (a + 4096) = unat a + 4096"
proof -
  have l: "unat a < 2 ^ 38" using assms by (simp add: MAXVA_def word_le_nat_alt)
  then have "unat (a + 4096) = unat a + unat (4096 :: 64 word)"
    by (intro unat_add_lem [THEN iffD1]) simp
  then show "unat (a + 4096) = unat a + 4096" "2 ^ 38 - unat (a + 4096) < 2 ^ 38 - unat a" using l by simp_all
qed

lemma walk_below: "walk pt va alloc k = Inr r \<Longrightarrow> \<not> va \<ge> MAXVA"
  by (simp add: walk_def split: if_splits)

function mappages_loop :: "nat \<Rightarrow> 64 word \<Rightarrow> 64 word \<Rightarrow> nat \<Rightarrow> 64 word \<Rightarrow> kmem \<Rightarrow> string + int \<times> kmem" where
  "mappages_loop pt a final pa perm k =
     (case walk pt a True k of
        Inl e \<Rightarrow> Inl e
      | Inr (None, k) \<Rightarrow> Inr (-1, k)
      | Inr (Some pte, k) \<Rightarrow>
          if on (load pte k) PTE_V then Inl ''mappages: remap''
          else let k = store pte (PA2PTE pa OR perm OR PTE_V) k in
            if a = final then Inr (0, k) else mappages_loop pt (a + 4096) final (pa + PGSIZE) perm k)"
  by pat_completeness auto
termination
  by (relation "measure (\<lambda>(pt, a, final, pa, perm, k). 2 ^ 38 - unat a)") (auto dest!: walk_below page_above(1))

definition mappages :: "nat \<Rightarrow> 64 word \<Rightarrow> 64 word \<Rightarrow> nat \<Rightarrow> 64 word \<Rightarrow> kmem \<Rightarrow> string + int \<times> kmem" where
  "mappages pt va sz pa perm k =
     (if va mod 4096 \<noteq> 0 then Inl ''mappages: va not aligned''
      else if sz mod 4096 \<noteq> 0 then Inl ''mappages: size not aligned''
      else if sz = 0 then Inl ''mappages: size''
      else mappages_loop pt va (va + sz - 4096) pa perm k)"

definition uvmcreate :: "kmem \<Rightarrow> nat \<times> kmem" where
  "uvmcreate k = (case kalloc k of (pt, k) \<Rightarrow> if pt = 0 then (0, k) else (pt, set_page 0 pt k))"

text \<open>\<open>kend\<close> is the linker's \<open>end\<close>, which \<open>kfree\<close> checks.\<close>

function uvmunmap_loop :: "nat \<Rightarrow> nat \<Rightarrow> 64 word \<Rightarrow> 64 word \<Rightarrow> bool \<Rightarrow> kmem \<Rightarrow> string + kmem" where
  "uvmunmap_loop kend pt a e do_free k =
     (if a < e
      then (case walk pt a False k of
              Inl e \<Rightarrow> Inl e
            | Inr (None, k) \<Rightarrow> uvmunmap_loop kend pt (a + 4096) e do_free k
            | Inr (Some pte, k) \<Rightarrow>
                if \<not> on (load pte k) PTE_V then uvmunmap_loop kend pt (a + 4096) e do_free k
                else (case (if do_free then kfree kend (PTE2PA (load pte k)) k else Inr k) of
                        Inl e \<Rightarrow> Inl e
                      | Inr k \<Rightarrow> uvmunmap_loop kend pt (a + 4096) e do_free (store pte 0 k)))
      else Inr k)"
  by pat_completeness auto
termination
  by (relation "measure (\<lambda>(kend, pt, a, e, do_free, k). 2 ^ 38 - unat a)") (auto dest!: walk_below page_above(1))

definition uvmunmap :: "nat \<Rightarrow> nat \<Rightarrow> 64 word \<Rightarrow> 64 word \<Rightarrow> bool \<Rightarrow> kmem \<Rightarrow> string + kmem" where
  "uvmunmap kend pt va npages do_free k =
     (if va mod 4096 \<noteq> 0 then Inl ''uvmunmap: not aligned''
      else uvmunmap_loop kend pt va (va + npages * 4096) do_free k)"

text \<open>\<open>npages\<close> is an \<open>int\<close> in the code, made 64 bits wide by the call.\<close>

definition uvmdealloc :: "nat \<Rightarrow> nat \<Rightarrow> 64 word \<Rightarrow> 64 word \<Rightarrow> kmem \<Rightarrow> string + 64 word \<times> kmem" where
  "uvmdealloc kend pt oldsz newsz k =
     (if newsz \<ge> oldsz then Inr (oldsz, k)
      else if PGROUNDUP64 newsz < PGROUNDUP64 oldsz
      then let npages = ucast ((PGROUNDUP64 oldsz - PGROUNDUP64 newsz) div 4096) :: 32 word in
        (case uvmunmap kend pt (PGROUNDUP64 newsz) (scast npages) True k of
           Inl e \<Rightarrow> Inl e
         | Inr k \<Rightarrow> Inr (newsz, k))
      else Inr (newsz, k))"

lemma mappages_below: "mappages pt va sz pa perm k = Inr r \<Longrightarrow> \<not> va \<ge> MAXVA"
  unfolding mappages_def by (subst (asm) mappages_loop.simps) (auto dest: walk_below split: if_splits sum.splits)

text \<open>The loop of \<open>uvmalloc\<close>; \<open>oldsz\<close> is rounded up.\<close>

function uvmalloc_loop :: "nat \<Rightarrow> nat \<Rightarrow> 64 word \<Rightarrow> 64 word \<Rightarrow> 64 word \<Rightarrow> 64 word \<Rightarrow> kmem \<Rightarrow> string + 64 word \<times> kmem" where
  "uvmalloc_loop kend pt oldsz a newsz xperm k =
     (if a < newsz
      then (case kalloc k of (page, k) \<Rightarrow>
              if page = 0 then
                (case uvmdealloc kend pt a oldsz k of Inl e \<Rightarrow> Inl e | Inr (_, k) \<Rightarrow> Inr (0, k))
              else (case mappages pt a 4096 page (PTE_R OR PTE_U OR xperm) (set_page 0 page k) of
                      Inl e \<Rightarrow> Inl e
                    | Inr (r, k) \<Rightarrow>
                        if r \<noteq> 0 then
                          (case kfree kend page k of
                             Inl e \<Rightarrow> Inl e
                           | Inr k \<Rightarrow> (case uvmdealloc kend pt a oldsz k of Inl e \<Rightarrow> Inl e | Inr (_, k) \<Rightarrow> Inr (0, k)))
                        else uvmalloc_loop kend pt oldsz (a + 4096) newsz xperm k))
      else Inr (newsz, k))"
  by pat_completeness auto

termination
  by (relation "measure (\<lambda>(kend, pt, oldsz, a, newsz, xperm, k). 2 ^ 38 - unat a)") (auto dest!: mappages_below page_above(1))

definition uvmalloc :: "nat \<Rightarrow> nat \<Rightarrow> 64 word \<Rightarrow> 64 word \<Rightarrow> 64 word \<Rightarrow> kmem \<Rightarrow> string + 64 word \<times> kmem" where
  "uvmalloc kend pt oldsz newsz xperm k =
     (if newsz < oldsz then Inr (oldsz, k)
      else uvmalloc_loop kend pt (PGROUNDUP64 oldsz) (PGROUNDUP64 oldsz) newsz xperm k)"

text \<open>
  \<open>freewalk\<close> calls itself at every entry that points to a table. \<open>fuel\<close> bounds the depth; \<open>None\<close> means
  that the code goes deeper.
\<close>

fun freewalk_entries :: "(nat \<Rightarrow> kmem \<Rightarrow> (string + kmem) option) \<Rightarrow> nat \<Rightarrow> nat list \<Rightarrow> kmem \<Rightarrow> (string + kmem) option" where
  "freewalk_entries f pt [] k = Some (Inr k)"
| "freewalk_entries f pt (i # is) k =
     (let pte = load (pt + 8 * i) k in
      if on pte PTE_V \<and> \<not> on pte (PTE_R OR PTE_W OR PTE_X) then
        (case f (PTE2PA pte) k of
           Some (Inr k) \<Rightarrow> freewalk_entries f pt is (store (pt + 8 * i) 0 k)
         | r \<Rightarrow> r)
      else if on pte PTE_V then Some (Inl ''freewalk: leaf'')
      else freewalk_entries f pt is k)"

primrec freewalk :: "nat \<Rightarrow> nat \<Rightarrow> nat \<Rightarrow> kmem \<Rightarrow> (string + kmem) option" where
  "freewalk 0 kend pt k = None"
| "freewalk (Suc fuel) kend pt k =
     (case freewalk_entries (freewalk fuel kend) pt [0..<512] k of
        Some (Inr k) \<Rightarrow> Some (kfree kend pt k)
      | r \<Rightarrow> r)"

definition uvmfree :: "nat \<Rightarrow> nat \<Rightarrow> nat \<Rightarrow> 64 word \<Rightarrow> kmem \<Rightarrow> (string + kmem) option" where
  "uvmfree fuel kend pt sz k =
     (case (if sz > 0 then uvmunmap kend pt 0 (PGROUNDUP64 sz div 4096) True k else Inr k) of
        Inl e \<Rightarrow> Some (Inl e)
      | Inr k \<Rightarrow> freewalk fuel kend pt k)"

function uvmcopy_loop :: "nat \<Rightarrow> nat \<Rightarrow> nat \<Rightarrow> 64 word \<Rightarrow> 64 word \<Rightarrow> kmem \<Rightarrow> string + int \<times> kmem" where
  "uvmcopy_loop kend old new i sz k =
     (if i < sz
      then (case walk old i False k of
              Inl e \<Rightarrow> Inl e
            | Inr (None, k) \<Rightarrow> uvmcopy_loop kend old new (i + 4096) sz k
            | Inr (Some pte, k) \<Rightarrow>
                if \<not> on (load pte k) PTE_V then uvmcopy_loop kend old new (i + 4096) sz k
                else let pa = PTE2PA (load pte k); flags = PTE_FLAGS (load pte k) in
                  (case kalloc k of (page, k) \<Rightarrow>
                    if page = 0 then
                      (case uvmunmap kend new 0 (i div 4096) True k of Inl e \<Rightarrow> Inl e | Inr k \<Rightarrow> Inr (-1, k))
                    else (case mappages new i 4096 page flags (copy_page page pa k) of
                            Inl e \<Rightarrow> Inl e
                          | Inr (r, k) \<Rightarrow>
                              if r \<noteq> 0 then
                                (case kfree kend page k of
                                   Inl e \<Rightarrow> Inl e
                                 | Inr k \<Rightarrow> (case uvmunmap kend new 0 (i div 4096) True k of Inl e \<Rightarrow> Inl e | Inr k \<Rightarrow> Inr (-1, k)))
                              else uvmcopy_loop kend old new (i + 4096) sz k)))
      else Inr (0, k))"
  by pat_completeness auto
termination
  by (relation "measure (\<lambda>(kend, old, new, i, sz, k). 2 ^ 38 - unat i)") (auto dest!: walk_below page_above(1))

definition uvmcopy :: "nat \<Rightarrow> nat \<Rightarrow> nat \<Rightarrow> 64 word \<Rightarrow> kmem \<Rightarrow> string + int \<times> kmem" where
  "uvmcopy kend old new sz k = uvmcopy_loop kend old new 0 sz k"

definition uvmclear :: "nat \<Rightarrow> 64 word \<Rightarrow> kmem \<Rightarrow> string + kmem" where
  "uvmclear pt va k =
     (case walk pt va False k of
        Inl e \<Rightarrow> Inl e
      | Inr (None, k) \<Rightarrow> Inl ''uvmclear''
      | Inr (Some pte, k) \<Rightarrow> Inr (store pte (load pte k AND NOT PTE_U) k))"

definition ismapped :: "nat \<Rightarrow> 64 word \<Rightarrow> kmem \<Rightarrow> string + bool" where
  "ismapped pt va k =
     (case walk pt va False k of
        Inl e \<Rightarrow> Inl e
      | Inr (None, k) \<Rightarrow> Inr False
      | Inr (Some pte, k) \<Rightarrow> Inr (on (load pte k) PTE_V))"

text \<open>The process that runs: its page table and its size.\<close>

record uproc =
  pagetable :: nat
  psize :: "64 word"

definition vmfault :: "nat \<Rightarrow> uproc \<Rightarrow> nat \<Rightarrow> 64 word \<Rightarrow> kmem \<Rightarrow> string + nat \<times> kmem" where
  "vmfault kend p pt va k =
     (if va \<ge> psize p then Inr (0, k)
      else let va = PGROUNDDOWN va in
        (case ismapped pt va k of
           Inl e \<Rightarrow> Inl e
         | Inr True \<Rightarrow> Inr (0, k)
         | Inr False \<Rightarrow>
             (case kalloc k of (page, k) \<Rightarrow>
               if page = 0 then Inr (0, k)
               else (case mappages (pagetable p) va 4096 page (PTE_W OR PTE_U OR PTE_R) (set_page 0 page k) of
                       Inl e \<Rightarrow> Inl e
                     | Inr (r, k) \<Rightarrow>
                         if r \<noteq> 0 then (case kfree kend page k of Inl e \<Rightarrow> Inl e | Inr k \<Rightarrow> Inr (0, k))
                         else Inr (page, k)))))"

lemma page_offset: "unat (a - PGROUNDDOWN a) < 4096"
proof -
  have "a - PGROUNDDOWN a = a AND 4095"
  proof -
    have "(a AND NOT 4095) + (a AND 4095) = (a AND NOT 4095) OR (a AND 4095)"
      by (rule disjunctive_add) (auto simp: bit_simps)
    also have "\<dots> = a" by (rule bit_word_eqI) (auto simp: bit_simps)
    finally show ?thesis unfolding PGROUNDDOWN_def by (metis add_diff_cancel_left')
  qed
  moreover have "a AND 4095 = take_bit 12 a" by (simp add: take_bit_eq_mask mask_eq_exp_minus_1)
  ultimately show ?thesis by (simp add: unsigned_take_bit_eq take_bit_nat_less_exp [of 12, simplified])
qed

text \<open>
  The address of page 0 for a virtual address, after a page fault if need be; 0 when there is none.
\<close>

definition fault_in :: "nat \<Rightarrow> uproc \<Rightarrow> nat \<Rightarrow> 64 word \<Rightarrow> kmem \<Rightarrow> string + nat \<times> kmem" where
  "fault_in kend p pt va0 k =
     (let pa0 = walkaddr pt va0 k in if pa0 = 0 then vmfault kend p pt va0 k else Inr (pa0, k))"

text \<open>An entry that is missing after the fault would be read through a null pointer: a trap in the kernel.\<close>

function copyout :: "nat \<Rightarrow> uproc \<Rightarrow> nat \<Rightarrow> 64 word \<Rightarrow> byte list \<Rightarrow> kmem \<Rightarrow> string + int \<times> kmem" where
  "copyout kend p pt dstva src k =
     (if src = [] then Inr (0, k)
      else let va0 = PGROUNDDOWN dstva in
        if va0 \<ge> MAXVA then Inr (-1, k)
        else (case fault_in kend p pt va0 k of
                Inl e \<Rightarrow> Inl e
              | Inr (pa0, k) \<Rightarrow>
                  if pa0 = 0 then Inr (-1, k)
                  else (case walk pt va0 False k of
                          Inl e \<Rightarrow> Inl e
                        | Inr (None, k) \<Rightarrow> Inl ''kerneltrap''
                        | Inr (Some pte, k) \<Rightarrow>
                            if \<not> on (load pte k) PTE_W then Inr (-1, k)
                            else let off = unat (dstva - va0); n = min (PGSIZE - off) (length src) in
                              copyout kend p pt (va0 + 4096) (drop n src) (store_bytes (pa0 + off) (take n src) k))))"
  by pat_completeness auto
termination
  by (relation "measure (\<lambda>(kend, p, pt, dstva, src, k). length src)")
    (use page_offset in \<open>auto simp: PGSIZE_def min_def not_le\<close>)

text \<open>What \<open>copyin\<close> stores in the kernel comes back as a list of bytes, also when it fails half way.\<close>

function copyin :: "nat \<Rightarrow> uproc \<Rightarrow> nat \<Rightarrow> 64 word \<Rightarrow> nat \<Rightarrow> kmem \<Rightarrow> string + int \<times> byte list \<times> kmem" where
  "copyin kend p pt srcva n k =
     (if n = 0 then Inr (0, [], k)
      else let va0 = PGROUNDDOWN srcva in
        (case fault_in kend p pt va0 k of
           Inl e \<Rightarrow> Inl e
         | Inr (pa0, k) \<Rightarrow>
             if pa0 = 0 then Inr (-1, [], k)
             else let off = unat (srcva - va0); m = min (PGSIZE - off) n; bs = load_bytes (pa0 + off) m k in
               (case copyin kend p pt (va0 + 4096) (n - m) k of
                  Inl e \<Rightarrow> Inl e
                | Inr (r, cs, k) \<Rightarrow> Inr (r, bs @ cs, k))))"
  by pat_completeness auto
termination
  by (relation "measure (\<lambda>(kend, p, pt, srcva, n, k). n)") (use page_offset in \<open>auto simp: PGSIZE_def min_def not_le\<close>)

text \<open>\<open>copyinstr\<close>: the inner loop stops at the NUL, which it stores.\<close>

function copyinstr :: "nat \<Rightarrow> 64 word \<Rightarrow> nat \<Rightarrow> kmem \<Rightarrow> int \<times> byte list" where
  "copyinstr pt srcva max_len k =
     (if max_len = 0 then (-1, [])
      else let va0 = PGROUNDDOWN srcva; pa0 = walkaddr pt va0 k in
        if pa0 = 0 then (-1, [])
        else let off = unat (srcva - va0); n = min (PGSIZE - off) max_len;
                 bs = takeWhile (\<lambda>b. b \<noteq> 0) (load_bytes (pa0 + off) n k) in
          if length bs < n then (0, bs @ [0])
          else (case copyinstr pt (va0 + 4096) (max_len - n) k of (r, cs) \<Rightarrow> (r, bs @ cs)))"
  by pat_completeness auto
termination
  by (relation "measure (\<lambda>(pt, srcva, max_len, k). max_len)") (use page_offset in \<open>auto simp: PGSIZE_def min_def not_le\<close>)

declare walk_level.simps [simp del] mappages_loop.simps [simp del] uvmunmap_loop.simps [simp del] uvmalloc_loop.simps [simp del]
  uvmcopy_loop.simps [simp del] copyout.simps [simp del] copyin.simps [simp del] copyinstr.simps [simp del]

section \<open>Processes\<close>

definition TRAMPOLINE :: "64 word" where "TRAMPOLINE = MAXVA - 4096"
definition TRAPFRAME :: "64 word" where "TRAPFRAME = TRAMPOLINE - 4096"
definition KSTACK :: "nat \<Rightarrow> 64 word" where "KSTACK p = TRAMPOLINE - (of_nat p + 1) * 2 * 4096"

definition growproc :: "nat \<Rightarrow> uproc \<Rightarrow> 32 word \<Rightarrow> kmem \<Rightarrow> string + int \<times> uproc \<times> kmem" where
  "growproc kend p n k =
     (let sz = psize p in
      if sint n > 0 then
        if sz + scast n > TRAPFRAME then Inr (-1, p, k)
        else (case uvmalloc kend (pagetable p) sz (sz + scast n) PTE_W k of
                Inl e \<Rightarrow> Inl e
              | Inr (sz, k) \<Rightarrow> if sz = 0 then Inr (-1, p, k) else Inr (0, p\<lparr>psize := sz\<rparr>, k))
      else if sint n < 0 then
        (case uvmdealloc kend (pagetable p) sz (sz + scast n) k of
           Inl e \<Rightarrow> Inl e
         | Inr (sz, k) \<Rightarrow> Inr (0, p\<lparr>psize := sz\<rparr>, k))
      else Inr (0, p, k))"

text \<open>\<open>sbrk\<close>: with \<open>eager\<close> as the second argument or a negative size it allocates or frees at once.\<close>

definition sys_sbrk :: "nat \<Rightarrow> uproc \<Rightarrow> 32 word \<Rightarrow> bool \<Rightarrow> kmem \<Rightarrow> string + 64 word \<times> uproc \<times> kmem" where
  "sys_sbrk kend p n eager k =
     (let addr = psize p in
      if eager \<or> sint n < 0 then
        (case growproc kend p n k of
           Inl e \<Rightarrow> Inl e
         | Inr (r, p, k) \<Rightarrow> Inr (if r < 0 then -1 else addr, p, k))
      else if addr + scast n < addr then Inr (-1, p, k)
      else if addr + scast n > TRAPFRAME then Inr (-1, p, k)
      else Inr (addr, p\<lparr>psize := addr + scast n\<rparr>, k))"

text \<open>
  \<open>proc_pagetable\<close>, with the physical addresses of the trampoline and the trap frame. A page table of 0 is
  the error.
\<close>

definition proc_pagetable :: "nat \<Rightarrow> nat \<Rightarrow> nat \<Rightarrow> nat \<Rightarrow> kmem \<Rightarrow> (string + nat \<times> kmem) option" where
  "proc_pagetable fuel kend trampoline trapframe k =
     (case uvmcreate k of (pt, k) \<Rightarrow>
      if pt = 0 then Some (Inr (0, k))
      else let free = (\<lambda>k. case uvmfree fuel kend pt 0 k of
              Some (Inr k) \<Rightarrow> Some (Inr (0, k)) | Some (Inl e) \<Rightarrow> Some (Inl e) | None \<Rightarrow> None) in
        (case mappages pt TRAMPOLINE 4096 trampoline (PTE_R OR PTE_X) k of
           Inl e \<Rightarrow> Some (Inl e)
         | Inr (r, k) \<Rightarrow>
             if r < 0 then free k
             else (case mappages pt TRAPFRAME 4096 trapframe (PTE_R OR PTE_W) k of
                     Inl e \<Rightarrow> Some (Inl e)
                   | Inr (r, k) \<Rightarrow>
                       if r < 0 then
                         (case uvmunmap kend pt TRAMPOLINE 1 False k of
                            Inl e \<Rightarrow> Some (Inl e)
                          | Inr k \<Rightarrow> free k)
                       else Some (Inr (pt, k)))))"

definition proc_freepagetable :: "nat \<Rightarrow> nat \<Rightarrow> nat \<Rightarrow> 64 word \<Rightarrow> kmem \<Rightarrow> (string + kmem) option" where
  "proc_freepagetable fuel kend pt sz k =
     (case uvmunmap kend pt TRAMPOLINE 1 False k of
        Inl e \<Rightarrow> Some (Inl e)
      | Inr k \<Rightarrow>
          (case uvmunmap kend pt TRAPFRAME 1 False k of
             Inl e \<Rightarrow> Some (Inl e)
           | Inr k \<Rightarrow> uvmfree fuel kend pt sz k))"

section \<open>The page table of the kernel\<close>

definition kvmmap :: "nat \<Rightarrow> 64 word \<Rightarrow> nat \<Rightarrow> 64 word \<Rightarrow> 64 word \<Rightarrow> kmem \<Rightarrow> string + kmem" where
  "kvmmap kpgtbl va pa sz perm k =
     (case mappages kpgtbl va sz pa perm k of
        Inl e \<Rightarrow> Inl e
      | Inr (r, k) \<Rightarrow> if r \<noteq> 0 then Inl ''kvmmap'' else Inr k)"

fun kvmmaps :: "nat \<Rightarrow> (64 word \<times> nat \<times> 64 word \<times> 64 word) list \<Rightarrow> kmem \<Rightarrow> string + kmem" where
  "kvmmaps kpgtbl [] k = Inr k"
| "kvmmaps kpgtbl ((va, pa, sz, perm) # ms) k =
     (case kvmmap kpgtbl va pa sz perm k of Inl e \<Rightarrow> Inl e | Inr k \<Rightarrow> kvmmaps kpgtbl ms k)"

fun proc_mapstacks :: "nat \<Rightarrow> nat list \<Rightarrow> kmem \<Rightarrow> string + kmem" where
  "proc_mapstacks kpgtbl [] k = Inr k"
| "proc_mapstacks kpgtbl (p # ps) k =
     (case kalloc k of (pa, k) \<Rightarrow>
      if pa = 0 then Inl ''kalloc''
      else (case kvmmap kpgtbl (KSTACK p) pa 4096 (PTE_R OR PTE_W) k of
              Inl e \<Rightarrow> Inl e
            | Inr k \<Rightarrow> proc_mapstacks kpgtbl ps k))"

definition UART0 :: nat where "UART0 = 0x10000000"
definition VIRTIO0 :: nat where "VIRTIO0 = 0x10001000"
definition PLIC :: nat where "PLIC = 0x0c000000"
definition NPROC :: nat where "NPROC = 64"

text \<open>The first page is not checked: without memory the code clears address 0, where there is none.\<close>

definition kvmmake :: "nat \<Rightarrow> nat \<Rightarrow> kmem \<Rightarrow> string + nat \<times> kmem" where
  "kvmmake etext trampoline k =
     (case kalloc k of (kpgtbl, k) \<Rightarrow>
      if kpgtbl = 0 then Inl ''kerneltrap''
      else (case kvmmaps kpgtbl
              [(of_nat UART0, UART0, 4096, PTE_R OR PTE_W), (of_nat VIRTIO0, VIRTIO0, 4096, PTE_R OR PTE_W),
               (of_nat PLIC, PLIC, 0x4000000, PTE_R OR PTE_W),
               (of_nat KERNBASE, KERNBASE, of_nat etext - of_nat KERNBASE, PTE_R OR PTE_X),
               (of_nat etext, etext, of_nat PHYSTOP - of_nat etext, PTE_R OR PTE_W),
               (TRAMPOLINE, trampoline, 4096, PTE_R OR PTE_X)] (set_page 0 kpgtbl k) of
         Inl e \<Rightarrow> Inl e
       | Inr k \<Rightarrow> (case proc_mapstacks kpgtbl [0..<NPROC] k of Inl e \<Rightarrow> Inl e | Inr k \<Rightarrow> Inr (kpgtbl, k))))"

section \<open>The page table as a tree\<close>

lemma on_V: "on e PTE_V \<longleftrightarrow> bit e 0"
  by (simp add: on_def PTE_V_def bit_iff_odd_drop_bit and_one_eq odd_iff_mod_2_eq_one) 

lemma on_valid [simp]: "on (e OR PTE_V) PTE_V" "on (e OR f OR PTE_V) PTE_V"
  unfolding on_V by (simp_all add: bit_simps PTE_V_def)

lemma PTE2PA_pte:
  assumes p: "p mod PGSIZE = 0" "p < 2 ^ 64" and f: "f AND NOT 0x3FF = 0"
  shows "PTE2PA (PA2PTE p OR f) = p"
proof -
  obtain q where "p = 2 ^ 12 * q" using p(1) by (auto simp: PGSIZE_def)
  then have "p = push_bit 12 q" by (simp add: push_bit_eq_mult)
  then have b: "\<not> bit (of_nat p :: 64 word) n" if "n < 12" for n
    using that by (simp add: bit_of_nat_iff bit_push_bit_iff)
  have "f = f AND mask 10"
  proof (rule bit_word_eqI)
    fix n assume "n < LENGTH(64)"
    have "\<not> bit (f AND NOT (mask 10)) n" using f by (simp add: mask_eq_exp_minus_1)
    then show "bit f n \<longleftrightarrow> bit (f AND mask 10) n" using \<open>n < LENGTH(64)\<close> by (auto simp: bit_simps)
  qed
  then have f: "bit f n \<Longrightarrow> n < 10" for n by (metis bit_and_iff bit_mask_iff)
  have "push_bit 12 (drop_bit 10 (PA2PTE p OR f)) = of_nat p"
  proof (rule bit_word_eqI)
    fix n assume n: "n < LENGTH(64)"
    show "bit (push_bit 12 (drop_bit 10 (PA2PTE p OR f))) n \<longleftrightarrow> bit (of_nat p :: 64 word) n"
    proof (cases "n < 12")
      case False
      then have "\<not> bit f (n - 2)" using f [of "n - 2"] by auto
      moreover have "10 + (n - 12) = n - 2" "12 + (n - 2 - 10) = n" using False by simp_all
      ultimately show ?thesis using False n by (auto simp: PA2PTE_def bit_simps)
    qed (use b in \<open>simp add: bit_simps\<close>)
  qed
  then show ?thesis using p(2) by (simp add: PTE2PA_def unsigned_of_nat take_bit_nat_eq_self)
qed

lemma load_store [simp]: "load a (store b w k) = (if a = b then w else load a k)"
  by (simp add: load_def store_def)

lemma store_freelist [simp]: "freelist (store b w k) = freelist k"
  by (simp add: store_def)

lemma load_set_page: "load a (set_page 0 p k) = (if in_page a p then 0 else load a k)"
  by (simp add: load_def set_page_def fill_page_def in_page_def)

lemma load_cong: "mem k' a = mem k a \<Longrightarrow> load a k' = load a k"
  by (simp add: load_def)

lemma PX_bound [simp]: "PX l va < 512"
proof -
  have "drop_bit (12 + 9 * l) va AND 0x1FF = take_bit 9 (drop_bit (12 + 9 * l) va)"
    by (simp add: take_bit_eq_mask mask_eq_exp_minus_1)
  then show ?thesis using take_bit_nat_less_exp [of 9] by (simp add: PX_def unsigned_take_bit_eq)
qed

lemma pages_apart:
  assumes "p mod PGSIZE = 0" "q mod PGSIZE = 0" "in_page b p" "in_page b q" shows "p = q"
proof -
  have "in_page p q \<or> in_page q p" using assms(3,4) by (auto simp: in_page_def)
  then show ?thesis using pages_disjoint [OF assms(1,2)] pages_disjoint [OF assms(2,1)] by auto
qed

lemma in_table_page:
  assumes "p mod PGSIZE = 0" "q mod PGSIZE = 0" "i < 512" shows "in_page (p + 8 * i) q \<longleftrightarrow> p = q"
proof
  assume "in_page (p + 8 * i) q"
  moreover have "in_page (p + 8 * i) p" using assms(3) by (simp add: in_page_def PGSIZE_def)
  ultimately show "p = q" using pages_apart [OF assms(1,2)] by blast
qed (use assms in \<open>simp add: in_page_def PGSIZE_def\<close>)

lemma same_entry:
  assumes "p mod PGSIZE = 0" "q mod PGSIZE = 0" "i < 512" "j < 512" "p + 8 * i = q + 8 * j"
  shows "p = q \<and> i = j"
  using in_table_page [OF assms(1-3)] in_table_page [OF assms(2,2,4)] assms(5) by simp

text \<open>The table page that a list of indices leads to.\<close>

fun node :: "kmem \<Rightarrow> nat \<Rightarrow> nat list \<Rightarrow> nat option" where
  "node k p [] = Some p"
| "node k p (i # is) = (if on (load (p + 8 * i) k) PTE_V then node k (PTE2PA (load (p + 8 * i) k)) is else None)"

definition inner :: "nat list \<Rightarrow> bool" where
  "inner is \<longleftrightarrow> length is \<le> 2 \<and> (\<forall>i \<in> set is. i < 512)"

definition table :: "kmem \<Rightarrow> nat \<Rightarrow> nat set" where
  "table k pt = {p. \<exists>is. inner is \<and> node k pt is = Some p}"

definition route :: "64 word \<Rightarrow> nat list" where
  "route va = [PX 2 va, PX 1 va]"

text \<open>What the hardware sees: the valid entry for an address.\<close>

definition view :: "kmem \<Rightarrow> nat \<Rightarrow> 64 word \<rightharpoonup> 64 word" where
  "view k pt va = (case node k pt (route va) of
      None \<Rightarrow> None
    | Some p \<Rightarrow> if on (load (p + 8 * PX 0 va) k) PTE_V then Some (load (p + 8 * PX 0 va) k) else None)"

text \<open>A tree: no page is reached in two ways; its pages belong to their owner.\<close>

definition pt_ok :: "nat \<Rightarrow> kmem \<Rightarrow> nat \<Rightarrow> nat set \<Rightarrow> bool" where
  "pt_ok kend k pt owned \<longleftrightarrow> 0 < kend \<and> kmem_ok kend k owned \<and> table k pt \<subseteq> owned \<and>
     (\<forall>is js p. inner is \<and> inner js \<and> node k pt is = Some p \<and> node k pt js = Some p \<longrightarrow> is = js)"

lemma pt_okD:
  assumes "pt_ok kend k pt owned"
  shows "0 < kend" "kmem_ok kend k owned" "inner is \<Longrightarrow> node k pt is = Some p \<Longrightarrow> p \<in> owned"
    "inner is \<Longrightarrow> inner js \<Longrightarrow> node k pt is = Some p \<Longrightarrow> node k pt js = Some p \<Longrightarrow> is = js"
  using assms by (auto simp: pt_ok_def table_def)

lemma owned_page: "kmem_ok kend k owned \<Longrightarrow> p \<in> owned \<Longrightarrow> p \<in> pages kend"
  by (auto simp: kmem_ok_def)

lemma page_facts: "p \<in> pages kend \<Longrightarrow> p mod PGSIZE = 0" "p \<in> pages kend \<Longrightarrow> kend \<le> p" "p \<in> pages kend \<Longrightarrow> p < 2 ^ 64"
  by (auto simp: pages_def PHYSTOP_def KERNBASE_def PGSIZE_def)

lemma node_append: "node k p (xs @ ys) = (case node k p xs of None \<Rightarrow> None | Some q \<Rightarrow> node k q ys)"
  by (induction k p xs rule: node.induct) auto

lemma node_agree:
  assumes "\<And>xs x ys p. is = xs @ x # ys \<Longrightarrow> node k pt xs = Some p \<Longrightarrow> load (p + 8 * x) k' = load (p + 8 * x) k"
  shows "node k' pt is = node k pt is"
  using assms
proof (induction "is" arbitrary: pt)
  case (Cons i "is")
  have l: "load (pt + 8 * i) k' = load (pt + 8 * i) k" using Cons.prems [of "[]"] by simp
  show ?case
  proof (cases "on (load (pt + 8 * i) k) PTE_V")
    case True
    have "node k' (PTE2PA (load (pt + 8 * i) k)) is = node k (PTE2PA (load (pt + 8 * i) k)) is"
      by (rule Cons.IH) (use Cons.prems [of "i # xs" for xs] True in simp)
    then show ?thesis using l by simp
  qed (use l in simp)
qed simp

lemma inner_route [simp]: "inner (route va)" "inner []" "inner [PX 2 va]"
  by (auto simp: inner_def route_def)

lemma inner_append: "inner (xs @ ys) \<Longrightarrow> inner xs"
  by (auto simp: inner_def)

lemma inner_below:
  assumes ok: "pt_ok kend k pt owned" and i: "inner (xs @ x # ys)" "node k pt xs = Some p"
  shows "p \<in> owned" "p mod PGSIZE = 0" "x < 512" "length xs \<le> 1" "inner xs"
proof -
  show xs: "inner xs" "length xs \<le> 1" "x < 512" using i(1) by (auto simp: inner_def)
  show "p \<in> owned" by (rule pt_okD(3) [OF ok xs(1) i(2)])
  then show "p mod PGSIZE = 0" using page_facts(1) owned_page [OF pt_okD(2) [OF ok]] by blast
qed

text \<open>A change that touches no entry of an upper table leaves the tree as it is.\<close>

lemma tree_same:
  assumes s: "\<And>xs x p. inner (xs @ [x]) \<Longrightarrow> node k pt xs = Some p \<Longrightarrow>
      load (p + 8 * x) k' = load (p + 8 * x) k"
    and i: "inner is"
  shows "node k' pt is = node k pt is"
proof (rule node_agree)
  fix xs x ys p assume e: "is = xs @ x # ys" and n: "node k pt xs = Some p"
  have "inner (xs @ [x])" using inner_append [of "xs @ [x]" ys] i e by simp
  then show "load (p + 8 * x) k' = load (p + 8 * x) k" using s n by blast
qed

lemma table_same: "(\<And>is. inner is \<Longrightarrow> node k' pt is = node k pt is) \<Longrightarrow> table k' pt = table k pt"
  by (auto simp: table_def)

lemma pt_ok_same:
  assumes ok: "pt_ok kend k pt owned" and n: "\<And>is. inner is \<Longrightarrow> node k' pt is = node k pt is"
    and o: "kmem_ok kend k' owned'" "table k pt \<subseteq> owned'"
  shows "pt_ok kend k' pt owned'"
proof -
  have "is = js" if "inner is" "inner js" "node k' pt is = Some p" "node k' pt js = Some p" for "is" js p
    using pt_okD(4) [OF ok that(1,2)] that n by metis
  moreover have "table k' pt = table k pt" by (rule table_same) (rule n)
  ultimately show ?thesis using pt_okD(1) [OF ok] o unfolding pt_ok_def by metis
qed

text \<open>Storing an entry of level 0.\<close>

lemma leaf_store:
  fixes w :: "64 word"
  assumes ok: "pt_ok kend k pt owned" and p: "node k pt (route va) = Some p"
  defines "k' \<equiv> store (p + 8 * PX 0 va) w k"
  shows "inner is \<Longrightarrow> node k' pt is = node k pt is" "pt_ok kend k' pt owned"
    "route va' = route va \<Longrightarrow> PX 0 va' = PX 0 va \<Longrightarrow> view k' pt va' = (if on w PTE_V then Some w else None)"
    "\<not> (route va' = route va \<and> PX 0 va' = PX 0 va) \<Longrightarrow> view k' pt va' = view k pt va'"
proof -
  note P = pt_okD(3) [OF ok inner_route(1) p]
  note pg = page_facts(1) [OF owned_page [OF pt_okD(2) [OF ok] P]]
  have n: "node k' pt is = node k pt is" if "inner is" for "is"
  proof (rule tree_same [OF _ that])
    fix xs x q assume i: "inner (xs @ [x])" "node k pt xs = Some q"
    note I = inner_below [OF ok i]
    have "q \<noteq> p" using pt_okD(4) [OF ok I(5) inner_route(1) i(2)] p I(4) by (auto simp: route_def)
    then have "p + 8 * PX 0 va \<noteq> q + 8 * x" using same_entry [OF pg I(2) PX_bound I(3)] by blast
    then show "load (q + 8 * x) k' = load (q + 8 * x) k" by (simp add: k'_def)
  qed
  then show "inner is \<Longrightarrow> node k' pt is = node k pt is" by blast
  have "in_page (p + 8 * PX 0 va) p" using in_table_page [OF pg pg PX_bound] by simp
  then have "kmem_ok kend k' owned" unfolding k'_def store_def
    by (intro kmem_ok_write [OF pt_okD(2) [OF ok]]) (use P in auto)
  then show "pt_ok kend k' pt owned" using pt_ok_same [OF ok n] ok by (simp add: pt_ok_def)
  show "view k' pt va' = (if on w PTE_V then Some w else None)" if "route va' = route va" "PX 0 va' = PX 0 va"
    using n [OF inner_route(1)] p that by (simp add: view_def k'_def)
  show "view k' pt va' = view k pt va'" if d: "\<not> (route va' = route va \<and> PX 0 va' = PX 0 va)"
  proof (cases "node k pt (route va')")
    case None
    then show ?thesis using n [OF inner_route(1), of va'] by (simp add: view_def)
  next
    case (Some q)
    have qo: "q mod PGSIZE = 0"
      using pt_okD(3) [OF ok inner_route(1) Some] owned_page [OF pt_okD(2) [OF ok]] page_facts(1) by blast
    have "p + 8 * PX 0 va \<noteq> q + 8 * PX 0 va'"
    proof
      assume "p + 8 * PX 0 va = q + 8 * PX 0 va'"
      then have e: "p = q" "PX 0 va = PX 0 va'" using same_entry [OF pg qo PX_bound PX_bound] by auto
      then show False using pt_okD(4) [OF ok inner_route(1) inner_route(1) p, of va'] Some d by auto
    qed
    then show ?thesis using n [OF inner_route(1), of va'] Some by (simp add: view_def k'_def)
  qed
qed

text \<open>A new, empty table at an entry that is not valid.\<close>

lemma extend:
  assumes ok: "pt_ok kend k pt owned" and p: "node k pt xs = Some p" "inner (xs @ [x])" "\<not> on (load (p + 8 * x) k) PTE_V"
    and a: "kalloc k = (q, k1)" "q \<noteq> 0"
  defines "k' \<equiv> store (p + 8 * x) (PA2PTE q OR PTE_V) (set_page 0 q k1)"
  shows "inner is \<Longrightarrow> node k' pt is = (if is = xs @ [x] then Some q else node k pt is)"
    "pt_ok kend k' pt (insert q owned)" "q \<notin> owned" "q \<in> pages kend" "view k' pt = view k pt"
    "r \<in> owned - table k pt \<Longrightarrow> in_page b r \<Longrightarrow> mem k' b = mem k b"
proof -
  note I = inner_below [OF ok p(2,1)]
  note P = owned_page [OF pt_okD(2) [OF ok] I(1)]
  have K: "q \<in> pages kend" "q \<notin> owned" "kmem_ok kend k1 (insert q owned)"
    using kalloc_ok [OF pt_okD(2) [OF ok] a(1)] a(2) by simp_all
  then show "q \<notin> owned" "q \<in> pages kend" by blast+
  have pq: "q \<noteq> p" using K(2) I(1) by blast
  note q = page_facts(1,3) [OF K(1)]
  have m: "mem k' b = mem k b" if "b \<noteq> p + 8 * x" "\<not> in_page b q" for b
    using kalloc_mem [OF a(1) that(2)] that by (simp add: k'_def store_def set_page_def fill_page_other)
  have ip: "in_page (p + 8 * x) p" using in_table_page [OF I(2,2,3)] by simp
  have same: "load (r + 8 * y) k' = load (r + 8 * y) k" if r: "r \<in> owned" "y < 512" "(r, y) \<noteq> (p, x)" for r y
  proof (rule load_cong [OF m])
    note R = page_facts(1) [OF owned_page [OF pt_okD(2) [OF ok] r(1)]]
    show "r + 8 * y \<noteq> p + 8 * x" using same_entry [OF R I(2) r(2) I(3)] r(3) by auto
    show "\<not> in_page (r + 8 * y) q" using in_table_page [OF R q(1) r(2)] r(1) K(2) by auto
  qed
  have "load (p + 8 * x) k' = PA2PTE q OR PTE_V" by (simp add: k'_def)
  moreover have "on (PA2PTE q OR PTE_V) PTE_V" by (rule on_valid(1))
  moreover have "PTE2PA (PA2PTE q OR PTE_V) = q" by (rule PTE2PA_pte [OF q]) (simp add: PTE_V_def)
  ultimately have lp: "on (load (p + 8 * x) k') PTE_V" "PTE2PA (load (p + 8 * x) k') = q" by simp_all
  have lq: "load (q + 8 * y) k' = 0" if "y < 512" for y
  proof -
    have "p + 8 * x \<noteq> q + 8 * y" using same_entry [OF I(2) q(1) I(3) that] pq by auto
    moreover have "in_page (q + 8 * y) q" using in_table_page [OF q(1) q(1) that] by simp
    ultimately show ?thesis by (simp add: k'_def load_set_page)
  qed
  have step: "node k' pt js = node k pt js" if js: "inner js" "\<nexists>ys. js = xs @ x # ys" for js
  proof (rule node_agree)
    fix zs z ys r assume e: "js = zs @ z # ys" and n: "node k pt zs = Some r"
    note Z = inner_below [OF ok js(1) [unfolded e] n]
    have "(r, z) \<noteq> (p, x)" using pt_okD(4) [OF ok Z(5) I(5) n] p(1) js(2) e by auto
    then show "load (r + 8 * z) k' = load (r + 8 * z) k" using same Z(1,3) by blast
  qed
  have "inner xs" "\<nexists>ys. xs = xs @ x # ys" using I(5) by auto
  then have nxs: "node k' pt xs = Some p" using step p(1) by simp
  have N: "node k' pt js = (if js = xs @ [x] then Some q else node k pt js)" if js: "inner js" for js
  proof (cases "\<exists>ys. js = xs @ x # ys")
    case True
    then obtain ys where e: "js = xs @ x # ys" by blast
    have "node k pt js = None" unfolding e using p by (simp add: node_append)
    moreover have "node k' pt js = node k' q ys" unfolding e using nxs lp by (simp add: node_append)
    moreover have "node k' q ys = (if ys = [] then Some q else None)"
    proof (cases ys)
      case (Cons y zs)
      then have "y < 512" using js e by (simp add: inner_def)
      then show ?thesis using lq Cons by (simp add: on_def)
    qed simp
    ultimately show ?thesis using e by auto
  qed (use step [OF js] in auto)
  then show "inner is \<Longrightarrow> node k' pt is = (if is = xs @ [x] then Some q else node k pt is)" by blast
  have "kmem_ok kend k' (insert q owned)"
  proof -
    have e: "k' = k1\<lparr>mem := mem k'\<rparr>" by (simp add: k'_def store_def set_page_def)
    show ?thesis
      by (subst e, rule kmem_ok_write [OF K(3)])
        (use ip I(1) in \<open>auto simp: k'_def store_def set_page_def fill_page_other\<close>)
  qed
  moreover have "is = js" if "inner is" "inner js" "node k' pt is = Some r" "node k' pt js = Some r" for "is" js r
    using that N [OF that(1)] N [OF that(2)] pt_okD(3) [OF ok, of _ r] pt_okD(4) [OF ok that(1,2)] K(2)
    by (auto split: if_splits)
  moreover have "table k' pt \<subseteq> insert q owned"
    using N pt_okD(3) [OF ok] by (auto simp: table_def split: if_splits)
  ultimately show "pt_ok kend k' pt (insert q owned)" using pt_okD(1) [OF ok] unfolding pt_ok_def by blast
  show "view k' pt = view k pt"
  proof
    fix va
    show "view k' pt va = view k pt va"
    proof (cases "route va = xs @ [x]")
      case True
      then have "node k pt (route va) = None" using p by (simp add: node_append)
      then show ?thesis using True N [OF inner_route(1), of va] lq [OF PX_bound] by (simp add: view_def on_def)
    next
      case False
      then have n: "node k' pt (route va) = node k pt (route va)" using N [OF inner_route(1)] by simp
      show ?thesis
      proof (cases "node k pt (route va)")
        case (Some r)
        have "r \<noteq> p" using pt_okD(4) [OF ok inner_route(1) I(5) Some] p(1) I(4) by (auto simp: route_def)
        then have "load (r + 8 * PX 0 va) k' = load (r + 8 * PX 0 va) k"
          using same pt_okD(3) [OF ok inner_route(1) Some] PX_bound by blast
        then show ?thesis using n Some by (simp add: view_def)
      qed (use n in \<open>simp add: view_def\<close>)
    qed
  qed
  show "mem k' b = mem k b" if "r \<in> owned - table k pt" "in_page b r"
  proof (rule m)
    have r: "r \<in> pages kend" "r \<in> owned" "r \<notin> table k pt" using that(1) owned_page [OF pt_okD(2) [OF ok]] by auto
    have "p \<noteq> r" using r(3) p(1) I(5) by (auto simp: table_def)
    then show "b \<noteq> p + 8 * x" using in_table_page [OF I(2) page_facts(1) [OF r(1)] I(3)] that(2) by auto
    show "\<not> in_page b q"
    proof
      assume "in_page b q"
      then have "q = r" using pages_apart [OF q(1) page_facts(1) [OF r(1)]] that(2) by blast
      then show False using r(2) K(2) by blast
    qed
  qed
qed

section \<open>Walking\<close>

text \<open>
  The state after some tables were added: the view is the same, the new pages are the ones of the tree, and
  what the owners keep in other pages is as before.
\<close>

definition grown :: "nat \<Rightarrow> nat \<Rightarrow> kmem \<Rightarrow> nat set \<Rightarrow> kmem \<Rightarrow> nat set \<Rightarrow> bool" where
  "grown kend pt k owned k' owned' \<longleftrightarrow> pt_ok kend k' pt owned' \<and> owned \<subseteq> owned' \<and>
     table k' pt = table k pt \<union> (owned' - owned) \<and> view k' pt = view k pt \<and>
     (\<forall>r \<in> owned - table k pt. \<forall>b. in_page b r \<longrightarrow> mem k' b = mem k b)"

lemma grownD:
  assumes "grown kend pt k owned k' owned'"
  shows "pt_ok kend k' pt owned'" "owned \<subseteq> owned'" "table k' pt = table k pt \<union> (owned' - owned)" "view k' pt = view k pt"
    "r \<in> owned \<Longrightarrow> r \<notin> table k pt \<Longrightarrow> in_page b r \<Longrightarrow> mem k' b = mem k b"
  using assms by (auto simp: grown_def)

lemma grown_refl: "pt_ok kend k pt owned \<Longrightarrow> grown kend pt k owned k owned"
  by (auto simp: grown_def)

lemma grown_trans:
  assumes a: "grown kend pt k owned k1 owned1" and b: "grown kend pt k1 owned1 k2 owned2"
  shows "grown kend pt k owned k2 owned2"
proof -
  note A = grownD [OF a] and B = grownD [OF b]
  have "mem k2 b = mem k b" if "r \<in> owned" "r \<notin> table k pt" "in_page b r" for r b
    using A(5) [OF that] B(5) [of r b] A(2,3) that by auto
  then show ?thesis using A(2-4) B(1-4) by (auto simp: grown_def)
qed

lemma walk_level_effect:
  assumes "pt_ok kend k pt owned" "l \<le> 2" "node k pt (take (2 - l) (route va)) = Some p"
  shows "\<exists>owned'. grown kend pt k owned (snd (walk_level alloc va l p k)) owned' \<and>
    (\<not> alloc \<longrightarrow> snd (walk_level alloc va l p k) = k \<and> owned' = owned) \<and>
    fst (walk_level alloc va l p k) =
      map_option (\<lambda>q. q + 8 * PX 0 va) (node (snd (walk_level alloc va l p k)) pt (route va)) \<and>
    (alloc \<and> node (snd (walk_level alloc va l p k)) pt (route va) = None \<longrightarrow> owned' = pages kend)"
  using assms
proof (induction l arbitrary: p k owned)
  case 0
  then show ?case using grown_refl [OF 0(1)] by (auto simp: walk_level.simps(1) route_def)
next
  case (Suc l)
  note ok = Suc.prems(1)
  define xs where "xs = take (2 - Suc l) (route va)"
  have xs: "take (2 - l) (route va) = xs @ [PX (Suc l) va]" "\<exists>ys. route va = xs @ PX (Suc l) va # ys"
    using Suc.prems(2) by (cases l; auto simp: xs_def route_def numeral_2_eq_2)+
  have n: "node k pt xs = Some p" using Suc.prems(3) by (simp add: xs_def)
  have i: "inner (xs @ [PX (Suc l) va])" using inner_route(1) [of va] xs(2) by (auto simp: inner_def)
  let ?e = "load (p + 8 * PX (Suc l) va) k"
  show ?case
  proof (cases "on ?e PTE_V")
    case True
    then have "node k pt (take (2 - l) (route va)) = Some (PTE2PA ?e)" using n xs(1) by (simp add: node_append)
    from Suc.IH [OF ok _ this] show ?thesis using True Suc.prems(2) by (simp add: walk_level.simps(2) Let_def)
  next
    case False
    have none: "node k pt (route va) = None" using xs(2) n False by (auto simp: node_append)
    show ?thesis
    proof (cases alloc)
      case al: True
      obtain q k1 where a: "kalloc k = (q, k1)" by fastforce
      show ?thesis
      proof (cases "q = 0")
        case True
        then have "k1 = k" "owned = pages kend" using kalloc_ok [OF pt_okD(2) [OF ok] a] by simp_all
        then show ?thesis using a True False al none grown_refl [OF ok] by (auto simp: walk_level.simps(2) Let_def)
      next
        case q: False
        note E = extend [OF ok n i False a q]
        let ?k = "store (p + 8 * PX (Suc l) va) (PA2PTE q OR PTE_V) (set_page 0 q k1)"
        have "table ?k pt = insert q (table k pt)" 
        proof -
          have "node k pt (xs @ [PX (Suc l) va]) = None" using n False by (simp add: node_append)
          then show ?thesis using E(1) i unfolding table_def by (fastforce split: if_splits)
        qed
        then have g: "grown kend pt k owned ?k (insert q owned)" using E(2,3,5,6) by (auto simp: grown_def)
        have "node ?k pt (take (2 - l) (route va)) = Some q" unfolding xs(1) using E(1) [OF i] by simp
        from Suc.IH [OF E(2) _ this] obtain owned' where
          r: "grown kend pt ?k (insert q owned) (snd (walk_level alloc va l q ?k)) owned'"
            "fst (walk_level alloc va l q ?k) =
              map_option (\<lambda>q. q + 8 * PX 0 va) (node (snd (walk_level alloc va l q ?k)) pt (route va))"
            "alloc \<and> node (snd (walk_level alloc va l q ?k)) pt (route va) = None \<longrightarrow> owned' = pages kend"
          using Suc.prems(2) by auto
        have "walk_level alloc va (Suc l) p k = walk_level alloc va l q ?k"
          using False a q al by (simp add: walk_level.simps(2) Let_def)
        then show ?thesis using grown_trans [OF g r(1)] r(2,3) al by auto
      qed
    qed (use False none grown_refl [OF ok] in \<open>auto simp: walk_level.simps(2) Let_def\<close>)
  qed
qed

lemma walk_find:
  assumes ok: "pt_ok kend k pt owned" and va: "va < MAXVA"
  shows "walk pt va False k = Inr (map_option (\<lambda>p. p + 8 * PX 0 va) (node k pt (route va)), k)"
proof -
  have "node k pt (take (2 - 2) (route va)) = Some pt" by simp
  from walk_level_effect [OF ok _ this, of False] show ?thesis
    using va by (cases "walk_level False va 2 pt k") (auto simp: walk_def)
qed

lemma walk_alloc:
  assumes ok: "pt_ok kend k pt owned" and va: "va < MAXVA"
  obtains k' where "walk pt va True k = Inr (None, k')" "grown kend pt k owned k' (pages kend)"
  | p k' owned' where "walk pt va True k = Inr (Some (p + 8 * PX 0 va), k')" "grown kend pt k owned k' owned'"
      "node k' pt (route va) = Some p"
proof -
  have "node k pt (take (2 - 2) (route va)) = Some pt" by simp
  from walk_level_effect [OF ok _ this, of True] obtain owned' where
    w: "grown kend pt k owned (snd (walk_level True va 2 pt k)) owned'"
    "fst (walk_level True va 2 pt k) = map_option (\<lambda>q. q + 8 * PX 0 va) (node (snd (walk_level True va 2 pt k)) pt (route va))"
    "node (snd (walk_level True va 2 pt k)) pt (route va) = None \<longrightarrow> owned' = pages kend" by auto
  define K where "K = snd (walk_level True va 2 pt k)"
  have wk: "walk pt va True k = Inr (map_option (\<lambda>q. q + 8 * PX 0 va) (node K pt (route va)), K)"
    using va w(2) by (simp add: walk_def K_def prod_eq_iff)
  show ?thesis
  proof (cases "node K pt (route va)")
    case None
    then show ?thesis using that(1) [of K] wk w(1,3) by (simp add: K_def)
  next
    case (Some p)
    then show ?thesis using that(2) [of p K owned'] wk w(1) by (simp add: K_def)
  qed
qed

section \<open>Mapping\<close>

text \<open>The number of the page of an address.\<close>

definition vpn :: "64 word \<Rightarrow> nat" where "vpn va = unat va div 4096"

lemma PX_vpn: "PX l va = vpn va div 512 ^ l mod 512"
proof -
  have "PX l va = unat (take_bit 9 (drop_bit (12 + 9 * l) va))"
    by (simp add: PX_def take_bit_eq_mask mask_eq_exp_minus_1)
  also have "\<dots> = unat va div 2 ^ (12 + 9 * l) mod 512"
    unfolding unsigned_take_bit_eq unat_drop_bit_eq by (simp add: take_bit_eq_mod drop_bit_eq_div)
  finally have a: "PX l va = unat va div 2 ^ (12 + 9 * l) mod 512" .
  have e: "(2 :: nat) ^ (12 + 9 * l) = 4096 * 512 ^ l" by (simp add: power_add power_mult)
  show ?thesis unfolding a e by (simp add: vpn_def div_mult2_eq)
qed

lemma base512: "v = x * 512 + r \<Longrightarrow> x = y * 512 + s \<Longrightarrow> v = y * 262144 + s * 512 + (r :: nat)"
  by simp

lemma MAXVA_unat: "va < MAXVA \<longleftrightarrow> unat va < 2 ^ 38"
  by (simp add: MAXVA_def word_less_nat_alt)

lemma same_page:
  assumes "va < MAXVA" "va' < MAXVA"
  shows "route va' = route va \<and> PX 0 va' = PX 0 va \<longleftrightarrow> vpn va' = vpn va"
proof
  have e: "vpn v = vpn v div 512 ^ 2 mod 512 * 512 ^ 2 + vpn v div 512 ^ 1 mod 512 * 512 + vpn v div 512 ^ 0 mod 512"
    if "v < MAXVA" for v
  proof -
    let ?x = "vpn v div 512"
    let ?y = "?x div 512"
    have y: "?y < 512" using that by (simp add: vpn_def MAXVA_unat)
    have d: "vpn v = ?x * 512 + vpn v mod 512" "?x = ?y * 512 + ?x mod 512" by (rule div_mult_mod_eq [symmetric])+
    have P: "(512 :: nat) ^ 2 = 262144" "vpn v div 512 ^ 2 mod 512 = ?y" "vpn v div 512 ^ 1 mod 512 = ?x mod 512"
      "vpn v div 512 ^ 0 mod 512 = vpn v mod 512"
      using y by (simp_all add: power2_eq_square div_mult2_eq [of _ 512 512, simplified])
    show ?thesis unfolding P(2-4) unfolding P(1) by (rule base512 [OF d])
  qed
  assume "route va' = route va \<and> PX 0 va' = PX 0 va"
  then have "PX 2 va' = PX 2 va" "PX 1 va' = PX 1 va" "PX 0 va' = PX 0 va" by (auto simp: route_def)
  then show "vpn va' = vpn va" using e [OF assms(1)] e [OF assms(2)] unfolding PX_vpn by metis
qed (simp add: route_def PX_vpn)

text \<open>What a change of the table keeps: the tree, the pages of the owners, and what they hold.\<close>

definition keeps :: "nat \<Rightarrow> nat \<Rightarrow> kmem \<Rightarrow> nat set \<Rightarrow> kmem \<Rightarrow> nat set \<Rightarrow> bool" where
  "keeps kend pt k owned k' owned' \<longleftrightarrow> pt_ok kend k' pt owned' \<and> owned \<subseteq> owned' \<and>
     table k' pt = table k pt \<union> (owned' - owned) \<and>
     (\<forall>r \<in> owned - table k pt. \<forall>b. in_page b r \<longrightarrow> mem k' b = mem k b)"

lemma keepsD:
  assumes "keeps kend pt k owned k' owned'"
  shows "pt_ok kend k' pt owned'" "owned \<subseteq> owned'" "table k' pt = table k pt \<union> (owned' - owned)"
    "r \<in> owned \<Longrightarrow> r \<notin> table k pt \<Longrightarrow> in_page b r \<Longrightarrow> mem k' b = mem k b"
  using assms by (auto simp: keeps_def)

lemma grown_keeps: "grown kend pt k owned k' owned' \<Longrightarrow> keeps kend pt k owned k' owned'"
  by (simp add: grown_def keeps_def)

lemma keeps_refl: "pt_ok kend k pt owned \<Longrightarrow> keeps kend pt k owned k owned"
  by (auto simp: keeps_def)

lemma keeps_trans:
  assumes a: "keeps kend pt k owned k1 owned1" and b: "keeps kend pt k1 owned1 k2 owned2"
  shows "keeps kend pt k owned k2 owned2"
proof -
  note A = keepsD [OF a] and B = keepsD [OF b]
  have "mem k2 b = mem k b" if "r \<in> owned" "r \<notin> table k pt" "in_page b r" for r b
    using A(4) [OF that] B(4) [of r b] A(2,3) that by auto
  then show ?thesis using A(2,3) B(1-3) by (auto simp: keeps_def)
qed

lemma leaf_keeps:
  assumes ok: "pt_ok kend k pt owned" and p: "node k pt (route va) = Some p"
  shows "keeps kend pt k owned (store (p + 8 * PX 0 va) w k) owned"
proof -
  note L = leaf_store [OF ok p, where w = w]
  have P: "p \<in> table k pt" using p inner_route(1) unfolding table_def by blast
  have pg: "r \<in> owned \<Longrightarrow> r mod PGSIZE = 0" for r using owned_page [OF pt_okD(2) [OF ok]] page_facts(1) by blast
  have "p \<in> owned" using pt_okD(3) [OF ok inner_route(1) p] .
  then have "\<not> in_page (p + 8 * PX 0 va) r" if "r \<in> owned" "r \<notin> table k pt" for r
    using in_table_page [OF pg pg [OF that(1)] PX_bound, of p 0 va] that(2) P by auto
  then have "mem (store (p + 8 * PX 0 va) w k) b = mem k b" if "r \<in> owned - table k pt" "in_page b r" for r b
    using that by (auto simp: store_def)
  moreover have "table (store (p + 8 * PX 0 va) w k) pt = table k pt" by (rule table_same) (rule L(1))
  ultimately show ?thesis using L(2) by (simp add: keeps_def)
qed

lemma leaf_view:
  assumes ok: "pt_ok kend k pt owned" and p: "node k pt (route va) = Some p" and va: "va < MAXVA" "v < MAXVA"
  shows "view (store (p + 8 * PX 0 va) w k) pt v =
    (if vpn v = vpn va then if on w PTE_V then Some w else None else view k pt v)"
  using leaf_store(3,4) [OF ok p, where w = w and va' = v] same_page [OF va] by auto

lemma vpn_next:
  assumes "unat final = unat a + 4096 * Suc n" "final < MAXVA"
  shows "a < MAXVA" "unat (a + 4096) = unat a + 4096" "vpn (a + 4096) = vpn a + 1" "vpn final = vpn a + Suc n"
proof -
  show a: "a < MAXVA" using assms by (simp add: MAXVA_unat)
  then show u: "unat (a + 4096) = unat a + 4096" using page_above(2) [of a] by simp
  show "vpn (a + 4096) = vpn a + 1" "vpn final = vpn a + Suc n" by (simp_all add: vpn_def u assms(1))
qed

lemma mappages_step:
  assumes ok: "pt_ok kend k pt owned" and a: "a < MAXVA" and none: "view k pt a = None"
  obtains k' where "mappages_loop pt a final pa perm k = Inr (-1, k')" "keeps kend pt k owned k' (pages kend)" "view k' pt = view k pt"
  | k' owned' where "mappages_loop pt a final pa perm k =
        (if a = final then Inr (0, k') else mappages_loop pt (a + 4096) final (pa + PGSIZE) perm k')"
      "keeps kend pt k owned k' owned'"
      "\<And>v. v < MAXVA \<Longrightarrow> view k' pt v = (if vpn v = vpn a then Some (PA2PTE pa OR perm OR PTE_V) else view k pt v)"
proof (rule walk_alloc [OF ok a])
  fix k' assume w: "walk pt a True k = Inr (None, k')" "grown kend pt k owned k' (pages kend)"
  have "mappages_loop pt a final pa perm k = Inr (-1, k')" by (subst mappages_loop.simps) (simp add: w(1))
  then show ?thesis using that(1) grown_keeps [OF w(2)] grownD(4) [OF w(2)] by blast
next
  fix p k1 owned' assume w: "walk pt a True k = Inr (Some (p + 8 * PX 0 a), k1)" "grown kend pt k owned k1 owned'"
    "node k1 pt (route a) = Some p"
  note g = grownD [OF w(2)]
  let ?e = "PA2PTE pa OR perm OR PTE_V"
  let ?k = "store (p + 8 * PX 0 a) ?e k1"
  have "view k1 pt a = None" using none g(4) by simp
  then have nv: "\<not> on (load (p + 8 * PX 0 a) k1) PTE_V" using w(3) by (auto simp: view_def split: if_splits)
  have "mappages_loop pt a final pa perm k =
      (if a = final then Inr (0, ?k) else mappages_loop pt (a + 4096) final (pa + PGSIZE) perm ?k)"
    by (subst mappages_loop.simps) (simp add: w(1) nv Let_def)
  moreover have "keeps kend pt k owned ?k owned'"
    using keeps_trans [OF grown_keeps [OF w(2)] leaf_keeps [OF g(1) w(3)]] .
  moreover have "view ?k pt v = (if vpn v = vpn a then Some ?e else view k pt v)" if "v < MAXVA" for v
    using leaf_view [OF g(1) w(3) a that, of ?e] g(4) by simp
  ultimately show ?thesis using that(2) by blast
qed

lemma mappages_loop_effect:
  assumes "pt_ok kend k pt owned" "unat final = unat a + 4096 * n" "final < MAXVA"
    and "\<And>v. v < MAXVA \<Longrightarrow> vpn a \<le> vpn v \<Longrightarrow> vpn v \<le> vpn final \<Longrightarrow> view k pt v = None"
  shows "\<exists>r k' owned' m. mappages_loop pt a final pa perm k = Inr (r, k') \<and> keeps kend pt k owned k' owned' \<and>
    (\<forall>v < MAXVA. view k' pt v =
       (if vpn a \<le> vpn v \<and> vpn v < vpn a + m then Some (PA2PTE (pa + PGSIZE * (vpn v - vpn a)) OR perm OR PTE_V)
        else view k pt v)) \<and>
    (r = 0 \<and> m = n + 1 \<or> r = -1 \<and> m \<le> n \<and> owned' = pages kend)"
  using assms
proof (induction n arbitrary: a pa k owned)
  case 0
  then have e: "a = final" by (simp add: word_unat_eq_iff)
  have none: "view k pt a = None" using 0(3,4) e by simp
  show ?case
  proof (cases rule: mappages_step [OF 0(1) 0(3) [folded e] none, where final = final and pa = pa and perm = perm])
    case (1 k')
    then show ?thesis by (intro exI [of _ "-1"] exI [of _ k'] exI [of _ "pages kend"] exI [of _ 0]) auto
  next
    case (2 k' owned')
    have "vpn a \<le> vpn v \<and> vpn v < vpn a + 1 \<longleftrightarrow> vpn v = vpn a" for v by auto
    then show ?thesis using 2 e
      by (intro exI [of _ 0] exI [of _ k'] exI [of _ owned'] exI [of _ 1]) (auto simp: le_less_Suc_eq)
  qed
next
  case (Suc n)
  note V = vpn_next [OF Suc.prems(2,3)]
  have none: "view k pt a = None" using Suc.prems(4) V(1,4) by simp
  show ?case
  proof (cases rule: mappages_step [OF Suc.prems(1) V(1) none, where final = final and pa = pa and perm = perm])
    case (1 k')
    then show ?thesis by (intro exI [of _ "-1"] exI [of _ k'] exI [of _ "pages kend"] exI [of _ 0]) auto
  next
    case (2 k1 owned1)
    have ne: "a \<noteq> final" using Suc.prems(2) by auto
    have u: "unat final = unat (a + 4096) + 4096 * n" using Suc.prems(2) V(2) by simp
    have "view k1 pt v = None" if "v < MAXVA" "vpn (a + 4096) \<le> vpn v" "vpn v \<le> vpn final" for v
      using 2(3) [OF that(1)] Suc.prems(4) [OF that(1) _ that(3)] that(2) V(3) by simp
    from Suc.IH [OF keepsD(1) [OF 2(2)] u Suc.prems(3) this, of "pa + PGSIZE"] obtain r k' owned' m where
      r: "mappages_loop pt (a + 4096) final (pa + PGSIZE) perm k1 = Inr (r, k')" "keeps kend pt k1 owned1 k' owned'"
      "\<forall>v < MAXVA. view k' pt v = (if vpn a + 1 \<le> vpn v \<and> vpn v < vpn a + 1 + m
         then Some (PA2PTE (pa + PGSIZE + PGSIZE * (vpn v - (vpn a + 1))) OR perm OR PTE_V) else view k1 pt v)"
      "r = 0 \<and> m = n + 1 \<or> r = -1 \<and> m \<le> n \<and> owned' = pages kend"
      unfolding V(3) by blast
    have "mappages_loop pt a final pa perm k = Inr (r, k')" using 2(1) ne r(1) by simp
    moreover have "view k' pt v = (if vpn a \<le> vpn v \<and> vpn v < vpn a + (m + 1)
       then Some (PA2PTE (pa + PGSIZE * (vpn v - vpn a)) OR perm OR PTE_V) else view k pt v)" if v: "v < MAXVA" for v
    proof (cases "vpn v = vpn a")
      case False
      have "PA2PTE (pa + PGSIZE + PGSIZE * (vpn v - Suc (vpn a))) = PA2PTE (pa + PGSIZE * (vpn v - vpn a))" if "vpn a + 1 \<le> vpn v"
      proof -
        obtain d where "vpn v = vpn a + 1 + d" using \<open>vpn a + 1 \<le> vpn v\<close> le_Suc_ex by blast
        then show ?thesis by (simp add: add.assoc)
      qed
      then show ?thesis using r(3) 2(3) v False by auto
    qed (use r(3) 2(3) v in auto)
    moreover have "r = 0 \<and> m + 1 = Suc n + 1 \<or> r = -1 \<and> m + 1 \<le> Suc n \<and> owned' = pages kend" using r(4) by auto
    ultimately show ?thesis using keeps_trans [OF 2(2) r(2)] by blast
  qed
qed

text \<open>
  C16. \<open>mappages\<close> on a range that has no mapping, below \<open>MAXVA\<close>: it never panics, and 0 means that
  exactly the pages of the range now map to the pages from \<open>pa\<close> on, with the permissions given; -1 means that
  memory ran out after the first \<open>m\<close> pages were mapped. No other mapping changes, the tables stay a tree of pages
  of their own, and what other owners keep in memory is untouched.
\<close>

theorem mappages_maps_range:
  assumes "pt_ok kend k pt owned" "va mod 4096 = 0" "sz mod 4096 = 0" "sz \<noteq> 0" "unat va + unat sz \<le> 2 ^ 38"
    and "\<And>v. v < MAXVA \<Longrightarrow> vpn va \<le> vpn v \<Longrightarrow> vpn v < vpn va + unat sz div 4096 \<Longrightarrow> view k pt v = None"
  shows "\<exists>r k' owned' m. mappages pt va sz pa perm k = Inr (r, k') \<and> keeps kend pt k owned k' owned' \<and>
    (\<forall>v < MAXVA. view k' pt v =
       (if vpn va \<le> vpn v \<and> vpn v < vpn va + m then Some (PA2PTE (pa + PGSIZE * (vpn v - vpn va)) OR perm OR PTE_V)
        else view k pt v)) \<and>
    (r = 0 \<and> m = unat sz div 4096 \<or> r = -1 \<and> m < unat sz div 4096 \<and> owned' = pages kend)"
proof -
  have "unat sz mod 4096 = 0" using assms(3) by (simp add: word_unat_eq_iff unat_mod)
  then obtain q where q: "unat sz = 4096 * q" by (auto simp: mod_eq_0_iff_dvd elim!: dvdE)
  have "q \<noteq> 0" using q assms(4) by (auto simp: word_unat_eq_iff)
  then obtain n where n: "unat sz = 4096 * Suc n" using q by (cases q) simp_all
  let ?f = "va + sz - 4096"
  have "sz \<ge> 4096" using n by (simp add: word_le_nat_alt)
  then have "unat (sz - 4096) = 4096 * n" using n by (simp add: unat_sub)
  moreover have e: "?f = va + (sz - 4096)" by simp
  ultimately have f: "unat ?f = unat va + 4096 * n"
    unfolding e using assms(5) n by (subst unat_add_lem [THEN iffD1]) simp_all
  then have lt: "?f < MAXVA" using assms(5) n by (simp add: MAXVA_unat)
  have vf: "vpn ?f = vpn va + n" by (simp add: vpn_def f)
  have "view k pt v = None" if "v < MAXVA" "vpn va \<le> vpn v" "vpn v \<le> vpn ?f" for v
    using assms(6) [OF that(1,2)] that(3) n vf by simp
  from mappages_loop_effect [OF assms(1) f lt this, of pa perm] obtain r k' owned' m where
    r: "mappages_loop pt va ?f pa perm k = Inr (r, k')" "keeps kend pt k owned k' owned'"
      "\<forall>v < MAXVA. view k' pt v =
         (if vpn va \<le> vpn v \<and> vpn v < vpn va + m then Some (PA2PTE (pa + PGSIZE * (vpn v - vpn va)) OR perm OR PTE_V)
          else view k pt v)"
      "r = 0 \<and> m = n + 1 \<or> r = -1 \<and> m \<le> n \<and> owned' = pages kend" by blast
  have "mappages pt va sz pa perm k = Inr (r, k')" using r(1) assms(2-4) by (simp add: mappages_def)
  moreover have "r = 0 \<and> m = unat sz div 4096 \<or> r = -1 \<and> m < unat sz div 4096 \<and> owned' = pages kend"
    using r(4) n by auto
  ultimately show ?thesis using r(2,3) by blast
qed

text \<open>A new page table is empty.\<close>

lemma uvmcreate_effect:
  assumes ok: "kmem_ok kend k owned" "0 < kend" and c: "uvmcreate k = (pt, k')" "pt \<noteq> 0"
  shows "pt_ok kend k' pt (insert pt owned)" "view k' pt = Map.empty" "table k' pt = {pt}" "pt \<in> pages kend" "pt \<notin> owned"
proof -
  obtain k1 where a: "kalloc k = (pt, k1)" "k' = set_page 0 pt k1"
    using c by (auto simp: uvmcreate_def split: prod.splits if_splits)
  have K: "pt \<in> pages kend" "pt \<notin> owned" "kmem_ok kend k1 (insert pt owned)"
    using kalloc_ok [OF ok(1) a(1)] c(2) by simp_all
  then show "pt \<in> pages kend" "pt \<notin> owned" by blast+
  note p = page_facts(1) [OF K(1)]
  have l: "load (pt + 8 * i) k' = 0" if "i < 512" for i
    using in_table_page [OF p p that] by (simp add: a(2) load_set_page)
  have n: "node k' pt is = (if is = [] then Some pt else None)" if "inner is" for "is"
    using that l by (cases "is") (simp_all add: inner_def on_def)
  have "q = pt" if "inner is" "node k' pt is = Some q" for "is" q
    using n [OF that(1)] that(2) by (simp split: if_splits)
  moreover have "node k' pt [] = Some pt" by simp
  ultimately show t: "table k' pt = {pt}" using inner_route(2) unfolding table_def by blast
  show "view k' pt = Map.empty" using n [OF inner_route(1)] by (auto simp: view_def route_def)
  have "kmem_ok kend k' (insert pt owned)" unfolding a(2) set_page_def
    by (rule kmem_ok_write [OF K(3)]) (simp add: fill_page_other)
  moreover have "is = js" if "inner is" "inner js" "node k' pt is = Some q" "node k' pt js = Some q" for "is" js q
    using that n [OF that(1)] n [OF that(2)] by (auto split: if_splits)
  ultimately show "pt_ok kend k' pt (insert pt owned)" using ok(2) t unfolding pt_ok_def by blast
qed

section \<open>A small machine\<close>

text \<open>Memory with eight free pages, of which the first one becomes a page table.\<close>

definition small_end :: nat where "small_end = PHYSTOP - 8 * PGSIZE"

definition small_kmem :: kmem where
  "small_kmem = \<lparr>mem = (\<lambda>a. if small_end \<le> a \<and> a + PGSIZE < PHYSTOP then a + PGSIZE else 0), freelist = small_end\<rparr>"

definition small_pt :: nat where "small_pt = small_end"
definition small_vm :: kmem where "small_vm = snd (uvmcreate small_kmem)"

lemma small_kmem_ok: "kmem_ok small_end small_kmem {}" "0 < small_end"
proof -
  show "0 < small_end" by (simp add: small_end_def PHYSTOP_def KERNBASE_def PGSIZE_def)
  let ?ps = "map (\<lambda>i. small_end + i * PGSIZE) [0..<8]"
  have l: "[0..<8] = [0, 1, 2, 3, 4, 5, 6, 7 :: nat]" by (simp add: upt_rec)
  have "chain (mem small_kmem) (freelist small_kmem) ?ps" "distinct ?ps"
    by (simp_all add: l small_kmem_def small_end_def PHYSTOP_def KERNBASE_def PGSIZE_def)
  moreover have "set ?ps = pages small_end"
  proof (intro set_eqI iffI)
    fix p assume "p \<in> set ?ps"
    then show "p \<in> pages small_end"
      by (auto simp: l pages_def small_end_def PHYSTOP_def KERNBASE_def PGSIZE_def)
  next
    fix p assume p: "p \<in> pages small_end"
    then obtain j where j: "p = 4096 * j" by (auto simp: pages_def PGSIZE_def)
    then have "524288 + 32768 - 8 \<le> j" "j < 524288 + 32768"
      using p by (auto simp: pages_def small_end_def PHYSTOP_def KERNBASE_def PGSIZE_def)
    then have "p = small_end + (j - 557048) * PGSIZE" "j - 557048 < 8"
      unfolding j by (simp_all add: small_end_def PHYSTOP_def KERNBASE_def PGSIZE_def)
    then show "p \<in> set ?ps" by auto
  qed
  ultimately show "kmem_ok small_end small_kmem {}" unfolding kmem_ok_def by blast
qed

lemma small_vm_ok: "pt_ok small_end small_vm small_pt {small_pt}" "view small_vm small_pt = Map.empty"
    "table small_vm small_pt = {small_pt}"
proof -
  have n: "small_pt \<noteq> 0" using small_kmem_ok(2) by (simp add: small_pt_def)
  have f: "fst (kalloc small_kmem) = small_pt" by (simp add: kalloc_def Let_def small_kmem_def small_pt_def)
  then have "uvmcreate small_kmem = (small_pt, small_vm)"
    using n by (auto simp: small_vm_def uvmcreate_def split: prod.splits)
  note C = uvmcreate_effect [OF small_kmem_ok this n]
  show "pt_ok small_end small_vm small_pt {small_pt}" "view small_vm small_pt = Map.empty" "table small_vm small_pt = {small_pt}"
    using C(1-3) by simp_all
qed

theorem mappages_maps_range_witness:
  "\<exists>r k' m. mappages small_pt 8192 4096 0x87000000 PTE_R small_vm = Inr (r, k') \<and>
     (r = 0 \<and> view k' small_pt 8200 = Some (PA2PTE 0x87000000 OR PTE_R OR PTE_V) \<or> r = -1 \<and> m < (1 :: nat))"
proof -
  have "(8192 :: 64 word) mod 4096 = 0" "(4096 :: 64 word) mod 4096 = 0" "(4096 :: 64 word) \<noteq> 0"
    "unat (8192 :: 64 word) + unat (4096 :: 64 word) \<le> 2 ^ 38" by simp_all
  from mappages_maps_range [OF small_vm_ok(1) this, where pa = "0x87000000" and perm = PTE_R] obtain r k' owned' m where
    r: "mappages small_pt 8192 4096 0x87000000 PTE_R small_vm = Inr (r, k')"
      "\<forall>v < MAXVA. view k' small_pt v = (if vpn 8192 \<le> vpn v \<and> vpn v < vpn 8192 + m
         then Some (PA2PTE (0x87000000 + PGSIZE * (vpn v - vpn 8192)) OR PTE_R OR PTE_V) else view small_vm small_pt v)"
      "r = 0 \<and> m = 1 \<or> r = -1 \<and> m < 1"
    by (auto simp: small_vm_ok(2))
  have "(8200 :: 64 word) < MAXVA" "vpn 8192 = 2" "vpn 8200 = 2" by (simp_all add: MAXVA_def vpn_def)
  then show ?thesis using r by fastforce
qed

end
