(* ===== verification/XvUserMem.thy ===== *)
theory XvUserMem
  imports XvVm
begin

unbundle bit_operations_syntax

text \<open>
  The memory of a user process as the calls of \<open>vm.c\<close> show it: a map from addresses to bytes, in which a page
  that \<open>sbrk\<close> promised and nobody has touched reads as zeros. A page fault does not change this map,
  \<open>copyin\<close> reads it and \<open>copyout\<close> updates it.
\<close>

section \<open>Bytes in memory\<close>

lemma load_store_byte: "load_byte a (store_byte c b k) = (if a = c then b else load_byte a k)"
proof (cases "a - a mod 8 = c - c mod 8")
  case True
  let ?w = "load (a - a mod 8) k"
  have e: "a = c \<longleftrightarrow> a mod 8 = c mod 8" using True by (metis mod_less_eq_dividend le_add_diff_inverse2)
  have l: "a mod 8 < 8" "c mod 8 < 8" by simp_all
  have m: "bit (0xFF :: 64 word) n \<longleftrightarrow> n < 8" for n
    using bit_mask_iff [where 'a = "64 word", of 8 n] by (auto simp: mask_eq_exp_minus_1)
  have "ucast (drop_bit (8 * i) (w AND NOT (push_bit (8 * j) 0xFF) OR push_bit (8 * j) (ucast b))) =
      (if i = j then b else ucast (drop_bit (8 * i) w) :: byte)" if "i < 8" "j < 8" for i j :: nat and w :: "64 word"
  proof (rule bit_word_eqI)
    fix n assume "n < LENGTH(8)"
    then have n: "n < 8" by simp
    consider "i = j" | "i < j" | "j < i" by linarith
    then show "bit (ucast (drop_bit (8 * i) (w AND NOT (push_bit (8 * j) 0xFF) OR push_bit (8 * j) (ucast b))) :: byte) n \<longleftrightarrow>
      bit (if i = j then b else ucast (drop_bit (8 * i) w) :: byte) n"
    proof cases
      case 1
      then show ?thesis using n that m [of n] by (auto simp: bit_simps)
    next
      case 2
      then have "8 * i + n < 8 * j" using n by linarith
      then show ?thesis using n that 2 by (auto simp: bit_simps m)
    next
      case 3
      then have "8 \<le> 8 * i + n - 8 * j" by linarith
      then show ?thesis using n that 3 m [of "8 * i + n - 8 * j"] bit_imp_le_length [of b "8 * i + n - 8 * j"]
        by (auto simp: bit_simps)
    qed
  qed
  from this [OF l, of ?w] show ?thesis using True e by (simp add: load_byte_def store_byte_def)
qed (auto simp: load_byte_def store_byte_def)

lemma load_store_bytes:
  "load_byte a (store_bytes c bs k) = (if c \<le> a \<and> a < c + length bs then bs ! (a - c) else load_byte a k)"
  by (induction c bs k rule: store_bytes.induct) (auto simp: load_store_byte nth_Cons' le_Suc_eq)

lemma store_byte_page:
  assumes "q mod PGSIZE = 0" "in_page a q" "\<not> in_page b q" shows "mem (store_byte a x k) b = mem k b"
proof -
  obtain t where "q = 8 * t" using assms(1) by (auto simp: PGSIZE_def mod_eq_0_iff_dvd elim!: dvdE)
  then have "q \<le> a - a mod 8" using assms(2) by (auto simp: in_page_def) (presburger)
  then have "in_page (a - a mod 8) q" using assms(2) by (auto simp: in_page_def)
  then show ?thesis using assms(3) by (auto simp: store_byte_def store_def)
qed

lemma store_bytes_page:
  assumes "q mod PGSIZE = 0" "\<And>i. i < length bs \<Longrightarrow> in_page (a + i) q" "\<not> in_page b q"
  shows "mem (store_bytes a bs k) b = mem k b"
  using assms(2)
proof (induction a bs k rule: store_bytes.induct)
  case (2 a x bs k)
  have "in_page (a + 1 + i) q" if "i < length bs" for i using 2(2) [of "Suc i"] that by simp
  then show ?case using 2(1) 2(2) [of 0] store_byte_page [OF assms(1) _ assms(3)] by simp
qed simp

lemma store_bytes_freelist [simp]: "freelist (store_bytes a bs k) = freelist k"
  by (induction a bs k rule: store_bytes.induct) (simp_all add: store_byte_def)

text \<open>The bytes of a page depend on its words only.\<close>

lemma load_byte_cong:
  assumes "q mod PGSIZE = 0" "in_page a q" "\<And>b. in_page b q \<Longrightarrow> mem k' b = mem k b"
  shows "load_byte a k' = load_byte a k"
proof -
  obtain t where "q = 8 * t" using assms(1) by (auto simp: PGSIZE_def mod_eq_0_iff_dvd elim!: dvdE)
  then have "q \<le> a - a mod 8" using assms(2) by (auto simp: in_page_def) (presburger)
  then have "in_page (a - a mod 8) q" using assms(2) by (auto simp: in_page_def)
  then show ?thesis using assms(3) by (simp add: load_byte_def load_def)
qed

section \<open>Pages that are not in the table\<close>

lemma other_page:
  assumes ok: "pt_ok kend k pt owned" and q: "q mod PGSIZE = 0" "q \<notin> table k pt"
    and m: "\<And>b. \<not> in_page b q \<Longrightarrow> mem k' b = mem k b"
    and o: "kmem_ok kend k' owned'" "table k pt \<subseteq> owned'"
  shows "table k' pt = table k pt" "pt_ok kend k' pt owned'" "view k' pt = view k pt"
    "inner is \<Longrightarrow> node k' pt is = node k pt is"
proof -
  have l: "load (p + 8 * x) k' = load (p + 8 * x) k" if "inner xs" "node k pt xs = Some p" "x < 512" for xs p x
  proof (rule load_cong [OF m])
    have p: "p \<in> table k pt" using that(1,2) by (auto simp: table_def)
    then have "p mod PGSIZE = 0" using ok owned_page [OF pt_okD(2) [OF ok]] page_facts(1) by (auto simp: pt_ok_def)
    then show "\<not> in_page (p + 8 * x) q" using in_table_page [OF _ q(1) that(3)] p q(2) by auto
  qed
  have n: "node k' pt is = node k pt is" if "inner is" for "is"
  proof (rule tree_same [OF _ that])
    fix xs x p assume i: "inner (xs @ [x])" and n: "node k pt xs = Some p"
    then have "inner xs" "x < 512" by (auto simp: inner_def)
    then show "load (p + 8 * x) k' = load (p + 8 * x) k" using l n by blast
  qed
  show "table k' pt = table k pt" by (rule table_same) (rule n)
  show "pt_ok kend k' pt owned'" by (rule pt_ok_same [OF ok n o])
  show "inner is \<Longrightarrow> node k' pt is = node k pt is" by (rule n)
  show "view k' pt = view k pt"
    using n [OF inner_route(1)] l [OF inner_route(1) _ PX_bound] by (simp add: view_def fun_eq_iff split: option.split)
qed

lemma alloc_page:
  assumes ok: "pt_ok kend k pt owned" and a: "kalloc k = (q, k1)" "q \<noteq> 0"
  shows "q \<notin> owned" "q \<in> pages kend" "pt_ok kend (set_page 0 q k1) pt (insert q owned)"
    "table (set_page 0 q k1) pt = table k pt" "view (set_page 0 q k1) pt = view k pt"
    "\<not> in_page b q \<Longrightarrow> mem (set_page 0 q k1) b = mem k b" "in_page c q \<Longrightarrow> load_byte c (set_page 0 q k1) = 0"
proof -
  have K: "q \<in> pages kend" "q \<notin> owned" "kmem_ok kend k1 (insert q owned)"
    using kalloc_ok [OF pt_okD(2) [OF ok] a(1)] a(2) by simp_all
  then show "q \<notin> owned" "q \<in> pages kend" by blast+
  note q = page_facts(1) [OF K(1)]
  have t: "table k pt \<subseteq> owned" using ok by (simp add: pt_ok_def)
  have m: "mem (set_page 0 q k1) b = mem k b" if "\<not> in_page b q" for b
    using kalloc_mem [OF a(1) that] that by (simp add: set_page_def fill_page_other)
  then show "\<not> in_page b q \<Longrightarrow> mem (set_page 0 q k1) b = mem k b" .
  have "kmem_ok kend (set_page 0 q k1) (insert q owned)" unfolding set_page_def
    by (rule kmem_ok_write [OF K(3)]) (simp add: fill_page_other)
  note O = other_page [OF ok q _ m this]
  show "pt_ok kend (set_page 0 q k1) pt (insert q owned)" "table (set_page 0 q k1) pt = table k pt"
    "view (set_page 0 q k1) pt = view k pt"
    using O K(2) t by blast+
  assume c: "in_page c q"
  obtain s where "q = 8 * s" using q by (auto simp: PGSIZE_def mod_eq_0_iff_dvd elim!: dvdE)
  then have "q \<le> c - c mod 8" using c by (auto simp: in_page_def) (presburger)
  then have "in_page (c - c mod 8) q" using c by (auto simp: in_page_def)
  then show "load_byte c (set_page 0 q k1) = 0" by (simp add: load_byte_def load_set_page)
qed

lemma free_page:
  assumes ok: "pt_ok kend k pt owned" and q: "q \<in> owned" "q \<notin> table k pt"
  obtains k' where "kfree kend q k = Inr k'" "pt_ok kend k' pt (owned - {q})" "table k' pt = table k pt" "view k' pt = view k pt"
    "\<And>b. \<not> in_page b q \<Longrightarrow> mem k' b = mem k b"
proof -
  obtain k' where f: "kfree kend q k = Inr k'" "kmem_ok kend k' (owned - {q})"
    using kfree_ok [OF pt_okD(2) [OF ok] q(1) pt_okD(1) [OF ok]] by blast
  have qa: "q mod PGSIZE = 0" using page_facts(1) owned_page [OF pt_okD(2) [OF ok] q(1)] by blast
  have t: "table k pt \<subseteq> owned - {q}" using ok q(2) by (auto simp: pt_ok_def)
  have m: "mem k' b = mem k b" if "\<not> in_page b q" for b using kfree_mem [OF f(1) that] .
  note O = other_page [OF ok qa q(2) m f(2) t]
  show ?thesis by (rule that [OF f(1)]) (use O m in auto)
qed

section \<open>The memory of a process\<close>

lemma round_down: "unat (PGROUNDDOWN a) = unat a - unat a mod 4096" "vpn (PGROUNDDOWN a) = vpn a" "PGROUNDDOWN a mod 4096 = 0"
  "PGROUNDDOWN a \<le> a" "unat (a - PGROUNDDOWN a) = unat a mod 4096"
proof -
  have "a AND NOT 4095 = a AND NOT (mask 12)" by (simp add: mask_eq_exp_minus_1)
  also have "\<dots> = push_bit 12 (drop_bit 12 a)" by (rule bit_word_eqI) (auto simp: bit_simps)
  finally have e: "PGROUNDDOWN a = push_bit 12 (drop_bit 12 a)" by (simp add: PGROUNDDOWN_def)
  have u: "unat (push_bit 12 (drop_bit 12 a)) = unat a div 4096 * 4096"
  proof -
    have "unat a < 2 ^ LENGTH(64)" by (rule unsigned_less)
    then have "unat a div 4096 * 4096 < 2 ^ 64" by simp
    then show ?thesis unfolding unsigned_push_bit_eq unat_drop_bit_eq
      by (simp add: drop_bit_eq_div push_bit_eq_mult take_bit_nat_eq_self)
  qed
  show r: "unat (PGROUNDDOWN a) = unat a - unat a mod 4096" unfolding e u by (simp add: minus_mod_eq_div_mult)
  then show "vpn (PGROUNDDOWN a) = vpn a" unfolding e u vpn_def by simp
  show "PGROUNDDOWN a mod 4096 = 0" using u by (simp add: e word_unat_eq_iff unat_mod)
  show le: "PGROUNDDOWN a \<le> a" using r by (simp add: word_le_nat_alt)
  show "unat (a - PGROUNDDOWN a) = unat a mod 4096" using le r by (simp add: unat_sub)
qed

lemma round_down_vpn: "unat (PGROUNDDOWN a) = 4096 * vpn a"
  by (simp add: round_down(1) vpn_def minus_mod_eq_mult_div)

text \<open>
  The byte at an address, as the process may use it: none outside, on the guard page and in the kernel's
  pages, zero in a page that is not there yet.
\<close>

definition umem :: "kmem \<Rightarrow> uproc \<Rightarrow> 64 word \<rightharpoonup> byte" where
  "umem k p va =
     (if va \<ge> MAXVA then None
      else case view k (pagetable p) va of
          Some e \<Rightarrow> if on e PTE_U then Some (load_byte (PTE2PA e + unat va mod 4096) k) else None
        | None \<Rightarrow> if PGROUNDDOWN va < psize p then Some 0 else None)"

definition user_ok :: "nat \<Rightarrow> kmem \<Rightarrow> uproc \<Rightarrow> nat set \<Rightarrow> bool" where
  "user_ok kend k p owned \<longleftrightarrow> pt_ok kend k (pagetable p) owned \<and> psize p \<le> TRAPFRAME \<and>
     (\<forall>v e. v < MAXVA \<and> view k (pagetable p) v = Some e \<and> on e PTE_U \<longrightarrow> PTE2PA e \<in> owned - table k (pagetable p)) \<and>
     (\<forall>v e v' e'. v < MAXVA \<and> v' < MAXVA \<and> view k (pagetable p) v = Some e \<and> view k (pagetable p) v' = Some e' \<and>
       on e PTE_U \<and> on e' PTE_U \<and> PTE2PA e = PTE2PA e' \<longrightarrow> vpn v = vpn v')"

lemma user_okD:
  assumes "user_ok kend k p owned"
  shows "pt_ok kend k (pagetable p) owned" "psize p \<le> TRAPFRAME"
    "v < MAXVA \<Longrightarrow> view k (pagetable p) v = Some e \<Longrightarrow> on e PTE_U \<Longrightarrow> PTE2PA e \<in> owned \<and> PTE2PA e \<notin> table k (pagetable p)"
    "v < MAXVA \<Longrightarrow> v' < MAXVA \<Longrightarrow> view k (pagetable p) v = Some e \<Longrightarrow> view k (pagetable p) v' = Some e' \<Longrightarrow>
      on e PTE_U \<Longrightarrow> on e' PTE_U \<Longrightarrow> PTE2PA e = PTE2PA e' \<Longrightarrow> vpn v = vpn v'"
  using assms unfolding user_ok_def by blast+

lemma view_vpn: "v < MAXVA \<Longrightarrow> v' < MAXVA \<Longrightarrow> vpn v = vpn v' \<Longrightarrow> view k pt v = view k pt v'"
proof -
  assume "v < MAXVA" "v' < MAXVA" "vpn v = vpn v'"
  then have e: "route v = route v'" "PX 0 v = PX 0 v'" using same_page [of v' v] by blast+
  show ?thesis unfolding view_def e ..
qed

lemma in_page_off: "in_page (p + n mod 4096) p"
  by (simp add: in_page_def PGSIZE_def)

lemma user_byte_same:
  assumes ok: "user_ok kend k p owned" and va: "va < MAXVA"
    and m: "\<And>r b. r \<in> owned \<Longrightarrow> r \<notin> table k (pagetable p) \<Longrightarrow> in_page b r \<Longrightarrow> mem k' b = mem k b"
    and e: "view k (pagetable p) va = Some e" "on e PTE_U"
  shows "load_byte (PTE2PA e + unat va mod 4096) k' = load_byte (PTE2PA e + unat va mod 4096) k"
proof (rule load_byte_cong)
  note P = user_okD(3) [OF ok va e]
  show "PTE2PA e mod PGSIZE = 0" using P owned_page [OF pt_okD(2) [OF user_okD(1) [OF ok]]] page_facts(1) by blast
  show "in_page (PTE2PA e + unat va mod 4096) (PTE2PA e)" by (rule in_page_off)
  show "in_page b (PTE2PA e) \<Longrightarrow> mem k' b = mem k b" for b using P m by blast
qed

lemma umem_same:
  assumes ok: "user_ok kend k p owned" and v: "\<And>v. v < MAXVA \<Longrightarrow> view k' (pagetable p) v = view k (pagetable p) v"
    and m: "\<And>r b. r \<in> owned \<Longrightarrow> r \<notin> table k (pagetable p) \<Longrightarrow> in_page b r \<Longrightarrow> mem k' b = mem k b"
  shows "umem k' p = umem k p"
proof
  fix va
  show "umem k' p va = umem k p va"
  proof (cases "va < MAXVA")
    case True
    then show ?thesis using v [OF True] user_byte_same [OF ok True m] by (auto simp: umem_def not_le split: option.split)
  qed (simp add: umem_def not_less)
qed

lemma on_or: "on (a OR b) f \<longleftrightarrow> on a f \<or> on b f"
  by (simp add: on_def bit.conj_disj_distrib2 or_eq_0_iff)

lemma user_entry:
  assumes "q \<in> pages kend"
  shows "PTE2PA (PA2PTE q OR (PTE_W OR PTE_U OR PTE_R) OR PTE_V) = q"
    "on (PA2PTE q OR (PTE_W OR PTE_U OR PTE_R) OR PTE_V) PTE_U" "on (PA2PTE q OR (PTE_W OR PTE_U OR PTE_R) OR PTE_V) PTE_W"
proof -
  show "PTE2PA (PA2PTE q OR (PTE_W OR PTE_U OR PTE_R) OR PTE_V) = q"
    by (rule PTE2PA_pte [OF page_facts(1,3) [OF assms]]) (simp add: PTE_W_def PTE_U_def PTE_R_def PTE_V_def)
  have "on PTE_U PTE_U" "on PTE_W PTE_W" by (simp_all add: on_def PTE_U_def PTE_W_def)
  then show "on (PA2PTE q OR (PTE_W OR PTE_U OR PTE_R) OR PTE_V) PTE_U"
    "on (PA2PTE q OR (PTE_W OR PTE_U OR PTE_R) OR PTE_V) PTE_W" unfolding on_or by blast+
qed

lemma walkaddr_view:
  assumes ok: "pt_ok kend k pt owned"
  shows "walkaddr pt va k = (if va < MAXVA then case view k pt va of
      Some e \<Rightarrow> if on e PTE_U then PTE2PA e else 0 | None \<Rightarrow> 0 else 0)"
proof (cases "va < MAXVA")
  case True
  then show ?thesis by (auto simp: walkaddr_def walk_find [OF ok True] view_def split: option.split)
next
  case False
  then show ?thesis by (simp add: walkaddr_def walk_def not_le [symmetric])
qed

lemma ismapped_view:
  assumes ok: "pt_ok kend k pt owned" and va: "va < MAXVA"
  shows "ismapped pt va k = Inr (view k pt va \<noteq> None)"
  by (auto simp: ismapped_def walk_find [OF ok va] view_def split: option.split)

text \<open>Mapping one page.\<close>

lemma mappages_one:
  assumes ok: "pt_ok kend k pt owned" and a: "va < MAXVA" "va mod 4096 = 0" and n: "view k pt va = None"
  obtains k' where "mappages pt va 4096 pa perm k = Inr (-1, k')" "keeps kend pt k owned k' (pages kend)"
      "view k' pt = view k pt"
  | k' owned' where "mappages pt va 4096 pa perm k = Inr (0, k')" "keeps kend pt k owned k' owned'"
      "\<And>v. v < MAXVA \<Longrightarrow> view k' pt v = (if vpn v = vpn va then Some (PA2PTE pa OR perm OR PTE_V) else view k pt v)"
proof -
  have m: "mappages pt va 4096 pa perm k = mappages_loop pt va va pa perm k" using a(2) by (simp add: mappages_def)
  show ?thesis
    by (rule mappages_step [OF ok a(1) n, where final = va and pa = pa and perm = perm])
      (use that m in auto)
qed

lemma TRAPFRAME_below: "sz \<le> TRAPFRAME \<Longrightarrow> va < sz \<Longrightarrow> va < MAXVA"
  by (simp add: TRAPFRAME_def TRAMPOLINE_def MAXVA_def word_less_nat_alt word_le_nat_alt)

text \<open>Memory has run out: all pages but at most one are in use.\<close>

definition full :: "nat \<Rightarrow> nat set \<Rightarrow> bool" where
  "full kend owned \<longleftrightarrow> (\<exists>q. pages kend \<subseteq> insert q owned)"

lemma vmfault_effect:
  assumes ok: "user_ok kend k p owned"
  obtains r k' owned' where "vmfault kend p (pagetable p) va k = Inr (r, k')" "user_ok kend k' p owned'" "owned \<subseteq> owned'"
    "umem k' p = umem k p" "\<And>q b. q \<in> owned \<Longrightarrow> q \<notin> table k (pagetable p) \<Longrightarrow> in_page b q \<Longrightarrow> mem k' b = mem k b"
    "r = 0 \<Longrightarrow> va \<ge> psize p \<or> view k (pagetable p) va \<noteq> None \<or> full kend owned' \<and> view k' (pagetable p) va = None"
    "r \<noteq> 0 \<Longrightarrow> va < psize p \<and> (\<exists>e. view k' (pagetable p) va = Some e \<and> on e PTE_U \<and> on e PTE_W \<and> PTE2PA e = r)"
proof -
  let ?pt = "pagetable p" and ?va = "PGROUNDDOWN va"
  note result = that and U = user_okD [OF ok]
  have unfaulted: ?thesis if "vmfault kend p ?pt va k = Inr (0, k)" "va \<ge> psize p \<or> view k ?pt va \<noteq> None \<or> full kend owned \<and> view k ?pt va = None"
    by (rule result [of 0 k owned]) (use that ok in simp_all)
  show ?thesis
  proof (cases "va \<ge> psize p")
    case True
    then show ?thesis by (intro unfaulted) (simp_all add: vmfault_def)
  next
    case False
    have va: "va < MAXVA" using False U(2) TRAPFRAME_below by (simp add: not_le)
    have vr: "?va < MAXVA" "vpn ?va = vpn va" "?va mod 4096 = 0" using round_down(2-4) [of va] va by (auto intro: le_less_trans)
    have vv: "view k ?pt ?va = view k ?pt va" by (rule view_vpn [OF vr(1) va vr(2)])
    show ?thesis
    proof (cases "view k ?pt va")
      case (Some e)
      then show ?thesis using False ismapped_view [OF U(1) vr(1)] vv by (intro unfaulted) (simp_all add: vmfault_def Let_def)
    next
      case None
      obtain q k0 where a: "kalloc k = (q, k0)" by fastforce
      show ?thesis
      proof (cases "q = 0")
        case True
        then have "k0 = k" "owned = pages kend" using kalloc_ok [OF pt_okD(2) [OF U(1)] a] by simp_all
        then show ?thesis using False ismapped_view [OF U(1) vr(1)] vv None a True
          by (intro unfaulted) (auto simp: vmfault_def Let_def full_def)
      next
        case q: False
        note A = alloc_page [OF U(1) a q]
        let ?k = "set_page 0 q k0"
        have nv: "view ?k ?pt ?va = None" using vv None A(5) by simp
        have step: "vmfault kend p ?pt va k = (case mappages ?pt ?va 4096 q (PTE_W OR PTE_U OR PTE_R) ?k of
            Inl e \<Rightarrow> Inl e
          | Inr (r, k) \<Rightarrow> if r \<noteq> 0 then (case kfree kend q k of Inl e \<Rightarrow> Inl e | Inr k \<Rightarrow> Inr (0, k)) else Inr (q, k))"
          using False ismapped_view [OF U(1) vr(1)] vv None a q by (simp add: vmfault_def Let_def)
        have own: "r \<in> owned \<Longrightarrow> in_page b r \<Longrightarrow> \<not> in_page b q" for r b
          using pages_apart page_facts(1) owned_page [OF pt_okD(2) [OF U(1)]] A(1,2) by metis
        show ?thesis
        proof (cases rule: mappages_one [OF A(3) vr(1,3) nv, where pa = q and perm = "PTE_W OR PTE_U OR PTE_R"])
          case (1 k1)
          note K = keepsD [OF 1(2)]
          have "q \<notin> table k1 ?pt" "q \<in> pages kend" using K(3) A(1,2,4) U(1) by (auto simp: pt_ok_def)
          then obtain k2 where f: "kfree kend q k1 = Inr k2" "pt_ok kend k2 ?pt (pages kend - {q})"
            "table k2 ?pt = table k1 ?pt" "view k2 ?pt = view k1 ?pt" "\<And>b. \<not> in_page b q \<Longrightarrow> mem k2 b = mem k1 b"
            using free_page [OF K(1)] by metis
          have m: "mem k2 b = mem k b" if "r \<in> owned" "r \<notin> table k ?pt" "in_page b r" for r b
            using f(5) [OF own [OF that(1,3)]] K(4) [of r b] that A(4) A(6) [OF own [OF that(1,3)]] by simp
          have v: "view k2 ?pt = view k ?pt" using f(4) 1(3) A(5) by simp
          have sub: "owned \<subseteq> pages kend - {q}" using K(2) A(1) by blast
          have "user_ok kend k2 p (pages kend - {q})"
            using f(2,3) U(2-4) sub K(3) A(4) unfolding user_ok_def v by blast
          then show ?thesis
            using result [of 0 k2 "pages kend - {q}"] step 1(1) f(1) sub umem_same [OF ok _ m] v m None by (auto simp: full_def)
        next
          case (2 k1 owned1)
          note K = keepsD [OF 2(2)]
          let ?e = "PA2PTE q OR (PTE_W OR PTE_U OR PTE_R) OR PTE_V"
          have e: "PTE2PA ?e = q" "on ?e PTE_U" "on ?e PTE_W" by (rule user_entry [OF A(2)])+
          have m: "mem k1 b = mem k b" if "r \<in> owned" "r \<notin> table k ?pt" "in_page b r" for r b
            using K(4) [of r b] that A(4) A(6) [OF own [OF that(1,3)]] by simp
          have qt: "q \<in> owned1" "q \<notin> table k1 ?pt" using K(2,3) A(1,4) U(1) by (auto simp: pt_ok_def)
          have v: "view k1 ?pt v = (if vpn v = vpn va then Some ?e else view k ?pt v)" if "v < MAXVA" for v
            using 2(3) [OF that] vr(2) A(5) by simp
          have old: "PTE2PA d \<in> owned \<and> PTE2PA d \<notin> table k ?pt \<and> PTE2PA d \<in> owned1 \<and> PTE2PA d \<notin> table k1 ?pt \<and> PTE2PA d \<noteq> q"
            if "w < MAXVA" "view k ?pt w = Some d" "on d PTE_U" for w d
            using U(3) [OF that] K(2,3) A(1,4) by auto
          have "user_ok kend k1 p owned1" unfolding user_ok_def
          proof (intro conjI allI impI)
            fix w d assume "w < MAXVA \<and> view k1 ?pt w = Some d \<and> on d PTE_U"
            then show "PTE2PA d \<in> owned1 - table k1 ?pt" using v old qt e(1) by (cases "vpn w = vpn va") auto
          next
            fix w d w' d'
            assume a: "w < MAXVA \<and> w' < MAXVA \<and> view k1 ?pt w = Some d \<and> view k1 ?pt w' = Some d' \<and>
              on d PTE_U \<and> on d' PTE_U \<and> PTE2PA d = PTE2PA d'"
            have fresh: "PTE2PA c = q \<longleftrightarrow> vpn x = vpn va" if "x < MAXVA" "view k1 ?pt x = Some c" "on c PTE_U" for x c
              using v [OF that(1)] old [OF that(1)] that e(1) by (cases "vpn x = vpn va") auto
            show "vpn w = vpn w'"
            proof (cases "PTE2PA d = q")
              case True
              then show ?thesis using fresh [of w d] fresh [of w' d'] a by simp
            next
              case False
              then have "vpn w \<noteq> vpn va" "vpn w' \<noteq> vpn va" using fresh [of w d] fresh [of w' d'] a by simp_all
              then show ?thesis using v [of w] v [of w'] U(4) [of w w' d d'] a by simp
            qed
          qed (use K(1) U(2) in simp_all)
          moreover have "umem k1 p = umem k p"
          proof
            fix w
            show "umem k1 p w = umem k p w"
            proof (cases "w < MAXVA \<and> vpn w = vpn va")
              case True
              then have w: "view k ?pt w = None" "view k1 ?pt w = Some ?e"
                using v None view_vpn [of w va k ?pt] va by simp_all
              have "PGROUNDDOWN w = ?va" using True by (simp add: word_unat_eq_iff round_down_vpn)
              then have "PGROUNDDOWN w < psize p" using round_down(4) [of va] False by (auto intro: le_less_trans)
              have "load_byte (q + unat w mod 4096) k1 = load_byte (q + unat w mod 4096) ?k"
                by (rule load_byte_cong [OF page_facts(1) [OF A(2)] in_page_off]) (use K(4) A(1,4) U(1) in \<open>auto simp: pt_ok_def\<close>)
              then have "load_byte (q + unat w mod 4096) k1 = 0" using A(7) [OF in_page_off] by simp
              with \<open>PGROUNDDOWN w < psize p\<close> show ?thesis using True w e by (simp add: umem_def not_le)
            next
              case other: False
              show ?thesis
              proof (cases "w < MAXVA")
                case True
                then have "view k1 ?pt w = view k ?pt w" using v other by simp
                then show ?thesis using user_byte_same [OF ok True m] True by (auto simp: umem_def not_le split: option.split)
              qed (simp add: umem_def not_less)
            qed
          qed
          ultimately show ?thesis
            using result [of q k1 owned1] step 2(1) False K(2) A(1) m v [OF va] e q by auto
        qed
      qed
    qed
  qed
qed

section \<open>Copying\<close>

lemma below_MAXVA: "v < MAXVA \<longleftrightarrow> vpn v < 67108864"
proof -
  have "vpn v < 67108864 \<longleftrightarrow> unat v < 67108864 * 4096" unfolding vpn_def by (rule div_less_iff_less_mult) simp
  then show ?thesis by (simp add: MAXVA_unat)
qed

lemma umem_page:
  assumes "vpn v = vpn v'" shows "umem k p v = None \<longleftrightarrow> umem k p v' = None"
proof (cases "v < MAXVA")
  case True
  then have v': "v' < MAXVA" using assms by (simp add: below_MAXVA)
  have "PGROUNDDOWN v = PGROUNDDOWN v'" using assms by (simp add: word_unat_eq_iff round_down_vpn)
  then show ?thesis using view_vpn [OF True v' assms, of k "pagetable p"] True v'
    by (auto simp: umem_def not_le split: option.split)
next
  case False
  then have "\<not> v' < MAXVA" using assms by (simp add: below_MAXVA)
  then show ?thesis using False by (simp add: umem_def not_less)
qed

text \<open>
  An address that cannot be used: the process has no memory there, or its page is still to come and the
  physical memory has run out.
\<close>

definition blocked :: "nat \<Rightarrow> nat set \<Rightarrow> kmem \<Rightarrow> uproc \<Rightarrow> 64 word \<Rightarrow> bool" where
  "blocked kend owned k p v \<longleftrightarrow> umem k p v = None \<or> full kend owned \<and> view k (pagetable p) v = None"

lemma blocked_page:
  assumes "vpn v = vpn v'" "blocked kend owned k p v" shows "blocked kend owned k p v'"
proof (cases "v < MAXVA")
  case True
  then have "v' < MAXVA" using assms(1) by (simp add: below_MAXVA)
  then show ?thesis using assms view_vpn [OF True _ assms(1)] umem_page [OF assms(1)] by (auto simp: blocked_def)
next
  case False
  then have "\<not> v' < MAXVA" using assms(1) by (simp add: below_MAXVA)
  then show ?thesis by (simp add: blocked_def umem_def not_less)
qed

lemma fault_in_effect:
  assumes ok: "user_ok kend k p owned" and al: "va mod 4096 = 0"
  obtains r k' owned' where "fault_in kend p (pagetable p) va k = Inr (r, k')" "user_ok kend k' p owned'" "owned \<subseteq> owned'"
    "umem k' p = umem k p" "r = 0 \<Longrightarrow> blocked kend owned' k' p va"
    "r \<noteq> 0 \<Longrightarrow> va < MAXVA \<and> (\<exists>e. view k' (pagetable p) va = Some e \<and> on e PTE_U \<and> PTE2PA e = r)"
proof -
  let ?pt = "pagetable p"
  note result = that and U = user_okD [OF ok]
  have rd: "PGROUNDDOWN va = va"
    using al by (simp add: word_unat_eq_iff round_down(1) unat_mod)
  show ?thesis
  proof (cases "walkaddr ?pt va k = 0")
    case False
    then have "va < MAXVA \<and> (\<exists>e. view k ?pt va = Some e \<and> on e PTE_U \<and> PTE2PA e = walkaddr ?pt va k)"
      by (auto simp: walkaddr_view [OF U(1)] split: option.splits if_splits)
    then show ?thesis using result [of "walkaddr ?pt va k" k owned] False ok by (simp add: fault_in_def)
  next
    case True
    have n: "umem k p va = None" if "view k ?pt va \<noteq> None \<or> va \<ge> psize p"
    proof (cases "va < MAXVA")
      case v: True
      have z: "PTE2PA e \<noteq> 0" if "view k ?pt va = Some e" "on e PTE_U" for e
        using U(3) [OF v that] owned_page [OF pt_okD(2) [OF U(1)]] page_facts(2) pt_okD(1) [OF U(1)] by fastforce
      show ?thesis
        using True that z v rd by (auto simp: umem_def walkaddr_view [OF U(1)] not_le split: option.splits if_splits)
    qed (simp add: umem_def not_less)
    show ?thesis
    proof (rule vmfault_effect [OF ok, of va])
      fix r k' owned'
      assume f: "vmfault kend p ?pt va k = Inr (r, k')" "user_ok kend k' p owned'" "owned \<subseteq> owned'" "umem k' p = umem k p"
        "r = 0 \<Longrightarrow> va \<ge> psize p \<or> view k ?pt va \<noteq> None \<or> full kend owned' \<and> view k' ?pt va = None"
        "r \<noteq> 0 \<Longrightarrow> va < psize p \<and> (\<exists>e. view k' ?pt va = Some e \<and> on e PTE_U \<and> on e PTE_W \<and> PTE2PA e = r)"
      show ?thesis
      proof (rule result [OF _ f(2-4)])
        show "fault_in kend p ?pt va k = Inr (r, k')" using True f(1) by (simp add: fault_in_def)
        show "r = 0 \<Longrightarrow> blocked kend owned' k' p va" using f(4,5) n unfolding blocked_def by auto
        show "r \<noteq> 0 \<Longrightarrow> va < MAXVA \<and> (\<exists>e. view k' ?pt va = Some e \<and> on e PTE_U \<and> PTE2PA e = r)"
          using f(6) TRAPFRAME_below [OF U(2)] by blast
      qed
    qed
  qed
qed

text \<open>What lies within one page.\<close>

lemma within_page:
  assumes "va < MAXVA" "unat va mod 4096 + n \<le> 4096" "i < n"
  shows "unat (va + of_nat i) = unat va + i" "vpn (va + of_nat i) = vpn va" "va + of_nat i < MAXVA"
    "unat (va + of_nat i) mod 4096 = unat va mod 4096 + i"
proof -
  have i: "i < 4096" "unat va mod 4096 + i < 4096" using assms(2,3) by linarith+
  have "unat (of_nat i :: 64 word) = i" using i(1) by (simp add: unsigned_of_nat take_bit_nat_eq_self)
  moreover have "unat va < 2 ^ 38" using assms(1) by (simp add: MAXVA_unat)
  ultimately show u: "unat (va + of_nat i) = unat va + i" using i(1) by (subst unat_add_lem [THEN iffD1]) simp_all
  have d: "unat va + i = vpn va * 4096 + (unat va mod 4096 + i)" by (simp add: vpn_def)
  have "(unat va + i) div 4096 = vpn va" "(unat va + i) mod 4096 = unat va mod 4096 + i"
    unfolding d using i(2) by simp_all
  then show v: "vpn (va + of_nat i) = vpn va" and "unat (va + of_nat i) mod 4096 = unat va mod 4096 + i"
    by (simp_all add: vpn_def u)
  show "va + of_nat i < MAXVA" using assms(1) by (simp add: below_MAXVA v)
qed

lemma umem_mapped:
  "va < MAXVA \<Longrightarrow> view k (pagetable p) va = Some e \<Longrightarrow> on e PTE_U \<Longrightarrow>
     umem k p va = Some (load_byte (PTE2PA e + unat va mod 4096) k)"
  by (simp add: umem_def not_le [symmetric])

text \<open>The address of a byte of a page.\<close>

lemma byte_of_page:
  assumes va: "va < MAXVA" "unat va mod 4096 + n \<le> 4096" and v: "unat va \<le> unat v" "unat v < unat va + n"
  shows "v = va + of_nat (unat v - unat va)" "vpn v = vpn va" "v < MAXVA" "unat v mod 4096 = unat va mod 4096 + (unat v - unat va)"
proof -
  have i: "unat v - unat va < n" using v by linarith
  note W = within_page [OF va i]
  show e: "v = va + of_nat (unat v - unat va)" using W(1) v(1) by (simp add: word_unat_eq_iff)
  show "vpn v = vpn va" "v < MAXVA" "unat v mod 4096 = unat va mod 4096 + (unat v - unat va)"
    using W(2-4) unfolding e [symmetric] .
qed

lemma copyin_page:
  assumes va: "va < MAXVA" "unat va mod 4096 + n \<le> 4096" and e: "view k (pagetable p) va = Some e" "on e PTE_U"
    and v: "unat va \<le> unat v" "unat v < unat va + n"
  shows "umem k p v = Some (load_bytes (PTE2PA e + unat va mod 4096) n k ! (unat v - unat va))"
proof -
  note B = byte_of_page [OF va v]
  have "view k (pagetable p) v = Some e" using view_vpn [OF B(3) va(1) B(2)] e(1) by simp
  from umem_mapped [OF B(3) this e(2)] have u: "umem k p v = Some (load_byte (PTE2PA e + unat va mod 4096 + (unat v - unat va)) k)"
    unfolding B(4) add.assoc .
  have i: "unat v - unat va < n" using v by linarith
  show ?thesis unfolding u load_bytes_def using i by simp
qed

definition delivered :: "kmem \<Rightarrow> uproc \<Rightarrow> 64 word \<Rightarrow> byte list \<Rightarrow> bool" where
  "delivered k p va bs \<longleftrightarrow> (\<forall>v. unat va \<le> unat v \<and> unat v < unat va + length bs \<longrightarrow> umem k p v = Some (bs ! (unat v - unat va)))"

lemma delivered_append:
  assumes "delivered k p va bs" "delivered k p va' cs" "unat va' = unat va + length bs"
  shows "delivered k p va (bs @ cs)"
  using assms by (auto simp: delivered_def nth_append)

lemma next_page_start:
  assumes "va < MAXVA" "n = 4096 - unat va mod 4096"
  shows "unat (PGROUNDDOWN va + 4096) = unat va + n"
proof -
  have "PGROUNDDOWN va < MAXVA" using round_down(4) [of va] assms(1) by (rule le_less_trans)
  then have "unat (PGROUNDDOWN va + 4096) = unat (PGROUNDDOWN va) + 4096" using page_above(2) [of "PGROUNDDOWN va"] by simp
  moreover have "unat va mod 4096 < 4096" "unat va mod 4096 \<le> unat va" by simp_all
  ultimately show ?thesis using round_down(1) [of va] assms(2) by linarith
qed

lemma copyin_effect:
  assumes "user_ok kend k p owned"
  shows "\<exists>r bs k' owned'. copyin kend p (pagetable p) va n k = Inr (r, bs, k') \<and> user_ok kend k' p owned' \<and> owned \<subseteq> owned' \<and>
    umem k' p = umem k p \<and> delivered k p va bs \<and>
    (r = 0 \<and> length bs = n \<or> r = -1 \<and> length bs < n \<and>
       (\<exists>v. unat v = unat va + length bs \<and> blocked kend owned' k' p v))"
  using assms
proof (induction n arbitrary: va k owned rule: less_induct)
  case (less n)
  note ok = less.prems
  have empty: "delivered k p va []" by (auto simp: delivered_def)
  show ?case
  proof (cases "n = 0")
    case True
    then show ?thesis using ok empty by (subst copyin.simps) auto
  next
    case False
    let ?va0 = "PGROUNDDOWN va" and ?pt = "pagetable p"
    show ?thesis
    proof (rule fault_in_effect [OF ok round_down(3) [of va]])
      fix pa k1 owned1
      assume f: "fault_in kend p ?pt ?va0 k = Inr (pa, k1)" "user_ok kend k1 p owned1" "owned \<subseteq> owned1" "umem k1 p = umem k p"
        "pa = 0 \<Longrightarrow> blocked kend owned1 k1 p ?va0"
        "pa \<noteq> 0 \<Longrightarrow> ?va0 < MAXVA \<and> (\<exists>e. view k1 ?pt ?va0 = Some e \<and> on e PTE_U \<and> PTE2PA e = pa)"
      show ?thesis
      proof (cases "pa = 0")
        case True
        then have "copyin kend p ?pt va n k = Inr (-1, [], k1)" using False f(1) by (subst copyin.simps) (simp add: Let_def)
        moreover have "blocked kend owned1 k1 p va" using f(5) True blocked_page [OF round_down(2)] by blast
        ultimately show ?thesis using f(2-4) empty False by auto
      next
        case pa: False
        then obtain e where e: "?va0 < MAXVA" "view k1 ?pt ?va0 = Some e" "on e PTE_U" "PTE2PA e = pa" using f(6) by blast
        have va: "va < MAXVA" using e(1) by (simp add: below_MAXVA round_down(2))
        have ve: "view k1 ?pt va = Some e" using view_vpn [OF va e(1)] e(2) round_down(2) by simp
        define off where "off = unat va mod 4096"
        define m where "m = min (4096 - off) n"
        have off: "off < 4096" "unat (va - ?va0) = off" by (simp_all add: off_def round_down(5))
        have m: "0 < m" "m \<le> n" "off + m \<le> 4096" using False off(1) by (auto simp: m_def)
        let ?bs = "load_bytes (pa + off) m k1"
        have lb: "length ?bs = m" by (simp add: load_bytes_def)
        have D: "delivered k p va ?bs"
          unfolding delivered_def lb f(4) [symmetric]
          using copyin_page [OF va m(3) [unfolded off_def] ve e(3)] by (simp add: e(4) off_def)
        have step: "copyin kend p ?pt va n k = (case copyin kend p ?pt (?va0 + 4096) (n - m) k1 of
            Inl e \<Rightarrow> Inl e | Inr (r, cs, k) \<Rightarrow> Inr (r, ?bs @ cs, k))"
          using False f(1) pa off(2) by (subst copyin.simps) (simp add: Let_def m_def PGSIZE_def split: sum.split)
        have "n - m < n" using m(1,2) by simp
        from less.IH [OF this f(2), of "?va0 + 4096"] obtain r cs k' owned' where
          r: "copyin kend p ?pt (?va0 + 4096) (n - m) k1 = Inr (r, cs, k')" "user_ok kend k' p owned'" "owned1 \<subseteq> owned'"
            "umem k' p = umem k1 p" "delivered k1 p (?va0 + 4096) cs"
            "r = 0 \<and> length cs = n - m \<or> r = -1 \<and> length cs < n - m \<and>
              (\<exists>v. unat v = unat (?va0 + 4096) + length cs \<and> blocked kend owned' k' p v)" by blast
        have nx: "unat (?va0 + 4096) = unat va + m" if "m < n"
          using next_page_start [OF va] that by (simp add: m_def off_def min_def split: if_splits)
        have cs0: "cs = []" if "\<not> m < n" using r(6) that m(2) by auto
        have "delivered k p va (?bs @ cs)"
          using D delivered_append [OF D, of "?va0 + 4096" cs] r(5) f(4) nx cs0 lb by (cases "m < n") (auto simp: delivered_def)
        moreover have "r = 0 \<and> length (?bs @ cs) = n \<or> r = -1 \<and> length (?bs @ cs) < n \<and>
            (\<exists>v. unat v = unat va + length (?bs @ cs) \<and> blocked kend owned' k' p v)"
          using r(6) m(2) nx f(4) lb by (auto simp: add.assoc)
        ultimately show ?thesis using step r(1-4) f(3,4) by auto
      qed
    qed
  qed
qed

text \<open>Writing within one page of the process.\<close>

lemma user_write:
  assumes ok: "user_ok kend k p owned" and va: "va < MAXVA" "unat va mod 4096 + length bs \<le> 4096"
    and e: "view k (pagetable p) va = Some e" "on e PTE_U"
  defines "k' \<equiv> store_bytes (PTE2PA e + unat va mod 4096) bs k"
  shows "user_ok kend k' p owned" "view k' (pagetable p) = view k (pagetable p)"
    "umem k' p v = (if unat va \<le> unat v \<and> unat v < unat va + length bs then Some (bs ! (unat v - unat va)) else umem k p v)"
proof -
  let ?q = "PTE2PA e" and ?pt = "pagetable p"
  note U = user_okD [OF ok]
  have q: "?q \<in> owned" "?q \<notin> table k ?pt" using U(3) [OF va(1) e] by blast+
  have own: "r \<in> owned \<Longrightarrow> r mod PGSIZE = 0" for r using owned_page [OF pt_okD(2) [OF U(1)]] page_facts(1) by blast
  note qa = own [OF q(1)]
  have m: "mem k' b = mem k b" if "\<not> in_page b ?q" for b
    unfolding k'_def by (rule store_bytes_page [OF qa _ that]) (use va(2) in \<open>simp add: in_page_def PGSIZE_def\<close>)
  have ke: "k' = k\<lparr>mem := mem k'\<rparr>" by (simp add: k'_def)
  have "kmem_ok kend k' owned"
    by (subst ke, rule kmem_ok_write [OF pt_okD(2) [OF U(1)]]) (use m q(1) in blast)
  note O = other_page [OF U(1) qa q(2) m this]
  have t: "table k ?pt \<subseteq> owned" using U(1) by (simp add: pt_ok_def)
  then show v: "view k' ?pt = view k ?pt" using O(3) by blast
  show "user_ok kend k' p owned" unfolding user_ok_def v using O(1,2) t U by blast
  show "umem k' p v = (if unat va \<le> unat v \<and> unat v < unat va + length bs then Some (bs ! (unat v - unat va)) else umem k p v)"
  proof (cases "v < MAXVA")
    case vm: True
    show ?thesis
    proof (cases "vpn v = vpn va")
      case True
      then have ve: "view k ?pt v = Some e" "view k' ?pt v = Some e" using view_vpn [OF vm va(1)] e(1) v by simp_all
      have "unat w = vpn w * 4096 + unat w mod 4096" for w by (simp add: vpn_def)
      from this [of v] this [of va] have d: "unat v = vpn va * 4096 + unat v mod 4096" "unat va = vpn va * 4096 + unat va mod 4096"
        unfolding True .
      have "unat va \<le> unat v \<longleftrightarrow> unat va mod 4096 \<le> unat v mod 4096" "unat v - unat va = unat v mod 4096 - unat va mod 4096"
        "unat v < unat va + length bs \<longleftrightarrow> unat v mod 4096 < unat va mod 4096 + length bs"
        using d by linarith+
      then show ?thesis using umem_mapped [OF vm ve(1) e(2)] umem_mapped [OF vm ve(2) e(2)]
        by (auto simp: k'_def load_store_bytes)
    next
      case False
      have "load_byte (PTE2PA d + unat v mod 4096) k' = load_byte (PTE2PA d + unat v mod 4096) k"
        if "view k ?pt v = Some d" "on d PTE_U" for d
      proof (rule load_byte_cong [OF own in_page_off])
        show d: "PTE2PA d \<in> owned" using U(3) [OF vm that] by blast
        fix b assume "in_page b (PTE2PA d)"
        moreover have "PTE2PA d \<noteq> ?q" using U(4) [OF vm va(1) that(1) e(1) that(2) e(2)] False by blast
        ultimately show "mem k' b = mem k b" using m pages_apart [OF own [OF d] qa] by blast
      qed
      then have "umem k' p v = umem k p v" using v vm by (auto simp: umem_def not_le [symmetric] split: option.split)
      moreover have "\<not> (unat va \<le> unat v \<and> unat v < unat va + length bs)"
        using byte_of_page(2) [OF va] False by blast
      ultimately show ?thesis by auto
    qed
  next
    case False
    have "\<not> (unat va \<le> unat v \<and> unat v < unat va + length bs)" using byte_of_page(3) [OF va] False by blast
    then show ?thesis using False by (auto simp: umem_def not_less)
  qed
qed

definition overwritten :: "kmem \<Rightarrow> uproc \<Rightarrow> 64 word \<Rightarrow> byte list \<Rightarrow> 64 word \<rightharpoonup> byte" where
  "overwritten k p va bs = (\<lambda>v. if unat va \<le> unat v \<and> unat v < unat va + length bs then Some (bs ! (unat v - unat va)) else umem k p v)"

text \<open>The process may not write there: a page without \<open>PTE_W\<close>.\<close>

definition no_write :: "kmem \<Rightarrow> uproc \<Rightarrow> 64 word \<Rightarrow> bool" where
  "no_write k p v \<longleftrightarrow> (\<exists>e. view k (pagetable p) v = Some e \<and> \<not> on e PTE_W)"

lemma copyout_effect:
  assumes "user_ok kend k p owned"
  shows "\<exists>r k' owned' j. copyout kend p (pagetable p) va src k = Inr (r, k') \<and> user_ok kend k' p owned' \<and> owned \<subseteq> owned' \<and>
    j \<le> length src \<and> umem k' p = overwritten k p va (take j src) \<and>
    (r = 0 \<and> j = length src \<or> r = -1 \<and> j < length src \<and>
       (\<exists>v. unat v = unat va + j \<and> (blocked kend owned' k' p v \<or> no_write k' p v)))"
  using assms
proof (induction "length src" arbitrary: va src k owned rule: less_induct)
  case less
  note ok = less.prems
  have none: "overwritten k p va (take 0 src) = umem k p" by (auto simp: overwritten_def fun_eq_iff)
  show ?case
  proof (cases "src = []")
    case True
    have "copyout kend p (pagetable p) va src k = Inr (0, k)" using True by (subst copyout.simps) simp
    then show ?thesis using ok none True by (intro exI [of _ 0] exI [of _ k] exI [of _ owned]) auto
  next
    case False
    let ?va0 = "PGROUNDDOWN va" and ?pt = "pagetable p"
    have fails: ?thesis if "copyout kend p ?pt va src k = Inr (-1, k')" "user_ok kend k' p owned'" "owned \<subseteq> owned'"
      "umem k' p = umem k p" "blocked kend owned' k' p va \<or> no_write k' p va" for k' owned'
      using that False none by (intro exI [of _ "-1"] exI [of _ k'] exI [of _ owned'] exI [of _ 0]) auto
    show ?thesis
    proof (cases "?va0 < MAXVA")
      case hi: False
      then have "\<not> va < MAXVA" by (simp add: below_MAXVA round_down(2))
      then have "blocked kend owned k p va" by (simp add: blocked_def umem_def not_less)
      moreover have "copyout kend p ?pt va src k = Inr (-1, k)"
        using False hi by (subst copyout.simps) (simp add: Let_def not_less)
      ultimately show ?thesis using fails [of k owned] ok by blast
    next
      case lo: True
      then have lo': "\<not> MAXVA \<le> ?va0" by simp
      have va: "va < MAXVA" using lo by (simp add: below_MAXVA round_down(2))
      show ?thesis
      proof (rule fault_in_effect [OF ok round_down(3) [of va]])
        fix pa k1 owned1
        assume f: "fault_in kend p ?pt ?va0 k = Inr (pa, k1)" "user_ok kend k1 p owned1" "owned \<subseteq> owned1" "umem k1 p = umem k p"
          "pa = 0 \<Longrightarrow> blocked kend owned1 k1 p ?va0"
          "pa \<noteq> 0 \<Longrightarrow> ?va0 < MAXVA \<and> (\<exists>e. view k1 ?pt ?va0 = Some e \<and> on e PTE_U \<and> PTE2PA e = pa)"
        show ?thesis
        proof (cases "pa = 0")
          case True
          have "copyout kend p ?pt va src k = Inr (-1, k1)" using False f(1) True lo'
            by (subst copyout.simps) (simp add: Let_def)
          moreover have "blocked kend owned1 k1 p va" using f(5) True blocked_page [OF round_down(2)] by blast
          ultimately show ?thesis using fails f(2-4) by blast
        next
          case pa: False
          then obtain e where e: "view k1 ?pt ?va0 = Some e" "on e PTE_U" "PTE2PA e = pa" using f(6) by blast
          have ve: "view k1 ?pt va = Some e" using view_vpn [OF va lo] e(1) round_down(2) by simp
          obtain q where q: "node k1 ?pt (route ?va0) = Some q" "load (q + 8 * PX 0 ?va0) k1 = e"
            using e(1) by (auto simp: view_def split: option.splits if_splits)
          have w: "walk ?pt ?va0 False k1 = Inr (Some (q + 8 * PX 0 ?va0), k1)"
            using walk_find [OF user_okD(1) [OF f(2)] lo] q(1) by simp
          define off where "off = unat va mod 4096"
          define m where "m = min (4096 - off) (length src)"
          have off: "off < 4096" "unat (va - ?va0) = off" by (simp_all add: off_def round_down(5))
          have m: "0 < m" "m \<le> length src" "off + m \<le> 4096" "length (take m src) = m" using False off(1) by (auto simp: m_def)
          let ?k = "store_bytes (pa + off) (take m src) k1"
          have step: "copyout kend p ?pt va src k =
            (if \<not> on e PTE_W then Inr (-1, k1) else copyout kend p ?pt (?va0 + 4096) (drop m src) ?k)"
            using False f(1) lo' pa w q(2) off(2)
            by (subst copyout.simps) (simp add: Let_def m_def PGSIZE_def)
          show ?thesis
          proof (cases "on e PTE_W")
            case ro: False
            then show ?thesis using fails [OF _ f(2-4)] step ve by (auto simp: no_write_def)
          next
            case True
            note W = user_write [OF f(2) va _ ve e(2), of "take m src", unfolded m(4) e(3), folded off_def, OF m(3)]
            have "length (drop m src) < length src" using m(1,2) by simp
            from less.hyps [OF this W(1), of "?va0 + 4096"] obtain r k' owned' j where
              r: "copyout kend p ?pt (?va0 + 4096) (drop m src) ?k = Inr (r, k')" "user_ok kend k' p owned'" "owned1 \<subseteq> owned'"
                "j \<le> length (drop m src)" "umem k' p = overwritten ?k p (?va0 + 4096) (take j (drop m src))"
                "r = 0 \<and> j = length (drop m src) \<or> r = -1 \<and> j < length (drop m src) \<and>
                  (\<exists>v. unat v = unat (?va0 + 4096) + j \<and> (blocked kend owned' k' p v \<or> no_write k' p v))" by blast
            have nx: "unat (?va0 + 4096) = unat va + m" if "m < length src"
              using next_page_start [OF va] that by (simp add: m_def off_def min_def split: if_splits)
            have j0: "j = 0" if "\<not> m < length src" using r(4) that by simp
            have "umem k' p = overwritten k p va (take (m + j) src)"
            proof
              fix v
              show "umem k' p v = overwritten k p va (take (m + j) src) v"
              proof (cases "m < length src")
                case True
                then show ?thesis using r(4) m(4) nx f(4)
                  by (auto simp: r(5) overwritten_def W(3) take_add nth_append min_def)
              next
                case False
                then show ?thesis using j0 m(4) f(4) W(3) [of v] by (auto simp: r(5) overwritten_def)
              qed
            qed
            moreover have "copyout kend p ?pt va src k = Inr (r, k')" using step True r(1) by simp
            moreover have "r = 0 \<and> m + j = length src \<or> r = -1 \<and> m + j < length src \<and>
                (\<exists>v. unat v = unat va + (m + j) \<and> (blocked kend owned' k' p v \<or> no_write k' p v))"
              using r(6) m(2) nx by (auto simp: add.assoc)
            moreover have "m + j \<le> length src" using r(4) m(2) by simp
            ultimately show ?thesis using r(2,3) f(3) by blast
          qed
        qed
      qed
    qed
  qed
qed

text \<open>
  C17. \<open>copyin\<close> reads the memory of the process: it returns 0 with all bytes, among them the zeros of pages
  that are still to come, or -1 with the bytes up to the first address that is blocked. It never panics, and the
  pages that it brings in on the way do not change what the process sees.
\<close>

theorem copyin_reads_memory:
  assumes "user_ok kend k p owned"
  shows "\<exists>r bs k' owned'. copyin kend p (pagetable p) va n k = Inr (r, bs, k') \<and> user_ok kend k' p owned' \<and> owned \<subseteq> owned' \<and>
    umem k' p = umem k p \<and> delivered k p va bs \<and>
    (r = 0 \<and> length bs = n \<or> r = -1 \<and> length bs < n \<and> (\<exists>v. unat v = unat va + length bs \<and> blocked kend owned' k' p v))"
  using assms by (rule copyin_effect)

text \<open>
  C18. \<open>copyout\<close> updates the memory of the process: 0 means that the bytes from \<open>va\<close> on are now \<open>src\<close>, -1
  that the first \<open>j\<close> are and that the next address is blocked or on a page that the process may not write. All
  other bytes of the process are as before, and it never panics.
\<close>

theorem copyout_writes_memory:
  assumes "user_ok kend k p owned"
  shows "\<exists>r k' owned' j. copyout kend p (pagetable p) va src k = Inr (r, k') \<and> user_ok kend k' p owned' \<and> owned \<subseteq> owned' \<and>
    j \<le> length src \<and> umem k' p = overwritten k p va (take j src) \<and>
    (r = 0 \<and> j = length src \<or> r = -1 \<and> j < length src \<and>
       (\<exists>v. unat v = unat va + j \<and> (blocked kend owned' k' p v \<or> no_write k' p v)))"
  using assms by (rule copyout_effect)

section \<open>A small process\<close>

text \<open>Two pages promised, none of them there.\<close>

definition small_proc :: uproc where "small_proc = \<lparr>pagetable = small_pt, psize = 8192\<rparr>"

lemma small_user_ok: "user_ok small_end small_vm small_proc {small_pt}"
  using small_vm_ok(1) by (simp add: user_ok_def small_proc_def small_vm_ok(2) TRAPFRAME_def TRAMPOLINE_def MAXVA_def)

lemma small_umem: "v < 8192 \<Longrightarrow> umem small_vm small_proc v = Some 0"
proof -
  assume v: "v < 8192"
  then have "PGROUNDDOWN v < 8192" using round_down(4) [of v] by (rule le_less_trans [rotated])
  moreover have "\<not> MAXVA \<le> v" using v by (simp add: MAXVA_def word_le_nat_alt word_less_nat_alt)
  ultimately show ?thesis by (simp add: umem_def small_proc_def small_vm_ok(2))
qed

theorem copyin_reads_memory_witness:
  "\<exists>r bs k'. copyin small_end small_proc small_pt 4094 4 small_vm = Inr (r, bs, k') \<and>
     (r = 0 \<and> bs = [0, 0, 0, 0] \<or> r = -1 \<and> (\<exists>v. view k' small_pt v = None))"
proof -
  have pt: "pagetable small_proc = small_pt" by (simp add: small_proc_def)
  obtain r bs k' owned' where
    r: "copyin small_end small_proc small_pt 4094 4 small_vm = Inr (r, bs, k')" "umem k' small_proc = umem small_vm small_proc"
      "delivered small_vm small_proc 4094 bs"
      "r = 0 \<and> length bs = 4 \<or> r = -1 \<and> length bs < 4 \<and>
        (\<exists>v. unat v = unat (4094 :: 64 word) + length bs \<and> blocked small_end owned' k' small_proc v)"
    using copyin_reads_memory [OF small_user_ok, of 4094 4] unfolding pt by blast
  have z: "bs ! i = 0" if "length bs = 4" "i < 4" for i
  proof -
    have u: "unat (of_nat (4094 + i) :: 64 word) = 4094 + i" using that(2) by (simp add: unsigned_of_nat take_bit_nat_eq_self del: of_nat_add)
    then have "umem small_vm small_proc (of_nat (4094 + i)) = Some (bs ! i)"
      using r(3) that unfolding delivered_def by (drule_tac x = "of_nat (4094 + i)" in spec) simp
    moreover have "of_nat (4094 + i) < (8192 :: 64 word)" unfolding word_less_nat_alt u using that(2) by simp
    ultimately show ?thesis using small_umem by simp
  qed
  have "bs = [0, 0, 0, 0]" if "length bs = 4"
  proof -
    have "bs = replicate 4 0" using z [OF that] that by (intro nth_equalityI) simp_all
    then show ?thesis by (simp add: numeral_eq_Suc)
  qed
  moreover have "\<exists>v. view k' small_pt v = None" if m: "r = -1"
  proof -
    obtain v where v: "unat v = unat (4094 :: 64 word) + length bs" "length bs < 4" "blocked small_end owned' k' small_proc v"
      using r(4) m by auto
    then have "umem small_vm small_proc v = Some 0" by (intro small_umem) (simp add: word_less_nat_alt)
    then show ?thesis using v(3) r(2) by (auto simp: blocked_def pt)
  qed
  ultimately show ?thesis using r(1,4) by blast
qed

theorem copyout_writes_memory_witness:
  "\<exists>r k' j. copyout small_end small_proc small_pt 100 [104, 105] small_vm = Inr (r, k') \<and>
     (r = 0 \<and> umem k' small_proc 101 = Some 105 \<and> umem k' small_proc 102 = Some 0 \<or> r = -1 \<and> j < (2 :: nat))"
proof -
  have pt: "pagetable small_proc = small_pt" by (simp add: small_proc_def)
  obtain r k' j where
    r: "copyout small_end small_proc small_pt 100 [104, 105] small_vm = Inr (r, k')"
      "umem k' small_proc = overwritten small_vm small_proc 100 (take j [104, 105])"
      "r = 0 \<and> j = 2 \<or> r = -1 \<and> j < 2"
    using copyout_writes_memory [OF small_user_ok, of 100 "[104, 105]"] unfolding pt by auto
  have "umem k' small_proc 101 = Some 105 \<and> umem k' small_proc 102 = Some 0" if "j = 2"
    using that by (simp add: r(2) overwritten_def small_umem)
  then show ?thesis using r(1,3) by blast
qed

end
