(* ===== verification/XvUvm.thy ===== *)
theory XvUvm
  imports XvUserMem
begin

unbundle bit_operations_syntax

text \<open>
  How the memory of a process grows, shrinks, is copied and is given back: \<open>uvmunmap\<close>, \<open>uvmdealloc\<close>,
  \<open>uvmalloc\<close>, \<open>sbrk\<close> and \<open>uvmcopy\<close>. The table is read by the number of the page, and every lemma says which pages
  of memory it gives back and which pages of others it leaves alone.
\<close>

section \<open>Entries by page number\<close>

definition entry :: "kmem \<Rightarrow> nat \<Rightarrow> nat \<rightharpoonup> 64 word" where
  "entry k pt i = view k pt (of_nat (4096 * i))"

definition NPAGE :: nat where "NPAGE = 67108864"

lemma page_number: "i < NPAGE \<Longrightarrow> unat (of_nat (4096 * i) :: 64 word) = 4096 * i"
  by (simp add: NPAGE_def unsigned_of_nat take_bit_nat_eq_self del: of_nat_mult)

lemma view_entry: "v < MAXVA \<Longrightarrow> view k pt v = entry k pt (vpn v)"
proof -
  assume v: "v < MAXVA"
  then have "vpn v < NPAGE" by (simp add: below_MAXVA NPAGE_def)
  then have u: "unat (of_nat (4096 * vpn v) :: 64 word) = 4096 * vpn v" by (rule page_number)
  then have "vpn (of_nat (4096 * vpn v)) = vpn v" unfolding vpn_def [of "of_nat (4096 * vpn v)"] by simp
  moreover have "of_nat (4096 * vpn v) < MAXVA"
    using v \<open>vpn v < NPAGE\<close> unfolding MAXVA_unat u by (simp add: NPAGE_def)
  ultimately show ?thesis unfolding entry_def using view_vpn [OF v] by metis
qed

lemma entry_view: "i < NPAGE \<Longrightarrow> \<exists>v. v < MAXVA \<and> vpn v = i \<and> v mod 4096 = 0"
  by (rule exI [of _ "of_nat (4096 * i)"])
    (auto simp: MAXVA_unat vpn_def page_number [unfolded NPAGE_def] NPAGE_def word_unat_eq_iff unat_mod simp del: of_nat_mult)

text \<open>The pages of memory that the entries of a range of pages point to; each belongs to one page, and to the owner.\<close>

definition frames :: "kmem \<Rightarrow> nat \<Rightarrow> nat \<Rightarrow> nat \<Rightarrow> nat set" where
  "frames k pt lo hi = {PTE2PA e | i e. lo \<le> i \<and> i < hi \<and> entry k pt i = Some e}"

definition backed :: "kmem \<Rightarrow> nat \<Rightarrow> nat set \<Rightarrow> nat \<Rightarrow> nat \<Rightarrow> bool" where
  "backed k pt owned lo hi \<longleftrightarrow> frames k pt lo hi \<subseteq> owned - table k pt \<and>
     (\<forall>i j e f. lo \<le> i \<and> i < hi \<and> lo \<le> j \<and> j < hi \<and> entry k pt i = Some e \<and> entry k pt j = Some f \<and>
        PTE2PA e = PTE2PA f \<longrightarrow> i = j)"

lemma framesI: "lo \<le> i \<Longrightarrow> i < hi \<Longrightarrow> entry k pt i = Some e \<Longrightarrow> PTE2PA e \<in> frames k pt lo hi"
  by (auto simp: frames_def)

lemma frames_cong: "(\<And>i. lo \<le> i \<Longrightarrow> i < hi \<Longrightarrow> entry k' pt i = entry k pt i) \<Longrightarrow> frames k' pt lo hi = frames k pt lo hi"
  unfolding frames_def by (rule Collect_cong) (metis)

lemma frames_mono: "lo \<le> lo' \<Longrightarrow> hi' \<le> hi \<Longrightarrow> frames k pt lo' hi' \<subseteq> frames k pt lo hi"
  unfolding frames_def by (blast intro: le_trans less_le_trans)

lemma frames_empty [simp]: "frames k pt lo lo = {}"
  by (simp add: frames_def)

lemma frames_first:
  "frames k pt lo (lo + Suc n) = (case entry k pt lo of None \<Rightarrow> {} | Some e \<Rightarrow> {PTE2PA e}) \<union> frames k pt (Suc lo) (lo + Suc n)"
proof -
  have "(lo \<le> i \<and> i < lo + Suc n) \<longleftrightarrow> i = lo \<or> Suc lo \<le> i \<and> i < lo + Suc n" for i by auto
  then have "frames k pt lo (lo + Suc n) = {PTE2PA e | i e. (i = lo \<or> Suc lo \<le> i \<and> i < lo + Suc n) \<and> entry k pt i = Some e}"
    unfolding frames_def by (metis (lifting))
  also have "\<dots> = {PTE2PA e | e. entry k pt lo = Some e} \<union> frames k pt (Suc lo) (lo + Suc n)"
    unfolding frames_def by blast
  finally show ?thesis by (auto split: option.split)
qed

lemma backedD:
  assumes "backed k pt owned lo hi" "lo \<le> i" "i < hi" "entry k pt i = Some e"
  shows "PTE2PA e \<in> owned" "PTE2PA e \<notin> table k pt"
    "lo \<le> j \<Longrightarrow> j < hi \<Longrightarrow> entry k pt j = Some f \<Longrightarrow> PTE2PA e = PTE2PA f \<Longrightarrow> i = j"
  using assms framesI [OF assms(2,3,4)] unfolding backed_def by blast+

lemma backed_part: "backed k pt owned lo hi \<Longrightarrow> lo \<le> lo' \<Longrightarrow> hi' \<le> hi \<Longrightarrow> backed k pt owned lo' hi'"
  using frames_mono [of lo lo' hi' hi k pt] unfolding backed_def by (meson order_trans order_less_le_trans)

lemma backed_same:
  assumes "backed k pt owned lo hi" "\<And>i. lo \<le> i \<Longrightarrow> i < hi \<Longrightarrow> entry k' pt i = entry k pt i"
    and "frames k pt lo hi \<subseteq> owned' - table k' pt"
  shows "backed k' pt owned' lo hi"
  using assms frames_cong [of lo hi k' pt k, OF assms(2)] unfolding backed_def by metis

text \<open>Memory that nobody changed.\<close>

definition pinned :: "nat set \<Rightarrow> kmem \<Rightarrow> kmem \<Rightarrow> bool" where
  "pinned K k k' \<longleftrightarrow> (\<forall>r \<in> K. \<forall>b. in_page b r \<longrightarrow> mem k' b = mem k b)"

lemma pinned_refl [simp]: "pinned K k k"
  by (simp add: pinned_def)

lemma pinned_trans: "pinned K k k1 \<Longrightarrow> pinned K k1 k2 \<Longrightarrow> pinned K k k2"
  by (simp add: pinned_def)

lemma pinned_mono: "pinned K k k' \<Longrightarrow> K' \<subseteq> K \<Longrightarrow> pinned K' k k'"
  by (auto simp: pinned_def)

lemma keeps_pinned: "keeps kend pt k owned k' owned' \<Longrightarrow> pinned (owned - table k pt) k k'"
  by (auto simp: keeps_def pinned_def)

section \<open>Unmapping\<close>

text \<open>One page: its memory goes back to the allocator.\<close>

lemma unmap_page:
  assumes ok: "pt_ok kend k pt owned" and va: "va < MAXVA" and e: "view k pt va = Some e"
    and f: "PTE2PA e \<in> owned" "PTE2PA e \<notin> table k pt"
  obtains p k1 where "walk pt va False k = Inr (Some (p + 8 * PX 0 va), k)" "load (p + 8 * PX 0 va) k = e" "on e PTE_V"
    "kfree kend (PTE2PA e) k = Inr k1" "pt_ok kend (store (p + 8 * PX 0 va) 0 k1) pt (owned - {PTE2PA e})"
    "table (store (p + 8 * PX 0 va) 0 k1) pt = table k pt"
    "\<And>v. v < MAXVA \<Longrightarrow> view (store (p + 8 * PX 0 va) 0 k1) pt v = (if vpn v = vpn va then None else view k pt v)"
    "pinned (owned - table k pt - {PTE2PA e}) k (store (p + 8 * PX 0 va) 0 k1)"
proof -
  let ?f = "PTE2PA e"
  obtain p where p: "node k pt (route va) = Some p" "load (p + 8 * PX 0 va) k = e" "on e PTE_V"
    using e by (auto simp: view_def split: option.splits if_splits)
  obtain k1 where k1: "kfree kend ?f k = Inr k1" "pt_ok kend k1 pt (owned - {?f})" "table k1 pt = table k pt"
    "view k1 pt = view k pt" "\<And>b. \<not> in_page b ?f \<Longrightarrow> mem k1 b = mem k b"
    using free_page [OF ok f] by metis
  have pg: "r mod PGSIZE = 0" if "r \<in> owned" for r using that owned_page [OF pt_okD(2) [OF ok]] page_facts(1) by blast
  have "table k pt \<subseteq> owned - {?f}" using pt_okD(1-3) k1(2,3) by (simp add: pt_ok_def)
  then have p1: "node k1 pt (route va) = Some p"
    using other_page(4) [OF ok pg [OF f(1)] f(2) k1(5) pt_okD(2) [OF k1(2)] _ inner_route(1)] p(1) by simp
  let ?k = "store (p + 8 * PX 0 va) 0 k1"
  note S = leaf_store [OF k1(2) p1, where w = 0] and K = leaf_keeps [OF k1(2) p1, of 0]
  have t: "table ?k pt = table k pt" using keepsD(3) [OF K] k1(3) by simp
  have "view ?k pt v = (if vpn v = vpn va then None else view k pt v)" if "v < MAXVA" for v
    using leaf_view [OF k1(2) p1 va that, of 0] k1(4) by (simp add: on_def)
  moreover have "pinned (owned - table k pt - {?f}) k ?k" unfolding pinned_def
  proof (intro ballI allI impI)
    fix r b assume r: "r \<in> owned - table k pt - {?f}" "in_page b r"
    have "\<not> in_page b ?f" using pages_apart [OF pg [OF f(1)] pg] r by blast
    then show "mem ?k b = mem k b" using keepsD(4) [OF K, of r b] r k1(3,5) by simp
  qed
  ultimately show ?thesis using that [of p k1] walk_find [OF ok va] p k1(1) S(2) t by simp
qed

lemma entry_of: "i < NPAGE \<Longrightarrow> v < MAXVA \<Longrightarrow> vpn v = i \<Longrightarrow> view k pt v = entry k pt i"
  using view_entry by blast

lemma unmap_step:
  assumes ok: "pt_ok kend k pt owned" and a: "a < e" "a < MAXVA"
    and f: "\<And>w. entry k pt (vpn a) = Some w \<Longrightarrow> PTE2PA w \<in> owned \<and> PTE2PA w \<notin> table k pt"
  defines "F \<equiv> (case entry k pt (vpn a) of None \<Rightarrow> {} | Some w \<Rightarrow> {PTE2PA w})"
  obtains k' where "uvmunmap_loop kend pt a e True k = uvmunmap_loop kend pt (a + 4096) e True k'"
    "pt_ok kend k' pt (owned - F)" "table k' pt = table k pt"
    "\<And>i. i < NPAGE \<Longrightarrow> entry k' pt i = (if i = vpn a then None else entry k pt i)"
    "pinned (owned - table k pt - F) k k'"
proof (cases "entry k pt (vpn a)")
  case None
  then have n: "view k pt a = None" using view_entry [OF a(2)] by simp
  have "uvmunmap_loop kend pt a e True k = uvmunmap_loop kend pt (a + 4096) e True k"
    by (subst uvmunmap_loop.simps)
      (use n a(1) in \<open>auto simp: walk_find [OF ok a(2)] view_def split: option.splits if_splits\<close>)
  then show ?thesis using that [of k] None ok by (auto simp: F_def)
next
  case (Some w)
  then have "view k pt a = Some w" using view_entry [OF a(2)] by simp
  from unmap_page [OF ok a(2) this] f [OF Some] obtain p k1 where
    u: "walk pt a False k = Inr (Some (p + 8 * PX 0 a), k)" "load (p + 8 * PX 0 a) k = w" "on w PTE_V"
    "kfree kend (PTE2PA w) k = Inr k1" "pt_ok kend (store (p + 8 * PX 0 a) 0 k1) pt (owned - {PTE2PA w})"
    "table (store (p + 8 * PX 0 a) 0 k1) pt = table k pt"
    "\<And>v. v < MAXVA \<Longrightarrow> view (store (p + 8 * PX 0 a) 0 k1) pt v = (if vpn v = vpn a then None else view k pt v)"
    "pinned (owned - table k pt - {PTE2PA w}) k (store (p + 8 * PX 0 a) 0 k1)" by metis
  let ?k = "store (p + 8 * PX 0 a) 0 k1"
  have "uvmunmap_loop kend pt a e True k = uvmunmap_loop kend pt (a + 4096) e True ?k"
    by (subst uvmunmap_loop.simps) (use u(1-4) a(1) in simp)
  moreover have "entry ?k pt i = (if i = vpn a then None else entry k pt i)" if "i < NPAGE" for i
    using entry_view [OF that] u(7) view_entry by metis
  ultimately show ?thesis using that [of ?k] u(5,6,8) Some by (simp add: F_def)
qed

lemma uvmunmap_loop_effect:
  assumes "pt_ok kend k pt owned" "unat e = unat a + 4096 * n" "unat e \<le> 2 ^ 38" "backed k pt owned (vpn a) (vpn a + n)"
  shows "\<exists>k'. uvmunmap_loop kend pt a e True k = Inr k' \<and> pt_ok kend k' pt (owned - frames k pt (vpn a) (vpn a + n)) \<and>
    table k' pt = table k pt \<and>
    (\<forall>i < NPAGE. entry k' pt i = (if vpn a \<le> i \<and> i < vpn a + n then None else entry k pt i)) \<and>
    pinned (owned - table k pt - frames k pt (vpn a) (vpn a + n)) k k'"
  using assms
proof (induction n arbitrary: a k owned)
  case 0
  then have "\<not> a < e" by (simp add: word_less_nat_alt)
  then have "uvmunmap_loop kend pt a e True k = Inr k" by (subst uvmunmap_loop.simps) simp
  then show ?case using 0(1) by (auto simp: frames_empty [simplified])
next
  case (Suc n)
  have "a < MAXVA" unfolding MAXVA_unat using Suc.prems(2,3) by simp
  then have a: "a < e" "a < MAXVA" using Suc.prems(2) by (simp_all add: word_less_nat_alt)
  have n: "unat (a + 4096) = unat a + 4096" using a(2) by (intro page_above(2)) (simp add: not_le)
  then have vn: "vpn (a + 4096) = Suc (vpn a)" by (simp add: vpn_def)
  have hi: "vpn a + Suc n \<le> NPAGE"
  proof -
    have "4096 * vpn a \<le> unat a" by (simp add: vpn_def)
    then have "4096 * (vpn a + Suc n) \<le> 2 ^ 38" using Suc.prems(2,3) unfolding distrib_left by linarith
    then show ?thesis by (simp add: NPAGE_def)
  qed
  have f: "PTE2PA w \<in> owned \<and> PTE2PA w \<notin> table k pt" if "entry k pt (vpn a) = Some w" for w
    using backedD(1,2) [OF Suc.prems(4) _ _ that] by simp
  define F where "F = (case entry k pt (vpn a) of None \<Rightarrow> {} | Some w \<Rightarrow> {PTE2PA w})"
  obtain k1 where k1: "uvmunmap_loop kend pt a e True k = uvmunmap_loop kend pt (a + 4096) e True k1"
    "pt_ok kend k1 pt (owned - F)" "table k1 pt = table k pt"
    "\<And>i. i < NPAGE \<Longrightarrow> entry k1 pt i = (if i = vpn a then None else entry k pt i)"
    "pinned (owned - table k pt - F) k k1"
    using unmap_step [OF Suc.prems(1) a f] unfolding F_def by metis
  let ?R = "frames k pt (Suc (vpn a)) (vpn a + Suc n)"
  have e1: "entry k1 pt i = entry k pt i" if "Suc (vpn a) \<le> i" "i < vpn a + Suc n" for i
    using k1(4) [of i] that hi by simp
  have fr: "frames k1 pt (Suc (vpn a)) (vpn a + Suc n) = ?R" by (rule frames_cong [OF e1])
  have all: "frames k pt (vpn a) (vpn a + Suc n) = F \<union> ?R" unfolding F_def by (rule frames_first)
  have "F \<inter> ?R = {}"
  proof -
    have "PTE2PA w \<noteq> PTE2PA w'" if w: "entry k pt (vpn a) = Some w" "entry k pt i = Some w'" "Suc (vpn a) \<le> i" "i < vpn a + Suc n" for w w' i
      using backedD(3) [OF Suc.prems(4) _ _ w(1), of i w'] w(2-4) by auto
    then show ?thesis unfolding F_def frames_def by (auto split: option.splits)
  qed
  then have "?R \<subseteq> owned - F - table k1 pt" using Suc.prems(4) all k1(3) unfolding backed_def by blast
  then have b: "backed k1 pt (owned - F) (vpn (a + 4096)) (vpn (a + 4096) + n)"
    using backed_same [OF backed_part [OF Suc.prems(4), of "Suc (vpn a)" "vpn a + Suc n"] e1, of "owned - F"] fr vn by simp
  have u: "unat e = unat (a + 4096) + 4096 * n" using Suc.prems(2) n by simp
  from Suc.IH [OF k1(2) u Suc.prems(3) b] obtain k' where
    k': "uvmunmap_loop kend pt (a + 4096) e True k1 = Inr k'" "pt_ok kend k' pt (owned - F - ?R)" "table k' pt = table k1 pt"
    "\<forall>i < NPAGE. entry k' pt i = (if Suc (vpn a) \<le> i \<and> i < vpn a + Suc n then None else entry k1 pt i)"
    "pinned (owned - F - table k1 pt - ?R) k1 k'"
    using fr vn by auto
  have "entry k' pt i = (if vpn a \<le> i \<and> i < vpn a + Suc n then None else entry k pt i)" if "i < NPAGE" for i
    using k'(4) k1(4) [OF that] that by auto
  moreover have "pinned (owned - table k pt - (F \<union> ?R)) k k'"
    by (rule pinned_trans [OF pinned_mono [OF k1(5)] pinned_mono [OF k'(5)]]) (auto simp: k1(3))
  moreover have "owned - F - ?R = owned - (F \<union> ?R)" by blast
  ultimately show ?case unfolding all using k1(1,3) k'(1-3) by auto
qed

section \<open>Shrinking\<close>

text \<open>The number of pages of a size.\<close>

definition npages_of :: "64 word \<Rightarrow> nat" where "npages_of sz = (unat sz + 4095) div 4096"

lemma TRAPFRAME_unat: "unat TRAPFRAME = 2 ^ 38 - 8192"
  by (simp add: TRAPFRAME_def TRAMPOLINE_def MAXVA_def)

lemma pages_up: "4096 * w < s \<longleftrightarrow> w < (s + 4095) div (4096 :: nat)"
  by linarith

lemma round_up:
  assumes "sz \<le> TRAPFRAME"
  shows "unat (PGROUNDUP64 sz) = 4096 * npages_of sz" "vpn (PGROUNDUP64 sz) = npages_of sz" "npages_of sz \<le> NPAGE - 2"
    "PGROUNDUP64 sz mod 4096 = 0" "PGROUNDDOWN v < sz \<longleftrightarrow> vpn v < npages_of sz"
proof -
  have l: "unat sz \<le> 2 ^ 38 - 8192" using assms unfolding word_le_nat_alt TRAPFRAME_unat .
  then have p: "unat (sz + 4095) = unat sz + 4095" by (subst unat_add_lem [THEN iffD1]) simp_all
  have e: "PGROUNDUP64 sz = PGROUNDDOWN (sz + 4095)" by (simp add: PGROUNDUP64_def PGROUNDDOWN_def)
  show u: "unat (PGROUNDUP64 sz) = 4096 * npages_of sz" unfolding e round_down_vpn vpn_def p npages_of_def ..
  show "vpn (PGROUNDUP64 sz) = npages_of sz" unfolding vpn_def u by simp
  show "npages_of sz \<le> NPAGE - 2"
  proof -
    have "npages_of sz \<le> (2 ^ 38 - 8192 + 4095) div 4096" unfolding npages_of_def by (intro div_le_mono add_mono l) simp
    then show ?thesis by (simp add: NPAGE_def)
  qed
  show "PGROUNDUP64 sz mod 4096 = 0" unfolding e by (rule round_down(3))
  show "PGROUNDDOWN v < sz \<longleftrightarrow> vpn v < npages_of sz" by (simp add: word_less_nat_alt round_down_vpn npages_of_def pages_up)
qed

lemma npages_mono: "a \<le> b \<Longrightarrow> npages_of a \<le> npages_of b"
  by (simp add: npages_of_def word_le_nat_alt div_le_mono)

lemma uvmunmap_effect:
  assumes ok: "pt_ok kend k pt owned" and va: "va mod 4096 = 0" and n: "unat va + 4096 * unat n \<le> 2 ^ 38"
    and b: "backed k pt owned (vpn va) (vpn va + unat n)"
  shows "\<exists>k'. uvmunmap kend pt va n True k = Inr k' \<and> pt_ok kend k' pt (owned - frames k pt (vpn va) (vpn va + unat n)) \<and>
    table k' pt = table k pt \<and>
    (\<forall>i < NPAGE. entry k' pt i = (if vpn va \<le> i \<and> i < vpn va + unat n then None else entry k pt i)) \<and>
    pinned (owned - table k pt - frames k pt (vpn va) (vpn va + unat n)) k k'"
proof -
  have "unat (n * 4096) = unat n * 4096" using n by (subst unat_mult_lem [THEN iffD1]) simp_all
  then have u: "unat (va + n * 4096) = unat va + 4096 * unat n" using n by (subst unat_add_lem [THEN iffD1]) simp_all
  show ?thesis using uvmunmap_loop_effect [OF ok u _ b] n va u by (simp add: uvmunmap_def)
qed

lemma uvmdealloc_effect:
  assumes ok: "pt_ok kend k pt owned" and sz: "newsz < oldsz" "oldsz \<le> TRAPFRAME"
    and b: "backed k pt owned (npages_of newsz) (npages_of oldsz)"
  shows "\<exists>k'. uvmdealloc kend pt oldsz newsz k = Inr (newsz, k') \<and>
    pt_ok kend k' pt (owned - frames k pt (npages_of newsz) (npages_of oldsz)) \<and> table k' pt = table k pt \<and>
    (\<forall>i < NPAGE. entry k' pt i = (if npages_of newsz \<le> i \<and> i < npages_of oldsz then None else entry k pt i)) \<and>
    pinned (owned - table k pt - frames k pt (npages_of newsz) (npages_of oldsz)) k k'"
proof -
  have ns: "newsz \<le> TRAPFRAME" using sz by simp
  note O = round_up [OF sz(2)] and N = round_up [OF ns]
  have le: "npages_of newsz \<le> npages_of oldsz" using npages_mono sz(1) by simp
  have lt: "PGROUNDUP64 newsz < PGROUNDUP64 oldsz \<longleftrightarrow> npages_of newsz < npages_of oldsz"
    by (simp add: word_less_nat_alt O(1) N(1))
  show ?thesis
  proof (cases "npages_of newsz < npages_of oldsz")
    case True
    let ?d = "(PGROUNDUP64 oldsz - PGROUNDUP64 newsz) div 4096"
    define n where "n = npages_of oldsz - npages_of newsz"
    have "PGROUNDUP64 newsz \<le> PGROUNDUP64 oldsz" using lt True by simp
    then have d: "unat ?d = n" by (simp add: unat_div unat_sub O(1) N(1) n_def flip: diff_mult_distrib2)
    have nb: "n < 2 ^ 31" using O(3) by (simp add: n_def NPAGE_def)
    have "unat (ucast ?d :: 32 word) = n" using d nb by (simp add: unsigned_ucast_eq take_bit_nat_eq_self)
    then have "uint (ucast ?d :: 32 word) = int n" by (metis uint_nat)
    then have "sint (ucast ?d :: 32 word) = int n" using nb by (simp add: sint_uint signed_take_bit_int_eq_self)
    then have s: "unat (scast (ucast ?d :: 32 word) :: 64 word) = n"
      using nb by (simp add: scast_eq unsigned_of_nat take_bit_nat_eq_self)
    have v: "vpn (PGROUNDUP64 newsz) + n = npages_of oldsz" using N(2) le by (simp add: n_def)
    have "unat (PGROUNDUP64 newsz) + 4096 * n = 4096 * npages_of oldsz"
      unfolding N(1) n_def using le by (simp add: diff_mult_distrib2)
    also have "\<dots> \<le> 2 ^ 38" using O(3) by (simp add: NPAGE_def)
    finally show ?thesis
      using uvmunmap_effect [OF ok N(4), of "scast (ucast ?d :: 32 word)"] s v b sz(1) lt True N(2)
      by (auto simp: uvmdealloc_def Let_def not_le)
  next
    case False
    then have "npages_of newsz = npages_of oldsz" using le by simp
    then show ?thesis using sz(1) lt ok by (auto simp: uvmdealloc_def not_le)
  qed
qed

section \<open>Growing\<close>

text \<open>A new page, filled in some way, before it is mapped.\<close>

lemma fresh_page:
  assumes ok: "pt_ok kend k pt owned" and a: "kalloc k = (q, k0)" "q \<noteq> 0"
    and kf: "kf = k0\<lparr>mem := mem kf\<rparr>" "\<forall>b. \<not> in_page b q \<longrightarrow> mem kf b = mem k0 b"
  shows "q \<notin> owned" "q \<in> pages kend" "pt_ok kend kf pt (insert q owned)" "table kf pt = table k pt" "view kf pt = view k pt"
    "pinned owned k kf"
proof -
  have K: "q \<in> pages kend" "q \<notin> owned" "kmem_ok kend k0 (insert q owned)"
    using kalloc_ok [OF pt_okD(2) [OF ok] a(1)] a(2) by simp_all
  then show "q \<notin> owned" "q \<in> pages kend" by blast+
  note q = page_facts(1) [OF K(1)]
  have t: "table k pt \<subseteq> owned" using ok by (simp add: pt_ok_def)
  have m: "mem kf b = mem k b" if "\<not> in_page b q" for b using kalloc_mem [OF a(1) that] kf(2) that by simp
  have "kmem_ok kend (k0\<lparr>mem := mem kf\<rparr>) (insert q owned)" by (rule kmem_ok_write [OF K(3)]) (simp add: kf(2))
  then have "kmem_ok kend kf (insert q owned)" using kf(1) by simp
  note O = other_page [OF ok q _ m this]
  show "pt_ok kend kf pt (insert q owned)" "table kf pt = table k pt" "view kf pt = view k pt" using O K(2) t by blast+
  show "pinned owned k kf" unfolding pinned_def
  proof (intro ballI allI impI)
    fix r b assume r: "r \<in> owned" "in_page b r"
    have "\<not> in_page b q"
      using pages_apart [OF q page_facts(1) [OF owned_page [OF pt_okD(2) [OF ok] r(1)]] _ r(2)] K(2) r(1) by blast
    then show "mem kf b = mem k b" by (rule m)
  qed
qed

text \<open>A new page is mapped, or memory runs out for the tables and it is freed again.\<close>

lemma map_fresh:
  assumes ok: "pt_ok kend k pt owned" and a: "kalloc k = (q, k0)" "q \<noteq> 0"
    and kf: "kf = k0\<lparr>mem := mem kf\<rparr>" "\<forall>b. \<not> in_page b q \<longrightarrow> mem kf b = mem k0 b"
    and va: "va < MAXVA" "va mod 4096 = 0" "view k pt va = None"
  obtains k1 k2 where "mappages pt va 4096 q perm kf = Inr (-1, k1)" "kfree kend q k1 = Inr k2"
      "pt_ok kend k2 pt (pages kend - {q})" "table k2 pt \<inter> owned = table k pt" "view k2 pt = view k pt"
      "pinned (owned - table k pt) k k2" "owned \<subseteq> pages kend - {q}"
  | k1 owned1 where "mappages pt va 4096 q perm kf = Inr (0, k1)" "pt_ok kend k1 pt owned1" "insert q owned \<subseteq> owned1"
      "q \<notin> owned" "q \<in> pages kend" "q \<notin> table k1 pt" "table k1 pt \<inter> owned = table k pt" "pinned (owned - table k pt) k k1"
      "pinned {q} kf k1"
      "\<And>v. v < MAXVA \<Longrightarrow> view k1 pt v = (if vpn v = vpn va then Some (PA2PTE q OR perm OR PTE_V) else view k pt v)"
proof -
  note F = fresh_page [OF ok a kf]
  note one = that
  have nv: "view kf pt va = None" using va(3) F(5) by simp
  have T: "table k pt \<subseteq> owned" using ok by (simp add: pt_ok_def)
  have qt: "q \<notin> table k pt" using T F(1) by blast
  show ?thesis
  proof (cases rule: mappages_one [OF F(3) va(1,2) nv, where pa = q and perm = perm])
    case (1 k1)
    note K = keepsD [OF 1(2)]
    have q: "q \<notin> table k1 pt" using K(3) F(1,2,4) qt by auto
    then obtain k2 where f: "kfree kend q k1 = Inr k2" "pt_ok kend k2 pt (pages kend - {q})"
      "table k2 pt = table k1 pt" "view k2 pt = view k1 pt" "\<And>b. \<not> in_page b q \<Longrightarrow> mem k2 b = mem k1 b"
      using free_page [OF K(1) F(2)] by metis
    have "pinned (owned - table k pt) k1 k2" unfolding pinned_def
    proof (intro ballI allI impI)
      fix r b assume r: "r \<in> owned - table k pt" "in_page b r"
      have "r mod PGSIZE = 0" using r(1) owned_page [OF pt_okD(2) [OF ok]] page_facts(1) by blast
      then have "\<not> in_page b q" using pages_apart [OF page_facts(1) [OF F(2)] _ _ r(2)] F(1) r(1) by auto
      then show "mem k2 b = mem k1 b" by (rule f(5))
    qed
    moreover have "pinned (owned - table k pt) kf k1" by (rule pinned_mono [OF keeps_pinned [OF 1(2)]]) (auto simp: F(4))
    moreover have "pinned (owned - table k pt) k kf" by (rule pinned_mono [OF F(6)]) auto
    ultimately have "pinned (owned - table k pt) k k2" by (blast intro: pinned_trans)
    moreover have "table k2 pt \<inter> owned = table k pt" using f(3) K(3) T F(4) by auto
    moreover have "owned \<subseteq> pages kend - {q}" using K(2) F(1) by blast
    ultimately show ?thesis using one(1) [of k1 k2] 1(1,3) f(1,2,4) F(5) by simp
  next
    case (2 k1 owned1)
    note K = keepsD [OF 2(2)]
    have "pinned (owned - table k pt) kf k1" by (rule pinned_mono [OF keeps_pinned [OF 2(2)]]) (auto simp: F(4))
    moreover have "pinned (owned - table k pt) k kf" by (rule pinned_mono [OF F(6)]) auto
    ultimately have "pinned (owned - table k pt) k k1" by (blast intro: pinned_trans)
    moreover have "pinned {q} kf k1" by (rule pinned_mono [OF keeps_pinned [OF 2(2)]]) (use F(4) qt in auto)
    moreover have "q \<notin> table k1 pt" "table k1 pt \<inter> owned = table k pt" using K(3) T F(1,4) qt by auto
    ultimately show ?thesis using one(2) [of k1 owned1] 2(1,3) K(1,2) F(1,2,5) by simp
  qed
qed

definition blank :: "nat \<Rightarrow> kmem \<Rightarrow> bool" where
  "blank q k \<longleftrightarrow> (\<forall>c. in_page c q \<longrightarrow> load_byte c k = 0)"

lemma pinned_bytes: "pinned {q} k k' \<Longrightarrow> q mod PGSIZE = 0 \<Longrightarrow> in_page c q \<Longrightarrow> load_byte c k' = load_byte c k"
  by (rule load_byte_cong [of q]) (auto simp: pinned_def)

lemma blank_pinned: "blank q k \<Longrightarrow> pinned {q} k k' \<Longrightarrow> q mod PGSIZE = 0 \<Longrightarrow> blank q k'"
  using pinned_bytes by (simp add: blank_def)

lemma blank_set_page: "kalloc k = (q, k0) \<Longrightarrow> q \<noteq> 0 \<Longrightarrow> pt_ok kend k pt owned \<Longrightarrow> blank q (set_page 0 q k0)"
  using alloc_page(7) by (auto simp: blank_def)

text \<open>What \<open>uvmalloc\<close> does when it gives up.\<close>

lemma rollback:
  assumes ok: "pt_ok kend k pt owned" and a: "a \<le> TRAPFRAME" "unat a = 4096 * (lo + m)" "unat oldsz = 4096 * lo"
    and b: "backed k pt owned lo (lo + m)"
  shows "\<exists>s k'. uvmdealloc kend pt a oldsz k = Inr (s, k') \<and> pt_ok kend k' pt (owned - frames k pt lo (lo + m)) \<and>
    table k' pt = table k pt \<and> (\<forall>i < NPAGE. entry k' pt i = (if lo \<le> i \<and> i < lo + m then None else entry k pt i)) \<and>
    pinned (owned - table k pt - frames k pt lo (lo + m)) k k'"
proof (cases m)
  case 0
  then have "a = oldsz" using a by (simp add: word_unat_eq_iff)
  then show ?thesis using 0 ok by (auto simp: uvmdealloc_def)
next
  case (Suc m')
  have n: "npages_of a = lo + m" "npages_of oldsz = lo" unfolding npages_of_def a(2,3) by simp_all
  have "oldsz < a" using a Suc by (simp add: word_less_nat_alt)
  from uvmdealloc_effect [OF ok this a(1)] b show ?thesis unfolding n by blast
qed

lemma page_of:
  assumes "unat a = 4096 * i" "i < NPAGE" shows "a < MAXVA" "a mod 4096 = 0" "vpn a = i" "unat (a + 4096) = 4096 * Suc i"
proof -
  show m: "a < MAXVA" using assms by (simp add: MAXVA_unat NPAGE_def)
  show "a mod 4096 = 0" "vpn a = i" using assms(1) by (simp_all add: word_unat_eq_iff unat_mod vpn_def)
  show "unat (a + 4096) = 4096 * Suc i" using page_above(2) [of a] m assms(1) by (simp add: not_le)
qed

text \<open>A frame is added at the end of a range.\<close>

lemma frames_last:
  "frames k pt lo (Suc (lo + m)) = frames k pt lo (lo + m) \<union> (case entry k pt (lo + m) of None \<Rightarrow> {} | Some e \<Rightarrow> {PTE2PA e})"
proof -
  have "frames k pt lo (Suc (lo + m)) = {PTE2PA e | i e. (lo \<le> i \<and> i < lo + m \<or> i = lo + m) \<and> entry k pt i = Some e}"
    unfolding frames_def by (metis (no_types, opaque_lifting) le_add1 less_Suc_eq)
  also have "\<dots> = frames k pt lo (lo + m) \<union> {PTE2PA e | e. entry k pt (lo + m) = Some e}" unfolding frames_def by blast
  finally show ?thesis by (auto split: option.split)
qed

lemma backed_add:
  assumes b: "backed k pt owned lo (lo + m)"
    and o: "owned \<subseteq> owned'" "table k' pt \<inter> owned = table k pt" "q \<in> owned'" "q \<notin> owned" "q \<notin> table k' pt"
    and e: "\<And>i. lo \<le> i \<Longrightarrow> i < lo + m \<Longrightarrow> entry k' pt i = entry k pt i" "entry k' pt (lo + m) = Some e" "PTE2PA e = q"
  shows "backed k' pt owned' lo (Suc (lo + m))" "frames k' pt lo (Suc (lo + m)) = insert q (frames k pt lo (lo + m))"
proof -
  have f: "frames k' pt lo (lo + m) = frames k pt lo (lo + m)" by (rule frames_cong) (rule e(1))
  then show F: "frames k' pt lo (Suc (lo + m)) = insert q (frames k pt lo (lo + m))" using e(2,3) by (simp add: frames_last)
  have old: "PTE2PA w \<in> owned \<and> PTE2PA w \<noteq> q" if "entry k' pt i = Some w" "lo \<le> i" "i < lo + m" for i w
    using backedD(1) [OF b that(2,3)] e(1) [OF that(2,3)] that(1) o(4) by auto
  have "i = j" if "lo \<le> i" "i < Suc (lo + m)" "lo \<le> j" "j < Suc (lo + m)" "entry k' pt i = Some w" "entry k' pt j = Some x" "PTE2PA w = PTE2PA x"
    for i j w x
  proof (cases "i < lo + m \<and> j < lo + m")
    case True
    then show ?thesis using backedD(3) [OF b, of i w j x] e(1) that by simp
  next
    case False
    then have "PTE2PA w = q" using that e(2,3) by (auto simp: less_Suc_eq)
    then show ?thesis using old [of i w] old [of j x] that by (metis less_Suc_eq)
  qed
  moreover have "insert q (frames k pt lo (lo + m)) \<subseteq> owned' - table k' pt" using b o unfolding backed_def by blast
  ultimately show "backed k' pt owned' lo (Suc (lo + m))" unfolding backed_def F by blast
qed

text \<open>
  The two ends of \<open>uvmalloc\<close>, seen from the state \<open>k\<close> in which the pages from \<open>lo\<close> to \<open>i\<close> are there already:
  all pages up to \<open>hi\<close> are mapped and blank, or none from \<open>lo\<close> on.
\<close>

definition entry_for :: "nat \<Rightarrow> 64 word \<Rightarrow> 64 word" where "entry_for q perm = PA2PTE q OR perm OR PTE_V"

definition grown_to :: "nat \<Rightarrow> nat \<Rightarrow> kmem \<Rightarrow> nat set \<Rightarrow> nat \<Rightarrow> nat \<Rightarrow> nat \<Rightarrow> 64 word \<Rightarrow> kmem \<Rightarrow> nat set \<Rightarrow> bool" where
  "grown_to kend pt k owned lo i hi perm k' owned' \<longleftrightarrow> owned \<subseteq> owned' \<and> pinned (owned - table k pt) k k' \<and>
     backed k' pt owned' lo (max hi i) \<and>
     (\<forall>j < NPAGE. if i \<le> j \<and> j < hi then \<exists>q. entry k' pt j = Some (entry_for q perm) \<and> q \<in> pages kend \<and> q \<notin> owned \<and> blank q k'
        else entry k' pt j = entry k pt j)"

definition shrunk_to :: "nat \<Rightarrow> kmem \<Rightarrow> nat set \<Rightarrow> nat \<Rightarrow> nat \<Rightarrow> kmem \<Rightarrow> nat set \<Rightarrow> bool" where
  "shrunk_to pt k owned lo i k' owned' \<longleftrightarrow> owned - frames k pt lo i \<subseteq> owned' \<and>
     pinned (owned - table k pt - frames k pt lo i) k k' \<and>
     (\<forall>j < NPAGE. entry k' pt j = (if lo \<le> j \<and> j < i then None else entry k pt j))"

lemma entry_for_facts:
  assumes "q \<in> pages kend" "perm AND NOT 0x3FF = 0"
  shows "PTE2PA (entry_for q perm) = q" "on (entry_for q perm) PTE_U \<longleftrightarrow> on (PA2PTE q) PTE_U \<or> on perm PTE_U"
proof -
  have "(perm OR PTE_V) AND NOT 0x3FF = 0" using assms(2) by (simp add: bit.conj_disj_distrib2 PTE_V_def)
  then show "PTE2PA (entry_for q perm) = q"
    using PTE2PA_pte [OF page_facts(1,3) [OF assms(1)], of "perm OR PTE_V"] by (simp add: entry_for_def or.assoc)
  show "on (entry_for q perm) PTE_U \<longleftrightarrow> on (PA2PTE q) PTE_U \<or> on perm PTE_U"
    unfolding entry_for_def on_or by (simp add: on_def PTE_V_def PTE_U_def)
qed

lemma uvmalloc_loop_effect:
  assumes "pt_ok kend k pt owned" "newsz \<le> TRAPFRAME" "unat a = 4096 * (lo + m)" "unat oldsz = 4096 * lo"
    and "lo + m + n = max (npages_of newsz) (lo + m)" "lo + m < NPAGE" "backed k pt owned lo (lo + m)"
    and "\<And>i. lo + m \<le> i \<Longrightarrow> i < npages_of newsz \<Longrightarrow> entry k pt i = None" "(PTE_R OR PTE_U OR xperm) AND NOT 0x3FF = 0"
  shows "\<exists>r k' owned'. uvmalloc_loop kend pt oldsz a newsz xperm k = Inr (r, k') \<and> pt_ok kend k' pt owned' \<and>
    table k' pt \<inter> owned = table k pt \<and>
    (r = newsz \<and> grown_to kend pt k owned lo (lo + m) (npages_of newsz) (PTE_R OR PTE_U OR xperm) k' owned' \<or>
     r = 0 \<and> shrunk_to pt k owned lo (lo + m) k' owned')"
  using assms
proof (induction n arbitrary: a m k owned)
  case 0
  then have "\<not> a < newsz" unfolding word_less_nat_alt npages_of_def by simp
  then have "uvmalloc_loop kend pt oldsz a newsz xperm k = Inr (newsz, k)" by (subst uvmalloc_loop.simps) simp
  moreover have "grown_to kend pt k owned lo (lo + m) (npages_of newsz) (PTE_R OR PTE_U OR xperm) k owned"
    using 0 by (auto simp: grown_to_def max_def)
  moreover have "table k pt \<subseteq> owned" using 0(1) by (simp add: pt_ok_def)
  ultimately show ?case using 0(1) by blast
next
  case (Suc n)
  note ok = Suc.prems(1)
  let ?perm = "PTE_R OR PTE_U OR xperm"
  have hi: "lo + m < npages_of newsz" using Suc.prems(5) by (simp add: max_def split: if_splits)
  then have an: "a < newsz" unfolding word_less_nat_alt npages_of_def Suc.prems(3) pages_up .
  have at: "a \<le> TRAPFRAME" using an Suc.prems(2) by simp
  note A = page_of [OF Suc.prems(3,6)]
  have T: "table k pt \<subseteq> owned" using ok by (simp add: pt_ok_def)
  have ea: "view k pt a = None" using view_entry [OF A(1), of k pt] A(3) Suc.prems(8) [of "lo + m"] hi by simp
  have give_up: ?case if "uvmalloc_loop kend pt oldsz a newsz xperm k =
      (case uvmdealloc kend pt a oldsz k2 of Inl e \<Rightarrow> Inl e | Inr (_, k) \<Rightarrow> Inr (0, k))"
      "pt_ok kend k2 pt owned2" "table k2 pt \<inter> owned = table k pt" "view k2 pt = view k pt" "owned \<subseteq> owned2"
      "pinned (owned - table k pt) k k2" for k2 owned2
  proof -
    have e: "entry k2 pt = entry k pt" using that(4) by (simp add: entry_def fun_eq_iff)
    then have f: "frames k2 pt = frames k pt" by (simp add: frames_def fun_eq_iff)
    have "backed k2 pt owned2 lo (lo + m)"
      by (rule backed_same [OF Suc.prems(7)]) (use Suc.prems(7) e that(3,5) in \<open>auto simp: backed_def\<close>)
    from rollback [OF that(2) at Suc.prems(3,4) this] obtain s k' where
      r: "uvmdealloc kend pt a oldsz k2 = Inr (s, k')" "pt_ok kend k' pt (owned2 - frames k pt lo (lo + m))"
      "table k' pt = table k2 pt" "\<forall>i < NPAGE. entry k' pt i = (if lo \<le> i \<and> i < lo + m then None else entry k pt i)"
      "pinned (owned2 - table k2 pt - frames k pt lo (lo + m)) k2 k'"
      unfolding e f by blast
    have "pinned (owned - table k pt - frames k pt lo (lo + m)) k k'"
      by (rule pinned_trans [OF pinned_mono [OF that(6)] pinned_mono [OF r(5)]]) (use that(3,5) in auto)
    then have "shrunk_to pt k owned lo (lo + m) k' (owned2 - frames k pt lo (lo + m))"
      using r(4) that(5) by (auto simp: shrunk_to_def)
    then show ?thesis using that(1,3) r(1-3) by auto
  qed
  obtain q k0 where al: "kalloc k = (q, k0)" by fastforce
  show ?case
  proof (cases "q = 0")
    case True
    then have "k0 = k" using kalloc_ok [OF pt_okD(2) [OF ok] al] by simp
    then have "uvmalloc_loop kend pt oldsz a newsz xperm k =
        (case uvmdealloc kend pt a oldsz k of Inl e \<Rightarrow> Inl e | Inr (_, k) \<Rightarrow> Inr (0, k))"
      by (subst uvmalloc_loop.simps) (simp add: an al True)
    from give_up [OF this ok] T show ?thesis by auto
  next
    case q: False
    let ?k = "set_page 0 q k0"
    have kf: "?k = k0\<lparr>mem := mem ?k\<rparr>" "\<forall>b. \<not> in_page b q \<longrightarrow> mem ?k b = mem k0 b"
      by (simp_all add: set_page_def fill_page_other)
    show ?thesis
    proof (cases rule: map_fresh [OF ok al q kf A(1,2) ea, where perm = ?perm])
      case (1 k1 k2)
      have "uvmalloc_loop kend pt oldsz a newsz xperm k =
          (case uvmdealloc kend pt a oldsz k2 of Inl e \<Rightarrow> Inl e | Inr (_, k) \<Rightarrow> Inr (0, k))"
        by (subst uvmalloc_loop.simps) (simp add: an al q 1(1,2))
      from give_up [OF this 1(3-5,7,6)] show ?thesis .
    next
      case (2 k1 owned1)
      have step: "uvmalloc_loop kend pt oldsz a newsz xperm k = uvmalloc_loop kend pt oldsz (a + 4096) newsz xperm k1"
        by (subst uvmalloc_loop.simps) (simp add: an al q 2(1))
      have e1: "entry k1 pt i = (if i = lo + m then Some (entry_for q ?perm) else entry k pt i)" if "i < NPAGE" for i
        using entry_view [OF that] 2(10) view_entry A(3) unfolding entry_for_def by metis
      have hp: "npages_of newsz \<le> NPAGE - 2" using round_up(3) [OF Suc.prems(2)] .
      have pa: "PTE2PA (entry_for q ?perm) = q" by (rule entry_for_facts(1) [OF 2(5) Suc.prems(9)])
      note B = backed_add [OF Suc.prems(7) _ 2(7) _ 2(4,6), where e = "entry_for q ?perm" and owned' = owned1]
      have B: "backed k1 pt owned1 lo (lo + Suc m)" "frames k1 pt lo (lo + Suc m) = insert q (frames k pt lo (lo + m))"
        using B 2(3) e1 Suc.prems(6) pa by simp_all
      have n1: "unat (a + 4096) = 4096 * (lo + Suc m)" "lo + Suc m + n = max (npages_of newsz) (lo + Suc m)" "lo + Suc m < NPAGE"
        using A(4) Suc.prems(5) hi hp by (simp_all add: max_def NPAGE_def split: if_splits)
      have free: "entry k1 pt i = None" if "lo + Suc m \<le> i" "i < npages_of newsz" for i
        using e1 [of i] Suc.prems(8) [of i] that hp by (simp add: NPAGE_def)
      from Suc.IH [OF 2(2) Suc.prems(2) n1(1) Suc.prems(4) n1(2,3) B(1) free Suc.prems(9)] obtain r k' owned' where
        r: "uvmalloc_loop kend pt oldsz (a + 4096) newsz xperm k1 = Inr (r, k')" "pt_ok kend k' pt owned'"
        "table k' pt \<inter> owned1 = table k1 pt"
        "r = newsz \<and> grown_to kend pt k1 owned1 lo (lo + Suc m) (npages_of newsz) ?perm k' owned' \<or>
         r = 0 \<and> shrunk_to pt k1 owned1 lo (lo + Suc m) k' owned'" by blast
      have sub: "owned - table k pt \<subseteq> owned1 - table k1 pt" using 2(3,7) by auto
      have t: "table k' pt \<inter> owned = table k pt" using r(3) 2(3,7) by auto
      have mx: "max (npages_of newsz) (lo + Suc m) = npages_of newsz" "max (npages_of newsz) (lo + m) = npages_of newsz"
        using hi by simp_all
      have "grown_to kend pt k owned lo (lo + m) (npages_of newsz) ?perm k' owned'"
        if g: "grown_to kend pt k1 owned1 lo (lo + Suc m) (npages_of newsz) ?perm k' owned'"
      proof -
        have g': "owned1 \<subseteq> owned'" "pinned (owned1 - table k1 pt) k1 k'" "backed k' pt owned' lo (npages_of newsz)"
          "\<And>j. j < NPAGE \<Longrightarrow> if lo + Suc m \<le> j \<and> j < npages_of newsz
            then \<exists>q. entry k' pt j = Some (entry_for q ?perm) \<and> q \<in> pages kend \<and> q \<notin> owned1 \<and> blank q k'
            else entry k' pt j = entry k1 pt j"
          using g mx(1) by (simp_all add: grown_to_def)
        have "pinned (owned - table k pt) k k'" by (rule pinned_trans [OF 2(8) pinned_mono [OF g'(2) sub]])
        moreover have bq: "blank q k'"
        proof (rule blank_pinned [OF blank_pinned [OF blank_set_page [OF al q ok] 2(9)]])
          show "pinned {q} k1 k'" by (rule pinned_mono [OF g'(2)]) (use 2(3,6) in auto)
        qed (use page_facts(1) [OF 2(5)] in auto)
        moreover have "if lo + m \<le> j \<and> j < npages_of newsz
            then \<exists>q. entry k' pt j = Some (entry_for q ?perm) \<and> q \<in> pages kend \<and> q \<notin> owned \<and> blank q k'
            else entry k' pt j = entry k pt j" if j: "j < NPAGE" for j
        proof (cases "j = lo + m")
          case True
          then show ?thesis using g'(4) [OF j] e1 [OF j] 2(4,5) bq hi by auto
        next
          case False
          then show ?thesis using g'(4) [OF j] e1 [OF j] 2(3) by (auto split: if_splits)
        qed
        moreover have "owned \<subseteq> owned'" using g'(1) 2(3) by blast
        ultimately show ?thesis using g'(3) mx(2) by (simp add: grown_to_def)
      qed
      moreover have "shrunk_to pt k owned lo (lo + m) k' owned'"
        if g: "shrunk_to pt k1 owned1 lo (lo + Suc m) k' owned'"
      proof -
        let ?F = "frames k pt lo (lo + m)"
        have g': "owned1 - insert q ?F \<subseteq> owned'" "pinned (owned1 - table k1 pt - insert q ?F) k1 k'"
          "\<And>j. j < NPAGE \<Longrightarrow> entry k' pt j = (if lo \<le> j \<and> j < lo + Suc m then None else entry k1 pt j)"
          using g B(2) by (simp_all add: shrunk_to_def)
        have "pinned (owned - table k pt - ?F) k k'"
          by (rule pinned_trans [OF pinned_mono [OF 2(8)] pinned_mono [OF g'(2)]]) (use sub 2(4) in auto)
        moreover have "entry k' pt j = (if lo \<le> j \<and> j < lo + m then None else entry k pt j)" if j: "j < NPAGE" for j
          using g'(3) [OF j] e1 [OF j] Suc.prems(8) [of "lo + m"] hi by (cases "j = lo + m") auto
        moreover have "owned - ?F \<subseteq> owned'" using g'(1) 2(3,4) by auto
        ultimately show ?thesis by (simp add: shrunk_to_def)
      qed
      ultimately show ?thesis using step r t by auto
    qed
  qed
qed

section \<open>The memory of a process grows and shrinks\<close>

text \<open>
  The address space of a process: its pages, up to its size, are in pages of memory of its own, which hold
  neither tables nor each other; nothing is mapped above, but for the two pages of the kernel.
\<close>

definition space_ok :: "nat \<Rightarrow> kmem \<Rightarrow> uproc \<Rightarrow> nat set \<Rightarrow> bool" where
  "space_ok kend k p owned \<longleftrightarrow> pt_ok kend k (pagetable p) owned \<and> psize p \<le> TRAPFRAME \<and>
     backed k (pagetable p) owned 0 (NPAGE - 2) \<and>
     (\<forall>i. npages_of (psize p) \<le> i \<and> i < NPAGE - 2 \<longrightarrow> entry k (pagetable p) i = None) \<and>
     (\<forall>i e. NPAGE - 2 \<le> i \<and> i < NPAGE \<and> entry k (pagetable p) i = Some e \<longrightarrow> \<not> on e PTE_U)"

lemma space_okD:
  assumes "space_ok kend k p owned"
  shows "pt_ok kend k (pagetable p) owned" "psize p \<le> TRAPFRAME" "backed k (pagetable p) owned 0 (NPAGE - 2)"
    "npages_of (psize p) \<le> i \<Longrightarrow> i < NPAGE - 2 \<Longrightarrow> entry k (pagetable p) i = None"
    "NPAGE - 2 \<le> i \<Longrightarrow> i < NPAGE \<Longrightarrow> entry k (pagetable p) i = Some e \<Longrightarrow> \<not> on e PTE_U"
  using assms unfolding space_ok_def by blast+

lemma vpn_NPAGE: "v < MAXVA \<Longrightarrow> vpn v < NPAGE"
  by (simp add: below_MAXVA NPAGE_def)

lemma space_user: assumes ok: "space_ok kend k p owned" shows "user_ok kend k p owned"
proof -
  note O = space_okD [OF ok]
  have u: "0 \<le> vpn v \<and> vpn v < NPAGE - 2 \<and> entry k (pagetable p) (vpn v) = Some e"
    if "v < MAXVA" "view k (pagetable p) v = Some e" "on e PTE_U" for v e
    using O(5) [of "vpn v" e] view_entry [OF that(1)] vpn_NPAGE [OF that(1)] that(2,3) by (auto simp: not_le [symmetric])
  show ?thesis unfolding user_ok_def
  proof (intro conjI allI impI)
    fix v e assume "v < MAXVA \<and> view k (pagetable p) v = Some e \<and> on e PTE_U"
    then show "PTE2PA e \<in> owned - table k (pagetable p)" using u backedD(1,2) [OF O(3)] by blast
  next
    fix v e v' e'
    assume "v < MAXVA \<and> v' < MAXVA \<and> view k (pagetable p) v = Some e \<and> view k (pagetable p) v' = Some e' \<and>
      on e PTE_U \<and> on e' PTE_U \<and> PTE2PA e = PTE2PA e'"
    then show "vpn v = vpn v'" using u [of v e] u [of v' e'] backedD(3) [OF O(3)] by blast
  qed (use O in auto)
qed

text \<open>The memory of a process by page number.\<close>

lemma umem_entry:
  assumes "psize p \<le> TRAPFRAME"
  shows "umem k p v = (if v \<ge> MAXVA then None else case entry k (pagetable p) (vpn v) of
      Some e \<Rightarrow> if on e PTE_U then Some (load_byte (PTE2PA e + unat v mod 4096) k) else None
    | None \<Rightarrow> if vpn v < npages_of (psize p) then Some 0 else None)"
proof (cases "v < MAXVA")
  case True
  then show ?thesis using view_entry [OF True, of k "pagetable p"] round_up(5) [OF assms, of v] by (simp add: umem_def)
qed (simp add: umem_def not_less)

text \<open>A process gets another size: what lies below both sizes stays, and new pages are zero.\<close>

definition resized :: "kmem \<Rightarrow> uproc \<Rightarrow> 64 word \<Rightarrow> 64 word \<rightharpoonup> byte" where
  "resized k p sz v = (if v < MAXVA \<and> vpn v < npages_of sz
     then if vpn v < npages_of (psize p) then umem k p v else Some 0 else None)"

lemma resize_effect:
  assumes ok: "space_ok kend k p owned" and ok': "pt_ok kend k' (pagetable p) owned'" and sz: "sz \<le> TRAPFRAME"
  defines "F \<equiv> frames k (pagetable p) 0 (min (npages_of (psize p)) (npages_of sz))"
  assumes f: "F \<subseteq> owned' - table k' (pagetable p)" "pinned F k k'"
    and e: "\<And>j. j < NPAGE \<Longrightarrow> j < npages_of (psize p) \<and> j < npages_of sz \<or> NPAGE - 2 \<le> j \<Longrightarrow>
        entry k' (pagetable p) j = entry k (pagetable p) j"
      "\<And>j. npages_of sz \<le> j \<Longrightarrow> j < NPAGE - 2 \<Longrightarrow> entry k' (pagetable p) j = None"
      "\<And>j w. npages_of (psize p) \<le> j \<Longrightarrow> j < npages_of sz \<Longrightarrow> entry k' (pagetable p) j = Some w \<Longrightarrow>
        on w PTE_U \<and> blank (PTE2PA w) k'"
    and b: "backed k' (pagetable p) owned' (npages_of (psize p)) (npages_of sz)"
      "frames k' (pagetable p) (npages_of (psize p)) (npages_of sz) \<inter> F = {}"
  shows "space_ok kend k' (p\<lparr>psize := sz\<rparr>) owned'" "umem k' (p\<lparr>psize := sz\<rparr>) = resized k p sz"
proof -
  let ?pt = "pagetable p" and ?m = "min (npages_of (psize p)) (npages_of sz)"
  note O = space_okD [OF ok]
  have hi: "npages_of sz \<le> NPAGE - 2" "npages_of (psize p) \<le> NPAGE - 2" using round_up(3) sz O(2) by blast+
  have N: "j < NPAGE - 2 \<Longrightarrow> j < NPAGE" for j by (simp add: NPAGE_def)
  have old: "entry k ?pt j = Some w \<and> PTE2PA w \<in> F \<and> j < NPAGE - 2" if "entry k' ?pt j = Some w" "j < ?m" for j w
  proof -
    have "entry k ?pt j = Some w" using e(1) [of j] that hi by (simp add: N)
    then show ?thesis using framesI [of 0 j ?m k ?pt w] that hi by (simp add: F_def)
  qed
  have new: "npages_of (psize p) \<le> j \<and> j < npages_of sz" if "entry k' ?pt j = Some w" "j < NPAGE - 2" "\<not> j < ?m" for j w
    using e(2) [of j] that by (auto simp: not_less [symmetric])
  have fr: "frames k' ?pt 0 (NPAGE - 2) \<subseteq> owned' - table k' ?pt"
  proof
    fix q assume "q \<in> frames k' ?pt 0 (NPAGE - 2)"
    then obtain j w where j: "q = PTE2PA w" "j < NPAGE - 2" "entry k' ?pt j = Some w" by (auto simp: frames_def)
    show "q \<in> owned' - table k' ?pt"
    proof (cases "j < ?m")
      case True
      then show ?thesis using old [OF j(3)] f(1) j(1) by blast
    next
      case False
      then show ?thesis using new [OF j(3,2)] backedD(1,2) [OF b(1) _ _ j(3)] j(1) by blast
    qed
  qed
  have inj: "i = j" if "i < NPAGE - 2" "j < NPAGE - 2" "entry k' ?pt i = Some w" "entry k' ?pt j = Some x" "PTE2PA w = PTE2PA x" for i j w x
  proof -
    note h = that
    have mix: False if "entry k' ?pt i = Some w" "entry k' ?pt j = Some x" "PTE2PA w = PTE2PA x" "i < ?m" "\<not> j < ?m" "j < NPAGE - 2" for i j w x
      using old [OF that(1,4)] new [OF that(2,6,5)] framesI [of "npages_of (psize p)" j "npages_of sz" k' ?pt x] that b(2) by auto
    consider "i < ?m" "j < ?m" | "\<not> i < ?m" "\<not> j < ?m" using mix [OF h(3,4,5)] mix [OF h(4,3) h(5) [symmetric]] h(1,2) by blast
    then show ?thesis
    proof cases
      case 1
      then show ?thesis using old [OF h(3)] old [OF h(4)] backedD(3) [OF O(3)] h(5) by blast
    next
      case 2
      then show ?thesis
        using new [OF h(3,1)] new [OF h(4,2)] backedD(3) [OF b(1) _ _ h(3), of j x] h(4,5) by blast
    qed
  qed
  have top: "\<not> on w PTE_U" if "NPAGE - 2 \<le> i" "i < NPAGE" "entry k' ?pt i = Some w" for i w
    using e(1) [of i] O(5) [of i w] that by simp
  have "backed k' ?pt owned' 0 (NPAGE - 2)" using fr inj unfolding backed_def by blast
  then show "space_ok kend k' (p\<lparr>psize := sz\<rparr>) owned'"
    unfolding space_ok_def using ok' sz e(2) top by (intro conjI allI impI) (simp_all, blast)
  show "umem k' (p\<lparr>psize := sz\<rparr>) = resized k p sz"
  proof
    fix v
    show "umem k' (p\<lparr>psize := sz\<rparr>) v = resized k p sz v"
    proof (cases "v < MAXVA")
      case v: True
      note U' = umem_entry [of "p\<lparr>psize := sz\<rparr>" k' v, simplified, OF sz] and U = umem_entry [OF O(2), of k v]
      have byte: "in_page (q + unat v mod 4096) q" for q by (rule in_page_off)
      consider "vpn v < ?m" | "npages_of (psize p) \<le> vpn v" "vpn v < npages_of sz" | "npages_of sz \<le> vpn v" "vpn v < NPAGE - 2" | "NPAGE - 2 \<le> vpn v"
        by linarith
      then show ?thesis
      proof cases
        case 1
        have "load_byte (PTE2PA w + unat v mod 4096) k' = load_byte (PTE2PA w + unat v mod 4096) k" if "entry k' ?pt (vpn v) = Some w" for w
        proof (rule pinned_bytes [OF _ _ byte])
          have F: "PTE2PA w \<in> F" using old [OF that 1] by blast
          then show "pinned {PTE2PA w} k k'" using pinned_mono [OF f(2)] by blast
          show "PTE2PA w mod PGSIZE = 0" using F f(1) owned_page [OF pt_okD(2) [OF ok']] page_facts(1) by blast
        qed
        then show ?thesis using 1 v U U' e(1) [of "vpn v"] vpn_NPAGE [OF v]
          by (auto simp: resized_def not_le split: option.splits)
      next
        case 2
        then show ?thesis using v U' e(3) [of "vpn v"] byte
          by (auto simp: resized_def blank_def not_le split: option.splits)
      next
        case 3
        then show ?thesis using v U' e(2) [of "vpn v"] by (simp add: resized_def not_le)
      next
        case 4
        then have "\<not> vpn v < npages_of sz" using hi by simp
        then show ?thesis using 4 v U' e(1) [of "vpn v"] O(5) [of "vpn v"] vpn_NPAGE [OF v]
          by (auto simp: resized_def not_le split: option.splits)
      qed
    qed (simp add: umem_def resized_def not_less)
  qed
qed

lemma add_int:
  fixes a :: "64 word" and n :: "32 word"
  assumes "unat a \<le> 2 ^ 38"
  shows "0 \<le> sint n \<Longrightarrow> unat (a + scast n) = unat a + nat (sint n)"
    "sint n < 0 \<Longrightarrow> nat (- sint n) \<le> unat a \<Longrightarrow> unat (a + scast n) = unat a - nat (- sint n)"
    "sint n < 0 \<Longrightarrow> unat a < nat (- sint n) \<Longrightarrow> a \<le> a + scast n"
proof -
  have b: "- (2 ^ 31) \<le> sint n" "sint n < 2 ^ 31" using sint_greater_eq [of n] sint_less [of n] by simp_all
  show "unat (a + scast n) = unat a + nat (sint n)" if "0 \<le> sint n"
  proof -
    have "(scast n :: 64 word) = of_nat (nat (sint n))" unfolding scast_eq by (metis that nat_0_le of_int_of_nat_eq)
    moreover have "nat (sint n) < 2 ^ 31" using b that by simp
    then have "unat (of_nat (nat (sint n)) :: 64 word) = nat (sint n)"
      by (simp add: unsigned_of_nat take_bit_nat_eq_self del: of_nat_nat)
    ultimately show ?thesis using assms \<open>nat (sint n) < 2 ^ 31\<close> by (subst unat_add_lem [THEN iffD1]) simp_all
  qed
  let ?m = "nat (- sint n)"
  have m: "unat (of_nat ?m :: 64 word) = ?m" if "sint n < 0"
  proof -
    have "?m \<le> 2 ^ 31" using b by simp
    then show ?thesis by (simp add: unsigned_of_nat take_bit_nat_eq_self del: of_nat_nat)
  qed
  have s: "a + scast n = a - of_nat ?m" if "sint n < 0"
  proof -
    have "sint n = - int ?m" using that by simp
    then have "(scast n :: 64 word) = - of_nat ?m" unfolding scast_eq by (metis of_int_minus of_int_of_nat_eq)
    then show ?thesis by simp
  qed
  show "unat (a + scast n) = unat a - ?m" if "sint n < 0" "?m \<le> unat a"
    unfolding s [OF that(1)] using m [OF that(1)] that(2) by (subst unat_sub) (simp_all add: word_le_nat_alt)
  show "a \<le> a + scast n" if "sint n < 0" "unat a < ?m"
  proof -
    have "?m \<le> 2 ^ 31" using b by simp
    then show ?thesis unfolding s [OF that(1)] word_le_nat_alt unat_sub_if' using m [OF that(1)] that(2) by (simp del: of_nat_nat)
  qed
qed

lemma resized_same: "space_ok kend k p owned \<Longrightarrow> resized k p (psize p) = umem k p"
proof
  fix v assume ok: "space_ok kend k p owned"
  note O = space_okD [OF ok]
  show "resized k p (psize p) v = umem k p v"
  proof (cases "v < MAXVA \<and> npages_of (psize p) \<le> vpn v")
    case True
    then have "umem k p v = None"
      using O(4) [of "vpn v"] O(5) [of "vpn v"] vpn_NPAGE [of v]
      by (cases "vpn v < NPAGE - 2") (auto simp: umem_entry [OF O(2)] not_le split: option.split)
    then show ?thesis using True by (simp add: resized_def)
  qed (auto simp: resized_def umem_entry [OF O(2)])
qed

text \<open>What other owners have in memory, and what they keep.\<close>

definition others :: "kmem \<Rightarrow> nat \<Rightarrow> nat set \<Rightarrow> nat set" where
  "others k pt owned = owned - table k pt - frames k pt 0 (NPAGE - 2)"

lemma growproc_grow:
  assumes ok: "space_ok kend k p owned" and n: "0 < sint n"
  shows "\<exists>r p' k' owned'. growproc kend p n k = Inr (r, p', k') \<and> space_ok kend k' p' owned' \<and> pagetable p' = pagetable p \<and>
    (r = 0 \<and> psize p' = psize p + scast n \<and> umem k' p' = resized k p (psize p') \<or> r = -1 \<and> p' = p \<and> umem k' p' = umem k p) \<and>
    others k (pagetable p) owned \<subseteq> owned' \<and> pinned (others k (pagetable p) owned) k k'"
proof -
  let ?pt = "pagetable p" and ?sz = "psize p + scast n"
  note O = space_okD [OF ok]
  have su: "unat (psize p) \<le> 2 ^ 38" using O(2) unfolding word_le_nat_alt TRAPFRAME_unat by simp
  have u: "unat ?sz = unat (psize p) + nat (sint n)" using add_int(1) [OF su] n by simp
  show ?thesis
  proof (cases "?sz \<le> TRAPFRAME")
    case False
    then have "growproc kend p n k = Inr (-1, p, k)" using n by (simp add: growproc_def Let_def not_le)
    then show ?thesis using ok by (auto simp: others_def)
  next
    case sz: True
    have ge: "\<not> ?sz < psize p" "psize p \<le> ?sz" "?sz \<noteq> 0" using u n by (auto simp: word_less_nat_alt word_le_nat_alt)
    let ?lo = "npages_of (psize p)" and ?hi = "npages_of ?sz" and ?perm = "PTE_R OR PTE_U OR PTE_W"
    note U = round_up [OF O(2)] and H = round_up [OF sz]
    have lh: "?lo \<le> ?hi" using npages_mono [OF ge(2)] .
    have perm: "?perm AND NOT 0x3FF = 0" "on ?perm PTE_U" by (simp_all add: PTE_R_def PTE_U_def PTE_W_def on_def)
    have "unat (PGROUNDUP64 (psize p)) = 4096 * (?lo + 0)" "unat (PGROUNDUP64 (psize p)) = 4096 * ?lo" using U(1) by simp_all
    moreover have "?lo + 0 + (?hi - ?lo) = max ?hi (?lo + 0)" using lh by (simp add: max_def)
    moreover have "?lo + 0 < NPAGE" using U(3) by (simp add: NPAGE_def)
    moreover have "backed k ?pt owned ?lo (?lo + 0)" by (simp add: backed_def)
    moreover have "entry k ?pt i = None" if "?lo + 0 \<le> i" "i < ?hi" for i using O(4) [of i] that H(3) by simp
    ultimately obtain r k' owned' where
      r: "uvmalloc_loop kend ?pt (PGROUNDUP64 (psize p)) (PGROUNDUP64 (psize p)) ?sz PTE_W k = Inr (r, k')"
      "pt_ok kend k' ?pt owned'" "table k' ?pt \<inter> owned = table k ?pt"
      "r = ?sz \<and> grown_to kend ?pt k owned ?lo (?lo + 0) ?hi ?perm k' owned' \<or> r = 0 \<and> shrunk_to ?pt k owned ?lo (?lo + 0) k' owned'"
      using uvmalloc_loop_effect [OF O(1) sz, of "PGROUNDUP64 (psize p)" ?lo 0 "PGROUNDUP64 (psize p)" "?hi - ?lo" PTE_W] perm(1)
      by blast
    have gp: "growproc kend p n k = (if r = 0 then Inr (-1, p, k') else Inr (0, p\<lparr>psize := r\<rparr>, k'))"
      using n sz ge(1) r(1) by (simp add: growproc_def Let_def uvmalloc_def not_less [symmetric])
    have fo: "frames k ?pt 0 ?lo \<subseteq> owned - table k ?pt" using O(3) frames_mono [of 0 0 ?lo "NPAGE - 2" k ?pt] U(3) unfolding backed_def by blast
    show ?thesis
    proof (cases "r = 0")
      case True
      then have s: "owned \<subseteq> owned'" "pinned (owned - table k ?pt) k k'" "\<forall>j < NPAGE. entry k' ?pt j = entry k ?pt j"
        using r(4) ge(3) by (auto simp: shrunk_to_def)
      have "space_ok kend k' (p\<lparr>psize := psize p\<rparr>) owned'" "umem k' (p\<lparr>psize := psize p\<rparr>) = resized k p (psize p)"
        by (rule resize_effect [OF ok r(2) O(2)];
          use fo s r(3) O(4) in \<open>auto simp: NPAGE_def backed_def intro: pinned_mono\<close>)+
      then have "space_ok kend k' p owned'" "umem k' p = umem k p" using resized_same [OF ok] by simp_all
      then show ?thesis using gp True s by (auto simp: others_def intro: pinned_mono)
    next
      case False
      then have rs: "r = ?sz" and g: "grown_to kend ?pt k owned ?lo ?lo ?hi ?perm k' owned'" using r(4) by auto
      then have g: "owned \<subseteq> owned'" "pinned (owned - table k ?pt) k k'" "backed k' ?pt owned' ?lo ?hi"
        "\<And>j. j < NPAGE \<Longrightarrow> if ?lo \<le> j \<and> j < ?hi
          then \<exists>q. entry k' ?pt j = Some (entry_for q ?perm) \<and> q \<in> pages kend \<and> q \<notin> owned \<and> blank q k'
          else entry k' ?pt j = entry k ?pt j"
        using lh by (simp_all add: grown_to_def max_absorb1)
      have m: "min ?lo ?hi = ?lo" using lh by simp
      have new: "on w PTE_U \<and> blank (PTE2PA w) k' \<and> PTE2PA w \<notin> owned" if "?lo \<le> j" "j < ?hi" "entry k' ?pt j = Some w" for j w
      proof -
        note j = that
        have "j < NPAGE" using j(2) H(3) by (simp add: NPAGE_def)
        then obtain q where "w = entry_for q ?perm" "q \<in> pages kend" "q \<notin> owned" "blank q k'" using g(4) [of j] j by auto
        then show ?thesis using entry_for_facts [OF _ perm(1)] perm(2) by simp
      qed
      have apart: "frames k' ?pt ?lo ?hi \<inter> owned = {}" unfolding frames_def using new by blast
      have "space_ok kend k' (p\<lparr>psize := ?sz\<rparr>) owned' \<and> umem k' (p\<lparr>psize := ?sz\<rparr>) = resized k p ?sz"
      proof (intro conjI; rule resize_effect [OF ok r(2) sz]; (unfold m)?)
        show "frames k ?pt 0 ?lo \<subseteq> owned' - table k' ?pt" "frames k ?pt 0 ?lo \<subseteq> owned' - table k' ?pt"
          using fo g(1) r(3) by auto
        show "pinned (frames k ?pt 0 ?lo) k k'" "pinned (frames k ?pt 0 ?lo) k k'" using pinned_mono [OF g(2) fo] by blast+
        show "entry k' ?pt j = entry k ?pt j" if "j < NPAGE" "j < ?lo \<and> j < ?hi \<or> NPAGE - 2 \<le> j" for j
          using g(4) [OF that(1)] that(2) H(3) by (auto split: if_splits)
        then show "\<And>j. j < NPAGE \<Longrightarrow> j < ?lo \<and> j < ?hi \<or> NPAGE - 2 \<le> j \<Longrightarrow> entry k' ?pt j = entry k ?pt j" .
        show "entry k' ?pt j = None" if "?hi \<le> j" "j < NPAGE - 2" for j
          using g(4) [of j] O(4) [of j] that lh by (auto simp: NPAGE_def split: if_splits)
        then show "\<And>j. ?hi \<le> j \<Longrightarrow> j < NPAGE - 2 \<Longrightarrow> entry k' ?pt j = None" .
        show "frames k' ?pt ?lo ?hi \<inter> frames k ?pt 0 ?lo = {}" "frames k' ?pt ?lo ?hi \<inter> frames k ?pt 0 ?lo = {}"
          using apart fo by blast+
      qed (use new g(3) in blast)+
      then show ?thesis using gp rs False g(1,2) by (auto simp: others_def intro: pinned_mono)
    qed
  qed
qed

lemma growproc_shrink:
  assumes ok: "space_ok kend k p owned" and n: "sint n < 0"
  shows "\<exists>p' k' owned'. growproc kend p n k = Inr (0, p', k') \<and> space_ok kend k' p' owned' \<and> pagetable p' = pagetable p \<and>
    psize p' = (if nat (- sint n) \<le> unat (psize p) then psize p + scast n else psize p) \<and> umem k' p' = resized k p (psize p') \<and>
    others k (pagetable p) owned \<subseteq> owned' \<and> pinned (others k (pagetable p) owned) k k'"
proof -
  let ?pt = "pagetable p" and ?sz = "psize p + scast n"
  note O = space_okD [OF ok]
  have su: "unat (psize p) \<le> 2 ^ 38" using O(2) unfolding word_le_nat_alt TRAPFRAME_unat by simp
  show ?thesis
  proof (cases "nat (- sint n) \<le> unat (psize p)")
    case False
    then have "psize p \<le> ?sz" using add_int(3) [OF su n] by simp
    then have "growproc kend p n k = Inr (0, p, k)" using n by (simp add: growproc_def Let_def uvmdealloc_def)
    then show ?thesis using ok False resized_same [OF ok] by (auto simp: others_def)
  next
    case True
    then have "unat ?sz = unat (psize p) - nat (- sint n)" using add_int(2) [OF su n] by simp
    then have lt: "?sz < psize p" using n True by (simp add: word_less_nat_alt)
    then have sz: "?sz \<le> TRAPFRAME" using O(2) by simp
    let ?lo = "npages_of ?sz" and ?hi = "npages_of (psize p)"
    have lh: "?lo \<le> ?hi" "?hi \<le> NPAGE - 2" using npages_mono lt round_up(3) [OF O(2)] by simp_all
    have b: "backed k ?pt owned ?lo ?hi" by (rule backed_part [OF O(3)]) (use lh in auto)
    from uvmdealloc_effect [OF O(1) lt O(2) b] obtain k' where
      r: "uvmdealloc kend ?pt (psize p) ?sz k = Inr (?sz, k')" "pt_ok kend k' ?pt (owned - frames k ?pt ?lo ?hi)"
      "table k' ?pt = table k ?pt" "\<forall>i < NPAGE. entry k' ?pt i = (if ?lo \<le> i \<and> i < ?hi then None else entry k ?pt i)"
      "pinned (owned - table k ?pt - frames k ?pt ?lo ?hi) k k'" by blast
    have gp: "growproc kend p n k = Inr (0, p\<lparr>psize := ?sz\<rparr>, k')" using n r(1) by (simp add: growproc_def Let_def)
    have apart: "frames k ?pt 0 ?lo \<inter> frames k ?pt ?lo ?hi = {}"
    proof -
      have "i = j" if "i < ?lo" "?lo \<le> j" "j < ?hi" "entry k ?pt i = Some e" "entry k ?pt j = Some f" "PTE2PA e = PTE2PA f" for i j e f
        using backedD(3) [OF O(3) _ _ that(4) _ _ that(5,6)] that(1-3) lh by auto
      then show ?thesis unfolding frames_def by fastforce
    qed
    have fo: "frames k ?pt 0 ?lo \<subseteq> owned - table k ?pt - frames k ?pt ?lo ?hi"
      using O(3) frames_mono [of 0 0 ?lo "NPAGE - 2" k ?pt] lh apart unfolding backed_def by (auto dest: le_trans)
    have m: "min ?hi ?lo = ?lo" using lh by simp
    have "space_ok kend k' (p\<lparr>psize := ?sz\<rparr>) (owned - frames k ?pt ?lo ?hi) \<and> umem k' (p\<lparr>psize := ?sz\<rparr>) = resized k p ?sz"
    proof (intro conjI; rule resize_effect [OF ok r(2) sz]; (unfold m)?)
      show "frames k ?pt 0 ?lo \<subseteq> owned - frames k ?pt ?lo ?hi - table k' ?pt"
        "frames k ?pt 0 ?lo \<subseteq> owned - frames k ?pt ?lo ?hi - table k' ?pt" using fo r(3) by auto
      show "pinned (frames k ?pt 0 ?lo) k k'" "pinned (frames k ?pt 0 ?lo) k k'" using pinned_mono [OF r(5) fo] by blast+
      show "entry k' ?pt j = entry k ?pt j" if "j < NPAGE" "j < ?hi \<and> j < ?lo \<or> NPAGE - 2 \<le> j" for j
        using r(4) that lh by auto
      then show "\<And>j. j < NPAGE \<Longrightarrow> j < ?hi \<and> j < ?lo \<or> NPAGE - 2 \<le> j \<Longrightarrow> entry k' ?pt j = entry k ?pt j" .
      show "entry k' ?pt j = None" if "?lo \<le> j" "j < NPAGE - 2" for j
        using r(4) O(4) [of j] that by (auto simp: NPAGE_def)
      then show "\<And>j. ?lo \<le> j \<Longrightarrow> j < NPAGE - 2 \<Longrightarrow> entry k' ?pt j = None" .
    qed (use lh in \<open>auto simp: backed_def frames_def\<close>)
    moreover have "others k ?pt owned \<subseteq> owned - frames k ?pt ?lo ?hi" "others k ?pt owned \<subseteq> owned - table k ?pt - frames k ?pt ?lo ?hi"
      using frames_mono [of 0 ?lo ?hi "NPAGE - 2" k ?pt] lh by (auto simp: others_def)
    ultimately show ?thesis using gp True pinned_mono [OF r(5)] by auto
  qed
qed

lemma grow_lazily:
  assumes ok: "space_ok kend k p owned" and sz: "psize p \<le> sz" "sz \<le> TRAPFRAME"
  shows "space_ok kend k (p\<lparr>psize := sz\<rparr>) owned" "umem k (p\<lparr>psize := sz\<rparr>) = resized k p sz"
proof -
  let ?pt = "pagetable p"
  note O = space_okD [OF ok]
  have m: "min (npages_of (psize p)) (npages_of sz) = npages_of (psize p)" using npages_mono [OF sz(1)] by simp
  have h: "npages_of (psize p) \<le> NPAGE - 2" "npages_of sz \<le> NPAGE - 2" using round_up(3) O(2) sz(2) by blast+
  have none: "entry k ?pt j = None" if "npages_of (psize p) \<le> j" "j < npages_of sz" for j using O(4) [of j] that h by simp
  then have "frames k ?pt (npages_of (psize p)) (npages_of sz) = {}" by (auto simp: frames_def)
  moreover have "backed k ?pt owned (npages_of (psize p)) (npages_of sz)" using none calculation by (auto simp: backed_def)
  moreover have "frames k ?pt 0 (npages_of (psize p)) \<subseteq> owned - table k ?pt"
    using O(3) frames_mono [of 0 0 "npages_of (psize p)" "NPAGE - 2" k ?pt] h unfolding backed_def by blast
  ultimately show "space_ok kend k (p\<lparr>psize := sz\<rparr>) owned" "umem k (p\<lparr>psize := sz\<rparr>) = resized k p sz"
    using resize_effect [OF ok O(1) sz(2)] none O(4) npages_mono [OF sz(1)] unfolding m by auto
qed


section \<open>Copying a process\<close>

text \<open>A table whose pages nobody changed is as it was.\<close>

lemma pinned_table:
  assumes ok: "pt_ok kend k pt owned" and t: "pinned (table k pt) k k'" and o: "kmem_ok kend k' owned'" "table k pt \<subseteq> owned'"
  shows "pt_ok kend k' pt owned'" "table k' pt = table k pt" "view k' pt = view k pt"
proof -
  have l: "load (p + 8 * x) k' = load (p + 8 * x) k" if "inner xs" "node k pt xs = Some p" "x < 512" for xs p x
  proof (rule load_cong)
    have p: "p \<in> table k pt" using that(1,2) by (auto simp: table_def)
    then have "p mod PGSIZE = 0" using ok owned_page [OF pt_okD(2) [OF ok]] page_facts(1) by (auto simp: pt_ok_def)
    then have "in_page (p + 8 * x) p" using in_table_page [OF _ _ that(3), of p p] by simp
    then show "mem k' (p + 8 * x) = mem k (p + 8 * x)" using t p by (auto simp: pinned_def)
  qed
  have n: "node k' pt is = node k pt is" if "inner is" for "is"
  proof (rule tree_same [OF _ that])
    fix xs x p assume i: "inner (xs @ [x])" and n: "node k pt xs = Some p"
    then have "inner xs" "x < 512" by (auto simp: inner_def)
    then show "load (p + 8 * x) k' = load (p + 8 * x) k" using l n by blast
  qed
  show "table k' pt = table k pt" by (rule table_same) (rule n)
  show "pt_ok kend k' pt owned'" by (rule pt_ok_same [OF ok n o])
  show "view k' pt = view k pt"
    using n [OF inner_route(1)] l [OF inner_route(1) _ PX_bound] by (simp add: view_def fun_eq_iff split: option.split)
qed

lemma view_entries: "view k' pt = view k pt \<Longrightarrow> entry k' pt = entry k pt \<and> frames k' pt = frames k pt"
  by (simp add: entry_def frames_def fun_eq_iff)

text \<open>Two pages with the same bytes.\<close>

definition same_bytes :: "nat \<Rightarrow> nat \<Rightarrow> kmem \<Rightarrow> bool" where
  "same_bytes a b k \<longleftrightarrow> (\<forall>i < PGSIZE. load_byte (b + i) k = load_byte (a + i) k)"

lemma in_page_add: "i < PGSIZE \<Longrightarrow> in_page (a + i) a"
  by (simp add: in_page_def)

lemma same_bytes_pinned:
  assumes "same_bytes a b k" "pinned {a} k k'" "pinned {b} k k'" "a mod PGSIZE = 0" "b mod PGSIZE = 0"
  shows "same_bytes a b k'"
  using assms(1) pinned_bytes [OF assms(2,4) in_page_add] pinned_bytes [OF assms(3,5) in_page_add]
  by (simp add: same_bytes_def)

lemma same_bytes_copy:
  assumes "a mod PGSIZE = 0" "q mod PGSIZE = 0" "a \<noteq> q" shows "same_bytes a q (copy_page q a k)"
  unfolding same_bytes_def
proof (intro allI impI)
  fix i assume i: "i < PGSIZE"
  have w: "(b + i) mod 8 = i mod 8" "b + i - (b + i) mod 8 = b + (i - i mod 8)" if "b mod PGSIZE = 0" for b
  proof -
    have "8 dvd b" using dvd_trans [of 8 PGSIZE b] that by (simp add: PGSIZE_def mod_eq_0_iff_dvd)
    then obtain c where "b = 8 * c" by (rule dvdE)
    then show "(b + i) mod 8 = i mod 8" "b + i - (b + i) mod 8 = b + (i - i mod 8)" by simp_all
  qed
  have j: "i - i mod 8 < PGSIZE" using i by simp
  have "\<not> in_page (a + (i - i mod 8)) q" using pages_apart [OF assms(1,2) in_page_add [OF j]] assms(3) by blast
  then have "mem (copy_page q a k) (a + (i - i mod 8)) = mem k (a + (i - i mod 8))"
    by (auto simp: copy_page_def in_page_def)
  moreover have "mem (copy_page q a k) (q + j) = mem k (a + j)" if "j < PGSIZE" for j
    using that by (simp add: copy_page_def add.commute)
  note this [OF j]
  ultimately show "load_byte (q + i) (copy_page q a k) = load_byte (a + i) (copy_page q a k)"
    unfolding load_byte_def w(2) [OF assms(1)] w(2) [OF assms(2)] w(1) [OF assms(1)] w(1) [OF assms(2)] load_def by simp
qed

lemma backed_skip: "backed k pt owned lo (lo + m) \<Longrightarrow> entry k pt (lo + m) = None \<Longrightarrow> backed k pt owned lo (Suc (lo + m))"
proof -
  assume b: "backed k pt owned lo (lo + m)" and n: "entry k pt (lo + m) = None"
  have "i < lo + m" if "entry k pt i = Some w" "i < Suc (lo + m)" for i w using that n by (auto simp: less_Suc_eq)
  note i = this
  show ?thesis unfolding backed_def
  proof (intro conjI allI impI)
    show "frames k pt lo (Suc (lo + m)) \<subseteq> owned - table k pt" using b n by (simp add: frames_last backed_def)
  qed (use b i in \<open>unfold backed_def, blast\<close>)
qed

lemma PTE_FLAGS_low: "PTE_FLAGS w AND NOT 0x3FF = 0"
  by (simp add: PTE_FLAGS_def and.assoc)

text \<open>What \<open>uvmcopy\<close> does when it gives up.\<close>

lemma copy_rollback:
  assumes ok: "pt_ok kend k pt owned" and i: "unat i = 4096 * m" "m < NPAGE" and b: "backed k pt owned 0 (0 + m)"
  shows "\<exists>k'. uvmunmap kend pt 0 (i div 4096) True k = Inr k' \<and> pt_ok kend k' pt (owned - frames k pt 0 m) \<and>
    table k' pt = table k pt \<and> (\<forall>i < NPAGE. entry k' pt i = (if i < m then None else entry k pt i)) \<and>
    pinned (owned - table k pt - frames k pt 0 m) k k'"
proof -
  have n: "unat (i div 4096) = m" using i by (simp add: unat_div)
  have z: "vpn 0 = 0" by (simp add: vpn_def)
  have "unat (0 :: 64 word) + 4096 * unat (i div 4096) \<le> 2 ^ 38" using i n by (simp add: NPAGE_def)
  from uvmunmap_effect [OF ok _ this] show ?thesis using b by (simp add: n z)
qed

text \<open>
  The state when \<open>uvmcopy\<close> returns 0, seen from the state \<open>k\<close> in which the pages below \<open>c\<close> are copied already.
\<close>

definition copied_to :: "nat \<Rightarrow> nat \<Rightarrow> nat \<Rightarrow> kmem \<Rightarrow> nat set \<Rightarrow> nat \<Rightarrow> nat \<Rightarrow> kmem \<Rightarrow> nat set \<Rightarrow> bool" where
  "copied_to kend old new k owned c hi k' owned' \<longleftrightarrow> owned \<subseteq> owned' \<and> pinned (owned - table k new) k k' \<and>
     backed k' new owned' 0 (max hi c) \<and>
     (\<forall>j < NPAGE. if c \<le> j \<and> j < hi
        then (case entry k old j of None \<Rightarrow> entry k' new j = None
          | Some w \<Rightarrow> \<exists>q. entry k' new j = Some (entry_for q (PTE_FLAGS w)) \<and> q \<in> pages kend \<and> q \<notin> owned \<and>
              same_bytes (PTE2PA w) q k')
        else entry k' new j = entry k new j)"

lemma uvmcopy_loop_effect:
  assumes "pt_ok kend k old owned" "pt_ok kend k new owned" "sz \<le> TRAPFRAME"
    and "table k old \<union> frames k old 0 (npages_of sz) \<subseteq> owned - table k new"
    and "unat i = 4096 * c" "c + n = max (npages_of sz) c" "c < NPAGE" "backed k new owned 0 c"
    and "\<And>j. c \<le> j \<Longrightarrow> j < npages_of sz \<Longrightarrow> entry k new j = None"
  shows "\<exists>r k' owned'. uvmcopy_loop kend old new i sz k = Inr (r, k') \<and> pt_ok kend k' new owned' \<and>
    table k' new \<inter> owned = table k new \<and>
    (r = 0 \<and> copied_to kend old new k owned c (npages_of sz) k' owned' \<or> r = -1 \<and> shrunk_to new k owned 0 c k' owned')"
  using assms
proof (induction n arbitrary: i c k owned)
  case 0
  then have "\<not> i < sz" unfolding word_less_nat_alt npages_of_def pages_up by simp
  then have "uvmcopy_loop kend old new i sz k = Inr (0, k)" by (subst uvmcopy_loop.simps) simp
  moreover have "copied_to kend old new k owned c (npages_of sz) k owned"
    using 0 by (auto simp: copied_to_def max_def)
  moreover have "table k new \<subseteq> owned" using 0(2) by (simp add: pt_ok_def)
  ultimately show ?case using 0(2) by blast
next
  case (Suc n)
  note old = Suc.prems(1) and new = Suc.prems(2)
  have hi: "c < npages_of sz" using Suc.prems(6) by (simp add: max_def split: if_splits)
  then have an: "i < sz" unfolding word_less_nat_alt npages_of_def Suc.prems(5) pages_up .
  note A = page_of [OF Suc.prems(5,7)]
  have T: "table k new \<subseteq> owned" using new by (simp add: pt_ok_def)
  have hp: "npages_of sz \<le> NPAGE - 2" using round_up(3) [OF Suc.prems(3)] .
  have n1: "unat (i + 4096) = 4096 * Suc c" "Suc c + n = max (npages_of sz) (Suc c)" "Suc c < NPAGE"
    using A(4) Suc.prems(6) hi hp by (simp_all add: max_def NPAGE_def split: if_splits)
  have mx: "max (npages_of sz) (Suc c) = npages_of sz" "max (npages_of sz) c = npages_of sz" using hi by simp_all
  show ?case
  proof (cases "entry k old c")
    case None
    then have "view k old i = None" using view_entry [OF A(1), of k old] A(3) by simp
    then have step: "uvmcopy_loop kend old new i sz k = uvmcopy_loop kend old new (i + 4096) sz k"
      by (subst uvmcopy_loop.simps) (use an in \<open>auto simp: walk_find [OF old A(1)] view_def split: option.splits if_splits\<close>)
    have b: "backed k new owned 0 (Suc c)" using backed_skip [of k new owned 0 c] Suc.prems(8,9) hi by simp
    from Suc.IH [OF old new Suc.prems(3,4) n1 b] Suc.prems(9) obtain r k' owned' where
      r: "uvmcopy_loop kend old new (i + 4096) sz k = Inr (r, k')" "pt_ok kend k' new owned'" "table k' new \<inter> owned = table k new"
      "r = 0 \<and> copied_to kend old new k owned (Suc c) (npages_of sz) k' owned' \<or> r = -1 \<and> shrunk_to new k owned 0 (Suc c) k' owned'"
      by (meson Suc_leD)
    have "copied_to kend old new k owned c (npages_of sz) k' owned'" if g: "copied_to kend old new k owned (Suc c) (npages_of sz) k' owned'"
    proof -
      have "entry k' new c = None"
        using g Suc.prems(7) Suc.prems(9) [of c] hi by (auto simp: copied_to_def split: if_splits)
      moreover have "c \<le> j \<longleftrightarrow> j = c \<or> Suc c \<le> j" for j by auto
      ultimately show ?thesis using g None mx by (auto simp: copied_to_def)
    qed
    moreover have "shrunk_to new k owned 0 c k' owned'" if g: "shrunk_to new k owned 0 (Suc c) k' owned'"
    proof -
      have "entry k new c = None" using Suc.prems(9) hi by simp
      then show ?thesis using g frames_last [of k new 0 c] by (auto simp: shrunk_to_def less_Suc_eq)
    qed
    ultimately show ?thesis using step r by auto
  next
    case (Some w)
    let ?f = "PTE2PA w" and ?perm = "PTE_FLAGS w"
    have "view k old i = Some w" using view_entry [OF A(1), of k old] A(3) Some by simp
    then obtain p where wk: "walk old i False k = Inr (Some (p + 8 * PX 0 i), k)" "load (p + 8 * PX 0 i) k = w" "on w PTE_V"
      using walk_find [OF old A(1)] by (auto simp: view_def split: option.splits if_splits)
    have f: "?f \<in> owned" "?f \<notin> table k new" "?f mod PGSIZE = 0"
      using framesI [of 0 c "npages_of sz" k old w] Some hi Suc.prems(4) owned_page [OF pt_okD(2) [OF new], of ?f] page_facts(1) by auto
    have en: "view k new i = None" using view_entry [OF A(1), of k new] A(3) Suc.prems(9) [of c] hi by simp
    have give_up: ?thesis if "uvmcopy_loop kend old new i sz k =
        (case uvmunmap kend new 0 (i div 4096) True k2 of Inl e \<Rightarrow> Inl e | Inr k \<Rightarrow> Inr (-1, k))"
        "pt_ok kend k2 new owned2" "table k2 new \<inter> owned = table k new" "view k2 new = view k new" "owned \<subseteq> owned2"
        "pinned (owned - table k new) k k2" for k2 owned2
    proof -
      note e = view_entries [OF that(4)]
      have "backed k2 new owned2 0 (0 + c)"
        by (rule backed_same [of k new owned]) (use Suc.prems(8) e that(3,5) in \<open>auto simp: backed_def\<close>)
      from copy_rollback [OF that(2) Suc.prems(5,7) this] obtain k' where
        r: "uvmunmap kend new 0 (i div 4096) True k2 = Inr k'" "pt_ok kend k' new (owned2 - frames k new 0 c)"
        "table k' new = table k2 new" "\<forall>i < NPAGE. entry k' new i = (if i < c then None else entry k new i)"
        "pinned (owned2 - table k2 new - frames k new 0 c) k2 k'"
        using e by auto
      have "pinned (owned - table k new - frames k new 0 c) k k'"
        by (rule pinned_trans [OF pinned_mono [OF that(6)] pinned_mono [OF r(5)]]) (use that(3,5) in auto)
      then have "shrunk_to new k owned 0 c k' (owned2 - frames k new 0 c)" using r(4) that(5) by (auto simp: shrunk_to_def)
      then show ?thesis using that(1,3) r(1-3) by auto
    qed
    obtain q k0 where al: "kalloc k = (q, k0)" by fastforce
    show ?thesis
    proof (cases "q = 0")
      case True
      then have "k0 = k" using kalloc_ok [OF pt_okD(2) [OF new] al] by simp
      then have "uvmcopy_loop kend old new i sz k =
          (case uvmunmap kend new 0 (i div 4096) True k of Inl e \<Rightarrow> Inl e | Inr k \<Rightarrow> Inr (-1, k))"
        by (subst uvmcopy_loop.simps) (simp add: an wk al True Let_def)
      from give_up [OF this new] T show ?thesis by auto
    next
      case q: False
      let ?k = "copy_page q ?f k0"
      have kf: "?k = k0\<lparr>mem := mem ?k\<rparr>" "\<forall>b. \<not> in_page b q \<longrightarrow> mem ?k b = mem k0 b"
        by (auto simp: copy_page_def in_page_def)
      show ?thesis
      proof (cases rule: map_fresh [OF new al q kf A(1,2) en, where perm = ?perm])
        case (1 k1 k2)
        have "uvmcopy_loop kend old new i sz k =
            (case uvmunmap kend new 0 (i div 4096) True k2 of Inl e \<Rightarrow> Inl e | Inr k \<Rightarrow> Inr (-1, k))"
          by (subst uvmcopy_loop.simps) (simp add: an wk al q 1(1,2) Let_def)
        from give_up [OF this 1(3-5,7,6)] show ?thesis .
      next
        case (2 k1 owned1)
        have step: "uvmcopy_loop kend old new i sz k = uvmcopy_loop kend old new (i + 4096) sz k1"
          by (subst uvmcopy_loop.simps) (simp add: an wk al q 2(1) Let_def)
        have e1: "entry k1 new j = (if j = c then Some (entry_for q ?perm) else entry k new j)" if "j < NPAGE" for j
          using entry_view [OF that] 2(10) view_entry A(3) unfolding entry_for_def by metis
        have pa: "PTE2PA (entry_for q ?perm) = q" by (rule entry_for_facts(1) [OF 2(5) PTE_FLAGS_low])
        note B = backed_add [of k new owned 0 c owned1 k1 q "entry_for q ?perm"]
        have B: "backed k1 new owned1 0 (Suc c)" "frames k1 new 0 (Suc c) = insert q (frames k new 0 c)"
          using B Suc.prems(8) 2(3,4,6,7) e1 Suc.prems(7) pa by simp_all
        have sub: "owned - table k new \<subseteq> owned1 - table k1 new" using 2(3,7) by auto
        have to: "table k old \<subseteq> owned - table k new" using Suc.prems(4) by blast
        note K = pinned_table [OF old pinned_mono [OF 2(8) to] pt_okD(2) [OF 2(2)]]
        have old1: "pt_ok kend k1 old owned1" "table k1 old = table k old" "view k1 old = view k old" using K to 2(3) by blast+
        note eo = view_entries [OF old1(3)]
        have P4: "table k1 old \<union> frames k1 old 0 (npages_of sz) \<subseteq> owned1 - table k1 new"
          using Suc.prems(4) sub old1(2) eo by auto
        have free: "entry k1 new j = None" if "Suc c \<le> j" "j < npages_of sz" for j
          using e1 [of j] Suc.prems(9) [of j] that hp by (simp add: NPAGE_def)
        from Suc.IH [OF old1(1) 2(2) Suc.prems(3) P4 n1 B(1) free] obtain r k' owned' where
          r: "uvmcopy_loop kend old new (i + 4096) sz k1 = Inr (r, k')" "pt_ok kend k' new owned'"
          "table k' new \<inter> owned1 = table k1 new"
          "r = 0 \<and> copied_to kend old new k1 owned1 (Suc c) (npages_of sz) k' owned' \<or>
           r = -1 \<and> shrunk_to new k1 owned1 0 (Suc c) k' owned'" by blast
        have t: "table k' new \<inter> owned = table k new" using r(3) 2(3,7) by auto
        have sb: "same_bytes ?f q ?k" using same_bytes_copy [OF f(3) page_facts(1) [OF 2(5)]] f(1) 2(4) by blast
        have "copied_to kend old new k owned c (npages_of sz) k' owned'"
          if g: "copied_to kend old new k1 owned1 (Suc c) (npages_of sz) k' owned'"
        proof -
          have g': "owned1 \<subseteq> owned'" "pinned (owned1 - table k1 new) k1 k'" "backed k' new owned' 0 (npages_of sz)"
            "\<And>j. j < NPAGE \<Longrightarrow> if Suc c \<le> j \<and> j < npages_of sz
              then (case entry k old j of None \<Rightarrow> entry k' new j = None
                | Some w \<Rightarrow> \<exists>q. entry k' new j = Some (entry_for q (PTE_FLAGS w)) \<and> q \<in> pages kend \<and> q \<notin> owned1 \<and>
                    same_bytes (PTE2PA w) q k')
              else entry k' new j = entry k1 new j"
            using g unfolding copied_to_def mx(1) eo [THEN conjunct1] by blast+
          have "pinned (owned - table k new) k k'" by (rule pinned_trans [OF 2(8) pinned_mono [OF g'(2) sub]])
          moreover have bq: "same_bytes ?f q k'"
          proof -
            have "pinned {?f} ?k k1 \<and> pinned {?f} k1 k'"
            proof -
              have "pinned {?f} k ?k" by (rule pinned_mono [OF fresh_page(6) [OF new al q kf]]) (use f(1) in blast)
              moreover have "pinned {?f} k k1" by (rule pinned_mono [OF 2(8)]) (use f in auto)
              moreover have "pinned {?f} k1 k'" by (rule pinned_mono [OF g'(2)]) (use f sub in auto)
              ultimately show ?thesis by (simp add: pinned_def)
            qed
            moreover have "pinned {q} ?k k1" "pinned {q} k1 k'" using 2(9) pinned_mono [OF g'(2)] 2(3,6) by auto
            ultimately show ?thesis
              using same_bytes_pinned [OF sb pinned_trans pinned_trans f(3) page_facts(1) [OF 2(5)]] by blast
          qed
          moreover have "if c \<le> j \<and> j < npages_of sz
              then (case entry k old j of None \<Rightarrow> entry k' new j = None
                | Some w \<Rightarrow> \<exists>q. entry k' new j = Some (entry_for q (PTE_FLAGS w)) \<and> q \<in> pages kend \<and> q \<notin> owned \<and>
                    same_bytes (PTE2PA w) q k')
              else entry k' new j = entry k new j" if j: "j < NPAGE" for j
          proof (cases "j = c")
            case True
            then show ?thesis using g'(4) [OF j] e1 [OF j] 2(4,5) bq hi Some by auto
          next
            case False
            then show ?thesis using g'(4) [OF j] e1 [OF j] 2(3) by (auto split: if_splits option.splits)
          qed
          moreover have "owned \<subseteq> owned'" using g'(1) 2(3) by blast
          ultimately show ?thesis using g'(3) mx(2) by (simp add: copied_to_def)
        qed
        moreover have "shrunk_to new k owned 0 c k' owned'" if g: "shrunk_to new k1 owned1 0 (Suc c) k' owned'"
        proof -
          let ?F = "frames k new 0 c"
          have g': "owned1 - insert q ?F \<subseteq> owned'" "pinned (owned1 - table k1 new - insert q ?F) k1 k'"
            "\<And>j. j < NPAGE \<Longrightarrow> entry k' new j = (if j < Suc c then None else entry k1 new j)"
            using g B(2) by (simp_all add: shrunk_to_def)
          have "pinned (owned - table k new - ?F) k k'"
            by (rule pinned_trans [OF pinned_mono [OF 2(8)] pinned_mono [OF g'(2)]]) (use sub 2(4) in auto)
          moreover have "entry k' new j = (if j < c then None else entry k new j)" if j: "j < NPAGE" for j
            using g'(3) [OF j] e1 [OF j] Suc.prems(9) [of c] hi by (cases "j = c") auto
          moreover have "owned - ?F \<subseteq> owned'" using g'(1) 2(3,4) by auto
          ultimately show ?thesis by (simp add: shrunk_to_def)
        qed
        ultimately show ?thesis using step r t by auto
      qed
    qed
  qed
qed

lemma backed_above:
  assumes b: "backed k pt owned lo m" and n: "\<And>i. m \<le> i \<Longrightarrow> i < hi \<Longrightarrow> entry k pt i = None"
  shows "backed k pt owned lo hi"
proof -
  have m: "i < m" if "entry k pt i = Some w" "i < hi" for i w using that n [of i] by (cases "i < m") auto
  have "frames k pt lo hi \<subseteq> frames k pt lo m" unfolding frames_def using m by blast
  then show ?thesis using b m unfolding backed_def by blast
qed

lemma flags_user: "on (entry_for q (PTE_FLAGS w)) PTE_U \<longleftrightarrow> on w PTE_U"
proof -
  have u: "on x PTE_U \<longleftrightarrow> bit x 4" for x :: "64 word"
  proof -
    have b: "bit PTE_U n \<longleftrightarrow> n = 4" if "n < 64" for n
      using bit_exp_iff [where 'a = "64 word", of 4 n] that by (auto simp: PTE_U_def)
    have "x AND PTE_U = (if bit x 4 then PTE_U else 0)"
      by (rule bit_word_eqI) (auto simp: bit_simps b)
    then show ?thesis by (auto simp: on_def PTE_U_def)
  qed
  show ?thesis unfolding u entry_for_def PTE_FLAGS_def PA2PTE_def by (simp add: bit_simps PTE_V_def)
qed


section \<open>Strings\<close>

text \<open>
  \<open>copyinstr\<close> does not fault a page in: a string in memory that \<open>sbrk\<close> promised and nobody has touched cannot be
  read, although \<open>copyin\<close> reads it as zeros.
\<close>

lemma copyinstr_needs_page:
  assumes "pt_ok kend k pt owned" "va < MAXVA" "entry k pt (vpn va) = None"
  shows "copyinstr pt va n k = (-1, [])"
proof -
  have r: "PGROUNDDOWN va < MAXVA" "vpn (PGROUNDDOWN va) = vpn va" using round_down(2,4) [of va] assms(2) by (auto intro: le_less_trans)
  then have "walkaddr pt (PGROUNDDOWN va) k = 0" using view_entry [OF r(1), of k pt] assms(3) by (simp add: walkaddr_view [OF assms(1)])
  then show ?thesis by (subst copyinstr.simps) (simp add: Let_def)
qed

section \<open>Small processes\<close>

lemma small_space: "space_ok small_end small_vm small_proc {small_pt}"
proof -
  have "entry small_vm small_pt i = None" for i by (simp add: entry_def small_vm_ok(2))
  then show ?thesis using small_user_ok
    by (auto simp: space_ok_def user_ok_def small_proc_def backed_def frames_def)
qed


definition small_pt2 :: nat where "small_pt2 = small_end + PGSIZE"
definition small_vm2 :: kmem where "small_vm2 = snd (uvmcreate small_vm)"
definition small_child :: uproc where "small_child = \<lparr>pagetable = small_pt2, psize = 8192\<rparr>"

lemma small_vm2_ok:
  "space_ok small_end small_vm2 small_proc {small_pt, small_pt2}" "space_ok small_end small_vm2 small_child {small_pt, small_pt2}"
  "table small_vm2 small_pt = {small_pt}" "table small_vm2 small_pt2 = {small_pt2}" "small_pt \<noteq> small_pt2"
  "entry small_vm2 small_pt i = None" "entry small_vm2 small_pt2 i = None"
proof -
  have q: "small_pt2 \<noteq> 0" by (simp add: small_pt2_def PGSIZE_def)
  have f: "fst (kalloc small_vm) = small_pt2"
    by (simp add: small_vm_def uvmcreate_def kalloc_def small_kmem_def small_pt2_def small_end_def Let_def set_page_def
      PHYSTOP_def KERNBASE_def PGSIZE_def fill_page_def)
  then have u: "uvmcreate small_vm = (small_pt2, small_vm2)"
    using q by (auto simp: small_vm2_def uvmcreate_def split: prod.splits)
  obtain k0 where a: "kalloc small_vm = (small_pt2, k0)" "small_vm2 = set_page 0 small_pt2 k0"
    using u q by (auto simp: uvmcreate_def split: prod.splits if_splits)
  have o: "kmem_ok small_end small_vm {small_pt}" using pt_okD(2) [OF small_vm_ok(1)] .
  note C = uvmcreate_effect [OF o small_kmem_ok(2) u q]
  have kf: "small_vm2 = k0\<lparr>mem := mem small_vm2\<rparr>" "\<forall>b. \<not> in_page b small_pt2 \<longrightarrow> mem small_vm2 b = mem k0 b"
    by (auto simp: a(2) set_page_def fill_page_other)
  note F = fresh_page [OF small_vm_ok(1) a(1) q kf]
  show "table small_vm2 small_pt = {small_pt}" "table small_vm2 small_pt2 = {small_pt2}" using F(4) C(3) small_vm_ok(3) by simp_all
  show "small_pt \<noteq> small_pt2" using C(5) by simp
  have e: "entry small_vm2 small_pt i = None" "entry small_vm2 small_pt2 i = None" for i
    using F(5) C(2) small_vm_ok(2) by (simp_all add: entry_def)
  then show "entry small_vm2 small_pt i = None" "entry small_vm2 small_pt2 i = None" .
  have b: "backed small_vm2 small_pt X 0 n" "backed small_vm2 small_pt2 X 0 n" for X n
    using e by (auto simp: backed_def frames_def)
  have s: "(8192 :: 64 word) \<le> TRAPFRAME" by (simp add: TRAPFRAME_def TRAMPOLINE_def MAXVA_def)
  have "pt_ok small_end small_vm2 small_pt {small_pt, small_pt2}" "pt_ok small_end small_vm2 small_pt2 {small_pt, small_pt2}"
    using F(3) C(1) by (simp_all add: insert_commute)
  then show "space_ok small_end small_vm2 small_proc {small_pt, small_pt2}" "space_ok small_end small_vm2 small_child {small_pt, small_pt2}"
    using b e s unfolding space_ok_def by (simp_all add: small_proc_def small_child_def)
qed


end
