(* ===== verification/XvString.thy ===== *)
theory XvString
  imports Prelude
begin

text \<open>
  The memory and string routines of \<open>xv6/xv6-source/kernel/string.c\<close> and \<open>user/ulib.c\<close>. Memory is a
  map from addresses, natural numbers, to bytes; a pointer is an address and every assignment
  through one an update. An unsigned length is the natural number it stands for; a signed one is an
  integer. The loops that run until they meet a NUL have the value \<open>None\<close> where there is none.
  Routines that both files have are named with \<open>u_\<close> for the one of \<open>ulib.c\<close>.
\<close>

type_synonym mem = "nat \<Rightarrow> 8 word"

section \<open>The kernel's routines\<close>

primrec memset_loop :: "nat \<Rightarrow> 8 word \<Rightarrow> nat \<Rightarrow> nat \<Rightarrow> mem \<Rightarrow> mem" where
  "memset_loop dst c i 0 m = m"
| "memset_loop dst c i (Suc k) m = memset_loop dst c (Suc i) k (m(dst + i := c))"

definition memset :: "nat \<Rightarrow> int \<Rightarrow> nat \<Rightarrow> mem \<Rightarrow> mem" where
  "memset dst c n m = memset_loop dst (word_of_int c) 0 n m"

primrec memcmp :: "nat \<Rightarrow> nat \<Rightarrow> nat \<Rightarrow> mem \<Rightarrow> int" where
  "memcmp s1 s2 0 m = 0"
| "memcmp s1 s2 (Suc n) m =
     (if m s1 \<noteq> m s2 then uint (m s1) - uint (m s2) else memcmp (s1 + 1) (s2 + 1) n m)"

primrec copy_down :: "nat \<Rightarrow> nat \<Rightarrow> nat \<Rightarrow> mem \<Rightarrow> mem" where
  "copy_down d s 0 m = m"
| "copy_down d s (Suc n) m = copy_down (d - 1) (s - 1) n (m(d - 1 := m (s - 1)))"

primrec copy_up :: "nat \<Rightarrow> nat \<Rightarrow> nat \<Rightarrow> mem \<Rightarrow> mem" where
  "copy_up d s 0 m = m"
| "copy_up d s (Suc n) m = copy_up (d + 1) (s + 1) n (m(d := m s))"

definition memmove :: "nat \<Rightarrow> nat \<Rightarrow> nat \<Rightarrow> mem \<Rightarrow> mem" where
  "memmove dst src n m =
     (if n = 0 then m
      else if src < dst \<and> src + n > dst then copy_down (dst + n) (src + n) n m
      else copy_up dst src n m)"

definition memcpy :: "nat \<Rightarrow> nat \<Rightarrow> nat \<Rightarrow> mem \<Rightarrow> mem" where
  "memcpy dst src n m = memmove dst src n m"

primrec strncmp :: "nat \<Rightarrow> nat \<Rightarrow> nat \<Rightarrow> mem \<Rightarrow> int" where
  "strncmp p q 0 m = 0"
| "strncmp p q (Suc n) m =
     (if m p \<noteq> 0 \<and> m p = m q then strncmp (p + 1) (q + 1) n m else uint (m p) - uint (m q))"

text \<open>The first loop of \<open>strncpy\<close>: it also returns where it stopped and how much room is left.\<close>

primrec strncpy_copy :: "nat \<Rightarrow> nat \<Rightarrow> nat \<Rightarrow> mem \<Rightarrow> nat \<times> nat \<times> mem" where
  "strncpy_copy s t 0 m = (s, 0, m)"
| "strncpy_copy s t (Suc n) m =
     (let m' = m(s := m t) in if m t \<noteq> 0 then strncpy_copy (s + 1) (t + 1) n m' else (s + 1, n, m'))"

primrec strncpy_pad :: "nat \<Rightarrow> nat \<Rightarrow> mem \<Rightarrow> mem" where
  "strncpy_pad s 0 m = m"
| "strncpy_pad s (Suc n) m = strncpy_pad (s + 1) n (m(s := 0))"

definition strncpy :: "nat \<Rightarrow> nat \<Rightarrow> int \<Rightarrow> mem \<Rightarrow> mem" where
  "strncpy s t n m = (let (s', n', m') = strncpy_copy s t (nat n) m in strncpy_pad s' n' m')"

text \<open>\<open>safestrcpy\<close>: the loop is entered while \<open>--n > 0\<close>, and the NUL comes after what it wrote.\<close>

primrec safestrcpy_copy :: "nat \<Rightarrow> nat \<Rightarrow> nat \<Rightarrow> mem \<Rightarrow> nat \<times> mem" where
  "safestrcpy_copy s t 0 m = (s, m)"
| "safestrcpy_copy s t (Suc n) m =
     (let m' = m(s := m t) in if m t \<noteq> 0 then safestrcpy_copy (s + 1) (t + 1) n m' else (s + 1, m'))"

definition safestrcpy :: "nat \<Rightarrow> nat \<Rightarrow> int \<Rightarrow> mem \<Rightarrow> mem" where
  "safestrcpy s t n m =
     (if n \<le> 0 then m else let (s', m') = safestrcpy_copy s t (nat (n - 1)) m in m'(s' := 0))"

partial_function (option) strlen_loop :: "nat \<Rightarrow> nat \<Rightarrow> mem \<Rightarrow> nat option" where
  "strlen_loop s n m = (if m (s + n) \<noteq> 0 then strlen_loop s (n + 1) m else Some n)"

definition strlen :: "nat \<Rightarrow> mem \<Rightarrow> nat option" where
  "strlen s m = strlen_loop s 0 m"

section \<open>The routines of the user library\<close>

partial_function (option) strcpy :: "nat \<Rightarrow> nat \<Rightarrow> mem \<Rightarrow> mem option" where
  "strcpy s t m =
     (let m' = m(s := m t) in if m t \<noteq> 0 then strcpy (s + 1) (t + 1) m' else Some m')"

partial_function (option) u_strcmp :: "nat \<Rightarrow> nat \<Rightarrow> mem \<Rightarrow> int option" where
  "u_strcmp p q m =
     (if m p \<noteq> 0 \<and> m p = m q then u_strcmp (p + 1) (q + 1) m
      else Some (uint (m p) - uint (m q)))"

definition u_strlen :: "nat \<Rightarrow> mem \<Rightarrow> nat option" where
  "u_strlen s m = strlen_loop s 0 m"

definition u_memset :: "nat \<Rightarrow> int \<Rightarrow> nat \<Rightarrow> mem \<Rightarrow> mem" where
  "u_memset dst c n m = memset_loop dst (word_of_int c) 0 n m"

text \<open>\<open>strchr\<close> returns the address of the first such character, and 0 when there is none.\<close>

partial_function (option) strchr :: "nat \<Rightarrow> 8 word \<Rightarrow> mem \<Rightarrow> nat option" where
  "strchr s c m =
     (if m s \<noteq> 0 then (if m s = c then Some s else strchr (s + 1) c m) else Some 0)"

text \<open>
  \<open>gets\<close>: the input is what the successive reads of one character return, \<open>None\<close> an end of file or
  an error; the result is where the line ends, the memory and the input left. An exhausted list is
  an end of file.
\<close>

primrec gets_loop :: "nat \<Rightarrow> int \<Rightarrow> nat \<Rightarrow> 8 word option list \<Rightarrow> mem \<Rightarrow> nat \<times> 8 word option list \<times> mem" where
  "gets_loop buf lim i [] m = (i, [], m)"
| "gets_loop buf lim i (c # cs) m =
     (if int i + 1 < lim then
        (case c of None \<Rightarrow> (i, cs, m)
         | Some c \<Rightarrow> if c = 10 \<or> c = 13 then (i + 1, cs, m(buf + i := c))
                    else gets_loop buf lim (i + 1) cs (m(buf + i := c)))
      else (i, c # cs, m))"

definition gets :: "nat \<Rightarrow> int \<Rightarrow> 8 word option list \<Rightarrow> mem \<Rightarrow> 8 word option list \<times> mem" where
  "gets buf lim cs m = (let (i, cs', m') = gets_loop buf lim 0 cs m in (cs', m'(buf + i := 0)))"

text \<open>\<open>stat\<close>: the three system calls are an environment; it reports what \<open>fstat\<close> does.\<close>

definition stat :: "(string \<Rightarrow> int) \<Rightarrow> (int \<Rightarrow> int \<times> 'st) \<Rightarrow> string \<Rightarrow> int \<times> 'st option \<times> int list" where
  "stat sys_open fstat n =
     (let fd = sys_open n
      in if fd < 0 then (-1, None, []) else (let (r, st) = fstat fd in (r, Some st, [fd])))"

text \<open>\<open>atoi\<close>: the sum is a 32-bit \<open>int\<close>; the string is the list of the bytes before its NUL.\<close>

fun u_atoi_loop :: "int \<Rightarrow> string \<Rightarrow> int" where
  "u_atoi_loop n [] = n"
| "u_atoi_loop n (c # cs) =
     (if isdigit c then u_atoi_loop (to_int32 (n * 10 + digit_val c)) cs else n)"

definition u_atoi :: "string \<Rightarrow> int" where
  "u_atoi s = u_atoi_loop 0 s"

definition u_memmove :: "nat \<Rightarrow> nat \<Rightarrow> int \<Rightarrow> mem \<Rightarrow> mem" where
  "u_memmove dst src n m =
     (if src > dst then copy_up dst src (nat n) m
      else copy_down (nat (int dst + n)) (nat (int src + n)) (nat n) m)"

primrec u_memcmp :: "nat \<Rightarrow> nat \<Rightarrow> nat \<Rightarrow> mem \<Rightarrow> int" where
  "u_memcmp s1 s2 0 m = 0"
| "u_memcmp s1 s2 (Suc n) m =
     (if m s1 \<noteq> m s2 then sint (m s1) - sint (m s2) else u_memcmp (s1 + 1) (s2 + 1) n m)"

definition u_memcpy :: "nat \<Rightarrow> nat \<Rightarrow> nat \<Rightarrow> mem \<Rightarrow> mem" where
  "u_memcpy dst src n m = u_memmove dst src (int n) m"

section \<open>Copying\<close>

text \<open>What a copy means: the destination holds what the source held before, the rest is unchanged.\<close>

definition copied :: "nat \<Rightarrow> nat \<Rightarrow> nat \<Rightarrow> mem \<Rightarrow> mem" where
  "copied dst src n m = (\<lambda>a. if dst \<le> a \<and> a < dst + n then m (src + (a - dst)) else m a)"

lemma copy_up_copied: "d \<le> s \<or> s + n \<le> d \<Longrightarrow> copy_up d s n m = copied d s n m"
proof (induction n arbitrary: d s m)
  case (Suc n)
  have "copy_up (d + 1) (s + 1) n (m(d := m s)) = copied (d + 1) (s + 1) n (m(d := m s))"
    using Suc.prems by (intro Suc.IH) auto
  also have "\<dots> = copied d s (Suc n) m"
    using Suc.prems by (auto simp: copied_def fun_eq_iff intro!: arg_cong [of _ _ m])
  finally show ?case by simp
qed (auto simp: copied_def fun_eq_iff)

lemma copy_down_copied: "s \<le> d \<Longrightarrow> copy_down (d + n) (s + n) n m = copied d s n m"
proof (induction n arbitrary: m)
  case (Suc n)
  have "copy_down (d + Suc n) (s + Suc n) (Suc n) m = copied d s n (m(d + n := m (s + n)))"
    using Suc by simp
  also have "\<dots> = copied d s (Suc n) m"
    using Suc.prems by (auto simp: copied_def fun_eq_iff)
  finally show ?case .
qed (auto simp: copied_def fun_eq_iff)

lemma memmove_copied: "memmove dst src n m = copied dst src n m"
  by (auto simp: memmove_def copy_up_copied copy_down_copied copied_def fun_eq_iff)

lemma u_memmove_copied: "u_memmove dst src (int n) m = copied dst src n m"
proof -
  have "nat (int dst + int n) = dst + n" "nat (int src + int n) = src + n" by simp_all
  then show ?thesis by (simp add: u_memmove_def copy_up_copied copy_down_copied)
qed

text \<open>
  Both versions of \<open>memmove\<close> copy correctly for every position of the two areas, overlapping or not:
  afterwards the destination holds what the source held before, and no other byte has changed.
  The kernel's and the user library's choice of the direction differ, their results do not.
\<close>

theorem memmove_overlap:
  "memmove dst src n m = copied dst src n m \<and> u_memmove dst src (int n) m = memmove dst src n m \<and>
   memcpy dst src n m = u_memcpy dst src n m"
  by (simp add: memmove_copied u_memmove_copied memcpy_def u_memcpy_def)

section \<open>Strings\<close>

text \<open>The memory holds the string \<open>xs\<close> and its NUL at address \<open>p\<close>.\<close>

primrec cstr :: "mem \<Rightarrow> nat \<Rightarrow> 8 word list \<Rightarrow> bool" where
  "cstr m p [] \<longleftrightarrow> m p = 0"
| "cstr m p (x # xs) \<longleftrightarrow> x \<noteq> 0 \<and> m p = x \<and> cstr m (p + 1) xs"

lemma cstr_cong: "(\<And>a. p \<le> a \<Longrightarrow> a \<le> p + length xs \<Longrightarrow> m' a = m a) \<Longrightarrow> cstr m' p xs = cstr m p xs"
  by (induction xs arbitrary: p) auto

lemma cstr_unique: "cstr m p xs \<Longrightarrow> cstr m p ys \<Longrightarrow> xs = ys"
proof (induction xs arbitrary: p ys)
  case Nil
  then show ?case by (cases ys) auto
next
  case (Cons x xs)
  then show ?case by (cases ys) auto
qed

lemma strlen_loop_cstr: "cstr m (s + n) xs \<Longrightarrow> strlen_loop s n m = Some (n + length xs)"
proof (induction xs arbitrary: n)
  case (Cons x xs)
  then show ?case using Cons.IH [of "n + 1"] by (simp add: strlen_loop.simps [of s n])
qed (simp add: strlen_loop.simps)

lemma strlen_cstr: "cstr m s xs \<Longrightarrow> strlen s m = Some (length xs) \<and> u_strlen s m = Some (length xs)"
  using strlen_loop_cstr [of m s 0 xs] by (simp add: strlen_def u_strlen_def)

lemma strncpy_pad_eq: "strncpy_pad s n m = (\<lambda>a. if s \<le> a \<and> a < s + n then 0 else m a)"
  by (induction n arbitrary: s m) (auto simp: fun_eq_iff)

text \<open>
  The copying loops write the bytes of the source up to its NUL or the end of the room.
\<close>

definition stored :: "nat \<Rightarrow> 8 word list \<Rightarrow> mem \<Rightarrow> mem" where
  "stored s xs m = (\<lambda>a. if s \<le> a \<and> a < s + length xs then xs ! (a - s) else m a)"

lemma stored_Nil [simp]: "stored s [] m = m"
  by (auto simp: stored_def fun_eq_iff)

lemma stored_Cons: "stored s (x # xs) m = stored (s + 1) xs (m(s := x))"
  by (auto simp: stored_def fun_eq_iff nth_Cons')

lemma stored_inside: "stored s xs m a = (if s \<le> a \<and> a < s + length xs then xs ! (a - s) else m a)"
  by (simp add: stored_def)

lemma cstr_other:
  "cstr m t xs \<Longrightarrow> a < t \<or> t + length xs < a \<Longrightarrow> cstr (m(a := c)) t xs"
  using cstr_cong [of t xs "m(a := c)" m] by auto

lemma safestrcpy_copy_cstr:
  assumes "cstr m t xs" "s + n \<le> t \<or> t + length xs < s"
  shows "safestrcpy_copy s t n m =
    (if length xs < n then (s + length xs + 1, stored s (xs @ [0]) m) else (s + n, stored s (take n xs) m))"
  using assms
proof (induction n arbitrary: s t xs m)
  case (Suc n)
  show ?case
  proof (cases xs)
    case Nil
    then show ?thesis using Suc.prems by (simp add: stored_Cons)
  next
    case (Cons x ys)
    have "cstr (m(s := x)) (t + 1) ys"
      using Suc.prems Cons by (intro cstr_other) auto
    moreover have "s + 1 + n \<le> t + 1 \<or> t + 1 + length ys < s + 1" using Suc.prems Cons by auto
    ultimately have "safestrcpy_copy (s + 1) (t + 1) n (m(s := x)) =
      (if length ys < n then (s + 1 + length ys + 1, stored (s + 1) (ys @ [0]) (m(s := x)))
       else (s + 1 + n, stored (s + 1) (take n ys) (m(s := x))))"
      by (rule Suc.IH)
    moreover have "m t = x" "x \<noteq> 0" using Suc.prems Cons by simp_all
    ultimately show ?thesis unfolding Cons safestrcpy_copy.simps Let_def by (simp add: stored_Cons)
  qed
qed simp

text \<open>Both bounded copies of a string, for areas that do not overlap.\<close>

lemma strncpy_copy_cstr:
  assumes "cstr m t xs" "s + n \<le> t \<or> t + length xs < s"
  shows "strncpy_copy s t n m =
    (if length xs < n then (s + length xs + 1, n - length xs - 1, stored s (xs @ [0]) m)
     else (s + n, 0, stored s (take n xs) m))"
  using assms
proof (induction n arbitrary: s t xs m)
  case (Suc n)
  show ?case
  proof (cases xs)
    case Nil
    then show ?thesis using Suc.prems by (simp add: stored_Cons)
  next
    case (Cons x ys)
    have "cstr (m(s := x)) (t + 1) ys"
      using Suc.prems Cons by (intro cstr_other) auto
    moreover have "s + 1 + n \<le> t + 1 \<or> t + 1 + length ys < s + 1" using Suc.prems Cons by auto
    ultimately have "strncpy_copy (s + 1) (t + 1) n (m(s := x)) =
      (if length ys < n then (s + 1 + length ys + 1, n - length ys - 1, stored (s + 1) (ys @ [0]) (m(s := x)))
       else (s + 1 + n, 0, stored (s + 1) (take n ys) (m(s := x))))"
      by (rule Suc.IH)
    moreover have "m t = x" "x \<noteq> 0" using Suc.prems Cons by simp_all
    ultimately show ?thesis unfolding Cons strncpy_copy.simps Let_def by (simp add: stored_Cons)
  qed
qed simp

lemma cstr_stored: "0 \<notin> set xs \<Longrightarrow> cstr (stored s (xs @ [0]) m) s xs"
proof (induction xs arbitrary: s m)
  case Nil
  then show ?case by (simp add: stored_def)
next
  case (Cons x xs)
  then show ?case by (simp add: stored_Cons) (simp add: stored_def)
qed

lemma cstr_nonzero: "cstr m p xs \<Longrightarrow> 0 \<notin> set xs"
  by (induction xs arbitrary: p) auto

lemma safestrcpy_stored:
  assumes "cstr m t xs" "0 < n" "s + nat n \<le> t \<or> t + length xs < s"
  shows "\<exists>pad \<le> 1. safestrcpy s t n m = stored s (take (nat n - 1) xs @ replicate (1 + pad) 0) m \<and>
    length (take (nat n - 1) xs) + 1 + pad \<le> nat n"
proof -
  define k where "k = nat (n - 1)"
  have n: "nat n = Suc k" "nat (n - 1) = k" using assms(2) by (simp_all add: k_def)
  have c: "safestrcpy_copy s t k m =
    (if length xs < k then (s + length xs + 1, stored s (xs @ [0]) m) else (s + k, stored s (take k xs) m))"
    using assms(3) n by (intro safestrcpy_copy_cstr [OF assms(1)]) auto
  have snoc: "(stored s ys m)(s + length ys := 0) = stored s (ys @ [0]) m" for ys
    by (auto simp: stored_def fun_eq_iff nth_append)
  show ?thesis
  proof (cases "length xs < k")
    case True
    then have "safestrcpy s t n m = stored s (xs @ [0, 0]) m"
      using assms(2) c n snoc [of "xs @ [0]"] by (simp add: safestrcpy_def)
    then show ?thesis using True n by (intro exI [of _ 1]) (simp add: numeral_2_eq_2)
  next
    case False
    then have "safestrcpy s t n m = stored s (take k xs @ [0]) m"
      using assms(2) c n snoc [of "take k xs"] by (simp add: safestrcpy_def)
    then show ?thesis using False n by (intro exI [of _ 0]) simp
  qed
qed

text \<open>
  \<open>safestrcpy\<close> always leaves a string: with room for at least one byte it stores the longest prefix
  of the source that fits with its NUL, and writes nothing beyond the room it was given.
\<close>

theorem safestrcpy_truncates:
  assumes "cstr m t xs" "0 < n" "s + nat n \<le> t \<or> t + length xs < s"
  shows "cstr (safestrcpy s t n m) s (take (nat n - 1) xs) \<and>
    (\<forall>a. a < s \<or> s + nat n \<le> a \<longrightarrow> safestrcpy s t n m a = m a)"
proof -
  let ?ys = "take (nat n - 1) xs"
  obtain pad where pad: "safestrcpy s t n m = stored s (?ys @ replicate (1 + pad) 0) m"
    "length ?ys + 1 + pad \<le> nat n"
    using safestrcpy_stored [OF assms] by blast
  have "0 \<notin> set ?ys" using cstr_nonzero [OF assms(1)] by (meson in_set_takeD)
  then have "cstr (stored s (?ys @ [0]) m) s ?ys" by (rule cstr_stored)
  moreover have "stored s (?ys @ replicate (1 + pad) 0) m a = stored s (?ys @ [0]) m a"
    if "s \<le> a" "a \<le> s + length ?ys" for a
    using that by (auto simp: stored_def nth_append nth_Cons')
  ultimately have "cstr (safestrcpy s t n m) s ?ys"
    unfolding pad(1) using cstr_cong [of s ?ys] by blast
  moreover have "safestrcpy s t n m a = m a" if "a < s \<or> s + nat n \<le> a" for a
    using that pad by (auto simp: stored_def)
  ultimately show ?thesis by blast
qed

theorem safestrcpy_truncates_witness:
  "\<exists>m. cstr (safestrcpy 100 0 3 m) 100 [104, 101]"
proof -
  have "cstr ((\<lambda>_. 0)(0 := 104, 1 := 101, 2 := 121)) 0 [104, 101, 121]" by simp
  from safestrcpy_truncates [OF this, of 3 100]
  have "cstr (safestrcpy 100 0 3 ((\<lambda>_. 0)(0 := 104, 1 := 101, 2 := 121))) 100 [104, 101]"
    by (simp add: numeral_2_eq_2)
  then show ?thesis by blast
qed

lemma strcpy_cstr:
  "cstr m t xs \<Longrightarrow> s + length xs < t \<or> t + length xs < s \<Longrightarrow> strcpy s t m = Some (stored s (xs @ [0]) m)"
proof (induction xs arbitrary: s t m)
  case Nil
  then show ?case by (auto simp: strcpy.simps [of s t] stored_Cons fun_eq_iff)
next
  case (Cons x xs)
  have "cstr (m(s := x)) (t + 1) xs" using Cons.prems by (intro cstr_other) auto
  moreover have "s + 1 + length xs < t + 1 \<or> t + 1 + length xs < s + 1" using Cons.prems by auto
  ultimately have "strcpy (s + 1) (t + 1) (m(s := x)) = Some (stored (s + 1) (xs @ [0]) (m(s := x)))"
    by (rule Cons.IH)
  moreover have "m t = x" "x \<noteq> 0" using Cons.prems by simp_all
  ultimately show ?case unfolding strcpy.simps [of s t] Let_def by (simp add: stored_Cons)
qed

lemma strcmp_order:
  "cstr m p xs \<Longrightarrow> cstr m q ys \<Longrightarrow>
     u_strcmp p q m = Some (case dropWhile (\<lambda>(x, y). x = y) (zip (xs @ [0]) (ys @ [0])) of
       [] \<Rightarrow> 0 | (x, y) # _ \<Rightarrow> uint x - uint y)"
proof (induction xs arbitrary: p q ys)
  case Nil
  then show ?case by (cases ys) (auto simp: u_strcmp.simps [of p q])
next
  case (Cons x xs)
  then show ?case by (cases ys) (auto simp: u_strcmp.simps [of p q])
qed

lemma strchr_first:
  "cstr m s xs \<Longrightarrow> strchr s c m =
     Some (case first_index (\<lambda>x. x = c) xs of None \<Rightarrow> 0 | Some i \<Rightarrow> s + i)"
proof (induction xs arbitrary: s)
  case Nil
  then show ?case by (simp add: strchr.simps)
next
  case (Cons x xs)
  then show ?case by (auto simp: strchr.simps [of s] split: option.split)
qed

lemma gets_loop_bound:
  "gets_loop buf lim i cs m = (j, cs', m') \<Longrightarrow> int i < lim \<Longrightarrow>
     int j < lim \<and> (\<forall>a. a < buf + i \<or> buf + nat lim \<le> a + 1 \<longrightarrow> m' a = m a)"
proof (induction cs arbitrary: i m)
  case (Cons c cs)
  show ?case
  proof (cases "int i + 1 < lim")
    case True
    with Cons show ?thesis by (fastforce split: option.splits if_splits)
  qed (use Cons.prems in auto)
qed simp

end
