(* ===== verification/XvPrintf.thy ===== *)
theory XvPrintf
  imports XvString
begin

text \<open>
  Formatted output: \<open>printint\<close>, \<open>printptr\<close> and the interpretation of format strings in
  \<open>xv6/xv6-source/kernel/printf.c\<close> and in \<open>user/printf.c\<close> (whose functions have the prefix \<open>u_\<close>).
  The output is the string of the characters sent to the console or to the file. The variable
  arguments are a list, each a 64-bit register or a pointer to a string, \<open>None\<close> for a null pointer;
  reading a missing argument, or one of the other kind, is undefined in C and has the value \<open>None\<close>,
  as has a write past the end of \<open>buf[20]\<close>. One call runs at a time, so \<open>pr.lock\<close> is left out.
\<close>

section \<open>Numbers\<close>

definition digits :: string where "digits = ''0123456789abcdef''"

definition u_digits :: string where "u_digits = ''0123456789ABCDEF''"

text \<open>The \<open>do\<close> loop with what is left of the buffer.\<close>

primrec digit_loop :: "nat \<Rightarrow> string \<Rightarrow> 64 word \<Rightarrow> 64 word \<Rightarrow> string option" where
  "digit_loop 0 ds base x = None"
| "digit_loop (Suc room) ds base x =
     (let c = ds ! unat (x mod base); x = x div base
      in if x \<noteq> 0 then map_option (Cons c) (digit_loop room ds base x) else Some [c])"

definition printint :: "64 word \<Rightarrow> 64 word \<Rightarrow> bool \<Rightarrow> string option" where
  "printint xx base sign =
     (let sign = (sign \<and> sint xx < 0);
          x = (if sign then - xx else xx)
      in case digit_loop 20 digits base x of
           None \<Rightarrow> None
         | Some buf \<Rightarrow>
             if sign then (if length buf < 20 then Some (rev (buf @ ''-'')) else None)
             else Some (rev buf))"

definition u_printint :: "64 word \<Rightarrow> 64 word \<Rightarrow> bool \<Rightarrow> string option" where
  "u_printint xx base sg =
     (let neg = (sg \<and> sint xx < 0);
          x = (if neg then - xx else xx)
      in case digit_loop 20 u_digits base x of
           None \<Rightarrow> None
         | Some buf \<Rightarrow>
             if neg then (if length buf < 20 then Some (rev (buf @ ''-'')) else None)
             else Some (rev buf))"

primrec ptr_loop :: "nat \<Rightarrow> string \<Rightarrow> 64 word \<Rightarrow> string" where
  "ptr_loop 0 ds x = []"
| "ptr_loop (Suc k) ds x = ds ! unat (drop_bit 60 x) # ptr_loop k ds (push_bit 4 x)"

definition printptr :: "64 word \<Rightarrow> string" where
  "printptr x = ''0x'' @ ptr_loop 16 digits x"

definition u_printptr :: "64 word \<Rightarrow> string" where
  "u_printptr x = ''0x'' @ ptr_loop 16 u_digits x"

section \<open>Format strings\<close>

datatype va = Num "64 word" | Str "string option"

text \<open>What a conversion is, and how many characters beyond the first it takes.\<close>

datatype conv = Dec32 | Dec64 | Unsigned32 | Unsigned64 | Hex32 | Hex64 | Pointer | Character
  | CString | Percent | Unknown char

definition NUL :: char where "NUL = CHR 0x00"

definition conversion :: "char \<Rightarrow> char \<Rightarrow> char \<Rightarrow> conv \<times> nat" where
  "conversion c0 c1 c2 =
     (if c0 = CHR ''d'' then (Dec32, 0)
      else if c0 = CHR ''l'' \<and> c1 = CHR ''d'' then (Dec64, 1)
      else if c0 = CHR ''l'' \<and> c1 = CHR ''l'' \<and> c2 = CHR ''d'' then (Dec64, 2)
      else if c0 = CHR ''u'' then (Unsigned32, 0)
      else if c0 = CHR ''l'' \<and> c1 = CHR ''u'' then (Unsigned64, 1)
      else if c0 = CHR ''l'' \<and> c1 = CHR ''l'' \<and> c2 = CHR ''u'' then (Unsigned64, 2)
      else if c0 = CHR ''x'' then (Hex32, 0)
      else if c0 = CHR ''l'' \<and> c1 = CHR ''x'' then (Hex64, 1)
      else if c0 = CHR ''l'' \<and> c1 = CHR ''l'' \<and> c2 = CHR ''x'' then (Hex64, 2)
      else if c0 = CHR ''p'' then (Pointer, 0)
      else if c0 = CHR ''c'' then (Character, 0)
      else if c0 = CHR ''s'' then (CString, 0)
      else if c0 = CHR ''%'' then (Percent, 0)
      else (Unknown c0, 0))"

text \<open>
  \<open>va_arg\<close> at type \<open>int\<close> extends the sign of the low 32 bits, at an unsigned 32-bit type it clears
  the others. \<open>put\<close> is what one character of \<open>%c\<close> prints.
\<close>

definition print_conv ::
  "(64 word \<Rightarrow> 64 word \<Rightarrow> bool \<Rightarrow> string option) \<Rightarrow> (64 word \<Rightarrow> string) \<Rightarrow> (64 word \<Rightarrow> string) \<Rightarrow>
     conv \<Rightarrow> va list \<Rightarrow> (string \<times> va list) option" where
  "print_conv pint pptr put c args =
     (case c of
        Percent \<Rightarrow> Some (''%'', args)
      | Unknown c0 \<Rightarrow> Some ([CHR ''%'', c0], args)
      | _ \<Rightarrow>
        (case args of
           [] \<Rightarrow> None
         | Str s # rest \<Rightarrow>
             (if c = CString then Some (case s of None \<Rightarrow> ''(null)'' | Some s \<Rightarrow> s, rest) else None)
         | Num w # rest \<Rightarrow>
             map_option (\<lambda>t. (t, rest))
              (case c of
                 Dec32 \<Rightarrow> pint (signed_take_bit 31 w) 10 True
               | Dec64 \<Rightarrow> pint w 10 True
               | Unsigned32 \<Rightarrow> pint (take_bit 32 w) 10 False
               | Unsigned64 \<Rightarrow> pint w 10 False
               | Hex32 \<Rightarrow> pint (take_bit 32 w) 16 False
               | Hex64 \<Rightarrow> pint w 16 False
               | Pointer \<Rightarrow> Some (pptr w)
               | Character \<Rightarrow> Some (put w)
               | _ \<Rightarrow> None)))"

text \<open>\<open>consputc\<close>: a backspace, 0x100, is three characters, anything else its low byte.\<close>

definition cons_put :: "64 word \<Rightarrow> string" where
  "cons_put w = (if take_bit 32 w = 0x100 then [CHR 0x08, CHR '' '', CHR 0x08] else [char_of (unat w)])"

definition u_put :: "64 word \<Rightarrow> string" where
  "u_put w = [char_of (unat w)]"

definition char_at :: "string \<Rightarrow> nat \<Rightarrow> char" where
  "char_at s i = (if i < length s then s ! i else NUL)"

text \<open>The kernel's loop: the list is what is left of the format from position \<open>i\<close> on.\<close>

function printf_loop :: "string \<Rightarrow> va list \<Rightarrow> string option" where
  "printf_loop [] args = Some []"
| "printf_loop (cx # rest) args =
     (if cx \<noteq> CHR ''%'' then map_option (Cons cx) (printf_loop rest args)
      else let c0 = char_at rest 0;
               c1 = (if c0 \<noteq> NUL then char_at rest 1 else NUL);
               c2 = (if c1 \<noteq> NUL then char_at rest 2 else NUL)
           in if c0 = NUL then Some []
              else let (c, skip) = conversion c0 c1 c2
                   in case print_conv printint printptr cons_put c args of
                        None \<Rightarrow> None
                      | Some (t, args') \<Rightarrow> map_option ((@) t) (printf_loop (drop (1 + skip) rest) args'))"
  by pat_completeness auto
termination
  by (relation "measure (length \<circ> fst)") auto

definition printf :: "string \<Rightarrow> va list \<Rightarrow> string option" where
  "printf fmt args = printf_loop fmt args"

text \<open>The user library's loop is a machine of two states: after a percent sign or not.\<close>

function u_vprintf_loop :: "bool \<Rightarrow> string \<Rightarrow> va list \<Rightarrow> string option" where
  "u_vprintf_loop pct [] args = Some []"
| "u_vprintf_loop pct (c0 # rest) args =
     (if \<not> pct then
        (if c0 = CHR ''%'' then u_vprintf_loop True rest args
         else map_option (Cons c0) (u_vprintf_loop False rest args))
      else let c1 = char_at rest 0;
               c2 = (if c1 \<noteq> NUL then char_at rest 1 else NUL);
               (c, skip) = conversion c0 c1 c2
           in case print_conv u_printint u_printptr u_put c args of
                None \<Rightarrow> None
              | Some (t, args') \<Rightarrow> map_option ((@) t) (u_vprintf_loop False (drop skip rest) args'))"
  by pat_completeness auto
termination
  by (relation "measure (length \<circ> fst \<circ> snd)") auto

definition u_vprintf :: "string \<Rightarrow> va list \<Rightarrow> string option" where
  "u_vprintf fmt args = u_vprintf_loop False fmt args"

definition u_fprintf :: "int \<Rightarrow> string \<Rightarrow> va list \<Rightarrow> (int \<times> string) option" where
  "u_fprintf fd fmt args = map_option (Pair fd) (u_vprintf fmt args)"

definition u_printf :: "string \<Rightarrow> va list \<Rightarrow> (int \<times> string) option" where
  "u_printf fmt args = map_option (Pair 1) (u_vprintf fmt args)"

text \<open>What \<open>panic\<close> prints before it stops the machine.\<close>

definition panic :: "string \<Rightarrow> string option" where
  "panic s =
     (case printf ''panic: '' [] of
        None \<Rightarrow> None
      | Some t \<Rightarrow> map_option ((@) t) (printf ''%s\<newline>'' [Str (Some s)]))"

section \<open>Digits\<close>

text \<open>The usual notation of a number, most significant digit first.\<close>

function show_nat :: "string \<Rightarrow> nat \<Rightarrow> nat \<Rightarrow> string" where
  "show_nat ds b n = (if n < b \<or> b < 2 then [ds ! n] else show_nat ds b (n div b) @ [ds ! (n mod b)])"
  by pat_completeness auto
termination
  by (relation "measure (\<lambda>(ds, b, n). n)") auto

declare show_nat.simps [simp del]

lemma length_show_nat: "n < b ^ Suc k \<Longrightarrow> length (show_nat ds b n) \<le> Suc k"
proof (induction k arbitrary: n)
  case 0
  then show ?case by (simp add: show_nat.simps)
next
  case (Suc k)
  have "n div b < b ^ Suc k"
    using Suc.prems by (cases "b = 0") (auto simp: div_less_iff_less_mult mult.commute)
  from Suc.IH [OF this] show ?case by (subst show_nat.simps) simp
qed

lemma word_div_small: "unat x < unat base \<Longrightarrow> x div base = 0 \<and> x mod base = (x :: 64 word)"
  by (simp add: word_unat_eq_iff unat_div unat_mod)

lemma digit_loop_show:
  "2 \<le> unat base \<Longrightarrow> unat x < unat base ^ Suc room \<Longrightarrow>
     digit_loop (Suc room) ds base x = Some (rev (show_nat ds (unat base) (unat x)))"
proof (induction room arbitrary: x)
  case 0
  then show ?case by (simp add: show_nat.simps word_div_small)
next
  case (Suc room)
  show ?case
  proof (cases "unat x < unat base")
    case True
    then show ?thesis by (simp add: show_nat.simps word_div_small)
  next
    case False
    then have nz: "x div base \<noteq> 0"
      using Suc.prems(1) by (auto simp: word_unat_eq_iff unat_div div_eq_0_iff)
    have "unat (x div base) < unat base ^ Suc room"
      using Suc.prems by (simp add: unat_div div_less_iff_less_mult mult.commute)
    from Suc.IH [OF Suc.prems(1) this] nz False Suc.prems(1) show ?thesis
      by (subst digit_loop.simps, subst show_nat.simps) (simp add: unat_div unat_mod)
  qed
qed

definition show_int :: "string \<Rightarrow> 64 word \<Rightarrow> string" where
  "show_int ds x =
     (if sint x < 0 then CHR ''-'' # show_nat ds 10 (nat (- sint x)) else show_nat ds 10 (nat (sint x)))"

lemma sint_value: "sint (x :: 64 word) = uint x - (if sint x < 0 then 2 ^ 64 else 0)"
proof (cases "sint x < 0")
  case True
  have "uint x = (sint x + 2 ^ 64) mod 2 ^ 64" by (simp add: uint_sint take_bit_eq_mod)
  also have "\<dots> = sint x + 2 ^ 64"
    using True sint_greater_eq [of x] by (intro mod_pos_pos_trivial) simp_all
  finally show ?thesis using True by simp
next
  case False
  have "uint x = sint x mod 2 ^ 64" by (simp add: uint_sint take_bit_eq_mod)
  also have "\<dots> = sint x" using False sint_less [of x] by (intro mod_pos_pos_trivial) simp_all
  finally show ?thesis using False by simp
qed

lemma unat_neg:
  assumes neg: "sint (x :: 64 word) < 0"
  shows "unat (- x) = nat (- sint x)" "nat (- sint x) \<le> 2 ^ 63"
proof -
  have r: "- (2 ^ 63) \<le> sint x" using sint_greater_eq [of x] by simp
  have v: "uint x = sint x + 2 ^ 64" using sint_value [of x] neg by simp
  have "uint (- x) = (- uint x) mod 2 ^ 64" by (simp add: uint_word_ariths)
  also have "\<dots> = (- sint x) mod 2 ^ 64" unfolding v by (simp add: mod_diff_left_eq)
  also have "\<dots> = - sint x" using neg r by (intro mod_pos_pos_trivial) simp_all
  finally show "unat (- x) = nat (- sint x)" by (simp add: unat_eq_nat_uint)
  show "nat (- sint x) \<le> 2 ^ 63" using r by (simp add: nat_le_iff)
qed

lemma unat_pos:
  assumes "0 \<le> sint (x :: 64 word)" shows "unat x = nat (sint x)"
proof -
  have "\<not> sint x < 0" using assms by simp
  then have "uint x = sint x" using sint_value [of x] by (metis diff_zero)
  then show ?thesis by (simp add: unat_eq_nat_uint)
qed

lemma digit_loop_20:
  assumes "2 \<le> unat base" "unat x < unat base ^ 20"
  shows "digit_loop 20 ds base x = Some (rev (show_nat ds (unat base) (unat x)))"
proof -
  have n: "(20 :: nat) = Suc 19" by simp
  show ?thesis using assms unfolding n by (rule digit_loop_show)
qed

lemma printint_unsigned:
  assumes "2 \<le> unat base" "unat x < unat base ^ 20"
  shows "printint x base False = Some (show_nat digits (unat base) (unat x))"
    "u_printint x base False = Some (show_nat u_digits (unat base) (unat x))"
  by (simp_all add: printint_def u_printint_def digit_loop_20 [OF assms])

lemma word64_bound: "unat (x :: 64 word) < 10 ^ 20" "unat x < 16 ^ 20"
  using unsigned_less [of x, where ?'a = nat] by simp_all

lemma printint_signed:
  "printint x 10 True = Some (show_int digits x) \<and> u_printint x 10 True = Some (show_int u_digits x)"
proof (cases "sint x < 0")
  case True
  have "nat (- sint x) < 10 ^ Suc 18" using unat_neg(2) [OF True] by simp
  then have "length (show_nat ds 10 (nat (- sint x))) < 20" for ds
    using length_show_nat [of "nat (- sint x)" 10 18 ds] by simp
  then show ?thesis
    using True digit_loop_20 [of 10 "- x"] word64_bound [of "- x"] unat_neg(1) [OF True]
    by (simp add: printint_def u_printint_def show_int_def)
next
  case False
  then show ?thesis
    using digit_loop_20 [of 10 x] word64_bound [of x] unat_pos [of x]
    by (simp add: printint_def u_printint_def show_int_def)
qed

section \<open>What a format prints\<close>

text \<open>
  A format as its author means it: characters, and conversions with the values they print. \<open>source\<close>
  and \<open>operands\<close> give the format string and the arguments, \<open>shown\<close> the text, with the digits of the
  version and the way it prints a character.
\<close>

datatype item = Lit char | PercentSign | FD "64 word" | FLD "64 word" | FLLD "64 word"
  | FU "64 word" | FLU "64 word" | FLLU "64 word" | FX "64 word" | FLX "64 word" | FLLX "64 word"
  | FP "64 word" | FC "64 word" | FS "string option"

fun source :: "item \<Rightarrow> string" where
  "source (Lit c) = [c]"
| "source PercentSign = ''%%''"
| "source (FD _) = ''%d''"
| "source (FLD _) = ''%ld''"
| "source (FLLD _) = ''%lld''"
| "source (FU _) = ''%u''"
| "source (FLU _) = ''%lu''"
| "source (FLLU _) = ''%llu''"
| "source (FX _) = ''%x''"
| "source (FLX _) = ''%lx''"
| "source (FLLX _) = ''%llx''"
| "source (FP _) = ''%p''"
| "source (FC _) = ''%c''"
| "source (FS _) = ''%s''"

fun operands :: "item \<Rightarrow> va list" where
  "operands (Lit c) = []"
| "operands PercentSign = []"
| "operands (FS s) = [Str s]"
| "operands (FD w) = [Num w]"
| "operands (FLD w) = [Num w]"
| "operands (FLLD w) = [Num w]"
| "operands (FU w) = [Num w]"
| "operands (FLU w) = [Num w]"
| "operands (FLLU w) = [Num w]"
| "operands (FX w) = [Num w]"
| "operands (FLX w) = [Num w]"
| "operands (FLLX w) = [Num w]"
| "operands (FP w) = [Num w]"
| "operands (FC w) = [Num w]"

fun shown :: "string \<Rightarrow> (64 word \<Rightarrow> string) \<Rightarrow> item \<Rightarrow> string" where
  "shown ds put (Lit c) = [c]"
| "shown ds put PercentSign = ''%''"
| "shown ds put (FD w) = show_int ds (signed_take_bit 31 w)"
| "shown ds put (FLD w) = show_int ds w"
| "shown ds put (FLLD w) = show_int ds w"
| "shown ds put (FU w) = show_nat ds 10 (unat w mod 2 ^ 32)"
| "shown ds put (FLU w) = show_nat ds 10 (unat w)"
| "shown ds put (FLLU w) = show_nat ds 10 (unat w)"
| "shown ds put (FX w) = show_nat ds 16 (unat w mod 2 ^ 32)"
| "shown ds put (FLX w) = show_nat ds 16 (unat w)"
| "shown ds put (FLLX w) = show_nat ds 16 (unat w)"
| "shown ds put (FP w) = ''0x'' @ map (\<lambda>i. ds ! (unat w div 16 ^ (15 - i) mod 16)) [0..<16]"
| "shown ds put (FC w) = put w"
| "shown ds put (FS s) = (case s of None \<Rightarrow> ''(null)'' | Some s \<Rightarrow> s)"

fun plain :: "item \<Rightarrow> bool" where
  "plain (Lit c) \<longleftrightarrow> c \<noteq> CHR ''%''"
| "plain _ \<longleftrightarrow> True"

lemma ptr_loop_nibbles:
  "ptr_loop k ds x = map (\<lambda>i. ds ! (unat x * 16 ^ i mod 2 ^ 64 div 2 ^ 60)) [0..<k]"
proof (induction k arbitrary: x)
  case (Suc k)
  have shift: "unat (push_bit 4 x) = unat x * 16 mod 2 ^ 64"
    by (simp add: push_bit_eq_mult unat_word_ariths mult.commute)
  have "unat (drop_bit 60 x) = unat x div 2 ^ 60" by (subst unat_drop_bit_eq) (simp add: drop_bit_eq_div)
  moreover have "unat x mod 2 ^ 64 = unat x" using unsigned_less [of x, where ?'a = nat] by simp
  moreover have "(unat x * 16 mod 2 ^ 64) * 16 ^ i mod 2 ^ 64 = unat x * 16 ^ Suc i mod 2 ^ 64" for i
    by (simp add: mod_mult_left_eq mult.assoc)
  moreover have "[0..<Suc k] = 0 # map Suc [0..<k]" by (simp add: map_Suc_upt upt_conv_Cons)
  ultimately show ?case unfolding ptr_loop.simps Suc.IH shift by (simp add: comp_def)
qed simp

lemma nibble_gen:
  fixes n A B :: nat
  assumes "0 < A" shows "n * A mod (A * (B * 16)) div (A * B) = n div B mod 16"
proof -
  have "n * A mod (A * (B * 16)) = A * (n mod (B * 16))"
    by (metis mult.commute mult_mod_right)
  then have "n * A mod (A * (B * 16)) div (A * B) = n mod (B * 16) div B" using assms by simp
  also have "\<dots> = n div B mod 16" by (cases "B = 0") (simp_all add: mod_mult2_eq)
  finally show ?thesis .
qed

lemma nibble_at:
  assumes "i < 16"
  shows "unat (x :: 64 word) * 16 ^ i mod 2 ^ 64 div 2 ^ 60 = unat x div 16 ^ (15 - i) mod 16"
proof -
  have "(16 :: nat) ^ i * 16 ^ (15 - i) = 16 ^ (i + (15 - i))" by (rule power_add [symmetric])
  also have "i + (15 - i) = 15" using assms by simp
  finally have e: "(16 :: nat) ^ i * 16 ^ (15 - i) = 2 ^ 60" by simp
  have "(16 :: nat) ^ i * (16 ^ (15 - i) * 16) = 2 ^ 60 * 16"
    unfolding e [symmetric] by (simp only: mult.assoc)
  then have f: "(16 :: nat) ^ i * (16 ^ (15 - i) * 16) = 2 ^ 64" by simp
  show ?thesis using nibble_gen [of "16 ^ i" "unat x" "16 ^ (15 - i)"] unfolding e f by simp
qed

lemma ptr_loop_shown: "ptr_loop 16 ds x = map (\<lambda>i. ds ! (unat x div 16 ^ (15 - i) mod 16)) [0..<16]"
  unfolding ptr_loop_nibbles by (rule map_cong) (simp_all add: nibble_at del: power_numeral)

lemma small_word: "unat (take_bit 32 w :: 64 word) = unat w mod 2 ^ 32"
  by (subst unsigned_take_bit_eq) (simp_all add: take_bit_eq_mod)

lemma dec_shown:
  "printint w 10 True = Some (show_int digits w)"
  "u_printint w 10 True = Some (show_int u_digits w)"
  using printint_signed by blast+

lemma unsigned_shown:
  "printint w 10 False = Some (show_nat digits 10 (unat w))"
  "u_printint w 10 False = Some (show_nat u_digits 10 (unat w))"
  using printint_unsigned [of 10 w] word64_bound [of w] by simp_all

lemma hex_shown:
  "printint w 16 False = Some (show_nat digits 16 (unat w))"
  "u_printint w 16 False = Some (show_nat u_digits 16 (unat w))"
  using printint_unsigned [of 16 w] word64_bound [of w] by simp_all

lemma prepend_one: "(@) [x] = (#) x"
  by (simp add: fun_eq_iff)

lemmas conv_shown = prepend_one dec_shown unsigned_shown hex_shown small_word printptr_def u_printptr_def ptr_loop_shown

lemma printf_item:
  assumes "plain it"
  shows "printf_loop (source it @ rest) (operands it @ args) =
    map_option ((@) (shown digits cons_put it)) (printf_loop rest args)"
  using assms
  by (cases it) (simp_all add: char_at_def NUL_def conversion_def print_conv_def conv_shown del: upt_rec_numeral)

lemma u_vprintf_item:
  assumes "plain it"
  shows "u_vprintf_loop False (source it @ rest) (operands it @ args) =
    map_option ((@) (shown u_digits u_put it)) (u_vprintf_loop False rest args)"
  using assms
  by (cases it) (simp_all add: char_at_def NUL_def conversion_def print_conv_def conv_shown del: upt_rec_numeral)

lemma printf_items:
  "\<forall>it \<in> set its. plain it \<Longrightarrow>
     printf_loop (concat (map source its)) (concat (map operands its)) =
       Some (concat (map (shown digits cons_put) its)) \<and>
     u_vprintf_loop False (concat (map source its)) (concat (map operands its)) =
       Some (concat (map (shown u_digits u_put) its))"
proof (induction its)
  case (Cons it its)
  then show ?case by (simp add: printf_item u_vprintf_item del: printf_loop.simps u_vprintf_loop.simps)
qed simp

text \<open>
  Both versions of \<open>printf\<close> print every format made of characters and conversions, with arguments
  that fit it, as it is meant: each conversion as the usual notation of its argument at its width,
  the rest as it stands. They differ only in the case of the hexadecimal digits and in the
  kernel's backspace character. The buffer of 20 characters is never overrun.
\<close>

theorem printf_shows_items:
  assumes "\<forall>it \<in> set its. plain it"
  shows "printf (concat (map source its)) (concat (map operands its)) =
      Some (concat (map (shown digits cons_put) its)) \<and>
    u_printf (concat (map source its)) (concat (map operands its)) =
      Some (1, concat (map (shown u_digits u_put) its))"
  using printf_items [OF assms] by (simp add: printf_def u_printf_def u_vprintf_def)

theorem printf_shows_items_witness:
  "u_printf ''%d%% of %x'' [Num (-5), Num 255] = Some (1, ''-5% of FF'')"
proof -
  let ?its = "[FD (-5), PercentSign, Lit CHR '' '', Lit CHR ''o'', Lit CHR ''f'', Lit CHR '' '', FX 255]"
  have "\<forall>it \<in> set ?its. plain it" by simp
  from printf_shows_items [OF this] show ?thesis
    by (simp add: show_int_def show_nat.simps u_digits_def)
qed

section \<open>Reading numbers back\<close>

lemma atoi_loop_append:
  "\<forall>c \<in> set s. isdigit c \<Longrightarrow> u_atoi_loop n (s @ t) = u_atoi_loop (u_atoi_loop n s) t"
  by (induction s arbitrary: n) auto

lemma digit_chars:
  "d < 10 \<Longrightarrow> isdigit (u_digits ! d) \<and> digit_val (u_digits ! d) = int d"
proof -
  assume "d < 10"
  then have "d \<in> set [0..<10]" by simp
  moreover have "\<forall>d \<in> set [0..<10]. isdigit (u_digits ! d) \<and> digit_val (u_digits ! d) = int d"
    by code_simp
  ultimately show ?thesis by blast
qed

lemma show_nat_digits: "\<forall>c \<in> set (show_nat u_digits 10 n). isdigit c"
proof (induction n rule: less_induct)
  case (less n)
  show ?case
  proof (cases "n < 10")
    case True
    then show ?thesis using digit_chars [of n] by (simp add: show_nat.simps)
  next
    case False
    then show ?thesis
      using digit_chars [of "n mod 10"] less [of "n div 10"] by (simp add: show_nat.simps [of _ _ n])
  qed
qed

lemma atoi_show_nat: "n < 2 ^ 31 \<Longrightarrow> u_atoi_loop 0 (show_nat u_digits 10 n) = int n"
proof (induction n rule: less_induct)
  case (less n)
  show ?case
  proof (cases "n < 10")
    case True
    then show ?thesis using digit_chars [of n] by (subst show_nat.simps) (simp add: to_int32_def signed_take_bit_int_eq_self)
  next
    case False
    then have "u_atoi_loop 0 (show_nat u_digits 10 (n div 10)) = int (n div 10)"
      using less by simp
    moreover have "int (n div 10) * 10 + int (n mod 10) = int n" 
      by (metis div_mult_mod_eq of_nat_add of_nat_mult of_nat_numeral)
    ultimately show ?thesis
      using False less.prems digit_chars [of "n mod 10"]
      by (subst show_nat.simps)
        (simp add: atoi_loop_append [OF show_nat_digits] to_int32_def signed_take_bit_int_eq_self)
  qed
qed

lemma sint_small:
  assumes "n < 2 ^ 31" shows "sint (signed_take_bit 31 (of_nat n :: 64 word)) = int n"
proof -
  have m: "n mod 2 ^ 64 = n" "take_bit 31 n = n"
    using assms by (simp_all add: take_bit_eq_mod)
  have "\<not> bit n 31" using m(2) by (metis bit_take_bit_iff less_irrefl)
  then have "\<not> bit (of_nat n :: 64 word) 31" by (simp add: bit_of_nat_iff)
  then have "signed_take_bit 31 (of_nat n :: 64 word) = take_bit 31 (of_nat n)"
    by (simp add: signed_take_bit_eq_if_positive)
  also have "\<dots> = of_nat n" using m(2) by (metis of_nat_take_bit)
  finally have e: "signed_take_bit 31 (of_nat n :: 64 word) = of_nat n" .
  have "uint (of_nat n :: 64 word) = int n" using m(1) by (simp add: unsigned_of_nat take_bit_eq_mod)
  then show ?thesis
    unfolding e using assms by (simp add: sint_uint signed_take_bit_int_eq_self)
qed

text \<open>
  What a program prints with \<open>%d\<close> for a number that is not negative, \<open>atoi\<close> reads back.
\<close>

theorem atoi_reads_printf:
  assumes "n < 2 ^ 31"
  shows "\<exists>s. u_printf ''%d'' [Num (of_nat n)] = Some (1, s) \<and> u_atoi s = int n"
proof -
  have "show_int u_digits (signed_take_bit 31 (of_nat n)) = show_nat u_digits 10 n"
    by (simp add: show_int_def sint_small [OF assms])
  then have "u_printf ''%d'' [Num (of_nat n)] = Some (1, show_nat u_digits 10 n)"
    using printf_items [of "[FD (of_nat n)]"] by (simp add: u_printf_def u_vprintf_def)
  then show ?thesis using atoi_show_nat [OF assms] by (simp add: u_atoi_def)
qed

theorem atoi_reads_printf_witness:
  "\<exists>s. u_printf ''%d'' [Num 4096] = Some (1, s) \<and> u_atoi s = 4096"
  using atoi_reads_printf [of 4096] by simp

end
