(* ===== verification/XvSh.thy ===== *)
theory XvSh
  imports Prelude "HOL-Library.Sublist"
begin

text \<open>
  \<open>xv6/xv6-source/user/sh.c\<close>: the command parser, the execution of command trees and the main loop.
  A \<open>char *\<close> into the line is the suffix from there to the end \<open>es\<close>, so \<open>s < es\<close> is that the suffix
  is not empty, and \<open>*es\<close> the terminating NUL. \<open>panic\<close> and \<open>exit\<close> end the process; in the parser
  the message is the left result. The recursion of the parser, which is as deep as the line nests,
  is bounded by fuel; what is enough is a function of the line.
\<close>

section \<open>Command trees\<close>

type_synonym ptr = string

text \<open>An argument or a file name is the pair of its first character and the first after it.\<close>

datatype cmd = EXEC "(ptr \<times> ptr) list"
  | REDIR cmd ptr ptr int int
  | PIPE cmd cmd
  | LIST cmd cmd
  | BACK cmd

definition MAXARGS :: nat where "MAXARGS = 10"

definition O_RDONLY :: int where "O_RDONLY = 0"
definition O_WRONLY :: int where "O_WRONLY = 1"
definition O_CREATE :: int where "O_CREATE = 0x200"
definition O_TRUNC :: int where "O_TRUNC = 0x400"

definition execcmd :: cmd where "execcmd = EXEC []"

definition redircmd :: "cmd \<Rightarrow> ptr \<Rightarrow> ptr \<Rightarrow> int \<Rightarrow> int \<Rightarrow> cmd" where
  "redircmd subcmd file efile mode fd = REDIR subcmd file efile mode fd"

definition pipecmd :: "cmd \<Rightarrow> cmd \<Rightarrow> cmd" where "pipecmd left right = PIPE left right"

definition listcmd :: "cmd \<Rightarrow> cmd \<Rightarrow> cmd" where "listcmd left right = LIST left right"

definition backcmd :: "cmd \<Rightarrow> cmd" where "backcmd subcmd = BACK subcmd"

lemmas constructors = execcmd_def redircmd_def pipecmd_def listcmd_def backcmd_def

section \<open>Tokens\<close>

definition NUL :: char where "NUL = CHR 0x00"

definition whitespace :: string where
  "whitespace = [CHR '' '', CHR 0x09, CHR 0x0D, CHR 0x0A, CHR 0x0B]"

definition symbols :: string where "symbols = ''<|>&;()''"

definition deref :: "ptr \<Rightarrow> char" where
  "deref s = (case s of [] \<Rightarrow> NUL | c # _ \<Rightarrow> c)"

text \<open>\<open>strchr\<close> finds no NUL, since the loop ends at the one of the set.\<close>

definition strchr :: "string \<Rightarrow> char \<Rightarrow> bool" where
  "strchr cs c \<longleftrightarrow> c \<in> set cs"

fun skip_ws :: "ptr \<Rightarrow> ptr" where
  "skip_ws [] = []"
| "skip_ws (c # s) = (if strchr whitespace c then skip_ws s else c # s)"

fun skip_word :: "ptr \<Rightarrow> ptr" where
  "skip_word [] = []"
| "skip_word (c # s) = (if \<not> strchr whitespace c \<and> \<not> strchr symbols c then skip_word s else c # s)"

text \<open>\<open>gettoken\<close>: the kind of the token, its two ends, and the pointer moved past it.\<close>

definition gettoken :: "ptr \<Rightarrow> char \<times> ptr \<times> ptr \<times> ptr" where
  "gettoken ps =
     (let q = skip_ws ps; c = deref q;
          (ret, s) =
            (if c = NUL then (NUL, q)
             else if strchr ''|();&<'' c then (c, tl q)
             else if c = CHR ''>'' then
               (if deref (tl q) = CHR ''>'' then (CHR ''+'', tl (tl q)) else (CHR ''>'', tl q))
             else (CHR ''a'', skip_word q))
      in (ret, q, s, skip_ws s))"

definition peek :: "ptr \<Rightarrow> string \<Rightarrow> bool \<times> ptr" where
  "peek ps toks = (let s = skip_ws ps in (deref s \<noteq> NUL \<and> strchr toks (deref s), s))"

lemma length_skip_ws: "length (skip_ws s) \<le> length s"
  by (induction s) auto

lemma skip_ws_idem [simp]: "skip_ws (skip_ws s) = skip_ws s"
  by (induction s) auto

lemma length_skip_word: "length (skip_word s) \<le> length s"
  by (induction s) auto

lemma gettoken_le: "gettoken ps = (r, q, e, s) \<Longrightarrow> length s \<le> length ps"
  using length_skip_ws [of ps] length_skip_ws [of "skip_word (skip_ws ps)"] length_skip_ws [of "tl (skip_ws ps)"]
    length_skip_word [of "skip_ws ps"] length_skip_ws [of "tl (tl (skip_ws ps))"] length_skip_ws [of "skip_ws ps"]
  by (auto simp: gettoken_def Let_def split: if_splits prod.splits)

lemma gettoken_less:
  assumes "gettoken ps = (r, q, e, s)" "r \<noteq> NUL"
  shows "length s < length ps"
proof -
  obtain c t where ct: "skip_ws ps = c # t" "c \<noteq> NUL"
    using assms by (cases "skip_ws ps") (auto simp: gettoken_def deref_def Let_def split: if_splits)
  have b: "length t < length ps" using length_skip_ws [of ps] ct by simp
  show ?thesis
  proof (cases "strchr symbols c")
    case True
    have "length s \<le> length t"
      using assms ct True length_skip_ws [of t] length_skip_ws [of "tl t"]
      by (auto simp: gettoken_def deref_def Let_def strchr_def symbols_def split: if_splits list.splits)
    then show ?thesis using b by simp
  next
    case False
    have "\<not> strchr whitespace c"
      using ct by (induction ps) (auto split: if_splits)
    then have "skip_word (c # t) = skip_word t" using False by simp
    then have "length s \<le> length t"
      using assms ct False length_skip_ws [of "skip_word t"] length_skip_word [of t]
      by (auto simp: gettoken_def deref_def Let_def strchr_def symbols_def split: if_splits)
    then show ?thesis using b by simp
  qed
qed

lemma peek_le: "peek ps toks = (b, s) \<Longrightarrow> length s \<le> length ps"
  using length_skip_ws [of ps] by (auto simp: peek_def Let_def)

section \<open>The parser\<close>

text \<open>
  \<open>parseredirs\<close> wraps the command it is given in one \<open>REDIR\<close> per redirection, the last one outermost.
  \<open>parseexec\<close> stores further arguments in the \<open>execcmd\<close> inside those wrappers, so the
  redirections are collected in a list here and put around the command by \<open>wrap\<close>.
\<close>

type_synonym redir = "ptr \<times> ptr \<times> int \<times> int"

definition wrap :: "redir list \<Rightarrow> cmd \<Rightarrow> cmd" where
  "wrap rs cmd = foldl (\<lambda>c (q, eq, mode, fd). redircmd c q eq mode fd) cmd rs"

definition redir_mode :: "char \<Rightarrow> int \<times> int" where
  "redir_mode tok =
     (if tok = CHR ''<'' then (O_RDONLY, 0)
      else if tok = CHR ''>'' then (O_WRONLY + O_CREATE + O_TRUNC, 1)
      else (O_WRONLY + O_CREATE, 1))"

function parseredirs :: "redir list \<Rightarrow> ptr \<Rightarrow> string + redir list \<times> ptr" where
  "parseredirs rs ps =
     (let (found, s) = peek ps ''<>''
      in if \<not> found then Inr (rs, s)
         else let (tok, _, _, s1) = gettoken s; (t, q, eq, s2) = gettoken s1
              in if t \<noteq> CHR ''a'' then Inl ''missing file for redirection''
                 else parseredirs (rs @ [(q, eq, redir_mode tok)]) s2)"
  by pat_completeness auto
termination
proof (relation "measure (\<lambda>(rs, ps). length ps)", goal_cases)
  case (2 rs ps x found s y tok z q1 w e1 s1 x' t z' q w' eq s2)
  then have "length s \<le> length ps" "length s1 \<le> length s" "length s2 < length s1"
    using peek_le [OF sym] gettoken_le [OF sym] gettoken_less [OF sym] by (fastforce simp: NUL_def)+
  then show ?case by simp
qed simp

declare parseredirs.simps [simp del]

lemma parseredirs_le: "parseredirs rs ps = Inr (rs', s) \<Longrightarrow> length s \<le> length ps"
proof (induction rs ps rule: parseredirs.induct)
  case (1 rs ps)
  obtain found s0 where p: "peek ps ''<>'' = (found, s0)" by fastforce
  show ?case
  proof (cases found)
    case False
    then show ?thesis using 1(2) p peek_le [OF p] by (simp add: parseredirs.simps [of rs ps])
  next
    case True
    obtain tok q1 e1 s1 where g: "gettoken s0 = (tok, q1, e1, s1)" by (cases "gettoken s0")
    obtain t q eq s2 where h: "gettoken s1 = (t, q, eq, s2)" by (cases "gettoken s1")
    show ?thesis
    proof (cases "t = CHR ''a''")
      case True
      with 1(2) p g h \<open>found\<close> have "length s \<le> length s2"
        by (intro 1(1) [OF p [symmetric] refl _ g [symmetric] refl refl refl h [symmetric] refl refl])
          (auto simp: parseredirs.simps [of rs ps] split: prod.splits)
      then show ?thesis using peek_le [OF p] gettoken_le [OF g] gettoken_le [OF h] by simp
    qed (use 1(2) p g h \<open>found\<close> in \<open>simp add: parseredirs.simps [of rs ps]\<close>)
  qed
qed

text \<open>The loop of \<open>parseexec\<close>: the arguments and the redirections so far.\<close>

function parse_args :: "(ptr \<times> ptr) list \<Rightarrow> redir list \<Rightarrow> ptr \<Rightarrow>
    string + (ptr \<times> ptr) list \<times> redir list \<times> ptr" where
  "parse_args argv rs ps =
     (let (stop, s) = peek ps ''|)&;''
      in if stop then Inr (argv, rs, s)
         else let (tok, q, eq, s1) = gettoken s
              in if tok = NUL then Inr (argv, rs, s1)
                 else if tok \<noteq> CHR ''a'' then Inl ''syntax''
                 else if length argv + 1 \<ge> MAXARGS then Inl ''too many args''
                 else case parseredirs rs s1 of
                        Inl e \<Rightarrow> Inl e
                      | Inr (rs', s2) \<Rightarrow> parse_args (argv @ [(q, eq)]) rs' s2)"
  by pat_completeness auto
termination
proof (relation "measure (\<lambda>(argv, rs, ps). length ps)", goal_cases)
  case (2 argv rs ps x stop s y tok z q w eq s1 r rs' s2)
  then have "length s \<le> length ps" "length s1 < length s" "length s2 \<le> length s1"
    using peek_le [OF sym] gettoken_less [OF sym] parseredirs_le by (fastforce simp: NUL_def)+
  then show ?case by simp
qed simp

declare parse_args.simps [simp del]

text \<open>The loop \<open>while (peek (ps, es, "&"))\<close> of \<open>parseline\<close>.\<close>

function parse_backs :: "cmd \<Rightarrow> ptr \<Rightarrow> cmd \<times> ptr" where
  "parse_backs cmd ps =
     (let (found, s) = peek ps ''&''
      in if found then let (_, _, _, s1) = gettoken s in parse_backs (backcmd cmd) s1 else (cmd, s))"
  by pat_completeness auto
termination
proof (relation "measure (\<lambda>(cmd, ps). length ps)", goal_cases)
  case (2 cmd ps x found s y tok z q w eq s1)
  then have s: "length s \<le> length ps" "s = skip_ws ps" "deref s = CHR ''&''"
    using peek_le [OF sym] by (auto simp: peek_def Let_def strchr_def)
  moreover from s have "tok \<noteq> NUL"
    using 2 by (auto simp: gettoken_def Let_def NUL_def strchr_def skip_ws_idem)
  ultimately show ?case using 2 gettoken_less [of s tok q eq s1] by auto
qed simp

declare parse_backs.simps [simp del]

type_synonym 'a parsed = "(string + 'a) option"

definition bind :: "'a parsed \<Rightarrow> ('a \<Rightarrow> 'b parsed) \<Rightarrow> 'b parsed" where
  "bind m f = (case m of None \<Rightarrow> None | Some (Inl e) \<Rightarrow> Some (Inl e) | Some (Inr x) \<Rightarrow> f x)"

fun parseline :: "nat \<Rightarrow> ptr \<Rightarrow> (cmd \<times> ptr) parsed"
and parsepipe :: "nat \<Rightarrow> ptr \<Rightarrow> (cmd \<times> ptr) parsed"
and parseexec :: "nat \<Rightarrow> ptr \<Rightarrow> (cmd \<times> ptr) parsed"
and parseblock :: "nat \<Rightarrow> ptr \<Rightarrow> (cmd \<times> ptr) parsed" where
  "parseline 0 ps = None"
| "parseline (Suc n) ps =
     bind (parsepipe n ps) (\<lambda>(cmd, s).
       let (cmd, s) = parse_backs cmd s; (found, s) = peek s '';''
       in if found then
            let (_, _, _, s) = gettoken s
            in bind (parseline n s) (\<lambda>(right, s). Some (Inr (listcmd cmd right, s)))
          else Some (Inr (cmd, s)))"
| "parsepipe 0 ps = None"
| "parsepipe (Suc n) ps =
     bind (parseexec n ps) (\<lambda>(cmd, s).
       let (found, s) = peek s ''|''
       in if found then
            let (_, _, _, s) = gettoken s
            in bind (parsepipe n s) (\<lambda>(right, s). Some (Inr (pipecmd cmd right, s)))
          else Some (Inr (cmd, s)))"
| "parseexec 0 ps = None"
| "parseexec (Suc n) ps =
     (let (found, s) = peek ps ''(''
      in if found then parseblock n s
         else bind (Some (parseredirs [] s)) (\<lambda>(rs, s).
                bind (Some (parse_args [] rs s)) (\<lambda>(argv, rs, s). Some (Inr (wrap rs (EXEC argv), s)))))"
| "parseblock 0 ps = None"
| "parseblock (Suc n) ps =
     (let (found, s) = peek ps ''(''
      in if \<not> found then Some (Inl ''parseblock'')
         else let (_, _, _, s) = gettoken s
              in bind (parseline n s) (\<lambda>(cmd, s).
                   let (found, s) = peek s '')''
                   in if \<not> found then Some (Inl ''syntax - missing )'')
                      else let (_, _, _, s) = gettoken s
                           in bind (Some (parseredirs [] s)) (\<lambda>(rs, s). Some (Inr (wrap rs cmd, s)))))"

text \<open>
  \<open>nulterminate\<close> writes a NUL at the end of every argument and file name into the line: the place of
  a pointer is the length of the line less that of the suffix.
\<close>

definition put_nul :: "ptr \<Rightarrow> string \<Rightarrow> string" where
  "put_nul p buf = buf[length buf - length p := NUL]"

primrec nulterminate :: "cmd \<Rightarrow> string \<Rightarrow> string" where
  "nulterminate (EXEC argv) buf = fold (\<lambda>(q, eq). put_nul eq) argv buf"
| "nulterminate (REDIR cmd file efile mode fd) buf = put_nul efile (nulterminate cmd buf)"
| "nulterminate (PIPE left right) buf = nulterminate right (nulterminate left buf)"
| "nulterminate (LIST left right) buf = nulterminate right (nulterminate left buf)"
| "nulterminate (BACK cmd) buf = nulterminate cmd buf"

definition enough_fuel :: "ptr \<Rightarrow> nat" where
  "enough_fuel s = 4 * length s + 4"

definition parsecmd :: "string \<Rightarrow> (cmd \<times> string) parsed" where
  "parsecmd s =
     bind (parseline (enough_fuel s) s) (\<lambda>(cmd, p).
       let (_, p) = peek p []
       in if p \<noteq> [] then Some (Inl ''syntax'') else Some (Inr (cmd, nulterminate cmd s)))"

section \<open>Running a command tree\<close>

text \<open>
  A process is its table of open files, whose lowest free entry a new one takes. The world is the
  list of what happened: programs that started, with their arguments and files, messages on file 2,
  and changes of the directory; it also numbers the pipes and answers the calls of \<open>fork\<close>, which
  succeed when the list of answers is exhausted. What \<open>open\<close> and \<open>exec\<close> answer is an environment. A
  string of the command is read from the line, where \<open>nulterminate\<close> has ended it. A child that
  \<open>fork\<close> starts is run when it is started; the order in which processes that run at the same time
  take turns is not modelled.
\<close>

datatype ofile = Console | File string int | ReadEnd nat | WriteEnd nat

type_synonym files = "ofile option list"

datatype event = Started "string list" files | Message string | Chdir string

record world =
  happened :: "event list"
  pipes :: nat
  forks :: "bool list"

record answers =
  can_open :: "string \<Rightarrow> int \<Rightarrow> bool"
  can_exec :: "string list \<Rightarrow> bool"
  can_chdir :: "string \<Rightarrow> bool"

definition happens :: "event \<Rightarrow> world \<Rightarrow> world" where
  "happens x w = w\<lparr>happened := happened w @ [x]\<rparr>"

definition fork :: "world \<Rightarrow> bool \<times> world" where
  "fork w = (case forks w of [] \<Rightarrow> (True, w) | b # bs \<Rightarrow> (b, w\<lparr>forks := bs\<rparr>))"

text \<open>\<open>fork1\<close> ends the process with a message when \<open>fork\<close> fails, and is written in the style of what follows it.\<close>

definition fork1 :: "(world \<Rightarrow> world) \<Rightarrow> (world \<Rightarrow> world) \<Rightarrow> world \<Rightarrow> world" where
  "fork1 child parent w =
     (let (ok, w) = fork w in if ok then parent (child w) else happens (Message ''fork'') w)"

definition close :: "nat \<Rightarrow> files \<Rightarrow> files" where
  "close fd fs = fs[fd := None]"

definition alloc :: "ofile \<Rightarrow> files \<Rightarrow> (nat \<times> files) option" where
  "alloc f fs = (case first_index (\<lambda>x. x = None) fs of None \<Rightarrow> None | Some i \<Rightarrow> Some (i, fs[i := Some f]))"

definition dup :: "nat \<Rightarrow> files \<Rightarrow> files" where
  "dup fd fs = (case fs ! fd of None \<Rightarrow> fs | Some f \<Rightarrow> (case alloc f fs of None \<Rightarrow> fs | Some (i, fs') \<Rightarrow> fs'))"

definition pipe :: "files \<Rightarrow> world \<Rightarrow> ((nat \<times> nat) \<times> files \<times> world) option" where
  "pipe fs w =
     (case alloc (ReadEnd (pipes w)) fs of None \<Rightarrow> None
      | Some (r, fs1) \<Rightarrow>
          (case alloc (WriteEnd (pipes w)) fs1 of None \<Rightarrow> None
           | Some (x, fs2) \<Rightarrow> Some ((r, x), fs2, w\<lparr>pipes := pipes w + 1\<rparr>)))"

definition cstring :: "string \<Rightarrow> ptr \<Rightarrow> string" where
  "cstring buf q = takeWhile (\<lambda>c. c \<noteq> NUL) (drop (length buf - length q) buf)"

primrec runcmd :: "answers \<Rightarrow> string \<Rightarrow> cmd \<Rightarrow> files \<Rightarrow> world \<Rightarrow> world" where
  "runcmd env buf (EXEC argv) fs w =
     (if argv = [] then w
      else let args = map (\<lambda>(q, eq). cstring buf q) argv
           in if can_exec env args then happens (Started args fs) w
              else happens (Message (''exec '' @ hd args @ '' failed\<newline>'')) w)"
| "runcmd env buf (REDIR cmd file efile mode fd) fs w =
     (let fs = close (nat fd) fs; name = cstring buf file
      in if can_open env name mode then
           (case alloc (File name mode) fs of
              None \<Rightarrow> happens (Message (''open '' @ name @ '' failed\<newline>'')) w
            | Some (_, fs) \<Rightarrow> runcmd env buf cmd fs w)
         else happens (Message (''open '' @ name @ '' failed\<newline>'')) w)"
| "runcmd env buf (LIST left right) fs w =
     fork1 (runcmd env buf left fs) (runcmd env buf right fs) w"
| "runcmd env buf (PIPE left right) fs w =
     (case pipe fs w of
        None \<Rightarrow> happens (Message ''pipe'') w
      | Some ((r, x), fs, w) \<Rightarrow>
          fork1 (runcmd env buf left (close x (close r (dup x (close 1 fs)))))
            (fork1 (runcmd env buf right (close x (close r (dup r (close 0 fs))))) id) w)"
| "runcmd env buf (BACK cmd) fs w = fork1 (runcmd env buf cmd fs) id w"

section \<open>The main loop\<close>

text \<open>
  \<open>getcmd\<close> on the characters the console will still give; \<open>gets\<close> stops after a newline or a carriage
  return and stores at most \<open>nbuf - 1\<close> characters. The string is what precedes the first NUL.
\<close>

fun gets :: "nat \<Rightarrow> string \<Rightarrow> string \<times> string" where
  "gets room [] = ([], [])"
| "gets room (c # cs) =
     (if room = 0 then ([], c # cs)
      else if c = CHR 0x0A \<or> c = CHR 0x0D then ([c], cs)
      else let (l, r) = gets (room - 1) cs in (c # l, r))"

definition getcmd :: "nat \<Rightarrow> string \<Rightarrow> string option \<times> string" where
  "getcmd nbuf inp =
     (let (l, inp) = gets (nbuf - 1) inp; buf = takeWhile (\<lambda>c. c \<noteq> NUL) l
      in (if buf = [] then None else Some buf, inp))"

definition BUFSIZE :: nat where "BUFSIZE = 100"

definition run_line :: "answers \<Rightarrow> string \<Rightarrow> files \<Rightarrow> world \<Rightarrow> world" where
  "run_line env buf fs w =
     (let cmd = dropWhile (\<lambda>c. c = CHR '' '' \<or> c = CHR 0x09) buf
      in if deref cmd = CHR 0x0A then w
         else if take 3 cmd = ''cd '' then
           let dir = drop 3 (butlast cmd)
           in if can_chdir env dir then happens (Chdir dir) w else happens (Message (''cannot cd '' @ dir @ ''\<newline>'')) w
         else
           fork1 (\<lambda>w. case parsecmd cmd of
                         Some (Inr (c, buf)) \<Rightarrow> runcmd env buf c fs w
                       | Some (Inl e) \<Rightarrow> happens (Message e) w
                       | None \<Rightarrow> w) id w)"

lemma gets_le: "gets room cs = (l, r) \<Longrightarrow> length l + length r = length cs"
  by (induction room cs arbitrary: l r rule: gets.induct) (auto split: if_splits prod.splits)

lemma getcmd_less: "getcmd n inp = (Some buf, inp') \<Longrightarrow> length inp' < length inp"
proof -
  assume g: "getcmd n inp = (Some buf, inp')"
  obtain l r where lr: "gets (n - 1) inp = (l, r)" by fastforce
  with g have "takeWhile (\<lambda>c. c \<noteq> NUL) l \<noteq> []" "inp' = r"
    by (auto simp: getcmd_def Let_def split: if_splits)
  then have "0 < length l" "inp' = r" by auto
  then show ?thesis using gets_le [OF lr] by (simp flip: gets_le [OF lr])
qed

function main_loop :: "answers \<Rightarrow> files \<Rightarrow> string \<Rightarrow> world \<Rightarrow> world" where
  "main_loop env fs inp w =
     (case getcmd BUFSIZE inp of
        (None, inp) \<Rightarrow> w
      | (Some buf, inp) \<Rightarrow> main_loop env fs inp (run_line env buf fs w))"
  by pat_completeness auto
termination
  by (relation "measure (\<lambda>(env, fs, inp, w). length inp)")
    (auto dest: getcmd_less [OF sym])

declare main_loop.simps [simp del]

text \<open>\<open>main\<close>: open the console until the file number is at least 3, which is closed again.\<close>

primrec open_console :: "nat \<Rightarrow> files \<Rightarrow> files" where
  "open_console 0 fs = fs"
| "open_console (Suc k) fs =
     (case alloc Console fs of None \<Rightarrow> fs
      | Some (fd, fs) \<Rightarrow> if fd \<ge> 3 then close fd fs else open_console k fs)"

definition sh_main :: "answers \<Rightarrow> files \<Rightarrow> string \<Rightarrow> world \<Rightarrow> world" where
  "sh_main env fs inp w = main_loop env (open_console (length fs + 1) fs) inp w"

section \<open>The parser returns\<close>

lemma bind_simps [simp]:
  "bind None f = None" "bind (Some (Inl e)) f = Some (Inl e)" "bind (Some (Inr x)) f = f x"
  by (simp_all add: bind_def)

lemma bind_Inr: "bind m f = Some (Inr y) \<longleftrightarrow> (\<exists>x. m = Some (Inr x) \<and> f x = Some (Inr y))"
  by (auto simp: bind_def split: option.splits sum.splits)

lemma bind_None: "bind m f = None \<longleftrightarrow> m = None \<or> (\<exists>x. m = Some (Inr x) \<and> f x = None)"
  by (auto simp: bind_def split: option.splits sum.splits)

text \<open>What every step of the parser leaves is a suffix of what it was given.\<close>

lemma suffix_skip_ws: "suffix (skip_ws s) s"
  by (induction s) (auto simp: suffix_ConsI)

lemma suffix_skip_word: "suffix (skip_word s) s"
  by (induction s) (auto simp: suffix_ConsI)

lemma suffix_tl2: "suffix (tl s) s"
  by (cases s) (auto simp: suffix_ConsI)

lemma peek_suffix: "peek ps toks = (b, s) \<Longrightarrow> suffix s ps"
  by (auto simp: peek_def Let_def suffix_skip_ws)

lemma gettoken_suffix:
  assumes "gettoken ps = (r, q, e, s)" shows "suffix s e" "suffix e q" "suffix q ps" "suffix s ps"
proof -
  have "s = skip_ws e" "q = skip_ws ps"
    using assms by (auto simp: gettoken_def Let_def split: if_splits)
  moreover have "e \<in> {q, tl q, tl (tl q), skip_word q}"
    using assms by (auto simp: gettoken_def Let_def split: if_splits)
  then have "suffix e q"
    using suffix_tl2 [of q] suffix_order.trans [OF suffix_tl2 [of "tl q"] suffix_tl2 [of q]]
      suffix_skip_word [of q] by auto
  ultimately show "suffix s e" "suffix e q" "suffix q ps" "suffix s ps"
    using suffix_skip_ws suffix_order.trans by blast+
qed

lemma peek_found:
  assumes "peek ps toks = (True, s)" "gettoken s = (r, q, e, s')" "NUL \<notin> set toks" "CHR ''a'' \<notin> set toks"
  shows "r \<noteq> NUL" "length s' < length ps"
proof -
  have s: "s = skip_ws ps" "deref s \<noteq> NUL" "deref s \<in> set toks"
    using assms(1) by (auto simp: peek_def Let_def strchr_def)
  then show "r \<noteq> NUL" using assms(2) by (auto simp: gettoken_def Let_def NUL_def split: if_splits)
  then show "length s' < length ps"
    using gettoken_less [OF assms(2)] peek_le [OF assms(1)] by simp
qed

text \<open>A token of kind \<open>a\<close> is a word of the line: it starts with a word character and ends before the first that is none.\<close>

definition word_char :: "char \<Rightarrow> bool" where
  "word_char c \<longleftrightarrow> \<not> strchr whitespace c \<and> \<not> strchr symbols c \<and> c \<noteq> NUL"

definition token :: "ptr \<Rightarrow> ptr \<times> ptr \<Rightarrow> bool" where
  "token ps t \<longleftrightarrow> suffix (fst t) ps \<and> fst t \<noteq> [] \<and> word_char (hd (fst t)) \<and> snd t = skip_word (fst t)"

lemma token_suffix: "token s t \<Longrightarrow> suffix s ps \<Longrightarrow> token ps t"
  unfolding token_def using suffix_order.trans by blast

lemma gettoken_word:
  assumes "gettoken ps = (CHR ''a'', q, e, s)" shows "token ps (q, e)"
proof -
  have q: "q = skip_ws ps" using assms by (auto simp: gettoken_def Let_def split: if_splits)
  moreover have "deref q \<noteq> NUL" "\<not> strchr ''|();&<'' (deref q)" "deref q \<noteq> CHR ''>''" "e = skip_word q"
    using assms q by (auto simp: gettoken_def Let_def NUL_def strchr_def split: if_splits)
  moreover obtain c t where "skip_ws ps = c # t" using calculation by (cases "skip_ws ps") (auto simp: deref_def)
  moreover have "\<not> strchr whitespace c"
    using \<open>skip_ws ps = c # t\<close> by (induction ps) (auto split: if_splits)
  ultimately show ?thesis
    using suffix_skip_ws [of ps] by (auto simp: token_def word_char_def deref_def strchr_def symbols_def)
qed

primrec tokens :: "cmd \<Rightarrow> (ptr \<times> ptr) list" where
  "tokens (EXEC argv) = argv"
| "tokens (REDIR cmd file efile mode fd) = tokens cmd @ [(file, efile)]"
| "tokens (PIPE left right) = tokens left @ tokens right"
| "tokens (LIST left right) = tokens left @ tokens right"
| "tokens (BACK cmd) = tokens cmd"

definition files_of :: "redir list \<Rightarrow> (ptr \<times> ptr) list" where
  "files_of rs = map (\<lambda>(q, eq, _). (q, eq)) rs"

lemma tokens_wrap: "tokens (wrap rs cmd) = tokens cmd @ files_of rs"
  by (induction rs arbitrary: cmd) (auto simp: wrap_def files_of_def redircmd_def)

lemma parseredirs_tokens:
  "parseredirs rs ps = Inr (rs', s) \<Longrightarrow> \<forall>t \<in> set (files_of rs). token ps0 t \<Longrightarrow> suffix ps ps0 \<Longrightarrow>
     suffix s ps0 \<and> (\<forall>t \<in> set (files_of rs'). token ps0 t)"
proof (induction rs ps rule: parseredirs.induct)
  case (1 rs ps)
  obtain found s0 where p: "peek ps ''<>'' = (found, s0)" by fastforce
  show ?case
  proof (cases found)
    case False
    then show ?thesis
      using 1(2-) p peek_suffix [OF p] suffix_order.trans
      by (auto simp: parseredirs.simps [of rs ps])
  next
    case True
    obtain tok q1 e1 s1 where g: "gettoken s0 = (tok, q1, e1, s1)" by (cases "gettoken s0")
    obtain t q eq s2 where h: "gettoken s1 = (t, q, eq, s2)" by (cases "gettoken s1")
    have a: "t = CHR ''a''" using 1(2) p g h True by (auto simp: parseredirs.simps [of rs ps] split: if_splits)
    have s1: "suffix s1 ps0"
      using gettoken_suffix(4) [OF g] peek_suffix [OF p] 1(4) suffix_order.trans by blast
    then have "token ps0 (q, eq)" using gettoken_word [of s1] h a token_suffix by blast
    then have "\<forall>t \<in> set (files_of (rs @ [(q, eq, redir_mode tok)])). token ps0 t"
      using 1(3) by (auto simp: files_of_def)
    moreover have "suffix s2 ps0" using gettoken_suffix(4) [OF h] s1 suffix_order.trans by blast
    moreover have "parseredirs (rs @ [(q, eq, redir_mode tok)]) s2 = Inr (rs', s)"
      using 1(2) p g h True a by (simp add: parseredirs.simps [of rs ps])
    ultimately show ?thesis
      using 1(1) [OF p [symmetric] refl _ g [symmetric] refl refl refl h [symmetric] refl refl] True a by blast
  qed
qed

lemma parse_args_tokens:
  "parse_args argv rs ps = Inr (argv', rs', s) \<Longrightarrow> \<forall>t \<in> set (argv @ files_of rs). token ps0 t \<Longrightarrow>
     suffix ps ps0 \<Longrightarrow> suffix s ps0 \<and> (\<forall>t \<in> set (argv' @ files_of rs'). token ps0 t)"
proof (induction argv rs ps rule: parse_args.induct)
  case (1 argv rs ps)
  obtain stop s0 where p: "peek ps ''|)&;'' = (stop, s0)" by fastforce
  obtain tok q eq s1 where g: "gettoken s0 = (tok, q, eq, s1)" by (cases "gettoken s0")
  have s0: "suffix s0 ps0" using peek_suffix [OF p] 1(4) suffix_order.trans by blast
  have s1: "suffix s1 ps0" using gettoken_suffix(4) [OF g] s0 suffix_order.trans by blast
  show ?case
  proof (cases "stop \<or> tok = NUL")
    case True
    then show ?thesis
      using 1(2,3) p g s0 s1 by (auto simp: parse_args.simps [of argv rs ps] split: if_splits)
  next
    case False
    then obtain rs1 s2 where c: "tok = CHR ''a''" "\<not> length argv + 1 \<ge> MAXARGS" "parseredirs rs s1 = Inr (rs1, s2)"
      "parse_args (argv @ [(q, eq)]) rs1 s2 = Inr (argv', rs', s)"
      using 1(2) p g by (auto simp: parse_args.simps [of argv rs ps] split: if_splits sum.splits)
    have "token ps0 (q, eq)" using gettoken_word [of s0] g c(1) token_suffix [OF _ s0] by blast
    moreover have "suffix s2 ps0 \<and> (\<forall>t \<in> set (files_of rs1). token ps0 t)"
      using parseredirs_tokens [OF c(3) _ s1] 1(3) by simp
    ultimately show ?thesis
      using 1(1) [OF p [symmetric] refl _ g [symmetric] refl refl refl _ _ _ c(3) refl c(4)] False c(1,2) 1(3) by (simp add: ball_Un)
  qed
qed

lemma parse_backs_tokens:
  "parse_backs cmd ps = (cmd', s) \<Longrightarrow> suffix s ps \<and> tokens cmd' = tokens cmd"
proof (induction cmd ps rule: parse_backs.induct)
  case (1 cmd ps)
  obtain found s0 where p: "peek ps ''&'' = (found, s0)" by fastforce
  obtain tok q e s1 where g: "gettoken s0 = (tok, q, e, s1)" by (cases "gettoken s0")
  show ?case
  proof (cases found)
    case True
    then have "parse_backs (backcmd cmd) s1 = (cmd', s)" using 1(2) p g by (simp add: parse_backs.simps [of cmd ps])
    then have "suffix s s1 \<and> tokens cmd' = tokens (backcmd cmd)"
      using 1(1) [OF p [symmetric] refl True g [symmetric] refl refl refl] by blast
    then show ?thesis
      using gettoken_suffix(4) [OF g] peek_suffix [OF p] suffix_order.trans by (fastforce simp: backcmd_def)
  qed (use 1(2) p peek_suffix [OF p] in \<open>auto simp: parse_backs.simps [of cmd ps]\<close>)
qed

text \<open>One result of a level of the parser, on what it was given: a suffix is left, and the tokens are words.\<close>

definition parsed_from :: "ptr \<Rightarrow> (cmd \<times> ptr) parsed \<Rightarrow> bool" where
  "parsed_from ps r \<longleftrightarrow> (\<forall>c s. r = Some (Inr (c, s)) \<longrightarrow> suffix s ps \<and> (\<forall>t \<in> set (tokens c). token ps t))"

lemma parsed_fromD:
  assumes "parsed_from ps r" "r = Some (Inr (c, s))" "suffix ps ps0"
  shows "suffix s ps0" "\<forall>t \<in> set (tokens c). token ps0 t"
  using assms token_suffix suffix_order.trans unfolding parsed_from_def by blast+

lemma parseline_words:
  assumes "\<And>ps. parsed_from ps (parsepipe n ps)" "\<And>ps. parsed_from ps (parseline n ps)"
  shows "parsed_from ps (parseline (Suc n) ps)"
  unfolding parsed_from_def
proof (intro allI impI)
  fix c s assume r: "parseline (Suc n) ps = Some (Inr (c, s))"
  then obtain c0 s0 where a: "parsepipe n ps = Some (Inr (c0, s0))" by (auto simp: bind_Inr)
  obtain c1 s1 where b: "parse_backs c0 s0 = (c1, s1)" by fastforce
  obtain found s2 where p: "peek s1 '';'' = (found, s2)" by fastforce
  obtain t q e s3 where g: "gettoken s2 = (t, q, e, s3)" by (cases "gettoken s2")
  note A = parsed_fromD [OF assms(1) a suffix_order.refl]
  have B: "suffix s1 ps" "\<forall>t \<in> set (tokens c1). token ps t"
    using A parse_backs_tokens [OF b] suffix_order.trans by auto
  have s2: "suffix s2 ps" using B(1) peek_suffix [OF p] suffix_order.trans by blast
  show "suffix s ps \<and> (\<forall>t \<in> set (tokens c). token ps t)"
  proof (cases found)
    case True
    with r a b p g obtain c4 where d: "parseline n s3 = Some (Inr (c4, s))" "c = listcmd c1 c4"
      by (auto simp: bind_Inr)
    have "suffix s3 ps" using gettoken_suffix(4) [OF g] s2 suffix_order.trans by blast
    from parsed_fromD [OF assms(2) d(1) this] show ?thesis using d(2) B(2) by (auto simp: listcmd_def)
  qed (use r a b p s2 B in auto)
qed

lemma parsepipe_words:
  assumes "\<And>ps. parsed_from ps (parseexec n ps)" "\<And>ps. parsed_from ps (parsepipe n ps)"
  shows "parsed_from ps (parsepipe (Suc n) ps)"
  unfolding parsed_from_def
proof (intro allI impI)
  fix c s assume r: "parsepipe (Suc n) ps = Some (Inr (c, s))"
  then obtain c0 s0 where a: "parseexec n ps = Some (Inr (c0, s0))" by (auto simp: bind_Inr)
  obtain found s2 where p: "peek s0 ''|'' = (found, s2)" by fastforce
  obtain t q e s3 where g: "gettoken s2 = (t, q, e, s3)" by (cases "gettoken s2")
  note A = parsed_fromD [OF assms(1) a suffix_order.refl]
  have s2: "suffix s2 ps" using A(1) peek_suffix [OF p] suffix_order.trans by blast
  show "suffix s ps \<and> (\<forall>t \<in> set (tokens c). token ps t)"
  proof (cases found)
    case True
    with r a p g obtain c4 where d: "parsepipe n s3 = Some (Inr (c4, s))" "c = pipecmd c0 c4"
      by (auto simp: bind_Inr)
    have "suffix s3 ps" using gettoken_suffix(4) [OF g] s2 suffix_order.trans by blast
    from parsed_fromD [OF assms(2) d(1) this] show ?thesis using d(2) A(2) by (auto simp: pipecmd_def)
  qed (use r a p s2 A in auto)
qed

lemma parseexec_words:
  assumes "\<And>ps. parsed_from ps (parseblock n ps)"
  shows "parsed_from ps (parseexec (Suc n) ps)"
proof -
  obtain found s0 where p: "peek ps ''('' = (found, s0)" by fastforce
  have s0: "suffix s0 ps" by (rule peek_suffix [OF p])
  show ?thesis
  proof (cases found)
    case True
    then show ?thesis
      using p parsed_fromD [OF assms(1) _ s0] by (auto simp: parsed_from_def)
  next
    case False
    show ?thesis
      unfolding parsed_from_def
    proof (intro allI impI)
      fix c s assume "parseexec (Suc n) ps = Some (Inr (c, s))"
      with p False obtain rs s1 argv rs' where d: "parseredirs [] s0 = Inr (rs, s1)"
        "parse_args [] rs s1 = Inr (argv, rs', s)" "c = wrap rs' (EXEC argv)"
        by (auto simp: bind_Inr)
      have "suffix s1 ps \<and> (\<forall>t \<in> set (files_of rs). token ps t)"
        using parseredirs_tokens [OF d(1) _ s0] by (simp add: files_of_def)
      then show "suffix s ps \<and> (\<forall>t \<in> set (tokens c). token ps t)"
        using parse_args_tokens [OF d(2), of ps] by (simp add: d(3) tokens_wrap)
    qed
  qed
qed

lemma parseblock_words:
  assumes "\<And>ps. parsed_from ps (parseline n ps)"
  shows "parsed_from ps (parseblock (Suc n) ps)"
proof -
  obtain found s0 where p: "peek ps ''('' = (found, s0)" by fastforce
  obtain t q e s1 where g: "gettoken s0 = (t, q, e, s1)" by (cases "gettoken s0")
  have s1: "suffix s1 ps"
    using gettoken_suffix(4) [OF g] peek_suffix [OF p] suffix_order.trans by blast
  show ?thesis
    unfolding parsed_from_def
  proof (intro allI impI)
    fix c s assume r: "parseblock (Suc n) ps = Some (Inr (c, s))"
    then have found: "found" using p by (auto split: if_splits)
    with r p g obtain c1 s2 where a: "parseline n s1 = Some (Inr (c1, s2))" by (auto simp: bind_Inr)
    obtain f2 s3 where p2: "peek s2 '')'' = (f2, s3)" by fastforce
    obtain t2 q2 e2 s4 where g2: "gettoken s3 = (t2, q2, e2, s4)" by (cases "gettoken s3")
    from r p g a p2 g2 found obtain rs where d: "parseredirs [] s4 = Inr (rs, s)" "c = wrap rs c1"
      by (auto simp: bind_Inr split: if_splits)
    note A = parsed_fromD [OF assms(1) a s1]
    have "suffix s4 ps"
      using A(1) peek_suffix [OF p2] gettoken_suffix(4) [OF g2] suffix_order.trans by blast
    then have "suffix s ps \<and> (\<forall>t \<in> set (files_of rs). token ps t)"
      using parseredirs_tokens [OF d(1)] by (simp add: files_of_def)
    then show "suffix s ps \<and> (\<forall>t \<in> set (tokens c). token ps t)" using A(2) by (auto simp: d(2) tokens_wrap)
  qed
qed

lemma parse_words:
  "parsed_from ps (parseline n ps)" "parsed_from ps (parsepipe n ps)"
  "parsed_from ps (parseexec n ps)" "parsed_from ps (parseblock n ps)"
proof (induction n arbitrary: ps)
  case 0
  { case 1 show ?case by (simp add: parsed_from_def) next
    case 2 show ?case by (simp add: parsed_from_def) next
    case 3 show ?case by (simp add: parsed_from_def) next
    case 4 show ?case by (simp add: parsed_from_def) }
next
  case (Suc n)
  { case 1 show ?case using Suc.IH(2,1) by (rule parseline_words) next
    case 2 show ?case using Suc.IH(3,2) by (rule parsepipe_words) next
    case 3 show ?case using Suc.IH(4) by (rule parseexec_words) next
    case 4 show ?case using Suc.IH(1) by (rule parseblock_words) }
qed

text \<open>Fuel: each level passes on enough when it has enough.\<close>

lemma parse_enough:
  "4 * length ps + 4 \<le> n \<Longrightarrow> parseline n ps \<noteq> None"
  "4 * length ps + 3 \<le> n \<Longrightarrow> parsepipe n ps \<noteq> None"
  "4 * length ps + 2 \<le> n \<Longrightarrow> parseexec n ps \<noteq> None"
  "4 * length ps + 1 \<le> n \<Longrightarrow> parseblock n ps \<noteq> None"
proof (induction n arbitrary: ps)
  case (Suc n)
  have less: "length s2 < length ps"
    if "parsed_from ps (Some (Inr (c, s0)))" "suffix s s0" "peek s [x] = (True, s1)" "x \<notin> {NUL, CHR ''a''}"
      "gettoken s1 = (t, q, e, s2)" for ps c s0 s s1 x t q e s2
    using that peek_found(2) [OF that(3,5)] by (auto simp: parsed_from_def dest!: suffix_length_le)
  {
    case 1
    then have "parsepipe n ps \<noteq> None" by (intro Suc.IH(2)) simp
    moreover have "parseline n s2 \<noteq> None"
      if c: "parsepipe n ps = Some (Inr (c, s0))" "parse_backs c s0 = (c', s)" "peek s '';'' = (True, s1)"
        "gettoken s1 = (t, q, e, s2)" for c s0 c' s s1 t q e s2
    proof (rule Suc.IH(1))
      have "length s2 < length ps"
        by (rule less [of ps c s0 s "CHR '';''" s1 t q e s2])
          (use c parse_words(2) [of ps n] parse_backs_tokens [OF c(2)] c(1) in \<open>auto simp: NUL_def\<close>)
      then show "4 * length s2 + 4 \<le> n" using 1 by simp
    qed
    ultimately show ?case
      by (auto simp: bind_None Let_def simp del: not_None_eq split: prod.splits if_splits)
  next
    case 2
    then have "parseexec n ps \<noteq> None" by (intro Suc.IH(3)) simp
    moreover have "parsepipe n s2 \<noteq> None"
      if c: "parseexec n ps = Some (Inr (c, s0))" "peek s0 ''|'' = (True, s1)" "gettoken s1 = (t, q, e, s2)"
      for c s0 s1 t q e s2
    proof (rule Suc.IH(2))
      have "length s2 < length ps"
        by (rule less [of ps c s0 s0 "CHR ''|''" s1 t q e s2])
          (use c parse_words(3) [of ps n] c(1) in \<open>auto simp: NUL_def\<close>)
      then show "4 * length s2 + 3 \<le> n" using 2 by simp
    qed
    ultimately show ?case
      by (auto simp: bind_None Let_def simp del: not_None_eq split: prod.splits if_splits)
  next
    case 3
    have "parseblock n s \<noteq> None" if "peek ps ''('' = (True, s)" for s
      using Suc.IH(4) [of s] peek_le [OF that] 3 by simp
    then show ?case by (auto simp: bind_None simp del: not_None_eq split: prod.splits)
  next
    case 4
    have "parseline n s1 \<noteq> None" if "peek ps ''('' = (True, s)" "gettoken s = (t, q, e, s1)" for s t q e s1
      using Suc.IH(1) [of s1] peek_found(2) [OF that] 4 by (simp add: NUL_def)
    then show ?case by (auto simp: bind_None Let_def simp del: not_None_eq split: prod.splits if_splits)
  }
qed simp_all

lemma parsecmd_returns: "parsecmd s \<noteq> None"
  using parse_enough(1) [of s "enough_fuel s"]
  by (auto simp: parsecmd_def bind_None enough_fuel_def split: prod.splits)

section \<open>Strings of the command\<close>

text \<open>Writing the NULs is writing at a set of places.\<close>

definition nuls :: "string \<Rightarrow> ptr list \<Rightarrow> string" where
  "nuls buf ps = map (\<lambda>i. if \<exists>p \<in> set ps. i = length buf - length p then NUL else buf ! i) [0..<length buf]"

lemma nuls_Nil: "nuls buf [] = buf"
  by (simp add: nuls_def map_nth)

lemma length_nuls [simp]: "length (nuls buf ps) = length buf"
  by (simp add: nuls_def)

lemma nth_update: "j < length xs \<Longrightarrow> xs[i := x] ! j = (if i = j then x else xs ! j)"
  by (cases "i < length xs") auto

lemma put_nul_nuls: "put_nul p (nuls buf ps) = nuls buf (ps @ [p])"
  by (rule nth_equalityI) (auto simp: put_nul_def nuls_def nth_update)

lemma fold_put_nul: "fold (\<lambda>(q, eq). put_nul eq) ts (nuls buf ps) = nuls buf (ps @ map snd ts)"
  by (induction ts arbitrary: ps) (auto simp: put_nul_nuls)

lemma nulterminate_nuls: "nulterminate c (nuls buf ps) = nuls buf (ps @ map snd (tokens c))"
  by (induction c arbitrary: ps) (auto simp: fold_put_nul put_nul_nuls)

definition word :: "ptr \<Rightarrow> string" where
  "word q = takeWhile word_char q"

lemma skip_word_chars: "NUL \<notin> set q \<Longrightarrow> skip_word q = drop (length (word q)) q"
  by (induction q) (auto simp: word_def word_char_def)

lemma suffix_drop: "suffix q buf \<Longrightarrow> q = drop (length buf - length q) buf"
  by (auto simp: suffix_def)

text \<open>Every argument and file name reads as its word in the line with the NULs of all of them.\<close>

lemma cstring_token:
  assumes "NUL \<notin> set buf" "\<forall>t \<in> set ts. token buf t" "(q, eq) \<in> set ts"
  shows "cstring (nuls buf (map snd ts)) q = word q"
proof -
  define k where "k = length buf - length q"
  have t: "suffix q buf" "eq = skip_word q" using assms by (auto simp: token_def)
  have q: "q = drop k buf" "NUL \<notin> set q"
    using suffix_drop [OF t(1)] set_mono_suffix [OF t(1)] assms(1) by (auto simp: k_def)
  have k: "k + length q = length buf" using suffix_length_le [OF t(1)] by (simp add: k_def)
  let ?w = "word q" and ?b = "nuls buf (map snd ts)"
  have le: "length ?w \<le> length q" by (simp add: word_def length_takeWhile_le)
  have inside: "?b ! (k + i) = ?w ! i" if i: "i < length ?w" for i
  proof -
    have wc: "word_char (buf ! (k + i))" "?w ! i = buf ! (k + i)"
      using nth_mem [OF i] i q(1) k le takeWhile_nth [of i word_char q]
      by (auto simp: word_def dest: set_takeWhileD)
    have "k + i \<noteq> length buf - length p" if p_in: "p \<in> snd ` set ts" for p
    proof
      assume e: "k + i = length buf - length p"
      obtain q' where "(q', p) \<in> set ts" using p_in by force
      then have q': "token buf (q', p)" using assms(2) by blast
      have p: "p = drop (k + i) buf" "p = skip_word q'" "NUL \<notin> set q'"
        using q' suffix_drop [of p buf] e suffix_order.trans [OF suffix_skip_word [of q']] assms(1)
          set_mono_suffix [of q' buf]
        by (auto simp: token_def)
      have "k + i < length buf" using i le k by simp
      then have "p = buf ! (k + i) # drop (Suc (k + i)) buf" using p(1) by (simp add: Cons_nth_drop_Suc)
      moreover have "p = [] \<or> \<not> word_char (hd p)"
        unfolding p(2) by (induction q') (auto simp: word_char_def)
      ultimately show False using wc(1) by simp
    qed
    then show ?thesis using i le k wc(2) by (auto simp: nuls_def)
  qed
  have stop: "?b ! (k + length ?w) = NUL" if "length ?w < length q"
  proof -
    have "length eq = length q - length ?w" using t(2) skip_word_chars [OF q(2)] by simp
    then have "k + length ?w = length buf - length eq" using k le by (simp add: k_def)
    then show ?thesis using that k assms(3) by (force simp: nuls_def)
  qed
  have "drop k ?b = ?w @ drop (k + length ?w) ?b"
    using inside le k by (intro nth_equalityI) (auto simp: nth_append)
  moreover have "drop (k + length ?w) ?b = [] \<or> hd (drop (k + length ?w) ?b) = NUL"
    using stop k le by (cases "length ?w < length q") (auto simp: hd_drop_conv_nth)
  moreover have "NUL \<notin> set ?w" by (auto simp: word_def word_char_def dest: set_takeWhileD)
  ultimately show ?thesis
    using k by (cases "drop (k + length ?w) ?b") (auto simp: cstring_def k_def takeWhile_append)
qed

text \<open>
  The parser always returns, and every argument and file name of the tree it returns reads, in the
  line \<open>nulterminate\<close> has written into, as a word of the line: the NUL that ends one string never
  falls into another.
\<close>

theorem arguments_are_words:
  assumes "NUL \<notin> set line"
  shows "case parsecmd line of
      None \<Rightarrow> False
    | Some (Inl e) \<Rightarrow> True
    | Some (Inr (c, buf)) \<Rightarrow> \<forall>(q, eq) \<in> set (tokens c).
        suffix q line \<and> cstring buf q = word q \<and> word q \<noteq> [] \<and> q = word q @ eq"
proof -
  have "(\<forall>t \<in> set (tokens c). token line t) \<and> buf = nuls line (map snd (tokens c))"
    if r: "parsecmd line = Some (Inr (c, buf))" for c buf
  proof -
    obtain p where "parseline (enough_fuel line) line = Some (Inr (c, p))" "buf = nulterminate c line"
      using r by (auto simp: parsecmd_def bind_Inr peek_def Let_def split: if_splits)
    then show ?thesis
      using parse_words(1) [of line "enough_fuel line"] nulterminate_nuls [of c line "[]"]
      by (simp add: parsed_from_def nuls_Nil)
  qed
  moreover have "suffix q line \<and> cstring (nuls line (map snd ts)) q = word q \<and> word q \<noteq> [] \<and> q = word q @ eq"
    if "\<forall>t \<in> set ts. token line t" "(q, eq) \<in> set ts" for ts q eq
  proof -
    have t: "token line (q, eq)" using that by blast
    then have "NUL \<notin> set q" using assms set_mono_suffix [of q line] by (auto simp: token_def)
    then have "word q @ eq = q"
      using t skip_word_chars [of q] append_take_drop_id [of "length (word q)" q]
        takeWhile_eq_take [of word_char q] by (simp add: token_def word_def)
    moreover have "word q \<noteq> []" using t by (cases q) (auto simp: token_def word_def)
    ultimately show ?thesis
      using cstring_token [OF assms that] t by (simp add: token_def)
  qed
  ultimately show ?thesis
    using parsecmd_returns [of line] by (auto split: option.splits sum.splits)
qed

theorem arguments_are_words_witness:
  "\<exists>c buf. parsecmd ''a>f b'' = Some (Inr (c, buf)) \<and> buf = [CHR ''a'', NUL, CHR ''f'', NUL, CHR ''b''] \<and>
     (\<forall>(q, eq) \<in> set (tokens c). cstring buf q = word q)"
proof -
  obtain c buf where c: "parsecmd ''a>f b'' = Some (Inr (c, buf))"
    "buf = [CHR ''a'', NUL, CHR ''f'', NUL, CHR ''b'']"
  proof -
    have "\<exists>c. parsecmd ''a>f b'' = Some (Inr (c, [CHR ''a'', NUL, CHR ''f'', NUL, CHR ''b'']))"
      by (rule exI [of _ "REDIR (EXEC [(''a>f b'', ''>f b''), (''b'', [])]) ''f b'' '' b'' 1537 1"]) code_simp
    then show ?thesis using that by blast
  qed
  have "NUL \<notin> set ''a>f b''" by (simp add: NUL_def)
  from arguments_are_words [OF this] show ?thesis using c by auto
qed

section \<open>Printing and parsing\<close>

text \<open>
  Commands as trees of words, and how they are written: pipelines and lists nest to the right, and a
  command is put into parentheses only where its form would not be allowed.
\<close>

datatype tree = Exec "string list" | Redir tree string char | Pipe tree tree | List tree tree | Back tree

primrec rank :: "tree \<Rightarrow> nat" where
  "rank (Exec ws) = 0"
| "rank (Redir t w k) = 0"
| "rank (Pipe a b) = 1"
| "rank (Back a) = 2"
| "rank (List a b) = 3"

definition paren :: "nat \<Rightarrow> tree \<Rightarrow> string \<Rightarrow> string" where
  "paren k t s = (if rank t \<le> k then s else ''('' @ s @ '')'')"

definition redir_text :: "char \<Rightarrow> string \<Rightarrow> string" where
  "redir_text k w = (if k = CHR ''+'' then ''>>'' else [k]) @ w @ '' ''"

definition words_text :: "string list \<Rightarrow> string" where
  "words_text ws = concat (map (\<lambda>w. w @ '' '') ws)"

primrec text_of :: "tree \<Rightarrow> string" where
  "text_of (Exec ws) = words_text ws"
| "text_of (Redir t w k) = paren 0 t (text_of t) @ redir_text k w"
| "text_of (Pipe a b) = paren 0 a (text_of a) @ ''|'' @ paren 1 b (text_of b)"
| "text_of (Back a) = paren 2 a (text_of a) @ ''&''"
| "text_of (List a b) = paren 2 a (text_of a) @ '';'' @ paren 3 b (text_of b)"

definition word_ok :: "string \<Rightarrow> bool" where
  "word_ok w \<longleftrightarrow> w \<noteq> [] \<and> (\<forall>c \<in> set w. word_char c)"

primrec tree_ok :: "tree \<Rightarrow> bool" where
  "tree_ok (Exec ws) \<longleftrightarrow> (\<forall>w \<in> set ws. word_ok w) \<and> length ws < MAXARGS"
| "tree_ok (Redir t w k) \<longleftrightarrow> tree_ok t \<and> word_ok w \<and> k \<in> {CHR ''<'', CHR ''>'', CHR ''+''}"
| "tree_ok (Pipe a b) \<longleftrightarrow> tree_ok a \<and> tree_ok b"
| "tree_ok (Back a) \<longleftrightarrow> tree_ok a"
| "tree_ok (List a b) \<longleftrightarrow> tree_ok a \<and> tree_ok b"

text \<open>The mode and the file number a redirection sign stands for.\<close>

definition meaning :: "char \<Rightarrow> int \<times> int" where
  "meaning k =
     (if k = CHR ''<'' then (O_RDONLY, 0)
      else (O_WRONLY + O_CREATE + (if k = CHR ''>'' then O_TRUNC else 0), 1))"

lemma redir_mode_meaning: "redir_mode k = meaning k"
  by (simp add: redir_mode_def meaning_def)

text \<open>The command tree \<open>c\<close> is the tree \<open>t\<close> when its pointers are read by \<open>rd\<close>.\<close>

fun reads :: "(ptr \<Rightarrow> string) \<Rightarrow> cmd \<Rightarrow> tree \<Rightarrow> bool" where
  "reads rd (EXEC argv) (Exec ws) \<longleftrightarrow> map (rd \<circ> fst) argv = ws"
| "reads rd (REDIR c q eq mode fd) (Redir t w k) \<longleftrightarrow> reads rd c t \<and> rd q = w \<and> (mode, fd) = meaning k"
| "reads rd (PIPE a b) (Pipe s t) \<longleftrightarrow> reads rd a s \<and> reads rd b t"
| "reads rd (LIST a b) (List s t) \<longleftrightarrow> reads rd a s \<and> reads rd b t"
| "reads rd (BACK a) (Back s) \<longleftrightarrow> reads rd a s"
| "reads rd _ _ \<longleftrightarrow> False"

text \<open>More fuel does not change a result.\<close>

lemma bind_mono:
  "bind m f = Some r \<Longrightarrow> (\<And>x. m = Some x \<Longrightarrow> m' = Some x) \<Longrightarrow>
     (\<And>x y. m = Some (Inr x) \<Longrightarrow> f x = Some y \<Longrightarrow> f' x = Some y) \<Longrightarrow> bind m' f' = Some r"
  by (auto simp: bind_def split: option.splits sum.splits)

lemmas parse_unfold = parseline.simps(2) parsepipe.simps(2) parseexec.simps(2) parseblock.simps(2)

lemma parse_mono_Suc:
  "parseline n ps = Some r1 \<Longrightarrow> parseline (Suc n) ps = Some r1"
  "parsepipe n ps = Some r2 \<Longrightarrow> parsepipe (Suc n) ps = Some r2"
  "parseexec n ps = Some r3 \<Longrightarrow> parseexec (Suc n) ps = Some r3"
  "parseblock n ps = Some r4 \<Longrightarrow> parseblock (Suc n) ps = Some r4"
proof (induction n arbitrary: ps r1 r2 r3 r4)
  case (Suc n)
  {
    case 1
    show ?case
      by (subst parseline.simps(2), rule bind_mono [OF 1 [unfolded parseline.simps(2)]])
        (auto simp: Let_def simp del: parse_unfold intro: Suc.IH elim!: bind_mono split: prod.splits if_splits)
  next
    case 2
    show ?case
      by (subst parsepipe.simps(2), rule bind_mono [OF 2 [unfolded parsepipe.simps(2)]])
        (auto simp: Let_def simp del: parse_unfold intro: Suc.IH elim!: bind_mono split: prod.splits if_splits)
  next
    case 3
    show ?case
      using 3 [unfolded parseexec.simps(2)]
      by (subst parseexec.simps(2)) (auto simp: Let_def simp del: parse_unfold intro: Suc.IH split: prod.splits if_splits)
  next
    case 4
    show ?case
      using 4 [unfolded parseblock.simps(2)]
      by (subst parseblock.simps(2)) (auto simp: Let_def simp del: parse_unfold intro: Suc.IH elim!: bind_mono split: prod.splits if_splits)
  }
qed simp_all

lemma parse_mono:
  assumes "n \<le> m"
  shows "parseline n ps = Some r1 \<Longrightarrow> parseline m ps = Some r1"
    "parsepipe n ps = Some r2 \<Longrightarrow> parsepipe m ps = Some r2"
    "parseexec n ps = Some r3 \<Longrightarrow> parseexec m ps = Some r3"
  using assms by (induction rule: inc_induct) (auto dest: parse_mono_Suc)

text \<open>White space in front does not matter.\<close>

lemma peek_skip_ws [simp]: "peek (skip_ws s) toks = peek s toks"
  by (simp add: peek_def)

lemma parse_skip_ws [simp]:
  "parseblock n (skip_ws s) = parseblock n s" "parseexec n (skip_ws s) = parseexec n s"
  "parsepipe n (skip_ws s) = parsepipe n s" "parseline n (skip_ws s) = parseline n s"
  "parse_args argv rs (skip_ws s) = parse_args argv rs s" "parseredirs rs (skip_ws s) = parseredirs rs s"
  "parse_backs c (skip_ws s) = parse_backs c s"
proof -
  show b: "parseblock n (skip_ws s) = parseblock n s" for n by (cases n) simp_all
  show e: "parseexec n (skip_ws s) = parseexec n s" for n by (cases n) (simp_all add: b)
  show p: "parsepipe n (skip_ws s) = parsepipe n s" for n by (cases n) (simp_all add: e)
  show "parseline n (skip_ws s) = parseline n s" by (cases n) (simp_all add: p)
qed (simp_all add: parse_args.simps [of argv rs] parseredirs.simps [of rs] parse_backs.simps [of c])

text \<open>The text of words and redirections, read from the front.\<close>

definition stops :: "string \<Rightarrow> ptr \<Rightarrow> bool" where
  "stops cs s \<longleftrightarrow> deref (skip_ws s) = NUL \<or> deref (skip_ws s) \<in> set cs"

lemma peek_simp: "peek s toks = (deref (skip_ws s) \<noteq> NUL \<and> deref (skip_ws s) \<in> set toks, skip_ws s)"
  by (simp add: peek_def strchr_def Let_def)

lemma word_ok_skip:
  "word_ok w \<Longrightarrow> skip_ws (w @ r) = w @ r" "word_ok w \<Longrightarrow> deref (w @ r) = hd w"
  "word_ok w \<Longrightarrow> word_char (hd w)"
  by (cases w; auto simp: word_ok_def word_char_def deref_def)+

lemma skip_word_text: "\<forall>c \<in> set w. word_char c \<Longrightarrow> skip_word (w @ CHR '' '' # r) = CHR '' '' # r"
  by (induction w) (auto simp: word_char_def strchr_def whitespace_def)

lemma word_text: "word_ok w \<Longrightarrow> word (w @ CHR '' '' # r) = w"
  by (auto simp: word_def word_ok_def word_char_def strchr_def whitespace_def)

lemma hd_word_not:
  "word_ok w \<Longrightarrow> hd w \<notin> {NUL, CHR ''<'', CHR ''>'', CHR ''|'', CHR ''&'', CHR '';'', CHR ''('', CHR '')''}"
  using word_ok_skip(3) [of w] by (auto simp: word_char_def strchr_def symbols_def)

lemma skip_ws_space: "skip_ws (CHR '' '' # r) = skip_ws r"
  by (simp add: strchr_def whitespace_def)

lemma gettoken_text:
  assumes "word_ok w"
  shows "gettoken (w @ CHR '' '' # r) = (CHR ''a'', w @ CHR '' '' # r, CHR '' '' # r, skip_ws r)"
proof -
  let ?q = "w @ CHR '' '' # r"
  have q: "skip_ws ?q = ?q" "deref ?q = hd w" "skip_word ?q = CHR '' '' # r"
    using word_ok_skip [OF assms] assms by (simp_all add: skip_word_text word_ok_def)
  have "hd w \<noteq> NUL" "\<not> strchr ''|();&<'' (hd w)" "hd w \<noteq> CHR ''>''"
    using hd_word_not [OF assms] by (simp_all add: strchr_def)
  then show ?thesis unfolding gettoken_def Let_def q by (simp add: q skip_ws_space del: skip_ws.simps)
qed

lemma gettoken_symbol:
  "gettoken (CHR ''|'' # r) = (CHR ''|'', CHR ''|'' # r, r, skip_ws r)"
  "gettoken (CHR ''&'' # r) = (CHR ''&'', CHR ''&'' # r, r, skip_ws r)"
  "gettoken (CHR '';'' # r) = (CHR '';'', CHR '';'' # r, r, skip_ws r)"
  "gettoken (CHR ''('' # r) = (CHR ''('', CHR ''('' # r, r, skip_ws r)"
  "gettoken (CHR '')'' # r) = (CHR '')'', CHR '')'' # r, r, skip_ws r)"
  by (simp_all add: gettoken_def Let_def strchr_def whitespace_def deref_def NUL_def)

lemma gettoken_redir:
  assumes "k \<in> {CHR ''<'', CHR ''>'', CHR ''+''}" "word_ok w"
  shows "\<exists>q e. gettoken (redir_text k w @ r) = (k, q, e, w @ CHR '' '' # r)"
    "peek (redir_text k w @ r) ''<>'' = (True, redir_text k w @ r)"
proof -
  let ?q = "w @ CHR '' '' # r"
  have w: "deref ?q \<noteq> CHR ''>''" "skip_ws ?q = ?q"
    using hd_word_not [OF assms(2)] word_ok_skip [OF assms(2)] by simp_all
  have "gettoken (CHR ''<'' # ?q) = (CHR ''<'', CHR ''<'' # ?q, ?q, ?q)"
    "gettoken (CHR ''>'' # ?q) = (CHR ''>'', CHR ''>'' # ?q, ?q, ?q)"
    "gettoken (CHR ''>'' # CHR ''>'' # ?q) = (CHR ''+'', CHR ''>'' # CHR ''>'' # ?q, ?q, ?q)"
    unfolding gettoken_def Let_def using w
    by (simp_all add: strchr_def whitespace_def NUL_def deref_def [of "_ # _"])
  then show "\<exists>q e. gettoken (redir_text k w @ r) = (k, q, e, w @ CHR '' '' # r)"
    using assms(1) by (auto simp: redir_text_def)
  show "peek (redir_text k w @ r) ''<>'' = (True, redir_text k w @ r)"
    using assms(1) by (auto simp: peek_simp redir_text_def strchr_def whitespace_def deref_def NUL_def)
qed

definition redirs_text :: "(char \<times> string) list \<Rightarrow> string" where
  "redirs_text rl = concat (map (\<lambda>(k, w). redir_text k w) rl)"

definition redirs_ok :: "(char \<times> string) list \<Rightarrow> bool" where
  "redirs_ok rl \<longleftrightarrow> (\<forall>(k, w) \<in> set rl. k \<in> {CHR ''<'', CHR ''>'', CHR ''+''} \<and> word_ok w)"

definition reads_redirs :: "redir list \<Rightarrow> (char \<times> string) list \<Rightarrow> bool" where
  "reads_redirs rs rl \<longleftrightarrow> map (\<lambda>(q, eq, m). (m, word q)) rs = map (\<lambda>(k, w). (redir_mode k, w)) rl"

lemma parseredirs_none:
  "deref (skip_ws s) \<notin> {CHR ''<'', CHR ''>''} \<Longrightarrow> parseredirs rs s = Inr (rs, skip_ws s)"
  by (simp add: parseredirs.simps [of rs s] peek_simp)

lemma parseredirs_text:
  "redirs_ok rl \<Longrightarrow> deref (skip_ws rest) \<notin> {CHR ''<'', CHR ''>''} \<Longrightarrow>
     \<exists>rs'. parseredirs rs (redirs_text rl @ rest) = Inr (rs @ rs', skip_ws rest) \<and> reads_redirs rs' rl"
proof (induction rl arbitrary: rs)
  case Nil
  then show ?case by (simp add: redirs_text_def parseredirs_none reads_redirs_def)
next
  case (Cons kw rl)
  obtain k w where kw: "kw = (k, w)" "k \<in> {CHR ''<'', CHR ''>'', CHR ''+''}" "word_ok w"
    using Cons.prems(1) by (cases kw) (auto simp: redirs_ok_def)
  let ?r = "redirs_text rl @ rest"
  have tx: "redirs_text (kw # rl) @ rest = redir_text k w @ ?r" by (simp add: redirs_text_def kw(1))
  obtain q e where g: "gettoken (redir_text k w @ ?r) = (k, q, e, w @ CHR '' '' # ?r)"
    using gettoken_redir(1) [OF kw(2,3)] by blast
  let ?one = "(w @ CHR '' '' # ?r, CHR '' '' # ?r, redir_mode k)"
  have "redirs_ok rl" using Cons.prems(1) by (simp add: redirs_ok_def)
  from Cons.IH [OF this Cons.prems(2), of "rs @ [?one]"]
  obtain rs' where i: "parseredirs (rs @ [?one]) ?r = Inr ((rs @ [?one]) @ rs', skip_ws rest)" "reads_redirs rs' rl"
    by blast
  have "parseredirs rs (redirs_text (kw # rl) @ rest) = parseredirs (rs @ [?one]) ?r"
    unfolding tx using gettoken_redir(2) [OF kw(2,3), of ?r] g gettoken_text [OF kw(3)]
    by (simp add: parseredirs.simps [of rs "redir_text k w @ ?r"])
  then show ?case
    using i kw word_text [OF kw(3)] by (intro exI [of _ "?one # rs'"]) (simp add: reads_redirs_def)
qed

lemma parse_args_stop:
  assumes "stops ''|)&;'' rest"
  shows "\<exists>s. parse_args argv rs rest = Inr (argv, rs, s) \<and> skip_ws s = skip_ws rest"
proof (cases "deref (skip_ws rest) = NUL")
  case True
  then have "gettoken (skip_ws rest) = (NUL, skip_ws rest, skip_ws rest, skip_ws rest)"
    by (simp add: gettoken_def Let_def)
  then show ?thesis using True by (simp add: parse_args.simps [of argv rs rest] peek_simp)
next
  case False
  then show ?thesis using assms by (simp add: parse_args.simps [of argv rs rest] peek_simp stops_def)
qed

lemma stops_redir: "stops cs s \<Longrightarrow> set cs \<inter> {CHR ''<'', CHR ''>''} = {} \<Longrightarrow>
    deref (skip_ws s) \<notin> {CHR ''<'', CHR ''>''}"
  by (auto simp: stops_def NUL_def)

lemma parse_args_text:
  "\<forall>w \<in> set ws. word_ok w \<Longrightarrow> ws \<noteq> [] \<Longrightarrow> length argv + length ws < MAXARGS \<Longrightarrow> redirs_ok rl \<Longrightarrow>
     stops ''|)&;'' rest \<Longrightarrow>
     \<exists>argv' rs' s. parse_args argv rs (words_text ws @ redirs_text rl @ rest) = Inr (argv @ argv', rs @ rs', s) \<and>
       map (word \<circ> fst) argv' = ws \<and> reads_redirs rs' rl \<and> skip_ws s = skip_ws rest"
proof (induction ws arbitrary: argv)
  case (Cons w ws)
  let ?r = "words_text ws @ redirs_text rl @ rest"
  have w: "word_ok w" using Cons.prems(1) by simp
  have tx: "words_text (w # ws) @ redirs_text rl @ rest = w @ CHR '' '' # ?r" by (simp add: words_text_def)
  have step: "parse_args argv rs (w @ CHR '' '' # ?r) =
    (case parseredirs rs ?r of Inl e \<Rightarrow> Inl e
     | Inr (rs', s2) \<Rightarrow> parse_args (argv @ [(w @ CHR '' '' # ?r, CHR '' '' # ?r)]) rs' s2)"
    using hd_word_not [OF w] Cons.prems(3) gettoken_text [OF w, of ?r]
    by (simp add: parse_args.simps [of argv rs "w @ CHR '' '' # ?r"] peek_simp word_ok_skip [OF w] NUL_def)
  have nr: "deref (skip_ws rest) \<notin> {CHR ''<'', CHR ''>''}" using stops_redir [OF Cons.prems(5)] by simp
  show ?case
  proof (cases "ws = []")
    case True
    obtain rs' where r: "parseredirs rs (redirs_text rl @ rest) = Inr (rs @ rs', skip_ws rest)" "reads_redirs rs' rl"
      using parseredirs_text [OF Cons.prems(4) nr] by blast
    obtain s where "parse_args (argv @ [(w @ CHR '' '' # ?r, CHR '' '' # ?r)]) (rs @ rs') rest =
        Inr (argv @ [(w @ CHR '' '' # ?r, CHR '' '' # ?r)], rs @ rs', s)" "skip_ws s = skip_ws rest"
      using parse_args_stop [OF Cons.prems(5)] by blast
    then show ?thesis
      unfolding tx step using r True word_text [OF w] by (simp add: words_text_def)
  next
    case False
    then obtain v vs where v: "ws = v # vs" "word_ok v" using Cons.prems(1) by (cases ws) auto
    then have "?r = v @ (CHR '' '' # words_text vs @ redirs_text rl @ rest)" by (simp add: words_text_def)
    then have "skip_ws ?r = ?r" "deref ?r = hd v" using word_ok_skip [OF v(2)] by simp_all
    then have n: "parseredirs rs ?r = Inr (rs, ?r)" using parseredirs_none [of ?r rs] hd_word_not [OF v(2)] by simp
    obtain argv' rs' s where i: "parse_args (argv @ [(w @ CHR '' '' # ?r, CHR '' '' # ?r)]) rs ?r =
        Inr ((argv @ [(w @ CHR '' '' # ?r, CHR '' '' # ?r)]) @ argv', rs @ rs', s)"
      "map (word \<circ> fst) argv' = ws" "reads_redirs rs' rl" "skip_ws s = skip_ws rest"
      using Cons.IH [of "argv @ [(w @ CHR '' '' # ?r, CHR '' '' # ?r)]"] False Cons.prems by auto
    then show ?thesis
      unfolding tx step n using word_text [OF w, of ?r]
      by (intro exI [of _ "(w @ CHR '' '' # ?r, CHR '' '' # ?r) # argv'"] exI [of _ rs'] exI [of _ s])
        (simp add: comp_def)
  qed
qed simp

text \<open>
  What the levels of the parser do with a tree's text, whatever follows it that ends the level. The
  loop for ampersands goes on after the tree's own, so its level is stated with what it has left.
\<close>

definition add_redirs :: "tree \<Rightarrow> (char \<times> string) list \<Rightarrow> tree" where
  "add_redirs t rl = foldl (\<lambda>t (k, w). Redir t w k) t rl"

definition result :: "(cmd \<times> ptr) parsed \<Rightarrow> tree \<Rightarrow> ptr \<Rightarrow> bool" where
  "result r t rest \<longleftrightarrow> (\<exists>c s. r = Some (Inr (c, s)) \<and> reads word c t \<and> skip_ws s = skip_ws rest)"

definition exec_level :: "tree \<Rightarrow> bool" where
  "exec_level t \<longleftrightarrow> (\<forall>rl rest. redirs_ok rl \<and> stops ''|)&;'' rest \<longrightarrow>
     (\<exists>n. result (parseexec n (paren 0 t (text_of t) @ redirs_text rl @ rest)) (add_redirs t rl) rest))"

definition pipe_level :: "tree \<Rightarrow> bool" where
  "pipe_level t \<longleftrightarrow> (\<forall>rest. stops '')&;'' rest \<longrightarrow> (\<exists>n. result (parsepipe n (paren 1 t (text_of t) @ rest)) t rest))"

definition back_level :: "tree \<Rightarrow> bool" where
  "back_level t \<longleftrightarrow> (\<forall>rest. stops '')&;'' rest \<longrightarrow>
     (\<exists>n c0 s0 c s. parsepipe n (paren 2 t (text_of t) @ rest) = Some (Inr (c0, s0)) \<and>
        parse_backs c0 s0 = parse_backs c s \<and> reads word c t \<and> skip_ws s = skip_ws rest))"

definition line_level :: "tree \<Rightarrow> bool" where
  "line_level t \<longleftrightarrow> (\<forall>rest. stops '')'' rest \<longrightarrow> (\<exists>n. result (parseline n (text_of t @ rest)) t rest))"

lemma stops_more: "stops cs s \<Longrightarrow> set cs \<subseteq> set ds \<Longrightarrow> stops ds s"
  by (auto simp: stops_def)

lemma not_stop: "stops cs s \<Longrightarrow> c \<notin> set cs \<Longrightarrow> skip_ws s' = skip_ws s \<Longrightarrow> peek s' [c] = (False, skip_ws s)"
  by (auto simp: stops_def peek_simp)

lemma reads_wrap: "reads word c t \<Longrightarrow> reads_redirs rs rl \<Longrightarrow> reads word (wrap rs c) (add_redirs t rl)"
proof (induction rs arbitrary: c t rl)
  case Nil
  then show ?case by (simp add: wrap_def add_redirs_def reads_redirs_def)
next
  case (Cons r rs)
  obtain q e m f where r: "r = (q, e, m, f)" by (cases r)
  obtain k w rl' where rl: "rl = (k, w) # rl'" "(m, f) = redir_mode k" "word q = w" "reads_redirs rs rl'"
    using Cons.prems(2) by (cases rl) (auto simp: reads_redirs_def r)
  have "reads word (redircmd c q e m f) (Redir t w k)" using Cons.prems(1) rl by (simp add: redircmd_def redir_mode_meaning)
  from Cons.IH [OF this rl(4)] show ?case by (simp add: wrap_def add_redirs_def r rl(1))
qed

lemma exec_pipe:
  assumes "exec_level t" "rank t \<noteq> 1" shows "pipe_level t"
  unfolding pipe_level_def
proof (intro allI impI)
  fix rest assume st: "stops '')&;'' rest"
  have p: "paren 1 t (text_of t) = paren 0 t (text_of t)" using assms(2) by (auto simp: paren_def)
  obtain n c s where "parseexec n (paren 0 t (text_of t) @ rest) = Some (Inr (c, s))" "reads word c t"
    "skip_ws s = skip_ws rest"
    using assms(1) stops_more [OF st, of "''|)&;''"]
    by (auto simp: exec_level_def result_def redirs_text_def add_redirs_def redirs_ok_def
      dest!: spec [of _ "[] :: (char \<times> string) list"] spec [of _ rest])
  then have "result (parsepipe (Suc n) (paren 1 t (text_of t) @ rest)) t rest"
    unfolding p using not_stop [OF st, of "CHR ''|''" s] by (simp add: result_def)
  then show "\<exists>n. result (parsepipe n (paren 1 t (text_of t) @ rest)) t rest" by blast
qed

lemma pipe_back: "pipe_level t \<Longrightarrow> rank t \<noteq> 2 \<Longrightarrow> back_level t"
proof -
  assume "pipe_level t" "rank t \<noteq> 2"
  moreover from this(2) have "paren 2 t (text_of t) = paren 1 t (text_of t)" by (auto simp: paren_def)
  ultimately show ?thesis unfolding pipe_level_def back_level_def result_def by metis
qed

lemma parse_backs_stop:
  "deref (skip_ws s) \<noteq> CHR ''&'' \<Longrightarrow> parse_backs c s = (c, skip_ws s)"
  by (simp add: parse_backs.simps [of c s] peek_simp)

lemma back_end:
  assumes "back_level t" "stops '')'' rest"
  shows "\<exists>n c. reads word c t \<and> parseline n (paren 2 t (text_of t) @ rest) = Some (Inr (c, skip_ws rest))"
proof -
  have "stops '')&;'' rest" using assms(2) by (rule stops_more) simp
  then obtain n c0 s0 c s where b: "parsepipe n (paren 2 t (text_of t) @ rest) = Some (Inr (c0, s0))"
    "parse_backs c0 s0 = parse_backs c s" "reads word c t" "skip_ws s = skip_ws rest"
    using assms(1) unfolding back_level_def by blast
  have d: "deref (skip_ws rest) \<noteq> CHR ''&''" "deref (skip_ws rest) \<noteq> CHR '';''"
    using assms(2) by (auto simp: stops_def NUL_def)
  then have "parse_backs c0 s0 = (c, skip_ws rest)" using b by (simp add: parse_backs_stop)
  then have "parseline (Suc n) (paren 2 t (text_of t) @ rest) = Some (Inr (c, skip_ws rest))"
    using b(1) d by (simp add: peek_simp)
  then show ?thesis using b(3) by blast
qed

lemma back_more:
  assumes "back_level t"
  shows "\<exists>n c. reads word c t \<and>
    (\<forall>m \<ge> n. parseline (Suc m) (paren 2 t (text_of t) @ CHR '';'' # r) =
       bind (parseline m r) (\<lambda>(right, s). Some (Inr (LIST c right, s))))"
proof -
  let ?r = "CHR '';'' # r"
  have r: "skip_ws ?r = ?r" "deref ?r = CHR '';''" by (simp_all add: strchr_def whitespace_def deref_def)
  then have "stops '')&;'' ?r" by (simp add: stops_def)
  then obtain n c0 s0 c s where b: "parsepipe n (paren 2 t (text_of t) @ ?r) = Some (Inr (c0, s0))"
    "parse_backs c0 s0 = parse_backs c s" "reads word c t" "skip_ws s = ?r"
    using assms r unfolding back_level_def by metis
  have c: "parse_backs c0 s0 = (c, ?r)" using b r by (simp add: parse_backs_stop)
  have "parseline (Suc m) (paren 2 t (text_of t) @ ?r) =
      bind (parseline m r) (\<lambda>(right, s). Some (Inr (LIST c right, s)))" if "n \<le> m" for m
    using parse_mono(2) [OF that b(1)] c r
    by (simp add: peek_simp gettoken_symbol NUL_def listcmd_def del: skip_ws.simps)
  then show ?thesis using b(3) by blast
qed

lemma back_line:
  assumes "back_level t" "rank t \<noteq> 3" shows "line_level t"
proof -
  have "paren 2 t (text_of t) = text_of t" using assms(2) by (cases t) (auto simp: paren_def)
  then show ?thesis
    using back_end [OF assms(1)] unfolding line_level_def result_def by (metis skip_ws_idem)
qed

lemma list_line:
  assumes "back_level a" "line_level b" shows "line_level (List a b)"
  unfolding line_level_def
proof (intro allI impI)
  fix rest assume st: "stops '')'' rest"
  have p: "text_of (List a b) @ rest = paren 2 a (text_of a) @ CHR '';'' # text_of b @ rest"
    by (cases b) (auto simp: paren_def)
  obtain n c where n: "reads word c a" "\<forall>m \<ge> n. parseline (Suc m) (paren 2 a (text_of a) @ CHR '';'' # text_of b @ rest) =
       bind (parseline m (text_of b @ rest)) (\<lambda>(right, s). Some (Inr (LIST c right, s)))"
    using back_more [OF assms(1)] by blast
  obtain k c2 s2 where k: "parseline k (text_of b @ rest) = Some (Inr (c2, s2))" "reads word c2 b"
    "skip_ws s2 = skip_ws rest"
    using assms(2) st unfolding line_level_def result_def by blast
  have "parseline (max n k) (text_of b @ rest) = Some (Inr (c2, s2))" by (rule parse_mono(1) [OF _ k(1)]) simp
  then have "parseline (Suc (max n k)) (text_of (List a b) @ rest) = Some (Inr (LIST c c2, s2))"
    unfolding p using n(2) [rule_format, of "max n k"] by (simp del: parseline.simps)
  then show "\<exists>n. result (parseline n (text_of (List a b) @ rest)) (List a b) rest"
    using n(1) k by (intro exI [of _ "Suc (max n k)"]) (simp add: result_def del: parseline.simps)
qed

lemma back_back:
  assumes "back_level a" shows "back_level (Back a)"
  unfolding back_level_def
proof (intro allI impI)
  fix rest :: string assume "stops '')&;'' rest"
  let ?r = "CHR ''&'' # rest"
  have r: "skip_ws ?r = ?r" "deref ?r = CHR ''&''" by (simp_all add: strchr_def whitespace_def deref_def)
  then have "stops '')&;'' ?r" by (simp add: stops_def)
  then obtain n c0 s0 c s where b: "parsepipe n (paren 2 a (text_of a) @ ?r) = Some (Inr (c0, s0))"
    "parse_backs c0 s0 = parse_backs c s" "reads word c a" "skip_ws s = ?r"
    using assms r unfolding back_level_def by metis
  have "parse_backs c s = parse_backs (backcmd c) rest"
    using b(4) r by (simp add: parse_backs.simps [of c s] peek_simp gettoken_symbol NUL_def del: skip_ws.simps)
  then show "\<exists>n c0 s0 c s. parsepipe n (paren 2 (Back a) (text_of (Back a)) @ rest) = Some (Inr (c0, s0)) \<and>
        parse_backs c0 s0 = parse_backs c s \<and> reads word c (Back a) \<and> skip_ws s = skip_ws rest"
    using b by (intro exI [of _ n] exI [of _ c0] exI [of _ s0] exI [of _ "BACK c"] exI [of _ rest])
      (simp add: paren_def backcmd_def)
qed

lemma pipe_pipe:
  assumes "exec_level a" "pipe_level b" shows "pipe_level (Pipe a b)"
  unfolding pipe_level_def
proof (intro allI impI)
  fix rest assume st: "stops '')&;'' rest"
  let ?b = "paren 1 b (text_of b) @ rest"
  let ?r = "CHR ''|'' # ?b"
  have r: "skip_ws ?r = ?r" "deref ?r = CHR ''|''" by (simp_all add: strchr_def whitespace_def deref_def)
  then have sr: "stops ''|)&;'' ?r" by (simp add: stops_def)
  have p: "paren 1 (Pipe a b) (text_of (Pipe a b)) @ rest = paren 0 a (text_of a) @ ?r" by (simp add: paren_def)
  obtain n c s where n: "parseexec n (paren 0 a (text_of a) @ ?r) = Some (Inr (c, s))" "reads word c a" "skip_ws s = ?r"
    using assms(1) [unfolded exec_level_def, rule_format, of "[]" ?r] sr r
    by (auto simp: result_def redirs_text_def redirs_ok_def add_redirs_def)
  obtain k c2 s2 where k: "parsepipe k ?b = Some (Inr (c2, s2))" "reads word c2 b" "skip_ws s2 = skip_ws rest"
    using assms(2) st unfolding pipe_level_def result_def by blast
  have "parseexec (max n k) (paren 0 a (text_of a) @ ?r) = Some (Inr (c, s))"
    "parsepipe (max n k) ?b = Some (Inr (c2, s2))"
    by (rule parse_mono(3) [OF _ n(1)], simp) (rule parse_mono(2) [OF _ k(1)], simp)
  then have "parsepipe (Suc (max n k)) (paren 0 a (text_of a) @ ?r) = Some (Inr (PIPE c c2, s2))"
    using n(3) r by (simp add: peek_simp gettoken_symbol NUL_def pipecmd_def del: skip_ws.simps)
  then show "\<exists>n. result (parsepipe n (paren 1 (Pipe a b) (text_of (Pipe a b)) @ rest)) (Pipe a b) rest"
    unfolding p using n(2) k by (intro exI [of _ "Suc (max n k)"]) (simp add: result_def del: parsepipe.simps)
qed

lemma exec_redir: "exec_level t \<Longrightarrow> word_ok w \<Longrightarrow> k \<in> {CHR ''<'', CHR ''>'', CHR ''+''} \<Longrightarrow> exec_level (Redir t w k)"
  unfolding exec_level_def
proof (intro allI impI, elim conjE)
  fix rl rest
  assume "\<forall>rl rest. redirs_ok rl \<and> stops ''|)&;'' rest \<longrightarrow>
      (\<exists>n. result (parseexec n (paren 0 t (text_of t) @ redirs_text rl @ rest)) (add_redirs t rl) rest)"
    "word_ok w" "k \<in> {CHR ''<'', CHR ''>'', CHR ''+''}" "redirs_ok rl" "stops ''|)&;'' rest"
  moreover from this have "redirs_ok ((k, w) # rl)" by (simp add: redirs_ok_def)
  ultimately obtain n where
    "result (parseexec n (paren 0 t (text_of t) @ redirs_text ((k, w) # rl) @ rest)) (add_redirs t ((k, w) # rl)) rest"
    by blast
  moreover have "paren 0 (Redir t w k) (text_of (Redir t w k)) @ redirs_text rl @ rest =
      paren 0 t (text_of t) @ redirs_text ((k, w) # rl) @ rest"
    by (simp add: paren_def [of _ "Redir t w k"] redirs_text_def)
  ultimately show "\<exists>n. result (parseexec n (paren 0 (Redir t w k) (text_of (Redir t w k)) @ redirs_text rl @ rest))
      (add_redirs (Redir t w k) rl) rest"
    by (metis add_redirs_def foldl_Cons old.prod.case)
qed

lemma line_exec:
  assumes "line_level t" "0 < rank t" shows "exec_level t"
  unfolding exec_level_def
proof (intro allI impI, elim conjE)
  fix rl rest assume rl: "redirs_ok rl" and st: "stops ''|)&;'' rest"
  let ?e = "redirs_text rl @ rest"
  let ?r = "CHR '')'' # ?e"
  let ?p = "CHR ''('' # text_of t @ ?r"
  have p: "paren 0 t (text_of t) @ ?e = ?p" using assms(2) by (simp add: paren_def)
  have r: "skip_ws ?r = ?r" "deref ?r = CHR '')''" "skip_ws ?p = ?p" "deref ?p = CHR ''(''"
    by (simp_all add: strchr_def whitespace_def deref_def)
  then have "stops '')'' ?r" by (simp add: stops_def)
  then obtain n c s where n: "parseline n (text_of t @ ?r) = Some (Inr (c, s))" "reads word c t" "skip_ws s = ?r"
    using assms(1) r unfolding line_level_def result_def by metis
  have "deref (skip_ws rest) \<notin> {CHR ''<'', CHR ''>''}" using stops_redir [OF st] by simp
  then obtain rs where rs: "parseredirs [] ?e = Inr (rs, skip_ws rest)" "reads_redirs rs rl"
    using parseredirs_text [OF rl, of rest "[]"] by auto
  have "parseblock (Suc n) ?p = Some (Inr (wrap rs c, skip_ws rest))"
    using n(1,3) r rs(1) by (simp add: peek_simp gettoken_symbol NUL_def del: skip_ws.simps)
  then have "parseexec (Suc (Suc n)) ?p = Some (Inr (wrap rs c, skip_ws rest))"
    using r by (simp add: peek_simp NUL_def del: skip_ws.simps parseblock.simps)
  then show "\<exists>n. result (parseexec n (paren 0 t (text_of t) @ ?e)) (add_redirs t rl) rest"
    unfolding p using reads_wrap [OF n(2) rs(2)]
    by (intro exI [of _ "Suc (Suc n)"]) (simp add: result_def del: parseexec.simps)
qed

lemma exec_exec:
  assumes "\<forall>w \<in> set ws. word_ok w" "length ws < MAXARGS" shows "exec_level (Exec ws)"
  unfolding exec_level_def
proof (intro allI impI, elim conjE)
  fix rl rest assume rl: "redirs_ok rl" and st: "stops ''|)&;'' rest"
  let ?p = "words_text ws @ redirs_text rl @ rest"
  have nr: "deref (skip_ws rest) \<notin> {CHR ''<'', CHR ''>''}" using stops_redir [OF st] by simp
  have "\<exists>rs argv rs' s. deref (skip_ws ?p) \<noteq> CHR ''('' \<and> parseredirs [] ?p = Inr (rs, s) \<and>
      (\<exists>s'. parse_args [] rs s = Inr (argv, rs', s') \<and> map (word \<circ> fst) argv = ws \<and> reads_redirs rs' rl \<and>
        skip_ws s' = skip_ws rest)"
  proof (cases "ws = []")
    case True
    obtain rs where rs: "parseredirs [] (redirs_text rl @ rest) = Inr (rs, skip_ws rest)" "reads_redirs rs rl"
      using parseredirs_text [OF rl nr, of "[]"] by auto
    have "deref (skip_ws ?p) \<noteq> CHR ''(''"
    proof (cases rl)
      case Nil
      then show ?thesis using True st by (auto simp: words_text_def redirs_text_def stops_def NUL_def)
    next
      case (Cons kw rl')
      then obtain k w where "kw = (k, w)" "k \<in> {CHR ''<'', CHR ''>'', CHR ''+''}" "word_ok w"
        using rl by (cases kw) (auto simp: redirs_ok_def)
      then show ?thesis
        using True Cons gettoken_redir(2) [of k w "redirs_text rl' @ rest"]
        by (auto simp: words_text_def redirs_text_def peek_simp)
    qed
    then show ?thesis using rs True parse_args_stop [OF st, of "[]" rs] by (simp add: words_text_def) blast
  next
    case False
    then obtain v vs where v: "ws = v # vs" "word_ok v" using assms(1) by (cases ws) auto
    then have "?p = v @ (CHR '' '' # words_text vs @ redirs_text rl @ rest)" by (simp add: words_text_def)
    then have d: "skip_ws ?p = ?p" "deref ?p = hd v" using word_ok_skip [OF v(2)] by simp_all
    then have "parseredirs [] ?p = Inr ([], ?p)" "deref (skip_ws ?p) \<noteq> CHR ''(''"
      using parseredirs_none [of ?p "[]"] hd_word_not [OF v(2)] by simp_all
    then show ?thesis using parse_args_text [OF assms(1) False _ rl st, of "[]" "[]"] assms(2) by simp
  qed
  then obtain rs argv rs' s s' where d: "deref (skip_ws ?p) \<noteq> CHR ''(''" "parseredirs [] ?p = Inr (rs, s)"
    "parse_args [] rs s = Inr (argv, rs', s')" "map (word \<circ> fst) argv = ws" "reads_redirs rs' rl"
    "skip_ws s' = skip_ws rest" by blast
  have "parseexec (Suc 0) ?p = Some (Inr (wrap rs' (EXEC argv), s'))"
    using d(1-3) by (simp add: peek_simp del: skip_ws.simps)
  moreover have "reads word (wrap rs' (EXEC argv)) (add_redirs (Exec ws) rl)"
    using reads_wrap [OF _ d(5), of "EXEC argv" "Exec ws"] d(4) by simp
  ultimately have "result (parseexec (Suc 0) ?p) (add_redirs (Exec ws) rl) rest"
    using d(6) by (simp add: result_def del: parseexec.simps)
  then show "\<exists>n. result (parseexec n (paren 0 (Exec ws) (text_of (Exec ws)) @ redirs_text rl @ rest)) (add_redirs (Exec ws) rl) rest"
    by (intro exI [of _ "Suc 0"]) (simp add: paren_def del: parseexec.simps)
qed

lemma all_levels: "tree_ok t \<Longrightarrow> exec_level t \<and> pipe_level t \<and> back_level t \<and> line_level t"
proof (induction t)
  case (Exec ws)
  then have "exec_level (Exec ws)" by (intro exec_exec) auto
  then show ?case by (simp add: exec_pipe pipe_back back_line)
next
  case (Redir t w k)
  then have "exec_level (Redir t w k)" by (intro exec_redir) auto
  then show ?case by (simp add: exec_pipe pipe_back back_line)
next
  case (Pipe a b)
  then have "pipe_level (Pipe a b)" by (intro pipe_pipe) auto
  then show ?case by (simp add: pipe_back back_line line_exec)
next
  case (List a b)
  then have l: "line_level (List a b)" by (intro list_line) auto
  then have "exec_level (List a b)" by (simp add: line_exec)
  then show ?case using l by (simp add: exec_pipe pipe_back)
next
  case (Back a)
  then have b: "back_level (Back a)" by (intro back_back) auto
  then have l: "line_level (Back a)" by (simp add: back_line)
  then have "exec_level (Back a)" by (simp add: line_exec)
  then show ?case using l b by (simp add: exec_pipe)
qed

lemma text_no_nul: "tree_ok t \<Longrightarrow> NUL \<notin> set (text_of t)"
proof (induction t)
  case (Exec ws)
  then show ?case by (auto simp: words_text_def word_ok_def word_char_def NUL_def)
next
  case (Redir t w k)
  then show ?case by (auto simp: redir_text_def paren_def word_ok_def word_char_def NUL_def)
qed (auto simp: paren_def NUL_def)

lemma reads_cong: "(\<And>q e. (q, e) \<in> set (tokens c) \<Longrightarrow> rd q = rd' q) \<Longrightarrow> reads rd c t = reads rd' c t"
proof (induction rd c t rule: reads.induct)
  case (1 rd argv ws)
  then have "map (rd \<circ> fst) argv = map (rd' \<circ> fst) argv" by (intro map_cong) auto
  then show ?case by (simp only: reads.simps)
next
  case (2 rd c q eq mode fd t w k)
  have "rd q = rd' q" by (rule 2(2) [of q eq]) simp
  moreover have "rd x = rd' x" if "(x, y) \<in> set (tokens c)" for x y
    by (rule 2(2) [of x y]) (simp add: that)
  then have "reads rd c t = reads rd' c t" by (rule 2(1))
  ultimately show ?case by simp
qed auto

text \<open>
  C25. The parser reads what is meant: the text of every tree of commands, with any nesting of pipes,
  lists, background commands, parentheses and redirections and fewer than ten arguments to a
  command, parses to that tree, whose strings, read from the line the parser has written its NULs
  into, are the words of the tree.
\<close>

theorem parse_text_of:
  assumes "tree_ok t"
  shows "\<exists>c buf. parsecmd (text_of t) = Some (Inr (c, buf)) \<and> reads (cstring buf) c t"
proof -
  let ?s = "text_of t"
  have "stops '')'' []" by (simp add: stops_def deref_def)
  then obtain n c s where n: "parseline n ?s = Some (Inr (c, s))" "reads word c t" "skip_ws s = []"
    using all_levels [OF assms] unfolding line_level_def result_def by (metis append_Nil2 skip_ws.simps(1))
  obtain r where r: "parseline (enough_fuel ?s) ?s = Some r"
    using parse_enough(1) [of ?s "enough_fuel ?s"] by (auto simp: enough_fuel_def)
  have "parseline (max n (enough_fuel ?s)) ?s = Some (Inr (c, s))" by (rule parse_mono(1) [OF _ n(1)]) simp
  moreover have "parseline (max n (enough_fuel ?s)) ?s = Some r" by (rule parse_mono(1) [OF _ r]) simp
  ultimately have p: "parseline (enough_fuel ?s) ?s = Some (Inr (c, s))" using r by simp
  have toks: "\<forall>t \<in> set (tokens c). token ?s t" using parse_words(1) p by (auto simp: parsed_from_def)
  let ?buf = "nulterminate c ?s"
  have buf: "?buf = nuls ?s (map snd (tokens c))" using nulterminate_nuls [of c ?s "[]"] by (simp add: nuls_Nil)
  have "reads (cstring ?buf) c t = reads word c t"
    unfolding buf by (rule reads_cong) (rule cstring_token [OF text_no_nul [OF assms] toks])
  moreover have "parsecmd ?s = Some (Inr (c, ?buf))" using p n(3) by (simp add: parsecmd_def peek_simp)
  ultimately show ?thesis using n(2) by blast
qed

theorem parse_text_of_witness:
  "\<exists>c buf. parsecmd ''(ls -l ;cat )>f |wc &'' = Some (Inr (c, buf)) \<and>
     reads (cstring buf) c (Back (Pipe (Redir (List (Exec [''ls'', ''-l'']) (Exec [''cat''])) ''f'' CHR ''>'') (Exec [''wc''])))"
proof -
  let ?t = "Back (Pipe (Redir (List (Exec [''ls'', ''-l'']) (Exec [''cat''])) ''f'' CHR ''>'') (Exec [''wc'']))"
  have "tree_ok ?t" by code_simp
  moreover have "text_of ?t = ''(ls -l ;cat )>f |wc &''" by code_simp
  ultimately show ?thesis using parse_text_of [of ?t] by simp
qed

section \<open>The files of a pipeline\<close>

primrec pipeline :: "string list \<Rightarrow> string list list \<Rightarrow> tree" where
  "pipeline c [] = Exec c"
| "pipeline c (d # cs) = Pipe (Exec c) (pipeline d cs)"

text \<open>
  What a pipeline should start: each program with exactly three files, the first two of which are
  the pipes to its neighbours.
\<close>

primrec plumbing :: "ofile \<Rightarrow> ofile \<Rightarrow> ofile \<Rightarrow> nat \<Rightarrow> string list \<Rightarrow> string list list \<Rightarrow> files \<Rightarrow> event list" where
  "plumbing i o1 o2 k c [] free = [Started c (Some i # Some o1 # Some o2 # free)]"
| "plumbing i o1 o2 k c (d # cs) free =
     Started c (Some i # Some (WriteEnd k) # Some o2 # free) # plumbing (ReadEnd k) o1 o2 (k + 1) d cs free"

lemma pipe_files:
  "pipe (Some i # Some o1 # Some o2 # None # None # fs) w =
     Some ((3, 4), Some i # Some o1 # Some o2 # Some (ReadEnd (pipes w)) # Some (WriteEnd (pipes w)) # fs,
       w\<lparr>pipes := pipes w + 1\<rparr>)"
  by (simp add: pipe_def alloc_def numeral_eq_Suc)

lemma left_files:
  "close 4 (close 3 (dup 4 (close 1 (Some i # Some o1 # Some o2 # Some r # Some x # fs)))) =
     Some i # Some x # Some o2 # None # None # fs"
  by (simp add: close_def dup_def alloc_def numeral_eq_Suc)

lemma right_files:
  "close 4 (close 3 (dup 3 (close 0 (Some i # Some o1 # Some o2 # Some r # Some x # fs)))) =
     Some r # Some o1 # Some o2 # None # None # fs"
  by (simp add: close_def dup_def alloc_def numeral_eq_Suc)

lemma fork1_ok: "forks w = [] \<Longrightarrow> fork1 child parent w = parent (child w)"
  by (simp add: fork1_def fork_def)

lemma reads_Exec: "reads rd c (Exec ws) \<Longrightarrow> \<exists>argv. c = EXEC argv \<and> map (rd \<circ> fst) argv = ws"
  by (cases c) auto

lemma run_exec:
  assumes "reads (cstring buf) c (Exec ws)" "ws \<noteq> []" "\<forall>args. can_exec env args"
  shows "runcmd env buf c fs w = happens (Started ws fs) w"
proof -
  obtain argv where a: "c = EXEC argv" "map (cstring buf \<circ> fst) argv = ws" using reads_Exec [OF assms(1)] by blast
  have "map (\<lambda>(q, eq). cstring buf q) argv = ws" unfolding a(2) [symmetric] by (rule map_cong) auto
  then show ?thesis using a assms(2,3) by auto
qed

lemma run_pipeline:
  "reads (cstring buf) c (pipeline d cs) \<Longrightarrow> [] \<notin> set (d # cs) \<Longrightarrow> \<forall>args. can_exec env args \<Longrightarrow> forks w = [] \<Longrightarrow>
     runcmd env buf c (Some i # Some o1 # Some o2 # None # None # fs) w =
       w\<lparr>happened := happened w @ plumbing i o1 o2 (pipes w) d cs (None # None # fs), pipes := pipes w + length cs\<rparr>"
proof (induction cs arbitrary: c d i w)
  case Nil
  then show ?case using run_exec [of buf c d env] by (simp add: happens_def)
next
  case (Cons e cs)
  obtain a b where c: "c = PIPE a b" "reads (cstring buf) a (Exec d)" "reads (cstring buf) b (pipeline e cs)"
    using Cons.prems(1) by (cases c) auto
  let ?w = "w\<lparr>pipes := pipes w + 1\<rparr>"
  let ?w' = "happens (Started d (Some i # Some (WriteEnd (pipes w)) # Some o2 # None # None # fs)) ?w"
  have dn: "d \<noteq> []" using Cons.prems(2) by auto
  have w': "forks ?w' = []" "pipes ?w' = pipes w + 1" using Cons.prems(4) by (simp_all add: happens_def)
  have "runcmd env buf c (Some i # Some o1 # Some o2 # None # None # fs) w =
      runcmd env buf b (Some (ReadEnd (pipes w)) # Some o1 # Some o2 # None # None # fs) ?w'"
    using Cons.prems(4) run_exec [OF c(2) _ Cons.prems(3)] dn w'(1)
    by (simp add: c(1) pipe_files left_files [unfolded One_nat_def] right_files fork1_ok)
  also have "\<dots> = ?w'\<lparr>happened := happened ?w' @ plumbing (ReadEnd (pipes w)) o1 o2 (pipes ?w') e cs (None # None # fs),
      pipes := pipes ?w' + length cs\<rparr>"
    using Cons.prems w' by (intro Cons.IH [OF c(3)]) auto
  finally show ?case by (simp add: happens_def)
qed



section \<open>The main loop\<close>

text \<open>
  The loop returns with the events of one line after the other, and three of its properties: a blank
  line does nothing; a line that ends at the end of the input without a newline loses the last
  character of its directory; a line of 99 characters or more is run as several.
\<close>

lemma cd_without_newline:
  "main_loop \<lparr>can_open = \<lambda>_ _. True, can_exec = \<lambda>_. True, can_chdir = \<lambda>_. True\<rparr> [] ''cd /tmp''
     \<lparr>happened = [], pipes = 0, forks = []\<rparr> = \<lparr>happened = [Chdir ''/tm''], pipes = 0, forks = []\<rparr>"
  by (simp add: main_loop.simps getcmd_def BUFSIZE_def NUL_def run_line_def deref_def happens_def numeral_3_eq_3)

lemma gets_line:
  "CHR 0x0A \<notin> set l \<Longrightarrow> CHR 0x0D \<notin> set l \<Longrightarrow> length l < room \<Longrightarrow>
     gets room (l @ CHR 0x0A # rest) = (l @ [CHR 0x0A], rest)"
proof (induction l arbitrary: room)
  case (Cons c l)
  then show ?case by (cases room) auto
qed auto

text \<open>The lines of the input, when none is too long for the buffer.\<close>

lemma main_loop_line:
  assumes "CHR 0x0A \<notin> set l" "CHR 0x0D \<notin> set l" "NUL \<notin> set l" "length l + 1 < BUFSIZE"
  shows "main_loop env fs (l @ CHR 0x0A # rest) w = main_loop env fs rest (run_line env (l @ [CHR 0x0A]) fs w)"
proof -
  have "takeWhile (\<lambda>c. c \<noteq> NUL) (l @ [CHR 0x0A]) = l @ [CHR 0x0A]"
    using assms(3) by (auto simp: takeWhile_eq_all_conv NUL_def)
  then have "getcmd BUFSIZE (l @ CHR 0x0A # rest) = (Some (l @ [CHR 0x0A]), rest)"
    using gets_line [OF assms(1,2), of "BUFSIZE - 1"] assms(4) by (simp add: getcmd_def)
  then show ?thesis by (simp add: main_loop.simps [of env fs "l @ CHR 0x0A # rest"])
qed

end
