(* ===== verification/XvBlocks.thy ===== *)
theory XvBlocks
  imports Bytes
begin

unbundle bit_operations_syntax

text \<open>
  The lower half of \<open>xv6/xv6-source/kernel/fs.c\<close>: the block allocator and the map from the blocks of a
  file to blocks of the disk. The disk is a map from block numbers to blocks of 1024 bytes, as the
  buffer cache under the log shows it inside a transaction: \<open>bread\<close> reads it, and a store into the
  buffer with its \<open>log_write\<close> is an update of the map. One device, whose super block is an argument.
  A block number in an inode or in an indirect block is a 32-bit word; elsewhere it is the natural
  number it stands for. A panic is the left result, and -- as in the code -- block 0 is no block.
\<close>

section \<open>The layout of the disk\<close>

definition BSIZE :: nat where "BSIZE = 1024"
definition NDIRECT :: nat where "NDIRECT = 12"
definition NINDIRECT :: nat where "NINDIRECT = BSIZE div 4"
definition MAXFILE :: nat where "MAXFILE = NDIRECT + NINDIRECT"
definition BPB :: nat where "BPB = BSIZE * 8"
definition FSMAGIC :: "32 word" where "FSMAGIC = 0x10203040"

type_synonym disk = "nat \<Rightarrow> byte list"

record superblock =
  magic :: "32 word"
  size :: nat
  nblocks :: nat
  ninodes :: nat
  nlog :: nat
  logstart :: nat
  inodestart :: nat
  bmapstart :: nat

definition readsb :: "disk \<Rightarrow> superblock" where
  "readsb dk = (let w = (\<lambda>i. unat (word_at (dk 1) i)) in
     \<lparr>magic = word_at (dk 1) 0, size = w 1, nblocks = w 2, ninodes = w 3, nlog = w 4, logstart = w 5,
      inodestart = w 6, bmapstart = w 7\<rparr>)"

definition BBLOCK :: "superblock \<Rightarrow> nat \<Rightarrow> nat" where
  "BBLOCK sb b = b div BPB + bmapstart sb"

section \<open>The block allocator\<close>

definition bit_mask :: "nat \<Rightarrow> byte" where
  "bit_mask bi = push_bit (bi mod 8) 1"

definition bzero :: "nat \<Rightarrow> disk \<Rightarrow> disk" where
  "bzero bno dk = dk(bno := replicate BSIZE 0)"

text \<open>The inner loop of \<open>balloc\<close> over the bits of one bitmap block.\<close>

function balloc_bits :: "superblock \<Rightarrow> nat \<Rightarrow> byte list \<Rightarrow> nat \<Rightarrow> nat option" where
  "balloc_bits sb b d bi =
     (if bi < BPB \<and> b + bi < size sb
      then (if d ! (bi div 8) AND bit_mask bi = 0 then Some bi else balloc_bits sb b d (bi + 1))
      else None)"
  by pat_completeness auto
termination by (relation "measure (\<lambda>(sb, b, d, bi). BPB - bi)") auto

definition set_bit_in :: "nat \<Rightarrow> byte list \<Rightarrow> byte list" where
  "set_bit_in bi d = d[bi div 8 := d ! (bi div 8) OR bit_mask bi]"

definition clear_bit_in :: "nat \<Rightarrow> byte list \<Rightarrow> byte list" where
  "clear_bit_in bi d = d[bi div 8 := d ! (bi div 8) AND NOT (bit_mask bi)]"

function balloc_from :: "superblock \<Rightarrow> nat \<Rightarrow> disk \<Rightarrow> nat \<times> disk" where
  "balloc_from sb b dk =
     (if b < size sb
      then (case balloc_bits sb b (dk (BBLOCK sb b)) 0 of
              Some bi \<Rightarrow>
                let dk = dk(BBLOCK sb b := set_bit_in bi (dk (BBLOCK sb b)))
                in (b + bi, bzero (b + bi) dk)
            | None \<Rightarrow> balloc_from sb (b + BPB) dk)
      else (0, dk))"
  by pat_completeness auto
termination by (relation "measure (\<lambda>(sb, b, dk). size sb - b)") (auto simp: BPB_def BSIZE_def)

definition balloc :: "superblock \<Rightarrow> disk \<Rightarrow> nat \<times> disk" where
  "balloc sb dk = balloc_from sb 0 dk"

definition bfree :: "superblock \<Rightarrow> nat \<Rightarrow> disk \<Rightarrow> string + disk" where
  "bfree sb b dk =
     (let d = dk (BBLOCK sb b); bi = b mod BPB in
      if d ! (bi div 8) AND bit_mask bi = 0 then Inl ''freeing free block''
      else Inr (dk(BBLOCK sb b := clear_bit_in bi d)))"

declare balloc_bits.simps [simp del] balloc_from.simps [simp del]

section \<open>The bitmap as a set\<close>

definition marked :: "superblock \<Rightarrow> disk \<Rightarrow> nat \<Rightarrow> bool" where
  "marked sb dk b \<longleftrightarrow> bit (dk (BBLOCK sb b) ! (b mod BPB div 8)) (b mod 8)"

text \<open>
  A disk is in order when its blocks have their size and every block of the bitmap, and the boot
  block, is marked as used.
\<close>

definition disk_ok :: "superblock \<Rightarrow> disk \<Rightarrow> bool" where
  "disk_ok sb dk \<longleftrightarrow> (\<forall>b. length (dk b) = BSIZE) \<and> size sb < 2 ^ 32 \<and> marked sb dk 0 \<and>
     (\<forall>b < size sb. BBLOCK sb b < size sb \<and> marked sb dk (BBLOCK sb b))"

lemma BPB_eq: "BPB = 8192" and BSIZE_eq: "BSIZE = 1024"
  by (simp_all add: BPB_def BSIZE_def)

lemma mod_BPB_8: "b mod BPB mod 8 = b mod 8"
  by (simp add: BPB_eq mod_mod_cancel)

lemma byte_index: "b mod BPB div 8 < BSIZE"
proof -
  have "b mod 8192 < 8192" by simp
  then show ?thesis unfolding BPB_eq BSIZE_eq by linarith
qed

lemma mask_zero: "(w :: byte) AND bit_mask bi = 0 \<longleftrightarrow> \<not> bit w (bi mod 8)"
  by (simp add: bit_mask_def bit_iff_and_push_bit_not_eq_0 del: push_bit_of_1)

lemma bit_set: "bit (w OR bit_mask bi :: byte) n \<longleftrightarrow> bit w n \<or> n = bi mod 8"
proof -
  have "bi mod 8 < 8" by simp
  then show ?thesis
    by (auto simp: bit_mask_def bit_simps set_bit_eq_or [symmetric] simp del: push_bit_of_1)
qed

lemma bit_clear: "bit (w AND NOT (bit_mask bi) :: byte) n \<longleftrightarrow> bit w n \<and> n \<noteq> bi mod 8"
  by (auto simp: bit_mask_def bit_simps unset_bit_eq_and_not [symmetric] simp del: push_bit_of_1)

text \<open>Two blocks have the same bit in the same byte of the same bitmap block only when they are one.\<close>

lemma bitmap_inj:
  assumes "b div BPB = c div BPB" "b mod BPB div 8 = c mod BPB div 8" "b mod 8 = c mod 8"
  shows "b = c"
proof -
  have "b mod BPB = c mod BPB"
    using assms(2,3) mod_BPB_8 [of b] mod_BPB_8 [of c] by (metis div_mult_mod_eq)
  then show ?thesis using assms(1) by (metis div_mult_mod_eq)
qed

lemma marked_cong: "dk' (BBLOCK sb b) = dk (BBLOCK sb b) \<Longrightarrow> marked sb dk' b = marked sb dk b"
  by (simp add: marked_def)

lemma marked_set:
  assumes "length (dk (BBLOCK sb b)) = BSIZE"
  shows "marked sb (dk(BBLOCK sb b := set_bit_in (b mod BPB) (dk (BBLOCK sb b)))) c \<longleftrightarrow> c = b \<or> marked sb dk c"
proof (cases "BBLOCK sb c = BBLOCK sb b")
  case True
  then have e: "c div BPB = b div BPB" by (simp add: BBLOCK_def)
  have "c mod BPB div 8 < length (dk (BBLOCK sb b))" using byte_index assms by simp
  then show ?thesis using True bitmap_inj [OF e]
    by (cases "c mod BPB div 8 = b mod BPB div 8")
      (auto simp: marked_def set_bit_in_def bit_set mod_BPB_8)
next
  case False
  then show ?thesis by (auto simp: marked_def)
qed

lemma marked_clear:
  assumes "length (dk (BBLOCK sb b)) = BSIZE"
  shows "marked sb (dk(BBLOCK sb b := clear_bit_in (b mod BPB) (dk (BBLOCK sb b)))) c \<longleftrightarrow> c \<noteq> b \<and> marked sb dk c"
proof (cases "BBLOCK sb c = BBLOCK sb b")
  case True
  then have e: "c div BPB = b div BPB" by (simp add: BBLOCK_def)
  have "c mod BPB div 8 < length (dk (BBLOCK sb b))" using byte_index assms by simp
  then show ?thesis using True bitmap_inj [OF e]
    by (cases "c mod BPB div 8 = b mod BPB div 8")
      (auto simp: marked_def clear_bit_in_def bit_clear mod_BPB_8)
next
  case False
  then show ?thesis by (auto simp: marked_def)
qed

lemma balloc_bits_Some:
  assumes "balloc_bits sb b d bi = Some r"
  shows "bi \<le> r" "r < BPB" "b + r < size sb" "\<not> bit (d ! (r div 8)) (r mod 8)"
    "\<And>k. bi \<le> k \<Longrightarrow> k < r \<Longrightarrow> bit (d ! (k div 8)) (k mod 8)"
proof -
  have "bi \<le> r \<and> r < BPB \<and> b + r < size sb \<and> \<not> bit (d ! (r div 8)) (r mod 8) \<and>
    (\<forall>k. bi \<le> k \<and> k < r \<longrightarrow> bit (d ! (k div 8)) (k mod 8))"
    using assms
  proof (induction sb b d bi rule: balloc_bits.induct)
    case (1 sb b d bi)
    show ?case
    proof (cases "bi < BPB \<and> b + bi < size sb \<and> bit (d ! (bi div 8)) (bi mod 8)")
      case True
      then have "balloc_bits sb b d (bi + 1) = Some r"
        using "1.prems" by (subst (asm) balloc_bits.simps) (simp add: mask_zero)
      then show ?thesis using "1.IH" True
        by (auto simp: mask_zero) (metis le_neq_implies_less Suc_leI)
    next
      case False
      then have "r = bi" "bi < BPB" "b + bi < size sb" "\<not> bit (d ! (bi div 8)) (bi mod 8)"
        using "1.prems" by (subst (asm) balloc_bits.simps, auto simp: mask_zero split: if_splits)+
      then show ?thesis by auto
    qed
  qed
  then show "bi \<le> r" "r < BPB" "b + r < size sb" "\<not> bit (d ! (r div 8)) (r mod 8)"
    "\<And>k. bi \<le> k \<Longrightarrow> k < r \<Longrightarrow> bit (d ! (k div 8)) (k mod 8)" by blast+
qed

lemma balloc_bits_None:
  "balloc_bits sb b d bi = None \<Longrightarrow> bi \<le> k \<Longrightarrow> k < BPB \<Longrightarrow> b + k < size sb \<Longrightarrow> bit (d ! (k div 8)) (k mod 8)"
proof (induction sb b d bi rule: balloc_bits.induct)
  case (1 sb b d bi)
  have c: "bi < BPB \<and> b + bi < size sb" using "1.prems" by auto
  have m: "bit (d ! (bi div 8)) (bi mod 8)" and n: "balloc_bits sb b d (bi + 1) = None"
    using "1.prems"(1) c by (subst (asm) balloc_bits.simps, auto simp: mask_zero split: if_splits)+
  show ?case
  proof (cases "k = bi")
    case False
    then show ?thesis using "1.IH" c m n "1.prems" by (auto simp: mask_zero)
  qed (use m in simp)
qed

lemma disk_okD:
  assumes "disk_ok sb dk"
  shows "length (dk b) = BSIZE" "size sb < 2 ^ 32" "marked sb dk 0" "b < size sb \<Longrightarrow> BBLOCK sb b < size sb"
    "b < size sb \<Longrightarrow> marked sb dk (BBLOCK sb b)"
  using assms by (simp_all add: disk_ok_def)

text \<open>The whole scan: the lowest free block, marked and cleared.\<close>

lemma balloc_from_cases:
  assumes "b mod BPB = 0" "\<And>c. c < b \<Longrightarrow> c < size sb \<Longrightarrow> marked sb dk c"
  obtains (full) "balloc_from sb b dk = (0, dk)" "\<And>c. c < size sb \<Longrightarrow> marked sb dk c"
  | (new) r where "balloc_from sb b dk =
        (r, bzero r (dk(BBLOCK sb r := set_bit_in (r mod BPB) (dk (BBLOCK sb r)))))"
      "r < size sb" "\<not> marked sb dk r" "\<And>c. c < r \<Longrightarrow> marked sb dk c"
proof -
  have "(balloc_from sb b dk = (0, dk) \<and> (\<forall>c < size sb. marked sb dk c)) \<or>
    (\<exists>r. balloc_from sb b dk = (r, bzero r (dk(BBLOCK sb r := set_bit_in (r mod BPB) (dk (BBLOCK sb r))))) \<and>
      r < size sb \<and> \<not> marked sb dk r \<and> (\<forall>c < r. marked sb dk c))"
    using assms
  proof (induction sb b dk rule: balloc_from.induct)
    case (1 sb b dk)
    have at: "(b + k) div BPB = b div BPB" "(b + k) mod BPB = k" if "k < BPB" for k
      using that "1.prems"(1) by (auto simp: mod_eq_0_iff_dvd)
    have mk: "marked sb dk (b + k) \<longleftrightarrow> bit (dk (BBLOCK sb b) ! (k div 8)) (k mod 8)" if "k < BPB" for k
      using at [OF that] mod_BPB_8 [of "b + k"] by (simp add: marked_def BBLOCK_def)
    show ?case
    proof (cases "b < size sb")
      case False
      then show ?thesis using "1.prems"(2) by (simp add: balloc_from.simps)
    next
      case True
      show ?thesis
      proof (cases "balloc_bits sb b (dk (BBLOCK sb b)) 0")
        case None
        have m: "marked sb dk c" if "c < b + BPB" "c < size sb" for c
        proof (cases "c < b")
          case False
          then have "marked sb dk (b + (c - b))"
            using balloc_bits_None [OF None, of "c - b"] mk [of "c - b"] that by simp
          then show ?thesis using False by simp
        qed (use "1.prems"(2) that in blast)
        have step: "balloc_from sb b dk = balloc_from sb (b + BPB) dk"
          using True None by (subst balloc_from.simps) simp
        show ?thesis unfolding step using "1.prems"(1) m by (intro "1.IH" [OF True None]) simp_all
      next
        case (Some r)
        note r = balloc_bits_Some [OF Some]
        have "BBLOCK sb (b + r) = BBLOCK sb b" using at(1) r(2) by (simp add: BBLOCK_def)
        then have "balloc_from sb b dk = (b + r, bzero (b + r)
          (dk(BBLOCK sb (b + r) := set_bit_in ((b + r) mod BPB) (dk (BBLOCK sb (b + r))))))"
          using True Some at(2) [OF r(2)] by (subst balloc_from.simps) (simp add: Let_def)
        moreover have "marked sb dk c" if "c < b + r" for c
        proof (cases "c < b")
          case False
          then have "marked sb dk (b + (c - b))" using r(2,5) mk [of "c - b"] that by simp
          then show ?thesis using False by simp
        qed (use "1.prems"(2) True in auto)
        ultimately show ?thesis using r(3,4) mk [OF r(2)] by blast
      qed
    qed
  qed
  then show ?thesis using full new by blast
qed

definition free_blocks :: "superblock \<Rightarrow> disk \<Rightarrow> nat set" where
  "free_blocks sb dk = {b. b < size sb \<and> \<not> marked sb dk b}"

text \<open>What \<open>balloc\<close> promises to its callers.\<close>

lemma balloc_cases:
  assumes ok: "disk_ok sb dk"
  obtains (full) "balloc sb dk = (0, dk)" "free_blocks sb dk = {}"
  | (new) r dk' where "balloc sb dk = (r, dk')" "r < size sb" "r \<noteq> 0" "\<not> marked sb dk r"
      "\<And>c. c < r \<Longrightarrow> marked sb dk c" "disk_ok sb dk'" "\<And>c. c < size sb \<Longrightarrow> marked sb dk' c \<longleftrightarrow> c = r \<or> marked sb dk c"
      "dk' r = replicate BSIZE 0" "\<And>c. c \<noteq> r \<Longrightarrow> c \<noteq> BBLOCK sb r \<Longrightarrow> dk' c = dk c"
proof (rule balloc_from_cases [of 0 sb dk])
  assume "balloc_from sb 0 dk = (0, dk)" "\<And>c. c < size sb \<Longrightarrow> marked sb dk c"
  then show ?thesis using full by (simp add: balloc_def free_blocks_def)
next
  fix r
  let ?dk = "dk(BBLOCK sb r := set_bit_in (r mod BPB) (dk (BBLOCK sb r)))"
  assume r: "balloc_from sb 0 dk = (r, bzero r ?dk)" "r < size sb" "\<not> marked sb dk r"
    "\<And>c. c < r \<Longrightarrow> marked sb dk c"
  note d = disk_okD [OF ok]
  have nb: "r \<noteq> BBLOCK sb c" if "c < size sb" for c using d(5) [OF that] r(3) by auto
  have mk: "marked sb (bzero r ?dk) c \<longleftrightarrow> c = r \<or> marked sb dk c" if "c < size sb" for c
    using nb [OF that] marked_set [of dk sb r c] d(1) by (simp add: bzero_def marked_def)
  have "length (bzero r ?dk c) = BSIZE" for c using d(1) by (simp add: bzero_def set_bit_in_def)
  then have "disk_ok sb (bzero r ?dk)" using d mk r(2) by (simp add: disk_ok_def)
  then show ?thesis using new [of r "bzero r ?dk"] r d(3) mk by (auto simp: balloc_def bzero_def)
qed simp_all

lemma bfree_effect:
  assumes ok: "disk_ok sb dk" and b: "b < size sb" "b \<noteq> 0" "\<forall>c < size sb. b \<noteq> BBLOCK sb c"
    and m: "marked sb dk b"
  obtains dk' where "bfree sb b dk = Inr dk'" "disk_ok sb dk'"
    "\<And>c. marked sb dk' c \<longleftrightarrow> c \<noteq> b \<and> marked sb dk c" "\<And>c. c \<noteq> BBLOCK sb b \<Longrightarrow> dk' c = dk c"
proof -
  note d = disk_okD [OF ok]
  let ?dk = "dk(BBLOCK sb b := clear_bit_in (b mod BPB) (dk (BBLOCK sb b)))"
  have "bit (dk (BBLOCK sb b) ! (b mod BPB div 8)) (b mod BPB mod 8)" using m by (simp add: marked_def mod_BPB_8)
  then have "bfree sb b dk = Inr ?dk" by (simp add: bfree_def Let_def mask_zero)
  moreover have mk: "marked sb ?dk c \<longleftrightarrow> c \<noteq> b \<and> marked sb dk c" for c using marked_clear d(1) by blast
  moreover have "length (?dk c) = BSIZE" for c using d(1) by (simp add: clear_bit_in_def)
  then have "disk_ok sb ?dk" using d b unfolding disk_ok_def mk by metis
  ultimately show ?thesis using that [of ?dk] by simp
qed

text \<open>
  C19. The allocator refines a set of free blocks: \<open>balloc\<close> takes the least one, cleared, or returns 0 when
  there is none; \<open>bfree\<close> puts a used block back, and panics when the block is free; neither changes
  another block that is not part of the bitmap.
\<close>

theorem allocator_refines_free_set:
  assumes "disk_ok sb dk"
  shows "(case balloc sb dk of (r, dk') \<Rightarrow>
      if free_blocks sb dk = {} then r = 0 \<and> dk' = dk
      else r = Min (free_blocks sb dk) \<and> disk_ok sb dk' \<and> free_blocks sb dk' = free_blocks sb dk - {r} \<and>
        dk' r = replicate BSIZE 0 \<and> (\<forall>c. c \<noteq> r \<and> c \<noteq> BBLOCK sb r \<longrightarrow> dk' c = dk c)) \<and>
    (\<forall>b. b < size sb \<and> b \<noteq> 0 \<and> b \<notin> BBLOCK sb ` {..<size sb} \<longrightarrow>
      (case bfree sb b dk of
         Inl e \<Rightarrow> b \<in> free_blocks sb dk \<and> e = ''freeing free block''
       | Inr dk' \<Rightarrow> disk_ok sb dk' \<and> free_blocks sb dk' = insert b (free_blocks sb dk) \<and>
           b \<notin> free_blocks sb dk \<and> (\<forall>c. c \<noteq> BBLOCK sb b \<longrightarrow> dk' c = dk c)))"
proof -
  have "case balloc sb dk of (r, dk') \<Rightarrow>
      if free_blocks sb dk = {} then r = 0 \<and> dk' = dk
      else r = Min (free_blocks sb dk) \<and> disk_ok sb dk' \<and> free_blocks sb dk' = free_blocks sb dk - {r} \<and>
        dk' r = replicate BSIZE 0 \<and> (\<forall>c. c \<noteq> r \<and> c \<noteq> BBLOCK sb r \<longrightarrow> dk' c = dk c)"
  proof (cases rule: balloc_cases [OF assms])
    case 1
    then show ?thesis by simp
  next
    case (2 r dk')
    have "r \<in> free_blocks sb dk" "\<And>c. c \<in> free_blocks sb dk \<Longrightarrow> r \<le> c"
      using 2 by (auto simp: free_blocks_def) (metis not_le)
    moreover from this have "Min (free_blocks sb dk) = r" by (intro Min_eqI) (auto simp: free_blocks_def)
    moreover have "free_blocks sb dk' = free_blocks sb dk - {r}" using 2 by (auto simp: free_blocks_def)
    ultimately show ?thesis using 2 by auto
  qed
  moreover have "case bfree sb b dk of
         Inl e \<Rightarrow> b \<in> free_blocks sb dk \<and> e = ''freeing free block''
       | Inr dk' \<Rightarrow> disk_ok sb dk' \<and> free_blocks sb dk' = insert b (free_blocks sb dk) \<and>
           b \<notin> free_blocks sb dk \<and> (\<forall>c. c \<noteq> BBLOCK sb b \<longrightarrow> dk' c = dk c)"
    if b: "b < size sb" "b \<noteq> 0" "b \<notin> BBLOCK sb ` {..<size sb}" for b
  proof (cases "marked sb dk b")
    case True
    then obtain dk' where "bfree sb b dk = Inr dk'" "disk_ok sb dk'"
      "\<And>c. marked sb dk' c \<longleftrightarrow> c \<noteq> b \<and> marked sb dk c" "\<And>c. c \<noteq> BBLOCK sb b \<Longrightarrow> dk' c = dk c"
      using bfree_effect [OF assms b(1,2)] b(3) by auto
    then show ?thesis using True b(1) by (auto simp: free_blocks_def)
  next
    case False
    then have "bfree sb b dk = Inl ''freeing free block''"
      by (simp add: bfree_def Let_def mask_zero marked_def mod_BPB_8)
    then show ?thesis using False b(1) by (simp add: free_blocks_def)
  qed
  ultimately show ?thesis by blast
qed

definition small_sb :: superblock where
  "small_sb = \<lparr>magic = FSMAGIC, size = 8, nblocks = 2, ninodes = 16, nlog = 2, logstart = 2, inodestart = 4,
     bmapstart = 5\<rparr>"

definition small_disk :: disk where
  "small_disk b = (if b = 5 then 0x3F # replicate 1023 0 else replicate 1024 0)"

lemma small_marked: "b < 8 \<Longrightarrow> marked small_sb small_disk b \<longleftrightarrow> b < 6"
proof -
  assume b: "b < 8"
  have "marked small_sb small_disk b \<longleftrightarrow> bit (0x3F :: byte) b"
    using b by (simp add: marked_def BBLOCK_def BPB_eq small_sb_def small_disk_def)
  moreover have "b \<in> {0, 1, 2, 3, 4, 5, 6, 7}" using b by auto
  ultimately show ?thesis by auto
qed

lemma small_disk_ok: "disk_ok small_sb small_disk"
proof -
  have "b < 8 \<Longrightarrow> BBLOCK small_sb b = 5" for b by (simp add: BBLOCK_def BPB_eq small_sb_def)
  then show ?thesis using small_marked
    by (simp add: disk_ok_def small_disk_def BSIZE_eq small_sb_def [THEN arg_cong, of size])
qed

theorem allocator_refines_free_set_witness:
  "fst (balloc small_sb small_disk) = 6 \<and> free_blocks small_sb (snd (balloc small_sb small_disk)) = {7} \<and>
   bfree small_sb 7 small_disk = Inl ''freeing free block''"
proof -
  have s: "size small_sb = 8" by (simp add: small_sb_def)
  have f: "free_blocks small_sb small_disk = {6, 7}"
    using small_marked by (auto simp: free_blocks_def s)
  have n: "7 \<notin> BBLOCK small_sb ` {..<8}" by (auto simp: BBLOCK_def BPB_eq small_sb_def)
  note a = allocator_refines_free_set [OF small_disk_ok]
  have "bfree small_sb 7 small_disk = Inl ''freeing free block''"
    using conjunct2 [OF a, rule_format, of 7] f s n by (auto split: sum.splits)
  then show ?thesis using conjunct1 [OF a] f by (auto split: prod.splits)
qed

end
