(* ===== verification/XvInode.thy ===== *)
theory XvInode
  imports XvBlocks
begin

unbundle bit_operations_syntax

text \<open>
  The content of a file (\<open>fs.c\<close>): the inode in memory and on the disk, the map from the blocks of a
  file to blocks of the disk with the allocation of the missing ones, truncation, and reading and
  writing. Memory outside the file system is a parameter: \<open>cpout\<close> stands for \<open>either_copyout\<close> (the
  address, the bytes, the memory before; whether it succeeded, and the memory after) and \<open>cpin\<close> for
  \<open>either_copyin\<close> (whether it succeeded, and the bytes that were copied, all of them if it did).
\<close>

section \<open>Inodes in memory and on the disk\<close>

record inode =
  inum :: nat
  iref :: int
  ilock_owner :: "int option"
  valid :: bool
  itype :: "16 word"
  major :: "16 word"
  minor :: "16 word"
  nlink :: "16 word"
  isize :: "32 word"
  addrs :: "32 word list"

definition dinode_bytes :: "inode \<Rightarrow> byte list" where
  "dinode_bytes ip = bytes16 (itype ip) @ bytes16 (major ip) @ bytes16 (minor ip) @ bytes16 (nlink ip) @
     bytes32 (isize ip) @ concat (map bytes32 (addrs ip))"

definition IPB :: nat where "IPB = BSIZE div 64"

definition IBLOCK :: "superblock \<Rightarrow> nat \<Rightarrow> nat" where
  "IBLOCK sb i = i div IPB + inodestart sb"

text \<open>The members of the on-disk inode at slot \<open>s\<close> of a block: words 16\<open>s\<close> to 16\<open>s\<close> + 15.\<close>

definition dinode_half :: "byte list \<Rightarrow> nat \<Rightarrow> nat \<Rightarrow> 16 word" where
  "dinode_half d s i = word16 (d ! (64 * s + 2 * i)) (d ! (64 * s + 2 * i + 1))"

definition load_dinode :: "byte list \<Rightarrow> nat \<Rightarrow> inode \<Rightarrow> inode" where
  "load_dinode d s ip = ip\<lparr>itype := dinode_half d s 0, major := dinode_half d s 1,
     minor := dinode_half d s 2, nlink := dinode_half d s 3, isize := word_at d (16 * s + 2),
     addrs := map (\<lambda>i. word_at d (16 * s + 3 + i)) [0..<NDIRECT + 1]\<rparr>"

definition iupdate :: "superblock \<Rightarrow> disk \<Rightarrow> inode \<Rightarrow> disk" where
  "iupdate sb dk ip = (let b = IBLOCK sb (inum ip) in
     dk(b := splice (dk b) (64 * (inum ip mod IPB)) (dinode_bytes ip)))"

section \<open>The blocks of a file\<close>

definition bmap_indirect :: "superblock \<Rightarrow> nat \<Rightarrow> nat \<Rightarrow> disk \<Rightarrow> nat \<times> disk" where
  "bmap_indirect sb a bn dk =
     (let addr = word_at (dk a) bn in
      if addr = 0
      then (case balloc sb dk of (r, dk) \<Rightarrow>
              if r \<noteq> 0 then (r, dk(a := set_word (dk a) bn (of_nat r))) else (r, dk))
      else (unat addr, dk))"

definition bmap :: "superblock \<Rightarrow> nat \<Rightarrow> disk \<Rightarrow> inode \<Rightarrow> string + nat \<times> disk \<times> inode" where
  "bmap sb bn dk ip =
     (if bn < NDIRECT
      then (if addrs ip ! bn = 0
            then (case balloc sb dk of (r, dk) \<Rightarrow>
                    if r = 0 then Inr (0, dk, ip)
                    else Inr (r, dk, ip\<lparr>addrs := (addrs ip)[bn := of_nat r]\<rparr>))
            else Inr (unat (addrs ip ! bn), dk, ip))
      else let bn = bn - NDIRECT in
        if bn < NINDIRECT
        then (if addrs ip ! NDIRECT = 0
              then (case balloc sb dk of (a, dk) \<Rightarrow>
                      if a = 0 then Inr (0, dk, ip)
                      else let ip = ip\<lparr>addrs := (addrs ip)[NDIRECT := of_nat a]\<rparr>
                           in (case bmap_indirect sb a bn dk of (r, dk) \<Rightarrow> Inr (r, dk, ip)))
              else (case bmap_indirect sb (unat (addrs ip ! NDIRECT)) bn dk of (r, dk) \<Rightarrow> Inr (r, dk, ip)))
        else Inl ''bmap: out of range'')"

text \<open>The two loops of \<open>itrunc\<close>: the direct blocks, and the entries \<open>a\<close> of the indirect block.\<close>

function itrunc_direct :: "superblock \<Rightarrow> nat \<Rightarrow> disk \<Rightarrow> inode \<Rightarrow> string + disk \<times> inode" where
  "itrunc_direct sb i dk ip =
     (if i < NDIRECT
      then (if addrs ip ! i \<noteq> 0
            then (case bfree sb (unat (addrs ip ! i)) dk of
                    Inl e \<Rightarrow> Inl e
                  | Inr dk \<Rightarrow> itrunc_direct sb (i + 1) dk (ip\<lparr>addrs := (addrs ip)[i := 0]\<rparr>))
            else itrunc_direct sb (i + 1) dk ip)
      else Inr (dk, ip))"
  by pat_completeness auto
termination by (relation "measure (\<lambda>(sb, i, dk, ip). NDIRECT - i)") auto

function itrunc_indirect :: "superblock \<Rightarrow> byte list \<Rightarrow> nat \<Rightarrow> disk \<Rightarrow> string + disk" where
  "itrunc_indirect sb a j dk =
     (if j < NINDIRECT
      then (if word_at a j \<noteq> 0
            then (case bfree sb (unat (word_at a j)) dk of
                    Inl e \<Rightarrow> Inl e
                  | Inr dk \<Rightarrow> itrunc_indirect sb a (j + 1) dk)
            else itrunc_indirect sb a (j + 1) dk)
      else Inr dk)"
  by pat_completeness auto
termination by (relation "measure (\<lambda>(sb, a, j, dk). NINDIRECT - j)") auto

definition itrunc :: "superblock \<Rightarrow> disk \<Rightarrow> inode \<Rightarrow> string + disk \<times> inode" where
  "itrunc sb dk ip =
     (case itrunc_direct sb 0 dk ip of
        Inl e \<Rightarrow> Inl e
      | Inr (dk, ip) \<Rightarrow>
          (let done = (\<lambda>dk ip. let ip = ip\<lparr>isize := 0\<rparr> in Inr (iupdate sb dk ip, ip)) in
           if addrs ip ! NDIRECT \<noteq> 0
           then (let b = unat (addrs ip ! NDIRECT) in
                 case itrunc_indirect sb (dk b) 0 dk of
                   Inl e \<Rightarrow> Inl e
                 | Inr dk \<Rightarrow> (case bfree sb b dk of
                     Inl e \<Rightarrow> Inl e
                   | Inr dk \<Rightarrow> done dk (ip\<lparr>addrs := (addrs ip)[NDIRECT := 0]\<rparr>)))
           else done dk ip))"

section \<open>Reading and writing\<close>

record stat =
  st_dev :: nat
  st_ino :: nat
  st_type :: "16 word"
  st_nlink :: "16 word"
  st_size :: nat

definition stati :: "nat \<Rightarrow> inode \<Rightarrow> stat" where
  "stati d ip = \<lparr>st_dev = d, st_ino = inum ip, st_type = itype ip, st_nlink = nlink ip, st_size = unat (isize ip)\<rparr>"

text \<open>
  The loops count in natural numbers: the checks before them exclude that a sum wraps.
\<close>

function readi_loop :: "(64 word \<Rightarrow> byte list \<Rightarrow> 'm \<Rightarrow> bool \<times> 'm) \<Rightarrow> superblock \<Rightarrow> nat \<Rightarrow> nat \<Rightarrow> nat \<Rightarrow> 64 word \<Rightarrow>
    disk \<Rightarrow> inode \<Rightarrow> 'm \<Rightarrow> string + int \<times> disk \<times> inode \<times> 'm" where
  "readi_loop cpout sb n tot off dst dk ip mem =
     (if tot < n
      then (case bmap sb (off div BSIZE) dk ip of
              Inl e \<Rightarrow> Inl e
            | Inr (addr, dk, ip) \<Rightarrow>
                if addr = 0 then Inr (int tot, dk, ip, mem)
                else let m = min (n - tot) (BSIZE - off mod BSIZE) in
                  (case cpout dst (take m (drop (off mod BSIZE) (dk addr))) mem of (good, mem) \<Rightarrow>
                    if good then readi_loop cpout sb n (tot + m) (off + m) (dst + of_nat m) dk ip mem
                    else Inr (-1, dk, ip, mem)))
      else Inr (int tot, dk, ip, mem))"
  by pat_completeness auto
termination
  by (relation "measure (\<lambda>(cpout, sb, n, tot, off, dst, dk, ip, mem). n - tot)") (auto simp: BSIZE_eq)

definition readi :: "(64 word \<Rightarrow> byte list \<Rightarrow> 'm \<Rightarrow> bool \<times> 'm) \<Rightarrow> superblock \<Rightarrow> 64 word \<Rightarrow> 32 word \<Rightarrow> 32 word \<Rightarrow>
    disk \<Rightarrow> inode \<Rightarrow> 'm \<Rightarrow> string + int \<times> disk \<times> inode \<times> 'm" where
  "readi cpout sb dst off n dk ip mem =
     (if off > isize ip \<or> off + n < off then Inr (0, dk, ip, mem)
      else let n = (if off + n > isize ip then isize ip - off else n)
           in readi_loop cpout sb (unat n) 0 (unat off) dst dk ip mem)"

function writei_loop :: "(64 word \<Rightarrow> nat \<Rightarrow> 'm \<Rightarrow> bool \<times> byte list) \<Rightarrow> superblock \<Rightarrow> nat \<Rightarrow> nat \<Rightarrow> nat \<Rightarrow> 64 word \<Rightarrow>
    disk \<Rightarrow> inode \<Rightarrow> 'm \<Rightarrow> string + nat \<times> nat \<times> disk \<times> inode" where
  "writei_loop cpin sb n tot off src dk ip mem =
     (if tot < n
      then (case bmap sb (off div BSIZE) dk ip of
              Inl e \<Rightarrow> Inl e
            | Inr (addr, dk, ip) \<Rightarrow>
                if addr = 0 then Inr (tot, off, dk, ip)
                else let m = min (n - tot) (BSIZE - off mod BSIZE) in
                  (case cpin src m mem of (good, bs) \<Rightarrow>
                    let dk = dk(addr := splice (dk addr) (off mod BSIZE) bs) in
                    if good then writei_loop cpin sb n (tot + m) (off + m) (src + of_nat m) dk ip mem
                    else Inr (tot, off, dk, ip)))
      else Inr (tot, off, dk, ip))"
  by pat_completeness auto
termination
  by (relation "measure (\<lambda>(cpin, sb, n, tot, off, src, dk, ip, mem). n - tot)") (auto simp: BSIZE_eq)

definition writei :: "(64 word \<Rightarrow> nat \<Rightarrow> 'm \<Rightarrow> bool \<times> byte list) \<Rightarrow> superblock \<Rightarrow> 64 word \<Rightarrow> 32 word \<Rightarrow> 32 word \<Rightarrow>
    disk \<Rightarrow> inode \<Rightarrow> 'm \<Rightarrow> string + int \<times> disk \<times> inode" where
  "writei cpin sb src off n dk ip mem =
     (if off > isize ip \<or> off + n < off then Inr (-1, dk, ip)
      else if off + n > of_nat (MAXFILE * BSIZE) then Inr (-1, dk, ip)
      else case writei_loop cpin sb (unat n) 0 (unat off) src dk ip mem of
          Inl e \<Rightarrow> Inl e
        | Inr (tot, off, dk, ip) \<Rightarrow>
            let ip = (if off > unat (isize ip) then ip\<lparr>isize := of_nat off\<rparr> else ip)
            in Inr (int tot, iupdate sb dk ip, ip))"

declare itrunc_direct.simps [simp del] itrunc_indirect.simps [simp del] readi_loop.simps [simp del]
  writei_loop.simps [simp del]

section \<open>Who owns a block\<close>

text \<open>
  \<open>slot dk ip k\<close> is the block number that the file keeps at place \<open>k\<close>: \<open>None\<close> is the indirect block,
  \<open>Some bn\<close> the block \<open>bn\<close> of the content; 0 is a hole.
\<close>

definition slot :: "disk \<Rightarrow> inode \<Rightarrow> nat option \<Rightarrow> nat" where
  "slot dk ip k =
     (case k of
        None \<Rightarrow> unat (addrs ip ! NDIRECT)
      | Some bn \<Rightarrow>
          if bn < NDIRECT then unat (addrs ip ! bn)
          else if addrs ip ! NDIRECT = 0 then 0
          else unat (word_at (dk (unat (addrs ip ! NDIRECT))) (bn - NDIRECT)))"

definition places :: "nat option set" where
  "places = insert None (Some ` {..<MAXFILE})"

definition bitmap_blocks :: "superblock \<Rightarrow> nat set" where
  "bitmap_blocks sb = BBLOCK sb ` {..<size sb}"

text \<open>
  \<open>owns sb P dk f\<close>: the blocks \<open>f k\<close> are distinct, in use, and none of them is in the bitmap or in the
  set \<open>P\<close>, which holds the blocks of all others: the super block, the inodes and the other files.
\<close>

definition owns :: "superblock \<Rightarrow> nat set \<Rightarrow> disk \<Rightarrow> (nat option \<Rightarrow> nat) \<Rightarrow> bool" where
  "owns sb P dk f \<longleftrightarrow> disk_ok sb dk \<and>
     (\<forall>p \<in> P. p < size sb \<and> marked sb dk p \<and> p \<notin> bitmap_blocks sb) \<and>
     (\<forall>k \<in> places. f k \<noteq> 0 \<longrightarrow> f k < size sb \<and> marked sb dk (f k) \<and> f k \<notin> P \<and> f k \<notin> bitmap_blocks sb) \<and>
     (\<forall>k \<in> places. \<forall>l \<in> places. f k = f l \<and> f k \<noteq> 0 \<longrightarrow> k = l)"

definition file_ok :: "superblock \<Rightarrow> nat set \<Rightarrow> disk \<Rightarrow> inode \<Rightarrow> bool" where
  "file_ok sb P dk ip \<longleftrightarrow> length (addrs ip) = NDIRECT + 1 \<and> owns sb P dk (slot dk ip) \<and>
     unat (isize ip) \<le> MAXFILE * BSIZE \<and> (\<forall>bn. bn * BSIZE < unat (isize ip) \<longrightarrow> slot dk ip (Some bn) \<noteq> 0)"

text \<open>The byte at a position of the file; a hole reads as zero.\<close>

definition fbyte :: "disk \<Rightarrow> inode \<Rightarrow> nat \<Rightarrow> byte" where
  "fbyte dk ip i = (let b = slot dk ip (Some (i div BSIZE)) in if b = 0 then 0 else dk b ! (i mod BSIZE))"

definition contents :: "disk \<Rightarrow> inode \<Rightarrow> byte list" where
  "contents dk ip = map (fbyte dk ip) [0..<unat (isize ip)]"

lemma MAXFILE_eq: "MAXFILE = 268" and NDIRECT_eq: "NDIRECT = 12" and NINDIRECT_eq: "NINDIRECT = 256"
  by (simp_all add: MAXFILE_def NDIRECT_def NINDIRECT_def BSIZE_eq)

lemma places_iff [simp]: "None \<in> places" "Some bn \<in> places \<longleftrightarrow> bn < MAXFILE"
  by (auto simp: places_def)

lemma Some_image [simp]: "Some x \<in> Some ` A \<longleftrightarrow> x \<in> A"
  by auto

lemma ownsD:
  assumes "owns sb P dk f"
  shows "disk_ok sb dk" "p \<in> P \<Longrightarrow> p < size sb" "p \<in> P \<Longrightarrow> marked sb dk p" "p \<in> P \<Longrightarrow> p \<notin> bitmap_blocks sb"
    "k \<in> places \<Longrightarrow> f k \<noteq> 0 \<Longrightarrow> f k < size sb" "k \<in> places \<Longrightarrow> f k \<noteq> 0 \<Longrightarrow> marked sb dk (f k)"
    "k \<in> places \<Longrightarrow> f k \<noteq> 0 \<Longrightarrow> f k \<notin> P" "k \<in> places \<Longrightarrow> f k \<noteq> 0 \<Longrightarrow> f k \<notin> bitmap_blocks sb"
    "k \<in> places \<Longrightarrow> l \<in> places \<Longrightarrow> f k = f l \<Longrightarrow> f k \<noteq> 0 \<Longrightarrow> k = l"
  using assms unfolding owns_def by blast+

lemma bitmap_blocksI [simp]: "b < size sb \<Longrightarrow> BBLOCK sb b \<in> bitmap_blocks sb"
  by (simp add: bitmap_blocks_def)

lemma marked_upd:
  "p \<notin> bitmap_blocks sb \<Longrightarrow> b < size sb \<Longrightarrow> marked sb (dk(p := x)) b = marked sb dk b"
  by (rule marked_cong) (auto simp: bitmap_blocks_def)

lemma disk_ok_upd:
  assumes "disk_ok sb dk" "p < size sb" "p \<notin> bitmap_blocks sb" "length x = BSIZE"
  shows "disk_ok sb (dk(p := x))"
proof -
  have "0 < size sb" using assms(2) by simp
  then show ?thesis using assms disk_okD [OF assms(1)] by (simp add: disk_ok_def marked_upd)
qed

text \<open>A store outside the bitmap, the allocation of a block for a hole, and the release of a block.\<close>

lemma owns_store:
  assumes o: "owns sb P dk f" and p: "p < size sb" "p \<notin> bitmap_blocks sb" "length x = BSIZE"
  shows "owns sb P (dk(p := x)) f"
  using ownsD [OF o] disk_ok_upd [OF ownsD(1) [OF o] p] p by (simp add: owns_def marked_upd)

lemma owns_alloc:
  assumes o: "owns sb P dk f"
  obtains (full) "balloc sb dk = (0, dk)" "free_blocks sb dk = {}"
  | (new) r dk' where "balloc sb dk = (r, dk')" "r \<noteq> 0" "r < size sb" "r \<notin> P" "\<forall>k \<in> places. f k \<noteq> r"
      "dk' r = replicate BSIZE 0" "\<forall>p. p \<noteq> r \<and> p \<notin> bitmap_blocks sb \<longrightarrow> dk' p = dk p"
      "\<And>k. k \<in> places \<Longrightarrow> f k = 0 \<Longrightarrow> owns sb P dk' (f(k := r))"
proof (cases rule: balloc_cases [OF ownsD(1) [OF o]])
  case 1
  then show ?thesis by (rule full)
next
  case (2 r dk')
  note D = ownsD [OF o]
  have nb: "r \<notin> bitmap_blocks sb"
    using 2 disk_okD(5) [OF D(1)] by (auto simp: bitmap_blocks_def)
  have nP: "r \<notin> P" and nf: "\<forall>k \<in> places. f k \<noteq> r" using D(3,6) 2 by blast+
  have "owns sb P dk' (f(k := r))" if "k \<in> places" "f k = 0" for k
    using D 2 nb nP nf that unfolding owns_def by simp (metis)
  then show ?thesis using new [of r dk'] 2 nP nf by (metis bitmap_blocksI)
qed

lemma owns_alloc_new:
  assumes o: "owns sb P dk f" and k: "k \<in> places" "f k = 0" and b: "balloc sb dk = (r, dk')" "r \<noteq> 0"
  shows "r < size sb" "r \<notin> P" "\<forall>k \<in> places. f k \<noteq> r" "dk' r = replicate BSIZE 0"
    "\<forall>p. p \<noteq> r \<and> p \<notin> bitmap_blocks sb \<longrightarrow> dk' p = dk p" "owns sb P dk' (f(k := r))"
proof -
  have "r < size sb \<and> r \<notin> P \<and> (\<forall>k \<in> places. f k \<noteq> r) \<and> dk' r = replicate BSIZE 0 \<and>
    (\<forall>p. p \<noteq> r \<and> p \<notin> bitmap_blocks sb \<longrightarrow> dk' p = dk p) \<and> owns sb P dk' (f(k := r))"
  proof (cases rule: owns_alloc [OF o])
    case 1
    then show ?thesis using b by simp
  next
    case (2 r1 dk1)
    then have e: "r1 = r" "dk1 = dk'" using b(1) by simp_all
    show ?thesis using 2(3-7) 2(8) [OF k] unfolding e by (intro conjI)
  qed
  then show "r < size sb" "r \<notin> P" "\<forall>k \<in> places. f k \<noteq> r" "dk' r = replicate BSIZE 0"
    "\<forall>p. p \<noteq> r \<and> p \<notin> bitmap_blocks sb \<longrightarrow> dk' p = dk p" "owns sb P dk' (f(k := r))" by blast+
qed

lemma owns_free:
  assumes o: "owns sb P dk f" and k: "k \<in> places" "f k \<noteq> 0"
  obtains dk' where "bfree sb (f k) dk = Inr dk'" "owns sb P dk' (f(k := 0))"
    "free_blocks sb dk' = insert (f k) (free_blocks sb dk)" "\<forall>p. p \<notin> bitmap_blocks sb \<longrightarrow> dk' p = dk p"
proof -
  note D = ownsD [OF o]
  have "\<forall>c < size sb. f k \<noteq> BBLOCK sb c" using D(8) [OF k] by (auto simp: bitmap_blocks_def)
  then obtain dk' where b: "bfree sb (f k) dk = Inr dk'" "disk_ok sb dk'"
    "\<And>c. marked sb dk' c \<longleftrightarrow> c \<noteq> f k \<and> marked sb dk c" "\<And>c. c \<noteq> BBLOCK sb (f k) \<Longrightarrow> dk' c = dk c"
    using bfree_effect [OF D(1) D(5) [OF k] k(2) _ D(6) [OF k]] by blast
  have "owns sb P dk' (f(k := 0))"
    using D b(2) k unfolding owns_def b(3) by simp (metis neq0_conv)
  moreover have "free_blocks sb dk' = insert (f k) (free_blocks sb dk)"
    using D(5) [OF k] by (auto simp: free_blocks_def b(3))
  moreover have "dk' p = dk p" if "p \<notin> bitmap_blocks sb" for p
    using b(4) D(5) [OF k] that by (metis bitmap_blocksI)
  ultimately show ?thesis using that b(1) by blast
qed

lemma file_okD:
  assumes "file_ok sb P dk ip"
  shows "length (addrs ip) = NDIRECT + 1" "owns sb P dk (slot dk ip)" "unat (isize ip) \<le> MAXFILE * BSIZE"
    "bn * BSIZE < unat (isize ip) \<Longrightarrow> slot dk ip (Some bn) \<noteq> 0"
  using assms unfolding file_ok_def by blast+

lemma length_block: "owns sb P dk f \<Longrightarrow> length (dk b) = BSIZE"
  using disk_okD(1) [OF ownsD(1)] .

text \<open>A store into a block that is not the indirect block leaves the map of the file as it is.\<close>

lemma slot_upd: "p \<noteq> slot dk ip None \<or> p = 0 \<Longrightarrow> slot (dk(p := x)) ip = slot dk ip"
  by (auto simp: slot_def fun_eq_iff unat_eq_0 split: option.splits)

lemma slot_cong:
  assumes "dk' (slot dk ip None) = dk (slot dk ip None)"
  shows "slot dk' ip = slot dk ip"
  using assms by (auto simp: slot_def fun_eq_iff split: option.splits)

lemma slot_addrs: "addrs ip' = addrs ip \<Longrightarrow> slot dk ip' = slot dk ip"
  by (simp add: slot_def fun_eq_iff split: option.splits)

text \<open>
  What \<open>bmap\<close> does to a file: it fills holes with blocks of zeros, so no byte changes.
\<close>

definition grows :: "superblock \<Rightarrow> nat set \<Rightarrow> disk \<Rightarrow> inode \<Rightarrow> disk \<Rightarrow> inode \<Rightarrow> bool" where
  "grows sb P dk ip dk' ip' \<longleftrightarrow> file_ok sb P dk' ip' \<and> ip' = ip\<lparr>addrs := addrs ip'\<rparr> \<and>
     (\<forall>k \<in> places. slot dk ip k \<noteq> 0 \<longrightarrow> slot dk' ip' k = slot dk ip k) \<and>
     (\<forall>i < MAXFILE * BSIZE. fbyte dk' ip' i = fbyte dk ip i) \<and> (\<forall>p \<in> P. dk' p = dk p)"

lemma grows_refl: "file_ok sb P dk ip \<Longrightarrow> grows sb P dk ip dk ip"
  by (simp add: grows_def)

lemma grows_trans: "grows sb P dk ip dk1 ip1 \<Longrightarrow> grows sb P dk1 ip1 dk2 ip2 \<Longrightarrow> grows sb P dk ip dk2 ip2"
  unfolding grows_def by (metis (no_types, lifting) inode.update_convs(10) inode.select_convs(10) inode.surjective)

text \<open>A fresh block, all zeros, stored at a place that was a hole.\<close>

lemma grows_fill:
  assumes f: "file_ok sb P dk ip" and k: "k \<in> places" and
    r: "owns sb P dk' (slot dk' ip')" "dk' r = replicate BSIZE 0"
    and s: "\<And>l. l \<in> places \<Longrightarrow> slot dk' ip' l = (if l = k then r else slot dk ip l)" "slot dk ip k = 0"
    and ip: "ip' = ip\<lparr>addrs := addrs ip'\<rparr>" "length (addrs ip') = NDIRECT + 1"
    and dk: "\<And>p. p \<noteq> r \<Longrightarrow> p \<notin> bitmap_blocks sb \<Longrightarrow> p \<noteq> slot dk ip None \<or> p = 0 \<Longrightarrow> dk' p = dk p" "r \<notin> P"
  shows "grows sb P dk ip dk' ip'"
proof -
  note F = file_okD [OF f] and D = ownsD [OF file_okD(2) [OF f]]
  have i: "isize ip' = isize ip" using ip(1) by (metis inode.select_convs(9) inode.surjective inode.update_convs(10))
  have bn: "bn < MAXFILE" if "bn * BSIZE < unat (isize ip)" for bn
    using that F(3) by (simp add: MAXFILE_eq BSIZE_eq)
  have "slot dk' ip' (Some bn) \<noteq> 0" if "bn * BSIZE < unat (isize ip)" for bn
    using s(1) [of "Some bn"] s(2) F(4) [OF that] bn [OF that] by (cases "Some bn = k") auto
  then have ok: "file_ok sb P dk' ip'" using r(1) F(3) i ip(2) by (simp add: file_ok_def)
  have "fbyte dk' ip' j = fbyte dk ip j" if j: "j < MAXFILE * BSIZE" for j
  proof -
    let ?k = "Some (j div BSIZE)"
    have pl: "?k \<in> places" using j by (simp add: MAXFILE_eq BSIZE_eq)
    consider "?k = k" | "?k \<noteq> k" "slot dk ip ?k = 0" | "?k \<noteq> k" "slot dk ip ?k \<noteq> 0" by blast
    then show ?thesis
    proof cases
      case 1
      have "j mod BSIZE < BSIZE" by (simp add: BSIZE_eq)
      then show ?thesis using 1 s pl r(2) by (simp add: fbyte_def Let_def)
    next
      case 2
      then show ?thesis using s pl by (simp add: fbyte_def Let_def)
    next
      case 3
      have "slot dk ip ?k \<noteq> r" using ownsD(9) [OF r(1) k pl] s 3 pl k by metis
      moreover have "slot dk ip ?k \<noteq> slot dk ip None" using D(9) [OF pl, of None] 3 by auto
      ultimately show ?thesis using dk(1) [OF _ D(8) [OF pl 3(2)]] 3 s pl by (simp add: fbyte_def Let_def)
    qed
  qed
  moreover have "dk' p = dk p" if "p \<in> P" for p
    using dk(1) [of p] dk(2) D(4) [OF that] D(7) [OF places_iff(1)] that by metis
  ultimately show ?thesis using ok ip(1) s by (auto simp: grows_def)
qed

lemma owns_cong: "(\<And>k. k \<in> places \<Longrightarrow> f k = g k) \<Longrightarrow> owns sb P dk f = owns sb P dk g"
  by (simp add: owns_def)

lemma slot_addrs_upd:
  assumes "length (addrs ip) = NDIRECT + 1" "bn < NDIRECT" "unat w = r"
  shows "slot dk (ip\<lparr>addrs := (addrs ip)[bn := w]\<rparr>) l = (if l = Some bn then r else slot dk ip l)"
  using assms by (auto simp: slot_def NDIRECT_eq nth_list_update split: option.splits)

lemma unat_small: "k < 2 ^ 32 \<Longrightarrow> unat (of_nat k :: 32 word) = k"
  by (simp add: unsigned_of_nat take_bit_nat_eq_self)

lemma unat_block: "r < size sb \<Longrightarrow> owns sb P dk f \<Longrightarrow> unat (of_nat r :: 32 word) = r"
proof -
  assume "r < size sb" "owns sb P dk f"
  then show ?thesis using disk_okD(2) [OF ownsD(1)] order_less_trans by (blast intro: unat_small)
qed

text \<open>The three allocations of \<open>bmap\<close>: a direct block, the indirect block, and an entry of the latter.\<close>

lemma fill_direct:
  assumes f: "file_ok sb P dk ip" and bn: "bn < NDIRECT" "addrs ip ! bn = 0" and
    b: "balloc sb dk = (r, dk')" "r \<noteq> 0"
  shows "grows sb P dk ip dk' (ip\<lparr>addrs := (addrs ip)[bn := of_nat r]\<rparr>)"
    "slot dk' (ip\<lparr>addrs := (addrs ip)[bn := of_nat r]\<rparr>) (Some bn) = r"
proof -
  let ?ip = "ip\<lparr>addrs := (addrs ip)[bn := of_nat r]\<rparr>" and ?k = "Some bn"
  note F = file_okD [OF f]
  have k: "?k \<in> places" "slot dk ip ?k = 0" using bn by (simp_all add: slot_def NDIRECT_eq MAXFILE_eq)
  note n = owns_alloc_new [OF F(2) k b]
  have "dk' (slot dk ip None) = dk (slot dk ip None)" if "slot dk ip None \<noteq> 0"
    using n(3,5) ownsD(8) [OF F(2), of None] that by (metis places_iff(1))
  then have "slot dk' ip l = slot dk ip l" for l
    by (cases "slot dk ip None = 0") (auto simp: slot_def unat_eq_0 split: option.splits dest: slot_cong [THEN fun_cong])
  then have s: "slot dk' ?ip l = (if l = ?k then r else slot dk ip l)" for l
    using slot_addrs_upd [OF F(1) bn(1) unat_block [OF n(1) F(2)]] by simp
  then have "slot dk' ?ip = (slot dk ip)(?k := r)" by auto
  then show "grows sb P dk ip dk' ?ip" "slot dk' ?ip ?k = r"
    using grows_fill [OF f k(1), of dk' ?ip r] n s k F(1) by auto
qed

lemma fill_indirect:
  assumes f: "file_ok sb P dk ip" and z: "addrs ip ! NDIRECT = 0" and b: "balloc sb dk = (r, dk')" "r \<noteq> 0"
  shows "grows sb P dk ip dk' (ip\<lparr>addrs := (addrs ip)[NDIRECT := of_nat r]\<rparr>)"
    "slot dk' (ip\<lparr>addrs := (addrs ip)[NDIRECT := of_nat r]\<rparr>) None = r"
proof -
  let ?ip = "ip\<lparr>addrs := (addrs ip)[NDIRECT := of_nat r]\<rparr>"
  note F = file_okD [OF f]
  have k: "slot dk ip None = 0" using z by (simp add: slot_def)
  note n = owns_alloc_new [OF F(2) places_iff(1) k b]
  note u = unat_block [OF n(1) F(2)]
  have s: "slot dk' ?ip l = (if l = None then r else slot dk ip l)" if "l \<in> places" for l
  proof (cases l)
    case (Some bn)
    then have "bn < 268" using that by (simp add: MAXFILE_eq)
    then have "word_at (replicate BSIZE 0) (bn - NDIRECT) = 0"
      by (intro word_at_zeros) (simp add: BSIZE_eq NDIRECT_eq)
    then show ?thesis using Some F(1) u n(4) z by (simp add: slot_def NDIRECT_eq nth_list_update)
  qed (use F(1) u in \<open>simp add: slot_def\<close>)
  then have "owns sb P dk' (slot dk' ?ip)" using n(6) by (subst owns_cong [of _ "(slot dk ip)(None := r)"]) auto
  then show "grows sb P dk ip dk' ?ip" "slot dk' ?ip None = r"
    using grows_fill [OF f places_iff(1), of dk' ?ip r] n s k F(1) by auto
qed

lemma fill_entry:
  assumes f: "file_ok sb P dk ip" and bn: "bn < NINDIRECT" "slot dk ip (Some (NDIRECT + bn)) = 0"
    and a: "slot dk ip None = a" "a \<noteq> 0" and b: "balloc sb dk = (r, dk')" "r \<noteq> 0"
  shows "grows sb P dk ip (dk'(a := set_word (dk' a) bn (of_nat r))) ip"
    "slot (dk'(a := set_word (dk' a) bn (of_nat r))) ip (Some (NDIRECT + bn)) = r"
proof -
  let ?k = "Some (NDIRECT + bn)" and ?dk = "dk'(a := set_word (dk' a) bn (of_nat r))"
  note F = file_okD [OF f]
  have k: "?k \<in> places" using bn(1) by (simp add: MAXFILE_def)
  note n = owns_alloc_new [OF F(2) k bn(2) b]
  note u = unat_block [OF n(1) F(2)]
  have "a < size sb" "a \<notin> bitmap_blocks sb" "a \<noteq> r"
    using ownsD(5,8) [OF F(2) places_iff(1)] bspec [OF n(3) places_iff(1)] a by simp_all
  with n(5) have a': "a < size sb" "a \<notin> bitmap_blocks sb" "a \<noteq> r" "dk' a = dk a" by simp_all
  have l: "length (dk a) = 4 * NINDIRECT" using length_block [OF F(2)] by (simp add: BSIZE_eq NINDIRECT_eq)
  have m: "unat (addrs ip ! NDIRECT) = a" "addrs ip ! NDIRECT \<noteq> 0" using a by (auto simp: slot_def)
  have s: "slot ?dk ip l = (if l = ?k then r else slot dk ip l)" if "l \<in> places" for l
  proof (cases l)
    case (Some c)
    have "c - NDIRECT < NINDIRECT" using Some that by (simp add: MAXFILE_eq NDIRECT_eq NINDIRECT_eq)
    then show ?thesis using Some m u l bn(1) a'(4) by (auto simp: slot_def word_at_set)
  qed (simp add: slot_def)
  have "owns sb P ?dk ((slot dk ip)(?k := r))"
    using owns_store [OF n(6) a'(1,2)] l bn(1) a'(4) by (simp add: BSIZE_eq NINDIRECT_eq)
  then have "owns sb P ?dk (slot ?dk ip)" using s by (subst owns_cong [of _ "(slot dk ip)(?k := r)"]) auto
  then show "grows sb P dk ip ?dk ip" "slot ?dk ip ?k = r"
    using grows_fill [OF f k, of ?dk ip r] n s bn(2) F(1) a a'(3) k by auto
qed

text \<open>
  The whole of \<open>bmap\<close>: the block at that place, or 0 when the disk is full and there is none.
\<close>

lemma bmap_indirect_effect:
  assumes f: "file_ok sb P dk ip" and bn: "bn < NINDIRECT" and a: "slot dk ip None = a" "a \<noteq> 0"
  obtains r dk' where "bmap_indirect sb a bn dk = (r, dk')" "grows sb P dk ip dk' ip"
    "slot dk' ip (Some (NDIRECT + bn)) = r" "r = 0 \<Longrightarrow> free_blocks sb dk' = {}"
proof -
  let ?k = "Some (NDIRECT + bn)"
  have sl: "slot dk ip ?k = unat (word_at (dk a) bn)" using a by (auto simp: slot_def)
  show ?thesis
  proof (cases "slot dk ip ?k = 0")
    case False
    then have "bmap_indirect sb a bn dk = (slot dk ip ?k, dk)"
      by (auto simp: bmap_indirect_def sl Let_def)
    then show ?thesis using that [OF _ grows_refl [OF f] refl] False by simp
  next
    case True
    then have e: "bmap_indirect sb a bn dk = (case balloc sb dk of (r, dk) \<Rightarrow>
       if r \<noteq> 0 then (r, dk(a := set_word (dk a) bn (of_nat r))) else (r, dk))"
      by (simp add: bmap_indirect_def sl unat_eq_0)
    show ?thesis
    proof (cases rule: owns_alloc [OF file_okD(2) [OF f]])
      case 1
      then show ?thesis using that [of 0 dk] e grows_refl [OF f] True by simp
    next
      case (2 r dk')
      then show ?thesis using that [of r] e fill_entry [OF f bn True a 2(1,2)] by simp
    qed
  qed
qed

lemma bmap_effect:
  assumes f: "file_ok sb P dk ip" and bn: "bn < MAXFILE"
  obtains r dk' ip' where "bmap sb bn dk ip = Inr (r, dk', ip')" "grows sb P dk ip dk' ip'"
    "slot dk' ip' (Some bn) = r" "r = 0 \<Longrightarrow> free_blocks sb dk' = {}"
proof (cases "bn < NDIRECT")
  case True
  show ?thesis
  proof (cases "addrs ip ! bn = 0")
    case False
    then have "bmap sb bn dk ip = Inr (unat (addrs ip ! bn), dk, ip)" using True by (simp add: bmap_def)
    then show ?thesis using that grows_refl [OF f] True False by (simp add: slot_def unat_eq_0)
  next
    case z: True
    show ?thesis
    proof (cases rule: owns_alloc [OF file_okD(2) [OF f]])
      case 1
      then show ?thesis using that [of 0 dk ip] True z grows_refl [OF f] by (simp add: bmap_def slot_def)
    next
      case (2 r dk')
      then show ?thesis using that [of r] True z fill_direct [OF f True z 2(1,2)] by (simp add: bmap_def)
    qed
  qed
next
  case False
  let ?n = "bn - NDIRECT"
  have n: "?n < NINDIRECT" "NDIRECT + ?n = bn" using False bn by (auto simp: MAXFILE_def)
  show ?thesis
  proof (cases "addrs ip ! NDIRECT = 0")
    case nz: False
    then have "slot dk ip None = unat (addrs ip ! NDIRECT)" "unat (addrs ip ! NDIRECT) \<noteq> 0"
      by (simp_all add: slot_def unat_eq_0)
    then show ?thesis
      by (rule bmap_indirect_effect [OF f n(1)]) (use that [of _ _ ip] False n nz in \<open>auto simp: bmap_def Let_def\<close>)
  next
    case z: True
    show ?thesis
    proof (cases rule: owns_alloc [OF file_okD(2) [OF f]])
      case 1
      then show ?thesis using that [of 0 dk ip] False n z grows_refl [OF f] by (simp add: bmap_def Let_def slot_def)
    next
      case (2 a dk1)
      let ?ip = "ip\<lparr>addrs := (addrs ip)[NDIRECT := of_nat a]\<rparr>"
      note i = fill_indirect [OF f z 2(1,2)]
      have ok: "file_ok sb P dk1 ?ip" using i(1) by (simp add: grows_def)
      obtain r dk' where
        r: "bmap_indirect sb a ?n dk1 = (r, dk')" "grows sb P dk1 ?ip dk' ?ip"
          "slot dk' ?ip (Some (NDIRECT + ?n)) = r" "r = 0 \<Longrightarrow> free_blocks sb dk' = {}"
        using bmap_indirect_effect [OF ok n(1) i(2) 2(2)] by blast
      have "bmap sb bn dk ip = Inr (r, dk', ?ip)" using False n z 2 r(1) by (simp add: bmap_def Let_def)
      then show ?thesis using that grows_trans [OF i(1) r(2)] r(3,4) n(2) by simp
    qed
  qed
qed

lemma bmap_allocated:
  assumes "slot dk ip (Some bn) \<noteq> 0" "bn < MAXFILE"
  shows "bmap sb bn dk ip = Inr (slot dk ip (Some bn), dk, ip)"
  using assms
  by (auto simp: bmap_def bmap_indirect_def slot_def Let_def MAXFILE_def unat_eq_0 split: if_splits)

lemma growsD:
  assumes "grows sb P dk ip dk' ip'"
  shows "file_ok sb P dk' ip'" "ip' = ip\<lparr>addrs := addrs ip'\<rparr>"
    "k \<in> places \<Longrightarrow> slot dk ip k \<noteq> 0 \<Longrightarrow> slot dk' ip' k = slot dk ip k"
    "i < MAXFILE * BSIZE \<Longrightarrow> fbyte dk' ip' i = fbyte dk ip i" "p \<in> P \<Longrightarrow> dk' p = dk p"
    "isize ip' = isize ip" "inum ip' = inum ip"
proof -
  show e: "ip' = ip\<lparr>addrs := addrs ip'\<rparr>" using assms unfolding grows_def by blast
  show "isize ip' = isize ip" "inum ip' = inum ip" by (subst e, simp)+
qed (use assms in \<open>auto simp: grows_def\<close>)

section \<open>Reading\<close>

lemma div_add_small:
  assumes "a mod n + i < (n :: nat)"
  shows "(a + i) div n = a div n" "(a + i) mod n = a mod n + i"
proof -
  have e: "a + i = (a mod n + i) + n * (a div n)" by simp
  have "n \<noteq> 0" using assms by auto
  then show "(a + i) div n = a div n" by (subst e, subst div_mult_self2) (use assms in simp_all)
  show "(a + i) mod n = a mod n + i" by (subst e, subst mod_mult_self2) (use assms in simp)
qed

lemma upt_split: "i \<le> j \<Longrightarrow> j \<le> k \<Longrightarrow> [i..<k] = [i..<j] @ [j..<k]"
  by (metis le_Suc_ex upt_add_eq_append)

lemma block_bytes:
  assumes f: "file_ok sb P dk ip" and a: "slot dk ip (Some (off div BSIZE)) = a" "a \<noteq> 0"
    and m: "m \<le> BSIZE - off mod BSIZE"
  shows "take m (drop (off mod BSIZE) (dk a)) = map (fbyte dk ip) [off..<off + m]"
proof (rule nth_equalityI)
  have l: "length (dk a) = BSIZE" using length_block [OF file_okD(2) [OF f]] .
  then show e: "length (take m (drop (off mod BSIZE) (dk a))) = length (map (fbyte dk ip) [off..<off + m])"
    using m by simp
  fix i assume "i < length (take m (drop (off mod BSIZE) (dk a)))"
  then have i: "i < m" "off mod BSIZE + i < BSIZE" using m l by auto
  then have "(off + i) div BSIZE = off div BSIZE" "(off + i) mod BSIZE = off mod BSIZE + i"
    using div_add_small by blast+
  then show "take m (drop (off mod BSIZE) (dk a)) ! i = map (fbyte dk ip) [off..<off + m] ! i"
    using i a l m by (simp add: fbyte_def)
qed

text \<open>
  What reading and writing need of the memory on the other side: \<open>put d bs mem\<close> is the memory after a
  complete copy of \<open>bs\<close> to \<open>d\<close>, \<open>fetch a mem\<close> the byte at \<open>a\<close>. A copy may fail at any point.
\<close>

locale destination =
  fixes cpout :: "64 word \<Rightarrow> byte list \<Rightarrow> 'm \<Rightarrow> bool \<times> 'm" and put :: "64 word \<Rightarrow> byte list \<Rightarrow> 'm \<Rightarrow> 'm"
  assumes cpout_put: "cpout d bs mem = (True, mem') \<Longrightarrow> mem' = put d bs mem"
    and put_Nil: "put d [] mem = mem"
    and put_append: "length bs + length cs < 2 ^ 63 \<Longrightarrow>
      put (d + of_nat (length bs)) cs (put d bs mem) = put d (bs @ cs) mem"
begin

lemma readi_loop_effect:
  "file_ok sb P dk ip \<Longrightarrow> off + (n - tot) \<le> unat (isize ip) \<Longrightarrow> tot \<le> n \<Longrightarrow>
   (\<exists>mem'. readi_loop cpout sb n tot off dst dk ip mem = Inr (-1, dk, ip, mem') \<and> (\<exists>d bs mem. \<not> fst (cpout d bs mem))) \<or>
   readi_loop cpout sb n tot off dst dk ip mem =
     Inr (int n, dk, ip, put dst (map (fbyte dk ip) [off..<off + (n - tot)]) mem)"
proof (induction "n - tot" arbitrary: tot off dst mem rule: less_induct)
  case less
  note f = less.prems(1)
  show ?case
  proof (cases "tot < n")
    case False
    then show ?thesis using less.prems(3) by (simp add: readi_loop.simps put_Nil)
  next
    case True
    let ?a = "slot dk ip (Some (off div BSIZE))"
    define m where "m = min (n - tot) (BSIZE - off mod BSIZE)"
    have m: "0 < m" "m \<le> n - tot" "m \<le> BSIZE - off mod BSIZE" using True by (auto simp: BSIZE_eq m_def)
    have "off div BSIZE * BSIZE \<le> off" by simp
    then have "off div BSIZE * BSIZE < unat (isize ip)" using less.prems(2) True by linarith
    then have a: "?a \<noteq> 0" using file_okD(4) [OF f] by blast
    have "off div BSIZE < MAXFILE"
      using file_okD(3) [OF f] less.prems(2) True by (simp add: BSIZE_eq MAXFILE_eq)
    note b = bmap_allocated [OF a this, of sb]
    let ?bs = "map (fbyte dk ip) [off..<off + m]" and ?cs = "map (fbyte dk ip) [off + m..<off + (n - tot)]"
    have bs: "take m (drop (off mod BSIZE) (dk ?a)) = ?bs" by (rule block_bytes [OF f refl a m(3)])
    obtain good mem1 where c: "cpout dst ?bs mem = (good, mem1)" by fastforce
    have step: "readi_loop cpout sb n tot off dst dk ip mem =
      (if good then readi_loop cpout sb n (tot + m) (off + m) (dst + of_nat m) dk ip mem1
       else Inr (-1, dk, ip, mem1))"
      using True a by (subst readi_loop.simps) (simp add: b bs c Let_def m_def [symmetric])
    show ?thesis
    proof (cases good)
      case False
      then show ?thesis using step c by (metis fst_conv)
    next
      case True
      then have mem1: "mem1 = put dst ?bs mem" using cpout_put c by simp
      have "?bs @ ?cs = map (fbyte dk ip) [off..<off + (n - tot)]"
        using upt_split [of off "off + m" "off + (n - tot)"] m(2) by (simp flip: map_append)
      moreover have "length ?bs + length ?cs < 2 ^ 63"
        using file_okD(3) [OF f] less.prems(2) m(2) by (simp add: BSIZE_eq MAXFILE_eq)
      ultimately have "put (dst + of_nat m) ?cs mem1 = put dst (map (fbyte dk ip) [off..<off + (n - tot)]) mem"
        using put_append [of ?bs ?cs dst mem] mem1 by simp
      moreover have "off + m + (n - (tot + m)) = off + (n - tot)" "n - (tot + m) < n - tot" "tot + m \<le> n"
        using m less.prems(3) True by auto
      ultimately show ?thesis
        using less.hyps [of "tot + m" "off + m" "dst + of_nat m" mem1] less.prems(1,2) True step by simp
    qed
  qed
qed

lemma readi_effect:
  assumes f: "file_ok sb P dk ip"
  shows "(\<exists>mem'. readi cpout sb dst off n dk ip mem = Inr (-1, dk, ip, mem') \<and> (\<exists>d bs mem. \<not> fst (cpout d bs mem))) \<or>
   (let bs = (if off + n < off then [] else take (unat n) (drop (unat off) (contents dk ip)))
    in readi cpout sb dst off n dk ip mem = Inr (int (length bs), dk, ip, put dst bs mem))"
proof (cases "off > isize ip \<or> off + n < off")
  case True
  then have "drop (unat off) (contents dk ip) = []" if "\<not> off + n < off"
    using that by (simp add: contents_def word_less_nat_alt)
  then show ?thesis using True by (simp add: readi_def put_Nil)
next
  case False
  define k where "k = (if off + n > isize ip then isize ip - off else n)"
  have "unat (isize ip - off) = unat (isize ip) - unat off" using False by (simp add: unat_sub not_less)
  moreover have "unat (off + n) = unat off + unat n"
    using False unat_plus_simple [of off n] by (simp add: not_less)
  ultimately have k: "unat k = min (unat n) (unat (isize ip) - unat off)" "unat off + unat k \<le> unat (isize ip)"
    using False by (auto simp: k_def word_less_nat_alt)
  have bs: "take (unat n) (drop (unat off) (contents dk ip)) = map (fbyte dk ip) [unat off..<unat off + unat k]"
    using k(2) by (simp add: contents_def k(1) drop_map take_map min_def)
  show ?thesis
    using readi_loop_effect [OF f, of "unat off" "unat k" 0 dst mem] k(2) False
    by (auto simp: readi_def Let_def bs k_def [symmetric])
qed

end

section \<open>Inodes on the disk\<close>

lemma length_concat_bytes32: "length (concat (map bytes32 ws)) = 4 * length ws"
  by (induction ws) (simp_all add: lens)

lemma length_dinode: "length (addrs ip) = NDIRECT + 1 \<Longrightarrow> length (dinode_bytes ip) = 64"
  by (simp add: dinode_bytes_def length_concat_bytes32 lens NDIRECT_eq)

lemma dinode_fits: "64 * (i mod IPB) + 64 \<le> BSIZE"
proof -
  have "i mod 16 < 16" by simp
  then show ?thesis unfolding IPB_def BSIZE_eq by simp
qed

lemma iupdate_length:
  assumes "length (addrs ip) = NDIRECT + 1" "\<And>b. length (dk b) = BSIZE"
  shows "length (iupdate sb dk ip b) = BSIZE"
  using assms dinode_fits [of "inum ip"] by (simp add: iupdate_def Let_def length_dinode)

lemma iupdate_effect:
  assumes f: "file_ok sb P dk ip" and p: "IBLOCK sb (inum ip) \<in> P"
  shows "file_ok sb P (iupdate sb dk ip) ip" "i < MAXFILE * BSIZE \<Longrightarrow> fbyte (iupdate sb dk ip) ip i = fbyte dk ip i"
    "contents (iupdate sb dk ip) ip = contents dk ip"
    "free_blocks sb (iupdate sb dk ip) = free_blocks sb dk"
proof -
  note F = file_okD [OF f] and D = ownsD [OF file_okD(2) [OF f]]
  let ?b = "IBLOCK sb (inum ip)"
  have e: "iupdate sb dk ip = dk(?b := iupdate sb dk ip ?b)" by (simp add: iupdate_def Let_def)
  have l: "length (iupdate sb dk ip ?b) = BSIZE" using iupdate_length F(1) length_block [OF F(2)] by blast
  have n: "?b \<noteq> slot dk ip k" if "k \<in> places" "slot dk ip k \<noteq> 0" for k using D(7) [OF that] p by auto
  then have s: "slot (iupdate sb dk ip) ip = slot dk ip"
    by (subst e, intro slot_upd, cases "slot dk ip None = 0") (use n [OF places_iff(1)] in auto)
  have o: "owns sb P (iupdate sb dk ip) (slot dk ip)"
    using owns_store [OF F(2) D(2,4) [OF p] l] e by simp
  then show "file_ok sb P (iupdate sb dk ip) ip" using F by (simp add: file_ok_def s)
  show "fbyte (iupdate sb dk ip) ip i = fbyte dk ip i" if "i < MAXFILE * BSIZE" for i
  proof (cases "slot dk ip (Some (i div BSIZE)) = 0")
    case False
    have "Some (i div BSIZE) \<in> places" using that by (simp add: MAXFILE_eq BSIZE_eq)
    then have "iupdate sb dk ip (slot dk ip (Some (i div BSIZE))) = dk (slot dk ip (Some (i div BSIZE)))"
      using n [OF _ False] by (subst e) simp
    then show ?thesis by (simp add: fbyte_def s Let_def)
  qed (simp add: fbyte_def s)
  then show "contents (iupdate sb dk ip) ip = contents dk ip" using F(3) by (simp add: contents_def)
  show "free_blocks sb (iupdate sb dk ip) = free_blocks sb dk"
    unfolding free_blocks_def by (subst e) (use marked_upd D(4) [OF p] in auto)
qed

text \<open>What was stored comes back, whatever the inode in memory held before.\<close>

lemma splice_at: "i + length xs \<le> length d \<Longrightarrow> k < length xs \<Longrightarrow> splice d i xs ! (i + k) = xs ! k"
  by (simp add: nth_splice)

lemma word_at_drop: "4 * (m + j) + 4 \<le> length d \<Longrightarrow> word_at (drop (4 * m) d) j = word_at d (m + j)"
  by (simp add: word_at_def add.assoc distrib_left)

lemma word_at_append: "4 * j + 4 \<le> length xs \<Longrightarrow> word_at (xs @ ys) j = word_at xs j"
  by (simp add: word_at_def nth_append)

lemma word_at_concat: "i < length ws \<Longrightarrow> word_at (concat (map bytes32 ws)) i = ws ! i"
proof (induction ws arbitrary: i)
  case (Cons w ws)
  show ?case
  proof (cases i)
    case 0
    then show ?thesis by (simp add: word_at_def bytes32_def word32_bytes numeral_2_eq_2 numeral_3_eq_3)
  next
    case (Suc j)
    then have "word_at (concat (map bytes32 (w # ws))) i = word_at (drop (4 * 1) (concat (map bytes32 (w # ws)))) j"
      using Cons.prems by (subst word_at_drop) (simp_all add: length_concat_bytes32 lens)
    then show ?thesis using Suc Cons by (simp add: lens)
  qed
qed simp

lemma word_at_splice:
  assumes "4 * i + length xs \<le> length d" "4 * j + 4 \<le> length xs"
  shows "word_at (splice d (4 * i) xs) (i + j) = word_at xs j"
proof -
  have "splice d (4 * i) xs ! (4 * (i + j) + k) = xs ! (4 * j + k)" if "k < 4" for k
    using splice_at [OF assms(1), of "4 * j + k"] assms(2) that by (simp add: distrib_left add.assoc)
  from this [of 0] this [of 1] this [of 2] this [of 3] show ?thesis by (simp add: word_at_def)
qed

lemma dinode_words:
  assumes "length (addrs ip) = NDIRECT + 1"
  shows "word_at (dinode_bytes ip) 2 = isize ip" "i < NDIRECT + 1 \<Longrightarrow> word_at (dinode_bytes ip) (3 + i) = addrs ip ! i"
proof -
  have d: "drop (4 * 2) (dinode_bytes ip) = concat (map bytes32 (isize ip # addrs ip))"
    by (simp add: dinode_bytes_def lens bytes16_def)
  have "word_at (dinode_bytes ip) (2 + j) = (isize ip # addrs ip) ! j" if "j < NDIRECT + 2" for j
  proof -
    have "word_at (dinode_bytes ip) (2 + j) = word_at (drop (4 * 2) (dinode_bytes ip)) j"
      using that length_dinode [OF assms] by (subst word_at_drop) (simp_all add: NDIRECT_eq)
    then show ?thesis unfolding d using that assms by (subst (asm) word_at_concat) simp_all
  qed
  from this [of 0] this [of "i + 1"] show "word_at (dinode_bytes ip) 2 = isize ip"
    "i < NDIRECT + 1 \<Longrightarrow> word_at (dinode_bytes ip) (3 + i) = addrs ip ! i" by (simp_all add: numeral_3_eq_3)
qed

lemma dinode_half_splice:
  assumes "64 * s + length xs \<le> length d" "2 * j + 2 \<le> length xs"
  shows "dinode_half (splice d (64 * s) xs) s j = word16 (xs ! (2 * j)) (xs ! (2 * j + 1))"
  using splice_at [OF assms(1), of "2 * j"] splice_at [OF assms(1), of "2 * j + 1"] assms(2)
  by (simp add: dinode_half_def add.assoc)

text \<open>What \<open>iupdate\<close> stored comes back, whatever the inode in memory held before.\<close>

lemma load_iupdate:
  assumes a: "length (addrs ip) = NDIRECT + 1" and l: "length (dk (IBLOCK sb (inum ip))) = BSIZE"
  shows "load_dinode (iupdate sb dk ip (IBLOCK sb (inum ip))) (inum ip mod IPB) ip0 =
    ip0\<lparr>itype := itype ip, major := major ip, minor := minor ip, nlink := nlink ip, isize := isize ip, addrs := addrs ip\<rparr>"
proof -
  let ?s = "inum ip mod IPB" and ?d = "dk (IBLOCK sb (inum ip))"
  have n: "length (dinode_bytes ip) = 64" using length_dinode [OF a] .
  have fit: "64 * ?s + length (dinode_bytes ip) \<le> length ?d" using dinode_fits l n by simp
  have w: "word_at (splice ?d (64 * ?s) (dinode_bytes ip)) (16 * ?s + j) = word_at (dinode_bytes ip) j"
    if "j < 16" for j
    using word_at_splice [of "16 * ?s" "dinode_bytes ip" ?d j] fit n that by simp
  note h = dinode_half_splice [OF fit]
  have "map (\<lambda>i. word_at (splice ?d (64 * ?s) (dinode_bytes ip)) (16 * ?s + 3 + i)) [0..<NDIRECT + 1] = addrs ip"
    by (rule nth_equalityI) (use a dinode_words(2) [OF a] w [of "3 + _"] in \<open>auto simp: NDIRECT_eq add.assoc simp del: upt_Suc\<close>)
  moreover have "dinode_half (splice ?d (64 * ?s) (dinode_bytes ip)) ?s 0 = itype ip"
    "dinode_half (splice ?d (64 * ?s) (dinode_bytes ip)) ?s 1 = major ip"
    "dinode_half (splice ?d (64 * ?s) (dinode_bytes ip)) ?s 2 = minor ip"
    "dinode_half (splice ?d (64 * ?s) (dinode_bytes ip)) ?s 3 = nlink ip"
    using h [of 0] h [of 1] h [of 2] h [of 3] n by (simp_all add: dinode_bytes_def bytes16_def word16_bytes)
  ultimately show ?thesis
    using w [of 2] dinode_words(1) [OF a] by (simp add: load_dinode_def iupdate_def Let_def del: upt_Suc)
qed

text \<open>The inode on the disk is the one in memory.\<close>

definition synced :: "superblock \<Rightarrow> disk \<Rightarrow> inode \<Rightarrow> bool" where
  "synced sb dk ip \<longleftrightarrow> load_dinode (dk (IBLOCK sb (inum ip))) (inum ip mod IPB) ip = ip"

lemma synced_iupdate: "file_ok sb P dk ip \<Longrightarrow> synced sb (iupdate sb dk ip) ip"
  using load_iupdate [of ip dk sb ip] length_block [OF file_okD(2)] file_okD(1) by (simp add: synced_def)

section \<open>Writing\<close>

text \<open>The bytes from \<open>off\<close> to before \<open>e\<close> are those of \<open>g\<close>, the others and all other blocks as before.\<close>

definition wrote :: "superblock \<Rightarrow> nat set \<Rightarrow> (nat \<Rightarrow> byte) \<Rightarrow> nat \<Rightarrow> nat \<Rightarrow> disk \<Rightarrow> inode \<Rightarrow> disk \<Rightarrow> inode \<Rightarrow> bool" where
  "wrote sb P g off e dk ip dk' ip' \<longleftrightarrow> file_ok sb P dk' ip' \<and> ip' = ip\<lparr>addrs := addrs ip'\<rparr> \<and> (\<forall>p \<in> P. dk' p = dk p) \<and>
     (\<forall>i < MAXFILE * BSIZE. fbyte dk' ip' i = (if off \<le> i \<and> i < e then g i else fbyte dk ip i)) \<and>
     (\<forall>i < MAXFILE * BSIZE. off \<le> i \<and> i < e \<longrightarrow> slot dk' ip' (Some (i div BSIZE)) \<noteq> 0) \<and>
     (\<forall>k \<in> places. slot dk ip k \<noteq> 0 \<longrightarrow> slot dk' ip' k = slot dk ip k)"

lemma wrote_nothing: "file_ok sb P dk ip \<Longrightarrow> wrote sb P g off off dk ip dk ip"
  by (auto simp: wrote_def)

lemma wrote_grows: "grows sb P dk ip dk' ip' \<Longrightarrow> wrote sb P g off off dk ip dk' ip'"
  by (auto simp: wrote_def grows_def)

lemma wrote_trans:
  assumes "wrote sb P g off m dk ip dk1 ip1" "wrote sb P g m e dk1 ip1 dk2 ip2" "off \<le> m" "m \<le> e"
  shows "wrote sb P g off e dk ip dk2 ip2"
proof -
  have a: "ip1 = ip\<lparr>addrs := addrs ip1\<rparr>" "ip2 = ip1\<lparr>addrs := addrs ip2\<rparr>" "file_ok sb P dk2 ip2"
    using assms(1,2) by (auto simp: wrote_def)
  have "ip2 = ip\<lparr>addrs := addrs ip2\<rparr>" using a(2) by (subst (asm) a(1)) simp
  moreover have "slot dk2 ip2 (Some (i div BSIZE)) \<noteq> 0" if i: "i < MAXFILE * BSIZE" "off \<le> i" "i < e" for i
  proof (cases "m \<le> i")
    case False
    then have "slot dk1 ip1 (Some (i div BSIZE)) \<noteq> 0" using assms(1) i by (simp add: wrote_def)
    moreover have "Some (i div BSIZE) \<in> places" using i(1) by (simp add: MAXFILE_eq BSIZE_eq)
    ultimately show ?thesis using assms(2) unfolding wrote_def by metis
  qed (use assms(2) i in \<open>simp add: wrote_def\<close>)
  moreover have "fbyte dk2 ip2 i = (if off \<le> i \<and> i < e then g i else fbyte dk ip i)" if "i < MAXFILE * BSIZE" for i
    using assms that by (auto simp: wrote_def)
  moreover have "\<forall>p \<in> P. dk2 p = dk p" "\<forall>k \<in> places. slot dk ip k \<noteq> 0 \<longrightarrow> slot dk2 ip2 k = slot dk ip k"
    using assms(1,2) by (simp_all add: wrote_def)
  ultimately show ?thesis using a(3) unfolding wrote_def by blast
qed

lemma store_wrote:
  assumes f: "file_ok sb P dk ip" and a: "slot dk ip (Some (off div BSIZE)) = a" "a \<noteq> 0" "off < MAXFILE * BSIZE"
    and l: "off mod BSIZE + length bs \<le> BSIZE" and g: "\<And>t. t < length bs \<Longrightarrow> bs ! t = g (off + t)"
  shows "wrote sb P g off (off + length bs) dk ip (dk(a := splice (dk a) (off mod BSIZE) bs)) ip"
    "free_blocks sb (dk(a := splice (dk a) (off mod BSIZE) bs)) = free_blocks sb dk"
proof -
  let ?x = "splice (dk a) (off mod BSIZE) bs" and ?k = "Some (off div BSIZE)"
  note F = file_okD [OF f] and D = ownsD [OF file_okD(2) [OF f]]
  have pl: "?k \<in> places" using a(3) by (simp add: MAXFILE_eq BSIZE_eq)
  have blk: "length (dk a) = BSIZE" using length_block [OF F(2)] .
  have d: "a < size sb" "a \<notin> bitmap_blocks sb" "a \<notin> P" using D(5,7,8) [OF pl] a by auto
  have x: "length ?x = BSIZE" using l blk by simp
  have s: "slot (dk(a := ?x)) ip = slot dk ip"
    by (rule slot_upd) (use D(9) [OF pl places_iff(1)] a in auto)
  have ok: "file_ok sb P (dk(a := ?x)) ip" using F owns_store [OF F(2) d(1,2) x] by (simp add: file_ok_def s)
  have b: "fbyte (dk(a := ?x)) ip i = (if off \<le> i \<and> i < off + length bs then g i else fbyte dk ip i)"
    if i: "i < MAXFILE * BSIZE" for i
  proof (cases "i div BSIZE = off div BSIZE")
    case True
    have e: "i mod BSIZE + BSIZE * (off div BSIZE) = i" "off mod BSIZE + BSIZE * (off div BSIZE) = off"
      using True by (metis mod_mult_div_eq)+
    have m: "i mod BSIZE < BSIZE" by (simp add: BSIZE_eq)
    have r: "off mod BSIZE \<le> i mod BSIZE \<and> i mod BSIZE < off mod BSIZE + length bs \<longleftrightarrow> off \<le> i \<and> i < off + length bs"
      "i mod BSIZE - off mod BSIZE = i - off" using e by linarith+
    show ?thesis using r m blk l a g [of "i - off"] by (auto simp: fbyte_def s True nth_splice Let_def)
  next
    case False
    have "Some (i div BSIZE) \<in> places" using i by (simp add: MAXFILE_eq BSIZE_eq)
    then have "slot dk ip (Some (i div BSIZE)) \<noteq> a" using D(9) [OF pl, of "Some (i div BSIZE)"] a False by auto
    moreover have "\<not> (off \<le> i \<and> i < off + length bs)"
    proof
      assume h: "off \<le> i \<and> i < off + length bs"
      then have "off mod BSIZE + (i - off) < BSIZE" using l by linarith
      from div_add_small(1) [OF this] show False using False h by simp
    qed
    ultimately show ?thesis unfolding fbyte_def s by (auto simp: Let_def)
  qed
  have "i div BSIZE = off div BSIZE" if "off \<le> i" "i < off + length bs" for i
    using div_add_small(1) [of off BSIZE "i - off"] that l by simp
  then show "wrote sb P g off (off + length bs) dk ip (dk(a := ?x)) ip"
    using ok d b s a unfolding wrote_def by auto
  show "free_blocks sb (dk(a := ?x)) = free_blocks sb dk"
    unfolding free_blocks_def using marked_upd d by auto
qed

locale source =
  fixes cpin :: "64 word \<Rightarrow> nat \<Rightarrow> 'm \<Rightarrow> bool \<times> byte list" and fetch :: "'m \<Rightarrow> 64 word \<Rightarrow> byte"
  assumes cpin_fetch: "\<exists>j \<le> n. snd (cpin a n mem) = map (\<lambda>t. fetch mem (a + of_nat t)) [0..<j] \<and>
    (fst (cpin a n mem) \<longrightarrow> j = n)"
begin

text \<open>\<open>k\<close> bytes are written in whole chunks, \<open>j\<close> more when a copy fails in the middle of one.\<close>

lemma writei_loop_effect:
  assumes "file_ok sb P dk ip" "off + (n - tot) \<le> MAXFILE * BSIZE" "tot \<le> n" "\<And>t. fetch mem (src + of_nat t) = g (off + t)"
  shows "\<exists>k j dk' ip'. writei_loop cpin sb n tot off src dk ip mem = Inr (k, off + (k - tot), dk', ip') \<and>
     tot \<le> k \<and> k + j \<le> n \<and> wrote sb P g off (off + (k - tot) + j) dk ip dk' ip' \<and>
     (j \<noteq> 0 \<longrightarrow> (\<exists>a m. \<not> fst (cpin a m mem))) \<and>
     (k < n \<longrightarrow> free_blocks sb dk' = {} \<or> (\<exists>a m. \<not> fst (cpin a m mem)))"
  using assms
proof (induction "n - tot" arbitrary: tot off src dk ip rule: less_induct)
  case less
  note f = less.prems(1)
  let ?failed = "\<exists>a m. \<not> fst (cpin a m mem)"
  have res: ?case if "writei_loop cpin sb n tot off src dk ip mem = Inr (k, off + (k - tot), dk', ip')"
    "tot \<le> k" "k + j \<le> n" "wrote sb P g off (off + (k - tot) + j) dk ip dk' ip'" "j \<noteq> 0 \<longrightarrow> ?failed"
    "k < n \<longrightarrow> free_blocks sb dk' = {} \<or> ?failed" for k j dk' ip'
    using that by blast
  show ?case
  proof (cases "tot < n")
    case False
    show ?thesis
      by (rule res [where k = tot and j = 0 and dk' = dk and ip' = ip])
        (use False less.prems(3) wrote_nothing [OF f] in \<open>simp_all add: writei_loop.simps\<close>)
  next
    case True
    have bn: "off div BSIZE < MAXFILE" and om: "off < MAXFILE * BSIZE"
      using less.prems(2) True by (simp_all add: BSIZE_eq MAXFILE_eq)
    obtain a dk1 ip1 where b: "bmap sb (off div BSIZE) dk ip = Inr (a, dk1, ip1)" "grows sb P dk ip dk1 ip1"
      "slot dk1 ip1 (Some (off div BSIZE)) = a" "a = 0 \<Longrightarrow> free_blocks sb dk1 = {}"
      using bmap_effect [OF f bn] by blast
    note w1 = wrote_grows [OF b(2), of g off] and f1 = growsD(1) [OF b(2)]
    show ?thesis
    proof (cases "a = 0")
      case a0: True
      show ?thesis
        by (rule res [where k = tot and j = 0 and dk' = dk1 and ip' = ip1])
          (use True a0 b w1 in \<open>simp_all add: writei_loop.simps\<close>)
    next
      case False
      define m where "m = min (n - tot) (BSIZE - off mod BSIZE)"
      have m: "0 < m" "m \<le> n - tot" "off mod BSIZE + m \<le> BSIZE" using True by (auto simp: BSIZE_eq m_def)
      obtain good bs where c: "cpin src m mem = (good, bs)" by fastforce
      obtain j where j: "j \<le> m" "bs = map (\<lambda>t. fetch mem (src + of_nat t)) [0..<j]" "good \<longrightarrow> j = m"
        using cpin_fetch [of m src mem] c by auto
      define dk2 where "dk2 = dk1(a := splice (dk1 a) (off mod BSIZE) bs)"
      have w2: "wrote sb P g off (off + j) dk1 ip1 dk2 ip1"
        using store_wrote(1) [OF f1 b(3) False om, of bs g] j m(3) less.prems(4) by (simp add: dk2_def)
      have w: "wrote sb P g off (off + j) dk ip dk2 ip1" using wrote_trans [OF w1 w2] by simp
      have step: "writei_loop cpin sb n tot off src dk ip mem =
        (if good then writei_loop cpin sb n (tot + m) (off + m) (src + of_nat m) dk2 ip1 mem else Inr (tot, off, dk2, ip1))"
        using True False by (subst writei_loop.simps) (simp add: b c Let_def m_def [symmetric] dk2_def)
      show ?thesis
      proof (cases good)
        case False
        then have F: ?failed using c by (metis fst_conv)
        have "tot + j \<le> n" using j(1) m(2) less.prems(3) by linarith
        then show ?thesis using False F step w
          by (intro res [where k = tot and j = j and dk' = dk2 and ip' = ip1]) simp_all
      next
        case good: True
        have f2: "file_ok sb P dk2 ip1" using w2 by (simp add: wrote_def)
        have lt: "n - (tot + m) < n - tot" "off + m + (n - (tot + m)) \<le> MAXFILE * BSIZE" "tot + m \<le> n"
          using m less.prems(2,3) True \<open>tot < n\<close> by linarith+
        have g: "fetch mem (src + of_nat m + of_nat t) = g (off + m + t)" for t
          using less.prems(4) [of "m + t"] by (simp add: add.assoc)
        obtain k j' dk' ip' where
          r: "writei_loop cpin sb n (tot + m) (off + m) (src + of_nat m) dk2 ip1 mem = Inr (k, off + m + (k - (tot + m)), dk', ip')"
          "tot + m \<le> k" "k + j' \<le> n" "wrote sb P g (off + m) (off + m + (k - (tot + m)) + j') dk2 ip1 dk' ip'"
          "j' \<noteq> 0 \<longrightarrow> (\<exists>a m. \<not> fst (cpin a m mem))"
          "k < n \<longrightarrow> free_blocks sb dk' = {} \<or> (\<exists>a m. \<not> fst (cpin a m mem))"
          using less.hyps [OF lt(1) f2 lt(2,3) g] by blast
        have e: "off + m + (k - (tot + m)) = off + (k - tot)" using r(2) by simp
        have "wrote sb P g off (off + (k - tot) + j') dk ip dk' ip'"
          using wrote_trans [OF w, of "off + (k - tot) + j'"] r(2,4) e j(3) good by simp
        moreover have "writei_loop cpin sb n tot off src dk ip mem = Inr (k, off + (k - tot), dk', ip')"
          using step good r(1) e by simp
        ultimately show ?thesis using res [OF _ add_leD1 [OF r(2)] r(3)] r(5,6) by blast
      qed
    qed
  qed
qed

text \<open>The whole of \<open>writei\<close>, for a file whose inode lies in a block that no file owns.\<close>

lemma writei_effect:
  assumes f: "file_ok sb P dk ip" and p: "IBLOCK sb (inum ip) \<in> P"
    and ok: "off \<le> isize ip" "off \<le> off + n" "unat (off + n) \<le> MAXFILE * BSIZE"
  obtains k j dk' ip' where "writei cpin sb src off n dk ip mem = Inr (int k, dk', ip')" "k + j \<le> unat n"
    "file_ok sb P dk' ip'" "unat (isize ip') = max (unat (isize ip)) (unat off + k)"
    "\<And>q. q \<in> P \<Longrightarrow> q \<noteq> IBLOCK sb (inum ip) \<Longrightarrow> dk' q = dk q"
    "\<And>i. i < MAXFILE * BSIZE \<Longrightarrow> fbyte dk' ip' i =
       (if unat off \<le> i \<and> i < unat off + k + j then fetch mem (src + of_nat (i - unat off)) else fbyte dk ip i)"
    "j \<noteq> 0 \<Longrightarrow> \<exists>a m. \<not> fst (cpin a m mem)" "k < unat n \<Longrightarrow> free_blocks sb dk' = {} \<or> (\<exists>a m. \<not> fst (cpin a m mem))"
    "ip' = ip\<lparr>addrs := addrs ip', isize := isize ip'\<rparr>" "synced sb dk' ip'"
    "dk' (IBLOCK sb (inum ip)) = iupdate sb dk ip' (IBLOCK sb (inum ip))"
proof -
  note F = file_okD [OF f]
  have s: "unat (off + n) = unat off + unat n" using ok(2) unat_plus_simple by blast
  let ?g = "\<lambda>i. fetch mem (src + of_nat (i - unat off))"
  have m: "unat off + (unat n - 0) \<le> MAXFILE * BSIZE" using ok(3) s by simp
  have g: "fetch mem (src + of_nat t) = ?g (unat off + t)" for t by simp
  obtain k j dk1 ip1 where
    r: "writei_loop cpin sb (unat n) 0 (unat off) src dk ip mem = Inr (k, unat off + k, dk1, ip1)"
    "k + j \<le> unat n" "wrote sb P ?g (unat off) (unat off + k + j) dk ip dk1 ip1"
    "j \<noteq> 0 \<longrightarrow> (\<exists>a m. \<not> fst (cpin a m mem))"
    "k < unat n \<longrightarrow> free_blocks sb dk1 = {} \<or> (\<exists>a m. \<not> fst (cpin a m mem))"
    using writei_loop_effect [OF f m le0 g, unfolded diff_zero] by blast
  note w = r(3) [unfolded wrote_def]
  let ?e = "unat off + k"
  define ip' where "ip' = (if ?e > unat (isize ip1) then ip1\<lparr>isize := of_nat ?e\<rparr> else ip1)"
  have e: "?e \<le> MAXFILE * BSIZE" using ok(3) s r(2) by simp
  then have u: "unat (of_nat ?e :: 32 word) = ?e"
    by (intro unat_small) (simp add: MAXFILE_eq BSIZE_eq)
  have i1: "isize ip1 = isize ip" "inum ip1 = inum ip"
    using w by (metis inode.select_convs(1,9) inode.surjective inode.update_convs(10))+
  have z: "unat (isize ip') = max (unat (isize ip)) ?e" "addrs ip' = addrs ip1" "inum ip' = inum ip"
    using u i1 by (simp_all add: ip'_def)
  have sl: "slot dk1 ip' = slot dk1 ip1" by (rule slot_addrs) (simp add: z)
  have "slot dk1 ip1 (Some b) \<noteq> 0" if b: "b * BSIZE < max (unat (isize ip)) ?e" for b
  proof (cases "b * BSIZE < unat (isize ip)")
    case True
    then show ?thesis using w file_okD(4) [of sb P dk1 ip1] i1(1) by simp
  next
    case False
    then have h: "unat off \<le> b * BSIZE" "b * BSIZE < unat off + k"
      using b ok(1) by (auto simp: word_le_nat_alt)
    then have i: "unat off \<le> b * BSIZE" "b * BSIZE < unat off + k + j" "b * BSIZE < MAXFILE * BSIZE"
      using e by linarith+
    have "(b * BSIZE) div BSIZE = b" by (simp add: BSIZE_eq)
    then show ?thesis using w i by metis
  qed
  then have f1: "file_ok sb P dk1 ip'" using w z e F(3) by (auto simp: file_ok_def sl)
  have b1: "fbyte dk1 ip' = fbyte dk1 ip1" by (simp add: fbyte_def sl fun_eq_iff)
  note U = iupdate_effect [OF f1, unfolded z(3), OF p]
  have "writei cpin sb src off n dk ip mem = Inr (int k, iupdate sb dk1 ip', ip')"
    using ok e r(1) s
    by (simp add: writei_def not_less word_le_nat_alt Let_def ip'_def [symmetric] MAXFILE_eq BSIZE_eq)
  moreover have "iupdate sb dk1 ip' q = dk q" if "q \<in> P" "q \<noteq> IBLOCK sb (inum ip)" for q
    using that w z(3) by (simp add: iupdate_def Let_def)
  moreover have "ip' = ip\<lparr>addrs := addrs ip', isize := isize ip'\<rparr>"
    using w by (auto simp: ip'_def)
  moreover have "iupdate sb dk1 ip' (IBLOCK sb (inum ip)) = iupdate sb dk ip' (IBLOCK sb (inum ip))"
    using p w z(3) by (simp add: iupdate_def Let_def)
  ultimately show ?thesis
    using that [of k "iupdate sb dk1 ip'" ip' j] r(2,4,5) z(1) U w b1 synced_iupdate [OF f1] by auto
qed

end

section \<open>Truncation\<close>

definition freed :: "superblock \<Rightarrow> nat set \<Rightarrow> disk \<Rightarrow> disk \<Rightarrow> bool" where
  "freed sb B dk dk' \<longleftrightarrow> free_blocks sb dk' = free_blocks sb dk \<union> B \<and> (\<forall>p. p \<notin> bitmap_blocks sb \<longrightarrow> dk' p = dk p)"

lemma freed_trans: "freed sb A dk dk1 \<Longrightarrow> freed sb B dk1 dk2 \<Longrightarrow> freed sb (A \<union> B) dk dk2"
  by (auto simp: freed_def)

lemma freed_refl: "freed sb {} dk dk"
  by (simp add: freed_def)

lemma owns_freed:
  assumes "owns sb P dk f" "k \<in> places" "f k \<noteq> 0"
  obtains dk' where "bfree sb (f k) dk = Inr dk'" "owns sb P dk' (f(k := 0))" "freed sb {f k} dk dk'"
proof (rule owns_free [OF assms])
  fix dk'
  assume "bfree sb (f k) dk = Inr dk'" "owns sb P dk' (f(k := 0))"
    "free_blocks sb dk' = insert (f k) (free_blocks sb dk)" "\<forall>p. p \<notin> bitmap_blocks sb \<longrightarrow> dk' p = dk p"
  then show thesis by (intro that) (simp_all add: freed_def)
qed

lemma itrunc_direct_effect:
  assumes "owns sb P dk (slot dk ip)" "length (addrs ip) = NDIRECT + 1" "i \<le> NDIRECT"
  shows "\<exists>dk' ip'. itrunc_direct sb i dk ip = Inr (dk', ip') \<and> ip' = ip\<lparr>addrs := addrs ip'\<rparr> \<and>
    length (addrs ip') = NDIRECT + 1 \<and> owns sb P dk' (slot dk' ip') \<and>
    (\<forall>l. slot dk' ip' l = (if l \<in> Some ` {i..<NDIRECT} then 0 else slot dk ip l)) \<and>
    freed sb (slot dk ip ` Some ` {i..<NDIRECT} - {0}) dk dk'"
  using assms
proof (induction "NDIRECT - i" arbitrary: i dk ip)
  case 0
  then show ?case by (subst itrunc_direct.simps) (simp add: freed_refl)
next
  case (Suc m)
  then have i: "i < NDIRECT" "m = NDIRECT - (i + 1)" "i + 1 \<le> NDIRECT" by simp_all
  have k: "Some i \<in> places" using i(1) by (simp add: MAXFILE_def)
  have set: "{i..<NDIRECT} = insert i {i + 1..<NDIRECT}" using i(1) by auto
  have si: "slot dk ip (Some i) = unat (addrs ip ! i)" using i(1) by (simp add: slot_def)
  show ?case
  proof (cases "addrs ip ! i = 0")
    case True
    then have e: "itrunc_direct sb i dk ip = itrunc_direct sb (i + 1) dk ip"
      using i(1) by (subst itrunc_direct.simps) simp
    have z: "slot dk ip (Some i) = 0" using True si by simp
    then have q: "slot dk ip ` Some ` {i..<NDIRECT} - {0} = slot dk ip ` Some ` {i + 1..<NDIRECT} - {0}"
      "(if l \<in> Some ` {i..<NDIRECT} then 0 else slot dk ip l) = (if l \<in> Some ` {i + 1..<NDIRECT} then 0 else slot dk ip l)"
      for l unfolding set by auto
    show ?thesis unfolding e q by (rule Suc.hyps(1) [OF i(2) Suc.prems(1,2) i(3)])
  next
    case False
    then have nz: "slot dk ip (Some i) \<noteq> 0" using si by (simp add: unat_eq_0)
    obtain dk1 where b: "bfree sb (slot dk ip (Some i)) dk = Inr dk1" "owns sb P dk1 ((slot dk ip)(Some i := 0))"
      "freed sb {slot dk ip (Some i)} dk dk1" using owns_freed [OF Suc.prems(1) k nz] by blast
    let ?ip = "ip\<lparr>addrs := (addrs ip)[i := 0]\<rparr>"
    have e: "itrunc_direct sb i dk ip = itrunc_direct sb (i + 1) dk1 ?ip"
      using i(1) False b(1) si by (subst itrunc_direct.simps) simp
    have "slot dk1 ip = slot dk ip"
    proof (cases "slot dk ip None = 0")
      case False
      then have "dk1 (slot dk ip None) = dk (slot dk ip None)"
        using b(3) ownsD(8) [OF Suc.prems(1) places_iff(1)] by (simp add: freed_def)
      then show ?thesis by (rule slot_cong)
    qed (auto simp: slot_def fun_eq_iff unat_eq_0 split: option.splits)
    then have s: "slot dk1 ?ip = (slot dk ip)(Some i := 0)"
      using slot_addrs_upd [OF Suc.prems(2) i(1), of 0 0 dk1] by auto
    have o: "owns sb P dk1 (slot dk1 ?ip)" and l: "length (addrs ?ip) = NDIRECT + 1"
      using b(2) Suc.prems(2) s by simp_all
    obtain dk' ip' where r: "itrunc_direct sb (i + 1) dk1 ?ip = Inr (dk', ip')" "ip' = ?ip\<lparr>addrs := addrs ip'\<rparr>"
      "length (addrs ip') = NDIRECT + 1" "owns sb P dk' (slot dk' ip')"
      "\<And>l. slot dk' ip' l = (if l \<in> Some ` {i + 1..<NDIRECT} then 0 else slot dk1 ?ip l)"
      "freed sb (slot dk1 ?ip ` Some ` {i + 1..<NDIRECT} - {0}) dk1 dk'"
      using Suc.hyps(1) [OF i(2) o l i(3)] by blast
    have im: "slot dk1 ?ip ` Some ` {i + 1..<NDIRECT} = slot dk ip ` Some ` {i + 1..<NDIRECT}"
      unfolding s by (intro image_cong) auto
    have "freed sb (slot dk ip ` Some ` {i..<NDIRECT} - {0}) dk dk'"
      using freed_trans [OF b(3) r(6) [unfolded im]] nz by (simp add: set insert_Diff_if)
    moreover have "slot dk' ip' l = (if l \<in> Some ` {i..<NDIRECT} then 0 else slot dk ip l)" for l
      unfolding r(5) s set by auto
    moreover have "ip' = ip\<lparr>addrs := addrs ip'\<rparr>" by (subst r(2)) simp
    ultimately show ?thesis using r(1,3,4) unfolding e by blast
  qed
qed

lemma itrunc_indirect_effect:
  assumes "owns sb P dk (\<lambda>l. if l \<in> Some ` {NDIRECT..<NDIRECT + j} then 0 else f l)" "j \<le> NINDIRECT"
    "\<And>t. t < NINDIRECT \<Longrightarrow> unat (word_at a t) = f (Some (NDIRECT + t))"
  shows "\<exists>dk'. itrunc_indirect sb a j dk = Inr dk' \<and>
    owns sb P dk' (\<lambda>l. if l \<in> Some ` {NDIRECT..<MAXFILE} then 0 else f l) \<and>
    freed sb (f ` Some ` {NDIRECT + j..<MAXFILE} - {0}) dk dk'"
  using assms
proof (induction "NINDIRECT - j" arbitrary: j dk)
  case 0
  then show ?case by (subst itrunc_indirect.simps) (simp add: freed_refl MAXFILE_def)
next
  case (Suc m)
  then have j: "j < NINDIRECT" "m = NINDIRECT - (j + 1)" "j + 1 \<le> NINDIRECT" by simp_all
  let ?k = "Some (NDIRECT + j)"
  have k: "?k \<in> places" using j(1) by (simp add: MAXFILE_def)
  have set: "{NDIRECT + j..<MAXFILE} = insert (NDIRECT + j) {NDIRECT + (j + 1)..<MAXFILE}"
    using j(1) by (auto simp: MAXFILE_def)
  let ?g = "\<lambda>j l. if l \<in> Some ` {NDIRECT..<NDIRECT + j} then 0 else f l"
  have set': "{NDIRECT..<NDIRECT + (j + 1)} = insert (NDIRECT + j) {NDIRECT..<NDIRECT + j}" by auto
  have g: "?g (j + 1) = (?g j)(?k := 0)" "?g j ?k = f ?k" unfolding set' by auto
  show ?case
  proof (cases "word_at a j = 0")
    case True
    then have z: "f ?k = 0" using Suc.prems(3) [OF j(1)] by simp
    then have "(?g j)(?k := 0) = ?g j" by (intro fun_upd_idem) simp
    then have o: "owns sb P dk (?g (j + 1))" using Suc.prems(1) unfolding g(1) by (simp only:)
    have "itrunc_indirect sb a j dk = itrunc_indirect sb a (j + 1) dk"
      using j(1) True by (subst itrunc_indirect.simps) simp
    then show ?thesis using Suc.hyps(1) [OF j(2) o j(3) Suc.prems(3)] z unfolding set by simp
  next
    case False
    then have nz: "?g j ?k \<noteq> 0" using Suc.prems(3) [OF j(1)] g(2) by (metis unat_eq_0)
    obtain dk1 where b: "bfree sb (?g j ?k) dk = Inr dk1" "owns sb P dk1 ((?g j)(?k := 0))"
      "freed sb {?g j ?k} dk dk1" using owns_freed [OF Suc.prems(1) k nz] by blast
    have e: "itrunc_indirect sb a j dk = itrunc_indirect sb a (j + 1) dk1"
      using j(1) False b(1) Suc.prems(3) [OF j(1)] g(2) by (subst itrunc_indirect.simps) simp
    obtain dk' where "itrunc_indirect sb a (j + 1) dk1 = Inr dk'"
      "owns sb P dk' (\<lambda>l. if l \<in> Some ` {NDIRECT..<MAXFILE} then 0 else f l)"
      "freed sb (f ` Some ` {NDIRECT + (j + 1)..<MAXFILE} - {0}) dk1 dk'"
      using Suc.hyps(1) [OF j(2) b(2) [folded g(1)] j(3) Suc.prems(3)] by blast
    moreover from this(3) have "freed sb (f ` Some ` {NDIRECT + j..<MAXFILE} - {0}) dk dk'"
      using freed_trans [OF b(3)] nz g(2) unfolding set by (simp add: insert_Diff_if)
    ultimately show ?thesis unfolding e by blast
  qed
qed

lemma owned_places: "f ` places - {0} = insert (f None) (f ` Some ` {..<MAXFILE}) - {0}"
  by (auto simp: places_def)

lemma insert_Un_Diff: "b \<noteq> c \<Longrightarrow> insert b (A \<union> B) - {c} = A - {c} \<union> (B - {c}) \<union> {b}"
  by auto

lemma itrunc_effect:
  assumes f: "file_ok sb P dk ip" and p: "IBLOCK sb (inum ip) \<in> P"
  obtains dk' ip' where "itrunc sb dk ip = Inr (dk', ip')" "file_ok sb P dk' ip'" "isize ip' = 0"
    "ip' = ip\<lparr>addrs := replicate (NDIRECT + 1) 0, isize := 0\<rparr>"
    "free_blocks sb dk' = free_blocks sb dk \<union> (slot dk ip ` places - {0})"
    "\<And>q. q \<notin> bitmap_blocks sb \<Longrightarrow> q \<noteq> IBLOCK sb (inum ip) \<Longrightarrow> dk' q = dk q" "synced sb dk' ip'"
    "dk' (IBLOCK sb (inum ip)) = iupdate sb dk ip' (IBLOCK sb (inum ip))"
proof -
  note F = file_okD [OF f]
  obtain dk1 ip1 where d: "itrunc_direct sb 0 dk ip = Inr (dk1, ip1)" "ip1 = ip\<lparr>addrs := addrs ip1\<rparr>"
    "length (addrs ip1) = NDIRECT + 1" "owns sb P dk1 (slot dk1 ip1)"
    "\<And>l. slot dk1 ip1 l = (if l \<in> Some ` {0..<NDIRECT} then 0 else slot dk ip l)"
    "freed sb (slot dk ip ` Some ` {0..<NDIRECT} - {0}) dk dk1"
    using itrunc_direct_effect [OF F(2,1), of 0] by blast
  have z: "addrs ip1 ! i = 0" if "i < NDIRECT" for i
    using d(5) [of "Some i"] that by (simp add: slot_def unat_eq_0)
  have none: "slot dk ip None = unat (addrs ip1 ! NDIRECT)" using d(5) [of None] by (simp add: slot_def)
  have "\<exists>dk2 ip2. itrunc sb dk ip = Inr (iupdate sb dk2 (ip2\<lparr>isize := 0\<rparr>), ip2\<lparr>isize := 0\<rparr>) \<and>
    ip2 = ip1\<lparr>addrs := (addrs ip1)[NDIRECT := 0]\<rparr> \<and> owns sb P dk2 (\<lambda>l. 0) \<and> freed sb (slot dk ip ` places - {0}) dk dk2"
  proof (cases "addrs ip1 ! NDIRECT = 0")
    case True
    then have n: "slot dk ip None = 0" using none by simp
    then have h: "slot dk ip (Some b) = 0" if "NDIRECT \<le> b" for b using that by (auto simp: slot_def unat_eq_0)
    have "slot dk ip ` places - {0} = slot dk ip ` Some ` {0..<NDIRECT} - {0}"
      unfolding owned_places n using h by (auto simp: MAXFILE_def not_less) (metis h imageI atLeastLessThan_iff le0 not_less)
    moreover have "slot dk1 ip1 = (\<lambda>l. 0)"
    proof
      show "slot dk1 ip1 l = 0" for l
      proof (cases l)
        case (Some b)
        then show ?thesis using d(5) [of l] h [of b] by (cases "b < NDIRECT") (auto simp: image_iff not_less)
      qed (use d(5) [of l] n in auto)
    qed
    moreover have "(addrs ip1)[NDIRECT := 0] = addrs ip1" using True by (metis list_update_id)
    ultimately show ?thesis using d(1,4,6) True
      by (intro exI [of _ dk1] exI [of _ ip1]) (simp add: itrunc_def Let_def)
  next
    case False
    let ?b = "slot dk ip None"
    have nz: "?b \<noteq> 0" using False none by (simp add: unat_eq_0)
    let ?f = "slot dk1 ip1"
    have w: "unat (word_at (dk1 ?b) t) = ?f (Some (NDIRECT + t))" for t
      using False none by (simp add: slot_def)
    have "owns sb P dk1 (\<lambda>l. if l \<in> Some ` {NDIRECT..<NDIRECT + 0} then 0 else ?f l)" using d(4) by simp
    from itrunc_indirect_effect [OF this le0 w] obtain dk2 where
      i: "itrunc_indirect sb (dk1 ?b) 0 dk1 = Inr dk2"
        "owns sb P dk2 (\<lambda>l. if l \<in> Some ` {NDIRECT..<MAXFILE} then 0 else ?f l)"
        "freed sb (?f ` Some ` {NDIRECT + 0..<MAXFILE} - {0}) dk1 dk2" by blast
    let ?g = "\<lambda>l. if l \<in> Some ` {NDIRECT..<MAXFILE} then 0 else ?f l"
    have gn: "?g None = ?b" using d(5) [of None] by simp
    obtain dk3 where b: "bfree sb ?b dk2 = Inr dk3" "owns sb P dk3 (?g(None := 0))" "freed sb {?b} dk2 dk3"
      using owns_freed [OF i(2) places_iff(1)] nz unfolding gn by blast
    have "owns sb P dk3 (\<lambda>l. 0)"
      using b(2) by (rule owns_cong [THEN iffD1, rotated]) (auto simp: d(5) places_def not_less)
    moreover have "freed sb (slot dk ip ` places - {0}) dk dk3"
    proof -
      have "?f ` Some ` {NDIRECT + 0..<MAXFILE} = slot dk ip ` Some ` {NDIRECT..<MAXFILE}"
        by (auto simp: d(5) image_iff)
      then have "freed sb (slot dk ip ` Some ` {0..<NDIRECT} - {0} \<union> (slot dk ip ` Some ` {NDIRECT..<MAXFILE} - {0}) \<union> {?b}) dk dk3"
        using freed_trans [OF freed_trans [OF d(6) i(3)] b(3)] by simp
      moreover have m: "{..<MAXFILE} = {0..<NDIRECT} \<union> {NDIRECT..<MAXFILE}" by (auto simp: MAXFILE_def)
      have "slot dk ip ` places - {0} = slot dk ip ` Some ` {0..<NDIRECT} - {0} \<union> (slot dk ip ` Some ` {NDIRECT..<MAXFILE} - {0}) \<union> {?b}"
        unfolding owned_places m image_Un using nz by (rule insert_Un_Diff)
      ultimately show ?thesis by simp
    qed
    ultimately show ?thesis using d(1) i(1) b(1) False none
      by (intro exI [of _ dk3] exI [of _ "ip1\<lparr>addrs := (addrs ip1)[NDIRECT := 0]\<rparr>"]) (simp add: itrunc_def Let_def)
  qed
  then obtain dk2 ip2 where r: "itrunc sb dk ip = Inr (iupdate sb dk2 (ip2\<lparr>isize := 0\<rparr>), ip2\<lparr>isize := 0\<rparr>)"
    "ip2 = ip1\<lparr>addrs := (addrs ip1)[NDIRECT := 0]\<rparr>" "owns sb P dk2 (\<lambda>l. 0)" "freed sb (slot dk ip ` places - {0}) dk dk2"
    by blast
  let ?ip = "ip\<lparr>addrs := replicate (NDIRECT + 1) 0, isize := 0\<rparr>"
  have "(addrs ip1)[NDIRECT := 0] = replicate (NDIRECT + 1) 0"
    by (rule nth_equalityI) (use d(3) z in \<open>auto simp: nth_list_update less_Suc_eq nth_append simp del: replicate_Suc\<close>)
  then have ip: "ip2\<lparr>isize := 0\<rparr> = ?ip" unfolding r(2) by (subst d(2)) simp
  have "slot dk2 ?ip = (\<lambda>l. 0)" by (auto simp: slot_def fun_eq_iff NDIRECT_eq nth_Cons' split: option.splits)
  then have ok: "file_ok sb P dk2 ?ip" using r(3) by (simp add: file_ok_def)
  have p': "IBLOCK sb (inum ?ip) \<in> P" using p by simp
  note U = iupdate_effect [OF ok p']
  have "iupdate sb dk2 ?ip q = dk q" if "q \<notin> bitmap_blocks sb" "q \<noteq> IBLOCK sb (inum ip)" for q
    using that r(4) by (simp add: iupdate_def Let_def freed_def)
  moreover have "free_blocks sb (iupdate sb dk2 ?ip) = free_blocks sb dk \<union> (slot dk ip ` places - {0})"
    using U(4) r(4) by (simp add: freed_def)
  moreover have "iupdate sb dk2 ?ip (IBLOCK sb (inum ip)) = iupdate sb dk ?ip (IBLOCK sb (inum ip))"
    using ownsD(4) [OF F(2) p] r(4) by (simp add: iupdate_def Let_def freed_def)
  ultimately show ?thesis
    using that [of "iupdate sb dk2 ?ip" ?ip] r(1) U(1) synced_iupdate [OF ok] unfolding ip by auto
qed

section \<open>Kernel memory, and what the operations do\<close>

text \<open>\<open>either_copyout\<close> and \<open>either_copyin\<close> for a kernel address: \<open>memmove\<close>, which cannot fail.\<close>

type_synonym kmem = "64 word \<Rightarrow> byte"

definition kput :: "64 word \<Rightarrow> byte list \<Rightarrow> kmem \<Rightarrow> kmem" where
  "kput d bs mem = (\<lambda>a. if unat (a - d) < length bs then bs ! unat (a - d) else mem a)"

definition kcopyout :: "64 word \<Rightarrow> byte list \<Rightarrow> kmem \<Rightarrow> bool \<times> kmem" where
  "kcopyout d bs mem = (True, kput d bs mem)"

definition kget :: "64 word \<Rightarrow> nat \<Rightarrow> kmem \<Rightarrow> byte list" where
  "kget a n mem = map (\<lambda>t. mem (a + of_nat t)) [0..<n]"

definition kcopyin :: "64 word \<Rightarrow> nat \<Rightarrow> kmem \<Rightarrow> bool \<times> byte list" where
  "kcopyin a n mem = (True, kget a n mem)"

lemma kput_append:
  assumes "length bs + length cs < 2 ^ 63"
  shows "kput (d + of_nat (length bs)) cs (kput d bs mem) = kput d (bs @ cs) mem"
proof
  fix a
  let ?n = "length bs" and ?x = "unat (a - d)"
  have u: "unat (of_nat ?n :: 64 word) = ?n" using assms by (simp add: unsigned_of_nat take_bit_nat_eq_self)
  have e: "a - (d + of_nat ?n) = (a - d) - of_nat ?n" by (simp add: algebra_simps)
  show "kput (d + of_nat ?n) cs (kput d bs mem) a = kput d (bs @ cs) mem a"
  proof (cases "?n \<le> ?x")
    case True
    then have "unat (a - (d + of_nat ?n)) = ?x - ?n"
      unfolding e by (subst unat_sub) (simp_all add: u word_le_nat_alt)
    then show ?thesis using True by (auto simp: kput_def nth_append)
  next
    case False
    then have lt: "a - d < of_nat ?n" by (simp add: word_less_nat_alt u)
    have "unat (a - (d + of_nat ?n)) = 2 ^ 64 + ?x - ?n"
      using False unfolding e by (simp add: unat_sub_if' u)
    then show ?thesis using False assms by (auto simp: kput_def nth_append)
  qed
qed

interpretation kdest: destination kcopyout kput
  by unfold_locales (auto simp: kcopyout_def kput_append, simp add: kput_def)

interpretation ksource: source kcopyin "\<lambda>mem. mem"
  by unfold_locales (auto simp: kcopyin_def kget_def)

text \<open>
  Reading from a file into the kernel delivers the part of its contents that was asked for, cut at
  the end of the file, and changes neither the file nor the disk.
\<close>

theorem readi_reads_contents:
  assumes "file_ok sb P dk ip"
  shows "let bs = (if off + n < off then [] else take (unat n) (drop (unat off) (contents dk ip)))
    in readi kcopyout sb dst off n dk ip mem = Inr (int (length bs), dk, ip, kput dst bs mem)"
  using kdest.readi_effect [OF assms, of dst off n mem] by (simp add: kcopyout_def)

lemma kernel_writei:
  assumes f: "file_ok sb P dk ip" "IBLOCK sb (inum ip) \<in> P"
    and ok: "off \<le> isize ip" "off \<le> off + n" "unat (off + n) \<le> MAXFILE * BSIZE"
  obtains k dk' ip' where "writei kcopyin sb src off n dk ip mem = Inr (int k, dk', ip')" "k \<le> unat n"
    "k < unat n \<Longrightarrow> free_blocks sb dk' = {}" "file_ok sb P dk' ip'"
    "contents dk' ip' = splice (contents dk ip) (unat off) (kget src k mem)"
    "\<forall>p \<in> P - {IBLOCK sb (inum ip)}. dk' p = dk p" "synced sb dk' ip'"
    "unat (isize ip') = max (unat (isize ip)) (unat off + k)"
proof (rule ksource.writei_effect [OF f ok, where src = src and mem = mem])
  fix k j dk' ip'
  assume r: "writei kcopyin sb src off n dk ip mem = Inr (int k, dk', ip')" "k + j \<le> unat n"
    "file_ok sb P dk' ip'" "unat (isize ip') = max (unat (isize ip)) (unat off + k)"
    "\<And>q. q \<in> P \<Longrightarrow> q \<noteq> IBLOCK sb (inum ip) \<Longrightarrow> dk' q = dk q"
    "\<And>i. i < MAXFILE * BSIZE \<Longrightarrow> fbyte dk' ip' i =
       (if unat off \<le> i \<and> i < unat off + k + j then mem (src + of_nat (i - unat off)) else fbyte dk ip i)"
    "j \<noteq> 0 \<Longrightarrow> \<exists>a m. \<not> fst (kcopyin a m mem)"
    "k < unat n \<Longrightarrow> free_blocks sb dk' = {} \<or> (\<exists>a m. \<not> fst (kcopyin a m mem))" "synced sb dk' ip'"
  have j: "j = 0" using r(7) by (auto simp: kcopyin_def)
  have l: "unat (isize ip) \<le> MAXFILE * BSIZE" "unat (isize ip') \<le> MAXFILE * BSIZE"
    using file_okD(3) f(1) r(3) by blast+
  have o: "unat off \<le> unat (isize ip)" using ok(1) by (simp add: word_le_nat_alt)
  have "contents dk' ip' = splice (contents dk ip) (unat off) (kget src k mem)"
  proof (rule nth_equalityI)
    show "length (contents dk' ip') = length (splice (contents dk ip) (unat off) (kget src k mem))"
      using o r(4) by (simp add: contents_def splice_def kget_def)
    fix i assume "i < length (contents dk' ip')"
    then show "contents dk' ip' ! i = splice (contents dk ip) (unat off) (kget src k mem) ! i"
      using o r(4) r(6) [of i] l j by (auto simp: contents_def splice_def kget_def nth_append)
  qed
  then show ?thesis using that r j by (auto simp: kcopyin_def)
qed


text \<open>
  \<open>itrunc\<close> empties a file: exactly its blocks become free, the indirect block among them, without a
  panic, and no other block changes.
\<close>

theorem itrunc_frees_blocks:
  assumes "file_ok sb P dk ip" "IBLOCK sb (inum ip) \<in> P"
  shows "\<exists>dk' ip'. itrunc sb dk ip = Inr (dk', ip') \<and> file_ok sb P dk' ip' \<and> contents dk' ip' = [] \<and>
    free_blocks sb dk' = free_blocks sb dk \<union> (slot dk ip ` places - {0}) \<and>
    (\<forall>q. q \<notin> bitmap_blocks sb \<and> q \<noteq> IBLOCK sb (inum ip) \<longrightarrow> dk' q = dk q) \<and> synced sb dk' ip'"
proof (rule itrunc_effect [OF assms])
  fix dk' ip'
  assume r: "itrunc sb dk ip = Inr (dk', ip')" "file_ok sb P dk' ip'" "isize ip' = 0"
    "free_blocks sb dk' = free_blocks sb dk \<union> (slot dk ip ` places - {0})"
    "\<And>q. q \<notin> bitmap_blocks sb \<Longrightarrow> q \<noteq> IBLOCK sb (inum ip) \<Longrightarrow> dk' q = dk q" "synced sb dk' ip'"
  moreover have "contents dk' ip' = []" using r(3) by (simp add: contents_def)
  ultimately show ?thesis by blast
qed

text \<open>\<open>bmap\<close> never panics inside the largest file, and gives every place a block or reports a full disk.\<close>

theorem bmap_maps_places:
  assumes "file_ok sb P dk ip" "bn < MAXFILE"
  shows "\<exists>r dk' ip'. bmap sb bn dk ip = Inr (r, dk', ip') \<and> slot dk' ip' (Some bn) = r \<and> file_ok sb P dk' ip' \<and>
    (\<forall>i < MAXFILE * BSIZE. fbyte dk' ip' i = fbyte dk ip i) \<and> (\<forall>p \<in> P. dk' p = dk p) \<and>
    (r = 0 \<longrightarrow> free_blocks sb dk' = {})"
proof (rule bmap_effect [OF assms])
  fix r dk' ip'
  assume b: "bmap sb bn dk ip = Inr (r, dk', ip')" "grows sb P dk ip dk' ip'" "slot dk' ip' (Some bn) = r"
    "r = 0 \<Longrightarrow> free_blocks sb dk' = {}"
  note g = growsD [OF b(2)]
  show ?thesis using b(1,3,4) g(1,4,5) by (intro exI [of _ r] exI [of _ dk'] exI [of _ ip']) blast
qed

section \<open>A small file\<close>

definition file_disk :: disk where
  "file_disk b = (if b = 5 then 0x7F # replicate 1023 0 else if b = 6 then [104, 105] @ replicate 1022 0
     else replicate 1024 0)"

definition small_inode :: inode where
  "small_inode = \<lparr>inum = 1, iref = 1, ilock_owner = None, valid = True, itype = 2, major = 0, minor = 0,
     nlink = 1, isize = 2, addrs = 6 # replicate 12 0\<rparr>"

lemma file_disk_marked: "b < 8 \<Longrightarrow> marked small_sb file_disk b \<longleftrightarrow> b < 7"
proof -
  assume b: "b < 8"
  have "marked small_sb file_disk b \<longleftrightarrow> bit (0x7F :: byte) b"
    using b by (simp add: marked_def BBLOCK_def BPB_eq small_sb_def file_disk_def)
  moreover have "b \<in> {0, 1, 2, 3, 4, 5, 6, 7}" using b by auto
  ultimately show ?thesis by auto
qed

lemma small_slots: "slot file_disk small_inode l = (if l = Some 0 then 6 else 0)"
  by (auto simp: slot_def small_inode_def NDIRECT_eq nth_Cons' split: option.splits)

lemma small_file_ok: "file_ok small_sb {1, 4} file_disk small_inode"
proof -
  have s: "size small_sb = 8" by (simp add: small_sb_def)
  have bb: "b < 8 \<Longrightarrow> BBLOCK small_sb b = 5" for b by (simp add: BBLOCK_def BPB_eq small_sb_def)
  then have B: "p \<notin> bitmap_blocks small_sb" if "p \<noteq> 5" for p using that by (auto simp: bitmap_blocks_def s)
  have "disk_ok small_sb file_disk"
    using bb file_disk_marked by (simp add: disk_ok_def s BSIZE_eq file_disk_def)
  then have "owns small_sb {1, 4} file_disk (slot file_disk small_inode)"
    using B file_disk_marked by (auto simp: owns_def small_slots s split: if_splits)
  moreover have "bn * BSIZE < 2 \<Longrightarrow> bn = 0" for bn by (simp add: BSIZE_eq)
  ultimately show ?thesis
    by (auto simp: file_ok_def small_slots) (simp_all add: small_inode_def NDIRECT_eq MAXFILE_eq BSIZE_eq)
qed

lemma small_contents: "contents file_disk small_inode = [104, 105]"
proof -
  have "unat (isize small_inode) = 2" by (simp add: small_inode_def)
  then show ?thesis
    by (simp add: contents_def fbyte_def small_slots BSIZE_eq file_disk_def upt_rec [of _ 2])
qed

lemma small_iblock: "IBLOCK small_sb (inum small_inode) \<in> {1, 4}"
  by (simp add: IBLOCK_def IPB_def BSIZE_eq small_inode_def small_sb_def)

theorem readi_reads_contents_witness:
  "readi kcopyout small_sb 0 1 10 file_disk small_inode (\<lambda>a. 0) =
    Inr (1, file_disk, small_inode, kput 0 [105] (\<lambda>a. 0))"
  using readi_reads_contents [OF small_file_ok, of 1 10 0 "\<lambda>a. 0"] by (simp add: small_contents)


theorem itrunc_frees_blocks_witness:
  "\<exists>dk' ip'. itrunc small_sb file_disk small_inode = Inr (dk', ip') \<and> free_blocks small_sb dk' = {6, 7}"
proof -
  have "size small_sb = 8" by (simp add: small_sb_def)
  then have "free_blocks small_sb file_disk = {7}" using file_disk_marked by (auto simp: free_blocks_def)
  moreover have "slot file_disk small_inode ` places - {0} = {6}"
    by (auto simp: small_slots image_iff places_def MAXFILE_eq)
  ultimately show ?thesis using itrunc_frees_blocks [OF small_file_ok small_iblock] by (metis Un_commute insert_is_Un)
qed

theorem bmap_maps_places_witness:
  "\<exists>r dk' ip'. bmap small_sb 20 file_disk small_inode = Inr (r, dk', ip') \<and> slot dk' ip' (Some 20) = r"
proof -
  have "20 < MAXFILE" by (simp add: MAXFILE_eq)
  from bmap_maps_places [OF small_file_ok this] show ?thesis by blast
qed

end
