(* ===== verification/XvItable.thy ===== *)
theory XvItable
  imports XvInode
begin

text \<open>
  The table of inodes in memory (\<open>fs.c\<close>): references, locks, loading from the disk, allocation and
  release. A pointer to an inode is its index in the table, and there is one device. A call either
  returns, panics, or would sleep on a lock that somebody else holds; \<open>itable.lock\<close> is held throughout
  the parts of a call that use it and is left out.
\<close>

section \<open>Operations\<close>

definition NINODE :: nat where "NINODE = 50"
definition ROOTINO :: nat where "ROOTINO = 1"
definition T_DIR :: "16 word" where "T_DIR = 1"
definition T_FILE :: "16 word" where "T_FILE = 2"
definition T_DEVICE :: "16 word" where "T_DEVICE = 3"

record fs =
  fdisk :: disk
  itab :: "inode list"

datatype halt = Panic string | Asleep

definition andthen :: "halt + 'a \<Rightarrow> ('a \<Rightarrow> halt + 'b) \<Rightarrow> halt + 'b" where
  "andthen r f = (case r of Inl e \<Rightarrow> Inl e | Inr x \<Rightarrow> f x)"

definition panics :: "string + 'a \<Rightarrow> halt + 'a" where
  "panics r = (case r of Inl e \<Rightarrow> Inl (Panic e) | Inr x \<Rightarrow> Inr x)"

definition upd_inode :: "nat \<Rightarrow> (inode \<Rightarrow> inode) \<Rightarrow> fs \<Rightarrow> fs" where
  "upd_inode k f s = s\<lparr>itab := (itab s)[k := f (itab s ! k)]\<rparr>"

definition iinit :: "inode list" where
  "iinit = replicate NINODE \<lparr>inum = 0, iref = 0, ilock_owner = None, valid = False, itype = 0, major = 0,
     minor = 0, nlink = 0, isize = 0, addrs = replicate (NDIRECT + 1) 0\<rparr>"

definition iget :: "nat \<Rightarrow> fs \<Rightarrow> halt + nat \<times> fs" where
  "iget i s =
     (case first_index (\<lambda>ip. iref ip > 0 \<and> inum ip = i) (itab s) of
        Some k \<Rightarrow> Inr (k, upd_inode k (\<lambda>ip. ip\<lparr>iref := iref ip + 1\<rparr>) s)
      | None \<Rightarrow>
          (case first_index (\<lambda>ip. iref ip = 0) (itab s) of
             None \<Rightarrow> Inl (Panic ''iget: no inodes'')
           | Some k \<Rightarrow> Inr (k, upd_inode k (\<lambda>ip. ip\<lparr>inum := i, iref := 1, valid := False\<rparr>) s)))"

definition idup :: "nat \<Rightarrow> fs \<Rightarrow> fs" where
  "idup k s = upd_inode k (\<lambda>ip. ip\<lparr>iref := iref ip + 1\<rparr>) s"

definition ilock :: "superblock \<Rightarrow> int \<Rightarrow> nat \<Rightarrow> fs \<Rightarrow> halt + fs" where
  "ilock sb me k s =
     (if iref (itab s ! k) < 1 then Inl (Panic ''ilock'')
      else if ilock_owner (itab s ! k) \<noteq> None then Inl Asleep
      else let s = upd_inode k (\<lambda>ip. ip\<lparr>ilock_owner := Some me\<rparr>) s; ip = itab s ! k in
        if \<not> valid ip
        then let ip = load_dinode (fdisk s (IBLOCK sb (inum ip))) (inum ip mod IPB) ip;
                 ip = ip\<lparr>valid := True\<rparr>; s = upd_inode k (\<lambda>_. ip) s
             in if itype ip = 0 then Inl (Panic ''ilock: no type'') else Inr s
        else Inr s)"

definition holding :: "int \<Rightarrow> nat \<Rightarrow> fs \<Rightarrow> bool" where
  "holding me k s \<longleftrightarrow> ilock_owner (itab s ! k) = Some me"

definition iunlock :: "int \<Rightarrow> nat \<Rightarrow> fs \<Rightarrow> halt + fs" where
  "iunlock me k s =
     (if \<not> holding me k s \<or> iref (itab s ! k) < 1 then Inl (Panic ''iunlock'')
      else Inr (upd_inode k (\<lambda>ip. ip\<lparr>ilock_owner := None\<rparr>) s))"

text \<open>The operations on the content of an inode, on the inode at index \<open>k\<close> of the table.\<close>

definition update_at :: "superblock \<Rightarrow> nat \<Rightarrow> fs \<Rightarrow> fs" where
  "update_at sb k s = s\<lparr>fdisk := iupdate sb (fdisk s) (itab s ! k)\<rparr>"

definition itrunc_at :: "superblock \<Rightarrow> nat \<Rightarrow> fs \<Rightarrow> halt + fs" where
  "itrunc_at sb k s = andthen (panics (itrunc sb (fdisk s) (itab s ! k)))
     (\<lambda>(dk, ip). Inr (upd_inode k (\<lambda>_. ip) (s\<lparr>fdisk := dk\<rparr>)))"

definition iput :: "superblock \<Rightarrow> int \<Rightarrow> nat \<Rightarrow> fs \<Rightarrow> halt + fs" where
  "iput sb me k s =
     (let ip = itab s ! k; drop_ref = upd_inode k (\<lambda>ip. ip\<lparr>iref := iref ip - 1\<rparr>) in
      if iref ip = 1 \<and> valid ip \<and> nlink ip = 0
      then (if ilock_owner ip \<noteq> None then Inl Asleep
            else andthen (itrunc_at sb k (upd_inode k (\<lambda>ip. ip\<lparr>ilock_owner := Some me\<rparr>) s)) (\<lambda>s.
              let s = upd_inode k (\<lambda>ip. ip\<lparr>itype := 0\<rparr>) s; s = update_at sb k s
              in Inr (drop_ref (upd_inode k (\<lambda>ip. ip\<lparr>valid := False, ilock_owner := None\<rparr>) s))))
      else Inr (drop_ref s))"

definition iunlockput :: "superblock \<Rightarrow> int \<Rightarrow> nat \<Rightarrow> fs \<Rightarrow> halt + fs" where
  "iunlockput sb me k s = andthen (iunlock me k s) (iput sb me k)"

text \<open>\<open>ialloc\<close>: the loop over the inode numbers, and what it stores in the first free inode.\<close>

definition claim :: "16 word \<Rightarrow> nat \<Rightarrow> byte list \<Rightarrow> byte list" where
  "claim t s d = splice (splice d (64 * s) (replicate 64 0)) (64 * s) (bytes16 t)"

function ialloc_from :: "superblock \<Rightarrow> nat \<Rightarrow> 16 word \<Rightarrow> fs \<Rightarrow> halt + (nat \<times> fs) option" where
  "ialloc_from sb i t s =
     (if i < ninodes sb
      then (let b = IBLOCK sb i in
            if dinode_half (fdisk s b) (i mod IPB) 0 = 0
            then andthen (iget i (s\<lparr>fdisk := (fdisk s)(b := claim t (i mod IPB) (fdisk s b))\<rparr>)) (\<lambda>r. Inr (Some r))
            else ialloc_from sb (i + 1) t s)
      else Inr None)"
  by pat_completeness auto
termination by (relation "measure (\<lambda>(sb, i, t, s). ninodes sb - i)") auto

definition ialloc :: "superblock \<Rightarrow> 16 word \<Rightarrow> fs \<Rightarrow> halt + (nat \<times> fs) option" where
  "ialloc sb t s = ialloc_from sb 1 t s"

text \<open>
  \<open>ireclaim\<close> frees the inodes that a crash left allocated without a link.
\<close>

function ireclaim_from :: "superblock \<Rightarrow> int \<Rightarrow> nat \<Rightarrow> fs \<Rightarrow> halt + fs" where
  "ireclaim_from sb me i s =
     (if i < ninodes sb
      then (let d = fdisk s (IBLOCK sb i) in
            if dinode_half d (i mod IPB) 0 \<noteq> 0 \<and> dinode_half d (i mod IPB) 3 = 0
            then andthen (iget i s) (\<lambda>(k, s). andthen (ilock sb me k s) (\<lambda>s. andthen (iunlock me k s) (\<lambda>s.
                   andthen (iput sb me k s) (ireclaim_from sb me (i + 1)))))
            else ireclaim_from sb me (i + 1) s)
      else Inr s)"
  by pat_completeness auto
termination by (relation "measure (\<lambda>(sb, me, i, s). ninodes sb - i)") auto

definition ireclaim :: "superblock \<Rightarrow> int \<Rightarrow> fs \<Rightarrow> halt + fs" where
  "ireclaim sb me s = ireclaim_from sb me 1 s"

text \<open>\<open>fsinit\<close>; \<open>recover\<close> is the recovery of the log by \<open>initlog\<close>.\<close>

definition fsinit :: "(superblock \<Rightarrow> disk \<Rightarrow> disk) \<Rightarrow> int \<Rightarrow> fs \<Rightarrow> halt + superblock \<times> fs" where
  "fsinit recover me s =
     (let sb = readsb (fdisk s) in
      if magic sb \<noteq> FSMAGIC then Inl (Panic ''invalid file system'')
      else andthen (ireclaim sb me (s\<lparr>fdisk := recover sb (fdisk s)\<rparr>)) (\<lambda>s. Inr (sb, s)))"

declare ialloc_from.simps [simp del] ireclaim_from.simps [simp del]

section \<open>The files on the disk\<close>

text \<open>
  \<open>dino sb dk i\<close> is inode \<open>i\<close> as the disk has it, \<open>on_disk ip\<close> what an inode in memory says about the disk.
\<close>

definition dino :: "superblock \<Rightarrow> disk \<Rightarrow> nat \<Rightarrow> inode" where
  "dino sb dk i = load_dinode (dk (IBLOCK sb i)) (i mod IPB)
     \<lparr>inum = i, iref = 0, ilock_owner = None, valid = True, itype = 0, major = 0, minor = 0, nlink = 0,
      isize = 0, addrs = []\<rparr>"

definition on_disk :: "inode \<Rightarrow> inode" where
  "on_disk ip = ip\<lparr>iref := 0, ilock_owner := None, valid := True\<rparr>"

definition allocated :: "superblock \<Rightarrow> disk \<Rightarrow> nat \<Rightarrow> bool" where
  "allocated sb dk i \<longleftrightarrow> 1 \<le> i \<and> i < ninodes sb \<and> itype (dino sb dk i) \<noteq> 0"

definition file_blocks :: "superblock \<Rightarrow> disk \<Rightarrow> nat \<Rightarrow> nat set" where
  "file_blocks sb dk i = slot dk (dino sb dk i) ` places - {0}"

definition meta :: "superblock \<Rightarrow> nat set" where
  "meta sb = insert 1 (IBLOCK sb ` {..<ninodes sb})"

text \<open>The blocks that do not belong to file \<open>i\<close>: those of the layout and those of the other files.\<close>

definition others :: "superblock \<Rightarrow> disk \<Rightarrow> nat \<Rightarrow> nat set" where
  "others sb dk i = meta sb \<union> (\<Union>j \<in> {j. allocated sb dk j \<and> j \<noteq> i}. file_blocks sb dk j)"

definition files_ok :: "superblock \<Rightarrow> disk \<Rightarrow> bool" where
  "files_ok sb dk \<longleftrightarrow> disk_ok sb dk \<and> (\<forall>p \<in> meta sb. p < size sb \<and> marked sb dk p \<and> p \<notin> bitmap_blocks sb) \<and>
     (\<forall>i. allocated sb dk i \<longrightarrow> file_ok sb (others sb dk i) dk (dino sb dk i))"

text \<open>
  The table: one entry for each referenced inode, valid entries say what is on the disk.
\<close>

definition table_ok :: "superblock \<Rightarrow> fs \<Rightarrow> bool" where
  "table_ok sb s \<longleftrightarrow> length (itab s) = NINODE \<and> (\<forall>k < NINODE. 0 \<le> iref (itab s ! k)) \<and>
     (\<forall>k < NINODE. \<forall>l < NINODE. 0 < iref (itab s ! k) \<and> 0 < iref (itab s ! l) \<and>
        inum (itab s ! k) = inum (itab s ! l) \<longrightarrow> k = l) \<and>
     (\<forall>k < NINODE. 0 < iref (itab s ! k) \<and> valid (itab s ! k) \<longrightarrow>
        on_disk (itab s ! k) = dino sb (fdisk s) (inum (itab s ! k)) \<and> allocated sb (fdisk s) (inum (itab s ! k))) \<and>
     (\<forall>k < NINODE. ilock_owner (itab s ! k) \<noteq> None \<longrightarrow> 0 < iref (itab s ! k) \<and> valid (itab s ! k)) \<and>
     (\<forall>k < NINODE. 0 < iref (itab s ! k) \<longrightarrow> 1 \<le> inum (itab s ! k) \<and> inum (itab s ! k) < ninodes sb)"

definition fs_ok :: "superblock \<Rightarrow> fs \<Rightarrow> bool" where
  "fs_ok sb s \<longleftrightarrow> files_ok sb (fdisk s) \<and> table_ok sb s"

lemma load_dinode_simps [simp]:
  "inum (load_dinode d s ip) = inum ip" "iref (load_dinode d s ip) = iref ip"
  "ilock_owner (load_dinode d s ip) = ilock_owner ip" "valid (load_dinode d s ip) = valid ip"
  by (simp_all add: load_dinode_def)

lemma on_disk_simps [simp]:
  "inum (on_disk ip) = inum ip" "itype (on_disk ip) = itype ip" "nlink (on_disk ip) = nlink ip"
  "isize (on_disk ip) = isize ip" "addrs (on_disk ip) = addrs ip" "iref (on_disk ip) = 0"
  "on_disk (on_disk ip) = on_disk ip" "on_disk (ip\<lparr>iref := r\<rparr>) = on_disk ip"
  "on_disk (ip\<lparr>ilock_owner := l\<rparr>) = on_disk ip" "on_disk (ip\<lparr>valid := v\<rparr>) = on_disk ip"
  by (simp_all add: on_disk_def)

lemma inum_dino [simp]: "inum (dino sb dk i) = i" and iref_dino [simp]: "iref (dino sb dk i) = 0"
  by (simp_all add: dino_def)

lemma on_disk_dino [simp]: "on_disk (dino sb dk i) = dino sb dk i"
  by (simp add: on_disk_def dino_def load_dinode_def)

text \<open>The content of a file depends on what the inode says about the disk.\<close>

lemma on_disk_cong:
  assumes "on_disk ip = on_disk jp"
  shows "slot dk ip = slot dk jp" "file_ok sb P dk ip = file_ok sb P dk jp" "fbyte dk ip = fbyte dk jp"
    "contents dk ip = contents dk jp" "inum ip = inum jp" "itype ip = itype jp" "nlink ip = nlink jp"
    "isize ip = isize jp" "addrs ip = addrs jp"
proof -
  show e: "inum ip = inum jp" "itype ip = itype jp" "nlink ip = nlink jp" "isize ip = isize jp" "addrs ip = addrs jp"
    using arg_cong [OF assms, of inum] arg_cong [OF assms, of itype] arg_cong [OF assms, of nlink]
      arg_cong [OF assms, of isize] arg_cong [OF assms, of addrs] by simp_all
  show s: "slot dk ip = slot dk jp" by (rule slot_addrs) (rule e(5))
  show "file_ok sb P dk ip = file_ok sb P dk jp" by (simp add: file_ok_def e s)
  show "fbyte dk ip = fbyte dk jp" unfolding fbyte_def s ..
  then show "contents dk ip = contents dk jp" by (simp add: contents_def e)
qed

lemma load_on_disk: "on_disk (load_dinode (dk (IBLOCK sb (inum ip))) (inum ip mod IPB) ip) = dino sb dk (inum ip)"
  by (simp add: on_disk_def dino_def load_dinode_def)

text \<open>Storing one inode leaves the others.\<close>

lemma load_dinode_cong:
  assumes "\<And>k. k < 64 \<Longrightarrow> d ! (64 * s + k) = e ! (64 * s + k)"
  shows "load_dinode d s ip = load_dinode e s ip"
proof -
  have w: "word_at d (16 * s + j) = word_at e (16 * s + j)" if "j < 16" for j
    using assms [of "4 * j"] assms [of "4 * j + 1"] assms [of "4 * j + 2"] assms [of "4 * j + 3"] that
    by (simp add: word_at_def distrib_left add.assoc)
  have "map (\<lambda>i. word_at d (16 * s + 3 + i)) [0..<NDIRECT + 1] = map (\<lambda>i. word_at e (16 * s + 3 + i)) [0..<NDIRECT + 1]"
    by (rule map_cong) (use w [of "3 + _"] in \<open>auto simp: NDIRECT_eq add.assoc\<close>)
  moreover have "dinode_half d s j = dinode_half e s j" if "j < 32" for j
    using assms [of "2 * j"] assms [of "2 * j + 1"] that by (simp add: dinode_half_def add.assoc)
  ultimately show ?thesis using w [of 2] by (simp add: load_dinode_def del: upt_Suc)
qed

lemma dino_other:
  assumes b: "dk' (IBLOCK sb i) = splice (dk (IBLOCK sb i)) (64 * (i mod IPB)) xs" "length xs = 64"
    "length (dk (IBLOCK sb i)) = BSIZE" and o: "IBLOCK sb j \<noteq> IBLOCK sb i \<Longrightarrow> dk' (IBLOCK sb j) = dk (IBLOCK sb j)" "i \<noteq> j"
  shows "dino sb dk' j = dino sb dk j"
proof (cases "IBLOCK sb j = IBLOCK sb i")
  case True
  then have "j div IPB = i div IPB" by (simp add: IBLOCK_def)
  then have m: "j mod IPB \<noteq> i mod IPB" using o(2) by (metis div_mult_mod_eq)
  have "dk' (IBLOCK sb j) ! (64 * (j mod IPB) + k) = dk (IBLOCK sb j) ! (64 * (j mod IPB) + k)" if "k < 64" for k
  proof -
    have "\<not> (64 * (i mod IPB) \<le> 64 * (j mod IPB) + k \<and> 64 * (j mod IPB) + k < 64 * (i mod IPB) + 64)"
    proof -
      consider "j mod IPB + 1 \<le> i mod IPB" | "i mod IPB + 1 \<le> j mod IPB" using m by linarith
      then show ?thesis using that by cases linarith+
    qed
    then show ?thesis
      using b dinode_fits [of i] dinode_fits [of j] that unfolding True by (auto simp: nth_splice)
  qed
  then show ?thesis unfolding dino_def by (intro load_dinode_cong)
qed (use o in \<open>simp add: dino_def\<close>)

lemma dino_same:
  assumes "dk' (IBLOCK sb (inum ip)) = iupdate sb dk ip (IBLOCK sb (inum ip))" "length (addrs ip) = NDIRECT + 1"
    "length (dk (IBLOCK sb (inum ip))) = BSIZE"
  shows "dino sb dk' (inum ip) = on_disk ip"
  unfolding dino_def assms(1) load_iupdate [where ip = ip and dk = dk and sb = sb, OF assms(2,3)] by (simp add: on_disk_def)

section \<open>A change of one file\<close>

lemma files_okD:
  assumes "files_ok sb dk"
  shows "disk_ok sb dk" "p \<in> meta sb \<Longrightarrow> p < size sb" "p \<in> meta sb \<Longrightarrow> marked sb dk p"
    "p \<in> meta sb \<Longrightarrow> p \<notin> bitmap_blocks sb" "allocated sb dk i \<Longrightarrow> file_ok sb (others sb dk i) dk (dino sb dk i)"
  using assms unfolding files_ok_def by blast+

lemma meta_others [simp]: "meta sb \<subseteq> others sb dk i"
  by (auto simp: others_def)

lemma iblock_meta [simp]: "i < ninodes sb \<Longrightarrow> IBLOCK sb i \<in> meta sb"
  by (simp add: meta_def)

lemma file_blocks_others: "allocated sb dk j \<Longrightarrow> j \<noteq> i \<Longrightarrow> file_blocks sb dk j \<subseteq> others sb dk i"
  by (auto simp: others_def)

lemma file_blocks_meta:
  assumes "files_ok sb dk" "allocated sb dk j" shows "file_blocks sb dk j \<inter> meta sb = {}"
proof -
  have "p \<notin> others sb dk j" if "p \<in> file_blocks sb dk j" for p
    using ownsD(7) [OF file_okD(2) [OF files_okD(5) [OF assms]]] that by (auto simp: file_blocks_def)
  then show ?thesis using meta_others by blast
qed

lemma slot_same:
  assumes "slot dk ip None \<noteq> 0 \<Longrightarrow> dk' (slot dk ip None) = dk (slot dk ip None)"
  shows "slot dk' ip = slot dk ip"
proof (cases "slot dk ip None = 0")
  case True
  then have "addrs ip ! NDIRECT = 0" by (simp add: slot_def unat_eq_0)
  then show ?thesis by (simp add: slot_def fun_eq_iff split: option.splits)
qed (use assms slot_cong in blast)

text \<open>
  \<open>changes sb dk i dk' ip'\<close>: the disk becomes \<open>dk'\<close> and inode \<open>i\<close> becomes \<open>ip'\<close>, stored in its place,
  with blocks that were its own or free.
\<close>

definition changes :: "superblock \<Rightarrow> disk \<Rightarrow> nat \<Rightarrow> disk \<Rightarrow> inode \<Rightarrow> bool" where
  "changes sb dk i dk' ip' \<longleftrightarrow> files_ok sb dk \<and> 1 \<le> i \<and> i < ninodes sb \<and> inum ip' = i \<and>
     file_ok sb (others sb dk i) dk' ip' \<and> dk' (IBLOCK sb i) = iupdate sb dk ip' (IBLOCK sb i) \<and>
     (\<forall>q \<in> others sb dk i. q \<noteq> IBLOCK sb i \<longrightarrow> dk' q = dk q)"

lemma changesD:
  assumes "changes sb dk i dk' ip'"
  shows "files_ok sb dk" "1 \<le> i" "i < ninodes sb" "inum ip' = i" "file_ok sb (others sb dk i) dk' ip'"
    "dk' (IBLOCK sb i) = iupdate sb dk ip' (IBLOCK sb i)" "q \<in> others sb dk i \<Longrightarrow> q \<noteq> IBLOCK sb i \<Longrightarrow> dk' q = dk q"
  using assms by (auto simp: changes_def)

lemma changed_dino:
  assumes c: "changes sb dk i dk' ip'" shows "dino sb dk' i = on_disk ip'"
proof -
  note ok = changesD(1) [OF c] and i = changesD(2-4) [OF c] and f = changesD(5) [OF c] and b = changesD(6) [OF c]
  show ?thesis using dino_same [of dk' sb ip' dk] b file_okD(1) [OF f] disk_okD(1) [OF files_okD(1) [OF ok]] i(3) by simp
qed

lemma unchanged_dino:
  assumes c: "changes sb dk i dk' ip'" and j: "j < ninodes sb" "j \<noteq> i" shows "dino sb dk' j = dino sb dk j"
proof (rule dino_other [where i = i and xs = "dinode_bytes ip'"])
  note ok = changesD(1) [OF c] and i = changesD(2-4) [OF c] and f = changesD(5) [OF c] and b = changesD(6) [OF c]
    and o = changesD(7) [OF c]
  show "dk' (IBLOCK sb i) = splice (dk (IBLOCK sb i)) (64 * (i mod IPB)) (dinode_bytes ip')"
    using b i(3) by (simp add: iupdate_def Let_def)
  show "length (dinode_bytes ip') = 64" by (rule length_dinode [OF file_okD(1) [OF f]])
  show "length (dk (IBLOCK sb i)) = BSIZE" by (rule disk_okD(1) [OF files_okD(1) [OF ok]])
  show "IBLOCK sb j \<noteq> IBLOCK sb i \<Longrightarrow> dk' (IBLOCK sb j) = dk (IBLOCK sb j)"
    using o iblock_meta [OF j(1)] meta_others by blast
qed (use j in simp)

lemma unchanged_file:
  assumes c: "changes sb dk i dk' ip'" and j: "allocated sb dk j" "j \<noteq> i"
  shows "slot dk' (dino sb dk j) = slot dk (dino sb dk j)" "p \<in> file_blocks sb dk j \<Longrightarrow> dk' p = dk p"
    "file_blocks sb dk' j = file_blocks sb dk j" "contents dk' (dino sb dk' j) = contents dk (dino sb dk j)"
proof -
  note ok = changesD(1) [OF c] and i = changesD(2-4) [OF c] and o = changesD(7) [OF c]
  have n: "IBLOCK sb i \<notin> file_blocks sb dk j" using file_blocks_meta [OF ok j(1)] iblock_meta [OF i(2)] by blast
  show s: "dk' p = dk p" if "p \<in> file_blocks sb dk j" for p
    using o [of p] that n file_blocks_others [OF j] by blast
  show e: "slot dk' (dino sb dk j) = slot dk (dino sb dk j)"
    by (rule slot_same, rule s) (auto simp: file_blocks_def)
  have d: "dino sb dk' j = dino sb dk j" using unchanged_dino [OF c] j by (simp add: allocated_def)
  show "file_blocks sb dk' j = file_blocks sb dk j" unfolding file_blocks_def d e ..
  have "fbyte dk' (dino sb dk j) m = fbyte dk (dino sb dk j) m" if "m < unat (isize (dino sb dk j))" for m
  proof -
    have "m div BSIZE < MAXFILE"
      using that file_okD(3) [OF files_okD(5) [OF ok j(1)]] by (simp add: MAXFILE_eq BSIZE_eq)
    then have "slot dk (dino sb dk j) (Some (m div BSIZE)) = 0 \<or> slot dk (dino sb dk j) (Some (m div BSIZE)) \<in> file_blocks sb dk j"
      by (auto simp: file_blocks_def)
    then show ?thesis using s by (auto simp: fbyte_def e Let_def)
  qed
  then show "contents dk' (dino sb dk' j) = contents dk (dino sb dk j)" by (simp add: contents_def d)
qed

lemma changed_allocated:
  assumes c: "changes sb dk i dk' ip'" shows "allocated sb dk' j \<longleftrightarrow> (if j = i then itype ip' \<noteq> 0 else allocated sb dk j)"
  using unchanged_dino [OF c, of j] changed_dino [OF c] changesD(2,3) [OF c] by (auto simp: allocated_def)

lemma changed_blocks:
  assumes c: "changes sb dk i dk' ip'" shows "file_blocks sb dk' i = slot dk' ip' ` places - {0}"
  unfolding file_blocks_def changed_dino [OF c] by (simp add: on_disk_cong(1) [of "on_disk ip'" ip'])

lemma changed_others:
  assumes c: "changes sb dk i dk' ip'" shows "others sb dk' i = others sb dk i"
  unfolding others_def using unchanged_file(3) [OF c] by (auto simp: changed_allocated [OF c])

lemma changed_files_ok:
  assumes c: "changes sb dk i dk' ip'" shows "files_ok sb dk'"
proof -
  note ok = changesD(1) [OF c] and f = changesD(5) [OF c]
  note O = ownsD [OF file_okD(2) [OF f]]
  have m: "p < size sb \<and> marked sb dk' p \<and> p \<notin> bitmap_blocks sb" if "p \<in> meta sb" for p
    using O(2,3,4) that meta_others by blast
  have mine: "p < size sb \<and> marked sb dk' p \<and> p \<notin> bitmap_blocks sb \<and> p \<notin> others sb dk i" if "p \<in> file_blocks sb dk' i" for p
    using O(5,6,7,8) that unfolding changed_blocks [OF c] by auto
  have "file_ok sb (others sb dk' j) dk' (dino sb dk' j)" if a: "allocated sb dk' j" for j
  proof (cases "j = i")
    case True
    then show ?thesis using f unfolding True changed_others [OF c] changed_dino [OF c] by (simp add: on_disk_cong(2) [of "on_disk ip'" ip'])
  next
    case False
    then have j: "allocated sb dk j" using a by (simp add: changed_allocated [OF c])
    note F = file_okD [OF files_okD(5) [OF ok j]] and U = unchanged_file [OF c j False]
    note W = ownsD [OF F(2)]
    have d: "dino sb dk' j = dino sb dk j" using unchanged_dino [OF c] j False by (simp add: allocated_def)
    have sub: "p \<in> meta sb \<or> p \<in> others sb dk j \<and> p \<in> others sb dk i \<or> p \<in> file_blocks sb dk' i"
      if "p \<in> others sb dk' j" for p
      using that unchanged_file(3) [OF c] unfolding others_def by (auto simp: changed_allocated [OF c] split: if_splits)
    have own: "p \<in> others sb dk i \<and> p \<notin> others sb dk j" if "k \<in> places" "p = slot dk (dino sb dk j) k" "p \<noteq> 0" for k p
      using file_blocks_others [OF j False] W(7) that by (auto simp: file_blocks_def)
    have "owns sb (others sb dk' j) dk' (slot dk (dino sb dk j))"
      unfolding owns_def
    proof (intro conjI ballI)
      show "disk_ok sb dk'" by (rule O(1))
    next
      fix p assume p: "p \<in> others sb dk' j"
      from sub [OF p] show "p < size sb" "marked sb dk' p" "p \<notin> bitmap_blocks sb"
        using m mine O(2,3,4) by blast+
    next
      fix k assume k: "k \<in> places"
      show "slot dk (dino sb dk j) k \<noteq> 0 \<longrightarrow> slot dk (dino sb dk j) k < size sb \<and> marked sb dk' (slot dk (dino sb dk j) k) \<and>
        slot dk (dino sb dk j) k \<notin> others sb dk' j \<and> slot dk (dino sb dk j) k \<notin> bitmap_blocks sb"
        using W(5,8) [OF k] own [OF k refl] O(3) sub mine meta_others by blast
    next
      fix k l assume "k \<in> places" "l \<in> places"
      then show "slot dk (dino sb dk j) k = slot dk (dino sb dk j) l \<and> slot dk (dino sb dk j) k \<noteq> 0 \<longrightarrow> k = l"
        using W(9) by blast
    qed
    then show ?thesis using F unfolding file_ok_def d U(1) by blast
  qed
  then show ?thesis unfolding files_ok_def using O(1) m by blast
qed

section \<open>The table\<close>

lemma table_okD:
  assumes "table_ok sb s"
  shows "length (itab s) = NINODE" "k < NINODE \<Longrightarrow> 0 \<le> iref (itab s ! k)"
    "k < NINODE \<Longrightarrow> l < NINODE \<Longrightarrow> 0 < iref (itab s ! k) \<Longrightarrow> 0 < iref (itab s ! l) \<Longrightarrow>
      inum (itab s ! k) = inum (itab s ! l) \<Longrightarrow> k = l"
    "k < NINODE \<Longrightarrow> 0 < iref (itab s ! k) \<Longrightarrow> valid (itab s ! k) \<Longrightarrow>
      on_disk (itab s ! k) = dino sb (fdisk s) (inum (itab s ! k))"
    "k < NINODE \<Longrightarrow> 0 < iref (itab s ! k) \<Longrightarrow> valid (itab s ! k) \<Longrightarrow> allocated sb (fdisk s) (inum (itab s ! k))"
    "k < NINODE \<Longrightarrow> iref (itab s ! k) = 0 \<Longrightarrow> ilock_owner (itab s ! k) = None"
    "k < NINODE \<Longrightarrow> ilock_owner (itab s ! k) \<noteq> None \<Longrightarrow> 0 < iref (itab s ! k) \<and> valid (itab s ! k)"
    "k < NINODE \<Longrightarrow> 0 < iref (itab s ! k) \<Longrightarrow> 1 \<le> inum (itab s ! k) \<and> inum (itab s ! k) < ninodes sb"
  using assms unfolding table_ok_def by (blast, blast, blast, blast, blast, force, blast, blast)

lemma fs_okD: "fs_ok sb s \<Longrightarrow> files_ok sb (fdisk s)" "fs_ok sb s \<Longrightarrow> table_ok sb s"
  by (simp_all add: fs_ok_def)

lemma upd_inode_simps [simp]:
  "fdisk (upd_inode k f s) = fdisk s" "length (itab (upd_inode k f s)) = length (itab s)"
  "k < length (itab s) \<Longrightarrow> itab (upd_inode k f s) ! l = (if l = k then f (itab s ! k) else itab s ! l)"
  by (auto simp: upd_inode_def)

text \<open>The references to an inode number.\<close>

definition refs :: "fs \<Rightarrow> nat \<Rightarrow> int" where
  "refs s i = (\<Sum>k < NINODE. if inum (itab s ! k) = i then iref (itab s ! k) else 0)"

lemma refs_cong: "(\<And>k. k < NINODE \<Longrightarrow> inum (itab s ! k) = inum (itab t ! k) \<and> iref (itab s ! k) = iref (itab t ! k)) \<Longrightarrow> refs s = refs t"
  by (auto simp: refs_def fun_eq_iff intro!: sum.cong)

lemma refs_split:
  assumes "k < NINODE"
  shows "refs s j = (if inum (itab s ! k) = j then iref (itab s ! k) else 0) +
    (\<Sum>l \<in> {..<NINODE} - {k}. if inum (itab s ! l) = j then iref (itab s ! l) else 0)"
  unfolding refs_def using assms by (intro sum.remove) auto

lemma refs_change:
  assumes "k < NINODE" "\<And>l. l < NINODE \<Longrightarrow> l \<noteq> k \<Longrightarrow> itab t ! l = itab s ! l"
    "inum (itab t ! k) = i" "inum (itab s ! k) = i \<or> iref (itab s ! k) = 0"
  shows "refs t = (refs s)(i := refs s i + (iref (itab t ! k) - iref (itab s ! k)))"
proof
  fix j
  have "(\<Sum>l \<in> {..<NINODE} - {k}. if inum (itab t ! l) = j then iref (itab t ! l) else 0) =
    (\<Sum>l \<in> {..<NINODE} - {k}. if inum (itab s ! l) = j then iref (itab s ! l) else 0)"
    using assms(2) by (intro sum.cong) auto
  then show "refs t j = ((refs s)(i := refs s i + (iref (itab t ! k) - iref (itab s ! k)))) j"
    using assms(3,4) refs_split [OF assms(1), of t j] refs_split [OF assms(1), of s j] by auto
qed

lemma refs_entry:
  assumes t: "table_ok sb s" and k: "k < NINODE" "0 < iref (itab s ! k)"
  shows "refs s (inum (itab s ! k)) = iref (itab s ! k)"
proof -
  have "refs s (inum (itab s ! k)) = (\<Sum>l < NINODE. if l = k then iref (itab s ! k) else 0)"
    unfolding refs_def
  proof (rule sum.cong)
    fix l assume "l \<in> {..<NINODE}"
    then show "(if inum (itab s ! l) = inum (itab s ! k) then iref (itab s ! l) else 0) = (if l = k then iref (itab s ! k) else 0)"
      using table_okD(2,3) [OF t, of l] k table_okD(3) [OF t, of l k] by (cases "0 < iref (itab s ! l)") (auto simp: not_less)
  qed simp
  then show ?thesis using k(1) by simp
qed

text \<open>A change of an entry that keeps what it says about the disk.\<close>

lemma table_entry:
  assumes t: "table_ok sb s" and k: "k < NINODE" and e: "0 \<le> iref e" "0 < iref e \<Longrightarrow>
      (inum e = inum (itab s ! k) \<and> 0 < iref (itab s ! k)) \<or> (\<forall>l < NINODE. 0 < iref (itab s ! l) \<longrightarrow> inum (itab s ! l) \<noteq> inum e)"
    "0 < iref e \<Longrightarrow> valid e \<Longrightarrow> on_disk e = dino sb (fdisk s) (inum e) \<and> allocated sb (fdisk s) (inum e)"
    "ilock_owner e \<noteq> None \<Longrightarrow> 0 < iref e \<and> valid e" "0 < iref e \<Longrightarrow> 1 \<le> inum e \<and> inum e < ninodes sb"
  shows "table_ok sb (s\<lparr>itab := (itab s)[k := e]\<rparr>)"
proof -
  note T = table_okD [OF t]
  have u: "inum (itab s ! l) \<noteq> inum e" if "l < NINODE" "l \<noteq> k" "0 < iref (itab s ! l)" "0 < iref e" for l
    using e(2) [OF that(4)] T(3) [OF k that(1)] that(1,2,3) by metis
  moreover have "inum e \<noteq> inum (itab s ! l)" if "l < NINODE" "l \<noteq> k" "0 < iref (itab s ! l)" "0 < iref e" for l
    using u that by metis
  ultimately have "\<forall>l < NINODE. \<forall>m < NINODE. 0 < iref ((itab s)[k := e] ! l) \<and> 0 < iref ((itab s)[k := e] ! m) \<and>
      inum ((itab s)[k := e] ! l) = inum ((itab s)[k := e] ! m) \<longrightarrow> l = m"
    using T(1,3) k by (auto simp: nth_list_update)
  moreover have "\<forall>l < NINODE. 0 < iref ((itab s)[k := e] ! l) \<and> valid ((itab s)[k := e] ! l) \<longrightarrow>
      on_disk ((itab s)[k := e] ! l) = dino sb (fdisk s) (inum ((itab s)[k := e] ! l)) \<and>
      allocated sb (fdisk s) (inum ((itab s)[k := e] ! l))"
    using T(1,4,5) k e(3) by (auto simp: nth_list_update)
  moreover have "0 \<le> iref ((itab s)[k := e] ! l) \<and> (ilock_owner ((itab s)[k := e] ! l) \<noteq> None \<longrightarrow>
      0 < iref ((itab s)[k := e] ! l) \<and> valid ((itab s)[k := e] ! l)) \<and>
      (0 < iref ((itab s)[k := e] ! l) \<longrightarrow> 1 \<le> inum ((itab s)[k := e] ! l) \<and> inum ((itab s)[k := e] ! l) < ninodes sb)"
    if "l < NINODE" for l
    using T(1,2,7,8) k e(1,4,5) that by (cases "l = k") simp_all
  ultimately show ?thesis using T(1) unfolding table_ok_def by simp
qed

text \<open>\<open>iget\<close> finds the entry or makes one, and counts the reference.\<close>

definition room :: "nat \<Rightarrow> fs \<Rightarrow> bool" where
  "room n s \<longleftrightarrow> n \<le> card {k. k < NINODE \<and> iref (itab s ! k) = 0}"

lemma iget_effect:
  assumes ok: "fs_ok sb s" and i: "1 \<le> i" "i < ninodes sb"
  obtains (full) "iget i s = Inl (Panic ''iget: no inodes'')" "\<forall>k < NINODE. iref (itab s ! k) \<noteq> 0"
  | (got) k s' where "iget i s = Inr (k, s')" "k < NINODE" "fs_ok sb s'" "fdisk s' = fdisk s"
      "inum (itab s' ! k) = i" "0 < iref (itab s' ! k)" "refs s' = (refs s)(i := refs s i + 1)"
      "ilock_owner (itab s' ! k) = ilock_owner (itab s ! k)" "\<And>l. l < NINODE \<Longrightarrow> l \<noteq> k \<Longrightarrow> itab s' ! l = itab s ! l"
      "0 < iref (itab s ! k) \<and> inum (itab s ! k) = i \<or> iref (itab s ! k) = 0 \<and> refs s i = 0"
proof (cases "first_index (\<lambda>ip. iref ip > 0 \<and> inum ip = i) (itab s)")
  note T = table_okD [OF fs_okD(2) [OF ok]]
  case (Some k)
  have k: "k < NINODE" "0 < iref (itab s ! k)" "inum (itab s ! k) = i"
    using first_index_SomeD(1,2) [OF Some] T(1) by auto
  let ?e = "(itab s ! k)\<lparr>iref := iref (itab s ! k) + 1\<rparr>" and ?s = "upd_inode k (\<lambda>ip. ip\<lparr>iref := iref ip + 1\<rparr>) s"
  have "table_ok sb ?s" unfolding upd_inode_def
    by (rule table_entry [OF fs_okD(2) [OF ok] k(1)]) (use k i T(2,4,5,7) [OF k(1)] in auto)
  then have "fs_ok sb ?s" using fs_okD(1) [OF ok] by (simp add: fs_ok_def)
  moreover have "refs ?s = (refs s)(i := refs s i + 1)"
    by (subst refs_change [OF k(1), where s = s and i = i]) (use k T(1) in auto)
  ultimately show ?thesis using got [of k ?s] k T(1) by (simp add: iget_def Some)
next
  note T = table_okD [OF fs_okD(2) [OF ok]]
  case None
  have n: "l < NINODE \<Longrightarrow> 0 < iref (itab s ! l) \<Longrightarrow> inum (itab s ! l) \<noteq> i" for l
    using None T(1) by (auto simp: first_index_None)
  have r0: "refs s i = 0" unfolding refs_def
  proof (intro sum.neutral ballI)
    fix l assume "l \<in> {..<NINODE}"
    then show "(if inum (itab s ! l) = i then iref (itab s ! l) else 0) = 0" using n [of l] T(2) [of l] by (cases "0 < iref (itab s ! l)") auto
  qed
  show ?thesis
  proof (cases "first_index (\<lambda>ip. iref ip = 0) (itab s)")
    case None2: None
    then have "\<forall>k < NINODE. iref (itab s ! k) \<noteq> 0"
      using T(1) by (simp add: first_index_None all_set_conv_all_nth)
    moreover have "iget i s = Inl (Panic ''iget: no inodes'')" by (simp add: iget_def None None2)
    ultimately show ?thesis using full by blast
  next
    case (Some k)
    have k: "k < NINODE" "iref (itab s ! k) = 0" using first_index_SomeD(1,2) [OF Some] T(1) by auto
    let ?s = "upd_inode k (\<lambda>ip. ip\<lparr>inum := i, iref := 1, valid := False\<rparr>) s"
    have "table_ok sb ?s" unfolding upd_inode_def
      by (rule table_entry [OF fs_okD(2) [OF ok] k(1)]) (use k i n T(6) in auto)
    then have "fs_ok sb ?s" using fs_okD(1) [OF ok] by (simp add: fs_ok_def)
    moreover have "refs ?s = (refs s)(i := refs s i + 1)"
      by (subst refs_change [OF k(1), where s = s and i = i]) (use k T(1) in auto)
    ultimately show ?thesis using got [of k ?s] k r0 T(1) by (simp add: iget_def None Some)
  qed
qed

lemma entry_effect:
  assumes ok: "fs_ok sb s" and k: "k < NINODE" "0 < iref (itab s ! k)" and e: "inum e = inum (itab s ! k)" "0 < iref e"
    "valid e \<Longrightarrow> on_disk e = dino sb (fdisk s) (inum e) \<and> allocated sb (fdisk s) (inum e)"
    "ilock_owner e \<noteq> None \<Longrightarrow> valid e"
  shows "fs_ok sb (upd_inode k (\<lambda>_. e) s)"
    "refs (upd_inode k (\<lambda>_. e) s) = (refs s)(inum e := refs s (inum e) + (iref e - iref (itab s ! k)))"
proof -
  note T = table_okD [OF fs_okD(2) [OF ok]]
  have "table_ok sb (upd_inode k (\<lambda>_. e) s)" unfolding upd_inode_def
    by (rule table_entry [OF fs_okD(2) [OF ok] k(1)]) (use k e T(8) [OF k] in auto)
  then show "fs_ok sb (upd_inode k (\<lambda>_. e) s)" using fs_okD(1) [OF ok] by (simp add: fs_ok_def)
  show "refs (upd_inode k (\<lambda>_. e) s) = (refs s)(inum e := refs s (inum e) + (iref e - iref (itab s ! k)))"
    by (subst refs_change [OF k(1), where s = s and i = "inum e"]) (use k e T(1) in auto)
qed

lemma idup_effect:
  assumes ok: "fs_ok sb s" and k: "k < NINODE" "0 < iref (itab s ! k)"
  shows "fs_ok sb (idup k s)" "refs (idup k s) = (refs s)(inum (itab s ! k) := refs s (inum (itab s ! k)) + 1)"
proof -
  have i: "idup k s = upd_inode k (\<lambda>_. (itab s ! k)\<lparr>iref := iref (itab s ! k) + 1\<rparr>) s"
    by (simp add: idup_def upd_inode_def)
  note T = table_okD [OF fs_okD(2) [OF ok]]
  show "fs_ok sb (idup k s)" "refs (idup k s) = (refs s)(inum (itab s ! k) := refs s (inum (itab s ! k)) + 1)"
    unfolding i using entry_effect [OF ok k, of "(itab s ! k)\<lparr>iref := iref (itab s ! k) + 1\<rparr>"] T(4,5) [OF k] T(7) [OF k(1)] k(2)
    by simp_all
qed

lemma ilock_effect:
  assumes ok: "fs_ok sb s" and k: "k < NINODE" "0 < iref (itab s ! k)" "ilock_owner (itab s ! k) = None"
    and a: "allocated sb (fdisk s) (inum (itab s ! k))"
  obtains e where "ilock sb me k s = Inr (upd_inode k (\<lambda>_. e) s)" "inum e = inum (itab s ! k)" "iref e = iref (itab s ! k)"
    "ilock_owner e = Some me" "valid e" "on_disk e = dino sb (fdisk s) (inum e)" "fs_ok sb (upd_inode k (\<lambda>_. e) s)"
    "refs (upd_inode k (\<lambda>_. e) s) = refs s"
proof -
  let ?ip = "(itab s ! k)\<lparr>ilock_owner := Some me\<rparr>"
  note T = table_okD [OF fs_okD(2) [OF ok]]
  define e where "e = (if valid (itab s ! k) then ?ip
    else (load_dinode (fdisk s (IBLOCK sb (inum ?ip))) (inum ?ip mod IPB) ?ip)\<lparr>valid := True\<rparr>)"
  have e: "inum e = inum (itab s ! k)" "iref e = iref (itab s ! k)" "ilock_owner e = Some me" "valid e" by (simp_all add: e_def)
  have d: "on_disk e = dino sb (fdisk s) (inum (itab s ! k))"
    using T(4) [OF k(1,2)] load_on_disk [of "fdisk s" sb ?ip] by (simp add: e_def)
  then have "itype e \<noteq> 0" using a on_disk_simps(2) [of e] by (simp add: allocated_def)
  then have "ilock sb me k s = Inr (upd_inode k (\<lambda>_. e) s)"
    using k T(1) by (cases "valid (itab s ! k)") (simp_all add: ilock_def Let_def e_def upd_inode_def nth_list_update)
  moreover have "fs_ok sb (upd_inode k (\<lambda>_. e) s)" "refs (upd_inode k (\<lambda>_. e) s) = refs s"
    using entry_effect [OF ok k(1,2) e(1)] e k(2) d a by simp_all
  ultimately show ?thesis using that e d by simp
qed

lemma iunlock_effect:
  assumes ok: "fs_ok sb s" and k: "k < NINODE" "0 < iref (itab s ! k)" "ilock_owner (itab s ! k) = Some me"
  shows "iunlock me k s = Inr (upd_inode k (\<lambda>_. (itab s ! k)\<lparr>ilock_owner := None\<rparr>) s)"
    "fs_ok sb (upd_inode k (\<lambda>_. (itab s ! k)\<lparr>ilock_owner := None\<rparr>) s)"
    "refs (upd_inode k (\<lambda>_. (itab s ! k)\<lparr>ilock_owner := None\<rparr>) s) = refs s"
proof -
  note T = table_okD [OF fs_okD(2) [OF ok]]
  show "iunlock me k s = Inr (upd_inode k (\<lambda>_. (itab s ! k)\<lparr>ilock_owner := None\<rparr>) s)"
    using k by (simp add: iunlock_def holding_def upd_inode_def)
  show "fs_ok sb (upd_inode k (\<lambda>_. (itab s ! k)\<lparr>ilock_owner := None\<rparr>) s)"
    "refs (upd_inode k (\<lambda>_. (itab s ! k)\<lparr>ilock_owner := None\<rparr>) s) = refs s"
    using entry_effect [OF ok k(1,2), of "(itab s ! k)\<lparr>ilock_owner := None\<rparr>"] T(4,5) [OF k(1,2)] k by simp_all
qed

text \<open>A change of a file through its valid entry.\<close>

lemma change_effect:
  assumes ok: "fs_ok sb s" and k: "k < NINODE" "0 < iref (itab s ! k)" and c: "changes sb (fdisk s) (inum (itab s ! k)) dk' ip'"
    and e: "on_disk e = on_disk ip'" "0 \<le> iref e" "valid e \<Longrightarrow> itype ip' \<noteq> 0" "ilock_owner e \<noteq> None \<Longrightarrow> 0 < iref e \<and> valid e"
  shows "fs_ok sb (upd_inode k (\<lambda>_. e) (s\<lparr>fdisk := dk'\<rparr>))"
    "refs (upd_inode k (\<lambda>_. e) (s\<lparr>fdisk := dk'\<rparr>)) = (refs s)(inum e := refs s (inum e) + (iref e - iref (itab s ! k)))"
proof -
  note T = table_okD [OF fs_okD(2) [OF ok]]
  have i: "inum e = inum (itab s ! k)" using on_disk_cong(5) [OF e(1)] changesD(4) [OF c] by simp
  have "itab (upd_inode k (\<lambda>_. e) (s\<lparr>fdisk := dk'\<rparr>)) = (itab s)[k := e]" by (simp add: upd_inode_def)
  note [simp] = this
  have un: "dino sb dk' (inum (itab s ! l)) = dino sb (fdisk s) (inum (itab s ! l)) \<and> allocated sb dk' (inum (itab s ! l))"
    if "l < NINODE" "l \<noteq> k" "0 < iref (itab s ! l)" "valid (itab s ! l)" for l
  proof -
    have "inum (itab s ! l) \<noteq> inum (itab s ! k)" using T(3) [OF k(1) that(1)] k(2) that by metis
    then show ?thesis using T(5) [OF that(1,3,4)] unchanged_dino [OF c] changed_allocated [OF c]
      by (simp add: allocated_def)
  qed
  have d: "on_disk e = dino sb dk' (inum e)" using e(1) changed_dino [OF c] i by simp
  have a: "valid e \<Longrightarrow> allocated sb dk' (inum e)"
    using changed_allocated [OF c] e(3) i by simp
  have "0 < iref ((itab s)[k := e] ! l) \<and> valid ((itab s)[k := e] ! l) \<longrightarrow>
      on_disk ((itab s)[k := e] ! l) = dino sb dk' (inum ((itab s)[k := e] ! l)) \<and>
      allocated sb dk' (inum ((itab s)[k := e] ! l))" if "l < NINODE" for l
    using that T(1,4) un d a k(1) by (cases "l = k") simp_all
  moreover have "0 \<le> iref ((itab s)[k := e] ! l) \<and> (ilock_owner ((itab s)[k := e] ! l) \<noteq> None \<longrightarrow>
      0 < iref ((itab s)[k := e] ! l) \<and> valid ((itab s)[k := e] ! l)) \<and>
      (0 < iref ((itab s)[k := e] ! l) \<longrightarrow> 1 \<le> inum ((itab s)[k := e] ! l) \<and> inum ((itab s)[k := e] ! l) < ninodes sb)"
    if "l < NINODE" for l
    using that T(1,2,7,8) e(2,4) k i changesD(2,3) [OF c] by (cases "l = k") simp_all
  moreover have "\<forall>l < NINODE. \<forall>m < NINODE. 0 < iref ((itab s)[k := e] ! l) \<and> 0 < iref ((itab s)[k := e] ! m) \<and>
      inum ((itab s)[k := e] ! l) = inum ((itab s)[k := e] ! m) \<longrightarrow> l = m"
    using T(1,3) k i by (auto simp: nth_list_update)
  ultimately have "table_ok sb (upd_inode k (\<lambda>_. e) (s\<lparr>fdisk := dk'\<rparr>))"
    using T(1) unfolding table_ok_def by simp
  then show "fs_ok sb (upd_inode k (\<lambda>_. e) (s\<lparr>fdisk := dk'\<rparr>))"
    using changed_files_ok [OF c] by (simp add: fs_ok_def)
  show "refs (upd_inode k (\<lambda>_. e) (s\<lparr>fdisk := dk'\<rparr>)) = (refs s)(inum e := refs s (inum e) + (iref e - iref (itab s ! k)))"
    by (subst refs_change [OF k(1), where s = s and i = "inum e"]) (use k i T(1) in \<open>auto simp: nth_list_update\<close>)
qed

section \<open>The operations as changes\<close>

lemma entry_file_ok:
  assumes ok: "fs_ok sb s" and k: "k < NINODE" "0 < iref (itab s ! k)" "valid (itab s ! k)"
  shows "file_ok sb (others sb (fdisk s) (inum (itab s ! k))) (fdisk s) (itab s ! k)"
    "1 \<le> inum (itab s ! k)" "inum (itab s ! k) < ninodes sb" "itype (itab s ! k) \<noteq> 0"
    "IBLOCK sb (inum (itab s ! k)) \<in> others sb (fdisk s) (inum (itab s ! k))"
proof -
  note T = table_okD(4,5) [OF fs_okD(2) [OF ok] k]
  show "1 \<le> inum (itab s ! k)" and i: "inum (itab s ! k) < ninodes sb" using T(2) by (simp_all add: allocated_def)
  have d: "on_disk (itab s ! k) = on_disk (dino sb (fdisk s) (inum (itab s ! k)))" using T(1) by simp
  show "file_ok sb (others sb (fdisk s) (inum (itab s ! k))) (fdisk s) (itab s ! k)"
    unfolding on_disk_cong(2) [OF d] by (rule files_okD(5) [OF fs_okD(1) [OF ok] T(2)])
  show "itype (itab s ! k) \<noteq> 0" using on_disk_cong(6) [OF d] T(2) by (simp add: allocated_def)
  show "IBLOCK sb (inum (itab s ! k)) \<in> others sb (fdisk s) (inum (itab s ! k))"
    using iblock_meta [OF i] meta_others by blast
qed

lemma others_bitmap:
  assumes "file_ok sb P dk ip" "q \<in> P" shows "q \<notin> bitmap_blocks sb"
  using ownsD(4) [OF file_okD(2) [OF assms(1)] assms(2)] .

lemma itrunc_changes:
  assumes ok: "fs_ok sb s" and k: "k < NINODE" "0 < iref (itab s ! k)" "valid (itab s ! k)"
  obtains dk' ip' where "itrunc sb (fdisk s) (itab s ! k) = Inr (dk', ip')"
    "changes sb (fdisk s) (inum (itab s ! k)) dk' ip'" "ip' = (itab s ! k)\<lparr>addrs := replicate (NDIRECT + 1) 0, isize := 0\<rparr>"
    "free_blocks sb dk' = free_blocks sb (fdisk s) \<union> file_blocks sb (fdisk s) (inum (itab s ! k))"
proof -
  note E = entry_file_ok [OF ok k]
  show ?thesis
  proof (rule itrunc_effect [OF E(1,5)])
    fix dk' ip'
    assume r: "itrunc sb (fdisk s) (itab s ! k) = Inr (dk', ip')"
      "file_ok sb (others sb (fdisk s) (inum (itab s ! k))) dk' ip'"
      "ip' = (itab s ! k)\<lparr>addrs := replicate (NDIRECT + 1) 0, isize := 0\<rparr>"
      "free_blocks sb dk' = free_blocks sb (fdisk s) \<union> (slot (fdisk s) (itab s ! k) ` places - {0})"
      "\<And>q. q \<notin> bitmap_blocks sb \<Longrightarrow> q \<noteq> IBLOCK sb (inum (itab s ! k)) \<Longrightarrow> dk' q = fdisk s q"
      "dk' (IBLOCK sb (inum (itab s ! k))) = iupdate sb (fdisk s) ip' (IBLOCK sb (inum (itab s ! k)))"
    have "changes sb (fdisk s) (inum (itab s ! k)) dk' ip'"
      unfolding changes_def using fs_okD(1) [OF ok] E r(2,5,6) others_bitmap [OF E(1)] by (simp add: r(3))
    moreover have "slot (fdisk s) (itab s ! k) = slot (fdisk s) (dino sb (fdisk s) (inum (itab s ! k)))"
      by (rule on_disk_cong(1)) (use table_okD(4) [OF fs_okD(2) [OF ok] k] in simp)
    ultimately show ?thesis using that r(1,3,4) by (simp add: file_blocks_def)
  qed
qed

text \<open>A change of the type, the links or the device numbers that is written back.\<close>

lemma iupdate_changes:
  assumes ok: "fs_ok sb s" and k: "k < NINODE" "0 < iref (itab s ! k)" "valid (itab s ! k)"
    and ip: "ip' = (itab s ! k)\<lparr>itype := t, major := a, minor := b, nlink := n\<rparr>"
  shows "changes sb (fdisk s) (inum (itab s ! k)) (iupdate sb (fdisk s) ip') ip'"
    "free_blocks sb (iupdate sb (fdisk s) ip') = free_blocks sb (fdisk s)"
proof -
  let ?P = "others sb (fdisk s) (inum (itab s ! k))"
  note E = entry_file_ok [OF ok k]
  have e: "addrs ip' = addrs (itab s ! k)" "isize ip' = isize (itab s ! k)" "inum ip' = inum (itab s ! k)" by (simp_all add: ip)
  have f: "file_ok sb ?P (fdisk s) ip'" using E(1) by (simp add: file_ok_def e slot_addrs [OF e(1)])
  have i: "IBLOCK sb (inum ip') \<in> ?P" using E(5) e(3) by simp
  show "changes sb (fdisk s) (inum (itab s ! k)) (iupdate sb (fdisk s) ip') ip'"
    unfolding changes_def using fs_okD(1) [OF ok] E(2,3) iupdate_effect(1) [OF f i] e(3)
    by (simp add: iupdate_def Let_def)
  show "free_blocks sb (iupdate sb (fdisk s) ip') = free_blocks sb (fdisk s)" by (rule iupdate_effect(4) [OF f i])
qed

text \<open>The claim of a free inode.\<close>

definition fresh_inode :: "nat \<Rightarrow> 16 word \<Rightarrow> inode" where
  "fresh_inode i t = \<lparr>inum = i, iref = 0, ilock_owner = None, valid = True, itype = t, major = 0, minor = 0,
     nlink = 0, isize = 0, addrs = replicate (NDIRECT + 1) 0\<rparr>"

lemma fresh_bytes: "dinode_bytes (fresh_inode i t) = bytes16 t @ replicate 62 0"
  by (simp add: dinode_bytes_def fresh_inode_def bytes16_def bytes32_def NDIRECT_eq numeral_eq_Suc)

lemma splice_twice: "i + length xs \<le> length d \<Longrightarrow> length ys \<le> length xs \<Longrightarrow>
  splice (splice d i xs) i ys = splice d i (ys @ drop (length ys) xs)"
proof -
  assume "i + length xs \<le> length d" "length ys \<le> length xs"
  moreover from this have "length (take i d) = i" by simp
  ultimately show ?thesis by (simp add: splice_def del: length_take)
qed

lemma claim_changes:
  fixes t :: "16 word"
  assumes ok: "files_ok sb dk" and i: "1 \<le> i" "i < ninodes sb" and b: "b = IBLOCK sb i"
  defines "dk' \<equiv> dk(b := claim t (i mod IPB) (dk b))"
  shows "changes sb dk i dk' (fresh_inode i t)" "free_blocks sb dk' = free_blocks sb dk"
proof -
  note F = files_okD [OF ok]
  have m: "b \<in> meta sb" using i(2) b by simp
  have l: "length (dk b) = BSIZE" by (rule disk_okD(1) [OF F(1)])
  have c: "claim t (i mod IPB) (dk b) = splice (dk b) (64 * (i mod IPB)) (dinode_bytes (fresh_inode i t))"
    unfolding claim_def fresh_bytes
    by (subst splice_twice) (use dinode_fits [of i] l in \<open>simp_all add: bytes16_def\<close>)
  have u: "dk' = iupdate sb dk (fresh_inode i t)" unfolding dk'_def c by (simp add: iupdate_def b Let_def fresh_inode_def)
  have "length (claim t (i mod IPB) (dk b)) = BSIZE"
    unfolding c fresh_bytes using dinode_fits [of i] l by (simp add: bytes16_def)
  then have d: "disk_ok sb dk'" unfolding dk'_def using disk_ok_upd [OF F(1) F(2,4) [OF m]] by simp
  have mk: "marked sb dk' p = marked sb dk p" if "p < size sb" for p
    unfolding dk'_def by (rule marked_upd [OF F(4) [OF m] that])
  have p: "p < size sb \<and> marked sb dk p \<and> p \<notin> bitmap_blocks sb" if h: "p \<in> others sb dk i" for p
  proof (cases "p \<in> meta sb")
    case False
    then obtain j where j: "allocated sb dk j" "p \<in> file_blocks sb dk j" using h by (auto simp: others_def)
    then show ?thesis using ownsD(5,6,8) [OF file_okD(2) [OF F(5) [OF j(1)]]] by (auto simp: file_blocks_def)
  qed (use F in blast)
  have "slot dk' (fresh_inode i t) = (\<lambda>k. 0)"
    by (auto simp: slot_def fresh_inode_def fun_eq_iff NDIRECT_eq nth_Cons' split: option.splits)
  then have "file_ok sb (others sb dk i) dk' (fresh_inode i t)"
    using d p mk by (simp add: file_ok_def owns_def) (simp add: fresh_inode_def)
  moreover have "dk' q = dk q" if "q \<noteq> IBLOCK sb i" for q using that by (simp add: dk'_def b)
  ultimately show "changes sb dk i dk' (fresh_inode i t)"
    unfolding changes_def using ok i u by (simp add: fresh_inode_def)
  show "free_blocks sb dk' = free_blocks sb dk" using mk by (auto simp: free_blocks_def)
qed

context source begin

lemma writei_changes:
  assumes ok: "fs_ok sb s" and k: "k < NINODE" "0 < iref (itab s ! k)" "valid (itab s ! k)"
  shows "(writei cpin sb src off n (fdisk s) (itab s ! k) mem = Inr (-1, fdisk s, itab s ! k)) \<or>
    (\<exists>r dk' ip'. writei cpin sb src off n (fdisk s) (itab s ! k) mem = Inr (r, dk', ip') \<and>
      changes sb (fdisk s) (inum (itab s ! k)) dk' ip' \<and> ip' = (itab s ! k)\<lparr>addrs := addrs ip', isize := isize ip'\<rparr>)"
proof (cases "off > isize (itab s ! k) \<or> off + n < off \<or> unat (off + n) > MAXFILE * BSIZE")
  case True
  have "of_nat (MAXFILE * BSIZE) < off + n \<longleftrightarrow> unat (off + n) > MAXFILE * BSIZE"
    by (simp add: word_less_nat_alt MAXFILE_eq BSIZE_eq)
  then show ?thesis using True by (auto simp: writei_def)
next
  case False
  then have w: "off \<le> isize (itab s ! k)" "off \<le> off + n" "unat (off + n) \<le> MAXFILE * BSIZE" by auto
  note E = entry_file_ok [OF ok k]
  show ?thesis
  proof (rule writei_effect [OF E(1,5) w, where src = src and mem = mem])
    fix n1 j dk' ip'
    assume r: "writei cpin sb src off n (fdisk s) (itab s ! k) mem = Inr (int n1, dk', ip')"
      "file_ok sb (others sb (fdisk s) (inum (itab s ! k))) dk' ip'"
      "\<And>q. q \<in> others sb (fdisk s) (inum (itab s ! k)) \<Longrightarrow> q \<noteq> IBLOCK sb (inum (itab s ! k)) \<Longrightarrow> dk' q = fdisk s q"
      "ip' = (itab s ! k)\<lparr>addrs := addrs ip', isize := isize ip'\<rparr>"
      "dk' (IBLOCK sb (inum (itab s ! k))) = iupdate sb (fdisk s) ip' (IBLOCK sb (inum (itab s ! k)))"
    have "inum ip' = inum (itab s ! k)" by (subst r(4)) simp
    then have "changes sb (fdisk s) (inum (itab s ! k)) dk' ip'"
      unfolding changes_def using fs_okD(1) [OF ok] E(2,3) r by simp
    then show ?thesis using r(1,4) by blast
  qed
qed

end

text \<open>No inode but \<open>i\<close> changes, neither on the disk nor in its content.\<close>

definition only_file :: "superblock \<Rightarrow> nat \<Rightarrow> disk \<Rightarrow> disk \<Rightarrow> bool" where
  "only_file sb i dk dk' \<longleftrightarrow> (\<forall>j < ninodes sb. j \<noteq> i \<longrightarrow> dino sb dk' j = dino sb dk j \<and>
     (allocated sb dk j \<longrightarrow> contents dk' (dino sb dk' j) = contents dk (dino sb dk j) \<and>
        file_blocks sb dk' j = file_blocks sb dk j))"

lemma only_file_refl: "only_file sb i dk dk"
  by (simp add: only_file_def)

lemma only_file_trans:
  assumes "only_file sb i dk dk1" "only_file sb i dk1 dk2" shows "only_file sb i dk dk2"
proof -
  have "allocated sb dk1 j = allocated sb dk j" if "j < ninodes sb" "j \<noteq> i" for j
    using assms(1) that by (simp add: only_file_def allocated_def)
  then show ?thesis using assms unfolding only_file_def by metis
qed

lemma changes_only: "changes sb dk i dk' ip' \<Longrightarrow> only_file sb i dk dk'"
  using unchanged_dino unchanged_file(3,4) unfolding only_file_def by metis

lemma iput_keeps:
  assumes ok: "fs_ok sb s" and k: "k < NINODE" "0 < iref (itab s ! k)"
    and n: "\<not> (iref (itab s ! k) = 1 \<and> valid (itab s ! k) \<and> nlink (itab s ! k) = 0)"
    and l: "iref (itab s ! k) = 1 \<Longrightarrow> ilock_owner (itab s ! k) = None"
  obtains s' where "iput sb me k s = Inr s'" "fs_ok sb s'" "fdisk s' = fdisk s"
    "refs s' = (refs s)(inum (itab s ! k) := refs s (inum (itab s ! k)) - 1)"
    "itab s' = (itab s)[k := (itab s ! k)\<lparr>iref := iref (itab s ! k) - 1\<rparr>]"
proof -
  let ?e = "(itab s ! k)\<lparr>iref := iref (itab s ! k) - 1\<rparr>"
  let ?s = "s\<lparr>itab := (itab s)[k := ?e]\<rparr>"
  note T = table_okD [OF fs_okD(2) [OF ok]]
  have "iput sb me k s = Inr ?s" by (simp only: iput_def Let_def n if_False upd_inode_def)
  moreover have "ilock_owner (itab s ! k) \<noteq> None \<Longrightarrow> 1 < iref (itab s ! k)"
    using l k(2) by (cases "iref (itab s ! k) = 1") auto
  then have "fs_ok sb ?s"
    using table_entry [OF fs_okD(2) [OF ok] k(1), of ?e] k(2) T(4,5,8) [OF k] T(7) [OF k(1)] fs_okD(1) [OF ok] by (simp add: fs_ok_def)
  moreover have "refs ?s = (refs s)(inum (itab s ! k) := refs s (inum (itab s ! k)) - 1)"
    by (subst refs_change [OF k(1), where s = s and i = "inum (itab s ! k)"]) (use k T(1) in auto)
  ultimately show ?thesis using that by simp
qed

lemma upd_inode_twice: "upd_inode k (\<lambda>_. e) (upd_inode k (\<lambda>_. d) s) = upd_inode k (\<lambda>_. e) s"
  by (simp add: upd_inode_def)

lemma iput_frees:
  assumes ok: "fs_ok sb s" and k: "k < NINODE" "iref (itab s ! k) = 1" "valid (itab s ! k)" "nlink (itab s ! k) = 0"
    "ilock_owner (itab s ! k) = None"
  defines "i \<equiv> inum (itab s ! k)"
  obtains s' where "iput sb me k s = Inr s'" "fs_ok sb s'" "only_file sb i (fdisk s) (fdisk s')"
    "\<not> allocated sb (fdisk s') i" "free_blocks sb (fdisk s') = free_blocks sb (fdisk s) \<union> file_blocks sb (fdisk s) i"
    "refs s' = (refs s)(i := 0)" "\<And>l. l < NINODE \<Longrightarrow> l \<noteq> k \<Longrightarrow> itab s' ! l = itab s ! l" "iref (itab s' ! k) = 0"
proof -
  note T = table_okD [OF fs_okD(2) [OF ok]]
  have k1: "0 < iref (itab s ! k)" and len: "k < length (itab s)" using k T(1) by simp_all
  define e1 where "e1 = (itab s ! k)\<lparr>ilock_owner := Some me\<rparr>"
  define s1 where "s1 = upd_inode k (\<lambda>_. e1) s"
  have s1: "fs_ok sb s1" "itab s1 ! k = e1" "fdisk s1 = fdisk s"
    using entry_effect(1) [OF ok k(1) k1, of e1] T(4,5) [OF k(1) k1] k len by (simp_all add: e1_def s1_def)
  have e1: "0 < iref e1" "valid e1" "inum e1 = i" using k by (simp_all add: e1_def i_def)
  obtain dk2 e2 where t: "itrunc sb (fdisk s) e1 = Inr (dk2, e2)" "changes sb (fdisk s) i dk2 e2"
    "e2 = e1\<lparr>addrs := replicate (NDIRECT + 1) 0, isize := 0\<rparr>"
    "free_blocks sb dk2 = free_blocks sb (fdisk s) \<union> file_blocks sb (fdisk s) i"
    using itrunc_changes [OF s1(1) k(1)] e1 unfolding s1(2,3) by metis
  define s2 where "s2 = upd_inode k (\<lambda>_. e2) (s1\<lparr>fdisk := dk2\<rparr>)"
  have e2: "0 < iref e2" "valid e2" "inum e2 = i" using e1 by (simp_all add: t(3))
  have "itype e2 \<noteq> 0" using entry_file_ok(4) [OF s1(1) k(1)] e1 unfolding s1(2) by (simp add: t(3))
  then have "fs_ok sb s2" unfolding s2_def
    using change_effect(1) [OF s1(1) k(1) _ _ refl, of dk2 e2] e1 e2 t(2) unfolding s1(2,3) by simp
  moreover have i2: "itab s2 ! k = e2" "fdisk s2 = dk2" using len by (simp_all add: s2_def s1_def)
  ultimately have s2: "fs_ok sb s2" "itab s2 ! k = e2" "fdisk s2 = dk2" by simp_all
  define e3 where "e3 = e2\<lparr>itype := 0\<rparr>"
  have "e3 = (itab s2 ! k)\<lparr>itype := 0, major := major e2, minor := minor e2, nlink := nlink e2\<rparr>"
    by (simp add: e3_def i2)
  from iupdate_changes [OF s2(1) k(1) _ _ this] e2 have u: "changes sb dk2 i (iupdate sb dk2 e3) e3"
    "free_blocks sb (iupdate sb dk2 e3) = free_blocks sb dk2" by (simp_all add: s2(2,3))
  define e4 where "e4 = e3\<lparr>valid := False, ilock_owner := None, iref := iref e3 - 1\<rparr>"
  define s4 where "s4 = upd_inode k (\<lambda>_. e4) (s2\<lparr>fdisk := iupdate sb dk2 e3\<rparr>)"
  have r3: "iref e3 = 1" using k(2) by (simp add: e3_def t(3) e1_def)
  have "fs_ok sb s4" "refs s4 = (refs s2)(i := refs s2 i - 1)" unfolding s4_def
    using change_effect [OF s2(1) k(1), of "iupdate sb dk2 e3" e3 e4] e2 u(1) r3 unfolding s2(2,3)
    by (simp_all add: e4_def e3_def on_disk_def)
  moreover have "refs s2 = refs s"
    by (rule refs_cong) (use len e2 k(2) in \<open>simp add: s2_def s1_def i_def t(3) e1_def\<close>)
  moreover have "refs s i = 1" using refs_entry [OF fs_okD(2) [OF ok] k(1) k1] k(2) by (simp add: i_def)
  moreover have "iput sb me k s = Inr s4"
  proof -
    have "upd_inode k (\<lambda>ip. ip\<lparr>ilock_owner := Some me\<rparr>) s = s1" by (simp add: s1_def e1_def upd_inode_def)
    then have "itrunc_at sb k (upd_inode k (\<lambda>ip. ip\<lparr>ilock_owner := Some me\<rparr>) s) = Inr s2"
      using t(1) s1(2,3) by (simp add: itrunc_at_def andthen_def panics_def s2_def)
    moreover have "upd_inode k (\<lambda>ip. ip\<lparr>itype := 0\<rparr>) s2 = upd_inode k (\<lambda>_. e3) s2"
      by (simp add: upd_inode_def e3_def s2(2))
    moreover have "update_at sb k (upd_inode k (\<lambda>_. e3) s2) = upd_inode k (\<lambda>_. e3) (s2\<lparr>fdisk := iupdate sb dk2 e3\<rparr>)"
      using len by (simp add: update_at_def upd_inode_def s2(3) s2_def s1_def)
    ultimately show ?thesis using k len
      by (simp add: iput_def Let_def andthen_def s4_def e4_def upd_inode_def s2_def s1_def)
  qed
  moreover have "only_file sb i (fdisk s) (fdisk s4)" "\<not> allocated sb (fdisk s4) i"
    using only_file_trans [OF changes_only [OF t(2)] changes_only [OF u(1)]] changed_allocated [OF u(1), of i]
    by (simp_all add: s4_def e3_def)
  moreover have "free_blocks sb (fdisk s4) = free_blocks sb (fdisk s) \<union> file_blocks sb (fdisk s) i"
    using u(2) t(4) by (simp add: s4_def)
  moreover have "l < NINODE \<Longrightarrow> l \<noteq> k \<Longrightarrow> itab s4 ! l = itab s ! l" for l
    using len by (simp add: s4_def s2_def s1_def)
  moreover have "iref (itab s4 ! k) = 0" using len r3 by (simp add: s4_def s2_def s1_def e4_def)
  ultimately show ?thesis using that by simp
qed

lemma ialloc_from_effect:
  assumes ok: "fs_ok sb s" and i: "1 \<le> i" and t: "t \<noteq> 0"
  shows "ialloc_from sb i t s = Inl (Panic ''iget: no inodes'') \<or>
    ialloc_from sb i t s = Inr None \<and> (\<forall>j. i \<le> j \<and> j < ninodes sb \<longrightarrow> allocated sb (fdisk s) j) \<or>
    (\<exists>k s'. ialloc_from sb i t s = Inr (Some (k, s')) \<and> fs_ok sb s' \<and> k < NINODE \<and> 0 < iref (itab s' ! k) \<and>
      (let j = inum (itab s' ! k) in i \<le> j \<and> \<not> allocated sb (fdisk s) j \<and> allocated sb (fdisk s') j \<and>
        dino sb (fdisk s') j = fresh_inode j t \<and> only_file sb j (fdisk s) (fdisk s') \<and>
        refs s' = (refs s)(j := refs s j + 1) \<and> free_blocks sb (fdisk s') = free_blocks sb (fdisk s)) \<and>
      ilock_owner (itab s' ! k) = ilock_owner (itab s ! k) \<and> (\<forall>l < NINODE. l \<noteq> k \<longrightarrow> itab s' ! l = itab s ! l))"
  using i
proof (induction "ninodes sb - i" arbitrary: i)
  case 0
  have "ialloc_from sb i t s = Inr None" by (subst ialloc_from.simps) (use 0 in simp)
  then show ?case using 0 by auto
next
  case (Suc m)
  then have i: "i < ninodes sb" "m = ninodes sb - (i + 1)" "1 \<le> i + 1" by simp_all
  let ?b = "IBLOCK sb i"
  have ty: "itype (dino sb (fdisk s) i) = dinode_half (fdisk s ?b) (i mod IPB) 0"
    by (simp add: dino_def load_dinode_def)
  show ?case
  proof (cases "dinode_half (fdisk s ?b) (i mod IPB) 0 = 0")
    case False
    then have a: "allocated sb (fdisk s) i" using Suc.prems i(1) ty by (simp add: allocated_def)
    have e: "ialloc_from sb i t s = ialloc_from sb (i + 1) t s" using i(1) False by (subst ialloc_from.simps) simp
    have le: "i + 1 \<le> j \<Longrightarrow> i \<le> j" for j by simp
    have all: "(\<forall>j. i \<le> j \<and> j < ninodes sb \<longrightarrow> allocated sb (fdisk s) j) \<longleftrightarrow>
      (\<forall>j. i + 1 \<le> j \<and> j < ninodes sb \<longrightarrow> allocated sb (fdisk s) j)" using a by (metis le_neq_implies_less Suc_eq_plus1 Suc_leI le)
    show ?thesis unfolding e all using Suc.hyps(1) [OF i(2,3)] le by (auto simp: Let_def)
  next
    case True
    then have n: "\<not> allocated sb (fdisk s) i" using ty by (simp add: allocated_def)
    let ?dk = "(fdisk s)(?b := claim t (i mod IPB) (fdisk s ?b))" and ?s = "s\<lparr>fdisk := (fdisk s)(?b := claim t (i mod IPB) (fdisk s ?b))\<rparr>"
    note C = claim_changes [OF fs_okD(1) [OF ok] Suc.prems i(1) refl, of t]
    note T = table_okD [OF fs_okD(2) [OF ok]]
    have "dino sb ?dk (inum (itab s ! l)) = dino sb (fdisk s) (inum (itab s ! l)) \<and> allocated sb ?dk (inum (itab s ! l))"
      if "l < NINODE" "0 < iref (itab s ! l)" "valid (itab s ! l)" for l
      using unchanged_dino [OF C(1)] changed_allocated [OF C(1)] T(5) [OF that] n by (metis allocated_def)
    then have "table_ok sb ?s" using T by (simp add: table_ok_def)
    then have ok': "fs_ok sb ?s" using changed_files_ok [OF C(1)] by (simp add: fs_ok_def)
    have e: "ialloc_from sb i t s = andthen (iget i ?s) (\<lambda>r. Inr (Some r))"
      using i(1) True by (subst ialloc_from.simps) (simp add: Let_def)
    have d: "dino sb ?dk i = fresh_inode i t"
      unfolding changed_dino [OF C(1)] by (simp add: on_disk_def fresh_inode_def)
    have rf: "refs ?s = refs s" by (rule refs_cong) simp
    show ?thesis
    proof (cases rule: iget_effect [OF ok' Suc.prems i(1)])
      case 1
      then show ?thesis unfolding e by (simp add: andthen_def)
    next
      case (2 k s')
      have "allocated sb ?dk i" using changed_allocated [OF C(1)] t by (simp add: fresh_inode_def)
      then show ?thesis unfolding e using 2 n d C(2) changes_only [OF C(1)] rf by (simp add: andthen_def Let_def)
    qed
  qed
qed

section \<open>Everything the processes may do\<close>

inductive fs_step :: "superblock \<Rightarrow> fs \<Rightarrow> fs \<Rightarrow> bool" for sb where
  step_get: "1 \<le> i \<Longrightarrow> i < ninodes sb \<Longrightarrow> iget i s = Inr (k, s') \<Longrightarrow> fs_step sb s s'"
| step_dup: "k < NINODE \<Longrightarrow> 0 < iref (itab s ! k) \<Longrightarrow> fs_step sb s (idup k s)"
| step_lock: "k < NINODE \<Longrightarrow> ilock sb me k s = Inr s' \<Longrightarrow> fs_step sb s s'"
| step_unlock: "k < NINODE \<Longrightarrow> iunlock me k s = Inr s' \<Longrightarrow> fs_step sb s s'"
| step_put: "k < NINODE \<Longrightarrow> 0 < iref (itab s ! k) \<Longrightarrow> ilock_owner (itab s ! k) = None \<or> 1 < iref (itab s ! k) \<Longrightarrow>
    iput sb me k s = Inr s' \<Longrightarrow> fs_step sb s s'"
| step_alloc: "t \<noteq> 0 \<Longrightarrow> ialloc sb t s = Inr (Some (k, s')) \<Longrightarrow> fs_step sb s s'"
| step_write: "k < NINODE \<Longrightarrow> holding me k s \<Longrightarrow> source cpin (\<lambda>mem :: kmem. mem) \<Longrightarrow>
    writei cpin sb src off n (fdisk s) (itab s ! k) mem = Inr (r, dk, ip) \<Longrightarrow>
    fs_step sb s (upd_inode k (\<lambda>_. ip) (s\<lparr>fdisk := dk\<rparr>))"
| step_truncate: "k < NINODE \<Longrightarrow> holding me k s \<Longrightarrow> itrunc_at sb k s = Inr s' \<Longrightarrow> fs_step sb s s'"
| step_links: "k < NINODE \<Longrightarrow> holding me k s \<Longrightarrow>
    fs_step sb s (update_at sb k (upd_inode k (\<lambda>ip. ip\<lparr>major := a, minor := b, nlink := c\<rparr>) s))"

lemma held_entry:
  assumes "fs_ok sb s" "k < NINODE" "holding me k s"
  shows "0 < iref (itab s ! k)" "valid (itab s ! k)"
  using table_okD(7) [OF fs_okD(2) [OF assms(1)] assms(2)] assms(3) by (simp_all add: holding_def)

lemma held_change:
  assumes ok: "fs_ok sb s" and k: "k < NINODE" "holding me k s"
    and c: "changes sb (fdisk s) (inum (itab s ! k)) dk ip" and ip: "iref ip = iref (itab s ! k)" "valid ip"
      "itype ip = itype (itab s ! k)"
  shows "fs_ok sb (upd_inode k (\<lambda>_. ip) (s\<lparr>fdisk := dk\<rparr>))"
  by (rule change_effect(1) [OF ok k(1) held_entry(1) [OF ok k] c])
    (use ip held_entry [OF ok k] entry_file_ok(4) [OF ok k(1) held_entry [OF ok k]] in auto)

lemma held_trunc:
  assumes ok: "fs_ok sb s" and k: "k < NINODE" "holding me k s"
  obtains s' where "itrunc_at sb k s = Inr s'" "fs_ok sb s'"
proof -
  note h = held_entry [OF ok k]
  show ?thesis
  proof (rule itrunc_changes [OF ok k(1) h])
    fix dk' ip'
    assume r: "itrunc sb (fdisk s) (itab s ! k) = Inr (dk', ip')" "changes sb (fdisk s) (inum (itab s ! k)) dk' ip'"
      "ip' = (itab s ! k)\<lparr>addrs := replicate (NDIRECT + 1) 0, isize := 0\<rparr>"
    have "fs_ok sb (upd_inode k (\<lambda>_. ip') (s\<lparr>fdisk := dk'\<rparr>))"
      by (rule held_change [OF ok k r(2)]) (use h r(3) in simp_all)
    then show ?thesis using that r(1) by (simp add: itrunc_at_def andthen_def panics_def)
  qed
qed

lemma held_links:
  assumes ok: "fs_ok sb s" and k: "k < NINODE" "holding me k s"
  shows "fs_ok sb (update_at sb k (upd_inode k (\<lambda>ip. ip\<lparr>major := a, minor := b, nlink := c\<rparr>) s))"
proof -
  let ?ip = "(itab s ! k)\<lparr>major := a, minor := b, nlink := c\<rparr>"
  note h = held_entry [OF ok k]
  have l: "k < length (itab s)" using k(1) table_okD(1) [OF fs_okD(2) [OF ok]] by simp
  have e: "update_at sb k (upd_inode k (\<lambda>ip. ip\<lparr>major := a, minor := b, nlink := c\<rparr>) s) =
    upd_inode k (\<lambda>_. ?ip) (s\<lparr>fdisk := iupdate sb (fdisk s) ?ip\<rparr>)"
    using l by (simp add: update_at_def upd_inode_def)
  have "?ip = (itab s ! k)\<lparr>itype := itype (itab s ! k), major := a, minor := b, nlink := c\<rparr>" by simp
  from iupdate_changes(1) [OF ok k(1) h this] show ?thesis unfolding e
    by (rule held_change [OF ok k]) (use h in simp_all)
qed

lemma fs_step_ok: "fs_step sb s s' \<Longrightarrow> fs_ok sb s \<Longrightarrow> fs_ok sb s'"
proof (induction rule: fs_step.induct)
  case (step_get i s k s')
  then show ?case using iget_effect [OF step_get.prems step_get.hyps(1,2)] by auto
next
  case (step_dup k s)
  then show ?case using idup_effect(1) by blast
next
  case (step_lock k me s s')
  note ok = step_lock.prems
  have a: "0 < iref (itab s ! k)" "ilock_owner (itab s ! k) = None"
    using step_lock.hyps(2) by (auto simp: ilock_def split: if_splits)
  let ?ip = "(itab s ! k)\<lparr>ilock_owner := Some me\<rparr>"
  let ?e = "(load_dinode (fdisk s (IBLOCK sb (inum ?ip))) (inum ?ip mod IPB) ?ip)\<lparr>valid := True\<rparr>"
  note T = table_okD [OF fs_okD(2) [OF ok]]
  show ?case
  proof (cases "valid (itab s ! k)")
    case True
    then have "allocated sb (fdisk s) (inum (itab s ! k))" using T(5) step_lock.hyps(1) a by blast
    from ilock_effect [OF ok step_lock.hyps(1) a this, of me] show ?thesis using step_lock.hyps(2) by (metis sum.inject(2))
  next
    case False
    have "k < length (itab s)" using step_lock.hyps(1) T(1) by simp
    then have e: "itype ?e \<noteq> 0" "s' = upd_inode k (\<lambda>_. ?e) s" using step_lock.hyps(2) False a
      by (auto simp: ilock_def Let_def upd_inode_def split: if_splits)
    have "on_disk ?e = dino sb (fdisk s) (inum (itab s ! k))" using load_on_disk [of "fdisk s" sb ?ip] by simp
    moreover from this have "itype (dino sb (fdisk s) (inum (itab s ! k))) \<noteq> 0" using e(1) by (metis on_disk_simps(2))
    ultimately show ?thesis unfolding e(2)
      using entry_effect(1) [OF ok step_lock.hyps(1) a(1), of ?e] a(1) T(8) [OF step_lock.hyps(1) a(1)]
      by (simp add: allocated_def)
  qed
next
  case (step_unlock k me s s')
  have a: "0 < iref (itab s ! k)" "ilock_owner (itab s ! k) = Some me"
    using step_unlock.hyps(2) by (auto simp: iunlock_def holding_def split: if_splits)
  show ?case using iunlock_effect [OF step_unlock.prems step_unlock.hyps(1) a] step_unlock.hyps(2) by simp
next
  case (step_put k s me s')
  show ?case
  proof (cases "iref (itab s ! k) = 1 \<and> valid (itab s ! k) \<and> nlink (itab s ! k) = 0")
    case True
    then have a: "iref (itab s ! k) = 1" "valid (itab s ! k)" "nlink (itab s ! k) = 0" "ilock_owner (itab s ! k) = None"
      using step_put.hyps(3) by auto
    show ?thesis using iput_frees [OF step_put.prems step_put.hyps(1) a, of me] step_put.hyps(4) by (metis sum.inject(2))
  next
    case False
    show ?thesis
      using iput_keeps [OF step_put.prems step_put.hyps(1,2) False, of me] step_put.hyps(3,4) by (metis sum.inject(2) less_irrefl)
  qed
next
  case (step_alloc t s k s')
  then show ?case using ialloc_from_effect [OF step_alloc.prems le_refl step_alloc.hyps(1)] by (auto simp: ialloc_def)
next
  case (step_write k me s cpin src off n mem r dk ip)
  note ok = step_write.prems and k = step_write.hyps(1,2)
  note h = held_entry [OF ok k]
  show ?case
    using source.writei_changes [OF step_write.hyps(3) ok k(1) h, of src off n mem]
  proof (elim disjE exE conjE)
    assume "writei cpin sb src off n (fdisk s) (itab s ! k) mem = Inr (-1, fdisk s, itab s ! k)"
    then have "dk = fdisk s" "ip = itab s ! k" using step_write.hyps(4) by simp_all
    then show ?thesis using ok by (simp add: upd_inode_def)
  next
    fix r' dk' ip'
    assume w: "writei cpin sb src off n (fdisk s) (itab s ! k) mem = Inr (r', dk', ip')"
      "changes sb (fdisk s) (inum (itab s ! k)) dk' ip'" "ip' = (itab s ! k)\<lparr>addrs := addrs ip', isize := isize ip'\<rparr>"
    have e: "dk = dk'" "ip = ip'" using w(1) step_write.hyps(4) by simp_all
    have "iref ip' = iref (itab s ! k)" "valid ip'" "itype ip' = itype (itab s ! k)" by (subst w(3), use h in simp)+
    then show ?thesis unfolding e by (rule held_change [OF ok k w(2)])
  qed
next
  case (step_truncate k me s s')
  then show ?case using held_trunc by (metis sum.inject(2))
next
  case (step_links k me s a b c)
  then show ?case using held_links by blast
qed

lemma fs_steps_ok: "(fs_step sb)\<^sup>*\<^sup>* s s' \<Longrightarrow> fs_ok sb s \<Longrightarrow> fs_ok sb s'"
  by (induction rule: rtranclp_induct) (auto intro: fs_step_ok)

lemma fs_ok_apart:
  assumes ok: "fs_ok sb s" and i: "allocated sb (fdisk s) i"
  shows "j \<noteq> i \<Longrightarrow> allocated sb (fdisk s) j \<Longrightarrow> file_blocks sb (fdisk s) i \<inter> file_blocks sb (fdisk s) j = {}"
    "file_blocks sb (fdisk s) i \<inter> (free_blocks sb (fdisk s) \<union> meta sb \<union> bitmap_blocks sb) = {}"
proof -
  note O = ownsD [OF file_okD(2) [OF files_okD(5) [OF fs_okD(1) [OF ok] i]]]
  have b: "p < size sb \<and> marked sb (fdisk s) p \<and> p \<notin> others sb (fdisk s) i \<and> p \<notin> bitmap_blocks sb"
    if "p \<in> file_blocks sb (fdisk s) i" for p
    using that O(5,6,7,8) by (auto simp: file_blocks_def)
  then show "j \<noteq> i \<Longrightarrow> allocated sb (fdisk s) j \<Longrightarrow> file_blocks sb (fdisk s) i \<inter> file_blocks sb (fdisk s) j = {}"
    using file_blocks_others by blast
  show "file_blocks sb (fdisk s) i \<inter> (free_blocks sb (fdisk s) \<union> meta sb \<union> bitmap_blocks sb) = {}"
    using b subsetD [OF meta_others, of _ sb "fdisk s" i] by (fastforce simp: free_blocks_def)
qed

section \<open>Orphans\<close>

definition orphan :: "superblock \<Rightarrow> disk \<Rightarrow> nat \<Rightarrow> bool" where
  "orphan sb dk i \<longleftrightarrow> allocated sb dk i \<and> nlink (dino sb dk i) = 0"

definition unused :: "fs \<Rightarrow> bool" where
  "unused s \<longleftrightarrow> (\<forall>k < NINODE. iref (itab s ! k) = 0)"

lemma reclaim_one:
  assumes ok: "fs_ok sb s" and u: "unused s" and i: "orphan sb (fdisk s) i"
  obtains s' where "\<And>f :: fs \<Rightarrow> halt + fs. andthen (iget i s) (\<lambda>(k, s). andthen (ilock sb me k s) (\<lambda>s. andthen (iunlock me k s) (\<lambda>s.
      andthen (iput sb me k s) f))) = f s'" "fs_ok sb s'" "unused s'" "only_file sb i (fdisk s) (fdisk s')"
    "\<not> allocated sb (fdisk s') i" "free_blocks sb (fdisk s') = free_blocks sb (fdisk s) \<union> file_blocks sb (fdisk s) i"
proof -
  have a: "allocated sb (fdisk s) i" and n: "nlink (dino sb (fdisk s) i) = 0" using i by (simp_all add: orphan_def)
  then have r: "1 \<le> i" "i < ninodes sb" by (simp_all add: allocated_def)
  show ?thesis
  proof (cases rule: iget_effect [OF ok r])
    case 1
    moreover have "0 < NINODE" by (simp add: NINODE_def)
    ultimately show ?thesis using u unfolding unused_def by blast
  next
    case (2 k s1)
    note T1 = table_okD [OF fs_okD(2) [OF 2(3)]]
    have "iref (itab s ! k) = 0" "refs s i = 0" using 2(2,10) u by (auto simp: unused_def)
    then have k: "iref (itab s1 ! k) = 1" "ilock_owner (itab s1 ! k) = None"
      using refs_entry [OF fs_okD(2) [OF 2(3)] 2(2,6)] 2(5,7,8) table_okD(6) [OF fs_okD(2) [OF ok] 2(2)] by simp_all
    have a1: "allocated sb (fdisk s1) (inum (itab s1 ! k))" using a 2(4,5) by simp
    obtain e where e: "ilock sb me k s1 = Inr (upd_inode k (\<lambda>_. e) s1)" "inum e = i" "iref e = 1"
      "ilock_owner e = Some me" "valid e" "on_disk e = dino sb (fdisk s) i" "fs_ok sb (upd_inode k (\<lambda>_. e) s1)"
      using ilock_effect [OF 2(3,2,6) k(2) a1, of me] 2(4,5) k(1) by metis
    define s2 where "s2 = upd_inode k (\<lambda>_. e) s1"
    have len: "k < length (itab s1)" using 2(2) T1(1) by simp
    have e2: "itab s2 ! k = e" "fdisk s2 = fdisk s" "fs_ok sb s2" using len 2(4) e(7) by (simp_all add: s2_def)
    define d where "d = e\<lparr>ilock_owner := None\<rparr>"
    define s3 where "s3 = upd_inode k (\<lambda>_. d) s2"
    have U: "iunlock me k s2 = Inr s3" "fs_ok sb s3"
      using iunlock_effect [OF e2(3) 2(2), of me] e(3,4) e2(1) by (simp_all add: s3_def d_def)
    have d: "itab s3 ! k = d" "fdisk s3 = fdisk s" using len e2(2) by (simp_all add: s3_def s2_def)
    have "nlink d = 0" using arg_cong [OF e(6), of nlink] n by (simp add: d_def)
    then obtain s' where s': "iput sb me k s3 = Inr s'" "fs_ok sb s'" "only_file sb i (fdisk s) (fdisk s')"
      "\<not> allocated sb (fdisk s') i" "free_blocks sb (fdisk s') = free_blocks sb (fdisk s) \<union> file_blocks sb (fdisk s) i"
      "\<And>l. l < NINODE \<Longrightarrow> l \<noteq> k \<Longrightarrow> itab s' ! l = itab s3 ! l" "iref (itab s' ! k) = 0"
      using iput_frees [OF U(2) 2(2), of me] e(2,3,5) unfolding d by (simp add: d_def) metis
    have "unused s'" unfolding unused_def
    proof (intro allI impI)
      fix l assume l: "l < NINODE"
      show "iref (itab s' ! l) = 0"
        using s'(6) [OF l] s'(7) 2(9) [OF l] u l len by (cases "l = k") (simp_all add: s3_def s2_def unused_def)
    qed
    then show ?thesis using that [of s'] s' 2(1) e(1) U(1) by (simp add: andthen_def s2_def)
  qed
qed

lemma ireclaim_from_effect:
  assumes "fs_ok sb s" "unused s" "1 \<le> i"
  shows "\<exists>s'. ireclaim_from sb me i s = Inr s' \<and> fs_ok sb s' \<and> unused s' \<and>
    (\<forall>j < ninodes sb. if i \<le> j \<and> orphan sb (fdisk s) j then \<not> allocated sb (fdisk s') j
       else dino sb (fdisk s') j = dino sb (fdisk s) j \<and> (allocated sb (fdisk s) j \<longrightarrow>
         contents (fdisk s') (dino sb (fdisk s) j) = contents (fdisk s) (dino sb (fdisk s) j))) \<and>
    free_blocks sb (fdisk s') = free_blocks sb (fdisk s) \<union> (\<Union>j \<in> {j. i \<le> j \<and> orphan sb (fdisk s) j}. file_blocks sb (fdisk s) j)"
  using assms
proof (induction "ninodes sb - i" arbitrary: i s)
  case 0
  have "ireclaim_from sb me i s = Inr s" by (subst ireclaim_from.simps) (use 0 in simp)
  moreover have "\<not> (i \<le> j \<and> orphan sb (fdisk s) j)" for j using 0 by (auto simp: orphan_def allocated_def)
  ultimately show ?case using 0 by (intro exI [of _ s]) (auto simp del: not_le)
next
  case (Suc m)
  then have i: "i < ninodes sb" "m = ninodes sb - (i + 1)" "1 \<le> i + 1" by simp_all
  let ?d = "fdisk s (IBLOCK sb i)"
  have o: "orphan sb (fdisk s) i \<longleftrightarrow> dinode_half ?d (i mod IPB) 0 \<noteq> 0 \<and> dinode_half ?d (i mod IPB) 3 = 0"
    using Suc.prems(3) i(1) by (auto simp: orphan_def allocated_def dino_def load_dinode_def)
  show ?case
  proof (cases "orphan sb (fdisk s) i")
    case False
    have e: "ireclaim_from sb me i s = ireclaim_from sb me (i + 1) s"
      using i(1) False unfolding o by (subst ireclaim_from.simps) (auto simp: Let_def)
    have q: "(i \<le> j \<and> orphan sb (fdisk s) j) = (i + 1 \<le> j \<and> orphan sb (fdisk s) j)" for j
      using False by (cases "j = i") auto
    show ?thesis unfolding e q by (rule Suc.hyps(1) [OF i(2) Suc.prems(1,2) i(3)])
  next
    case True
    obtain s1 where s1: "\<And>f :: fs \<Rightarrow> halt + fs. andthen (iget i s) (\<lambda>(k, s). andthen (ilock sb me k s) (\<lambda>s. andthen (iunlock me k s) (\<lambda>s.
        andthen (iput sb me k s) f))) = f s1" "fs_ok sb s1" "unused s1" "only_file sb i (fdisk s) (fdisk s1)"
      "\<not> allocated sb (fdisk s1) i" "free_blocks sb (fdisk s1) = free_blocks sb (fdisk s) \<union> file_blocks sb (fdisk s) i"
      using reclaim_one [OF Suc.prems(1,2) True] by blast
    have e: "ireclaim_from sb me i s = ireclaim_from sb me (i + 1) s1"
      using i(1) True s1(1) [of "ireclaim_from sb me (i + 1)"] unfolding o by (subst ireclaim_from.simps) (simp add: Let_def)
    have same: "dino sb (fdisk s1) j = dino sb (fdisk s) j" "allocated sb (fdisk s1) j = allocated sb (fdisk s) j"
      "orphan sb (fdisk s1) j = orphan sb (fdisk s) j"
      "allocated sb (fdisk s) j \<Longrightarrow> contents (fdisk s1) (dino sb (fdisk s) j) = contents (fdisk s) (dino sb (fdisk s) j)"
      "allocated sb (fdisk s) j \<Longrightarrow> file_blocks sb (fdisk s1) j = file_blocks sb (fdisk s) j"
      if "j < ninodes sb" "j \<noteq> i" for j
      using s1(4) that by (auto simp: only_file_def allocated_def orphan_def)
    obtain s' where s': "ireclaim_from sb me (i + 1) s1 = Inr s'" "fs_ok sb s'" "unused s'"
      "\<forall>j < ninodes sb. if i + 1 \<le> j \<and> orphan sb (fdisk s1) j then \<not> allocated sb (fdisk s') j
       else dino sb (fdisk s') j = dino sb (fdisk s1) j \<and> (allocated sb (fdisk s1) j \<longrightarrow>
         contents (fdisk s') (dino sb (fdisk s1) j) = contents (fdisk s1) (dino sb (fdisk s1) j))"
      "free_blocks sb (fdisk s') = free_blocks sb (fdisk s1) \<union>
        (\<Union>j \<in> {j. i + 1 \<le> j \<and> orphan sb (fdisk s1) j}. file_blocks sb (fdisk s1) j)"
      using Suc.hyps(1) [OF i(2) s1(2,3) i(3)] by blast
    have "if i \<le> j \<and> orphan sb (fdisk s) j then \<not> allocated sb (fdisk s') j
       else dino sb (fdisk s') j = dino sb (fdisk s) j \<and> (allocated sb (fdisk s) j \<longrightarrow>
         contents (fdisk s') (dino sb (fdisk s) j) = contents (fdisk s) (dino sb (fdisk s) j))" if j: "j < ninodes sb" for j
    proof (cases "j = i")
      case i_j: True
      have "\<not> allocated sb (fdisk s') i" using s'(4) [rule_format, OF i(1)] s1(5) by (simp add: allocated_def)
      then show ?thesis using i_j True by simp
    next
      case False
      then have "i \<le> j \<longleftrightarrow> i + 1 \<le> j" by auto
      then show ?thesis using s'(4) [rule_format, OF j] same [OF j False] by (simp split: if_splits)
    qed
    moreover have "i \<le> j \<and> orphan sb (fdisk s) j \<longleftrightarrow> j = i \<or> i + 1 \<le> j \<and> orphan sb (fdisk s1) j" for j
    proof (cases "j = i")
      case False
      then have "i \<le> j \<longleftrightarrow> i + 1 \<le> j" by auto
      moreover have "orphan sb (fdisk s) j \<longleftrightarrow> orphan sb (fdisk s1) j"
        using same(3) [OF _ False] by (cases "j < ninodes sb") (auto simp: orphan_def allocated_def)
      ultimately show ?thesis using False by simp
    qed (use True in simp)
    then have "{j. i \<le> j \<and> orphan sb (fdisk s) j} = insert i {j. i + 1 \<le> j \<and> orphan sb (fdisk s1) j}" by blast
    moreover have "(\<Union>j \<in> {j. i + 1 \<le> j \<and> orphan sb (fdisk s1) j}. file_blocks sb (fdisk s1) j) =
      (\<Union>j \<in> {j. i + 1 \<le> j \<and> orphan sb (fdisk s1) j}. file_blocks sb (fdisk s) j)"
    proof (rule SUP_cong [OF refl])
      fix j assume "j \<in> {j. i + 1 \<le> j \<and> orphan sb (fdisk s1) j}"
      then have "j < ninodes sb" "j \<noteq> i" "allocated sb (fdisk s1) j" by (auto simp: orphan_def allocated_def)
      then show "file_blocks sb (fdisk s1) j = file_blocks sb (fdisk s) j" using same(2,5) by blast
    qed
    ultimately show ?thesis unfolding e using s'(1,2,3,5) s1(6) by (intro exI [of _ s']) auto
  qed
qed

section \<open>What the file system keeps\<close>

text \<open>
  C7. Whatever the processes do to the table and the files: no two files share a block, no block of a file
  is free or belongs to the layout, every valid inode in memory says what is on the disk, and no inode
  has two entries (the latter two are part of \<open>fs_ok\<close>).
\<close>

theorem files_stay_apart:
  assumes "fs_ok sb s" "(fs_step sb)\<^sup>*\<^sup>* s s'"
  shows "fs_ok sb s' \<and> (\<forall>i. allocated sb (fdisk s') i \<longrightarrow>
    file_blocks sb (fdisk s') i \<inter> (free_blocks sb (fdisk s') \<union> meta sb \<union> bitmap_blocks sb) = {} \<and>
    (\<forall>j. allocated sb (fdisk s') j \<and> j \<noteq> i \<longrightarrow> file_blocks sb (fdisk s') i \<inter> file_blocks sb (fdisk s') j = {}))"
  using fs_ok_apart [OF fs_steps_ok [OF assms(2,1)]] fs_steps_ok [OF assms(2,1)] by blast


text \<open>
  C20. At boot \<open>ireclaim\<close> frees exactly the inodes that have no link, with their blocks, without a panic;
  every other file stays as it is.
\<close>

theorem ireclaim_frees_orphans:
  assumes "fs_ok sb s" "unused s"
  shows "\<exists>s'. ireclaim sb me s = Inr s' \<and> fs_ok sb s' \<and>
    (\<forall>j < ninodes sb. if orphan sb (fdisk s) j then \<not> allocated sb (fdisk s') j
       else dino sb (fdisk s') j = dino sb (fdisk s) j \<and> (allocated sb (fdisk s) j \<longrightarrow>
         contents (fdisk s') (dino sb (fdisk s) j) = contents (fdisk s) (dino sb (fdisk s) j))) \<and>
    free_blocks sb (fdisk s') = free_blocks sb (fdisk s) \<union> (\<Union>j \<in> {j. orphan sb (fdisk s) j}. file_blocks sb (fdisk s) j)"
proof -
  have "1 \<le> j \<and> orphan sb (fdisk s) j \<longleftrightarrow> orphan sb (fdisk s) j" for j by (auto simp: orphan_def allocated_def)
  then show ?thesis using ireclaim_from_effect [OF assms le_refl, of me] unfolding ireclaim_def by auto
qed

section \<open>A small file system\<close>

text \<open>The root directory, inode 1, has block 6; inode 2 is a file without a link and has block 7.\<close>

definition root_dirents :: "byte list" where
  "root_dirents = [1, 0, 46] @ replicate 13 0 @ [1, 0, 46, 46] @ replicate 12 0"

definition root_inode :: inode where
  "root_inode = \<lparr>inum = 1, iref = 0, ilock_owner = None, valid = True, itype = T_DIR, major = 0, minor = 0,
     nlink = 1, isize = 32, addrs = 6 # replicate 12 0\<rparr>"

definition lost_inode :: inode where
  "lost_inode = \<lparr>inum = 2, iref = 0, ilock_owner = None, valid = True, itype = T_FILE, major = 0, minor = 0,
     nlink = 0, isize = 2, addrs = 7 # replicate 12 0\<rparr>"

definition tiny_blocks :: disk where
  "tiny_blocks b = (if b = 5 then 0xFF # replicate 1023 0 else if b = 6 then root_dirents @ replicate 992 0
     else if b = 7 then [104, 105] @ replicate 1022 0 else replicate 1024 0)"

definition tiny_disk :: disk where
  "tiny_disk = iupdate small_sb (iupdate small_sb tiny_blocks root_inode) lost_inode"

definition tiny_fs :: fs where "tiny_fs = \<lparr>fdisk = tiny_disk, itab = iinit\<rparr>"

lemma small_sb_simps: "size small_sb = 8" "ninodes small_sb = 16" "bmapstart small_sb = 5" "inodestart small_sb = 4"
  by (simp_all add: small_sb_def)

lemma small_blocks: "i < 16 \<Longrightarrow> IBLOCK small_sb i = 4" "b < 8 \<Longrightarrow> BBLOCK small_sb b = 5"
  by (simp_all add: IBLOCK_def IPB_def BBLOCK_def BSIZE_eq BPB_eq small_sb_simps)

lemma tiny_disk_at: "b \<noteq> 4 \<Longrightarrow> tiny_disk b = tiny_blocks b"
  by (simp add: tiny_disk_def iupdate_def Let_def root_inode_def lost_inode_def small_blocks)

lemma tiny_length: "length (tiny_blocks b) = BSIZE" "length (tiny_disk b) = BSIZE"
proof -
  have a: "length (addrs root_inode) = NDIRECT + 1" "length (addrs lost_inode) = NDIRECT + 1"
    by (simp_all add: root_inode_def lost_inode_def NDIRECT_eq)
  show t: "length (tiny_blocks b) = BSIZE" for b by (simp add: tiny_blocks_def root_dirents_def BSIZE_eq)
  show "length (tiny_disk b) = BSIZE" unfolding tiny_disk_def by (intro iupdate_length a t)
qed

lemma iupdate_at:
  "inum ip = i \<Longrightarrow> iupdate sb dk ip (IBLOCK sb i) = splice (dk (IBLOCK sb i)) (64 * (i mod IPB)) (dinode_bytes ip)"
  by (simp add: iupdate_def Let_def)

lemma tiny_dinos:
  "dino small_sb tiny_disk 1 = root_inode" "dino small_sb tiny_disk 2 = lost_inode"
  "i < 16 \<Longrightarrow> i \<noteq> 1 \<Longrightarrow> i \<noteq> 2 \<Longrightarrow> itype (dino small_sb tiny_disk i) = 0"
proof -
  let ?d = "iupdate small_sb tiny_blocks root_inode"
  have a: "length (addrs root_inode) = NDIRECT + 1" "length (addrs lost_inode) = NDIRECT + 1"
    by (simp_all add: root_inode_def lost_inode_def NDIRECT_eq)
  have l: "length (?d b) = BSIZE" for b by (intro iupdate_length a tiny_length)
  have d: "dino small_sb ?d 1 = root_inode"
    using dino_same [of ?d small_sb root_inode tiny_blocks] a tiny_length by (simp add: root_inode_def on_disk_def)
  have o: "dino small_sb tiny_disk j = dino small_sb ?d j" if "j < 16" "j \<noteq> 2" for j
    by (rule dino_other [where i = 2 and xs = "dinode_bytes lost_inode"])
      (use that length_dinode [OF a(2)] l iupdate_at [of lost_inode 2 small_sb ?d] in
        \<open>simp_all add: tiny_disk_def small_blocks lost_inode_def\<close>)
  show "dino small_sb tiny_disk 1 = root_inode" using o [of 1] d by simp
  show "dino small_sb tiny_disk 2 = lost_inode"
    using dino_same [of tiny_disk small_sb lost_inode ?d] a l by (simp add: lost_inode_def on_disk_def tiny_disk_def)
  show "itype (dino small_sb tiny_disk i) = 0" if i: "i < 16" "i \<noteq> 1" "i \<noteq> 2"
  proof -
    have "dino small_sb ?d i = dino small_sb tiny_blocks i"
      by (rule dino_other [where i = 1 and xs = "dinode_bytes root_inode"])
        (use i length_dinode [OF a(1)] tiny_length iupdate_at [of root_inode 1 small_sb tiny_blocks] in
          \<open>simp_all add: small_blocks root_inode_def\<close>)
    moreover have "64 * (i mod IPB) + 1 < 1024" using dinode_fits [of i] by (simp add: BSIZE_eq)
    ultimately show ?thesis using o [OF i(1,3)] i(1)
      by (simp add: dino_def load_dinode_def dinode_half_def small_blocks tiny_blocks_def word16_def)
  qed
qed

lemma tiny_slots:
  "slot tiny_disk root_inode l = (if l = Some 0 then 6 else 0)" "slot tiny_disk lost_inode l = (if l = Some 0 then 7 else 0)"
  by (auto simp: slot_def root_inode_def lost_inode_def NDIRECT_eq nth_Cons' split: option.splits)

lemma tiny_allocated: "allocated small_sb tiny_disk i \<longleftrightarrow> i = 1 \<or> i = 2"
  using tiny_dinos(3) [of i] tiny_dinos(1,2)
  by (auto simp: allocated_def small_sb_simps root_inode_def lost_inode_def T_DIR_def T_FILE_def)

lemma tiny_file_blocks: "file_blocks small_sb tiny_disk 1 = {6}" "file_blocks small_sb tiny_disk 2 = {7}"
  by (auto simp: file_blocks_def tiny_dinos tiny_slots image_iff places_def MAXFILE_eq simp del: One_nat_def)

lemma tiny_others: "others small_sb tiny_disk 1 = {1, 4, 7}" "others small_sb tiny_disk 2 = {1, 4, 6}"
proof -
  have "IBLOCK small_sb ` {..<16} = (\<lambda>_. 4) ` {..<16 :: nat}" by (rule image_cong) (simp_all add: small_blocks)
  also have "\<dots> = {4}" using lessThan_iff [of "0 :: nat" 16] by (intro image_constant [of 0]) simp
  finally have "IBLOCK small_sb ` {..<16} = {4}" .
  then have m: "meta small_sb = {1, 4}" by (simp add: meta_def small_sb_simps)
  have "{j. allocated small_sb tiny_disk j \<and> j \<noteq> 1} = {2}" "{j. allocated small_sb tiny_disk j \<and> j \<noteq> 2} = {1}"
    by (auto simp: tiny_allocated)
  then show "others small_sb tiny_disk 1 = {1, 4, 7}" "others small_sb tiny_disk 2 = {1, 4, 6}"
    by (auto simp: others_def m tiny_file_blocks simp del: One_nat_def)
qed

lemma tiny_marked: "b < 8 \<Longrightarrow> marked small_sb tiny_disk b"
proof -
  assume b: "b < 8"
  have "marked small_sb tiny_disk b \<longleftrightarrow> bit (0xFF :: byte) b"
    using b by (simp add: marked_def small_blocks BPB_eq tiny_disk_at tiny_blocks_def)
  moreover have "b \<in> {0, 1, 2, 3, 4, 5, 6, 7}" using b by auto
  ultimately show ?thesis by auto
qed

lemma tiny_bitmap: "p \<noteq> 5 \<Longrightarrow> p \<notin> bitmap_blocks small_sb"
  using small_blocks(2) by (auto simp: bitmap_blocks_def small_sb_simps)

lemma tiny_ok: "fs_ok small_sb tiny_fs"
proof -
  have d: "disk_ok small_sb tiny_disk"
    using tiny_marked by (simp add: disk_ok_def tiny_length small_sb_simps small_blocks)
  have one: "bn * BSIZE < 32 \<Longrightarrow> bn = 0" "bn * BSIZE < 2 \<Longrightarrow> bn = 0" for bn by (simp_all add: BSIZE_eq)
  have o: "owns small_sb {1, 4, 7} tiny_disk (slot tiny_disk root_inode)" "owns small_sb {1, 4, 6} tiny_disk (slot tiny_disk lost_inode)"
    using d tiny_marked tiny_bitmap by (auto simp: owns_def tiny_slots small_sb_simps split: if_splits)
  have "file_ok small_sb {1, 4, 7} tiny_disk root_inode"
    using o(1) one(1) by (auto simp: file_ok_def tiny_slots) (simp_all add: root_inode_def NDIRECT_eq MAXFILE_eq BSIZE_eq)
  moreover have "file_ok small_sb {1, 4, 6} tiny_disk lost_inode"
    using o(2) one(2) by (auto simp: file_ok_def tiny_slots) (simp_all add: lost_inode_def NDIRECT_eq MAXFILE_eq BSIZE_eq)
  moreover have "p < 8 \<and> p \<noteq> 5" if "p \<in> meta small_sb" for p
    using that by (auto simp: meta_def small_sb_simps small_blocks)
  ultimately have "files_ok small_sb tiny_disk"
    using d tiny_marked tiny_bitmap
    by (auto simp: files_ok_def tiny_allocated tiny_others tiny_dinos small_sb_simps simp del: One_nat_def)
  moreover have "table_ok small_sb tiny_fs" by (simp add: table_ok_def tiny_fs_def iinit_def)
  ultimately show ?thesis by (simp add: fs_ok_def tiny_fs_def)
qed

lemma tiny_unused: "unused tiny_fs"
  by (simp add: unused_def tiny_fs_def iinit_def)

text \<open>The root directory, locked by process 7.\<close>

definition held_fs :: fs where
  "held_fs = tiny_fs\<lparr>itab := iinit[0 := root_inode\<lparr>iref := 1, ilock_owner := Some 7\<rparr>]\<rparr>"

lemma tiny_open: "fs_ok small_sb (tiny_fs\<lparr>itab := iinit[0 := root_inode\<lparr>iref := 1, ilock_owner := l\<rparr>]\<rparr>)"
proof -
  have l: "length (itab tiny_fs) = NINODE" "iref (iinit ! 0) = 0" "\<forall>l < NINODE. iref (itab tiny_fs ! l) = 0"
    by (simp_all add: tiny_fs_def iinit_def NINODE_def)
  have "table_ok small_sb (tiny_fs\<lparr>itab := (itab tiny_fs)[0 := root_inode\<lparr>iref := 1, ilock_owner := l\<rparr>]\<rparr>)"
  proof (rule table_entry [OF fs_okD(2) [OF tiny_ok]])
    show "0 < NINODE" by (simp add: NINODE_def)
  qed (use l tiny_dinos(1) tiny_allocated in \<open>auto simp: tiny_fs_def root_inode_def on_disk_def small_sb_simps\<close>)
  then show ?thesis using fs_okD(1) [OF tiny_ok] by (simp add: fs_ok_def tiny_fs_def)
qed

lemma held_ok: "fs_ok small_sb held_fs"
  unfolding held_fs_def by (rule tiny_open)

theorem files_stay_apart_witness:
  "file_blocks small_sb (fdisk (idup 0 held_fs)) 1 \<inter> file_blocks small_sb (fdisk (idup 0 held_fs)) 2 = {}"
proof -
  have "fs_step small_sb held_fs (idup 0 held_fs)"
    by (rule step_dup) (simp_all add: NINODE_def held_fs_def iinit_def)
  then have "(fs_step small_sb)\<^sup>*\<^sup>* held_fs (idup 0 held_fs)" by blast
  note a = files_stay_apart [OF held_ok this]
  have "fdisk (idup 0 held_fs) = tiny_disk" by (simp add: idup_def held_fs_def tiny_fs_def)
  then show ?thesis using a tiny_allocated by (metis one_eq_numeral_iff numeral_eq_one_iff semiring_norm(85))
qed


theorem ireclaim_frees_orphans_witness:
  "\<exists>s'. ireclaim small_sb 7 tiny_fs = Inr s' \<and> \<not> allocated small_sb (fdisk s') 2 \<and>
    dino small_sb (fdisk s') 1 = root_inode \<and> free_blocks small_sb (fdisk s') = {7}"
proof -
  have o: "orphan small_sb tiny_disk j \<longleftrightarrow> j = 2" for j
    using tiny_allocated [of j] by (auto simp: orphan_def tiny_dinos simp del: One_nat_def) (simp_all add: root_inode_def lost_inode_def)
  have f: "free_blocks small_sb tiny_disk = {}" using tiny_marked by (auto simp: free_blocks_def small_sb_simps)
  have d: "fdisk tiny_fs = tiny_disk" by (simp add: tiny_fs_def)
  obtain s' where s': "ireclaim small_sb 7 tiny_fs = Inr s'"
    "\<forall>j < ninodes small_sb. if orphan small_sb (fdisk tiny_fs) j then \<not> allocated small_sb (fdisk s') j
       else dino small_sb (fdisk s') j = dino small_sb (fdisk tiny_fs) j \<and> (allocated small_sb (fdisk tiny_fs) j \<longrightarrow>
         contents (fdisk s') (dino small_sb (fdisk tiny_fs) j) = contents (fdisk tiny_fs) (dino small_sb (fdisk tiny_fs) j))"
    "free_blocks small_sb (fdisk s') = free_blocks small_sb (fdisk tiny_fs) \<union>
      (\<Union>j \<in> {j. orphan small_sb (fdisk tiny_fs) j}. file_blocks small_sb (fdisk tiny_fs) j)"
    using ireclaim_frees_orphans [OF tiny_ok tiny_unused, of 7] by blast
  have "free_blocks small_sb (fdisk s') = {7}" using s'(3) unfolding d o f by (simp add: tiny_file_blocks)
  moreover have "\<not> allocated small_sb (fdisk s') 2" "dino small_sb (fdisk s') 1 = root_inode"
    using s'(2) [rule_format, of 2] s'(2) [rule_format, of 1] unfolding d o
    by (simp_all add: small_sb_simps tiny_dinos del: One_nat_def)
  ultimately show ?thesis using s'(1) by blast
qed

end
