(* ===== verification/XvDir.thy ===== *)
theory XvDir
  imports XvItable
begin

unbundle bit_operations_syntax

text \<open>
  Directories and path names (\<open>fs.c\<close>). A name is its bytes without the NUL, at most 14 of them, a path
  the bytes before its NUL. A directory is a file of entries of 16 bytes; an entry is read into and
  written from kernel memory, as the \<open>de\<close> on the stack of the code.
\<close>

section \<open>Operations\<close>

definition DIRSIZ :: nat where "DIRSIZ = 14"

type_synonym name = "byte list"

text \<open>\<open>strncmp\<close> on strings: the end of a list is the NUL.\<close>

fun strncmp_eq :: "byte list \<Rightarrow> byte list \<Rightarrow> nat \<Rightarrow> bool" where
  "strncmp_eq p q 0 \<longleftrightarrow> True"
| "strncmp_eq (x # p) (y # q) (Suc n) \<longleftrightarrow> (if x \<noteq> 0 \<and> x = y then strncmp_eq p q n else x = y)"
| "strncmp_eq [] (y # q) (Suc n) \<longleftrightarrow> y = 0"
| "strncmp_eq (x # p) [] (Suc n) \<longleftrightarrow> x = 0"
| "strncmp_eq [] [] (Suc n) \<longleftrightarrow> True"

text \<open>Whether \<open>namecmp\<close> returns 0.\<close>

definition namecmp :: "name \<Rightarrow> name \<Rightarrow> bool" where
  "namecmp s t = strncmp_eq s t DIRSIZ"

definition de_inum :: "byte list \<Rightarrow> nat" where
  "de_inum de = unat (word16 (de ! 0) (de ! 1))"

definition de_name :: "byte list \<Rightarrow> name" where
  "de_name de = drop 2 de"

text \<open>One \<open>readi\<close> of an entry; \<open>msg\<close> is the panic when it comes back short.\<close>

definition read_dirent :: "string \<Rightarrow> superblock \<Rightarrow> nat \<Rightarrow> disk \<Rightarrow> inode \<Rightarrow> string + byte list \<times> disk \<times> inode" where
  "read_dirent msg sb off dk ip =
     (case readi kcopyout sb 0 (of_nat off) 16 dk ip (\<lambda>_. 0) of
        Inl e \<Rightarrow> Inl e
      | Inr (r, dk, ip, mem) \<Rightarrow> if r \<noteq> 16 then Inl msg else Inr (kget 0 16 mem, dk, ip))"

text \<open>The loop of \<open>dirlookup\<close>, over a directory of \<open>n\<close> bytes: the inode number found, and its offset.\<close>

function dirlookup_loop :: "superblock \<Rightarrow> name \<Rightarrow> nat \<Rightarrow> nat \<Rightarrow> disk \<Rightarrow> inode \<Rightarrow>
    string + (nat \<times> nat) option \<times> disk \<times> inode" where
  "dirlookup_loop sb name n off dk ip =
     (if off < n
      then (case read_dirent ''dirlookup read'' sb off dk ip of
              Inl e \<Rightarrow> Inl e
            | Inr (de, dk, ip) \<Rightarrow>
                if de_inum de \<noteq> 0 \<and> namecmp name (de_name de) then Inr (Some (de_inum de, off), dk, ip)
                else dirlookup_loop sb name n (off + 16) dk ip)
      else Inr (None, dk, ip))"
  by pat_completeness auto
termination by (relation "measure (\<lambda>(sb, name, n, off, dk, ip). n - off)") auto

definition dirlookup :: "superblock \<Rightarrow> nat \<Rightarrow> name \<Rightarrow> fs \<Rightarrow> halt + (nat \<times> nat) option \<times> fs" where
  "dirlookup sb dp name s =
     (let ip = itab s ! dp in
      if itype ip \<noteq> T_DIR then Inl (Panic ''dirlookup not DIR'')
      else andthen (panics (dirlookup_loop sb name (unat (isize ip)) 0 (fdisk s) ip)) (\<lambda>(r, dk, ip).
        let s = upd_inode dp (\<lambda>_. ip) (s\<lparr>fdisk := dk\<rparr>) in
        case r of
          None \<Rightarrow> Inr (None, s)
        | Some (i, off) \<Rightarrow> andthen (iget i s) (\<lambda>(k, s). Inr (Some (k, off), s))))"

text \<open>The search of \<open>dirlink\<close> for an unused entry: its offset, the size of the directory if there is none.\<close>

function free_dirent :: "superblock \<Rightarrow> nat \<Rightarrow> nat \<Rightarrow> disk \<Rightarrow> inode \<Rightarrow> string + nat \<times> disk \<times> inode" where
  "free_dirent sb n off dk ip =
     (if off < n
      then (case read_dirent ''dirlink read'' sb off dk ip of
              Inl e \<Rightarrow> Inl e
            | Inr (de, dk, ip) \<Rightarrow> if de_inum de = 0 then Inr (off, dk, ip) else free_dirent sb n (off + 16) dk ip)
      else Inr (off, dk, ip))"
  by pat_completeness auto
termination by (relation "measure (\<lambda>(sb, n, off, dk, ip). n - off)") auto

text \<open>The entry that \<open>dirlink\<close> stores: \<open>strncpy\<close> fills the name up with NULs.\<close>

definition dirent_bytes :: "name \<Rightarrow> nat \<Rightarrow> byte list" where
  "dirent_bytes name i = bytes16 (of_nat i) @ take DIRSIZ (name @ replicate DIRSIZ 0)"

definition write_dirent :: "superblock \<Rightarrow> nat \<Rightarrow> nat \<Rightarrow> byte list \<Rightarrow> fs \<Rightarrow> halt + int \<times> fs" where
  "write_dirent sb dp off de s =
     andthen (panics (writei kcopyin sb 0 (of_nat off) 16 (fdisk s) (itab s ! dp) (kput 0 de (\<lambda>_. 0))))
       (\<lambda>(r, dk, ip). Inr (r, upd_inode dp (\<lambda>_. ip) (s\<lparr>fdisk := dk\<rparr>)))"

definition dirlink :: "superblock \<Rightarrow> int \<Rightarrow> nat \<Rightarrow> name \<Rightarrow> nat \<Rightarrow> fs \<Rightarrow> halt + int \<times> fs" where
  "dirlink sb me dp name i s =
     andthen (dirlookup sb dp name s) (\<lambda>(r, s).
       case r of
         Some (k, _) \<Rightarrow> andthen (iput sb me k s) (\<lambda>s. Inr (-1, s))
       | None \<Rightarrow>
           andthen (panics (free_dirent sb (unat (isize (itab s ! dp))) 0 (fdisk s) (itab s ! dp))) (\<lambda>(off, dk, ip).
             andthen (write_dirent sb dp off (dirent_bytes name i) (upd_inode dp (\<lambda>_. ip) (s\<lparr>fdisk := dk\<rparr>)))
               (\<lambda>(r, s). Inr (if r \<noteq> 16 then -1 else 0, s))))"

text \<open>Paths. \<open>slash\<close> is the byte of \<open>'/'\<close>.\<close>

definition slash :: byte where "slash = 47"

definition skip_slashes :: "byte list \<Rightarrow> byte list" where
  "skip_slashes p = dropWhile (\<lambda>c. c = slash) p"

definition skipelem :: "byte list \<Rightarrow> (name \<times> byte list) option" where
  "skipelem path =
     (let path = skip_slashes path in
      if path = [] then None
      else Some (take DIRSIZ (takeWhile (\<lambda>c. c \<noteq> slash) path),
                 skip_slashes (dropWhile (\<lambda>c. c \<noteq> slash) path)))"

lemma skipelem_shorter [consumes]: "skipelem p = Some (n, q) \<Longrightarrow> length q < length p"
proof -
  assume a: "skipelem p = Some (n, q)"
  let ?p = "skip_slashes p"
  have le: "length (dropWhile P xs) \<le> length xs" for P and xs :: "byte list" by (rule length_dropWhile_le)
  have "?p \<noteq> []" and q: "q = skip_slashes (dropWhile (\<lambda>c. c \<noteq> slash) ?p)"
    using a by (auto simp: skipelem_def Let_def split: if_splits)
  then obtain c cs where c: "?p = c # cs" by (cases ?p) auto
  have "hd ?p \<noteq> slash" unfolding skip_slashes_def
    by (rule hd_dropWhile [of "\<lambda>c. c = slash"]) (use \<open>?p \<noteq> []\<close> in \<open>simp add: skip_slashes_def\<close>)
  then have "q = skip_slashes (dropWhile (\<lambda>c. c \<noteq> slash) cs)" using q c by simp
  then have "length q \<le> length cs" using le [of "\<lambda>c. c = slash"] le [of "\<lambda>c. c \<noteq> slash" cs]
    by (simp add: skip_slashes_def) (meson le_trans)
  moreover have "length cs < length p" using le [of "\<lambda>c. c = slash" p] c by (simp add: skip_slashes_def)
  ultimately show ?thesis by simp
qed

function namex_loop :: "superblock \<Rightarrow> int \<Rightarrow> bool \<Rightarrow> nat \<Rightarrow> name \<Rightarrow> byte list \<Rightarrow> fs \<Rightarrow> halt + (nat \<times> name) option \<times> fs" where
  "namex_loop sb me parent ip name path s =
     (case skipelem path of
        None \<Rightarrow> if parent then andthen (iput sb me ip s) (\<lambda>s. Inr (None, s)) else Inr (Some (ip, name), s)
      | Some (name, path) \<Rightarrow>
          andthen (ilock sb me ip s) (\<lambda>s.
            if itype (itab s ! ip) \<noteq> T_DIR then andthen (iunlockput sb me ip s) (\<lambda>s. Inr (None, s))
            else if parent \<and> path = [] then andthen (iunlock me ip s) (\<lambda>s. Inr (Some (ip, name), s))
            else andthen (dirlookup sb ip name s) (\<lambda>(r, s).
              case r of
                None \<Rightarrow> andthen (iunlockput sb me ip s) (\<lambda>s. Inr (None, s))
              | Some (next, _) \<Rightarrow> andthen (iunlockput sb me ip s) (\<lambda>s. namex_loop sb me parent next name path s))))"
  by pat_completeness auto
termination by (relation "measure (\<lambda>(sb, me, parent, ip, name, path, s). length path)") (auto dest: skipelem_shorter)

definition namex :: "superblock \<Rightarrow> int \<Rightarrow> nat \<Rightarrow> byte list \<Rightarrow> bool \<Rightarrow> fs \<Rightarrow> halt + (nat \<times> name) option \<times> fs" where
  "namex sb me cwd path parent s =
     (if path \<noteq> [] \<and> hd path = slash
      then andthen (iget ROOTINO s) (\<lambda>(ip, s). namex_loop sb me parent ip [] path s)
      else namex_loop sb me parent cwd [] path (idup cwd s))"

definition namei :: "superblock \<Rightarrow> int \<Rightarrow> nat \<Rightarrow> byte list \<Rightarrow> fs \<Rightarrow> halt + nat option \<times> fs" where
  "namei sb me cwd path s = andthen (namex sb me cwd path False s) (\<lambda>(r, s). Inr (map_option fst r, s))"

definition nameiparent :: "superblock \<Rightarrow> int \<Rightarrow> nat \<Rightarrow> byte list \<Rightarrow> fs \<Rightarrow> halt + (nat \<times> name) option \<times> fs" where
  "nameiparent sb me cwd path s = namex sb me cwd path True s"

declare dirlookup_loop.simps [simp del] free_dirent.simps [simp del] namex_loop.simps [simp del]

section \<open>A directory as a map\<close>

definition cname :: "byte list \<Rightarrow> name" where
  "cname bs = takeWhile (\<lambda>c. c \<noteq> 0) bs"

definition good_name :: "name \<Rightarrow> bool" where
  "good_name n \<longleftrightarrow> 0 \<notin> set n \<and> length n \<le> DIRSIZ"

definition entry_at :: "byte list \<Rightarrow> nat \<Rightarrow> byte list" where
  "entry_at c j = take 16 (drop (16 * j) c)"

definition dir_entries :: "byte list \<Rightarrow> (nat \<times> name) list" where
  "dir_entries c = map (\<lambda>j. (de_inum (entry_at c j), cname (de_name (entry_at c j)))) [0..<length c div 16]"

definition dir_find :: "(nat \<times> name) list \<Rightarrow> name \<Rightarrow> nat option" where
  "dir_find es n = first_index (\<lambda>(i, m). i \<noteq> 0 \<and> m = n) es"

definition dir_map :: "byte list \<Rightarrow> name \<rightharpoonup> nat" where
  "dir_map c n = map_option (\<lambda>j. fst (dir_entries c ! j)) (dir_find (dir_entries c) n)"

text \<open>\<open>strncmp\<close> compares up to the NUL or the length given.\<close>

lemma strncmp_eq_iff: "strncmp_eq p q n \<longleftrightarrow> take n (cname p) = take n (cname q)"
  by (induction p q n rule: strncmp_eq.induct) (auto simp: cname_def)

lemma length_cname: "length (cname bs) \<le> length bs"
  unfolding cname_def by (rule length_takeWhile_le)

lemma cname_good: "0 \<notin> set n \<Longrightarrow> cname n = n"
  unfolding cname_def by (induction n) auto

lemma namecmp_iff:
  assumes "good_name n" "length de \<le> 16"
  shows "namecmp n (de_name de) \<longleftrightarrow> cname (de_name de) = n"
proof -
  have "length (cname (de_name de)) \<le> DIRSIZ"
    using length_cname [of "de_name de"] assms(2) by (simp add: de_name_def DIRSIZ_def)
  then show ?thesis using assms(1) cname_good [of n] by (auto simp: namecmp_def strncmp_eq_iff good_name_def)
qed

lemma kget_kput:
  assumes "length bs = n" "n < 2 ^ 63" shows "kget a n (kput a bs mem) = bs"
proof (rule nth_equalityI)
  fix i assume "i < length (kget a n (kput a bs mem))"
  then have i: "i < n" by (simp add: kget_def)
  then have "unat (of_nat i :: 64 word) = i" using assms(2) by (simp add: unsigned_of_nat take_bit_nat_eq_self)
  then show "kget a n (kput a bs mem) ! i = bs ! i" using i assms(1) by (simp add: kget_def kput_def)
qed (simp add: kget_def assms)

lemma read_dirent_effect:
  assumes f: "file_ok sb P dk ip" and o: "16 * j + 16 \<le> unat (isize ip)"
  shows "read_dirent msg sb (16 * j) dk ip = Inr (entry_at (contents dk ip) j, dk, ip)"
proof -
  have lt: "unat (isize ip) < 2 ^ 32" using unsigned_less [of "isize ip"] by simp
  then have u: "unat (of_nat (16 * j) :: 32 word) = 16 * j" using o by (intro unat_small) linarith
  have "unat (of_nat (16 * j) + 16 :: 32 word) = 16 * j + 16"
    using unat_small [of "16 * j + 16"] o lt by simp
  then have w: "\<not> (of_nat (16 * j) + 16 < (of_nat (16 * j) :: 32 word))" using u by (simp add: word_less_nat_alt)
  have bs: "take 16 (drop (16 * j) (contents dk ip)) = entry_at (contents dk ip) j" by (simp add: entry_at_def)
  have l: "length (entry_at (contents dk ip) j) = 16" using o by (simp add: entry_at_def contents_def)
  have "readi kcopyout sb 0 (of_nat (16 * j)) 16 dk ip (\<lambda>_. 0) =
    Inr (16, dk, ip, kput 0 (entry_at (contents dk ip) j) (\<lambda>_. 0))"
    using kdest.readi_effect [OF f, of 0 "of_nat (16 * j)" 16 "\<lambda>_. 0"] w u bs l by (simp add: kcopyout_def Let_def)
  then show ?thesis using l by (simp add: read_dirent_def kget_kput)
qed

lemma dirlookup_loop_effect:
  assumes f: "file_ok sb P dk ip" and d: "16 dvd unat (isize ip)" and n: "good_name name"
    and j: "\<forall>k < j. \<not> (case dir_entries (contents dk ip) ! k of (i, m) \<Rightarrow> i \<noteq> 0 \<and> m = name)" "16 * j \<le> unat (isize ip)"
  shows "dirlookup_loop sb name (unat (isize ip)) (16 * j) dk ip =
    Inr (map_option (\<lambda>k. (fst (dir_entries (contents dk ip) ! k), 16 * k)) (dir_find (dir_entries (contents dk ip)) name), dk, ip)"
  using j
proof (induction "unat (isize ip) div 16 - j" arbitrary: j)
  case 0
  let ?es = "dir_entries (contents dk ip)"
  obtain q where q: "unat (isize ip) = 16 * q" using d by blast
  have e: "16 * j = unat (isize ip)" "length ?es = j" using 0 q by (simp_all add: dir_entries_def contents_def)
  have "dir_find ?es name = None"
    unfolding dir_find_def first_index_None using 0(2) e(2) by (simp add: all_set_conv_all_nth)
  then show ?case using e(1) by (subst dirlookup_loop.simps) simp
next
  case (Suc m)
  let ?es = "dir_entries (contents dk ip)" and ?de = "entry_at (contents dk ip) j"
  obtain q where q: "unat (isize ip) = 16 * q" using d by blast
  have lt: "j < q" using Suc.hyps(2) q by simp
  have len: "length ?es = q" using q by (simp add: dir_entries_def contents_def)
  have ej: "?es ! j = (de_inum ?de, cname (de_name ?de))" using lt q by (simp add: dir_entries_def contents_def)
  have r: "read_dirent ''dirlookup read'' sb (16 * j) dk ip = Inr (?de, dk, ip)"
    by (rule read_dirent_effect [OF f]) (use lt q in simp)
  have c: "namecmp name (de_name ?de) \<longleftrightarrow> cname (de_name ?de) = name"
    by (rule namecmp_iff [OF n]) (simp add: entry_at_def)
  show ?case
  proof (cases "de_inum ?de \<noteq> 0 \<and> cname (de_name ?de) = name")
    case True
    then have "dir_find ?es name = Some j"
      unfolding dir_find_def first_index_Some using Suc.prems(1) lt len ej by simp
    then show ?thesis using True lt q r c ej by (subst dirlookup_loop.simps) simp
  next
    case False
    then have e: "dirlookup_loop sb name (unat (isize ip)) (16 * j) dk ip =
      dirlookup_loop sb name (unat (isize ip)) (16 * (j + 1)) dk ip"
      using lt q r c by (subst dirlookup_loop.simps) (auto simp: add.commute)
    have "\<forall>k < j + 1. \<not> (case ?es ! k of (i, m) \<Rightarrow> i \<noteq> 0 \<and> m = name)"
      using Suc.prems(1) False ej by (auto simp: less_Suc_eq)
    then show ?thesis unfolding e using Suc.hyps lt q by (intro Suc.hyps(1)) simp_all
  qed
qed

lemma upd_inode_same: "k < length (itab s) \<Longrightarrow> upd_inode k (\<lambda>_. itab s ! k) s = s"
  by (simp add: upd_inode_def)

text \<open>The content of a directory, by its inode number.\<close>

definition dir_of :: "superblock \<Rightarrow> disk \<Rightarrow> nat \<Rightarrow> name \<rightharpoonup> nat" where
  "dir_of sb dk i = dir_map (contents dk (dino sb dk i))"

lemma dirlookup_effect:
  assumes ok: "fs_ok sb s" and k: "k < NINODE" "holding me k s" and t: "itype (itab s ! k) = T_DIR"
    and d: "16 dvd unat (isize (itab s ! k))" and n: "good_name name"
  defines "c \<equiv> contents (fdisk s) (dino sb (fdisk s) (inum (itab s ! k)))"
  shows "dirlookup sb k name s =
    (case dir_find (dir_entries c) name of
       None \<Rightarrow> Inr (None, s)
     | Some j \<Rightarrow> andthen (iget (fst (dir_entries c ! j)) s) (\<lambda>(k, s). Inr (Some (k, 16 * j), s)))"
proof -
  note h = held_entry [OF ok k]
  have l: "k < length (itab s)" using k(1) table_okD(1) [OF fs_okD(2) [OF ok]] by simp
  have "on_disk (itab s ! k) = on_disk (dino sb (fdisk s) (inum (itab s ! k)))"
    using table_okD(4) [OF fs_okD(2) [OF ok] k(1) h] by simp
  then have c: "contents (fdisk s) (itab s ! k) = c" unfolding c_def by (rule on_disk_cong(4))
  have "dirlookup_loop sb name (unat (isize (itab s ! k))) 0 (fdisk s) (itab s ! k) =
    Inr (map_option (\<lambda>j. (fst (dir_entries c ! j), 16 * j)) (dir_find (dir_entries c) name), fdisk s, itab s ! k)"
    using dirlookup_loop_effect [OF entry_file_ok(1) [OF ok k(1) h] d n, of 0] by (simp add: c)
  then show ?thesis using t l
    by (simp add: dirlookup_def Let_def andthen_def panics_def upd_inode_same split: option.splits)
qed

section \<open>Path names\<close>

text \<open>The elements of a path, as \<open>skipelem\<close> takes them off.\<close>

function elems :: "byte list \<Rightarrow> name list" where
  "elems p = (case skipelem p of None \<Rightarrow> [] | Some (n, q) \<Rightarrow> n # elems q)"
  by pat_completeness auto
termination by (relation "measure length") (auto dest: skipelem_shorter)

declare elems.simps [simp del]

text \<open>
  \<open>walk\<close>: where the elements lead from inode \<open>i\<close> on the disk; with \<open>parent\<close>, the directory that holds
  the last element.
\<close>

fun walk :: "superblock \<Rightarrow> disk \<Rightarrow> bool \<Rightarrow> nat \<Rightarrow> name list \<Rightarrow> nat option" where
  "walk sb dk parent i [] = (if parent then None else Some i)"
| "walk sb dk parent i (n # ns) =
     (if itype (dino sb dk i) \<noteq> T_DIR then None
      else if parent \<and> ns = [] then Some i
      else (case dir_of sb dk i n of None \<Rightarrow> None | Some j \<Rightarrow> walk sb dk parent j ns))"

text \<open>
  The inodes on the way exist and have a link, and directories consist of whole entries.
\<close>

fun sound :: "superblock \<Rightarrow> disk \<Rightarrow> nat \<Rightarrow> name list \<Rightarrow> bool" where
  "sound sb dk i [] \<longleftrightarrow> True"
| "sound sb dk i (n # ns) \<longleftrightarrow> allocated sb dk i \<and> nlink (dino sb dk i) \<noteq> 0 \<and>
     (itype (dino sb dk i) = T_DIR \<longrightarrow> 16 dvd unat (isize (dino sb dk i)) \<and>
        (case dir_of sb dk i n of None \<Rightarrow> True | Some j \<Rightarrow> 1 \<le> j \<and> j < ninodes sb \<and> sound sb dk j ns))"

definition idle :: "fs \<Rightarrow> bool" where
  "idle s \<longleftrightarrow> (\<forall>k < NINODE. ilock_owner (itab s ! k) = None)"

lemma skipelem_good:
  assumes "skipelem p = Some (n, q)" "0 \<notin> set p" shows "good_name n" "0 \<notin> set q"
proof -
  have sub: "set (dropWhile P xs) \<subseteq> set xs" "set (takeWhile P xs) \<subseteq> set xs" for P and xs :: "byte list"
    by (auto dest: set_dropWhileD set_takeWhileD)
  let ?p = "skip_slashes p"
  have p: "set ?p \<subseteq> set p" unfolding skip_slashes_def by (rule sub)
  have e: "n = take DIRSIZ (takeWhile (\<lambda>c. c \<noteq> slash) ?p)" "q = skip_slashes (dropWhile (\<lambda>c. c \<noteq> slash) ?p)"
    using assms(1) by (auto simp: skipelem_def Let_def split: if_splits)
  have "set n \<subseteq> set p" unfolding e(1) using set_take_subset sub(2) p by fastforce
  then show "good_name n" using assms(2) by (auto simp: good_name_def e(1))
  have "set q \<subseteq> set p" unfolding e(2) skip_slashes_def using sub(1) p by (metis skip_slashes_def subset_trans)
  then show "0 \<notin> set q" using assms(2) by auto
qed

lemma elems_Nil: "elems p = [] \<longleftrightarrow> skipelem p = None"
  by (subst elems.simps) (auto split: option.splits)

text \<open>The rest that \<open>skipelem\<close> returns has no leading slash: it is empty when there are no more elements.\<close>

lemma skipelem_rest:
  assumes "skipelem p = Some (n, q)" shows "q = [] \<longleftrightarrow> elems q = []"
proof -
  have idem: "skip_slashes (skip_slashes xs) = skip_slashes xs" for xs by (simp add: skip_slashes_def)
  have "skip_slashes q = q" using assms by (auto simp: skipelem_def Let_def idem split: if_splits)
  then show ?thesis unfolding elems_Nil by (auto simp: skipelem_def Let_def)
qed

lemma used_inums:
  assumes ok: "fs_ok sb s"
  shows "{i. 0 < refs s i} = (\<lambda>k. inum (itab s ! k)) ` {k. k < NINODE \<and> 0 < iref (itab s ! k)}"
    "inj_on (\<lambda>k. inum (itab s ! k)) {k. k < NINODE \<and> 0 < iref (itab s ! k)}"
proof -
  note T = table_okD [OF fs_okD(2) [OF ok]]
  show "inj_on (\<lambda>k. inum (itab s ! k)) {k. k < NINODE \<and> 0 < iref (itab s ! k)}"
    using T(3) by (auto intro: inj_onI)
  have "\<exists>k < NINODE. 0 < iref (itab s ! k) \<and> inum (itab s ! k) = i" if "0 < refs s i" for i
  proof (rule ccontr)
    assume n: "\<not> ?thesis"
    have "refs s i = 0" unfolding refs_def
    proof (intro sum.neutral ballI)
      fix l assume "l \<in> {..<NINODE}"
      then show "(if inum (itab s ! l) = i then iref (itab s ! l) else 0) = 0"
        using n T(2) [of l] by (cases "0 < iref (itab s ! l)") auto
    qed
    then show False using that by simp
  qed
  then show "{i. 0 < refs s i} = (\<lambda>k. inum (itab s ! k)) ` {k. k < NINODE \<and> 0 < iref (itab s ! k)}"
    using refs_entry [OF fs_okD(2) [OF ok]] by fastforce
qed

lemma finite_used: "fs_ok sb s \<Longrightarrow> finite {i. 0 < refs s i}"
  by (simp add: used_inums(1))

lemma slot_free:
  assumes ok: "fs_ok sb s" and c: "card {i. 0 < refs s i} < NINODE"
  shows "\<exists>k < NINODE. iref (itab s ! k) = 0"
proof (rule ccontr)
  assume "\<not> ?thesis"
  then have "{k. k < NINODE \<and> 0 < iref (itab s ! k)} = {..<NINODE}"
    using table_okD(2) [OF fs_okD(2) [OF ok]] by (auto simp: order_less_le)
  then have "card {i. 0 < refs s i} = NINODE" using card_image [OF used_inums(2) [OF ok]] used_inums(1) [OF ok] by simp
  then show False using c by simp
qed

lemma iunlockput_effect:
  assumes ok: "fs_ok sb s" and k: "k < NINODE" "0 < iref (itab s ! k)" "ilock_owner (itab s ! k) = Some me"
    and n: "nlink (dino sb (fdisk s) (inum (itab s ! k))) \<noteq> 0"
  obtains s' where "iunlockput sb me k s = Inr s'" "fs_ok sb s'" "fdisk s' = fdisk s"
    "refs s' = (refs s)(inum (itab s ! k) := refs s (inum (itab s ! k)) - 1)"
    "\<And>l. l < NINODE \<Longrightarrow> l \<noteq> k \<Longrightarrow> itab s' ! l = itab s ! l" "ilock_owner (itab s' ! k) = None"
    "iref (itab s' ! k) = iref (itab s ! k) - 1" "inum (itab s' ! k) = inum (itab s ! k)"
proof -
  note T = table_okD [OF fs_okD(2) [OF ok]]
  let ?e = "(itab s ! k)\<lparr>ilock_owner := None\<rparr>"
  define s1 where "s1 = upd_inode k (\<lambda>_. ?e) s"
  note U = iunlock_effect [OF ok k, folded s1_def]
  have l: "k < length (itab s)" using k(1) T(1) by simp
  then have e: "itab s1 ! k = ?e" "fdisk s1 = fdisk s" by (simp_all add: s1_def)
  have "valid (itab s ! k) \<Longrightarrow> nlink (itab s ! k) \<noteq> 0"
    using T(4) [OF k(1,2)] n by (metis on_disk_simps(3))
  then have c: "\<not> (iref (itab s1 ! k) = 1 \<and> valid (itab s1 ! k) \<and> nlink (itab s1 ! k) = 0)" unfolding e by auto
  obtain s' where s': "iput sb me k s1 = Inr s'" "fs_ok sb s'" "fdisk s' = fdisk s1"
    "refs s' = (refs s1)(inum (itab s1 ! k) := refs s1 (inum (itab s1 ! k)) - 1)"
    "itab s' = (itab s1)[k := (itab s1 ! k)\<lparr>iref := iref (itab s1 ! k) - 1\<rparr>]"
    by (rule iput_keeps [OF U(2) k(1) _ c, of me]) (use k(2) in \<open>auto simp: e\<close>)
  have "iunlockput sb me k s = Inr s'" using U(1) s'(1) by (simp add: iunlockput_def andthen_def)
  then show ?thesis using s' U(3) l by (intro that [of s']) (simp_all add: e s1_def)
qed

text \<open>
  The loop of \<open>namex\<close>. \<open>R\<close> counts the references before the call; the loop itself holds one, to where
  it is.
\<close>

lemma namex_loop_effect:
  assumes "fs_ok sb s" "k < NINODE" "0 < iref (itab s ! k)" "idle s" "0 \<notin> set path"
    and "refs s = R(inum (itab s ! k) := R (inum (itab s ! k)) + 1)" "\<And>i. 0 \<le> R i" "card {i. 0 < R i} + 2 \<le> NINODE"
    and "sound sb (fdisk s) (inum (itab s ! k)) (elems path)"
    and "parent \<Longrightarrow> elems path \<noteq> [] \<or> nlink (dino sb (fdisk s) (inum (itab s ! k))) \<noteq> 0"
  shows "\<exists>r s'. namex_loop sb me parent k nm path s = Inr (r, s') \<and> fs_ok sb s' \<and> fdisk s' = fdisk s \<and> idle s' \<and>
    (case walk sb (fdisk s) parent (inum (itab s ! k)) (elems path) of
       None \<Rightarrow> r = None \<and> refs s' = R
     | Some j \<Rightarrow> \<exists>k'. r = Some (k', last (nm # elems path)) \<and> k' < NINODE \<and> 0 < iref (itab s' ! k') \<and>
         inum (itab s' ! k') = j \<and> refs s' = R(j := R j + 1))"
  using assms
proof (induction "length path" arbitrary: path k nm s rule: less_induct)
  case less
  note ok = less.prems(1) and k = less.prems(2,3) and id = less.prems(4) and z = less.prems(5) and R = less.prems(6-8)
  note T = table_okD [OF fs_okD(2) [OF ok]]
  let ?i = "inum (itab s ! k)" and ?dk = "fdisk s"
  have own: "ilock_owner (itab s ! k) = None" using id k(1) by (simp add: idle_def)
  show ?case
  proof (cases "skipelem path")
    case None
    then have e: "elems path = []" by (simp add: elems_Nil)
    have step: "namex_loop sb me parent k nm path s =
      (if parent then andthen (iput sb me k s) (\<lambda>s. Inr (None, s)) else Inr (Some (k, nm), s))"
      using None by (subst namex_loop.simps) simp
    show ?thesis
    proof (cases parent)
      case True
      then have n: "nlink (dino sb ?dk ?i) \<noteq> 0" using less.prems(10) e by blast
      then have c: "\<not> (iref (itab s ! k) = 1 \<and> valid (itab s ! k) \<and> nlink (itab s ! k) = 0)"
        using T(4) [OF k] by (metis on_disk_simps(3))
      obtain s' where s': "iput sb me k s = Inr s'" "fs_ok sb s'" "fdisk s' = fdisk s"
        "refs s' = (refs s)(?i := refs s ?i - 1)" "itab s' = (itab s)[k := (itab s ! k)\<lparr>iref := iref (itab s ! k) - 1\<rparr>]"
        by (rule iput_keeps [OF ok k c, of me]) (use own in simp_all)
      have "idle s'" unfolding idle_def
      proof (intro allI impI)
        fix m assume "m < NINODE"
        then show "ilock_owner (itab s' ! m) = None" using id T(1) unfolding s'(5) by (cases "m = k") (simp_all add: idle_def)
      qed
      then show ?thesis using True step e R(1) s' by (simp add: andthen_def)
    next
      case False
      then show ?thesis using step e ok id k R(1) by simp
    qed
  next
    case (Some nq)
    then obtain n q where q: "skipelem path = Some (n, q)" by (cases nq) simp
    have es: "elems path = n # elems q" using q by (subst elems.simps) simp
    note g = skipelem_good [OF q z]
    have so: "allocated sb ?dk ?i" "nlink (dino sb ?dk ?i) \<noteq> 0" using less.prems(9) unfolding es by simp_all
    obtain e where e: "ilock sb me k s = Inr (upd_inode k (\<lambda>_. e) s)" "inum e = ?i" "iref e = iref (itab s ! k)"
      "ilock_owner e = Some me" "valid e" "on_disk e = dino sb ?dk (inum e)" "fs_ok sb (upd_inode k (\<lambda>_. e) s)"
      "refs (upd_inode k (\<lambda>_. e) s) = refs s"
      by (rule ilock_effect [OF ok k own so(1), of me]) blast
    define s1 where "s1 = upd_inode k (\<lambda>_. e) s"
    have l: "k < length (itab s)" using k(1) T(1) by simp
    have s1: "itab s1 ! k = e" "fdisk s1 = ?dk" "fs_ok sb s1" "refs s1 = refs s" using l e(7,8) by (simp_all add: s1_def)
    have oth: "m < NINODE \<Longrightarrow> m \<noteq> k \<Longrightarrow> itab s1 ! m = itab s ! m" for m using l by (simp add: s1_def)
    have de: "on_disk e = on_disk (dino sb ?dk ?i)" using e(2,6) by simp
    note D = on_disk_cong [OF de]
    have put: "\<exists>s'. iunlockput sb me k s2 = Inr s' \<and> fs_ok sb s' \<and> fdisk s' = ?dk \<and> idle s' \<and>
        refs s' = (refs s2)(?i := refs s2 ?i - 1) \<and> (\<forall>m < NINODE. m \<noteq> k \<longrightarrow> itab s' ! m = itab s2 ! m) \<and>
        iref (itab s' ! k) = iref (itab s2 ! k) - 1 \<and> inum (itab s' ! k) = ?i"
      if a: "fs_ok sb s2" "fdisk s2 = ?dk" "inum (itab s2 ! k) = ?i" "0 < iref (itab s2 ! k)" "ilock_owner (itab s2 ! k) = Some me"
        "\<And>m. m < NINODE \<Longrightarrow> m \<noteq> k \<Longrightarrow> ilock_owner (itab s2 ! m) = None" for s2
    proof -
      have "nlink (dino sb (fdisk s2) (inum (itab s2 ! k))) \<noteq> 0" using so(2) a(2,3) by simp
      then obtain s' where s': "iunlockput sb me k s2 = Inr s'" "fs_ok sb s'" "fdisk s' = fdisk s2"
        "refs s' = (refs s2)(inum (itab s2 ! k) := refs s2 (inum (itab s2 ! k)) - 1)"
        "\<And>m. m < NINODE \<Longrightarrow> m \<noteq> k \<Longrightarrow> itab s' ! m = itab s2 ! m" "ilock_owner (itab s' ! k) = None"
        "iref (itab s' ! k) = iref (itab s2 ! k) - 1" "inum (itab s' ! k) = inum (itab s2 ! k)"
        by (rule iunlockput_effect [OF a(1) k(1) a(4,5)]) blast
      have "idle s'" unfolding idle_def
      proof (intro allI impI)
        fix m assume "m < NINODE" then show "ilock_owner (itab s' ! m) = None" using s'(5,6) a(6) by (cases "m = k") auto
      qed
      then show ?thesis using s' a(2,3) by auto
    qed
    have put1: "\<exists>s'. iunlockput sb me k s1 = Inr s' \<and> fs_ok sb s' \<and> fdisk s' = ?dk \<and> idle s' \<and> refs s' = R"
      using put [of s1] s1 e(2-4) k(2) oth id R(1) by (auto simp: idle_def)
    have step: "namex_loop sb me parent k nm path s =
      (if itype e \<noteq> T_DIR then andthen (iunlockput sb me k s1) (\<lambda>s. Inr (None, s))
       else if parent \<and> q = [] then andthen (iunlock me k s1) (\<lambda>s. Inr (Some (k, n), s))
       else andthen (dirlookup sb k n s1) (\<lambda>(r, s).
         case r of
           None \<Rightarrow> andthen (iunlockput sb me k s) (\<lambda>s. Inr (None, s))
         | Some (next, _) \<Rightarrow> andthen (iunlockput sb me k s) (\<lambda>s. namex_loop sb me parent next n q s)))"
      using q e(1) s1(1) by (subst namex_loop.simps) (simp add: andthen_def s1_def [symmetric] split: option.splits)
    have ty: "itype e = itype (dino sb ?dk ?i)" by (rule D(6))
    show ?thesis
    proof (cases "itype e = T_DIR")
      case False
      then show ?thesis using put1 step unfolding es by (auto simp: ty andthen_def)
    next
      case dir: True
      show ?thesis
      proof (cases "parent \<and> q = []")
        case True
        define s2 where "s2 = upd_inode k (\<lambda>_. (itab s1 ! k)\<lparr>ilock_owner := None\<rparr>) s1"
        have U: "iunlock me k s1 = Inr s2" "fs_ok sb s2" "refs s2 = refs s1"
          using iunlock_effect [OF s1(3) k(1), of me] e(3,4) k(2) unfolding s1(1) s2_def by simp_all
        have l1: "k < length (itab s1)" using l by (simp add: s1_def)
        have "itab s2 ! k = e\<lparr>ilock_owner := None\<rparr>" "fdisk s2 = ?dk" "idle s2"
          using l1 s1 oth id by (auto simp: s2_def idle_def)
        then show ?thesis using U True dir step e(2,3) k R(1) s1(4) skipelem_rest [OF q] unfolding es
          by (auto simp: ty andthen_def)
      next
        case False
        have d16: "16 dvd unat (isize e)" using less.prems(9) dir unfolding es by (simp add: ty D(8))
        let ?c = "contents ?dk (dino sb ?dk ?i)"
        have hold: "holding me k s1" by (simp add: holding_def s1(1) e(4))
        have look: "dirlookup sb k n s1 = (case dir_find (dir_entries ?c) n of None \<Rightarrow> Inr (None, s1)
            | Some j \<Rightarrow> andthen (iget (fst (dir_entries ?c ! j)) s1) (\<lambda>(k, s). Inr (Some (k, 16 * j), s)))"
          using dirlookup_effect [OF s1(3) k(1) hold _ _ g(1), unfolded s1(1,2) e(2)] dir d16 by blast
        have dof: "dir_of sb ?dk ?i n = map_option (\<lambda>j. fst (dir_entries ?c ! j)) (dir_find (dir_entries ?c) n)"
          by (simp add: dir_of_def dir_map_def)
        have wk: "walk sb ?dk parent ?i (n # elems q) = (case dir_of sb ?dk ?i n of None \<Rightarrow> None | Some j \<Rightarrow> walk sb ?dk parent j (elems q))"
        proof -
          have "\<not> (parent \<and> elems q = [])" using False skipelem_rest [OF q] by blast
          then show ?thesis using dir ty by auto
        qed
        show ?thesis
        proof (cases "dir_find (dir_entries ?c) n")
          case None
          then show ?thesis using put1 step dir False look dof unfolding es wk by (auto simp: andthen_def)
        next
          case (Some j)
          let ?j = "fst (dir_entries ?c ! j)"
          have so2: "1 \<le> ?j" "?j < ninodes sb" "sound sb ?dk ?j (elems q)"
            using less.prems(9) dir dof Some unfolding es by (simp_all add: ty)
          have sub: "{i. 0 < refs s1 i} \<subseteq> insert ?i {i. 0 < R i}" by (auto simp: s1(4) R(1))
          have "{i. 0 < R i} \<subseteq> {i. 0 < refs s i}" using R(2) by (auto simp: R(1) add_pos_nonneg)
          then have fin: "finite {i. 0 < R i}" by (rule finite_subset) (rule finite_used [OF ok])
          have "card {i. 0 < refs s1 i} \<le> card (insert ?i {i. 0 < R i})" using fin by (intro card_mono [OF _ sub]) simp
          also have "\<dots> \<le> Suc (card {i. 0 < R i})" by (simp add: card_insert_if fin)
          finally have "card {i. 0 < refs s1 i} < NINODE" using R(3) by simp
          then have room: "\<exists>k < NINODE. iref (itab s1 ! k) = 0" by (rule slot_free [OF s1(3)])
          show ?thesis
          proof (cases rule: iget_effect [OF s1(3) so2(1,2)])
            case 1
            then show ?thesis using room by blast
          next
            case (2 k2 s2)
            have kk: "k2 = k \<Longrightarrow> ?j = ?i" using 2(10) s1(1) e(2,3) k(2) by auto
            have ek: "inum (itab s2 ! k) = ?i" "0 < iref (itab s2 ! k)" "ilock_owner (itab s2 ! k) = Some me"
              using 2(5,6,8,9) kk s1(1) e(2-4) k by (cases "k2 = k"; simp)+
            have others: "ilock_owner (itab s2 ! m) = None" if "m < NINODE" "m \<noteq> k" for m
              using 2(8,9) that oth id by (cases "m = k2") (auto simp: idle_def)
            obtain s3 where s3: "iunlockput sb me k s2 = Inr s3" "fs_ok sb s3" "fdisk s3 = ?dk" "idle s3"
              "refs s3 = (refs s2)(?i := refs s2 ?i - 1)" "\<forall>m < NINODE. m \<noteq> k \<longrightarrow> itab s3 ! m = itab s2 ! m"
              "iref (itab s3 ! k) = iref (itab s2 ! k) - 1" "inum (itab s3 ! k) = ?i"
              using put [OF 2(3) _ ek others] 2(4) s1(2) by auto
            have rf: "refs s3 = R(?j := R ?j + 1)" unfolding s3(5) 2(7) s1(4) R(1) by (auto simp: fun_eq_iff)
            have e3: "inum (itab s3 ! k2) = ?j" "0 < iref (itab s3 ! k2)"
            proof -
              have "inum (itab s3 ! k2) = ?j \<and> 0 < iref (itab s3 ! k2)"
              proof (cases "k2 = k")
                case True
                have "iref (itab s2 ! k) = R ?i + 2"
                  using refs_entry [OF fs_okD(2) [OF 2(3)] k(1) ek(2)] kk [OF True] unfolding ek(1) 2(7) s1(4) R(1) by simp
                then show ?thesis using s3(7,8) kk [OF True] R(2) [of ?i] True by simp
              qed (use s3(6) 2(2,5,6) in auto)
              then show "inum (itab s3 ! k2) = ?j" "0 < iref (itab s3 ! k2)" by simp_all
            qed
            have pq: "parent \<Longrightarrow> elems q \<noteq> []" using False skipelem_rest [OF q] by blast
            obtain r s4 where r: "namex_loop sb me parent k2 n q s3 = Inr (r, s4)" "fs_ok sb s4" "fdisk s4 = ?dk" "idle s4"
              "case walk sb ?dk parent ?j (elems q) of None \<Rightarrow> r = None \<and> refs s4 = R
               | Some j' \<Rightarrow> \<exists>k'. r = Some (k', last (n # elems q)) \<and> k' < NINODE \<and> 0 < iref (itab s4 ! k') \<and>
                   inum (itab s4 ! k') = j' \<and> refs s4 = R(j' := R j' + 1)"
              using less.hyps [OF skipelem_shorter [OF q] s3(2) 2(2) e3(2) s3(4) g(2) _ R(2,3), of n]
                rf so2(3) pq unfolding e3(1) s3(3) by blast
            have "namex_loop sb me parent k nm path s = Inr (r, s4)"
              using step dir False look Some 2(1) s3(1) r(1) by (simp add: andthen_def)
            then show ?thesis using r(2-5) dof Some unfolding es wk by (auto split: option.splits)
          qed
        qed
      qed
    qed
  qed
qed

text \<open>The pieces of a path between its slashes; the elements are the nonempty ones, cut at 14 bytes.\<close>

fun pieces :: "byte list \<Rightarrow> byte list list" where
  "pieces [] = [[]]"
| "pieces (c # cs) = (if c = slash then [] # pieces cs else (c # hd (pieces cs)) # tl (pieces cs))"

definition path_names :: "byte list \<Rightarrow> name list" where
  "path_names p = map (take DIRSIZ) (filter (\<lambda>n. n \<noteq> []) (pieces p))"

lemma pieces_first: "pieces p = takeWhile (\<lambda>c. c \<noteq> slash) p #
  (case dropWhile (\<lambda>c. c \<noteq> slash) p of [] \<Rightarrow> [] | c # q \<Rightarrow> pieces q)"
  by (induction p) auto

lemma path_names_skip [simp]: "path_names (skip_slashes p) = path_names p"
  by (induction p) (auto simp: skip_slashes_def path_names_def)

lemma elems_path_names: "elems p = path_names p"
proof (induction p rule: elems.induct)
  case (1 p)
  let ?p = "skip_slashes p" and ?P = "\<lambda>c. c \<noteq> slash"
  show ?case
  proof (cases "?p = []")
    case True
    have "path_names p = path_names ?p" by (rule path_names_skip [symmetric])
    also have "\<dots> = []" unfolding True by (simp add: path_names_def)
    finally have "path_names p = []" .
    then show ?thesis using True by (subst elems.simps) (simp add: skipelem_def)
  next
    case False
    then have h: "hd ?p \<noteq> slash" unfolding skip_slashes_def
      by (intro hd_dropWhile [of "\<lambda>c. c = slash"]) (simp add: skip_slashes_def)
    let ?n = "takeWhile ?P ?p" and ?q = "dropWhile ?P ?p"
    have n: "?n \<noteq> []" using False h by (cases ?p) auto
    have sk: "skipelem p = Some (take DIRSIZ ?n, skip_slashes ?q)" using False by (simp add: skipelem_def Let_def)
    have "path_names ?q = map (take DIRSIZ) (filter (\<lambda>n. n \<noteq> []) (case ?q of [] \<Rightarrow> [] | c # q \<Rightarrow> pieces q))"
    proof (cases ?q)
      case (Cons c q)
      then have "c = slash" using hd_dropWhile [of ?P ?p] by simp
      then show ?thesis using Cons by (simp add: path_names_def)
    next
      case Nil
      show ?thesis unfolding Nil by (simp add: path_names_def)
    qed
    then have "path_names ?p = take DIRSIZ ?n # path_names ?q"
      unfolding path_names_def using n by (subst pieces_first) simp
    then have "path_names p = take DIRSIZ ?n # path_names (skip_slashes ?q)" by simp
    then show ?thesis using 1 [OF sk refl] sk by (subst elems.simps) simp
  qed
qed

lemma namex_effect:
  assumes ok: "fs_ok sb s" and k: "cwd < NINODE" "0 < iref (itab s ! cwd)" and id: "idle s" and z: "0 \<notin> set path"
    and room: "card {i. 0 < refs s i} + 2 \<le> NINODE" and n: "ROOTINO < ninodes sb"
  defines "start \<equiv> if path \<noteq> [] \<and> hd path = slash then ROOTINO else inum (itab s ! cwd)"
  assumes so: "sound sb (fdisk s) start (elems path)"
    and par: "parent \<Longrightarrow> elems path \<noteq> [] \<or> nlink (dino sb (fdisk s) start) \<noteq> 0"
  shows "\<exists>r s'. namex sb me cwd path parent s = Inr (r, s') \<and> fs_ok sb s' \<and> fdisk s' = fdisk s \<and> idle s' \<and>
    (case walk sb (fdisk s) parent start (elems path) of
       None \<Rightarrow> r = None \<and> refs s' = refs s
     | Some j \<Rightarrow> \<exists>k'. r = Some (k', last ([] # elems path)) \<and> k' < NINODE \<and> 0 < iref (itab s' ! k') \<and>
         inum (itab s' ! k') = j \<and> refs s' = (refs s)(j := refs s j + 1))"
proof -
  note T = table_okD [OF fs_okD(2) [OF ok]]
  have r0: "0 \<le> refs s i" for i unfolding refs_def using T(2) by (intro sum_nonneg) auto
  show ?thesis
  proof (cases "path \<noteq> [] \<and> hd path = slash")
    case True
    have sl: "\<exists>k < NINODE. iref (itab s ! k) = 0" by (rule slot_free [OF ok]) (use room in simp)
    show ?thesis
    proof (cases rule: iget_effect [OF ok _ n])
      case 1 then show ?case by (simp add: ROOTINO_def)
    next
      case 2 then show ?thesis using sl by blast
    next
      case (3 k s1)
      have "idle s1" unfolding idle_def
      proof (intro allI impI)
        fix m assume "m < NINODE" then show "ilock_owner (itab s1 ! m) = None" using 3(8,9) id by (cases "m = k") (auto simp: idle_def)
      qed
      then show ?thesis
        using namex_loop_effect [OF 3(3,2,6) _ z _ r0 room, where parent = parent and nm = "[]" and me = me] 3(1,4,5,7) True so par
        by (auto simp: namex_def start_def andthen_def)
    qed
  next
    case False
    let ?s = "idup cwd s"
    note I = idup_effect [OF ok k]
    have e: "itab ?s ! cwd = (itab s ! cwd)\<lparr>iref := iref (itab s ! cwd) + 1\<rparr>" "fdisk ?s = fdisk s"
      using k(1) T(1) by (simp_all add: idup_def)
    have "idle ?s" unfolding idle_def
    proof (intro allI impI)
      fix m assume "m < NINODE" then show "ilock_owner (itab ?s ! m) = None"
        using id k T(1) by (cases "m = cwd") (auto simp: idle_def idup_def)
    qed
    then show ?thesis
      using namex_loop_effect [OF I(1) k(1) _ _ z _ r0 room, where parent = parent and nm = "[]" and me = me] I(2) e k(2) False so par
      by (auto simp: namex_def start_def)
  qed
qed

text \<open>
  C8. Path resolution (\<open>namex\<close>, so \<open>namei\<close> and \<open>nameiparent\<close>): it never panics and never sleeps with the
  file system at rest, and its result is the one of walking over the names of the path on the disk, from the
  root for a path that starts with a slash and from the current directory otherwise. It returns one
  reference, to the inode found, and gives back every other one that it took; the disk is unchanged.
\<close>

theorem namex_resolves_path:
  assumes "fs_ok sb s" "cwd < NINODE" "0 < iref (itab s ! cwd)" "idle s" "0 \<notin> set path"
    and "card {i. 0 < refs s i} + 2 \<le> NINODE" "ROOTINO < ninodes sb"
    and "start = (if path \<noteq> [] \<and> hd path = slash then ROOTINO else inum (itab s ! cwd))"
    and "sound sb (fdisk s) start (path_names path)"
    and "parent \<Longrightarrow> path_names path \<noteq> [] \<or> nlink (dino sb (fdisk s) start) \<noteq> 0"
  shows "\<exists>r s'. namex sb me cwd path parent s = Inr (r, s') \<and> fs_ok sb s' \<and> fdisk s' = fdisk s \<and> idle s' \<and>
    (case walk sb (fdisk s) parent start (path_names path) of
       None \<Rightarrow> r = None \<and> refs s' = refs s
     | Some j \<Rightarrow> \<exists>k. r = Some (k, last ([] # path_names path)) \<and> k < NINODE \<and> 0 < iref (itab s' ! k) \<and>
         inum (itab s' ! k) = j \<and> refs s' = (refs s)(j := refs s j + 1))"
  unfolding elems_path_names [symmetric] assms(8)
  by (rule namex_effect) (use assms in \<open>simp_all add: elems_path_names\<close>)

section \<open>A process in the root directory\<close>

definition home_fs :: fs where
  "home_fs = tiny_fs\<lparr>itab := iinit[0 := root_inode\<lparr>iref := 1, ilock_owner := None\<rparr>]\<rparr>"

lemma home_ok: "fs_ok small_sb home_fs"
  unfolding home_fs_def by (rule tiny_open)

lemma home_table: "k < NINODE \<Longrightarrow> itab home_fs ! k = (if k = 0 then root_inode\<lparr>iref := 1, ilock_owner := None\<rparr> else iinit ! k)"
  "fdisk home_fs = tiny_disk"
  by (simp_all add: home_fs_def tiny_fs_def iinit_def)

lemma root_contents: "contents tiny_disk root_inode = root_dirents"
proof -
  have len: "length root_dirents = 32" by (simp add: root_dirents_def)
  have "contents tiny_disk root_inode = map (\<lambda>i. root_dirents ! i) [0..<32]"
    unfolding contents_def
  proof (rule map_cong)
    fix i :: nat assume "i \<in> set [0..<32]"
    then have "i < 32" by simp
    then show "fbyte tiny_disk root_inode i = root_dirents ! i"
      by (simp add: fbyte_def tiny_slots tiny_disk_at tiny_blocks_def BSIZE_eq nth_append len)
  qed (simp add: root_inode_def)
  also have "\<dots> = root_dirents" using map_nth [of root_dirents] unfolding len .
  finally show ?thesis .
qed

lemma root_names: "dir_of small_sb tiny_disk 1 [46] = Some 1" "dir_of small_sb tiny_disk 1 [46, 46] = Some 1"
  "dir_of small_sb tiny_disk 1 [120] = None"
  unfolding dir_of_def tiny_dinos root_contents by code_simp+

lemma home_refs: "refs home_fs = (\<lambda>i. if i = 1 then 1 else 0)"
proof
  fix i
  have "refs home_fs i = (\<Sum>k < NINODE. if k = 0 then (if i = 1 then 1 else 0) else 0)"
    unfolding refs_def by (rule sum.cong) (auto simp: home_table root_inode_def iinit_def)
  then show "refs home_fs i = (if i = 1 then 1 else 0)" by (simp add: NINODE_def)
qed

lemma home_idle: "idle home_fs"
  by (auto simp: idle_def home_table iinit_def)

lemma home_walks:
  "walk small_sb tiny_disk parent 1 [[46, 46], [46]] = Some 1" "sound small_sb tiny_disk 1 [[46, 46], [46]]"
  by (simp_all add: tiny_dinos root_names tiny_allocated small_sb_simps del: One_nat_def) (simp_all add: root_inode_def)

theorem namex_resolves_path_witness:
  "\<exists>k s'. namex small_sb 7 0 [46, 46, 47, 46, 47] False home_fs = Inr (Some (k, [46]), s') \<and> inum (itab s' ! k) = 1 \<and>
     refs s' 1 = 2"
proof -
  have c: "0 < NINODE" "inum (itab home_fs ! 0) = 1" "0 < iref (itab home_fs ! 0)"
    by (simp_all add: home_table root_inode_def NINODE_def)
  have p: "path_names [46, 46, 47, 46, 47] = [[46, 46], [46]]" by code_simp
  have d: "{i. 0 < refs home_fs i} = {1}" by (auto simp: home_refs)
  note w = namex_resolves_path [OF home_ok c(1,3) home_idle, of "[46, 46, 47, 46, 47]" 1 False 7, unfolded p d home_table(2) c(2)]
  have "\<exists>r s'. namex small_sb 7 0 [46, 46, 47, 46, 47] False home_fs = Inr (r, s') \<and> fs_ok small_sb s' \<and> fdisk s' = tiny_disk \<and>
    idle s' \<and> (case Some 1 of None \<Rightarrow> r = None \<and> refs s' = refs home_fs
     | Some j \<Rightarrow> \<exists>k. r = Some (k, last [[], [46, 46], [46]]) \<and> k < NINODE \<and> 0 < iref (itab s' ! k) \<and> inum (itab s' ! k) = j \<and>
         refs s' = (refs home_fs)(j := refs home_fs j + 1))"
    unfolding home_walks(1) [of False, symmetric]
    by (rule w) (simp_all add: slash_def home_walks(2) NINODE_def ROOTINO_def small_sb_simps del: One_nat_def sound.simps)
  then show ?thesis by (auto simp: home_refs)
qed

section \<open>Writing an entry\<close>

text \<open>A write within one block writes all of it or nothing, and all of it when the file has the block.\<close>

lemma writei_loop_one:
  assumes w: "writei_loop kcopyin sb n 0 off src dk ip mem = Inr (k, r)" and n: "off mod BSIZE + n \<le> BSIZE"
  shows "k = 0 \<or> k = n" "off div BSIZE < MAXFILE \<Longrightarrow> slot dk ip (Some (off div BSIZE)) \<noteq> 0 \<Longrightarrow> k = n"
proof -
  have step: "writei_loop kcopyin sb n 0 off src dk ip mem =
    (if 0 < n
     then (case bmap sb (off div BSIZE) dk ip of
             Inl e \<Rightarrow> Inl e
           | Inr (addr, dk, ip) \<Rightarrow>
               if addr = 0 then Inr (0, off, dk, ip)
               else Inr (n, off + n, dk(addr := splice (dk addr) (off mod BSIZE) (kget src n mem)), ip))
     else Inr (0, off, dk, ip))"
  proof -
    have "min (n - 0) (BSIZE - off mod BSIZE) = n" using n by simp
    moreover have "writei_loop kcopyin sb n n off' src' dk' ip' mem = Inr (n, off', dk', ip')" for off' src' dk' ip'
      by (subst writei_loop.simps) simp
    ultimately show ?thesis by (subst writei_loop.simps) (simp add: kcopyin_def Let_def split: sum.splits prod.splits)
  qed
  show "k = 0 \<or> k = n" using w unfolding step by (auto split: if_splits sum.splits prod.splits)
  show "k = n" if "off div BSIZE < MAXFILE" "slot dk ip (Some (off div BSIZE)) \<noteq> 0"
    using w bmap_allocated [OF that(2,1)] that(2) unfolding step by (auto split: if_splits)
qed

lemma writei_runs_loop:
  assumes "writei cpin sb src off n dk ip mem = Inr (int k, dk', ip')"
  shows "\<exists>t. writei_loop cpin sb (unat n) 0 (unat off) src dk ip mem = Inr (k, t)"
  using assms by (auto simp: writei_def Let_def split: if_splits sum.splits prod.splits)

lemma block_entry: "16 * j mod 1024 + 16 \<le> (1024 :: nat)"
proof -
  have "16 * j mod 1024 = 16 * (j mod 64)" using mult_mod_right [of 16 j 64] by simp
  then show ?thesis using mod_less_divisor [of 64 j] by simp
qed

lemma write_dirent_effect:
  assumes ok: "fs_ok sb s" and k: "k < NINODE" "holding me k s" and d: "length de = 16"
    and o: "16 * j \<le> unat (isize (itab s ! k))" "16 dvd unat (isize (itab s ! k))"
  obtains r dk ip where "write_dirent sb k (16 * j) de s = Inr (r, upd_inode k (\<lambda>_. ip) (s\<lparr>fdisk := dk\<rparr>))"
    "fs_ok sb (upd_inode k (\<lambda>_. ip) (s\<lparr>fdisk := dk\<rparr>))" "refs (upd_inode k (\<lambda>_. ip) (s\<lparr>fdisk := dk\<rparr>)) = refs s"
    "only_file sb (inum (itab s ! k)) (fdisk s) dk" "ip = (itab s ! k)\<lparr>addrs := addrs ip, isize := isize ip\<rparr>"
    "contents dk ip = (if r = 16 then splice (contents (fdisk s) (itab s ! k)) (16 * j) de else contents (fdisk s) (itab s ! k))"
    "r \<noteq> 16 \<Longrightarrow> 16 * j = MAXFILE * BSIZE \<or> free_blocks sb dk = {}"
    "r \<noteq> 16 \<Longrightarrow> 16 * j = unat (isize (itab s ! k)) \<and> BSIZE dvd 16 * j" "16 dvd unat (isize ip)"
proof -
  let ?ip = "itab s ! k" and ?off = "of_nat (16 * j) :: 32 word" and ?mem = "kput 0 de (\<lambda>_. 0)"
  note h = held_entry [OF ok k]
  note E = entry_file_ok [OF ok k(1) h] and F = file_okD [OF E(1)]
  have l: "k < length (itab s)" using k(1) table_okD(1) [OF fs_okD(2) [OF ok]] by simp
  have sz: "unat (isize ?ip) \<le> 274432" using F(3) by (simp add: MAXFILE_eq BSIZE_eq)
  have u: "unat ?off = 16 * j" using o(1) sz by (intro unat_small) simp
  have "unat (of_nat (16 * j + 16) :: 32 word) = 16 * j + 16" using o(1) sz by (intro unat_small) simp
  then have u16: "unat (?off + 16) = 16 * j + 16" by simp
  have g: "kget 0 16 ?mem = de" using d by (intro kget_kput) simp_all
  note result = that
  have refl: ?thesis if w: "writei kcopyin sb 0 ?off 16 (fdisk s) ?ip ?mem = Inr (-1, fdisk s, ?ip)"
    and f: "16 * j = MAXFILE * BSIZE" "16 * j = unat (isize ?ip)"
    using result [of "-1" ?ip "fdisk s"] w f ok o(2) l
    by (simp add: write_dirent_def andthen_def panics_def upd_inode_same only_file_refl)
  show ?thesis
  proof (cases "16 * j + 16 \<le> MAXFILE * BSIZE")
    case False
    have "16 * j = MAXFILE * BSIZE" "16 * j = unat (isize ?ip)"
      using False o sz by (auto simp: MAXFILE_eq BSIZE_eq)
    moreover have "writei kcopyin sb 0 ?off 16 (fdisk s) ?ip ?mem = Inr (-1, fdisk s, ?ip)"
      using u16 False by (simp add: writei_def word_less_nat_alt MAXFILE_eq BSIZE_eq)
    ultimately show ?thesis using refl by blast
  next
    case True
    have w: "?off \<le> isize ?ip" "?off \<le> ?off + 16" "unat (?off + 16) \<le> MAXFILE * BSIZE"
      using o(1) u u16 True by (simp_all add: word_le_nat_alt)
    show ?thesis
    proof (rule kernel_writei [OF E(1,5) w, where src = 0 and mem = ?mem])
      fix n dk ip
      assume r: "writei kcopyin sb 0 ?off 16 (fdisk s) ?ip ?mem = Inr (int n, dk, ip)" "n \<le> unat (16 :: 32 word)"
        "n < unat (16 :: 32 word) \<Longrightarrow> free_blocks sb dk = {}"
        "contents dk ip = splice (contents (fdisk s) ?ip) (unat ?off) (kget 0 n ?mem)"
        "unat (isize ip) = max (unat (isize ?ip)) (unat ?off + n)"
      have "int n \<noteq> - 1" by simp
      then have c: "changes sb (fdisk s) (inum ?ip) dk ip" "ip = ?ip\<lparr>addrs := addrs ip, isize := isize ip\<rparr>"
        using ksource.writei_changes [OF ok k(1) h, of 0 ?off 16 ?mem] r(1) by auto
      have s16: "unat (16 :: 32 word) = 16" by simp
      obtain t where wl: "writei_loop kcopyin sb 16 0 (16 * j) 0 (fdisk s) ?ip ?mem = Inr (n, t)"
        using writei_runs_loop [OF r(1), unfolded u s16] by blast
      have "16 * j mod 1024 + 16 \<le> 1024" by (rule block_entry)
      then have md: "16 * j mod BSIZE + 16 \<le> BSIZE" "16 * j div BSIZE < MAXFILE"
        using True by (simp_all add: BSIZE_eq MAXFILE_eq)
      have z: "n = 0 \<or> n = 16" by (rule writei_loop_one(1) [OF wl md(1)])
      have e: "16 * j = unat (isize ?ip) \<and> BSIZE dvd 16 * j" if "n \<noteq> 16"
      proof (rule ccontr)
        assume a: "\<not> ?thesis"
        have "16 * j div BSIZE * BSIZE \<noteq> 16 * j" if "\<not> BSIZE dvd 16 * j" using that by (metis dvd_triv_right)
        then have "16 * j div BSIZE * BSIZE < unat (isize ?ip)"
          using a o(1) div_times_less_eq_dividend [of "16 * j" BSIZE] by linarith
        then show False using writei_loop_one(2) [OF wl md] F(4) that by blast
      qed
      have i: "inum ip = inum ?ip" "iref ip = iref ?ip" "valid ip = valid ?ip" "itype ip = itype ?ip" by (subst c(2); simp)+
      have S: "fs_ok sb (upd_inode k (\<lambda>_. ip) (s\<lparr>fdisk := dk\<rparr>))"
        by (rule held_change [OF ok k c(1)]) (use i h in simp_all)
      have R: "refs (upd_inode k (\<lambda>_. ip) (s\<lparr>fdisk := dk\<rparr>)) = refs s"
        by (rule refs_cong) (use l i in simp)
      have "kget 0 0 ?mem = []" by (simp add: kget_def)
      then have C: "contents dk ip = (if n = 16 then splice (contents (fdisk s) ?ip) (16 * j) de else contents (fdisk s) ?ip)"
        using r(4) z g u o(1) by (auto simp: splice_def)
      have D: "16 dvd unat (isize ip)" using r(5) z u o(2) by (auto simp: max_def)
      have "write_dirent sb k (16 * j) de s = Inr (int n, upd_inode k (\<lambda>_. ip) (s\<lparr>fdisk := dk\<rparr>))"
        using r(1) by (simp add: write_dirent_def andthen_def panics_def)
      from that [OF this S R changes_only [OF c(1)] c(2)] show ?thesis using C D r(3) z e by auto
    qed
  qed
qed

section \<open>Linking a name\<close>

definition unused_entry :: "(nat \<times> name) list \<Rightarrow> nat" where
  "unused_entry es = (case first_index (\<lambda>(i, m). i = 0) es of None \<Rightarrow> length es | Some j \<Rightarrow> j)"

lemma unused_entry:
  "unused_entry es \<le> length es" "unused_entry es < length es \<Longrightarrow> fst (es ! unused_entry es) = 0"
  "j < unused_entry es \<Longrightarrow> fst (es ! j) \<noteq> 0"
  by (auto simp: unused_entry_def first_index_None first_index_Some all_set_conv_all_nth split_beta split: option.splits)

lemma free_dirent_effect:
  assumes f: "file_ok sb P dk ip" and d: "16 dvd unat (isize ip)"
    and j: "j \<le> unused_entry (dir_entries (contents dk ip))"
  shows "free_dirent sb (unat (isize ip)) (16 * j) dk ip = Inr (16 * unused_entry (dir_entries (contents dk ip)), dk, ip)"
  using j
proof (induction "unused_entry (dir_entries (contents dk ip)) - j" arbitrary: j)
  case 0
  let ?es = "dir_entries (contents dk ip)"
  obtain q where q: "unat (isize ip) = 16 * q" using d by blast
  have len: "length ?es = q" using q by (simp add: dir_entries_def contents_def)
  have e: "j = unused_entry ?es" using 0 by simp
  show ?case
  proof (cases "j < q")
    case True
    have r: "read_dirent ''dirlink read'' sb (16 * j) dk ip = Inr (entry_at (contents dk ip) j, dk, ip)"
      by (rule read_dirent_effect [OF f]) (use True q in simp)
    have "de_inum (entry_at (contents dk ip) j) = 0"
      using unused_entry(2) [of ?es] True len q unfolding e [symmetric] by (simp add: dir_entries_def contents_def)
    then show ?thesis using r True q e by (subst free_dirent.simps) simp
  qed (use q e in \<open>subst free_dirent.simps, simp\<close>)
next
  case (Suc m)
  let ?es = "dir_entries (contents dk ip)" and ?de = "entry_at (contents dk ip) j"
  obtain q where q: "unat (isize ip) = 16 * q" using d by blast
  have len: "length ?es = q" using q by (simp add: dir_entries_def contents_def)
  have lt: "j < unused_entry ?es" "j < q" using Suc.hyps(2) unused_entry(1) [of ?es] len by simp_all
  have r: "read_dirent ''dirlink read'' sb (16 * j) dk ip = Inr (?de, dk, ip)"
    by (rule read_dirent_effect [OF f]) (use lt q in simp)
  have "de_inum ?de \<noteq> 0"
    using unused_entry(3) [OF lt(1)] lt q by (simp add: dir_entries_def contents_def)
  then have "free_dirent sb (unat (isize ip)) (16 * j) dk ip = free_dirent sb (unat (isize ip)) (16 * (j + 1)) dk ip"
    using lt q r by (subst free_dirent.simps) (simp add: add.commute)
  then show ?case using Suc.hyps(1) [of "j + 1"] Suc.hyps(2) lt by simp
qed

lemma dir_entries_splice:
  assumes l: "length c = 16 * q" and j: "j \<le> q" and d: "length de = 16"
  shows "dir_entries (splice c (16 * j) de) =
    take j (dir_entries c) @ (de_inum de, cname (de_name de)) # drop (Suc j) (dir_entries c)"
proof (rule nth_equalityI)
  have n: "length (splice c (16 * j) de) = 16 * max q (Suc j)" using assms by (cases "j = q") (auto simp: splice_def max_def)
  have m: "length (dir_entries c) = q" "length (dir_entries (splice c (16 * j) de)) = max q (Suc j)"
    using l n by (simp_all add: dir_entries_def)
  show "length (dir_entries (splice c (16 * j) de)) =
    length (take j (dir_entries c) @ (de_inum de, cname (de_name de)) # drop (Suc j) (dir_entries c))"
    using m j by (auto simp: max_def)
  fix i assume "i < length (dir_entries (splice c (16 * j) de))"
  then have i: "i < max q (Suc j)" using m by simp
  then have "16 * (i + 1) \<le> 16 * max q (Suc j)" by (intro mult_le_mono2) simp
  then have i16: "16 * i + 16 \<le> length (splice c (16 * j) de)" using n by simp
  have iq: "16 * i + 16 \<le> 16 * q" if "i \<noteq> j"
    using i that j by (auto simp: max_def split: if_splits)
  have e: "entry_at (splice c (16 * j) de) i = (if i = j then de else entry_at c i)"
  proof (rule nth_equalityI)
    show "length (entry_at (splice c (16 * j) de) i) = length (if i = j then de else entry_at c i)"
      using i16 iq l d by (cases "i = j") (simp_all add: entry_at_def)
    fix t assume "t < length (entry_at (splice c (16 * j) de) i)"
    then have t: "t < 16" by (simp add: entry_at_def)
    show "entry_at (splice c (16 * j) de) i ! t = (if i = j then de else entry_at c i) ! t"
    proof (cases i j rule: linorder_cases)
      case less
      then show ?thesis using t iq l j by (simp add: entry_at_def splice_def nth_append)
    next
      case greater
      then show ?thesis using t iq l d j by (simp add: entry_at_def splice_def nth_append)
    qed (use t i16 l d j in \<open>simp add: entry_at_def splice_def nth_append\<close>)
  qed
  show "dir_entries (splice c (16 * j) de) ! i =
    (take j (dir_entries c) @ (de_inum de, cname (de_name de)) # drop (Suc j) (dir_entries c)) ! i"
  proof (cases i j rule: linorder_cases)
    case greater
    then obtain t where t: "i = Suc (j + t)" using less_iff_Suc_add by blast
    then have "Suc (j + t) < q" using i by (auto simp: max_def split: if_splits)
    then show ?thesis using t e l n j by (simp add: dir_entries_def nth_append)
  qed (use i m j e l n in \<open>simp_all add: dir_entries_def nth_append\<close>)
qed

text \<open>A list of entries as a map: the first with the name counts.\<close>

fun entry_map :: "(nat \<times> name) list \<Rightarrow> name \<rightharpoonup> nat" where
  "entry_map [] n = None"
| "entry_map ((i, m) # es) n = (if i \<noteq> 0 \<and> m = n then Some i else entry_map es n)"

lemma entry_map_find: "map_option (\<lambda>j. fst (es ! j)) (dir_find es n) = entry_map es n"
  unfolding dir_find_def by (induction es) (auto simp: option.map_comp comp_def split: if_splits)

lemma dir_map_entries: "dir_map c = entry_map (dir_entries c)"
  by (simp add: fun_eq_iff dir_map_def entry_map_find)

lemma entry_map_append: "entry_map (es @ fs) n = (case entry_map es n of None \<Rightarrow> entry_map fs n | Some i \<Rightarrow> Some i)"
  by (induction es n rule: entry_map.induct) auto

lemma entry_map_fill:
  assumes n: "entry_map es n = None" and i: "i \<noteq> 0" and j: "j \<le> length es" "j < length es \<Longrightarrow> fst (es ! j) = 0"
  shows "entry_map (take j es @ (i, n) # drop (Suc j) es) = (entry_map es)(n \<mapsto> i)"
proof
  fix m
  have e: "entry_map es m = entry_map (take j es @ drop (Suc j) es) m" for m
  proof (cases "j < length es")
    case True
    obtain t where "es ! j = (0, t)" using j(2) [OF True] by (cases "es ! j") auto
    then have es: "es = take j es @ (0, t) # drop (Suc j) es" using id_take_nth_drop [OF True] by simp
    show ?thesis by (subst es) (simp add: entry_map_append split: option.split)
  qed (use j(1) in simp)
  show "entry_map (take j es @ (i, n) # drop (Suc j) es) m = ((entry_map es)(n \<mapsto> i)) m"
    using n i e [of m] e [of n] by (cases "m = n") (auto simp: entry_map_append split: option.splits)
qed

lemma dirent_bytes_fields:
  assumes "good_name n" "i < 2 ^ 16"
  shows "length (dirent_bytes n i) = 16" "de_inum (dirent_bytes n i) = i" "cname (de_name (dirent_bytes n i)) = n"
proof -
  have l: "length (bytes16 (of_nat i)) = 2" by (simp add: bytes16_def)
  show "length (dirent_bytes n i) = 16" using l by (simp add: dirent_bytes_def DIRSIZ_def)
  have "word16 (bytes16 (of_nat i) ! 0) (bytes16 (of_nat i) ! 1) = of_nat i" for i
    using word16_bytes [of "of_nat i"] by (simp add: bytes16_def)
  then show "de_inum (dirent_bytes n i) = i"
    using assms(2) l by (simp add: de_inum_def dirent_bytes_def nth_append unsigned_of_nat take_bit_nat_eq_self)
  have "de_name (dirent_bytes n i) = n @ replicate (14 - length n) 0"
    using l assms(1) by (simp add: de_name_def dirent_bytes_def good_name_def DIRSIZ_def)
  moreover have "cname (n @ replicate k 0) = n" for k
    using assms(1) unfolding cname_def good_name_def by (induction n) auto
  ultimately show "cname (de_name (dirent_bytes n i)) = n" by simp
qed

lemma held_dir:
  assumes ok: "fs_ok sb s" and k: "k < NINODE" "holding me k s"
  shows "contents (fdisk s) (dino sb (fdisk s) (inum (itab s ! k))) = contents (fdisk s) (itab s ! k)"
    "dir_of sb (fdisk s) (inum (itab s ! k)) = entry_map (dir_entries (contents (fdisk s) (itab s ! k)))"
proof -
  have "on_disk (itab s ! k) = on_disk (dino sb (fdisk s) (inum (itab s ! k)))"
    using table_okD(4) [OF fs_okD(2) [OF ok] k(1) held_entry [OF ok k]] by simp
  then show "contents (fdisk s) (dino sb (fdisk s) (inum (itab s ! k))) = contents (fdisk s) (itab s ! k)"
    using on_disk_cong(4) by metis
  then show "dir_of sb (fdisk s) (inum (itab s ! k)) = entry_map (dir_entries (contents (fdisk s) (itab s ! k)))"
    by (simp add: dir_of_def dir_map_entries)
qed

lemma get_put:
  assumes ok: "fs_ok sb s" and j: "1 \<le> j" "j < ninodes sb" "nlink (dino sb (fdisk s) j) \<noteq> 0"
    and room: "card {i. 0 < refs s i} < NINODE"
  obtains l s1 s2 where "iget j s = Inr (l, s1)" "iput sb me l s1 = Inr s2" "fs_ok sb s2" "fdisk s2 = fdisk s" "refs s2 = refs s"
    "\<And>m. m < NINODE \<Longrightarrow> ilock_owner (itab s2 ! m) = ilock_owner (itab s ! m)"
    "\<And>m. m < NINODE \<Longrightarrow> 0 < iref (itab s ! m) \<Longrightarrow> iref (itab s2 ! m) = iref (itab s ! m) \<and> inum (itab s2 ! m) = inum (itab s ! m)"
proof (cases rule: iget_effect [OF ok j(1,2)])
  case 1
  then show ?thesis using slot_free [OF ok room] by blast
next
  case (2 l s1)
  note got = 2
  note T = table_okD [OF fs_okD(2) [OF ok]] and T1 = table_okD [OF fs_okD(2) [OF got(3)]]
  have n: "\<not> (iref (itab s1 ! l) = 1 \<and> valid (itab s1 ! l) \<and> nlink (itab s1 ! l) = 0)"
    using T1(4) [OF got(2,6)] j(3) got(4,5) by (metis on_disk_simps(3))
  have i1: "iref (itab s1 ! l) = refs s j + 1" using refs_entry [OF fs_okD(2) [OF got(3)] got(2,6)] got(5,7) by simp
  have r0: "iref (itab s ! l) = refs s j"
    using got(10) refs_entry [OF fs_okD(2) [OF ok] got(2)] by auto
  have o: "iref (itab s1 ! l) = 1 \<Longrightarrow> ilock_owner (itab s1 ! l) = None"
    using T(6) [OF got(2)] got(8) i1 r0 by simp
  obtain s2 where s2: "iput sb me l s1 = Inr s2" "fs_ok sb s2" "fdisk s2 = fdisk s1"
    "refs s2 = (refs s1)(inum (itab s1 ! l) := refs s1 (inum (itab s1 ! l)) - 1)"
    "itab s2 = (itab s1)[l := (itab s1 ! l)\<lparr>iref := iref (itab s1 ! l) - 1\<rparr>]"
    by (rule iput_keeps [OF got(3,2,6) n o, of me]) simp
  show ?thesis
  proof (rule that [OF got(1) s2(1,2)])
    show "fdisk s2 = fdisk s" "refs s2 = refs s" using s2(3,4) got(4,5,7) by simp_all
    fix m assume m: "m < NINODE"
    show "ilock_owner (itab s2 ! m) = ilock_owner (itab s ! m)"
      using m got(8,9) T1(1) unfolding s2(5) by (cases "m = l") simp_all
    assume a: "0 < iref (itab s ! m)"
    then show "iref (itab s2 ! m) = iref (itab s ! m) \<and> inum (itab s2 ! m) = inum (itab s ! m)"
      using m got(5,9,10) T1(1) i1 r0 unfolding s2(5) by (cases "m = l") auto
  qed
qed

lemma dirlink_effect:
  assumes ok: "fs_ok sb s" and k: "k < NINODE" "holding me k s" and t: "itype (itab s ! k) = T_DIR"
    and d: "16 dvd unat (isize (itab s ! k))" and n: "good_name name" and i: "0 < i" "i < 2 ^ 16"
    and room: "card {i. 0 < refs s i} < NINODE"
    and pr: "\<And>j. dir_of sb (fdisk s) (inum (itab s ! k)) name = Some j \<Longrightarrow>
      1 \<le> j \<and> j < ninodes sb \<and> nlink (dino sb (fdisk s) j) \<noteq> 0"
  shows "\<exists>r s'. dirlink sb me k name i s = Inr (r, s') \<and> fs_ok sb s' \<and> refs s' = refs s \<and> holding me k s' \<and>
    inum (itab s' ! k) = inum (itab s ! k) \<and> only_file sb (inum (itab s ! k)) (fdisk s) (fdisk s') \<and>
    (\<forall>m < NINODE. ilock_owner (itab s' ! m) = ilock_owner (itab s ! m) \<and>
       (0 < iref (itab s ! m) \<longrightarrow> iref (itab s' ! m) = iref (itab s ! m) \<and> inum (itab s' ! m) = inum (itab s ! m))) \<and>
    (case dir_of sb (fdisk s) (inum (itab s ! k)) name of
       Some j \<Rightarrow> r = -1 \<and> fdisk s' = fdisk s
     | None \<Rightarrow>
         itype (dino sb (fdisk s') (inum (itab s ! k))) = T_DIR \<and> 16 dvd unat (isize (dino sb (fdisk s') (inum (itab s ! k)))) \<and>
         nlink (dino sb (fdisk s') (inum (itab s ! k))) = nlink (dino sb (fdisk s) (inum (itab s ! k))) \<and>
        (if r = 0 then dir_of sb (fdisk s') (inum (itab s ! k)) = (dir_of sb (fdisk s) (inum (itab s ! k)))(name \<mapsto> i)
         else r = -1 \<and> dir_of sb (fdisk s') (inum (itab s ! k)) = dir_of sb (fdisk s) (inum (itab s ! k)) \<and>
           BSIZE dvd unat (isize (itab s ! k)) \<and>
           (free_blocks sb (fdisk s') = {} \<or> unat (isize (itab s ! k)) = MAXFILE * BSIZE)))"
proof -
  note C = held_dir [OF ok k] and h = held_entry [OF ok k]
  let ?ip = "itab s ! k" and ?c = "contents (fdisk s) (itab s ! k)"
  let ?es = "dir_entries ?c"
  have l: "k < length (itab s)" using k(1) table_okD(1) [OF fs_okD(2) [OF ok]] by simp
  note look = dirlookup_effect [OF ok k t d n, unfolded C(1)]
  show ?thesis
  proof (cases "dir_find ?es name")
    case (Some j)
    have dof: "dir_of sb (fdisk s) (inum ?ip) name = Some (fst (?es ! j))"
      unfolding C(2) entry_map_find [symmetric] using Some by simp
    show ?thesis
    proof (rule get_put [OF ok _ _ _ room, of "fst (?es ! j)" me])
      fix m s1 s2
      assume g: "iget (fst (?es ! j)) s = Inr (m, s1)" "iput sb me m s1 = Inr s2" "fs_ok sb s2" "fdisk s2 = fdisk s" "refs s2 = refs s"
        "\<And>m. m < NINODE \<Longrightarrow> ilock_owner (itab s2 ! m) = ilock_owner (itab s ! m)"
        "\<And>m. m < NINODE \<Longrightarrow> 0 < iref (itab s ! m) \<Longrightarrow> iref (itab s2 ! m) = iref (itab s ! m) \<and> inum (itab s2 ! m) = inum (itab s ! m)"
      have "dirlink sb me k name i s = Inr (-1, s2)" using look Some g(1,2) by (simp add: dirlink_def andthen_def)
      moreover have "holding me k s2" using k g(6) [OF k(1)] by (simp add: holding_def)
      ultimately show ?thesis using g(3,4,5,6,7) g(7) [OF k(1) h(1)] dof by (simp add: only_file_refl)
    qed (use pr [OF dof] in auto)
  next
    case None
    have dof: "entry_map ?es name = None" unfolding entry_map_find [symmetric] using None by simp
    obtain q where q: "unat (isize ?ip) = 16 * q" using d by blast
    have lc: "length ?c = 16 * q" "length ?es = q" using q by (simp_all add: contents_def dir_entries_def)
    define u where "u = unused_entry ?es"
    have u: "u \<le> q" "u < q \<Longrightarrow> fst (?es ! u) = 0" using unused_entry(1,2) [of ?es] lc by (simp_all add: u_def)
    have fr: "free_dirent sb (unat (isize ?ip)) 0 (fdisk s) ?ip = Inr (16 * u, fdisk s, ?ip)"
      using free_dirent_effect [OF entry_file_ok(1) [OF ok k(1) h] d, of 0] by (simp add: u_def)
    have uo: "16 * u \<le> unat (isize ?ip)" using u(1) q by simp
    note db = dirent_bytes_fields [OF n i(2)]
    show ?thesis
    proof (rule write_dirent_effect [OF ok k db(1) uo d])
      fix r dk ip
      let ?s = "upd_inode k (\<lambda>_. ip) (s\<lparr>fdisk := dk\<rparr>)"
      assume w: "write_dirent sb k (16 * u) (dirent_bytes name i) s = Inr (r, ?s)" "fs_ok sb ?s" "refs ?s = refs s"
        "only_file sb (inum ?ip) (fdisk s) dk" "ip = ?ip\<lparr>addrs := addrs ip, isize := isize ip\<rparr>"
        "contents dk ip = (if r = 16 then splice ?c (16 * u) (dirent_bytes name i) else ?c)"
        "r \<noteq> 16 \<Longrightarrow> 16 * u = MAXFILE * BSIZE \<or> free_blocks sb dk = {}"
        "r \<noteq> 16 \<Longrightarrow> 16 * u = unat (isize ?ip) \<and> BSIZE dvd 16 * u" "16 dvd unat (isize ip)"
      have e: "itab ?s ! k = ip" "fdisk ?s = dk" using l by simp_all
      have i2: "inum ip = inum ?ip" "ilock_owner ip = ilock_owner ?ip" "iref ip = iref ?ip"
        "itype ip = itype ?ip" "nlink ip = nlink ?ip" by (subst w(5); simp)+
      have hs: "holding me k ?s" using k(2) i2(2) unfolding holding_def e by simp
      have h2: "0 < iref (itab ?s ! k)" "valid (itab ?s ! k)" using held_entry [OF w(2) k(1) hs] by simp_all
      have "on_disk ip = on_disk (dino sb dk (inum ?ip))" "on_disk ?ip = on_disk (dino sb (fdisk s) (inum ?ip))"
        using table_okD(4) [OF fs_okD(2) [OF w(2)] k(1) h2] table_okD(4) [OF fs_okD(2) [OF ok] k(1) h] e i2(1) by simp_all
      note O = on_disk_cong [OF this(1)] and O0 = on_disk_cong [OF this(2)]
      have keep: "itype (dino sb dk (inum ?ip)) = T_DIR" "16 dvd unat (isize (dino sb dk (inum ?ip)))"
        "nlink (dino sb dk (inum ?ip)) = nlink (dino sb (fdisk s) (inum ?ip))"
        using O(6,7,8) O0(6,7) i2(4,5) t w(9) by simp_all
      have same: "ilock_owner (itab ?s ! m) = ilock_owner (itab s ! m) \<and> iref (itab ?s ! m) = iref (itab s ! m) \<and>
          inum (itab ?s ! m) = inum (itab s ! m)" for m
        using l i2 by (cases "m = k") simp_all
      have step: "dirlink sb me k name i s = Inr (if r \<noteq> 16 then -1 else 0, ?s)"
        using look None fr w(1) l by (simp add: dirlink_def andthen_def panics_def upd_inode_same)
      have D: "dir_of sb dk (inum ?ip) = entry_map (dir_entries (contents dk ip))"
        using held_dir(2) [OF w(2) k(1) hs] e i2(1) by simp
      have "entry_map (dir_entries (splice ?c (16 * u) (dirent_bytes name i))) = (entry_map ?es)(name \<mapsto> i)"
        unfolding dir_entries_splice [OF lc(1) u(1) db(1)] db(2,3)
        by (rule entry_map_fill [OF dof]) (use i u lc in auto)
      then show ?thesis
        using step w(2-4,6-8) hs D e i2(1) dof same keep unfolding C(2) by (cases "r = 16") auto
    qed
  qed
qed

text \<open>
  C9. \<open>dirlink\<close> as an update of the map that a directory is: a name that is present is refused with -1 and
  nothing changes; otherwise 0 means that the name is bound to the inode number and all other names are as
  before, and -1 that the directory is unchanged, its last block full, and no block free or the file at its
  greatest size. Neither panics, no other file changes, and no reference is left over.
\<close>

theorem dirlink_adds_name:
  assumes "fs_ok sb s" "k < NINODE" "holding me k s" "itype (itab s ! k) = T_DIR" "16 dvd unat (isize (itab s ! k))"
    and "good_name name" "0 < i" "i < 2 ^ 16" "card {i. 0 < refs s i} < NINODE"
    and "\<And>j. dir_of sb (fdisk s) (inum (itab s ! k)) name = Some j \<Longrightarrow>
      1 \<le> j \<and> j < ninodes sb \<and> nlink (dino sb (fdisk s) j) \<noteq> 0"
  shows "\<exists>r s'. dirlink sb me k name i s = Inr (r, s') \<and> fs_ok sb s' \<and> refs s' = refs s \<and> holding me k s' \<and>
    inum (itab s' ! k) = inum (itab s ! k) \<and> only_file sb (inum (itab s ! k)) (fdisk s) (fdisk s') \<and>
    (case dir_of sb (fdisk s) (inum (itab s ! k)) name of
       Some j \<Rightarrow> r = -1 \<and> fdisk s' = fdisk s
     | None \<Rightarrow>
         if r = 0 then dir_of sb (fdisk s') (inum (itab s ! k)) = (dir_of sb (fdisk s) (inum (itab s ! k)))(name \<mapsto> i)
         else r = -1 \<and> dir_of sb (fdisk s') (inum (itab s ! k)) = dir_of sb (fdisk s) (inum (itab s ! k)) \<and>
           BSIZE dvd unat (isize (itab s ! k)) \<and>
           (free_blocks sb (fdisk s') = {} \<or> unat (isize (itab s ! k)) = MAXFILE * BSIZE))"
proof -
  note E = dirlink_effect [OF assms]
  show ?thesis
    by (cases "dir_of sb (fdisk s) (inum (itab s ! k)) name"; use E in \<open>simp only: option.case; blast\<close>)
qed

lemma held_refs: "{i. 0 < refs held_fs i} = {1}"
proof -
  have "refs held_fs = refs home_fs"
    by (rule refs_cong) (simp add: held_fs_def home_fs_def tiny_fs_def iinit_def nth_list_update)
  then show ?thesis by (auto simp: home_refs)
qed

theorem dirlink_adds_name_witness:
  "\<exists>s'. dirlink small_sb 7 0 [120] 2 held_fs = Inr (0, s') \<and>
     dir_of small_sb (fdisk s') 1 = (dir_of small_sb tiny_disk 1)([120] \<mapsto> 2)"
proof -
  have e: "itab held_fs ! 0 = root_inode\<lparr>iref := 1, ilock_owner := Some 7\<rparr>" "fdisk held_fs = tiny_disk"
    by (simp_all add: held_fs_def tiny_fs_def iinit_def NINODE_def)
  have i: "inum (itab held_fs ! 0) = 1" "isize (itab held_fs ! 0) = 32" "itype (itab held_fs ! 0) = T_DIR" "holding 7 0 held_fs"
    by (simp_all add: e holding_def root_inode_def)
  have "0 < NINODE" "16 dvd unat (isize (itab held_fs ! 0))" "good_name [120]" "card {i. 0 < refs held_fs i} < NINODE"
    by (simp_all add: NINODE_def i held_refs good_name_def DIRSIZ_def)
  from dirlink_adds_name [OF held_ok this(1) i(4,3) this(2,3) _ _ this(4), of 2] show ?thesis
    unfolding i e(2) root_names(3) by (auto simp: BSIZE_eq split: if_splits)
qed

end
