(* ===== verification/XvSysfile.thy ===== *)
theory XvSysfile
  imports XvDir
begin

unbundle bit_operations_syntax

text \<open>
  The system calls on path names (\<open>sysfile.c\<close>) and reading and writing through an open file
  (\<open>file.c\<close>), on the file system of \<open>XvDir\<close>. A path argument is \<open>None\<close> when \<open>argstr\<close> fails. Every call
  is one transaction of the log (\<open>filewrite\<close>: one for each round), so \<open>begin_op\<close> and \<open>end_op\<close> are left out;
  there is one device.
\<close>

section \<open>Links\<close>

definition add_link :: "superblock \<Rightarrow> 16 word \<Rightarrow> nat \<Rightarrow> fs \<Rightarrow> fs" where
  "add_link sb d k s = update_at sb k (upd_inode k (\<lambda>i. i\<lparr>nlink := nlink i + d\<rparr>) s)"

text \<open>The label \<open>bad\<close> of \<open>sys_link\<close>.\<close>

definition undo_link :: "superblock \<Rightarrow> int \<Rightarrow> nat \<Rightarrow> fs \<Rightarrow> halt + int \<times> fs" where
  "undo_link sb me k s =
     andthen (ilock sb me k s) (\<lambda>s. andthen (iunlockput sb me k (add_link sb (-1) k s)) (\<lambda>s. Inr (-1, s)))"

definition sys_link :: "superblock \<Rightarrow> int \<Rightarrow> nat \<Rightarrow> byte list option \<Rightarrow> byte list option \<Rightarrow> fs \<Rightarrow> halt + int \<times> fs" where
  "sys_link sb me cwd old new s =
     (case (old, new) of
        (Some old, Some new) \<Rightarrow>
          andthen (namei sb me cwd old s) (\<lambda>(r, s).
            case r of
              None \<Rightarrow> Inr (-1, s)
            | Some k \<Rightarrow>
                andthen (ilock sb me k s) (\<lambda>s.
                  if itype (itab s ! k) = T_DIR then andthen (iunlockput sb me k s) (\<lambda>s. Inr (-1, s))
                  else andthen (iunlock me k (add_link sb 1 k s)) (\<lambda>s.
                    andthen (nameiparent sb me cwd new s) (\<lambda>(r, s).
                      case r of
                        None \<Rightarrow> undo_link sb me k s
                      | Some (dp, name) \<Rightarrow>
                          andthen (ilock sb me dp s) (\<lambda>s.
                            andthen (dirlink sb me dp name (inum (itab s ! k)) s) (\<lambda>(r, s).
                              andthen (iunlockput sb me dp s) (\<lambda>s.
                                if r < 0 then undo_link sb me k s
                                else andthen (iput sb me k s) (\<lambda>s. Inr (0, s)))))))))
      | _ \<Rightarrow> Inr (-1, s))"

function isdirempty_loop :: "superblock \<Rightarrow> nat \<Rightarrow> nat \<Rightarrow> disk \<Rightarrow> inode \<Rightarrow> string + bool \<times> disk \<times> inode" where
  "isdirempty_loop sb n off dk ip =
     (if off < n
      then (case read_dirent ''isdirempty: readi'' sb off dk ip of
              Inl e \<Rightarrow> Inl e
            | Inr (de, dk, ip) \<Rightarrow> if de_inum de \<noteq> 0 then Inr (False, dk, ip) else isdirempty_loop sb n (off + 16) dk ip)
      else Inr (True, dk, ip))"
  by pat_completeness auto
termination by (relation "measure (\<lambda>(sb, n, off, dk, ip). n - off)") auto

declare isdirempty_loop.simps [simp del]

definition isdirempty :: "superblock \<Rightarrow> nat \<Rightarrow> fs \<Rightarrow> halt + bool \<times> fs" where
  "isdirempty sb k s =
     andthen (panics (isdirempty_loop sb (unat (isize (itab s ! k))) 32 (fdisk s) (itab s ! k)))
       (\<lambda>(r, dk, ip). Inr (r, upd_inode k (\<lambda>_. ip) (s\<lparr>fdisk := dk\<rparr>)))"

definition dot :: name where "dot = [46]"
definition dotdot :: name where "dotdot = [46, 46]"

definition sys_unlink :: "superblock \<Rightarrow> int \<Rightarrow> nat \<Rightarrow> byte list option \<Rightarrow> fs \<Rightarrow> halt + int \<times> fs" where
  "sys_unlink sb me cwd path s =
     (case path of
        None \<Rightarrow> Inr (-1, s)
      | Some path \<Rightarrow>
          andthen (nameiparent sb me cwd path s) (\<lambda>(r, s).
            case r of
              None \<Rightarrow> Inr (-1, s)
            | Some (dp, name) \<Rightarrow>
                let bad = (\<lambda>s. andthen (iunlockput sb me dp s) (\<lambda>s. Inr (-1, s))) in
                andthen (ilock sb me dp s) (\<lambda>s.
                  if namecmp name dot \<or> namecmp name dotdot then bad s
                  else andthen (dirlookup sb dp name s) (\<lambda>(r, s).
                    case r of
                      None \<Rightarrow> bad s
                    | Some (k, off) \<Rightarrow>
                        andthen (ilock sb me k s) (\<lambda>s.
                          if sint (nlink (itab s ! k)) < 1 then Inl (Panic ''unlink: nlink < 1'')
                          else andthen (if itype (itab s ! k) = T_DIR then isdirempty sb k s else Inr (True, s)) (\<lambda>(empty, s).
                            if \<not> empty then andthen (iunlockput sb me k s) bad
                            else andthen (write_dirent sb dp off (replicate 16 0) s) (\<lambda>(r, s).
                              if r \<noteq> 16 then Inl (Panic ''unlink: writei'')
                              else andthen (iunlockput sb me dp (if itype (itab s ! k) = T_DIR then add_link sb (-1) dp s else s)) (\<lambda>s.
                                andthen (iunlockput sb me k (add_link sb (-1) k s)) (\<lambda>s. Inr (0, s))))))))))"

section \<open>New inodes\<close>

text \<open>The label \<open>fail\<close> of \<open>create\<close>.\<close>

definition undo_create :: "superblock \<Rightarrow> int \<Rightarrow> nat \<Rightarrow> nat \<Rightarrow> fs \<Rightarrow> halt + nat option \<times> fs" where
  "undo_create sb me dp k s =
     andthen (iunlockput sb me k (update_at sb k (upd_inode k (\<lambda>i. i\<lparr>nlink := 0\<rparr>) s)))
       (\<lambda>s. andthen (iunlockput sb me dp s) (\<lambda>s. Inr (None, s)))"

text \<open>\<open>dirlink(ip, ".", ip->inum) < 0 || dirlink(ip, "..", dp->inum) < 0\<close>, for a directory.\<close>

definition link_dots :: "superblock \<Rightarrow> int \<Rightarrow> nat \<Rightarrow> nat \<Rightarrow> fs \<Rightarrow> halt + bool \<times> fs" where
  "link_dots sb me dp k s =
     andthen (dirlink sb me k dot (inum (itab s ! k)) s) (\<lambda>(r, s).
       if r < 0 then Inr (False, s)
       else andthen (dirlink sb me k dotdot (inum (itab s ! dp)) s) (\<lambda>(r, s). Inr (\<not> r < 0, s)))"

text \<open>The inode that \<open>create\<close> returns is locked.\<close>

definition create :: "superblock \<Rightarrow> int \<Rightarrow> nat \<Rightarrow> byte list \<Rightarrow> 16 word \<Rightarrow> 16 word \<Rightarrow> 16 word \<Rightarrow> fs \<Rightarrow> halt + nat option \<times> fs" where
  "create sb me cwd path type maj mnr s =
     andthen (nameiparent sb me cwd path s) (\<lambda>(r, s).
       case r of
         None \<Rightarrow> Inr (None, s)
       | Some (dp, name) \<Rightarrow>
           andthen (ilock sb me dp s) (\<lambda>s. andthen (dirlookup sb dp name s) (\<lambda>(r, s).
             case r of
               Some (k, _) \<Rightarrow>
                 andthen (iunlockput sb me dp s) (\<lambda>s. andthen (ilock sb me k s) (\<lambda>s.
                   if type = T_FILE \<and> (itype (itab s ! k) = T_FILE \<or> itype (itab s ! k) = T_DEVICE) then Inr (Some k, s)
                   else andthen (iunlockput sb me k s) (\<lambda>s. Inr (None, s))))
             | None \<Rightarrow>
                 andthen (ialloc sb type s) (\<lambda>r.
                   case r of
                     None \<Rightarrow> andthen (iunlockput sb me dp s) (\<lambda>s. Inr (None, s))
                   | Some (k, s) \<Rightarrow>
                       andthen (ilock sb me k s) (\<lambda>s.
                         let s = update_at sb k (upd_inode k (\<lambda>i. i\<lparr>major := maj, minor := mnr, nlink := 1\<rparr>) s) in
                         andthen (if type = T_DIR then link_dots sb me dp k s else Inr (True, s)) (\<lambda>(ok, s).
                           if \<not> ok then undo_create sb me dp k s
                           else andthen (dirlink sb me dp name (inum (itab s ! k)) s) (\<lambda>(r, s).
                             if r < 0 then undo_create sb me dp k s
                             else andthen (iunlockput sb me dp (if type = T_DIR then add_link sb 1 dp s else s))
                               (\<lambda>s. Inr (Some k, s)))))))))"

text \<open>\<open>sys_mkdir\<close> and \<open>sys_mknod\<close> differ in the type and the numbers.\<close>

definition make_inode :: "16 word \<Rightarrow> 16 word \<Rightarrow> 16 word \<Rightarrow> superblock \<Rightarrow> int \<Rightarrow> nat \<Rightarrow> byte list option \<Rightarrow> fs \<Rightarrow> halt + int \<times> fs" where
  "make_inode type maj mnr sb me cwd path s =
     (case path of
        None \<Rightarrow> Inr (-1, s)
      | Some path \<Rightarrow> andthen (create sb me cwd path type maj mnr s) (\<lambda>(r, s).
          case r of None \<Rightarrow> Inr (-1, s) | Some k \<Rightarrow> andthen (iunlockput sb me k s) (\<lambda>s. Inr (0, s))))"

definition sys_mkdir :: "superblock \<Rightarrow> int \<Rightarrow> nat \<Rightarrow> byte list option \<Rightarrow> fs \<Rightarrow> halt + int \<times> fs" where
  "sys_mkdir = make_inode T_DIR 0 0"

definition sys_mknod :: "32 word \<Rightarrow> 32 word \<Rightarrow> superblock \<Rightarrow> int \<Rightarrow> nat \<Rightarrow> byte list option \<Rightarrow> fs \<Rightarrow> halt + int \<times> fs" where
  "sys_mknod maj mnr = make_inode T_DEVICE (ucast maj) (ucast mnr)"

text \<open>\<open>sys_chdir\<close> returns the current directory, too.\<close>

definition sys_chdir :: "superblock \<Rightarrow> int \<Rightarrow> nat \<Rightarrow> byte list option \<Rightarrow> fs \<Rightarrow> halt + int \<times> nat \<times> fs" where
  "sys_chdir sb me cwd path s =
     (case path of
        None \<Rightarrow> Inr (-1, cwd, s)
      | Some path \<Rightarrow> andthen (namei sb me cwd path s) (\<lambda>(r, s).
          case r of
            None \<Rightarrow> Inr (-1, cwd, s)
          | Some k \<Rightarrow> andthen (ilock sb me k s) (\<lambda>s.
              if itype (itab s ! k) \<noteq> T_DIR then andthen (iunlockput sb me k s) (\<lambda>s. Inr (-1, cwd, s))
              else andthen (iunlock me k s) (\<lambda>s. andthen (iput sb me cwd s) (\<lambda>s. Inr (0, k, s))))))"

section \<open>Opening\<close>

definition O_RDONLY :: "32 word" where "O_RDONLY = 0"
definition O_CREATE :: "32 word" where "O_CREATE = 0x200"
definition O_TRUNC :: "32 word" where "O_TRUNC = 0x400"
definition NDEV :: int where "NDEV = 10"

text \<open>\<open>sys_open\<close> up to the allocation of the file: the inode, locked, or none when it returns -1.\<close>

definition open_inode :: "superblock \<Rightarrow> int \<Rightarrow> nat \<Rightarrow> byte list option \<Rightarrow> 32 word \<Rightarrow> fs \<Rightarrow> halt + nat option \<times> fs" where
  "open_inode sb me cwd path omode s =
     (case path of
        None \<Rightarrow> Inr (None, s)
      | Some path \<Rightarrow>
          andthen
            (if omode AND O_CREATE \<noteq> 0 then create sb me cwd path T_FILE 0 0 s
             else andthen (namei sb me cwd path s) (\<lambda>(r, s).
               case r of
                 None \<Rightarrow> Inr (None, s)
               | Some k \<Rightarrow> andthen (ilock sb me k s) (\<lambda>s.
                   if itype (itab s ! k) = T_DIR \<and> omode \<noteq> O_RDONLY then andthen (iunlockput sb me k s) (\<lambda>s. Inr (None, s))
                   else Inr (Some k, s))))
            (\<lambda>(r, s).
               case r of
                 None \<Rightarrow> Inr (None, s)
               | Some k \<Rightarrow>
                   let m = major (itab s ! k) in
                   if itype (itab s ! k) = T_DEVICE \<and> (sint m < 0 \<or> sint m \<ge> NDEV)
                   then andthen (iunlockput sb me k s) (\<lambda>s. Inr (None, s))
                   else Inr (Some k, s)))"

text \<open>The rest of \<open>sys_open\<close>, once it has a file and a descriptor.\<close>

definition open_done :: "superblock \<Rightarrow> int \<Rightarrow> nat \<Rightarrow> 32 word \<Rightarrow> fs \<Rightarrow> halt + fs" where
  "open_done sb me k omode s =
     andthen (if omode AND O_TRUNC \<noteq> 0 \<and> itype (itab s ! k) = T_FILE then itrunc_at sb k s else Inr s) (iunlock me k)"

section \<open>Reading and writing\<close>

text \<open>An open file that is an inode (\<open>FD_INODE\<close>). Pipes and devices are in \<open>XvPipe\<close> and \<open>XvConsole\<close>.\<close>

record ifile =
  f_ip :: nat
  f_off :: "32 word"
  f_readable :: bool
  f_writable :: bool

definition filestat :: "superblock \<Rightarrow> int \<Rightarrow> ifile \<Rightarrow> fs \<Rightarrow> halt + stat \<times> fs" where
  "filestat sb me f s =
     andthen (ilock sb me (f_ip f) s) (\<lambda>s.
       let st = stati 1 (itab s ! f_ip f) in andthen (iunlock me (f_ip f) s) (\<lambda>s. Inr (st, s)))"

definition fileread :: "(64 word \<Rightarrow> byte list \<Rightarrow> 'm \<Rightarrow> bool \<times> 'm) \<Rightarrow> superblock \<Rightarrow> int \<Rightarrow> ifile \<Rightarrow> 64 word \<Rightarrow> 32 word \<Rightarrow> fs \<Rightarrow> 'm \<Rightarrow>
    halt + int \<times> ifile \<times> fs \<times> 'm" where
  "fileread cpout sb me f addr n s mem =
     (if \<not> f_readable f then Inr (-1, f, s, mem)
      else andthen (ilock sb me (f_ip f) s) (\<lambda>s.
        andthen (panics (readi cpout sb addr (f_off f) n (fdisk s) (itab s ! f_ip f) mem)) (\<lambda>(r, dk, ip, mem).
          let f' = (if r > 0 then f\<lparr>f_off := f_off f + of_int r\<rparr> else f) in
          andthen (iunlock me (f_ip f) (upd_inode (f_ip f) (\<lambda>_. ip) (s\<lparr>fdisk := dk\<rparr>)))
            (\<lambda>s. Inr (r, f', s, mem)))))"

definition MAXOPBLOCKS :: nat where "MAXOPBLOCKS = 10"

definition max_write :: nat where "max_write = (MAXOPBLOCKS - 1 - 1 - 2) div 2 * BSIZE"

text \<open>A round of \<open>filewrite\<close>, one transaction, and the loop: how far it comes, the file and the state.\<close>

definition write_round :: "(64 word \<Rightarrow> nat \<Rightarrow> 'm \<Rightarrow> bool \<times> byte list) \<Rightarrow> superblock \<Rightarrow> int \<Rightarrow> ifile \<Rightarrow> 64 word \<Rightarrow> nat \<Rightarrow> fs \<Rightarrow> 'm \<Rightarrow>
    halt + int \<times> ifile \<times> fs" where
  "write_round cpin sb me f addr n s mem =
     andthen (ilock sb me (f_ip f) s) (\<lambda>s.
       andthen (panics (writei cpin sb addr (f_off f) (of_nat n) (fdisk s) (itab s ! f_ip f) mem)) (\<lambda>(r, dk, ip).
         let f' = (if r > 0 then f\<lparr>f_off := f_off f + of_int r\<rparr> else f) in
         andthen (iunlock me (f_ip f) (upd_inode (f_ip f) (\<lambda>_. ip) (s\<lparr>fdisk := dk\<rparr>))) (\<lambda>s. Inr (r, f', s))))"

function filewrite_loop :: "(64 word \<Rightarrow> nat \<Rightarrow> 'm \<Rightarrow> bool \<times> byte list) \<Rightarrow> superblock \<Rightarrow> int \<Rightarrow> nat \<Rightarrow> nat \<Rightarrow> ifile \<Rightarrow> 64 word \<Rightarrow> fs \<Rightarrow> 'm \<Rightarrow>
    halt + nat \<times> ifile \<times> fs" where
  "filewrite_loop cpin sb me n i f addr s mem =
     (if i < n
      then let n1 = min (n - i) max_write in
        andthen (write_round cpin sb me f (addr + of_nat i) n1 s mem) (\<lambda>(r, f, s).
          if r \<noteq> int n1 then Inr (i, f, s) else filewrite_loop cpin sb me n (i + n1) f addr s mem)
      else Inr (i, f, s))"
  by pat_completeness auto
termination
  by (relation "measure (\<lambda>(cpin, sb, me, n, i, f, addr, s, mem). n - i)")
    (auto simp: max_write_def MAXOPBLOCKS_def BSIZE_eq min_def)

declare filewrite_loop.simps [simp del]

text \<open>A negative \<open>n\<close> makes no round and returns -1.\<close>

definition filewrite :: "(64 word \<Rightarrow> nat \<Rightarrow> 'm \<Rightarrow> bool \<times> byte list) \<Rightarrow> superblock \<Rightarrow> int \<Rightarrow> ifile \<Rightarrow> 64 word \<Rightarrow> 32 word \<Rightarrow> fs \<Rightarrow> 'm \<Rightarrow>
    halt + int \<times> ifile \<times> fs" where
  "filewrite cpin sb me f addr n s mem =
     (if \<not> f_writable f then Inr (-1, f, s)
      else if sint n < 0 then Inr (-1, f, s)
      else andthen (filewrite_loop cpin sb me (nat (sint n)) 0 f addr s mem) (\<lambda>(i, f, s).
        Inr (if i = nat (sint n) then sint n else -1, f, s)))"

section \<open>Writing in rounds\<close>

text \<open>Locking, changing and unlocking an inode.\<close>

lemma kget_append:
  "kget a m mem @ kget (a + of_nat m) n mem = kget a (m + n) mem"
  by (rule nth_equalityI) (auto simp: kget_def nth_append add.assoc simp flip: of_nat_add)

lemma splice_splice: "length xs + o1 \<le> length (splice d o1 xs) \<Longrightarrow> o1 \<le> length d \<Longrightarrow>
    splice (splice d o1 xs) (o1 + length xs) ys = splice d o1 (xs @ ys)"
  by (simp add: splice_def add.commute add.left_commute)

lemma write_round_effect:
  assumes ok: "fs_ok sb s" and k: "f_ip f < NINODE" "0 < iref (itab s ! f_ip f)" "ilock_owner (itab s ! f_ip f) = None"
    and a: "allocated sb (fdisk s) (inum (itab s ! f_ip f))"
  defines "i \<equiv> inum (itab s ! f_ip f)"
  defines "c \<equiv> contents (fdisk s) (dino sb (fdisk s) i)"
  assumes o: "unat (f_off f) \<le> length c" "unat (f_off f) + n \<le> MAXFILE * BSIZE"
  shows "\<exists>m s'. write_round kcopyin sb me f addr n s mem = Inr (int m, f\<lparr>f_off := f_off f + of_nat m\<rparr>, s') \<and>
    m \<le> n \<and> (m < n \<longrightarrow> free_blocks sb (fdisk s') = {}) \<and> fs_ok sb s' \<and> refs s' = refs s \<and> only_file sb i (fdisk s) (fdisk s') \<and>
    inum (itab s' ! f_ip f) = i \<and> 0 < iref (itab s' ! f_ip f) \<and> ilock_owner (itab s' ! f_ip f) = None \<and>
    allocated sb (fdisk s') i \<and>
    contents (fdisk s') (dino sb (fdisk s') i) = splice c (unat (f_off f)) (kget addr m mem)"
proof -
  let ?k = "f_ip f"
  have l: "?k < length (itab s)" using k(1) table_okD(1) [OF fs_okD(2) [OF ok]] by simp
  show ?thesis
  proof (rule ilock_effect [OF ok k a, of me])
    fix e
    assume e: "ilock sb me ?k s = Inr (upd_inode ?k (\<lambda>_. e) s)" "inum e = inum (itab s ! ?k)" "iref e = iref (itab s ! ?k)"
      "ilock_owner e = Some me" "valid e" "on_disk e = dino sb (fdisk s) (inum e)" "fs_ok sb (upd_inode ?k (\<lambda>_. e) s)"
      "refs (upd_inode ?k (\<lambda>_. e) s) = refs s"
    let ?s = "upd_inode ?k (\<lambda>_. e) s"
    have se: "itab ?s ! ?k = e" "fdisk ?s = fdisk s" using l by simp_all
    have h: "holding me ?k ?s" "0 < iref (itab ?s ! ?k)" "valid (itab ?s ! ?k)" using e(3,4,5) k(2) by (simp_all add: holding_def se)
    note E = entry_file_ok [OF e(7) k(1) h(2,3)] and F = file_okD [OF E(1)]
    have ce: "contents (fdisk s) e = c" using held_dir(1) [OF e(7) k(1) h(1)] e(2) by (simp add: se c_def i_def)
    have lc: "length c = unat (isize e)" unfolding ce [symmetric] by (simp add: contents_def)
    have sz: "unat (isize e) \<le> 274432" using F(3) se by (simp add: MAXFILE_eq BSIZE_eq)
    have on: "unat (f_off f) + n \<le> 274432" using o(2) by (simp add: MAXFILE_eq BSIZE_eq)
    have u: "unat (of_nat n :: 32 word) = n" using on by (intro unat_small) simp
    have un: "unat (f_off f + of_nat n) = unat (f_off f) + n" using on u by (subst unat_add_lem [THEN iffD1]) simp_all
    have w: "f_off f \<le> isize (itab ?s ! ?k)" "f_off f \<le> f_off f + of_nat n" "unat (f_off f + of_nat n) \<le> MAXFILE * BSIZE"
      using o lc un by (simp_all add: word_le_nat_alt se)
    show ?thesis
    proof (rule kernel_writei [OF E(1,5) w, where src = addr and mem = mem])
      fix m dk ip
      assume r: "writei kcopyin sb addr (f_off f) (of_nat n) (fdisk ?s) (itab ?s ! ?k) mem = Inr (int m, dk, ip)"
        "m \<le> unat (of_nat n :: 32 word)" "m < unat (of_nat n :: 32 word) \<Longrightarrow> free_blocks sb dk = {}"
        "contents dk ip = splice (contents (fdisk ?s) (itab ?s ! ?k)) (unat (f_off f)) (kget addr m mem)"
      have "int m \<noteq> - 1" by simp
      then have c: "changes sb (fdisk s) i dk ip" "ip = e\<lparr>addrs := addrs ip, isize := isize ip\<rparr>"
        using ksource.writei_changes [OF e(7) k(1) h(2,3), of addr "f_off f" "of_nat n" mem] r(1) e(2) by (auto simp: se i_def)
      have ip: "inum ip = i" "iref ip = iref (itab s ! ?k)" "ilock_owner ip = Some me" "valid ip" "itype ip = itype e"
        using e(2-5) by (subst c(2), simp add: i_def)+
      let ?s1 = "upd_inode ?k (\<lambda>_. ip) (?s\<lparr>fdisk := dk\<rparr>)"
      have s1: "itab ?s1 ! ?k = ip" "fdisk ?s1 = dk" using l by simp_all
      have S: "fs_ok sb ?s1" by (rule held_change [OF e(7) k(1) h(1)]) (use c(1) ip e(2,3) in \<open>simp_all add: se i_def\<close>)
      have R: "refs ?s1 = refs s"
        by (subst e(8) [symmetric], rule refs_cong) (use l e(2,3) ip in \<open>simp add: i_def\<close>)
      note U = iunlock_effect [OF S k(1), of me, unfolded s1, OF _ ip(3)]
      let ?s2 = "upd_inode ?k (\<lambda>_. ip\<lparr>ilock_owner := None\<rparr>) ?s1"
      have s2: "itab ?s2 ! ?k = ip\<lparr>ilock_owner := None\<rparr>" "fdisk ?s2 = dk" using l by simp_all
      have p: "0 < iref ip" using ip(2) k(2) by simp
      have "write_round kcopyin sb me f addr n s mem = Inr (int m, f\<lparr>f_off := f_off f + of_nat m\<rparr>, ?s2)"
        using e(1) r(1) U(1) [OF p] by (simp add: write_round_def andthen_def panics_def Let_def)
      moreover have al: "allocated sb dk i" using changed_allocated [OF c(1), of i] ip(5) E(4) by (simp add: se)
      moreover have "contents dk (dino sb dk i) = splice c (unat (f_off f)) (kget addr m mem)"
        unfolding changed_dino [OF c(1)] using r(4) ce on_disk_cong(4) [of "on_disk ip" ip dk] by (simp add: se)
      ultimately show ?thesis using U(2,3) [OF p] R r(2,3) u s2 ip(1) p changes_only [OF c(1)]
        by (intro exI [of _ m] exI [of _ ?s2]) simp
    qed
  qed
qed

lemma filewrite_loop_effect:
  assumes "fs_ok sb s" "f_ip f < NINODE" "0 < iref (itab s ! f_ip f)" "ilock_owner (itab s ! f_ip f) = None"
    and "inum (itab s ! f_ip f) = ino" "allocated sb (fdisk s) ino" "contents (fdisk s) (dino sb (fdisk s) ino) = c"
    and "unat (f_off f) \<le> length c" "unat (f_off f) + (n - i) \<le> MAXFILE * BSIZE" "i \<le> n"
  shows "\<exists>t j s'. filewrite_loop kcopyin sb me n i f addr s mem = Inr (j, f\<lparr>f_off := f_off f + of_nat t\<rparr>, s') \<and>
    (j = n \<and> i + t = n \<or> j < n \<and> i + t < n \<and> free_blocks sb (fdisk s') = {}) \<and>
    fs_ok sb s' \<and> refs s' = refs s \<and> only_file sb ino (fdisk s) (fdisk s') \<and>
    contents (fdisk s') (dino sb (fdisk s') ino) = splice c (unat (f_off f)) (kget (addr + of_nat i) t mem)"
  using assms
proof (induction "n - i" arbitrary: i f s c rule: less_induct)
  case less
  let ?n1 = "min (n - i) max_write"
  note P = less.prems
  show ?case
  proof (cases "i < n")
    case False
    then have i: "i = n" using P(10) by simp
    then have "filewrite_loop kcopyin sb me n i f addr s mem = Inr (n, f, s)" by (subst filewrite_loop.simps) simp
    moreover have "splice c (unat (f_off f)) (kget (addr + of_nat i) 0 mem) = c" by (simp add: kget_def splice_def)
    ultimately show ?thesis using P(1,7) i by (intro exI [of _ 0] exI [of _ n] exI [of _ s]) (simp add: only_file_refl)
  next
    case True
    have mw: "0 < max_write" by (simp add: max_write_def MAXOPBLOCKS_def BSIZE_eq)
    have al: "allocated sb (fdisk s) (inum (itab s ! f_ip f))" using P(5,6) by simp
    have o: "unat (f_off f) \<le> length (contents (fdisk s) (dino sb (fdisk s) (inum (itab s ! f_ip f))))"
      "unat (f_off f) + ?n1 \<le> MAXFILE * BSIZE" using P(5,7,8,9) by auto
    from write_round_effect [OF P(1-4) al o, of me "addr + of_nat i" mem] obtain m s1 where
      w: "write_round kcopyin sb me f (addr + of_nat i) ?n1 s mem = Inr (int m, f\<lparr>f_off := f_off f + of_nat m\<rparr>, s1)"
      "m \<le> ?n1" "m < ?n1 \<Longrightarrow> free_blocks sb (fdisk s1) = {}" "fs_ok sb s1" "refs s1 = refs s" "only_file sb ino (fdisk s) (fdisk s1)"
      "inum (itab s1 ! f_ip f) = ino" "0 < iref (itab s1 ! f_ip f)" "ilock_owner (itab s1 ! f_ip f) = None" "allocated sb (fdisk s1) ino"
      "contents (fdisk s1) (dino sb (fdisk s1) ino) = splice c (unat (f_off f)) (kget (addr + of_nat i) m mem)"
      unfolding P(5,7) by blast
    show ?thesis
    proof (cases "m = ?n1")
      case False
      then have "filewrite_loop kcopyin sb me n i f addr s mem = Inr (i, f\<lparr>f_off := f_off f + of_nat m\<rparr>, s1)"
        using w(1) True by (subst filewrite_loop.simps) (simp add: andthen_def Let_def)
      moreover have lt: "m < ?n1" using False w(2) by (rule le_neq_trans [rotated])
      moreover have "i + m < n" using lt by linarith
      ultimately show ?thesis using w(3) [OF lt] w(4-6,11) True by blast
    next
      case m: True
      let ?f = "f\<lparr>f_off := f_off f + of_nat m\<rparr>"
      let ?c = "splice c (unat (f_off f)) (kget (addr + of_nat i) m mem)"
      have step: "filewrite_loop kcopyin sb me n i f addr s mem = filewrite_loop kcopyin sb me n (i + m) ?f addr s1 mem"
        using w(1) True unfolding m by (subst filewrite_loop.simps) (simp add: andthen_def Let_def)
      have mi: "0 < m" "m \<le> n - i" using m True mw by auto
      have on: "unat (f_off f) + (n - i) \<le> 274432" using P(9) by (simp add: MAXFILE_eq BSIZE_eq)
      have um: "unat (of_nat m :: 32 word) = m" using mi on by (intro unat_small) simp
      then have uf: "unat (f_off ?f) = unat (f_off f) + m" using mi on by (simp, subst unat_add_lem [THEN iffD1]) simp_all
      have lk: "length (kget (addr + of_nat i) m mem) = m" by (simp add: kget_def)
      have lc: "length ?c = max (length c) (unat (f_off f) + m)" using P(8) lk by (simp add: splice_def)
      have r: "unat (f_off ?f) \<le> length ?c" "unat (f_off ?f) + (n - (i + m)) \<le> MAXFILE * BSIZE" "i + m \<le> n"
        unfolding uf lc using P(9) mi by simp_all
      have lt: "n - (i + m) < n - i" using mi by simp
      have fi: "f_ip ?f = f_ip f" by simp
      from less.hyps [OF lt w(4), of ?f, unfolded fi, OF P(2) w(8,9,7,10,11) r] obtain t j s' where
        q: "filewrite_loop kcopyin sb me n (i + m) ?f addr s1 mem = Inr (j, ?f\<lparr>f_off := f_off ?f + of_nat t\<rparr>, s')"
        "j = n \<and> i + m + t = n \<or> j < n \<and> i + m + t < n \<and> free_blocks sb (fdisk s') = {}"
        "fs_ok sb s'" "refs s' = refs s1" "only_file sb ino (fdisk s1) (fdisk s')"
        "contents (fdisk s') (dino sb (fdisk s') ino) = splice ?c (unat (f_off ?f)) (kget (addr + of_nat (i + m)) t mem)"
        by blast
      have "contents (fdisk s') (dino sb (fdisk s') ino) = splice c (unat (f_off f)) (kget (addr + of_nat i) (m + t) mem)"
      proof -
        have "splice ?c (unat (f_off f) + m) ys = splice c (unat (f_off f)) (kget (addr + of_nat i) m mem @ ys)" for ys
          using splice_splice [of "kget (addr + of_nat i) m mem" "unat (f_off f)" c ys] lk lc P(8) by simp
        then show ?thesis unfolding q(6) uf using kget_append [of "addr + of_nat i" m mem t] by (simp add: add.assoc)
      qed
      moreover have "?f\<lparr>f_off := f_off ?f + of_nat t\<rparr> = f\<lparr>f_off := f_off f + of_nat (m + t)\<rparr>" by (simp add: add.assoc)
      moreover have "j = n \<and> i + (m + t) = n \<or> j < n \<and> i + (m + t) < n \<and> free_blocks sb (fdisk s') = {}"
        using q(2) by (simp add: add.assoc)
      ultimately show ?thesis
        using step q(1,3,4) w(5) only_file_trans [OF w(6) q(5)] by (intro exI [of _ "m + t"] exI [of _ j] exI [of _ s']) simp
    qed
  qed
qed


section \<open>Steps of the calls\<close>

text \<open>Locking an inode that exists; what is in memory is then what the disk has.\<close>

lemma lock_effect:
  assumes ok: "fs_ok sb s" and k: "k < NINODE" "0 < iref (itab s ! k)" "ilock_owner (itab s ! k) = None"
    and a: "allocated sb (fdisk s) (inum (itab s ! k))"
  obtains s' where "ilock sb me k s = Inr s'" "fs_ok sb s'" "fdisk s' = fdisk s" "refs s' = refs s" "holding me k s'"
    "inum (itab s' ! k) = inum (itab s ! k)" "iref (itab s' ! k) = iref (itab s ! k)"
    "\<And>l. l < NINODE \<Longrightarrow> l \<noteq> k \<Longrightarrow> itab s' ! l = itab s ! l"
    "on_disk (itab s' ! k) = on_disk (dino sb (fdisk s) (inum (itab s ! k)))"
proof (rule ilock_effect [OF ok k a, of me])
  fix e
  assume e: "ilock sb me k s = Inr (upd_inode k (\<lambda>_. e) s)" "inum e = inum (itab s ! k)" "iref e = iref (itab s ! k)"
    "ilock_owner e = Some me" "valid e" "on_disk e = dino sb (fdisk s) (inum e)" "fs_ok sb (upd_inode k (\<lambda>_. e) s)"
    "refs (upd_inode k (\<lambda>_. e) s) = refs s"
  have l: "k < length (itab s)" using k(1) table_okD(1) [OF fs_okD(2) [OF ok]] by simp
  show ?thesis by (rule that [OF e(1,7)]) (use e l in \<open>simp_all add: holding_def\<close>)
qed

text \<open>A held inode says what the disk has.\<close>

lemma held_disk:
  assumes "fs_ok sb s" "k < NINODE" "holding me k s"
  shows "on_disk (itab s ! k) = on_disk (dino sb (fdisk s) (inum (itab s ! k)))"
    "allocated sb (fdisk s) (inum (itab s ! k))" "ilock_owner (itab s ! k) = Some me"
  using table_okD(4,5) [OF fs_okD(2) [OF assms(1)] assms(2) held_entry [OF assms]] assms(3) by (simp_all add: holding_def)

text \<open>A change of the link count that is written back.\<close>

lemma set_link_effect:
  assumes ok: "fs_ok sb s" and k: "k < NINODE" "holding me k s"
    and s': "s' = update_at sb k (upd_inode k (\<lambda>ip. ip\<lparr>major := a, minor := b, nlink := c\<rparr>) s)"
  shows "fs_ok sb s'" "refs s' = refs s" "holding me k s'" "inum (itab s' ! k) = inum (itab s ! k)"
    "iref (itab s' ! k) = iref (itab s ! k)" "\<And>l. l < NINODE \<Longrightarrow> l \<noteq> k \<Longrightarrow> itab s' ! l = itab s ! l"
    "only_file sb (inum (itab s ! k)) (fdisk s) (fdisk s')"
    "dino sb (fdisk s') (inum (itab s ! k)) = (dino sb (fdisk s) (inum (itab s ! k)))\<lparr>major := a, minor := b, nlink := c\<rparr>"
    "contents (fdisk s') (dino sb (fdisk s') (inum (itab s ! k))) = contents (fdisk s) (dino sb (fdisk s) (inum (itab s ! k)))"
    "free_blocks sb (fdisk s') = free_blocks sb (fdisk s)"
proof -
  let ?ip = "(itab s ! k)\<lparr>major := a, minor := b, nlink := c\<rparr>" and ?i = "inum (itab s ! k)"
  note h = held_entry [OF ok k]
  have l: "k < length (itab s)" using k(1) table_okD(1) [OF fs_okD(2) [OF ok]] by simp
  have e: "s' = upd_inode k (\<lambda>_. ?ip) (s\<lparr>fdisk := iupdate sb (fdisk s) ?ip\<rparr>)"
    unfolding s' using l by (simp add: update_at_def upd_inode_def)
  then have e': "itab s' ! k = ?ip" "fdisk s' = iupdate sb (fdisk s) ?ip" using l by simp_all
  show "fs_ok sb s'" unfolding s' by (rule held_links [OF ok k])
  show "refs s' = refs s" by (rule refs_cong) (use l e in simp)
  show "holding me k s'" "inum (itab s' ! k) = ?i" "iref (itab s' ! k) = iref (itab s ! k)"
    "\<And>l. l < NINODE \<Longrightarrow> l \<noteq> k \<Longrightarrow> itab s' ! l = itab s ! l"
    using k(2) l by (simp_all add: holding_def e)
  have "?ip = (itab s ! k)\<lparr>itype := itype (itab s ! k), major := a, minor := b, nlink := c\<rparr>" by simp
  note C = iupdate_changes [OF ok k(1) h this]
  show "only_file sb ?i (fdisk s) (fdisk s')" using changes_only [OF C(1)] e'(2) by simp
  show "free_blocks sb (fdisk s') = free_blocks sb (fdisk s)" using C(2) e'(2) by simp
  have d: "dino sb (fdisk s') ?i = on_disk ?ip" using changed_dino [OF C(1)] e'(2) by simp
  have "on_disk ?ip = (on_disk (itab s ! k))\<lparr>major := a, minor := b, nlink := c\<rparr>" by (simp add: on_disk_def)
  then show "dino sb (fdisk s') ?i = (dino sb (fdisk s) ?i)\<lparr>major := a, minor := b, nlink := c\<rparr>"
    using d held_disk(1) [OF ok k] by simp
  have f: "file_ok sb (others sb (fdisk s) ?i) (fdisk s) ?ip"
    using entry_file_ok(1) [OF ok k(1) h] by (simp add: file_ok_def slot_addrs [of ?ip "itab s ! k"])
  have "contents (fdisk s') ?ip = contents (fdisk s) ?ip"
    unfolding e'(2) by (rule iupdate_effect(3) [OF f]) (use entry_file_ok(5) [OF ok k(1) h] in simp)
  moreover have "contents (fdisk s) ?ip = contents (fdisk s) (itab s ! k)"
  proof -
    have "slot (fdisk s) ?ip = slot (fdisk s) (itab s ! k)" by (rule slot_addrs) simp
    then show ?thesis by (simp add: contents_def fbyte_def)
  qed
  ultimately show "contents (fdisk s') (dino sb (fdisk s') ?i) = contents (fdisk s) (dino sb (fdisk s) ?i)"
    unfolding d using held_dir(1) [OF ok k] on_disk_cong(4) [of "on_disk ?ip" ?ip] by simp
qed

lemma add_link_effect:
  assumes ok: "fs_ok sb s" and k: "k < NINODE" "holding me k s"
  defines "i \<equiv> inum (itab s ! k)"
  shows "fs_ok sb (add_link sb d k s)" "refs (add_link sb d k s) = refs s" "holding me k (add_link sb d k s)"
    "inum (itab (add_link sb d k s) ! k) = i" "iref (itab (add_link sb d k s) ! k) = iref (itab s ! k)"
    "\<And>l. l < NINODE \<Longrightarrow> l \<noteq> k \<Longrightarrow> itab (add_link sb d k s) ! l = itab s ! l"
    "only_file sb i (fdisk s) (fdisk (add_link sb d k s))"
    "dino sb (fdisk (add_link sb d k s)) i = (dino sb (fdisk s) i)\<lparr>nlink := nlink (dino sb (fdisk s) i) + d\<rparr>"
    "contents (fdisk (add_link sb d k s)) (dino sb (fdisk (add_link sb d k s)) i) = contents (fdisk s) (dino sb (fdisk s) i)"
    "free_blocks sb (fdisk (add_link sb d k s)) = free_blocks sb (fdisk s)"
proof -
  let ?e = "itab s ! k"
  have "add_link sb d k s = update_at sb k (upd_inode k (\<lambda>ip. ip\<lparr>major := major ?e, minor := minor ?e, nlink := nlink ?e + d\<rparr>) s)"
    by (simp add: add_link_def upd_inode_def)
  note S = set_link_effect [OF ok k this]
  show "fs_ok sb (add_link sb d k s)" "refs (add_link sb d k s) = refs s" "holding me k (add_link sb d k s)"
    "inum (itab (add_link sb d k s) ! k) = i" "iref (itab (add_link sb d k s) ! k) = iref (itab s ! k)"
    "\<And>l. l < NINODE \<Longrightarrow> l \<noteq> k \<Longrightarrow> itab (add_link sb d k s) ! l = itab s ! l"
    "only_file sb i (fdisk s) (fdisk (add_link sb d k s))"
    "contents (fdisk (add_link sb d k s)) (dino sb (fdisk (add_link sb d k s)) i) = contents (fdisk s) (dino sb (fdisk s) i)"
    "free_blocks sb (fdisk (add_link sb d k s)) = free_blocks sb (fdisk s)"
    using S by (simp_all add: i_def)
  note o = held_disk(1) [OF ok k]
  have "major ?e = major (dino sb (fdisk s) i)" "minor ?e = minor (dino sb (fdisk s) i)" "nlink ?e = nlink (dino sb (fdisk s) i)"
    using arg_cong [OF o, of major] arg_cong [OF o, of minor] arg_cong [OF o, of nlink] by (simp_all add: on_disk_def i_def)
  then show "dino sb (fdisk (add_link sb d k s)) i = (dino sb (fdisk s) i)\<lparr>nlink := nlink (dino sb (fdisk s) i) + d\<rparr>"
    using S(8) by (simp add: i_def)
qed

text \<open>Unlocking and giving up a reference: the last one to an inode without a link frees it.\<close>

lemma release_effect:
  assumes ok: "fs_ok sb s" and k: "k < NINODE" "holding me k s"
  defines "i \<equiv> inum (itab s ! k)"
  obtains s' where "iunlockput sb me k s = Inr s'" "fs_ok sb s'" "refs s' = (refs s)(i := refs s i - 1)"
    "\<And>l. l < NINODE \<Longrightarrow> l \<noteq> k \<Longrightarrow> itab s' ! l = itab s ! l" "ilock_owner (itab s' ! k) = None"
    "refs s i = 1 \<and> nlink (dino sb (fdisk s) i) = 0 \<Longrightarrow> \<not> allocated sb (fdisk s') i \<and> only_file sb i (fdisk s) (fdisk s') \<and>
       free_blocks sb (fdisk s') = free_blocks sb (fdisk s) \<union> file_blocks sb (fdisk s) i"
    "\<not> (refs s i = 1 \<and> nlink (dino sb (fdisk s) i) = 0) \<Longrightarrow> fdisk s' = fdisk s \<and> inum (itab s' ! k) = i \<and>
       iref (itab s' ! k) = iref (itab s ! k) - 1"
proof -
  note T = table_okD [OF fs_okD(2) [OF ok]] and h = held_entry [OF ok k]
  let ?e = "(itab s ! k)\<lparr>ilock_owner := None\<rparr>"
  define s1 where "s1 = upd_inode k (\<lambda>_. ?e) s"
  note U = iunlock_effect [OF ok k(1) h(1) held_disk(3) [OF ok k], folded s1_def]
  have l: "k < length (itab s)" using k(1) T(1) by simp
  then have e: "itab s1 ! k = ?e" "fdisk s1 = fdisk s" "\<And>m. m < NINODE \<Longrightarrow> m \<noteq> k \<Longrightarrow> itab s1 ! m = itab s ! m"
    by (simp_all add: s1_def)
  have r: "refs s i = iref (itab s ! k)" using refs_entry [OF fs_okD(2) [OF ok] k(1) h(1)] by (simp add: i_def)
  have n: "nlink (dino sb (fdisk s) i) = nlink (itab s ! k)" using on_disk_cong(7) [OF held_disk(1) [OF ok k]] by (simp add: i_def)
  have put: "iunlockput sb me k s = iput sb me k s1" using U(1) by (simp add: iunlockput_def andthen_def)
  show ?thesis
  proof (cases "refs s i = 1 \<and> nlink (dino sb (fdisk s) i) = 0")
    case True
    have c: "iref (itab s1 ! k) = 1" "valid (itab s1 ! k)" "nlink (itab s1 ! k) = 0" "ilock_owner (itab s1 ! k) = None"
      using True r n h(2) by (simp_all add: e)
    show ?thesis
    proof (rule iput_frees [OF U(2) k(1) c, of me])
      fix s'
      assume f: "iput sb me k s1 = Inr s'" "fs_ok sb s'" "only_file sb (inum (itab s1 ! k)) (fdisk s1) (fdisk s')"
        "\<not> allocated sb (fdisk s') (inum (itab s1 ! k))"
        "free_blocks sb (fdisk s') = free_blocks sb (fdisk s1) \<union> file_blocks sb (fdisk s1) (inum (itab s1 ! k))"
        "refs s' = (refs s1)(inum (itab s1 ! k) := 0)" "\<And>l. l < NINODE \<Longrightarrow> l \<noteq> k \<Longrightarrow> itab s' ! l = itab s1 ! l" "iref (itab s' ! k) = 0"
      have i: "inum (itab s1 ! k) = i" by (simp add: e i_def)
      show ?thesis
      proof (rule that [OF _ f(2)])
        show "iunlockput sb me k s = Inr s'" using put f(1) by simp
        show "refs s' = (refs s)(i := refs s i - 1)" using f(6) U(3) True i by simp
        show "itab s' ! l = itab s ! l" if "l < NINODE" "l \<noteq> k" for l using f(7) e(3) that by simp
        show "ilock_owner (itab s' ! k) = None" using table_okD(6) [OF fs_okD(2) [OF f(2)] k(1) f(8)] .
        show "\<not> allocated sb (fdisk s') i \<and> only_file sb i (fdisk s) (fdisk s') \<and>
            free_blocks sb (fdisk s') = free_blocks sb (fdisk s) \<union> file_blocks sb (fdisk s) i"
          using f(3-5) i by (simp add: e(2))
      qed (use True in blast)
    qed
  next
    case False
    then have c: "\<not> (iref (itab s1 ! k) = 1 \<and> valid (itab s1 ! k) \<and> nlink (itab s1 ! k) = 0)" using r n by (simp add: e)
    obtain s' where s': "iput sb me k s1 = Inr s'" "fs_ok sb s'" "fdisk s' = fdisk s1"
      "refs s' = (refs s1)(inum (itab s1 ! k) := refs s1 (inum (itab s1 ! k)) - 1)"
      "itab s' = (itab s1)[k := (itab s1 ! k)\<lparr>iref := iref (itab s1 ! k) - 1\<rparr>]"
      by (rule iput_keeps [OF U(2) k(1) _ c, of me]) (use h(1) in \<open>auto simp: e\<close>)
    have l1: "k < length (itab s1)" using l by (simp add: s1_def)
    show ?thesis
      by (rule that [OF _ s'(2)]) (use put s' U(3) l1 e False in \<open>auto simp: i_def\<close>)
  qed
qed

section \<open>Removing a name\<close>

definition only_files :: "superblock \<Rightarrow> nat set \<Rightarrow> disk \<Rightarrow> disk \<Rightarrow> bool" where
  "only_files sb I dk dk' \<longleftrightarrow> (\<forall>j < ninodes sb. j \<notin> I \<longrightarrow> dino sb dk' j = dino sb dk j \<and>
     (allocated sb dk j \<longrightarrow> contents dk' (dino sb dk' j) = contents dk (dino sb dk j)))"

lemma only_files_one: "only_file sb i dk dk' \<Longrightarrow> i \<in> I \<Longrightarrow> only_files sb I dk dk'"
  by (auto simp: only_file_def only_files_def)

lemma only_files_trans: "only_files sb I dk dk1 \<Longrightarrow> only_files sb I dk1 dk2 \<Longrightarrow> only_files sb I dk dk2"
proof -
  assume a: "only_files sb I dk dk1" "only_files sb I dk1 dk2"
  have "allocated sb dk1 j = allocated sb dk j" if "j < ninodes sb" "j \<notin> I" for j
    using a(1) that by (simp add: only_files_def allocated_def)
  then show ?thesis using a unfolding only_files_def by metis
qed

lemma only_file_same:
  assumes "only_file sb i dk dk'" "j < ninodes sb" "j \<noteq> i"
  shows "dino sb dk' j = dino sb dk j" "allocated sb dk' j = allocated sb dk j"
    "allocated sb dk j \<Longrightarrow> contents dk' (dino sb dk' j) = contents dk (dino sb dk j)"
    "allocated sb dk j \<Longrightarrow> dir_of sb dk' j = dir_of sb dk j"
  using assms by (auto simp: only_file_def allocated_def dir_of_def)

definition names_unique :: "superblock \<Rightarrow> disk \<Rightarrow> nat \<Rightarrow> bool" where
  "names_unique sb dk d \<longleftrightarrow> (let es = dir_entries (contents dk (dino sb dk d)) in
     \<forall>a < length es. \<forall>b < length es. fst (es ! a) \<noteq> 0 \<and> fst (es ! b) \<noteq> 0 \<and> snd (es ! a) = snd (es ! b) \<longrightarrow> a = b)"

lemma entry_map_Some: "entry_map es n = Some i \<Longrightarrow> (i, n) \<in> set es \<and> i \<noteq> 0"
  by (induction es n rule: entry_map.induct) (auto split: if_splits)

lemma entry_map_clear:
  assumes f: "dir_find es n = Some j" shows "m \<noteq> n \<Longrightarrow> entry_map (take j es @ (0, x) # drop (Suc j) es) m = entry_map es m"
    "(\<And>a b. a < length es \<Longrightarrow> b < length es \<Longrightarrow> fst (es ! a) \<noteq> 0 \<Longrightarrow> fst (es ! b) \<noteq> 0 \<Longrightarrow> snd (es ! a) = snd (es ! b) \<Longrightarrow> a = b) \<Longrightarrow>
      entry_map (take j es @ (0, x) # drop (Suc j) es) n = None"
proof -
  have j: "j < length es" "fst (es ! j) \<noteq> 0" "snd (es ! j) = n"
    using f by (auto simp: dir_find_def first_index_Some split: prod.splits)
  have es: "es = take j es @ es ! j # drop (Suc j) es" by (rule id_take_nth_drop [OF j(1)])
  show "entry_map (take j es @ (0, x) # drop (Suc j) es) m = entry_map es m" if "m \<noteq> n"
  proof -
    obtain i where "es ! j = (i, n)" using j(3) by (cases "es ! j") simp
    then have "entry_map es m = entry_map (take j es @ (i, n) # drop (Suc j) es) m" using es by simp
    then show ?thesis using that by (simp add: entry_map_append split: option.split)
  qed
  assume u: "\<And>a b. a < length es \<Longrightarrow> b < length es \<Longrightarrow> fst (es ! a) \<noteq> 0 \<Longrightarrow> fst (es ! b) \<noteq> 0 \<Longrightarrow> snd (es ! a) = snd (es ! b) \<Longrightarrow> a = b"
  let ?fs = "take j es @ (0, x) # drop (Suc j) es"
  show "entry_map ?fs n = None"
  proof (rule ccontr)
    assume "entry_map ?fs n \<noteq> None"
    then obtain i where "(i, n) \<in> set ?fs" "i \<noteq> 0" using entry_map_Some by blast
    then obtain a where a: "a < length ?fs" "fst (?fs ! a) \<noteq> 0" "snd (?fs ! a) = n" by (metis fst_conv in_set_conv_nth snd_conv)
    have "?fs = es[j := (0, x)]" by (simp add: upd_conv_take_nth_drop [OF j(1)])
    then have e: "a < length es" "fst (es[j := (0, x)] ! a) \<noteq> 0" "?fs ! a = es[j := (0, x)] ! a" using a(1,2) by auto
    then have "a \<noteq> j" using j(1) by (cases "a = j") auto
    with e have "a \<noteq> j" "a < length es" "?fs ! a = es ! a" by simp_all
    then show False using u [of a j] a(2,3) j by simp
  qed
qed

lemma clear_entry:
  assumes ok: "fs_ok sb s" and k: "k < NINODE" "holding me k s" and d: "16 dvd unat (isize (itab s ! k))"
    and f: "dir_find (dir_entries (contents (fdisk s) (itab s ! k))) name = Some j"
  defines "i \<equiv> inum (itab s ! k)"
  obtains s' where "write_dirent sb k (16 * j) (replicate 16 0) s = Inr (16, s')" "fs_ok sb s'" "refs s' = refs s" "holding me k s'"
    "inum (itab s' ! k) = i" "\<And>l. l < NINODE \<Longrightarrow> l \<noteq> k \<Longrightarrow> itab s' ! l = itab s ! l" "only_file sb i (fdisk s) (fdisk s')"
    "\<And>m. m \<noteq> name \<Longrightarrow> dir_of sb (fdisk s') i m = dir_of sb (fdisk s) i m"
    "names_unique sb (fdisk s) i \<Longrightarrow> dir_of sb (fdisk s') i name = None"
    "nlink (dino sb (fdisk s') i) = nlink (dino sb (fdisk s) i)" "itype (dino sb (fdisk s') i) = itype (dino sb (fdisk s) i)"
    "unat (isize (dino sb (fdisk s') i)) mod 16 = 0"
proof -
  let ?ip = "itab s ! k" and ?z = "replicate 16 0 :: byte list"
  let ?c = "contents (fdisk s) ?ip"
  let ?es = "dir_entries ?c"
  note C = held_dir [OF ok k]
  have l: "k < length (itab s)" using k(1) table_okD(1) [OF fs_okD(2) [OF ok]] by simp
  obtain q where q: "unat (isize ?ip) = 16 * q" using d by blast
  have lc: "length ?c = 16 * q" "length ?es = q" using q by (simp_all add: contents_def dir_entries_def)
  have j: "j < q" using f lc by (auto simp: dir_find_def first_index_Some)
  have o: "16 * j \<le> unat (isize ?ip)" "16 * j \<noteq> unat (isize ?ip)" using j q by simp_all
  have z: "length ?z = 16" by simp
  show ?thesis
  proof (rule write_dirent_effect [OF ok k z o(1) d])
    fix r dk ip
    let ?s = "upd_inode k (\<lambda>_. ip) (s\<lparr>fdisk := dk\<rparr>)"
    assume w: "write_dirent sb k (16 * j) ?z s = Inr (r, ?s)" "fs_ok sb ?s" "refs ?s = refs s"
      "only_file sb (inum ?ip) (fdisk s) dk" "ip = ?ip\<lparr>addrs := addrs ip, isize := isize ip\<rparr>"
      "contents dk ip = (if r = 16 then splice ?c (16 * j) ?z else ?c)"
      "r \<noteq> 16 \<Longrightarrow> 16 * j = unat (isize ?ip) \<and> BSIZE dvd 16 * j" "16 dvd unat (isize ip)"
    have r: "r = 16" using w(7) o(2) by blast
    have e: "itab ?s ! k = ip" "fdisk ?s = dk" using l by simp_all
    have i2: "inum ip = inum ?ip" "ilock_owner ip = ilock_owner ?ip" "itype ip = itype ?ip" "nlink ip = nlink ?ip" by (subst w(5); simp)+
    have hs: "holding me k ?s" using k(2) i2(2) unfolding holding_def e by simp
    note E = held_disk(1) [OF w(2) k(1) hs, unfolded e i2(1)] and E0 = held_disk(1) [OF ok k]
    have D: "dir_of sb dk i = entry_map (take j ?es @ (0, []) # drop (Suc j) ?es)"
    proof -
      have "de_inum ?z = 0" "cname (de_name ?z) = []" by (simp_all add: de_inum_def de_name_def word16_def cname_def numeral_eq_Suc)
      then have "dir_entries (splice ?c (16 * j) ?z) = take j ?es @ (0, []) # drop (Suc j) ?es"
        using dir_entries_splice [OF lc(1) less_imp_le [OF j] z] by simp
      then show ?thesis using held_dir(2) [OF w(2) k(1) hs] e i2(1) w(6) r by (simp add: i_def)
    qed
    have D0: "dir_of sb (fdisk s) i = entry_map ?es" using C(2) by (simp add: i_def)
    note cl = entry_map_clear [OF f, where x = "[]"]
    show ?thesis
    proof (rule that [of ?s])
      show "write_dirent sb k (16 * j) ?z s = Inr (16, ?s)" using w(1) r by simp
      show "dir_of sb (fdisk ?s) i m = dir_of sb (fdisk s) i m" if "m \<noteq> name" for m
        unfolding e(2) D D0 by (rule cl(1) [OF that])
      show "dir_of sb (fdisk ?s) i name = None" if u: "names_unique sb (fdisk s) i"
        unfolding e(2) D by (rule cl(2)) (use u C(1) in \<open>auto simp: names_unique_def Let_def i_def\<close>)
      show "nlink (dino sb (fdisk ?s) i) = nlink (dino sb (fdisk s) i)" "itype (dino sb (fdisk ?s) i) = itype (dino sb (fdisk s) i)"
        using on_disk_cong(6,7) [OF E] on_disk_cong(6,7) [OF E0] i2 by (simp_all add: e(2) i_def)
      show "unat (isize (dino sb (fdisk ?s) i)) mod 16 = 0" using on_disk_cong(8) [OF E] w(8) by (simp add: e(2) i_def)
    qed (use w(2-4) hs i2 l in \<open>simp_all add: e i_def\<close>)
  qed
qed

lemma elems_good: "0 \<notin> set p \<Longrightarrow> n \<in> set (elems p) \<Longrightarrow> good_name n"
proof (induction p rule: elems.induct)
  case (1 p)
  show ?case
  proof (cases "skipelem p")
    case None
    then show ?thesis using 1(3) by (simp add: elems.simps)
  next
    case (Some a)
    obtain m q where m: "a = (m, q)" by fastforce
    note g = skipelem_good [OF Some [unfolded m] 1(2)]
    have "elems p = m # elems q" using Some m by (subst elems.simps) simp
    then show ?thesis using 1(1) [OF Some m [symmetric] g(2)] 1(3) g(1) by auto
  qed
qed

lemma walk_parent:
  assumes "walk sb dk True i ns = Some d" "sound sb dk i ns"
  shows "allocated sb dk d \<and> nlink (dino sb dk d) \<noteq> 0 \<and> itype (dino sb dk d) = T_DIR \<and> 16 dvd unat (isize (dino sb dk d)) \<and>
    ns \<noteq> [] \<and> (\<forall>j. dir_of sb dk d (last ns) = Some j \<longrightarrow> 1 \<le> j \<and> j < ninodes sb)"
  using assms
proof (induction sb dk True i ns rule: walk.induct)
  case (2 sb dk i n ns)
  show ?case
  proof (cases "ns = []")
    case False
    then obtain j where j: "dir_of sb dk i n = Some j" "walk sb dk True j ns = Some d" "itype (dino sb dk i) = T_DIR"
      using 2(2) by (auto split: if_splits option.splits)
    then have "sound sb dk j ns" using 2(3) by auto
    then show ?thesis using 2(1) [OF _ _ j(1) j(2)] j(3) False by auto
  qed (use 2 in \<open>auto split: if_splits\<close>)
qed simp

lemma namecmp_eq: "good_name m \<Longrightarrow> good_name n \<Longrightarrow> namecmp m n \<longleftrightarrow> m = n"
  by (simp add: namecmp_def strncmp_eq_iff good_name_def cname_good)

lemma good_dots: "good_name dot" "good_name dotdot"
  by (simp_all add: good_name_def dot_def dotdot_def DIRSIZ_def)

lemma idle_unlocked: "idle s \<longleftrightarrow> (\<forall>k < NINODE. ilock_owner (itab s ! k) = None)"
  by (simp add: idle_def)

text \<open>The directory and the name that a path leads to.\<close>

definition finds :: "superblock \<Rightarrow> fs \<Rightarrow> nat \<Rightarrow> byte list \<Rightarrow> nat \<Rightarrow> name \<Rightarrow> bool" where
  "finds sb s cwd path d name \<longleftrightarrow>
     (let start = (if path \<noteq> [] \<and> hd path = slash then ROOTINO else inum (itab s ! cwd)) in
      sound sb (fdisk s) start (path_names path) \<and> walk sb (fdisk s) True start (path_names path) = Some d \<and>
      last (path_names path) = name)"

text \<open>What a call on path names needs: a process with a current directory, nobody else at work, room in the table,
  and references to inodes that exist only.\<close>

definition ready :: "superblock \<Rightarrow> fs \<Rightarrow> nat \<Rightarrow> bool" where
  "ready sb s cwd \<longleftrightarrow> fs_ok sb s \<and> idle s \<and> cwd < NINODE \<and> 0 < iref (itab s ! cwd) \<and> ROOTINO < ninodes sb \<and>
     card {i. 0 < refs s i} + 3 \<le> NINODE \<and> (\<forall>i. 0 < refs s i \<longrightarrow> allocated sb (fdisk s) i)"

lemma parent_effect:
  assumes r: "ready sb s cwd" and f: "finds sb s cwd path d name" and z: "0 \<notin> set path"
  obtains k s' where "nameiparent sb me cwd path s = Inr (Some (k, name), s')" "fs_ok sb s'" "fdisk s' = fdisk s" "idle s'"
    "k < NINODE" "0 < iref (itab s' ! k)" "inum (itab s' ! k) = d" "refs s' = (refs s)(d := refs s d + 1)"
    "allocated sb (fdisk s) d" "nlink (dino sb (fdisk s) d) \<noteq> 0" "itype (dino sb (fdisk s) d) = T_DIR"
    "16 dvd unat (isize (dino sb (fdisk s) d))" "good_name name"
    "\<And>j. dir_of sb (fdisk s) d name = Some j \<Longrightarrow> 1 \<le> j \<and> j < ninodes sb"
    "card {i. 0 < refs s' i} + 2 \<le> NINODE"
proof -
  define start where "start = (if path \<noteq> [] \<and> hd path = slash then ROOTINO else inum (itab s ! cwd))"
  have F: "sound sb (fdisk s) start (path_names path)" "walk sb (fdisk s) True start (path_names path) = Some d"
    "last (path_names path) = name" using f by (simp_all add: finds_def Let_def start_def)
  note W = walk_parent [OF F(2,1)]
  have R: "fs_ok sb s" "cwd < NINODE" "0 < iref (itab s ! cwd)" "idle s" "card {i. 0 < refs s i} + 2 \<le> NINODE" "ROOTINO < ninodes sb"
    using r by (auto simp: ready_def)
  have p: "True \<Longrightarrow> path_names path \<noteq> [] \<or> nlink (dino sb (fdisk s) start) \<noteq> 0" using W by blast
  from namex_effect [OF R(1-4) z R(5,6), of True me, folded start_def, unfolded elems_path_names, OF F(1) p] F(2,3)
  obtain k s' where n: "namex sb me cwd path True s = Inr (Some (k, name), s')" "fs_ok sb s'" "fdisk s' = fdisk s" "idle s'"
    "k < NINODE" "0 < iref (itab s' ! k)" "inum (itab s' ! k) = d" "refs s' = (refs s)(d := refs s d + 1)"
    using W by auto
  have g: "good_name name" using elems_good [OF z, of name] F(3) W unfolding elems_path_names by (metis last_in_set)
  have "{i. 0 < refs s' i} \<subseteq> insert d {i. 0 < refs s i}" unfolding n(8) by (auto split: if_splits)
  then have "card {i. 0 < refs s' i} \<le> card (insert d {i. 0 < refs s i})" by (rule card_mono [rotated]) (simp add: finite_used [OF R(1)])
  also have "\<dots> \<le> Suc (card {i. 0 < refs s i})" by (rule card_insert_le_m1 [of "Suc _", simplified]) simp_all
  finally have c: "card {i. 0 < refs s' i} + 2 \<le> NINODE" using r by (simp add: ready_def)
  show ?thesis by (rule that [of k s']) (use n g c W F(3) in \<open>auto simp: nameiparent_def\<close>)
qed

text \<open>
  C11. \<open>unlink\<close> of a name that leads to a file: it returns 0, the name is gone from its directory (when the
  directory has no name twice) and every other name is as it was; the file loses one link and keeps its contents,
  or, with its last link and no process that has it open, it is freed. No other file changes, no reference or
  lock is left, and the call neither panics nor sleeps.
\<close>

theorem unlink_removes_name:
  assumes r: "ready sb s cwd" and f: "finds sb s cwd path d name" and z: "0 \<notin> set path"
    and n: "name \<noteq> dot" "name \<noteq> dotdot"
    and i: "dir_of sb (fdisk s) d name = Some i" "i \<noteq> d" "allocated sb (fdisk s) i" "itype (dino sb (fdisk s) i) \<noteq> T_DIR"
      "1 \<le> sint (nlink (dino sb (fdisk s) i))"
  shows "\<exists>s'. sys_unlink sb me cwd (Some path) s = Inr (0, s') \<and> fs_ok sb s' \<and> idle s' \<and> refs s' = refs s \<and>
    only_files sb {d, i} (fdisk s) (fdisk s') \<and>
    (\<forall>m. m \<noteq> name \<longrightarrow> dir_of sb (fdisk s') d m = dir_of sb (fdisk s) d m) \<and>
    (names_unique sb (fdisk s) d \<longrightarrow> dir_of sb (fdisk s') d name = None) \<and>
    (if nlink (dino sb (fdisk s) i) = 1 \<and> refs s i = 0 then \<not> allocated sb (fdisk s') i
     else dino sb (fdisk s') i = (dino sb (fdisk s) i)\<lparr>nlink := nlink (dino sb (fdisk s) i) - 1\<rparr> \<and>
       contents (fdisk s') (dino sb (fdisk s') i) = contents (fdisk s) (dino sb (fdisk s) i))"
proof (rule parent_effect [OF r f z])
  fix dp s1
  assume P: "nameiparent sb me cwd path s = Inr (Some (dp, name), s1)" "fs_ok sb s1" "fdisk s1 = fdisk s" "idle s1"
    "dp < NINODE" "0 < iref (itab s1 ! dp)" "inum (itab s1 ! dp) = d" "refs s1 = (refs s)(d := refs s d + 1)"
    "allocated sb (fdisk s) d" "nlink (dino sb (fdisk s) d) \<noteq> 0" "itype (dino sb (fdisk s) d) = T_DIR"
    "16 dvd unat (isize (dino sb (fdisk s) d))" "good_name name"
    "\<And>j. dir_of sb (fdisk s) d name = Some j \<Longrightarrow> 1 \<le> j \<and> j < ninodes sb" "card {i. 0 < refs s1 i} + 2 \<le> NINODE"
  let ?dk = "fdisk s"
  have u1: "ilock_owner (itab s1 ! k) = None" if "k < NINODE" for k using P(4) that by (simp add: idle_def)
  have a1: "allocated sb (fdisk s1) (inum (itab s1 ! dp))" using P(3,7,9) by simp
  obtain s2 where L: "ilock sb me dp s1 = Inr s2" "fs_ok sb s2" "fdisk s2 = fdisk s1" "refs s2 = refs s1" "holding me dp s2"
    "inum (itab s2 ! dp) = inum (itab s1 ! dp)" "\<And>l. l < NINODE \<Longrightarrow> l \<noteq> dp \<Longrightarrow> itab s2 ! l = itab s1 ! l"
    "on_disk (itab s2 ! dp) = on_disk (dino sb (fdisk s1) (inum (itab s1 ! dp)))"
    by (rule lock_effect [OF P(2,5,6) u1 [OF P(5)] a1, of me]) blast
  note cong = on_disk_cong [OF L(8), unfolded P(3,7)]
  have t2: "itype (itab s2 ! dp) = T_DIR" "16 dvd unat (isize (itab s2 ! dp))" using cong(6,8) P(11,12) by simp_all
  have c2: "contents ?dk (dino sb ?dk d) = contents ?dk (itab s2 ! dp)" using cong(4) by simp
  have e2: "fdisk s2 = ?dk" "inum (itab s2 ! dp) = d" using L(3,6) P(3,7) by simp_all
  let ?es = "dir_entries (contents ?dk (dino sb ?dk d))"
  obtain j where j: "dir_find ?es name = Some j" "fst (?es ! j) = i"
    using i(1) by (auto simp: dir_of_def dir_map_def)
  note look = dirlookup_effect [OF L(2) P(5) L(5) t2 P(13), unfolded e2, unfolded j option.case]
  have ib: "1 \<le> i" "i < ninodes sb" using P(14) [OF i(1)] by simp_all
  have room: "\<exists>k < NINODE. iref (itab s2 ! k) = 0" by (rule slot_free [OF L(2)]) (use P(15) L(4) in simp)
  show ?thesis
  proof (cases rule: iget_effect [OF L(2) ib])
    case 1
    then show ?thesis using room by blast
  next
    case (2 k s3)
    note G = 2
    have kd: "k \<noteq> dp"
    proof
      assume "k = dp"
      then show False using G(5,10) e2(2) i(2) held_entry(1) [OF L(2) P(5) L(5)] by auto
    qed
    have e3: "itab s3 ! dp = itab s2 ! dp" using G(9) [OF P(5)] kd by simp
    have h3: "holding me dp s3" using L(5) by (simp add: holding_def e3)
    have u3: "ilock_owner (itab s3 ! k) = None" using G(8) L(7) [OF G(2) kd] u1 [OF G(2)] by simp
    have a3: "allocated sb (fdisk s3) (inum (itab s3 ! k))" using G(4,5) e2(1) i(3) by simp
    obtain s4 where M: "ilock sb me k s3 = Inr s4" "fs_ok sb s4" "fdisk s4 = fdisk s3" "refs s4 = refs s3" "holding me k s4"
      "inum (itab s4 ! k) = inum (itab s3 ! k)" "\<And>l. l < NINODE \<Longrightarrow> l \<noteq> k \<Longrightarrow> itab s4 ! l = itab s3 ! l"
      "on_disk (itab s4 ! k) = on_disk (dino sb (fdisk s3) (inum (itab s3 ! k)))"
      by (rule lock_effect [OF G(3,2,6) u3 a3, of me]) blast
    note cong4 = on_disk_cong [OF M(8), unfolded G(4,5) e2(1)]
    have e4: "fdisk s4 = ?dk" "inum (itab s4 ! k) = i" "itab s4 ! dp = itab s2 ! dp" using M(3,6) M(7) [of dp] G(4,5) e2 e3 kd P(5) by simp_all
    have h4: "holding me dp s4" using L(5) by (simp add: holding_def e4(3))
    have n4: "sint (nlink (itab s4 ! k)) \<ge> 1" "itype (itab s4 ! k) \<noteq> T_DIR" using cong4(6,7) i(4,5) by simp_all
    have d4: "16 dvd unat (isize (itab s4 ! dp))" "dir_find (dir_entries (contents (fdisk s4) (itab s4 ! dp))) name = Some j"
      using t2(2) j(1) c2 e4 by simp_all
    obtain s5 where W: "write_dirent sb dp (16 * j) (replicate 16 0) s4 = Inr (16, s5)" "fs_ok sb s5" "refs s5 = refs s4" "holding me dp s5"
      "inum (itab s5 ! dp) = d" "\<And>l. l < NINODE \<Longrightarrow> l \<noteq> dp \<Longrightarrow> itab s5 ! l = itab s4 ! l" "only_file sb d ?dk (fdisk s5)"
      "\<And>m. m \<noteq> name \<Longrightarrow> dir_of sb (fdisk s5) d m = dir_of sb ?dk d m" "names_unique sb ?dk d \<Longrightarrow> dir_of sb (fdisk s5) d name = None"
      "nlink (dino sb (fdisk s5) d) = nlink (dino sb ?dk d)" "itype (dino sb (fdisk s5) d) = itype (dino sb ?dk d)"
      by (rule clear_entry [OF M(2) P(5) h4 d4, unfolded e4 e2(2)]) blast
    have k5: "itab s5 ! k = itab s4 ! k" using W(6) [OF G(2) kd] .
    note i5 = only_file_same [OF W(7) ib(2) i(2)]
    have nd: "\<not> (refs s5 (inum (itab s5 ! dp)) = 1 \<and> nlink (dino sb (fdisk s5) (inum (itab s5 ! dp))) = 0)" using W(5,10) P(10) by simp
    obtain s6 where X: "iunlockput sb me dp s5 = Inr s6" "fs_ok sb s6" "refs s6 = (refs s5)(d := refs s5 d - 1)"
      "\<And>l. l < NINODE \<Longrightarrow> l \<noteq> dp \<Longrightarrow> itab s6 ! l = itab s5 ! l" "ilock_owner (itab s6 ! dp) = None" "fdisk s6 = fdisk s5"
      by (rule release_effect [OF W(2) P(5) W(4)]) (use nd W(5) in auto)
    have h6: "holding me k s6" using M(5) X(4) [OF G(2) kd] k5 by (simp add: holding_def)
    have i6: "inum (itab s6 ! k) = i" using X(4) [OF G(2) kd] k5 e4(2) by simp
    define s7 where "s7 = add_link sb (-1) k s6"
    note A = add_link_effect [OF X(2) G(2) h6, where d = "-1", unfolded i6, folded s7_def]
    have di7: "dino sb (fdisk s7) i = (dino sb ?dk i)\<lparr>nlink := nlink (dino sb ?dk i) - 1\<rparr>" using A(8) X(6) i5(1) by simp
    have rs: "refs s7 = (refs s)(i := refs s i + 1)" using A(2) X(3) W(3) M(4) G(7) L(4) P(8) i(2) by (auto simp: fun_eq_iff)
    have d7: "dir_of sb (fdisk s7) d = dir_of sb (fdisk s5) d"
    proof -
      have "allocated sb (fdisk s6) d" using W(11) P(9,11) X(6) by (simp add: allocated_def T_DIR_def)
      then show ?thesis using only_file_same(4) [OF A(7) _ i(2) [symmetric]] P(9) X(6) by (simp add: allocated_def)
    qed
    obtain s8 where Y: "iunlockput sb me k s7 = Inr s8" "fs_ok sb s8" "refs s8 = (refs s7)(i := refs s7 i - 1)"
      "\<And>l. l < NINODE \<Longrightarrow> l \<noteq> k \<Longrightarrow> itab s8 ! l = itab s7 ! l" "ilock_owner (itab s8 ! k) = None"
      "refs s7 i = 1 \<and> nlink (dino sb (fdisk s7) i) = 0 \<Longrightarrow> \<not> allocated sb (fdisk s8) i \<and> only_file sb i (fdisk s7) (fdisk s8)"
      "\<not> (refs s7 i = 1 \<and> nlink (dino sb (fdisk s7) i) = 0) \<Longrightarrow> fdisk s8 = fdisk s7"
      by (rule release_effect [OF A(1) G(2) A(3)]) (use A(4) in auto)
    have link1: "refs s7 i = 1 \<and> nlink (dino sb (fdisk s7) i) = 0 \<longleftrightarrow> nlink (dino sb ?dk i) = 1 \<and> refs s i = 0"
      unfolding rs di7 by (auto simp: algebra_simps)
    have of8: "only_file sb i (fdisk s7) (fdisk s8)" using Y(6,7) only_file_refl by metis
    have d8: "dir_of sb (fdisk s8) d = dir_of sb (fdisk s5) d"
    proof -
      have "allocated sb (fdisk s7) d" using only_file_same(2) [OF A(7) _ i(2) [symmetric]] W(11) P(9,11) X(6) by (auto simp: allocated_def)
      then show ?thesis using only_file_same(4) [OF of8 _ i(2) [symmetric]] P(9) d7 by (simp add: allocated_def)
    qed
    have run: "sys_unlink sb me cwd (Some path) s = Inr (0, s8)"
    proof -
      have ne: "\<not> namecmp name dot" "\<not> namecmp name dotdot" using namecmp_eq [OF P(13)] good_dots n by simp_all
      have "dirlookup sb dp name s2 = Inr (Some (k, 16 * j), s3)" using look G(1) by (simp add: andthen_def)
      then show ?thesis
        using P(1) L(1) ne M(1) n4 W(1) X(1) Y(1) k5 X(4) [OF G(2) kd] by (simp add: sys_unlink_def andthen_def s7_def)
    qed
    have id: "idle s8" unfolding idle_def
    proof (intro allI impI)
      fix l assume l: "l < NINODE"
      show "ilock_owner (itab s8 ! l) = None"
      proof (cases "l = k \<or> l = dp")
        case True
        then show ?thesis using Y(5) Y(4) [OF P(5)] A(6) [OF P(5)] X(5) kd by auto
      next
        case False
        then have "itab s8 ! l = itab s1 ! l"
          using Y(4) [OF l] A(6) [OF l] X(4) [OF l] W(6) [OF l] M(7) [OF l] G(9) [OF l] L(7) [OF l] by simp
        then show ?thesis using u1 [OF l] by simp
      qed
    qed
    have I: "d \<in> {d, i}" "i \<in> {d, i}" by simp_all
    have of: "only_files sb {d, i} ?dk (fdisk s8)"
      by (rule only_files_trans [OF only_files_trans [OF only_files_one [OF W(7) I(1)] only_files_one [OF A(7) [unfolded X(6)] I(2)]]
        only_files_one [OF of8 I(2)]])
    have fin: "if nlink (dino sb ?dk i) = 1 \<and> refs s i = 0 then \<not> allocated sb (fdisk s8) i
      else dino sb (fdisk s8) i = (dino sb ?dk i)\<lparr>nlink := nlink (dino sb ?dk i) - 1\<rparr> \<and>
        contents (fdisk s8) (dino sb (fdisk s8) i) = contents ?dk (dino sb ?dk i)"
      using Y(6,7) link1 di7 A(9) X(6) i5(3) [OF i(3)] by auto
    have "refs s8 = refs s" using Y(3) rs by (auto simp: fun_eq_iff)
    then show ?thesis using run Y(2) id of d8 W(8,9) fin by auto
  qed
qed

section \<open>Creating a file\<close>

lemma iget_room:
  assumes "length (itab s) = NINODE" "\<exists>k < NINODE. iref (itab s ! k) = 0" shows "iget i s \<noteq> Inl e"
proof -
  have "first_index (\<lambda>ip. iref ip = 0) (itab s) \<noteq> None"
    unfolding first_index_None using assms by (auto simp: set_conv_nth)
  then show ?thesis by (auto simp: iget_def split: option.splits)
qed

lemma ialloc_room:
  assumes "length (itab s) = NINODE" "\<exists>k < NINODE. iref (itab s ! k) = 0" shows "ialloc_from sb i t s \<noteq> Inl e"
  using assms
proof (induction sb i t s rule: ialloc_from.induct)
  case (1 sb i t s)
  show ?case
  proof (cases "i < ninodes sb \<and> dinode_half (fdisk s (IBLOCK sb i)) (i mod IPB) 0 = 0")
    case True
    then show ?thesis
      using iget_room [of "s\<lparr>fdisk := (fdisk s)(IBLOCK sb i := claim t (i mod IPB) (fdisk s (IBLOCK sb i)))\<rparr>" i] 1(2,3)
      by (subst ialloc_from.simps) (auto simp: andthen_def Let_def split: sum.split)
  next
    case False
    then show ?thesis using 1 by (subst ialloc_from.simps) (auto simp: Let_def)
  qed
qed

text \<open>The fields of a new inode.\<close>

definition created :: "nat \<Rightarrow> 16 word \<Rightarrow> 16 word \<Rightarrow> 16 word \<Rightarrow> inode" where
  "created j type maj mnr = (fresh_inode j type)\<lparr>major := maj, minor := mnr, nlink := 1\<rparr>"

lemma dirs_apart:
  assumes "only_file sb i dk dk'" "allocated sb dk d" "d \<noteq> i" shows "dir_of sb dk' d = dir_of sb dk d"
  using only_file_same(4) [OF assms(1) _ assms(3) assms(2)] assms(2) by (auto simp: allocated_def)

lemma stays_allocated:
  assumes "only_file sb i dk dk'" "allocated sb dk d" "d \<noteq> i" shows "allocated sb dk' d" "dino sb dk' d = dino sb dk d"
  using only_file_same(1,2) [OF assms(1) _ assms(3)] assms(2) by (auto simp: allocated_def)

text \<open>The state after \<open>ialloc\<close>, \<open>ilock\<close> and the first \<open>iupdate\<close> of \<open>create\<close>, with the directory at \<open>dp\<close> held.\<close>

lemma new_inode_effect:
  assumes ok: "fs_ok sb s" and dp: "dp < NINODE" "holding me dp s" and t: "type \<noteq> 0"
    and room: "card {i. 0 < refs s i} < NINODE" and u: "\<forall>l < NINODE. l \<noteq> dp \<longrightarrow> ilock_owner (itab s ! l) = None"
    and a: "\<forall>i. 0 < refs s i \<longrightarrow> allocated sb (fdisk s) i"
  obtains "ialloc sb type s = Inr None" "\<forall>j. 1 \<le> j \<and> j < ninodes sb \<longrightarrow> allocated sb (fdisk s) j"
  | k s1 s2 s3 j where "ialloc sb type s = Inr (Some (k, s1))" "ilock sb me k s1 = Inr s2"
      "s3 = update_at sb k (upd_inode k (\<lambda>i. i\<lparr>major := maj, minor := mnr, nlink := 1\<rparr>) s2)" "fs_ok sb s3" "k < NINODE" "k \<noteq> dp"
      "holding me k s3" "inum (itab s3 ! k) = j" "1 \<le> j" "j < ninodes sb" "\<not> allocated sb (fdisk s) j" "refs s j = 0"
      "refs s3 = (refs s)(j := 1)" "dino sb (fdisk s3) j = created j type maj mnr" "only_file sb j (fdisk s) (fdisk s3)"
      "\<And>l. l < NINODE \<Longrightarrow> l \<noteq> k \<Longrightarrow> itab s3 ! l = itab s ! l"
proof -
  note result = that
  note T = table_okD [OF fs_okD(2) [OF ok]]
  have np: "ialloc_from sb 1 type s \<noteq> Inl e" for e by (rule ialloc_room [OF T(1) slot_free [OF ok room]])
  consider "ialloc_from sb 1 type s = Inr None" "\<forall>j. 1 \<le> j \<and> j < ninodes sb \<longrightarrow> allocated sb (fdisk s) j"
    | k s1 where "ialloc_from sb 1 type s = Inr (Some (k, s1))" "fs_ok sb s1" "k < NINODE" "0 < iref (itab s1 ! k)"
        "1 \<le> inum (itab s1 ! k)" "\<not> allocated sb (fdisk s) (inum (itab s1 ! k))" "allocated sb (fdisk s1) (inum (itab s1 ! k))"
        "dino sb (fdisk s1) (inum (itab s1 ! k)) = fresh_inode (inum (itab s1 ! k)) type"
        "only_file sb (inum (itab s1 ! k)) (fdisk s) (fdisk s1)"
        "refs s1 = (refs s)(inum (itab s1 ! k) := refs s (inum (itab s1 ! k)) + 1)"
        "ilock_owner (itab s1 ! k) = ilock_owner (itab s ! k)" "\<forall>l < NINODE. l \<noteq> k \<longrightarrow> itab s1 ! l = itab s ! l"
    using ialloc_from_effect [OF ok le_refl t] np unfolding Let_def by blast
  then show ?thesis
  proof cases
    case 1
    then show ?thesis using result(1) by (simp add: ialloc_def)
  next
    case (2 k s1)
    note G = 2
    define j where "j = inum (itab s1 ! k)"
    note G = G [folded j_def]
    have dpa: "allocated sb (fdisk s) (inum (itab s ! dp))" by (rule held_disk(2) [OF ok dp])
    have kd: "k \<noteq> dp"
    proof
      assume e: "k = dp"
      have "ilock_owner (itab s1 ! k) = Some me" using G(11) held_disk(3) [OF ok dp] e by simp
      have "refs s1 j = refs s j + 1" using G(10) by simp
      moreover have "0 < refs s (inum (itab s ! dp))" using refs_entry [OF fs_okD(2) [OF ok] dp(1)] held_entry(1) [OF ok dp] by simp
      ultimately show False
      proof -
        have "refs s1 (inum (itab s ! dp)) = refs s (inum (itab s ! dp))" using G(10) G(6) dpa by auto
        then have "0 < refs s1 (inum (itab s ! dp))" using \<open>0 < refs s (inum (itab s ! dp))\<close> by simp
        then obtain l where l: "l < NINODE" "0 < iref (itab s1 ! l)" "inum (itab s1 ! l) = inum (itab s ! dp)"
          using used_inums(1) [OF G(2)] by (metis (mono_tags, lifting) imageE mem_Collect_eq)
        have "l \<noteq> k" using l(3) G(6) dpa j_def by auto
        then have "itab s ! l = itab s1 ! l" using G(12) l(1) by simp
        then show False using T(3) [OF l(1) dp(1)] l held_entry(1) [OF ok dp] e \<open>l \<noteq> k\<close> by simp
      qed
    qed
    have uk: "ilock_owner (itab s1 ! k) = None" using G(11) u G(3) kd by simp
    obtain s2 where L: "ilock sb me k s1 = Inr s2" "fs_ok sb s2" "fdisk s2 = fdisk s1" "refs s2 = refs s1" "holding me k s2"
      "inum (itab s2 ! k) = j" "\<And>l. l < NINODE \<Longrightarrow> l \<noteq> k \<Longrightarrow> itab s2 ! l = itab s1 ! l"
      by (rule lock_effect [OF G(2,3,4) uk, of me]) (use G(7) j_def in auto)
    define s3 where "s3 = update_at sb k (upd_inode k (\<lambda>i. i\<lparr>major := maj, minor := mnr, nlink := 1\<rparr>) s2)"
    note S = set_link_effect [OF L(2) G(3) L(5) s3_def, unfolded L(6)]
    have jn: "j < ninodes sb" using G(7) by (simp add: allocated_def)
    have rj: "refs s j = 0"
    proof -
      have "\<not> 0 < refs s j" using a G(6) by blast
      moreover have "0 \<le> refs s j" unfolding refs_def using T(2) by (intro sum_nonneg) auto
      ultimately show ?thesis by simp
    qed
    show ?thesis
    proof (rule result(2) [OF _ L(1) s3_def S(1) G(3) kd S(3,4) G(5) jn G(6) rj])
      show "ialloc sb type s = Inr (Some (k, s1))" using G(1) by (simp add: ialloc_def)
      show "refs s3 = (refs s)(j := 1)" using S(2) L(4) G(10) rj by simp
      show "dino sb (fdisk s3) j = created j type maj mnr" using S(8) L(3) G(8) by (simp add: created_def)
      show "only_file sb j (fdisk s) (fdisk s3)" using only_file_trans [OF G(9)] S(7) L(3) by simp
      show "itab s3 ! l = itab s ! l" if "l < NINODE" "l \<noteq> k" for l using S(6) [OF that] L(7) [OF that] G(12) that by simp
    qed
  qed
qed

lemma no_blocks: "addrs (dino sb dk i) = replicate (NDIRECT + 1) 0 \<Longrightarrow> file_blocks sb dk i = {}"
  by (auto simp: file_blocks_def slot_def NDIRECT_eq places_def MAXFILE_eq nth_replicate simp del: replicate.simps split: option.splits)

text \<open>The failure of \<open>create\<close>: the new inode, with the only reference, is freed.\<close>

lemma undo_create_effect:
  assumes ok: "fs_ok sb s" and k: "k < NINODE" "holding me k s" and dp: "dp < NINODE" "holding me dp s" and ne: "dp \<noteq> k"
  defines "j \<equiv> inum (itab s ! k)" and "d \<equiv> inum (itab s ! dp)"
  assumes r: "refs s j = 1" and n: "nlink (dino sb (fdisk s) d) \<noteq> 0" and a: "addrs (dino sb (fdisk s) j) = replicate (NDIRECT + 1) 0"
  obtains s' where "undo_create sb me dp k s = Inr (None, s')" "fs_ok sb s'" "refs s' = (refs s)(j := 0, d := refs s d - 1)"
    "\<And>l. l < NINODE \<Longrightarrow> l \<noteq> k \<Longrightarrow> l \<noteq> dp \<Longrightarrow> itab s' ! l = itab s ! l"
    "ilock_owner (itab s' ! k) = None" "ilock_owner (itab s' ! dp) = None"
    "\<not> allocated sb (fdisk s') j" "only_file sb j (fdisk s) (fdisk s')" "dir_of sb (fdisk s') d = dir_of sb (fdisk s) d"
    "free_blocks sb (fdisk s') = free_blocks sb (fdisk s)"
proof -
  let ?e = "itab s ! k"
  have jd: "d \<noteq> j"
    using table_okD(3) [OF fs_okD(2) [OF ok] dp(1) k(1)] held_entry(1) [OF ok k] held_entry(1) [OF ok dp] ne unfolding j_def d_def by blast
  define s1 where "s1 = update_at sb k (upd_inode k (\<lambda>i. i\<lparr>nlink := 0\<rparr>) s)"
  have "s1 = update_at sb k (upd_inode k (\<lambda>ip. ip\<lparr>major := major ?e, minor := minor ?e, nlink := 0\<rparr>) s)"
    by (simp add: s1_def upd_inode_def)
  note S = set_link_effect [OF ok k this, folded j_def]
  have b: "file_blocks sb (fdisk s1) j = {}" by (rule no_blocks) (use S(8) a in simp)
  have c: "refs s1 (inum (itab s1 ! k)) = 1 \<and> nlink (dino sb (fdisk s1) (inum (itab s1 ! k))) = 0" using S(2,4,8) r by simp
  obtain s2 where X: "iunlockput sb me k s1 = Inr s2" "fs_ok sb s2" "refs s2 = (refs s1)(j := refs s1 j - 1)"
    "\<And>l. l < NINODE \<Longrightarrow> l \<noteq> k \<Longrightarrow> itab s2 ! l = itab s1 ! l" "ilock_owner (itab s2 ! k) = None"
    "\<not> allocated sb (fdisk s2) j \<and> only_file sb j (fdisk s1) (fdisk s2) \<and>
      free_blocks sb (fdisk s2) = free_blocks sb (fdisk s1) \<union> file_blocks sb (fdisk s1) j"
    by (rule release_effect [OF S(1) k(1) S(3), unfolded S(4)]) (use c S(4) in auto)
  have e2: "itab s2 ! dp = itab s ! dp" using X(4) [OF dp(1) ne] S(6) [OF dp(1) ne] by simp
  have h2: "holding me dp s2" using dp(2) by (simp add: holding_def e2)
  have of: "only_file sb j (fdisk s) (fdisk s2)" using only_file_trans [OF S(7)] X(6) by blast
  have da: "allocated sb (fdisk s) d" using held_disk(2) [OF ok dp] by (simp add: d_def)
  have nd: "\<not> (refs s2 (inum (itab s2 ! dp)) = 1 \<and> nlink (dino sb (fdisk s2) (inum (itab s2 ! dp))) = 0)"
    using stays_allocated(2) [OF of da jd] n by (simp add: e2 flip: d_def)
  obtain s3 where Y: "iunlockput sb me dp s2 = Inr s3" "fs_ok sb s3" "refs s3 = (refs s2)(d := refs s2 d - 1)"
    "\<And>l. l < NINODE \<Longrightarrow> l \<noteq> dp \<Longrightarrow> itab s3 ! l = itab s2 ! l" "ilock_owner (itab s3 ! dp) = None" "fdisk s3 = fdisk s2"
    by (rule release_effect [OF X(2) dp(1) h2]) (use nd e2 d_def in auto)
  show ?thesis
  proof (rule that [OF _ Y(2)])
    show "undo_create sb me dp k s = Inr (None, s3)" using X(1) Y(1) by (simp add: undo_create_def andthen_def s1_def)
    show "refs s3 = (refs s)(j := 0, d := refs s d - 1)" using Y(3) X(3) S(2) r jd by (auto simp: fun_eq_iff)
    show "itab s3 ! l = itab s ! l" if "l < NINODE" "l \<noteq> k" "l \<noteq> dp" for l
      using Y(4) [OF that(1,3)] X(4) [OF that(1,2)] S(6) [OF that(1,2)] by simp
    show "ilock_owner (itab s3 ! k) = None" using Y(4) [OF k(1)] ne X(5) by simp
    show "ilock_owner (itab s3 ! dp) = None" by (rule Y(5))
    show "\<not> allocated sb (fdisk s3) j" "only_file sb j (fdisk s) (fdisk s3)" using X(6) Y(6) of by simp_all
    show "dir_of sb (fdisk s3) d = dir_of sb (fdisk s) d" using dirs_apart [OF of da jd] Y(6) by simp
    show "free_blocks sb (fdisk s3) = free_blocks sb (fdisk s)" using X(6) Y(6) S(10) b by simp
  qed
qed

lemma used_insert:
  assumes "fs_ok sb s" "\<And>i. i \<noteq> j \<Longrightarrow> refs s' i = refs s i"
  shows "card {i. 0 < refs s' i} \<le> Suc (card {i. 0 < refs s i})"
proof -
  have "{i. 0 < refs s' i} \<subseteq> insert j {i. 0 < refs s i}" using assms(2) by force
  then have "card {i. 0 < refs s' i} \<le> card (insert j {i. 0 < refs s i})" by (rule card_mono [rotated]) (simp add: finite_used [OF assms(1)])
  also have "\<dots> \<le> Suc (card {i. 0 < refs s i})" by (rule card_insert_le_m1 [of "Suc _", simplified]) simp_all
  finally show ?thesis .
qed

definition is_dir :: "superblock \<Rightarrow> disk \<Rightarrow> nat \<Rightarrow> bool" where
  "is_dir sb dk d \<longleftrightarrow> allocated sb dk d \<and> itype (dino sb dk d) = T_DIR \<and> nlink (dino sb dk d) \<noteq> 0 \<and> 16 dvd unat (isize (dino sb dk d))"

lemma create_effect:
  assumes r: "ready sb s cwd" and f: "finds sb s cwd path d name" and z: "0 \<notin> set path"
    and n: "dir_of sb (fdisk s) d name = None" and t: "type \<noteq> 0" "type \<noteq> T_DIR" and w: "ninodes sb \<le> 2 ^ 16"
  shows "\<exists>r s'. create sb me cwd path type maj mnr s = Inr (r, s') \<and> fs_ok sb s' \<and> is_dir sb (fdisk s') d \<and>
    (case r of
       None \<Rightarrow> idle s' \<and> refs s' = refs s \<and> dir_of sb (fdisk s') d = dir_of sb (fdisk s) d \<and>
         ((\<forall>j. 1 \<le> j \<and> j < ninodes sb \<longrightarrow> allocated sb (fdisk s) j) \<and> fdisk s' = fdisk s \<or>
          (\<exists>j. \<not> allocated sb (fdisk s) j \<and> \<not> allocated sb (fdisk s') j \<and> only_files sb {d, j} (fdisk s) (fdisk s') \<and>
            BSIZE dvd unat (isize (dino sb (fdisk s) d)) \<and>
            (free_blocks sb (fdisk s') = {} \<or> unat (isize (dino sb (fdisk s) d)) = MAXFILE * BSIZE)))
     | Some k \<Rightarrow> k < NINODE \<and> holding me k s' \<and> (\<forall>l < NINODE. l \<noteq> k \<longrightarrow> ilock_owner (itab s' ! l) = None) \<and>
         (let j = inum (itab s' ! k) in
            1 \<le> j \<and> j < ninodes sb \<and> \<not> allocated sb (fdisk s) j \<and> dino sb (fdisk s') j = created j type maj mnr \<and>
            dir_of sb (fdisk s') d = (dir_of sb (fdisk s) d)(name \<mapsto> j) \<and> only_files sb {d, j} (fdisk s) (fdisk s') \<and>
            refs s' = (refs s)(j := 1)))"
proof (rule parent_effect [OF r f z])
  fix dp s1
  assume P: "nameiparent sb me cwd path s = Inr (Some (dp, name), s1)" "fs_ok sb s1" "fdisk s1 = fdisk s" "idle s1"
    "dp < NINODE" "0 < iref (itab s1 ! dp)" "inum (itab s1 ! dp) = d" "refs s1 = (refs s)(d := refs s d + 1)"
    "allocated sb (fdisk s) d" "nlink (dino sb (fdisk s) d) \<noteq> 0" "itype (dino sb (fdisk s) d) = T_DIR"
    "16 dvd unat (isize (dino sb (fdisk s) d))" "good_name name" "card {i. 0 < refs s1 i} + 2 \<le> NINODE"
  let ?dk = "fdisk s"
  have u1: "ilock_owner (itab s1 ! k) = None" if "k < NINODE" for k using P(4) that by (simp add: idle_def)
  have a1: "allocated sb (fdisk s1) (inum (itab s1 ! dp))" using P(3,7,9) by simp
  obtain s2 where L: "ilock sb me dp s1 = Inr s2" "fs_ok sb s2" "fdisk s2 = fdisk s1" "refs s2 = refs s1" "holding me dp s2"
    "inum (itab s2 ! dp) = inum (itab s1 ! dp)" "\<And>l. l < NINODE \<Longrightarrow> l \<noteq> dp \<Longrightarrow> itab s2 ! l = itab s1 ! l"
    "on_disk (itab s2 ! dp) = on_disk (dino sb (fdisk s1) (inum (itab s1 ! dp)))"
    by (rule lock_effect [OF P(2,5,6) u1 [OF P(5)] a1, of me]) blast
  note cong = on_disk_cong [OF L(8), unfolded P(3,7)]
  have t2: "itype (itab s2 ! dp) = T_DIR" "16 dvd unat (isize (itab s2 ! dp))" using cong(6,8) P(11,12) by simp_all
  have e2: "fdisk s2 = ?dk" "inum (itab s2 ! dp) = d" using L(3,6) P(3,7) by simp_all
  have "dir_find (dir_entries (contents ?dk (dino sb ?dk d))) name = None" using n by (simp add: dir_of_def dir_map_def)
  then have look: "dirlookup sb dp name s2 = Inr (None, s2)"
    using dirlookup_effect [OF L(2) P(5) L(5) t2 P(13), unfolded e2] by simp
  have u2: "ilock_owner (itab s2 ! l) = None" if "l < NINODE" "l \<noteq> dp" for l using L(7) [OF that] u1 that by simp
  have c2: "card {i. 0 < refs s2 i} < NINODE" using P(14) L(4) by simp
  have U2: "\<forall>l < NINODE. l \<noteq> dp \<longrightarrow> ilock_owner (itab s2 ! l) = None" using u2 by blast
  have a2: "\<forall>i. 0 < refs s2 i \<longrightarrow> allocated sb (fdisk s2) i"
    using r P(8,9) L(4) e2(1) by (auto simp: ready_def split: if_splits)
  have nd: "\<not> (refs s2 (inum (itab s2 ! dp)) = 1 \<and> nlink (dino sb (fdisk s2) (inum (itab s2 ! dp))) = 0)" using e2 P(10) by simp
  have id0: "is_dir sb ?dk d" using P(9-12) by (simp add: is_dir_def)
  have start: "create sb me cwd path type maj mnr s =
      andthen (ialloc sb type s2) (\<lambda>r.
        case r of
          None \<Rightarrow> andthen (iunlockput sb me dp s2) (\<lambda>s. Inr (None, s))
        | Some (k, s) \<Rightarrow>
            andthen (ilock sb me k s) (\<lambda>s.
              let s = update_at sb k (upd_inode k (\<lambda>i. i\<lparr>major := maj, minor := mnr, nlink := 1\<rparr>) s) in
              andthen (dirlink sb me dp name (inum (itab s ! k)) s) (\<lambda>(r, s).
                if r < 0 then undo_create sb me dp k s
                else andthen (iunlockput sb me dp s) (\<lambda>s. Inr (Some k, s)))))"
    using P(1) L(1) look t(2) by (simp add: create_def andthen_def Let_def split: sum.split option.split)
  show ?thesis
  proof (cases rule: new_inode_effect [OF L(2) P(5) L(5) t(1) c2 U2 a2, where maj = maj and mnr = mnr])
    case 1
    obtain s3 where X: "iunlockput sb me dp s2 = Inr s3" "fs_ok sb s3" "refs s3 = (refs s2)(d := refs s2 d - 1)"
      "\<And>l. l < NINODE \<Longrightarrow> l \<noteq> dp \<Longrightarrow> itab s3 ! l = itab s2 ! l" "ilock_owner (itab s3 ! dp) = None" "fdisk s3 = fdisk s2"
      by (rule release_effect [OF L(2) P(5) L(5)]) (use nd e2(2) in auto)
    have "create sb me cwd path type maj mnr s = Inr (None, s3)" using start 1(1) X(1) by (simp add: andthen_def)
    moreover have "idle s3" unfolding idle_def using X(4,5) u2 by metis
    moreover have "refs s3 = refs s" using X(3) L(4) P(8) by (auto simp: fun_eq_iff)
    ultimately show ?thesis using X(2,6) e2(1) 1(2) id0 by (intro exI [of _ None] exI [of _ s3]) simp
  next
    case (2 k s3 s4 s5 j)
    note G = 2 [unfolded e2(1)]
    have dj: "d \<noteq> j" using G(11) P(9) by blast
    have ed: "itab s5 ! dp = itab s2 ! dp" by (rule G(16) [OF P(5)]) (use G(6) in simp)
    have h5: "holding me dp s5" "inum (itab s5 ! dp) = d" using L(5) e2(2) by (simp_all add: holding_def ed)
    have c5: "card {i. 0 < refs s5 i} < NINODE"
      using used_insert [OF L(2), of j s5] G(13) P(14) L(4) by simp
    note D5 = stays_allocated [OF G(15) P(9) dj] and N5 = dirs_apart [OF G(15) P(9) dj]
    have t5: "itype (itab s5 ! dp) = T_DIR" "16 dvd unat (isize (itab s5 ! dp))" using t2 by (simp_all add: ed)
    have w5: "0 < j" "j < 2 ^ 16" using G(9,10) w by simp_all
    have pr5: "1 \<le> i \<and> i < ninodes sb \<and> nlink (dino sb (fdisk s5) i) \<noteq> 0"
      if "dir_of sb (fdisk s5) (inum (itab s5 ! dp)) name = Some i" for i using that n N5 h5(2) by simp
    have nn: "dir_of sb (fdisk s5) d name = None" using n N5 by simp
    from dirlink_effect [OF G(4) P(5) h5(1) t5 P(13) w5 c5 pr5, unfolded h5(2)]
    obtain r' s6 where K: "dirlink sb me dp name j s5 = Inr (r', s6)" "fs_ok sb s6" "refs s6 = refs s5" "holding me dp s6"
      "inum (itab s6 ! dp) = d" "only_file sb d (fdisk s5) (fdisk s6)"
      "\<And>m. m < NINODE \<Longrightarrow> ilock_owner (itab s6 ! m) = ilock_owner (itab s5 ! m)"
      "\<And>m. m < NINODE \<Longrightarrow> 0 < iref (itab s5 ! m) \<Longrightarrow> inum (itab s6 ! m) = inum (itab s5 ! m)"
      "nlink (dino sb (fdisk s6) d) = nlink (dino sb (fdisk s5) d)" "itype (dino sb (fdisk s6) d) = T_DIR"
      "16 dvd unat (isize (dino sb (fdisk s6) d))"
      "if r' = 0 then dir_of sb (fdisk s6) d = (dir_of sb (fdisk s5) d)(name \<mapsto> j)
       else r' = -1 \<and> dir_of sb (fdisk s6) d = dir_of sb (fdisk s5) d \<and> BSIZE dvd unat (isize (itab s5 ! dp)) \<and>
         (free_blocks sb (fdisk s6) = {} \<or> unat (isize (itab s5 ! dp)) = MAXFILE * BSIZE)"
      unfolding nn option.case by blast
    have h6: "holding me k s6" using G(7) K(7) [OF G(5)] by (simp add: holding_def)
    have j6: "inum (itab s6 ! k) = j" using K(8) [OF G(5) held_entry(1) [OF G(4,5,7)]] G(8) by simp
    have ad: "allocated sb (fdisk s6) d" using D5(1) K(10) by (simp add: allocated_def T_DIR_def)
    then have id6: "is_dir sb (fdisk s6) d" using K(9-11) D5(2) P(10) by (simp add: is_dir_def)
    have n6: "nlink (dino sb (fdisk s6) d) \<noteq> 0" using K(9) D5(2) P(10) by simp
    have aj: "allocated sb (fdisk s5) j" using held_disk(2) [OF G(4,5,7)] G(8) by simp
    note J6 = stays_allocated [OF K(6) aj dj [symmetric]]
    have u6: "ilock_owner (itab s6 ! l) = None" if "l < NINODE" "l \<noteq> k" "l \<noteq> dp" for l
      using K(7) [OF that(1)] G(16) [OF that(1,2)] u2 [OF that(1,3)] by simp
    have I: "d \<in> {d, j}" "j \<in> {d, j}" by simp_all
    note of6 = only_files_trans [OF only_files_one [OF G(15) I(2)] only_files_one [OF K(6) I(1)]]
    have step: "create sb me cwd path type maj mnr s =
        (if r' < 0 then undo_create sb me dp k s6 else andthen (iunlockput sb me dp s6) (\<lambda>s. Inr (Some k, s)))"
      using start G(1,2) K(1) G(3) G(8) by (simp add: andthen_def Let_def)
    show ?thesis
    proof (cases "r' = 0")
      case True
      have nd6: "\<not> (refs s6 (inum (itab s6 ! dp)) = 1 \<and> nlink (dino sb (fdisk s6) (inum (itab s6 ! dp))) = 0)" using K(5) n6 by simp
      obtain s7 where X: "iunlockput sb me dp s6 = Inr s7" "fs_ok sb s7" "refs s7 = (refs s6)(d := refs s6 d - 1)"
        "\<And>l. l < NINODE \<Longrightarrow> l \<noteq> dp \<Longrightarrow> itab s7 ! l = itab s6 ! l" "ilock_owner (itab s7 ! dp) = None" "fdisk s7 = fdisk s6"
        by (rule release_effect [OF K(2) P(5) K(4)]) (use nd6 K(5) in auto)
      have run: "create sb me cwd path type maj mnr s = Inr (Some k, s7)" using step True X(1) by (simp add: andthen_def)
      have k7: "itab s7 ! k = itab s6 ! k" by (rule X(4) [OF G(5,6)])
      have "holding me k s7" using h6 by (simp add: holding_def k7)
      moreover have "\<forall>l < NINODE. l \<noteq> k \<longrightarrow> ilock_owner (itab s7 ! l) = None" using X(4,5) u6 by metis
      moreover have "refs s7 = (refs s)(j := 1)" using X(3) K(3) G(13) L(4) P(8) dj by (auto simp: fun_eq_iff)
      moreover have "dir_of sb (fdisk s7) d = (dir_of sb ?dk d)(name \<mapsto> j)" using K(12) True N5 X(6) by simp
      moreover have "dino sb (fdisk s7) j = created j type maj mnr" using J6(2) G(14) X(6) by simp
      ultimately show ?thesis using run X(2,6) of6 G(5,9,10,11) j6 k7 id6
        by (intro exI [of _ "Some k"] exI [of _ s7]) (simp add: Let_def)
    next
      case False
      have r6: "refs s6 (inum (itab s6 ! k)) = 1" "addrs (dino sb (fdisk s6) (inum (itab s6 ! k))) = replicate (NDIRECT + 1) 0"
        "nlink (dino sb (fdisk s6) (inum (itab s6 ! dp))) \<noteq> 0"
        using j6 K(3,5) G(13) J6(2) G(14) n6 by (simp_all add: created_def fresh_inode_def)
      obtain s7 where U: "undo_create sb me dp k s6 = Inr (None, s7)" "fs_ok sb s7" "refs s7 = (refs s6)(j := 0, d := refs s6 d - 1)"
        "\<And>l. l < NINODE \<Longrightarrow> l \<noteq> k \<Longrightarrow> l \<noteq> dp \<Longrightarrow> itab s7 ! l = itab s6 ! l"
        "ilock_owner (itab s7 ! k) = None" "ilock_owner (itab s7 ! dp) = None" "\<not> allocated sb (fdisk s7) j"
        "only_file sb j (fdisk s6) (fdisk s7)" "dir_of sb (fdisk s7) d = dir_of sb (fdisk s6) d"
        "free_blocks sb (fdisk s7) = free_blocks sb (fdisk s6)"
        by (rule undo_create_effect [OF K(2) G(5) h6 P(5) K(4) G(6) [symmetric] r6(1,3,2), unfolded j6 K(5)]) blast
      have run: "create sb me cwd path type maj mnr s = Inr (None, s7)" using step False K(12) U(1) by simp
      have "is_dir sb (fdisk s7) d" using id6 stays_allocated [OF U(8) ad dj] by (simp add: is_dir_def)
      moreover have "idle s7" unfolding idle_def using U(4-6) u6 by metis
      moreover have "refs s7 = refs s" using U(3) K(3) G(12,13) L(4) P(8) dj by (auto simp: fun_eq_iff)
      moreover have "dir_of sb (fdisk s7) d = dir_of sb ?dk d" using U(9) K(12) False N5 by simp
      moreover have "free_blocks sb (fdisk s7) = {} \<or> unat (isize (dino sb ?dk d)) = MAXFILE * BSIZE"
        "BSIZE dvd unat (isize (dino sb ?dk d))"
        using K(12) False U(10) ed cong(8) by simp_all
      moreover have "only_files sb {d, j} ?dk (fdisk s7)" by (rule only_files_trans [OF of6 only_files_one [OF U(8) I(2)]])
      ultimately show ?thesis using run U(2,7) G(11) by (intro exI [of _ None] exI [of _ s7]) auto
    qed
  qed
qed

text \<open>
  C10. Creating a file or a device under a name that is free: the new inode, which was free before, has the type
  and the numbers asked for, one link and no data, the directory has the name for it and all other names as
  before, and the process has it locked with a first reference. Otherwise there is no free inode and nothing
  changes, or the directory cannot grow because the disk is full, and then the new inode is free again and the
  directory as before. No other file changes, no other reference or lock is left, and nothing panics.
\<close>

theorem create_makes_file:
  assumes r: "ready sb s cwd" and f: "finds sb s cwd path d name" and z: "0 \<notin> set path"
    and n: "dir_of sb (fdisk s) d name = None" and t: "type \<noteq> 0" "type \<noteq> T_DIR" and w: "ninodes sb \<le> 2 ^ 16"
  shows "\<exists>r s'. create sb me cwd path type maj mnr s = Inr (r, s') \<and> fs_ok sb s' \<and> is_dir sb (fdisk s') d \<and>
    (case r of
       None \<Rightarrow> idle s' \<and> refs s' = refs s \<and> dir_of sb (fdisk s') d = dir_of sb (fdisk s) d \<and>
         ((\<forall>j. 1 \<le> j \<and> j < ninodes sb \<longrightarrow> allocated sb (fdisk s) j) \<and> fdisk s' = fdisk s \<or>
          (\<exists>j. \<not> allocated sb (fdisk s) j \<and> \<not> allocated sb (fdisk s') j \<and> only_files sb {d, j} (fdisk s) (fdisk s') \<and>
            BSIZE dvd unat (isize (dino sb (fdisk s) d)) \<and>
            (free_blocks sb (fdisk s') = {} \<or> unat (isize (dino sb (fdisk s) d)) = MAXFILE * BSIZE)))
     | Some k \<Rightarrow> k < NINODE \<and> holding me k s' \<and> (\<forall>l < NINODE. l \<noteq> k \<longrightarrow> ilock_owner (itab s' ! l) = None) \<and>
         (let j = inum (itab s' ! k) in
            1 \<le> j \<and> j < ninodes sb \<and> \<not> allocated sb (fdisk s) j \<and> dino sb (fdisk s') j = created j type maj mnr \<and>
            dir_of sb (fdisk s') d = (dir_of sb (fdisk s) d)(name \<mapsto> j) \<and> only_files sb {d, j} (fdisk s) (fdisk s') \<and>
            refs s' = (refs s)(j := 1)))"
  by (rule create_effect [OF assms])

section \<open>A first file\<close>

lemma home_ready: "ready small_sb home_fs 0"
proof -
  have "{i. 0 < refs home_fs i} = {1}" by (auto simp: home_refs)
  then show ?thesis
    using home_ok home_idle
    by (simp add: ready_def home_table home_refs tiny_allocated root_inode_def small_sb_simps NINODE_def ROOTINO_def)
qed

lemma home_finds: "finds small_sb home_fs 0 [47, 120] 1 [120]"
proof -
  have p: "path_names [47, 120] = [[120]]" by code_simp
  show ?thesis
    unfolding finds_def p
    by (simp add: slash_def ROOTINO_def home_table tiny_dinos root_names tiny_allocated small_sb_simps del: One_nat_def) (simp add: root_inode_def)
qed

lemma home_create:
  assumes "\<exists>r s'. create small_sb 7 0 [47, 120] T_FILE 0 0 home_fs = Inr (r, s') \<and> fs_ok small_sb s' \<and> is_dir small_sb (fdisk s') 1 \<and>
    (case r of
       None \<Rightarrow> idle s' \<and> refs s' = refs home_fs \<and> dir_of small_sb (fdisk s') 1 = dir_of small_sb (fdisk home_fs) 1 \<and>
         ((\<forall>j. 1 \<le> j \<and> j < ninodes small_sb \<longrightarrow> allocated small_sb (fdisk home_fs) j) \<and> fdisk s' = fdisk home_fs \<or>
          (\<exists>j. \<not> allocated small_sb (fdisk home_fs) j \<and> \<not> allocated small_sb (fdisk s') j \<and> only_files small_sb {1, j} (fdisk home_fs) (fdisk s') \<and>
            BSIZE dvd unat (isize (dino small_sb (fdisk home_fs) 1)) \<and>
            (free_blocks small_sb (fdisk s') = {} \<or> unat (isize (dino small_sb (fdisk home_fs) 1)) = MAXFILE * BSIZE)))
     | Some k \<Rightarrow> P k s')"
  shows "\<exists>k s'. create small_sb 7 0 [47, 120] T_FILE 0 0 home_fs = Inr (Some k, s') \<and> fs_ok small_sb s' \<and> is_dir small_sb (fdisk s') 1 \<and> P k s'"
proof -
  have "\<not> allocated small_sb tiny_disk 3" "\<not> BSIZE dvd 32" by (simp_all add: tiny_allocated BSIZE_eq)
  moreover have "isize (dino small_sb tiny_disk 1) = 32" by (simp only: tiny_dinos) (simp add: root_inode_def)
  ultimately show ?thesis using assms by (fastforce simp: home_table small_sb_simps split: option.splits)
qed

theorem create_makes_file_witness:
  "\<exists>k s'. create small_sb 7 0 [47, 120] T_FILE 0 0 home_fs = Inr (Some k, s') \<and>
    dir_of small_sb (fdisk s') 1 [120] = Some (inum (itab s' ! k)) \<and>
    itype (dino small_sb (fdisk s') (inum (itab s' ! k))) = T_FILE \<and> dir_of small_sb (fdisk s') 1 [46] = Some 1"
proof -
  have n: "dir_of small_sb (fdisk home_fs) 1 [120] = None" by (simp only: home_table root_names)
  have z: "(0 :: byte) \<notin> set [47, 120]" "T_FILE \<noteq> 0" "T_FILE \<noteq> T_DIR" "ninodes small_sb \<le> 2 ^ 16"
    by (simp_all add: T_FILE_def T_DIR_def small_sb_simps)
  from home_create [OF create_makes_file [OF home_ready home_finds z(1) n z(2-4), of 7 0 0]]
  show ?thesis by (auto simp: Let_def created_def fresh_inode_def home_table root_names simp del: One_nat_def)
qed

text \<open>The inode 2 of the small disk, a file of two bytes, opened for writing at its end.\<close>

lemma home_iget: obtains k s where "iget 2 home_fs = Inr (k, s)" "k < NINODE" "fs_ok small_sb s" "fdisk s = tiny_disk"
  "inum (itab s ! k) = 2" "0 < iref (itab s ! k)" "ilock_owner (itab s ! k) = None"
proof (rule iget_effect [OF home_ok, of 2])
  assume "\<forall>k < NINODE. iref (itab home_fs ! k) \<noteq> 0"
  then have "iref (itab home_fs ! 1) \<noteq> 0" by (simp add: NINODE_def)
  then show thesis by (simp add: home_table iinit_def NINODE_def)
next
  fix k s
  assume g: "iget 2 home_fs = Inr (k, s)" "k < NINODE" "fs_ok small_sb s" "fdisk s = fdisk home_fs" "inum (itab s ! k) = 2"
    "0 < iref (itab s ! k)" "ilock_owner (itab s ! k) = ilock_owner (itab home_fs ! k)"
  show thesis
    by (rule that [OF g(1-3) _ g(5,6)]) (use g(2,4,7) home_idle in \<open>simp_all add: home_table(2) idle_def\<close>)
qed (simp_all add: small_sb_simps)

lemma lost_contents: "contents tiny_disk (dino small_sb tiny_disk 2) = [104, 105]"
proof -
  have "isize lost_inode = 2" "[0..<2] = [0, 1 :: nat]" by (simp_all add: lost_inode_def upt_rec)
  then show ?thesis
    by (simp add: contents_def fbyte_def tiny_dinos tiny_slots tiny_disk_at tiny_blocks_def BSIZE_eq)
qed


text \<open>A file \<open>/x\<close>, created and closed.\<close>

lemma home_file: obtains k s1 j s2 l where "create small_sb 7 0 [47, 120] T_FILE 0 0 home_fs = Inr (Some k, s1)"
  "iunlockput small_sb 7 k s1 = Inr s2" "ready small_sb s2 l" "finds small_sb s2 l [47, 120] 1 [120]"
  "dir_of small_sb (fdisk s2) 1 = (dir_of small_sb tiny_disk 1)([120] \<mapsto> j)" "j \<noteq> 1" "allocated small_sb (fdisk s2) j"
  "dino small_sb (fdisk s2) j = created j T_FILE 0 0" "refs s2 j = 0"
proof -
  have n: "dir_of small_sb (fdisk home_fs) 1 [120] = None" by (simp only: home_table root_names)
  have z: "(0 :: byte) \<notin> set [47, 120]" "T_FILE \<noteq> 0" "T_FILE \<noteq> T_DIR" "ninodes small_sb \<le> 2 ^ 16"
    by (simp_all add: T_FILE_def T_DIR_def small_sb_simps)
  from home_create [OF create_effect [OF home_ready home_finds z(1) n z(2-4), of 7 0 0]]
  obtain k s1 where C: "create small_sb 7 0 [47, 120] T_FILE 0 0 home_fs = Inr (Some k, s1)" "fs_ok small_sb s1" "is_dir small_sb (fdisk s1) 1"
    "k < NINODE" "holding 7 k s1" "\<forall>l < NINODE. l \<noteq> k \<longrightarrow> ilock_owner (itab s1 ! l) = None"
    "1 \<le> inum (itab s1 ! k)" "inum (itab s1 ! k) < 16" "\<not> allocated small_sb tiny_disk (inum (itab s1 ! k))"
    "dino small_sb (fdisk s1) (inum (itab s1 ! k)) = created (inum (itab s1 ! k)) T_FILE 0 0"
    "dir_of small_sb (fdisk s1) 1 = (dir_of small_sb tiny_disk 1)([120] \<mapsto> inum (itab s1 ! k))"
    "refs s1 = (refs home_fs)(inum (itab s1 ! k) := 1)"
    by (auto simp: Let_def home_table(2) small_sb_simps(2) simp del: One_nat_def)
  define j where "j = inum (itab s1 ! k)"
  note C = C [folded j_def]
  have j1: "j \<noteq> 1" using C(9) by (auto simp: tiny_allocated)
  have nj: "nlink (dino small_sb (fdisk s1) j) = 1" "itype (dino small_sb (fdisk s1) j) = T_FILE"
    by (simp_all add: C(10) created_def fresh_inode_def)
  obtain s2 where X: "iunlockput small_sb 7 k s1 = Inr s2" "fs_ok small_sb s2" "refs s2 = (refs s1)(j := refs s1 j - 1)"
    "\<And>l. l < NINODE \<Longrightarrow> l \<noteq> k \<Longrightarrow> itab s2 ! l = itab s1 ! l" "ilock_owner (itab s2 ! k) = None" "fdisk s2 = fdisk s1"
    by (rule release_effect [OF C(2,4,5), folded j_def]) (use nj in auto)
  have rf: "refs s2 = refs home_fs" using X(3) C(12) j1 by (auto simp: home_refs fun_eq_iff)
  have "0 < refs s2 1" by (simp add: rf home_refs)
  then obtain l where l: "l < NINODE" "0 < iref (itab s2 ! l)" "inum (itab s2 ! l) = 1"
    using used_inums(1) [OF X(2)] by (metis (mono_tags, lifting) imageE mem_Collect_eq)
  have a1: "allocated small_sb (fdisk s2) 1" using C(3) X(6) by (simp add: is_dir_def)
  have "idle s2" unfolding idle_def using X(4,5) C(6) by metis
  moreover have "{i. 0 < refs s2 i} = {1}" by (auto simp: rf home_refs)
  ultimately have "ready small_sb s2 l"
    using X(2) l a1 by (simp add: ready_def rf home_refs small_sb_simps ROOTINO_def NINODE_def del: One_nat_def) 
  moreover have "finds small_sb s2 l [47, 120] 1 [120]"
  proof -
    have p: "path_names [47, 120] = [[120]]" by code_simp
    show ?thesis unfolding finds_def p using C(3,7,8,11) X(6)
      by (simp add: slash_def ROOTINO_def is_dir_def small_sb_simps del: One_nat_def)
  qed
  moreover have "allocated small_sb (fdisk s2) j" using C(7,8) nj(2) X(6) by (simp add: allocated_def small_sb_simps T_FILE_def)
  ultimately show ?thesis using that [of k s1 s2 l j] C(1,10,11) X(1,6) j1 rf by (simp add: home_refs)
qed

theorem unlink_removes_name_witness:
  "\<exists>k s1 s2 l j s3. create small_sb 7 0 [47, 120] T_FILE 0 0 home_fs = Inr (Some k, s1) \<and> iunlockput small_sb 7 k s1 = Inr s2 \<and>
    dir_of small_sb (fdisk s2) 1 [120] = Some j \<and> allocated small_sb (fdisk s2) j \<and>
    sys_unlink small_sb 7 l (Some [47, 120]) s2 = Inr (0, s3) \<and> \<not> allocated small_sb (fdisk s3) j \<and>
    dir_of small_sb (fdisk s3) 1 [46] = Some 1"
proof -
  obtain k s1 j s2 l where H: "create small_sb 7 0 [47, 120] T_FILE 0 0 home_fs = Inr (Some k, s1)"
    "iunlockput small_sb 7 k s1 = Inr s2" "ready small_sb s2 l" "finds small_sb s2 l [47, 120] 1 [120]"
    "dir_of small_sb (fdisk s2) 1 = (dir_of small_sb tiny_disk 1)([120] \<mapsto> j)" "j \<noteq> 1" "allocated small_sb (fdisk s2) j"
    "dino small_sb (fdisk s2) j = created j T_FILE 0 0" "refs s2 j = 0" by (rule home_file)
  have d: "dir_of small_sb (fdisk s2) 1 [120] = Some j" "dir_of small_sb (fdisk s2) 1 [46] = Some 1"
    by (simp_all add: H(5) root_names del: One_nat_def)
  have c: "(0 :: byte) \<notin> set [47, 120]" "[120] \<noteq> dot" "[120] \<noteq> dotdot" "nlink (dino small_sb (fdisk s2) j) = 1"
    "itype (dino small_sb (fdisk s2) j) \<noteq> T_DIR" "1 \<le> sint (nlink (dino small_sb (fdisk s2) j))"
    by (simp_all add: dot_def dotdot_def H(8) created_def fresh_inode_def T_FILE_def T_DIR_def)
  from unlink_removes_name [OF H(3,4) c(1-3) d(1) H(6,7) c(5,6), of 7]
  obtain s3 where "sys_unlink small_sb 7 l (Some [47, 120]) s2 = Inr (0, s3)" "dir_of small_sb (fdisk s3) 1 [46] = Some 1"
    "\<not> allocated small_sb (fdisk s3) j" using c(4) H(9) d(2) by auto
  with H(1,2,7) d(1) show ?thesis by blast
qed

end
