(* ===== verification/XvSpin.thy ===== *)
theory XvSpin
  imports Prelude
begin

text \<open>
  \<open>xv6/xv6-source/kernel/spinlock.c\<close>: the nesting of disabled interrupts and the spin lock, with any
  number of CPUs that run its statements in turns. A CPU has the fields of \<open>struct cpu\<close> that
  matter and its interrupt enable flag; a lock its two fields. A panic is the left result.
\<close>

section \<open>Interrupts\<close>

record cpu =
  noff :: int
  intena :: bool
  intr :: bool

definition push_off :: "cpu \<Rightarrow> cpu" where
  "push_off c =
     (let old = intr c;
          c = c\<lparr>intr := False\<rparr>;
          c = (if noff c = 0 then c\<lparr>intena := old\<rparr> else c)
      in c\<lparr>noff := noff c + 1\<rparr>)"

definition pop_off :: "cpu \<Rightarrow> string + cpu" where
  "pop_off c =
     (if intr c then Inl ''pop_off - interruptible''
      else if noff c < 1 then Inl ''pop_off''
      else let c = c\<lparr>noff := noff c - 1\<rparr>
           in Inr (if noff c = 0 \<and> intena c then c\<lparr>intr := True\<rparr> else c))"

primrec pops :: "nat \<Rightarrow> cpu \<Rightarrow> string + cpu" where
  "pops 0 c = Inr c"
| "pops (Suc n) c = (case pop_off c of Inl e \<Rightarrow> Inl e | Inr c \<Rightarrow> pops n c)"

lemma push_off_fields [simp]:
  "noff (push_off c) = noff c + 1" "intr (push_off c) = False"
  "intena (push_off c) = (if noff c = 0 then intr c else intena c)"
  by (simp_all add: push_off_def Let_def)

lemma pushes_noff: "0 \<le> noff c \<Longrightarrow> noff ((push_off ^^ n) c) = noff c + int n"
  by (induction n) auto

lemma pop_push:
  assumes "0 < noff c" "\<not> intr c" shows "pop_off (push_off c) = Inr c"
  using assms by (cases c) (simp add: pop_off_def push_off_def)

lemma pops_pushes_inner: "0 < noff c \<Longrightarrow> \<not> intr c \<Longrightarrow> pops n ((push_off ^^ n) c) = Inr c"
proof (induction n)
  case (Suc n)
  let ?c = "(push_off ^^ n) c"
  have "0 < noff ?c" using Suc.prems pushes_noff [of c n] by simp
  moreover have "\<not> intr ?c" using Suc.prems by (cases n) simp_all
  ultimately show ?case using Suc pop_push [of ?c] by simp
qed simp

text \<open>
  Interrupts nest: after any number of calls of \<open>push_off\<close> they are off, and as many calls of \<open>pop_off\<close>
  succeed and leave them as they were before, on or off.
\<close>

theorem push_pop_nest:
  assumes "noff c = 0" "0 < n"
  shows "\<not> intr ((push_off ^^ n) c) \<and>
    (\<exists>c'. pops n ((push_off ^^ n) c) = Inr c' \<and> intr c' = intr c \<and> noff c' = 0)"
proof -
  obtain k where n: "n = Suc k" using assms(2) by (cases n) auto
  let ?c = "push_off c"
  have "(push_off ^^ n) c = (push_off ^^ k) ?c" by (simp add: n funpow_swap1)
  moreover have "pops (k + m) ((push_off ^^ k) ?c) = pops m ?c" for m
  proof -
    have app: "pops (a + b) d = (case pops a d of Inl e \<Rightarrow> Inl e | Inr d \<Rightarrow> pops b d)" for a b d
      by (induction a arbitrary: d) (auto split: sum.splits)
    show ?thesis using pops_pushes_inner [of ?c k] assms(1) by (simp add: app)
  qed
  from this [of 1] have "pops n ((push_off ^^ k) ?c) = pops 1 ?c" by (simp add: n)
  moreover have "\<not> intr ((push_off ^^ n) c)" by (simp add: n)
  moreover have "\<exists>c'. pops 1 ?c = Inr c' \<and> intr c' = intr c \<and> noff c' = 0"
    using assms(1) by (auto simp: pop_off_def push_off_def Let_def)
  ultimately show ?thesis by simp
qed

theorem push_pop_nest_witness:
  "\<exists>c'. pops 3 ((push_off ^^ 3) \<lparr>noff = 0, intena = False, intr = True\<rparr>) = Inr c' \<and> intr c' \<and> noff c' = 0"
  using push_pop_nest [of "\<lparr>noff = 0, intena = False, intr = True\<rparr>" 3] by simp

section \<open>The lock\<close>

record lock =
  locked :: bool
  owner :: "nat option"

definition initlock :: lock where
  "initlock = \<lparr>locked = False, owner = None\<rparr>"

definition holding :: "nat \<Rightarrow> lock \<Rightarrow> bool" where
  "holding me lk \<longleftrightarrow> locked lk \<and> owner lk = Some me"

text \<open>
  Where a CPU is: outside, in \<open>acquire\<close> before the check, before the atomic swap and before it sets
  the owner, in the critical section, in \<open>release\<close> before \<open>locked\<close> is cleared and before \<open>pop_off\<close>,
  or in a panic.
\<close>

datatype point = Outside | Checking | Spinning | Taking | Inside | Clearing | Leaving | Panicked string

record machine =
  lk :: lock
  cpus :: "nat \<Rightarrow> cpu"
  at :: "nat \<Rightarrow> point"

definition goto :: "nat \<Rightarrow> point \<Rightarrow> machine \<Rightarrow> machine" where
  "goto me p s = s\<lparr>at := (at s)(me := p)\<rparr>"

text \<open>The statements of \<open>acquire\<close>, one shared access at a time.\<close>

definition acquire_step :: "nat \<Rightarrow> machine \<Rightarrow> machine" where
  "acquire_step me s =
     (case at s me of
        Outside \<Rightarrow> goto me Checking (s\<lparr>cpus := (cpus s)(me := push_off (cpus s me))\<rparr>)
      | Checking \<Rightarrow> if holding me (lk s) then goto me (Panicked ''acquire'') s else goto me Spinning s
      | Spinning \<Rightarrow> if locked (lk s) then s else goto me Taking (s\<lparr>lk := (lk s)\<lparr>locked := True\<rparr>\<rparr>)
      | Taking \<Rightarrow> goto me Inside (s\<lparr>lk := (lk s)\<lparr>owner := Some me\<rparr>\<rparr>)
      | _ \<Rightarrow> s)"

definition release_step :: "nat \<Rightarrow> machine \<Rightarrow> machine" where
  "release_step me s =
     (case at s me of
        Inside \<Rightarrow>
          if \<not> holding me (lk s) then goto me (Panicked ''release'') s
          else goto me Clearing (s\<lparr>lk := (lk s)\<lparr>owner := None\<rparr>\<rparr>)
      | Clearing \<Rightarrow> goto me Leaving (s\<lparr>lk := (lk s)\<lparr>locked := False\<rparr>\<rparr>)
      | Leaving \<Rightarrow>
          (case pop_off (cpus s me) of
             Inl e \<Rightarrow> goto me (Panicked e) s
           | Inr c \<Rightarrow> goto me Outside (s\<lparr>cpus := (cpus s)(me := c)\<rparr>))
      | _ \<Rightarrow> s)"

definition start :: "(nat \<Rightarrow> bool) \<Rightarrow> machine" where
  "start on = \<lparr>lk = initlock, cpus = (\<lambda>i. \<lparr>noff = 0, intena = False, intr = on i\<rparr>), at = (\<lambda>_. Outside)\<rparr>"

inductive run :: "machine \<Rightarrow> machine \<Rightarrow> bool" where
  refl: "run s s"
| acquiring: "run s s' \<Longrightarrow> run s (acquire_step me s')"
| releasing: "run s s' \<Longrightarrow> run s (release_step me s')"

text \<open>Which CPU the lock belongs to, and what every CPU's place says of it.\<close>

definition owns :: "point \<Rightarrow> bool" where
  "owns p \<longleftrightarrow> p = Taking \<or> p = Inside \<or> p = Clearing"

definition spin_ok :: "(nat \<Rightarrow> bool) \<Rightarrow> nat option \<Rightarrow> machine \<Rightarrow> bool" where
  "spin_ok on h s \<longleftrightarrow>
     (\<forall>i. owns (at s i) \<longleftrightarrow> h = Some i) \<and> (locked (lk s) \<longleftrightarrow> h \<noteq> None) \<and>
     (\<forall>i. owner (lk s) = Some i \<longleftrightarrow> at s i = Inside) \<and>
     (\<forall>i e. at s i \<noteq> Panicked e) \<and>
     (\<forall>i. if at s i = Outside then noff (cpus s i) = 0 \<and> intr (cpus s i) = on i
          else noff (cpus s i) = 1 \<and> \<not> intr (cpus s i) \<and> intena (cpus s i) = on i)"

lemma owns_simps [simp]:
  "owns Taking" "owns Inside" "owns Clearing" "\<not> owns Outside" "\<not> owns Checking" "\<not> owns Spinning"
  "\<not> owns Leaving" "\<not> owns (Panicked e)"
  by (simp_all add: owns_def)

text \<open>The owner of the lock after a step of a CPU.\<close>

definition next_owner :: "nat \<Rightarrow> machine \<Rightarrow> nat option \<Rightarrow> nat option" where
  "next_owner me s h = (if at s me = Spinning \<and> h = None then Some me else h)"

definition owner_after_release :: "nat \<Rightarrow> machine \<Rightarrow> nat option \<Rightarrow> nat option" where
  "owner_after_release me s h = (if at s me = Clearing then None else h)"

lemma spin_okD:
  assumes "spin_ok on h s"
  shows "owns (at s i) \<longleftrightarrow> h = Some i" "locked (lk s) \<longleftrightarrow> h \<noteq> None"
    "owner (lk s) = Some i \<longleftrightarrow> at s i = Inside" "at s i \<noteq> Panicked e"
    "at s i = Outside \<Longrightarrow> noff (cpus s i) = 0 \<and> intr (cpus s i) = on i"
    "at s i \<noteq> Outside \<Longrightarrow> noff (cpus s i) = 1 \<and> \<not> intr (cpus s i) \<and> intena (cpus s i) = on i"
proof -
  note d = assms [unfolded spin_ok_def]
  show "owns (at s i) \<longleftrightarrow> h = Some i" using d by blast
  show "locked (lk s) \<longleftrightarrow> h \<noteq> None" using d by blast
  show "owner (lk s) = Some i \<longleftrightarrow> at s i = Inside" using d by blast
  show "at s i \<noteq> Panicked e" using d by blast
  have c: "if at s i = Outside then noff (cpus s i) = 0 \<and> intr (cpus s i) = on i
    else noff (cpus s i) = 1 \<and> \<not> intr (cpus s i) \<and> intena (cpus s i) = on i" using d by blast
  show "at s i = Outside \<Longrightarrow> noff (cpus s i) = 0 \<and> intr (cpus s i) = on i" using c by simp
  show "at s i \<noteq> Outside \<Longrightarrow> noff (cpus s i) = 1 \<and> \<not> intr (cpus s i) \<and> intena (cpus s i) = on i"
    using c by simp
qed

lemma spin_okI:
  assumes "\<And>i. owns (at s i) \<longleftrightarrow> h = Some i" "locked (lk s) \<longleftrightarrow> h \<noteq> None"
    "\<And>i. owner (lk s) = Some i \<longleftrightarrow> at s i = Inside" "\<And>i e. at s i \<noteq> Panicked e"
    "\<And>i. at s i = Outside \<Longrightarrow> noff (cpus s i) = 0 \<and> intr (cpus s i) = on i"
    "\<And>i. at s i \<noteq> Outside \<Longrightarrow> noff (cpus s i) = 1 \<and> \<not> intr (cpus s i) \<and> intena (cpus s i) = on i"
  shows "spin_ok on h s"
  using assms by (simp add: spin_ok_def)

lemma acquire_step_ok:
  assumes "spin_ok on h s" shows "spin_ok on (next_owner me s h) (acquire_step me s)"
proof -
  note d = spin_okD [OF assms]
  have me: "owns (at s me) \<longleftrightarrow> h = Some me" by (rule d(1))
  have hold: "holding me (lk s) \<longleftrightarrow> at s me = Inside" using d(2,3) me by (auto simp: holding_def)
  show ?thesis
  proof (cases "at s me")
    case Outside
    then show ?thesis using d me d(5) [OF Outside]
      by (intro spin_okI) (auto simp: acquire_step_def next_owner_def goto_def split: if_splits)
  next
    case Spinning
    then show ?thesis using d me
      by (cases h; intro spin_okI) (auto simp: acquire_step_def next_owner_def goto_def split: if_splits)
  next
    case Taking
    have "at s i \<noteq> Inside" for i using d(1) [of i] me Taking by (cases "i = me") auto
    then show ?thesis using Taking d me
      by (intro spin_okI) (auto simp: acquire_step_def next_owner_def goto_def split: if_splits)
  qed (use d me hold in \<open>intro spin_okI; auto simp: acquire_step_def next_owner_def goto_def split: if_splits\<close>)+
qed

lemma release_step_ok:
  assumes "spin_ok on h s" shows "spin_ok on (owner_after_release me s h) (release_step me s)"
proof -
  note d = spin_okD [OF assms]
  have me: "owns (at s me) \<longleftrightarrow> h = Some me" by (rule d(1))
  have hold: "holding me (lk s) \<longleftrightarrow> at s me = Inside" using d(2,3) me by (auto simp: holding_def)
  show ?thesis
  proof (cases "at s me")
    case Inside
    have "at s i \<noteq> Inside" if "i \<noteq> me" for i using d(1) [of i] me Inside that by auto
    then show ?thesis using Inside d me hold
      by (intro spin_okI) (auto simp: release_step_def owner_after_release_def goto_def split: if_splits)
  next
    case Clearing
    have "\<not> owns (at s i)" if "i \<noteq> me" for i using d(1) [of i] me Clearing that by auto
    then show ?thesis using Clearing d me
      by (intro spin_okI) (auto simp: release_step_def owner_after_release_def goto_def split: if_splits)
  next
    case Leaving
    then show ?thesis using d me d(6) [of me]
      by (intro spin_okI)
        (auto simp: release_step_def owner_after_release_def goto_def pop_off_def Let_def split: if_splits)
  qed (use d me in \<open>intro spin_okI; auto simp: release_step_def owner_after_release_def goto_def split: if_splits\<close>)+
qed

lemma run_ok: "run (start on) s \<Longrightarrow> \<exists>h. spin_ok on h s"
proof (induction "start on" s rule: run.induct)
  case refl
  then show ?case by (intro exI [of _ None]) (simp add: start_def spin_ok_def initlock_def)
qed (blast intro: acquire_step_ok release_step_ok)+

text \<open>
  C22. The spin lock excludes: however the CPUs take turns, at most one is between the atomic swap that
  took the lock and the store that frees it; \<open>holding\<close> is true in the critical section and nowhere
  else; no check of \<open>acquire\<close>, \<open>release\<close> or \<open>pop_off\<close> panics; interrupts are off from the first
  statement of \<open>acquire\<close> to the last of \<open>release\<close>, and then as they were.
\<close>

theorem spinlock_excludes:
  assumes "run (start on) s"
  shows "(\<forall>i j. owns (at s i) \<and> owns (at s j) \<longrightarrow> i = j) \<and>
    (\<forall>i. holding i (lk s) \<longleftrightarrow> at s i = Inside) \<and> (\<forall>i e. at s i \<noteq> Panicked e) \<and>
    (\<forall>i. intr (cpus s i) = (at s i = Outside \<and> on i))"
proof -
  obtain h where "spin_ok on h s" using run_ok [OF assms] by blast
  note d = spin_okD [OF this]
  have "i = j" if "owns (at s i)" "owns (at s j)" for i j using d(1) [of i] d(1) [of j] that by simp
  moreover have "holding i (lk s) \<longleftrightarrow> at s i = Inside" for i
    using d(1) [of i] d(2) d(3) [of i] by (auto simp: holding_def)
  moreover have "intr (cpus s i) = (at s i = Outside \<and> on i)" for i using d(5) [of i] d(6) [of i] by auto
  ultimately show ?thesis using d(4) by blast
qed

theorem spinlock_excludes_witness:
  "\<exists>s. run (start (\<lambda>_. True)) s \<and> at s 1 = Inside \<and> at s 2 = Spinning \<and> (\<forall>j. owns (at s j) \<longrightarrow> j = 1)"
proof -
  let ?a = "\<lambda>i s. acquire_step i s"
  let ?s = "?a 2 (?a 2 (?a 2 (?a 1 (?a 1 (?a 1 (?a 1 (start (\<lambda>_. True))))))))"
  have r: "run (start (\<lambda>_. True)) ?s" by (intro run.intros)
  have p: "at ?s 1 = Inside" "at ?s 2 = Spinning"
    by (simp_all add: acquire_step_def goto_def start_def initlock_def holding_def)
  have "j = 1" if "owns (at ?s j)" for j
    using conjunct1 [OF spinlock_excludes [OF r]] p(1) that owns_simps(2) by metis
  then show ?thesis using r p by blast
qed

end
