(* ===== verification/XvFile.thy ===== *)
theory XvFile
  imports XvPipe
begin

text \<open>
  Open files: the file table and its reference counts of \<open>xv6/xv6-source/kernel/file.c\<close>, the
  descriptor tables of \<open>kernel/sysfile.c\<close>, and how \<open>pipealloc\<close> and \<open>fileclose\<close> keep the two ends of
  a pipe. A pointer to a \<open>struct file\<close> is its index in the table, a pointer to a pipe or to an inode a
  number; of an in-memory inode only its reference count is kept here. A panic, the use of a pipe
  whose page was freed and of a null pointer are the left result. What is proved: as long as the references that are held
  are the ones the calls handed out, the counts are exact, no call panics, and a pipe end is open
  exactly as long as somebody holds it.
\<close>

section \<open>Files\<close>

definition NFILE :: nat where "NFILE = 100"
definition NOFILE :: nat where "NOFILE = 16"

datatype ftype = FD_NONE | FD_PIPE | FD_INODE | FD_DEVICE

record kfile = pfile +
  ftype :: ftype
  ref :: int
  fpipe :: nat
  ip :: nat
  off :: "32 word"
  major :: "16 word"

record io =
  files :: "kfile list"
  pipes :: "nat \<Rightarrow> pipe option"
  irefs :: "nat \<Rightarrow> int"

datatype fault = Panic string | Freed_pipe | Null_pointer

definition upd_file :: "nat \<Rightarrow> (kfile \<Rightarrow> kfile) \<Rightarrow> io \<Rightarrow> io" where
  "upd_file i g s = s\<lparr>files := (files s)[i := g (files s ! i)]\<rparr>"

definition filealloc :: "io \<Rightarrow> (nat \<times> io) option" where
  "filealloc s =
     (case first_index (\<lambda>f. ref f = 0) (files s) of
        None \<Rightarrow> None
      | Some i \<Rightarrow> Some (i, upd_file i (ref_update (\<lambda>_. 1)) s))"

definition filedup :: "nat \<Rightarrow> io \<Rightarrow> fault + io" where
  "filedup i s =
     (if ref (files s ! i) < 1 then Inl (Panic ''filedup'')
      else Inr (upd_file i (ref_update (\<lambda>r. r + 1)) s))"

text \<open>\<open>idup\<close> and the count \<open>iput\<close> takes undo.\<close>

definition idup :: "nat \<Rightarrow> io \<Rightarrow> io" where
  "idup x s = s\<lparr>irefs := (irefs s)(x := irefs s x + 1)\<rparr>"

definition iput :: "nat \<Rightarrow> io \<Rightarrow> io" where
  "iput x s = s\<lparr>irefs := (irefs s)(x := irefs s x - 1)\<rparr>"

definition close_end :: "nat \<Rightarrow> bool \<Rightarrow> io \<Rightarrow> fault + io" where
  "close_end pi wr s =
     (case pipes s pi of
        None \<Rightarrow> Inl Freed_pipe
      | Some p \<Rightarrow> (case pipeclose wr p of
          (freed, p) \<Rightarrow> Inr (s\<lparr>pipes := (pipes s)(pi := if freed then None else Some p)\<rparr>)))"

definition fileclose :: "nat \<Rightarrow> io \<Rightarrow> fault + io" where
  "fileclose i s =
     (let f = files s ! i in
      if ref f < 1 then Inl (Panic ''fileclose'')
      else let s = upd_file i (ref_update (\<lambda>r. r - 1)) s in
        if ref (files s ! i) > 0 then Inr s
        else let ff = files s ! i;
                 s = upd_file i (\<lambda>f. f\<lparr>ref := 0, ftype := FD_NONE\<rparr>) s in
          if ftype ff = FD_PIPE then close_end (fpipe ff) (writable ff) s
          else if ftype ff = FD_INODE \<or> ftype ff = FD_DEVICE then Inr (iput (ip ff) s)
          else Inr s)"

text \<open>
  \<open>pipealloc\<close> on the file table. \<open>page\<close> is what \<open>kalloc\<close> returns.
\<close>

definition close_opt :: "nat option \<Rightarrow> io \<Rightarrow> fault + io" where
  "close_opt f s = (case f of None \<Rightarrow> Inr s | Some i \<Rightarrow> fileclose i s)"

definition pipe_file :: "nat \<Rightarrow> bool \<Rightarrow> kfile \<Rightarrow> kfile" where
  "pipe_file pi wr f = f\<lparr>ftype := FD_PIPE, readable := \<not> wr, writable := wr, fpipe := pi\<rparr>"

definition new_pipe :: "byte list \<Rightarrow> pipe" where
  "new_pipe d = \<lparr>data = d, nread = 0, nwrite = 0, readopen = True, writeopen = True\<rparr>"

definition pipealloc_bad :: "nat option \<Rightarrow> nat option \<Rightarrow> io \<Rightarrow> fault + (nat \<times> nat) option \<times> io" where
  "pipealloc_bad f0 f1 s =
     (case close_opt f0 s of
        Inl e \<Rightarrow> Inl e
      | Inr s \<Rightarrow> (case close_opt f1 s of Inl e \<Rightarrow> Inl e | Inr s \<Rightarrow> Inr (None, s)))"

definition pipealloc_files ::
  "(nat \<times> byte list) option \<Rightarrow> io \<Rightarrow> fault + (nat \<times> nat) option \<times> io" where
  "pipealloc_files page s =
     (case filealloc s of
        None \<Rightarrow> pipealloc_bad None None s
      | Some (f0, s) \<Rightarrow>
          (case filealloc s of
             None \<Rightarrow> pipealloc_bad (Some f0) None s
           | Some (f1, s) \<Rightarrow>
               (case page of
                  None \<Rightarrow> pipealloc_bad (Some f0) (Some f1) s
                | Some (pi, d) \<Rightarrow>
                    let s = s\<lparr>pipes := (pipes s)(pi \<mapsto> new_pipe d)\<rparr>;
                        s = upd_file f0 (pipe_file pi False) s;
                        s = upd_file f1 (pipe_file pi True) s
                    in Inr (Some (f0, f1), s))))"

section \<open>Descriptors\<close>

type_synonym ofile = "nat option list"

definition argfd :: "int \<Rightarrow> ofile \<Rightarrow> (nat \<times> nat) option" where
  "argfd fd os =
     (if fd < 0 \<or> fd \<ge> int NOFILE then None
      else case os ! nat fd of None \<Rightarrow> None | Some f \<Rightarrow> Some (nat fd, f))"

definition fdalloc :: "nat \<Rightarrow> ofile \<Rightarrow> (nat \<times> ofile) option" where
  "fdalloc f os =
     (case first_index (\<lambda>x. x = None) os of
        None \<Rightarrow> None
      | Some fd \<Rightarrow> Some (fd, os[fd := Some f]))"

text \<open>Each system call returns its result with the descriptors and the tables; \<open>-1\<close> is its failure.\<close>

definition sys_dup :: "int \<Rightarrow> ofile \<Rightarrow> io \<Rightarrow> fault + int \<times> ofile \<times> io" where
  "sys_dup fd os s =
     (case argfd fd os of
        None \<Rightarrow> Inr (-1, os, s)
      | Some (_, f) \<Rightarrow>
          (case fdalloc f os of
             None \<Rightarrow> Inr (-1, os, s)
           | Some (fd, os) \<Rightarrow> (case filedup f s of Inl e \<Rightarrow> Inl e | Inr s \<Rightarrow> Inr (int fd, os, s))))"

definition sys_close :: "int \<Rightarrow> ofile \<Rightarrow> io \<Rightarrow> fault + int \<times> ofile \<times> io" where
  "sys_close fd os s =
     (case argfd fd os of
        None \<Rightarrow> Inr (-1, os, s)
      | Some (fd, f) \<Rightarrow>
          let os = os[fd := None] in
          (case fileclose f s of Inl e \<Rightarrow> Inl e | Inr s \<Rightarrow> Inr (0, os, s)))"

definition close_both :: "nat \<Rightarrow> nat \<Rightarrow> ofile \<Rightarrow> io \<Rightarrow> fault + int \<times> ofile \<times> io" where
  "close_both rfile wfile os s =
     (case fileclose rfile s of
        Inl e \<Rightarrow> Inl e
      | Inr s \<Rightarrow> (case fileclose wfile s of Inl e \<Rightarrow> Inl e | Inr s \<Rightarrow> Inr (-1, os, s)))"

text \<open>\<open>out0\<close> and \<open>out1\<close> say whether the two calls of \<open>copyout\<close> succeed.\<close>

definition sys_pipe ::
  "(nat \<times> byte list) option \<Rightarrow> bool \<Rightarrow> bool \<Rightarrow> ofile \<Rightarrow> io \<Rightarrow> fault + int \<times> ofile \<times> io" where
  "sys_pipe page out0 out1 os s =
     (case pipealloc_files page s of
        Inl e \<Rightarrow> Inl e
      | Inr (None, s) \<Rightarrow> Inr (-1, os, s)
      | Inr (Some (rfile, wfile), s) \<Rightarrow>
          (case fdalloc rfile os of
             None \<Rightarrow> close_both rfile wfile os s
           | Some (fd0, os) \<Rightarrow>
               (case fdalloc wfile os of
                  None \<Rightarrow> close_both rfile wfile (os[fd0 := None]) s
                | Some (fd1, os) \<Rightarrow>
                    if \<not> out0 \<or> \<not> out1 then close_both rfile wfile (os[fd0 := None, fd1 := None]) s
                    else Inr (0, os, s))))"

text \<open>
  The part of \<open>sys_open\<close> after the path was resolved to the inode \<open>x\<close>, whose reference the call
  holds, of type \<open>device\<close> or not and with major number \<open>m\<close>.
\<close>

definition O_WRONLY :: "32 word" where "O_WRONLY = 1"
definition O_RDWR :: "32 word" where "O_RDWR = 2"

definition open_file ::
  "nat \<Rightarrow> bool \<Rightarrow> 16 word \<Rightarrow> 32 word \<Rightarrow> ofile \<Rightarrow> io \<Rightarrow> fault + int \<times> ofile \<times> io" where
  "open_file x device m omode os s =
     (case filealloc s of
        None \<Rightarrow> Inr (-1, os, iput x s)
      | Some (f, s) \<Rightarrow>
          (case fdalloc f os of
             None \<Rightarrow> (case fileclose f s of Inl e \<Rightarrow> Inl e | Inr s \<Rightarrow> Inr (-1, os, iput x s))
           | Some (fd, os) \<Rightarrow>
               let s = upd_file f (\<lambda>f. if device then f\<lparr>ftype := FD_DEVICE, major := m\<rparr>
                                       else f\<lparr>ftype := FD_INODE, off := 0\<rparr>) s;
                   s = upd_file f (\<lambda>f. f\<lparr>ip := x, readable := and omode O_WRONLY = 0,
                         writable := and omode O_WRONLY \<noteq> 0 \<or> and omode O_RDWR \<noteq> 0\<rparr>) s
               in Inr (int fd, os, s)))"

section \<open>Exact reference counts\<close>

text \<open>
  \<open>R\<close> is the multiset of the file references held in descriptors, \<open>W\<close> the inodes held as current
  directories.
\<close>

definition pipe_end :: "kfile \<Rightarrow> (nat \<times> bool) option" where
  "pipe_end f = (if ref f > 0 \<and> ftype f = FD_PIPE then Some (fpipe f, writable f) else None)"

definition inode_of :: "kfile \<Rightarrow> nat option" where
  "inode_of f = (if ref f > 0 \<and> (ftype f = FD_INODE \<or> ftype f = FD_DEVICE) then Some (ip f) else None)"

definition ends :: "io \<Rightarrow> nat \<Rightarrow> (nat \<times> bool) option" where
  "ends s i = (if i < length (files s) then pipe_end (files s ! i) else None)"

definition inode_files :: "io \<Rightarrow> nat \<Rightarrow> nat" where
  "inode_files s x = count_list (map inode_of (files s)) (Some x)"

definition refs_ok :: "nat multiset \<Rightarrow> io \<Rightarrow> bool" where
  "refs_ok R s \<longleftrightarrow> length (files s) = NFILE \<and> (\<forall>i < NFILE. ref (files s ! i) = int (count R i)) \<and>
     (\<forall>i \<in># R. i < NFILE) \<and> (\<forall>i < NFILE. ref (files s ! i) = 0 \<longrightarrow> ftype (files s ! i) = FD_NONE)"

definition ends_ok :: "(nat \<Rightarrow> (nat \<times> bool) option) \<Rightarrow> (nat \<Rightarrow> pipe option) \<Rightarrow> bool" where
  "ends_ok e ps \<longleftrightarrow> (\<forall>i j. e i \<noteq> None \<and> e i = e j \<longrightarrow> i = j) \<and>
     (\<forall>pi p. ps pi = Some p \<longrightarrow> (writeopen p \<longleftrightarrow> Some (pi, True) \<in> range e) \<and>
        (readopen p \<longleftrightarrow> Some (pi, False) \<in> range e) \<and> (writeopen p \<or> readopen p)) \<and>
     (\<forall>pi wr. Some (pi, wr) \<in> range e \<longrightarrow> ps pi \<noteq> None)"

definition inodes_ok :: "nat multiset \<Rightarrow> io \<Rightarrow> bool" where
  "inodes_ok W s \<longleftrightarrow> (\<forall>x. irefs s x = int (inode_files s x + count W x))"

definition io_ok :: "nat multiset \<Rightarrow> nat multiset \<Rightarrow> io \<Rightarrow> bool" where
  "io_ok R W s \<longleftrightarrow> refs_ok R s \<and> ends_ok (ends s) (pipes s) \<and> inodes_ok W s"

lemma upd_file_simps [simp]:
  "pipes (upd_file i g s) = pipes s" "irefs (upd_file i g s) = irefs s"
  "length (files (upd_file i g s)) = length (files s)"
  "i < length (files s) \<Longrightarrow> files (upd_file i g s) ! j = (if j = i then g (files s ! i) else files s ! j)"
  by (auto simp: upd_file_def nth_list_update)

lemma ends_same [simp]: "ends (s\<lparr>pipes := ps\<rparr>) = ends s" "ends (s\<lparr>irefs := r\<rparr>) = ends s" "ends (iput x s) = ends s"
  by (simp_all add: ends_def iput_def fun_eq_iff)

lemma iput_simps [simp]: "files (iput x s) = files s" "pipes (iput x s) = pipes s"
  "refs_ok R (iput x s) = refs_ok R s"
  by (simp_all add: iput_def refs_ok_def)

lemma ends_upd: "i < length (files s) \<Longrightarrow> ends (upd_file i g s) = (ends s)(i := pipe_end (g (files s ! i)))"
  by (auto simp: ends_def fun_eq_iff)

lemma count_list_update:
  "i < length xs \<Longrightarrow> count_list (xs[i := a]) x + (if xs ! i = x then 1 else 0) =
     count_list xs x + (if a = x then 1 else 0)"
proof (induction xs arbitrary: i)
  case (Cons y ys)
  show ?case
  proof (cases i)
    case (Suc k)
    then show ?thesis using Cons.IH [of k] Cons.prems by (auto split: if_splits)
  qed simp
qed simp

lemma inode_files_upd:
  assumes "i < length (files s)"
  shows "inode_files (upd_file i g s) x + (if inode_of (files s ! i) = Some x then 1 else 0) =
    inode_files s x + (if inode_of (g (files s ! i)) = Some x then 1 else 0)"
  using count_list_update [of i "map inode_of (files s)" "inode_of (g (files s ! i))" "Some x"] assms
  by (simp add: inode_files_def upd_file_def map_update)

text \<open>The end of a pipe: closing one of two open ends, and the last one.\<close>

lemma ends_ok_close:
  assumes "ends_ok e ps" "e i = Some (pi, wr)"
  obtains p where "ps pi = Some p"
    "ends_ok (e(i := None)) (ps(pi := if fst (pipeclose wr p) then None else Some (snd (pipeclose wr p))))"
proof -
  obtain p where p: "ps pi = Some p" using assms unfolding ends_ok_def by (metis rangeI option.exhaust)
  have inj: "j = i" if "e j = Some (pi, wr)" for j
    using assms that unfolding ends_ok_def by (metis option.distinct(1))
  have r: "Some x \<in> range (e(i := None)) \<longleftrightarrow> Some x \<in> range e \<and> x \<noteq> (pi, wr)" for x
  proof
    assume "Some x \<in> range (e(i := None))"
    then obtain j where "(e(i := None)) j = Some x" by (metis imageE)
    then have "j \<noteq> i" "e j = Some x" by (auto split: if_splits)
    then show "Some x \<in> range e \<and> x \<noteq> (pi, wr)" using inj by (metis rangeI)
  next
    assume "Some x \<in> range e \<and> x \<noteq> (pi, wr)"
    then obtain j where "e j = Some x" "j \<noteq> i" using assms(2) by fastforce
    then show "Some x \<in> range (e(i := None))" by (metis fun_upd_other rangeI)
  qed
  have w: "writeopen p \<longleftrightarrow> Some (pi, True) \<in> range e" "readopen p \<longleftrightarrow> Some (pi, False) \<in> range e"
    using assms(1) p unfolding ends_ok_def by blast+
  let ?q = "snd (pipeclose wr p)"
  have q: "writeopen ?q \<longleftrightarrow> writeopen p \<and> \<not> wr" "readopen ?q \<longleftrightarrow> readopen p \<and> wr"
    "fst (pipeclose wr p) \<longleftrightarrow> \<not> readopen ?q \<and> \<not> writeopen ?q"
    by (auto simp: pipeclose_def Let_def)
  let ?e = "e(i := None)" and ?ps = "ps(pi := if fst (pipeclose wr p) then None else Some ?q)"
  have new: "Some (pi, True) \<in> range ?e \<longleftrightarrow> writeopen ?q" "Some (pi, False) \<in> range ?e \<longleftrightarrow> readopen ?q"
    unfolding r q(1,2) w by auto
  have "ends_ok ?e ?ps"
    unfolding ends_ok_def
  proof (intro conjI allI impI)
    fix j k assume "?e j \<noteq> None \<and> ?e j = ?e k"
    then show "j = k" using assms(1) unfolding ends_ok_def by (metis fun_upd_apply)
  next
    fix pi' p' assume p': "?ps pi' = Some p'"
    have "(writeopen p' \<longleftrightarrow> Some (pi', True) \<in> range ?e) \<and> (readopen p' \<longleftrightarrow> Some (pi', False) \<in> range ?e) \<and>
      (writeopen p' \<or> readopen p')"
    proof (cases "pi' = pi")
      case True
      then have "p' = ?q" "\<not> fst (pipeclose wr p)" using p' by (auto split: if_splits)
      then show ?thesis using new q(3) True by auto
    next
      case False
      then have "ps pi' = Some p'" using p' by simp
      then have "(writeopen p' \<longleftrightarrow> Some (pi', True) \<in> range e) \<and>
        (readopen p' \<longleftrightarrow> Some (pi', False) \<in> range e) \<and> (writeopen p' \<or> readopen p')"
        using assms(1) unfolding ends_ok_def by blast
      then show ?thesis using False unfolding r by auto
    qed
    then show "writeopen p' \<longleftrightarrow> Some (pi', True) \<in> range ?e"
      "readopen p' \<longleftrightarrow> Some (pi', False) \<in> range ?e" "writeopen p' \<or> readopen p'" by blast+
  next
    fix pi' wr' assume a: "Some (pi', wr') \<in> range ?e"
    show "?ps pi' \<noteq> None"
    proof (cases "pi' = pi")
      case True
      then have "\<not> fst (pipeclose wr p)" using a new q(3) by (cases wr') auto
      then show ?thesis using True by simp
    next
      case False
      have "ps pi' \<noteq> None" using a assms(1) unfolding r ends_ok_def by blast
      then show ?thesis using False by simp
    qed
  qed
  then show ?thesis using p that by blast
qed


section \<open>The calls keep the counts\<close>

lemma refs_ok_upd:
  assumes "refs_ok R s" "i < NFILE" "ref (g (files s ! i)) = int (count R' i)"
    "ref (g (files s ! i)) = 0 \<Longrightarrow> ftype (g (files s ! i)) = FD_NONE"
    "\<And>j. j \<noteq> i \<Longrightarrow> count R' j = count R j"
  shows "refs_ok R' (upd_file i g s)"
proof -
  have "j < NFILE" if "j \<in># R'" for j
    using that assms(1,2,5) unfolding refs_ok_def by (metis count_eq_zero_iff)
  then show ?thesis using assms unfolding refs_ok_def by simp
qed

lemma refs_okD:
  assumes "refs_ok R s"
  shows "length (files s) = NFILE" "i < NFILE \<Longrightarrow> ref (files s ! i) = int (count R i)"
    "i \<in># R \<Longrightarrow> i < NFILE" "i < NFILE \<Longrightarrow> count R i = 0 \<Longrightarrow> ftype (files s ! i) = FD_NONE"
  using assms by (simp_all add: refs_ok_def)

lemma same_view:
  assumes "i < length (files s)" "pipe_end (g (files s ! i)) = pipe_end (files s ! i)"
    "inode_of (g (files s ! i)) = inode_of (files s ! i)"
  shows "ends (upd_file i g s) = ends s" "inodes_ok W (upd_file i g s) = inodes_ok W s"
proof -
  show "ends (upd_file i g s) = ends s" using assms by (simp add: ends_upd) (simp add: ends_def fun_eq_iff)
  have "inode_files (upd_file i g s) x = inode_files s x" for x
    using inode_files_upd [OF assms(1), of g x] assms(3) by (simp split: if_splits)
  then show "inodes_ok W (upd_file i g s) = inodes_ok W s" by (simp add: inodes_ok_def)
qed

lemma filealloc_ok [inv_pres]:
  assumes "io_ok R W s" "filealloc s = Some (i, s')"
  shows "i < NFILE" "i \<notin># R" "io_ok (add_mset i R) W s'" "ftype (files s' ! i) = FD_NONE"
    "ref (files s' ! i) = 1" "pipes s' = pipes s" "\<forall>j. j \<noteq> i \<longrightarrow> files s' ! j = files s ! j"
proof -
  from assms(2) have fi: "first_index (\<lambda>f. ref f = 0) (files s) = Some i"
    and s': "s' = upd_file i (ref_update (\<lambda>_. 1)) s"
    by (auto simp: filealloc_def split: option.splits)
  have r: "refs_ok R s" using assms(1) by (simp add: io_ok_def)
  note d = refs_okD [OF r]
  show i: "i < NFILE" using first_index_SomeD(1) [OF fi] d(1) by simp
  have z: "ref (files s ! i) = 0" using first_index_SomeD(2) [OF fi] .
  then have c: "count R i = 0" using d(2) [OF i] by simp
  then show "i \<notin># R" by (simp add: not_in_iff)
  have none: "ftype (files s ! i) = FD_NONE" using d(4) [OF i c] .
  have "refs_ok (add_mset i R) s'" unfolding s' by (rule refs_ok_upd [OF r i]) (simp_all add: c)
  moreover have "ends s' = ends s" "inodes_ok W s' = inodes_ok W s"
    unfolding s' using i d(1) none z by (intro same_view; simp add: pipe_end_def inode_of_def)+
  ultimately show "io_ok (add_mset i R) W s'" using assms(1) s' by (simp add: io_ok_def)
  show "ftype (files s' ! i) = FD_NONE" "ref (files s' ! i) = 1" "pipes s' = pipes s"
    "\<forall>j. j \<noteq> i \<longrightarrow> files s' ! j = files s ! j"
    using i d(1) none by (simp_all add: s')
qed

lemma filedup_ok [inv_pres]:
  assumes "io_ok R W s" "i \<in># R"
  shows "\<exists>s'. filedup i s = Inr s' \<and> io_ok (add_mset i R) W s' \<and>
    (\<forall>j. ftype (files s' ! j) = ftype (files s ! j))"
proof -
  have r: "refs_ok R s" using assms(1) by (simp add: io_ok_def)
  note d = refs_okD [OF r]
  have i: "i < NFILE" using d(3) assms(2) .
  have p: "0 < ref (files s ! i)" using d(2) [OF i] assms(2) by simp
  let ?s = "upd_file i (ref_update (\<lambda>r. r + 1)) s"
  have "refs_ok (add_mset i R) ?s" using p d(2) [OF i] by (intro refs_ok_upd [OF r i]) simp_all
  moreover have "ends ?s = ends s" "inodes_ok W ?s = inodes_ok W s"
    using i d(1) p by (intro same_view; simp add: pipe_end_def inode_of_def)+
  ultimately have "io_ok (add_mset i R) W ?s" using assms(1) by (simp add: io_ok_def)
  moreover have "filedup i s = Inr ?s" using p by (simp add: filedup_def)
  ultimately show ?thesis using i d(1) by auto
qed

lemma upd_upd: "i < length (files s) \<Longrightarrow> upd_file i h (upd_file i g s) = upd_file i (\<lambda>f. h (g f)) s"
  by (simp add: upd_file_def)

lemma fileclose_ok [inv_pres]:
  assumes ok: "io_ok R W s" and iR: "i \<in># R"
  shows "\<exists>s'. fileclose i s = Inr s' \<and> io_ok (R - {#i#}) W s' \<and>
    (\<forall>j \<in># R - {#i#}. ftype (files s' ! j) = ftype (files s ! j))"
proof -
  have r: "refs_ok R s" and e: "ends_ok (ends s) (pipes s)" and n: "inodes_ok W s"
    using ok by (simp_all add: io_ok_def)
  note d = refs_okD [OF r]
  have i: "i < length (files s)" "i < NFILE" using d(1,3) iR by auto
  have c: "ref (files s ! i) = int (count R i)" using d(2) i by simp
  have p: "0 < count R i" using iR by simp
  let ?f = "files s ! i"
  show ?thesis
  proof (cases "1 < count R i")
    case True
    let ?s = "upd_file i (ref_update (\<lambda>r. r - 1)) s"
    have "refs_ok (R - {#i#}) ?s" using True c by (intro refs_ok_upd [OF r i(2)]) simp_all
    moreover have "ends ?s = ends s" "inodes_ok W ?s = inodes_ok W s"
      using i True c iR by (intro same_view; simp add: pipe_end_def inode_of_def)+
    ultimately have "io_ok (R - {#i#}) W ?s" using ok by (simp add: io_ok_def)
    moreover have "fileclose i s = Inr ?s" using True c i by (simp add: fileclose_def Let_def)
    ultimately show ?thesis using i by auto
  next
    case False
    then have one: "ref ?f = 1" "count R i = 1" using c p by linarith+
    let ?g = "\<lambda>f. f\<lparr>ref := 0, ftype := FD_NONE\<rparr>"
    let ?s = "upd_file i ?g s"
    have refs: "refs_ok (R - {#i#}) ?s" using one by (intro refs_ok_upd [OF r i(2)]) simp_all
    have en: "ends ?s = (ends s)(i := None)" using i by (simp add: ends_upd pipe_end_def)
    have nf: "inode_files ?s x + (if inode_of ?f = Some x then 1 else 0) = inode_files s x" for x
      using inode_files_upd [OF i(1), of ?g x] by (simp add: inode_of_def)
    have cl: "fileclose i s = (if ftype ?f = FD_PIPE then close_end (fpipe ?f) (writable ?f) ?s
        else if ftype ?f = FD_INODE \<or> ftype ?f = FD_DEVICE then Inr (iput (ip ?f) ?s) else Inr ?s)"
      using one i by (simp add: fileclose_def Let_def upd_upd)
    have other: "ftype (files ?s ! j) = ftype (files s ! j)" if "j \<in># R - {#i#}" for j
      using that one i by (cases "j = i") (auto simp: in_diff_count)
    show ?thesis
    proof (cases "ftype ?f = FD_PIPE")
      case True
      then have "ends s i = Some (fpipe ?f, writable ?f)" using one i by (simp add: ends_def pipe_end_def)
      from ends_ok_close [OF e this] obtain q where q: "pipes s (fpipe ?f) = Some q"
        "ends_ok ((ends s)(i := None)) ((pipes s)(fpipe ?f := if fst (pipeclose (writable ?f) q)
           then None else Some (snd (pipeclose (writable ?f) q))))" .
      let ?t = "?s\<lparr>pipes := (pipes s)(fpipe ?f := if fst (pipeclose (writable ?f) q)
           then None else Some (snd (pipeclose (writable ?f) q)))\<rparr>"
      have "fileclose i s = Inr ?t" using True q(1) by (simp add: cl close_end_def split: prod.splits)
      moreover have "refs_ok (R - {#i#}) ?t" using refs by (simp add: refs_ok_def)
      moreover have "ends_ok (ends ?t) (pipes ?t)" using q(2) by (simp add: en)
      moreover have "inodes_ok W ?t" using nf n True by (simp add: inodes_ok_def inode_files_def inode_of_def)
      ultimately show ?thesis using other by (auto simp: io_ok_def)
    next
      case False
      have eo: "ends_ok (ends ?s) (pipes ?s)"
      proof -
        have "ends s i = None" using False i by (simp add: ends_def pipe_end_def)
        then have "(ends s)(i := None) = ends s" by (rule fun_upd_idem)
        then show ?thesis using e by (simp add: en)
      qed
      show ?thesis
      proof (cases "ftype ?f = FD_INODE \<or> ftype ?f = FD_DEVICE")
        case True
        have "inode_files ?s x = inode_files s x - (if ip ?f = x then 1 else 0)"
          "ip ?f = x \<Longrightarrow> 0 < inode_files s x" for x
          using nf [of x] one True by (auto simp: inode_of_def split: if_splits)
        then have "inodes_ok W (iput (ip ?f) ?s)"
          using n by (auto simp: inodes_ok_def iput_def inode_files_def)
        then have "io_ok (R - {#i#}) W (iput (ip ?f) ?s)" using refs eo
          by (simp add: io_ok_def)
        moreover have "fileclose i s = Inr (iput (ip ?f) ?s)" using True False by (simp add: cl)
        ultimately show ?thesis using other by (auto simp: iput_def)
      next
        case neither: False
        then have "inodes_ok W ?s" using nf n by (simp add: inodes_ok_def inode_of_def)
        then show ?thesis using refs eo other False neither by (simp add: io_ok_def cl)
      qed
    qed
  qed
qed


section \<open>The system calls keep the counts\<close>

primrec held :: "ofile \<Rightarrow> nat multiset" where
  "held [] = {#}"
| "held (x # os) = (case x of None \<Rightarrow> held os | Some f \<Rightarrow> add_mset f (held os))"

definition typed :: "nat multiset \<Rightarrow> io \<Rightarrow> bool" where
  "typed R s \<longleftrightarrow> (\<forall>i \<in># R. ftype (files s ! i) \<noteq> FD_NONE)"

lemma held_set: "fd < length os \<Longrightarrow> os ! fd = None \<Longrightarrow> held (os[fd := Some f]) = add_mset f (held os)"
proof (induction os arbitrary: fd)
  case (Cons x os)
  then show ?case by (cases fd) (auto split: option.splits)
qed simp

lemma held_clear: "fd < length os \<Longrightarrow> os ! fd = Some f \<Longrightarrow> add_mset f (held (os[fd := None])) = held os"
proof (induction os arbitrary: fd)
  case (Cons x os)
  show ?case
  proof (cases fd)
    case (Suc k)
    then have "add_mset f (held (os[k := None])) = held os" using Cons by simp
    then show ?thesis using Suc by (cases x) (simp_all add: add_mset_commute [of f])
  qed (use Cons.prems in simp)
qed simp

lemma held_iff: "f \<in># held os \<longleftrightarrow> Some f \<in> set os"
  by (induction os) (auto split: option.splits)

lemma argfd_SomeD:
  assumes "argfd fd os = Some (k, f)" "length os = NOFILE"
  shows "k = nat fd" "k < length os" "os ! k = Some f" "f \<in># held os"
proof -
  show k: "k = nat fd" "k < length os" "os ! k = Some f"
    using assms by (auto simp: argfd_def split: if_splits option.splits)
  then show "f \<in># held os" unfolding held_iff by (metis nth_mem)
qed

lemma fdalloc_SomeD:
  assumes "fdalloc f os = Some (fd, os')"
  shows "os' = os[fd := Some f]" "fd < length os" "os ! fd = None" "held os' = add_mset f (held os)"
    "\<forall>k < fd. os ! k \<noteq> None"
proof -
  from assms have fi: "first_index (\<lambda>x. x = None) os = Some fd" and os': "os' = os[fd := Some f]"
    by (auto simp: fdalloc_def split: option.splits)
  from first_index_SomeD [OF fi] show "os' = os[fd := Some f]" "fd < length os" "os ! fd = None"
    "held os' = add_mset f (held os)" "\<forall>k < fd. os ! k \<noteq> None"
    by (auto simp: os' held_set)
qed

lemma typed_mono: "typed R s \<Longrightarrow> T \<subseteq># R \<Longrightarrow> typed T s"
  by (auto simp: typed_def dest: mset_subset_eqD)

lemma close_typed:
  assumes "io_ok R W s" "i \<in># R" "typed (R - {#i#}) s"
  shows "\<exists>s'. fileclose i s = Inr s' \<and> io_ok (R - {#i#}) W s' \<and> typed (R - {#i#}) s'"
  using fileclose_ok [OF assms(1,2)] assms(3) by (auto simp: typed_def)

lemma sys_dup_ok [inv_pres]:
  assumes "io_ok (held os + Q) W s" "typed (held os + Q) s" "length os = NOFILE"
  shows "\<exists>r os' s'. sys_dup fd os s = Inr (r, os', s') \<and> io_ok (held os' + Q) W s' \<and>
    typed (held os' + Q) s' \<and> length os' = NOFILE"
proof (cases "argfd fd os")
  case None
  then show ?thesis using assms by (simp add: sys_dup_def)
next
  case (Some a)
  then obtain k f where a: "argfd fd os = Some (k, f)" by (cases a) simp
  show ?thesis
  proof (cases "fdalloc f os")
    case None
    then show ?thesis using assms a by (simp add: sys_dup_def)
  next
    case (Some b)
    then obtain fd' os' where b: "fdalloc f os = Some (fd', os')" by (cases b) simp
    have f: "f \<in># held os" by (rule argfd_SomeD(4) [OF a assms(3)])
    then obtain s' where "filedup f s = Inr s'" "io_ok (add_mset f (held os + Q)) W s'"
      "\<forall>j. ftype (files s' ! j) = ftype (files s ! j)"
      using filedup_ok [OF assms(1), of f] by auto
    moreover have "held os' = add_mset f (held os)" "length os' = NOFILE"
      using fdalloc_SomeD [OF b] assms(3) by simp_all
    ultimately show ?thesis using assms(2) f a b by (auto simp: sys_dup_def typed_def)
  qed
qed

lemma sys_close_ok [inv_pres]:
  assumes "io_ok (held os + Q) W s" "typed (held os + Q) s" "length os = NOFILE"
  shows "\<exists>r os' s'. sys_close fd os s = Inr (r, os', s') \<and> io_ok (held os' + Q) W s' \<and>
    typed (held os' + Q) s' \<and> length os' = NOFILE"
proof (cases "argfd fd os")
  case None
  then show ?thesis using assms by (simp add: sys_close_def)
next
  case (Some a)
  then obtain k f where a: "argfd fd os = Some (k, f)" by (cases a) simp
  note d = argfd_SomeD [OF a assms(3)]
  have h: "add_mset f (held (os[k := None])) = held os" by (rule held_clear [OF d(2,3)])
  then have R: "held os + Q - {#f#} = held (os[k := None]) + Q" by (simp flip: h)
  have "typed (held os + Q - {#f#}) s" using assms(2) by (rule typed_mono) simp
  then obtain s' where "fileclose f s = Inr s'" "io_ok (held (os[k := None]) + Q) W s'"
    "typed (held (os[k := None]) + Q) s'"
    using close_typed [OF assms(1), of f] d(4) unfolding R by auto
  then show ?thesis using a assms(3) by (simp add: sys_close_def Let_def)
qed

text \<open>Two files become the ends of a new pipe.\<close>

lemma ends_ok_new:
  assumes "ends_ok e ps" "ps pi = None" "e i = None" "e j = None" "i \<noteq> j"
  shows "ends_ok (e(i := Some (pi, False), j := Some (pi, True))) (ps(pi \<mapsto> new_pipe d))"
proof -
  let ?e = "e(i := Some (pi, False), j := Some (pi, True))"
  have no: "e k \<noteq> Some (pi, wr)" for k wr using assms(1,2) unfolding ends_ok_def by (metis rangeI)
  have r: "Some (q, wr) \<in> range ?e \<longleftrightarrow> q = pi \<or> Some (q, wr) \<in> range e" for q wr
  proof
    assume "Some (q, wr) \<in> range ?e"
    then obtain k where "?e k = Some (q, wr)" by (metis imageE)
    then show "q = pi \<or> Some (q, wr) \<in> range e" by (auto split: if_splits intro: rangeI [of e k] dest: sym)
  next
    assume "q = pi \<or> Some (q, wr) \<in> range e"
    then show "Some (q, wr) \<in> range ?e"
    proof
      assume "q = pi"
      then have "?e (if wr then j else i) = Some (q, wr)" using assms(5) by simp
      then show ?thesis by (metis rangeI)
    next
      assume "Some (q, wr) \<in> range e"
      then obtain k where "e k = Some (q, wr)" by (metis imageE)
      then have "?e k = Some (q, wr)" using assms(3,4) by auto
      then show ?thesis by (metis rangeI)
    qed
  qed
  show ?thesis
    unfolding ends_ok_def r
  proof (intro conjI allI impI)
    fix a b assume "?e a \<noteq> None \<and> ?e a = ?e b"
    then obtain q wr where q: "?e a = Some (q, wr)" "?e b = Some (q, wr)" by (metis option.exhaust surj_pair)
    have key: "?e k = Some (pi, wr) \<longleftrightarrow> k = (if wr then j else i)" for k wr
      using no assms(5) by simp
    show "a = b"
    proof (cases "q = pi")
      case True
      then show ?thesis using q unfolding True key by simp
    next
      case False
      then have "e a = Some (q, wr)" "e b = Some (q, wr)" using q by (auto split: if_splits)
      then show ?thesis using assms(1) unfolding ends_ok_def by (metis option.distinct(1))
    qed
  next
    fix q p assume q: "(ps(pi \<mapsto> new_pipe d)) q = Some p"
    have all: "(writeopen p \<longleftrightarrow> q = pi \<or> Some (q, True) \<in> range e) \<and>
      (readopen p \<longleftrightarrow> q = pi \<or> Some (q, False) \<in> range e) \<and> (writeopen p \<or> readopen p)"
    proof (cases "q = pi")
      case True
      then show ?thesis using q by (auto simp: new_pipe_def)
    next
      case False
      then have "ps q = Some p" using q by simp
      then show ?thesis using assms(1) False unfolding ends_ok_def by blast
    qed
    then show "writeopen p \<longleftrightarrow> q = pi \<or> Some (q, True) \<in> range e"
      "readopen p \<longleftrightarrow> q = pi \<or> Some (q, False) \<in> range e" "writeopen p \<or> readopen p" by blast+
  next
    fix q wr assume "q = pi \<or> Some (q, wr) \<in> range e"
    then have "q \<noteq> pi \<Longrightarrow> ps q \<noteq> None" using assms(1) unfolding ends_ok_def by blast
    then show "(ps(pi \<mapsto> new_pipe d)) q \<noteq> None" by simp
  qed
qed


lemma pipe_files_ok:
  assumes ok: "io_ok R W s" and fresh: "pipes s pi = None"
    and f: "f0 < NFILE" "f1 < NFILE" "f0 \<noteq> f1" "f0 \<in># R" "f1 \<in># R"
    and none: "ftype (files s ! f0) = FD_NONE" "ftype (files s ! f1) = FD_NONE"
  shows "io_ok R W (upd_file f1 (pipe_file pi True) (upd_file f0 (pipe_file pi False)
           (s\<lparr>pipes := (pipes s)(pi \<mapsto> new_pipe d)\<rparr>)))" (is "io_ok R W ?t")
proof -
  have r: "refs_ok R s" and e: "ends_ok (ends s) (pipes s)" and n: "inodes_ok W s"
    using ok by (simp_all add: io_ok_def)
  note D = refs_okD [OF r]
  let ?s = "s\<lparr>pipes := (pipes s)(pi \<mapsto> new_pipe d)\<rparr>"
  let ?s1 = "upd_file f0 (pipe_file pi False) ?s"
  have rs: "refs_ok R ?s" using r by (simp add: refs_ok_def)
  obtain k0 k1 where c: "count R f0 = Suc k0" "count R f1 = Suc k1" using f(4,5) by (metis not_in_iff not0_implies_Suc)
  have r0: "refs_ok R ?s1"
    using D(2) f(1) c by (intro refs_ok_upd [OF rs f(1)]) (simp_all add: pipe_file_def)
  have r1: "refs_ok R ?t"
    using D(1,2) f c by (intro refs_ok_upd [OF r0 f(2)]) (simp_all add: pipe_file_def)
  have pos: "0 < ref (files s ! f0)" "0 < ref (files s ! f1)" using D(2) f c by simp_all
  have "ends ?t = (ends s)(f0 := Some (pi, False), f1 := Some (pi, True))"
    using f D(1) pos by (simp add: ends_upd pipe_file_def pipe_end_def)
  moreover have "ends s f0 = None" "ends s f1 = None" using none by (simp_all add: ends_def pipe_end_def)
  ultimately have "ends_ok (ends ?t) (pipes ?t)" using ends_ok_new [OF e fresh, of f0 f1 d] f(3) by simp
  moreover have "inode_files ?t x = inode_files s x" for x
    using inode_files_upd [of f0 ?s "pipe_file pi False" x] inode_files_upd [of f1 ?s1 "pipe_file pi True" x]
      f D(1) none by (simp add: inode_of_def pipe_file_def) (simp add: inode_files_def)
  ultimately show ?thesis using r1 n by (simp add: io_ok_def inodes_ok_def)
qed

text \<open>
  What \<open>pipealloc\<close> promises: on success two new references, to the read end and the write end of a new
  pipe; else none.
\<close>

lemma pipealloc_ok [inv_pres]:
  assumes ok: "io_ok R W s" "typed R s" and fresh: "\<forall>pi d. page = Some (pi, d) \<longrightarrow> pipes s pi = None"
  shows "(\<exists>s'. pipealloc_files page s = Inr (None, s') \<and> io_ok R W s' \<and> typed R s') \<or>
    (\<exists>f0 f1 s' pi. pipealloc_files page s = Inr (Some (f0, f1), s') \<and>
       io_ok (add_mset f0 (add_mset f1 R)) W s' \<and> typed (add_mset f0 (add_mset f1 R)) s' \<and>
       pipe_end (files s' ! f0) = Some (pi, False) \<and> pipe_end (files s' ! f1) = Some (pi, True))"
proof (cases "filealloc s")
  case None
  then show ?thesis using ok by (simp add: pipealloc_files_def pipealloc_bad_def close_opt_def)
next
  case (Some a)
  then obtain f0 s0 where a0: "filealloc s = Some (f0, s0)" by (cases a) simp
  note A = filealloc_ok [OF ok(1) a0]
  have t0: "typed R s0" using ok(2) A(2,7) unfolding typed_def by metis
  show ?thesis
  proof (cases "filealloc s0")
    case None
    obtain s' where "fileclose f0 s0 = Inr s'" "io_ok R W s'" "typed R s'"
      using close_typed [OF A(3), of f0] t0 by auto
    then show ?thesis using None a0 by (simp add: pipealloc_files_def pipealloc_bad_def close_opt_def)
  next
    case (Some b)
    then obtain f1 s1 where a1: "filealloc s0 = Some (f1, s1)" by (cases b) simp
    note B = filealloc_ok [OF A(3) a1]
    have ne: "f0 \<noteq> f1" using B(2) by auto
    have t1: "typed R s1" using t0 B(2,7) unfolding typed_def by (metis union_iff add_mset_add_single)
    have ok1: "io_ok (add_mset f0 (add_mset f1 R)) W s1" using B(3) by (simp add: add_mset_commute)
    show ?thesis
    proof (cases page)
      case None
      have e: "add_mset f1 (add_mset f0 R) - {#f0#} = add_mset f1 R" using ne by simp
      obtain s2 where s2: "fileclose f0 s1 = Inr s2" "io_ok (add_mset f1 R) W s2"
        "\<forall>j \<in># add_mset f1 R. ftype (files s2 ! j) = ftype (files s1 ! j)"
        using fileclose_ok [OF ok1, of f0] by auto
      then have "typed (add_mset f1 R - {#f1#}) s2" using t1 by (simp add: typed_def)
      then obtain s3 where "fileclose f1 s2 = Inr s3" "io_ok R W s3" "typed R s3"
        using close_typed [OF s2(2), of f1] by auto
      then show ?thesis using None a0 a1 s2(1)
        by (simp add: pipealloc_files_def pipealloc_bad_def close_opt_def)
    next
      case (Some p)
      then obtain pi d where p: "page = Some (pi, d)" by (cases p) simp
      let ?t = "upd_file f1 (pipe_file pi True) (upd_file f0 (pipe_file pi False)
         (s1\<lparr>pipes := (pipes s1)(pi \<mapsto> new_pipe d)\<rparr>))"
      have fr: "pipes s1 pi = None" using fresh p A(6) B(6) by simp
      have none: "ftype (files s1 ! f0) = FD_NONE" using A(4) B(7) ne by simp
      have len: "length (files s1) = NFILE" using B(3) by (simp add: io_ok_def refs_ok_def)
      have "io_ok (add_mset f0 (add_mset f1 R)) W ?t"
        using pipe_files_ok [OF ok1 fr A(1) B(1) ne] none B(4) by simp
      moreover have "typed (add_mset f0 (add_mset f1 R)) ?t"
        using t1 A(1) B(1) len unfolding typed_def by (auto simp: pipe_file_def)
      moreover have "ref (files s1 ! f0) = 1" using A(5) B(7) ne by simp
      then have "pipe_end (files ?t ! f0) = Some (pi, False)" "pipe_end (files ?t ! f1) = Some (pi, True)"
        using A(1) B(1,5) ne len by (simp_all add: pipe_end_def pipe_file_def)
      ultimately show ?thesis using a0 a1 p by (simp add: pipealloc_files_def Let_def)
    qed
  qed
qed


lemma close_both_ok:
  assumes "io_ok (add_mset f0 (add_mset f1 R)) W s" "typed (add_mset f0 (add_mset f1 R)) s"
  shows "\<exists>s'. close_both f0 f1 os s = Inr (-1, os, s') \<and> io_ok R W s' \<and> typed R s'"
proof -
  obtain s1 where 1: "fileclose f0 s = Inr s1" "io_ok (add_mset f1 R) W s1" "typed (add_mset f1 R) s1"
    using close_typed [OF assms(1), of f0] typed_mono [OF assms(2), of "add_mset f1 R"] by auto
  obtain s2 where "fileclose f1 s1 = Inr s2" "io_ok R W s2" "typed R s2"
    using close_typed [OF 1(2), of f1] typed_mono [OF 1(3), of R] by auto
  then show ?thesis using 1(1) by (simp add: close_both_def)
qed

lemma sys_pipe_ok [inv_pres]:
  assumes ok: "io_ok (held os + Q) W s" "typed (held os + Q) s" "length os = NOFILE"
    and fresh: "\<forall>pi d. page = Some (pi, d) \<longrightarrow> pipes s pi = None"
  shows "\<exists>r os' s'. sys_pipe page out0 out1 os s = Inr (r, os', s') \<and> io_ok (held os' + Q) W s' \<and>
    typed (held os' + Q) s' \<and> length os' = NOFILE"
proof -
  show ?thesis
    using pipealloc_ok [OF ok(1,2), of page, OF fresh]
  proof (elim disjE exE conjE, goal_cases)
    case (1 s')
    then show ?case using ok by (simp add: sys_pipe_def)
  next
    case files: (2 f0 f1 s' pi)
    obtain t where both: "close_both f0 f1 os' s' = Inr (-1, os', t os')" "io_ok (held os + Q) W (t os')"
      "typed (held os + Q) (t os')" for os' using close_both_ok [OF files(2,3)] by metis
    show ?case
    proof (cases "fdalloc f0 os")
      case None
      then show ?thesis using ok both [of os] by (simp add: sys_pipe_def files(1))
    next
      case (Some a)
      then obtain fd0 os0 where a: "fdalloc f0 os = Some (fd0, os0)" by (cases a) simp
      note A = fdalloc_SomeD [OF a]
      have undo: "os0[fd0 := None] = os" using A(1,3) by (simp flip: A(3))
      show ?thesis
      proof (cases "fdalloc f1 os0")
        case None
        then show ?thesis using ok both [of os] a undo by (simp add: sys_pipe_def files(1))
      next
        case (Some b)
        then obtain fd1 os1 where b: "fdalloc f1 os0 = Some (fd1, os1)" by (cases b) simp
        note B = fdalloc_SomeD [OF b]
        have ne: "fd0 \<noteq> fd1" using A(1,2) B(3) by auto
        have "os1[fd0 := None, fd1 := None] = (os1[fd1 := None])[fd0 := None]"
          using ne by (simp add: list_update_swap)
        also have "os1[fd1 := None] = os0" using B(1) by (simp flip: B(3))
        finally have undo1: "os1[fd0 := None, fd1 := None] = os" using undo by simp
        have "held os1 + Q = add_mset f0 (add_mset f1 (held os + Q))" using A(4) B(4) by simp
        moreover have "length os1 = NOFILE" using A(1) B(1) ok(3) by simp
        ultimately show ?thesis using ok files both [of os] a b undo1
          by (simp add: sys_pipe_def add_mset_commute [of f0 f1])
      qed
    qed
  qed
qed

lemma open_file_ok [inv_pres]:
  assumes ok: "io_ok (held os + Q) (add_mset x W) s" "typed (held os + Q) s" "length os = NOFILE"
  shows "\<exists>r os' s'. open_file x device m omode os s = Inr (r, os', s') \<and> io_ok (held os' + Q) W s' \<and>
    typed (held os' + Q) s' \<and> length os' = NOFILE"
proof -
  have put: "io_ok R W (iput x t)" if "io_ok R (add_mset x W) t" for R t
    using that by (auto simp: io_ok_def inodes_ok_def iput_def inode_files_def refs_ok_def)
  have put_typed: "typed R (iput x t) = typed R t" for R t by (simp add: typed_def)
  show ?thesis
  proof (cases "filealloc s")
    case None
    then show ?thesis using ok put [of _ s] by (simp add: open_file_def put_typed)
  next
    case (Some a)
    then obtain f s1 where a: "filealloc s = Some (f, s1)" by (cases a) simp
    note A = filealloc_ok [OF ok(1) a]
    have t1: "typed (held os + Q) s1" using ok(2) A(2,7) unfolding typed_def by metis
    show ?thesis
    proof (cases "fdalloc f os")
      case None
      obtain s2 where "fileclose f s1 = Inr s2" "io_ok (held os + Q) (add_mset x W) s2"
        "typed (held os + Q) s2" using close_typed [OF A(3), of f] t1 by auto
      then show ?thesis using None a ok put [of _ s2] by (simp add: open_file_def put_typed)
    next
      case (Some b)
      then obtain fd os' where b: "fdalloc f os = Some (fd, os')" by (cases b) simp
      note B = fdalloc_SomeD [OF b]
      let ?g = "\<lambda>f. (if device then f\<lparr>ftype := FD_DEVICE, major := m\<rparr> else f\<lparr>ftype := FD_INODE, off := 0\<rparr>)
        \<lparr>ip := x, readable := and omode O_WRONLY = 0,
          writable := and omode O_WRONLY \<noteq> 0 \<or> and omode O_RDWR \<noteq> 0\<rparr>"
      let ?s = "upd_file f ?g s1"
      have R: "add_mset f (held os + Q) = held os' + Q" by (simp add: B(4))
      have r: "refs_ok (held os' + Q) s1" and e: "ends_ok (ends s1) (pipes s1)"
        and n: "inodes_ok (add_mset x W) s1" using A(3) unfolding R io_ok_def by blast+
      note D = refs_okD [OF r]
      have len: "f < length (files s1)" using A(1) D(1) by simp
      have fileop: "open_file x device m omode os s = Inr (int fd, os', ?s)"
        using a b len by (simp add: open_file_def upd_upd Let_def)
      have "refs_ok (held os' + Q) ?s" using D(2) [OF A(1)] A(5) by (intro refs_ok_upd [OF r A(1)]) (cases device; simp)+
      moreover have "ends s1 f = None" using A(4) by (simp add: ends_def pipe_end_def)
      then have "ends ?s = ends s1" using len by (simp add: ends_upd pipe_end_def fun_upd_idem)
      moreover have "inode_files ?s y = inode_files s1 y + (if x = y then 1 else 0)" for y
        using inode_files_upd [OF len, of ?g y] A(4,5) by (simp add: inode_of_def split: if_splits)
      then have "inodes_ok W ?s" using n by (simp add: inodes_ok_def)
      ultimately have "io_ok (held os' + Q) W ?s" using e by (simp add: io_ok_def)
      moreover have "typed (held os' + Q) ?s" using t1 len unfolding R [symmetric] by (auto simp: typed_def)
      moreover have "length os' = NOFILE" using B(1) ok(3) by simp
      ultimately show ?thesis using fileop by blast
    qed
  qed
qed

end
