(* ===== verification/XvProc.thy ===== *)
theory XvProc
  imports XvFile
begin

text \<open>
  Processes: \<open>xv6/xv6-source/kernel/proc.c\<close> with the parts of \<open>sysproc.c\<close>, \<open>sysfile.c\<close> and \<open>trap.c\<close> that
  change the process table. A pointer to a \<open>struct proc\<close> is its index; a sleep channel is the address
  of a process (\<open>wait\<close>) or any other one. \<open>wait_lock\<close> and a process's own lock are held through
  each definition below, so that the processes take turns between them: \<open>fork\<close> has three such
  segments, \<open>exit\<close> two, and \<open>wait\<close> one for every time it is woken; \<open>at\<close> says in which a process is.
  A timer interrupt may take the CPU away between any two. Page tables and user memory are not part
  of the state: whether the allocations and copies succeed is an argument.
\<close>

section \<open>The process table\<close>

definition NPROC :: nat where "NPROC = 64"

datatype procstate = UNUSED | USED | SLEEPING | RUNNABLE | RUNNING | ZOMBIE

datatype chan = NoChan | ProcChan nat | Chan nat

text \<open>A trap frame is its fields by their position; \<open>a0\<close> is at byte 112, the fourteenth.\<close>

type_synonym trapframe = "nat \<Rightarrow> 64 word"

definition A0 :: nat where "A0 = 112 div 8"

record proc =
  state :: procstate
  chan :: chan
  killed :: bool
  xstate :: int
  pid :: int
  parent :: "nat option"
  trapframe :: "trapframe option"
  sz :: "64 word"
  ofile :: ofile
  cwd :: "nat option"
  pname :: string

datatype point = User | Linking nat | Starting nat | Exiting int | Waiting "bool option" | Asleep | Gone

record kernel =
  procs :: "proc list"
  nextpid :: int
  initproc :: nat
  io :: io
  at :: "nat \<Rightarrow> point"

definition upd_proc :: "nat \<Rightarrow> (proc \<Rightarrow> proc) \<Rightarrow> kernel \<Rightarrow> kernel" where
  "upd_proc i g k = k\<lparr>procs := (procs k)[i := g (procs k ! i)]\<rparr>"

definition goto :: "nat \<Rightarrow> point \<Rightarrow> kernel \<Rightarrow> kernel" where
  "goto i x k = k\<lparr>at := (at k)(i := x)\<rparr>"

definition allocpid :: "kernel \<Rightarrow> int \<times> kernel" where
  "allocpid k = (let p = nextpid k in (p, k\<lparr>nextpid := nextpid k + 1\<rparr>))"

definition freeproc :: "nat \<Rightarrow> kernel \<Rightarrow> kernel" where
  "freeproc i = upd_proc i (\<lambda>p. p\<lparr>trapframe := None, sz := 0, pid := 0, parent := None, pname := '''',
     chan := NoChan, killed := False, xstate := 0, state := UNUSED\<rparr>)"

text \<open>\<open>tf\<close> is the page \<open>kalloc\<close> returns for the trap frame, \<open>pt_ok\<close> whether \<open>proc_pagetable\<close> succeeds.\<close>

definition allocproc :: "trapframe option \<Rightarrow> bool \<Rightarrow> kernel \<Rightarrow> nat option \<times> kernel" where
  "allocproc tf pt_ok k =
     (case first_index (\<lambda>p. state p = UNUSED) (procs k) of
        None \<Rightarrow> (None, k)
      | Some i \<Rightarrow>
          let (pd, k) = allocpid k;
              k = upd_proc i (\<lambda>p. p\<lparr>pid := pd, state := USED\<rparr>) k
          in case tf of
               None \<Rightarrow> (None, freeproc i k)
             | Some t \<Rightarrow>
                 let k = upd_proc i (\<lambda>p. p\<lparr>trapframe := Some t\<rparr>) k
                 in if \<not> pt_ok then (None, freeproc i k)
                    else (Some i, goto i User k))"

section \<open>Fork\<close>

text \<open>The loop over the descriptors: the parent's, and the child's as they were.\<close>

fun dup_files :: "ofile \<Rightarrow> ofile \<Rightarrow> io \<Rightarrow> fault + ofile \<times> io" where
  "dup_files (Some f # ps) (c # cs) s =
     (case filedup f s of
        Inl e \<Rightarrow> Inl e
      | Inr s \<Rightarrow> (case dup_files ps cs s of Inl e \<Rightarrow> Inl e | Inr (cs, s) \<Rightarrow> Inr (Some f # cs, s)))"
| "dup_files (None # ps) (c # cs) s =
     (case dup_files ps cs s of Inl e \<Rightarrow> Inl e | Inr (cs, s) \<Rightarrow> Inr (c # cs, s))"
| "dup_files _ cs s = Inr (cs, s)"

definition fork_copy :: "nat \<Rightarrow> nat \<Rightarrow> kernel \<Rightarrow> fault + kernel" where
  "fork_copy me np k =
     (let p = procs k ! me;
          k = upd_proc np (\<lambda>c. c\<lparr>sz := sz p\<rparr>) k
      in case (trapframe p, trapframe (procs k ! np)) of
           (Some t, Some _) \<Rightarrow>
             let k = upd_proc np (\<lambda>c. c\<lparr>trapframe := Some (t(A0 := 0))\<rparr>) k
             in (case dup_files (ofile p) (ofile (procs k ! np)) (io k) of
                   Inl e \<Rightarrow> Inl e
                 | Inr (os, s) \<Rightarrow>
                     (case cwd p of
                        None \<Rightarrow> Inl Null_pointer
                      | Some d \<Rightarrow> Inr (upd_proc np (\<lambda>c. c\<lparr>ofile := os, cwd := Some d, pname := pname p\<rparr>)
                                         (k\<lparr>io := idup d s\<rparr>))))
         | _ \<Rightarrow> Inl Null_pointer)"

text \<open>
  The three segments of \<open>kfork\<close>; \<open>mem_ok\<close> says whether \<open>uvmcopy\<close> succeeds. The first returns -1 or goes
  on with the new process; the last returns its pid.
\<close>

definition fork_alloc :: "trapframe option \<Rightarrow> bool \<Rightarrow> bool \<Rightarrow> nat \<Rightarrow> kernel \<Rightarrow> fault + nat option \<times> kernel" where
  "fork_alloc tf pt_ok mem_ok me k =
     (case allocproc tf pt_ok k of
        (None, k) \<Rightarrow> Inr (None, k)
      | (Some np, k) \<Rightarrow>
          if \<not> mem_ok then Inr (None, freeproc np k)
          else (case fork_copy me np k of Inl e \<Rightarrow> Inl e | Inr k \<Rightarrow> Inr (Some np, k)))"

definition fork_link :: "nat \<Rightarrow> nat \<Rightarrow> kernel \<Rightarrow> kernel" where
  "fork_link me np = upd_proc np (\<lambda>c. c\<lparr>parent := Some me\<rparr>)"

definition fork_start :: "nat \<Rightarrow> kernel \<Rightarrow> kernel" where
  "fork_start np = upd_proc np (\<lambda>c. c\<lparr>state := RUNNABLE\<rparr>)"

definition kfork :: "trapframe option \<Rightarrow> bool \<Rightarrow> bool \<Rightarrow> nat \<Rightarrow> kernel \<Rightarrow> fault + int \<times> kernel" where
  "kfork tf pt_ok mem_ok me k =
     (case fork_alloc tf pt_ok mem_ok me k of
        Inl e \<Rightarrow> Inl e
      | Inr (None, k) \<Rightarrow> Inr (-1, k)
      | Inr (Some np, k) \<Rightarrow>
          let pd = pid (procs k ! np);
              k = fork_link me np k;
              k = fork_start np k
          in Inr (pd, k))"

section \<open>Sleep and wakeup\<close>

definition wake_one :: "nat option \<Rightarrow> chan \<Rightarrow> nat \<Rightarrow> proc \<Rightarrow> proc" where
  "wake_one me ch i p =
     (if me \<noteq> Some i \<and> state p = SLEEPING \<and> chan p = ch then p\<lparr>state := RUNNABLE\<rparr> else p)"

text \<open>\<open>me\<close> is \<open>myproc ()\<close>, null on a CPU that runs no process.\<close>

definition wakeup :: "nat option \<Rightarrow> chan \<Rightarrow> kernel \<Rightarrow> kernel" where
  "wakeup me ch k =
     k\<lparr>procs := map (\<lambda>i. wake_one me ch i (procs k ! i)) [0..<length (procs k)]\<rparr>"

text \<open>\<open>sleep\<close> up to \<open>sched\<close>, and after it.\<close>

definition sleep :: "chan \<Rightarrow> nat \<Rightarrow> kernel \<Rightarrow> kernel" where
  "sleep ch me = upd_proc me (\<lambda>p. p\<lparr>chan := ch, state := SLEEPING\<rparr>)"

definition woken :: "nat \<Rightarrow> kernel \<Rightarrow> kernel" where
  "woken me = upd_proc me (\<lambda>p. p\<lparr>chan := NoChan\<rparr>)"

section \<open>Exit\<close>

fun close_files :: "ofile \<Rightarrow> io \<Rightarrow> fault + ofile \<times> io" where
  "close_files [] s = Inr ([], s)"
| "close_files (None # os) s =
     (case close_files os s of Inl e \<Rightarrow> Inl e | Inr (os, s) \<Rightarrow> Inr (None # os, s))"
| "close_files (Some f # os) s =
     (case fileclose f s of
        Inl e \<Rightarrow> Inl e
      | Inr s \<Rightarrow> (case close_files os s of Inl e \<Rightarrow> Inl e | Inr (os, s) \<Rightarrow> Inr (None # os, s)))"

definition exit_files :: "nat \<Rightarrow> kernel \<Rightarrow> fault + kernel" where
  "exit_files me k =
     (if me = initproc k then Inl (Panic ''init exiting'')
      else case close_files (ofile (procs k ! me)) (io k) of
             Inl e \<Rightarrow> Inl e
           | Inr (os, s) \<Rightarrow>
               (case cwd (procs k ! me) of
                  None \<Rightarrow> Inl Null_pointer
                | Some d \<Rightarrow> Inr (upd_proc me (\<lambda>p. p\<lparr>ofile := os, cwd := None\<rparr>) (k\<lparr>io := iput d s\<rparr>))))"

definition reparent_one :: "nat \<Rightarrow> nat \<Rightarrow> kernel \<Rightarrow> kernel" where
  "reparent_one me pp k =
     (if parent (procs k ! pp) = Some me
      then wakeup (Some me) (ProcChan (initproc k)) (upd_proc pp (\<lambda>p. p\<lparr>parent := Some (initproc k)\<rparr>) k)
      else k)"

definition reparent :: "nat \<Rightarrow> kernel \<Rightarrow> kernel" where
  "reparent me k = fold (reparent_one me) [0..<length (procs k)] k"

definition parent_chan :: "proc \<Rightarrow> chan" where
  "parent_chan p = (case parent p of None \<Rightarrow> NoChan | Some q \<Rightarrow> ProcChan q)"

definition exit_zombie :: "int \<Rightarrow> nat \<Rightarrow> kernel \<Rightarrow> kernel" where
  "exit_zombie status me k =
     (let k = reparent me k;
          k = wakeup (Some me) (parent_chan (procs k ! me)) k
      in upd_proc me (\<lambda>p. p\<lparr>xstate := status, state := ZOMBIE\<rparr>) k)"

definition kexit :: "int \<Rightarrow> nat \<Rightarrow> kernel \<Rightarrow> fault + kernel" where
  "kexit status me k =
     (case exit_files me k of Inl e \<Rightarrow> Inl e | Inr k \<Rightarrow> Inr (exit_zombie status me k))"

section \<open>Wait\<close>

text \<open>
  One round of the loop of \<open>kwait\<close>. \<open>out\<close> is \<open>None\<close> when \<open>addr\<close> is 0, else whether \<open>copyout\<close>
  succeeds. What is copied out is the exit status.
\<close>

datatype wait_result = Reaped int "int option" | WaitFailed | WaitSleeps

definition kwait_round :: "bool option \<Rightarrow> nat \<Rightarrow> kernel \<Rightarrow> wait_result \<times> kernel" where
  "kwait_round out me k =
     (case first_index (\<lambda>q. parent q = Some me \<and> state q = ZOMBIE) (procs k) of
        Some i \<Rightarrow>
          let q = procs k ! i in
          if out = Some False then (WaitFailed, k)
          else (Reaped (pid q) (case out of None \<Rightarrow> None | Some _ \<Rightarrow> Some (xstate q)), freeproc i k)
      | None \<Rightarrow>
          if (\<forall>q \<in> set (procs k). parent q \<noteq> Some me) \<or> killed (procs k ! me) then (WaitFailed, k)
          else (WaitSleeps, sleep (ProcChan me) me k))"

section \<open>Kill, the scheduler and the first process\<close>

definition kill_one :: "proc \<Rightarrow> proc" where
  "kill_one p = (let p = p\<lparr>killed := True\<rparr>
                 in if state p = SLEEPING then p\<lparr>state := RUNNABLE\<rparr> else p)"

definition kkill :: "int \<Rightarrow> kernel \<Rightarrow> int \<times> kernel" where
  "kkill pd k =
     (case first_index (\<lambda>p. pid p = pd) (procs k) of
        None \<Rightarrow> (-1, k)
      | Some i \<Rightarrow> (0, upd_proc i kill_one k))"

definition setkilled :: "nat \<Rightarrow> kernel \<Rightarrow> kernel" where
  "setkilled i = upd_proc i (\<lambda>p. p\<lparr>killed := True\<rparr>)"

text \<open>The scheduler's switch to a process, and the return of the CPU by \<open>yield\<close>.\<close>

definition sched_run :: "nat \<Rightarrow> kernel \<Rightarrow> kernel" where
  "sched_run i k =
     (if state (procs k ! i) = RUNNABLE then upd_proc i (\<lambda>p. p\<lparr>state := RUNNING\<rparr>) k else k)"

definition yield :: "nat \<Rightarrow> kernel \<Rightarrow> kernel" where
  "yield i = upd_proc i (\<lambda>p. p\<lparr>state := RUNNABLE\<rparr>)"

definition empty_file :: kfile where
  "empty_file = \<lparr>readable = False, writable = False, ftype = FD_NONE, ref = 0, fpipe = 0, ip = 0, off = 0,
     major = 0\<rparr>"

definition empty_proc :: proc where
  "empty_proc = \<lparr>state = UNUSED, chan = NoChan, killed = False, xstate = 0, pid = 0, parent = None,
     trapframe = None, sz = 0, ofile = replicate NOFILE None, cwd = None, pname = ''''\<rparr>"

text \<open>
  The tables after \<open>procinit\<close> and \<open>fileinit\<close>. \<open>userinit\<close> stores a null \<open>initproc\<close> and goes on when \<open>allocproc\<close>
  fails. \<open>root\<close> is the inode of \<open>namei ("/")\<close>.
\<close>

definition boot :: kernel where
  "boot = \<lparr>procs = replicate NPROC empty_proc, nextpid = 1, initproc = 0,
     io = \<lparr>files = replicate NFILE empty_file, pipes = (\<lambda>_. None), irefs = (\<lambda>_. 0)\<rparr>, at = (\<lambda>_. User)\<rparr>"

definition userinit :: "trapframe option \<Rightarrow> bool \<Rightarrow> nat \<Rightarrow> kernel \<Rightarrow> fault + kernel" where
  "userinit tf pt_ok root k =
     (case allocproc tf pt_ok k of
        (None, k) \<Rightarrow> Inl Null_pointer
      | (Some p, k) \<Rightarrow>
          Inr (upd_proc p (\<lambda>p. p\<lparr>cwd := Some root, state := RUNNABLE\<rparr>)
             (k\<lparr>initproc := p, io := idup root (io k)\<rparr>)))"

section \<open>What a process does next\<close>

text \<open>
  A system call, with the outcomes of what it allocates and copies; \<open>ChDir\<close> and \<open>Open\<close> have the inode
  the path leads to. \<open>Sleeps\<close> stands for the calls that wait for a device, a pipe or the clock.
\<close>

datatype syscall =
  Fork "trapframe option" bool bool | Exit int | Wait "bool option" | Kill int | Sleeps nat
  | Dup int | Close int | Pipe "(nat \<times> byte list) option" bool bool
  | Open nat bool "16 word" "32 word" | ChDir nat

definition with_files :: "nat \<Rightarrow> kernel \<Rightarrow> fault + int \<times> ofile \<times> io \<Rightarrow> fault + kernel" where
  "with_files me k r =
     (case r of
        Inl e \<Rightarrow> Inl e
      | Inr (_, os, s) \<Rightarrow> Inr (upd_proc me (\<lambda>p. p\<lparr>ofile := os\<rparr>) (k\<lparr>io := s\<rparr>)))"

text \<open>The end of \<open>sys_chdir\<close>: the old directory is put, the reference of the path's inode is kept.\<close>

definition change_dir :: "nat \<Rightarrow> nat \<Rightarrow> kernel \<Rightarrow> fault + kernel" where
  "change_dir x me k =
     (case cwd (procs k ! me) of
        None \<Rightarrow> Inl Null_pointer
      | Some d \<Rightarrow> Inr (upd_proc me (\<lambda>p. p\<lparr>cwd := Some x\<rparr>) (k\<lparr>io := iput d (io k)\<rparr>)))"

definition wait_goto :: "bool option \<Rightarrow> nat \<Rightarrow> wait_result \<times> kernel \<Rightarrow> kernel" where
  "wait_goto out me r = goto me (case fst r of WaitSleeps \<Rightarrow> Waiting out | _ \<Rightarrow> User) (snd r)"

definition call :: "syscall \<Rightarrow> nat \<Rightarrow> kernel \<Rightarrow> fault + kernel" where
  "call c me k =
     (case c of
        Fork tf pt_ok mem_ok \<Rightarrow>
          (case fork_alloc tf pt_ok mem_ok me k of
             Inl e \<Rightarrow> Inl e
           | Inr (None, k) \<Rightarrow> Inr k
           | Inr (Some np, k) \<Rightarrow> Inr (goto me (Linking np) k))
      | Exit status \<Rightarrow>
          (case exit_files me k of Inl e \<Rightarrow> Inl e | Inr k \<Rightarrow> Inr (goto me (Exiting status) k))
      | Wait out \<Rightarrow> Inr (wait_goto out me (kwait_round out me k))
      | Kill pd \<Rightarrow> Inr (snd (kkill pd k))
      | Sleeps ch \<Rightarrow> Inr (goto me Asleep (sleep (Chan ch) me k))
      | Dup fd \<Rightarrow> with_files me k (sys_dup fd (ofile (procs k ! me)) (io k))
      | Close fd \<Rightarrow> with_files me k (sys_close fd (ofile (procs k ! me)) (io k))
      | Pipe page out0 out1 \<Rightarrow> with_files me k (sys_pipe page out0 out1 (ofile (procs k ! me)) (io k))
      | Open x device m omode \<Rightarrow>
          with_files me k (open_file x device m omode (ofile (procs k ! me)) (idup x (io k)))
      | ChDir x \<Rightarrow> change_dir x me (k\<lparr>io := idup x (io k)\<rparr>))"

definition advance :: "syscall \<Rightarrow> nat \<Rightarrow> kernel \<Rightarrow> fault + kernel" where
  "advance c me k =
     (case at k me of
        User \<Rightarrow> call c me k
      | Linking np \<Rightarrow> Inr (goto me (Starting np) (fork_link me np k))
      | Starting np \<Rightarrow> Inr (goto me User (fork_start np k))
      | Exiting status \<Rightarrow> Inr (goto me Gone (exit_zombie status me k))
      | Waiting out \<Rightarrow> Inr (wait_goto out me (kwait_round out me (woken me k)))
      | Asleep \<Rightarrow> Inr (goto me User (woken me k))
      | Gone \<Rightarrow> Inl (Panic ''zombie exit''))"

text \<open>
  The system runs: a CPU picks a process, takes it off again at a timer interrupt, the running process
  goes on, an interrupt wakes the sleepers on a channel or finds a fault of the running process.
\<close>

definition fresh_page :: "syscall \<Rightarrow> kernel \<Rightarrow> bool" where
  "fresh_page c k = (case c of Pipe (Some (pi, _)) _ _ \<Rightarrow> pipes (io k) pi = None | _ \<Rightarrow> True)"

inductive system :: "kernel \<Rightarrow> bool" where
  start: "userinit (Some t) True root boot = Inr k \<Longrightarrow> system k"
| run: "system k \<Longrightarrow> i < NPROC \<Longrightarrow> system (sched_run i k)"
| preempt: "system k \<Longrightarrow> i < NPROC \<Longrightarrow> state (procs k ! i) = RUNNING \<Longrightarrow> system (yield i k)"
| go: "system k \<Longrightarrow> i < NPROC \<Longrightarrow> state (procs k ! i) = RUNNING \<Longrightarrow> fresh_page c k \<Longrightarrow>
    advance c i k = Inr k' \<Longrightarrow> system k'"
| interrupt: "system k \<Longrightarrow> system (wakeup me (Chan ch) k)"
| trap: "system k \<Longrightarrow> i < NPROC \<Longrightarrow> state (procs k ! i) = RUNNING \<Longrightarrow> system (setkilled i k)"


section \<open>The invariant of the table\<close>

text \<open>
  The table seen through five functions of the slot: state, channel, pid, parent, and where the
  process is; a slot beyond the table counts as unused.
\<close>

type_synonym states = "nat \<Rightarrow> procstate"
type_synonym points = "nat \<Rightarrow> point"

definition alive :: "procstate \<Rightarrow> bool" where
  "alive s \<longleftrightarrow> s \<noteq> UNUSED \<and> s \<noteq> ZOMBIE \<and> s \<noteq> USED"

definition waiting :: "point \<Rightarrow> bool" where
  "waiting x \<longleftrightarrow> (case x of Waiting _ \<Rightarrow> True | _ \<Rightarrow> False)"

definition point_ok :: "procstate \<Rightarrow> point \<Rightarrow> bool" where
  "point_ok s x \<longleftrightarrow>
     (case s of UNUSED \<Rightarrow> x = User \<or> x = Gone | USED \<Rightarrow> x = User | ZOMBIE \<Rightarrow> x = Gone
      | SLEEPING \<Rightarrow> waiting x \<or> x = Asleep | _ \<Rightarrow> x \<noteq> Gone)"

definition points_ok :: "states \<Rightarrow> points \<Rightarrow> bool" where
  "points_ok st pt \<longleftrightarrow> (\<forall>i. point_ok (st i) (pt i))"

definition pids_ok :: "states \<Rightarrow> (nat \<Rightarrow> int) \<Rightarrow> int \<Rightarrow> bool" where
  "pids_ok st pd n \<longleftrightarrow> 1 \<le> n \<and> (\<forall>i. (st i = UNUSED \<longleftrightarrow> pd i = 0) \<and> 0 \<le> pd i \<and> pd i < n) \<and>
     (\<forall>i j. pd i = pd j \<and> pd i \<noteq> 0 \<longrightarrow> i = j)"

text \<open>
  The tree of parents: the first process has none and never dies; every other one has a parent that is
  alive and has a smaller pid, except a new one whose maker has not yet set it.
\<close>

definition making :: "points \<Rightarrow> nat \<Rightarrow> nat \<Rightarrow> bool" where
  "making pt q i \<longleftrightarrow> pt q = Linking i \<or> pt q = Starting i"

definition family_ok ::
  "states \<Rightarrow> (nat \<Rightarrow> int) \<Rightarrow> (nat \<Rightarrow> nat option) \<Rightarrow> points \<Rightarrow> nat \<Rightarrow> bool" where
  "family_ok st pd pa pt ini \<longleftrightarrow>
     alive (st ini) \<and> pa ini = None \<and> (\<forall>x. pt ini \<noteq> Exiting x) \<and> pd ini = 1 \<and>
     (\<forall>i. st i = UNUSED \<longrightarrow> pa i = None) \<and>
     (\<forall>i. i \<noteq> ini \<and> st i \<noteq> UNUSED \<and> pa i = None \<longrightarrow> (\<exists>q. pt q = Linking i)) \<and>
     (\<forall>i q. pa i = Some q \<longrightarrow> alive (st q) \<and> pd q < pd i) \<and>
     (\<forall>i. st i = USED \<longrightarrow> (\<exists>q. making pt q i)) \<and>
     (\<forall>q i. making pt q i \<longrightarrow> st i = USED \<and> pd q < pd i \<and> pa i = (if pt q = Starting i then Some q else None)) \<and>
     (\<forall>q q' i. pt q = Linking i \<and> pt q' = Linking i \<longrightarrow> q = q')"

text \<open>
  The sleepers: who sleeps in \<open>wait\<close> sleeps on itself, no child of it is a zombie, and it has a child.
\<close>

definition waits_ok :: "states \<Rightarrow> (nat \<Rightarrow> chan) \<Rightarrow> (nat \<Rightarrow> nat option) \<Rightarrow> points \<Rightarrow> bool" where
  "waits_ok st ch pa pt \<longleftrightarrow>
     (\<forall>i. st i = SLEEPING \<longrightarrow> ch i \<noteq> NoChan \<and> (\<forall>j. ch i = ProcChan j \<longrightarrow> j = i \<and> waiting (pt i))) \<and>
     (\<forall>i. st i = SLEEPING \<and> waiting (pt i) \<longrightarrow> ch i = ProcChan i \<and> (\<exists>j. pa j = Some i) \<and>
        (\<forall>j. pa j = Some i \<longrightarrow> st j \<noteq> ZOMBIE))"

lemma waiting_simps [simp]:
  "waiting (Waiting x)" "\<not> waiting User" "\<not> waiting (Linking n)" "\<not> waiting (Starting n)"
  "\<not> waiting (Exiting z)" "\<not> waiting Asleep" "\<not> waiting Gone"
  by (simp_all add: waiting_def)

lemma alive_simps [simp]:
  "alive RUNNING" "alive RUNNABLE" "alive SLEEPING" "\<not> alive UNUSED" "\<not> alive USED" "\<not> alive ZOMBIE"
  by (simp_all add: alive_def)

lemma point_ok_simps [simp]:
  "point_ok RUNNING x \<longleftrightarrow> x \<noteq> Gone" "point_ok RUNNABLE x \<longleftrightarrow> x \<noteq> Gone" "point_ok USED x \<longleftrightarrow> x = User"
  "point_ok ZOMBIE x \<longleftrightarrow> x = Gone" "point_ok SLEEPING x \<longleftrightarrow> waiting x \<or> x = Asleep"
  "point_ok UNUSED x \<longleftrightarrow> x = User \<or> x = Gone"
  by (simp_all add: point_ok_def)

lemma making_simps [simp]:
  "making (pt(i := x)) q j \<longleftrightarrow> (if q = i then x = Linking j \<or> x = Starting j else making pt q j)"
  by (simp add: making_def)

text \<open>Sleepers become runnable.\<close>

definition roused :: "nat set \<Rightarrow> states \<Rightarrow> states" where
  "roused A st = (\<lambda>i. if i \<in> A \<and> st i = SLEEPING then RUNNABLE else st i)"

definition tab_ok ::
  "states \<Rightarrow> (nat \<Rightarrow> chan) \<Rightarrow> (nat \<Rightarrow> int) \<Rightarrow> (nat \<Rightarrow> nat option) \<Rightarrow> points \<Rightarrow> int \<Rightarrow> nat \<Rightarrow> bool" where
  "tab_ok st ch pd pa pt n ini \<longleftrightarrow>
     points_ok st pt \<and> pids_ok st pd n \<and> family_ok st pd pa pt ini \<and> waits_ok st ch pa pt"

lemma tab_roused [inv_pres]:
  assumes "tab_ok st ch pd pa pt n ini" shows "tab_ok (roused A st) ch pd pa pt n ini"
proof -
  have eq: "roused A st i = s \<longleftrightarrow> st i = s" if "s \<noteq> SLEEPING" "s \<noteq> RUNNABLE" for i s
    using that by (auto simp: roused_def)
  have al: "alive (roused A st i) = alive (st i)" for i by (simp add: roused_def)
  have sl: "st i = SLEEPING" if "roused A st i = SLEEPING" for i using that by (auto simp: roused_def split: if_splits)
  have ng: "pt i \<noteq> Gone" if "st i = SLEEPING" for i
    using assms that unfolding tab_ok_def points_ok_def by (metis point_ok_simps(5) waiting_simps(7) point.distinct(41))
  have "points_ok (roused A st) pt" using assms ng by (auto simp: tab_ok_def points_ok_def roused_def)
  moreover have "pids_ok (roused A st) pd n" using assms by (simp add: tab_ok_def pids_ok_def eq)
  moreover have "family_ok (roused A st) pd pa pt ini"
    using assms by (simp add: tab_ok_def family_ok_def eq al)
  moreover have "waits_ok (roused A st) ch pa pt"
    using assms sl unfolding tab_ok_def waits_ok_def by (simp add: eq) blast
  ultimately show ?thesis by (simp add: tab_ok_def)
qed


lemma tabD:
  assumes "tab_ok st ch pd pa pt n ini"
  shows "point_ok (st i) (pt i)" "1 \<le> n" "st i = UNUSED \<longleftrightarrow> pd i = 0" "0 \<le> pd i" "pd i < n"
    "pd i = pd j \<Longrightarrow> pd i \<noteq> 0 \<Longrightarrow> i = j"
    "alive (st ini)" "pa ini = None" "pt ini \<noteq> Exiting x" "pd ini = 1"
    "st i = UNUSED \<Longrightarrow> pa i = None"
    "i \<noteq> ini \<Longrightarrow> st i \<noteq> UNUSED \<Longrightarrow> pa i = None \<Longrightarrow> \<exists>q. pt q = Linking i"
    "pa i = Some q \<Longrightarrow> alive (st q) \<and> pd q < pd i"
    "st i = USED \<Longrightarrow> \<exists>q. making pt q i"
    "making pt q i \<Longrightarrow> st i = USED \<and> pd q < pd i \<and> pa i = (if pt q = Starting i then Some q else None)"
    "pt q = Linking i \<Longrightarrow> pt r = Linking i \<Longrightarrow> q = r"
    "st i = SLEEPING \<Longrightarrow> ch i \<noteq> NoChan" "st i = SLEEPING \<Longrightarrow> ch i = ProcChan j \<Longrightarrow> j = i \<and> waiting (pt i)"
    "st i = SLEEPING \<Longrightarrow> waiting (pt i) \<Longrightarrow> ch i = ProcChan i \<and> (\<exists>j. pa j = Some i)"
    "st i = SLEEPING \<Longrightarrow> waiting (pt i) \<Longrightarrow> pa j = Some i \<Longrightarrow> st j \<noteq> ZOMBIE"
  using assms unfolding tab_ok_def points_ok_def pids_ok_def family_ok_def waits_ok_def by blast+

lemma waits_okI:
  assumes "\<And>i. st i = SLEEPING \<Longrightarrow> ch i \<noteq> NoChan"
    "\<And>i j. st i = SLEEPING \<Longrightarrow> ch i = ProcChan j \<Longrightarrow> j = i \<and> waiting (pt i)"
    "\<And>i. st i = SLEEPING \<Longrightarrow> waiting (pt i) \<Longrightarrow> ch i = ProcChan i"
    "\<And>i. st i = SLEEPING \<Longrightarrow> waiting (pt i) \<Longrightarrow> \<exists>j. pa j = Some i"
    "\<And>i j. st i = SLEEPING \<Longrightarrow> waiting (pt i) \<Longrightarrow> pa j = Some i \<Longrightarrow> st j \<noteq> ZOMBIE"
  shows "waits_ok st ch pa pt"
  using assms unfolding waits_ok_def by blast

lemma family_okI:
  assumes "alive (st ini)" "pa ini = None" "\<And>x. pt ini \<noteq> Exiting x" "pd ini = 1"
    "\<And>i. st i = UNUSED \<Longrightarrow> pa i = None"
    "\<And>i. i \<noteq> ini \<Longrightarrow> st i \<noteq> UNUSED \<Longrightarrow> pa i = None \<Longrightarrow> \<exists>q. pt q = Linking i"
    "\<And>i q. pa i = Some q \<Longrightarrow> alive (st q) \<and> pd q < pd i"
    "\<And>i. st i = USED \<Longrightarrow> \<exists>q. making pt q i"
    "\<And>q i. making pt q i \<Longrightarrow> st i = USED \<and> pd q < pd i \<and> pa i = (if pt q = Starting i then Some q else None)"
    "\<And>q r i. pt q = Linking i \<Longrightarrow> pt r = Linking i \<Longrightarrow> q = r"
  shows "family_ok st pd pa pt ini"
  unfolding family_ok_def using assms by blast

lemma tab_run [inv_pres]:
  assumes ok: "tab_ok st ch pd pa pt n ini" and st: "st i \<in> {RUNNABLE, RUNNING}" "s \<in> {RUNNABLE, RUNNING}"
  shows "tab_ok (st(i := s)) ch pd pa pt n ini"
proof -
  have al: "alive ((st(i := s)) j) = alive (st j)" for j using st by auto
  have eq: "(st(i := s)) j = x \<longleftrightarrow> st j = x" if "x \<in> {UNUSED, USED, ZOMBIE, SLEEPING}" for j x
    using st that by auto
  have "points_ok (st(i := s)) pt" using tabD(1) [OF ok] st unfolding points_ok_def
    by (metis fun_upd_apply insertE point_ok_simps(1,2) singletonD)
  then show ?thesis using ok
    by (simp add: tab_ok_def pids_ok_def family_ok_def waits_ok_def al eq del: fun_upd_apply)
qed

lemma family_point:
  assumes "family_ok st pd pa pt ini" "\<And>q j. pt' q = Linking j \<longleftrightarrow> pt q = Linking j"
    "\<And>q j. pt' q = Starting j \<longleftrightarrow> pt q = Starting j" "\<And>z. pt' ini \<noteq> Exiting z"
  shows "family_ok st pd pa pt' ini"
  using assms(1) unfolding family_ok_def making_def assms(2,3) by (simp add: assms(4))

lemma tab_goto [inv_pres]:
  assumes ok: "tab_ok st ch pd pa pt n ini" and "st i = RUNNING" "\<And>j. pt i \<noteq> Linking j" "\<And>j. pt i \<noteq> Starting j"
    "x = User \<or> (\<exists>z. x = Exiting z) \<and> i \<noteq> ini"
  shows "tab_ok st ch pd pa (pt(i := x)) n ini"
proof -
  have "points_ok st (pt(i := x))" using ok assms(2,5) by (auto simp: tab_ok_def points_ok_def)
  moreover have "waits_ok st ch pa (pt(i := x))" using ok assms(2) by (auto simp: tab_ok_def waits_ok_def)
  moreover have "family_ok st pd pa (pt(i := x)) ini"
  proof (rule family_point [of _ _ _ pt])
    show "family_ok st pd pa pt ini" using ok by (simp add: tab_ok_def)
    show "(pt(i := x)) q = Linking j \<longleftrightarrow> pt q = Linking j" "(pt(i := x)) q = Starting j \<longleftrightarrow> pt q = Starting j"
      for q j using assms(3-5) by auto
    show "(pt(i := x)) ini \<noteq> Exiting z" for z using tabD(9) [OF ok] assms(5) by auto
  qed
  ultimately show ?thesis using ok by (simp add: tab_ok_def)
qed

lemma tab_chan [inv_pres]:
  assumes "tab_ok st ch pd pa pt n ini" "st i \<noteq> SLEEPING"
  shows "tab_ok st (ch(i := c)) pd pa pt n ini"
  using assms by (auto simp: tab_ok_def waits_ok_def)


lemma tab_sleep [inv_pres]:
  assumes ok: "tab_ok st ch pd pa pt n ini" and me: "st me = RUNNING" "pt me = User \<or> waiting (pt me)"
    and x: "(\<exists>c. cc = Chan c) \<and> x = Asleep \<or>
      cc = ProcChan me \<and> waiting x \<and> (\<exists>j. pa j = Some me) \<and> (\<forall>j. pa j = Some me \<longrightarrow> st j \<noteq> ZOMBIE)"
  shows "tab_ok (st(me := SLEEPING)) (ch(me := cc)) pd pa (pt(me := x)) n ini"
proof -
  let ?st = "st(me := SLEEPING)" and ?pt = "pt(me := x)"
  have al: "alive (?st j) = alive (st j)" for j using me by auto
  have eq: "?st j = s \<longleftrightarrow> st j = s" if "s \<in> {UNUSED, USED, ZOMBIE}" for j s using me that by auto
  have "points_ok ?st ?pt" using ok x by (auto simp: tab_ok_def points_ok_def)
  moreover have "pids_ok ?st pd n" using ok by (simp add: tab_ok_def pids_ok_def eq del: fun_upd_apply)
  moreover have "family_ok ?st pd pa ?pt ini"
  proof (rule family_point [of _ _ _ pt])
    show "family_ok ?st pd pa pt ini" using ok by (simp add: tab_ok_def family_ok_def al eq del: fun_upd_apply)
    show "?pt q = Linking j \<longleftrightarrow> pt q = Linking j" "?pt q = Starting j \<longleftrightarrow> pt q = Starting j" for q j
      using me(2) x by auto
    show "?pt ini \<noteq> Exiting z" for z using tabD(9) [OF ok] x by auto
  qed
  moreover have "waits_ok ?st (ch(me := cc)) pa ?pt" using ok x by (auto simp: tab_ok_def waits_ok_def)
  ultimately show ?thesis by (simp add: tab_ok_def)
qed

lemma tab_pid [inv_pres]: "tab_ok st ch pd pa pt n ini \<Longrightarrow> n \<le> m \<Longrightarrow> tab_ok st ch pd pa pt m ini"
  unfolding tab_ok_def pids_ok_def by (meson order_trans order_less_le_trans)

lemma no_child:
  assumes "tab_ok st ch pd pa pt n ini" "\<not> alive (st i)" shows "pa j \<noteq> Some i"
  using tabD(13) [OF assms(1)] assms(2) by blast

lemma unused_not_made:
  assumes "tab_ok st ch pd pa pt n ini" "st i \<noteq> USED" shows "\<not> making pt q i" "pt q \<noteq> Linking i" "pt q \<noteq> Starting i"
  using tabD(15) [OF assms(1)] assms(2) by (auto simp: making_def)

lemma tab_fork [inv_pres]:
  assumes ok: "tab_ok st ch pd pa pt n ini" and me: "st me = RUNNING" "pt me = User" and i: "st i = UNUSED"
  shows "tab_ok (st(i := USED)) ch (pd(i := n)) pa (pt(i := User, me := Linking i)) (n + 1) ini"
proof -
  note d = tabD [OF ok]
  let ?st = "st(i := USED)" and ?pd = "pd(i := n)" and ?pt = "pt(i := User, me := Linking i)"
  have ne: "i \<noteq> me" "i \<noteq> ini" using me i d(7) by auto
  have pts: "pt i = User \<or> pt i = Gone" using d(1) [of i] i by simp
  have pn: "pa i = None" using d(11) i .
  have nc: "pa j \<noteq> Some i" for j using no_child [OF ok] i by simp
  have nm: "pt q \<noteq> Linking i" "pt q \<noteq> Starting i" for q using unused_not_made [OF ok] i by simp_all
  have "points_ok ?st ?pt" using ok me ne by (auto simp: tab_ok_def points_ok_def)
  moreover have "pids_ok ?st ?pd (n + 1)"
    unfolding pids_ok_def
  proof (intro conjI allI impI)
    show "1 \<le> n + 1" using d(2) by simp
    fix j k
    show "?st j = UNUSED \<longleftrightarrow> ?pd j = 0" "0 \<le> ?pd j" "?pd j < n + 1"
      using d(2) d(3-5) [of j] by auto
    assume "?pd j = ?pd k \<and> ?pd j \<noteq> 0"
    then show "j = k" using d(5) [of j] d(5) [of k] d(6) [of j k] by (auto split: if_splits)
  qed
  moreover have "family_ok ?st ?pd pa ?pt ini"
    unfolding family_ok_def
  proof (intro conjI allI impI)
    show "alive (?st ini)" "pa ini = None" "?pd ini = 1" using d(7,8,10) ne by simp_all
    fix x show "?pt ini \<noteq> Exiting x" using d(9) [of x] by simp
  next
    fix j assume "?st j = UNUSED"
    then show "pa j = None" using d(11) by (auto split: if_splits)
  next
    fix j assume j: "j \<noteq> ini \<and> ?st j \<noteq> UNUSED \<and> pa j = None"
    then show "\<exists>q. ?pt q = Linking j"
    proof (cases "j = i")
      case False
      then obtain q where q: "pt q = Linking j" using d(12) [of j] j by auto
      then have "q \<noteq> i" "q \<noteq> me" using pts me(2) by auto
      then show ?thesis using q by auto
    qed auto
  next
    fix j q assume "pa j = Some q"
    then show "alive (?st q)" "?pd q < ?pd j" 
      using d(13) [of j q] nc [of j] pn by (auto split: if_splits)
  next
    fix j assume "?st j = USED"
    show "\<exists>q. making ?pt q j"
    proof (cases "j = i")
      case False
      then obtain q where q: "making pt q j" using d(14) [of j] \<open>?st j = USED\<close> by auto
      then have "q \<noteq> i" "q \<noteq> me" using pts me(2) by (auto simp: making_def)
      then show ?thesis using q by auto
    qed auto
  next
    fix q j assume "making ?pt q j"
    then consider "q = me" "j = i" | "q \<noteq> me" "q \<noteq> i" "making pt q j" by (auto split: if_splits)
    then have "?st j = USED \<and> ?pd q < ?pd j \<and> pa j = (if ?pt q = Starting j then Some q else None)"
    proof cases
      case 1
      then show ?thesis using d(5) pn ne by simp
    next
      case 2
      then have "j \<noteq> i" using nm by (auto simp: making_def)
      then show ?thesis using d(15) [OF 2(3)] 2 by simp
    qed
    then show "?st j = USED" "?pd q < ?pd j" "pa j = (if ?pt q = Starting j then Some q else None)" by blast+
  next
    fix q r j assume "?pt q = Linking j \<and> ?pt r = Linking j"
    then show "q = r" using d(16) [of q j r] nm by (auto split: if_splits)
  qed
  moreover have "waits_ok ?st ch pa ?pt"
    using ok i me nc unfolding tab_ok_def waits_ok_def by (auto split: if_splits)
  ultimately show ?thesis by (simp add: tab_ok_def)
qed

lemma tab_link [inv_pres]:
  assumes ok: "tab_ok st ch pd pa pt n ini" and me: "st me = RUNNING" "pt me = Linking i"
  shows "tab_ok st ch pd (pa(i := Some me)) (pt(me := Starting i)) n ini"
proof -
  note d = tabD [OF ok]
  let ?pa = "pa(i := Some me)" and ?pt = "pt(me := Starting i)"
  have mk: "making pt me i" using me by (simp add: making_def)
  have i: "st i = USED" "pd me < pd i" "pa i = None" using d(15) [OF mk] me by simp_all
  have ni: "i \<noteq> ini" using d(7) i by auto
  have un: "pt q = Linking i \<Longrightarrow> q = me" for q using d(16) me(2) by blast
  have "points_ok st ?pt" using ok me by (auto simp: tab_ok_def points_ok_def)
  moreover have "family_ok st pd ?pa ?pt ini"
    unfolding family_ok_def
  proof (intro conjI allI impI)
    show "alive (st ini)" "?pa ini = None" "pd ini = 1" using d(7,8,10) ni by simp_all
    fix x show "?pt ini \<noteq> Exiting x" using d(9) [of x] by simp
  next
    fix j assume "st j = UNUSED"
    then show "?pa j = None" using d(11) i by auto
  next
    fix j assume j: "j \<noteq> ini \<and> st j \<noteq> UNUSED \<and> ?pa j = None"
    then have "j \<noteq> i" "pa j = None" by (auto split: if_splits)
    then obtain q where q: "pt q = Linking j" using d(12) [of j] j by blast
    then have "q \<noteq> me" using me(2) \<open>j \<noteq> i\<close> by auto
    then show "\<exists>q. ?pt q = Linking j" using q by auto
  next
    fix j q assume "?pa j = Some q"
    then show "alive (st q)" "pd q < pd j" using d(13) [of j q] i me by (auto split: if_splits)
  next
    fix j assume "st j = USED"
    then obtain q where "making pt q j" using d(14) by blast
    then show "\<exists>q. making ?pt q j" using me(2) by (cases "q = me") (auto simp: making_def)
  next
    fix q j assume a: "making ?pt q j"
    have "st j = USED \<and> pd q < pd j \<and> ?pa j = (if ?pt q = Starting j then Some q else None)"
    proof (cases "q = me")
      case True
      then show ?thesis using a i by simp
    next
      case False
      then have m: "making pt q j" using a by simp
      have "j \<noteq> i" using m d(15) [OF m] un False i(3) by (auto simp: making_def)
      then show ?thesis using d(15) [OF m] False by simp
    qed
    then show "st j = USED" "pd q < pd j" "?pa j = (if ?pt q = Starting j then Some q else None)" by blast+
  next
    fix q r j assume "?pt q = Linking j \<and> ?pt r = Linking j"
    then show "q = r" using d(16) [of q j r] by (auto split: if_splits)
  qed
  moreover have "waits_ok st ch ?pa ?pt"
  proof (rule waits_okI)
    fix j assume j: "st j = SLEEPING"
    then have ne: "j \<noteq> me" using me by auto
    show "ch j \<noteq> NoChan" using d(17) j .
    show "k = j \<and> waiting (?pt j)" if "ch j = ProcChan k" for k using d(18) [OF j that] ne by simp
    assume "waiting (?pt j)"
    then have w: "waiting (pt j)" using ne by simp
    then obtain l where l: "pa l = Some j" using d(19) [OF j] by blast
    then have "l \<noteq> i" using i(3) by auto
    then show "ch j = ProcChan j" "\<exists>l. ?pa l = Some j" using d(19) [OF j w] l by auto
    show "st k \<noteq> ZOMBIE" if "?pa k = Some j" for k using d(20) [OF j w, of k] that i by (auto split: if_splits)
  qed
  ultimately show ?thesis using ok by (simp add: tab_ok_def)
qed


lemma tab_start [inv_pres]:
  assumes ok: "tab_ok st ch pd pa pt n ini" and me: "st me = RUNNING" "pt me = Starting i"
  shows "tab_ok (st(i := RUNNABLE)) ch pd pa (pt(me := User)) n ini"
proof -
  note d = tabD [OF ok]
  let ?st = "st(i := RUNNABLE)" and ?pt = "pt(me := User)"
  have mk: "making pt me i" using me by (simp add: making_def)
  have i: "st i = USED" "pd me < pd i" "pa i = Some me" using d(15) [OF mk] me by simp_all
  have ne: "i \<noteq> me" using i me by auto
  have un: "q = me" if "making pt q i" for q using d(15) [OF that] i(3) by (auto split: if_splits)
  have "pt i = User" using d(1) [of i] i by simp
  then have "points_ok ?st ?pt" using ok me ne by (auto simp: tab_ok_def points_ok_def)
  moreover have "pids_ok ?st pd n" using ok i d(3) [of i] by (simp add: tab_ok_def pids_ok_def)
  moreover have "family_ok ?st pd pa ?pt ini"
  proof (rule family_okI)
    show "alive (?st ini)" "pa ini = None" "pd ini = 1" using d(7,8,10) by simp_all
    show "?pt ini \<noteq> Exiting x" for x using d(9) [of x] by simp
    show "?st j = UNUSED \<Longrightarrow> pa j = None" for j using d(11) [of j] by (simp split: if_splits)
    show "alive (?st q) \<and> pd q < pd j" if "pa j = Some q" for j q using d(13) [OF that] by simp
    show "?pt q = Linking j \<Longrightarrow> ?pt r = Linking j \<Longrightarrow> q = r" for q r j
      using d(16) [of q j r] by (simp split: if_splits)
  next
    fix j assume j: "j \<noteq> ini" "?st j \<noteq> UNUSED" "pa j = None"
    then obtain q where q: "pt q = Linking j" using d(12) [of j] i by (auto split: if_splits)
    then have "q \<noteq> me" using me by auto
    then show "\<exists>q. ?pt q = Linking j" using q by auto
  next
    fix j assume j: "?st j = USED"
    then have "j \<noteq> i" "st j = USED" by (auto split: if_splits)
    then obtain q where q: "making pt q j" using d(14) by blast
    then have "q \<noteq> me" using me \<open>j \<noteq> i\<close> by (auto simp: making_def)
    then show "\<exists>q. making ?pt q j" using q by auto
  next
    fix q j assume a: "making ?pt q j"
    then have m: "making pt q j" "q \<noteq> me" by (auto split: if_splits)
    then have "j \<noteq> i" using un by auto
    then show "?st j = USED \<and> pd q < pd j \<and> pa j = (if ?pt q = Starting j then Some q else None)"
      using d(15) [OF m(1)] m(2) by simp
  qed
  moreover have "waits_ok ?st ch pa ?pt" using ok me i unfolding tab_ok_def waits_ok_def by auto
  ultimately show ?thesis by (simp add: tab_ok_def)
qed

lemma tab_free [inv_pres]:
  assumes ok: "tab_ok st ch pd pa pt n ini" and me: "st me = RUNNING" and i: "st i = ZOMBIE" "pa i = Some me"
  shows "tab_ok (st(i := UNUSED)) (ch(i := c)) (pd(i := 0)) (pa(i := None)) pt n ini"
proof -
  note d = tabD [OF ok]
  let ?st = "st(i := UNUSED)" and ?pa = "pa(i := None)" and ?pd = "pd(i := 0)"
  have ne: "i \<noteq> me" "i \<noteq> ini" using i me d(7) by auto
  have pti: "pt i = Gone" using d(1) [of i] i by simp
  have nc: "pa j \<noteq> Some i" for j using no_child [OF ok] i by simp
  have nm: "\<not> making pt q i" for q using unused_not_made [OF ok] i by simp
  have "points_ok ?st pt" using ok pti by (auto simp: tab_ok_def points_ok_def)
  moreover have "pids_ok ?st ?pd n"
    unfolding pids_ok_def
  proof (intro conjI allI impI)
    show "1 \<le> n" by (rule d(2))
    fix j k
    show "?st j = UNUSED \<longleftrightarrow> ?pd j = 0" "0 \<le> ?pd j" "?pd j < n" using d(2) d(3-5) [of j] by auto
    assume "?pd j = ?pd k \<and> ?pd j \<noteq> 0"
    then show "j = k" using d(6) [of j k] by (auto split: if_splits)
  qed
  moreover have "family_ok ?st ?pd ?pa pt ini"
  proof (rule family_okI)
    show "alive (?st ini)" "?pa ini = None" "?pd ini = 1" using d(7,8,10) ne by simp_all
    show "pt ini \<noteq> Exiting x" for x by (rule d(9))
    show "?st j = UNUSED \<Longrightarrow> ?pa j = None" for j using d(11) [of j] by (simp split: if_splits)
    show "j \<noteq> ini \<Longrightarrow> ?st j \<noteq> UNUSED \<Longrightarrow> ?pa j = None \<Longrightarrow> \<exists>q. pt q = Linking j" for j
      using d(12) [of j] by (simp split: if_splits)
    show "alive (?st q) \<and> ?pd q < ?pd j" if "?pa j = Some q" for j q
      using d(13) [of j q] that nc [of j] by (auto split: if_splits)
    show "?st j = USED \<Longrightarrow> \<exists>q. making pt q j" for j using d(14) [of j] by (simp split: if_splits)
    show "pt q = Linking j \<Longrightarrow> pt r = Linking j \<Longrightarrow> q = r" for q r j by (rule d(16))
    fix q j assume m: "making pt q j"
    then have "j \<noteq> i" using nm by auto
    moreover have "q \<noteq> i" using m pti by (auto simp: making_def)
    ultimately show "?st j = USED \<and> ?pd q < ?pd j \<and> ?pa j = (if pt q = Starting j then Some q else None)"
      using d(15) [OF m] by simp
  qed
  moreover have "waits_ok ?st (ch(i := c)) ?pa pt"
  proof (rule waits_okI)
    fix j assume "?st j = SLEEPING"
    then have j: "st j = SLEEPING" "j \<noteq> i" "j \<noteq> me" using me by (auto split: if_splits)
    show "(ch(i := c)) j \<noteq> NoChan" using d(17) j by simp
    show "k = j \<and> waiting (pt j)" if "(ch(i := c)) j = ProcChan k" for k using d(18) [OF j(1)] that j by simp
    assume w: "waiting (pt j)"
    then obtain l where l: "pa l = Some j" using d(19) [OF j(1)] by blast
    then have "l \<noteq> i" using i j by auto
    then show "(ch(i := c)) j = ProcChan j" "\<exists>l. ?pa l = Some j" using d(19) [OF j(1) w] l j by auto
    show "?st k \<noteq> ZOMBIE" if "?pa k = Some j" for k using d(20) [OF j(1) w, of k] that by (auto split: if_splits)
  qed
  ultimately show ?thesis by (simp add: tab_ok_def)
qed

text \<open>
  A process dies: its children go to the first process. Nobody it concerns is still asleep: not its
  parent, and not the first process when it had children.
\<close>

lemma tab_zombie [inv_pres]:
  assumes ok: "tab_ok st ch pd pa pt n ini" and me: "st me = RUNNING" "pt me = Exiting z"
    and par: "\<And>q. pa me = Some q \<Longrightarrow> st q \<noteq> SLEEPING \<or> ch q \<noteq> ProcChan q"
    and kids: "\<And>j. pa j = Some me \<Longrightarrow> st ini \<noteq> SLEEPING \<or> ch ini \<noteq> ProcChan ini"
  shows "tab_ok (st(me := ZOMBIE)) ch pd (\<lambda>j. if pa j = Some me then Some ini else pa j) (pt(me := Gone)) n ini"
proof -
  note d = tabD [OF ok]
  let ?st = "st(me := ZOMBIE)" and ?pa = "\<lambda>j. if pa j = Some me then Some ini else pa j"
    and ?pt = "pt(me := Gone)"
  have ni: "me \<noteq> ini" using d(9) me(2) by auto
  have nm: "\<not> making pt q me" for q using unused_not_made [OF ok] me by simp
  have "points_ok ?st ?pt" using ok by (auto simp: tab_ok_def points_ok_def)
  moreover have "pids_ok ?st pd n" using ok me d(3) [of me] by (simp add: tab_ok_def pids_ok_def)
  moreover have "family_ok ?st pd ?pa ?pt ini"
  proof (rule family_okI)
    show "alive (?st ini)" "?pa ini = None" "pd ini = 1" using d(7,8,10) ni by simp_all
    show "?pt ini \<noteq> Exiting x" for x using d(9) [of x] by simp
    show "?st j = UNUSED \<Longrightarrow> ?pa j = None" for j using d(11) [of j] by (simp split: if_splits)
    show "?pt q = Linking j \<Longrightarrow> ?pt r = Linking j \<Longrightarrow> q = r" for q r j
      using d(16) [of q j r] by (simp split: if_splits)
  next
    fix j assume j: "j \<noteq> ini" "?st j \<noteq> UNUSED" "?pa j = None"
    then have "pa j = None" "st j \<noteq> UNUSED" using me by (auto split: if_splits)
    then obtain q where q: "pt q = Linking j" using d(12) [of j] j by blast
    then have "q \<noteq> me" using me by auto
    then show "\<exists>q. ?pt q = Linking j" using q by auto
  next
    fix j q assume a: "?pa j = Some q"
    show "alive (?st q) \<and> pd q < pd j"
    proof (cases "pa j = Some me")
      case True
      have "pd me \<noteq> 0" using d(3) [of me] me by simp
      then have "1 \<le> pd me" using d(4) [of me] by simp
      then show ?thesis using True a d(13) [OF True] d(7,10) ni by simp
    next
      case False
      then show ?thesis using a d(13) [of j q] by auto
    qed
  next
    fix j assume j: "?st j = USED"
    then obtain q where q: "making pt q j" using d(14) by (auto split: if_splits)
    then have "q \<noteq> me" using me by (auto simp: making_def)
    then show "\<exists>q. making ?pt q j" using q by auto
  next
    fix q j assume "making ?pt q j"
    then have m: "making pt q j" "q \<noteq> me" by (auto split: if_splits)
    then have "j \<noteq> me" using nm by auto
    then show "?st j = USED \<and> pd q < pd j \<and> ?pa j = (if ?pt q = Starting j then Some q else None)"
      using d(15) [OF m(1)] m(2) by simp
  qed
  moreover have "waits_ok ?st ch ?pa ?pt"
  proof (rule waits_okI)
    fix j assume "?st j = SLEEPING"
    then have j: "st j = SLEEPING" "j \<noteq> me" by (auto split: if_splits)
    show "ch j \<noteq> NoChan" using d(17) j by simp
    show "k = j \<and> waiting (?pt j)" if "ch j = ProcChan k" for k using d(18) [OF j(1)] that j by simp
    assume "waiting (?pt j)"
    then have w: "waiting (pt j)" using j by simp
    have c: "ch j = ProcChan j" using d(19) [OF j(1) w] by simp
    obtain l where l: "pa l = Some j" using d(19) [OF j(1) w] by blast
    then have "?pa l = Some j" using j by simp
    then show "ch j = ProcChan j" "\<exists>l. ?pa l = Some j" using c by blast+
    show "?st k \<noteq> ZOMBIE" if k: "?pa k = Some j" for k
    proof (cases "pa k = Some me")
      case True
      then show ?thesis using k kids [OF True] j c by (simp split: if_splits)
    next
      case False
      then have "pa k = Some j" using k by simp
      then show ?thesis using d(20) [OF j(1) w] par j c by auto
    qed
  qed
  ultimately show ?thesis by (simp add: tab_ok_def)
qed

end
