(* ===== verification/XvKernel.thy ===== *)
theory XvKernel
  imports XvProc
begin

text \<open>
  The process table and the open files together: every step of the system keeps the tree of processes,
  the exactness of the reference counts and the promise of \<open>wait\<close>, and none of them faults. Then the
  effect of \<open>fork\<close>, \<open>exit\<close>, \<open>wait\<close> and \<open>kill\<close>.
\<close>

section \<open>The two parts of the invariant\<close>

definition st_of :: "kernel \<Rightarrow> states" where
  "st_of k i = (if i < NPROC then state (procs k ! i) else UNUSED)"

definition ch_of :: "kernel \<Rightarrow> nat \<Rightarrow> chan" where
  "ch_of k i = (if i < NPROC then chan (procs k ! i) else NoChan)"

definition pd_of :: "kernel \<Rightarrow> nat \<Rightarrow> int" where
  "pd_of k i = (if i < NPROC then pid (procs k ! i) else 0)"

definition pa_of :: "kernel \<Rightarrow> nat \<Rightarrow> nat option" where
  "pa_of k i = (if i < NPROC then parent (procs k ! i) else None)"

definition table_ok :: "kernel \<Rightarrow> bool" where
  "table_ok k \<longleftrightarrow> tab_ok (st_of k) (ch_of k) (pd_of k) (pa_of k) (at k) (nextpid k) (initproc k)"

definition over :: "procstate \<Rightarrow> point \<Rightarrow> bool" where
  "over s x \<longleftrightarrow> s = UNUSED \<or> s = ZOMBIE \<or> (\<exists>z. x = Exiting z)"

definition slot_ok :: "proc \<Rightarrow> point \<Rightarrow> bool" where
  "slot_ok p x \<longleftrightarrow> length (ofile p) = NOFILE \<and> (state p \<noteq> UNUSED \<longrightarrow> trapframe p \<noteq> None) \<and>
     (if over (state p) x then ofile p = replicate NOFILE None \<and> cwd p = None else cwd p \<noteq> None)"

definition descs :: "proc list \<Rightarrow> nat multiset" where
  "descs ps = held (concat (map ofile ps))"

definition dirs :: "proc list \<Rightarrow> nat multiset" where
  "dirs ps = held (map cwd ps)"

definition held_ok :: "kernel \<Rightarrow> bool" where
  "held_ok k \<longleftrightarrow> io_ok (descs (procs k)) (dirs (procs k)) (io k) \<and> typed (descs (procs k)) (io k)"

definition kernel_ok :: "kernel \<Rightarrow> bool" where
  "kernel_ok k \<longleftrightarrow> length (procs k) = NPROC \<and> table_ok k \<and> held_ok k \<and>
     (\<forall>i < NPROC. slot_ok (procs k ! i) (at k i))"

lemma upd_proc_simps [simp]:
  "length (procs (upd_proc i g k)) = length (procs k)" "io (upd_proc i g k) = io k"
  "at (upd_proc i g k) = at k" "nextpid (upd_proc i g k) = nextpid k"
  "initproc (upd_proc i g k) = initproc k"
  "i < length (procs k) \<Longrightarrow> procs (upd_proc i g k) ! j = (if j = i then g (procs k ! i) else procs k ! j)"
  by (auto simp: upd_proc_def nth_list_update)

lemma goto_simps [simp]:
  "procs (goto i x k) = procs k" "io (goto i x k) = io k" "at (goto i x k) = (at k)(i := x)"
  "nextpid (goto i x k) = nextpid k" "initproc (goto i x k) = initproc k"
  by (simp_all add: goto_def)

text \<open>The views after a change of a slot, and of what is no slot.\<close>

lemma views_upd [simp]:
  assumes "i < NPROC" "length (procs k) = NPROC"
  shows "st_of (upd_proc i g k) = (st_of k)(i := state (g (procs k ! i)))"
    "ch_of (upd_proc i g k) = (ch_of k)(i := chan (g (procs k ! i)))"
    "pd_of (upd_proc i g k) = (pd_of k)(i := pid (g (procs k ! i)))"
    "pa_of (upd_proc i g k) = (pa_of k)(i := parent (g (procs k ! i)))"
  using assms by (auto simp: st_of_def ch_of_def pd_of_def pa_of_def fun_eq_iff)

lemma views_same [simp]:
  assumes "i < NPROC"
  shows "(st_of k)(i := state (procs k ! i)) = st_of k" "(ch_of k)(i := chan (procs k ! i)) = ch_of k"
    "(pd_of k)(i := pid (procs k ! i)) = pd_of k" "(pa_of k)(i := parent (procs k ! i)) = pa_of k"
  using assms by (auto simp: st_of_def ch_of_def pd_of_def pa_of_def fun_eq_iff)

lemma views_other [simp]:
  "st_of (goto i x k) = st_of k" "ch_of (goto i x k) = ch_of k" "pd_of (goto i x k) = pd_of k"
  "pa_of (goto i x k) = pa_of k"
  "st_of (k\<lparr>io := s\<rparr>) = st_of k" "ch_of (k\<lparr>io := s\<rparr>) = ch_of k" "pd_of (k\<lparr>io := s\<rparr>) = pd_of k"
  "pa_of (k\<lparr>io := s\<rparr>) = pa_of k"
  "st_of (k\<lparr>nextpid := m\<rparr>) = st_of k" "ch_of (k\<lparr>nextpid := m\<rparr>) = ch_of k"
  "pd_of (k\<lparr>nextpid := m\<rparr>) = pd_of k" "pa_of (k\<lparr>nextpid := m\<rparr>) = pa_of k"
  by (simp_all add: st_of_def ch_of_def pd_of_def pa_of_def fun_eq_iff)

lemma view_at: "i < NPROC \<Longrightarrow> st_of k i = state (procs k ! i)" "i < NPROC \<Longrightarrow> ch_of k i = chan (procs k ! i)"
  "i < NPROC \<Longrightarrow> pd_of k i = pid (procs k ! i)" "i < NPROC \<Longrightarrow> pa_of k i = parent (procs k ! i)"
  by (simp_all add: st_of_def ch_of_def pd_of_def pa_of_def)

lemma held_append [simp]: "held (xs @ ys) = held xs + held ys"
  by (induction xs) (auto split: option.splits)

lemma held_None [simp]: "held (replicate n None) = {#}"
  by (induction n) auto

text \<open>The references of one process and of the others.\<close>

definition descs_but :: "nat \<Rightarrow> proc list \<Rightarrow> nat multiset" where
  "descs_but i ps = descs (take i ps) + descs (drop (Suc i) ps)"

definition dirs_but :: "nat \<Rightarrow> proc list \<Rightarrow> nat multiset" where
  "dirs_but i ps = dirs (take i ps) + dirs (drop (Suc i) ps)"

lemma descs_upd:
  assumes "i < length ps"
  shows "descs (ps[i := p]) = held (ofile p) + descs_but i ps"
    "descs ps = held (ofile (ps ! i)) + descs_but i ps"
    "dirs (ps[i := p]) = held [cwd p] + dirs_but i ps" "dirs ps = held [cwd (ps ! i)] + dirs_but i ps"
proof -
  have d: "descs (ps[i := p]) = held (ofile p) + descs_but i ps"
    "dirs (ps[i := p]) = held [cwd p] + dirs_but i ps" for p
    using assms by (simp_all add: descs_def descs_but_def dirs_def dirs_but_def upd_conv_take_nth_drop
        split: option.splits)
  from d(1) [of "ps ! i"] d(2) [of "ps ! i"] d [of p]
  show "descs (ps[i := p]) = held (ofile p) + descs_but i ps"
    "descs ps = held (ofile (ps ! i)) + descs_but i ps"
    "dirs (ps[i := p]) = held [cwd p] + dirs_but i ps" "dirs ps = held [cwd (ps ! i)] + dirs_but i ps"
    by simp_all
qed

lemma held_ok_upd:
  assumes "i < length (procs k)" "ofile (g (procs k ! i)) = ofile (procs k ! i)"
    "cwd (g (procs k ! i)) = cwd (procs k ! i)"
  shows "held_ok (upd_proc i g k) = held_ok k"
  using assms(2,3) descs_upd [OF assms(1)] by (simp add: held_ok_def upd_proc_def)

lemma held_ok_other [simp]: "held_ok (goto i x k) = held_ok k" "held_ok (k\<lparr>nextpid := m\<rparr>) = held_ok k"
  by (simp_all add: held_ok_def)

lemma kernel_okD:
  assumes "kernel_ok k"
  shows "length (procs k) = NPROC" "table_ok k" "held_ok k" "i < NPROC \<Longrightarrow> slot_ok (procs k ! i) (at k i)"
  using assms by (simp_all add: kernel_ok_def)

text \<open>A change of a process that touches neither its files nor its directory.\<close>

lemma kernel_ok_upd:
  assumes "kernel_ok k" "i < NPROC" "table_ok (upd_proc i g k)"
    "ofile (g (procs k ! i)) = ofile (procs k ! i)" "cwd (g (procs k ! i)) = cwd (procs k ! i)"
    "slot_ok (g (procs k ! i)) (at k i)"
  shows "kernel_ok (upd_proc i g k)"
  using assms held_ok_upd [of i k g] by (simp add: kernel_ok_def)


section \<open>The scheduler, wakeup, kill\<close>

lemma sched_run_ok [inv_pres]:
  assumes "kernel_ok k" "i < NPROC" shows "kernel_ok (sched_run i k)"
proof (cases "state (procs k ! i) = RUNNABLE")
  case True
  note d = kernel_okD [OF assms(1)]
  have "tab_ok ((st_of k)(i := RUNNING)) (ch_of k) (pd_of k) (pa_of k) (at k) (nextpid k) (initproc k)"
    using d(2) True assms(2) by (intro tab_run) (simp_all add: table_ok_def view_at)
  moreover have "slot_ok ((procs k ! i)\<lparr>state := RUNNING\<rparr>) (at k i)"
    using d(4) [OF assms(2)] True by (simp add: slot_ok_def over_def)
  ultimately show ?thesis using assms d(1) True
    by (simp add: sched_run_def) (rule kernel_ok_upd; simp add: table_ok_def)
qed (use assms in \<open>simp add: sched_run_def\<close>)

lemma yield_ok [inv_pres]:
  assumes "kernel_ok k" "i < NPROC" "state (procs k ! i) = RUNNING" shows "kernel_ok (yield i k)"
proof -
  note d = kernel_okD [OF assms(1)]
  have "tab_ok ((st_of k)(i := RUNNABLE)) (ch_of k) (pd_of k) (pa_of k) (at k) (nextpid k) (initproc k)"
    using d(2) assms by (intro tab_run) (simp_all add: table_ok_def view_at)
  moreover have "slot_ok ((procs k ! i)\<lparr>state := RUNNABLE\<rparr>) (at k i)"
    using d(4) [OF assms(2)] assms(3) by (simp add: slot_ok_def over_def)
  ultimately show ?thesis using assms d(1)
    by (simp add: yield_def) (rule kernel_ok_upd; simp add: table_ok_def)
qed

lemma setkilled_ok [inv_pres]:
  assumes "kernel_ok k" "i < NPROC" shows "kernel_ok (setkilled i k)"
  unfolding setkilled_def using assms kernel_okD [OF assms(1)]
  by (intro kernel_ok_upd) (simp_all add: table_ok_def slot_ok_def)

lemma wakeup_nth:
  "j < length (procs k) \<Longrightarrow> procs (wakeup me c k) ! j = wake_one me c j (procs k ! j)"
  by (simp add: wakeup_def)

lemma wakeup_simps [simp]:
  "length (procs (wakeup me c k)) = length (procs k)" "io (wakeup me c k) = io k" "at (wakeup me c k) = at k"
  "nextpid (wakeup me c k) = nextpid k" "initproc (wakeup me c k) = initproc k"
  by (simp_all add: wakeup_def)

lemma wake_one_fields [simp]:
  "chan (wake_one me c j p) = chan p" "pid (wake_one me c j p) = pid p" "parent (wake_one me c j p) = parent p"
  "ofile (wake_one me c j p) = ofile p" "cwd (wake_one me c j p) = cwd p"
  "trapframe (wake_one me c j p) = trapframe p" "killed (wake_one me c j p) = killed p"
  "xstate (wake_one me c j p) = xstate p"
  by (simp_all add: wake_one_def)

lemma wakeup_views [simp]:
  assumes "length (procs k) = NPROC"
  shows "st_of (wakeup me c k) = roused {j. me \<noteq> Some j \<and> ch_of k j = c} (st_of k)"
    "ch_of (wakeup me c k) = ch_of k" "pd_of (wakeup me c k) = pd_of k" "pa_of (wakeup me c k) = pa_of k"
  using assms
  by (auto simp: fun_eq_iff st_of_def ch_of_def pd_of_def pa_of_def roused_def wakeup_nth wake_one_def)

lemma wakeup_files:
  "map ofile (procs (wakeup me c k)) = map ofile (procs k)" "map cwd (procs (wakeup me c k)) = map cwd (procs k)"
  by (auto intro!: nth_equalityI simp: wakeup_nth)

lemma wakeup_held [simp]: "held_ok (wakeup me c k) = held_ok k"
  by (simp add: held_ok_def descs_def dirs_def wakeup_files)

lemma over_wake: "over (state (wake_one me c j p)) x = over (state p) x"
  by (auto simp: over_def wake_one_def)

lemma wake_unused: "state (wake_one me c j p) = UNUSED \<longleftrightarrow> state p = UNUSED"
  by (simp add: wake_one_def)

lemma wakeup_ok [inv_pres]:
  assumes "kernel_ok k" shows "kernel_ok (wakeup me c k)"
proof -
  note d = kernel_okD [OF assms]
  have "table_ok (wakeup me c k)" using d(1,2) by (simp add: table_ok_def tab_roused)
  moreover have "slot_ok (procs (wakeup me c k) ! j) (at k j)" if "j < NPROC" for j
    using d(4) [OF that] d(1) that by (simp add: slot_ok_def wakeup_nth over_wake wake_unused)
  ultimately show ?thesis using d(1,3) by (simp add: kernel_ok_def)
qed

lemma kill_one_fields [simp]:
  "chan (kill_one p) = chan p" "pid (kill_one p) = pid p" "parent (kill_one p) = parent p"
  "ofile (kill_one p) = ofile p" "cwd (kill_one p) = cwd p" "trapframe (kill_one p) = trapframe p"
  "over (state (kill_one p)) x = over (state p) x" "state (kill_one p) = UNUSED \<longleftrightarrow> state p = UNUSED"
  by (simp_all add: kill_one_def over_def Let_def)

lemma kkill_ok [inv_pres]:
  assumes "kernel_ok k" shows "kernel_ok (snd (kkill x k))"
proof (cases "first_index (\<lambda>p. pid p = x) (procs k)")
  case None
  then show ?thesis using assms by (simp add: kkill_def)
next
  case (Some i)
  note d = kernel_okD [OF assms]
  have i: "i < NPROC" using first_index_SomeD(1) [OF Some] d(1) by simp
  have "(st_of k)(i := state (kill_one (procs k ! i))) = roused {i} (st_of k)"
    using i by (auto simp: roused_def fun_eq_iff view_at kill_one_def Let_def)
  moreover have "slot_ok (kill_one (procs k ! i)) (at k i)"
    using d(4) [OF i] by (simp add: slot_ok_def)
  ultimately have "kernel_ok (upd_proc i kill_one k)"
    using assms i d by (intro kernel_ok_upd) (simp_all add: table_ok_def tab_roused)
  then show ?thesis by (simp add: kkill_def Some)
qed

section \<open>Sleeping and waiting\<close>

lemma kernel_ok_goto:
  assumes "kernel_ok k" "table_ok (goto i x k)" "\<And>s. over s x = over s (at k i)"
  shows "kernel_ok (goto i x k)"
  using assms by (auto simp: kernel_ok_def slot_ok_def)

lemma sleep_ok [inv_pres]:
  assumes ok: "kernel_ok k" and me: "me < NPROC" "state (procs k ! me) = RUNNING" "at k me = User \<or> waiting (at k me)"
    and x: "(\<exists>c. cc = Chan c) \<and> x = Asleep \<or>
      cc = ProcChan me \<and> waiting x \<and> (\<exists>j. pa_of k j = Some me) \<and> (\<forall>j. pa_of k j = Some me \<longrightarrow> st_of k j \<noteq> ZOMBIE)"
  shows "kernel_ok (goto me x (sleep cc me k))"
proof -
  note d = kernel_okD [OF ok]
  have "tab_ok ((st_of k)(me := SLEEPING)) ((ch_of k)(me := cc)) (pd_of k) (pa_of k) ((at k)(me := x)) (nextpid k)
    (initproc k)" using d(2) me x by (intro tab_sleep) (simp_all add: table_ok_def view_at)
  then have "table_ok (goto me x (sleep cc me k))" using me d(1) by (simp add: sleep_def table_ok_def)
  moreover have "held_ok (sleep cc me k)" unfolding sleep_def using d(1,3) me by (subst held_ok_upd) simp_all
  moreover have no: "\<not> over RUNNING (at k me)" "\<not> over SLEEPING x" using me(3) x by (auto simp: over_def)
  moreover have "slot_ok (procs (goto me x (sleep cc me k)) ! j) (at (goto me x (sleep cc me k)) j)" if "j < NPROC" for j
  proof (cases "j = me")
    case True
    then show ?thesis using d(4) [OF me(1)] d(1) me no
      by (simp add: sleep_def slot_ok_def)
  next
    case False
    then show ?thesis using d(4) [OF that] d(1) me by (simp add: sleep_def)
  qed
  ultimately show ?thesis using d(1) by (simp add: kernel_ok_def sleep_def)
qed

lemma goto_user_ok [inv_pres]:
  assumes ok: "kernel_ok k" and me: "me < NPROC" "state (procs k ! me) = RUNNING"
    "at k me = User \<or> waiting (at k me) \<or> at k me = Asleep"
  shows "kernel_ok (goto me User k)"
proof -
  have "tab_ok (st_of k) (ch_of k) (pd_of k) (pa_of k) ((at k)(me := User)) (nextpid k) (initproc k)"
    using kernel_okD(2) [OF ok] me by (intro tab_goto) (auto simp: table_ok_def view_at waiting_def)
  then show ?thesis using ok me(3)
    by (intro kernel_ok_goto) (auto simp: table_ok_def over_def waiting_def)
qed

lemma woken_ok [inv_pres]:
  assumes "kernel_ok k" "me < NPROC" "state (procs k ! me) = RUNNING" shows "kernel_ok (woken me k)"
proof -
  note d = kernel_okD [OF assms(1)]
  have "table_ok (upd_proc me (\<lambda>p. p\<lparr>chan := NoChan\<rparr>) k)"
  proof -
    have "(st_of k)(me := state ((procs k ! me)\<lparr>chan := NoChan\<rparr>)) = st_of k" using assms(2) by simp
    moreover have "st_of k me \<noteq> SLEEPING" using assms(2,3) by (simp add: view_at)
    ultimately show ?thesis using d(1,2) assms(2) by (simp add: table_ok_def tab_chan)
  qed
  then show ?thesis unfolding woken_def using assms d(4) [OF assms(2)]
    by (intro kernel_ok_upd) (simp_all add: slot_ok_def)
qed

lemma freeproc_zombie_ok [inv_pres]:
  assumes ok: "kernel_ok k" and me: "me < NPROC" "state (procs k ! me) = RUNNING"
    and i: "i < NPROC" "state (procs k ! i) = ZOMBIE" "parent (procs k ! i) = Some me"
  shows "kernel_ok (freeproc i k)"
proof -
  note d = kernel_okD [OF ok]
  have "tab_ok ((st_of k)(i := UNUSED)) ((ch_of k)(i := NoChan)) ((pd_of k)(i := 0)) ((pa_of k)(i := None)) (at k)
    (nextpid k) (initproc k)" using d(2) me i by (intro tab_free [of _ _ _ _ _ _ _ me]) (simp_all add: table_ok_def view_at)
  moreover have "slot_ok (procs k ! i) (at k i)" using d(4) i by blast
  ultimately show ?thesis unfolding freeproc_def using ok i d(1)
    by (intro kernel_ok_upd) (simp_all add: table_ok_def slot_ok_def over_def)
qed

lemma kwait_round_ok [inv_pres]:
  assumes ok: "kernel_ok k" and me: "me < NPROC" "state (procs k ! me) = RUNNING" "at k me = User \<or> waiting (at k me)"
  shows "kernel_ok (wait_goto out me (kwait_round out me k))"
proof -
  note d = kernel_okD [OF ok]
  have user: "kernel_ok (goto me User k')" if "kernel_ok k'" "state (procs k' ! me) = RUNNING" "at k' = at k" for k'
    using goto_user_ok [OF that(1) me(1) that(2)] me(3) that(3) by auto
  show ?thesis
  proof (cases "first_index (\<lambda>q. parent q = Some me \<and> state q = ZOMBIE) (procs k)")
    case None
    then have nz: "st_of k j \<noteq> ZOMBIE" if "pa_of k j = Some me" for j
      using that d(1) unfolding first_index_None st_of_def pa_of_def by (metis nth_mem option.distinct(1))
    have kid: "\<exists>j. pa_of k j = Some me" if "q \<in> set (procs k)" "parent q = Some me" for q
      using that d(1) unfolding pa_of_def by (metis in_set_conv_nth)
    show ?thesis
    proof (cases "(\<forall>q \<in> set (procs k). parent q \<noteq> Some me) \<or> killed (procs k ! me)")
      case True
      then show ?thesis using None user [OF ok me(2)] by (simp add: kwait_round_def wait_goto_def)
    next
      case False
      then have "kernel_ok (goto me (Waiting out) (sleep (ProcChan me) me k))"
        using nz kid by (intro sleep_ok [OF ok me]) auto
      moreover have "kwait_round out me k = (WaitSleeps, sleep (ProcChan me) me k)"
        using None False unfolding kwait_round_def by (simp only: option.case if_False)
      ultimately show ?thesis by (simp add: wait_goto_def)
    qed
  next
    case (Some i)
    note i = first_index_SomeD [OF Some]
    have "i \<noteq> me" using i(2) me(2) by auto
    then have "kernel_ok (goto me User (freeproc i k))"
      using freeproc_zombie_ok [OF ok me(1,2), of i] i d(1) me by (intro user) (auto simp: freeproc_def)
    then show ?thesis using Some user [OF ok me(2)] by (simp add: kwait_round_def wait_goto_def Let_def)
  qed
qed

section \<open>Fork\<close>

lemma dup_files_ok:
  assumes "io_ok (R + Q) W s" "typed (R + Q) s" "set_mset (held os) \<subseteq> set_mset R" "cs = replicate (length os) None"
  shows "\<exists>s'. dup_files os cs s = Inr (os, s') \<and> io_ok (held os + R + Q) W s' \<and> typed (held os + R + Q) s'"
  using assms
proof (induction os cs s arbitrary: Q rule: dup_files.induct)
  case (1 f ps c cs s)
  have f: "f \<in># R + Q" using "1.prems"(3) by auto
  then obtain s1 where s1: "filedup f s = Inr s1" "io_ok (add_mset f (R + Q)) W s1"
    "\<forall>j. ftype (files s1 ! j) = ftype (files s ! j)" using filedup_ok [OF "1.prems"(1)] by blast
  have "typed (R + add_mset f Q) s1" using s1(3) "1.prems"(2) f by (auto simp: typed_def)
  then obtain s2 where "dup_files ps cs s1 = Inr (ps, s2)" "io_ok (held ps + R + add_mset f Q) W s2"
    "typed (held ps + R + add_mset f Q) s2"
    using "1.IH" [OF s1(1), of "add_mset f Q"] s1(2) "1.prems"(3,4) by auto
  then show ?case using s1(1) "1.prems"(4) by auto
next
  case (2 ps c cs s)
  then obtain s2 where "dup_files ps cs s = Inr (ps, s2)" "io_ok (held ps + R + Q) W s2"
    "typed (held ps + R + Q) s2" using "2.IH" [of Q] by auto
  then show ?case using "2.prems"(4) by simp
qed auto

lemma pid_bump_ok:
  assumes "kernel_ok k" "nextpid k \<le> m" shows "kernel_ok (k\<lparr>nextpid := m\<rparr>)"
  using assms tab_pid by (auto simp: kernel_ok_def table_ok_def)

text \<open>A failed \<open>allocproc\<close> gives the slot back: only \<open>nextpid\<close> and the flags of a free slot change.\<close>

definition cleared :: "proc \<Rightarrow> proc" where
  "cleared p = p\<lparr>trapframe := None, sz := 0, pid := 0, parent := None, pname := '''',
     chan := NoChan, killed := False, xstate := 0, state := UNUSED\<rparr>"

lemma freeproc_cleared: "freeproc i = upd_proc i cleared"
  by (simp add: freeproc_def cleared_def [abs_def])

lemma cleared_fields [simp]:
  "trapframe (cleared p) = None" "pid (cleared p) = 0" "parent (cleared p) = None" "chan (cleared p) = NoChan"
  "killed (cleared p) = False" "state (cleared p) = UNUSED" "ofile (cleared p) = ofile p"
  "cwd (cleared p) = cwd p" "xstate (cleared p) = 0"
  by (simp_all add: cleared_def)

lemma upd_proc_upd: "i < length (procs k) \<Longrightarrow> upd_proc i g (upd_proc i h k) = upd_proc i (\<lambda>p. g (h p)) k"
  by (simp add: upd_proc_def)

lemma freeproc_new_ok:
  assumes ok: "kernel_ok k" and i: "i < NPROC" "state (procs k ! i) = UNUSED"
    and m: "nextpid k \<le> m" and g: "ofile (g (procs k ! i)) = ofile (procs k ! i)" "cwd (g (procs k ! i)) = cwd (procs k ! i)"
  shows "kernel_ok (freeproc i (upd_proc i g (k\<lparr>nextpid := m\<rparr>)))"
proof -
  let ?k = "k\<lparr>nextpid := m\<rparr>"
  have okm: "kernel_ok ?k" using ok m by (rule pid_bump_ok)
  note d = kernel_okD [OF okm]
  note t = tabD [OF d(2) [unfolded table_ok_def]]
  have eq: "freeproc i (upd_proc i g ?k) = upd_proc i (\<lambda>p. cleared (g p)) ?k"
    using i d(1) by (simp add: freeproc_cleared upd_proc_upd)
  have u: "st_of ?k i = UNUSED" using i by (simp add: view_at)
  then have "pd_of ?k i = 0" "pa_of ?k i = None" using t(3) [of i] t(11) by simp_all
  then have "(pd_of ?k)(i := 0) = pd_of ?k" "(pa_of ?k)(i := None) = pa_of ?k" "(st_of ?k)(i := UNUSED) = st_of ?k"
    using u by (auto simp: fun_eq_iff)
  moreover have "tab_ok (st_of ?k) ((ch_of ?k)(i := NoChan)) (pd_of ?k) (pa_of ?k) (at ?k) (nextpid ?k) (initproc ?k)"
    using d(2) u by (intro tab_chan) (simp_all add: table_ok_def)
  ultimately have "table_ok (upd_proc i (\<lambda>p. cleared (g p)) ?k)" using i d(1) by (simp add: table_ok_def)
  moreover have "slot_ok (cleared (g (procs ?k ! i))) (at ?k i)"
    using d(4) [OF i(1)] i(2) g by (simp add: slot_ok_def over_def)
  ultimately show ?thesis using okm i g unfolding eq by (intro kernel_ok_upd) simp_all
qed

lemma goto_unused_ok:
  assumes ok: "kernel_ok k" and i: "i < NPROC" "state (procs k ! i) = UNUSED"
  shows "kernel_ok (goto i User k)"
proof -
  note t = kernel_okD(2) [OF ok, unfolded table_ok_def]
  have u: "st_of k i = UNUSED" using i by (simp add: view_at)
  then have pt: "at k i = User \<or> at k i = Gone" using tabD(1) [OF t, of i] by simp
  have "family_ok (st_of k) (pd_of k) (pa_of k) ((at k)(i := User)) (initproc k)"
  proof (rule family_point [of _ _ _ "at k"])
    show "family_ok (st_of k) (pd_of k) (pa_of k) (at k) (initproc k)" using t by (simp add: tab_ok_def)
    show "((at k)(i := User)) q = Linking j \<longleftrightarrow> at k q = Linking j"
      "((at k)(i := User)) q = Starting j \<longleftrightarrow> at k q = Starting j" for q j using pt by auto
    show "((at k)(i := User)) (initproc k) \<noteq> Exiting z" for z using tabD(9) [OF t, of z] by simp
  qed
  moreover have "points_ok (st_of k) ((at k)(i := User))" "waits_ok (st_of k) (ch_of k) (pa_of k) ((at k)(i := User))"
    using t u by (auto simp: tab_ok_def points_ok_def waits_ok_def)
  ultimately have "table_ok (goto i User k)" using t by (simp add: table_ok_def tab_ok_def)
  then show ?thesis using ok pt by (intro kernel_ok_goto) (auto simp: over_def)
qed

lemma goto_upd: "goto i x (upd_proc j g k) = upd_proc j g (goto i x k)"
  "goto i x (k\<lparr>nextpid := m\<rparr>) = (goto i x k)\<lparr>nextpid := m\<rparr>"
  by (simp_all add: goto_def upd_proc_def)

text \<open>What \<open>allocproc\<close> may do.\<close>

definition born :: "trapframe \<Rightarrow> int \<Rightarrow> proc \<Rightarrow> proc" where
  "born t pd p = p\<lparr>pid := pd, state := USED, trapframe := Some t\<rparr>"

lemma born_fields [simp]:
  "pid (born t pd p) = pd" "state (born t pd p) = USED" "trapframe (born t pd p) = Some t"
  "parent (born t pd p) = parent p" "chan (born t pd p) = chan p" "ofile (born t pd p) = ofile p"
  "cwd (born t pd p) = cwd p" "killed (born t pd p) = killed p"
  by (simp_all add: born_def)

lemma allocproc_cases:
  assumes "length (procs k) = NPROC"
  obtains (full) "allocproc tf pt_ok k = (None, k)" "\<forall>p \<in> set (procs k). state p \<noteq> UNUSED"
  | (failed) i g where "i < NPROC" "state (procs k ! i) = UNUSED"
      "allocproc tf pt_ok k = (None, freeproc i (upd_proc i g (k\<lparr>nextpid := nextpid k + 1\<rparr>)))"
      "\<And>p. ofile (g p) = ofile p" "\<And>p. cwd (g p) = cwd p"
  | (new) i t where "i < NPROC" "state (procs k ! i) = UNUSED" "tf = Some t" "pt_ok"
      "\<And>j. j < i \<Longrightarrow> state (procs k ! j) \<noteq> UNUSED"
      "allocproc tf pt_ok k =
        (Some i, upd_proc i (born t (nextpid k)) (goto i User (k\<lparr>nextpid := nextpid k + 1\<rparr>)))"
proof (cases "first_index (\<lambda>p. state p = UNUSED) (procs k)")
  case None
  then have "allocproc tf pt_ok k = (None, k)" by (simp add: allocproc_def)
  then show ?thesis using full None by (simp add: first_index_None)
next
  case (Some i)
  note i = first_index_SomeD [OF Some]
  let ?k = "k\<lparr>nextpid := nextpid k + 1\<rparr>"
  let ?g = "\<lambda>p. p\<lparr>pid := nextpid k, state := USED\<rparr>"
  show ?thesis
  proof (cases tf)
    case None
    then have "allocproc tf pt_ok k = (None, freeproc i (upd_proc i ?g ?k))"
      using Some by (simp add: allocproc_def allocpid_def Let_def)
    then show ?thesis using failed [of i ?g] i assms by simp
  next
    case (Some t)
    have two: "upd_proc i (\<lambda>p. p\<lparr>trapframe := Some t\<rparr>) (upd_proc i ?g ?k) = upd_proc i (born t (nextpid k)) ?k"
      using i(1) by (simp add: upd_proc_upd born_def [abs_def])
    show ?thesis
    proof (cases pt_ok)
      case True
      have "allocproc tf pt_ok k = (Some i, goto i User (upd_proc i (born t (nextpid k)) ?k))"
        using Some True two \<open>first_index _ _ = Some i\<close> by (simp add: allocproc_def allocpid_def Let_def)
      then show ?thesis using new [of i t] i assms True Some by (simp add: goto_upd)
    next
      case False
      have "allocproc tf pt_ok k = (None, freeproc i (upd_proc i (born t (nextpid k)) ?k))"
        using Some False two \<open>first_index _ _ = Some i\<close> by (simp add: allocproc_def allocpid_def Let_def)
      then show ?thesis using failed [of i "born t (nextpid k)"] i assms by simp
    qed
  qed
qed

definition copied :: "proc \<Rightarrow> trapframe \<Rightarrow> nat \<Rightarrow> proc \<Rightarrow> proc" where
  "copied p tp d c =
     c\<lparr>sz := sz p, trapframe := Some (tp(A0 := 0)), ofile := ofile p, cwd := Some d, pname := pname p\<rparr>"

lemma copied_fields [simp]:
  "pid (copied p tp d c) = pid c" "state (copied p tp d c) = state c" "parent (copied p tp d c) = parent c"
  "chan (copied p tp d c) = chan c" "ofile (copied p tp d c) = ofile p" "cwd (copied p tp d c) = Some d"
  "trapframe (copied p tp d c) = Some (tp(A0 := 0))" "killed (copied p tp d c) = killed c"
  "sz (copied p tp d c) = sz p" "pname (copied p tp d c) = pname p"
  by (simp_all add: copied_def)

lemma fork_copy_eq:
  assumes "length (procs k) = NPROC" "np < NPROC" "me \<noteq> np" "trapframe (procs k ! me) = Some tp"
    "trapframe (procs k ! np) \<noteq> None" "cwd (procs k ! me) = Some d"
    "dup_files (ofile (procs k ! me)) (ofile (procs k ! np)) (io k) = Inr (ofile (procs k ! me), s)"
  shows "fork_copy me np k = Inr (upd_proc np (copied (procs k ! me) tp d) (k\<lparr>io := idup d s\<rparr>))"
proof -
  have "procs (upd_proc i g (upd_proc np h k)) = procs (upd_proc i g (upd_proc np h k))" for i g h ..
  show ?thesis using assms
    by (auto simp: fork_copy_def Let_def copied_def [abs_def] upd_proc_def nth_list_update)
qed

lemma idup_ok: "io_ok R W s \<Longrightarrow> io_ok R (add_mset d W) (idup d s)"
  by (auto simp: io_ok_def refs_ok_def ends_def idup_def inodes_ok_def inode_files_def cong: if_cong)

lemma idup_typed [simp]: "typed R (idup d s) = typed R s"
  by (simp add: typed_def idup_def)

lemma fork_copied_ok:
  assumes ok: "kernel_ok k" and me: "me < NPROC" "state (procs k ! me) = RUNNING" "at k me = User"
    and np: "np < NPROC" "state (procs k ! np) = UNUSED"
    and s: "io_ok (held (ofile (procs k ! me)) + descs (procs k)) (dirs (procs k)) s"
      "typed (held (ofile (procs k ! me)) + descs (procs k)) s"
  shows "kernel_ok (goto me (Linking np) (upd_proc np (\<lambda>c. copied (procs k ! me) tp d (born t (nextpid k) c))
           (goto np User (k\<lparr>nextpid := nextpid k + 1, io := idup d s\<rparr>))))" (is "kernel_ok ?k")
proof -
  note D = kernel_okD [OF ok]
  have len: "length (procs k) = NPROC" by (rule D(1))
  have ne: "np \<noteq> me" using me np by auto
  let ?old = "goto np User (k\<lparr>nextpid := nextpid k + 1, io := idup d s\<rparr>)"
  let ?g = "\<lambda>c. copied (procs k ! me) tp d (born t (nextpid k) c)"
  have "tab_ok ((st_of k)(np := USED)) (ch_of k) ((pd_of k)(np := nextpid k)) (pa_of k)
    ((at k)(np := User, me := Linking np)) (nextpid k + 1) (initproc k)"
    using D(2) me np by (intro tab_fork) (simp_all add: table_ok_def view_at)
  moreover have "st_of ?old = st_of k" "ch_of ?old = ch_of k" "pd_of ?old = pd_of k" "pa_of ?old = pa_of k"
    by (simp_all add: fun_eq_iff st_of_def ch_of_def pd_of_def pa_of_def)
  ultimately have tab: "table_ok ?k" using np len by (simp add: table_ok_def)
  have free: "ofile (procs k ! np) = replicate NOFILE None" "cwd (procs k ! np) = None"
    using D(4) [OF np(1)] np(2) by (simp_all add: slot_ok_def over_def)
  have procs: "procs ?k = (procs k)[np := ?g (procs k ! np)]" by (simp add: upd_proc_def)
  have up: "descs (procs ?k) = held (ofile (procs k ! me)) + descs (procs k)"
    "dirs (procs ?k) = add_mset d (dirs (procs k))"
    using descs_upd [of np "procs k"] len np free unfolding procs by simp_all
  have "held_ok ?k" unfolding held_ok_def up using idup_ok [OF s(1), of d] s(2) by simp
  moreover have "slot_ok (procs ?k ! j) (at ?k j)" if "j < NPROC" for j
  proof -
    have p: "procs ?k ! j = (if j = np then ?g (procs k ! np) else procs k ! j)" using np len that by simp
    have a: "at ?k j = (if j = me then Linking np else if j = np then User else at k j)" by simp
    have "slot_ok (procs k ! me) User" using D(4) [OF me(1)] me(3) by simp
    then show ?thesis using D(4) [OF that] ne me(2) unfolding p a by (auto simp: slot_ok_def over_def)
  qed
  ultimately show ?thesis using tab len by (simp add: kernel_ok_def)
qed

lemma fork_alloc_ok [inv_pres]:
  assumes ok: "kernel_ok k" and me: "me < NPROC" "state (procs k ! me) = RUNNING" "at k me = User"
  shows "(\<exists>k'. fork_alloc tf pt_ok mem_ok me k = Inr (None, k') \<and> kernel_ok k') \<or>
    (\<exists>np k'. fork_alloc tf pt_ok mem_ok me k = Inr (Some np, k') \<and> np < NPROC \<and>
       kernel_ok (goto me (Linking np) k'))"
proof (rule allocproc_cases [OF kernel_okD(1) [OF ok], of tf pt_ok])
  assume "allocproc tf pt_ok k = (None, k)"
  then show ?thesis using ok by (simp add: fork_alloc_def)
next
  fix i g
  assume "i < NPROC" "state (procs k ! i) = UNUSED" "\<And>p. ofile (g p) = ofile p" "\<And>p. cwd (g p) = cwd p"
    "allocproc tf pt_ok k = (None, freeproc i (upd_proc i g (k\<lparr>nextpid := nextpid k + 1\<rparr>)))"
  then show ?thesis using freeproc_new_ok [OF ok, of i "nextpid k + 1" g] by (simp add: fork_alloc_def)
next
  fix i t
  assume i: "i < NPROC" "state (procs k ! i) = UNUSED" "tf = Some t" "pt_ok"
    and a: "allocproc tf pt_ok k =
      (Some i, upd_proc i (born t (nextpid k)) (goto i User (k\<lparr>nextpid := nextpid k + 1\<rparr>)))"
  note D = kernel_okD [OF ok]
  let ?k1 = "upd_proc i (born t (nextpid k)) (goto i User (k\<lparr>nextpid := nextpid k + 1\<rparr>))"
  have ne: "me \<noteq> i" using i me by auto
  show ?thesis
  proof (cases mem_ok)
    case False
    then have "fork_alloc tf pt_ok mem_ok me k = Inr (None, freeproc i ?k1)" by (simp add: fork_alloc_def a)
    moreover have "kernel_ok (freeproc i ?k1)"
      using freeproc_new_ok [OF goto_unused_ok [OF ok i(1,2)], of i "nextpid k + 1" "born t (nextpid k)"] i
      by (simp add: goto_upd)
    ultimately show ?thesis by blast
  next
    case True
    have slot: "slot_ok (procs k ! me) User" using D(4) [OF me(1)] me(3) by simp
    then obtain tp d where p: "trapframe (procs k ! me) = Some tp" "cwd (procs k ! me) = Some d"
      "length (ofile (procs k ! me)) = NOFILE" using me(2) by (auto simp: slot_ok_def over_def)
    have free: "ofile (procs k ! i) = replicate NOFILE None"
      using D(4) [OF i(1)] i(2) by (simp add: slot_ok_def over_def)
    have io: "io_ok (descs (procs k) + {#}) (dirs (procs k)) (io k)" "typed (descs (procs k) + {#}) (io k)"
      using D(3) by (simp_all add: held_ok_def)
    have sub: "set_mset (held (ofile (procs k ! me))) \<subseteq> set_mset (descs (procs k))"
      using descs_upd(2) [of me "procs k"] D(1) me(1) by simp
    obtain s where s: "dup_files (ofile (procs k ! me)) (ofile (procs k ! i)) (io k) = Inr (ofile (procs k ! me), s)"
      "io_ok (held (ofile (procs k ! me)) + descs (procs k)) (dirs (procs k)) s"
      "typed (held (ofile (procs k ! me)) + descs (procs k)) s"
      using dup_files_ok [OF io sub] free p(3) by auto
    let ?k2 = "upd_proc i (\<lambda>c. copied (procs k ! me) tp d (born t (nextpid k) c))
           (goto i User (k\<lparr>nextpid := nextpid k + 1, io := idup d s\<rparr>))"
    have "fork_copy me i ?k1 = Inr (upd_proc i (copied (procs ?k1 ! me) tp d) (?k1\<lparr>io := idup d s\<rparr>))"
      using s(1) p D(1) i ne by (intro fork_copy_eq) simp_all
    also have "procs ?k1 ! me = procs k ! me" using ne i D(1) by simp
    also have "upd_proc i (copied (procs k ! me) tp d) (?k1\<lparr>io := idup d s\<rparr>) = ?k2"
      using i(1) D(1) by (simp add: upd_proc_def goto_def)
    finally have "fork_alloc tf pt_ok mem_ok me k = Inr (Some i, ?k2)" using True by (simp add: fork_alloc_def a)
    then show ?thesis using fork_copied_ok [OF ok me i(1,2) s(2,3), of tp d t] i(1) by blast
  qed
qed

lemma fork_link_ok [inv_pres]:
  assumes ok: "kernel_ok k" and me: "me < NPROC" "state (procs k ! me) = RUNNING" "at k me = Linking np"
  shows "kernel_ok (goto me (Starting np) (fork_link me np k))"
proof -
  note D = kernel_okD [OF ok]
  note t = tabD [OF D(2) [unfolded table_ok_def]]
  have "st_of k np = USED" using t(15) [of me np] me(3) by (simp add: making_def)
  then have np: "np < NPROC" by (auto simp: st_of_def split: if_splits)
  have "tab_ok (st_of k) (ch_of k) (pd_of k) ((pa_of k)(np := Some me)) ((at k)(me := Starting np)) (nextpid k)
    (initproc k)" using D(2) me by (intro tab_link) (simp_all add: table_ok_def view_at)
  then have "table_ok (goto me (Starting np) (fork_link me np k))" using np D(1)
    by (simp add: table_ok_def fork_link_def)
  moreover have "kernel_ok (goto me (Starting np) (fork_link me np k))"
    if "table_ok (goto me (Starting np) (fork_link me np k))"
  proof -
    have "held_ok (fork_link me np k)" unfolding fork_link_def using D(1,3) np by (subst held_ok_upd) simp_all
    moreover have "slot_ok (procs (fork_link me np k) ! j) (((at k)(me := Starting np)) j)" if "j < NPROC" for j
      using D(4) [OF that] D(1) np me by (auto simp: fork_link_def slot_ok_def over_def)
    ultimately show ?thesis using that D(1) by (simp add: kernel_ok_def fork_link_def)
  qed
  ultimately show ?thesis by blast
qed

lemma fork_start_ok [inv_pres]:
  assumes ok: "kernel_ok k" and me: "me < NPROC" "state (procs k ! me) = RUNNING" "at k me = Starting np"
  shows "kernel_ok (goto me User (fork_start np k))"
proof -
  note D = kernel_okD [OF ok]
  note t = tabD [OF D(2) [unfolded table_ok_def]]
  have u: "st_of k np = USED" using t(15) [of me np] me(3) by (simp add: making_def)
  then have np: "np < NPROC" by (auto simp: st_of_def split: if_splits)
  have used: "state (procs k ! np) = USED" "at k np = User" using u np t(1) [of np] by (simp_all add: view_at)
  have "tab_ok ((st_of k)(np := RUNNABLE)) (ch_of k) (pd_of k) (pa_of k) ((at k)(me := User)) (nextpid k)
    (initproc k)" using D(2) me by (intro tab_start) (simp_all add: table_ok_def view_at)
  then have "table_ok (goto me User (fork_start np k))" using np D(1)
    by (simp add: table_ok_def fork_start_def)
  moreover have "held_ok (fork_start np k)" unfolding fork_start_def using D(1,3) np by (subst held_ok_upd) simp_all
  moreover have "slot_ok (procs (fork_start np k) ! j) (((at k)(me := User)) j)" if "j < NPROC" for j
    using D(4) [OF that] D(1) np me used by (auto simp: fork_start_def slot_ok_def over_def)
  ultimately show ?thesis using D(1) by (simp add: kernel_ok_def fork_start_def)
qed

section \<open>The calls on files\<close>

lemma change_files_ok:
  assumes ok: "kernel_ok k" and me: "me < NPROC" "\<not> over (state (procs k ! me)) (at k me)" "state (procs k ! me) \<noteq> UNUSED"
    and s: "io_ok (held os + descs_but me (procs k)) (add_mset d (dirs_but me (procs k))) s"
      "typed (held os + descs_but me (procs k)) s" "length os = NOFILE"
  shows "kernel_ok (upd_proc me (\<lambda>p. p\<lparr>ofile := os, cwd := Some d\<rparr>) (k\<lparr>io := s\<rparr>))" (is "kernel_ok ?k")
proof -
  note D = kernel_okD [OF ok]
  have procs: "procs ?k = (procs k)[me := (procs k ! me)\<lparr>ofile := os, cwd := Some d\<rparr>]"
    by (simp add: upd_proc_def)
  have "held_ok ?k" unfolding held_ok_def procs using s descs_upd [of me "procs k"] D(1) me(1) by simp
  moreover have "table_ok ?k" using D(1,2) me(1) by (simp add: table_ok_def)
  moreover have "slot_ok (procs ?k ! j) (at k j)" if "j < NPROC" for j
    using D(4) [OF that] D(1) me s(3) that by (auto simp: slot_ok_def)
  ultimately show ?thesis using D(1) by (simp add: kernel_ok_def)
qed

lemma upd_cwd_same:
  assumes "me < length (procs k)" "cwd (procs k ! me) = Some d"
  shows "upd_proc me (\<lambda>p. p\<lparr>ofile := os\<rparr>) (k\<lparr>io := s\<rparr>) = upd_proc me (\<lambda>p. p\<lparr>ofile := os, cwd := Some d\<rparr>) (k\<lparr>io := s\<rparr>)"
proof -
  have "(procs k ! me)\<lparr>ofile := os\<rparr> = (procs k ! me)\<lparr>ofile := os, cwd := Some d\<rparr>"
    using assms(2) by (cases "procs k ! me") simp
  then show ?thesis by (simp add: upd_proc_def)
qed

lemma user_files:
  assumes ok: "kernel_ok k" and me: "me < NPROC" "state (procs k ! me) = RUNNING" "at k me = User"
  obtains d where "cwd (procs k ! me) = Some d" "length (ofile (procs k ! me)) = NOFILE"
    "\<not> over (state (procs k ! me)) (at k me)"
    "io_ok (held (ofile (procs k ! me)) + descs_but me (procs k)) (add_mset d (dirs_but me (procs k))) (io k)"
    "typed (held (ofile (procs k ! me)) + descs_but me (procs k)) (io k)"
proof -
  note D = kernel_okD [OF ok]
  have over: "\<not> over (state (procs k ! me)) (at k me)" using me by (simp add: over_def)
  then obtain d where d: "cwd (procs k ! me) = Some d" "length (ofile (procs k ! me)) = NOFILE"
    using D(4) [OF me(1)] by (auto simp: slot_ok_def)
  have "descs (procs k) = held (ofile (procs k ! me)) + descs_but me (procs k)"
    "dirs (procs k) = add_mset d (dirs_but me (procs k))"
    using descs_upd [of me "procs k"] D(1) me(1) d(1) by simp_all
  then show ?thesis using that d over D(3) by (simp add: held_ok_def)
qed

text \<open>A call that returns descriptors and tables that are in order leaves the kernel in order.\<close>

lemma with_files_ok:
  assumes ok: "kernel_ok k" and me: "me < NPROC" "state (procs k ! me) = RUNNING" "at k me = User"
    and f: "\<And>d. cwd (procs k ! me) = Some d \<Longrightarrow> length (ofile (procs k ! me)) = NOFILE \<Longrightarrow>
        io_ok (held (ofile (procs k ! me)) + descs_but me (procs k)) (add_mset d (dirs_but me (procs k))) (io k) \<Longrightarrow>
        typed (held (ofile (procs k ! me)) + descs_but me (procs k)) (io k) \<Longrightarrow>
        \<exists>x os s. r = Inr (x, os, s) \<and> io_ok (held os + descs_but me (procs k)) (add_mset d (dirs_but me (procs k))) s \<and>
          typed (held os + descs_but me (procs k)) s \<and> length os = NOFILE"
  shows "\<exists>k'. with_files me k r = Inr k' \<and> kernel_ok k'"
proof -
  obtain d where d: "cwd (procs k ! me) = Some d" "length (ofile (procs k ! me)) = NOFILE"
    "\<not> over (state (procs k ! me)) (at k me)"
    "io_ok (held (ofile (procs k ! me)) + descs_but me (procs k)) (add_mset d (dirs_but me (procs k))) (io k)"
    "typed (held (ofile (procs k ! me)) + descs_but me (procs k)) (io k)"
    using user_files [OF ok me] .
  obtain x os s where r: "r = Inr (x, os, s)"
    and s: "io_ok (held os + descs_but me (procs k)) (add_mset d (dirs_but me (procs k))) s"
    "typed (held os + descs_but me (procs k)) s" "length os = NOFILE"
    using f [OF d(1,2,4,5)] by blast
  have "me < length (procs k)" using me(1) kernel_okD(1) [OF ok] by simp
  then have "with_files me k r = Inr (upd_proc me (\<lambda>p. p\<lparr>ofile := os, cwd := Some d\<rparr>) (k\<lparr>io := s\<rparr>))"
    using r upd_cwd_same d(1) by (simp add: with_files_def)
  then show ?thesis using change_files_ok [OF ok me(1) d(3) _ s] me(2) by auto
qed

lemma iput_ok: "io_ok R (add_mset d W) s \<Longrightarrow> io_ok R W (iput d s)"
  by (simp add: io_ok_def) (auto simp: inodes_ok_def inode_files_def iput_def)

lemma iput_typed [simp]: "typed R (iput d s) = typed R s"
  by (simp add: typed_def)

lemma change_dir_ok [inv_pres]:
  assumes ok: "kernel_ok k" and me: "me < NPROC" "state (procs k ! me) = RUNNING" "at k me = User"
  shows "\<exists>k'. change_dir x me (k\<lparr>io := idup x (io k)\<rparr>) = Inr k' \<and> kernel_ok k'"
proof -
  let ?os = "ofile (procs k ! me)"
  obtain d where d: "cwd (procs k ! me) = Some d" "length ?os = NOFILE"
    "\<not> over (state (procs k ! me)) (at k me)"
    "io_ok (held ?os + descs_but me (procs k)) (add_mset d (dirs_but me (procs k))) (io k)"
    "typed (held ?os + descs_but me (procs k)) (io k)"
    using user_files [OF ok me] .
  let ?s = "iput d (idup x (io k))"
  have "io_ok (held ?os + descs_but me (procs k)) (add_mset x (dirs_but me (procs k))) ?s"
    using idup_ok [OF d(4), of x] by (intro iput_ok) (simp add: add_mset_commute)
  then have "kernel_ok (upd_proc me (\<lambda>p. p\<lparr>ofile := ?os, cwd := Some x\<rparr>) (k\<lparr>io := ?s\<rparr>))"
    using d me by (intro change_files_ok [OF ok]) simp_all
  moreover have "upd_proc me (\<lambda>p. p\<lparr>ofile := ?os, cwd := Some x\<rparr>) (k\<lparr>io := ?s\<rparr>) =
    upd_proc me (\<lambda>p. p\<lparr>cwd := Some x\<rparr>) (k\<lparr>io := ?s\<rparr>)" by (simp add: upd_proc_def)
  ultimately show ?thesis using d(1) by (simp add: change_dir_def)
qed

section \<open>Exit\<close>

lemma close_files_ok:
  assumes "io_ok (held os + Q) W s" "typed (held os + Q) s"
  shows "\<exists>s'. close_files os s = Inr (replicate (length os) None, s') \<and> io_ok Q W s' \<and> typed Q s'"
  using assms
proof (induction os s rule: close_files.induct)
  case (3 f os s)
  have "typed (held os + Q) s" using "3.prems"(2) by (simp add: typed_def)
  then obtain s1 where s1: "fileclose f s = Inr s1" "io_ok (held os + Q) W s1" "typed (held os + Q) s1"
    using close_typed [OF "3.prems"(1), of f] by auto
  then show ?case using "3.IH" [OF s1] by auto
qed auto

lemma exit_files_ok [inv_pres]:
  assumes ok: "kernel_ok k" and me: "me < NPROC" "state (procs k ! me) = RUNNING" "at k me = User"
    and ni: "me \<noteq> initproc k"
  shows "\<exists>k'. exit_files me k = Inr k' \<and> kernel_ok (goto me (Exiting z) k')"
proof -
  note D = kernel_okD [OF ok]
  let ?os = "ofile (procs k ! me)" and ?none = "replicate NOFILE None"
  obtain d where d: "cwd (procs k ! me) = Some d" "length ?os = NOFILE"
    "io_ok (held ?os + descs_but me (procs k)) (add_mset d (dirs_but me (procs k))) (io k)"
    "typed (held ?os + descs_but me (procs k)) (io k)"
    using user_files [OF ok me] .
  obtain s where s: "close_files ?os (io k) = Inr (?none, s)"
    "io_ok (descs_but me (procs k)) (add_mset d (dirs_but me (procs k))) s" "typed (descs_but me (procs k)) s"
    using close_files_ok [OF d(3,4)] d(2) by auto
  let ?k = "upd_proc me (\<lambda>p. p\<lparr>ofile := ?none, cwd := None\<rparr>) (k\<lparr>io := iput d s\<rparr>)"
  have procs: "procs ?k = (procs k)[me := (procs k ! me)\<lparr>ofile := ?none, cwd := None\<rparr>]" by (simp add: upd_proc_def)
  have "held_ok ?k" unfolding held_ok_def procs
    using iput_ok [OF s(2)] s(3) descs_upd [of me "procs k"] D(1) me(1) by simp
  moreover have "tab_ok (st_of k) (ch_of k) (pd_of k) (pa_of k) ((at k)(me := Exiting z)) (nextpid k) (initproc k)"
    using D(2) me ni by (intro tab_goto) (simp_all add: table_ok_def view_at)
  then have "table_ok (goto me (Exiting z) ?k)" using D(1) me(1) by (simp add: table_ok_def)
  moreover have "slot_ok (procs ?k ! j) (((at k)(me := Exiting z)) j)" if "j < NPROC" for j
    using D(4) [OF that] D(1) me that by (auto simp: slot_ok_def over_def)
  ultimately have "kernel_ok (goto me (Exiting z) ?k)" using D(1) by (simp add: kernel_ok_def)
  then show ?thesis using ni s(1) d(1) by (simp add: exit_files_def)
qed

text \<open>What \<open>reparent\<close> does to every slot: the loop up to \<open>n\<close>.\<close>

definition has_child :: "nat \<Rightarrow> nat \<Rightarrow> kernel \<Rightarrow> bool" where
  "has_child n me k \<longleftrightarrow> (\<exists>i < n. parent (procs k ! i) = Some me)"

definition adopted :: "nat \<Rightarrow> nat \<Rightarrow> kernel \<Rightarrow> nat \<Rightarrow> proc \<Rightarrow> proc" where
  "adopted n me k j p =
     (let p = (if j < n \<and> parent p = Some me then p\<lparr>parent := Some (initproc k)\<rparr> else p)
      in if has_child n me k then wake_one (Some me) (ProcChan (initproc k)) j p else p)"

lemma wake_one_twice [simp]: "wake_one me c j (wake_one me c j p) = wake_one me c j p"
  by (simp add: wake_one_def)

lemma wake_one_parent: "wake_one me c j (p\<lparr>parent := x\<rparr>) = (wake_one me c j p)\<lparr>parent := x\<rparr>"
  by (simp add: wake_one_def)

lemma fold_reparent:
  assumes "me \<noteq> initproc k" "n \<le> length (procs k)"
  shows "length (procs (fold (reparent_one me) [0..<n] k)) = length (procs k) \<and>
    initproc (fold (reparent_one me) [0..<n] k) = initproc k \<and>
    io (fold (reparent_one me) [0..<n] k) = io k \<and> at (fold (reparent_one me) [0..<n] k) = at k \<and>
    nextpid (fold (reparent_one me) [0..<n] k) = nextpid k \<and>
    (\<forall>j < length (procs k). procs (fold (reparent_one me) [0..<n] k) ! j = adopted n me k j (procs k ! j))"
  using assms(2)
proof (induction n)
  case 0
  then show ?case by (simp add: adopted_def has_child_def)
next
  case (Suc n)
  let ?K = "fold (reparent_one me) [0..<n] k"
  have IH: "length (procs ?K) = length (procs k)" "initproc ?K = initproc k" "io ?K = io k" "at ?K = at k"
    "nextpid ?K = nextpid k" "\<And>j. j < length (procs k) \<Longrightarrow> procs ?K ! j = adopted n me k j (procs k ! j)"
    using Suc by simp_all
  have n: "n < length (procs k)" using Suc.prems by simp
  have step: "fold (reparent_one me) [0..<Suc n] k = reparent_one me n ?K" by simp
  have par: "parent (procs ?K ! n) = parent (procs k ! n)" using IH(6) [OF n] by (simp add: adopted_def Let_def)
  have hc: "has_child (Suc n) me k \<longleftrightarrow> has_child n me k \<or> parent (procs k ! n) = Some me"
    by (auto simp: has_child_def less_Suc_eq)
  show ?case
  proof (cases "parent (procs k ! n) = Some me")
    case True
    have "procs (reparent_one me n ?K) ! j = adopted (Suc n) me k j (procs k ! j)" if j: "j < length (procs k)" for j
    proof (cases "j = n")
      case True
      then show ?thesis using \<open>parent (procs k ! n) = Some me\<close> IH n par hc assms(1)
        by (simp add: reparent_one_def wakeup_nth adopted_def Let_def wake_one_parent)
    next
      case False
      then have "j < Suc n \<longleftrightarrow> j < n" by auto
      then show ?thesis using False True IH n par hc j
        by (simp add: reparent_one_def wakeup_nth adopted_def Let_def)
    qed
    then show ?thesis unfolding step using True IH(1-5) par by (simp add: reparent_one_def)
  next
    case False
    then have "adopted (Suc n) me k j (procs k ! j) = adopted n me k j (procs k ! j)" for j
      using hc by (auto simp: adopted_def Let_def less_Suc_eq)
    then show ?thesis unfolding step using False IH par by (simp add: reparent_one_def)
  qed
qed

lemma reparent_effect:
  assumes "me \<noteq> initproc k"
  shows "length (procs (reparent me k)) = length (procs k)" "initproc (reparent me k) = initproc k"
    "io (reparent me k) = io k" "at (reparent me k) = at k" "nextpid (reparent me k) = nextpid k"
    "\<And>j. j < length (procs k) \<Longrightarrow> procs (reparent me k) ! j = adopted (length (procs k)) me k j (procs k ! j)"
  using fold_reparent [OF assms, of "length (procs k)"] by (simp_all add: reparent_def)

lemma adopted_fields [simp]:
  "chan (adopted n me k j p) = chan p" "pid (adopted n me k j p) = pid p" "ofile (adopted n me k j p) = ofile p"
  "cwd (adopted n me k j p) = cwd p" "trapframe (adopted n me k j p) = trapframe p"
  "killed (adopted n me k j p) = killed p" "xstate (adopted n me k j p) = xstate p"
  "state (adopted n me k j p) = (if has_child n me k \<and> j \<noteq> me \<and> state p = SLEEPING \<and> chan p = ProcChan (initproc k)
     then RUNNABLE else state p)"
  "parent (adopted n me k j p) = (if j < n \<and> parent p = Some me then Some (initproc k) else parent p)"
  by (auto simp: adopted_def Let_def wake_one_def)

lemma reparent_views:
  assumes "me \<noteq> initproc k" "length (procs k) = NPROC"
  shows "st_of (reparent me k) =
      roused {j. has_child NPROC me k \<and> j \<noteq> me \<and> ch_of k j = ProcChan (initproc k)} (st_of k)"
    "ch_of (reparent me k) = ch_of k" "pd_of (reparent me k) = pd_of k"
    "pa_of (reparent me k) = (\<lambda>j. if pa_of k j = Some me then Some (initproc k) else pa_of k j)"
  using assms by (auto simp: fun_eq_iff st_of_def ch_of_def pd_of_def pa_of_def roused_def reparent_effect)

text \<open>A process in \<open>exit\<close> becomes a zombie.\<close>

lemma exit_zombie_ok [inv_pres]:
  assumes ok: "kernel_ok k" and me: "me < NPROC" "state (procs k ! me) = RUNNING" "at k me = Exiting z"
  shows "kernel_ok (goto me Gone (exit_zombie z me k))"
proof -
  note D = kernel_okD [OF ok]
  note t = tabD [OF D(2) [unfolded table_ok_def]]
  have ni: "me \<noteq> initproc k" using t(9) [of z] me(3) by auto
  have nsp: "pa_of k me \<noteq> Some me" using t(13) [of me me] by auto
  let ?r = "reparent me k"
  note re = reparent_effect [OF ni] reparent_views [OF ni D(1)]
  have rpar: "parent (procs ?r ! me) = pa_of k me" using re(6) me(1) D(1) nsp by (simp add: view_at)
  let ?w = "wakeup (Some me) (parent_chan (procs ?r ! me)) ?r"
  have e: "exit_zombie z me k = upd_proc me (\<lambda>p. p\<lparr>xstate := z, state := ZOMBIE\<rparr>) ?w"
    by (simp add: exit_zombie_def Let_def)
  define A where "A = {j. has_child NPROC me k \<and> j \<noteq> me \<and> ch_of k j = ProcChan (initproc k)}"
  define B where "B = {j. Some me \<noteq> Some j \<and> ch_of k j = parent_chan (procs ?r ! me)}"
  have stw: "st_of ?w = roused B (roused A (st_of k))" using re(1,7,8) D(1) by (simp add: A_def B_def)
  have nsl: "st_of k me = RUNNING" using me by (simp add: view_at)
  have tab: "tab_ok ((st_of ?w)(me := ZOMBIE)) (ch_of k) (pd_of k)
      (\<lambda>j. if pa_of k j = Some me then Some (initproc k) else pa_of k j) ((at k)(me := Gone)) (nextpid k) (initproc k)"
  proof (rule tab_zombie)
    show "tab_ok (st_of ?w) (ch_of k) (pd_of k) (pa_of k) (at k) (nextpid k) (initproc k)"
      unfolding stw using D(2) by (intro tab_roused) (simp add: table_ok_def)
    show "st_of ?w me = RUNNING" "at k me = Exiting z" using nsl me by (simp_all add: stw roused_def)
    show "st_of ?w q \<noteq> SLEEPING \<or> ch_of k q \<noteq> ProcChan q" if "pa_of k me = Some q" for q
      unfolding stw using that rpar nsp by (auto simp: roused_def B_def parent_chan_def)
    show "st_of ?w (initproc k) \<noteq> SLEEPING \<or> ch_of k (initproc k) \<noteq> ProcChan (initproc k)"
      if "pa_of k j = Some me" for j
    proof -
      have "has_child NPROC me k" using that by (auto simp: has_child_def pa_of_def split: if_splits)
      then show ?thesis using ni by (auto simp: stw roused_def A_def)
    qed
  qed
  have len: "length (procs ?w) = NPROC" using re(1) D(1) by simp
  have "table_ok (goto me Gone (exit_zombie z me k))"
  proof -
    have "table_ok (goto me Gone (upd_proc me (\<lambda>p. p\<lparr>xstate := z, state := ZOMBIE\<rparr>) w)) =
      tab_ok ((st_of w)(me := ZOMBIE)) (ch_of w) (pd_of w) (pa_of w) ((at w)(me := Gone)) (nextpid w) (initproc w)"
      if "length (procs w) = NPROC" for w using that me(1) by (simp add: table_ok_def)
    from this [OF len] show ?thesis unfolding e using tab re D(1) by (simp del: wakeup_views(1))
  qed
  moreover have files: "map ofile (procs ?r) = map ofile (procs k)" "map cwd (procs ?r) = map cwd (procs k)"
    using re(1,6) by (auto intro!: nth_equalityI)
  then have "held_ok ?r = held_ok k" by (simp add: held_ok_def descs_def dirs_def re(3))
  then have "held_ok (exit_zombie z me k)" unfolding e using D(3) len me(1) by (subst held_ok_upd) simp_all
  moreover have "slot_ok (procs (exit_zombie z me k) ! j) (((at k)(me := Gone)) j)" if "j < NPROC" for j
  proof -
    have "slot_ok (procs ?w ! j) (at k j)" using D(4) [OF that] D(1) re(1,6) that
      by (simp add: wakeup_nth slot_ok_def over_wake wake_unused) (auto simp: over_def)
    moreover have "over RUNNING (at k me)" using me by (simp add: over_def)
    then have "ofile (procs ?w ! me) = replicate NOFILE None \<and> cwd (procs ?w ! me) = None \<and>
      trapframe (procs ?w ! me) \<noteq> None"
      using D(4) [OF me(1)] D(1) re(1,6) me by (simp add: wakeup_nth slot_ok_def)
    ultimately show ?thesis unfolding e using len me(1) by (auto simp: slot_ok_def over_def)
  qed
  ultimately show ?thesis using len by (simp add: kernel_ok_def e re(4))
qed

section \<open>The whole system\<close>

lemma advance_ok [inv_pres]:
  assumes ok: "kernel_ok k" and me: "me < NPROC" "state (procs k ! me) = RUNNING"
    and c: "fresh_page c k" and ni: "\<And>z. at k me = User \<Longrightarrow> c = Exit z \<Longrightarrow> me \<noteq> initproc k"
  shows "\<exists>k'. advance c me k = Inr k' \<and> kernel_ok k'"
proof (cases "at k me")
  case User
  note f = with_files_ok [OF ok me User]
  show ?thesis
  proof (cases c)
    case (Fork tf pt_ok mem_ok)
    then show ?thesis using fork_alloc_ok [OF ok me User, of tf pt_ok mem_ok] User by (auto simp: advance_def call_def)
  next
    case (Exit status)
    then obtain k' where "exit_files me k = Inr k'" "kernel_ok (goto me (Exiting status) k')"
      using exit_files_ok [OF ok me User] ni User by blast
    then show ?thesis using Exit User by (simp add: advance_def call_def)
  next
    case (Wait out)
    then show ?thesis using kwait_round_ok [OF ok me] User by (simp add: advance_def call_def)
  next
    case (Kill x)
    then show ?thesis using kkill_ok [OF ok] User by (simp add: advance_def call_def)
  next
    case (Sleeps ch)
    then show ?thesis using sleep_ok [OF ok me, of "Chan ch" Asleep] User by (simp add: advance_def call_def)
  next
    case (Dup fd)
    have "\<exists>k'. with_files me k (sys_dup fd (ofile (procs k ! me)) (io k)) = Inr k' \<and> kernel_ok k'"
      by (rule f) (rule sys_dup_ok)
    then show ?thesis using Dup User by (simp add: advance_def call_def)
  next
    case (Close fd)
    have "\<exists>k'. with_files me k (sys_close fd (ofile (procs k ! me)) (io k)) = Inr k' \<and> kernel_ok k'"
      by (rule f) (rule sys_close_ok)
    then show ?thesis using Close User by (simp add: advance_def call_def)
  next
    case (Pipe page out0 out1)
    have fresh: "\<forall>pi d. page = Some (pi, d) \<longrightarrow> pipes (io k) pi = None" using c Pipe by (auto simp: fresh_page_def)
    have "\<exists>k'. with_files me k (sys_pipe page out0 out1 (ofile (procs k ! me)) (io k)) = Inr k' \<and> kernel_ok k'"
      by (rule f) (rule sys_pipe_ok; (assumption | rule fresh))
    then show ?thesis using Pipe User by (simp add: advance_def call_def)
  next
    case (Open x device m omode)
    have "\<exists>k'. with_files me k (open_file x device m omode (ofile (procs k ! me)) (idup x (io k))) = Inr k' \<and> kernel_ok k'"
      by (rule f) (rule open_file_ok; simp add: idup_ok)
    then show ?thesis using Open User by (simp add: advance_def call_def)
  next
    case (ChDir x)
    then show ?thesis using change_dir_ok [OF ok me User] User by (simp add: advance_def call_def)
  qed
next
  case (Linking np)
  then show ?thesis using fork_link_ok [OF ok me] by (simp add: advance_def)
next
  case (Starting np)
  then show ?thesis using fork_start_ok [OF ok me] by (simp add: advance_def)
next
  case (Exiting x)
  then show ?thesis using exit_zombie_ok [OF ok me] by (simp add: advance_def)
next
  case (Waiting out)
  have "at (woken me k) = at k" "state (procs (woken me k) ! me) = RUNNING"
    using me kernel_okD(1) [OF ok] by (simp_all add: woken_def)
  then show ?thesis using kwait_round_ok [OF woken_ok [OF ok me] me(1), of out] Waiting by (simp add: advance_def)
next
  case Asleep
  have "at (woken me k) = at k" "state (procs (woken me k) ! me) = RUNNING"
    using me kernel_okD(1) [OF ok] by (simp_all add: woken_def)
  then show ?thesis using goto_user_ok [OF woken_ok [OF ok me] me(1)] Asleep by (simp add: advance_def)
next
  case Gone
  have "point_ok (state (procs k ! me)) (at k me)"
    using tabD(1) [OF kernel_okD(2) [OF ok, unfolded table_ok_def], of me] me(1) by (simp add: view_at)
  then show ?thesis using Gone me by simp
qed

lemma held_Nones [simp]: "held (concat (replicate n (replicate m None))) = {#}"
  by (induction n) auto

lemma boot_io: "io_ok {#} {#} (io boot)"
proof -
  have e: "ends (io boot) = (\<lambda>_. None)" by (auto simp: ends_def boot_def empty_file_def pipe_end_def fun_eq_iff)
  have "refs_ok {#} (io boot)" by (simp add: refs_ok_def boot_def empty_file_def)
  moreover have "ends_ok (ends (io boot)) (pipes (io boot))" by (simp add: e ends_ok_def) (simp add: boot_def)
  moreover have "inodes_ok {#} (io boot)"
    by (auto simp: inodes_ok_def inode_files_def boot_def empty_file_def inode_of_def count_list_0_iff)
  ultimately show ?thesis by (simp add: io_ok_def)
qed

lemma first_replicate: "P x \<Longrightarrow> 0 < n \<Longrightarrow> first_index P (replicate n x) = Some 0"
  by (cases n) auto

definition first_proc :: "trapframe \<Rightarrow> nat \<Rightarrow> proc" where
  "first_proc t root = empty_proc\<lparr>pid := 1, trapframe := Some t, cwd := Some root, state := RUNNABLE\<rparr>"

lemma boot_simps [simp]:
  "length (procs boot) = NPROC" "nextpid boot = 1" "at boot = (\<lambda>_. User)"
  "i < NPROC \<Longrightarrow> procs boot ! i = empty_proc" "0 < NPROC"
  by (simp_all add: boot_def NPROC_def)

lemma userinit_boot:
  "userinit (Some t) True root boot =
     Inr (upd_proc 0 (\<lambda>_. first_proc t root) (boot\<lparr>nextpid := 2, initproc := 0, io := idup root (io boot)\<rparr>))"
proof -
  have f: "first_index (\<lambda>p. state p = UNUSED) (procs boot) = Some 0"
    by (simp add: boot_def first_replicate empty_proc_def NPROC_def)
  have g: "goto 0 User k = k" if "at k = (\<lambda>_. User)" for k
    using that by (cases k) (simp add: goto_def fun_upd_idem)
  have u: "upd_proc 0 h (boot\<lparr>nextpid := 2\<rparr>) = upd_proc 0 (\<lambda>_. h empty_proc) (boot\<lparr>nextpid := 2\<rparr>)" for h
    by (simp add: upd_proc_def)
  have "allocproc (Some t) True boot = (Some 0, upd_proc 0 (born t 1) (boot\<lparr>nextpid := 2\<rparr>))"
    by (simp add: allocproc_def f allocpid_def Let_def g upd_proc_upd born_def [abs_def])
  then show ?thesis
    by (simp add: userinit_def) (simp add: upd_proc_def born_def first_proc_def)
qed

lemma boot_ok:
  assumes "userinit (Some t) True root boot = Inr k" shows "kernel_ok k"
proof -
  have k: "procs k = (procs boot)[0 := first_proc t root]" "nextpid k = 2" "io k = idup root (io boot)"
    "at k = (\<lambda>_. User)" "initproc k = 0"
    using assms unfolding userinit_boot by (auto simp: upd_proc_def)
  have nth: "procs k ! i = (if i = 0 then first_proc t root else empty_proc)" if "i < NPROC" for i
    using that by (simp add: k nth_list_update)
  have v: "st_of k = (\<lambda>_. UNUSED)(0 := RUNNABLE)" "ch_of k = (\<lambda>_. NoChan)" "pd_of k = (\<lambda>_. 0)(0 := 1)"
    "pa_of k = (\<lambda>_. None)"
    by (auto simp: fun_eq_iff st_of_def ch_of_def pd_of_def pa_of_def nth first_proc_def empty_proc_def NPROC_def)
  have "table_ok k"
    by (simp add: table_ok_def v k tab_ok_def points_ok_def pids_ok_def family_ok_def waits_ok_def making_def)
  moreover have "descs (procs k) = {#}" "dirs (procs k) = {#root#}"
    using descs_upd(1) [of 0 "procs boot" "first_proc t root"] descs_upd(3) [of 0 "procs boot" "first_proc t root"]
    by (simp_all add: k boot_def NPROC_def descs_but_def dirs_but_def descs_def dirs_def first_proc_def empty_proc_def
        concat_replicate_trivial map_replicate_const)
  then have "held_ok k" using idup_ok [OF boot_io, of root] by (simp add: held_ok_def k typed_def)
  moreover have "slot_ok (procs k ! i) (at k i)" if "i < NPROC" for i
    using that by (simp add: nth k(4) slot_ok_def over_def first_proc_def empty_proc_def)
  ultimately show ?thesis by (simp add: kernel_ok_def k)
qed

lemma system_ok: "system k \<Longrightarrow> kernel_ok k"
proof (induction rule: system.induct)
  case (go k i c k')
  show ?case
  proof (cases "at k i = User \<and> (\<exists>z. c = Exit z) \<and> i = initproc k")
    case True
    then have "advance c i k = Inl (Panic ''init exiting'')" by (auto simp: advance_def call_def exit_files_def)
    then show ?thesis using go by simp
  next
    case False
    then show ?thesis using advance_ok [OF go.IH go.hyps(2,3,4)] go.hyps(5) by auto
  qed
qed (auto intro: boot_ok sched_run_ok yield_ok wakeup_ok setkilled_ok)

lemma system_tab:
  assumes "system k"
  shows "tab_ok (st_of k) (ch_of k) (pd_of k) (pa_of k) (at k) (nextpid k) (initproc k)"
  using system_ok [OF assms] by (simp add: kernel_ok_def table_ok_def)

definition booted :: kernel where
  "booted = upd_proc 0 (\<lambda>_. first_proc (\<lambda>_. 0) 1) (boot\<lparr>nextpid := 2, initproc := 0, io := idup 1 (io boot)\<rparr>)"

lemma system_booted: "system booted"
  using system.start [of "\<lambda>_. 0" 1 booted] unfolding userinit_boot by (simp add: booted_def)

text \<open>A run of the first process, for the witnesses below: it forks, and waits for the child.\<close>

definition step0 :: "syscall \<Rightarrow> kernel \<Rightarrow> kernel" where
  "step0 c k = (case advance c 0 k of Inl _ \<Rightarrow> k | Inr k \<Rightarrow> k)"

lemma system_step0:
  assumes "system k" "state (procs k ! 0) = RUNNING" "fresh_page c k" shows "system (step0 c k)"
  using system.go [OF assms(1) _ assms(2,3)] assms(1) by (auto simp: step0_def split: sum.splits)

definition forked :: kernel where
  "forked = (let f = step0 (Fork (Some (\<lambda>_. 0)) True True) in f (f (f (sched_run 0 booted))))"

definition parked :: kernel where
  "parked = step0 (Wait None) forked"

lemma forked_state: "state (procs forked ! 0) = RUNNING" "state (procs forked ! 1) = RUNNABLE"
  by code_simp+

lemma parked_state: "state (procs parked ! 0) = SLEEPING" "at parked 0 = Waiting None"
  by code_simp+

lemma system_forked: "system forked"
proof -
  let ?c = "Fork (Some (\<lambda>_. 0)) True True"
  let ?k = "sched_run 0 booted"
  have f: "fresh_page ?c k" for k by (simp add: fresh_page_def)
  have "system ?k" by (rule system.run [OF system_booted]) simp
  moreover have "state (procs ?k ! 0) = RUNNING" "state (procs (step0 ?c ?k) ! 0) = RUNNING"
    "state (procs (step0 ?c (step0 ?c ?k)) ! 0) = RUNNING" by code_simp+
  ultimately show ?thesis unfolding forked_def Let_def by (intro system_step0 f)
qed

lemma system_parked: "system parked"
  unfolding parked_def by (rule system_step0 [OF system_forked forked_state(1)]) (simp add: fresh_page_def)



text \<open>
  C5. No wakeup is lost: a process asleep in \<open>wait\<close> sleeps on itself, has a child, and no child of it is
  a zombie. A child that exits, or a zombie that is passed on to the first process, wakes it.
\<close>

theorem wait_sleeps_only_without_zombie:
  assumes "system k" "i < NPROC" "state (procs k ! i) = SLEEPING" "at k i = Waiting out"
  shows "chan (procs k ! i) = ProcChan i \<and> (\<exists>j < NPROC. parent (procs k ! j) = Some i) \<and>
    (\<forall>j < NPROC. parent (procs k ! j) = Some i \<longrightarrow> state (procs k ! j) \<noteq> ZOMBIE)"
proof -
  note t = tabD [OF system_tab [OF assms(1)]]
  have s: "st_of k i = SLEEPING" "waiting (at k i)" using assms by (simp_all add: view_at)
  obtain j where "pa_of k j = Some i" using t(19) [OF s] by blast
  then have "j < NPROC \<and> parent (procs k ! j) = Some i" by (auto simp: pa_of_def split: if_splits)
  moreover have "state (procs k ! l) \<noteq> ZOMBIE" if "l < NPROC" "parent (procs k ! l) = Some i" for l
    using t(20) [OF s, of l] that by (simp add: view_at)
  ultimately show ?thesis using t(19) [OF s] assms(2) by (auto simp: view_at)
qed

theorem wait_sleeps_only_without_zombie_witness:
  "system parked \<and> state (procs parked ! 0) = SLEEPING \<and> chan (procs parked ! 0) = ProcChan 0 \<and>
    (\<exists>j < NPROC. parent (procs parked ! j) = Some 0 \<and> state (procs parked ! j) \<noteq> ZOMBIE)"
  using wait_sleeps_only_without_zombie [OF system_parked _ parked_state] parked_state(1) system_parked by auto


lemma booted_runs: "state (procs (sched_run 0 booted) ! 0) = RUNNING" "at (sched_run 0 booted) = (\<lambda>_. User)"
  "initproc (sched_run 0 booted) = 0" "system (sched_run 0 booted)"
  using system.run [OF system_booted, of 0]
  by (simp_all add: booted_def sched_run_def first_proc_def)


lemma count_held: "count (held os) f = count_list os (Some f)"
  by (induction os) (auto split: option.splits)

definition pipe_desc :: "kernel \<Rightarrow> nat \<Rightarrow> bool \<Rightarrow> bool" where
  "pipe_desc k pi wr \<longleftrightarrow> (\<exists>i < NPROC. \<exists>f. Some f \<in> set (ofile (procs k ! i)) \<and>
     ftype (files (io k) ! f) = FD_PIPE \<and> fpipe (files (io k) ! f) = pi \<and> writable (files (io k) ! f) = wr)"

lemma pipe_desc_iff:
  assumes "kernel_ok k" shows "pipe_desc k pi wr \<longleftrightarrow> Some (pi, wr) \<in> range (ends (io k))"
proof -
  note D = kernel_okD [OF assms]
  have r: "refs_ok (descs (procs k)) (io k)" using D(3) by (simp add: held_ok_def io_ok_def)
  have R: "length (files (io k)) = NFILE" "i < NFILE \<Longrightarrow> ref (files (io k) ! i) = int (count (descs (procs k)) i)"
    "i \<in># descs (procs k) \<Longrightarrow> i < NFILE" for i using refs_okD [OF r] by auto
  have mem: "f \<in># descs (procs k) \<longleftrightarrow> (\<exists>i < NPROC. Some f \<in> set (ofile (procs k ! i)))" for f
  proof -
    have "f \<in># descs (procs k) \<longleftrightarrow> (\<exists>p \<in> set (procs k). Some f \<in> set (ofile p))"
      by (auto simp: descs_def held_iff)
    then show ?thesis using D(1) by (simp add: set_conv_nth) metis
  qed
  have e: "ends (io k) f = Some (pi, wr) \<longleftrightarrow> f \<in># descs (procs k) \<and> ftype (files (io k) ! f) = FD_PIPE \<and>
     fpipe (files (io k) ! f) = pi \<and> writable (files (io k) ! f) = wr" for f
    using R(1) R(2) [of f] R(3) [of f] by (auto simp: ends_def pipe_end_def split: if_splits)
  have "Some (pi, wr) \<in> range (ends (io k)) \<longleftrightarrow> (\<exists>f. ends (io k) f = Some (pi, wr))" by (metis rangeE rangeI)
  then show ?thesis unfolding e mem pipe_desc_def by blast
qed



section \<open>What the calls do\<close>

lemma kfork_makes_copy_lemma:
  assumes "system k" "me < NPROC" "state (procs k ! me) = RUNNING" "at k me = User"
    and "kfork tf pt_ok mem_ok me k = Inr (r, k')"
  shows "(r = -1 \<and> (tf = None \<or> \<not> pt_ok \<or> \<not> mem_ok \<or> (\<forall>p \<in> set (procs k). state p \<noteq> UNUSED))) \<or>
    (\<exists>np < NPROC. let c = procs k' ! np; p = procs k ! me in
       state (procs k ! np) = UNUSED \<and> (\<forall>j < np. state (procs k ! j) \<noteq> UNUSED) \<and>
       r = nextpid k \<and> nextpid k' = nextpid k + 1 \<and>
       pid c = r \<and> state c = RUNNABLE \<and> parent c = Some me \<and> ofile c = ofile p \<and> cwd c = cwd p \<and>
       pname c = pname p \<and> sz c = sz p \<and> trapframe c = map_option (\<lambda>t. t(A0 := 0)) (trapframe p) \<and>
       killed c = killed (procs k ! np) \<and>
       (\<forall>j < NPROC. j \<noteq> np \<longrightarrow> procs k' ! j = procs k ! j))"
proof (rule allocproc_cases [OF kernel_okD(1) [OF system_ok [OF assms(1)]], of tf pt_ok])
  assume "allocproc tf pt_ok k = (None, k)" "\<forall>p \<in> set (procs k). state p \<noteq> UNUSED"
  then show ?thesis using assms(5) by (simp add: kfork_def fork_alloc_def)
next
  fix i g
  assume i: "allocproc tf pt_ok k = (None, freeproc i (upd_proc i g (k\<lparr>nextpid := nextpid k + 1\<rparr>)))"
    "i < NPROC" "state (procs k ! i) = UNUSED"
  then have "first_index (\<lambda>p. state p = UNUSED) (procs k) \<noteq> None"
    using kernel_okD(1) [OF system_ok [OF assms(1)]] unfolding first_index_None by (metis nth_mem)
  then have "tf = None \<or> \<not> pt_ok" using i(1) by (auto simp: allocproc_def Let_def allocpid_def)
  then show ?thesis using i assms(5) by (auto simp: kfork_def fork_alloc_def)
next
  fix i t
  assume i: "i < NPROC" "state (procs k ! i) = UNUSED" "tf = Some t" "pt_ok"
    "\<And>j. j < i \<Longrightarrow> state (procs k ! j) \<noteq> UNUSED"
    and a: "allocproc tf pt_ok k =
      (Some i, upd_proc i (born t (nextpid k)) (goto i User (k\<lparr>nextpid := nextpid k + 1\<rparr>)))"
  note ok = system_ok [OF assms(1)]
  note D = kernel_okD [OF ok]
  show ?thesis
  proof (cases mem_ok)
    case False
    then show ?thesis using assms(5) a by (simp add: kfork_def fork_alloc_def)
  next
    case True
    have ne: "me \<noteq> i" using i assms(3) by auto
    let ?k1 = "upd_proc i (born t (nextpid k)) (goto i User (k\<lparr>nextpid := nextpid k + 1\<rparr>))"
    obtain d where d: "cwd (procs k ! me) = Some d" "length (ofile (procs k ! me)) = NOFILE"
      "io_ok (held (ofile (procs k ! me)) + descs_but me (procs k)) (add_mset d (dirs_but me (procs k))) (io k)"
      "typed (held (ofile (procs k ! me)) + descs_but me (procs k)) (io k)"
      using user_files [OF ok assms(2-4)] .
    obtain tp where tp: "trapframe (procs k ! me) = Some tp" using D(4) [OF assms(2)] assms(3) by (auto simp: slot_ok_def)
    have free: "ofile (procs k ! i) = replicate NOFILE None"
      using D(4) [OF i(1)] i(2) by (simp add: slot_ok_def over_def)
    obtain s where s: "dup_files (ofile (procs k ! me)) (ofile (procs k ! i)) (io k) = Inr (ofile (procs k ! me), s)"
      using dup_files_ok [OF d(3,4), of "ofile (procs k ! me)" "replicate NOFILE None"] free d(2) by auto
    have "fork_copy me i ?k1 = Inr (upd_proc i (copied (procs ?k1 ! me) tp d) (?k1\<lparr>io := idup d s\<rparr>))"
      using s tp d(1) D(1) i ne by (intro fork_copy_eq) simp_all
    then have r: "r = nextpid k" and k': "k' = fork_start i (fork_link me i (upd_proc i (copied (procs k ! me) tp d) (?k1\<lparr>io := idup d s\<rparr>)))"
      using assms(5) a True i(1,3,4) ne D(1) by (auto simp: kfork_def fork_alloc_def Let_def)
    show ?thesis using i D(1) ne d(1) tp unfolding r k'
      by (intro disjI2 exI [of _ i]) (simp add: Let_def fork_start_def fork_link_def born_def copied_def)
  qed
qed

text \<open>
  \<open>fork\<close> makes a copy: the first free slot becomes a runnable process with the next pid, the caller as
  its parent, the caller's descriptors, directory, name and size, and the caller's registers but for
  \<open>a0\<close>, which is 0; no other slot changes. Without a free slot, or when an allocation fails, it
  returns -1.
\<close>

theorem kfork_makes_copy:
  assumes "system k" "me < NPROC" "state (procs k ! me) = RUNNING" "at k me = User"
    and "kfork tf pt_ok mem_ok me k = Inr (r, k')"
  shows "(r = -1 \<and> (tf = None \<or> \<not> pt_ok \<or> \<not> mem_ok \<or> (\<forall>p \<in> set (procs k). state p \<noteq> UNUSED))) \<or>
    (\<exists>np < NPROC. let c = procs k' ! np; p = procs k ! me in
       state (procs k ! np) = UNUSED \<and> (\<forall>j < np. state (procs k ! j) \<noteq> UNUSED) \<and>
       r = nextpid k \<and> nextpid k' = nextpid k + 1 \<and>
       pid c = r \<and> state c = RUNNABLE \<and> parent c = Some me \<and> ofile c = ofile p \<and> cwd c = cwd p \<and>
       pname c = pname p \<and> sz c = sz p \<and> trapframe c = map_option (\<lambda>t. t(A0 := 0)) (trapframe p) \<and>
       killed c = killed (procs k ! np) \<and>
       (\<forall>j < NPROC. j \<noteq> np \<longrightarrow> procs k' ! j = procs k ! j))"
  by (rule kfork_makes_copy_lemma [OF assms])

theorem kfork_makes_copy_witness:
  "\<exists>k'. kfork (Some (\<lambda>_. 0)) True True 0 (sched_run 0 booted) = Inr (2, k') \<and> pid (procs k' ! 1) = 2 \<and>
    parent (procs k' ! 1) = Some 0 \<and> ofile (procs k' ! 1) = ofile (procs (sched_run 0 booted) ! 0)"
proof -
  let ?k = "sched_run 0 booted" and ?r = "kfork (Some (\<lambda>_. 0)) True True 0 (sched_run 0 booted)"
  have "(case ?r of Inr (r, k') \<Rightarrow> r = 2 \<and> pid (procs k' ! 1) = 2 \<and> (\<forall>j \<in> {2..<64}. pid (procs k' ! j) = 0) \<and> pid (procs k' ! 0) = 1
    | _ \<Rightarrow> False)" by code_simp
  then obtain k' where k: "?r = Inr (2, k')" "pid (procs k' ! 1) = 2" "\<And>j. j \<in> {2..<64} \<Longrightarrow> pid (procs k' ! j) = 0"
    "pid (procs k' ! 0) = 1"
    by (auto split: sum.splits prod.splits)
  have "state (procs ?k ! 0) = RUNNING" "at ?k 0 = User" by code_simp+
  from kfork_makes_copy [OF booted_runs(4) _ this k(1)] obtain np where np: "np < NPROC"
    "pid (procs k' ! np) = 2" "parent (procs k' ! np) = Some 0" "ofile (procs k' ! np) = ofile (procs ?k ! 0)"
    by (auto simp: Let_def)
  have "np = 1"
  proof (rule ccontr)
    assume "np \<noteq> 1"
    then have "np = 0 \<or> np \<in> {2..<64}" using np(1) by (auto simp: NPROC_def)
    then show False using k(3,4) np(2) by auto
  qed
  then show ?thesis using k np by simp
qed

text \<open>The table after \<open>exit\<close>, slot by slot.\<close>

lemma exit_zombie_nth:
  assumes "c \<noteq> initproc k" "length (procs k) = NPROC" "c < NPROC" "parent (procs k ! c) = Some q" "q \<noteq> c"
  shows "length (procs (exit_zombie z c k)) = NPROC"
    "j < NPROC \<Longrightarrow> procs (exit_zombie z c k) ! j =
      (let p = wake_one (Some c) (ProcChan q) j (adopted NPROC c k j (procs k ! j))
       in if j = c then p\<lparr>xstate := z, state := ZOMBIE\<rparr> else p)"
proof -
  note re = reparent_effect [OF assms(1)]
  have "parent_chan (procs (reparent c k) ! c) = ProcChan q"
    using re(6) [of c] assms by (simp add: parent_chan_def)
  then have e: "exit_zombie z c k =
    upd_proc c (\<lambda>p. p\<lparr>xstate := z, state := ZOMBIE\<rparr>) (wakeup (Some c) (ProcChan q) (reparent c k))"
    by (simp add: exit_zombie_def Let_def)
  show "length (procs (exit_zombie z c k)) = NPROC" using re(1) assms(2) by (simp add: e)
  show "j < NPROC \<Longrightarrow> procs (exit_zombie z c k) ! j =
      (let p = wake_one (Some c) (ProcChan q) j (adopted NPROC c k j (procs k ! j))
       in if j = c then p\<lparr>xstate := z, state := ZOMBIE\<rparr> else p)"
    using re(1,6) assms(2,3) by (simp add: e wakeup_nth Let_def)
qed

text \<open>After that, the parent's scan of the table finds the process that exited.\<close>

lemma exit_zombie_found:
  assumes "c \<noteq> initproc k" "length (procs k) = NPROC" "c < NPROC" "parent (procs k ! c) = Some q" "q \<noteq> c"
    and nz: "\<And>j. j < NPROC \<Longrightarrow> state (procs k ! j) = ZOMBIE \<Longrightarrow>
      parent (procs k ! j) \<noteq> Some q \<and> parent (procs k ! j) \<noteq> Some c"
  shows "first_index (\<lambda>x. parent x = Some q \<and> state x = ZOMBIE) (procs (exit_zombie z c k)) = Some c"
proof (rule first_index_unique)
  note ex = exit_zombie_nth [OF assms(1-5)]
  show "c < length (procs (exit_zombie z c k))" using ex(1) assms(3) by simp
  show "parent (procs (exit_zombie z c k) ! c) = Some q \<and> state (procs (exit_zombie z c k) ! c) = ZOMBIE"
    using ex(2) [OF assms(3)] assms(4,5) by (simp add: Let_def)
  fix j assume j: "j < length (procs (exit_zombie z c k))"
    "parent (procs (exit_zombie z c k) ! j) = Some q \<and> state (procs (exit_zombie z c k) ! j) = ZOMBIE"
  show "j = c"
  proof (rule ccontr)
    assume ne: "j \<noteq> c"
    have jn: "j < NPROC" using j(1) ex(1) by simp
    have "state (procs k ! j) = ZOMBIE" using j(2) ex(2) [OF jn] ne by (simp add: Let_def wake_one_def split: if_splits)
    moreover have "parent (procs k ! j) = Some q \<or> parent (procs k ! j) = Some c"
      using j(2) ex(2) [OF jn] ne by (simp add: Let_def split: if_splits)
    ultimately show False using nz [OF jn] by blast
  qed
qed

lemma exit_files_slots:
  assumes "exit_files c k = Inr k'" "length (procs k) = NPROC" "c < NPROC"
  shows "length (procs k') = NPROC" "initproc k' = initproc k" "state (procs k' ! j) = state (procs k ! j)"
    "parent (procs k' ! j) = parent (procs k ! j)" "chan (procs k' ! j) = chan (procs k ! j)"
    "pid (procs k' ! j) = pid (procs k ! j)"
  using assms by (auto simp: exit_files_def split: if_splits sum.splits option.splits)

text \<open>
  C40. The status given to \<open>exit\<close> is the one the parent's \<open>wait\<close> returns, with the pid of the child: after the
  child has exited, its parent is not asleep in \<open>wait\<close>, and when it scans the table, and no other child
  of it is a zombie, it finds that child, returns its pid and status and frees its slot.
\<close>

theorem exit_status_reaches_wait:
  assumes "system k" "c < NPROC" "state (procs k ! c) = RUNNING" "at k c = User" "c \<noteq> initproc k"
    and "parent (procs k ! c) = Some q"
    and "\<forall>j < NPROC. state (procs k ! j) = ZOMBIE \<longrightarrow> parent (procs k ! j) \<noteq> Some q \<and> parent (procs k ! j) \<noteq> Some c"
  shows "\<exists>k'. kexit z c k = Inr k' \<and> q \<noteq> c \<and>
    \<not> (state (procs k' ! q) = SLEEPING \<and> chan (procs k' ! q) = ProcChan q) \<and>
    fst (kwait_round (Some True) q k') = Reaped (pid (procs k ! c)) (Some z) \<and>
    state (procs (snd (kwait_round (Some True) q k')) ! c) = UNUSED"
proof -
  note ok = system_ok [OF assms(1)]
  note t = tabD [OF system_tab [OF assms(1)]]
  have len: "length (procs k) = NPROC" by (rule kernel_okD(1) [OF ok])
  obtain k1 where k1: "exit_files c k = Inr k1" using exit_files_ok [OF ok assms(2-5)] by blast
  note same = exit_files_slots [OF k1 len assms(2)]
  have "alive (st_of k q) \<and> pd_of k q < pd_of k c" using t(13) [of c q] assms(2,6) by (simp add: view_at)
  then have q: "q < NPROC" "q \<noteq> c" by (auto simp: st_of_def split: if_splits)
  have h: "c \<noteq> initproc k1" "length (procs k1) = NPROC" "parent (procs k1 ! c) = Some q"
    using same assms(5,6) by simp_all
  note ex = exit_zombie_nth [OF h(1,2) assms(2) h(3) q(2)]
  have f: "first_index (\<lambda>x. parent x = Some q \<and> state x = ZOMBIE) (procs (exit_zombie z c k1)) = Some c"
    using assms(7) same by (intro exit_zombie_found [OF h(1,2) assms(2) h(3) q(2)]) simp
  have sl: "\<not> (state (procs (exit_zombie z c k1) ! q) = SLEEPING \<and> chan (procs (exit_zombie z c k1) ! q) = ProcChan q)"
    using ex(2) [OF q(1)] q(2) by (auto simp: Let_def wake_one_def)
  have "xstate (procs (exit_zombie z c k1) ! c) = z \<and> pid (procs (exit_zombie z c k1) ! c) = pid (procs k ! c)"
    using ex(2) [OF assms(2)] same(6) by (simp add: Let_def)
  moreover have "kexit z c k = Inr (exit_zombie z c k1)" by (simp add: kexit_def k1)
  ultimately show ?thesis using f sl q(2) ex(1) assms(2)
    by (simp add: kwait_round_def Let_def freeproc_cleared)
qed

lemma pid_zero:
  assumes "system k" "p \<in> set (procs k)" shows "pid p = 0 \<longleftrightarrow> state p = UNUSED"
proof -
  obtain j where "j < length (procs k)" "procs k ! j = p" using assms(2) unfolding in_set_conv_nth by blast
  then show ?thesis
    using tabD(3) [OF system_tab [OF assms(1)], of j] kernel_okD(1) [OF system_ok [OF assms(1)]]
    by (auto simp: view_at)
qed

text \<open>\<open>kill\<close> with pid 0 marks the first free slot.\<close>

lemma kill_zero_marks:
  assumes "system k" "\<exists>p \<in> set (procs k). state p = UNUSED"
  obtains i where "i < NPROC" "kkill 0 k = (0, upd_proc i kill_one k)" "state (procs k ! i) = UNUSED"
    "\<And>j. j < i \<Longrightarrow> state (procs k ! j) \<noteq> UNUSED"
proof -
  have len: "length (procs k) = NPROC" by (rule kernel_okD(1) [OF system_ok [OF assms(1)]])
  show ?thesis
  proof (cases "first_index (\<lambda>p. pid p = 0) (procs k)")
    case None
    then show ?thesis using assms(2) pid_zero [OF assms(1)] unfolding first_index_None by blast
  next
    case (Some i)
    note I = first_index_SomeD [OF Some]
    have "state (procs k ! j) \<noteq> UNUSED" if "j < i" for j
      using I(1,3) that pid_zero [OF assms(1), of "procs k ! j"] by simp
    moreover have "state (procs k ! i) = UNUSED" using I(1,2) pid_zero [OF assms(1)] by simp
    ultimately show ?thesis using that [of i] I(1) len Some by (simp add: kkill_def)
  qed
qed

text \<open>
  \<open>kill\<close> with pid 0 does not fail when a slot is free: it finds the first free slot, whose pid is 0, and sets
  its \<open>killed\<close> flag, which \<open>allocproc\<close> does not clear. The next process that is forked is born killed, and
  dies at its first system call.
\<close>

theorem kill_zero_kills_next_child:
  assumes "system k" "me < NPROC" "state (procs k ! me) = RUNNING" "at k me = User"
    and "\<exists>p \<in> set (procs k). state p = UNUSED"
    and "kfork (Some t) True True me (snd (kkill 0 k)) = Inr (r, k')"
  shows "fst (kkill 0 k) = 0 \<and> r = nextpid k \<and>
    (\<exists>np < NPROC. pid (procs k' ! np) = r \<and> state (procs k' ! np) = RUNNABLE \<and> killed (procs k' ! np))"
proof -
  obtain i where i: "i < NPROC" "kkill 0 k = (0, upd_proc i kill_one k)" "state (procs k ! i) = UNUSED"
    "\<And>j. j < i \<Longrightarrow> state (procs k ! j) \<noteq> UNUSED" using kill_zero_marks [OF assms(1,5)] by blast
  have len: "length (procs k) = NPROC" by (rule kernel_okD(1) [OF system_ok [OF assms(1)]])
  let ?k = "snd (kkill 0 k)"
  have k: "?k = upd_proc i kill_one k" using i(2) by simp
  have run: "system ?k"
    using system.go [OF assms(1-3), of "Kill 0" ?k] assms(4) by (simp add: advance_def call_def fresh_page_def)
  have nth: "procs ?k ! j = (if j = i then kill_one (procs k ! i) else procs k ! j)" for j
    using i(1) len by (simp add: k)
  have ki: "killed (procs ?k ! i)" "state (procs ?k ! i) = UNUSED"
    using i(3) unfolding nth by (simp_all add: kill_one_def Let_def)
  have "\<exists>p \<in> set (procs ?k). state p = UNUSED" using ki(2) i(1) len k by (metis nth_mem upd_proc_simps(1))
  moreover have "state (procs ?k ! me) = RUNNING" "at ?k me = User" "nextpid ?k = nextpid k"
    using assms(3,4) i(3) nth by (auto simp: k)
  ultimately obtain np where np: "np < NPROC" "state (procs ?k ! np) = UNUSED"
    "\<forall>j < np. state (procs ?k ! j) \<noteq> UNUSED" "r = nextpid k" "pid (procs k' ! np) = r"
    "state (procs k' ! np) = RUNNABLE" "killed (procs k' ! np) = killed (procs ?k ! np)"
    using kfork_makes_copy_lemma [OF run assms(2) _ _ assms(6)] by (auto simp: Let_def)
  have "np = i" using np(2,3) ki(2) i(4) nth [of np] by (metis linorder_neqE_nat)
  then show ?thesis using np ki(1) i(2) by auto
qed

theorem kill_zero_kills_next_child_witness:
  "\<exists>k'. kfork (Some (\<lambda>_. 0)) True True 0 (snd (kkill 0 (sched_run 0 booted))) = Inr (2, k') \<and>
    (\<exists>np < NPROC. pid (procs k' ! np) = 2 \<and> state (procs k' ! np) = RUNNABLE \<and> killed (procs k' ! np))"
proof -
  let ?k = "sched_run 0 booted" and ?r = "kfork (Some (\<lambda>_. 0)) True True 0 (snd (kkill 0 (sched_run 0 booted)))"
  have "(case ?r of Inr (r, k') \<Rightarrow> r = 2 | _ \<Rightarrow> False)" by code_simp
  then obtain k' where k: "?r = Inr (2, k')" by (auto split: sum.splits prod.splits)
  have "state (procs ?k ! 0) = RUNNING" "at ?k 0 = User" "\<exists>p \<in> set (procs ?k). state p = UNUSED" by code_simp+
  from kill_zero_kills_next_child [OF booted_runs(4) _ this k] show ?thesis using k by auto
qed

theorem exit_status_reaches_wait_witness:
  "\<exists>k'. kexit 7 1 (sched_run 1 parked) = Inr k' \<and> state (procs k' ! 0) = RUNNABLE \<and>
    fst (kwait_round (Some True) 0 k') = Reaped 2 (Some 7)"
proof -
  let ?k = "sched_run 1 parked"
  have sys: "system ?k" by (rule system.run [OF system_parked]) (simp add: NPROC_def)
  have h: "state (procs ?k ! 1) = RUNNING" "at ?k 1 = User" "1 \<noteq> initproc ?k" "parent (procs ?k ! 1) = Some 0"
    "list_all (\<lambda>p. state p \<noteq> ZOMBIE) (procs ?k)" "pid (procs ?k ! 1) = 2" by code_simp+
  have "length (procs ?k) = NPROC" by code_simp
  then have "\<forall>j < NPROC. state (procs ?k ! j) = ZOMBIE \<longrightarrow>
    parent (procs ?k ! j) \<noteq> Some 0 \<and> parent (procs ?k ! j) \<noteq> Some 1" using h(5) by (simp add: list_all_length)
  then obtain k' where k: "kexit 7 1 ?k = Inr k'" "fst (kwait_round (Some True) 0 k') = Reaped 2 (Some 7)"
    using exit_status_reaches_wait [OF sys _ h(1-4), of 7] h(6) by (auto simp: NPROC_def)
  have "(case kexit 7 1 ?k of Inr k' \<Rightarrow> state (procs k' ! 0) = RUNNABLE | _ \<Rightarrow> False)" by code_simp
  then show ?thesis using k by auto
qed

end
