(* ===== verification/Spec2Isabelle.thy ===== *)
theory Spec2Isabelle
  imports ShellMain ShamTransfer Sched XvGrep XvLog XvPipe XvConsole XvUvm XvPrintf XvSh XvSysfile
    XvSpin XvKernel
begin

text \<open>
  A verification library for the mini project: a shell (\<open>src/shell\<close>), a file transfer over UDP
  (\<open>src/networking\<close>), and xv6 with three more schedulers (\<open>src/xv6/kernel\<close>, the changed files, and
  \<open>src/xv6/xv6-source\<close>, the system they are applied to). The three programs share no code at run
  time; within each, the theories below follow the source files, and a function of the source is a
  definition of the same name (with a prefix \<open>u_\<close> for the user version of a routine that the kernel
  has too, and \<open>sys\<close>, \<open>os\<close> or an outcome as an argument for what a system call or hardware returns).

  The shell.
  \<^item> \<open>ShellState\<close>: the globals as one record, the operating system as a record of functions on a world.
  \<^item> \<open>ShellSyntax\<close> (\<open>parser.c\<close>): the syntax check, equal to the grammar in the comments of the source.
  \<^item> \<open>ShellExec\<close> (\<open>executor.c\<close>): groups, pipelines, redirections; writes past the fixed arrays are
    faults. \<open>log execute\<close> calls the executor again, so \<open>execute_full_command\<close> recurses on fuel.
  \<^item> \<open>ShellJobs\<close> (\<open>jobs.c\<close>, \<open>job_control.c\<close>, \<open>signals.c\<close>), \<open>ShellHistory\<close> (\<open>log.c\<close>, a ring that refines
    a bounded list), \<open>ShellNav\<close> (\<open>hop.c\<close>, \<open>reveal.c\<close>), \<open>ShellMain\<close> (\<open>main.c\<close>, whole sessions).
  \<^item> \<open>ShellSafety\<close>: what the syntax check guarantees to the executor: no fault for accepted lines of
    at most 200 characters (longer ones can have more than 100 groups, which overflow), and that
    execution returns, with a fuel of 2, when no stored line is itself a \<open>log execute\<close>.

  The file transfer.
  \<^item> \<open>ShamPacket\<close> (\<open>sham.h\<close>, the packet functions), \<open>ShamServer\<close> (\<open>server.c\<close>), \<open>ShamClient\<close>
    (\<open>client.c\<close>): each program as a function of the datagrams it receives.
  \<^item> \<open>ShamTransfer\<close>: both with a network that loses, repeats, delays and reorders, as an inductive step
    relation; every state it reaches has a prefix of the file at the server.

  The changed kernel: \<open>Sched\<close> (\<open>proc.c\<close>, \<open>mlfq_scheduler.c\<close>, \<open>proc_init.c\<close>, \<open>trap.c\<close>, \<open>file.c\<close>,
  \<open>sysproc.c\<close>), the four schedulers over the locks of the process table.

  xv6.
  \<^item> \<open>XvSpin\<close> (\<open>spinlock.c\<close>): the lock as steps of any number of CPUs; mutual exclusion.
  \<^item> \<open>XvKalloc\<close> (\<open>kalloc.c\<close>), \<open>XvBio\<close> (\<open>bio.c\<close>, \<open>sleeplock.c\<close>), \<open>XvLog\<close> (\<open>log.c\<close>): memory pages, the
    buffer cache, and the log on it, with crash safety: wherever the machine stops, recovery finds all
    of a transaction or nothing of it.
  \<^item> \<open>XvBlocks\<close>, \<open>XvInode\<close>, \<open>XvItable\<close>, \<open>XvDir\<close> (\<open>fs.c\<close>): the block allocator, the content of a file, the
    table of inodes, directories and path names, on the disk that a transaction of the log shows (a map from block numbers to
    blocks). One invariant, \<open>fs_ok\<close>, says who owns which block, and every operation keeps it.
  \<^item> \<open>XvSysfile\<close> (\<open>sysfile.c\<close>, reading and writing in \<open>file.c\<close>): the system calls on path names over \<open>XvDir\<close>. \<open>create\<close>
    and \<open>unlink\<close> are shown as updates of the map that a directory is, \<open>filewrite\<close> as one of the bytes of a file.
  \<^item> \<open>XvVm\<close>, \<open>XvUserMem\<close>, \<open>XvUvm\<close> (\<open>vm.c\<close>, the memory of processes in \<open>proc.c\<close> and \<open>sysproc.c\<close>): page tables in the
    memory of \<open>XvKalloc\<close>, seen as a tree of tables (\<open>route\<close>) and as a map from virtual pages to entries
    (\<open>view\<close>), and on it the memory of a process as a map from addresses to bytes (\<open>umem\<close>), in which a page
    that is not yet allocated reads as zeros. \<open>XvUvm\<close>: how \<open>sbrk\<close> resizes it and \<open>fork\<close> copies it.
  \<^item> \<open>XvRing\<close>, \<open>XvPipe\<close> (\<open>pipe.c\<close>), \<open>XvConsole\<close> (\<open>console.c\<close>): queues with 32-bit counters that wrap.
  \<^item> \<open>XvFile\<close> (\<open>file.c\<close>, the descriptors of \<open>sysfile.c\<close>), \<open>XvProc\<close> (\<open>proc.c\<close>), \<open>XvKernel\<close>: open files,
    processes, and the two together as an inductive relation of everything running processes may do.
    Its invariant has four parts (where a process is, pids, the tree of parents, the sleepers) on
    functions of the slot, and the reference counts as multisets of descriptors.
  \<^item> \<open>XvString\<close> (\<open>string.c\<close>, \<open>ulib.c\<close>), \<open>XvPrintf\<close> (both \<open>printf.c\<close>), \<open>XvGrep\<close> (\<open>grep.c\<close>), \<open>XvSh\<close> (\<open>sh.c\<close>):
    library and user programs. The parser of \<open>sh.c\<close> recurses on a fuel of four for every character
    and four more, which is proved to be enough.

  The interfaces are locales, interpreted on the code's own definitions: \<open>comparator\<close> (Prelude, by
  \<open>strcmp\<close> and the job order), \<open>history_store\<close>, \<open>job_store\<close>, \<open>shell_invariant\<close> (what every command of
  the shell keeps, used by the executor), \<open>lock_scan\<close> (the selection loops of the schedulers),
  \<open>block_cache\<close> (what the log relies on) and \<open>bounded_queue\<close> (what pipe and console rely on).

  What the groups of lemmas show: well-formedness invariants that every operation keeps (collected as
  \<open>inv_pres\<close>), the effect of each operation on each branch, refinement of abstract contracts (history,
  jobs, cache, queues, files), equivalence with reference definitions (grammar, regular expressions,
  \<open>memmove\<close>), round trips, and, for the protocols and tables, what holds in every reachable state. Where the
  code is wrong, the error is a theorem about it.

  Choices that hold throughout: a C string is the list of its characters without the NUL, or, where
  aliasing matters, bytes in an explicit memory; machine integers are words where they can wrap (packet
  fields, ring counters, offsets), otherwise integers with the conversion written out; a panic, a
  fault or an undefined operation is a value of a sum or option type, never left out; a call that holds
  a lock throughout is one step, and a sleep ends a step.

  Not modelled: sockets, the command lines, the event log and the MD5 of the file transfer; control
  registers, traps and device registers of the hardware (\<open>start.c\<close>, \<open>plic.c\<close>, \<open>uart.c\<close>,
  \<open>virtio_disk.c\<close>, most of \<open>trap.c\<close>); the table of system calls, which only dispatches; the test programs of
  xv6. \<open>exec.c\<close> with \<open>sys_exec\<close>, the fetching of system call arguments and the allocator of user programs
  (\<open>umalloc.c\<close>) build on what is here and are left out.
\<close>

end
